(* ===== verification/Prelude.thy ===== *)
theory Prelude
  imports Main "HOL-Library.Word"
begin

text \<open>
  Shared vocabulary of the development.

  \<^item> The C++ components run in an error monad: a result is \<open>Inl e\<close> for an exception, a call of
    \<^verbatim>\<open>std::terminate\<close> or an access outside an array (which C++ leaves undefined), and \<open>Inr x\<close>
    for a value.  \<open>bindE\<close> sequences two computations, \<open>rd\<close> and \<open>wr\<close> are the checked
    array accesses, \<open>store_loop\<close> is the loop \<^verbatim>\<open>for (i = 0; i < n; ++i) a[off + i] = src(i)\<close>
    and \<open>array_init\<close> the expansion of a parameter pack in a brace initialiser.
  \<^item> \<^verbatim>\<open>std::size_t\<close> is a natural number below \<open>2 ^ 64\<close>; the subtractions and additions that can
    wrap around are written with \<open>sz_sub\<close> and \<open>sz_add\<close>.
\<close>

named_theorems fs_defs \<open>definitions of the BasicFixedString operations\<close>
named_theorems spec_defs \<open>definitions of the abstract operations\<close>

section \<open>Results\<close>

datatype cxx_error =
    Out_of_range
  | Invalid_argument
  | Bad_alloc
  | Terminate
  | Undefined

type_synonym 'a res = "cxx_error + 'a"

definition bindE :: "'a res \<Rightarrow> ('a \<Rightarrow> 'b res) \<Rightarrow> 'b res" where
  "bindE r f = (case r of Inl e \<Rightarrow> Inl e | Inr x \<Rightarrow> f x)"

lemma bindE_simps [simp]:
  "bindE (Inr x) f = f x"
  "bindE (Inl e) f = Inl e"
  by (simp_all add: bindE_def)

lemma bindE_eq_Inr [simp]: "bindE r f = Inr y \<longleftrightarrow> (\<exists>x. r = Inr x \<and> f x = Inr y)"
  by (cases r) auto

lemma bindE_eq_Inl: "bindE r f = Inl e \<longleftrightarrow> r = Inl e \<or> (\<exists>x. r = Inr x \<and> f x = Inl e)"
  by (cases r) auto

lemma bindE_assoc: "bindE (bindE r f) g = bindE r (\<lambda>x. bindE (f x) g)"
  by (cases r) auto

lemma bindE_Inr_right [simp]: "bindE r Inr = r"
  by (cases r) auto

lemma bindE_cong [fundef_cong]:
  "r = r' \<Longrightarrow> (\<And>x. r' = Inr x \<Longrightarrow> f x = g x) \<Longrightarrow> bindE r f = bindE r' g"
  by (cases r') auto

text \<open>The result of an addition, subtraction or multiplication of type \<^verbatim>\<open>int\<close>: overflow is undefined.\<close>

definition int_res :: "int \<Rightarrow> int res" where
  "int_res x = (if - (2 ^ 31) \<le> x \<and> x < 2 ^ 31 then Inr x else Inl Undefined)"

lemma int_res_in: "- (2 ^ 31) \<le> x \<Longrightarrow> x < 2 ^ 31 \<Longrightarrow> int_res x = Inr x"
  by (simp add: int_res_def)

text \<open>A function declared \<^verbatim>\<open>noexcept\<close> turns an escaping exception into \<^verbatim>\<open>std::terminate\<close>.\<close>

definition noexcept :: "'a res \<Rightarrow> 'a res" where
  "noexcept r = (case r of Inr x \<Rightarrow> Inr x
     | Inl e \<Rightarrow> Inl (if e = Undefined then Undefined else Terminate))"

lemma noexcept_Inr [simp]: "noexcept (Inr x) = Inr x"
  by (simp add: noexcept_def)

lemma noexcept_Inl [simp]: "noexcept (Inl e) = Inl (if e = Undefined then Undefined else Terminate)"
  by (simp add: noexcept_def)

lemma noexcept_eq_Inr [simp]: "noexcept r = Inr x \<longleftrightarrow> r = Inr x"
  by (cases r) auto

section \<open>Arrays\<close>

definition rd :: "'a list \<Rightarrow> nat \<Rightarrow> 'a res" where
  "rd a i = (if i < length a then Inr (a ! i) else Inl Undefined)"

definition wr :: "'a list \<Rightarrow> nat \<Rightarrow> 'a \<Rightarrow> 'a list res" where
  "wr a i v = (if i < length a then Inr (a[i := v]) else Inl Undefined)"

lemma rd_in [simp]: "i < length a \<Longrightarrow> rd a i = Inr (a ! i)"
  by (simp add: rd_def)

lemma rd_eq_Inr: "rd a i = Inr v \<longleftrightarrow> i < length a \<and> v = a ! i"
  by (auto simp: rd_def)

lemma wr_in [simp]: "i < length a \<Longrightarrow> wr a i v = Inr (a[i := v])"
  by (simp add: wr_def)

lemma wr_eq_Inr: "wr a i v = Inr b \<longleftrightarrow> i < length a \<and> b = a[i := v]"
  by (auto simp: wr_def)

fun traverse :: "('a \<Rightarrow> 'b res) \<Rightarrow> 'a list \<Rightarrow> 'b list res" where
  "traverse f [] = Inr []"
| "traverse f (x # xs) = bindE (f x) (\<lambda>y. bindE (traverse f xs) (\<lambda>ys. Inr (y # ys)))"

lemma traverse_Inr: "(\<And>x. x \<in> set xs \<Longrightarrow> f x = Inr (g x)) \<Longrightarrow> traverse f xs = Inr (map g xs)"
  by (induction xs) auto

text \<open>
  \<open>array_init n k f\<close> is the array of \<open>n\<close> elements with the brace initialiser
  \<^verbatim>\<open>{f(0), ..., f(k-1)}\<close>: the elements without an initialiser are zero.
\<close>

definition array_init :: "nat \<Rightarrow> nat \<Rightarrow> (nat \<Rightarrow> 'c::zero res) \<Rightarrow> 'c list res" where
  "array_init n k f = bindE (traverse f [0..<k]) (\<lambda>cs. Inr (cs @ replicate (n - k) 0))"

lemma array_init_Inr:
  "(\<And>i. i < k \<Longrightarrow> f i = Inr (g i)) \<Longrightarrow> array_init n k f = Inr (map g [0..<k] @ replicate (n - k) 0)"
  using traverse_Inr [of "[0..<k]" f g] by (simp add: array_init_def)

fun store_loop :: "(nat \<Rightarrow> 'c res) \<Rightarrow> nat \<Rightarrow> nat \<Rightarrow> nat \<Rightarrow> 'c list \<Rightarrow> 'c list res" where
  "store_loop src off i 0 a = Inr a"
| "store_loop src off i (Suc n) a =
     bindE (src i) (\<lambda>c. bindE (wr a (off + i) c) (\<lambda>a'. store_loop src off (Suc i) n a'))"

lemma store_loop_Inr:
  assumes "\<And>j. i \<le> j \<Longrightarrow> j < i + n \<Longrightarrow> src j = Inr (f j)" and "off + i + n \<le> length a"
  shows "store_loop src off i n a =
    Inr (take (off + i) a @ map f [i..<i + n] @ drop (off + i + n) a)"
  using assms
proof (induction n arbitrary: i a)
  case 0
  then show ?case by simp
next
  case (Suc n)
  have "store_loop src off (Suc i) n (a[off + i := f i]) =
      Inr (take (off + Suc i) (a[off + i := f i]) @ map f [Suc i..<Suc i + n]
        @ drop (off + Suc i + n) (a[off + i := f i]))"
    using Suc.prems by (intro Suc.IH) auto
  moreover have "take (off + Suc i) (a[off + i := f i]) = take (off + i) a @ [f i]"
    using Suc.prems(2) by (simp add: take_Suc_conv_app_nth)
  moreover have "[i..<i + Suc n] = i # [Suc i..<Suc i + n]"
    by (simp add: upt_conv_Cons)
  ultimately show ?case
    using Suc.prems by simp
qed

lemma map_nth_range: "pos + n \<le> length xs \<Longrightarrow> map (\<lambda>i. xs ! (pos + i)) [0..<n] = take n (drop pos xs)"
  by (rule nth_equalityI) auto

lemma map_nth_take: "n \<le> length xs \<Longrightarrow> map ((!) xs) [0..<n] = take n xs"
  using map_nth_range [of 0 n xs] by simp

section \<open>Loops with a bound on the iterations\<close>

text \<open>
  \<open>res_while n cond body s\<close> runs \<^verbatim>\<open>while (cond) body\<close> for fewer than \<open>n\<close> iterations; \<open>None\<close> says that the bound was
  reached.  \<open>bindO\<close> sequences computations that may reach it.
\<close>

fun res_while :: "nat \<Rightarrow> ('s \<Rightarrow> bool res) \<Rightarrow> ('s \<Rightarrow> 's res) \<Rightarrow> 's \<Rightarrow> 's res option" where
  "res_while 0 cond body s = None"
| "res_while (Suc n) cond body s =
     (case cond s of
        Inl e \<Rightarrow> Some (Inl e)
      | Inr t \<Rightarrow> if t then (case body s of Inl e \<Rightarrow> Some (Inl e) | Inr s' \<Rightarrow> res_while n cond body s') else Some (Inr s))"

lemma res_while_rule:
  assumes cond: "\<And>s. ok s \<Longrightarrow> cond s = Inr (go_on s)"
    and step: "\<And>s. ok s \<Longrightarrow> go_on s \<Longrightarrow> \<exists>s'. body s = Inr s' \<and> ok s' \<and> (m s' :: nat) < m s"
    and "ok s" "m s < n"
  shows "\<exists>s'. res_while n cond body s = Some (Inr s') \<and> ok s' \<and> \<not> go_on s'"
  using assms(3,4)
proof (induction n arbitrary: s)
  case (Suc n)
  show ?case
  proof (cases "go_on s")
    case True
    then obtain s' where "body s = Inr s'" "ok s'" "m s' < m s" using step Suc.prems by blast
    then show ?thesis using Suc cond True by auto
  qed (use Suc cond in auto)
qed simp

definition bindO :: "'a res option \<Rightarrow> ('a \<Rightarrow> 'b res option) \<Rightarrow> 'b res option" where
  "bindO r f = (case r of None \<Rightarrow> None | Some (Inl e) \<Rightarrow> Some (Inl e) | Some (Inr x) \<Rightarrow> f x)"

lemma bindO_simps [simp]:
  "bindO None f = None"
  "bindO (Some (Inl e)) f = Some (Inl e)"
  "bindO (Some (Inr x)) f = f x"
  by (simp_all add: bindO_def)

section \<open>Sizes\<close>

definition npos :: nat where
  "npos = 2 ^ 64 - 1"

definition sz_sub :: "nat \<Rightarrow> nat \<Rightarrow> nat" where
  "sz_sub a b = (if b \<le> a then a - b else 2 ^ 64 + a - b)"

definition sz_add :: "nat \<Rightarrow> nat \<Rightarrow> nat" where
  "sz_add a b = (a + b) mod 2 ^ 64"

lemma sz_sub_le [simp]: "b \<le> a \<Longrightarrow> sz_sub a b = a - b"
  by (simp add: sz_sub_def)

lemma sz_add_less [simp]: "a + b < 2 ^ 64 \<Longrightarrow> sz_add a b = a + b"
  by (simp add: sz_add_def)

lemma sz_sub_word: "a < 2 ^ 64 \<Longrightarrow> b < 2 ^ 64 \<Longrightarrow>
    sz_sub a b = unat (of_nat a - of_nat b :: 64 word)"
  by (auto simp: sz_sub_def unat_sub_if' unat_of_nat)

lemma sz_add_word: "sz_add a b = unat (of_nat a + of_nat b :: 64 word)"
  by (simp add: sz_add_def unat_of_nat flip: of_nat_add)

section \<open>Machine integers\<close>

lemma sint_unat:
  fixes w :: "'a::len word"
  shows "sint w = (if unat w < 2 ^ (LENGTH('a) - 1) then int (unat w) else int (unat w) - 2 ^ LENGTH('a))"
proof -
  obtain n where n: "LENGTH('a) = Suc n" by (cases "LENGTH('a)") auto
  have u: "0 \<le> uint w" "uint w < 2 ^ Suc n" using uint_lt2p[of w] n by auto
  have b: "bit (uint w) n \<longleftrightarrow> 2 ^ n \<le> uint w"
  proof -
    have "uint w div 2 ^ n < 2"
    proof (rule ccontr)
      assume "\<not> uint w div 2 ^ n < 2"
      then have "2 * 2 ^ n \<le> (uint w div 2 ^ n) * 2 ^ n" by (intro mult_right_mono) auto
      also have "\<dots> \<le> uint w" by (simp add: minus_mod_eq_div_mult[symmetric])
      finally show False using u by simp
    qed
    moreover have "0 \<le> uint w div 2 ^ n" using u by (simp add: pos_imp_zdiv_nonneg_iff)
    ultimately have "uint w div 2 ^ n = 0 \<or> uint w div 2 ^ n = 1" by linarith
    then have "odd (uint w div 2 ^ n) \<longleftrightarrow> 0 < uint w div 2 ^ n" by auto
    then show ?thesis by (simp add: bit_iff_odd pos_imp_zdiv_pos_iff)
  qed
  have "take_bit (Suc n) (uint w) = uint w" using u by (simp add: take_bit_int_eq_self)
  then have "sint w = uint w - 2 ^ Suc n * of_bool (bit (uint w) n)"
    by (simp add: sint_uint n signed_take_bit_eq_take_bit_minus)
  moreover have i: "int (unat w) = uint w" by simp
  moreover have "unat w < 2 ^ n \<longleftrightarrow> uint w < 2 ^ n"
    unfolding i[symmetric] by (metis of_nat_less_iff of_nat_numeral of_nat_power)
  ultimately show ?thesis using b n by simp
qed

lemma sint_of_nat_small:
  "m < 2 ^ (LENGTH('a::len) - 1) \<Longrightarrow> sint (of_nat m :: 'a word) = int m"
  by (simp add: sint_unat unat_of_nat mod_less less_le_trans[OF _ power_increasing])

end
