(* ===== verification/FixedString_Detail.thy ===== *)
theory FixedString_Detail
  imports Prelude "HOL-Library.List_Lexorder"
begin

text \<open>
  The free functions of \<^verbatim>\<open>folly/FixedString.h\<close> (namespace \<^verbatim>\<open>detail::fixedstring\<close>): bounds checks,
  the recursive comparison, the two \<^verbatim>\<open>char_at_\<close> selectors and the recursive searches, with the
  C-string length of \<^verbatim>\<open>folly/portability/Constexpr.h\<close>.  A character array is a list; the functions
  read it with \<open>rd\<close>, so a read outside the array is the error \<open>Undefined\<close>.  For each
  function a lemma states its result over lists under the bounds its callers establish: with
  them no read is out of bounds.
\<close>

section \<open>Bounds checks\<close>

definition assertOutOfBounds :: "'a res" where
  "assertOutOfBounds = Inl Out_of_range"

definition checkOverflow :: "nat \<Rightarrow> nat \<Rightarrow> nat res" where
  "checkOverflow i m = (if i \<le> m then Inr i else assertOutOfBounds)"

definition checkOverflowOrNpos :: "nat \<Rightarrow> nat \<Rightarrow> nat res" where
  "checkOverflowOrNpos i m =
     (if i = npos then Inr m else if i \<le> m then Inr i else assertOutOfBounds)"

definition checkOverflowIfDebug :: "bool \<Rightarrow> nat \<Rightarrow> nat \<Rightarrow> nat res" where
  "checkOverflowIfDebug kIsDebug i size' = (if kIsDebug then checkOverflow i size' else Inr i)"

lemma checkOverflow_simps [simp]:
  "i \<le> m \<Longrightarrow> checkOverflow i m = Inr i"
  "m < i \<Longrightarrow> checkOverflow i m = Inl Out_of_range"
  by (simp_all add: checkOverflow_def assertOutOfBounds_def)

lemma checkOverflow_eq_Inr: "checkOverflow i m = Inr j \<longleftrightarrow> i \<le> m \<and> j = i"
  by (auto simp: checkOverflow_def assertOutOfBounds_def)

text \<open>The number of characters that \<open>count\<close> asks for when \<open>m\<close> are left.\<close>

definition eff_count :: "nat \<Rightarrow> nat \<Rightarrow> nat" where
  "eff_count count m = (if count = npos then m else count)"

lemma checkOverflowOrNpos_eff:
  "checkOverflowOrNpos count m = checkOverflow (eff_count count m) m"
  by (simp add: checkOverflowOrNpos_def checkOverflow_def eff_count_def)

section \<open>C strings\<close>

function constexpr_strlen_internal :: "'c::zero list \<Rightarrow> nat \<Rightarrow> nat \<Rightarrow> nat res" where
  "constexpr_strlen_internal s off len =
     bindE (rd s (off + 0)) (\<lambda>c0. if c0 = 0 then Inr (len + 0) else
     bindE (rd s (off + 1)) (\<lambda>c1. if c1 = 0 then Inr (len + 1) else
     bindE (rd s (off + 2)) (\<lambda>c2. if c2 = 0 then Inr (len + 2) else
     bindE (rd s (off + 3)) (\<lambda>c3. if c3 = 0 then Inr (len + 3) else
     bindE (rd s (off + 4)) (\<lambda>c4. if c4 = 0 then Inr (len + 4) else
     bindE (rd s (off + 5)) (\<lambda>c5. if c5 = 0 then Inr (len + 5) else
     bindE (rd s (off + 6)) (\<lambda>c6. if c6 = 0 then Inr (len + 6) else
     bindE (rd s (off + 7)) (\<lambda>c7. if c7 = 0 then Inr (len + 7) else
       constexpr_strlen_internal s (off + 8) (len + 8)))))))))"
  by pat_completeness auto
termination
  by (relation "measure (\<lambda>(s, off, len). length s - off)") (auto simp: rd_eq_Inr)

declare constexpr_strlen_internal.simps [simp del]

definition constexpr_strlen :: "'c::zero list \<Rightarrow> nat res" where
  "constexpr_strlen s = constexpr_strlen_internal s 0 0"

text \<open>A C string holds a terminating null; its text is what stands before the first one.\<close>

definition cstr :: "'c::zero list \<Rightarrow> 'c list" where
  "cstr s = takeWhile (\<lambda>c. c \<noteq> 0) s"

lemma strlen_step:
  "off < length s \<Longrightarrow> length (takeWhile (\<lambda>c. c \<noteq> 0) (drop off s)) =
    (if s ! off = (0::'c::zero) then 0 else Suc (length (takeWhile (\<lambda>c. c \<noteq> 0) (drop (Suc off) s))))"
  by (simp add: Cons_nth_drop_Suc [symmetric])

lemma null_in_drop_Suc:
  "(0::'c::zero) \<in> set (drop off s) \<Longrightarrow> s ! off \<noteq> 0 \<Longrightarrow>
    off < length s \<and> 0 \<in> set (drop (Suc off) s)"
proof -
  assume zero: "0 \<in> set (drop off s)" and ne: "s ! off \<noteq> 0"
  then have off: "off < length s"
    by (metis drop_eq_Nil empty_iff list.set(1) not_le)
  with zero ne show ?thesis
    by (auto simp: Cons_nth_drop_Suc [symmetric])
qed

lemma null_in_drop_less: "(0::'c::zero) \<in> set (drop off s) \<Longrightarrow> off < length s"
  by (metis drop_eq_Nil empty_iff list.set(1) not_le)

lemma strlen_test:
  assumes "(0::'c::zero) \<in> set (drop k s)" and "k' = Suc k" and "n' = Suc n"
    and "0 \<in> set (drop k' s) \<Longrightarrow> r = Inr (n' + length (takeWhile (\<lambda>c. c \<noteq> 0) (drop k' s)))"
  shows "bindE (rd s k) (\<lambda>c. if c = 0 then Inr n else r) =
    Inr (n + length (takeWhile (\<lambda>c. c \<noteq> 0) (drop k s)))"
proof -
  have k: "k < length s"
    using assms(1) by (rule null_in_drop_less)
  show ?thesis
  proof (cases "s ! k = 0")
    case True
    with k show ?thesis by (simp add: strlen_step)
  next
    case False
    with assms(1) have "0 \<in> set (drop (Suc k) s)"
      by (blast dest: null_in_drop_Suc)
    with assms(2-4) k False show ?thesis by (simp add: strlen_step)
  qed
qed

lemma constexpr_strlen_internal_eq:
  "(0::'c::zero) \<in> set (drop off s) \<Longrightarrow>
    constexpr_strlen_internal s off len = Inr (len + length (takeWhile (\<lambda>c. c \<noteq> 0) (drop off s)))"
proof (induction "length s - off" arbitrary: off len rule: less_induct)
  case less
  have rec: "constexpr_strlen_internal s (off + 8) (len + 8) =
      Inr (len + 8 + length (takeWhile (\<lambda>c. c \<noteq> 0) (drop (off + 8) s)))"
    if "0 \<in> set (drop (off + 8) s)"
    using that null_in_drop_less [OF less.prems] by (intro less.hyps) auto
  show ?case
    unfolding constexpr_strlen_internal.simps [of s off len] add_0_right
    apply (rule strlen_test [OF less.prems, of "off + 1" "len + 1"], simp, simp)
    apply (rule strlen_test [of _ _ "off + 2" "len + 2"], assumption, simp, simp)
    apply (rule strlen_test [of _ _ "off + 3" "len + 3"], assumption, simp, simp)
    apply (rule strlen_test [of _ _ "off + 4" "len + 4"], assumption, simp, simp)
    apply (rule strlen_test [of _ _ "off + 5" "len + 5"], assumption, simp, simp)
    apply (rule strlen_test [of _ _ "off + 6" "len + 6"], assumption, simp, simp)
    apply (rule strlen_test [of _ _ "off + 7" "len + 7"], assumption, simp, simp)
    apply (rule strlen_test [of _ _ "off + 8" "len + 8"], assumption, simp, simp)
    by (rule rec)
qed

lemma constexpr_strlen_eq: "0 \<in> set s \<Longrightarrow> constexpr_strlen s = Inr (length (cstr s))"
  by (simp add: constexpr_strlen_def constexpr_strlen_internal_eq cstr_def)

section \<open>Comparison\<close>

datatype ordering = Lt | Eq | Gt

fun ordering_int :: "ordering \<Rightarrow> int" where
  "ordering_int Lt = -1"
| "ordering_int Eq = 0"
| "ordering_int Gt = 1"

function compare' ::
  "'c::linorder list \<Rightarrow> nat \<Rightarrow> nat \<Rightarrow> 'c list \<Rightarrow> nat \<Rightarrow> nat \<Rightarrow> ordering res" where
  "compare' left left_pos left_size right right_pos right_size =
     (if left_pos = left_size
      then Inr (if right_pos = right_size then Eq else Lt)
      else if right_pos = right_size then Inr Gt
      else bindE (rd left left_pos) (\<lambda>l. bindE (rd right right_pos) (\<lambda>r.
        if l < r then Inr Lt
        else if l > r then Inr Gt
        else compare' left (left_pos + 1) left_size right (right_pos + 1) right_size)))"
  by pat_completeness auto
termination
  by (relation "measure (\<lambda>(left, left_pos, _). length left - left_pos)") (auto simp: rd_eq_Inr)

declare compare'.simps [simp del]

definition equal' :: "'c::linorder list \<Rightarrow> nat \<Rightarrow> 'c list \<Rightarrow> nat \<Rightarrow> bool res" where
  "equal' left left_size right right_size =
     (if left_size = right_size
      then bindE (compare' left 0 left_size right 0 right_size) (\<lambda>ord. Inr (Eq = ord))
      else Inr False)"

text \<open>The reference: the lexicographic order of the library on lists.\<close>

definition lex_ordering :: "'c::linorder list \<Rightarrow> 'c list \<Rightarrow> ordering" where
  "lex_ordering xs ys = (if xs < ys then Lt else if xs = ys then Eq else Gt)"

lemma lex_ordering_simps [simp]:
  "lex_ordering [] [] = Eq"
  "lex_ordering [] (y # ys) = Lt"
  "lex_ordering (x # xs) [] = Gt"
  "lex_ordering (x # xs) (y # ys) =
     (if x < y then Lt else if x > y then Gt else lex_ordering xs ys)"
  by (auto simp: lex_ordering_def)

lemma lex_ordering_Lt [simp]: "lex_ordering xs ys = Lt \<longleftrightarrow> xs < ys"
  and lex_ordering_Eq [simp]: "lex_ordering xs ys = Eq \<longleftrightarrow> xs = ys"
  and lex_ordering_Gt [simp]: "lex_ordering xs ys = Gt \<longleftrightarrow> xs > ys"
  by (auto simp: lex_ordering_def)

lemma drop_take_Cons:
  "i < n \<Longrightarrow> n \<le> length xs \<Longrightarrow> drop i (take n xs) = xs ! i # drop (Suc i) (take n xs)"
  by (subst Cons_nth_drop_Suc [symmetric]) auto

lemma compare'_eq:
  "left_pos \<le> left_size \<Longrightarrow> left_size \<le> length left \<Longrightarrow>
   right_pos \<le> right_size \<Longrightarrow> right_size \<le> length right \<Longrightarrow>
   compare' left left_pos left_size right right_pos right_size =
     Inr (lex_ordering (drop left_pos (take left_size left)) (drop right_pos (take right_size right)))"
proof (induction left left_pos left_size right right_pos right_size rule: compare'.induct)
  case (1 left left_pos left_size right right_pos right_size)
  show ?case
  proof (cases "left_pos = left_size \<or> right_pos = right_size")
    case True
    with "1.prems" show ?thesis
      by (subst compare'.simps, cases "left_pos < left_size"; cases "right_pos < right_size")
        (auto simp: drop_take_Cons)
  next
    case False
    with "1.prems" have lt: "left_pos < left_size" "right_pos < right_size" by auto
    with "1.prems" have rd: "rd left left_pos = Inr (left ! left_pos)"
      "rd right right_pos = Inr (right ! right_pos)" by auto
    show ?thesis
      using "1.prems" False lt "1.IH" [OF _ _ rd]
      by (simp add: compare'.simps [of left left_pos] drop_take_Cons)
  qed
qed

lemma equal'_eq:
  "left_size \<le> length left \<Longrightarrow> right_size \<le> length right \<Longrightarrow>
   equal' left left_size right right_size = Inr (take left_size left = take right_size right)"
  by (auto simp: equal'_def compare'_eq eq_commute [of Eq] dest: arg_cong [of _ _ length])

section \<open>Character selection\<close>

definition char_at_concat :: "'c::zero list \<Rightarrow> nat \<Rightarrow> 'c list \<Rightarrow> nat \<Rightarrow> nat \<Rightarrow> 'c res" where
  "char_at_concat left left_count right right_count i =
     (if i < left_count then rd left i
      else if i < sz_add left_count right_count then rd right (i - left_count)
      else Inr 0)"

definition char_at_replace ::
  "'c::zero list \<Rightarrow> nat \<Rightarrow> nat \<Rightarrow> nat \<Rightarrow> 'c list \<Rightarrow> nat \<Rightarrow> nat \<Rightarrow> nat \<Rightarrow> 'c res" where
  "char_at_replace left left_size left_pos left_count right right_pos right_count i =
     (if i < left_pos then rd left i
      else if i < sz_add right_count left_pos then rd right (i - left_pos + right_pos)
      else if i < sz_add (sz_sub left_size left_count) right_count
      then rd left (i - right_count + left_count)
      else Inr 0)"

definition nth0 :: "'c::zero list \<Rightarrow> nat \<Rightarrow> 'c" where
  "nth0 xs i = (if i < length xs then xs ! i else 0)"

lemma char_at_concat_eq:
  assumes "left_count \<le> length left" "right_count \<le> length right"
    and "left_count + right_count < 2 ^ 64"
  shows "char_at_concat left left_count right right_count i =
    Inr (nth0 (take left_count left @ take right_count right) i)"
  using assms by (auto simp: char_at_concat_def nth0_def nth_append)

definition replace_range :: "'c list \<Rightarrow> nat \<Rightarrow> nat \<Rightarrow> 'c list \<Rightarrow> 'c list" where
  "replace_range xs pos count ys = take pos xs @ ys @ drop (pos + count) xs"

lemma length_replace_range:
  "pos + count \<le> length xs \<Longrightarrow> length (replace_range xs pos count ys) = length xs - count + length ys"
  by (simp add: replace_range_def)

lemma char_at_replace_eq:
  assumes "left_size \<le> length left" and "left_pos + left_count \<le> left_size"
    and "right_pos + right_count \<le> length right"
    and "left_size + right_count < 2 ^ 64"
  shows "char_at_replace left left_size left_pos left_count right right_pos right_count i =
    Inr (nth0 (replace_range (take left_size left) left_pos left_count
      (take right_count (drop right_pos right))) i)"
proof -
  have len: "length (replace_range (take left_size left) left_pos left_count
      (take right_count (drop right_pos right))) = left_size - left_count + right_count"
    using assms by (simp add: length_replace_range)
  consider "i < left_pos" | "left_pos \<le> i" "i < right_count + left_pos"
    | "right_count + left_pos \<le> i" "i < left_size - left_count + right_count"
    | "left_size - left_count + right_count \<le> i" by linarith
  then show ?thesis
  proof cases
    case 1
    with assms have "i < left_size - left_count + right_count" by linarith
    with 1 assms len show ?thesis
      by (simp add: char_at_replace_def nth0_def) (simp add: replace_range_def nth_append)
  next
    case 2
    with assms have "i < left_size - left_count + right_count" and "i - left_pos < right_count"
      by linarith+
    with 2 assms len show ?thesis
      by (simp add: char_at_replace_def nth0_def) (simp add: replace_range_def nth_append add.commute)
  next
    case 3
    with assms have "\<not> i < left_pos" "\<not> i - left_pos < right_count"
      and "i - left_pos - right_count + (left_pos + left_count) = i - right_count + left_count"
      by linarith+
    with 3 assms len show ?thesis
      by (simp add: char_at_replace_def nth0_def) (simp add: replace_range_def nth_append add.commute)
  next
    case 4
    with assms have "\<not> i < left_pos" "\<not> i < right_count + left_pos" by linarith+
    with 4 assms len show ?thesis by (simp add: char_at_replace_def nth0_def)
  qed
qed

section \<open>Searching\<close>

fun find_at' :: "'c list \<Rightarrow> 'c list \<Rightarrow> nat \<Rightarrow> nat \<Rightarrow> bool res" where
  "find_at' left right pos 0 = Inr True"
| "find_at' left right pos (Suc count) =
     bindE (rd left (pos + count)) (\<lambda>l. bindE (rd right count) (\<lambda>r.
       if l = r then find_at' left right pos count else Inr False))"

fun find_one_of_at' :: "'c \<Rightarrow> 'c list \<Rightarrow> nat \<Rightarrow> bool res" where
  "find_one_of_at' ch right 0 = Inr False"
| "find_one_of_at' ch right (Suc pos) =
     bindE (rd right pos) (\<lambda>r. if ch = r then Inr True else find_one_of_at' ch right pos)"

function find' :: "'c list \<Rightarrow> nat \<Rightarrow> 'c list \<Rightarrow> nat \<Rightarrow> nat \<Rightarrow> nat res" where
  "find' left left_size right pos count =
     bindE (find_at' left right pos count) (\<lambda>b.
       if b then Inr pos
       else if left_size \<le> pos + count then Inr npos
       else find' left left_size right (pos + 1) count)"
  by pat_completeness auto
termination
  by (relation "measure (\<lambda>(left, left_size, right, pos, count). left_size - pos)") auto

fun rfind' :: "'c list \<Rightarrow> 'c list \<Rightarrow> nat \<Rightarrow> nat \<Rightarrow> nat res" where
  "rfind' left right 0 count =
     bindE (find_at' left right 0 count) (\<lambda>b. if b then Inr 0 else Inr npos)"
| "rfind' left right (Suc pos) count =
     bindE (find_at' left right (Suc pos) count) (\<lambda>b.
       if b then Inr (Suc pos) else rfind' left right pos count)"

function find_first_of' :: "'c list \<Rightarrow> nat \<Rightarrow> 'c list \<Rightarrow> nat \<Rightarrow> nat \<Rightarrow> nat res" where
  "find_first_of' left left_size right pos count =
     bindE (rd left pos) (\<lambda>l. bindE (find_one_of_at' l right count) (\<lambda>b.
       if b then Inr pos
       else if left_size \<le> pos + 1 then Inr npos
       else find_first_of' left left_size right (pos + 1) count))"
  by pat_completeness auto
termination
  by (relation "measure (\<lambda>(left, left_size, right, pos, count). left_size - pos)") auto

function find_first_not_of' :: "'c list \<Rightarrow> nat \<Rightarrow> 'c list \<Rightarrow> nat \<Rightarrow> nat \<Rightarrow> nat res" where
  "find_first_not_of' left left_size right pos count =
     bindE (rd left pos) (\<lambda>l. bindE (find_one_of_at' l right count) (\<lambda>b.
       if \<not> b then Inr pos
       else if left_size \<le> pos + 1 then Inr npos
       else find_first_not_of' left left_size right (pos + 1) count))"
  by pat_completeness auto
termination
  by (relation "measure (\<lambda>(left, left_size, right, pos, count). left_size - pos)") auto

fun find_last_of' :: "'c list \<Rightarrow> 'c list \<Rightarrow> nat \<Rightarrow> nat \<Rightarrow> nat res" where
  "find_last_of' left right 0 count =
     bindE (rd left 0) (\<lambda>l. bindE (find_one_of_at' l right count) (\<lambda>b.
       if b then Inr 0 else Inr npos))"
| "find_last_of' left right (Suc pos) count =
     bindE (rd left (Suc pos)) (\<lambda>l. bindE (find_one_of_at' l right count) (\<lambda>b.
       if b then Inr (Suc pos) else find_last_of' left right pos count))"

fun find_last_not_of' :: "'c list \<Rightarrow> 'c list \<Rightarrow> nat \<Rightarrow> nat \<Rightarrow> nat res" where
  "find_last_not_of' left right 0 count =
     bindE (rd left 0) (\<lambda>l. bindE (find_one_of_at' l right count) (\<lambda>b.
       if \<not> b then Inr 0 else Inr npos))"
| "find_last_not_of' left right (Suc pos) count =
     bindE (rd left (Suc pos)) (\<lambda>l. bindE (find_one_of_at' l right count) (\<lambda>b.
       if \<not> b then Inr (Suc pos) else find_last_not_of' left right pos count))"

declare find'.simps [simp del] find_first_of'.simps [simp del] find_first_not_of'.simps [simp del]

text \<open>
  The reference results: the first position in \<open>[lo, hi)\<close>, or the last one up to \<open>hi\<close>,
  that satisfies a predicate, and \<open>npos\<close> when there is none.
\<close>

definition first_from :: "(nat \<Rightarrow> bool) \<Rightarrow> nat \<Rightarrow> nat \<Rightarrow> nat" where
  "first_from P lo hi = (case filter P [lo..<hi] of [] \<Rightarrow> npos | i # _ \<Rightarrow> i)"

definition last_upto :: "(nat \<Rightarrow> bool) \<Rightarrow> nat \<Rightarrow> nat" where
  "last_upto P hi = (case filter P (rev [0..<Suc hi]) of [] \<Rightarrow> npos | i # _ \<Rightarrow> i)"

lemma first_from_unfold:
  "first_from P lo hi = (if lo < hi then if P lo then lo else first_from P (Suc lo) hi else npos)"
  by (auto simp: first_from_def upt_conv_Cons)

lemma last_upto_0 [simp]: "last_upto P 0 = (if P 0 then 0 else npos)"
  by (simp add: last_upto_def)

lemma last_upto_Suc [simp]:
  "last_upto P (Suc n) = (if P (Suc n) then Suc n else last_upto P n)"
  by (simp add: last_upto_def)

lemma first_from_found:
  "lo \<le> i \<Longrightarrow> i < hi \<Longrightarrow> P i \<Longrightarrow> (\<And>j. lo \<le> j \<Longrightarrow> j < i \<Longrightarrow> \<not> P j) \<Longrightarrow> first_from P lo hi = i"
proof (induction "i - lo" arbitrary: lo)
  case 0
  then show ?case by (simp add: first_from_unfold [of P lo])
next
  case (Suc n)
  then have "first_from P (Suc lo) hi = i" by simp
  with Suc show ?case by (simp add: first_from_unfold [of P lo])
qed

lemma first_from_none: "(\<And>i. lo \<le> i \<Longrightarrow> i < hi \<Longrightarrow> \<not> P i) \<Longrightarrow> first_from P lo hi = npos"
  by (auto simp: first_from_def filter_empty_conv split: list.split)

lemma last_upto_found:
  "i \<le> hi \<Longrightarrow> P i \<Longrightarrow> (\<And>j. i < j \<Longrightarrow> j \<le> hi \<Longrightarrow> \<not> P j) \<Longrightarrow> last_upto P hi = i"
  by (induction hi) (auto simp: le_Suc_eq)

lemma last_upto_none: "(\<And>i. i \<le> hi \<Longrightarrow> \<not> P i) \<Longrightarrow> last_upto P hi = npos"
  by (induction hi) auto

lemma first_from_cong:
  "(\<And>i. lo \<le> i \<Longrightarrow> i < hi \<Longrightarrow> P i = Q i) \<Longrightarrow> first_from P lo hi = first_from Q lo hi"
  using filter_cong [of "[lo..<hi]" "[lo..<hi]" P Q] by (simp add: first_from_def)

lemma first_from_extend:
  assumes "hi \<le> hi'" and "\<And>i. hi \<le> i \<Longrightarrow> i < hi' \<Longrightarrow> \<not> P i"
  shows "first_from P lo hi = first_from P lo hi'"
proof (cases "lo \<le> hi")
  case True
  have "filter P [hi..<hi'] = []" using assms(2) by (simp add: filter_empty_conv)
  moreover have "[lo..<hi'] = [lo..<hi] @ [hi..<hi']"
    using True assms(1) upt_add_eq_append [of lo hi "hi' - hi"] by simp
  ultimately show ?thesis by (simp add: first_from_def)
next
  case False
  then show ?thesis using assms by (simp add: first_from_none)
qed

lemma last_upto_cong: "(\<And>i. i \<le> n \<Longrightarrow> P i = Q i) \<Longrightarrow> last_upto P n = last_upto Q n"
  by (induction n) auto

lemma last_upto_cut: "(\<And>i. k < i \<Longrightarrow> i \<le> n \<Longrightarrow> \<not> P i) \<Longrightarrow> last_upto P n = last_upto P (min n k)"
proof (induction n)
  case 0
  then show ?case by simp
next
  case (Suc n)
  show ?case
  proof (cases "Suc n \<le> k")
    case True
    then show ?thesis by (simp add: min_absorb1)
  next
    case False
    then have "\<not> P (Suc n)" and "last_upto P n = last_upto P (min n k)"
      and "min (Suc n) k = min n k"
      using Suc by auto
    then show ?thesis by simp
  qed
qed

lemma find_at'_eq:
  "pos + count \<le> length left \<Longrightarrow> count \<le> length right \<Longrightarrow>
   find_at' left right pos count = Inr (take count (drop pos left) = take count right)"
  by (induction count) (auto simp: take_Suc_conv_app_nth)

lemma find_one_of_at'_eq:
  "pos \<le> length right \<Longrightarrow> find_one_of_at' ch right pos = Inr (ch \<in> set (take pos right))"
  by (induction pos) (auto simp: take_Suc_conv_app_nth)

lemma find'_eq:
  "pos + count \<le> left_size \<Longrightarrow> left_size \<le> length left \<Longrightarrow> count \<le> length right \<Longrightarrow>
   find' left left_size right pos count =
     Inr (first_from (\<lambda>i. take count (drop i left) = take count right) pos (left_size - count + 1))"
proof (induction left left_size right pos count rule: find'.induct)
  case (1 left left_size right pos count)
  then show ?case
    by (subst find'.simps, subst first_from_unfold)
      (auto simp: find_at'_eq first_from_unfold [of _ "Suc pos"])
qed

lemma rfind'_eq:
  "pos + count \<le> length left \<Longrightarrow> count \<le> length right \<Longrightarrow>
   rfind' left right pos count =
     Inr (last_upto (\<lambda>i. take count (drop i left) = take count right) pos)"
  by (induction pos) (simp_all add: find_at'_eq)

lemma find_first_of'_eq:
  "pos < left_size \<Longrightarrow> left_size \<le> length left \<Longrightarrow> count \<le> length right \<Longrightarrow>
   find_first_of' left left_size right pos count =
     Inr (first_from (\<lambda>i. left ! i \<in> set (take count right)) pos left_size)"
proof (induction left left_size right pos count rule: find_first_of'.induct)
  case (1 left left_size right pos count)
  then show ?case
    by (subst find_first_of'.simps, subst first_from_unfold)
      (auto simp: find_one_of_at'_eq first_from_unfold [of _ "Suc pos"])
qed

lemma find_first_not_of'_eq:
  "pos < left_size \<Longrightarrow> left_size \<le> length left \<Longrightarrow> count \<le> length right \<Longrightarrow>
   find_first_not_of' left left_size right pos count =
     Inr (first_from (\<lambda>i. left ! i \<notin> set (take count right)) pos left_size)"
proof (induction left left_size right pos count rule: find_first_not_of'.induct)
  case (1 left left_size right pos count)
  then show ?case
    by (subst find_first_not_of'.simps, subst first_from_unfold)
      (auto simp: find_one_of_at'_eq first_from_unfold [of _ "Suc pos"])
qed

lemma find_last_of'_eq:
  "pos < length left \<Longrightarrow> count \<le> length right \<Longrightarrow>
   find_last_of' left right pos count =
     Inr (last_upto (\<lambda>i. left ! i \<in> set (take count right)) pos)"
  by (induction pos) (simp_all add: find_one_of_at'_eq)

lemma find_last_not_of'_eq:
  "pos < length left \<Longrightarrow> count \<le> length right \<Longrightarrow>
   find_last_not_of' left right pos count =
     Inr (last_upto (\<lambda>i. left ! i \<notin> set (take count right)) pos)"
  by (induction pos) (simp_all add: find_one_of_at'_eq)

end
