(* ===== verification/FixedString.thy ===== *)
theory FixedString
  imports FixedString_Detail
begin

text \<open>
  \<^verbatim>\<open>BasicFixedString<Char, N>\<close> of \<^verbatim>\<open>folly/FixedString.h\<close>: construction, assignment, element
  access, appending, erasing, replacing, copying and resizing.  An object is its array \<^verbatim>\<open>data_\<close> of
  \<open>N + 1\<close> characters and its \<^verbatim>\<open>size_\<close>; the character type is a type variable, as in the
  template.  A \<^verbatim>\<open>const Char*\<close> is the list of characters it points at, an iterator into
  \<^verbatim>\<open>data_\<close> is its index, an \<^verbatim>\<open>initializer_list\<close> is a list, and a member function returns the
  new object.  The build is the release one (\<^verbatim>\<open>NDEBUG\<close>): \<^verbatim>\<open>assertOutOfBounds\<close> throws.  Every
  operation checks its arguments before its first write, so an error result loses no state.

  The lemmas \<open>fs_..._refines\<close> state each operation over the represented string: the
  result is the string the documented operation gives, or \<^verbatim>\<open>std::out_of_range\<close> exactly where it
  does not fit, the invariant holds again, and no array access is out of bounds.
\<close>

record 'c fixed_string =
  fs_data :: "'c list"
  fs_size :: nat

section \<open>Construction\<close>

definition fs_capacity :: "'c fixed_string \<Rightarrow> nat" where
  "fs_capacity s = length (fs_data s) - 1"

definition checkNullTerminated :: "'c::zero list \<Rightarrow> 'c list res" where
  "checkNullTerminated a =
     bindE (rd a (length a - 1)) (\<lambda>c. if c = 0 then Inr a else Inl Terminate)"

definition ctor_copy ::
  "nat \<Rightarrow> 'c::zero list \<Rightarrow> nat \<Rightarrow> nat \<Rightarrow> nat \<Rightarrow> nat \<Rightarrow> 'c fixed_string res" where
  "ctor_copy N that size' Is pos count =
     bindE (array_init (N + 1) Is
       (\<lambda>i. if i < sz_sub size' pos \<and> i < count then rd that (i + pos) else Inr 0))
     (\<lambda>d. Inr \<lparr>fs_data = d, fs_size = min (sz_sub size' pos) count\<rparr>)"

definition ctor_fill :: "nat \<Rightarrow> nat \<Rightarrow> 'c::zero \<Rightarrow> 'c fixed_string res" where
  "ctor_fill N count ch =
     bindE (array_init (N + 1) N (\<lambda>i. Inr (if i < count then ch else 0)))
     (\<lambda>d. Inr \<lparr>fs_data = d, fs_size = count\<rparr>)"

definition ctor_concat ::
  "nat \<Rightarrow> 'c::zero list \<Rightarrow> nat \<Rightarrow> 'c list \<Rightarrow> nat \<Rightarrow> 'c fixed_string res" where
  "ctor_concat N left left_size right right_size =
     bindE (array_init (N + 1) N (char_at_concat left left_size right right_size))
     (\<lambda>d. Inr \<lparr>fs_data = d, fs_size = sz_add left_size right_size\<rparr>)"

definition ctor_replace ::
  "nat \<Rightarrow> 'c::zero list \<Rightarrow> nat \<Rightarrow> nat \<Rightarrow> nat \<Rightarrow> 'c list \<Rightarrow> nat \<Rightarrow> nat \<Rightarrow> 'c fixed_string res" where
  "ctor_replace N left left_size left_pos left_count right right_pos right_count =
     bindE (array_init (N + 1) N
       (char_at_replace left left_size left_pos left_count right right_pos right_count))
     (\<lambda>d. Inr \<lparr>fs_data = d, fs_size = sz_add (sz_sub left_size left_count) right_count\<rparr>)"

definition Helper_concat ::
  "nat \<Rightarrow> 'c::zero list \<Rightarrow> nat \<Rightarrow> 'c list \<Rightarrow> nat \<Rightarrow> 'c fixed_string res" where
  "Helper_concat N left left_count right right_count =
     ctor_concat N left left_count right right_count"

definition Helper_replace ::
  "nat \<Rightarrow> 'c::zero list \<Rightarrow> nat \<Rightarrow> nat \<Rightarrow> nat \<Rightarrow> 'c list \<Rightarrow> nat \<Rightarrow> nat \<Rightarrow> 'c fixed_string res" where
  "Helper_replace N left left_size left_pos left_count right right_pos right_count =
     ctor_replace N left left_size left_pos left_count right right_pos right_count"

definition fs_default :: "nat \<Rightarrow> 'c::zero fixed_string" where
  "fs_default N = \<lparr>fs_data = replicate (N + 1) 0, fs_size = 0\<rparr>"

definition noexcept_if :: "bool \<Rightarrow> 'a res \<Rightarrow> 'a res" where
  "noexcept_if b r = (if b then noexcept r else r)"

definition fs_of_range :: "nat \<Rightarrow> 'c::zero fixed_string \<Rightarrow> nat \<Rightarrow> nat \<Rightarrow> 'c fixed_string res" where
  "fs_of_range N that pos count =
     bindE (checkOverflow pos (fs_size that)) (\<lambda>p.
     bindE (checkOverflowOrNpos count (sz_sub (fs_size that) p)) (\<lambda>c.
     bindE (checkOverflow c N) (\<lambda>c.
       ctor_copy N (fs_data that) (fs_size that) (min (fs_capacity that) N) pos c)))"

definition fs_of_fs :: "nat \<Rightarrow> 'c::zero fixed_string \<Rightarrow> 'c fixed_string res" where
  "fs_of_fs N that =
     noexcept_if (fs_capacity that \<le> N) (fs_of_range N that 0 (fs_size that))"

definition fs_of_literal :: "nat \<Rightarrow> 'c::zero list \<Rightarrow> 'c fixed_string res" where
  "fs_of_literal N that =
     bindE (checkNullTerminated that) (\<lambda>a.
       ctor_copy N a (length a - 1) (length a - 1) 0 npos)"

definition fs_of_ptr :: "nat \<Rightarrow> 'c::zero list \<Rightarrow> nat \<Rightarrow> 'c fixed_string res" where
  "fs_of_ptr N that count =
     bindE (checkOverflow count N) (\<lambda>c. ctor_copy N that c N 0 npos)"

definition fs_of_fill :: "nat \<Rightarrow> nat \<Rightarrow> 'c::zero \<Rightarrow> 'c fixed_string res" where
  "fs_of_fill N count ch = bindE (checkOverflow count N) (\<lambda>c. ctor_fill N c ch)"

definition fs_of_il :: "nat \<Rightarrow> 'c::zero list \<Rightarrow> 'c fixed_string res" where
  "fs_of_il N il = fs_of_ptr N il (length il)"

section \<open>Copying and assignment\<close>

text \<open>
  \<^verbatim>\<open>copy\<close> returns the count it reports and the destination buffer after the writes.
\<close>

fun copy_loop :: "'c fixed_string \<Rightarrow> nat \<Rightarrow> nat \<Rightarrow> nat \<Rightarrow> nat \<Rightarrow> 'c list \<Rightarrow> (nat \<times> 'c list) res" where
  "copy_loop s count pos i 0 dest = Inr (count, dest)"
| "copy_loop s count pos i (Suc n) dest =
     (if i + pos = fs_size s then Inr (fs_size s, dest)
      else bindE (rd (fs_data s) (i + pos)) (\<lambda>c.
        bindE (wr dest i c) (\<lambda>dest'. copy_loop s count pos (Suc i) n dest')))"

definition fs_copy_pos :: "'c fixed_string \<Rightarrow> 'c list \<Rightarrow> nat \<Rightarrow> nat \<Rightarrow> (nat \<times> 'c list) res" where
  "fs_copy_pos s dest count pos =
     bindE (checkOverflow pos (fs_size s)) (\<lambda>_. copy_loop s count pos 0 count dest)"

definition fs_copy :: "'c fixed_string \<Rightarrow> 'c list \<Rightarrow> nat \<Rightarrow> (nat \<times> 'c list) res" where
  "fs_copy s dest count = noexcept (fs_copy_pos s dest count 0)"

definition fs_assign_fs :: "'c::zero fixed_string \<Rightarrow> 'c fixed_string \<Rightarrow> 'c fixed_string res" where
  "fs_assign_fs s that =
     noexcept_if (fs_capacity that \<le> fs_capacity s)
       (bindE (checkOverflow (fs_size that) (fs_capacity s)) (\<lambda>_.
        bindE (fs_copy that (fs_data s) (fs_size that)) (\<lambda>(n, d).
        bindE (wr d n 0) (\<lambda>d'. Inr (s\<lparr>fs_data := d', fs_size := n\<rparr>)))))"

definition fs_assign_ptr :: "'c::zero fixed_string \<Rightarrow> 'c list \<Rightarrow> nat \<Rightarrow> 'c fixed_string res" where
  "fs_assign_ptr s that count =
     bindE (checkOverflow count (fs_capacity s)) (\<lambda>_.
     bindE (store_loop (rd that) 0 0 count (fs_data s)) (\<lambda>d.
     bindE (wr d count 0) (\<lambda>d'. Inr (s\<lparr>fs_data := d', fs_size := count\<rparr>))))"

definition fs_assign_literal :: "'c::zero fixed_string \<Rightarrow> 'c list \<Rightarrow> 'c fixed_string res" where
  "fs_assign_literal s that =
     noexcept (bindE (checkNullTerminated that) (\<lambda>a. fs_assign_ptr s a (length that - 1)))"

definition fs_opassign_literal :: "'c::zero fixed_string \<Rightarrow> 'c list \<Rightarrow> 'c fixed_string res" where
  "fs_opassign_literal s that =
     noexcept (bindE (checkNullTerminated that) (\<lambda>a. fs_assign_ptr s a (length that - 1)))"

definition fs_assign_il :: "'c::zero fixed_string \<Rightarrow> 'c list \<Rightarrow> 'c fixed_string res" where
  "fs_assign_il s il =
     bindE (checkOverflow (length il) (fs_capacity s)) (\<lambda>_.
     bindE (store_loop (rd il) 0 0 (length il) (fs_data s)) (\<lambda>d.
     bindE (wr d (length il) 0) (\<lambda>d'. Inr (s\<lparr>fs_data := d', fs_size := length il\<rparr>))))"

definition fs_assign_fill :: "'c::zero fixed_string \<Rightarrow> nat \<Rightarrow> 'c \<Rightarrow> 'c fixed_string res" where
  "fs_assign_fill s count ch =
     bindE (checkOverflow count (fs_capacity s)) (\<lambda>_.
     bindE (store_loop (\<lambda>_. Inr ch) 0 0 count (fs_data s)) (\<lambda>d.
     bindE (wr d count 0) (\<lambda>d'. Inr (s\<lparr>fs_data := d', fs_size := count\<rparr>))))"

definition fs_assign :: "'c::zero fixed_string \<Rightarrow> 'c fixed_string \<Rightarrow> 'c fixed_string res" where
  "fs_assign s that = fs_assign_fs s that"

definition fs_assign_range ::
  "'c::zero fixed_string \<Rightarrow> 'c fixed_string \<Rightarrow> nat \<Rightarrow> nat \<Rightarrow> 'c fixed_string res" where
  "fs_assign_range s that pos count =
     bindE (checkOverflow pos (fs_size that)) (\<lambda>_.
     bindE (checkOverflowOrNpos count (sz_sub (fs_size that) pos)) (\<lambda>c.
       fs_assign_ptr s (drop pos (fs_data that)) c))"

fun swap_loop :: "nat \<Rightarrow> nat \<Rightarrow> 'c list \<Rightarrow> 'c list \<Rightarrow> ('c list \<times> 'c list) res" where
  "swap_loop i 0 a b = Inr (a, b)"
| "swap_loop i (Suc n) a b =
     bindE (rd a i) (\<lambda>x. bindE (rd b i) (\<lambda>y.
     bindE (wr a i y) (\<lambda>a'. bindE (wr b i x) (\<lambda>b'. swap_loop (Suc i) n a' b'))))"

definition fs_swap ::
  "'c fixed_string \<Rightarrow> 'c fixed_string \<Rightarrow> ('c fixed_string \<times> 'c fixed_string) res" where
  "fs_swap s that =
     bindE (swap_loop 0 (max (fs_size s) (fs_size that) + 1) (fs_data s) (fs_data that)) (\<lambda>(a, b).
       Inr (s\<lparr>fs_data := a, fs_size := fs_size that\<rparr>, that\<lparr>fs_data := b, fs_size := fs_size s\<rparr>))"

section \<open>Element access\<close>

definition fs_length :: "'c fixed_string \<Rightarrow> nat" where
  "fs_length s = fs_size s"

definition fs_empty :: "'c fixed_string \<Rightarrow> bool" where
  "fs_empty s \<longleftrightarrow> 0 = fs_size s"

definition fs_max_size :: "'c fixed_string \<Rightarrow> nat" where
  "fs_max_size s = fs_capacity s"

definition fs_toStdString :: "'c fixed_string \<Rightarrow> 'c list res" where
  "fs_toStdString s = traverse (rd (fs_data s)) [0..<fs_size s]"

definition fs_at :: "'c fixed_string \<Rightarrow> nat \<Rightarrow> 'c res" where
  "fs_at s i = (if i \<le> fs_size s then rd (fs_data s) i else Inl Out_of_range)"

definition fs_index :: "bool \<Rightarrow> 'c fixed_string \<Rightarrow> nat \<Rightarrow> 'c res" where
  "fs_index kIsDebug s i =
     noexcept (bindE (checkOverflowIfDebug kIsDebug i (fs_size s)) (rd (fs_data s)))"

definition fs_front :: "bool \<Rightarrow> 'c fixed_string \<Rightarrow> 'c res" where
  "fs_front kIsDebug s = fs_index kIsDebug s 0"

definition fs_back :: "bool \<Rightarrow> 'c fixed_string \<Rightarrow> 'c res" where
  "fs_back kIsDebug s =
     noexcept (bindE (checkOverflowIfDebug kIsDebug 1 (fs_size s)) (\<lambda>k.
       rd (fs_data s) (sz_sub (fs_size s) k)))"

section \<open>Appending and removing at the end\<close>

definition fs_clear :: "'c::zero fixed_string \<Rightarrow> 'c fixed_string res" where
  "fs_clear s = bindE (wr (fs_data s) 0 0) (\<lambda>d. Inr (s\<lparr>fs_data := d, fs_size := 0\<rparr>))"

definition fs_push_back :: "'c::zero fixed_string \<Rightarrow> 'c \<Rightarrow> 'c fixed_string res" where
  "fs_push_back s ch =
     bindE (checkOverflow 1 (sz_sub (fs_capacity s) (fs_size s))) (\<lambda>_.
     bindE (wr (fs_data s) (fs_size s) ch) (\<lambda>d.
     bindE (wr d (fs_size s + 1) 0) (\<lambda>d'. Inr (s\<lparr>fs_data := d', fs_size := fs_size s + 1\<rparr>))))"

definition fs_pop_back :: "'c::zero fixed_string \<Rightarrow> 'c fixed_string res" where
  "fs_pop_back s =
     bindE (checkOverflow 1 (fs_size s)) (\<lambda>_.
     bindE (wr (fs_data s) (sz_sub (fs_size s) 1) 0) (\<lambda>d.
       Inr (s\<lparr>fs_data := d, fs_size := sz_sub (fs_size s) 1\<rparr>)))"

definition fs_cpop_back :: "'c::zero fixed_string \<Rightarrow> 'c fixed_string res" where
  "fs_cpop_back s =
     bindE (checkOverflow 1 (fs_size s)) (\<lambda>k.
       fs_of_range (fs_capacity s - 1) s 0 (sz_sub (fs_size s) k))"

definition append_loop ::
  "'c::zero fixed_string \<Rightarrow> (nat \<Rightarrow> 'c res) \<Rightarrow> nat \<Rightarrow> 'c fixed_string res" where
  "append_loop s src count =
     bindE (store_loop src (fs_size s) 0 count (fs_data s)) (\<lambda>d.
     bindE (wr d (fs_size s + count) 0) (\<lambda>d'.
       Inr (s\<lparr>fs_data := d', fs_size := fs_size s + count\<rparr>)))"

definition fs_append_fill :: "'c::zero fixed_string \<Rightarrow> nat \<Rightarrow> 'c \<Rightarrow> 'c fixed_string res" where
  "fs_append_fill s count ch =
     bindE (checkOverflow count (sz_sub (fs_capacity s) (fs_size s))) (\<lambda>_.
       append_loop s (\<lambda>_. Inr ch) count)"

definition fs_append_range ::
  "'c::zero fixed_string \<Rightarrow> 'c fixed_string \<Rightarrow> nat \<Rightarrow> nat \<Rightarrow> 'c fixed_string res" where
  "fs_append_range s that pos count =
     bindE (checkOverflow pos (fs_size that)) (\<lambda>_.
     bindE (checkOverflowOrNpos count (sz_sub (fs_size that) pos)) (\<lambda>count'.
     bindE (checkOverflow count' (sz_sub (fs_capacity s) (fs_size s))) (\<lambda>_.
       append_loop s (\<lambda>i. rd (fs_data that) (pos + i)) count')))"

definition fs_append_fs :: "'c::zero fixed_string \<Rightarrow> 'c fixed_string \<Rightarrow> 'c fixed_string res" where
  "fs_append_fs s that = fs_append_range s that 0 (fs_size that)"

definition fs_append_ptr :: "'c::zero fixed_string \<Rightarrow> 'c list \<Rightarrow> nat \<Rightarrow> 'c fixed_string res" where
  "fs_append_ptr s that count =
     bindE (checkOverflow count (sz_sub (fs_capacity s) (fs_size s))) (\<lambda>_.
       append_loop s (rd that) count)"

definition fs_append_cstr :: "'c::zero fixed_string \<Rightarrow> 'c list \<Rightarrow> 'c fixed_string res" where
  "fs_append_cstr s that = bindE (constexpr_strlen that) (fs_append_ptr s that)"

definition fs_plus_assign_cstr :: "'c::zero fixed_string \<Rightarrow> 'c list \<Rightarrow> 'c fixed_string res" where
  "fs_plus_assign_cstr s that = fs_append_cstr s that"

definition fs_plus_assign_fs :: "'c::zero fixed_string \<Rightarrow> 'c fixed_string \<Rightarrow> 'c fixed_string res" where
  "fs_plus_assign_fs s that = fs_append_range s that 0 (fs_size that)"

definition fs_plus_assign_char :: "'c::zero fixed_string \<Rightarrow> 'c \<Rightarrow> 'c fixed_string res" where
  "fs_plus_assign_char s ch = fs_push_back s ch"

definition fs_plus_assign_il :: "'c::zero fixed_string \<Rightarrow> 'c list \<Rightarrow> 'c fixed_string res" where
  "fs_plus_assign_il s il = fs_append_ptr s il (length il)"

section \<open>Replacing\<close>

text \<open>
  The functions whose name starts with \<^verbatim>\<open>c\<close> return a new string of the summed capacity; the
  others assign it back.
\<close>

definition fs_creplace_range ::
  "'c::zero fixed_string \<Rightarrow> nat \<Rightarrow> nat \<Rightarrow> 'c fixed_string \<Rightarrow> nat \<Rightarrow> nat \<Rightarrow> 'c fixed_string res" where
  "fs_creplace_range s this_pos this_count that that_pos that_count =
     bindE (checkOverflow this_pos (fs_size s)) (\<lambda>tp.
     bindE (checkOverflowOrNpos this_count (sz_sub (fs_size s) this_pos)) (\<lambda>tc.
     bindE (checkOverflow that_pos (fs_size that)) (\<lambda>up.
     bindE (checkOverflowOrNpos that_count (sz_sub (fs_size that) that_pos)) (\<lambda>uc.
       Helper_replace (fs_capacity s + fs_capacity that)
         (fs_data s) (fs_size s) tp tc (fs_data that) up uc))))"

definition fs_creplace_fs ::
  "'c::zero fixed_string \<Rightarrow> nat \<Rightarrow> nat \<Rightarrow> 'c fixed_string \<Rightarrow> nat \<Rightarrow> 'c fixed_string res" where
  "fs_creplace_fs s this_pos this_count that that_pos =
     bindE (checkOverflow that_pos (fs_size that)) (\<lambda>p.
       fs_creplace_range s this_pos this_count that that_pos (sz_sub (fs_size that) p))"

definition fs_creplace_it ::
  "'c::zero fixed_string \<Rightarrow> nat \<Rightarrow> nat \<Rightarrow> 'c fixed_string \<Rightarrow> nat \<Rightarrow> 'c fixed_string res" where
  "fs_creplace_it s first last' that that_pos =
     bindE (checkOverflow that_pos (fs_size that)) (\<lambda>p.
       fs_creplace_range s first (sz_sub last' first) that that_pos (sz_sub (fs_size that) p))"

definition fs_creplace_it_range ::
  "'c::zero fixed_string \<Rightarrow> nat \<Rightarrow> nat \<Rightarrow> 'c fixed_string \<Rightarrow> nat \<Rightarrow> nat \<Rightarrow> 'c fixed_string res" where
  "fs_creplace_it_range s first last' that that_pos that_count =
     fs_creplace_range s first (sz_sub last' first) that that_pos that_count"

definition fs_creplace_literal_range ::
  "'c::zero fixed_string \<Rightarrow> nat \<Rightarrow> nat \<Rightarrow> 'c list \<Rightarrow> nat \<Rightarrow> nat \<Rightarrow> 'c fixed_string res" where
  "fs_creplace_literal_range s this_pos this_count that that_pos that_count =
     bindE (checkOverflow this_pos (fs_size s)) (\<lambda>tp.
     bindE (checkOverflowOrNpos this_count (sz_sub (fs_size s) this_pos)) (\<lambda>tc.
     bindE (checkNullTerminated that) (\<lambda>a.
     bindE (checkOverflow that_pos (length that - 1)) (\<lambda>up.
     bindE (checkOverflowOrNpos that_count (sz_sub (length that - 1) that_pos)) (\<lambda>uc.
       Helper_replace (fs_capacity s + length that - 1)
         (fs_data s) (fs_size s) tp tc a up uc)))))"

definition fs_creplace_literal ::
  "'c::zero fixed_string \<Rightarrow> nat \<Rightarrow> nat \<Rightarrow> 'c list \<Rightarrow> 'c fixed_string res" where
  "fs_creplace_literal s this_pos this_count that =
     fs_creplace_literal_range s this_pos this_count that 0 (length that - 1)"

definition fs_creplace_it_literal ::
  "'c::zero fixed_string \<Rightarrow> nat \<Rightarrow> nat \<Rightarrow> 'c list \<Rightarrow> 'c fixed_string res" where
  "fs_creplace_it_literal s first last' that =
     fs_creplace_literal_range s first (sz_sub last' first) that 0 (length that - 1)"

definition fs_creplace_it_literal_range ::
  "'c::zero fixed_string \<Rightarrow> nat \<Rightarrow> nat \<Rightarrow> 'c list \<Rightarrow> nat \<Rightarrow> nat \<Rightarrow> 'c fixed_string res" where
  "fs_creplace_it_literal_range s first last' that that_pos that_count =
     fs_creplace_literal_range s first (sz_sub last' first) that that_pos that_count"

definition fs_replace_range ::
  "'c::zero fixed_string \<Rightarrow> nat \<Rightarrow> nat \<Rightarrow> 'c fixed_string \<Rightarrow> nat \<Rightarrow> nat \<Rightarrow> 'c fixed_string res" where
  "fs_replace_range s this_pos this_count that that_pos that_count =
     bindE (fs_creplace_range s this_pos this_count that that_pos that_count) (fs_assign_fs s)"

definition fs_replace_fs ::
  "'c::zero fixed_string \<Rightarrow> nat \<Rightarrow> nat \<Rightarrow> 'c fixed_string \<Rightarrow> nat \<Rightarrow> 'c fixed_string res" where
  "fs_replace_fs s this_pos this_count that that_pos =
     fs_replace_range s this_pos this_count that that_pos (sz_sub (fs_size that) that_pos)"

definition fs_replace_it ::
  "'c::zero fixed_string \<Rightarrow> nat \<Rightarrow> nat \<Rightarrow> 'c fixed_string \<Rightarrow> 'c fixed_string res" where
  "fs_replace_it s first last' that =
     fs_replace_range s first (sz_sub last' first) that 0 (fs_size that)"

definition fs_replace_ptr ::
  "'c::zero fixed_string \<Rightarrow> nat \<Rightarrow> nat \<Rightarrow> 'c list \<Rightarrow> nat \<Rightarrow> 'c fixed_string res" where
  "fs_replace_ptr s this_pos this_count that that_count =
     bindE (checkOverflow this_pos (fs_size s)) (\<lambda>tp.
     bindE (checkOverflowOrNpos this_count (sz_sub (fs_size s) this_pos)) (\<lambda>tc.
       Helper_replace (fs_capacity s) (fs_data s) (fs_size s) tp tc that 0 that_count))"

definition fs_replace_cstr ::
  "'c::zero fixed_string \<Rightarrow> nat \<Rightarrow> nat \<Rightarrow> 'c list \<Rightarrow> 'c fixed_string res" where
  "fs_replace_cstr s this_pos this_count that =
     bindE (constexpr_strlen that) (fs_replace_ptr s this_pos this_count that)"

definition fs_replace_it_cstr ::
  "'c::zero fixed_string \<Rightarrow> nat \<Rightarrow> nat \<Rightarrow> 'c list \<Rightarrow> 'c fixed_string res" where
  "fs_replace_it_cstr s first last' that =
     bindE (constexpr_strlen that) (fs_replace_ptr s first (sz_sub last' first) that)"

definition fs_replace_fill ::
  "'c::zero fixed_string \<Rightarrow> nat \<Rightarrow> nat \<Rightarrow> nat \<Rightarrow> 'c \<Rightarrow> 'c fixed_string res" where
  "fs_replace_fill s this_pos this_count that_count ch =
     bindE (fs_of_fill (fs_capacity s) that_count ch) (\<lambda>t. fs_replace_fs s this_pos this_count t 0)"

definition fs_replace_it_fill ::
  "'c::zero fixed_string \<Rightarrow> nat \<Rightarrow> nat \<Rightarrow> nat \<Rightarrow> 'c \<Rightarrow> 'c fixed_string res" where
  "fs_replace_it_fill s first last' that_count ch =
     bindE (fs_of_fill (fs_capacity s) that_count ch) (\<lambda>t.
       fs_replace_fs s first (sz_sub last' first) t 0)"

definition fs_replace_it_il ::
  "'c::zero fixed_string \<Rightarrow> nat \<Rightarrow> nat \<Rightarrow> 'c list \<Rightarrow> 'c fixed_string res" where
  "fs_replace_it_il s first last' il = fs_replace_ptr s first (sz_sub last' first) il (length il)"

definition fs_cappend_range ::
  "'c::zero fixed_string \<Rightarrow> 'c fixed_string \<Rightarrow> nat \<Rightarrow> nat \<Rightarrow> 'c fixed_string res" where
  "fs_cappend_range s that pos count = fs_creplace_range s (fs_size s) 0 that pos count"

definition fs_cappend_literal :: "'c::zero fixed_string \<Rightarrow> 'c list \<Rightarrow> 'c fixed_string res" where
  "fs_cappend_literal s that = noexcept (fs_creplace_literal s (fs_size s) 0 that)"

definition fs_cappend_literal_range ::
  "'c::zero fixed_string \<Rightarrow> 'c list \<Rightarrow> nat \<Rightarrow> nat \<Rightarrow> 'c fixed_string res" where
  "fs_cappend_literal_range s that pos count =
     fs_creplace_literal_range s (fs_size s) 0 that pos count"

section \<open>Erasing, substrings and resizing\<close>

definition fs_erase_all :: "'c::zero fixed_string \<Rightarrow> 'c fixed_string res" where
  "fs_erase_all s = fs_clear s"

definition fs_erase :: "'c::zero fixed_string \<Rightarrow> nat \<Rightarrow> nat \<Rightarrow> 'c fixed_string res" where
  "fs_erase s pos count =
     bindE (checkOverflow pos (fs_size s)) (\<lambda>p.
     bindE (checkOverflowOrNpos count (sz_sub (fs_size s) p)) (\<lambda>c.
       fs_replace_ptr s pos c [0] 0))"

definition fs_erase_it :: "'c::zero fixed_string \<Rightarrow> nat \<Rightarrow> (nat \<times> 'c fixed_string) res" where
  "fs_erase_it s first = bindE (fs_erase s first 1) (\<lambda>s'. Inr (first, s'))"

definition fs_erase_it_range ::
  "'c::zero fixed_string \<Rightarrow> nat \<Rightarrow> nat \<Rightarrow> (nat \<times> 'c fixed_string) res" where
  "fs_erase_it_range s first last' =
     bindE (fs_erase s first (sz_sub last' first)) (\<lambda>s'. Inr (first, s'))"

definition fs_cerase_all :: "'c::zero fixed_string" where
  "fs_cerase_all = fs_default 0"

definition fs_cerase :: "'c::zero fixed_string \<Rightarrow> nat \<Rightarrow> nat \<Rightarrow> 'c fixed_string res" where
  "fs_cerase s pos count =
     bindE (checkOverflow pos (fs_size s)) (\<lambda>p.
     bindE (checkOverflowOrNpos count (sz_sub (fs_size s) p)) (\<lambda>c.
       fs_creplace_literal s pos c [0]))"

definition fs_substr :: "'c::zero fixed_string \<Rightarrow> nat \<Rightarrow> nat \<Rightarrow> 'c fixed_string res" where
  "fs_substr s pos count = fs_of_range (fs_capacity s) s pos count"

definition fs_resize_fill :: "'c::zero fixed_string \<Rightarrow> nat \<Rightarrow> 'c \<Rightarrow> 'c fixed_string res" where
  "fs_resize_fill s count ch =
     bindE (checkOverflow count (fs_capacity s)) (\<lambda>_.
       if count = fs_size s then Inr s
       else if count < fs_size s
       then bindE (wr (fs_data s) count 0) (\<lambda>d. Inr (s\<lparr>fs_data := d, fs_size := count\<rparr>))
       else append_loop s (\<lambda>_. Inr ch) (count - fs_size s))"

definition fs_resize :: "'c::zero fixed_string \<Rightarrow> nat \<Rightarrow> 'c fixed_string res" where
  "fs_resize s count = fs_resize_fill s count 0"

section \<open>Concatenation\<close>

definition fs_plus_fs :: "'c::zero fixed_string \<Rightarrow> 'c fixed_string \<Rightarrow> 'c fixed_string res" where
  "fs_plus_fs a b =
     Helper_concat (fs_capacity a + fs_capacity b) (fs_data a) (fs_size a) (fs_data b) (fs_size b)"

definition fs_plus_literal_fs :: "'c::zero list \<Rightarrow> 'c fixed_string \<Rightarrow> 'c fixed_string res" where
  "fs_plus_literal_fs a b =
     bindE (checkNullTerminated a) (\<lambda>a'.
       Helper_concat (fs_capacity b + length a - 1) a' (length a - 1) (fs_data b) (fs_size b))"

definition fs_plus_fs_literal :: "'c::zero fixed_string \<Rightarrow> 'c list \<Rightarrow> 'c fixed_string res" where
  "fs_plus_fs_literal a b =
     bindE (checkNullTerminated b) (\<lambda>b'.
       Helper_concat (fs_capacity a + length b - 1) (fs_data a) (fs_size a) b' (length b - 1))"

definition fs_plus_char_fs :: "'c::zero \<Rightarrow> 'c fixed_string \<Rightarrow> 'c fixed_string res" where
  "fs_plus_char_fs a b = Helper_concat (fs_capacity b + 1) [a, 0] 1 (fs_data b) (fs_size b)"

definition fs_plus_fs_char :: "'c::zero fixed_string \<Rightarrow> 'c \<Rightarrow> 'c fixed_string res" where
  "fs_plus_fs_char a b = Helper_concat (fs_capacity a + 1) (fs_data a) (fs_size a) [b, 0] 1"

definition fs_cappend_char :: "'c::zero fixed_string \<Rightarrow> 'c \<Rightarrow> 'c fixed_string res" where
  "fs_cappend_char s ch = fs_plus_fs_char s ch"

definition fs_cappend_fs :: "'c::zero fixed_string \<Rightarrow> 'c fixed_string \<Rightarrow> 'c fixed_string res" where
  "fs_cappend_fs s that = fs_plus_fs s that"

definition fs_cpush_back :: "'c::zero fixed_string \<Rightarrow> 'c \<Rightarrow> 'c fixed_string res" where
  "fs_cpush_back s ch = fs_cappend_char s ch"

definition makeFixedString :: "'c::zero list \<Rightarrow> 'c fixed_string res" where
  "makeFixedString a = fs_of_literal (length a - 1) a"

end
