(* ===== verification/FixedString_Correct.thy ===== *)
theory FixedString_Correct
  imports FixedString
begin

text \<open>
  The contract of \<^verbatim>\<open>BasicFixedString\<close>: the invariant (\<^verbatim>\<open>size_ <= N\<close> and a null character at
  \<^verbatim>\<open>data_[size_]\<close>), the represented string, and for every operation of \<open>FixedString\<close> the
  equation between what it computes on the array and the same operation on lists.
\<close>

section \<open>Invariant and abstraction\<close>

definition fs_inv :: "'c::zero fixed_string \<Rightarrow> bool" where
  "fs_inv s \<longleftrightarrow> fs_size s < length (fs_data s) \<and> fs_data s ! fs_size s = 0"

definition fs_str :: "'c fixed_string \<Rightarrow> 'c list" where
  "fs_str s = take (fs_size s) (fs_data s)"

text \<open>No object is larger than \<^verbatim>\<open>PTRDIFF_MAX\<close>.\<close>

definition fs_fits :: "'c fixed_string \<Rightarrow> bool" where
  "fs_fits s \<longleftrightarrow> length (fs_data s) < 2 ^ 63"

definition yields :: "nat \<Rightarrow> 'c::zero list \<Rightarrow> 'c fixed_string res \<Rightarrow> bool" where
  "yields N xs r \<longleftrightarrow>
     (\<exists>s. r = Inr s \<and> fs_inv s \<and> length (fs_data s) = N + 1 \<and> fs_str s = xs)"

definition refines :: "nat \<Rightarrow> 'c::zero list res \<Rightarrow> 'c fixed_string res \<Rightarrow> bool" where
  "refines N spec r \<longleftrightarrow> (case spec of Inl e \<Rightarrow> r = Inl e | Inr xs \<Rightarrow> yields N xs r)"

lemma refines_simps [simp]:
  "refines N (Inl e) r \<longleftrightarrow> r = Inl e"
  "refines N (Inr xs) r \<longleftrightarrow> yields N xs r"
  by (simp_all add: refines_def)

lemma fs_inv_size_cap: "fs_inv s \<Longrightarrow> fs_size s \<le> fs_capacity s"
  by (auto simp: fs_inv_def fs_capacity_def)

lemma length_fs_data: "fs_inv s \<Longrightarrow> length (fs_data s) = Suc (fs_capacity s)"
  by (auto simp: fs_inv_def fs_capacity_def)

lemma length_fs_str [simp]: "fs_inv s \<Longrightarrow> length (fs_str s) = fs_size s"
  by (simp add: fs_inv_def fs_str_def)

lemma fs_fitsD: "fs_fits s \<Longrightarrow> fs_inv s \<Longrightarrow> fs_capacity s < 2 ^ 63 - 1"
  by (auto simp: fs_fits_def fs_capacity_def fs_inv_def)

text \<open>Every string of capacity \<open>N\<close> that the constructors build is in this canonical form.\<close>

definition fs_make :: "nat \<Rightarrow> 'c::zero list \<Rightarrow> 'c fixed_string" where
  "fs_make N xs = \<lparr>fs_data = xs @ replicate (N + 1 - length xs) 0, fs_size = length xs\<rparr>"

lemma yields_fs_make [simp]: "length xs \<le> N \<Longrightarrow> yields N xs (Inr (fs_make N xs))"
  by (simp add: yields_def fs_make_def fs_inv_def fs_str_def nth_append)

lemma yieldsI:
  "length d = N + 1 \<Longrightarrow> length xs \<le> N \<Longrightarrow> take (length xs) d = xs \<Longrightarrow> d ! length xs = 0 \<Longrightarrow>
   yields N xs (Inr (s\<lparr>fs_data := d, fs_size := length xs\<rparr>))"
  by (simp add: yields_def fs_inv_def fs_str_def)

section \<open>The operations on lists\<close>

definition bounded :: "nat \<Rightarrow> 'c list \<Rightarrow> 'c list res" where
  "bounded N xs = (if length xs \<le> N then Inr xs else Inl Out_of_range)"

definition in_range :: "nat \<Rightarrow> nat \<Rightarrow> nat \<Rightarrow> bool" where
  "in_range n pos count \<longleftrightarrow> pos \<le> n \<and> eff_count count (n - pos) \<le> n - pos"

definition sub_range :: "'c list \<Rightarrow> nat \<Rightarrow> nat \<Rightarrow> 'c list res" where
  "sub_range xs pos count =
     (if in_range (length xs) pos count
      then Inr (take (eff_count count (length xs - pos)) (drop pos xs)) else Inl Out_of_range)"

definition subst_range :: "'c list \<Rightarrow> nat \<Rightarrow> nat \<Rightarrow> 'c list \<Rightarrow> 'c list res" where
  "subst_range xs pos count ys =
     (if in_range (length xs) pos count
      then Inr (replace_range xs pos (eff_count count (length xs - pos)) ys) else Inl Out_of_range)"

lemma range_check:
  "bindE (checkOverflow pos n) (\<lambda>p. bindE (checkOverflowOrNpos count (sz_sub n p)) (f p)) =
    (if in_range n pos count then f pos (eff_count count (n - pos)) else Inl Out_of_range)"
  by (auto simp: in_range_def checkOverflowOrNpos_eff checkOverflow_def assertOutOfBounds_def)

lemma range_check':
  "bindE (checkOverflow pos n) (\<lambda>p. bindE (checkOverflowOrNpos count (sz_sub n pos)) (f p)) =
    (if in_range n pos count then f pos (eff_count count (n - pos)) else Inl Out_of_range)"
  by (auto simp: in_range_def checkOverflowOrNpos_eff checkOverflow_def assertOutOfBounds_def)

lemma in_range_0 [simp]: "n < 2 ^ 64 - 1 \<Longrightarrow> in_range n 0 n" "in_range n n 0" "in_range n 0 0"
  by (simp_all add: in_range_def eff_count_def npos_def)

lemma eff_count_self [simp]: "eff_count n n = n"
  by (simp add: eff_count_def)

lemma eff_count_0 [simp]: "eff_count 0 n = 0"
  by (simp add: eff_count_def npos_def)

lemma in_range_sum: "in_range n pos count \<Longrightarrow> pos + eff_count count (n - pos) \<le> n"
  by (auto simp: in_range_def)

lemma sub_str: "pos + n \<le> fs_size s \<Longrightarrow> take n (drop pos (fs_data s)) = take n (drop pos (fs_str s))"
  by (simp add: fs_str_def drop_take)

section \<open>Constructors\<close>

lemma map_nth0_pad:
  "length xs \<le> k \<Longrightarrow> k \<le> n \<Longrightarrow>
   map (nth0 xs) [0..<k] @ replicate (n - k) 0 = xs @ replicate (n - length xs) (0::'c::zero)"
  by (rule nth_equalityI) (auto simp: nth_append nth0_def)

lemma array_init_nth0:
  assumes "\<And>i. f i = Inr (nth0 xs i)" and "length xs \<le> k" and "k \<le> n"
  shows "array_init n k f = Inr (xs @ replicate (n - length xs) (0::'c::zero))"
  using assms map_nth0_pad [of xs k n] array_init_Inr [of k f "nth0 xs" n] by simp

lemma ctor_copy_make:
  fixes that :: "'c::zero list"
  assumes "pos \<le> size'" and "pos + n \<le> length that" and "n = min (size' - pos) count"
    and "n \<le> Is" and "Is \<le> N + 1"
  shows "ctor_copy N that size' Is pos count = Inr (fs_make N (take n (drop pos that)))"
proof -
  have "array_init (N + 1) Is
      (\<lambda>i. if i < sz_sub size' pos \<and> i < count then rd that (i + pos) else Inr 0) =
    Inr (take n (drop pos that) @ replicate (N + 1 - length (take n (drop pos that))) 0)"
    using assms by (intro array_init_nth0) (auto simp: nth0_def add.commute)
  moreover have "length (take n (drop pos that)) = n"
    using assms by simp
  ultimately show ?thesis
    using assms by (simp add: ctor_copy_def fs_make_def)
qed

lemma ctor_fill_make: "count \<le> N \<Longrightarrow> ctor_fill N count ch = Inr (fs_make N (replicate count ch))"
  by (subst ctor_fill_def, subst array_init_nth0 [where xs = "replicate count ch"])
    (auto simp: nth0_def fs_make_def)

lemma ctor_concat_make:
  assumes "left_size \<le> length left" "right_size \<le> length right" "left_size + right_size \<le> N"
    and "left_size + right_size < 2 ^ 64"
  shows "ctor_concat N left left_size right right_size =
    Inr (fs_make N (take left_size left @ take right_size right))"
proof -
  have "array_init (N + 1) N (char_at_concat left left_size right right_size) =
    Inr ((take left_size left @ take right_size right)
      @ replicate (N + 1 - length (take left_size left @ take right_size right)) 0)"
    using assms by (intro array_init_nth0 char_at_concat_eq) auto
  with assms show ?thesis
    by (simp add: ctor_concat_def fs_make_def)
qed

lemma ctor_replace_make:
  assumes "left_size \<le> length left" and "left_pos + left_count \<le> left_size"
    and "right_pos + right_count \<le> length right"
    and "left_size + right_count < 2 ^ 64"
    and "left_size - left_count + right_count \<le> N"
  shows "ctor_replace N left left_size left_pos left_count right right_pos right_count =
    Inr (fs_make N (replace_range (take left_size left) left_pos left_count
      (take right_count (drop right_pos right))))"
proof -
  let ?xs = "replace_range (take left_size left) left_pos left_count
      (take right_count (drop right_pos right))"
  have len: "length ?xs = left_size - left_count + right_count"
    using assms by (simp add: length_replace_range)
  have "array_init (N + 1) N
      (char_at_replace left left_size left_pos left_count right right_pos right_count) =
    Inr (?xs @ replicate (N + 1 - length ?xs) 0)"
    using assms len by (intro array_init_nth0 char_at_replace_eq) auto
  with assms len show ?thesis
    by (simp add: ctor_replace_def fs_make_def)
qed

lemma fs_default_make: "fs_default N = fs_make N []"
  by (simp add: fs_default_def fs_make_def)

lemma fs_of_range_refines:
  assumes "fs_inv that"
  shows "refines N (bindE (sub_range (fs_str that) pos count) (bounded N)) (fs_of_range N that pos count)"
proof (cases "in_range (fs_size that) pos count")
  case False
  with assms show ?thesis
    unfolding fs_of_range_def range_check by (simp add: sub_range_def)
next
  case True
  let ?n = "eff_count count (fs_size that - pos)"
  have n: "pos + ?n \<le> fs_size that" using True by (rule in_range_sum)
  show ?thesis
  proof (cases "?n \<le> N")
    case False
    with assms True n show ?thesis
      unfolding fs_of_range_def range_check by (simp add: sub_range_def bounded_def min_absorb2)
  next
    case le: True
    have "ctor_copy N (fs_data that) (fs_size that) (min (fs_capacity that) N) pos ?n =
        Inr (fs_make N (take ?n (drop pos (fs_data that))))"
      using n le assms fs_inv_size_cap [OF assms]
      by (intro ctor_copy_make) (auto simp: fs_inv_def)
    with assms True n le show ?thesis
      unfolding fs_of_range_def range_check
      by (simp add: sub_range_def bounded_def sub_str min_absorb2)
  qed
qed

lemma checkNullTerminated_simp [simp]:
  "that \<noteq> [] \<Longrightarrow> checkNullTerminated that = (if last that = 0 then Inr that else Inl Terminate)"
  by (simp add: checkNullTerminated_def last_conv_nth)

lemma fs_of_fs_refines:
  assumes "fs_inv that" and "fs_fits that"
  shows "refines N (bounded N (fs_str that)) (fs_of_fs N that)"
proof -
  have "in_range (fs_size that) 0 (fs_size that)"
    using assms by (auto simp: fs_fits_def fs_inv_def)
  then have "refines N (bounded N (fs_str that)) (fs_of_range N that 0 (fs_size that))"
    using fs_of_range_refines [OF assms(1), of N 0 "fs_size that"] assms
    by (simp add: sub_range_def)
  moreover have "bounded N (fs_str that) = Inr (fs_str that)" if "fs_capacity that \<le> N"
    using that assms fs_inv_size_cap [OF assms(1)] by (simp add: bounded_def)
  ultimately show ?thesis
    by (auto simp: fs_of_fs_def noexcept_if_def yields_def)
qed

lemma fs_of_ptr_refines:
  assumes "count \<le> length that" and "count < 2 ^ 64 - 1"
  shows "refines N (bounded N (take count that)) (fs_of_ptr N that count)"
  using assms ctor_copy_make [of 0 count count that npos N N]
  by (cases "count \<le> N") (simp_all add: fs_of_ptr_def bounded_def npos_def min_absorb2 min_absorb1)

lemma fs_of_il_refines:
  "length il < 2 ^ 64 - 1 \<Longrightarrow> refines N (bounded N il) (fs_of_il N il)"
  using fs_of_ptr_refines [of "length il" il N] by (simp add: fs_of_il_def)

lemma fs_of_fill_refines:
  "refines N (bounded N (replicate count ch)) (fs_of_fill N count ch)"
  by (cases "count \<le> N") (simp_all add: fs_of_fill_def bounded_def ctor_fill_make)

lemma checkNullTerminated_literal [simp]: "checkNullTerminated (xs @ [0]) = Inr (xs @ [0])"
  by simp

lemma fs_of_literal_yields:
  assumes "length xs \<le> N" and "length xs < 2 ^ 63"
  shows "yields N xs (fs_of_literal N (xs @ [0]))"
  using assms ctor_copy_make [of 0 "length xs" "length xs" "xs @ [0]" npos "length xs" N]
  by (simp add: fs_of_literal_def npos_def)

section \<open>Copying and assignment\<close>

lemma copy_loop_eq:
  assumes "fs_inv s" and "i + pos \<le> fs_size s" and "i + min n (fs_size s - pos - i) \<le> length dest"
    and "count = i + n"
  shows "copy_loop s count pos i n dest =
    Inr (if n \<le> fs_size s - pos - i then count else fs_size s,
      take i dest @ take n (drop (i + pos) (fs_str s))
        @ drop (i + min n (fs_size s - pos - i)) dest)"
  using assms
proof (induction n arbitrary: i dest)
  case 0
  then show ?case by simp
next
  case (Suc n)
  show ?case
  proof (cases "i + pos = fs_size s")
    case True
    with Suc.prems show ?thesis by simp
  next
    case False
    with Suc.prems have lt: "i + pos < fs_size s" "i < length dest" by (auto split: if_splits)
    have str: "drop (i + pos) (fs_str s) = fs_data s ! (i + pos) # drop (Suc i + pos) (fs_str s)"
      using lt Suc.prems(1) by (simp add: fs_str_def fs_inv_def drop_take_Cons)
    have "copy_loop s count pos (Suc i) n (dest[i := fs_data s ! (i + pos)]) =
      Inr (if n \<le> fs_size s - pos - Suc i then count else fs_size s,
        take (Suc i) (dest[i := fs_data s ! (i + pos)]) @ take n (drop (Suc i + pos) (fs_str s))
          @ drop (Suc i + min n (fs_size s - pos - Suc i)) (dest[i := fs_data s ! (i + pos)]))"
      using Suc.prems lt by (intro Suc.IH) (auto simp: min_def split: if_splits)
    moreover have "take (Suc i) (dest[i := fs_data s ! (i + pos)]) = take i dest @ [fs_data s ! (i + pos)]"
      using lt by (simp add: take_Suc_conv_app_nth)
    moreover have "rd (fs_data s) (i + pos) = Inr (fs_data s ! (i + pos))"
      using lt Suc.prems(1) by (simp add: fs_inv_def)
    moreover have "fs_size s - pos - i = Suc (fs_size s - pos - Suc i)"
      using lt by linarith
    ultimately show ?thesis
      using lt str by simp
  qed
qed

lemma fs_copy_pos_eq:
  assumes "fs_inv s" and "pos \<le> fs_size s" and "min count (fs_size s - pos) \<le> length dest"
  shows "fs_copy_pos s dest count pos =
    Inr (if count \<le> fs_size s - pos then count else fs_size s,
      take count (drop pos (fs_str s)) @ drop (min count (fs_size s - pos)) dest)"
  using assms copy_loop_eq [of s 0 pos count dest count] by (simp add: fs_copy_pos_def)

lemma assign_loop_yields:
  fixes s :: "'c::zero fixed_string"
  assumes "fs_inv s" and "length xs \<le> fs_capacity s"
    and "d = xs @ drop (length xs) (fs_data s)"
  shows "yields (fs_capacity s) xs
    (bindE (wr d (length xs) 0) (\<lambda>d'. Inr (s\<lparr>fs_data := d', fs_size := length xs\<rparr>)))"
  using assms length_fs_data [OF assms(1)] by (auto intro!: yieldsI)

lemma fs_assign_fs_refines:
  assumes "fs_inv s" "fs_inv that"
  shows "refines (fs_capacity s) (bounded (fs_capacity s) (fs_str that)) (fs_assign_fs s that)"
proof (cases "fs_size that \<le> fs_capacity s")
  case False
  with assms fs_inv_size_cap [OF assms(2)] show ?thesis
    by (simp add: fs_assign_fs_def bounded_def noexcept_if_def)
next
  case True
  let ?d = "fs_str that @ drop (fs_size that) (fs_data s)"
  have copy: "fs_copy that (fs_data s) (fs_size that) = Inr (fs_size that, ?d)"
    using True assms fs_copy_pos_eq [of that 0 "fs_size that" "fs_data s"] length_fs_data [OF assms(1)]
    by (simp add: fs_copy_def)
  have "yields (fs_capacity s) (fs_str that)
      (bindE (wr ?d (fs_size that) 0) (\<lambda>d'. Inr (s\<lparr>fs_data := d', fs_size := fs_size that\<rparr>)))"
    using assign_loop_yields [of s "fs_str that" ?d] True assms by simp
  then show ?thesis
    using True assms copy by (auto simp: fs_assign_fs_def bounded_def noexcept_if_def yields_def)
qed

lemma store_loop_assign:
  assumes "count \<le> length that" and "count \<le> length d"
  shows "store_loop (rd that) 0 0 count d = Inr (take count that @ drop count d)"
  using assms store_loop_Inr [of 0 count "rd that" "(!) that" 0 d]
  by (simp add: map_nth_take)

lemma fs_assign_ptr_refines:
  assumes "fs_inv s" and "count \<le> length that"
  shows "refines (fs_capacity s) (bounded (fs_capacity s) (take count that)) (fs_assign_ptr s that count)"
proof (cases "count \<le> fs_capacity s")
  case True
  then show ?thesis
    using assms length_fs_data [OF assms(1)]
      assign_loop_yields [OF assms(1), of "take count that" "take count that @ drop count (fs_data s)"]
    by (simp add: fs_assign_ptr_def store_loop_assign bounded_def min_absorb2)
qed (use assms in \<open>simp add: fs_assign_ptr_def bounded_def\<close>)

lemma fs_assign_literal_yields:
  assumes "fs_inv s" and "length xs \<le> fs_capacity s"
  shows "yields (fs_capacity s) xs (fs_assign_literal s (xs @ [0]))"
  using assms fs_assign_ptr_refines [of s "length xs" "xs @ [0]"]
  by (auto simp: fs_assign_literal_def bounded_def yields_def)

lemma fs_assign_il_refines:
  "fs_inv s \<Longrightarrow> refines (fs_capacity s) (bounded (fs_capacity s) il) (fs_assign_il s il)"
  using fs_assign_ptr_refines [of s "length il" il] by (simp add: fs_assign_il_def fs_assign_ptr_def)

lemma fs_assign_fill_refines:
  assumes "fs_inv s"
  shows "refines (fs_capacity s) (bounded (fs_capacity s) (replicate count ch)) (fs_assign_fill s count ch)"
proof (cases "count \<le> fs_capacity s")
  case True
  then show ?thesis
    using length_fs_data [OF assms] store_loop_Inr [of 0 count "\<lambda>_. Inr ch" "\<lambda>_. ch" 0 "fs_data s"]
      assign_loop_yields [OF assms, of "replicate count ch" "replicate count ch @ drop count (fs_data s)"]
    by (simp add: fs_assign_fill_def bounded_def map_replicate_const)
qed (simp add: fs_assign_fill_def bounded_def)

lemma fs_assign_range_refines:
  assumes "fs_inv s" "fs_inv that"
  shows "refines (fs_capacity s)
    (bindE (sub_range (fs_str that) pos count) (bounded (fs_capacity s))) (fs_assign_range s that pos count)"
proof (cases "in_range (fs_size that) pos count")
  case True
  let ?n = "eff_count count (fs_size that - pos)"
  have n: "pos + ?n \<le> fs_size that" using True by (rule in_range_sum)
  with assms have "?n \<le> length (drop pos (fs_data that))" by (auto simp: fs_inv_def)
  with True assms n show ?thesis
    using fs_assign_ptr_refines [of s ?n "drop pos (fs_data that)"]
    unfolding fs_assign_range_def range_check' by (simp add: sub_range_def sub_str)
next
  case False
  with assms show ?thesis unfolding fs_assign_range_def range_check' by (simp add: sub_range_def)
qed

lemma swap_loop_eq:
  assumes "i + n \<le> length a" and "i + n \<le> length b"
  shows "swap_loop i n a b =
    Inr (take i a @ take n (drop i b) @ drop (i + n) a, take i b @ take n (drop i a) @ drop (i + n) b)"
  using assms
proof (induction n arbitrary: i a b)
  case 0
  then show ?case by simp
next
  case (Suc n)
  then have lt: "i < length a" "i < length b" by auto
  have "swap_loop (Suc i) n (a[i := b ! i]) (b[i := a ! i]) =
      Inr (take (Suc i) (a[i := b ! i]) @ take n (drop (Suc i) (b[i := a ! i]))
            @ drop (Suc i + n) (a[i := b ! i]),
          take (Suc i) (b[i := a ! i]) @ take n (drop (Suc i) (a[i := b ! i]))
            @ drop (Suc i + n) (b[i := a ! i]))"
    using Suc.prems by (intro Suc.IH) auto
  moreover have "take (Suc i) (a[i := b ! i]) = take i a @ [b ! i]"
      "take (Suc i) (b[i := a ! i]) = take i b @ [a ! i]"
    using lt by (simp_all add: take_Suc_conv_app_nth)
  moreover have "drop i a = a ! i # drop (Suc i) a" "drop i b = b ! i # drop (Suc i) b"
    using lt by (simp_all add: Cons_nth_drop_Suc)
  ultimately show ?case using lt by simp
qed

lemma swap_side:
  assumes "fs_inv b" and "fs_size b < n" and "n \<le> length a" and "n \<le> length (fs_data b)"
  shows "yields (length a - 1) (fs_str b)
    (Inr (s\<lparr>fs_data := take n (fs_data b) @ drop n a, fs_size := fs_size b\<rparr>))"
  using assms yieldsI [of "take n (fs_data b) @ drop n a" "length a - 1" "fs_str b" s]
  by (simp add: fs_inv_def fs_str_def nth_append)

lemma fs_swap_eq:
  assumes "fs_inv s" "fs_inv that" and "fs_capacity s = fs_capacity that"
  shows "\<exists>s' that'. fs_swap s that = Inr (s', that') \<and>
    yields (fs_capacity s) (fs_str that) (Inr s') \<and> yields (fs_capacity s) (fs_str s) (Inr that')"
proof -
  let ?n = "max (fs_size s) (fs_size that) + 1"
  have len: "?n \<le> length (fs_data s)" "?n \<le> length (fs_data that)"
    using assms(3) length_fs_data [OF assms(1)] length_fs_data [OF assms(2)]
      fs_inv_size_cap [OF assms(1)] fs_inv_size_cap [OF assms(2)] by auto
  then show ?thesis
    using assms swap_loop_eq [of 0 ?n "fs_data s" "fs_data that"]
      swap_side [of that ?n "fs_data s" s] swap_side [of s ?n "fs_data that" that]
    by (auto simp: fs_swap_def fs_capacity_def)
qed

section \<open>Appending\<close>

lemma append_loop_yields:
  assumes "fs_inv s" and "fs_size s + length xs \<le> fs_capacity s"
    and "\<And>i. i < length xs \<Longrightarrow> src i = Inr (xs ! i)"
  shows "yields (fs_capacity s) (fs_str s @ xs) (append_loop s src (length xs))"
proof -
  let ?d = "fs_str s @ xs @ drop (fs_size s + length xs) (fs_data s)"
  have "store_loop src (fs_size s) 0 (length xs) (fs_data s) = Inr ?d"
    using assms length_fs_data [OF assms(1)]
      store_loop_Inr [of 0 "length xs" src "(!) xs" "fs_size s" "fs_data s"]
    by (simp add: map_nth fs_str_def)
  then show ?thesis
    using assms length_fs_data [OF assms(1)]
      yieldsI [of "?d[fs_size s + length xs := 0]" "fs_capacity s" "fs_str s @ xs" s]
    by (simp add: append_loop_def)
qed

lemma fs_append_range_refines:
  assumes "fs_inv s" "fs_inv that"
  shows "refines (fs_capacity s)
    (bindE (sub_range (fs_str that) pos count) (\<lambda>ys. bounded (fs_capacity s) (fs_str s @ ys)))
    (fs_append_range s that pos count)"
proof (cases "in_range (fs_size that) pos count")
  case True
  let ?n = "eff_count count (fs_size that - pos)"
  have n: "pos + ?n \<le> fs_size that" using True by (rule in_range_sum)
  let ?ys = "take ?n (drop pos (fs_str that))"
  have len: "length ?ys = ?n" using n assms by simp
  have rd: "rd (fs_data that) (pos + i) = Inr (?ys ! i)" if "i < length ?ys" for i
    using that n assms by (simp add: fs_inv_def fs_str_def)
  have "yields (fs_capacity s) (fs_str s @ ?ys)
      (append_loop s (\<lambda>i. rd (fs_data that) (pos + i)) ?n)" if "fs_size s + ?n \<le> fs_capacity s"
    using append_loop_yields [OF assms(1) _ rd] that unfolding len by blast
  moreover have "fs_size s \<le> fs_capacity s" using assms(1) by (rule fs_inv_size_cap)
  ultimately show ?thesis
    using True assms len unfolding fs_append_range_def range_check'
    by (auto simp: sub_range_def bounded_def checkOverflow_def assertOutOfBounds_def)
next
  case False
  with assms show ?thesis unfolding fs_append_range_def range_check' by (simp add: sub_range_def)
qed

lemma fs_append_fs_refines:
  assumes "fs_inv s" "fs_inv that" "fs_fits that"
  shows "refines (fs_capacity s) (bounded (fs_capacity s) (fs_str s @ fs_str that)) (fs_append_fs s that)"
proof -
  have "in_range (fs_size that) 0 (fs_size that)"
    using assms by (auto simp: fs_fits_def fs_inv_def)
  then show ?thesis
    using fs_append_range_refines [OF assms(1,2), of 0 "fs_size that"] assms
    by (simp add: fs_append_fs_def sub_range_def)
qed

lemma fs_append_ptr_refines:
  assumes "fs_inv s" and "count \<le> length that"
  shows "refines (fs_capacity s) (bounded (fs_capacity s) (fs_str s @ take count that))
    (fs_append_ptr s that count)"
  using assms fs_inv_size_cap [OF assms(1)] append_loop_yields [OF assms(1), of "take count that" "rd that"]
  by (auto simp: fs_append_ptr_def bounded_def checkOverflow_def assertOutOfBounds_def min_absorb2)

lemma fs_append_cstr_refines:
  assumes "fs_inv s" and "0 \<in> set that"
  shows "refines (fs_capacity s) (bounded (fs_capacity s) (fs_str s @ cstr that)) (fs_append_cstr s that)"
  using assms fs_append_ptr_refines [of s "length (cstr that)" that]
  by (simp add: fs_append_cstr_def constexpr_strlen_eq cstr_def length_takeWhile_le takeWhile_eq_take
      [symmetric])

lemma fs_append_fill_refines:
  assumes "fs_inv s"
  shows "refines (fs_capacity s) (bounded (fs_capacity s) (fs_str s @ replicate count ch))
    (fs_append_fill s count ch)"
  using assms fs_inv_size_cap [OF assms]
    append_loop_yields [OF assms, of "replicate count ch" "\<lambda>_. Inr ch"]
  by (auto simp: fs_append_fill_def bounded_def checkOverflow_def assertOutOfBounds_def)

lemma fs_push_back_refines:
  assumes "fs_inv s"
  shows "refines (fs_capacity s) (bounded (fs_capacity s) (fs_str s @ [ch])) (fs_push_back s ch)"
proof -
  have "append_loop s (\<lambda>_. Inr ch) 1 = bindE (wr (fs_data s) (fs_size s) ch) (\<lambda>d.
      bindE (wr d (fs_size s + 1) 0) (\<lambda>d'. Inr (s\<lparr>fs_data := d', fs_size := fs_size s + 1\<rparr>)))"
    by (simp add: append_loop_def bindE_assoc)
  then show ?thesis
    using assms fs_inv_size_cap [OF assms] append_loop_yields [OF assms, of "[ch]" "\<lambda>_. Inr ch"]
    by (auto simp: fs_push_back_def bounded_def checkOverflow_def assertOutOfBounds_def)
qed

lemma fs_pop_back_refines:
  assumes "fs_inv s"
  shows "refines (fs_capacity s)
    (if fs_str s = [] then Inl Out_of_range else Inr (butlast (fs_str s))) (fs_pop_back s)"
proof (cases "fs_size s")
  case 0
  then show ?thesis by (simp add: fs_pop_back_def fs_str_def)
next
  case (Suc n)
  have "length (fs_str s) = Suc n" using Suc assms by simp
  then have "fs_str s \<noteq> []" by auto
  then show ?thesis
    using Suc assms length_fs_data [OF assms]
      yieldsI [of "(fs_data s)[n := 0]" "fs_capacity s" "butlast (fs_str s)" s]
    by (simp add: fs_pop_back_def fs_str_def fs_inv_def butlast_take)
qed

lemma fs_clear_yields:
  assumes "fs_inv s" shows "yields (fs_capacity s) [] (fs_clear s)"
  using assms length_fs_data [OF assms] yieldsI [of "(fs_data s)[0 := 0]" "fs_capacity s" "[]" s]
  by (simp add: fs_clear_def fs_inv_def)

section \<open>Replacing and erasing\<close>

lemma Helper_replace_make:
  assumes "fs_inv s" and "pos + n \<le> fs_size s" and "right_pos + m \<le> length right"
    and "fs_size s + m < 2 ^ 64" and "fs_size s - n + m \<le> N"
  shows "Helper_replace N (fs_data s) (fs_size s) pos n right right_pos m =
    Inr (fs_make N (replace_range (fs_str s) pos n (take m (drop right_pos right))))"
  using assms ctor_replace_make [of "fs_size s" "fs_data s" pos n right_pos m right N]
  by (simp add: Helper_replace_def fs_str_def fs_inv_def)

lemma length_subst:
  "fs_inv s \<Longrightarrow> pos + n \<le> fs_size s \<Longrightarrow>
   length (replace_range (fs_str s) pos n ys) = fs_size s - n + length ys"
  by (simp add: length_replace_range)

lemma fs_creplace_range_refines:
  assumes "fs_inv s" "fs_fits s" "fs_inv that" "fs_fits that"
  shows "refines (fs_capacity s + fs_capacity that)
    (bindE (sub_range (fs_str that) that_pos that_count) (subst_range (fs_str s) this_pos this_count))
    (fs_creplace_range s this_pos this_count that that_pos that_count)"
proof (cases "in_range (fs_size s) this_pos this_count \<and> in_range (fs_size that) that_pos that_count")
  case False
  with assms show ?thesis
    unfolding fs_creplace_range_def range_check' by (auto simp: sub_range_def subst_range_def)
next
  case True
  let ?n = "eff_count this_count (fs_size s - this_pos)"
    and ?m = "eff_count that_count (fs_size that - that_pos)"
  have n: "this_pos + ?n \<le> fs_size s" and m: "that_pos + ?m \<le> fs_size that"
    using True by (auto dest: in_range_sum)
  have cap: "fs_size s \<le> fs_capacity s" "fs_size that \<le> fs_capacity that"
      "fs_capacity s < 2 ^ 63 - 1" "fs_capacity that < 2 ^ 63 - 1"
    using assms by (auto simp: fs_inv_size_cap dest: fs_fitsD)
  have "Helper_replace (fs_capacity s + fs_capacity that) (fs_data s) (fs_size s) this_pos ?n
        (fs_data that) that_pos ?m =
      Inr (fs_make (fs_capacity s + fs_capacity that)
        (replace_range (fs_str s) this_pos ?n (take ?m (drop that_pos (fs_data that)))))"
    using assms n m cap length_fs_data [OF assms(3)] by (intro Helper_replace_make) auto
  with True assms n m cap show ?thesis
    unfolding fs_creplace_range_def range_check'
    by (simp add: sub_range_def subst_range_def sub_str length_subst)
qed

lemma bindE_fs_assign_refines:
  assumes "refines M spec r" and "fs_inv s" and "M < 2 ^ 64"
  shows "refines (fs_capacity s) (bindE spec (bounded (fs_capacity s))) (bindE r (fs_assign_fs s))"
  using assms fs_assign_fs_refines by (cases spec) (auto simp: yields_def)

lemma fs_replace_range_refines:
  assumes "fs_inv s" "fs_fits s" "fs_inv that" "fs_fits that"
  shows "refines (fs_capacity s)
    (bindE (bindE (sub_range (fs_str that) that_pos that_count)
      (subst_range (fs_str s) this_pos this_count)) (bounded (fs_capacity s)))
    (fs_replace_range s this_pos this_count that that_pos that_count)"
  unfolding fs_replace_range_def
  by (rule bindE_fs_assign_refines [OF fs_creplace_range_refines [OF assms]])
    (use assms in \<open>auto dest!: fs_fitsD\<close>)

text \<open>
  \<^verbatim>\<open>replace\<close> with a pointer and a count builds its result with the capacity of \<^verbatim>\<open>*this\<close> and does not
  check that it fits.
\<close>

lemma fs_replace_ptr_refines:
  assumes "fs_inv s" "fs_fits s" and "that_count \<le> length that" and "that_count < 2 ^ 63"
    and "in_range (fs_size s) this_pos this_count \<Longrightarrow>
      fs_size s - eff_count this_count (fs_size s - this_pos) + that_count \<le> fs_capacity s"
  shows "refines (fs_capacity s) (subst_range (fs_str s) this_pos this_count (take that_count that))
    (fs_replace_ptr s this_pos this_count that that_count)"
proof (cases "in_range (fs_size s) this_pos this_count")
  case False
  with assms show ?thesis unfolding fs_replace_ptr_def range_check' by (simp add: subst_range_def)
next
  case True
  let ?n = "eff_count this_count (fs_size s - this_pos)"
  have n: "this_pos + ?n \<le> fs_size s" using True by (rule in_range_sum)
  have "fs_size s < 2 ^ 63" using assms by (auto simp: fs_fits_def fs_inv_def)
  then have "Helper_replace (fs_capacity s) (fs_data s) (fs_size s) this_pos ?n that 0 that_count =
      Inr (fs_make (fs_capacity s)
        (replace_range (fs_str s) this_pos ?n (take that_count (drop 0 that))))"
    using assms(1-4) assms(5)[OF True] n by (intro Helper_replace_make) auto
  with True assms(1-4) assms(5)[OF True] n show ?thesis
    unfolding fs_replace_ptr_def range_check'
    by (simp add: subst_range_def length_subst min_absorb2)
qed

lemma ctor_replace_overflow:
  assumes "left_size \<le> length left" and "left_pos + left_count \<le> left_size"
    and "right_pos + right_count \<le> length right" and "left_size + right_count < 2 ^ 64"
  shows "\<exists>d. ctor_replace N left left_size left_pos left_count right right_pos right_count =
    Inr \<lparr>fs_data = d, fs_size = left_size - left_count + right_count\<rparr> \<and> length d = N + 1"
  using assms
    array_init_Inr [of N "char_at_replace left left_size left_pos left_count right right_pos right_count" _ "N + 1",
      OF char_at_replace_eq [OF assms]]
  by (simp add: ctor_replace_def)

lemma fs_replace_ptr_overflow:
  assumes "fs_inv s" "fs_fits s" and "that_count \<le> length that" and "that_count < 2 ^ 63"
    and "in_range (fs_size s) this_pos this_count"
    and "fs_size s - eff_count this_count (fs_size s - this_pos) + that_count > fs_capacity s"
  shows "\<exists>s'. fs_replace_ptr s this_pos this_count that that_count = Inr s' \<and>
    fs_capacity s' = fs_capacity s \<and> fs_size s' > fs_capacity s'"
proof -
  have "fs_size s < 2 ^ 63" using assms by (auto simp: fs_fits_def fs_inv_def)
  then obtain d where "ctor_replace (fs_capacity s) (fs_data s) (fs_size s) this_pos
        (eff_count this_count (fs_size s - this_pos)) that 0 that_count =
      Inr \<lparr>fs_data = d, fs_size = fs_size s - eff_count this_count (fs_size s - this_pos) + that_count\<rparr>"
      and "length d = fs_capacity s + 1"
    using assms in_range_sum [OF assms(5)]
      ctor_replace_overflow [of "fs_size s" "fs_data s" this_pos
        "eff_count this_count (fs_size s - this_pos)" 0 that_count that "fs_capacity s"]
    by (auto simp: fs_inv_def)
  then show ?thesis
    using assms unfolding fs_replace_ptr_def range_check'
    by (simp add: Helper_replace_def fs_capacity_def)
qed

lemma fs_erase_refines:
  assumes "fs_inv s" "fs_fits s"
  shows "refines (fs_capacity s) (subst_range (fs_str s) pos count []) (fs_erase s pos count)"
proof (cases "in_range (fs_size s) pos count")
  case False
  with assms show ?thesis unfolding fs_erase_def range_check by (simp add: subst_range_def)
next
  case True
  let ?n = "eff_count count (fs_size s - pos)"
  have n: "pos + ?n \<le> fs_size s" using True by (rule in_range_sum)
  have "?n < 2 ^ 63" using assms n by (auto simp: fs_fits_def fs_inv_def)
  then have eff: "eff_count ?n (fs_size s - pos) = ?n" by (simp add: eff_count_def npos_def)
  then have "in_range (fs_size s) pos ?n" using n by (simp add: in_range_def)
  with True eff show ?thesis
    unfolding fs_erase_def range_check
    using assms n fs_inv_size_cap [OF assms(1)] fs_replace_ptr_refines [OF assms, of 0 "[0]" pos ?n]
    by (simp add: subst_range_def)
qed

lemma fs_creplace_literal_range_refines:
  assumes "fs_inv s" "fs_fits s" and "length xs < 2 ^ 63"
  shows "refines (fs_capacity s + length xs)
    (bindE (sub_range xs that_pos that_count) (subst_range (fs_str s) this_pos this_count))
    (fs_creplace_literal_range s this_pos this_count (xs @ [0]) that_pos that_count)"
proof (cases "in_range (fs_size s) this_pos this_count \<and> in_range (length xs) that_pos that_count")
  case False
  with assms show ?thesis
    unfolding fs_creplace_literal_range_def range_check' checkNullTerminated_literal bindE_simps
    by (auto simp: sub_range_def subst_range_def)
next
  case True
  let ?n = "eff_count this_count (fs_size s - this_pos)"
    and ?m = "eff_count that_count (length xs - that_pos)"
  have n: "this_pos + ?n \<le> fs_size s" and m: "that_pos + ?m \<le> length xs"
    using True by (auto dest: in_range_sum)
  have cap: "fs_size s \<le> fs_capacity s" "fs_capacity s < 2 ^ 63 - 1"
    using assms by (auto simp: fs_inv_size_cap dest: fs_fitsD)
  have "Helper_replace (fs_capacity s + length xs) (fs_data s) (fs_size s) this_pos ?n
        (xs @ [0]) that_pos ?m =
      Inr (fs_make (fs_capacity s + length xs)
        (replace_range (fs_str s) this_pos ?n (take ?m (drop that_pos (xs @ [0])))))"
    using assms n m cap by (intro Helper_replace_make) auto
  then show ?thesis
    unfolding fs_creplace_literal_range_def range_check' checkNullTerminated_literal bindE_simps
    using True assms n m cap by (simp add: sub_range_def subst_range_def length_subst min_absorb2)
qed

section \<open>Concatenation\<close>

lemma fs_plus_fs_yields:
  assumes "fs_inv a" "fs_fits a" "fs_inv b" "fs_fits b"
  shows "yields (fs_capacity a + fs_capacity b) (fs_str a @ fs_str b) (fs_plus_fs a b)"
proof -
  have cap: "fs_size a \<le> fs_capacity a" "fs_size b \<le> fs_capacity b"
      "fs_capacity a < 2 ^ 63 - 1" "fs_capacity b < 2 ^ 63 - 1"
    using assms by (auto simp: fs_inv_size_cap dest: fs_fitsD)
  then show ?thesis
    using assms ctor_concat_make [of "fs_size a" "fs_data a" "fs_size b" "fs_data b"
        "fs_capacity a + fs_capacity b"]
      yields_fs_make [of "fs_str a @ fs_str b" "fs_capacity a + fs_capacity b"]
    by (simp add: fs_plus_fs_def Helper_concat_def fs_inv_def flip: fs_str_def)
qed

lemma fs_plus_fs_char_yields:
  assumes "fs_inv a" "fs_fits a"
  shows "yields (fs_capacity a + 1) (fs_str a @ [b]) (fs_plus_fs_char a b)"
  using assms fs_inv_size_cap [OF assms(1)] fs_fitsD [OF assms(2,1)]
    ctor_concat_make [of "fs_size a" "fs_data a" 1 "[b, 0]" "fs_capacity a + 1"]
    yields_fs_make [of "fs_str a @ [b]" "fs_capacity a + 1"]
  by (simp add: fs_plus_fs_char_def Helper_concat_def fs_inv_def flip: fs_str_def)

lemma fs_plus_char_fs_yields:
  assumes "fs_inv b" "fs_fits b"
  shows "yields (fs_capacity b + 1) (a # fs_str b) (fs_plus_char_fs a b)"
  using assms fs_inv_size_cap [OF assms(1)] fs_fitsD [OF assms(2,1)]
    ctor_concat_make [of 1 "[a, 0]" "fs_size b" "fs_data b" "fs_capacity b + 1"]
    yields_fs_make [of "a # fs_str b" "fs_capacity b + 1"]
  by (simp add: fs_plus_char_fs_def Helper_concat_def fs_inv_def flip: fs_str_def)

lemma fs_plus_fs_literal_yields:
  assumes "fs_inv a" "fs_fits a" and "length xs < 2 ^ 63"
  shows "yields (fs_capacity a + length xs) (fs_str a @ xs) (fs_plus_fs_literal a (xs @ [0]))"
  using assms fs_inv_size_cap [OF assms(1)] fs_fitsD [OF assms(2,1)]
    ctor_concat_make [of "fs_size a" "fs_data a" "length xs" "xs @ [0]" "fs_capacity a + length xs"]
    yields_fs_make [of "fs_str a @ xs" "fs_capacity a + length xs"]
  by (simp add: fs_plus_fs_literal_def Helper_concat_def fs_inv_def flip: fs_str_def)

lemma fs_plus_literal_fs_yields:
  assumes "fs_inv b" "fs_fits b" and "length xs < 2 ^ 63"
  shows "yields (fs_capacity b + length xs) (xs @ fs_str b) (fs_plus_literal_fs (xs @ [0]) b)"
  using assms fs_inv_size_cap [OF assms(1)] fs_fitsD [OF assms(2,1)]
    ctor_concat_make [of "length xs" "xs @ [0]" "fs_size b" "fs_data b" "fs_capacity b + length xs"]
    yields_fs_make [of "xs @ fs_str b" "fs_capacity b + length xs"]
  by (simp add: fs_plus_literal_fs_def Helper_concat_def fs_inv_def flip: fs_str_def)

section \<open>Resizing and access\<close>

lemma fs_resize_fill_refines:
  assumes "fs_inv s"
  shows "refines (fs_capacity s)
    (bounded (fs_capacity s) (take count (fs_str s) @ replicate (count - fs_size s) ch))
    (fs_resize_fill s count ch)"
proof -
  consider "fs_capacity s < count" | "count = fs_size s" | "count < fs_size s"
    | "fs_size s < count" "count \<le> fs_capacity s" by linarith
  then show ?thesis
  proof cases
    case 1
    with assms fs_inv_size_cap [OF assms] show ?thesis by (simp add: fs_resize_fill_def bounded_def)
  next
    case 2
    with assms fs_inv_size_cap [OF assms] show ?thesis
      by (simp add: fs_resize_fill_def bounded_def yields_def length_fs_data)
  next
    case 3
    with assms fs_inv_size_cap [OF assms] length_fs_data [OF assms] show ?thesis
      using yieldsI [of "(fs_data s)[count := 0]" "fs_capacity s" "take count (fs_str s)" s]
      by (simp add: fs_resize_fill_def bounded_def fs_str_def fs_inv_def min_absorb1 min_absorb2)
  next
    case 4
    with assms show ?thesis
      using append_loop_yields [OF assms, of "replicate (count - fs_size s) ch" "\<lambda>_. Inr ch"]
      by (simp add: fs_resize_fill_def bounded_def)
  qed
qed

lemma fs_at_eq:
  "fs_inv s \<Longrightarrow> fs_at s i = (if i \<le> fs_size s then Inr ((fs_str s @ [0]) ! i) else Inl Out_of_range)"
  by (auto simp: fs_at_def fs_inv_def fs_str_def nth_append)

lemma fs_index_eq:
  "fs_inv s \<Longrightarrow> i \<le> fs_size s \<Longrightarrow> fs_index dbg s i = Inr ((fs_str s @ [0]) ! i)"
  by (auto simp: fs_index_def checkOverflowIfDebug_def fs_inv_def fs_str_def nth_append)

lemma fs_back_eq:
  "fs_inv s \<Longrightarrow> fs_str s \<noteq> [] \<Longrightarrow> fs_back dbg s = Inr (last (fs_str s))"
  by (auto simp: fs_back_def checkOverflowIfDebug_def fs_inv_def fs_str_def last_conv_nth Suc_le_eq)

lemma fs_toStdString_eq: "fs_inv s \<Longrightarrow> fs_toStdString s = Inr (fs_str s)"
  using traverse_Inr [of "[0..<fs_size s]" "rd (fs_data s)" "(!) (fs_data s)"]
  by (simp add: fs_toStdString_def fs_inv_def fs_str_def map_nth_take)

end
