(* ===== verification/FixedString_Search.thy ===== *)
theory FixedString_Search
  imports FixedString_Correct
begin

text \<open>
  Searching and comparing in \<^verbatim>\<open>BasicFixedString\<close> (\<^verbatim>\<open>folly/FixedString.h\<close>): the six search
  families with their seven overloads each, the \<^verbatim>\<open>compare\<close> overloads and the relational
  operators.  The locale \<open>search_family\<close> states what the overloads of a family share: they all
  come from the one that takes a pointer and a count, whose contract on lists is proved once per
  family.
\<close>

section \<open>The search overloads\<close>

definition fs_find_fs_pos :: "'c fixed_string \<Rightarrow> 'c fixed_string \<Rightarrow> nat \<Rightarrow> nat res" where
  "fs_find_fs_pos s that pos =
     bindE (checkOverflow pos (fs_size s)) (\<lambda>p.
       if (fs_size that) \<le> sz_sub (fs_size s) p
       then find' (fs_data s) (fs_size s) (fs_data that) pos (fs_size that)
       else Inr npos)"

definition fs_find_fs :: "'c fixed_string \<Rightarrow> 'c fixed_string \<Rightarrow> nat res" where
  "fs_find_fs s that = noexcept (fs_find_fs_pos s that 0)"

definition fs_find_ptr :: "'c fixed_string \<Rightarrow> 'c list \<Rightarrow> nat \<Rightarrow> nat \<Rightarrow> nat res" where
  "fs_find_ptr s that pos count =
     bindE (checkOverflow pos (fs_size s)) (\<lambda>p.
       if count \<le> sz_sub (fs_size s) p
       then find' (fs_data s) (fs_size s) that pos count
       else Inr npos)"

definition fs_find_cstr :: "'c::zero fixed_string \<Rightarrow> 'c list \<Rightarrow> nat res" where
  "fs_find_cstr s that = noexcept (bindE (constexpr_strlen that) (fs_find_ptr s that 0))"

definition fs_find_cstr_pos :: "'c::zero fixed_string \<Rightarrow> 'c list \<Rightarrow> nat \<Rightarrow> nat res" where
  "fs_find_cstr_pos s that pos = bindE (constexpr_strlen that) (fs_find_ptr s that pos)"

definition fs_find_char_pos :: "'c fixed_string \<Rightarrow> 'c \<Rightarrow> nat \<Rightarrow> nat res" where
  "fs_find_char_pos s ch pos =
     bindE (checkOverflow pos (fs_size s)) (\<lambda>p.
       if 0 = sz_sub (fs_size s) p then Inr npos
       else find' (fs_data s) (fs_size s) [ch] pos 1)"

definition fs_find_char :: "'c fixed_string \<Rightarrow> 'c \<Rightarrow> nat res" where
  "fs_find_char s ch = noexcept (fs_find_char_pos s ch 0)"

definition fs_rfind_fs_pos :: "'c fixed_string \<Rightarrow> 'c fixed_string \<Rightarrow> nat \<Rightarrow> nat res" where
  "fs_rfind_fs_pos s that pos =
     (if (fs_size that) \<le> fs_size s
      then bindE (checkOverflow pos (fs_size s)) (\<lambda>p.
        rfind' (fs_data s) (fs_data that) (min p (sz_sub (fs_size s) (fs_size that))) (fs_size that))
      else Inr npos)"

definition fs_rfind_fs :: "'c fixed_string \<Rightarrow> 'c fixed_string \<Rightarrow> nat res" where
  "fs_rfind_fs s that = noexcept (fs_rfind_fs_pos s that (fs_size s))"

definition fs_rfind_ptr :: "'c fixed_string \<Rightarrow> 'c list \<Rightarrow> nat \<Rightarrow> nat \<Rightarrow> nat res" where
  "fs_rfind_ptr s that pos count =
     (if count \<le> fs_size s
      then bindE (checkOverflow pos (fs_size s)) (\<lambda>p.
        rfind' (fs_data s) that (min p (sz_sub (fs_size s) count)) count)
      else Inr npos)"

definition fs_rfind_cstr :: "'c::zero fixed_string \<Rightarrow> 'c list \<Rightarrow> nat res" where
  "fs_rfind_cstr s that = noexcept (bindE (constexpr_strlen that) (fs_rfind_ptr s that (fs_size s)))"

definition fs_rfind_cstr_pos :: "'c::zero fixed_string \<Rightarrow> 'c list \<Rightarrow> nat \<Rightarrow> nat res" where
  "fs_rfind_cstr_pos s that pos = bindE (constexpr_strlen that) (fs_rfind_ptr s that pos)"

definition fs_rfind_char_pos :: "'c fixed_string \<Rightarrow> 'c \<Rightarrow> nat \<Rightarrow> nat res" where
  "fs_rfind_char_pos s ch pos =
     (if 0 = fs_size s then Inr npos
      else bindE (checkOverflow pos (fs_size s)) (\<lambda>p.
        rfind' (fs_data s) [ch] (min p (sz_sub (fs_size s) 1)) 1))"

definition fs_rfind_char :: "'c fixed_string \<Rightarrow> 'c \<Rightarrow> nat res" where
  "fs_rfind_char s ch = noexcept (fs_rfind_char_pos s ch (fs_size s))"

definition fs_find_first_of_fs_pos :: "'c fixed_string \<Rightarrow> 'c fixed_string \<Rightarrow> nat \<Rightarrow> nat res" where
  "fs_find_first_of_fs_pos s that pos =
     bindE (checkOverflow pos (fs_size s)) (\<lambda>p.
       if fs_size s = p then Inr npos
       else find_first_of' (fs_data s) (fs_size s) (fs_data that) pos (fs_size that))"

definition fs_find_first_of_fs :: "'c fixed_string \<Rightarrow> 'c fixed_string \<Rightarrow> nat res" where
  "fs_find_first_of_fs s that = noexcept (fs_find_first_of_fs_pos s that 0)"

definition fs_find_first_of_ptr :: "'c fixed_string \<Rightarrow> 'c list \<Rightarrow> nat \<Rightarrow> nat \<Rightarrow> nat res" where
  "fs_find_first_of_ptr s that pos count =
     bindE (checkOverflow pos (fs_size s)) (\<lambda>p.
       if fs_size s = p then Inr npos
       else find_first_of' (fs_data s) (fs_size s) that pos count)"

definition fs_find_first_of_cstr :: "'c::zero fixed_string \<Rightarrow> 'c list \<Rightarrow> nat res" where
  "fs_find_first_of_cstr s that = noexcept (bindE (constexpr_strlen that) (fs_find_first_of_ptr s that 0))"

definition fs_find_first_of_cstr_pos :: "'c::zero fixed_string \<Rightarrow> 'c list \<Rightarrow> nat \<Rightarrow> nat res" where
  "fs_find_first_of_cstr_pos s that pos = bindE (constexpr_strlen that) (fs_find_first_of_ptr s that pos)"

definition fs_find_first_of_char_pos :: "'c fixed_string \<Rightarrow> 'c \<Rightarrow> nat \<Rightarrow> nat res" where
  "fs_find_first_of_char_pos s ch pos =
     bindE (checkOverflow pos (fs_size s)) (\<lambda>p.
       if fs_size s = p then Inr npos
       else find_first_of' (fs_data s) (fs_size s) [ch] pos 1)"

definition fs_find_first_of_char :: "'c fixed_string \<Rightarrow> 'c \<Rightarrow> nat res" where
  "fs_find_first_of_char s ch = noexcept (fs_find_first_of_char_pos s ch 0)"

definition fs_find_first_not_of_fs_pos :: "'c fixed_string \<Rightarrow> 'c fixed_string \<Rightarrow> nat \<Rightarrow> nat res" where
  "fs_find_first_not_of_fs_pos s that pos =
     bindE (checkOverflow pos (fs_size s)) (\<lambda>p.
       if fs_size s = p then Inr npos
       else find_first_not_of' (fs_data s) (fs_size s) (fs_data that) pos (fs_size that))"

definition fs_find_first_not_of_fs :: "'c fixed_string \<Rightarrow> 'c fixed_string \<Rightarrow> nat res" where
  "fs_find_first_not_of_fs s that = noexcept (fs_find_first_not_of_fs_pos s that 0)"

definition fs_find_first_not_of_ptr :: "'c fixed_string \<Rightarrow> 'c list \<Rightarrow> nat \<Rightarrow> nat \<Rightarrow> nat res" where
  "fs_find_first_not_of_ptr s that pos count =
     bindE (checkOverflow pos (fs_size s)) (\<lambda>p.
       if fs_size s = p then Inr npos
       else find_first_not_of' (fs_data s) (fs_size s) that pos count)"

definition fs_find_first_not_of_cstr :: "'c::zero fixed_string \<Rightarrow> 'c list \<Rightarrow> nat res" where
  "fs_find_first_not_of_cstr s that = noexcept (bindE (constexpr_strlen that) (fs_find_first_not_of_ptr s that 0))"

definition fs_find_first_not_of_cstr_pos :: "'c::zero fixed_string \<Rightarrow> 'c list \<Rightarrow> nat \<Rightarrow> nat res" where
  "fs_find_first_not_of_cstr_pos s that pos = bindE (constexpr_strlen that) (fs_find_first_not_of_ptr s that pos)"

definition fs_find_first_not_of_char_pos :: "'c fixed_string \<Rightarrow> 'c \<Rightarrow> nat \<Rightarrow> nat res" where
  "fs_find_first_not_of_char_pos s ch pos =
     bindE (checkOverflow pos (fs_size s)) (\<lambda>p.
       if 1 \<le> sz_sub (fs_size s) p
       then find_first_not_of' (fs_data s) (fs_size s) [ch] pos 1
       else Inr npos)"

definition fs_find_first_not_of_char :: "'c fixed_string \<Rightarrow> 'c \<Rightarrow> nat res" where
  "fs_find_first_not_of_char s ch = noexcept (fs_find_first_not_of_char_pos s ch 0)"

definition fs_find_last_of_fs_pos :: "'c fixed_string \<Rightarrow> 'c fixed_string \<Rightarrow> nat \<Rightarrow> nat res" where
  "fs_find_last_of_fs_pos s that pos =
     (if 0 = fs_size s then Inr npos
      else bindE (checkOverflow pos (fs_size s)) (\<lambda>p.
        find_last_of' (fs_data s) (fs_data that) (min p (sz_sub (fs_size s) 1)) (fs_size that)))"

definition fs_find_last_of_fs :: "'c fixed_string \<Rightarrow> 'c fixed_string \<Rightarrow> nat res" where
  "fs_find_last_of_fs s that = noexcept (fs_find_last_of_fs_pos s that (fs_size s))"

definition fs_find_last_of_ptr :: "'c fixed_string \<Rightarrow> 'c list \<Rightarrow> nat \<Rightarrow> nat \<Rightarrow> nat res" where
  "fs_find_last_of_ptr s that pos count =
     (if 0 = fs_size s then Inr npos
      else bindE (checkOverflow pos (fs_size s)) (\<lambda>p.
        find_last_of' (fs_data s) that (min p (sz_sub (fs_size s) 1)) count))"

definition fs_find_last_of_cstr :: "'c::zero fixed_string \<Rightarrow> 'c list \<Rightarrow> nat res" where
  "fs_find_last_of_cstr s that = noexcept (bindE (constexpr_strlen that) (fs_find_last_of_ptr s that (fs_size s)))"

definition fs_find_last_of_cstr_pos :: "'c::zero fixed_string \<Rightarrow> 'c list \<Rightarrow> nat \<Rightarrow> nat res" where
  "fs_find_last_of_cstr_pos s that pos = bindE (constexpr_strlen that) (fs_find_last_of_ptr s that pos)"

definition fs_find_last_of_char_pos :: "'c fixed_string \<Rightarrow> 'c \<Rightarrow> nat \<Rightarrow> nat res" where
  "fs_find_last_of_char_pos s ch pos =
     (if 0 = fs_size s then Inr npos
      else bindE (checkOverflow pos (fs_size s)) (\<lambda>p.
        find_last_of' (fs_data s) [ch] (min p (sz_sub (fs_size s) 1)) 1))"

definition fs_find_last_of_char :: "'c fixed_string \<Rightarrow> 'c \<Rightarrow> nat res" where
  "fs_find_last_of_char s ch = noexcept (fs_find_last_of_char_pos s ch (fs_size s))"

definition fs_find_last_not_of_fs_pos :: "'c fixed_string \<Rightarrow> 'c fixed_string \<Rightarrow> nat \<Rightarrow> nat res" where
  "fs_find_last_not_of_fs_pos s that pos =
     (if 0 = fs_size s then Inr npos
      else bindE (checkOverflow pos (fs_size s)) (\<lambda>p.
        find_last_not_of' (fs_data s) (fs_data that) (min p (sz_sub (fs_size s) 1)) (fs_size that)))"

definition fs_find_last_not_of_fs :: "'c fixed_string \<Rightarrow> 'c fixed_string \<Rightarrow> nat res" where
  "fs_find_last_not_of_fs s that = noexcept (fs_find_last_not_of_fs_pos s that (fs_size s))"

definition fs_find_last_not_of_ptr :: "'c fixed_string \<Rightarrow> 'c list \<Rightarrow> nat \<Rightarrow> nat \<Rightarrow> nat res" where
  "fs_find_last_not_of_ptr s that pos count =
     (if 0 = fs_size s then Inr npos
      else bindE (checkOverflow pos (fs_size s)) (\<lambda>p.
        find_last_not_of' (fs_data s) that (min p (sz_sub (fs_size s) 1)) count))"

definition fs_find_last_not_of_cstr :: "'c::zero fixed_string \<Rightarrow> 'c list \<Rightarrow> nat res" where
  "fs_find_last_not_of_cstr s that = noexcept (bindE (constexpr_strlen that) (fs_find_last_not_of_ptr s that (fs_size s)))"

definition fs_find_last_not_of_cstr_pos :: "'c::zero fixed_string \<Rightarrow> 'c list \<Rightarrow> nat \<Rightarrow> nat res" where
  "fs_find_last_not_of_cstr_pos s that pos = bindE (constexpr_strlen that) (fs_find_last_not_of_ptr s that pos)"

definition fs_find_last_not_of_char_pos :: "'c fixed_string \<Rightarrow> 'c \<Rightarrow> nat \<Rightarrow> nat res" where
  "fs_find_last_not_of_char_pos s ch pos =
     (if 0 = fs_size s then Inr npos
      else bindE (checkOverflow pos (fs_size s)) (\<lambda>p.
        find_last_not_of' (fs_data s) [ch] (min p (sz_sub (fs_size s) 1)) 1))"

definition fs_find_last_not_of_char :: "'c fixed_string \<Rightarrow> 'c \<Rightarrow> nat res" where
  "fs_find_last_not_of_char s ch = noexcept (fs_find_last_not_of_char_pos s ch (fs_size s))"

section \<open>The comparison overloads\<close>

definition fs_compare_range ::
  "'c::linorder fixed_string \<Rightarrow> nat \<Rightarrow> nat \<Rightarrow> 'c fixed_string \<Rightarrow> nat \<Rightarrow> nat \<Rightarrow> int res" where
  "fs_compare_range s this_pos this_count that that_pos that_count =
     bindE (checkOverflow this_pos (fs_size s)) (\<lambda>tp.
     bindE (checkOverflow this_count (sz_sub (fs_size s) this_pos)) (\<lambda>tc.
     bindE (checkOverflow that_pos (fs_size that)) (\<lambda>up.
     bindE (checkOverflow that_count (sz_sub (fs_size that) that_pos)) (\<lambda>uc.
     bindE (compare' (fs_data s) tp (tc + this_pos) (fs_data that) up (uc + that_pos)) (\<lambda>ord.
       Inr (ordering_int ord))))))"

definition fs_compare_fs :: "'c::linorder fixed_string \<Rightarrow> 'c fixed_string \<Rightarrow> int res" where
  "fs_compare_fs s that = noexcept (fs_compare_range s 0 (fs_size s) that 0 (fs_size that))"

definition fs_compare_sub_fs ::
  "'c::linorder fixed_string \<Rightarrow> nat \<Rightarrow> nat \<Rightarrow> 'c fixed_string \<Rightarrow> int res" where
  "fs_compare_sub_fs s this_pos this_count that =
     fs_compare_range s this_pos this_count that 0 (fs_size that)"

definition fs_compare_ptr ::
  "'c::linorder fixed_string \<Rightarrow> nat \<Rightarrow> nat \<Rightarrow> 'c list \<Rightarrow> nat \<Rightarrow> int res" where
  "fs_compare_ptr s this_pos this_count that that_count =
     bindE (checkOverflow this_pos (fs_size s)) (\<lambda>tp.
     bindE (checkOverflowOrNpos this_count (sz_sub (fs_size s) this_pos)) (\<lambda>tc.
     bindE (compare' (fs_data s) tp (tc + this_pos) that 0 that_count) (\<lambda>ord.
       Inr (ordering_int ord))))"

definition fs_compare_cstr :: "'c::{zero,linorder} fixed_string \<Rightarrow> 'c list \<Rightarrow> int res" where
  "fs_compare_cstr s that =
     noexcept (bindE (constexpr_strlen that) (fs_compare_ptr s 0 (fs_size s) that))"

definition fs_compare_Range :: "'c::linorder fixed_string \<Rightarrow> 'c list \<Rightarrow> int res" where
  "fs_compare_Range s that = noexcept (fs_compare_ptr s 0 (fs_size s) that (length that))"

definition fs_compare_sub_cstr ::
  "'c::{zero,linorder} fixed_string \<Rightarrow> nat \<Rightarrow> nat \<Rightarrow> 'c list \<Rightarrow> int res" where
  "fs_compare_sub_cstr s this_pos this_count that =
     bindE (constexpr_strlen that) (fs_compare_ptr s this_pos this_count that)"

definition fs_compare_sub_Range ::
  "'c::linorder fixed_string \<Rightarrow> nat \<Rightarrow> nat \<Rightarrow> 'c list \<Rightarrow> int res" where
  "fs_compare_sub_Range s this_pos this_count that =
     fs_compare_ptr s this_pos this_count that (length that)"

definition fs_compare_Range_count ::
  "'c::linorder fixed_string \<Rightarrow> nat \<Rightarrow> nat \<Rightarrow> 'c list \<Rightarrow> nat \<Rightarrow> int res" where
  "fs_compare_Range_count s this_pos this_count that that_count =
     bindE (checkOverflow that_count (length that)) (fs_compare_ptr s this_pos this_count that)"

section \<open>The relational operators\<close>

text \<open>
  A right or left operand that is not a \<^verbatim>\<open>BasicFixedString\<close> is a C string or a \<^verbatim>\<open>Range\<close>.
\<close>

definition less_of :: "ordering res \<Rightarrow> bool res" where
  "less_of r = bindE r (\<lambda>ord. Inr (Lt = ord))"

definition notE :: "bool res \<Rightarrow> bool res" where
  "notE r = bindE r (\<lambda>b. Inr (\<not> b))"

definition eq_cstr_fs :: "'c::{zero,linorder} list \<Rightarrow> 'c fixed_string \<Rightarrow> bool res" where
  "eq_cstr_fs a b = bindE (constexpr_strlen a) (\<lambda>n. equal' a n (fs_data b) (fs_size b))"

definition eq_fs_cstr :: "'c::{zero,linorder} fixed_string \<Rightarrow> 'c list \<Rightarrow> bool res" where
  "eq_fs_cstr a b = eq_cstr_fs b a"

definition eq_Range_fs :: "'c::linorder list \<Rightarrow> 'c fixed_string \<Rightarrow> bool res" where
  "eq_Range_fs a b = equal' a (length a) (fs_data b) (fs_size b)"

definition eq_fs_Range :: "'c::linorder fixed_string \<Rightarrow> 'c list \<Rightarrow> bool res" where
  "eq_fs_Range a b = eq_Range_fs b a"

definition eq_fs_fs :: "'c::linorder fixed_string \<Rightarrow> 'c fixed_string \<Rightarrow> bool res" where
  "eq_fs_fs a b = equal' (fs_data a) (fs_size a) (fs_data b) (fs_size b)"

definition ne_cstr_fs :: "'c::{zero,linorder} list \<Rightarrow> 'c fixed_string \<Rightarrow> bool res" where
  "ne_cstr_fs a b = notE (eq_cstr_fs a b)"

definition ne_fs_cstr :: "'c::{zero,linorder} fixed_string \<Rightarrow> 'c list \<Rightarrow> bool res" where
  "ne_fs_cstr a b = notE (eq_cstr_fs b a)"

definition ne_Range_fs :: "'c::linorder list \<Rightarrow> 'c fixed_string \<Rightarrow> bool res" where
  "ne_Range_fs a b = notE (eq_Range_fs a b)"

definition ne_fs_Range :: "'c::linorder fixed_string \<Rightarrow> 'c list \<Rightarrow> bool res" where
  "ne_fs_Range a b = notE (eq_fs_Range a b)"

definition ne_fs_fs :: "'c::linorder fixed_string \<Rightarrow> 'c fixed_string \<Rightarrow> bool res" where
  "ne_fs_fs a b = notE (eq_fs_fs a b)"

definition lt_cstr_fs :: "'c::{zero,linorder} list \<Rightarrow> 'c fixed_string \<Rightarrow> bool res" where
  "lt_cstr_fs a b =
     less_of (bindE (constexpr_strlen a) (\<lambda>n. compare' a 0 n (fs_data b) 0 (fs_size b)))"

definition lt_fs_cstr :: "'c::{zero,linorder} fixed_string \<Rightarrow> 'c list \<Rightarrow> bool res" where
  "lt_fs_cstr a b =
     less_of (bindE (constexpr_strlen b) (\<lambda>n. compare' (fs_data a) 0 (fs_size a) b 0 n))"

definition lt_Range_fs :: "'c::linorder list \<Rightarrow> 'c fixed_string \<Rightarrow> bool res" where
  "lt_Range_fs a b = less_of (compare' a 0 (length a) (fs_data b) 0 (fs_size b))"

definition lt_fs_Range :: "'c::linorder fixed_string \<Rightarrow> 'c list \<Rightarrow> bool res" where
  "lt_fs_Range a b = less_of (compare' (fs_data a) 0 (fs_size a) b 0 (length b))"

definition lt_fs_fs :: "'c::linorder fixed_string \<Rightarrow> 'c fixed_string \<Rightarrow> bool res" where
  "lt_fs_fs a b = less_of (compare' (fs_data a) 0 (fs_size a) (fs_data b) 0 (fs_size b))"

definition gt_cstr_fs :: "'c::{zero,linorder} list \<Rightarrow> 'c fixed_string \<Rightarrow> bool res" where
  "gt_cstr_fs a b = lt_fs_cstr b a"

definition gt_fs_cstr :: "'c::{zero,linorder} fixed_string \<Rightarrow> 'c list \<Rightarrow> bool res" where
  "gt_fs_cstr a b = lt_cstr_fs b a"

definition gt_Range_fs :: "'c::linorder list \<Rightarrow> 'c fixed_string \<Rightarrow> bool res" where
  "gt_Range_fs a b = lt_fs_Range b a"

definition gt_fs_Range :: "'c::linorder fixed_string \<Rightarrow> 'c list \<Rightarrow> bool res" where
  "gt_fs_Range a b = lt_Range_fs b a"

definition gt_fs_fs :: "'c::linorder fixed_string \<Rightarrow> 'c fixed_string \<Rightarrow> bool res" where
  "gt_fs_fs a b = lt_fs_fs b a"

definition le_cstr_fs :: "'c::{zero,linorder} list \<Rightarrow> 'c fixed_string \<Rightarrow> bool res" where
  "le_cstr_fs a b = notE (lt_fs_cstr b a)"

definition le_fs_cstr :: "'c::{zero,linorder} fixed_string \<Rightarrow> 'c list \<Rightarrow> bool res" where
  "le_fs_cstr a b = notE (lt_cstr_fs b a)"

definition le_Range_fs :: "'c::linorder list \<Rightarrow> 'c fixed_string \<Rightarrow> bool res" where
  "le_Range_fs a b = notE (lt_fs_Range b a)"

definition le_fs_Range :: "'c::linorder fixed_string \<Rightarrow> 'c list \<Rightarrow> bool res" where
  "le_fs_Range a b = notE (lt_Range_fs b a)"

definition le_fs_fs :: "'c::linorder fixed_string \<Rightarrow> 'c fixed_string \<Rightarrow> bool res" where
  "le_fs_fs a b = notE (lt_fs_fs b a)"

definition ge_cstr_fs :: "'c::{zero,linorder} list \<Rightarrow> 'c fixed_string \<Rightarrow> bool res" where
  "ge_cstr_fs a b = notE (lt_cstr_fs a b)"

definition ge_fs_cstr :: "'c::{zero,linorder} fixed_string \<Rightarrow> 'c list \<Rightarrow> bool res" where
  "ge_fs_cstr a b = notE (lt_fs_cstr a b)"

definition ge_Range_fs :: "'c::linorder list \<Rightarrow> 'c fixed_string \<Rightarrow> bool res" where
  "ge_Range_fs a b = notE (lt_Range_fs a b)"

definition ge_fs_Range :: "'c::linorder fixed_string \<Rightarrow> 'c list \<Rightarrow> bool res" where
  "ge_fs_Range a b = notE (lt_fs_Range a b)"

definition ge_fs_fs :: "'c::linorder fixed_string \<Rightarrow> 'c fixed_string \<Rightarrow> bool res" where
  "ge_fs_fs a b = notE (lt_fs_fs a b)"

section \<open>Searching over lists\<close>

definition occurs_at :: "'c list \<Rightarrow> 'c list \<Rightarrow> nat \<Rightarrow> bool" where
  "occurs_at xs ys i \<longleftrightarrow> i + length ys \<le> length xs \<and> take (length ys) (drop i xs) = ys"

definition find_spec :: "'c list \<Rightarrow> 'c list \<Rightarrow> nat \<Rightarrow> nat res" where
  "find_spec xs ys pos =
     (if pos \<le> length xs then Inr (first_from (occurs_at xs ys) pos (length xs + 1))
      else Inl Out_of_range)"

definition rfind_spec :: "'c list \<Rightarrow> 'c list \<Rightarrow> nat \<Rightarrow> nat res" where
  "rfind_spec xs ys pos =
     (if length xs < length ys then Inr npos
      else if pos \<le> length xs then Inr (last_upto (occurs_at xs ys) pos) else Inl Out_of_range)"

definition one_of :: "bool \<Rightarrow> 'c list \<Rightarrow> 'c list \<Rightarrow> nat \<Rightarrow> bool" where
  "one_of want xs ys i \<longleftrightarrow> i < length xs \<and> (xs ! i \<in> set ys) = want"

definition first_of_spec :: "bool \<Rightarrow> 'c list \<Rightarrow> 'c list \<Rightarrow> nat \<Rightarrow> nat res" where
  "first_of_spec want xs ys pos =
     (if pos \<le> length xs then Inr (first_from (one_of want xs ys) pos (length xs))
      else Inl Out_of_range)"

definition last_of_spec :: "bool \<Rightarrow> 'c list \<Rightarrow> 'c list \<Rightarrow> nat \<Rightarrow> nat res" where
  "last_of_spec want xs ys pos =
     (if xs = [] then Inr npos
      else if pos \<le> length xs then Inr (last_upto (one_of want xs ys) pos) else Inl Out_of_range)"

locale search_family =
  fixes ptr :: "'c::zero fixed_string \<Rightarrow> 'c list \<Rightarrow> nat \<Rightarrow> nat \<Rightarrow> nat res"
    and spec :: "'c list \<Rightarrow> 'c list \<Rightarrow> nat \<Rightarrow> nat res"
  assumes ptr_spec: "fs_inv s \<Longrightarrow> count \<le> length that \<Longrightarrow>
    ptr s that pos count = spec (fs_str s) (take count that) pos"
begin

lemma fs_spec:
  "fs_inv s \<Longrightarrow> fs_inv that \<Longrightarrow>
    ptr s (fs_data that) pos (fs_size that) = spec (fs_str s) (fs_str that) pos"
  by (simp add: ptr_spec fs_str_def fs_inv_def)

lemma char_spec: "fs_inv s \<Longrightarrow> ptr s [ch] pos 1 = spec (fs_str s) [ch] pos"
  by (simp add: ptr_spec)

lemma cstr_spec:
  "fs_inv s \<Longrightarrow> 0 \<in> set that \<Longrightarrow>
    bindE (constexpr_strlen that) (ptr s that pos) = spec (fs_str s) (cstr that) pos"
  using ptr_spec [of s "length (cstr that)" that pos]
  by (simp add: constexpr_strlen_eq cstr_def length_takeWhile_le takeWhile_eq_take [symmetric])

end

lemma occurs_at_data:
  assumes "fs_inv s" and "count \<le> length that" and "i + count \<le> fs_size s"
  shows "occurs_at (fs_str s) (take count that) i \<longleftrightarrow> take count (drop i (fs_data s)) = take count that"
  using assms by (simp add: occurs_at_def sub_str min_absorb2)

lemma one_of_data:
  "fs_inv s \<Longrightarrow> i < fs_size s \<Longrightarrow> one_of want (fs_str s) ys i \<longleftrightarrow> (fs_data s ! i \<in> set ys) = want"
  by (simp add: one_of_def fs_str_def fs_inv_def)

lemma fs_find_ptr_eq:
  assumes "fs_inv s" and "count \<le> length that"
  shows "fs_find_ptr s that pos count = find_spec (fs_str s) (take count that) pos"
proof (cases "pos \<le> fs_size s \<and> count \<le> fs_size s - pos")
  case True
  then have "find' (fs_data s) (fs_size s) that pos count =
      Inr (first_from (\<lambda>i. take count (drop i (fs_data s)) = take count that) pos (fs_size s - count + 1))"
    using assms by (intro find'_eq) (auto simp: fs_inv_def)
  also have "first_from (\<lambda>i. take count (drop i (fs_data s)) = take count that) pos (fs_size s - count + 1) =
      first_from (occurs_at (fs_str s) (take count that)) pos (fs_size s - count + 1)"
    using assms True by (intro first_from_cong) (auto simp: occurs_at_data)
  also have "\<dots> = first_from (occurs_at (fs_str s) (take count that)) pos (fs_size s + 1)"
    using assms True by (intro first_from_extend) (auto simp: occurs_at_def)
  finally show ?thesis
    using assms True by (simp add: fs_find_ptr_def find_spec_def)
next
  case False
  have "first_from (occurs_at (fs_str s) (take count that)) pos (fs_size s + 1) = npos"
    if "pos \<le> fs_size s"
    using assms that False by (intro first_from_none) (auto simp: occurs_at_def)
  with False assms show ?thesis
    by (cases "pos \<le> fs_size s") (simp_all add: fs_find_ptr_def find_spec_def)
qed

lemma fs_rfind_ptr_eq:
  assumes "fs_inv s" and "count \<le> length that"
  shows "fs_rfind_ptr s that pos count = rfind_spec (fs_str s) (take count that) pos"
proof (cases "pos \<le> fs_size s \<and> count \<le> fs_size s")
  case True
  then have "rfind' (fs_data s) that (min pos (fs_size s - count)) count =
      Inr (last_upto (\<lambda>i. take count (drop i (fs_data s)) = take count that) (min pos (fs_size s - count)))"
    using assms by (intro rfind'_eq) (auto simp: fs_inv_def)
  also have "last_upto (\<lambda>i. take count (drop i (fs_data s)) = take count that) (min pos (fs_size s - count)) =
      last_upto (occurs_at (fs_str s) (take count that)) (min pos (fs_size s - count))"
    using assms True by (intro last_upto_cong) (auto simp: occurs_at_data)
  also have "\<dots> = last_upto (occurs_at (fs_str s) (take count that)) pos"
    using assms True by (intro last_upto_cut [symmetric]) (auto simp: occurs_at_def)
  finally show ?thesis
    using assms True by (simp add: fs_rfind_ptr_def rfind_spec_def)
next
  case False
  with assms show ?thesis by (auto simp: fs_rfind_ptr_def rfind_spec_def)
qed

lemma fs_find_first_of_ptr_eq:
  assumes "fs_inv s" and "count \<le> length that"
  shows "fs_find_first_of_ptr s that pos count = first_of_spec True (fs_str s) (take count that) pos"
proof (cases "pos < fs_size s")
  case True
  then have "find_first_of' (fs_data s) (fs_size s) that pos count =
      Inr (first_from (\<lambda>i. fs_data s ! i \<in> set (take count that)) pos (fs_size s))"
    using assms by (intro find_first_of'_eq) (auto simp: fs_inv_def)
  then show ?thesis
    using assms True by (auto simp: fs_find_first_of_ptr_def first_of_spec_def one_of_data
        intro: first_from_cong)
next
  case False
  with assms show ?thesis
    by (cases "pos = fs_size s") (auto simp: fs_find_first_of_ptr_def first_of_spec_def first_from_none)
qed

lemma fs_find_first_not_of_ptr_eq:
  assumes "fs_inv s" and "count \<le> length that"
  shows "fs_find_first_not_of_ptr s that pos count = first_of_spec False (fs_str s) (take count that) pos"
proof (cases "pos < fs_size s")
  case True
  then have "find_first_not_of' (fs_data s) (fs_size s) that pos count =
      Inr (first_from (\<lambda>i. fs_data s ! i \<notin> set (take count that)) pos (fs_size s))"
    using assms by (intro find_first_not_of'_eq) (auto simp: fs_inv_def)
  then show ?thesis
    using assms True by (auto simp: fs_find_first_not_of_ptr_def first_of_spec_def one_of_data
        intro: first_from_cong)
next
  case False
  with assms show ?thesis
    by (cases "pos = fs_size s")
      (auto simp: fs_find_first_not_of_ptr_def first_of_spec_def first_from_none)
qed

lemma last_of_data:
  assumes "fs_inv s" and "fs_size s \<noteq> 0" and "pos \<le> fs_size s"
  shows "last_upto (\<lambda>i. (fs_data s ! i \<in> set ys) = want) (min pos (fs_size s - 1)) =
    last_upto (one_of want (fs_str s) ys) pos"
proof -
  have "last_upto (\<lambda>i. (fs_data s ! i \<in> set ys) = want) (min pos (fs_size s - 1)) =
      last_upto (one_of want (fs_str s) ys) (min pos (fs_size s - 1))"
    using assms by (intro last_upto_cong) (auto simp: one_of_data)
  also have "\<dots> = last_upto (one_of want (fs_str s) ys) pos"
    using assms by (intro last_upto_cut [symmetric]) (auto simp: one_of_def)
  finally show ?thesis .
qed

lemma fs_str_Nil_iff: "fs_inv s \<Longrightarrow> fs_str s = [] \<longleftrightarrow> fs_size s = 0"
  by (metis length_0_conv length_fs_str)

lemma fs_find_last_of_ptr_eq:
  assumes "fs_inv s" and "count \<le> length that"
  shows "fs_find_last_of_ptr s that pos count = last_of_spec True (fs_str s) (take count that) pos"
  using assms last_of_data [OF assms(1), of pos "take count that" True]
    find_last_of'_eq [of "min pos (fs_size s - 1)" "fs_data s" count that]
  by (auto simp: fs_find_last_of_ptr_def last_of_spec_def fs_str_Nil_iff fs_inv_def checkOverflow_def
      assertOutOfBounds_def)

lemma fs_find_last_not_of_ptr_eq:
  assumes "fs_inv s" and "count \<le> length that"
  shows "fs_find_last_not_of_ptr s that pos count = last_of_spec False (fs_str s) (take count that) pos"
  using assms last_of_data [OF assms(1), of pos "take count that" False]
    find_last_not_of'_eq [of "min pos (fs_size s - 1)" "fs_data s" count that]
  by (auto simp: fs_find_last_not_of_ptr_def last_of_spec_def fs_str_Nil_iff fs_inv_def checkOverflow_def
      assertOutOfBounds_def)

interpretation find: search_family fs_find_ptr find_spec
  by unfold_locales (rule fs_find_ptr_eq)

interpretation rfind: search_family fs_rfind_ptr rfind_spec
  by unfold_locales (rule fs_rfind_ptr_eq)

interpretation find_first_of: search_family fs_find_first_of_ptr "first_of_spec True"
  by unfold_locales (rule fs_find_first_of_ptr_eq)

interpretation find_first_not_of: search_family fs_find_first_not_of_ptr "first_of_spec False"
  by unfold_locales (rule fs_find_first_not_of_ptr_eq)

interpretation find_last_of: search_family fs_find_last_of_ptr "last_of_spec True"
  by unfold_locales (rule fs_find_last_of_ptr_eq)

interpretation find_last_not_of: search_family fs_find_last_not_of_ptr "last_of_spec False"
  by unfold_locales (rule fs_find_last_not_of_ptr_eq)

end
