(* ===== verification/FixedString_Machine.thy ===== *)
theory FixedString_Machine
  imports FixedString_Search
begin

text \<open>
  A \<^verbatim>\<open>BasicFixedString\<close> under a sequence of member calls.  \<open>fs_op\<close> has one constructor per
  mutating overload of \<^verbatim>\<open>folly/FixedString.h\<close>, \<open>fs_step\<close> performs the call, \<open>spec_step\<close> is the
  documented effect on the represented string, and \<open>op_ok\<close> the documented precondition on pointer
  and iterator arguments.  The main result is a simulation: every run of the class is a run of
  the abstract strings of bounded length, up to the first call of \<^verbatim>\<open>replace\<close> that omits a documented
  check (\<open>omits_check\<close>).
\<close>

datatype 'c fs_op =
    Op_assign "'c fixed_string"
  | Op_assign_range "'c fixed_string" nat nat
  | Op_assign_ptr "'c list" nat
  | Op_assign_literal "'c list"
  | Op_assign_il "'c list"
  | Op_assign_fill nat 'c
  | Op_swap "'c fixed_string"
  | Op_clear
  | Op_push_back 'c
  | Op_pop_back
  | Op_append "'c fixed_string"
  | Op_append_range "'c fixed_string" nat nat
  | Op_append_ptr "'c list" nat
  | Op_append_cstr "'c list"
  | Op_append_fill nat 'c
  | Op_append_il "'c list"
  | Op_erase_all
  | Op_erase nat nat
  | Op_erase_it nat
  | Op_erase_it_range nat nat
  | Op_replace_range nat nat "'c fixed_string" nat nat
  | Op_replace nat nat "'c fixed_string" nat
  | Op_replace_it nat nat "'c fixed_string"
  | Op_replace_ptr nat nat "'c list" nat
  | Op_replace_cstr nat nat "'c list"
  | Op_replace_it_cstr nat nat "'c list"
  | Op_replace_fill nat nat nat 'c
  | Op_replace_it_fill nat nat nat 'c
  | Op_replace_it_il nat nat "'c list"
  | Op_resize nat
  | Op_resize_fill nat 'c

fun fs_step :: "'c::zero fixed_string \<Rightarrow> 'c fs_op \<Rightarrow> 'c fixed_string res" where
  "fs_step s (Op_assign t) = fs_assign s t"
| "fs_step s (Op_assign_range t p c) = fs_assign_range s t p c"
| "fs_step s (Op_assign_ptr b c) = fs_assign_ptr s b c"
| "fs_step s (Op_assign_literal a) = fs_assign_literal s a"
| "fs_step s (Op_assign_il il) = fs_assign_il s il"
| "fs_step s (Op_assign_fill c ch) = fs_assign_fill s c ch"
| "fs_step s (Op_swap t) = bindE (fs_swap s t) (\<lambda>(s', t'). Inr s')"
| "fs_step s Op_clear = fs_clear s"
| "fs_step s (Op_push_back ch) = fs_plus_assign_char s ch"
| "fs_step s Op_pop_back = fs_pop_back s"
| "fs_step s (Op_append t) = fs_plus_assign_fs s t"
| "fs_step s (Op_append_range t p c) = fs_append_range s t p c"
| "fs_step s (Op_append_ptr b c) = fs_append_ptr s b c"
| "fs_step s (Op_append_cstr b) = fs_plus_assign_cstr s b"
| "fs_step s (Op_append_fill c ch) = fs_append_fill s c ch"
| "fs_step s (Op_append_il il) = fs_plus_assign_il s il"
| "fs_step s Op_erase_all = fs_erase_all s"
| "fs_step s (Op_erase p c) = fs_erase s p c"
| "fs_step s (Op_erase_it i) = bindE (fs_erase_it s i) (\<lambda>(_, s'). Inr s')"
| "fs_step s (Op_erase_it_range i j) = bindE (fs_erase_it_range s i j) (\<lambda>(_, s'). Inr s')"
| "fs_step s (Op_replace_range p c t tp tc) = fs_replace_range s p c t tp tc"
| "fs_step s (Op_replace p c t tp) = fs_replace_fs s p c t tp"
| "fs_step s (Op_replace_it i j t) = fs_replace_it s i j t"
| "fs_step s (Op_replace_ptr p c b bc) = fs_replace_ptr s p c b bc"
| "fs_step s (Op_replace_cstr p c b) = fs_replace_cstr s p c b"
| "fs_step s (Op_replace_it_cstr i j b) = fs_replace_it_cstr s i j b"
| "fs_step s (Op_replace_fill p c n ch) = fs_replace_fill s p c n ch"
| "fs_step s (Op_replace_it_fill i j n ch) = fs_replace_it_fill s i j n ch"
| "fs_step s (Op_replace_it_il i j il) = fs_replace_it_il s i j il"
| "fs_step s (Op_resize c) = fs_resize s c"
| "fs_step s (Op_resize_fill c ch) = fs_resize_fill s c ch"

fun fs_run :: "'c::zero fixed_string \<Rightarrow> 'c fs_op list \<Rightarrow> 'c fixed_string res" where
  "fs_run s [] = Inr s"
| "fs_run s (op # ops) = bindE (fs_step s op) (\<lambda>s'. fs_run s' ops)"

section \<open>The abstract machine\<close>

text \<open>\<open>spec_subst N xs p c ys\<close> replaces the range \<open>(p, c)\<close> of \<open>xs\<close> by \<open>ys\<close> if the result fits.\<close>

definition spec_subst :: "nat \<Rightarrow> 'c list \<Rightarrow> nat \<Rightarrow> nat \<Rightarrow> 'c list \<Rightarrow> 'c list res" where
  "spec_subst N xs p c ys = bindE (subst_range xs p c ys) (bounded N)"

fun spec_step :: "nat \<Rightarrow> 'c::zero list \<Rightarrow> 'c fs_op \<Rightarrow> 'c list res" where
  "spec_step N xs (Op_assign t) = bounded N (fs_str t)"
| "spec_step N xs (Op_assign_range t p c) = bindE (sub_range (fs_str t) p c) (bounded N)"
| "spec_step N xs (Op_assign_ptr b c) = bounded N (take c b)"
| "spec_step N xs (Op_assign_literal a) = bounded N (butlast a)"
| "spec_step N xs (Op_assign_il il) = bounded N il"
| "spec_step N xs (Op_assign_fill c ch) = bounded N (replicate c ch)"
| "spec_step N xs (Op_swap t) = Inr (fs_str t)"
| "spec_step N xs Op_clear = Inr []"
| "spec_step N xs (Op_push_back ch) = bounded N (xs @ [ch])"
| "spec_step N xs Op_pop_back = (if xs = [] then Inl Out_of_range else Inr (butlast xs))"
| "spec_step N xs (Op_append t) = bounded N (xs @ fs_str t)"
| "spec_step N xs (Op_append_range t p c) =
     bindE (sub_range (fs_str t) p c) (\<lambda>ys. bounded N (xs @ ys))"
| "spec_step N xs (Op_append_ptr b c) = bounded N (xs @ take c b)"
| "spec_step N xs (Op_append_cstr b) = bounded N (xs @ cstr b)"
| "spec_step N xs (Op_append_fill c ch) = bounded N (xs @ replicate c ch)"
| "spec_step N xs (Op_append_il il) = bounded N (xs @ il)"
| "spec_step N xs Op_erase_all = Inr []"
| "spec_step N xs (Op_erase p c) = subst_range xs p c []"
| "spec_step N xs (Op_erase_it i) = subst_range xs i 1 []"
| "spec_step N xs (Op_erase_it_range i j) = subst_range xs i (j - i) []"
| "spec_step N xs (Op_replace_range p c t tp tc) =
     bindE (sub_range (fs_str t) tp tc) (spec_subst N xs p c)"
| "spec_step N xs (Op_replace p c t tp) =
     bindE (sub_range (fs_str t) tp npos) (spec_subst N xs p c)"
| "spec_step N xs (Op_replace_it i j t) = spec_subst N xs i (j - i) (fs_str t)"
| "spec_step N xs (Op_replace_ptr p c b bc) = spec_subst N xs p c (take bc b)"
| "spec_step N xs (Op_replace_cstr p c b) = spec_subst N xs p c (cstr b)"
| "spec_step N xs (Op_replace_it_cstr i j b) = spec_subst N xs i (j - i) (cstr b)"
| "spec_step N xs (Op_replace_fill p c n ch) =
     bindE (bounded N (replicate n ch)) (spec_subst N xs p c)"
| "spec_step N xs (Op_replace_it_fill i j n ch) =
     bindE (bounded N (replicate n ch)) (spec_subst N xs i (j - i))"
| "spec_step N xs (Op_replace_it_il i j il) = spec_subst N xs i (j - i) il"
| "spec_step N xs (Op_resize c) = bounded N (take c xs @ replicate (c - length xs) 0)"
| "spec_step N xs (Op_resize_fill c ch) = bounded N (take c xs @ replicate (c - length xs) ch)"

text \<open>
  The preconditions: another string satisfies its invariant, and for \<^verbatim>\<open>swap\<close> has the same capacity; a
  buffer is as long as the count given with it; a C string is terminated; a literal fits (its length is
  checked at compile time); a pair of iterators is a range; and an array has less than \<open>2 ^ 63\<close> characters.
\<close>

definition str_ok :: "'c::zero fixed_string \<Rightarrow> bool" where
  "str_ok t \<longleftrightarrow> fs_inv t \<and> fs_fits t"

fun op_ok :: "nat \<Rightarrow> 'c::zero list \<Rightarrow> 'c fs_op \<Rightarrow> bool" where
  "op_ok N xs (Op_assign t) = str_ok t"
| "op_ok N xs (Op_assign_range t p c) = str_ok t"
| "op_ok N xs (Op_assign_ptr b c) = (c \<le> length b)"
| "op_ok N xs (Op_assign_literal a) = (a \<noteq> [] \<and> last a = 0 \<and> length a - 1 \<le> N)"
| "op_ok N xs (Op_swap t) = (str_ok t \<and> fs_capacity t = N)"
| "op_ok N xs (Op_append t) = str_ok t"
| "op_ok N xs (Op_append_range t p c) = str_ok t"
| "op_ok N xs (Op_append_ptr b c) = (c \<le> length b)"
| "op_ok N xs (Op_append_cstr b) = (0 \<in> set b)"
| "op_ok N xs (Op_erase_it_range i j) = (i \<le> j)"
| "op_ok N xs (Op_replace_range p c t tp tc) = str_ok t"
| "op_ok N xs (Op_replace p c t tp) = str_ok t"
| "op_ok N xs (Op_replace_it i j t) = (str_ok t \<and> i \<le> j)"
| "op_ok N xs (Op_replace_ptr p c b bc) = (bc \<le> length b \<and> length b < 2 ^ 63)"
| "op_ok N xs (Op_replace_cstr p c b) = (0 \<in> set b \<and> length b < 2 ^ 63)"
| "op_ok N xs (Op_replace_it_cstr i j b) = (0 \<in> set b \<and> length b < 2 ^ 63 \<and> i \<le> j)"
| "op_ok N xs (Op_replace_it_fill i j n ch) = (i \<le> j)"
| "op_ok N xs (Op_replace_it_il i j il) = (i \<le> j \<and> length il < 2 ^ 63)"
| "op_ok N xs op = True"

text \<open>
  The overloads of \<^verbatim>\<open>replace\<close> that take a pointer, a C string or an \<^verbatim>\<open>initializer_list\<close> are documented to
  throw when the result does not fit, and do not check it: \<open>omits_check\<close> holds of such a call.
\<close>

definition overflows :: "nat \<Rightarrow> 'c list \<Rightarrow> nat \<Rightarrow> nat \<Rightarrow> nat \<Rightarrow> bool" where
  "overflows N xs p c n \<longleftrightarrow>
     in_range (length xs) p c \<and> N < length xs - eff_count c (length xs - p) + n"

fun omits_check :: "nat \<Rightarrow> 'c::zero list \<Rightarrow> 'c fs_op \<Rightarrow> bool" where
  "omits_check N xs (Op_replace_ptr p c b bc) = overflows N xs p c bc"
| "omits_check N xs (Op_replace_cstr p c b) = overflows N xs p c (length (cstr b))"
| "omits_check N xs (Op_replace_it_cstr i j b) = overflows N xs i (j - i) (length (cstr b))"
| "omits_check N xs (Op_replace_it_il i j il) = overflows N xs i (j - i) (length il)"
| "omits_check N xs op = False"

section \<open>The simulation\<close>

lemma spec_subst_fits:
  "\<not> overflows N xs p c (length ys) \<Longrightarrow> spec_subst N xs p c ys = subst_range xs p c ys"
  by (auto simp: spec_subst_def subst_range_def bounded_def overflows_def length_replace_range
      dest: in_range_sum)

lemma spec_subst_overflows:
  "overflows N xs p c (length ys) \<Longrightarrow> spec_subst N xs p c ys = Inl Out_of_range"
  by (auto simp: spec_subst_def subst_range_def bounded_def overflows_def length_replace_range
      dest: in_range_sum)

lemma cstr_prefix: "take (length (cstr b)) b = cstr b" "length (cstr b) \<le> length b"
  by (simp_all add: cstr_def takeWhile_eq_take [symmetric] length_takeWhile_le)

lemma replace_ptr_step:
  assumes "str_ok s" and "bc \<le> length b" "length b < 2 ^ 63"
    and "\<not> overflows (fs_capacity s) (fs_str s) p c bc"
  shows "refines (fs_capacity s) (spec_subst (fs_capacity s) (fs_str s) p c (take bc b))
    (fs_replace_ptr s p c b bc)"
  using assms fs_replace_ptr_refines [of s bc b p c]
  by (auto simp: spec_subst_fits str_ok_def min_absorb2 overflows_def)

lemma replace_cstr_step:
  assumes "str_ok s" and "0 \<in> set b" "length b < 2 ^ 63"
    and "\<not> overflows (fs_capacity s) (fs_str s) p c (length (cstr b))"
  shows "refines (fs_capacity s) (spec_subst (fs_capacity s) (fs_str s) p c (cstr b))
    (bindE (constexpr_strlen b) (fs_replace_ptr s p c b))"
  using assms replace_ptr_step [of s "length (cstr b)" b p c]
  by (simp add: constexpr_strlen_eq cstr_prefix)

text \<open>A call without its check returns a string longer than its capacity.\<close>

lemma replace_ptr_unchecked:
  assumes "str_ok s" and "bc \<le> length b" "length b < 2 ^ 63" and "overflows (fs_capacity s) (fs_str s) p c bc"
  shows "\<exists>s'. fs_replace_ptr s p c b bc = Inr s' \<and> fs_capacity s' < fs_size s'"
  using assms fs_replace_ptr_overflow [of s bc b p c] by (auto simp: str_ok_def overflows_def)

lemma sub_range_whole: "length xs < 2 ^ 63 \<Longrightarrow> sub_range xs 0 (length xs) = Inr xs"
  by (simp add: sub_range_def)

lemma sub_range_rest:
  assumes "length xs < 2 ^ 63"
  shows "sub_range xs p (sz_sub (length xs) p) = sub_range xs p npos"
proof (cases "p \<le> length xs")
  case True
  with assms have "length xs - p \<noteq> npos" by (simp add: npos_def)
  with True show ?thesis by (simp add: sub_range_def in_range_def eff_count_def)
qed (simp add: sub_range_def in_range_def)

lemma str_ok_size: "str_ok s \<Longrightarrow> fs_size s < 2 ^ 63"
  by (auto simp: str_ok_def fs_fits_def fs_inv_def)

lemma replace_range_step:
  "str_ok s \<Longrightarrow> str_ok t \<Longrightarrow>
   refines (fs_capacity s) (bindE (sub_range (fs_str t) tp tc) (spec_subst (fs_capacity s) (fs_str s) p c))
     (fs_replace_range s p c t tp tc)"
  using fs_replace_range_refines [of s t tp tc p c]
  by (simp add: str_ok_def spec_subst_def [abs_def] bindE_assoc)

lemma replace_fs_step:
  assumes "str_ok s" "str_ok t"
  shows "refines (fs_capacity s)
    (bindE (sub_range (fs_str t) tp npos) (spec_subst (fs_capacity s) (fs_str s) p c))
    (fs_replace_fs s p c t tp)"
  using assms replace_range_step [OF assms, of tp "sz_sub (fs_size t) tp" p c]
    sub_range_rest [of "fs_str t" tp] str_ok_size [OF assms(2)]
  by (simp add: fs_replace_fs_def str_ok_def)

lemma fs_of_fill_cases:
  "n \<le> N \<Longrightarrow> fs_of_fill N n ch = Inr (fs_make N (replicate n ch))"
  "N < n \<Longrightarrow> fs_of_fill N n ch = Inl Out_of_range"
  by (simp_all add: fs_of_fill_def ctor_fill_make)

lemma fs_str_make: "length xs \<le> N \<Longrightarrow> fs_str (fs_make N xs) = xs"
  using yields_fs_make [of xs N] by (auto simp: yields_def)

lemma replace_fill_step:
  assumes "str_ok s"
  shows "refines (fs_capacity s)
    (bindE (bounded (fs_capacity s) (replicate n ch)) (spec_subst (fs_capacity s) (fs_str s) p c))
    (fs_replace_fill s p c n ch)"
proof (cases "n \<le> fs_capacity s")
  case True
  let ?t = "fs_make (fs_capacity s) (replicate n ch)"
  have ok: "str_ok ?t"
    using True assms yields_fs_make [of "replicate n ch" "fs_capacity s"] fs_fitsD [of s]
    by (auto simp: str_ok_def fs_fits_def yields_def)
  have "sub_range (fs_str ?t) 0 npos = Inr (replicate n ch)"
    using True by (simp add: fs_str_make sub_range_def in_range_def eff_count_def)
  then show ?thesis
    using True replace_fs_step [OF assms ok, of 0 p c]
    by (simp add: fs_replace_fill_def fs_of_fill_cases bounded_def)
next
  case False
  then show ?thesis by (simp add: fs_replace_fill_def fs_of_fill_cases bounded_def)
qed

lemma replace_it_step:
  assumes "str_ok s" "str_ok t" "i \<le> j"
  shows "refines (fs_capacity s) (spec_subst (fs_capacity s) (fs_str s) i (j - i) (fs_str t))
    (fs_replace_it s i j t)"
  using assms replace_range_step [OF assms(1,2), of 0 "fs_size t" i "j - i"]
    sub_range_whole [of "fs_str t"] str_ok_size [OF assms(2)]
  by (simp add: fs_replace_it_def str_ok_def)

lemma append_fs_step:
  "str_ok s \<Longrightarrow> str_ok t \<Longrightarrow>
   refines (fs_capacity s) (bounded (fs_capacity s) (fs_str s @ fs_str t)) (fs_plus_assign_fs s t)"
  using fs_append_fs_refines [of s t] by (simp add: fs_plus_assign_fs_def fs_append_fs_def str_ok_def)

lemma assign_literal_step:
  assumes "fs_inv s" "a \<noteq> []" "last a = 0" "length a - 1 \<le> fs_capacity s"
  shows "refines (fs_capacity s) (bounded (fs_capacity s) (butlast a)) (fs_assign_literal s a)"
proof -
  have "a = butlast a @ [0]" using assms by (metis append_butlast_last_id)
  then show ?thesis
    using assms fs_assign_literal_yields [of s "butlast a"] by (simp add: bounded_def)
qed

lemma erase_it_step: "bindE (fs_erase_it s i) (\<lambda>(_, s'). Inr s') = fs_erase s i 1"
  by (simp add: fs_erase_it_def bindE_assoc)

lemma erase_it_range_step:
  "i \<le> j \<Longrightarrow> bindE (fs_erase_it_range s i j) (\<lambda>(_, s'). Inr s') = fs_erase s i (j - i)"
  by (simp add: fs_erase_it_range_def bindE_assoc)

lemma replace_it_fill_step:
  "i \<le> j \<Longrightarrow> fs_replace_it_fill s i j n ch = fs_replace_fill s i (j - i) n ch"
  by (simp add: fs_replace_it_fill_def fs_replace_fill_def)

lemma append_il_step:
  "fs_inv s \<Longrightarrow> refines (fs_capacity s) (bounded (fs_capacity s) (fs_str s @ il)) (fs_plus_assign_il s il)"
  using fs_append_ptr_refines [of s "length il" il] by (simp add: fs_plus_assign_il_def)

lemma replace_it_il_step:
  "str_ok s \<Longrightarrow> i \<le> j \<Longrightarrow> length il < 2 ^ 63 \<Longrightarrow>
   \<not> overflows (fs_capacity s) (fs_str s) i (j - i) (length il) \<Longrightarrow>
   refines (fs_capacity s) (spec_subst (fs_capacity s) (fs_str s) i (j - i) il) (fs_replace_it_il s i j il)"
  using replace_ptr_step [of s "length il" il i "j - i"] by (simp add: fs_replace_it_il_def)

lemma swap_step:
  "fs_inv s \<Longrightarrow> fs_inv t \<Longrightarrow> fs_capacity t = fs_capacity s \<Longrightarrow>
   yields (fs_capacity s) (fs_str t) (bindE (fs_swap s t) (\<lambda>(s', t'). Inr s'))"
  using fs_swap_eq [of s t] by auto

lemma pop_back_step:
  "fs_inv s \<Longrightarrow> fs_str s = [] \<Longrightarrow> fs_pop_back s = Inl Out_of_range"
  "fs_inv s \<Longrightarrow> fs_str s \<noteq> [] \<Longrightarrow> yields (fs_capacity s) (butlast (fs_str s)) (fs_pop_back s)"
  using fs_pop_back_refines [of s] by simp_all

lemmas thin_wrappers = fs_assign_def fs_plus_assign_char_def fs_plus_assign_cstr_def fs_erase_all_def
  fs_replace_cstr_def fs_replace_it_cstr_def fs_resize_def
  erase_it_step erase_it_range_step replace_it_fill_step

lemmas assign_steps = fs_assign_fs_refines fs_assign_range_refines fs_assign_ptr_refines
  assign_literal_step swap_step fs_assign_il_refines fs_assign_fill_refines fs_clear_yields
  fs_resize_fill_refines

lemmas append_steps = fs_push_back_refines pop_back_step append_fs_step
  fs_append_range_refines fs_append_ptr_refines fs_append_cstr_refines fs_append_fill_refines
  append_il_step

lemmas replace_steps = fs_erase_refines replace_range_step replace_fs_step replace_it_step
  replace_ptr_step replace_cstr_step replace_fill_step replace_it_il_step

lemma fs_step_sim:
  assumes "str_ok s" and "op_ok (fs_capacity s) (fs_str s) op"
    and "\<not> omits_check (fs_capacity s) (fs_str s) op"
  shows "refines (fs_capacity s) (spec_step (fs_capacity s) (fs_str s) op) (fs_step s op)"
proof -
  have inv: "fs_inv s" "fs_fits s" using assms(1) by (auto simp: str_ok_def)
  show ?thesis
    using assms inv
    by (cases op)
      (simp_all only: fs_step.simps spec_step.simps op_ok.simps omits_check.simps thin_wrappers,
       (auto intro!: assign_steps append_steps replace_steps simp: str_ok_def)+)
qed

lemma fs_step_unchecked:
  assumes "str_ok s" and "op_ok (fs_capacity s) (fs_str s) op" and "omits_check (fs_capacity s) (fs_str s) op"
  shows "spec_step (fs_capacity s) (fs_str s) op = Inl Out_of_range"
    "\<exists>s'. fs_step s op = Inr s' \<and> fs_capacity s' < fs_size s'"
proof -
  show "spec_step (fs_capacity s) (fs_str s) op = Inl Out_of_range"
    using assms(2,3) by (elim omits_check.elims(2)) (simp_all add: spec_subst_overflows min_absorb2)
  show "\<exists>s'. fs_step s op = Inr s' \<and> fs_capacity s' < fs_size s'"
    using assms
    by (elim omits_check.elims(2))
      (simp_all only: fs_step.simps op_ok.simps fs_replace_cstr_def fs_replace_it_cstr_def fs_replace_it_il_def,
       auto intro!: replace_ptr_unchecked simp: constexpr_strlen_eq cstr_prefix)
qed

fun spec_run :: "nat \<Rightarrow> 'c::zero list \<Rightarrow> 'c fs_op list \<Rightarrow> 'c list res" where
  "spec_run N xs [] = Inr xs"
| "spec_run N xs (op # ops) = bindE (spec_step N xs op) (\<lambda>xs'. spec_run N xs' ops)"

fun run_ok :: "nat \<Rightarrow> 'c::zero list \<Rightarrow> 'c fs_op list \<Rightarrow> bool" where
  "run_ok N xs [] = True"
| "run_ok N xs (op # ops) =
     (op_ok N xs op \<and> (case spec_step N xs op of Inl _ \<Rightarrow> True | Inr xs' \<Rightarrow> run_ok N xs' ops))"

text \<open>The index of the first call of a run that omits its check.\<close>

fun first_omission :: "nat \<Rightarrow> 'c::zero list \<Rightarrow> 'c fs_op list \<Rightarrow> nat option" where
  "first_omission N xs [] = None"
| "first_omission N xs (op # ops) =
     (if omits_check N xs op then Some 0
      else case spec_step N xs op of Inl _ \<Rightarrow> None | Inr xs' \<Rightarrow> map_option Suc (first_omission N xs' ops))"

lemma yields_str_ok:
  "yields (fs_capacity s) xs (Inr s') \<Longrightarrow> str_ok s \<Longrightarrow>
   str_ok s' \<and> fs_capacity s' = fs_capacity s \<and> fs_str s' = xs"
  using length_fs_data [of s] by (auto simp: yields_def str_ok_def fs_fits_def fs_capacity_def)

text \<open>The abstract and the concrete run, up to the first call without its check.\<close>

definition run_result :: "'c::zero fixed_string \<Rightarrow> 'c fs_op list \<Rightarrow> nat option \<Rightarrow> bool" where
  "run_result s ops r \<longleftrightarrow> (case r of
     None \<Rightarrow> refines (fs_capacity s) (spec_run (fs_capacity s) (fs_str s) ops) (fs_run s ops)
   | Some i \<Rightarrow>
       refines (fs_capacity s) (spec_run (fs_capacity s) (fs_str s) (take i ops)) (fs_run s (take i ops)) \<and>
       spec_run (fs_capacity s) (fs_str s) (take (Suc i) ops) = Inl Out_of_range \<and>
       (\<exists>s'. fs_run s (take (Suc i) ops) = Inr s' \<and> fs_capacity s' < fs_size s'))"

lemma run_result_Cons:
  assumes "fs_step s op = Inr s'" "spec_step (fs_capacity s) (fs_str s) op = Inr (fs_str s')"
    "fs_capacity s' = fs_capacity s" and "run_result s' ops r"
  shows "run_result s (op # ops) (map_option Suc r)"
  using assms by (cases r) (simp_all add: run_result_def)

lemma fs_run_sim:
  "str_ok s \<Longrightarrow> run_ok (fs_capacity s) (fs_str s) ops \<Longrightarrow>
   run_result s ops (first_omission (fs_capacity s) (fs_str s) ops)"
proof (induction ops arbitrary: s)
  case Nil
  then show ?case by (simp add: run_result_def yields_def str_ok_def length_fs_data)
next
  case (Cons op ops)
  have ok: "op_ok (fs_capacity s) (fs_str s) op" using Cons.prems by simp
  show ?case
  proof (cases "omits_check (fs_capacity s) (fs_str s) op")
    case True
    have "refines (fs_capacity s) (Inr (fs_str s)) (Inr s)"
      using Cons.prems by (simp add: yields_def str_ok_def length_fs_data)
    then show ?thesis using fs_step_unchecked [OF Cons.prems(1) ok True] True by (auto simp: run_result_def)
  next
    case False
    have sim: "refines (fs_capacity s) (spec_step (fs_capacity s) (fs_str s) op) (fs_step s op)"
      using fs_step_sim [OF Cons.prems(1) ok False] .
    show ?thesis
    proof (cases "spec_step (fs_capacity s) (fs_str s) op")
      case (Inl e)
      with sim False show ?thesis by (simp add: run_result_def)
    next
      case (Inr xs)
      with sim obtain s' where s': "fs_step s op = Inr s'" and y: "yields (fs_capacity s) xs (Inr s')"
        by (auto simp: yields_def)
      with Cons.prems have t: "str_ok s' \<and> fs_capacity s' = fs_capacity s \<and> fs_str s' = xs"
        by (blast dest: yields_str_ok)
      then have "run_result s' ops (first_omission (fs_capacity s) xs ops)"
        using Cons.prems(2) Cons.IH [of s'] Inr by simp
      then show ?thesis using run_result_Cons [OF s'] Inr t False by simp
    qed
  qed
qed

lemma spec_step_error: "spec_step N xs op = Inl e \<Longrightarrow> e = Out_of_range"
  by (cases op) (auto simp: bounded_def sub_range_def subst_range_def spec_subst_def bindE_eq_Inl
      split: if_splits)

lemma spec_run_error: "spec_run N xs ops = Inl e \<Longrightarrow> e = Out_of_range"
  by (induction ops arbitrary: xs) (auto simp: bindE_eq_Inl dest: spec_step_error)

lemma refines_error: "refines M (spec_run N xs ops) (Inl e) \<Longrightarrow> e = Out_of_range"
  by (cases "spec_run N xs ops") (auto simp: yields_def dest: spec_run_error)

section \<open>Properties\<close>

text \<open>
  C1. Any sequence of mutating calls on a \<^verbatim>\<open>BasicFixedString\<close>, \<^verbatim>\<open>swap\<close> included, whose arguments satisfy the
  documented preconditions computes the string the documentation describes: the array-level run refines
  the run on lists of at most \<^verbatim>\<open>N\<close> characters, with \<^verbatim>\<open>std::out_of_range\<close>, the only error, at the same call, no
  access outside an array, the null terminator restored and the capacity unchanged.  This holds of the whole
  run, or up to the first call of \<^verbatim>\<open>replace\<close> with a pointer, a C string or an \<^verbatim>\<open>initializer_list\<close> whose
  result does not fit: there the documentation demands \<^verbatim>\<open>std::out_of_range\<close>, and the call returns
  instead and leaves a string longer than its capacity.
\<close>

theorem fs_run_refines:
  assumes "str_ok s" and "run_ok (fs_capacity s) (fs_str s) ops"
  shows "case first_omission (fs_capacity s) (fs_str s) ops of
      None \<Rightarrow> refines (fs_capacity s) (spec_run (fs_capacity s) (fs_str s) ops) (fs_run s ops) \<and>
        (\<forall>e. fs_run s ops = Inl e \<longrightarrow> e = Out_of_range)
    | Some i \<Rightarrow>
        refines (fs_capacity s) (spec_run (fs_capacity s) (fs_str s) (take i ops)) (fs_run s (take i ops)) \<and>
        spec_run (fs_capacity s) (fs_str s) (take (Suc i) ops) = Inl Out_of_range \<and>
        (\<exists>s'. fs_run s (take (Suc i) ops) = Inr s' \<and> fs_capacity s' < fs_size s')"
  using fs_run_sim [OF assms] unfolding run_result_def by (auto dest: refines_error split: option.splits)

definition demo_string :: "int fixed_string" where
  "demo_string = \<lparr>fs_data = [104, 101, 108, 108, 111, 0, 0, 0, 0], fs_size = 5\<rparr>"

definition demo_ops :: "int fs_op list" where
  "demo_ops = [Op_push_back 33, Op_erase 0 2, Op_append_cstr [97, 98, 0, 99], Op_swap demo_string,
     Op_replace_range 1 2 demo_string 3 npos, Op_replace_ptr 0 1 [70, 71] 2, Op_resize_fill 8 46,
     Op_assign_range demo_string 1 3]"

lemma demo_string_ok: "str_ok demo_string" "fs_capacity demo_string = 8"
    "fs_size demo_string = 5" "fs_str demo_string = [104, 101, 108, 108, 111]"
  by (simp_all add: demo_string_def str_ok_def fs_inv_def fs_fits_def fs_capacity_def fs_str_def)

lemmas fs_eval = demo_string_ok bounded_def sub_range_def subst_range_def spec_subst_def in_range_def
  eff_count_def npos_def overflows_def cstr_def replace_range_def

text \<open>A run that is refined as a whole, and one whose last call omits its check.\<close>

theorem fs_run_refines_witness:
  "refines 8 (Inr [101, 108, 108]) (fs_run demo_string demo_ops) \<and>
   refines 8 (Inr [101, 108, 108]) (fs_run demo_string (take 8 (demo_ops @ [Op_replace_ptr 0 1 (replicate 9 65) 9]))) \<and>
   (\<exists>s'. fs_run demo_string (demo_ops @ [Op_replace_ptr 0 1 (replicate 9 65) 9]) = Inr s' \<and> fs_capacity s' < fs_size s')"
proof -
  let ?ops = "demo_ops @ [Op_replace_ptr 0 1 (replicate 9 65) 9]"
  have ok: "run_ok 8 (fs_str demo_string) demo_ops" "run_ok 8 (fs_str demo_string) ?ops"
    by (simp_all add: demo_ops_def fs_eval)
  have u: "first_omission 8 (fs_str demo_string) demo_ops = None" "first_omission 8 (fs_str demo_string) ?ops = Some 8"
    by (simp_all add: demo_ops_def fs_eval)
  have r: "spec_run 8 (fs_str demo_string) demo_ops = Inr [101, 108, 108]" and l: "length demo_ops = 8"
    by (simp_all add: demo_ops_def fs_eval)
  show ?thesis
    using fs_run_refines [of demo_string demo_ops] fs_run_refines [of demo_string ?ops] ok u r l
    by (simp add: demo_string_ok(1,2))
qed



text \<open>
  C29. \<^verbatim>\<open>copy(dest, count, pos)\<close> throws \<^verbatim>\<open>std::out_of_range\<close> when \<^verbatim>\<open>pos\<close> is above \<^verbatim>\<open>size()\<close>.  Otherwise it writes the
  \<^verbatim>\<open>min(count, size() - pos)\<close> characters from \<^verbatim>\<open>pos\<close> on to the front of the destination and leaves the rest of it;
  but the number it reports is \<^verbatim>\<open>size()\<close> when it stops at the end of the string, which is not the documented number
  of characters copied as soon as \<^verbatim>\<open>pos\<close> is not 0.
\<close>

theorem fs_copy_pos_reports:
  assumes "fs_inv s" and "min count (fs_size s - pos) \<le> length dest"
  shows "if fs_size s < pos then fs_copy_pos s dest count pos = Inl Out_of_range
    else \<exists>n. fs_copy_pos s dest count pos =
        Inr (n, take count (drop pos (fs_str s)) @ drop (min count (fs_size s - pos)) dest) \<and>
      n = (if count \<le> fs_size s - pos then count else fs_size s) \<and>
      (n = min count (fs_size s - pos) \<longleftrightarrow> pos = 0 \<or> count \<le> fs_size s - pos)"
proof (cases "pos \<le> fs_size s")
  case True
  then show ?thesis using fs_copy_pos_eq [OF assms(1) True assms(2)] by (auto simp: min_def)
next
  case False
  then show ?thesis by (simp add: fs_copy_pos_def checkOverflow_def assertOutOfBounds_def)
qed

text \<open>From \<open>hello\<close>, two characters are copied from position 3 and five are reported.\<close>

theorem fs_copy_pos_reports_witness:
  "fs_copy_pos demo_string [0, 0, 0, 0] 4 3 = Inr (5, [108, 111, 0, 0])"
  using fs_copy_pos_reports [of demo_string 4 3 "[0, 0, 0, 0]"] demo_string_ok by (auto simp: str_ok_def)

end
