(* ===== verification/FixedString_Queries.thy ===== *)
theory FixedString_Queries
  imports FixedString_Machine
begin

text \<open>
  Properties of the searches, comparisons, concatenations and constructors of
  \<^verbatim>\<open>BasicFixedString\<close>, each over all its overloads.
\<close>

section \<open>Searching\<close>

lemma find_fs_ptr: "fs_find_fs_pos s t pos = fs_find_ptr s (fs_data t) pos (fs_size t)"
  by (simp add: fs_find_fs_pos_def fs_find_ptr_def)

lemma find_char_ptr: "fs_find_char_pos s ch pos = fs_find_ptr s [ch] pos 1"
  by (auto simp: fs_find_char_pos_def fs_find_ptr_def intro!: bindE_cong)

lemma rfind_fs_ptr: "fs_rfind_fs_pos s t pos = fs_rfind_ptr s (fs_data t) pos (fs_size t)"
  by (simp add: fs_rfind_fs_pos_def fs_rfind_ptr_def)

lemma rfind_char_ptr: "fs_rfind_char_pos s ch pos = fs_rfind_ptr s [ch] pos 1"
  by (auto simp: fs_rfind_char_pos_def fs_rfind_ptr_def intro!: bindE_cong)

lemma find_first_of_fs_ptr: "fs_find_first_of_fs_pos s t pos = fs_find_first_of_ptr s (fs_data t) pos (fs_size t)"
  by (simp add: fs_find_first_of_fs_pos_def fs_find_first_of_ptr_def)

lemma find_first_of_char_ptr: "fs_find_first_of_char_pos s ch pos = fs_find_first_of_ptr s [ch] pos 1"
  by (auto simp: fs_find_first_of_char_pos_def fs_find_first_of_ptr_def intro!: bindE_cong)

lemma find_first_not_of_fs_ptr: "fs_find_first_not_of_fs_pos s t pos = fs_find_first_not_of_ptr s (fs_data t) pos (fs_size t)"
  by (simp add: fs_find_first_not_of_fs_pos_def fs_find_first_not_of_ptr_def)

lemma find_first_not_of_char_ptr: "fs_find_first_not_of_char_pos s ch pos = fs_find_first_not_of_ptr s [ch] pos 1"
  by (cases "pos \<le> fs_size s") (auto simp: fs_find_first_not_of_char_pos_def fs_find_first_not_of_ptr_def)

lemma find_last_of_fs_ptr: "fs_find_last_of_fs_pos s t pos = fs_find_last_of_ptr s (fs_data t) pos (fs_size t)"
  by (simp add: fs_find_last_of_fs_pos_def fs_find_last_of_ptr_def)

lemma find_last_of_char_ptr: "fs_find_last_of_char_pos s ch pos = fs_find_last_of_ptr s [ch] pos 1"
  by (auto simp: fs_find_last_of_char_pos_def fs_find_last_of_ptr_def intro!: bindE_cong)

lemma find_last_not_of_fs_ptr: "fs_find_last_not_of_fs_pos s t pos = fs_find_last_not_of_ptr s (fs_data t) pos (fs_size t)"
  by (simp add: fs_find_last_not_of_fs_pos_def fs_find_last_not_of_ptr_def)

lemma find_last_not_of_char_ptr: "fs_find_last_not_of_char_pos s ch pos = fs_find_last_not_of_ptr s [ch] pos 1"
  by (auto simp: fs_find_last_not_of_char_pos_def fs_find_last_not_of_ptr_def intro!: bindE_cong)

lemma noexcept_specs [simp]:
  "noexcept (find_spec xs ys 0) = find_spec xs ys 0"
  "n = length xs \<Longrightarrow> noexcept (rfind_spec xs ys n) = rfind_spec xs ys n"
  "noexcept (first_of_spec want xs ys 0) = first_of_spec want xs ys 0"
  "n = length xs \<Longrightarrow> noexcept (last_of_spec want xs ys n) = last_of_spec want xs ys n"
  by (simp_all add: find_spec_def rfind_spec_def first_of_spec_def last_of_spec_def)

lemma find_overloads:
  assumes "fs_inv s" "fs_inv t" and "count \<le> length buf" and "0 \<in> set b"
  shows "fs_find_ptr s buf pos count = find_spec (fs_str s) (take count buf) pos"
    and "fs_find_fs_pos s t pos = find_spec (fs_str s) (fs_str t) pos"
    and "fs_find_fs s t = find_spec (fs_str s) (fs_str t) 0"
    and "fs_find_cstr_pos s b pos = find_spec (fs_str s) (cstr b) pos"
    and "fs_find_cstr s b = find_spec (fs_str s) (cstr b) 0"
    and "fs_find_char_pos s ch pos = find_spec (fs_str s) [ch] pos"
    and "fs_find_char s ch = find_spec (fs_str s) [ch] 0"
  using assms find.ptr_spec [of s count buf pos] find.fs_spec [of s t] find.cstr_spec [of s b]
    find.char_spec [of s ch]
  by (simp_all add: find_fs_ptr find_char_ptr fs_find_fs_def fs_find_cstr_pos_def fs_find_cstr_def
      fs_find_char_def)

lemma rfind_overloads:
  assumes "fs_inv s" "fs_inv t" and "count \<le> length buf" and "0 \<in> set b"
  shows "fs_rfind_ptr s buf pos count = rfind_spec (fs_str s) (take count buf) pos"
    and "fs_rfind_fs_pos s t pos = rfind_spec (fs_str s) (fs_str t) pos"
    and "fs_rfind_fs s t = rfind_spec (fs_str s) (fs_str t) (fs_size s)"
    and "fs_rfind_cstr_pos s b pos = rfind_spec (fs_str s) (cstr b) pos"
    and "fs_rfind_cstr s b = rfind_spec (fs_str s) (cstr b) (fs_size s)"
    and "fs_rfind_char_pos s ch pos = rfind_spec (fs_str s) [ch] pos"
    and "fs_rfind_char s ch = rfind_spec (fs_str s) [ch] (fs_size s)"
  using assms rfind.ptr_spec [of s count buf pos] rfind.fs_spec [of s t] rfind.cstr_spec [of s b]
    rfind.char_spec [of s ch]
  by (simp_all add: rfind_fs_ptr rfind_char_ptr fs_rfind_fs_def fs_rfind_cstr_pos_def fs_rfind_cstr_def
      fs_rfind_char_def)

lemma find_first_of_overloads:
  assumes "fs_inv s" "fs_inv t" and "count \<le> length buf" and "0 \<in> set b"
  shows "fs_find_first_of_ptr s buf pos count = first_of_spec True (fs_str s) (take count buf) pos"
    and "fs_find_first_of_fs_pos s t pos = first_of_spec True (fs_str s) (fs_str t) pos"
    and "fs_find_first_of_fs s t = first_of_spec True (fs_str s) (fs_str t) 0"
    and "fs_find_first_of_cstr_pos s b pos = first_of_spec True (fs_str s) (cstr b) pos"
    and "fs_find_first_of_cstr s b = first_of_spec True (fs_str s) (cstr b) 0"
    and "fs_find_first_of_char_pos s ch pos = first_of_spec True (fs_str s) [ch] pos"
    and "fs_find_first_of_char s ch = first_of_spec True (fs_str s) [ch] 0"
  using assms find_first_of.ptr_spec [of s count buf pos] find_first_of.fs_spec [of s t] find_first_of.cstr_spec [of s b]
    find_first_of.char_spec [of s ch]
  by (simp_all add: find_first_of_fs_ptr find_first_of_char_ptr fs_find_first_of_fs_def fs_find_first_of_cstr_pos_def fs_find_first_of_cstr_def
      fs_find_first_of_char_def)

lemma find_first_not_of_overloads:
  assumes "fs_inv s" "fs_inv t" and "count \<le> length buf" and "0 \<in> set b"
  shows "fs_find_first_not_of_ptr s buf pos count = first_of_spec False (fs_str s) (take count buf) pos"
    and "fs_find_first_not_of_fs_pos s t pos = first_of_spec False (fs_str s) (fs_str t) pos"
    and "fs_find_first_not_of_fs s t = first_of_spec False (fs_str s) (fs_str t) 0"
    and "fs_find_first_not_of_cstr_pos s b pos = first_of_spec False (fs_str s) (cstr b) pos"
    and "fs_find_first_not_of_cstr s b = first_of_spec False (fs_str s) (cstr b) 0"
    and "fs_find_first_not_of_char_pos s ch pos = first_of_spec False (fs_str s) [ch] pos"
    and "fs_find_first_not_of_char s ch = first_of_spec False (fs_str s) [ch] 0"
  using assms find_first_not_of.ptr_spec [of s count buf pos] find_first_not_of.fs_spec [of s t] find_first_not_of.cstr_spec [of s b]
    find_first_not_of.char_spec [of s ch]
  by (simp_all add: find_first_not_of_fs_ptr find_first_not_of_char_ptr fs_find_first_not_of_fs_def fs_find_first_not_of_cstr_pos_def fs_find_first_not_of_cstr_def
      fs_find_first_not_of_char_def)

lemma find_last_of_overloads:
  assumes "fs_inv s" "fs_inv t" and "count \<le> length buf" and "0 \<in> set b"
  shows "fs_find_last_of_ptr s buf pos count = last_of_spec True (fs_str s) (take count buf) pos"
    and "fs_find_last_of_fs_pos s t pos = last_of_spec True (fs_str s) (fs_str t) pos"
    and "fs_find_last_of_fs s t = last_of_spec True (fs_str s) (fs_str t) (fs_size s)"
    and "fs_find_last_of_cstr_pos s b pos = last_of_spec True (fs_str s) (cstr b) pos"
    and "fs_find_last_of_cstr s b = last_of_spec True (fs_str s) (cstr b) (fs_size s)"
    and "fs_find_last_of_char_pos s ch pos = last_of_spec True (fs_str s) [ch] pos"
    and "fs_find_last_of_char s ch = last_of_spec True (fs_str s) [ch] (fs_size s)"
  using assms find_last_of.ptr_spec [of s count buf pos] find_last_of.fs_spec [of s t] find_last_of.cstr_spec [of s b]
    find_last_of.char_spec [of s ch]
  by (simp_all add: find_last_of_fs_ptr find_last_of_char_ptr fs_find_last_of_fs_def fs_find_last_of_cstr_pos_def fs_find_last_of_cstr_def
      fs_find_last_of_char_def)

lemma find_last_not_of_overloads:
  assumes "fs_inv s" "fs_inv t" and "count \<le> length buf" and "0 \<in> set b"
  shows "fs_find_last_not_of_ptr s buf pos count = last_of_spec False (fs_str s) (take count buf) pos"
    and "fs_find_last_not_of_fs_pos s t pos = last_of_spec False (fs_str s) (fs_str t) pos"
    and "fs_find_last_not_of_fs s t = last_of_spec False (fs_str s) (fs_str t) (fs_size s)"
    and "fs_find_last_not_of_cstr_pos s b pos = last_of_spec False (fs_str s) (cstr b) pos"
    and "fs_find_last_not_of_cstr s b = last_of_spec False (fs_str s) (cstr b) (fs_size s)"
    and "fs_find_last_not_of_char_pos s ch pos = last_of_spec False (fs_str s) [ch] pos"
    and "fs_find_last_not_of_char s ch = last_of_spec False (fs_str s) [ch] (fs_size s)"
  using assms find_last_not_of.ptr_spec [of s count buf pos] find_last_not_of.fs_spec [of s t] find_last_not_of.cstr_spec [of s b]
    find_last_not_of.char_spec [of s ch]
  by (simp_all add: find_last_not_of_fs_ptr find_last_not_of_char_ptr fs_find_last_not_of_fs_def fs_find_last_not_of_cstr_pos_def fs_find_last_not_of_cstr_def
      fs_find_last_not_of_char_def)

text \<open>
  C30. \<^verbatim>\<open>find\<close>, in all seven overloads, returns the least position \<open>i >= pos\<close> at which the pattern
  occurs in the string, \<^verbatim>\<open>npos\<close> when there is none, and throws \<^verbatim>\<open>std::out_of_range\<close> exactly when
  \<^verbatim>\<open>pos > size()\<close>; no read leaves the arrays.
\<close>

theorem fs_find_correct:
  fixes s t :: "'c::zero fixed_string"
  assumes "fs_inv s" "fs_inv t" and "count \<le> length buf" and "0 \<in> set b"
  shows "fs_find_ptr s buf pos count = find_spec (fs_str s) (take count buf) pos \<and>
     fs_find_fs_pos s t pos = find_spec (fs_str s) (fs_str t) pos \<and>
     fs_find_fs s t = find_spec (fs_str s) (fs_str t) 0 \<and>
     fs_find_cstr_pos s b pos = find_spec (fs_str s) (cstr b) pos \<and>
     fs_find_cstr s b = find_spec (fs_str s) (cstr b) 0 \<and>
     fs_find_char_pos s ch pos = find_spec (fs_str s) [ch] pos \<and>
     fs_find_char s ch = find_spec (fs_str s) [ch] 0"
  by (simp add: find_overloads [OF assms])

theorem fs_find_correct_witness:
  "fs_find_ptr demo_string [108, 111, 7] 1 2 = Inr 3 \<and> fs_find_char demo_string 108 = Inr 2"
proof -
  have "fs_inv demo_string" using demo_string_ok by (simp add: str_ok_def)
  then show ?thesis
    using fs_find_correct [of demo_string demo_string 2 "[108, 111, 7]" "[0]" 1 108]
    by (simp add: demo_string_ok find_spec_def first_from_def occurs_at_def upt_conv_Cons eval_nat_numeral)
qed

text \<open>
  \<^verbatim>\<open>rfind\<close>, in all seven overloads, returns the greatest position \<open>i <= pos\<close> at which the pattern
  occurs, and \<^verbatim>\<open>npos\<close> when there is none; it throws when \<^verbatim>\<open>pos > size()\<close>, except that a pattern longer
  than the string gives \<^verbatim>\<open>npos\<close> before \<^verbatim>\<open>pos\<close> is checked.
\<close>

lemma fs_rfind_correct:
  fixes s t :: "'c::zero fixed_string"
  assumes "fs_inv s" "fs_inv t" and "count \<le> length buf" and "0 \<in> set b"
  shows "fs_rfind_ptr s buf pos count = rfind_spec (fs_str s) (take count buf) pos \<and>
     fs_rfind_fs_pos s t pos = rfind_spec (fs_str s) (fs_str t) pos \<and>
     fs_rfind_fs s t = rfind_spec (fs_str s) (fs_str t) (fs_size s) \<and>
     fs_rfind_cstr_pos s b pos = rfind_spec (fs_str s) (cstr b) pos \<and>
     fs_rfind_cstr s b = rfind_spec (fs_str s) (cstr b) (fs_size s) \<and>
     fs_rfind_char_pos s ch pos = rfind_spec (fs_str s) [ch] pos \<and>
     fs_rfind_char s ch = rfind_spec (fs_str s) [ch] (fs_size s)"
  by (simp add: rfind_overloads [OF assms])

text \<open>
  \<^verbatim>\<open>find_first_of\<close> and \<^verbatim>\<open>find_first_not_of\<close>, in all their overloads, return the least position
  from \<^verbatim>\<open>pos\<close> on whose character is, respectively is not, among the given ones, and \<^verbatim>\<open>npos\<close> when there
  is none.
\<close>

lemma fs_find_first_correct:
  fixes s t :: "'c::zero fixed_string"
  assumes "fs_inv s" "fs_inv t" and "count \<le> length buf" and "0 \<in> set b"
  shows "fs_find_first_of_ptr s buf pos count = first_of_spec True (fs_str s) (take count buf) pos \<and>
     fs_find_first_of_fs_pos s t pos = first_of_spec True (fs_str s) (fs_str t) pos \<and>
     fs_find_first_of_fs s t = first_of_spec True (fs_str s) (fs_str t) 0 \<and>
     fs_find_first_of_cstr_pos s b pos = first_of_spec True (fs_str s) (cstr b) pos \<and>
     fs_find_first_of_cstr s b = first_of_spec True (fs_str s) (cstr b) 0 \<and>
     fs_find_first_of_char_pos s ch pos = first_of_spec True (fs_str s) [ch] pos \<and>
     fs_find_first_of_char s ch = first_of_spec True (fs_str s) [ch] 0 \<and>
     fs_find_first_not_of_ptr s buf pos count = first_of_spec False (fs_str s) (take count buf) pos \<and>
     fs_find_first_not_of_fs_pos s t pos = first_of_spec False (fs_str s) (fs_str t) pos \<and>
     fs_find_first_not_of_fs s t = first_of_spec False (fs_str s) (fs_str t) 0 \<and>
     fs_find_first_not_of_cstr_pos s b pos = first_of_spec False (fs_str s) (cstr b) pos \<and>
     fs_find_first_not_of_cstr s b = first_of_spec False (fs_str s) (cstr b) 0 \<and>
     fs_find_first_not_of_char_pos s ch pos = first_of_spec False (fs_str s) [ch] pos \<and>
     fs_find_first_not_of_char s ch = first_of_spec False (fs_str s) [ch] 0"
  by (simp add: find_first_of_overloads [OF assms] find_first_not_of_overloads [OF assms])

text \<open>
  \<^verbatim>\<open>find_last_of\<close> and \<^verbatim>\<open>find_last_not_of\<close>, in all their overloads, return the greatest position up
  to \<^verbatim>\<open>pos\<close> whose character is, respectively is not, among the given ones, and \<^verbatim>\<open>npos\<close> when there is
  none (in the empty string also for a \<^verbatim>\<open>pos\<close> that is out of range).
\<close>

lemma fs_find_last_correct:
  fixes s t :: "'c::zero fixed_string"
  assumes "fs_inv s" "fs_inv t" and "count \<le> length buf" and "0 \<in> set b"
  shows "fs_find_last_of_ptr s buf pos count = last_of_spec True (fs_str s) (take count buf) pos \<and>
     fs_find_last_of_fs_pos s t pos = last_of_spec True (fs_str s) (fs_str t) pos \<and>
     fs_find_last_of_fs s t = last_of_spec True (fs_str s) (fs_str t) (fs_size s) \<and>
     fs_find_last_of_cstr_pos s b pos = last_of_spec True (fs_str s) (cstr b) pos \<and>
     fs_find_last_of_cstr s b = last_of_spec True (fs_str s) (cstr b) (fs_size s) \<and>
     fs_find_last_of_char_pos s ch pos = last_of_spec True (fs_str s) [ch] pos \<and>
     fs_find_last_of_char s ch = last_of_spec True (fs_str s) [ch] (fs_size s) \<and>
     fs_find_last_not_of_ptr s buf pos count = last_of_spec False (fs_str s) (take count buf) pos \<and>
     fs_find_last_not_of_fs_pos s t pos = last_of_spec False (fs_str s) (fs_str t) pos \<and>
     fs_find_last_not_of_fs s t = last_of_spec False (fs_str s) (fs_str t) (fs_size s) \<and>
     fs_find_last_not_of_cstr_pos s b pos = last_of_spec False (fs_str s) (cstr b) pos \<and>
     fs_find_last_not_of_cstr s b = last_of_spec False (fs_str s) (cstr b) (fs_size s) \<and>
     fs_find_last_not_of_char_pos s ch pos = last_of_spec False (fs_str s) [ch] pos \<and>
     fs_find_last_not_of_char s ch = last_of_spec False (fs_str s) [ch] (fs_size s)"
  by (simp add: find_last_of_overloads [OF assms] find_last_not_of_overloads [OF assms])

section \<open>Comparing\<close>

lemma fs_compare_ptr_eq:
  assumes "fs_inv s" and "n \<le> length buf"
  shows "fs_compare_ptr s p c buf n =
    (if in_range (fs_size s) p c
     then Inr (ordering_int (lex_ordering (take (eff_count c (fs_size s - p)) (drop p (fs_str s))) (take n buf)))
     else Inl Out_of_range)"
proof (cases "in_range (fs_size s) p c")
  case True
  let ?c = "eff_count c (fs_size s - p)"
  have c: "p + ?c \<le> fs_size s" using True by (rule in_range_sum)
  then have "compare' (fs_data s) p (?c + p) buf 0 n =
      Inr (lex_ordering (drop p (take (?c + p) (fs_data s))) (drop 0 (take n buf)))"
    using assms by (intro compare'_eq) (auto simp: fs_inv_def)
  then show ?thesis
    unfolding fs_compare_ptr_def range_check' using True c by (simp add: drop_take sub_str)
qed (simp add: fs_compare_ptr_def range_check')

lemma fs_compare_range_eq:
  assumes "fs_inv s" "fs_inv t"
  shows "fs_compare_range s p c t tp tc =
    (if p \<le> fs_size s \<and> c \<le> fs_size s - p \<and> tp \<le> fs_size t \<and> tc \<le> fs_size t - tp
     then Inr (ordering_int (lex_ordering (take c (drop p (fs_str s))) (take tc (drop tp (fs_str t)))))
     else Inl Out_of_range)"
proof (cases "p \<le> fs_size s \<and> c \<le> fs_size s - p \<and> tp \<le> fs_size t \<and> tc \<le> fs_size t - tp")
  case True
  then have "compare' (fs_data s) p (c + p) (fs_data t) tp (tc + tp) =
      Inr (lex_ordering (drop p (take (c + p) (fs_data s))) (drop tp (take (tc + tp) (fs_data t))))"
    using assms by (intro compare'_eq) (auto simp: fs_inv_def)
  moreover have "take c (drop p (fs_data s)) = take c (drop p (fs_str s))"
      "take tc (drop tp (fs_data t)) = take tc (drop tp (fs_str t))"
    using True by (auto intro!: sub_str)
  ultimately show ?thesis using True by (simp add: fs_compare_range_def drop_take)
next
  case False
  then show ?thesis
    by (auto simp: fs_compare_range_def checkOverflow_def assertOutOfBounds_def)
qed

lemma take_cstr: "take (length (cstr b)) b = cstr b" "length (cstr b) \<le> length b"
  by (simp_all add: cstr_def takeWhile_eq_take [symmetric] length_takeWhile_le)

text \<open>
  \<^verbatim>\<open>compare\<close>, against a string, a C string, a \<^verbatim>\<open>Range\<close> or a buffer, on whole strings and on
  ranges, is the lexicographic three-way comparison of the selected characters, and throws
  \<^verbatim>\<open>std::out_of_range\<close> exactly when a selected range leaves its string.
\<close>

lemma fs_compare_correct:
  fixes s t :: "'c::{zero,linorder} fixed_string"
  assumes "fs_inv s" "fs_inv t" and "fs_fits s" and "n \<le> length buf" and "0 \<in> set b"
  shows "fs_compare_fs s t = Inr (ordering_int (lex_ordering (fs_str s) (fs_str t))) \<and>
    fs_compare_cstr s b = Inr (ordering_int (lex_ordering (fs_str s) (cstr b))) \<and>
    fs_compare_Range s buf = Inr (ordering_int (lex_ordering (fs_str s) buf)) \<and>
    fs_compare_range s p c t tp tc =
      (if p \<le> fs_size s \<and> c \<le> fs_size s - p \<and> tp \<le> fs_size t \<and> tc \<le> fs_size t - tp
       then Inr (ordering_int (lex_ordering (take c (drop p (fs_str s))) (take tc (drop tp (fs_str t)))))
       else Inl Out_of_range) \<and>
    fs_compare_sub_fs s p c t =
      (if p \<le> fs_size s \<and> c \<le> fs_size s - p
       then Inr (ordering_int (lex_ordering (take c (drop p (fs_str s))) (fs_str t)))
       else Inl Out_of_range) \<and>
    fs_compare_ptr s p c buf n =
      bindE (sub_range (fs_str s) p c) (\<lambda>xs. Inr (ordering_int (lex_ordering xs (take n buf)))) \<and>
    fs_compare_sub_cstr s p c b =
      bindE (sub_range (fs_str s) p c) (\<lambda>xs. Inr (ordering_int (lex_ordering xs (cstr b)))) \<and>
    fs_compare_sub_Range s p c buf =
      bindE (sub_range (fs_str s) p c) (\<lambda>xs. Inr (ordering_int (lex_ordering xs buf))) \<and>
    fs_compare_Range_count s p c buf n =
      bindE (sub_range (fs_str s) p c) (\<lambda>xs. Inr (ordering_int (lex_ordering xs (take n buf))))"
proof -
  have whole: "in_range (fs_size s) 0 (fs_size s)" using assms by (auto simp: fs_fits_def fs_inv_def)
  have all: "take (fs_size s) (fs_str s) = fs_str s" "take (fs_size t) (fs_str t) = fs_str t"
    using assms by simp_all
  show ?thesis
    using assms fs_compare_ptr_eq [of s "length (cstr b)" b] fs_compare_ptr_eq [of s "length buf" buf]
      fs_compare_ptr_eq [of s n buf] fs_compare_range_eq [of s t] whole all
    by (simp add: fs_compare_fs_def fs_compare_cstr_def fs_compare_Range_def fs_compare_sub_fs_def
        fs_compare_sub_cstr_def fs_compare_sub_Range_def fs_compare_Range_count_def constexpr_strlen_eq
        take_cstr sub_range_def)
qed

lemma compare'_whole:
  "n \<le> length a \<Longrightarrow> m \<le> length b \<Longrightarrow> compare' a 0 n b 0 m = Inr (lex_ordering (take n a) (take m b))"
  by (simp add: compare'_eq)

lemma less_of_simp [simp]: "less_of (Inr ord) = Inr (ord = Lt)"
  by (auto simp: less_of_def)

lemma notE_simp [simp]: "notE (Inr b) = Inr (\<not> b)"
  by (simp add: notE_def)

lemma relational_base:
  fixes x y :: "'c::{zero,linorder} fixed_string"
  assumes "fs_inv x" "fs_inv y" and "0 \<in> set b"
  shows "eq_fs_fs x y = Inr (fs_str x = fs_str y)"
    and "lt_fs_fs x y = Inr (fs_str x < fs_str y)"
    and "eq_cstr_fs b y = Inr (cstr b = fs_str y)"
    and "lt_cstr_fs b y = Inr (cstr b < fs_str y)"
    and "eq_fs_cstr x b = Inr (fs_str x = cstr b)"
    and "lt_fs_cstr x b = Inr (fs_str x < cstr b)"
    and "eq_Range_fs r y = Inr (r = fs_str y)"
    and "lt_Range_fs r y = Inr (r < fs_str y)"
    and "eq_fs_Range x r = Inr (fs_str x = r)"
    and "lt_fs_Range x r = Inr (fs_str x < r)"
  using assms
  by (auto simp: eq_fs_fs_def eq_cstr_fs_def eq_fs_cstr_def eq_Range_fs_def eq_fs_Range_def lt_fs_fs_def
      lt_cstr_fs_def lt_fs_cstr_def lt_Range_fs_def lt_fs_Range_def constexpr_strlen_eq equal'_eq
      compare'_whole take_cstr fs_inv_def fs_str_def)

text \<open>
  The relational operators between two strings, and between a string and a C string or a
  \<^verbatim>\<open>Range\<close> on either side, are equality and the lexicographic order of the characters: thirty
  operators, one total order.
\<close>

lemma fs_relational_correct:
  fixes x y :: "'c::{zero,linorder} fixed_string"
  assumes "fs_inv x" "fs_inv y" and "0 \<in> set b"
  shows "eq_fs_fs x y = Inr (fs_str x = fs_str y) \<and>
    ne_fs_fs x y = Inr (fs_str x \<noteq> fs_str y) \<and>
    lt_fs_fs x y = Inr (fs_str x < fs_str y) \<and>
    gt_fs_fs x y = Inr (fs_str x > fs_str y) \<and>
    le_fs_fs x y = Inr (fs_str x \<le> fs_str y) \<and>
    ge_fs_fs x y = Inr (fs_str x \<ge> fs_str y) \<and>
    eq_cstr_fs b y = Inr (cstr b = fs_str y) \<and>
    ne_cstr_fs b y = Inr (cstr b \<noteq> fs_str y) \<and>
    lt_cstr_fs b y = Inr (cstr b < fs_str y) \<and>
    gt_cstr_fs b y = Inr (cstr b > fs_str y) \<and>
    le_cstr_fs b y = Inr (cstr b \<le> fs_str y) \<and>
    ge_cstr_fs b y = Inr (cstr b \<ge> fs_str y) \<and>
    eq_fs_cstr x b = Inr (fs_str x = cstr b) \<and>
    ne_fs_cstr x b = Inr (fs_str x \<noteq> cstr b) \<and>
    lt_fs_cstr x b = Inr (fs_str x < cstr b) \<and>
    gt_fs_cstr x b = Inr (fs_str x > cstr b) \<and>
    le_fs_cstr x b = Inr (fs_str x \<le> cstr b) \<and>
    ge_fs_cstr x b = Inr (fs_str x \<ge> cstr b) \<and>
    eq_Range_fs r y = Inr (r = fs_str y) \<and>
    ne_Range_fs r y = Inr (r \<noteq> fs_str y) \<and>
    lt_Range_fs r y = Inr (r < fs_str y) \<and>
    gt_Range_fs r y = Inr (r > fs_str y) \<and>
    le_Range_fs r y = Inr (r \<le> fs_str y) \<and>
    ge_Range_fs r y = Inr (r \<ge> fs_str y) \<and>
    eq_fs_Range x r = Inr (fs_str x = r) \<and>
    ne_fs_Range x r = Inr (fs_str x \<noteq> r) \<and>
    lt_fs_Range x r = Inr (fs_str x < r) \<and>
    gt_fs_Range x r = Inr (fs_str x > r) \<and>
    le_fs_Range x r = Inr (fs_str x \<le> r) \<and>
    ge_fs_Range x r = Inr (fs_str x \<ge> r)"
  using relational_base [OF assms] relational_base [OF assms(2,1,3)]
  by (auto simp: ne_fs_fs_def gt_fs_fs_def le_fs_fs_def ge_fs_fs_def ne_cstr_fs_def gt_cstr_fs_def
      le_cstr_fs_def ge_cstr_fs_def ne_fs_cstr_def gt_fs_cstr_def le_fs_cstr_def
      ge_fs_cstr_def ne_Range_fs_def gt_Range_fs_def le_Range_fs_def ge_Range_fs_def
      ne_fs_Range_def gt_fs_Range_def le_fs_Range_def ge_fs_Range_def)

section \<open>Construction, concatenation and replacement into a new string\<close>

text \<open>
  C31. The constructors build the string they are given: from another string or a range of it, from a
  pointer and a count, a literal, a fill character or an initializer list, the object holds exactly
  those characters, null-terminated, or \<^verbatim>\<open>std::out_of_range\<close> is thrown because they do not fit in
  \<^verbatim>\<open>N\<close>; converting back to \<^verbatim>\<open>std::string\<close> returns them.
\<close>

theorem fs_construct_correct:
  fixes t :: "'c::zero fixed_string" and ch :: 'c
  assumes "str_ok t" and "count \<le> length buf" and "length buf < 2 ^ 63"
  shows "refines N (bounded N (fs_str t)) (fs_of_fs N t) \<and>
    refines N (bindE (sub_range (fs_str t) pos n) (bounded N)) (fs_of_range N t pos n) \<and>
    refines N (bounded N (take count buf)) (fs_of_ptr N buf count) \<and>
    refines N (bounded N (replicate n ch)) (fs_of_fill N n ch) \<and>
    refines N (bounded N buf) (fs_of_il N buf) \<and>
    yields (length buf) buf (makeFixedString (buf @ [0])) \<and>
    refines (fs_capacity t) (bindE (sub_range (fs_str t) pos n) (bounded (fs_capacity t))) (fs_substr t pos n) \<and>
    fs_toStdString t = Inr (fs_str t)"
proof -
  have t: "fs_inv t" "fs_fits t" using assms(1) by (auto simp: str_ok_def)
  show ?thesis
    using assms t fs_of_fs_refines [of t N] fs_of_range_refines [of t] fs_of_ptr_refines [of count buf N]
      fs_of_fill_refines [of N n ch] fs_of_il_refines [of buf N] fs_of_literal_yields [of buf "length buf"]
      fs_toStdString_eq [of t]
    by (simp add: makeFixedString_def fs_substr_def)
qed

theorem fs_construct_correct_witness:
  "yields 4 [101, 108, 108] (fs_of_range 4 demo_string 1 3) \<and> fs_of_fs 4 demo_string = Inl Out_of_range"
  using fs_construct_correct [of demo_string 1 "[0]" 4 1 3 "7 :: int"]
  by (auto simp: fs_eval)

text \<open>
  \<^verbatim>\<open>operator+\<close>, \<^verbatim>\<open>cappend\<close>, \<^verbatim>\<open>cpush_back\<close>, \<^verbatim>\<open>creplace\<close> and \<^verbatim>\<open>cerase\<close> return a new string whose
  characters are the concatenation, respectively the string with the selected range replaced; the
  result type's capacity (the sum of the operands') always suffices, so only an out-of-range
  selection throws.
\<close>

lemma fs_new_string_correct:
  assumes "str_ok a" "str_ok b" and "length xs < 2 ^ 63"
  shows "yields (fs_capacity a + fs_capacity b) (fs_str a @ fs_str b) (fs_cappend_fs a b) \<and>
    yields (fs_capacity a + 1) (fs_str a @ [ch]) (fs_cpush_back a ch) \<and>
    yields (fs_capacity b + 1) (ch # fs_str b) (fs_plus_char_fs ch b) \<and>
    yields (fs_capacity a + length xs) (fs_str a @ xs) (fs_plus_fs_literal a (xs @ [0])) \<and>
    yields (fs_capacity b + length xs) (xs @ fs_str b) (fs_plus_literal_fs (xs @ [0]) b) \<and>
    yields (fs_capacity a + length xs) (fs_str a @ xs) (fs_cappend_literal a (xs @ [0])) \<and>
    refines (fs_capacity a + fs_capacity b)
      (bindE (sub_range (fs_str b) tp tc) (subst_range (fs_str a) p c)) (fs_creplace_range a p c b tp tc) \<and>
    refines (fs_capacity a + fs_capacity b)
      (bindE (sub_range (fs_str b) tp tc) (\<lambda>ys. Inr (fs_str a @ ys))) (fs_cappend_range a b tp tc) \<and>
    refines (fs_capacity a + length xs)
      (bindE (sub_range xs tp tc) (subst_range (fs_str a) p c)) (fs_creplace_literal_range a p c (xs @ [0]) tp tc) \<and>
    refines (fs_capacity a) (subst_range (fs_str a) p c []) (fs_cerase a p c)"
proof -
  have ab: "fs_inv a" "fs_fits a" "fs_inv b" "fs_fits b" using assms by (auto simp: str_ok_def)
  have at_end: "subst_range (fs_str a) (fs_size a) 0 = (\<lambda>ys. Inr (fs_str a @ ys))"
    using ab(1) by (auto simp: fun_eq_iff subst_range_def replace_range_def)
  have "refines (fs_capacity a + length xs) (Inr (fs_str a @ xs)) (fs_creplace_literal a (fs_size a) 0 (xs @ [0]))"
    using fs_creplace_literal_range_refines [OF ab(1,2) assms(3), of 0 "length xs" "fs_size a" 0]
      assms sub_range_whole [of xs]
    by (simp add: fs_creplace_literal_def at_end)
  then have app: "yields (fs_capacity a + length xs) (fs_str a @ xs) (fs_cappend_literal a (xs @ [0]))"
    by (auto simp: fs_cappend_literal_def yields_def)
  have erase: "refines (fs_capacity a) (subst_range (fs_str a) p c []) (fs_cerase a p c)"
  proof (cases "in_range (fs_size a) p c")
    case True
    let ?n = "eff_count c (fs_size a - p)"
    have n: "p + ?n \<le> fs_size a" using True by (rule in_range_sum)
    then have eff: "eff_count ?n (fs_size a - p) = ?n"
      using str_ok_size [OF assms(1)] by (simp add: eff_count_def npos_def)
    then have "subst_range (fs_str a) p ?n [] = subst_range (fs_str a) p c []"
      using True n ab by (simp add: subst_range_def in_range_def)
    then show ?thesis
      using True fs_creplace_literal_range_refines [OF ab(1,2), of "[]" 0 0 p ?n]
      unfolding fs_cerase_def range_check
      by (simp add: fs_creplace_literal_def sub_range_def)
  qed (use ab in \<open>simp add: fs_cerase_def range_check subst_range_def\<close>)
  show ?thesis
    using fs_plus_fs_yields [OF ab] fs_plus_fs_char_yields [OF ab(1,2), of ch]
      fs_plus_char_fs_yields [OF ab(3,4), of ch] fs_plus_fs_literal_yields [OF ab(1,2) assms(3)]
      fs_plus_literal_fs_yields [OF ab(3,4) assms(3)] app erase
      fs_creplace_range_refines [OF ab, of tp tc p c]
      fs_creplace_range_refines [OF ab, of tp tc "fs_size a" 0]
      fs_creplace_literal_range_refines [OF ab(1,2) assms(3), of tp tc p c]
    by (simp add: fs_cappend_fs_def fs_cpush_back_def fs_cappend_char_def fs_cappend_range_def at_end)
qed

text \<open>
  \<^verbatim>\<open>swap\<close> of two strings of the same capacity exchanges the represented strings, although it moves
  only the characters up to the longer size, and both objects satisfy the invariant again.
\<close>

theorem fs_swap_correct:
  assumes "fs_inv s" "fs_inv t" and "fs_capacity s = fs_capacity t"
  shows "\<exists>s' t'. fs_swap s t = Inr (s', t') \<and> fs_inv s' \<and> fs_inv t' \<and>
    fs_str s' = fs_str t \<and> fs_str t' = fs_str s \<and> fs_capacity s' = fs_capacity t' \<and>
    fs_capacity s' = fs_capacity s"
  using fs_swap_eq [OF assms] by (auto simp: yields_def fs_capacity_def)

end
