(* ===== verification/SortedVector.thy ===== *)
theory SortedVector
  imports Prelude "HOL-Library.Multiset"
begin

text \<open>
  \<^verbatim>\<open>sorted_vector_set\<close> and \<^verbatim>\<open>sorted_vector_map\<close> of \<^verbatim>\<open>folly/sorted_vector_types.h\<close>.  The state of
  both is the sorted vector \<^verbatim>\<open>cont_\<close>, a list; the template parameter \<^verbatim>\<open>Compare\<close> is the argument
  \<open>cmp\<close> (for the map: on keys, \<open>value_compare\<close> lifts it to entries).  An iterator is an index,
  \<^verbatim>\<open>end()\<close> is the length.  Of the standard library the code uses \<^verbatim>\<open>lower_bound\<close>,
  \<^verbatim>\<open>upper_bound\<close>, \<^verbatim>\<open>is_sorted\<close>, \<^verbatim>\<open>inplace_merge\<close> (stable) and \<^verbatim>\<open>unique\<close>, modelled as the standard
  defines them; \<^verbatim>\<open>std::sort\<close>, which may order equivalent elements in any way, is the argument
  \<open>std_sort\<close> of the operations that call it, with \<open>is_std_sort\<close> as the property they rely
  on.  The assertion of the \<^verbatim>\<open>sorted_unique_t\<close> constructors is modelled (a failed one is
  \<open>Terminate\<close>).  Capacity and allocation are not observable in the result and are left out.

  The locale \<open>strict_weak\<close> is the documented requirement on \<^verbatim>\<open>Compare\<close>; all lemmas on the vector
  operations are proved in it once and used for the set with \<^verbatim>\<open>std::less\<close> and for the map.
\<close>

section \<open>The standard library on vectors\<close>

definition vec_insert :: "'a list \<Rightarrow> nat \<Rightarrow> 'a \<Rightarrow> 'a list" where
  "vec_insert xs i v = take i xs @ v # drop i xs"

definition vec_erase :: "'a list \<Rightarrow> nat \<Rightarrow> nat \<Rightarrow> 'a list" where
  "vec_erase xs i j = take i xs @ drop j xs"

definition std_lower_bound :: "('a \<Rightarrow> bool) \<Rightarrow> 'a list \<Rightarrow> nat" where
  "std_lower_bound before xs = length (takeWhile before xs)"

definition std_upper_bound :: "('a \<Rightarrow> bool) \<Rightarrow> 'a list \<Rightarrow> nat" where
  "std_upper_bound after xs = length (takeWhile (\<lambda>e. \<not> after e) xs)"

fun std_is_sorted :: "('a \<Rightarrow> 'a \<Rightarrow> bool) \<Rightarrow> 'a list \<Rightarrow> bool" where
  "std_is_sorted cmp (x # y # zs) = (\<not> cmp y x \<and> std_is_sorted cmp (y # zs))"
| "std_is_sorted cmp zs = True"

fun std_inplace_merge :: "('a \<Rightarrow> 'a \<Rightarrow> bool) \<Rightarrow> 'a list \<Rightarrow> 'a list \<Rightarrow> 'a list" where
  "std_inplace_merge cmp [] ys = ys"
| "std_inplace_merge cmp xs [] = xs"
| "std_inplace_merge cmp (x # xs) (y # ys) =
     (if cmp y x then y # std_inplace_merge cmp (x # xs) ys else x # std_inplace_merge cmp xs (y # ys))"

fun std_unique :: "('a \<Rightarrow> 'a \<Rightarrow> bool) \<Rightarrow> 'a list \<Rightarrow> 'a list" where
  "std_unique eq (x # y # zs) = (if eq x y then std_unique eq (x # zs) else x # std_unique eq (y # zs))"
| "std_unique eq zs = zs"

definition is_std_sort :: "('a \<Rightarrow> 'a \<Rightarrow> bool) \<Rightarrow> ('a list \<Rightarrow> 'a list) \<Rightarrow> bool" where
  "is_std_sort cmp std_sort \<longleftrightarrow>
     (\<forall>xs. mset (std_sort xs) = mset xs \<and> sorted_wrt (\<lambda>a b. \<not> cmp b a) (std_sort xs))"

fun std_lex_less :: "('a \<Rightarrow> 'a \<Rightarrow> bool) \<Rightarrow> 'a list \<Rightarrow> 'a list \<Rightarrow> bool" where
  "std_lex_less lt _ [] = False"
| "std_lex_less lt [] (b # bs) = True"
| "std_lex_less lt (a # as) (b # bs) =
     (if lt a b then True else if lt b a then False else std_lex_less lt as bs)"

section \<open>Shared helpers (namespace detail)\<close>

definition svs_lower_bound :: "('a \<Rightarrow> 'a \<Rightarrow> bool) \<Rightarrow> 'a list \<Rightarrow> 'a \<Rightarrow> nat" where
  "svs_lower_bound cmp cont key = std_lower_bound (\<lambda>e. cmp e key) cont"

definition svs_upper_bound :: "('a \<Rightarrow> 'a \<Rightarrow> bool) \<Rightarrow> 'a list \<Rightarrow> 'a \<Rightarrow> nat" where
  "svs_upper_bound cmp cont key = std_upper_bound (\<lambda>e. cmp key e) cont"

definition svs_equal_range :: "('a \<Rightarrow> 'a \<Rightarrow> bool) \<Rightarrow> 'a list \<Rightarrow> 'a \<Rightarrow> nat \<times> nat" where
  "svs_equal_range cmp cont key = (svs_lower_bound cmp cont key, svs_upper_bound cmp cont key)"

definition svs_insert :: "('a \<Rightarrow> 'a \<Rightarrow> bool) \<Rightarrow> 'a list \<Rightarrow> 'a \<Rightarrow> (nat \<times> bool) \<times> 'a list" where
  "svs_insert cmp cont value =
     (let it = svs_lower_bound cmp cont value in
      if it = length cont \<or> cmp value (cont ! it)
      then ((it, True), vec_insert cont it value)
      else ((it, False), cont))"

definition insert_with_hint ::
  "('a \<Rightarrow> 'a \<Rightarrow> bool) \<Rightarrow> ('a list \<Rightarrow> 'a \<Rightarrow> (nat \<times> bool) \<times> 'a list) \<Rightarrow> 'a list \<Rightarrow> nat \<Rightarrow> 'a \<Rightarrow> nat \<times> 'a list" where
  "insert_with_hint cmp sorted_insert cont hint value =
     (if hint = length cont \<or> cmp value (cont ! hint)
      then (if hint = 0 \<or> cmp (cont ! (hint - 1)) value
            then (hint, vec_insert cont hint value)
            else (fst (fst (sorted_insert cont value)), snd (sorted_insert cont value)))
      else if cmp (cont ! hint) value
      then (if hint + 1 = length cont \<or> cmp value (cont ! (hint + 1))
            then (hint + 1, vec_insert cont (hint + 1) value)
            else (fst (fst (sorted_insert cont value)), snd (sorted_insert cont value)))
      else (hint, cont))"

definition bulk_insert ::
  "('a list \<Rightarrow> 'a list) \<Rightarrow> ('a \<Rightarrow> 'a \<Rightarrow> bool) \<Rightarrow> 'a list \<Rightarrow> 'a list \<Rightarrow> 'a list" where
  "bulk_insert std_sort cmp cont new =
     (if new = [] then cont
      else let tail = (if \<not> std_is_sorted cmp new then std_sort new else new);
               merged = (if cont \<noteq> [] \<and> \<not> cmp (last cont) (hd tail)
                         then std_inplace_merge cmp cont tail else cont @ tail)
           in std_unique (\<lambda>a b. \<not> cmp a b \<and> \<not> cmp b a) merged)"

fun is_sorted_unique :: "('a \<Rightarrow> 'a \<Rightarrow> bool) \<Rightarrow> 'a list \<Rightarrow> bool" where
  "is_sorted_unique cmp (a # b # zs) = (if \<not> cmp a b then False else is_sorted_unique cmp (b # zs))"
| "is_sorted_unique cmp zs = True"

definition as_sorted_unique ::
  "('a list \<Rightarrow> 'a list) \<Rightarrow> ('a \<Rightarrow> 'a \<Rightarrow> bool) \<Rightarrow> 'a list \<Rightarrow> 'a list" where
  "as_sorted_unique std_sort cmp container =
     std_unique (\<lambda>a b. \<not> cmp a b \<and> \<not> cmp b a) (std_sort container)"

section \<open>sorted\_vector\_set\<close>

definition svs_empty :: "'a list" where
  "svs_empty = []"

definition svs_of_sorted_unique :: "('a \<Rightarrow> 'a \<Rightarrow> bool) \<Rightarrow> 'a list \<Rightarrow> 'a list res" where
  "svs_of_sorted_unique cmp container =
     (if is_sorted_unique cmp container then Inr container else Inl Terminate)"

definition svs_of_container ::
  "('a list \<Rightarrow> 'a list) \<Rightarrow> ('a \<Rightarrow> 'a \<Rightarrow> bool) \<Rightarrow> 'a list \<Rightarrow> 'a list res" where
  "svs_of_container std_sort cmp container =
     svs_of_sorted_unique cmp (as_sorted_unique std_sort cmp container)"

definition svs_insert_range ::
  "('a list \<Rightarrow> 'a list) \<Rightarrow> ('a \<Rightarrow> 'a \<Rightarrow> bool) \<Rightarrow> 'a list \<Rightarrow> 'a list \<Rightarrow> 'a list" where
  "svs_insert_range std_sort cmp cont new = bulk_insert std_sort cmp cont new"

definition svs_of_range :: "('a list \<Rightarrow> 'a list) \<Rightarrow> ('a \<Rightarrow> 'a \<Rightarrow> bool) \<Rightarrow> 'a list \<Rightarrow> 'a list" where
  "svs_of_range std_sort cmp new = svs_insert_range std_sort cmp [] new"

definition svs_insert_hint :: "('a \<Rightarrow> 'a \<Rightarrow> bool) \<Rightarrow> 'a list \<Rightarrow> nat \<Rightarrow> 'a \<Rightarrow> nat \<times> 'a list" where
  "svs_insert_hint cmp cont hint value = insert_with_hint cmp (svs_insert cmp) cont hint value"

definition svs_emplace :: "('a \<Rightarrow> 'a \<Rightarrow> bool) \<Rightarrow> 'a list \<Rightarrow> 'a \<Rightarrow> (nat \<times> bool) \<times> 'a list" where
  "svs_emplace cmp cont value = svs_insert cmp cont value"

definition svs_emplace_hint :: "('a \<Rightarrow> 'a \<Rightarrow> bool) \<Rightarrow> 'a list \<Rightarrow> nat \<Rightarrow> 'a \<Rightarrow> nat \<times> 'a list" where
  "svs_emplace_hint cmp cont hint value = svs_insert_hint cmp cont hint value"

definition svs_find :: "('a \<Rightarrow> 'a \<Rightarrow> bool) \<Rightarrow> 'a list \<Rightarrow> 'a \<Rightarrow> nat" where
  "svs_find cmp cont key =
     (let it = svs_lower_bound cmp cont key in
      if it = length cont \<or> \<not> cmp key (cont ! it) then it else length cont)"

definition svs_count :: "('a \<Rightarrow> 'a \<Rightarrow> bool) \<Rightarrow> 'a list \<Rightarrow> 'a \<Rightarrow> nat" where
  "svs_count cmp cont key = (if svs_find cmp cont key = length cont then 0 else 1)"

definition svs_erase_key :: "('a \<Rightarrow> 'a \<Rightarrow> bool) \<Rightarrow> 'a list \<Rightarrow> 'a \<Rightarrow> nat \<times> 'a list" where
  "svs_erase_key cmp cont key =
     (let it = svs_find cmp cont key in
      if it = length cont then (0, cont) else (1, vec_erase cont it (it + 1)))"

definition svs_erase_it :: "'a list \<Rightarrow> nat \<Rightarrow> (nat \<times> 'a list) res" where
  "svs_erase_it cont it =
     (if it < length cont then Inr (it, vec_erase cont it (it + 1)) else Inl Undefined)"

definition svs_erase_range :: "'a list \<Rightarrow> nat \<Rightarrow> nat \<Rightarrow> (nat \<times> 'a list) res" where
  "svs_erase_range cont first last' =
     (if first \<le> last' \<and> last' \<le> length cont then Inr (first, vec_erase cont first last')
      else Inl Undefined)"

definition svs_clear :: "'a list \<Rightarrow> 'a list" where
  "svs_clear cont = []"

definition svs_assign_il ::
  "('a list \<Rightarrow> 'a list) \<Rightarrow> ('a \<Rightarrow> 'a \<Rightarrow> bool) \<Rightarrow> 'a list \<Rightarrow> 'a list \<Rightarrow> 'a list" where
  "svs_assign_il std_sort cmp cont ilist = svs_insert_range std_sort cmp (svs_clear cont) ilist"

text \<open>\<^verbatim>\<open>swap\<close> exchanges the comparators as well as the vectors; the object is the pair of both.\<close>

definition svs_swap ::
  "('a \<Rightarrow> 'a \<Rightarrow> bool) \<times> 'a list \<Rightarrow> ('a \<Rightarrow> 'a \<Rightarrow> bool) \<times> 'a list \<Rightarrow>
   (('a \<Rightarrow> 'a \<Rightarrow> bool) \<times> 'a list) \<times> (('a \<Rightarrow> 'a \<Rightarrow> bool) \<times> 'a list)" where
  "svs_swap this other = ((fst other, snd other), (fst this, snd this))"

text \<open>The relational operators compare the vectors with the element type's \<^verbatim>\<open>operator<\<close> (\<open>lt\<close>).\<close>

definition svs_eq :: "'a list \<Rightarrow> 'a list \<Rightarrow> bool" where
  "svs_eq cont other = (other = cont)"

definition svs_neq :: "'a list \<Rightarrow> 'a list \<Rightarrow> bool" where
  "svs_neq cont other = (\<not> svs_eq cont other)"

definition svs_lt :: "('a \<Rightarrow> 'a \<Rightarrow> bool) \<Rightarrow> 'a list \<Rightarrow> 'a list \<Rightarrow> bool" where
  "svs_lt lt cont other = std_lex_less lt cont other"

definition svs_gt :: "('a \<Rightarrow> 'a \<Rightarrow> bool) \<Rightarrow> 'a list \<Rightarrow> 'a list \<Rightarrow> bool" where
  "svs_gt lt cont other = svs_lt lt other cont"

definition svs_le :: "('a \<Rightarrow> 'a \<Rightarrow> bool) \<Rightarrow> 'a list \<Rightarrow> 'a list \<Rightarrow> bool" where
  "svs_le lt cont other = (\<not> svs_gt lt cont other)"

definition svs_ge :: "('a \<Rightarrow> 'a \<Rightarrow> bool) \<Rightarrow> 'a list \<Rightarrow> 'a list \<Rightarrow> bool" where
  "svs_ge lt cont other = (\<not> svs_lt lt cont other)"

section \<open>sorted\_vector\_map\<close>

definition value_compare :: "('k \<Rightarrow> 'k \<Rightarrow> bool) \<Rightarrow> 'k \<times> 'v \<Rightarrow> 'k \<times> 'v \<Rightarrow> bool" where
  "value_compare cmp a b = cmp (fst a) (fst b)"

definition svm_lower_bound :: "('k \<Rightarrow> 'k \<Rightarrow> bool) \<Rightarrow> ('k \<times> 'v) list \<Rightarrow> 'k \<Rightarrow> nat" where
  "svm_lower_bound cmp cont key = std_lower_bound (\<lambda>e. cmp (fst e) key) cont"

definition svm_upper_bound :: "('k \<Rightarrow> 'k \<Rightarrow> bool) \<Rightarrow> ('k \<times> 'v) list \<Rightarrow> 'k \<Rightarrow> nat" where
  "svm_upper_bound cmp cont key = std_upper_bound (\<lambda>e. cmp key (fst e)) cont"

definition svm_equal_range :: "('k \<Rightarrow> 'k \<Rightarrow> bool) \<Rightarrow> ('k \<times> 'v) list \<Rightarrow> 'k \<Rightarrow> nat \<times> nat" where
  "svm_equal_range cmp cont key = (svm_lower_bound cmp cont key, svm_upper_bound cmp cont key)"

definition svm_find :: "('k \<Rightarrow> 'k \<Rightarrow> bool) \<Rightarrow> ('k \<times> 'v) list \<Rightarrow> 'k \<Rightarrow> nat" where
  "svm_find cmp cont key =
     (let it = svm_lower_bound cmp cont key in
      if it = length cont \<or> \<not> cmp key (fst (cont ! it)) then it else length cont)"

definition svm_insert ::
  "('k \<Rightarrow> 'k \<Rightarrow> bool) \<Rightarrow> ('k \<times> 'v) list \<Rightarrow> 'k \<times> 'v \<Rightarrow> (nat \<times> bool) \<times> ('k \<times> 'v) list" where
  "svm_insert cmp cont value =
     (let it = svm_lower_bound cmp cont (fst value) in
      if it = length cont \<or> value_compare cmp value (cont ! it)
      then ((it, True), vec_insert cont it value)
      else ((it, False), cont))"

definition svm_insert_hint ::
  "('k \<Rightarrow> 'k \<Rightarrow> bool) \<Rightarrow> ('k \<times> 'v) list \<Rightarrow> nat \<Rightarrow> 'k \<times> 'v \<Rightarrow> nat \<times> ('k \<times> 'v) list" where
  "svm_insert_hint cmp cont hint value =
     insert_with_hint (value_compare cmp) (svm_insert cmp) cont hint value"

definition svm_insert_range ::
  "(('k \<times> 'v) list \<Rightarrow> ('k \<times> 'v) list) \<Rightarrow> ('k \<Rightarrow> 'k \<Rightarrow> bool) \<Rightarrow> ('k \<times> 'v) list \<Rightarrow> ('k \<times> 'v) list \<Rightarrow> ('k \<times> 'v) list" where
  "svm_insert_range std_sort cmp cont new = bulk_insert std_sort (value_compare cmp) cont new"

definition svm_of_range ::
  "(('k \<times> 'v) list \<Rightarrow> ('k \<times> 'v) list) \<Rightarrow> ('k \<Rightarrow> 'k \<Rightarrow> bool) \<Rightarrow> ('k \<times> 'v) list \<Rightarrow> ('k \<times> 'v) list" where
  "svm_of_range std_sort cmp new = svm_insert_range std_sort cmp [] new"

definition svm_of_sorted_unique :: "('k \<Rightarrow> 'k \<Rightarrow> bool) \<Rightarrow> ('k \<times> 'v) list \<Rightarrow> ('k \<times> 'v) list res" where
  "svm_of_sorted_unique cmp container =
     (if \<not> std_is_sorted (value_compare cmp) container then Inl Terminate
      else if is_sorted_unique (value_compare cmp) container then Inr container else Inl Terminate)"

definition svm_of_container ::
  "(('k \<times> 'v) list \<Rightarrow> ('k \<times> 'v) list) \<Rightarrow> ('k \<Rightarrow> 'k \<Rightarrow> bool) \<Rightarrow> ('k \<times> 'v) list \<Rightarrow> ('k \<times> 'v) list res" where
  "svm_of_container std_sort cmp container =
     svm_of_sorted_unique cmp (as_sorted_unique std_sort (value_compare cmp) container)"

definition svm_emplace ::
  "('k \<Rightarrow> 'k \<Rightarrow> bool) \<Rightarrow> ('k \<times> 'v) list \<Rightarrow> 'k \<times> 'v \<Rightarrow> (nat \<times> bool) \<times> ('k \<times> 'v) list" where
  "svm_emplace cmp cont value = svm_insert cmp cont value"

definition svm_emplace_hint ::
  "('k \<Rightarrow> 'k \<Rightarrow> bool) \<Rightarrow> ('k \<times> 'v) list \<Rightarrow> nat \<Rightarrow> 'k \<times> 'v \<Rightarrow> nat \<times> ('k \<times> 'v) list" where
  "svm_emplace_hint cmp cont hint value = svm_insert_hint cmp cont hint value"

definition svm_erase_key :: "('k \<Rightarrow> 'k \<Rightarrow> bool) \<Rightarrow> ('k \<times> 'v) list \<Rightarrow> 'k \<Rightarrow> nat \<times> ('k \<times> 'v) list" where
  "svm_erase_key cmp cont key =
     (let it = svm_find cmp cont key in
      if it = length cont then (0, cont) else (1, vec_erase cont it (it + 1)))"

definition svm_erase_it :: "('k \<times> 'v) list \<Rightarrow> nat \<Rightarrow> (nat \<times> ('k \<times> 'v) list) res" where
  "svm_erase_it cont it =
     (if it < length cont then Inr (it, vec_erase cont it (it + 1)) else Inl Undefined)"

definition svm_erase_range :: "('k \<times> 'v) list \<Rightarrow> nat \<Rightarrow> nat \<Rightarrow> (nat \<times> ('k \<times> 'v) list) res" where
  "svm_erase_range cont first last' =
     (if first \<le> last' \<and> last' \<le> length cont then Inr (first, vec_erase cont first last')
      else Inl Undefined)"

definition svm_clear :: "('k \<times> 'v) list \<Rightarrow> ('k \<times> 'v) list" where
  "svm_clear cont = []"

definition svm_assign_il ::
  "(('k \<times> 'v) list \<Rightarrow> ('k \<times> 'v) list) \<Rightarrow> ('k \<Rightarrow> 'k \<Rightarrow> bool) \<Rightarrow> ('k \<times> 'v) list \<Rightarrow> ('k \<times> 'v) list \<Rightarrow> ('k \<times> 'v) list" where
  "svm_assign_il std_sort cmp cont ilist = svm_insert_range std_sort cmp (svm_clear cont) ilist"

definition svm_swap ::
  "('k \<Rightarrow> 'k \<Rightarrow> bool) \<times> ('k \<times> 'v) list \<Rightarrow> ('k \<Rightarrow> 'k \<Rightarrow> bool) \<times> ('k \<times> 'v) list \<Rightarrow>
   (('k \<Rightarrow> 'k \<Rightarrow> bool) \<times> ('k \<times> 'v) list) \<times> (('k \<Rightarrow> 'k \<Rightarrow> bool) \<times> ('k \<times> 'v) list)" where
  "svm_swap this other = ((fst other, snd other), (fst this, snd this))"

definition svm_at :: "('k \<Rightarrow> 'k \<Rightarrow> bool) \<Rightarrow> ('k \<times> 'v) list \<Rightarrow> 'k \<Rightarrow> 'v res" where
  "svm_at cmp cont key =
     (let it = svm_find cmp cont key in
      if it \<noteq> length cont then Inr (snd (cont ! it)) else Inl Out_of_range)"

definition svm_count :: "('k \<Rightarrow> 'k \<Rightarrow> bool) \<Rightarrow> ('k \<times> 'v) list \<Rightarrow> 'k \<Rightarrow> nat" where
  "svm_count cmp cont key = (if svm_find cmp cont key = length cont then 0 else 1)"

text \<open>
  \<^verbatim>\<open>operator[]\<close> returns a reference; the model returns the index of the entry it refers to and the
  map, with \<open>dflt\<close> for \<^verbatim>\<open>mapped_type()\<close>.
\<close>

definition svm_index ::
  "('k \<Rightarrow> 'k \<Rightarrow> bool) \<Rightarrow> 'v \<Rightarrow> ('k \<times> 'v) list \<Rightarrow> 'k \<Rightarrow> nat \<times> ('k \<times> 'v) list" where
  "svm_index cmp dflt cont key =
     (let it = svm_lower_bound cmp cont key in
      if it = length cont \<or> cmp key (fst (cont ! it))
      then svm_insert_hint cmp cont it (key, dflt)
      else (it, cont))"

end
