(* ===== verification/SortedVector_Correct.thy ===== *)
theory SortedVector_Correct
  imports SortedVector
begin

text \<open>
  Correctness of the sorted-vector containers.  The locale \<open>strict_weak\<close> states what the header asks
  of \<^verbatim>\<open>Compare\<close>; in it every operation is shown to keep the vector strictly sorted and to have the
  effect of its set counterpart.  \<open>map_order\<close> carries the facts over to \<open>value_compare\<close>; both are
  interpreted on the comparison \<^verbatim>\<open>std::less\<close> of a linear order, the default \<^verbatim>\<open>Compare\<close>.
\<close>

section \<open>Strict weak orders\<close>

locale strict_weak =
  fixes cmp :: "'a \<Rightarrow> 'a \<Rightarrow> bool"
  assumes irrefl: "\<not> cmp x x"
    and trans: "cmp x y \<Longrightarrow> cmp y z \<Longrightarrow> cmp x z"
    and negtrans: "\<not> cmp x y \<Longrightarrow> \<not> cmp y z \<Longrightarrow> \<not> cmp x z"

definition equivalent :: "('a \<Rightarrow> 'a \<Rightarrow> bool) \<Rightarrow> 'a \<Rightarrow> 'a \<Rightarrow> bool" where
  "equivalent cmp a b \<longleftrightarrow> \<not> cmp a b \<and> \<not> cmp b a"

definition sv_contains :: "('a \<Rightarrow> 'a \<Rightarrow> bool) \<Rightarrow> 'a list \<Rightarrow> 'a \<Rightarrow> bool" where
  "sv_contains cmp xs k \<longleftrightarrow> (\<exists>x \<in> set xs. equivalent cmp x k)"

definition points_to :: "('a \<Rightarrow> 'a \<Rightarrow> bool) \<Rightarrow> 'a \<Rightarrow> nat \<times> 'a list \<Rightarrow> bool" where
  "points_to cmp v r \<longleftrightarrow> fst r < length (snd r) \<and> equivalent cmp (snd r ! fst r) v"

definition keeps_first :: "('a \<Rightarrow> 'a \<Rightarrow> bool) \<Rightarrow> 'a list \<Rightarrow> 'a \<Rightarrow> bool" where
  "keeps_first cmp zs x \<longleftrightarrow> (\<exists>ps qs. zs = ps @ x # qs \<and> (\<forall>p \<in> set ps. cmp p x))"

lemma set_vec_insert [simp]: "i \<le> length xs \<Longrightarrow> set (vec_insert xs i v) = insert v (set xs)"
  unfolding vec_insert_def by (metis Un_insert_right append_take_drop_id list.simps(15) set_append)

lemma length_takeWhile_le_nth:
  "j < length (takeWhile P xs) \<Longrightarrow> P (xs ! j)"
  by (metis nth_mem set_takeWhileD takeWhile_nth)

lemma not_nth_takeWhile:
  "length (takeWhile P xs) < length xs \<Longrightarrow> \<not> P (xs ! length (takeWhile P xs))"
  by (rule nth_length_takeWhile)

lemma std_unique_set: "set (std_unique eq xs) \<subseteq> set xs"
  by (induction eq xs rule: std_unique.induct) (auto split: if_splits)

lemma set_std_inplace_merge [simp]: "set (std_inplace_merge cmp xs ys) = set xs \<union> set ys"
  by (induction cmp xs ys rule: std_inplace_merge.induct) auto

context strict_weak
begin

lemma asym: "cmp x y \<Longrightarrow> \<not> cmp y x"
  using irrefl trans by blast

lemma equivalent_refl: "equivalent cmp x x"
  by (simp add: equivalent_def irrefl)

lemma equivalent_trans: "equivalent cmp x y \<Longrightarrow> equivalent cmp y z \<Longrightarrow> equivalent cmp x z"
  unfolding equivalent_def using negtrans by blast

lemma cmp_weak: "cmp x y \<Longrightarrow> \<not> cmp z y \<Longrightarrow> cmp x z"
  using negtrans by blast

lemma weak_cmp: "\<not> cmp y x \<Longrightarrow> cmp y z \<Longrightarrow> cmp x z"
  using negtrans by blast

lemma lower_bound_before: "j < svs_lower_bound cmp xs k \<Longrightarrow> cmp (xs ! j) k"
  unfolding svs_lower_bound_def std_lower_bound_def by (rule length_takeWhile_le_nth)

lemma lower_bound_le: "svs_lower_bound cmp xs k \<le> length xs"
  by (simp add: svs_lower_bound_def std_lower_bound_def length_takeWhile_le)

lemma lower_bound_after:
  assumes "sorted_wrt cmp xs" "svs_lower_bound cmp xs k \<le> j" "j < length xs"
  shows "\<not> cmp (xs ! j) k"
proof -
  let ?i = "svs_lower_bound cmp xs k"
  have "\<not> cmp (xs ! ?i) k"
    using assms(2,3) unfolding svs_lower_bound_def std_lower_bound_def
    by (intro not_nth_takeWhile) simp
  moreover have "?i = j \<or> cmp (xs ! ?i) (xs ! j)"
    using assms by (auto simp: sorted_wrt_iff_nth_less le_less)
  ultimately show ?thesis using trans by blast
qed

lemma upper_bound_before:
  "j < svs_upper_bound cmp xs k \<Longrightarrow> \<not> cmp k (xs ! j)"
  unfolding svs_upper_bound_def std_upper_bound_def
  using length_takeWhile_le_nth[of j "\<lambda>e. \<not> cmp k e" xs] by simp

lemma upper_bound_after:
  assumes "sorted_wrt cmp xs" "svs_upper_bound cmp xs k \<le> j" "j < length xs"
  shows "cmp k (xs ! j)"
proof -
  let ?i = "svs_upper_bound cmp xs k"
  have "cmp k (xs ! ?i)"
    using assms(2,3) not_nth_takeWhile[of "\<lambda>e. \<not> cmp k e" xs]
    unfolding svs_upper_bound_def std_upper_bound_def by simp
  moreover have "?i = j \<or> cmp (xs ! ?i) (xs ! j)"
    using assms by (auto simp: sorted_wrt_iff_nth_less le_less)
  ultimately show ?thesis using trans by blast
qed

lemma sorted_unique_list:
  assumes "sorted_wrt cmp xs" "sorted_wrt cmp ys" "set xs = set ys"
  shows "xs = ys"
  using assms
proof (induction xs arbitrary: ys)
  case (Cons x xs)
  then obtain y ys' where ys: "ys = y # ys'" by (cases ys) auto
  have "x = y"
  proof (rule ccontr)
    assume "x \<noteq> y"
    then have "x \<in> set ys'" "y \<in> set xs" using Cons.prems(3) ys by auto
    then show False using Cons.prems(1,2) ys asym by auto
  qed
  moreover have "x \<notin> set xs" "y \<notin> set ys'" using Cons.prems(1,2) ys irrefl by auto
  ultimately have "set xs = set ys'" using Cons.prems(3) ys by auto
  then have "xs = ys'" using Cons.IH[of ys'] Cons.prems(1,2) ys by simp
  then show ?case using \<open>x = y\<close> ys by simp
qed simp

lemma sorted_vec_insert:
  assumes "sorted_wrt cmp xs" "i \<le> length xs" "i = 0 \<or> cmp (xs ! (i - 1)) v"
    "i = length xs \<or> cmp v (xs ! i)"
  shows "sorted_wrt cmp (vec_insert xs i v)" and "\<not> sv_contains cmp xs v"
proof -
  have before: "cmp (xs ! j) v" if "j < i" for j
  proof (cases "j = i - 1")
    case False
    then have "cmp (xs ! j) (xs ! (i - 1))" using assms(1,2) that by (simp add: sorted_wrt_iff_nth_less)
    then show ?thesis using assms(3) that trans by blast
  qed (use assms(3) that in auto)
  have after: "cmp v (xs ! j)" if "i \<le> j" "j < length xs" for j
  proof (cases "j = i")
    case False
    then have "cmp (xs ! i) (xs ! j)" using assms(1) that by (simp add: sorted_wrt_iff_nth_less)
    then show ?thesis using assms(4) that trans by auto
  qed (use assms(4) that in auto)
  have 1: "\<forall>x \<in> set (take i xs). cmp x v" using before by (auto simp: in_set_conv_nth)
  have 2: "\<forall>x \<in> set (drop i xs). cmp v x" using after by (auto simp: in_set_conv_nth)
  have "sorted_wrt cmp (take i xs @ drop i xs)" using assms(1) by simp
  then show "sorted_wrt cmp (vec_insert xs i v)"
    unfolding vec_insert_def sorted_wrt_append using 1 2 by auto
  have "\<forall>x \<in> set (take i xs @ drop i xs). cmp x v \<or> cmp v x"
    unfolding set_append using 1 2 by blast
  then show "\<not> sv_contains cmp xs v"
    unfolding append_take_drop_id by (auto simp: sv_contains_def equivalent_def)
qed

lemma contains_iff:
  assumes "sorted_wrt cmp xs"
  shows "sv_contains cmp xs v \<longleftrightarrow>
    svs_lower_bound cmp xs v < length xs \<and> \<not> cmp v (xs ! svs_lower_bound cmp xs v)" (is "_ = ?P")
proof
  let ?i = "svs_lower_bound cmp xs v"
  show ?P if "sv_contains cmp xs v"
  proof (rule ccontr)
    assume "\<not> ?P"
    then have "?i = length xs \<or> cmp v (xs ! ?i)" using lower_bound_le[of xs v] by auto
    moreover have "?i = 0 \<or> cmp (xs ! (?i - 1)) v"
      using lower_bound_before[of "?i - 1" xs v] by (cases ?i) auto
    ultimately show False using sorted_vec_insert(2)[OF assms lower_bound_le] that by blast
  qed
  show "sv_contains cmp xs v" if ?P
    using that lower_bound_after[OF assms, of v ?i] nth_mem[of ?i xs]
    by (auto simp: sv_contains_def equivalent_def)
qed

lemma insert_cases:
  assumes "sorted_wrt cmp xs"
  shows "svs_insert cmp xs v =
    (let it = svs_lower_bound cmp xs v in
     if sv_contains cmp xs v then ((it, False), xs) else ((it, True), vec_insert xs it v))"
  using lower_bound_le[of xs v] by (auto simp: svs_insert_def Let_def contains_iff[OF assms])

lemma insert_sorted: "sorted_wrt cmp xs \<Longrightarrow> sorted_wrt cmp (snd (svs_insert cmp xs v))"
proof -
  assume s: "sorted_wrt cmp xs"
  let ?i = "svs_lower_bound cmp xs v"
  have "?i = 0 \<or> cmp (xs ! (?i - 1)) v" using lower_bound_before[of "?i - 1" xs v] by (cases ?i) auto
  then show ?thesis
    using sorted_vec_insert(1)[OF s lower_bound_le] s by (auto simp: svs_insert_def Let_def)
qed

lemma insert_set:
  "sorted_wrt cmp xs \<Longrightarrow>
   set (snd (svs_insert cmp xs v)) = (if sv_contains cmp xs v then set xs else insert v (set xs))"
  by (simp add: insert_cases Let_def lower_bound_le)

lemma insert_result:
  "sorted_wrt cmp xs \<Longrightarrow>
   fst (svs_insert cmp xs v) = (svs_lower_bound cmp xs v, \<not> sv_contains cmp xs v)"
  by (simp add: insert_cases Let_def)

lemma insert_unless: "sorted_wrt cmp xs \<Longrightarrow> sv_contains cmp xs v \<Longrightarrow> snd (svs_insert cmp xs v) = xs"
  by (simp add: insert_cases Let_def)

lemma vec_insert_is_insert:
  assumes "sorted_wrt cmp xs" "i \<le> length xs" "i = 0 \<or> cmp (xs ! (i - 1)) v"
    "i = length xs \<or> cmp v (xs ! i)"
  shows "vec_insert xs i v = snd (svs_insert cmp xs v)"
  using sorted_vec_insert[OF assms] insert_set[OF assms(1), of v] assms
  by (intro sorted_unique_list insert_sorted) auto

lemma hint_is_insert:
  assumes "sorted_wrt cmp xs" "hint \<le> length xs"
  shows "snd (insert_with_hint cmp (svs_insert cmp) xs hint v) = snd (svs_insert cmp xs v)"
proof -
  have eq: "snd (svs_insert cmp xs v) = xs"
    if "hint < length xs" "\<not> cmp v (xs ! hint)" "\<not> cmp (xs ! hint) v"
    using that assms(1) by (intro insert_unless) (auto simp: sv_contains_def equivalent_def)
  show ?thesis
  proof (cases "hint = length xs \<or> cmp v (xs ! hint)")
    case True
    then show ?thesis
      using vec_insert_is_insert[OF assms, of v] by (simp add: insert_with_hint_def)
  next
    case False
    then have lt: "hint < length xs" "\<not> cmp v (xs ! hint)" using assms(2) by auto
    then show ?thesis
      using False eq vec_insert_is_insert[OF assms(1), of "hint + 1" v]
      by (simp add: insert_with_hint_def)
  qed
qed

lemma insert_position:
  assumes "sorted_wrt cmp xs"
  shows "points_to cmp v (fst (fst (svs_insert cmp xs v)), snd (svs_insert cmp xs v))"
  using lower_bound_after[OF assms, of v "svs_lower_bound cmp xs v"] lower_bound_le[of xs v]
  by (simp add: insert_cases[OF assms] Let_def points_to_def vec_insert_def nth_append
      irrefl contains_iff[OF assms] equivalent_def)

lemma hint_position:
  assumes "sorted_wrt cmp xs" "hint \<le> length xs"
  shows "points_to cmp v (insert_with_hint cmp (svs_insert cmp) xs hint v)"
proof -
  have ins: "points_to cmp v (j, vec_insert xs j v)" if "j \<le> length xs" for j
    using that by (simp add: points_to_def vec_insert_def nth_append equivalent_refl)
  show ?thesis
  proof (cases "hint = length xs \<or> cmp v (xs ! hint)")
    case True
    then show ?thesis
      using assms(2) insert_position[OF assms(1), of v] ins[of hint] by (simp add: insert_with_hint_def)
  next
    case False
    then have lt: "hint < length xs" using assms(2) by simp
    then have "points_to cmp v (hint, xs)" if "\<not> cmp (xs ! hint) v"
      using False that by (simp add: points_to_def equivalent_def)
    then show ?thesis
      using False lt insert_position[OF assms(1), of v] ins[of "hint + 1"]
      by (simp add: insert_with_hint_def)
  qed
qed

lemma find_eq:
  assumes "sorted_wrt cmp xs"
  shows "svs_find cmp xs k = (if sv_contains cmp xs k then svs_lower_bound cmp xs k else length xs)"
  using lower_bound_le[of xs k] by (auto simp: svs_find_def Let_def contains_iff[OF assms])

lemma find_hit:
  assumes "sorted_wrt cmp xs"
  shows "svs_find cmp xs k < length xs \<longleftrightarrow> sv_contains cmp xs k"
    and "sv_contains cmp xs k \<Longrightarrow> equivalent cmp (xs ! svs_find cmp xs k) k"
  using lower_bound_after[OF assms, of k "svs_lower_bound cmp xs k"]
  by (auto simp: find_eq[OF assms] contains_iff[OF assms] equivalent_def)

lemma equivalent_unique:
  assumes "sorted_wrt cmp xs" "i < length xs" "j < length xs" "equivalent cmp (xs ! i) (xs ! j)"
  shows "i = j"
  using assms by (auto simp: sorted_wrt_iff_nth_less equivalent_def) (metis linorder_neqE_nat)

lemma sorted_vec_erase:
  assumes "sorted_wrt cmp xs" "i \<le> j"
  shows "sorted_wrt cmp (vec_erase xs i j)"
proof -
  have "sorted_wrt cmp (take i xs @ drop i xs)" using assms(1) by simp
  moreover have "set (drop j xs) \<subseteq> set (drop i xs)" using assms(2) by (rule set_drop_subset_set_drop)
  ultimately show ?thesis
    using assms(1) unfolding vec_erase_def sorted_wrt_append by (auto intro: sorted_wrt_drop)
qed

lemma set_vec_erase:
  assumes "sorted_wrt cmp xs" "i < length xs"
  shows "set (vec_erase xs i (i + 1)) = {x \<in> set xs. \<not> equivalent cmp x (xs ! i)}"
proof -
  have "xs = take i xs @ xs ! i # drop (Suc i) xs" using assms(2) by (simp add: id_take_nth_drop)
  then have s: "sorted_wrt cmp (take i xs @ xs ! i # drop (Suc i) xs)"
    and u: "set xs = set (take i xs @ xs ! i # drop (Suc i) xs)" using assms(1) by auto
  have "\<forall>x \<in> set (take i xs) \<union> set (drop (Suc i) xs). cmp x (xs ! i) \<or> cmp (xs ! i) x"
    using s unfolding sorted_wrt_append by auto
  then show ?thesis unfolding u vec_erase_def using equivalent_refl by (auto simp: equivalent_def)
qed

lemma erase_key:
  assumes "sorted_wrt cmp xs"
  shows "sorted_wrt cmp (snd (svs_erase_key cmp xs k))"
    and "set (snd (svs_erase_key cmp xs k)) = {x \<in> set xs. \<not> equivalent cmp x k}"
    and "fst (svs_erase_key cmp xs k) = (if sv_contains cmp xs k then 1 else 0)"
proof -
  let ?i = "svs_find cmp xs k"
  show "sorted_wrt cmp (snd (svs_erase_key cmp xs k))"
    using assms sorted_vec_erase[OF assms, of ?i "?i + 1"] by (simp add: svs_erase_key_def Let_def)
  have "equivalent cmp x (xs ! ?i) = equivalent cmp x k" if "sv_contains cmp xs k" for x
    using find_hit(2)[OF assms that] equivalent_trans unfolding equivalent_def by blast
  then show "set (snd (svs_erase_key cmp xs k)) = {x \<in> set xs. \<not> equivalent cmp x k}"
    using set_vec_erase[OF assms, of ?i] find_hit(1)[OF assms, of k]
    by (cases "sv_contains cmp xs k") (auto simp: svs_erase_key_def Let_def sv_contains_def find_eq[OF assms])
  show "fst (svs_erase_key cmp xs k) = (if sv_contains cmp xs k then 1 else 0)"
    using find_hit(1)[OF assms, of k] by (auto simp: svs_erase_key_def Let_def find_eq[OF assms])
qed

lemma weak_sorted_Cons:
  "sorted_wrt (\<lambda>a b. \<not> cmp b a) (x # y # zs) \<longleftrightarrow>
   \<not> cmp y x \<and> sorted_wrt (\<lambda>a b. \<not> cmp b a) (y # zs)"
  using negtrans by auto

lemma std_is_sorted_iff: "std_is_sorted cmp xs \<longleftrightarrow> sorted_wrt (\<lambda>a b. \<not> cmp b a) xs"
proof (induction xs rule: induct_list012)
  case (3 x y zs)
  then show ?case unfolding weak_sorted_Cons by simp
qed simp_all

lemma is_sorted_unique_iff: "is_sorted_unique cmp xs \<longleftrightarrow> sorted_wrt cmp xs"
proof (induction xs rule: induct_list012)
  case (3 x y zs)
  have "(\<forall>z \<in> set (y # zs). cmp x z) \<longleftrightarrow> cmp x y" if "sorted_wrt cmp (y # zs)"
    using that trans by auto
  then show ?case using 3 by auto
qed simp_all

lemma merge_sorted:
  "sorted_wrt (\<lambda>a b. \<not> cmp b a) xs \<Longrightarrow> sorted_wrt (\<lambda>a b. \<not> cmp b a) ys \<Longrightarrow>
   sorted_wrt (\<lambda>a b. \<not> cmp b a) (std_inplace_merge cmp xs ys)"
proof (induction xs arbitrary: ys)
  case (Cons x xs)
  note IH = Cons.IH and xs = Cons.prems(1)
  show ?case using Cons.prems(2)
  proof (induction ys)
    case (Cons y ys)
    show ?case
    proof (cases "cmp y x")
      case True
      have "\<not> cmp z y" if "z \<in> set (x # xs) \<union> set ys" for z
        using that True xs Cons.prems asym[OF True] trans[of z y x] by auto
      then show ?thesis using True Cons by simp
    next
      case False
      have "\<not> cmp z x" if "z \<in> set xs \<union> set (y # ys)" for z
        using that False xs Cons.prems negtrans[of z y x] by auto
      then show ?thesis using False IH[OF _ Cons.prems] xs by simp
    qed
  qed (use xs in simp)
qed simp

lemma unique_sorted:
  "sorted_wrt (\<lambda>a b. \<not> cmp b a) xs \<Longrightarrow>
   sorted_wrt cmp (std_unique (\<lambda>a b. \<not> cmp a b \<and> \<not> cmp b a) xs)"
proof (cases xs)
  case (Cons x zs)
  moreover have "sorted_wrt (\<lambda>a b. \<not> cmp b a) (x # zs) \<Longrightarrow>
    sorted_wrt cmp (std_unique (\<lambda>a b. \<not> cmp a b \<and> \<not> cmp b a) (x # zs))"
  proof (induction zs arbitrary: x)
    case (Cons y zs)
    let ?u = "std_unique (\<lambda>a b. \<not> cmp a b \<and> \<not> cmp b a)"
    have "\<forall>z \<in> set (?u (y # zs)). cmp x z" if "cmp x y"
      using that Cons.prems std_unique_set[of _ "y # zs"] cmp_weak[OF that] by fastforce
    then show ?case using Cons by auto
  qed simp
  ultimately show "sorted_wrt (\<lambda>a b. \<not> cmp b a) xs \<Longrightarrow> ?thesis" by simp
qed simp

lemma unique_covers:
  "z \<in> set xs \<Longrightarrow> sv_contains cmp (std_unique (\<lambda>a b. \<not> cmp a b \<and> \<not> cmp b a) xs) z"
proof (cases xs)
  case (Cons x zs)
  moreover have "\<forall>z \<in> set (x # zs). sv_contains cmp (std_unique (\<lambda>a b. \<not> cmp a b \<and> \<not> cmp b a) (x # zs)) z"
  proof (induction zs arbitrary: x)
    case Nil
    show ?case by (simp add: sv_contains_def equivalent_refl)
  next
    case (Cons y zs)
    let ?u = "std_unique (\<lambda>a b. \<not> cmp a b \<and> \<not> cmp b a)"
    show ?case
    proof (cases "equivalent cmp x y")
      case True
      have "sv_contains cmp (?u (x # zs)) x" using Cons.IH[of x] by simp
      then have "sv_contains cmp (?u (x # zs)) y"
        using True equivalent_trans by (auto simp: sv_contains_def)
      then show ?thesis using True Cons.IH[of x] by (simp add: equivalent_def)
    next
      case False
      then show ?thesis using Cons.IH[of y] equivalent_refl[of x]
        by (auto simp: equivalent_def sv_contains_def)
    qed
  qed
  ultimately show "z \<in> set xs \<Longrightarrow> ?thesis" by blast
qed simp

lemma keeps_first_Cons: "cmp y x \<Longrightarrow> keeps_first cmp zs x \<Longrightarrow> keeps_first cmp (y # zs) x"
  unfolding keeps_first_def by (metis append_Cons set_ConsD)

lemma keeps_first_here: "keeps_first cmp (x # zs) x"
  unfolding keeps_first_def by force

lemma keeps_first_tail:
  assumes "keeps_first cmp (a # zs) x"
  shows "x = a \<or> keeps_first cmp zs x"
proof -
  obtain ps qs where e: "a # zs = ps @ x # qs" "\<forall>p \<in> set ps. cmp p x"
    using assms unfolding keeps_first_def by blast
  then show ?thesis unfolding keeps_first_def by (cases ps) auto
qed

lemma keeps_first_append: "sorted_wrt cmp xs \<Longrightarrow> x \<in> set xs \<Longrightarrow> keeps_first cmp (xs @ zs) x"
  by (induction xs) (auto simp: keeps_first_here intro: keeps_first_Cons)

lemma keeps_first_merge:
  "sorted_wrt cmp xs \<Longrightarrow> x \<in> set xs \<Longrightarrow> keeps_first cmp (std_inplace_merge cmp xs ys) x"
proof (induction xs arbitrary: ys)
  case (Cons a xs)
  note IH = Cons.IH and prems = Cons.prems
  show ?case
  proof (induction ys)
    case Nil
    show ?case using keeps_first_append[OF prems, of "[]"] by simp
  next
    case (Cons y ys)
    have "cmp y x" if "cmp y a" using that prems trans by auto
    moreover have "cmp a x" if "x \<noteq> a" using that prems by auto
    ultimately show ?case using Cons IH[of "y # ys"] prems
      by (auto simp: keeps_first_here intro: keeps_first_Cons)
  qed
qed simp

lemma keeps_first_skip:
  assumes "keeps_first cmp (a # b # zs) x" "equivalent cmp a b"
  shows "keeps_first cmp (a # zs) x"
proof -
  obtain ps qs where e: "a # b # zs = ps @ x # qs" and l: "\<forall>p \<in> set ps. cmp p x"
    using assms(1) unfolding keeps_first_def by blast
  consider "ps = []" | "ps = [a]" | ps' where "ps = a # b # ps'"
    using e by (cases ps; cases "tl ps") (auto simp: Cons_eq_append_conv)
  then show ?thesis
  proof cases
    case 1
    then show ?thesis using e keeps_first_here by simp
  next
    case 2
    then show ?thesis using e l assms(2) by (simp add: equivalent_def)
  next
    case 3
    then show ?thesis using e l unfolding keeps_first_def
      by (intro exI[of _ "a # ps'"] exI[of _ qs]) simp
  qed
qed

lemma keeps_first_unique:
  "keeps_first cmp xs x \<Longrightarrow> x \<in> set (std_unique (\<lambda>a b. \<not> cmp a b \<and> \<not> cmp b a) xs)"
proof (cases xs)
  case (Cons a zs)
  moreover have "keeps_first cmp (a # zs) x \<Longrightarrow>
    x \<in> set (std_unique (\<lambda>a b. \<not> cmp a b \<and> \<not> cmp b a) (a # zs))"
  proof (induction zs arbitrary: a)
    case Nil
    then show ?case by (auto simp: keeps_first_def Cons_eq_append_conv)
  next
    case (Cons b zs)
    have "keeps_first cmp (a # zs) x" if "equivalent cmp a b" using keeps_first_skip Cons.prems that by blast
    moreover have "x = a \<or> keeps_first cmp (b # zs) x"
      using Cons.prems by (rule keeps_first_tail)
    ultimately show ?case using Cons.IH by (auto simp: equivalent_def)
  qed
  ultimately show "keeps_first cmp xs x \<Longrightarrow> ?thesis" by blast
qed (simp add: keeps_first_def)

lemma bulk_insert_merged:
  assumes sort: "is_std_sort cmp std_sort" and "sorted_wrt cmp cont" "new \<noteq> []"
  obtains merged where
    "bulk_insert std_sort cmp cont new = std_unique (\<lambda>a b. \<not> cmp a b \<and> \<not> cmp b a) merged"
    "sorted_wrt (\<lambda>a b. \<not> cmp b a) merged" "set merged = set cont \<union> set new"
    "\<forall>x \<in> set cont. keeps_first cmp merged x"
proof -
  define tail where "tail = (if \<not> std_is_sorted cmp new then std_sort new else new)"
  define merged where "merged = (if cont \<noteq> [] \<and> \<not> cmp (last cont) (hd tail)
    then std_inplace_merge cmp cont tail else cont @ tail)"
  have t: "sorted_wrt (\<lambda>a b. \<not> cmp b a) tail" "set tail = set new"
    using sort unfolding tail_def is_std_sort_def
    by (auto simp: std_is_sorted_iff) (metis mset_eq_setD)+
  have ne: "tail \<noteq> []" using t(2) assms(3) by auto
  have c: "sorted_wrt (\<lambda>a b. \<not> cmp b a) cont"
    using assms(2) by (rule sorted_wrt_mono_rel[rotated]) (simp add: asym)
  have "sorted_wrt (\<lambda>a b. \<not> cmp b a) (cont @ tail)" if "cont = [] \<or> cmp (last cont) (hd tail)"
  proof -
    have "\<not> cmp b a" if "a \<in> set cont" "b \<in> set tail" for a b
    proof -
      have "cont \<noteq> []" using that(1) by auto
      then have "sorted_wrt cmp (butlast cont @ [last cont])" "a \<in> set (butlast cont @ [last cont])"
        using assms(2) that(1) by simp_all
      then have "a = last cont \<or> cmp a (last cont)" by (auto simp: sorted_wrt_append)
      moreover have "cmp (last cont) (hd tail)" using \<open>cont = [] \<or> _\<close> that by auto
      moreover have "hd tail = b \<or> \<not> cmp b (hd tail)"
        using t(1) that(2) by (cases tail) auto
      ultimately show ?thesis using trans cmp_weak asym by metis
    qed
    then show ?thesis using t(1) c by (simp add: sorted_wrt_append)
  qed
  then have "sorted_wrt (\<lambda>a b. \<not> cmp b a) merged"
    unfolding merged_def using merge_sorted[OF c t(1)] by auto
  moreover have "set merged = set cont \<union> set new" by (simp add: merged_def t)
  moreover have "\<forall>x \<in> set cont. keeps_first cmp merged x"
    unfolding merged_def using keeps_first_merge keeps_first_append assms(2) by auto
  moreover have "bulk_insert std_sort cmp cont new = std_unique (\<lambda>a b. \<not> cmp a b \<and> \<not> cmp b a) merged"
    using assms(3) by (simp add: bulk_insert_def tail_def merged_def Let_def)
  ultimately show ?thesis using that by blast
qed

lemma bulk_insert_correct:
  assumes "is_std_sort cmp std_sort" "sorted_wrt cmp cont"
  shows "sorted_wrt cmp (bulk_insert std_sort cmp cont new)"
    and "set cont \<subseteq> set (bulk_insert std_sort cmp cont new)"
    and "set (bulk_insert std_sort cmp cont new) \<subseteq> set cont \<union> set new"
    and "\<forall>z \<in> set new. sv_contains cmp (bulk_insert std_sort cmp cont new) z"
proof -
  let ?r = "bulk_insert std_sort cmp cont new"
  have "sorted_wrt cmp ?r \<and> set cont \<subseteq> set ?r \<and> set ?r \<subseteq> set cont \<union> set new \<and>
    (\<forall>z \<in> set new. sv_contains cmp ?r z)"
  proof (cases "new = []")
    case True
    then show ?thesis using assms(2) by (simp add: bulk_insert_def)
  next
    case False
    from bulk_insert_merged[OF assms False] obtain m where
      "?r = std_unique (\<lambda>a b. \<not> cmp a b \<and> \<not> cmp b a) m"
      "sorted_wrt (\<lambda>a b. \<not> cmp b a) m" "set m = set cont \<union> set new"
      "\<forall>x \<in> set cont. keeps_first cmp m x" .
    then show ?thesis
      using unique_sorted[of m] std_unique_set[of _ m] unique_covers[of _ m] keeps_first_unique[of m]
      by auto
  qed
  then show "sorted_wrt cmp ?r" "set cont \<subseteq> set ?r" "set ?r \<subseteq> set cont \<union> set new"
    "\<forall>z \<in> set new. sv_contains cmp ?r z" by blast+
qed

lemma as_sorted_unique_correct:
  assumes "is_std_sort cmp std_sort"
  shows "sorted_wrt cmp (as_sorted_unique std_sort cmp xs)"
    and "set (as_sorted_unique std_sort cmp xs) \<subseteq> set xs"
    and "z \<in> set xs \<Longrightarrow> sv_contains cmp (as_sorted_unique std_sort cmp xs) z"
proof -
  have s: "sorted_wrt (\<lambda>a b. \<not> cmp b a) (std_sort xs)" "set (std_sort xs) = set xs"
    using assms mset_eq_setD[of "std_sort xs" xs] unfolding is_std_sort_def by auto
  show "sorted_wrt cmp (as_sorted_unique std_sort cmp xs)"
    unfolding as_sorted_unique_def by (rule unique_sorted[OF s(1)])
  show "set (as_sorted_unique std_sort cmp xs) \<subseteq> set xs"
    unfolding as_sorted_unique_def s(2)[symmetric] by (rule std_unique_set)
  show "z \<in> set xs \<Longrightarrow> sv_contains cmp (as_sorted_unique std_sort cmp xs) z"
    unfolding as_sorted_unique_def by (rule unique_covers) (simp add: s(2))
qed

end

end
