(* ===== verification/SortedVector_Map.thy ===== *)
theory SortedVector_Map
  imports SortedVector_Correct
begin

text \<open>
  The set and the map over a linear order (\<^verbatim>\<open>std::less\<close>, the default \<^verbatim>\<open>Compare\<close>): interpretations of the
  comparison locales, runs of operations as a state machine, and the properties of both containers.
\<close>

section \<open>Entries ordered by their keys\<close>

locale map_order = strict_weak cmp for cmp :: "'k \<Rightarrow> 'k \<Rightarrow> bool"

sublocale map_order \<subseteq> val: strict_weak "value_compare cmp"
  by unfold_locales (auto simp: value_compare_def irrefl dest: trans negtrans)

context map_order
begin

lemma svm_lower_bound_eq: "svm_lower_bound cmp xs k = svs_lower_bound (value_compare cmp) xs (k, v)"
  by (simp add: svm_lower_bound_def svs_lower_bound_def value_compare_def)

lemma svm_find_eq: "svm_find cmp xs k = svs_find (value_compare cmp) xs (k, v)"
  by (simp add: svm_find_def svs_find_def svm_lower_bound_eq[of _ _ v])
     (simp add: Let_def value_compare_def)

lemma svm_insert_eq: "svm_insert cmp = svs_insert (value_compare cmp)"
  by (intro ext) (simp add: svm_insert_def svs_insert_def Let_def
      svm_lower_bound_eq[of _ "fst v" "snd v" for v])

lemma svm_erase_eq: "svm_erase_key cmp xs k = svs_erase_key (value_compare cmp) xs (k, v)"
  by (simp add: svm_erase_key_def svs_erase_key_def svm_find_eq[of _ _ v] Let_def)

lemma svm_hint_is_insert:
  "sorted_wrt (value_compare cmp) xs \<Longrightarrow> hint \<le> length xs \<Longrightarrow>
   snd (svm_insert_hint cmp xs hint e) = snd (svm_insert cmp xs e)"
  by (simp add: svm_insert_hint_def svm_insert_eq val.hint_is_insert)

lemma svm_hint_position:
  "sorted_wrt (value_compare cmp) xs \<Longrightarrow> hint \<le> length xs \<Longrightarrow>
   points_to (value_compare cmp) e (svm_insert_hint cmp xs hint e)"
  by (simp add: svm_insert_hint_def svm_insert_eq val.hint_position)

lemma svm_index_container:
  assumes "sorted_wrt (value_compare cmp) xs"
  shows "snd (svm_index cmp dflt xs k) = snd (svm_insert cmp xs (k, dflt))"
  using assms svm_hint_is_insert[OF assms val.lower_bound_le, of "(k, dflt)" "(k, dflt)"]
  by (auto simp: svm_index_def svm_lower_bound_eq[of _ _ dflt] Let_def svm_insert_eq svs_insert_def
      value_compare_def)

lemma svm_index_position:
  assumes "sorted_wrt (value_compare cmp) xs"
  shows "points_to (value_compare cmp) (k, dflt) (svm_index cmp dflt xs k)"
proof -
  let ?i = "svs_lower_bound (value_compare cmp) xs (k, dflt)"
  have "?i \<le> length xs" by (rule val.lower_bound_le)
  then show ?thesis
    using svm_hint_position[OF assms, of ?i "(k, dflt)"]
      val.lower_bound_after[OF assms, of "(k, dflt)" ?i]
    by (auto simp: svm_index_def svm_lower_bound_eq[of _ _ dflt] Let_def points_to_def equivalent_def
        value_compare_def)
qed

end

interpretation less: map_order "(<) :: 'a::linorder \<Rightarrow> 'a \<Rightarrow> bool"
  by unfold_locales auto

section \<open>The set over a linear order\<close>

lemma equivalent_less [simp]: "equivalent (<) a b \<longleftrightarrow> a = (b::'a::linorder)"
  by (auto simp: equivalent_def)

lemma contains_less [simp]: "sv_contains (<) xs a \<longleftrightarrow> (a::'a::linorder) \<in> set xs"
  by (auto simp: sv_contains_def)

lemma sorted_less_eq: "sorted_wrt (<) xs \<Longrightarrow> xs = sorted_list_of_set (set (xs::'a::linorder list))"
  by (simp add: strict_sorted_iff sorted_list_of_set.idem_if_sorted_distinct)

datatype 'a set_op =
    S_insert 'a
  | S_insert_hint nat 'a
  | S_insert_range "'a list"
  | S_erase 'a
  | S_clear

fun set_step :: "('a list \<Rightarrow> 'a list) \<Rightarrow> ('a \<Rightarrow> 'a \<Rightarrow> bool) \<Rightarrow> 'a set_op \<Rightarrow> 'a list \<Rightarrow> 'a list res" where
  "set_step std_sort cmp (S_insert v) cont = Inr (snd (svs_insert cmp cont v))"
| "set_step std_sort cmp (S_insert_hint hint v) cont =
     (if hint \<le> length cont then Inr (snd (svs_insert_hint cmp cont hint v)) else Inl Undefined)"
| "set_step std_sort cmp (S_insert_range vs) cont = Inr (svs_insert_range std_sort cmp cont vs)"
| "set_step std_sort cmp (S_erase k) cont = Inr (snd (svs_erase_key cmp cont k))"
| "set_step std_sort cmp S_clear cont = Inr (svs_clear cont)"

fun set_run :: "('a list \<Rightarrow> 'a list) \<Rightarrow> ('a \<Rightarrow> 'a \<Rightarrow> bool) \<Rightarrow> 'a set_op list \<Rightarrow> 'a list \<Rightarrow> 'a list res" where
  "set_run std_sort cmp [] cont = Inr cont"
| "set_run std_sort cmp (p # ps) cont = bindE (set_step std_sort cmp p cont) (set_run std_sort cmp ps)"

fun set_spec :: "'a set_op \<Rightarrow> 'a set \<Rightarrow> 'a set" where
  "set_spec (S_insert v) A = insert v A"
| "set_spec (S_insert_hint hint v) A = insert v A"
| "set_spec (S_insert_range vs) A = A \<union> set vs"
| "set_spec (S_erase k) A = A - {k}"
| "set_spec S_clear A = {}"

fun set_op_ok :: "'a set_op \<Rightarrow> 'a set \<Rightarrow> bool" where
  "set_op_ok (S_insert_hint hint v) A = (hint \<le> card A)"
| "set_op_ok _ A = True"

fun set_run_ok :: "'a set_op list \<Rightarrow> 'a set \<Rightarrow> bool" where
  "set_run_ok [] A = True"
| "set_run_ok (p # ps) A = (set_op_ok p A \<and> set_run_ok ps (set_spec p A))"

lemma length_sorted_less: "sorted_wrt (<) xs \<Longrightarrow> length xs = card (set (xs::'a::linorder list))"
  by (simp add: strict_sorted_iff distinct_card)

lemma set_step_sim:
  assumes "is_std_sort (<) std_sort" "sorted_wrt (<) cont" "set_op_ok p (set cont)"
  shows "\<exists>cont'. set_step std_sort (<) p cont = Inr cont' \<and> sorted_wrt (<) cont' \<and>
    set cont' = set_spec p (set (cont :: 'a::linorder list))"
  using assms(2,3)
proof (cases p)
  case (S_insert_range vs)
  show ?thesis
    using less.bulk_insert_correct[OF assms(1,2), of vs]
    by (auto simp: S_insert_range svs_insert_range_def)
qed (auto simp: less.insert_sorted less.insert_set less.erase_key svs_insert_hint_def
      less.hint_is_insert length_sorted_less svs_clear_def)

lemma set_run_sim:
  assumes "is_std_sort (<) std_sort"
  shows "sorted_wrt (<) cont \<Longrightarrow> set_run_ok ps (set cont) \<Longrightarrow>
    set_run std_sort (<) ps cont =
      Inr (sorted_list_of_set (fold set_spec ps (set (cont :: 'a::linorder list))))"
proof (induction ps arbitrary: cont)
  case Nil
  then show ?case by (simp add: sorted_less_eq[symmetric])
next
  case (Cons p ps)
  obtain cont' where "set_step std_sort (<) p cont = Inr cont'" "sorted_wrt (<) cont'"
    "set cont' = set_spec p (set cont)"
    using set_step_sim[OF assms Cons.prems(1), of p] Cons.prems(2) by auto
  then show ?case using Cons.IH[of cont'] Cons.prems(2) by simp
qed

section \<open>The map over a linear order\<close>

text \<open>\<open>M_set k v\<close> is the statement \<^verbatim>\<open>m[k] = v\<close>: \<^verbatim>\<open>operator[]\<close>, then a store through the reference.\<close>

datatype ('k, 'v) map_op =
    M_insert 'k 'v
  | M_insert_hint nat 'k 'v
  | M_set 'k 'v
  | M_erase 'k
  | M_clear

definition svm_store :: "nat \<times> ('k \<times> 'v) list \<Rightarrow> 'v \<Rightarrow> ('k \<times> 'v) list" where
  "svm_store r v = (snd r)[fst r := (fst (snd r ! fst r), v)]"

fun map_step :: "('k \<Rightarrow> 'k \<Rightarrow> bool) \<Rightarrow> 'v \<Rightarrow> ('k, 'v) map_op \<Rightarrow> ('k \<times> 'v) list \<Rightarrow> ('k \<times> 'v) list res" where
  "map_step cmp dflt (M_insert k v) cont = Inr (snd (svm_insert cmp cont (k, v)))"
| "map_step cmp dflt (M_insert_hint hint k v) cont =
     (if hint \<le> length cont then Inr (snd (svm_insert_hint cmp cont hint (k, v))) else Inl Undefined)"
| "map_step cmp dflt (M_set k v) cont = Inr (svm_store (svm_index cmp dflt cont k) v)"
| "map_step cmp dflt (M_erase k) cont = Inr (snd (svm_erase_key cmp cont k))"
| "map_step cmp dflt M_clear cont = Inr (svm_clear cont)"

fun map_run :: "('k \<Rightarrow> 'k \<Rightarrow> bool) \<Rightarrow> 'v \<Rightarrow> ('k, 'v) map_op list \<Rightarrow> ('k \<times> 'v) list \<Rightarrow> ('k \<times> 'v) list res" where
  "map_run cmp dflt [] cont = Inr cont"
| "map_run cmp dflt (p # ps) cont = bindE (map_step cmp dflt p cont) (map_run cmp dflt ps)"

fun map_spec :: "('k, 'v) map_op \<Rightarrow> ('k \<rightharpoonup> 'v) \<Rightarrow> ('k \<rightharpoonup> 'v)" where
  "map_spec (M_insert k v) m = (if k \<in> dom m then m else m(k \<mapsto> v))"
| "map_spec (M_insert_hint hint k v) m = (if k \<in> dom m then m else m(k \<mapsto> v))"
| "map_spec (M_set k v) m = m(k \<mapsto> v)"
| "map_spec (M_erase k) m = m(k := None)"
| "map_spec M_clear m = Map.empty"

fun map_op_ok :: "('k, 'v) map_op \<Rightarrow> ('k \<rightharpoonup> 'v) \<Rightarrow> bool" where
  "map_op_ok (M_insert_hint hint k v) m = (hint \<le> card (dom m))"
| "map_op_ok _ m = True"

fun map_run_ok :: "('k, 'v) map_op list \<Rightarrow> ('k \<rightharpoonup> 'v) \<Rightarrow> bool" where
  "map_run_ok [] m = True"
| "map_run_ok (p # ps) m = (map_op_ok p m \<and> map_run_ok ps (map_spec p m))"

abbreviation entry_sorted :: "('k::linorder \<times> 'v) list \<Rightarrow> bool" where
  "entry_sorted \<equiv> sorted_wrt (value_compare (<))"

lemma equivalent_entry [simp]:
  "equivalent (value_compare (<)) a b \<longleftrightarrow> fst a = (fst b::'k::linorder)"
  by (auto simp: equivalent_def value_compare_def)

lemma contains_entry [simp]:
  "sv_contains (value_compare (<)) xs e \<longleftrightarrow> (fst e::'k::linorder) \<in> dom (map_of xs)"
  unfolding sv_contains_def dom_map_of_conv_image_fst equivalent_entry by (metis image_iff)

lemma entry_sorted_keys: "entry_sorted xs \<longleftrightarrow> sorted_wrt (<) (map fst xs)"
  by (simp add: sorted_wrt_map value_compare_def[abs_def])

lemma entry_sorted_distinct: "entry_sorted xs \<Longrightarrow> distinct (map fst xs)"
  by (simp add: entry_sorted_keys strict_sorted_iff)

lemma map_of_entry: "entry_sorted xs \<Longrightarrow> map_of xs k = Some v \<longleftrightarrow> (k, v) \<in> set xs"
  by (simp add: entry_sorted_distinct)

lemma map_of_by_entries:
  assumes "entry_sorted xs" "\<And>k v. (k, v) \<in> set xs \<longleftrightarrow> m k = Some v"
  shows "map_of xs = m"
  using assms(2) by (metis assms(1) map_of_entry map_le_def not_None_eq option.exhaust ext)

lemma length_entry_sorted: "entry_sorted xs \<Longrightarrow> length xs = card (dom (map_of xs))"
  by (metis entry_sorted_distinct dom_map_of_conv_image_fst distinct_card length_map list.set_map)

lemma svm_insert_sorted: "entry_sorted xs \<Longrightarrow> entry_sorted (snd (svm_insert (<) xs e))"
  by (simp add: less.svm_insert_eq less.val.insert_sorted)

lemma map_of_svm_insert:
  assumes "entry_sorted xs"
  shows "map_of (snd (svm_insert (<) xs (k, v))) = (if k \<in> dom (map_of xs) then map_of xs else (map_of xs)(k \<mapsto> v))"
  using assms less.val.insert_sorted[OF assms, of "(k, v)"] less.val.insert_set[OF assms, of "(k, v)"]
  by (intro map_of_by_entries) (auto simp: less.svm_insert_eq map_of_entry domIff)

lemma map_of_svm_erase:
  assumes "entry_sorted xs"
  shows "map_of (snd (svm_erase_key (<) xs k)) = (map_of xs)(k := None)"
  using assms less.val.erase_key[OF assms, of "(k, undefined)"]
  by (intro map_of_by_entries) (auto simp: less.svm_erase_eq[of _ _ undefined] map_of_entry)

lemma map_of_list_update:
  "distinct (map fst ys) \<Longrightarrow> i < length ys \<Longrightarrow> fst (ys ! i) = k \<Longrightarrow>
   map_of (ys[i := (k, v)]) = (map_of ys)(k \<mapsto> v)"
proof (induction ys arbitrary: i)
  case (Cons y ys)
  then show ?case
  proof (cases i)
    case (Suc j)
    then have "k \<in> fst ` set ys" using Cons.prems nth_mem[of j ys] by auto
    then have "k \<noteq> fst y" using Cons.prems(1) unfolding list.map distinct.simps set_map by blast
    then show ?thesis using Suc Cons by (cases y) (auto simp: fun_upd_twist)
  qed (cases y; auto simp: fun_eq_iff)
qed simp

lemma svm_store_index:
  assumes "entry_sorted xs"
  shows "entry_sorted (svm_store (svm_index (<) d xs k) v)"
    and "map_of (svm_store (svm_index (<) d xs k) v) = (map_of xs)(k \<mapsto> v)"
proof -
  obtain i ys where r: "svm_index (<) d xs k = (i, ys)" by (metis surj_pair)
  have ys: "ys = snd (svm_insert (<) xs (k, d))"
    using less.svm_index_container[OF assms, of d k] r by simp
  have i: "i < length ys" "fst (ys ! i) = k"
    using less.svm_index_position[OF assms, of k d] r by (simp_all add: points_to_def)
  have s: "entry_sorted ys"
    using less.val.insert_sorted[OF assms] by (simp add: ys less.svm_insert_eq)
  have keys: "map fst (ys[i := (k, v)]) = map fst ys"
    using i by (simp add: map_update list_update_same_conv)
  then show e: "entry_sorted (svm_store (svm_index (<) d xs k) v)"
    using s i by (simp add: r svm_store_def entry_sorted_keys)
  show "map_of (svm_store (svm_index (<) d xs k) v) = (map_of xs)(k \<mapsto> v)"
    using map_of_list_update[OF entry_sorted_distinct[OF s] i] map_of_svm_insert[OF assms, of k d] i
    by (auto simp: r svm_store_def ys)
qed

lemma svm_at_correct:
  assumes "entry_sorted xs"
  shows "svm_at (<) xs k = (case map_of xs k of None \<Rightarrow> Inl Out_of_range | Some v \<Rightarrow> Inr v)"
proof -
  let ?i = "svs_find (value_compare (<)) xs (k, undefined)"
  have f: "?i < length xs \<longleftrightarrow> k \<in> dom (map_of xs)" and n: "k \<notin> dom (map_of xs) \<Longrightarrow> ?i = length xs"
    using less.val.find_hit(1)[OF assms, of "(k, undefined)"] less.val.find_eq[OF assms, of "(k, undefined)"] by simp_all
  have "map_of xs k = Some (snd (xs ! ?i))" if "?i < length xs"
    using that f less.val.find_hit(2)[OF assms, of "(k, undefined)"] nth_mem[OF that]
    unfolding map_of_entry[OF assms] by (cases "xs ! ?i") simp
  then show ?thesis using f n
    by (cases "?i < length xs")
       (auto simp: svm_at_def less.svm_find_eq[of _ _ undefined] Let_def domIff)
qed

lemma map_step_sim:
  assumes "entry_sorted cont" "map_op_ok p (map_of cont)"
  shows "\<exists>cont'. map_step (<) dflt p cont = Inr cont' \<and> entry_sorted cont' \<and>
    map_of cont' = map_spec p (map_of cont)"
  using assms
proof (cases p)
  case (M_erase k)
  then show ?thesis using assms map_of_svm_erase less.val.erase_key(1)[OF assms(1), of "(k, undefined)"]
    by (simp add: less.svm_erase_eq[of _ _ undefined])
next
  case (M_set k v)
  then show ?thesis using svm_store_index[OF assms(1)] by simp
qed (auto simp: map_of_svm_insert less.svm_hint_is_insert length_entry_sorted svm_clear_def
      svm_insert_sorted)

lemma map_run_sim:
  "entry_sorted cont \<Longrightarrow> map_run_ok ps (map_of cont) \<Longrightarrow>
    \<exists>cont'. map_run (<) dflt ps cont = Inr cont' \<and> entry_sorted cont' \<and>
      map_of cont' = fold map_spec ps (map_of cont)"
proof (induction ps arbitrary: cont)
  case (Cons p ps)
  obtain c where "map_step (<) dflt p cont = Inr c" "entry_sorted c" "map_of c = map_spec p (map_of cont)"
    using map_step_sim[OF Cons.prems(1), of p] Cons.prems(2) by auto
  then show ?case using Cons.IH[of c] Cons.prems(2) by simp
qed simp

section \<open>Properties\<close>

lemma is_std_sort_sort: "is_std_sort (<) (sort :: 'a::linorder list \<Rightarrow> 'a list)"
  unfolding is_std_sort_def not_less using sorted_sort by auto

lemma strict_weak_less: "strict_weak ((<) :: 'a::linorder \<Rightarrow> 'a \<Rightarrow> bool)"
  by (rule less.strict_weak_axioms)

text \<open>
  C5. A \<^verbatim>\<open>sorted_vector_set\<close> is a finite set.  Whatever sequence of inserts (plain, at a hint within the
  container, of a whole range), erases and clears is run on an empty set, the run succeeds and its
  vector is the strictly increasing enumeration of the set that the same operations build
  mathematically; only the documented contract of \<^verbatim>\<open>std::sort\<close> is assumed.
\<close>

theorem svs_run_correct:
  assumes "is_std_sort (<) std_sort"
    and "set_run_ok ps {}"
  shows "set_run std_sort (<) ps svs_empty = Inr (sorted_list_of_set (fold set_spec ps ({} :: 'a::linorder set)))"
  using set_run_sim[OF assms(1), of "[]" ps] assms(2) by (simp add: svs_empty_def)

theorem svs_run_correct_witness:
  "set_run sort (<) [S_insert (5::int), S_insert_range [9, 1, 5, 1], S_insert_hint 0 3, S_erase 9] svs_empty
   = Inr [1, 3, 5]"
proof -
  let ?ps = "[S_insert (5::int), S_insert_range [9, 1, 5, 1], S_insert_hint 0 3, S_erase 9]"
  have "set_run_ok ?ps {}" by simp
  moreover have "fold set_spec ?ps {} = set [1, 3, 5]" by auto
  ultimately show ?thesis using svs_run_correct[OF is_std_sort_sort, of ?ps] by simp
qed

text \<open>
  \<^verbatim>\<open>insert(value)\<close> and \<^verbatim>\<open>insert(hint, value)\<close> for any strict weak order: the vector stays strictly
  sorted, an element is added exactly when no equivalent one is present (and the returned flag says
  so), the returned iterator points to an element equivalent to the value, and no hint inside the
  container, good or bad, changes the resulting vector.
\<close>

lemma svs_insert_correct:
  assumes "strict_weak cmp"
    and "sorted_wrt cmp cont"
    and "hint \<le> length cont"
  shows "sorted_wrt cmp (snd (svs_insert cmp cont v))
    \<and> set (snd (svs_insert cmp cont v)) = (if sv_contains cmp cont v then set cont else insert v (set cont))
    \<and> fst (svs_insert cmp cont v) = (svs_lower_bound cmp cont v, \<not> sv_contains cmp cont v)
    \<and> snd (svs_insert_hint cmp cont hint v) = snd (svs_insert cmp cont v)
    \<and> points_to cmp v (svs_insert_hint cmp cont hint v)"
  using strict_weak.insert_sorted[OF assms(1,2)] strict_weak.insert_set[OF assms(1,2)]
    strict_weak.insert_result[OF assms(1,2)] strict_weak.hint_is_insert[OF assms]
    strict_weak.hint_position[OF assms]
  by (simp add: svs_insert_hint_def)

text \<open>
  \<^verbatim>\<open>insert(first, last)\<close> (\<^verbatim>\<open>bulk_insert\<close>) for any strict weak order: whether or not the range is sorted,
  overlaps the container or repeats elements, the vector ends strictly sorted, keeps every element it
  had (an element of the range never replaces an equivalent one), holds nothing else than old and new
  elements, and contains every element of the range up to equivalence.
\<close>

lemma svs_bulk_insert_correct:
  assumes "strict_weak cmp"
    and "is_std_sort cmp std_sort"
    and "sorted_wrt cmp cont"
  shows "sorted_wrt cmp (svs_insert_range std_sort cmp cont new)
    \<and> set cont \<subseteq> set (svs_insert_range std_sort cmp cont new)
    \<and> set (svs_insert_range std_sort cmp cont new) \<subseteq> set cont \<union> set new
    \<and> (\<forall>z \<in> set new. sv_contains cmp (svs_insert_range std_sort cmp cont new) z)"
  unfolding svs_insert_range_def using strict_weak.bulk_insert_correct[OF assms, of new] by blast

text \<open>
  Lookup and erase for any strict weak order: \<^verbatim>\<open>lower_bound\<close> and \<^verbatim>\<open>upper_bound\<close> split the vector into
  the smaller, the equivalent and the larger elements, \<^verbatim>\<open>find\<close> is \<^verbatim>\<open>end()\<close> exactly when no element is
  equivalent to the key and otherwise points to one, \<^verbatim>\<open>count\<close> agrees, and \<^verbatim>\<open>erase(key)\<close> removes exactly
  the equivalent element, returns how many it removed, and keeps the vector sorted.
\<close>

lemma svs_lookup_correct:
  assumes "strict_weak cmp"
    and "sorted_wrt cmp cont"
  shows "(\<forall>i < length cont. (cmp (cont ! i) k \<longleftrightarrow> i < fst (svs_equal_range cmp cont k))
                          \<and> (cmp k (cont ! i) \<longleftrightarrow> snd (svs_equal_range cmp cont k) \<le> i))
    \<and> (if sv_contains cmp cont k
        then svs_find cmp cont k < length cont \<and> equivalent cmp (cont ! svs_find cmp cont k) k
        else svs_find cmp cont k = length cont)
    \<and> svs_count cmp cont k = (if sv_contains cmp cont k then 1 else 0)
    \<and> sorted_wrt cmp (snd (svs_erase_key cmp cont k))
    \<and> set (snd (svs_erase_key cmp cont k)) = {x \<in> set cont. \<not> equivalent cmp x k}
    \<and> fst (svs_erase_key cmp cont k) = svs_count cmp cont k"
proof -
  have find: "if sv_contains cmp cont k
        then svs_find cmp cont k < length cont \<and> equivalent cmp (cont ! svs_find cmp cont k) k
        else svs_find cmp cont k = length cont"
    using strict_weak.find_hit[OF assms, of k] strict_weak.find_eq[OF assms, of k]
    by (cases "sv_contains cmp cont k") simp_all
  have range: "\<forall>i < length cont. (cmp (cont ! i) k \<longleftrightarrow> i < fst (svs_equal_range cmp cont k))
                          \<and> (cmp k (cont ! i) \<longleftrightarrow> snd (svs_equal_range cmp cont k) \<le> i)"
    unfolding svs_equal_range_def fst_conv snd_conv
    using strict_weak.lower_bound_before[OF assms(1)] strict_weak.lower_bound_after[OF assms]
      strict_weak.upper_bound_before[OF assms(1)] strict_weak.upper_bound_after[OF assms]
    by (meson not_le)
  show ?thesis
    using find strict_weak.erase_key[OF assms, of k]
    by (intro conjI range) (simp_all add: svs_count_def split: if_splits)
qed

text \<open>
  Construction from a prefilled container: sorting and dropping duplicates always satisfies the
  assertion of the \<^verbatim>\<open>sorted_unique_t\<close> constructor it delegates to, so the constructor never aborts, and
  the set holds exactly the given elements up to equivalence; a container handed over as sorted and
  unique is accepted exactly when it is.
\<close>

lemma svs_of_container_correct:
  assumes "strict_weak cmp"
    and "is_std_sort cmp std_sort"
  shows "svs_of_container std_sort cmp xs = Inr (as_sorted_unique std_sort cmp xs)
    \<and> sorted_wrt cmp (as_sorted_unique std_sort cmp xs)
    \<and> set (as_sorted_unique std_sort cmp xs) \<subseteq> set xs
    \<and> (\<forall>z \<in> set xs. sv_contains cmp (as_sorted_unique std_sort cmp xs) z)
    \<and> svs_of_sorted_unique cmp ys = (if sorted_wrt cmp ys then Inr ys else Inl Terminate)"
  using strict_weak.as_sorted_unique_correct[OF assms] strict_weak.is_sorted_unique_iff[OF assms(1)]
  by (simp add: svs_of_container_def svs_of_sorted_unique_def)

text \<open>
  C6. A \<^verbatim>\<open>sorted_vector_map\<close> is a finite map.  After any sequence of inserts (plain or at a hint inside
  the container), \<^verbatim>\<open>m[k] = v\<close> statements, erases and clears on an empty map, the vector is strictly
  sorted by key and read as a map it is what the operations mean (an insert never overwrites,
  \<^verbatim>\<open>operator[]\<close> creates or overwrites); \<^verbatim>\<open>at\<close> then returns the value of every key of the map and throws
  \<^verbatim>\<open>out_of_range\<close> on every other, and \<^verbatim>\<open>count\<close> tells the two apart.
\<close>

theorem svm_run_correct:
  assumes "map_run_ok ps Map.empty"
  shows "\<exists>cont. map_run (<) dflt ps [] = Inr cont
    \<and> sorted_wrt (<) (map fst cont)
    \<and> map_of cont = fold map_spec ps (Map.empty :: 'k::linorder \<rightharpoonup> 'v)
    \<and> (\<forall>k. svm_at (<) cont k = (case fold map_spec ps Map.empty k of
             None \<Rightarrow> Inl Out_of_range | Some v \<Rightarrow> Inr v))
    \<and> (\<forall>k. svm_count (<) cont k = (if k \<in> dom (fold map_spec ps Map.empty) then 1 else 0))"
proof -
  obtain cont where c: "map_run (<) dflt ps [] = Inr cont" "entry_sorted cont"
    "map_of cont = fold map_spec ps Map.empty"
    using map_run_sim[of "[]" ps dflt] assms by auto
  have "svm_count (<) cont k = (if k \<in> dom (map_of cont) then 1 else 0)" for k
    using less.val.find_hit(1)[OF c(2), of "(k, undefined)"] less.val.find_eq[OF c(2), of "(k, undefined)"]
    by (simp add: svm_count_def less.svm_find_eq[of _ _ undefined] split: if_splits)
  then show ?thesis
    using c svm_at_correct[OF c(2)] by (intro exI[of _ cont]) (simp add: entry_sorted_keys)
qed

theorem svm_run_correct_witness:
  "\<exists>cont. map_run (<) 0 [M_insert (5::int) (10::int), M_set 2 20, M_insert_hint 1 5 30, M_erase 2, M_set 7 40] []
     = Inr cont \<and> svm_at (<) cont 5 = Inr 10 \<and> svm_at (<) cont 7 = Inr 40 \<and> svm_at (<) cont 2 = Inl Out_of_range"
proof -
  let ?ps = "[M_insert (5::int) (10::int), M_set 2 20, M_insert_hint 1 5 30, M_erase 2, M_set 7 40]"
  have "map_run_ok ?ps Map.empty" by simp
  moreover have "fold map_spec ?ps Map.empty = [5 \<mapsto> 10, 7 \<mapsto> 40]" by auto
  ultimately obtain cont where "map_run (<) 0 ?ps [] = Inr cont"
    "\<forall>k. svm_at (<) cont k = (case [5 \<mapsto> 10, 7 \<mapsto> 40] k of None \<Rightarrow> Inl Out_of_range | Some v \<Rightarrow> Inr v)"
    using svm_run_correct[of ?ps 0] by metis
  then show ?thesis by (intro exI[of _ cont]) simp
qed

end
