(* ===== verification/ProducerConsumerQueue.thy ===== *)
theory ProducerConsumerQueue
  imports Prelude
begin

text \<open>
  \<^verbatim>\<open>folly/ProducerConsumerQueue.h\<close>: the bounded queue of one producer and one consumer thread, a ring of
  \<^verbatim>\<open>size_\<close> slots of raw memory of which the ones from \<^verbatim>\<open>readIndex_\<close> up to \<^verbatim>\<open>writeIndex_\<close> hold a constructed
  object.  A slot is \<open>None\<close> while it is raw memory; constructing over a live object, and moving from
  or destroying raw memory, are \<open>Undefined\<close>, as is an access outside the ring.  Indices are
  \<^verbatim>\<open>unsigned int\<close>: increments are taken modulo \<open>2 ^ 32\<close>.

  The methods are given twice: as functions on the queue, which is how either thread sees them when
  the other is idle, and cut at the accesses to the two shared atomic indices, which is how they
  interleave (\<open>pcq_step\<close>; the acquire and release pairs of the code make the two indices and the
  slots they publish sequentially consistent between the two threads).
\<close>

section \<open>State\<close>

record 'a pcq =
  pcq_size :: nat
  pcq_records :: "'a option list"
  pcq_readIndex :: nat
  pcq_writeIndex :: nat

definition next_record :: "'a pcq \<Rightarrow> nat \<Rightarrow> nat" where
  "next_record q i = (let n = (i + 1) mod 2 ^ 32 in if n = pcq_size q then 0 else n)"

definition construct_at :: "'a option list \<Rightarrow> nat \<Rightarrow> 'a \<Rightarrow> 'a option list res" where
  "construct_at recs i v =
     bindE (rd recs i) (\<lambda>slot. case slot of None \<Rightarrow> wr recs i (Some v) | Some _ \<Rightarrow> Inl Undefined)"

definition object_at :: "'a option list \<Rightarrow> nat \<Rightarrow> 'a res" where
  "object_at recs i =
     bindE (rd recs i) (\<lambda>slot. case slot of None \<Rightarrow> Inl Undefined | Some v \<Rightarrow> Inr v)"

definition destroy_at :: "'a option list \<Rightarrow> nat \<Rightarrow> 'a option list res" where
  "destroy_at recs i = bindE (object_at recs i) (\<lambda>_. wr recs i None)"

section \<open>Methods\<close>

text \<open>\<open>alloc_ok\<close> is whether \<^verbatim>\<open>std::malloc\<close> returned memory.\<close>

definition pcq_new :: "bool \<Rightarrow> nat \<Rightarrow> 'a pcq res" where
  "pcq_new alloc_ok sz =
     (if \<not> 2 \<le> sz then Inl Terminate
      else if \<not> alloc_ok then Inl Bad_alloc
      else Inr \<lparr>pcq_size = sz, pcq_records = replicate sz None, pcq_readIndex = 0, pcq_writeIndex = 0\<rparr>)"

definition pcq_write :: "'a pcq \<Rightarrow> 'a \<Rightarrow> (bool \<times> 'a pcq) res" where
  "pcq_write q v =
     (let currentWrite = pcq_writeIndex q; nextRecord = next_record q currentWrite in
      if nextRecord \<noteq> pcq_readIndex q
      then bindE (construct_at (pcq_records q) currentWrite v) (\<lambda>recs.
           Inr (True, q\<lparr>pcq_records := recs, pcq_writeIndex := nextRecord\<rparr>))
      else Inr (False, q))"

definition pcq_read :: "'a pcq \<Rightarrow> ('a option \<times> 'a pcq) res" where
  "pcq_read q =
     (let currentRead = pcq_readIndex q in
      if currentRead = pcq_writeIndex q then Inr (None, q)
      else let nextRecord = next_record q currentRead in
           bindE (object_at (pcq_records q) currentRead) (\<lambda>record.
           bindE (destroy_at (pcq_records q) currentRead) (\<lambda>recs.
           Inr (Some record, q\<lparr>pcq_records := recs, pcq_readIndex := nextRecord\<rparr>))))"

definition pcq_frontPtr :: "'a pcq \<Rightarrow> nat option" where
  "pcq_frontPtr q =
     (let currentRead = pcq_readIndex q in
      if currentRead = pcq_writeIndex q then None else Some currentRead)"

definition pcq_popFront :: "'a pcq \<Rightarrow> 'a pcq res" where
  "pcq_popFront q =
     (let currentRead = pcq_readIndex q in
      if \<not> currentRead \<noteq> pcq_writeIndex q then Inl Terminate
      else let nextRecord = next_record q currentRead in
           bindE (destroy_at (pcq_records q) currentRead) (\<lambda>recs.
           Inr (q\<lparr>pcq_records := recs, pcq_readIndex := nextRecord\<rparr>)))"

definition pcq_isEmpty :: "'a pcq \<Rightarrow> bool" where
  "pcq_isEmpty q = (pcq_readIndex q = pcq_writeIndex q)"

definition pcq_isFull :: "'a pcq \<Rightarrow> bool" where
  "pcq_isFull q = (if next_record q (pcq_writeIndex q) \<noteq> pcq_readIndex q then False else True)"

text \<open>
  \<^verbatim>\<open>sizeGuess\<close>: the difference of the unsigned indices is converted to \<^verbatim>\<open>int\<close>, corrected by \<^verbatim>\<open>size_\<close>
  when negative, and converted to \<^verbatim>\<open>size_t\<close>.
\<close>

definition pcq_sizeGuess :: "'a pcq \<Rightarrow> nat" where
  "pcq_sizeGuess q =
     (let ret = (of_nat (pcq_writeIndex q) - of_nat (pcq_readIndex q) :: 32 word);
          ret' = (if sint ret < 0 then ret + of_nat (pcq_size q) else ret)
      in unat (word_of_int (sint ret') :: 64 word))"

definition pcq_capacity :: "'a pcq \<Rightarrow> nat" where
  "pcq_capacity q = (pcq_size q - 1) mod 2 ^ 32"

text \<open>The destructor's loop; \<open>None\<close> when the fuel runs out before it reaches \<^verbatim>\<open>endIndex\<close>.\<close>

fun pcq_destroy_loop :: "nat \<Rightarrow> 'a pcq \<Rightarrow> 'a option list \<Rightarrow> nat \<Rightarrow> 'a option list res option" where
  "pcq_destroy_loop fuel q recs readIndex =
     (if readIndex = pcq_writeIndex q then Some (Inr recs)
      else case fuel of
        0 \<Rightarrow> None
      | Suc fuel' \<Rightarrow>
          (case destroy_at recs readIndex of
             Inl e \<Rightarrow> Some (Inl e)
           | Inr recs' \<Rightarrow>
               pcq_destroy_loop fuel' q recs'
                 (if readIndex + 1 = pcq_size q then 0 else readIndex + 1)))"

declare pcq_destroy_loop.simps [simp del]

definition pcq_destruct :: "'a pcq \<Rightarrow> 'a option list res option" where
  "pcq_destruct q = pcq_destroy_loop (pcq_size q) q (pcq_records q) (pcq_readIndex q)"

section \<open>The methods cut at the shared accesses\<close>

datatype 'a producer =
    P_idle
  | P_loaded 'a nat
  | P_free 'a nat
  | P_built 'a nat

datatype 'a consumer =
    C_idle
  | C_loaded nat
  | C_nonempty nat
  | C_moved nat 'a
  | C_destroyed nat 'a

text \<open>
  One step of \<^verbatim>\<open>write(v)\<close>: the relaxed load of \<^verbatim>\<open>writeIndex_\<close>, the acquire load of \<^verbatim>\<open>readIndex_\<close> with the test,
  the construction, and the release store, which commits \<open>v\<close>.
\<close>

fun producer_step :: "'a \<Rightarrow> 'a pcq \<Rightarrow> 'a producer \<Rightarrow> ('a pcq \<times> 'a producer \<times> 'a list) res" where
  "producer_step v q P_idle = Inr (q, P_loaded v (pcq_writeIndex q), [])"
| "producer_step _ q (P_loaded v cw) =
     (if next_record q cw \<noteq> pcq_readIndex q then Inr (q, P_free v cw, []) else Inr (q, P_idle, []))"
| "producer_step _ q (P_free v cw) =
     bindE (construct_at (pcq_records q) cw v) (\<lambda>recs. Inr (q\<lparr>pcq_records := recs\<rparr>, P_built v cw, []))"
| "producer_step _ q (P_built v cw) = Inr (q\<lparr>pcq_writeIndex := next_record q cw\<rparr>, P_idle, [v])"

text \<open>
  One step of \<^verbatim>\<open>read(record)\<close>: the relaxed load of \<^verbatim>\<open>readIndex_\<close>, the acquire load of \<^verbatim>\<open>writeIndex_\<close> with
  the test, the move, the destruction, and the release store, which hands the record over.
\<close>

fun consumer_step :: "'a pcq \<Rightarrow> 'a consumer \<Rightarrow> ('a pcq \<times> 'a consumer \<times> 'a list) res" where
  "consumer_step q C_idle = Inr (q, C_loaded (pcq_readIndex q), [])"
| "consumer_step q (C_loaded cr) =
     (if cr = pcq_writeIndex q then Inr (q, C_idle, []) else Inr (q, C_nonempty cr, []))"
| "consumer_step q (C_nonempty cr) =
     bindE (object_at (pcq_records q) cr) (\<lambda>record. Inr (q, C_moved cr record, []))"
| "consumer_step q (C_moved cr record) =
     bindE (destroy_at (pcq_records q) cr) (\<lambda>recs. Inr (q\<lparr>pcq_records := recs\<rparr>, C_destroyed cr record, []))"
| "consumer_step q (C_destroyed cr record) =
     Inr (q\<lparr>pcq_readIndex := next_record q cr\<rparr>, C_idle, [record])"

record 'a pcq_system =
  sys_queue :: "'a pcq"
  sys_producer :: "'a producer"
  sys_consumer :: "'a consumer"
  sys_written :: "'a list"
  sys_read :: "'a list"

definition sys_init :: "'a pcq \<Rightarrow> 'a pcq_system" where
  "sys_init q = \<lparr>sys_queue = q, sys_producer = P_idle, sys_consumer = C_idle, sys_written = [], sys_read = []\<rparr>"

definition sys_producer_step :: "'a \<Rightarrow> 'a pcq_system \<Rightarrow> 'a pcq_system res" where
  "sys_producer_step v s =
     bindE (producer_step v (sys_queue s) (sys_producer s)) (\<lambda>(q, p, out).
     Inr (s\<lparr>sys_queue := q, sys_producer := p, sys_written := sys_written s @ out\<rparr>))"

definition sys_consumer_step :: "'a pcq_system \<Rightarrow> 'a pcq_system res" where
  "sys_consumer_step s =
     bindE (consumer_step (sys_queue s) (sys_consumer s)) (\<lambda>(q, c, out).
     Inr (s\<lparr>sys_queue := q, sys_consumer := c, sys_read := sys_read s @ out\<rparr>))"

inductive pcq_step :: "'a pcq_system \<Rightarrow> 'a pcq_system \<Rightarrow> bool" where
  produce: "sys_producer_step v s = Inr s' \<Longrightarrow> pcq_step s s'"
| consume: "sys_consumer_step s = Inr s' \<Longrightarrow> pcq_step s s'"

inductive pcq_reach :: "nat \<Rightarrow> 'a pcq_system \<Rightarrow> bool" for sz :: nat where
  start: "pcq_new True sz = Inr q \<Longrightarrow> pcq_reach sz (sys_init q)"
| step: "pcq_reach sz s \<Longrightarrow> pcq_step s s' \<Longrightarrow> pcq_reach sz s'"

text \<open>A schedule names the thread that moves next: the producer (with the value of its next \<^verbatim>\<open>write\<close>)
  or the consumer.\<close>

fun sched_run :: "'a option list \<Rightarrow> 'a pcq_system \<Rightarrow> 'a pcq_system res" where
  "sched_run [] s = Inr s"
| "sched_run (Some v # ts) s = bindE (sys_producer_step v s) (sched_run ts)"
| "sched_run (None # ts) s = bindE (sys_consumer_step s) (sched_run ts)"

end
