(* ===== verification/ProducerConsumerQueue_Correct.thy ===== *)
theory ProducerConsumerQueue_Correct
  imports ProducerConsumerQueue
begin

text \<open>
  Correctness of the producer-consumer queue: sequentially it is a bounded first-in first-out queue
  (the interface \<open>bounded_fifo\<close>, interpreted on the methods), and under every interleaving of the two
  threads the values read are, in order, the values written.
\<close>

section \<open>Rotating the ring\<close>

lemma mod_add_cancel:
  fixes i j r n :: nat
  assumes "i < n" "j < n"
  shows "(r + i) mod n = (r + j) mod n \<longleftrightarrow> i = j"
proof -
  have "rotate r [0..<n] ! i = rotate r [0..<n] ! j \<longleftrightarrow> i = j"
    using assms by (intro nth_eq_iff_index_eq) auto
  then show ?thesis using assms by (simp add: nth_rotate)
qed

lemma rotate_update:
  assumes "i < length xs"
  shows "rotate r (xs[(r + i) mod length xs := v]) = (rotate r xs)[i := v]"
proof -
  have "(r + i) mod length xs < length xs" using assms by (intro mod_less_divisor) auto
  then show ?thesis
    using assms by (intro nth_equalityI) (auto simp: nth_rotate nth_list_update mod_add_cancel)
qed

lemma rotate_next:
  assumes "r < length xs"
  shows "rotate ((r + 1) mod length xs) xs = rotate1 (rotate r xs)"
  by (metis rotate_conv_mod rotate_Suc Suc_eq_plus1)

section \<open>The ring and its contents\<close>

definition ring_shape :: "'a pcq \<Rightarrow> nat \<Rightarrow> 'a option list \<Rightarrow> bool" where
  "ring_shape q n slots \<longleftrightarrow>
     2 \<le> pcq_size q \<and> pcq_size q < 2 ^ 32 \<and> length (pcq_records q) = pcq_size q \<and>
     pcq_readIndex q < pcq_size q \<and> n < pcq_size q \<and>
     pcq_writeIndex q = (pcq_readIndex q + n) mod pcq_size q \<and>
     rotate (pcq_readIndex q) (pcq_records q) = slots"

lemma ring_shape_length: "ring_shape q n slots \<Longrightarrow> length slots = pcq_size q"
  unfolding ring_shape_def by (metis length_rotate)

lemma next_record_eq: "pcq_size q < 2 ^ 32 \<Longrightarrow> i < pcq_size q \<Longrightarrow> next_record q i = (i + 1) mod pcq_size q"
  by (simp add: next_record_def Let_def)

lemma ring_write_lt: "ring_shape q n slots \<Longrightarrow> pcq_writeIndex q < pcq_size q"
  by (auto simp: ring_shape_def)

lemma ring_next_write:
  "ring_shape q n slots \<Longrightarrow> next_record q (pcq_writeIndex q) = (pcq_readIndex q + (n + 1)) mod pcq_size q"
  using ring_write_lt[of q n slots] by (simp add: next_record_eq ring_shape_def mod_simps)

lemma ring_empty: "ring_shape q n slots \<Longrightarrow> pcq_readIndex q = pcq_writeIndex q \<longleftrightarrow> n = 0"
  using mod_add_cancel[of n "pcq_size q" 0 "pcq_readIndex q"] by (auto simp: ring_shape_def)

lemma ring_full:
  assumes "ring_shape q n slots"
  shows "next_record q (pcq_writeIndex q) = pcq_readIndex q \<longleftrightarrow> n + 1 = pcq_size q"
proof (cases "n + 1 = pcq_size q")
  case True
  then show ?thesis using assms ring_next_write[OF assms] by (simp add: ring_shape_def)
next
  case False
  then show ?thesis
    using assms ring_next_write[OF assms] mod_add_cancel[of "n + 1" "pcq_size q" 0 "pcq_readIndex q"]
    by (simp add: ring_shape_def)
qed

lemma ring_slot:
  "ring_shape q n slots \<Longrightarrow> k < pcq_size q \<Longrightarrow>
   pcq_records q ! ((pcq_readIndex q + k) mod pcq_size q) = slots ! k"
  by (auto simp: ring_shape_def nth_rotate)

lemma ring_read_slot: "ring_shape q n slots \<Longrightarrow> pcq_records q ! pcq_readIndex q = slots ! 0"
  using ring_slot[of q n slots 0] by (auto simp: ring_shape_def)

lemma ring_write_slot: "ring_shape q n slots \<Longrightarrow> pcq_records q ! pcq_writeIndex q = slots ! n"
  using ring_slot[of q n slots n] by (auto simp: ring_shape_def)

lemma ring_update_write:
  "ring_shape q n slots \<Longrightarrow>
   ring_shape (q\<lparr>pcq_records := (pcq_records q)[pcq_writeIndex q := s]\<rparr>) n (slots[n := s])"
  using rotate_update[of n "pcq_records q" "pcq_readIndex q" s] by (auto simp: ring_shape_def)

lemma ring_update_read:
  "ring_shape q n slots \<Longrightarrow>
   ring_shape (q\<lparr>pcq_records := (pcq_records q)[pcq_readIndex q := s]\<rparr>) n (slots[0 := s])"
  using rotate_update[of 0 "pcq_records q" "pcq_readIndex q" s] by (auto simp: ring_shape_def)

lemma ring_advance_write:
  "ring_shape q n slots \<Longrightarrow> n + 1 < pcq_size q \<Longrightarrow>
   ring_shape (q\<lparr>pcq_writeIndex := next_record q (pcq_writeIndex q)\<rparr>) (n + 1) slots"
  using ring_next_write[of q n slots] by (simp add: ring_shape_def)

lemma ring_advance_read:
  assumes "ring_shape q n (s # slots)" "0 < n"
  shows "ring_shape (q\<lparr>pcq_readIndex := next_record q (pcq_readIndex q)\<rparr>) (n - 1) (slots @ [s])"
proof -
  let ?r = "pcq_readIndex q" and ?N = "pcq_size q"
  have r: "?r < length (pcq_records q)" "length (pcq_records q) = ?N" "next_record q ?r = (?r + 1) mod ?N"
    using assms(1) by (auto simp: ring_shape_def next_record_eq)
  have "rotate ((?r + 1) mod ?N) (pcq_records q) = rotate1 (s # slots)"
    using rotate_next[OF r(1)] r(2) assms(1) by (simp add: ring_shape_def)
  moreover have "(?r + n) mod ?N = ((?r + 1) mod ?N + (n - 1)) mod ?N"
    using assms(2) by (cases n) (simp_all add: mod_simps)
  ultimately show ?thesis using assms r by (auto simp: ring_shape_def)
qed

section \<open>The sequential queue\<close>

definition pcq_holds :: "'a pcq \<Rightarrow> 'a list \<Rightarrow> bool" where
  "pcq_holds q xs \<longleftrightarrow> ring_shape q (length xs) (map Some xs @ replicate (pcq_size q - length xs) None)"

text \<open>The contents of a queue: the objects from the read index up to the write index.\<close>

definition pcq_contents :: "'a pcq \<Rightarrow> 'a list" where
  "pcq_contents q =
     map the (takeWhile (\<lambda>s. s \<noteq> None) (rotate (pcq_readIndex q) (pcq_records q)))"

definition pcq_inv :: "'a pcq \<Rightarrow> bool" where
  "pcq_inv q \<longleftrightarrow> pcq_holds q (pcq_contents q)"

lemma pcq_holds_contents: "pcq_holds q xs \<Longrightarrow> pcq_contents q = xs"
proof -
  assume "pcq_holds q xs"
  then have "rotate (pcq_readIndex q) (pcq_records q) = map Some xs @ replicate (pcq_size q - length xs) None"
    and n: "length xs < pcq_size q"
    by (auto simp: pcq_holds_def ring_shape_def)
  moreover have "replicate (pcq_size q - length xs) None = None # replicate (pcq_size q - length xs - 1) None"
    using n by (metis Suc_diff_1 replicate_Suc zero_less_diff)
  ultimately show ?thesis
    by (simp add: pcq_contents_def takeWhile_append comp_def)
qed

lemma pcq_holds_inv: "pcq_holds q xs \<Longrightarrow> pcq_inv q"
  by (simp add: pcq_inv_def pcq_holds_contents)

lemma pcq_holds_ring: "pcq_holds q xs \<Longrightarrow>
    ring_shape q (length xs) (map Some xs @ replicate (pcq_size q - length xs) None)"
  by (simp add: pcq_holds_def)

lemma pcq_new_holds: "2 \<le> sz \<Longrightarrow> sz < 2 ^ 32 \<Longrightarrow> \<exists>q. pcq_new True sz = Inr q \<and> pcq_holds q [] \<and> pcq_size q = sz"
  by (simp add: pcq_new_def pcq_holds_def ring_shape_def)

lemma pcq_write_holds:
  fixes q :: "'a pcq"
  assumes "pcq_holds q xs"
  shows "if length xs + 1 = pcq_size q then pcq_write q v = Inr (False, q)
         else \<exists>q'. pcq_write q v = Inr (True, q') \<and> pcq_holds q' (xs @ [v]) \<and> pcq_size q' = pcq_size q"
proof (cases "length xs + 1 = pcq_size q")
  case True
  then show ?thesis using ring_full[OF pcq_holds_ring[OF assms]] by (simp add: pcq_write_def Let_def)
next
  case False
  note ring = pcq_holds_ring[OF assms]
  let ?w = "pcq_writeIndex q" and ?q = "q\<lparr>pcq_records := (pcq_records q)[pcq_writeIndex q := Some v]\<rparr>"
  have w: "?w < length (pcq_records q)" "length xs < pcq_size q"
    using ring ring_write_lt[OF ring] by (auto simp: ring_shape_def)
  then have raw: "pcq_records q ! ?w = None" using ring_write_slot[OF ring] by (simp add: nth_append)
  have "ring_shape (?q\<lparr>pcq_writeIndex := next_record ?q (pcq_writeIndex ?q)\<rparr>) (length xs + 1)
      ((map Some xs @ replicate (pcq_size q - length xs) None)[length xs := Some v])"
    using ring_advance_write[OF ring_update_write[OF ring]] False w(2) by simp
  moreover have "replicate (pcq_size q - length xs) (None :: 'a option) =
      None # replicate (pcq_size q - length (xs @ [v])) None"
    using w(2) by (cases "pcq_size q - length xs") (auto simp: Suc_diff_Suc)
  ultimately have "pcq_holds (?q\<lparr>pcq_writeIndex := next_record q ?w\<rparr>) (xs @ [v])"
    by (simp add: pcq_holds_def next_record_def list_update_append)
  then show ?thesis
    using False w(1) raw ring_full[OF ring]
    by (simp add: pcq_write_def Let_def construct_at_def)
qed

lemma destroy_front:
  fixes q :: "'a pcq"
  assumes "pcq_holds q (x # xs)"
  defines "q' \<equiv> q\<lparr>pcq_records := (pcq_records q)[pcq_readIndex q := None],
                  pcq_readIndex := next_record q (pcq_readIndex q)\<rparr>"
  shows "object_at (pcq_records q) (pcq_readIndex q) = Inr x"
    and "destroy_at (pcq_records q) (pcq_readIndex q) = Inr ((pcq_records q)[pcq_readIndex q := None])"
    and "pcq_readIndex q \<noteq> pcq_writeIndex q"
    and "pcq_holds q' xs" and "pcq_size q' = pcq_size q"
proof -
  note ring = pcq_holds_ring[OF assms(1)]
  have r: "pcq_readIndex q < length (pcq_records q)" "length xs + 1 < pcq_size q"
    using ring by (auto simp: ring_shape_def)
  show ob: "object_at (pcq_records q) (pcq_readIndex q) = Inr x"
    using r ring_read_slot[OF ring] by (simp add: object_at_def)
  then show "destroy_at (pcq_records q) (pcq_readIndex q) = Inr ((pcq_records q)[pcq_readIndex q := None])"
    using r by (simp add: destroy_at_def)
  show "pcq_readIndex q \<noteq> pcq_writeIndex q" using ring_empty[OF ring] by simp
  have "ring_shape q' (length xs) ((map Some xs @ replicate (pcq_size q - length (x # xs)) None) @ [None])"
    using ring_advance_read[OF ring_update_read[OF ring, of None, simplified]]
    by (simp add: q'_def next_record_def)
  moreover have "replicate (pcq_size q - length (x # xs)) None @ [None :: 'a option] =
      replicate (pcq_size q - length xs) None"
    using r(2) by (simp add: replicate_append_same Suc_diff_Suc flip: replicate_Suc)
  ultimately show "pcq_holds q' xs" by (simp add: pcq_holds_def q'_def)
  show "pcq_size q' = pcq_size q" by (simp add: q'_def)
qed

lemma pcq_read_holds:
  assumes "pcq_holds q xs"
  shows "case xs of [] \<Rightarrow> pcq_read q = Inr (None, q)
         | x # ys \<Rightarrow> \<exists>q'. pcq_read q = Inr (Some x, q') \<and> pcq_holds q' ys \<and> pcq_size q' = pcq_size q"
proof (cases xs)
  case Nil
  then show ?thesis using ring_empty[OF pcq_holds_ring[OF assms]] by (simp add: pcq_read_def)
next
  case (Cons x ys)
  then show ?thesis using destroy_front[of q x ys] assms by (simp add: pcq_read_def Let_def)
qed

lemma pcq_popFront_holds:
  assumes "pcq_holds q xs"
  shows "case xs of [] \<Rightarrow> pcq_popFront q = Inl Terminate \<and> pcq_frontPtr q = None
         | x # ys \<Rightarrow> pcq_frontPtr q = Some (pcq_readIndex q) \<and> object_at (pcq_records q) (pcq_readIndex q) = Inr x
             \<and> (\<exists>q'. pcq_popFront q = Inr q' \<and> pcq_holds q' ys \<and> pcq_size q' = pcq_size q)"
proof (cases xs)
  case Nil
  then show ?thesis
    using ring_empty[OF pcq_holds_ring[OF assms]] by (simp add: pcq_popFront_def pcq_frontPtr_def Let_def)
next
  case (Cons x ys)
  then show ?thesis
    using destroy_front[of q x ys] assms by (simp add: pcq_popFront_def pcq_frontPtr_def Let_def)
qed

lemma pcq_queries:
  assumes "pcq_holds q xs"
  shows "pcq_isEmpty q \<longleftrightarrow> xs = []" and "pcq_isFull q \<longleftrightarrow> length xs = pcq_capacity q"
    and "length xs \<le> pcq_capacity q" and "pcq_capacity q = pcq_size q - 1"
proof -
  note ring = pcq_holds_ring[OF assms]
  show c: "pcq_capacity q = pcq_size q - 1" using ring by (auto simp: pcq_capacity_def ring_shape_def)
  show "pcq_isEmpty q \<longleftrightarrow> xs = []" using ring_empty[OF ring] by (simp add: pcq_isEmpty_def)
  show "pcq_isFull q \<longleftrightarrow> length xs = pcq_capacity q"
    using ring_full[OF ring] ring c by (auto simp: pcq_isFull_def ring_shape_def)
  show "length xs \<le> pcq_capacity q" using ring c by (auto simp: ring_shape_def)
qed

lemma pcq_sizeGuess_holds:
  assumes "pcq_holds q xs" "pcq_size q \<le> 2 ^ 31"
  shows "pcq_sizeGuess q = length xs"
proof -
  note ring = pcq_holds_ring[OF assms(1)]
  let ?r = "pcq_readIndex q" and ?w = "pcq_writeIndex q" and ?N = "pcq_size q" and ?n = "length xs"
  have b: "?r < ?N" "?n < ?N" and w: "?w = (?r + ?n) mod ?N" using ring by (auto simp: ring_shape_def)
  have n: "?n < 2 ^ 31" using b assms(2) by simp
  then have s: "sint (of_nat ?n :: 32 word) = int ?n" by (intro sint_of_nat_small) simp
  then have u: "unat (scast (of_nat ?n :: 32 word) :: 64 word) = ?n"
    unfolding scast_eq using n by (simp add: unat_of_nat)
  show ?thesis
  proof (cases "?r + ?n < ?N")
    case True
    then have "of_nat ?w - of_nat ?r = (of_nat ?n :: 32 word)" using w by simp
    then show ?thesis using s u by (simp add: pcq_sizeGuess_def Let_def)
  next
    case False
    have "?w = ?r + ?n - ?N" using w b False by (simp add: mod_if)
    then have d: "of_nat ?w - of_nat ?r + of_nat ?N = (of_nat ?n :: 32 word)"
      using False by (simp add: of_nat_diff)
    moreover have "sint (of_nat ?w - of_nat ?r :: 32 word) < 0"
      using b assms(2) False \<open>?w = ?r + ?n - ?N\<close>
      by (simp add: sint_unat unat_sub_if' unat_of_nat)
    ultimately show ?thesis using u by (simp add: pcq_sizeGuess_def Let_def)
  qed
qed

lemma pcq_destroy_loop_holds:
  fixes q :: "'a pcq"
  assumes "pcq_holds (q\<lparr>pcq_records := recs, pcq_readIndex := r\<rparr>) xs" "length xs \<le> fuel"
  shows "pcq_destroy_loop fuel q recs r = Some (Inr (replicate (pcq_size q) None))"
  using assms
proof (induction xs arbitrary: recs r fuel)
  case Nil
  let ?q = "q\<lparr>pcq_records := recs, pcq_readIndex := r\<rparr>"
  note ring = pcq_holds_ring[OF Nil.prems(1)]
  have "rotate r recs = replicate (pcq_size q) None" "r = pcq_writeIndex q"
    using ring ring_empty[OF ring] by (auto simp: ring_shape_def)
  then have "set recs \<subseteq> {None}" "length recs = pcq_size q"
    by (metis set_rotate set_replicate_conv_if subset_refl empty_subsetI) (metis length_rotate length_replicate \<open>rotate r recs = _\<close>)
  then have "recs = replicate (pcq_size q) None" by (metis replicate_eqI singletonD subsetD)
  then show ?case using \<open>r = _\<close> by (subst pcq_destroy_loop.simps) simp
next
  case (Cons x xs)
  let ?q = "q\<lparr>pcq_records := recs, pcq_readIndex := r\<rparr>"
  note front = destroy_front[OF Cons.prems(1), simplified]
  obtain fuel' where f: "fuel = Suc fuel'" "length xs \<le> fuel'" using Cons.prems(2) by (cases fuel) auto
  have "r < pcq_size q" "pcq_size q < 2 ^ 32"
    using pcq_holds_ring[OF Cons.prems(1)] by (auto simp: ring_shape_def)
  then have "next_record ?q r = (if r + 1 = pcq_size q then 0 else r + 1)"
    by (simp add: next_record_def Let_def)
  then show ?case
    using front f Cons.IH[where recs = "recs[r := None]" and r = "next_record ?q r" and fuel = fuel']
    by (subst pcq_destroy_loop.simps) simp
qed

section \<open>A bounded queue interface\<close>

datatype 'a fifo_op = F_write 'a | F_read

datatype 'a fifo_out = Wrote bool | Got "'a option"

fun fifo_run ::
  "('q \<Rightarrow> 'a \<Rightarrow> (bool \<times> 'q) res) \<Rightarrow> ('q \<Rightarrow> ('a option \<times> 'q) res) \<Rightarrow> 'a fifo_op list \<Rightarrow> 'q \<Rightarrow>
   ('a fifo_out list \<times> 'q) res" where
  "fifo_run wrt rds [] q = Inr ([], q)"
| "fifo_run wrt rds (F_write v # ps) q =
     bindE (wrt q v) (\<lambda>(b, q'). bindE (fifo_run wrt rds ps q') (\<lambda>(outs, q''). Inr (Wrote b # outs, q'')))"
| "fifo_run wrt rds (F_read # ps) q =
     bindE (rds q) (\<lambda>(x, q'). bindE (fifo_run wrt rds ps q') (\<lambda>(outs, q''). Inr (Got x # outs, q'')))"

fun fifo_spec :: "nat \<Rightarrow> 'a fifo_op list \<Rightarrow> 'a list \<Rightarrow> 'a fifo_out list \<times> 'a list" where
  "fifo_spec cap [] xs = ([], xs)"
| "fifo_spec cap (F_write v # ps) xs =
     (if length xs < cap then (Wrote True # fst (fifo_spec cap ps (xs @ [v])), snd (fifo_spec cap ps (xs @ [v])))
      else (Wrote False # fst (fifo_spec cap ps xs), snd (fifo_spec cap ps xs)))"
| "fifo_spec cap (F_read # ps) xs =
     (case xs of [] \<Rightarrow> (Got None # fst (fifo_spec cap ps []), snd (fifo_spec cap ps []))
      | x # ys \<Rightarrow> (Got (Some x) # fst (fifo_spec cap ps ys), snd (fifo_spec cap ps ys)))"

locale bounded_fifo =
  fixes wrt :: "'q \<Rightarrow> 'a \<Rightarrow> (bool \<times> 'q) res"
    and rds :: "'q \<Rightarrow> ('a option \<times> 'q) res"
    and holds :: "'q \<Rightarrow> 'a list \<Rightarrow> bool"
    and cap :: "'q \<Rightarrow> nat"
  assumes write_free: "holds q xs \<Longrightarrow> length xs < cap q \<Longrightarrow>
      \<exists>q'. wrt q v = Inr (True, q') \<and> holds q' (xs @ [v]) \<and> cap q' = cap q"
    and write_full: "holds q xs \<Longrightarrow> \<not> length xs < cap q \<Longrightarrow> wrt q v = Inr (False, q)"
    and read_empty: "holds q [] \<Longrightarrow> rds q = Inr (None, q)"
    and read_front: "holds q (x # xs) \<Longrightarrow> \<exists>q'. rds q = Inr (Some x, q') \<and> holds q' xs \<and> cap q' = cap q"
begin

lemma run_spec:
  "holds q xs \<Longrightarrow> \<exists>q'. fifo_run wrt rds ps q = Inr (fst (fifo_spec (cap q) ps xs), q') \<and>
     holds q' (snd (fifo_spec (cap q) ps xs)) \<and> cap q' = cap q"
proof (induction ps arbitrary: q xs)
  case Nil
  then show ?case by auto
next
  case (Cons p ps)
  show ?case
  proof (cases p)
    case (F_write v)
    show ?thesis
    proof (cases "length xs < cap q")
      case True
      then obtain q1 where q1: "wrt q v = Inr (True, q1)" "holds q1 (xs @ [v])" "cap q1 = cap q"
        using write_free[OF Cons.prems] by blast
      from Cons.IH[OF q1(2)] show ?thesis using q1 F_write True by auto
    next
      case False
      from Cons.IH[OF Cons.prems] show ?thesis
        using write_full[OF Cons.prems False] F_write False by auto
    qed
  next
    case F_read
    show ?thesis
    proof (cases xs)
      case Nil
      from Cons.IH[OF Cons.prems] show ?thesis using read_empty Cons.prems Nil F_read by auto
    next
      case (Cons x ys)
      then obtain q1 where q1: "rds q = Inr (Some x, q1)" "holds q1 ys" "cap q1 = cap q"
        using read_front \<open>holds q xs\<close> by blast
      from \<open>\<And>xs q. holds q xs \<Longrightarrow> _ q xs\<close>[OF q1(2)] show ?thesis using q1 F_read Cons by auto
    qed
  qed
qed

end

interpretation pcq: bounded_fifo pcq_write pcq_read pcq_holds pcq_capacity
proof unfold_locales
  fix q :: "'a pcq" and xs v
  assume h: "pcq_holds q xs"
  have s: "2 \<le> pcq_size q" using pcq_holds_ring[OF h] by (simp add: ring_shape_def)
  { assume l: "length xs < pcq_capacity q"
    then obtain q' where q': "pcq_write q v = Inr (True, q')" "pcq_holds q' (xs @ [v])" "pcq_size q' = pcq_size q"
      using pcq_write_holds[OF h, of v] pcq_queries(4)[OF h] by (auto split: if_splits)
    then show "\<exists>q'. pcq_write q v = Inr (True, q') \<and> pcq_holds q' (xs @ [v]) \<and> pcq_capacity q' = pcq_capacity q"
      using pcq_queries(4)[OF h] pcq_queries(4)[OF q'(2)] by auto }
  { assume "\<not> length xs < pcq_capacity q"
    then show "pcq_write q v = Inr (False, q)"
      using pcq_write_holds[OF h, of v] pcq_queries(3,4)[OF h] s by (auto split: if_splits) }
next
  fix q :: "'a pcq"
  assume h: "pcq_holds q []"
  show "pcq_read q = Inr (None, q)" using pcq_read_holds[OF h] by simp
next
  fix q :: "'a pcq" and x xs
  assume h: "pcq_holds q (x # xs)"
  then obtain q' where q': "pcq_read q = Inr (Some x, q')" "pcq_holds q' xs" "pcq_size q' = pcq_size q"
    using pcq_read_holds[OF h] by auto
  then show "\<exists>q'. pcq_read q = Inr (Some x, q') \<and> pcq_holds q' xs \<and> pcq_capacity q' = pcq_capacity q"
    using pcq_queries(4)[OF h] pcq_queries(4)[OF q'(2)] by auto
qed

section \<open>Two threads\<close>

fun consumer_slots :: "'a consumer \<Rightarrow> 'a list \<Rightarrow> 'a option list" where
  "consumer_slots (C_destroyed cr v) xs = None # map Some (tl xs)"
| "consumer_slots _ xs = map Some xs"

fun producer_slot :: "'a producer \<Rightarrow> 'a option" where
  "producer_slot (P_built v cw) = Some v"
| "producer_slot _ = None"

fun producer_ok :: "'a pcq \<Rightarrow> nat \<Rightarrow> 'a producer \<Rightarrow> bool" where
  "producer_ok q n P_idle = True"
| "producer_ok q n (P_loaded v cw) = (cw = pcq_writeIndex q)"
| "producer_ok q n (P_free v cw) = (cw = pcq_writeIndex q \<and> n + 1 < pcq_size q)"
| "producer_ok q n (P_built v cw) = (cw = pcq_writeIndex q \<and> n + 1 < pcq_size q)"

fun consumer_ok :: "'a pcq \<Rightarrow> 'a list \<Rightarrow> 'a consumer \<Rightarrow> bool" where
  "consumer_ok q xs C_idle = True"
| "consumer_ok q xs (C_loaded cr) = (cr = pcq_readIndex q)"
| "consumer_ok q xs (C_nonempty cr) = (cr = pcq_readIndex q \<and> xs \<noteq> [])"
| "consumer_ok q xs (C_moved cr v) = (cr = pcq_readIndex q \<and> xs \<noteq> [] \<and> v = hd xs)"
| "consumer_ok q xs (C_destroyed cr v) = (cr = pcq_readIndex q \<and> xs \<noteq> [] \<and> v = hd xs)"

definition sys_slots :: "'a pcq_system \<Rightarrow> 'a list \<Rightarrow> 'a option list" where
  "sys_slots s xs = consumer_slots (sys_consumer s) xs @ producer_slot (sys_producer s) #
     replicate (pcq_size (sys_queue s) - length xs - 1) None"

definition sys_pending :: "'a pcq_system \<Rightarrow> 'a list \<Rightarrow> bool" where
  "sys_pending s xs \<longleftrightarrow>
     ring_shape (sys_queue s) (length xs) (sys_slots s xs) \<and>
     producer_ok (sys_queue s) (length xs) (sys_producer s) \<and>
     consumer_ok (sys_queue s) xs (sys_consumer s) \<and>
     sys_written s = sys_read s @ xs"

lemma length_consumer_slots: "consumer_ok q xs c \<Longrightarrow> length (consumer_slots c xs) = length xs"
  by (cases c) auto

lemma consumer_slots_snoc: "consumer_ok q xs c \<Longrightarrow> consumer_slots c (xs @ [v]) = consumer_slots c xs @ [Some v]"
  by (cases c) auto

lemma consumer_ok_snoc: "consumer_ok q xs c \<Longrightarrow> consumer_ok (q\<lparr>pcq_writeIndex := w\<rparr>) (xs @ [v]) c"
  by (cases c) auto

lemma consumer_ok_records [simp]: "consumer_ok (q\<lparr>pcq_records := recs\<rparr>) xs c = consumer_ok q xs c"
  by (cases c) auto

lemma producer_ok_records [simp]: "producer_ok (q\<lparr>pcq_records := recs\<rparr>) n p = producer_ok q n p"
  by (cases p) auto

lemma producer_ok_read: "producer_ok q n p \<Longrightarrow> producer_ok (q\<lparr>pcq_readIndex := r\<rparr>) (n - 1) p"
  by (cases p) auto

lemma next_record_cong [simp]:
  "next_record (q\<lparr>pcq_records := recs\<rparr>) i = next_record q i"
  by (simp add: next_record_def)

lemma producer_step_safe:
  assumes "sys_pending s xs"
  shows "\<exists>s' ys. sys_producer_step v s = Inr s' \<and> sys_pending s' (xs @ ys) \<and>
    pcq_size (sys_queue s') = pcq_size (sys_queue s)"
proof -
  let ?q = "sys_queue s"
  have ring: "ring_shape ?q (length xs) (sys_slots s xs)"
    and cok: "consumer_ok ?q xs (sys_consumer s)" using assms by (simp_all add: sys_pending_def)
  note len = length_consumer_slots[OF cok]
  have w: "pcq_writeIndex ?q < length (pcq_records ?q)"
    using ring_write_lt[OF ring] ring by (simp add: ring_shape_def)
  show ?thesis
  proof (cases "sys_producer s")
    case P_idle
    then show ?thesis using assms
      by (intro exI[of _ _] exI[of _ "[]"]) (auto simp: sys_producer_step_def sys_pending_def sys_slots_def)
  next
    case (P_loaded u cw)
    moreover have "length xs + 1 < pcq_size ?q" if "next_record ?q (pcq_writeIndex ?q) \<noteq> pcq_readIndex ?q"
      using that ring_full[OF ring] ring by (auto simp: ring_shape_def)
    ultimately show ?thesis using assms
      by (cases "next_record ?q (pcq_writeIndex ?q) = pcq_readIndex ?q"; intro exI[of _ _] exI[of _ "[]"])
         (auto simp: sys_producer_step_def sys_pending_def sys_slots_def)
  next
    case (P_free u cw)
    have "pcq_records ?q ! pcq_writeIndex ?q = None"
      using ring_write_slot[OF ring] len P_free by (simp add: sys_slots_def nth_append)
    then show ?thesis
      using assms ring_update_write[OF ring, of "Some u"] w P_free len
      by (intro exI[of _ _] exI[of _ "[]"])
         (auto simp: sys_producer_step_def sys_pending_def sys_slots_def construct_at_def list_update_append)
  next
    case (P_built u cw)
    then have n: "length xs + 1 < pcq_size ?q" using assms by (simp add: sys_pending_def)
    then have "replicate (pcq_size ?q - length xs - 1) (None :: 'a option) =
        None # replicate (pcq_size ?q - length (xs @ [u]) - 1) None"
      by (simp flip: replicate_Suc)
    then show ?thesis
      using assms ring_advance_write[OF ring n] P_built consumer_slots_snoc[OF cok] consumer_ok_snoc[OF cok]
      by (intro exI[of _ _] exI[of _ "[u]"])
         (auto simp: sys_producer_step_def sys_pending_def sys_slots_def)
  qed
qed

lemma consumer_step_safe:
  assumes "sys_pending s xs"
  shows "\<exists>s' n. sys_consumer_step s = Inr s' \<and> sys_pending s' (drop n xs) \<and>
    pcq_size (sys_queue s') = pcq_size (sys_queue s)"
proof -
  let ?q = "sys_queue s"
  have ring: "ring_shape ?q (length xs) (sys_slots s xs)"
    and cok: "consumer_ok ?q xs (sys_consumer s)" and pok: "producer_ok ?q (length xs) (sys_producer s)"
    using assms by (simp_all add: sys_pending_def)
  have r: "pcq_readIndex ?q < length (pcq_records ?q)" using ring by (simp add: ring_shape_def)
  show ?thesis
  proof (cases "sys_consumer s")
    case C_idle
    then show ?thesis using assms
      by (intro exI[of _ _] exI[of _ 0]) (auto simp: sys_consumer_step_def sys_pending_def sys_slots_def)
  next
    case (C_loaded cr)
    moreover have "xs \<noteq> []" if "pcq_readIndex ?q \<noteq> pcq_writeIndex ?q" using that ring_empty[OF ring] by auto
    ultimately show ?thesis using assms
      by (cases "pcq_readIndex ?q = pcq_writeIndex ?q"; intro exI[of _ _] exI[of _ 0])
         (auto simp: sys_consumer_step_def sys_pending_def sys_slots_def)
  next
    case (C_nonempty cr)
    then have "pcq_records ?q ! pcq_readIndex ?q = Some (hd xs)"
      using ring_read_slot[OF ring] cok by (cases xs) (simp_all add: sys_slots_def)
    then show ?thesis using assms r C_nonempty
      by (intro exI[of _ _] exI[of _ 0]) (auto simp: sys_consumer_step_def sys_pending_def sys_slots_def object_at_def)
  next
    case (C_moved cr v)
    then have x: "xs = v # tl xs" "cr = pcq_readIndex ?q" using cok by (cases xs; simp)+
    then have "pcq_records ?q ! pcq_readIndex ?q = Some v"
      using ring_read_slot[OF ring] C_moved by (metis sys_slots_def consumer_slots.simps(5) list.map(2) append_Cons nth_Cons_0)
    moreover have "(sys_slots s xs)[0 := None] = sys_slots (s\<lparr>sys_consumer := C_destroyed cr v\<rparr>) xs"
      using C_moved x(1) by (cases xs) (simp_all add: sys_slots_def)
    ultimately show ?thesis using assms r C_moved x(2) ring_update_read[OF ring, of None]
      by (intro exI[of _ _] exI[of _ 0])
         (auto simp: sys_consumer_step_def sys_pending_def destroy_at_def object_at_def sys_slots_def)
  next
    case (C_destroyed cr v)
    then have x: "xs = v # tl xs" "cr = pcq_readIndex ?q" "xs \<noteq> []" using cok by (cases xs; simp)+
    have n: "length xs < pcq_size ?q" using ring by (simp add: ring_shape_def)
    have slots: "sys_slots s xs = None # map Some (tl xs) @ producer_slot (sys_producer s) #
        replicate (pcq_size ?q - length xs - 1) None"
      using C_destroyed by (simp add: sys_slots_def)
    have "replicate (pcq_size ?q - length xs - 1) None @ [None :: 'a option] =
        replicate (pcq_size ?q - length (tl xs) - 1) None"
      using n x(3) by (cases xs) (simp_all add: replicate_append_same Suc_diff_Suc flip: replicate_Suc)
    then have "ring_shape (?q\<lparr>pcq_readIndex := next_record ?q cr\<rparr>) (length (tl xs))
        (map Some (tl xs) @ producer_slot (sys_producer s) # replicate (pcq_size ?q - length (tl xs) - 1) None)"
      using ring_advance_read[OF ring[unfolded slots]] x by simp
    moreover have "producer_ok (?q\<lparr>pcq_readIndex := next_record ?q cr\<rparr>) (length (tl xs)) (sys_producer s)"
      using producer_ok_read[OF pok] by simp
    moreover have "drop 1 xs = tl xs" "sys_written s = sys_read s @ v # tl xs"
      using x(1) assms by (simp_all add: drop_Suc sys_pending_def)
    ultimately show ?thesis using C_destroyed
      by (intro exI[of _ _] exI[of _ 1]) (auto simp: sys_consumer_step_def sys_pending_def sys_slots_def)
  qed
qed

lemma pcq_reach_pending:
  fixes s :: "'a pcq_system"
  assumes "sz < 2 ^ 32"
  shows "pcq_reach sz s \<Longrightarrow> \<exists>xs. sys_pending s xs \<and> pcq_size (sys_queue s) = sz"
proof (induction rule: pcq_reach.induct)
  case (start q)
  then have "2 \<le> sz" by (auto simp: pcq_new_def split: if_splits)
  then have "pcq_holds q [] \<and> pcq_size q = sz" using start pcq_new_holds[OF _ assms] by (metis Inr_inject)
  moreover from this \<open>2 \<le> sz\<close> have "replicate (pcq_size q) (None :: 'a option) = None # replicate (pcq_size q - 1) None"
    by (simp flip: replicate_Suc)
  ultimately show ?case
    by (intro exI[of _ "[]"]) (auto simp: sys_pending_def sys_init_def pcq_holds_def sys_slots_def)
next
  case (step s s')
  then obtain xs where xs: "sys_pending s xs" "pcq_size (sys_queue s) = sz" by blast
  from step(2) show ?case
  proof cases
    case (produce v)
    then show ?thesis using producer_step_safe[OF xs(1), of v] xs(2) by auto
  next
    case consume
    then show ?thesis using consumer_step_safe[OF xs(1)] xs(2) by auto
  qed
qed

lemma sched_run_reach: "pcq_reach sz s \<Longrightarrow> sched_run ts s = Inr s' \<Longrightarrow> pcq_reach sz s'"
proof (induction ts s rule: sched_run.induct)
  case (2 v ts s)
  then obtain t where "sys_producer_step v s = Inr t" "sched_run ts t = Inr s'" by auto
  then show ?case using 2 pcq_reach.step[OF _ pcq_step.produce] by metis
next
  case (3 ts s)
  then obtain t where "sys_consumer_step s = Inr t" "sched_run ts t = Inr s'" by auto
  then show ?case using 3 pcq_reach.step[OF _ pcq_step.consume] by metis
qed simp

section \<open>Properties\<close>

definition demo_queue :: "int pcq" where
  "demo_queue = \<lparr>pcq_size = 3, pcq_records = [None, None, None], pcq_readIndex = 0, pcq_writeIndex = 0\<rparr>"

lemma three_sizes: "(2::nat) \<le> 3" "(3::nat) < 2 ^ 32"
  by simp_all

lemma demo_queue_new: "pcq_new True 3 = Inr demo_queue"
  by (simp add: pcq_new_def demo_queue_def numeral_3_eq_3)

lemma demo_queue_holds: "pcq_holds demo_queue []"
proof -
  obtain q :: "int pcq" where "pcq_new True 3 = Inr q" "pcq_holds q []"
    using pcq_new_holds[of 3] by auto
  then show ?thesis using demo_queue_new by simp
qed

text \<open>
  C7. Under every interleaving of one producer thread in \<^verbatim>\<open>write\<close> and one consumer thread in \<^verbatim>\<open>read\<close>, cut at
  the accesses to the shared indices, the values handed to the consumer are, in order and without
  loss or duplication, a prefix of the values the producer committed, at most \<open>size - 1\<close> values are
  in flight, and the next step of either thread is never an access to a dead slot, a construction
  over a live object or an access outside the ring.
\<close>

theorem pcq_interleaved_fifo:
  assumes "pcq_reach sz s" and "sz < 2 ^ 32"
  shows "(\<exists>xs. sys_written s = sys_read s @ xs \<and> length xs < sz)
    \<and> (\<exists>s'. sys_producer_step v s = Inr s') \<and> (\<exists>s'. sys_consumer_step s = Inr s')"
proof -
  obtain xs where xs: "sys_pending s xs" "pcq_size (sys_queue s) = sz"
    using pcq_reach_pending[OF assms(2,1)] by blast
  then have "sys_written s = sys_read s @ xs \<and> length xs < sz"
    by (auto simp: sys_pending_def ring_shape_def)
  then show ?thesis using producer_step_safe[OF xs(1), of v] consumer_step_safe[OF xs(1)] by blast
qed

theorem pcq_interleaved_fifo_witness:
  "\<exists>s. sched_run [Some 7, None, Some 0, Some 0, None, Some 0, None] (sys_init demo_queue) = Inr s
     \<and> (\<exists>xs. sys_written s = sys_read s @ xs \<and> length xs < 3)"
proof -
  have "\<exists>s. sched_run [Some 7, None, Some 0, Some 0, None, Some 0, None] (sys_init demo_queue) = Inr s"
    by (simp add: sys_init_def sys_producer_step_def sys_consumer_step_def demo_queue_def construct_at_def
        next_record_def object_at_def)
  then obtain s where s: "sched_run [Some 7, None, Some 0, Some 0, None, Some 0, None] (sys_init demo_queue) = Inr s"
    by blast
  have "pcq_reach 3 s" by (rule sched_run_reach[OF pcq_reach.start[OF demo_queue_new] s])
  from pcq_interleaved_fifo[OF this, of 0] have "\<exists>xs. sys_written s = sys_read s @ xs \<and> length xs < 3" by simp
  with s show ?thesis by blast
qed

text \<open>
  Used by one thread at a time, a queue constructed with size \<^verbatim>\<open>size\<close> is a first-in first-out queue of
  capacity \<open>size - 1\<close>: any sequence of \<^verbatim>\<open>write\<close> and \<^verbatim>\<open>read\<close> calls returns the same answers, failures on a
  full and on an empty queue included, as the same calls on a list.
\<close>

lemma pcq_sequential_fifo:
  fixes ps :: "'a fifo_op list"
  assumes "2 \<le> sz" and "sz < 2 ^ 32"
  shows "\<exists>q q'. pcq_new True sz = Inr q
    \<and> fifo_run pcq_write pcq_read ps q = Inr (fst (fifo_spec (sz - 1) ps []), q')
    \<and> pcq_contents q' = snd (fifo_spec (sz - 1) ps [])"
proof -
  obtain q :: "'a pcq" where q: "pcq_new True sz = Inr q" "pcq_holds q []" "pcq_size q = sz"
    using pcq_new_holds[OF assms] by blast
  then have "pcq_capacity q = sz - 1" using pcq_queries(4) by metis
  with pcq.run_spec[OF q(2), of ps] q(1) pcq_holds_contents show ?thesis by metis
qed

text \<open>
  The observers of a queue that holds the values \<open>xs\<close>: \<^verbatim>\<open>isEmpty\<close>, \<^verbatim>\<open>isFull\<close> and \<^verbatim>\<open>capacity\<close> agree with the
  list, \<^verbatim>\<open>frontPtr\<close> is null on the empty queue and otherwise points to the oldest value, \<^verbatim>\<open>popFront\<close> removes
  that value (and fails its assertion on the empty queue), and \<^verbatim>\<open>sizeGuess\<close>, which goes through a
  signed 32-bit difference, is the number of values for every queue of size up to \<open>2 ^ 31\<close>.
\<close>

theorem pcq_observers_correct:
  assumes "pcq_holds q xs"
  shows "(pcq_isEmpty q \<longleftrightarrow> xs = []) \<and> (pcq_isFull q \<longleftrightarrow> length xs = pcq_capacity q)
    \<and> pcq_capacity q = pcq_size q - 1
    \<and> (case xs of [] \<Rightarrow> pcq_popFront q = Inl Terminate \<and> pcq_frontPtr q = None
       | x # ys \<Rightarrow> pcq_frontPtr q = Some (pcq_readIndex q) \<and> object_at (pcq_records q) (pcq_readIndex q) = Inr x
           \<and> (\<exists>q'. pcq_popFront q = Inr q' \<and> pcq_holds q' ys \<and> pcq_size q' = pcq_size q))
    \<and> (pcq_size q \<le> 2 ^ 31 \<longrightarrow> pcq_sizeGuess q = length xs)"
  using pcq_queries[OF assms] pcq_popFront_holds[OF assms] pcq_sizeGuess_holds[OF assms] by blast

text \<open>
  C39. The destructor ends, within as many rounds as the ring has slots, destroys every value still in
  the queue exactly once and nothing else: afterwards all slots are raw memory.
\<close>

theorem pcq_destruct_correct:
  assumes "pcq_holds q xs"
  shows "pcq_destruct q = Some (Inr (replicate (pcq_size q) None))"
  using pcq_destroy_loop_holds[where q = q and recs = "pcq_records q" and r = "pcq_readIndex q" and xs = xs] assms pcq_holds_ring[OF assms]
  by (simp add: pcq_destruct_def ring_shape_def)

theorem pcq_destruct_correct_witness:
  "pcq_destruct (demo_queue\<lparr>pcq_records := [None, Some 4, None], pcq_readIndex := 1, pcq_writeIndex := 2\<rparr>)
   = Some (Inr [None, None, None])"
proof -
  let ?q = "demo_queue\<lparr>pcq_records := [None, Some 4, None], pcq_readIndex := 1, pcq_writeIndex := 2\<rparr>"
  have "rotate 1 [None, Some 4, None] = [Some (4::int), None, None]" by (simp add: rotate_def)
  moreover have "replicate (3 - 1) (None :: int option) = [None, None]" by (simp add: numeral_2_eq_2)
  ultimately have "pcq_holds ?q [4]" by (simp add: pcq_holds_def ring_shape_def demo_queue_def)
  from pcq_destruct_correct[OF this] show ?thesis by (simp add: demo_queue_def numeral_3_eq_3)
qed

end
