(* ===== verification/Bits.thy ===== *)
theory Bits
  imports Prelude
begin

text \<open>
  \<^verbatim>\<open>folly/lang/Bits.h\<close>: bit scanning, powers of two, byte order, unaligned access and bit reversal.  A
  value of an unsigned type of \<open>n\<close> bits is an \<open>n word\<close>; the C++ integer types have 8, 16, 32 or 64
  bits, \<^verbatim>\<open>int\<close> has 32 and \<^verbatim>\<open>long\<close> 64, and the target is little-endian with unaligned access (x86-64 and
  arm64, the targets of the application); where the code tests for these, so does the model.  The
  compiler's builtins are given by their documented meaning.
\<close>

unbundle bit_operations_syntax

section \<open>Compiler builtins\<close>

text \<open>One plus the index of the lowest set bit, 0 when there is none.\<close>

definition builtin_ffs :: "'a::len word \<Rightarrow> nat" where
  "builtin_ffs w = (case List.find (bit w) [0..<LENGTH('a)] of None \<Rightarrow> 0 | Some i \<Rightarrow> Suc i)"

text \<open>The number of zero bits above the highest set bit; the builtin is not defined on 0, where the
  model gives the width, and no caller passes 0.\<close>

definition builtin_clz :: "'a::len word \<Rightarrow> nat" where
  "builtin_clz w =
     (case List.find (bit w) (rev [0..<LENGTH('a)]) of None \<Rightarrow> LENGTH('a) | Some i \<Rightarrow> LENGTH('a) - 1 - i)"

definition builtin_popcount :: "'a::len word \<Rightarrow> nat" where
  "builtin_popcount w = length (filter (bit w) [0..<LENGTH('a)])"

section \<open>Bit scanning\<close>

definition findFirstSet :: "'a::len word \<Rightarrow> nat" where
  "findFirstSet v =
     (if LENGTH('a) \<le> 32 then builtin_ffs (ucast v :: 32 word) else builtin_ffs (ucast v :: 64 word))"

definition findLastSet :: "'a::len word \<Rightarrow> nat" where
  "findLastSet v =
     (if v \<noteq> 0
      then 1 + ((8 * max (LENGTH('a) div 8) 4 - 1) XOR
            (if LENGTH('a) \<le> 32 then builtin_clz (ucast v :: 32 word) else builtin_clz (ucast v :: 64 word)))
      else 0)"

definition extractFirstSet :: "'a::len word \<Rightarrow> 'a word" where
  "extractFirstSet v = v AND - v"

definition popcount :: "'a::len word \<Rightarrow> nat" where
  "popcount v =
     (if LENGTH('a) \<le> 32 then builtin_popcount (ucast v :: 32 word) else builtin_popcount (ucast v :: 64 word))"

text \<open>
  \<^verbatim>\<open>T(1) << n\<close>: types narrower than \<^verbatim>\<open>int\<close> are shifted as \<^verbatim>\<open>int\<close> and truncated, for the others a shift by
  the width or more is undefined.
\<close>

definition shift_one :: "nat \<Rightarrow> 'a::len word res" where
  "shift_one n = (if LENGTH('a) < 32 then (if n < 32 then Inr (push_bit n 1) else Inl Undefined)
                  else if n < LENGTH('a) then Inr (push_bit n 1) else Inl Undefined)"

definition nextPowTwo :: "'a::len word \<Rightarrow> 'a word res" where
  "nextPowTwo v = (if v \<noteq> 0 then shift_one (findLastSet (v - 1)) else Inr 1)"

definition prevPowTwo :: "'a::len word \<Rightarrow> 'a word res" where
  "prevPowTwo v = (if v \<noteq> 0 then shift_one (findLastSet v - 1) else Inr 0)"

definition isPowTwo :: "'a::len word \<Rightarrow> bool" where
  "isPowTwo v \<longleftrightarrow> v \<noteq> 0 \<and> \<not> (v AND (v - 1) \<noteq> 0)"

section \<open>Byte order\<close>

definition le_bytes :: "'a::len word \<Rightarrow> 8 word list" where
  "le_bytes w = map (\<lambda>i. ucast (drop_bit (8 * i) w)) [0..<LENGTH('a) div 8]"

primrec of_le_bytes :: "8 word list \<Rightarrow> 'a::len word" where
  "of_le_bytes [] = 0"
| "of_le_bytes (b # bs) = ucast b OR push_bit 8 (of_le_bytes bs)"

definition byteswap_gen :: "'a::len word \<Rightarrow> 'a word" where
  "byteswap_gen v = of_le_bytes (rev (le_bytes v))"

definition kIsLittleEndian :: bool where
  "kIsLittleEndian = True"

definition EndianInt_swap :: "'a::len word \<Rightarrow> 'a word" where
  "EndianInt_swap x = byteswap_gen x"

definition EndianInt_big :: "'a::len word \<Rightarrow> 'a word" where
  "EndianInt_big x = (if kIsLittleEndian then EndianInt_swap x else x)"

definition EndianInt_little :: "'a::len word \<Rightarrow> 'a word" where
  "EndianInt_little x = (if \<not> kIsLittleEndian then EndianInt_swap x else x)"

section \<open>Unaligned access\<close>

text \<open>A buffer is a list of bytes and a pointer an offset into it; an access that leaves the buffer is
  undefined.\<close>

definition load_bytes :: "8 word list \<Rightarrow> nat \<Rightarrow> nat \<Rightarrow> 8 word list res" where
  "load_bytes buf p n = (if p + n \<le> length buf then Inr (take n (drop p buf)) else Inl Undefined)"

definition loadUnaligned :: "8 word list \<Rightarrow> nat \<Rightarrow> 'a::len word res" where
  "loadUnaligned buf p = bindE (load_bytes buf p (LENGTH('a) div 8)) (\<lambda>bs. Inr (of_le_bytes bs))"

definition storeUnaligned :: "8 word list \<Rightarrow> nat \<Rightarrow> 'a::len word \<Rightarrow> 8 word list res" where
  "storeUnaligned buf p value =
     (if p + LENGTH('a) div 8 \<le> length buf
      then Inr (take p buf @ le_bytes value @ drop (p + LENGTH('a) div 8) buf) else Inl Undefined)"

text \<open>\<open>unaligned\<close> is \<^verbatim>\<open>kHasUnalignedAccess\<close>.\<close>

definition partialLoadUnaligned :: "bool \<Rightarrow> 8 word list \<Rightarrow> nat \<Rightarrow> nat \<Rightarrow> 'a::len word res" where
  "partialLoadUnaligned unaligned buf cp l =
     (if \<not> l < LENGTH('a) div 8 then Inl Undefined
      else if \<not> unaligned \<or> \<not> kIsLittleEndian
      then bindE (load_bytes buf cp l) (\<lambda>bs. Inr (of_le_bytes bs))
      else
        (let avail4 = (if l AND 4 \<noteq> 0 then l - 4 else l);
             avail2 = (if l AND 2 \<noteq> 0 then avail4 - 2 else avail4) in
         bindE (if l AND 4 \<noteq> 0
                then bindE (loadUnaligned buf (cp + avail4)) (\<lambda>x. Inr (push_bit (avail4 * 8) (ucast (x :: 32 word))))
                else Inr 0) (\<lambda>v4.
         bindE (if l AND 2 \<noteq> 0
                then bindE (loadUnaligned buf (cp + avail2)) (\<lambda>x. Inr (v4 OR push_bit (avail2 * 8) (ucast (x :: 16 word))))
                else Inr v4) (\<lambda>v2.
         if l AND 1 \<noteq> 0
         then bindE (loadUnaligned buf cp) (\<lambda>x. Inr (v2 OR ucast (x :: 8 word)))
         else Inr v2))))"

section \<open>Bit reversal\<close>

text \<open>One line of the butterfly: the operand is widened to 64 bits by the literal masks and truncated by
  the assignment.\<close>

definition swap_groups :: "nat \<Rightarrow> 64 word \<Rightarrow> 64 word \<Rightarrow> 'a::len word \<Rightarrow> 'a word" where
  "swap_groups k hi lo m = ucast (drop_bit k (ucast m AND hi) OR push_bit k (ucast m AND lo))"

definition bitReverse :: "'a::len word \<Rightarrow> 'a word" where
  "bitReverse n =
     (let m = n;
          m = swap_groups 1 0xAAAAAAAAAAAAAAAA 0x5555555555555555 m;
          m = swap_groups 2 0xCCCCCCCCCCCCCCCC 0x3333333333333333 m;
          m = swap_groups 4 0xF0F0F0F0F0F0F0F0 0x0F0F0F0F0F0F0F0F m
      in EndianInt_swap m)"

end
