(* ===== verification/Bits_Correct.thy ===== *)
theory Bits_Correct
  imports Bits
begin

text \<open>
  Correctness of the bit routines: the scanning functions return the extreme set bits, the powers of
  two are the nearest ones, byte order conversions are involutions, unaligned stores and loads are
  inverse, and the butterfly reverses the bits.
\<close>

section \<open>Scanning\<close>

definition is_lowest :: "'a::len word \<Rightarrow> nat \<Rightarrow> bool" where
  "is_lowest v k \<longleftrightarrow> bit v k \<and> (\<forall>j < k. \<not> bit v j)"

definition is_highest :: "'a::len word \<Rightarrow> nat \<Rightarrow> bool" where
  "is_highest v k \<longleftrightarrow> bit v k \<and> (\<forall>j > k. \<not> bit v j)"

lemma bit_in_range: "bit (v :: 'a::len word) k \<Longrightarrow> k < LENGTH('a)"
  by (rule bit_imp_le_length)

lemma nonzero_has_bit: "(v :: 'a::len word) \<noteq> 0 \<Longrightarrow> \<exists>k. bit v k"
  by (auto simp: bit_eq_iff)

lemma builtin_ffs_lowest:
  fixes v :: "'a::len word"
  assumes "v \<noteq> 0"
  shows "\<exists>k. builtin_ffs v = Suc k \<and> is_lowest v k"
proof -
  obtain k where "bit v k" using nonzero_has_bit[OF assms] by blast
  then have "List.find (bit v) [0..<LENGTH('a)] \<noteq> None"
    using bit_in_range[of v k] by (auto simp: find_None_iff)
  then obtain i where i: "List.find (bit v) [0..<LENGTH('a)] = Some i" by auto
  then have "is_lowest v i"
    using find_Some_iff[of "bit v" "[0..<LENGTH('a)]" i] by (auto simp: is_lowest_def)
  then show ?thesis using i by (simp add: builtin_ffs_def)
qed

lemma builtin_clz_highest:
  fixes v :: "'a::len word"
  assumes "v \<noteq> 0"
  shows "\<exists>k. builtin_clz v = LENGTH('a) - 1 - k \<and> is_highest v k"
proof -
  obtain k where "bit v k" using nonzero_has_bit[OF assms] by blast
  then have "List.find (bit v) (rev [0..<LENGTH('a)]) \<noteq> None"
    using bit_in_range[of v k] by (auto simp: find_None_iff)
  then obtain i where i: "List.find (bit v) (rev [0..<LENGTH('a)]) = Some i" by auto
  then obtain n where n: "n < LENGTH('a)" "i = LENGTH('a) - 1 - n" "bit v i"
    "\<And>j. j < n \<Longrightarrow> \<not> bit v (LENGTH('a) - 1 - j)"
    using find_Some_iff[of "bit v" "rev [0..<LENGTH('a)]" i] by (auto simp: rev_nth)
  have "\<not> bit v j" if "i < j" for j
  proof
    assume b: "bit v j"
    have j: "j < LENGTH('a)" using bit_in_range[OF b] .
    then have "LENGTH('a) - 1 - j < n" using that n(1,2) by linarith
    then show False using n(4)[of "LENGTH('a) - 1 - j"] b j by simp
  qed
  then have "is_highest v i" using n(3) by (simp add: is_highest_def)
  then show ?thesis using i by (intro exI[of _ i]) (simp add: builtin_clz_def)
qed

lemma xor_flip: "k < 32 \<Longrightarrow> 31 XOR (31 - k) = (k::nat)" "k < 64 \<Longrightarrow> 63 XOR (63 - k) = (k::nat)"
proof -
  have "\<forall>k \<in> set [0..<32]. 31 XOR (31 - k) = (k::nat)" by code_simp
  then show "k < 32 \<Longrightarrow> 31 XOR (31 - k) = (k::nat)" by auto
  have "\<forall>k \<in> set [0..<64]. 63 XOR (63 - k) = (k::nat)" by code_simp
  then show "k < 64 \<Longrightarrow> 63 XOR (63 - k) = (k::nat)" by auto
qed

text \<open>The widths of the C++ integer types.\<close>

definition int_width :: "nat \<Rightarrow> bool" where
  "int_width n \<longleftrightarrow> n = 8 \<or> n = 16 \<or> n = 32 \<or> n = 64"

lemma ucast_up_bit: "LENGTH('a) \<le> LENGTH('b) \<Longrightarrow> bit (ucast (v :: 'a::len word) :: 'b::len word) k \<longleftrightarrow> bit v k"
  by (auto simp: bit_ucast_iff dest: bit_in_range)

lemma ucast_up_zero: "LENGTH('a) \<le> LENGTH('b) \<Longrightarrow> (ucast (v :: 'a::len word) :: 'b::len word) = 0 \<longleftrightarrow> v = 0"
  by (metis nonzero_has_bit ucast_up_bit bit_0_eq bot_apply bot_bool_def ucast_0)

lemma findFirstSet_lowest:
  fixes v :: "'a::len word"
  assumes "int_width LENGTH('a)" "v \<noteq> 0"
  shows "\<exists>k. findFirstSet v = Suc k \<and> is_lowest v k"
proof (cases "LENGTH('a) \<le> 32")
  case True
  then have "(ucast v :: 32 word) \<noteq> 0" using assms(2) by (simp add: ucast_up_zero)
  from builtin_ffs_lowest[OF this] True show ?thesis
    by (auto simp: findFirstSet_def is_lowest_def ucast_up_bit)
next
  case False
  then have l: "LENGTH('a) \<le> LENGTH(64)" using assms(1) by (auto simp: int_width_def)
  then have "(ucast v :: 64 word) \<noteq> 0" using assms(2) by (simp add: ucast_up_zero)
  from builtin_ffs_lowest[OF this] False l show ?thesis
    by (auto simp: findFirstSet_def is_lowest_def ucast_up_bit)
qed

lemma findLastSet_highest:
  fixes v :: "'a::len word"
  assumes "int_width LENGTH('a)" "v \<noteq> 0"
  shows "\<exists>k. findLastSet v = Suc k \<and> is_highest v k"
proof (cases "LENGTH('a) \<le> 32")
  case True
  then have "(ucast v :: 32 word) \<noteq> 0" using assms(2) by (simp add: ucast_up_zero)
  then obtain k where k: "builtin_clz (ucast v :: 32 word) = 31 - k" "is_highest (ucast v :: 32 word) k"
    using builtin_clz_highest by fastforce
  then have "k < 32" by (auto simp: is_highest_def dest: bit_in_range)
  moreover have "8 * max (LENGTH('a) div 8) 4 - 1 = (31::nat)" using True assms(1) by (auto simp: int_width_def)
  ultimately show ?thesis using k True assms(2) xor_flip(1)[of k]
    by (auto simp: findLastSet_def is_highest_def ucast_up_bit)
next
  case False
  then have l: "LENGTH('a) = 64" using assms(1) by (auto simp: int_width_def)
  then have "(ucast v :: 64 word) \<noteq> 0" using assms(2) by (simp add: ucast_up_zero)
  then obtain k where k: "builtin_clz (ucast v :: 64 word) = 63 - k" "is_highest (ucast v :: 64 word) k"
    using builtin_clz_highest by fastforce
  then have "k < 64" by (auto simp: is_highest_def dest: bit_in_range)
  then show ?thesis using k l assms(2) xor_flip(2)[of k]
    by (auto simp: findLastSet_def is_highest_def ucast_up_bit)
qed

lemma findLastSet_zero [simp]: "findLastSet 0 = 0"
  by (simp add: findLastSet_def)

section \<open>Powers of two\<close>

lemma bit_unat: "bit (unat (v :: 'a::len word)) k \<longleftrightarrow> bit v k"
  by (auto simp: bit_unsigned_iff dest: bit_in_range)

lemma bit_exp_le: "bit m k \<Longrightarrow> 2 ^ k \<le> (m::nat)"
proof (rule ccontr)
  assume "bit m k" "\<not> 2 ^ k \<le> m"
  then show False by (simp add: bit_iff_odd)
qed

lemma no_bits_less_exp: "(\<And>j. n \<le> j \<Longrightarrow> \<not> bit m j) \<Longrightarrow> (m::nat) < 2 ^ n"
proof -
  assume a: "\<And>j. n \<le> j \<Longrightarrow> \<not> bit m j"
  have "take_bit n m = m" by (intro bit_eqI) (metis a bit_take_bit_iff not_le)
  then show ?thesis by (metis take_bit_nat_less_exp)
qed

lemma is_highest_bounds:
  assumes "is_highest v k"
  shows "2 ^ k \<le> unat v" and "unat v < 2 ^ Suc k"
  using assms bit_exp_le[of "unat v" k] no_bits_less_exp[of "Suc k" "unat v"]
  by (auto simp: is_highest_def bit_unat Suc_le_eq)

lemma bit_minus_one:
  fixes v :: "'a::len word"
  assumes "is_lowest v k"
  shows "bit (v - 1) j \<longleftrightarrow> j < k \<or> (j \<noteq> k \<and> bit v j)"
proof -
  have k: "k < LENGTH('a)" "bit v k" using assms by (auto simp: is_lowest_def dest: bit_in_range)
  have "unset_bit k v AND mask k = 0"
    using assms by (intro bit_eqI) (auto simp: bit_simps is_lowest_def)
  then have "unset_bit k v + mask k = unset_bit k v OR mask k" by (rule disjunctive_add_eq_or)
  moreover have "unset_bit k v + mask k = v - 1"
    using k by (simp add: unset_bit_eq mask_eq_exp_minus_1)
  ultimately have "v - 1 = unset_bit k v OR mask k" by simp
  then show ?thesis using k by (auto simp: bit_simps dest: bit_in_range)
qed

lemma extractFirstSet_bit:
  fixes v :: "'a::len word"
  assumes "is_lowest v k"
  shows "extractFirstSet v = 2 ^ k"
proof -
  have k: "k < LENGTH('a)" using assms by (auto simp: is_lowest_def dest: bit_in_range)
  have "- v = NOT (v - 1)" by (simp add: minus_eq_not_minus_1 not_diff_distrib)
  then show ?thesis
    using assms k by (intro bit_eqI)
      (auto simp: extractFirstSet_def bit_and_iff bit_not_iff bit_minus_one[OF assms] bit_exp_iff is_lowest_def)
qed

lemma and_minus_one_zero:
  fixes v :: "'a::len word"
  assumes "is_lowest v k"
  shows "v AND (v - 1) = 0 \<longleftrightarrow> v = 2 ^ k"
proof -
  have k: "k < LENGTH('a)" "bit v k" using assms by (auto simp: is_lowest_def dest: bit_in_range)
  have b: "bit (v AND (v - 1)) j \<longleftrightarrow> j \<noteq> k \<and> bit v j" for j
    using assms by (auto simp: bit_and_iff bit_minus_one[OF assms] is_lowest_def)
  show ?thesis
  proof
    assume "v AND (v - 1) = 0"
    then have "\<not> (j \<noteq> k \<and> bit v j)" for j using b[of j] by simp
    then show "v = 2 ^ k" using k by (intro bit_eqI) (auto simp: bit_exp_iff)
  next
    assume "v = 2 ^ k"
    then have "bit v j \<longleftrightarrow> j = k" for j using k by (auto simp: bit_exp_iff)
    then show "v AND (v - 1) = 0" by (intro bit_eqI) (simp add: b)
  qed
qed

lemma unat_exp: "k < LENGTH('a) \<Longrightarrow> unat (2 ^ k :: 'a::len word) = 2 ^ k"
proof -
  assume "k < LENGTH('a)"
  then have "unat (of_nat (2 ^ k) :: 'a word) = 2 ^ k" by (simp only: unat_of_nat) simp
  then show ?thesis by simp
qed

lemma shift_one_in: "n < LENGTH('a) \<Longrightarrow> (shift_one n :: 'a::len word res) = Inr (2 ^ n)"
  by (simp add: shift_one_def)

lemma shift_one_width:
  "int_width LENGTH('a) \<Longrightarrow>
   (shift_one LENGTH('a) :: 'a::len word res) = (if LENGTH('a) < 32 then Inr 0 else Inl Undefined)"
  by (auto simp: shift_one_def int_width_def)

lemma isPowTwo_iff: "isPowTwo (v :: 'a::len word) \<longleftrightarrow> (\<exists>n < LENGTH('a). v = 2 ^ n)"
proof (cases "v = 0")
  case True
  then show ?thesis using unat_exp[where 'a = 'a] by (auto simp: isPowTwo_def)
next
  case False
  then obtain k where k: "is_lowest v k" using builtin_ffs_lowest by blast
  then have "k < LENGTH('a)" by (auto simp: is_lowest_def dest: bit_in_range)
  moreover have "n = k" if "v = 2 ^ n" "n < LENGTH('a)" for n
    using k that by (auto simp: is_lowest_def bit_exp_iff)
  ultimately show ?thesis using False and_minus_one_zero[OF k] by (auto simp: isPowTwo_def)
qed

lemma prevPowTwo_nearest:
  fixes v :: "'a::len word"
  assumes "int_width LENGTH('a)" "v \<noteq> 0"
  shows "\<exists>n < LENGTH('a). prevPowTwo v = Inr (2 ^ n) \<and> 2 ^ n \<le> unat v \<and> unat v < 2 ^ Suc n"
proof -
  obtain k where k: "findLastSet v = Suc k" "is_highest v k" using findLastSet_highest[OF assms] by blast
  then have "k < LENGTH('a)" by (auto simp: is_highest_def dest: bit_in_range)
  then show ?thesis using k is_highest_bounds[OF k(2)] assms(2)
    by (intro exI[of _ k]) (simp add: prevPowTwo_def shift_one_in)
qed

lemma nextPowTwo_nearest:
  fixes v :: "'a::len word"
  assumes "int_width LENGTH('a)" "v \<noteq> 0"
  shows "if unat v \<le> 2 ^ (LENGTH('a) - 1)
         then \<exists>n < LENGTH('a). nextPowTwo v = Inr (2 ^ n) \<and> unat v \<le> 2 ^ n \<and> (\<forall>m. unat v \<le> 2 ^ m \<longrightarrow> n \<le> m)
         else nextPowTwo v = (if LENGTH('a) < 32 then Inr 0 else Inl Undefined)"
proof (cases "v = 1")
  case True
  then show ?thesis by (auto simp: nextPowTwo_def shift_one_in intro!: exI[of _ 0])
next
  case False
  then have "v - 1 \<noteq> 0" by simp
  then obtain k where k: "findLastSet (v - 1) = Suc k" "is_highest (v - 1) k"
    using findLastSet_highest[OF assms(1)] by blast
  have "unat (v - 1) = unat v - 1" "0 < unat v"
    using assms(2) by (simp_all add: unat_minus_one unat_gt_0)
  then have b: "2 ^ k < unat v" "unat v \<le> 2 ^ Suc k" using is_highest_bounds[OF k(2)] by simp_all
  have l: "k < LENGTH('a)" using k(2) by (auto simp: is_highest_def dest: bit_in_range)
  show ?thesis
  proof (cases "unat v \<le> 2 ^ (LENGTH('a) - 1)")
    case True
    with b(1) have "(2::nat) ^ k < 2 ^ (LENGTH('a) - 1)" by (rule less_le_trans)
    then have s: "Suc k < LENGTH('a)" by (simp add: power_strict_increasing_iff)
    have "Suc k \<le> m" if "unat v \<le> 2 ^ m" for m
    proof -
      from b(1) that have "(2::nat) ^ k < 2 ^ m" by (rule less_le_trans)
      then show ?thesis by (simp add: power_strict_increasing_iff)
    qed
    then show ?thesis using True s k(1) b(2) assms(2)
      by (auto simp: nextPowTwo_def shift_one_in intro!: exI[of _ "Suc k"])
  next
    case False
    have "Suc k = LENGTH('a)"
    proof (rule ccontr)
      assume "Suc k \<noteq> LENGTH('a)"
      then have "(2::nat) ^ Suc k \<le> 2 ^ (LENGTH('a) - 1)" using l by (intro power_increasing) auto
      then show False using b(2) False by simp
    qed
    then show ?thesis using False k(1) assms shift_one_width[where 'a = 'a] by (simp add: nextPowTwo_def)
  qed
qed

lemma builtin_popcount_card: "builtin_popcount (w :: 'b::len word) = card {k. bit w k}"
proof -
  have "{k. bit w k} = set (filter (bit w) [0..<LENGTH('b)])" by (auto dest: bit_in_range)
  then show ?thesis by (metis builtin_popcount_def distinct_card distinct_filter distinct_upt)
qed

lemma popcount_card:
  fixes v :: "'a::len word"
  assumes "int_width LENGTH('a)"
  shows "popcount v = card {k. bit v k}"
proof (cases "LENGTH('a) \<le> 32")
  case True
  then show ?thesis by (simp add: builtin_popcount_card popcount_def ucast_up_bit)
next
  case False
  then have "LENGTH('a) = 64" using assms by (auto simp: int_width_def)
  then show ?thesis by (simp add: builtin_popcount_card popcount_def ucast_up_bit)
qed

section \<open>Bytes\<close>

lemma length_le_bytes [simp]: "length (le_bytes (w :: 'a::len word)) = LENGTH('a) div 8"
  by (simp add: le_bytes_def)

lemma bit_le_bytes:
  "i < LENGTH('a) div 8 \<Longrightarrow> bit (le_bytes (w :: 'a::len word) ! i) n \<longleftrightarrow> n < 8 \<and> bit w (8 * i + n)"
  by (auto simp: le_bytes_def bit_ucast_iff bit_drop_bit_eq)

lemma bit_of_le_bytes:
  "bit (of_le_bytes bs :: 'a::len word) n \<longleftrightarrow>
     n < LENGTH('a) \<and> n div 8 < length bs \<and> bit (bs ! (n div 8)) (n mod 8)"
proof (induction bs arbitrary: n)
  case (Cons b bs)
  show ?case
  proof (cases "n < 8")
    case True
    then show ?thesis by (auto simp: bit_or_iff bit_ucast_iff bit_push_bit_iff)
  next
    case False
    then obtain m where m: "n = m + 8" by (metis add.commute le_add_diff_inverse not_less)
    have "\<not> bit (ucast b :: 'a word) n" using False by (auto simp: bit_ucast_iff dest: bit_in_range)
    moreover have "n div 8 = Suc (m div 8)" "n mod 8 = m mod 8" using m by simp_all
    ultimately show ?thesis using Cons.IH[of m] m by (auto simp: bit_or_iff bit_push_bit_iff)
  qed
qed simp

lemma of_le_bytes_le_bytes [simp]:
  fixes w :: "'a::len word"
  assumes "8 dvd LENGTH('a)"
  shows "of_le_bytes (le_bytes w) = w"
proof (rule bit_eqI)
  fix n
  assume "possible_bit TYPE('a word) n"
  then have "n < LENGTH('a)" by simp
  then have "n div 8 < LENGTH('a) div 8" using assms by (metis dvd_mult_div_cancel less_mult_imp_div_less mult.commute)
  then show "bit (of_le_bytes (le_bytes w) :: 'a word) n \<longleftrightarrow> bit w n"
    using \<open>n < LENGTH('a)\<close> by (simp add: bit_of_le_bytes bit_le_bytes)
qed

lemma le_bytes_of_le_bytes:
  fixes bs :: "8 word list"
  assumes "8 * length bs = LENGTH('a)"
  shows "le_bytes (of_le_bytes bs :: 'a::len word) = bs"
proof (rule nth_equalityI)
  show l: "length (le_bytes (of_le_bytes bs :: 'a word)) = length bs" using assms[symmetric] by simp
  fix i
  assume i: "i < length (le_bytes (of_le_bytes bs :: 'a word))"
  then have "i < LENGTH('a) div 8" "i < length bs" using l by simp_all
  moreover have "8 * i + n < LENGTH('a)" if "n < 8" for n using that \<open>i < length bs\<close> assms by linarith
  ultimately show "le_bytes (of_le_bytes bs :: 'a word) ! i = bs ! i"
    by (intro bit_eqI) (auto simp: bit_le_bytes bit_of_le_bytes)
qed

lemma int_width_dvd: "int_width n \<Longrightarrow> 8 dvd n"
  by (auto simp: int_width_def)

lemma byteswap_involution: "8 dvd LENGTH('a) \<Longrightarrow> byteswap_gen (byteswap_gen v) = (v :: 'a::len word)"
  unfolding byteswap_gen_def by (subst le_bytes_of_le_bytes) auto

lemma bit_byteswap:
  fixes v :: "'a::len word"
  assumes "8 dvd LENGTH('a)" "n < LENGTH('a)"
  shows "bit (byteswap_gen v) n \<longleftrightarrow> bit v (8 * (LENGTH('a) div 8 - 1 - n div 8) + n mod 8)"
proof -
  have "n div 8 < LENGTH('a) div 8" using assms by (metis dvd_mult_div_cancel less_mult_imp_div_less mult.commute)
  then show ?thesis
    using assms(2) by (simp add: byteswap_gen_def bit_of_le_bytes rev_nth bit_le_bytes)
qed

lemma load_store:
  fixes x :: "'a::len word"
  assumes "8 dvd LENGTH('a)" "p + LENGTH('a) div 8 \<le> length buf"
  shows "\<exists>buf'. storeUnaligned buf p x = Inr buf' \<and> length buf' = length buf \<and>
    loadUnaligned buf' p = Inr x \<and> take p buf' = take p buf \<and>
    drop (p + LENGTH('a) div 8) buf' = drop (p + LENGTH('a) div 8) buf"
  using assms by (simp add: storeUnaligned_def loadUnaligned_def load_bytes_def)

lemma of_le_bytes_append:
  "(of_le_bytes (xs @ ys) :: 'a::len word) = of_le_bytes xs OR push_bit (8 * length xs) (of_le_bytes ys)"
  by (induction xs) (simp_all add: push_bit_or or.assoc)

lemma ucast_of_le_bytes:
  assumes "8 * length bs \<le> LENGTH('b)"
  shows "(ucast (of_le_bytes bs :: 'b::len word) :: 'a::len word) = of_le_bytes bs"
proof (rule bit_eqI)
  fix n
  have "n < LENGTH('b)" if "n div 8 < length bs" using that assms by linarith
  then show "bit (ucast (of_le_bytes bs :: 'b word) :: 'a word) n \<longleftrightarrow> bit (of_le_bytes bs :: 'a word) n"
    by (auto simp: bit_ucast_iff bit_of_le_bytes)
qed

lemma load_part:
  "cp + off + LENGTH('b) div 8 \<le> length buf \<Longrightarrow>
   loadUnaligned buf (cp + off) = Inr (of_le_bytes (take (LENGTH('b) div 8) (drop off (drop cp buf))) :: 'b::len word)"
  by (simp add: loadUnaligned_def load_bytes_def add.commute)

lemma less_8_cases: "l < 8 \<Longrightarrow> l = 0 \<or> l = 1 \<or> l = 2 \<or> l = 3 \<or> l = 4 \<or> l = 5 \<or> l = 6 \<or> l = (7::nat)"
  by auto

lemma partial_load_bytes:
  fixes buf :: "8 word list"
  assumes "l < LENGTH('a) div 8" "LENGTH('a) \<le> 64" "cp + l \<le> length buf"
  shows "partialLoadUnaligned unaligned buf cp l = Inr (of_le_bytes (take l (drop cp buf)) :: 'a::len word)"
proof (cases unaligned)
  case False
  then show ?thesis using assms by (simp add: partialLoadUnaligned_def load_bytes_def)
next
  case True
  let ?b = "drop cp buf"
  have "l < 8" using assms(1,2) by linarith
  have split: "(of_le_bytes (take k ?b) :: 'a word) = of_le_bytes (take m ?b) OR push_bit (8 * m) (of_le_bytes (take n (drop m ?b)))"
    if "k = m + n" "m + n \<le> l" for k m n
    using that assms(3) by (simp add: take_add of_le_bytes_append)
  note defs = partialLoadUnaligned_def kIsLittleEndian_def ucast_of_le_bytes or.commute or.left_commute
  from less_8_cases[OF \<open>l < 8\<close>] show ?thesis
  proof (elim disjE)
    assume "l = 0"
    then show ?thesis using True assms by (simp add: defs)
  next
    assume "l = 1"
    then show ?thesis using True assms load_part[where 'b = 8, of cp 0 buf] by (simp add: defs)
  next
    assume "l = 2"
    then show ?thesis using True assms load_part[where 'b = 16, of cp 0 buf] by (simp add: defs)
  next
    assume "l = 3"
    then show ?thesis using True assms split[of 3 1 2]
        load_part[where 'b = 16, of cp 1 buf] load_part[where 'b = 8, of cp 0 buf] by (simp add: defs)
  next
    assume "l = 4"
    then show ?thesis using True assms load_part[where 'b = 32, of cp 0 buf] by (simp add: defs)
  next
    assume "l = 5"
    then show ?thesis using True assms split[of 5 1 4]
        load_part[where 'b = 32, of cp 1 buf] load_part[where 'b = 8, of cp 0 buf] by (simp add: defs)
  next
    assume "l = 6"
    then show ?thesis using True assms split[of 6 2 4]
        load_part[where 'b = 32, of cp 2 buf] load_part[where 'b = 16, of cp 0 buf] by (simp add: defs)
  next
    assume "l = 7"
    then show ?thesis using True assms split[of 7 3 4] split[of 3 1 2] load_part[where 'b = 32, of cp 3 buf]
        load_part[where 'b = 16, of cp 1 buf] load_part[where 'b = 8, of cp 0 buf] by (simp add: defs)
  qed
qed

section \<open>Reversal\<close>

lemma mask_bits:
  assumes "n < 64"
  shows "bit (0xAAAAAAAAAAAAAAAA :: 64 word) n \<longleftrightarrow> odd n"
    and "bit (0x5555555555555555 :: 64 word) n \<longleftrightarrow> even n"
    and "bit (0xCCCCCCCCCCCCCCCC :: 64 word) n \<longleftrightarrow> odd (n div 2)"
    and "bit (0x3333333333333333 :: 64 word) n \<longleftrightarrow> even (n div 2)"
    and "bit (0xF0F0F0F0F0F0F0F0 :: 64 word) n \<longleftrightarrow> odd (n div 4)"
    and "bit (0x0F0F0F0F0F0F0F0F :: 64 word) n \<longleftrightarrow> even (n div 4)"
proof -
  have "\<forall>n \<in> set [0..<64]. (bit (0xAAAAAAAAAAAAAAAA :: 64 word) n \<longleftrightarrow> odd n) \<and>
    (bit (0x5555555555555555 :: 64 word) n \<longleftrightarrow> even n) \<and>
    (bit (0xCCCCCCCCCCCCCCCC :: 64 word) n \<longleftrightarrow> odd (n div 2)) \<and>
    (bit (0x3333333333333333 :: 64 word) n \<longleftrightarrow> even (n div 2)) \<and>
    (bit (0xF0F0F0F0F0F0F0F0 :: 64 word) n \<longleftrightarrow> odd (n div 4)) \<and>
    (bit (0x0F0F0F0F0F0F0F0F :: 64 word) n \<longleftrightarrow> even (n div 4))" by code_simp
  then show "bit (0xAAAAAAAAAAAAAAAA :: 64 word) n \<longleftrightarrow> odd n"
    and "bit (0x5555555555555555 :: 64 word) n \<longleftrightarrow> even n"
    and "bit (0xCCCCCCCCCCCCCCCC :: 64 word) n \<longleftrightarrow> odd (n div 2)"
    and "bit (0x3333333333333333 :: 64 word) n \<longleftrightarrow> even (n div 2)"
    and "bit (0xF0F0F0F0F0F0F0F0 :: 64 word) n \<longleftrightarrow> odd (n div 4)"
    and "bit (0x0F0F0F0F0F0F0F0F :: 64 word) n \<longleftrightarrow> even (n div 4)"
    using assms by auto
qed

lemma bit_swap_groups:
  fixes m :: "'a::len word"
  assumes "0 < s" "LENGTH('a) \<le> 64" "n < LENGTH('a)"
    and hi: "\<And>n. n < 64 \<Longrightarrow> bit hi n \<longleftrightarrow> odd (n div s)"
    and lo: "\<And>n. n < 64 \<Longrightarrow> bit lo n \<longleftrightarrow> even (n div s)"
  shows "bit (swap_groups s hi lo m) n \<longleftrightarrow> bit m (if even (n div s) then n + s else n - s)"
proof -
  have up: "bit (ucast m :: 64 word) k \<longleftrightarrow> bit m k" for k using assms(2) by (simp add: ucast_up_bit)
  have "n < 64" using assms by simp
  have 1: "bit m (n + s) \<and> bit hi (n + s) \<longleftrightarrow> bit m (n + s) \<and> even (n div s)"
  proof (cases "bit m (n + s)")
    case True
    then have "n + s < 64" using bit_in_range[OF True] assms(2) by simp
    moreover have "(n + s) div s = Suc (n div s)" using assms(1) by (simp add: div_add_self2)
    ultimately show ?thesis using hi[of "n + s"] by simp
  qed simp
  have 2: "s \<le> n \<and> bit m (n - s) \<and> bit lo (n - s) \<longleftrightarrow> bit m (n - s) \<and> odd (n div s)"
  proof (cases "s \<le> n")
    case True
    then have "n div s = Suc ((n - s) div s)" using assms(1) by (simp add: le_div_geq)
    then show ?thesis using True lo[of "n - s"] \<open>n < 64\<close> by simp
  qed (use assms(1) in simp)
  have "bit (ucast x :: 'a word) n \<longleftrightarrow> bit x n" for x :: "64 word"
    using assms(3) by (simp add: bit_ucast_iff)
  then have "bit (swap_groups s hi lo m) n \<longleftrightarrow>
      (bit m (n + s) \<and> bit hi (n + s)) \<or> (s \<le> n \<and> bit m (n - s) \<and> bit lo (n - s))"
    using \<open>n < 64\<close>
    by (auto simp: swap_groups_def bit_or_iff bit_drop_bit_eq bit_push_bit_iff bit_and_iff up add.commute)
  then show ?thesis unfolding 1 2 by simp
qed

lemma reverse_index:
  fixes q k r :: nat
  assumes "q < k" "r < 8"
  shows "8 * (k - 1 - q) + 7 < 8 * k" and "8 * (k - 1 - q) + (7 - r) = 8 * k - 1 - (8 * q + r)"
proof -
  obtain d where "k = Suc q + d" using assms(1) by (metis Suc_leI le_Suc_ex)
  then show "8 * (k - 1 - q) + 7 < 8 * k" and "8 * (k - 1 - q) + (7 - r) = 8 * k - 1 - (8 * q + r)"
    using assms(2) by simp_all
qed

lemma bitReverse_bits:
  fixes v :: "'a::len word"
  assumes "int_width LENGTH('a)" "n < LENGTH('a)"
  shows "bit (bitReverse v) n \<longleftrightarrow> bit v (LENGTH('a) - 1 - n)"
proof -
  define m1 where "m1 = swap_groups 1 0xAAAAAAAAAAAAAAAA 0x5555555555555555 v"
  define m2 where "m2 = swap_groups 2 0xCCCCCCCCCCCCCCCC 0x3333333333333333 m1"
  define m3 where "m3 = swap_groups 4 0xF0F0F0F0F0F0F0F0 0x0F0F0F0F0F0F0F0F m2"
  have L: "LENGTH('a) \<le> 64" "8 dvd LENGTH('a)" using assms(1) by (auto simp: int_width_def)
  have b1: "bit m1 k \<longleftrightarrow> bit v (if even k then k + 1 else k - 1)" if "k < LENGTH('a)" for k
    unfolding m1_def by (subst bit_swap_groups) (use that L mask_bits(1,2) in auto)
  have b2: "bit m2 k \<longleftrightarrow> bit m1 (if even (k div 2) then k + 2 else k - 2)" if "k < LENGTH('a)" for k
    unfolding m2_def by (subst bit_swap_groups) (use that L mask_bits(3,4) in auto)
  have b3: "bit m3 k \<longleftrightarrow> bit m2 (if even (k div 4) then k + 4 else k - 4)" if "k < LENGTH('a)" for k
    unfolding m3_def by (subst bit_swap_groups) (use that L mask_bits(5,6) in auto)
  have byte: "bit m3 (8 * a + c) \<longleftrightarrow> bit v (8 * a + (7 - c))" if "8 * a + 7 < LENGTH('a)" "c < 8" for a c
  proof -
    have f: "(if even (8 * a + x) then 8 * a + x + 1 else 8 * a + x - 1) = 8 * a + (if even x then x + 1 else x - 1)"
      "(if even ((8 * a + x) div 2) then 8 * a + x + 2 else 8 * a + x - 2) = 8 * a + (if even (x div 2) then x + 2 else x - 2)"
      "(if even ((8 * a + x) div 4) then 8 * a + x + 4 else 8 * a + x - 4) = 8 * a + (if even (x div 4) then x + 4 else x - 4)"
      for x
    proof -
      have d: "(8 * a + x) div 2 = 4 * a + x div 2" "(8 * a + x) div 4 = 2 * a + x div 4" by simp_all
      have "odd x \<Longrightarrow> 1 \<le> x" by (cases x) simp_all
      moreover have "odd (x div 2) \<Longrightarrow> 2 \<le> x" "odd (x div 4) \<Longrightarrow> 4 \<le> x"
        by (auto intro: ccontr)
      ultimately show "(if even (8 * a + x) then 8 * a + x + 1 else 8 * a + x - 1) = 8 * a + (if even x then x + 1 else x - 1)"
        "(if even ((8 * a + x) div 2) then 8 * a + x + 2 else 8 * a + x - 2) = 8 * a + (if even (x div 2) then x + 2 else x - 2)"
        "(if even ((8 * a + x) div 4) then 8 * a + x + 4 else 8 * a + x - 4) = 8 * a + (if even (x div 4) then x + 4 else x - 4)"
        unfolding d by simp_all
    qed
    have g: "bit m1 (8 * a + x) \<longleftrightarrow> bit v (8 * a + (if even x then x + 1 else x - 1))"
      "bit m2 (8 * a + x) \<longleftrightarrow> bit m1 (8 * a + (if even (x div 2) then x + 2 else x - 2))"
      "bit m3 (8 * a + x) \<longleftrightarrow> bit m2 (8 * a + (if even (x div 4) then x + 4 else x - 4))"
      if "x < 8" for x
      using b1[of "8 * a + x"] b2[of "8 * a + x"] b3[of "8 * a + x"] that \<open>8 * a + 7 < _\<close> f[of x] by simp_all
    from less_8_cases[OF \<open>c < 8\<close>] show ?thesis
      using g[of 0] g[of 1] g[of 2] g[of 3] g[of 4] g[of 5] g[of 6] g[of 7] by (elim disjE) (simp_all add: Suc3_eq_add_3)
  qed
  let ?a = "LENGTH('a) div 8 - 1 - n div 8"
  have "n div 8 < LENGTH('a) div 8" using assms(2) L(2) by (metis dvd_mult_div_cancel less_mult_imp_div_less mult.commute)
  moreover have k: "8 * (LENGTH('a) div 8) = LENGTH('a)" using L(2) by simp
  moreover have m: "8 * (n div 8) + n mod 8 = n" "n mod 8 < 8" by simp_all
  ultimately have e: "8 * ?a + 7 < LENGTH('a)" "8 * ?a + (7 - n mod 8) = LENGTH('a) - 1 - n"
    using reverse_index[of "n div 8" "LENGTH('a) div 8" "n mod 8", unfolded k m(1)] by blast+
  have "bit (bitReverse v) n \<longleftrightarrow> bit (byteswap_gen m3) n"
    by (simp add: bitReverse_def Let_def EndianInt_swap_def m1_def m2_def m3_def)
  also have "\<dots> \<longleftrightarrow> bit m3 (8 * ?a + n mod 8)" by (rule bit_byteswap[OF L(2) assms(2)])
  also have "\<dots> \<longleftrightarrow> bit v (8 * ?a + (7 - n mod 8))" by (rule byte[OF e(1) m(2)])
  finally show ?thesis unfolding e(2) .
qed

section \<open>Properties\<close>

text \<open>
  The scanning functions, on every C++ integer width: \<^verbatim>\<open>findFirstSet\<close> and \<^verbatim>\<open>findLastSet\<close> (computed with a
  leading-zero count and an exclusive or) are 0 on zero and otherwise one plus the index of the lowest
  and highest set bit, \<^verbatim>\<open>findLastSet\<close> being \<open>1 + floor (log2 v)\<close>; \<^verbatim>\<open>extractFirstSet\<close> keeps exactly the
  lowest bit and \<^verbatim>\<open>popcount\<close> counts the set bits.
\<close>

lemma bits_scan_correct:
  fixes v :: "'a::len word"
  assumes "int_width LENGTH('a)"
  shows "(v = 0 \<longrightarrow> findFirstSet v = 0 \<and> findLastSet v = 0 \<and> extractFirstSet v = 0)
    \<and> (v \<noteq> 0 \<longrightarrow> (\<exists>lo hi. findFirstSet v = lo + 1 \<and> bit v lo \<and> (\<forall>j < lo. \<not> bit v j)
          \<and> extractFirstSet v = 2 ^ lo
          \<and> findLastSet v = hi + 1 \<and> 2 ^ hi \<le> unat v \<and> unat v < 2 ^ (hi + 1)))
    \<and> popcount v = card {k. bit v k}"
proof -
  have "findFirstSet (0 :: 'a word) = 0"
    by (simp add: findFirstSet_def builtin_ffs_def find_None_iff[THEN iffD2])
  moreover have "\<exists>lo hi. findFirstSet v = lo + 1 \<and> bit v lo \<and> (\<forall>j < lo. \<not> bit v j) \<and> extractFirstSet v = 2 ^ lo
      \<and> findLastSet v = hi + 1 \<and> 2 ^ hi \<le> unat v \<and> unat v < 2 ^ (hi + 1)" if nz: "v \<noteq> 0"
  proof -
    obtain lo where lo: "findFirstSet v = Suc lo" "is_lowest v lo" using findFirstSet_lowest[OF assms nz] by blast
    obtain hi where hi: "findLastSet v = Suc hi" "is_highest v hi" using findLastSet_highest[OF assms nz] by blast
    show ?thesis
      using lo hi extractFirstSet_bit[OF lo(2)] is_highest_bounds[OF hi(2)]
      by (intro exI[of _ lo] exI[of _ hi]) (simp add: is_lowest_def)
  qed
  ultimately show ?thesis using popcount_card[OF assms, of v] by (auto simp: extractFirstSet_def)
qed

text \<open>
  C40. Powers of two, for every value of an unsigned type of 8 to 64 bits: \<^verbatim>\<open>isPowTwo\<close> holds exactly of the values \<open>2 ^ n\<close>, thus
  not of 0; \<^verbatim>\<open>prevPowTwo\<close> is 0 for 0 and otherwise the greatest power not above its argument; \<^verbatim>\<open>nextPowTwo\<close> is 1 for 0, the
  least power not below its argument up to half the range, and above that the shift leaves the type: the result is 0 for 8
  and 16 bit types and undefined for wider ones.
\<close>

theorem bits_pow2_correct:
  fixes v :: "'a::len word"
  assumes "int_width LENGTH('a)"
  shows "(isPowTwo v \<longleftrightarrow> (\<exists>n < LENGTH('a). v = 2 ^ n))
    \<and> (if v = 0 then \<not> isPowTwo v \<and> prevPowTwo v = Inr 0
       else \<exists>n < LENGTH('a). prevPowTwo v = Inr (2 ^ n) \<and> 2 ^ n \<le> unat v \<and> unat v < 2 ^ Suc n)
    \<and> (if v = 0 then nextPowTwo v = Inr 1
       else if unat v \<le> 2 ^ (LENGTH('a) - 1)
       then \<exists>n < LENGTH('a). nextPowTwo v = Inr (2 ^ n) \<and> unat v \<le> 2 ^ n \<and> (\<forall>m. unat v \<le> 2 ^ m \<longrightarrow> n \<le> m)
       else nextPowTwo v = (if LENGTH('a) < 32 then Inr 0 else Inl Undefined))"
proof (cases "v = 0")
  case True
  then show ?thesis using isPowTwo_iff[of v] by (simp add: isPowTwo_def prevPowTwo_def nextPowTwo_def)
next
  case False
  then show ?thesis using isPowTwo_iff[of v] prevPowTwo_nearest[OF assms False] nextPowTwo_nearest[OF assms False] by simp
qed

theorem bits_pow2_correct_witness:
  "(isPowTwo (96 :: 8 word) \<longleftrightarrow> (\<exists>n < 8. (96 :: 8 word) = 2 ^ n)) \<and> nextPowTwo (200 :: 8 word) = Inr 0
    \<and> \<not> isPowTwo (0 :: 8 word) \<and> nextPowTwo (0 :: 8 word) = Inr 1"
proof -
  have w: "int_width LENGTH(8)" by (simp add: int_width_def)
  show ?thesis using bits_pow2_correct[OF w, of 96] bits_pow2_correct[OF w, of 200] bits_pow2_correct[OF w, of 0] by simp
qed

text \<open>
  Memory access at any alignment: what \<^verbatim>\<open>storeUnaligned\<close> writes inside a buffer \<^verbatim>\<open>loadUnaligned\<close> reads back,
  with no other byte changed, and \<^verbatim>\<open>partialLoadUnaligned\<close> assembles the \<open>l\<close> bytes at the pointer, for
  every \<open>l\<close> below the size of the type, into the low bytes of the value without reading beyond them,
  whether it loads words of four, two and one bytes or copies.
\<close>

lemma bits_unaligned_correct:
  fixes x :: "'a::len word" and buf :: "8 word list"
  assumes "int_width LENGTH('a)" and "p + LENGTH('a) div 8 \<le> length buf"
    and "l < LENGTH('a) div 8" and "cp + l \<le> length buf"
  shows "(\<exists>buf'. storeUnaligned buf p x = Inr buf' \<and> length buf' = length buf \<and> loadUnaligned buf' p = Inr x
      \<and> take p buf' = take p buf \<and> drop (p + LENGTH('a) div 8) buf' = drop (p + LENGTH('a) div 8) buf)
    \<and> partialLoadUnaligned unaligned buf cp l = Inr (of_le_bytes (take l (drop cp buf)) :: 'a word)"
  using load_store[of p buf x] partial_load_bytes[where 'a = 'a, of l cp buf unaligned] assms int_width_dvd[OF assms(1)]
  by (auto simp: int_width_def)

text \<open>
  Byte order and bit order: swapping, and converting to big or little endian, twice gives the value
  back, the swap exchanges byte \<open>i\<close> with byte \<open>n - 1 - i\<close>, and \<^verbatim>\<open>bitReverse\<close>, three rounds of masks and
  shifts and a byte swap, moves every bit \<open>i\<close> to \<open>n - 1 - i\<close>.
\<close>

theorem bits_reverse_correct:
  fixes v :: "'a::len word"
  assumes "int_width LENGTH('a)"
  shows "EndianInt_swap (EndianInt_swap v) = v \<and> EndianInt_big (EndianInt_big v) = v
    \<and> EndianInt_little (EndianInt_little v) = v
    \<and> le_bytes (EndianInt_swap v) = rev (le_bytes v)
    \<and> (\<forall>i < LENGTH('a). bit (bitReverse v) i \<longleftrightarrow> bit v (LENGTH('a) - 1 - i))"
proof -
  have d: "8 dvd LENGTH('a)" by (rule int_width_dvd[OF assms])
  then have "le_bytes (EndianInt_swap v) = rev (le_bytes v)"
    unfolding EndianInt_swap_def byteswap_gen_def by (intro le_bytes_of_le_bytes) simp
  then show ?thesis
    using bitReverse_bits[OF assms] byteswap_involution[OF d]
    by (simp add: EndianInt_swap_def EndianInt_big_def EndianInt_little_def kIsLittleEndian_def)
qed

end
