(* ===== verification/Codec.thy ===== *)
theory Codec
  imports Prelude
begin

text \<open>
  The interface of a self-delimiting encoding: decoding an encoded value followed by anything gives the
  value and the rest of the input.  Streams of encoded values can then be decoded one after the other.
  The variable-length integer formats below are instances.
\<close>

fun encode_all :: "('v \<Rightarrow> 'b list) \<Rightarrow> 'v list \<Rightarrow> 'b list" where
  "encode_all enc [] = []"
| "encode_all enc (v # vs) = enc v @ encode_all enc vs"

fun decode_n :: "('b list \<Rightarrow> ('e + 'v \<times> 'b list)) \<Rightarrow> nat \<Rightarrow> 'b list \<Rightarrow> ('e + 'v list \<times> 'b list)" where
  "decode_n dec 0 bs = Inr ([], bs)"
| "decode_n dec (Suc n) bs =
     (case dec bs of
        Inl e \<Rightarrow> Inl e
      | Inr (v, rest) \<Rightarrow>
          (case decode_n dec n rest of Inl e \<Rightarrow> Inl e | Inr (vs, rest') \<Rightarrow> Inr (v # vs, rest')))"

locale codec =
  fixes valid :: "'v \<Rightarrow> bool"
    and enc :: "'v \<Rightarrow> 'b list"
    and dec :: "'b list \<Rightarrow> ('e + 'v \<times> 'b list)"
  assumes dec_enc: "valid v \<Longrightarrow> dec (enc v @ rest) = Inr (v, rest)"
begin

lemma stream_roundtrip:
  "\<forall>v \<in> set vs. valid v \<Longrightarrow> decode_n dec (length vs) (encode_all enc vs @ rest) = Inr (vs, rest)"
  by (induction vs) (simp_all add: dec_enc)

lemma enc_prefix_free:
  assumes "valid v" "valid w" "enc v @ r = enc w @ s"
  shows "v = w \<and> r = s"
  using dec_enc[OF assms(1), of r] dec_enc[OF assms(2), of s] unfolding assms(3) by simp

lemma enc_inj: "valid v \<Longrightarrow> valid w \<Longrightarrow> enc v = enc w \<Longrightarrow> v = w"
  using enc_prefix_free[of v w "[]" "[]"] by simp

end

end
