(* ===== verification/GroupVarint.thy ===== *)
theory GroupVarint
  imports Bits_Correct Codec
begin

text \<open>
  \<^verbatim>\<open>folly/GroupVarint.h\<close>, \<^verbatim>\<open>GroupVarint.cpp\<close> and \<^verbatim>\<open>detail/GroupVarintDetail.h\<close>: groups of four 32-bit or five
  64-bit integers, a header with the length of each and then the significant bytes of each, written
  and read with unaligned accesses that run over into the neighbouring bytes.  Buffers are byte
  lists and pointers offsets; every access outside a buffer is \<open>Undefined\<close>.  The arrays of a group are
  lists.  The class templates \<^verbatim>\<open>GroupVarintEncoder\<close> and \<^verbatim>\<open>GroupVarintDecoder\<close> take the \<^verbatim>\<open>GroupVarint\<close> class
  they are instantiated with as a record of its static members.
\<close>

unbundle bit_operations_syntax

section \<open>GroupVarint of uint32\<close>

definition gv32_kGroupSize :: nat where
  "gv32_kGroupSize = 4"

definition gv32_kHeaderSize :: nat where
  "gv32_kHeaderSize = 1"

definition gv32_kMaxSize :: nat where
  "gv32_kMaxSize = gv32_kHeaderSize + 4 * gv32_kGroupSize"

definition gv32_key :: "32 word \<Rightarrow> nat" where
  "gv32_key x = 3 - builtin_clz (x OR 1) div 8"

definition gv32_b0key :: "nat \<Rightarrow> nat" where
  "gv32_b0key x = x AND 3"

definition gv32_b1key :: "nat \<Rightarrow> nat" where
  "gv32_b1key x = drop_bit 2 x AND 3"

definition gv32_b2key :: "nat \<Rightarrow> nat" where
  "gv32_b2key x = drop_bit 4 x AND 3"

definition gv32_b3key :: "nat \<Rightarrow> nat" where
  "gv32_b3key x = drop_bit 6 x AND 3"

definition gv32_kMask :: "32 word list" where
  "gv32_kMask = [0xff, 0xffff, 0xffffff, 0xffffffff]"

definition gv32_size :: "32 word \<Rightarrow> 32 word \<Rightarrow> 32 word \<Rightarrow> 32 word \<Rightarrow> nat" where
  "gv32_size a b c d = gv32_kHeaderSize + gv32_kGroupSize + gv32_key a + gv32_key b + gv32_key c + gv32_key d"

definition gv32_size_array :: "32 word list \<Rightarrow> nat res" where
  "gv32_size_array p =
     bindE (rd p 0) (\<lambda>a. bindE (rd p 1) (\<lambda>b. bindE (rd p 2) (\<lambda>c. bindE (rd p 3) (\<lambda>d. Inr (gv32_size a b c d)))))"

fun sum_keys :: "('w \<Rightarrow> nat) \<Rightarrow> 'w list \<Rightarrow> nat \<Rightarrow> nat \<Rightarrow> nat res" where
  "sum_keys key p 0 s = Inr s"
| "sum_keys key [] (Suc count) s = Inl Undefined"
| "sum_keys key (x # p) (Suc count) s = sum_keys key p count (s + key x)"

text \<open>A failed \<^verbatim>\<open>DCHECK\<close> ends the program.\<close>

definition gv32_partialSize :: "32 word list \<Rightarrow> nat \<Rightarrow> nat res" where
  "gv32_partialSize p count =
     (if \<not> count \<le> gv32_kGroupSize then Inl Terminate
      else sum_keys gv32_key p count (gv32_kHeaderSize + count))"

text \<open>The number of values, given by their keys in order, that fit when the sum passes the size.\<close>

fun count_fitting :: "nat list \<Rightarrow> nat \<Rightarrow> nat \<Rightarrow> nat \<Rightarrow> nat" where
  "count_fitting [] s sz n = n"
| "count_fitting (k # ks) s sz n = (if s + (1 + k) > sz then n else count_fitting ks (s + (1 + k)) sz (n + 1))"

definition gv32_partialCount :: "8 word list \<Rightarrow> nat \<Rightarrow> nat \<Rightarrow> nat res" where
  "gv32_partialCount buf p sz =
     bindE (rd buf p) (\<lambda>v.
     Inr (count_fitting [gv32_b0key (unat v), gv32_b1key (unat v), gv32_b2key (unat v), gv32_b3key (unat v)]
            gv32_kHeaderSize sz 0))"

definition gv32_encodedSize :: "8 word list \<Rightarrow> nat \<Rightarrow> nat res" where
  "gv32_encodedSize buf p =
     bindE (rd buf p) (\<lambda>v.
     Inr (gv32_kHeaderSize + gv32_kGroupSize + gv32_b0key (unat v) + gv32_b1key (unat v) + gv32_b2key (unat v)
            + gv32_b3key (unat v)))"

definition gv32_encode ::
  "8 word list \<Rightarrow> nat \<Rightarrow> 32 word \<Rightarrow> 32 word \<Rightarrow> 32 word \<Rightarrow> 32 word \<Rightarrow> (nat \<times> 8 word list) res" where
  "gv32_encode buf p a b c d =
     (let b0key = gv32_key a; b1key = gv32_key b; b2key = gv32_key c; b3key = gv32_key d in
      bindE (wr buf p (of_nat (push_bit 6 b3key OR push_bit 4 b2key OR push_bit 2 b1key OR b0key))) (\<lambda>buf0.
      let p0 = p + 1 in
      bindE (storeUnaligned buf0 p0 a) (\<lambda>buf1.
      let p1 = p0 + (b0key + 1) in
      bindE (storeUnaligned buf1 p1 b) (\<lambda>buf2.
      let p2 = p1 + (b1key + 1) in
      bindE (storeUnaligned buf2 p2 c) (\<lambda>buf3.
      let p3 = p2 + (b2key + 1) in
      bindE (storeUnaligned buf3 p3 d) (\<lambda>buf4.
      Inr (p3 + (b3key + 1), buf4)))))))"

definition gv32_encode_array :: "8 word list \<Rightarrow> nat \<Rightarrow> 32 word list \<Rightarrow> (nat \<times> 8 word list) res" where
  "gv32_encode_array buf p src =
     bindE (rd src 0) (\<lambda>a. bindE (rd src 1) (\<lambda>b. bindE (rd src 2) (\<lambda>c. bindE (rd src 3) (\<lambda>d.
       gv32_encode buf p a b c d))))"

section \<open>Tables\<close>

definition get_d :: "nat \<Rightarrow> nat \<Rightarrow> nat" where
  "get_d index j = 1 + (drop_bit (2 * j) index AND 3)"

definition get_offset :: "nat \<Rightarrow> nat \<Rightarrow> nat" where
  "get_offset index j =
     (if j > 0 then get_d index 0 else 0) + (if j > 1 then get_d index 1 else 0) +
     (if j > 2 then get_d index 2 else 0) + (if j > 3 then get_d index 3 else 0) + 0"

definition table_length_item :: "nat \<Rightarrow> nat" where
  "table_length_item index = 1 + get_offset index 4"

definition groupVarintLengths :: "nat list" where
  "groupVarintLengths = map table_length_item [0..<256]"

definition partial_item :: "nat \<Rightarrow> nat \<Rightarrow> nat \<Rightarrow> 32 word" where
  "partial_item d offset k = push_bit (8 * k) (of_nat (if k < d then offset + k else 0xff))"

definition item_impl :: "nat \<Rightarrow> nat \<Rightarrow> 32 word" where
  "item_impl d offset =
     partial_item d offset 0 OR partial_item d offset 1 OR partial_item d offset 2 OR partial_item d offset 3 OR 0"

definition table_item :: "nat \<Rightarrow> nat \<Rightarrow> 32 word" where
  "table_item index j = item_impl (get_d index j) (get_offset index j)"

definition table_sse_mask_item :: "nat \<Rightarrow> 32 word list" where
  "table_sse_mask_item index = [table_item index 0, table_item index 1, table_item index 2, table_item index 3]"

definition groupVarintSSEMasks :: "32 word list list" where
  "groupVarintSSEMasks = map table_sse_mask_item [0..<256]"

section \<open>Decoding a group of uint32\<close>

definition gv32_decode_simple :: "8 word list \<Rightarrow> nat \<Rightarrow> (nat \<times> 32 word list) res" where
  "gv32_decode_simple buf p =
     bindE (loadUnaligned buf p) (\<lambda>h. let k = unat (h :: 8 word) in
     bindE (rd groupVarintLengths k) (\<lambda>len. let end' = p + len; p0 = p + 1; k0 = gv32_b0key k in
     bindE (loadUnaligned buf p0) (\<lambda>x0. bindE (rd gv32_kMask k0) (\<lambda>m0.
     let a = x0 AND m0; p1 = p0 + (k0 + 1); k1 = gv32_b1key k in
     bindE (loadUnaligned buf p1) (\<lambda>x1. bindE (rd gv32_kMask k1) (\<lambda>m1.
     let b = x1 AND m1; p2 = p1 + (k1 + 1); k2 = gv32_b2key k in
     bindE (loadUnaligned buf p2) (\<lambda>x2. bindE (rd gv32_kMask k2) (\<lambda>m2.
     let c = x2 AND m2; p3 = p2 + (k2 + 1); k3 = gv32_b3key k in
     bindE (loadUnaligned buf p3) (\<lambda>x3. bindE (rd gv32_kMask k3) (\<lambda>m3.
     let d = x3 AND m3 in Inr (end', [a, b, c, d])))))))))))"

text \<open>
  The SSSE3 path.  An XMM register is a list of sixteen bytes; \<^verbatim>\<open>_mm_shuffle_epi8\<close> selects, for each byte
  of the mask, the byte of the operand its low four bits name, or zero when its top bit is set.
\<close>

definition mm_shuffle_epi8 :: "8 word list \<Rightarrow> 8 word list \<Rightarrow> 8 word list" where
  "mm_shuffle_epi8 val msk = map (\<lambda>m. if bit m 7 then 0 else val ! (unat (m AND 0x0f))) msk"

definition gv32_decode_sse :: "8 word list \<Rightarrow> nat \<Rightarrow> (nat \<times> 32 word list) res" where
  "gv32_decode_sse buf p =
     bindE (rd buf p) (\<lambda>h. let key = unat h in
     bindE (load_bytes buf (p + 1) 16) (\<lambda>val.
     bindE (rd groupVarintSSEMasks key) (\<lambda>masks.
     let r = mm_shuffle_epi8 val (concat (map le_bytes masks)) in
     bindE (rd groupVarintLengths key) (\<lambda>len.
     Inr (p + len, map (\<lambda>j. of_le_bytes (take 4 (drop (4 * j) r))) [0..<4])))))"

section \<open>GroupVarint of uint64\<close>

definition gv64_kGroupSize :: nat where
  "gv64_kGroupSize = 5"

definition gv64_kHeaderSize :: nat where
  "gv64_kHeaderSize = 2"

definition gv64_kMaxSize :: nat where
  "gv64_kMaxSize = gv64_kHeaderSize + 8 * gv64_kGroupSize"

definition gv64_key :: "64 word \<Rightarrow> nat" where
  "gv64_key x = 7 - builtin_clz (x OR 1) div 8"

definition gv64_b0key :: "nat \<Rightarrow> nat" where
  "gv64_b0key x = x AND 7"

definition gv64_b1key :: "nat \<Rightarrow> nat" where
  "gv64_b1key x = drop_bit 3 x AND 7"

definition gv64_b2key :: "nat \<Rightarrow> nat" where
  "gv64_b2key x = drop_bit 6 x AND 7"

definition gv64_b3key :: "nat \<Rightarrow> nat" where
  "gv64_b3key x = drop_bit 9 x AND 7"

definition gv64_b4key :: "nat \<Rightarrow> nat" where
  "gv64_b4key x = drop_bit 12 x AND 7"

definition gv64_kMask :: "64 word list" where
  "gv64_kMask =
     [0xff, 0xffff, 0xffffff, 0xffffffff, 0xffffffffff, 0xffffffffffff, 0xffffffffffffff, 0xffffffffffffffff]"

definition gv64_size :: "64 word \<Rightarrow> 64 word \<Rightarrow> 64 word \<Rightarrow> 64 word \<Rightarrow> 64 word \<Rightarrow> nat" where
  "gv64_size a b c d e =
     gv64_kHeaderSize + gv64_kGroupSize + gv64_key a + gv64_key b + gv64_key c + gv64_key d + gv64_key e"

definition gv64_size_array :: "64 word list \<Rightarrow> nat res" where
  "gv64_size_array p =
     bindE (rd p 0) (\<lambda>a. bindE (rd p 1) (\<lambda>b. bindE (rd p 2) (\<lambda>c. bindE (rd p 3) (\<lambda>d. bindE (rd p 4) (\<lambda>e.
       Inr (gv64_size a b c d e))))))"

definition gv64_partialSize :: "64 word list \<Rightarrow> nat \<Rightarrow> nat res" where
  "gv64_partialSize p count =
     (if \<not> count \<le> gv64_kGroupSize then Inl Terminate
      else sum_keys gv64_key p count (gv64_kHeaderSize + count))"

definition gv64_partialCount :: "8 word list \<Rightarrow> nat \<Rightarrow> nat \<Rightarrow> nat res" where
  "gv64_partialCount buf p sz =
     bindE (loadUnaligned buf p) (\<lambda>v :: 16 word.
     Inr (count_fitting [gv64_b0key (unat v), gv64_b1key (unat v), gv64_b2key (unat v), gv64_b3key (unat v),
            gv64_b4key (unat v)] gv64_kHeaderSize sz 0))"

definition gv64_encodedSize :: "8 word list \<Rightarrow> nat \<Rightarrow> nat res" where
  "gv64_encodedSize buf p =
     bindE (loadUnaligned buf p) (\<lambda>n :: 16 word.
     Inr (gv64_kHeaderSize + gv64_kGroupSize + gv64_b0key (unat n) + gv64_b1key (unat n) + gv64_b2key (unat n)
            + gv64_b3key (unat n) + gv64_b4key (unat n)))"

definition gv64_encode ::
  "8 word list \<Rightarrow> nat \<Rightarrow> 64 word \<Rightarrow> 64 word \<Rightarrow> 64 word \<Rightarrow> 64 word \<Rightarrow> 64 word \<Rightarrow> (nat \<times> 8 word list) res" where
  "gv64_encode buf p a b c d e =
     (let b0key = gv64_key a; b1key = gv64_key b; b2key = gv64_key c; b3key = gv64_key d; b4key = gv64_key e in
      bindE (storeUnaligned buf p (of_nat (push_bit 12 b4key OR push_bit 9 b3key OR push_bit 6 b2key OR
               push_bit 3 b1key OR b0key) :: 16 word)) (\<lambda>buf0.
      let p0 = p + 2 in
      bindE (storeUnaligned buf0 p0 a) (\<lambda>buf1.
      let p1 = p0 + (b0key + 1) in
      bindE (storeUnaligned buf1 p1 b) (\<lambda>buf2.
      let p2 = p1 + (b1key + 1) in
      bindE (storeUnaligned buf2 p2 c) (\<lambda>buf3.
      let p3 = p2 + (b2key + 1) in
      bindE (storeUnaligned buf3 p3 d) (\<lambda>buf4.
      let p4 = p3 + (b3key + 1) in
      bindE (storeUnaligned buf4 p4 e) (\<lambda>buf5.
      Inr (p4 + (b4key + 1), buf5))))))))"

definition gv64_encode_array :: "8 word list \<Rightarrow> nat \<Rightarrow> 64 word list \<Rightarrow> (nat \<times> 8 word list) res" where
  "gv64_encode_array buf p src =
     bindE (rd src 0) (\<lambda>a. bindE (rd src 1) (\<lambda>b. bindE (rd src 2) (\<lambda>c. bindE (rd src 3) (\<lambda>d.
     bindE (rd src 4) (\<lambda>e. gv64_encode buf p a b c d e)))))"

definition gv64_decode :: "8 word list \<Rightarrow> nat \<Rightarrow> (nat \<times> 64 word list) res" where
  "gv64_decode buf p =
     bindE (loadUnaligned buf p) (\<lambda>h. let k = unat (h :: 16 word); p0 = p + 2; k0 = gv64_b0key k in
     bindE (loadUnaligned buf p0) (\<lambda>x0. bindE (rd gv64_kMask k0) (\<lambda>m0.
     let a = x0 AND m0; p1 = p0 + (k0 + 1); k1 = gv64_b1key k in
     bindE (loadUnaligned buf p1) (\<lambda>x1. bindE (rd gv64_kMask k1) (\<lambda>m1.
     let b = x1 AND m1; p2 = p1 + (k1 + 1); k2 = gv64_b2key k in
     bindE (loadUnaligned buf p2) (\<lambda>x2. bindE (rd gv64_kMask k2) (\<lambda>m2.
     let c = x2 AND m2; p3 = p2 + (k2 + 1); k3 = gv64_b3key k in
     bindE (loadUnaligned buf p3) (\<lambda>x3. bindE (rd gv64_kMask k3) (\<lambda>m3.
     let d = x3 AND m3; p4 = p3 + (k3 + 1); k4 = gv64_b4key k in
     bindE (loadUnaligned buf p4) (\<lambda>x4. bindE (rd gv64_kMask k4) (\<lambda>m4.
     let e = x4 AND m4; p5 = p4 + (k4 + 1) in Inr (p5, [a, b, c, d, e]))))))))))))"

section \<open>The static members of a GroupVarint class\<close>

record 'w gv_base =
  gv_kGroupSize :: nat
  gv_kHeaderSize :: nat
  gv_sizeof_type :: nat
  gv_kMaxSize :: nat
  gv_size :: "'w list \<Rightarrow> nat res"
  gv_partialSize :: "'w list \<Rightarrow> nat \<Rightarrow> nat res"
  gv_encodedSize :: "8 word list \<Rightarrow> nat \<Rightarrow> nat res"
  gv_partialCount :: "8 word list \<Rightarrow> nat \<Rightarrow> nat \<Rightarrow> nat res"
  gv_encode :: "8 word list \<Rightarrow> nat \<Rightarrow> 'w list \<Rightarrow> (nat \<times> 8 word list) res"
  gv_decode :: "8 word list \<Rightarrow> nat \<Rightarrow> (nat \<times> 'w list) res"

text \<open>\<open>ssse3\<close> says which of the two definitions of \<^verbatim>\<open>GroupVarint32::decode\<close> is compiled.\<close>

definition gv32_decode :: "bool \<Rightarrow> 8 word list \<Rightarrow> nat \<Rightarrow> (nat \<times> 32 word list) res" where
  "gv32_decode ssse3 buf p = (if ssse3 then gv32_decode_sse buf p else gv32_decode_simple buf p)"

definition GroupVarint32 :: "bool \<Rightarrow> 32 word gv_base" where
  "GroupVarint32 ssse3 = \<lparr>gv_kGroupSize = gv32_kGroupSize, gv_kHeaderSize = gv32_kHeaderSize, gv_sizeof_type = 4,
     gv_kMaxSize = gv32_kMaxSize, gv_size = gv32_size_array, gv_partialSize = gv32_partialSize,
     gv_encodedSize = gv32_encodedSize, gv_partialCount = gv32_partialCount, gv_encode = gv32_encode_array, gv_decode = gv32_decode ssse3\<rparr>"

definition GroupVarint64 :: "64 word gv_base" where
  "GroupVarint64 = \<lparr>gv_kGroupSize = gv64_kGroupSize, gv_kHeaderSize = gv64_kHeaderSize, gv_sizeof_type = 8,
     gv_kMaxSize = gv64_kMaxSize, gv_size = gv64_size_array, gv_partialSize = gv64_partialSize,
     gv_encodedSize = gv64_encodedSize, gv_partialCount = gv64_partialCount, gv_encode = gv64_encode_array, gv_decode = gv64_decode\<rparr>"

definition gv_maxSize :: "'w gv_base \<Rightarrow> nat \<Rightarrow> nat" where
  "gv_maxSize B n =
     (let total = (n div gv_kGroupSize B) * (gv_kHeaderSize B + gv_kGroupSize B * gv_sizeof_type B);
          n' = n mod gv_kGroupSize B in
      if n' \<noteq> 0 then total + (gv_kHeaderSize B + n' * gv_sizeof_type B) else total)"

text \<open>The loop of \<^verbatim>\<open>totalSize\<close> ends because the group size is 4 or 5; \<open>p\<close> is the array from the pointer on.\<close>

function gv_totalSize_loop :: "'w gv_base \<Rightarrow> 'w list \<Rightarrow> nat \<Rightarrow> nat \<Rightarrow> nat res" where
  "gv_totalSize_loop B p n sz =
     (if 0 < gv_kGroupSize B \<and> n \<ge> gv_kGroupSize B
      then bindE (gv_size B p)
             (\<lambda>s. gv_totalSize_loop B (drop (gv_kGroupSize B) p) (n - gv_kGroupSize B) (sz + s))
      else if n \<noteq> 0 then bindE (gv_partialSize B p n) (\<lambda>s. Inr (sz + s))
      else Inr sz)"
  by pat_completeness auto

termination gv_totalSize_loop
  by (relation "measure (\<lambda>(B, p, n, sz). n)") auto

declare gv_totalSize_loop.simps [simp del]

definition gv_totalSize :: "'w gv_base \<Rightarrow> 'w list \<Rightarrow> nat \<Rightarrow> nat res" where
  "gv_totalSize B p n = gv_totalSize_loop B p n 0"

section \<open>GroupVarintEncoder\<close>

text \<open>The output is the list of bytes appended by the calls of \<^verbatim>\<open>out_\<close>.  The contents of \<^verbatim>\<open>tmp_\<close> and \<^verbatim>\<open>buf_\<close>
  before the first write are arbitrary and are arguments of the constructor.\<close>

record 'w gv_encoder =
  enc_out :: "8 word list"
  enc_tmp :: "8 word list"
  enc_buf :: "'w list"
  enc_count :: nat

definition gv_encoder_new :: "8 word list \<Rightarrow> 8 word list \<Rightarrow> 'w list \<Rightarrow> 'w gv_encoder" where
  "gv_encoder_new out tmp0 buf0 = \<lparr>enc_out = out, enc_tmp = tmp0, enc_buf = buf0, enc_count = 0\<rparr>"

definition gv_encoder_add :: "'w gv_base \<Rightarrow> 'w \<Rightarrow> 'w gv_encoder \<Rightarrow> 'w gv_encoder res" where
  "gv_encoder_add B val e =
     bindE (wr (enc_buf e) (enc_count e) val) (\<lambda>buf.
     let count = enc_count e + 1 in
     if count = gv_kGroupSize B
     then bindE (gv_encode B (enc_tmp e) 0 buf) (\<lambda>(p, tmp).
          Inr (e\<lparr>enc_out := enc_out e @ take p tmp, enc_tmp := tmp, enc_buf := buf, enc_count := 0\<rparr>))
     else Inr (e\<lparr>enc_buf := buf, enc_count := count\<rparr>))"

definition gv_encoder_finish :: "('w::zero) gv_base \<Rightarrow> 'w gv_encoder \<Rightarrow> 'w gv_encoder res" where
  "gv_encoder_finish B e =
     (if enc_count e \<noteq> 0
      then bindE (store_loop (\<lambda>i. Inr 0) 0 (enc_count e) (gv_kGroupSize B - enc_count e) (enc_buf e)) (\<lambda>buf.
           bindE (gv_encode B (enc_tmp e) 0 buf) (\<lambda>(p, tmp).
           bindE (gv_partialSize B buf (enc_count e)) (\<lambda>n.
           Inr (e\<lparr>enc_out := enc_out e @ take n tmp, enc_tmp := tmp, enc_buf := buf, enc_count := 0\<rparr>))))
      else Inr e)"

definition gv_encoder_clear :: "'w gv_encoder \<Rightarrow> 'w gv_encoder" where
  "gv_encoder_clear e = e\<lparr>enc_count := 0\<rparr>"

definition gv_encoder_destroy :: "('w::zero) gv_base \<Rightarrow> 'w gv_encoder \<Rightarrow> 8 word list res" where
  "gv_encoder_destroy B e = bindE (gv_encoder_finish B e) (\<lambda>e'. Inr (enc_out e'))"

section \<open>GroupVarintDecoder\<close>

text \<open>
  \<^verbatim>\<open>p_\<close>, \<^verbatim>\<open>end_\<close> and \<^verbatim>\<open>limit_\<close> point into the data given to the constructor or, after the copy in \<^verbatim>\<open>next\<close>,
  into \<^verbatim>\<open>tmp_\<close>: the three are offsets into the buffer that \<open>dec_in_tmp\<close> tells.  \<^verbatim>\<open>rrest_\<close> is an offset into
  the data.
\<close>

record 'w gv_decoder =
  dec_data :: "8 word list"
  dec_rrest :: nat
  dec_in_tmp :: bool
  dec_p :: nat
  dec_end :: nat
  dec_limit :: nat
  dec_tmp :: "8 word list"
  dec_buf :: "'w list"
  dec_pos :: nat
  dec_count :: nat
  dec_remaining :: nat

definition gv_decoder_new :: "8 word list \<Rightarrow> nat \<Rightarrow> 8 word list \<Rightarrow> 'w list \<Rightarrow> 'w gv_decoder" where
  "gv_decoder_new data maxCount tmp0 buf0 =
     \<lparr>dec_data = data, dec_rrest = length data, dec_in_tmp = False, dec_p = 0, dec_end = length data,
      dec_limit = length data, dec_tmp = tmp0, dec_buf = buf0, dec_pos = 0, dec_count = 0,
      dec_remaining = maxCount\<rparr>"

definition gv_decoder_reset :: "8 word list \<Rightarrow> nat \<Rightarrow> 'w gv_decoder \<Rightarrow> 'w gv_decoder" where
  "gv_decoder_reset data maxCount d =
     d\<lparr>dec_data := data, dec_rrest := length data, dec_in_tmp := False, dec_p := 0, dec_end := length data,
       dec_limit := length data, dec_pos := 0, dec_count := 0, dec_remaining := maxCount\<rparr>"

definition dec_memory :: "'w gv_decoder \<Rightarrow> 8 word list" where
  "dec_memory d = (if dec_in_tmp d then dec_tmp d else dec_data d)"

text \<open>\<^verbatim>\<open>memcpy(tmp_, p_, rem)\<close> and the three assignments after it; overlapping operands are undefined.\<close>

definition dec_to_tmp :: "nat \<Rightarrow> 'w gv_decoder \<Rightarrow> 'w gv_decoder res" where
  "dec_to_tmp rem d =
     (if dec_in_tmp d \<and> dec_p d < rem then Inl Undefined
      else bindE (load_bytes (dec_memory d) (dec_p d) rem) (\<lambda>bs.
           if rem \<le> length (dec_tmp d)
           then Inr (d\<lparr>dec_tmp := bs @ drop rem (dec_tmp d), dec_in_tmp := True, dec_p := 0, dec_end := rem,
                        dec_limit := length (dec_tmp d)\<rparr>)
           else Inl Undefined))"

definition dec_refill :: "'w gv_base \<Rightarrow> 'w gv_decoder \<Rightarrow> 'w gv_decoder res" where
  "dec_refill B d0 =
     (let d = d0\<lparr>dec_pos := 0\<rparr> in
      bindE (gv_decode B (dec_memory d) (dec_p d)) (\<lambda>(n, buf).
      if n \<le> dec_end d
      then if dec_remaining d \<ge> gv_kGroupSize B
           then Inr (d\<lparr>dec_buf := buf, dec_remaining := dec_remaining d - gv_kGroupSize B,
                       dec_count := gv_kGroupSize B, dec_p := n\<rparr>)
           else bindE (gv_partialSize B buf (dec_remaining d)) (\<lambda>s.
                Inr (d\<lparr>dec_buf := buf, dec_count := dec_remaining d, dec_remaining := 0,
                       dec_p := dec_p d + s\<rparr>))
      else bindE (gv_partialCount B (dec_memory d) (dec_p d) (dec_end d - dec_p d)) (\<lambda>count.
           if dec_remaining d \<ge> count
           then Inr (d\<lparr>dec_buf := buf, dec_count := count, dec_remaining := dec_remaining d - count,
                       dec_p := dec_end d\<rparr>)
           else bindE (gv_partialSize B buf (dec_remaining d)) (\<lambda>s.
                Inr (d\<lparr>dec_buf := buf, dec_count := dec_remaining d, dec_remaining := 0,
                       dec_p := dec_p d + s\<rparr>)))))"

definition dec_take :: "'w gv_decoder \<Rightarrow> ('w option \<times> 'w gv_decoder) res" where
  "dec_take d = bindE (rd (dec_buf d) (dec_pos d)) (\<lambda>v. Inr (Some v, d\<lparr>dec_pos := dec_pos d + 1\<rparr>))"

text \<open>\<open>None\<close> is the result \<^verbatim>\<open>false\<close>.  A full group never leaves the count 0, so the test that ends the branch
  of the incomplete group may stand after both.\<close>

definition gv_decoder_next :: "'w gv_base \<Rightarrow> 'w gv_decoder \<Rightarrow> ('w option \<times> 'w gv_decoder) res" where
  "gv_decoder_next B d =
     (if dec_pos d = dec_count d
      then let rem = dec_end d - dec_p d in
           if rem = 0 \<or> dec_remaining d = 0 then Inr (None, d)
           else bindE (if dec_limit d - dec_p d < gv_kMaxSize B then dec_to_tmp rem d else Inr d) (\<lambda>d1.
                bindE (dec_refill B d1) (\<lambda>d2.
                if dec_count d2 = 0 then Inr (None, d2) else dec_take d2))
      else dec_take d)"

definition gv_decoder_rest :: "'w gv_decoder \<Rightarrow> 8 word list res" where
  "gv_decoder_rest d =
     (if dec_pos d = dec_count d \<and> (dec_p d = dec_end d \<or> dec_remaining d = 0)
      then let n = dec_end d - dec_p d in
           if n \<le> dec_rrest d then Inr (drop (dec_rrest d - n) (take (dec_rrest d) (dec_data d)))
           else Inl Undefined
      else Inl Terminate)"

text \<open>The loops of the callers: add each value, finish; read values until \<^verbatim>\<open>next\<close> returns \<^verbatim>\<open>false\<close>, at most
  \<open>fuel\<close> times.\<close>

fun gv_add_all :: "'w gv_base \<Rightarrow> 'w list \<Rightarrow> 'w gv_encoder \<Rightarrow> 'w gv_encoder res" where
  "gv_add_all B [] e = Inr e"
| "gv_add_all B (v # vs) e = bindE (gv_encoder_add B v e) (gv_add_all B vs)"

fun gv_read_all :: "'w gv_base \<Rightarrow> nat \<Rightarrow> 'w gv_decoder \<Rightarrow> ('w list \<times> 'w gv_decoder) option res" where
  "gv_read_all B 0 d = Inr None"
| "gv_read_all B (Suc fuel) d =
     bindE (gv_decoder_next B d) (\<lambda>(r, d').
       case r of
         None \<Rightarrow> Inr (Some ([], d'))
       | Some v \<Rightarrow> bindE (gv_read_all B fuel d') (\<lambda>q.
           Inr (case q of None \<Rightarrow> None | Some (vs, d2) \<Rightarrow> Some (v # vs, d2))))"

end
