(* ===== verification/Varint.thy ===== *)
theory Varint
  imports Bits_Correct Codec
begin

text \<open>
  \<^verbatim>\<open>folly/Varint.h\<close>: base-128 integers, least significant group first, the top bit set on every byte but
  the last, and the zig-zag mapping of signed to unsigned values.  \<^verbatim>\<open>uint64_t\<close> and \<^verbatim>\<open>int64_t\<close> are
  \<open>64 word\<close>s (the signed ones read with \<open>sint\<close>), bytes \<open>8 word\<close>s.  A \<^verbatim>\<open>Range\<close> of input is the list of its
  bytes; decoding returns the value with the rest of the range, and leaves the range alone on errors.
\<close>

unbundle bit_operations_syntax

definition kMaxVarintLength32 :: nat where
  "kMaxVarintLength32 = 5"

definition kMaxVarintLength64 :: nat where
  "kMaxVarintLength64 = 10"

datatype DecodeVarintError = TooManyBytes | TooFewBytes

section \<open>Zig-zag\<close>

definition encodeZigZag :: "64 word \<Rightarrow> 64 word" where
  "encodeZigZag val = push_bit 1 val XOR signed_drop_bit 63 val"

definition decodeZigZag :: "64 word \<Rightarrow> 64 word" where
  "decodeZigZag val = drop_bit 1 val XOR - (val AND 1)"

section \<open>Encoding\<close>

lemma unat_drop_bit_7: "unat (drop_bit 7 val :: 64 word) = unat val div 128"
  by (simp add: drop_bit_eq_div unat_div)

function encodeVarint_loop :: "64 word \<Rightarrow> 8 word list \<Rightarrow> nat \<Rightarrow> (nat \<times> 8 word list) res" where
  "encodeVarint_loop val buf p =
     (if 128 \<le> val
      then bindE (wr buf p (0x80 OR ucast (val AND 0x7f))) (\<lambda>buf'. encodeVarint_loop (drop_bit 7 val) buf' (p + 1))
      else bindE (wr buf p (ucast val)) (\<lambda>buf'. Inr (p + 1, buf')))"
  by pat_completeness auto
termination
  by (relation "measure (\<lambda>(val, buf, p). unat val)")
     (auto simp: unat_drop_bit_7 word_le_nat_alt)

declare encodeVarint_loop.simps [simp del]

definition encodeVarint :: "64 word \<Rightarrow> 8 word list \<Rightarrow> (nat \<times> 8 word list) res" where
  "encodeVarint val buf = bindE (encodeVarint_loop val buf 0) (\<lambda>(p, buf'). Inr (p - 0, buf'))"

function varintSize_loop :: "64 word \<Rightarrow> nat \<Rightarrow> nat" where
  "varintSize_loop val s = (if 128 \<le> val then varintSize_loop (drop_bit 7 val) (s + 1) else s)"
  by pat_completeness auto
termination
  by (relation "measure (\<lambda>(val, s). unat val)") (auto simp: unat_drop_bit_7 word_le_nat_alt)

declare varintSize_loop.simps [simp del]

text \<open>\<open>amd64\<close> is \<^verbatim>\<open>kIsArchAmd64\<close>.\<close>

definition encodeVarintSize :: "bool \<Rightarrow> 64 word \<Rightarrow> nat" where
  "encodeVarintSize amd64 val =
     (if amd64
      then (let highBit = 64 - builtin_clz (val OR 1) in (highBit + 6) div 7)
      else varintSize_loop val 1)"

section \<open>Decoding\<close>

text \<open>
  The fast path is the loop unrolled ten times: nine groups of seven bits at the shifts \<open>0, 7, ..., 56\<close>
  and a tenth byte of which one bit is used.  Reading beyond the range is undefined.
\<close>

fun decode_fast :: "nat list \<Rightarrow> 8 word list \<Rightarrow> 64 word \<Rightarrow> (DecodeVarintError + 64 word \<times> 8 word list) res" where
  "decode_fast shifts [] val = Inl Undefined"
| "decode_fast (s # shifts) (b # bs) val =
     (let val' = val OR push_bit s (scast b AND 0x7f)
      in if 0 \<le> sint b then Inr (Inr (val', bs)) else decode_fast shifts bs val')"
| "decode_fast [] (b # bs) val =
     (let val' = val OR push_bit 63 (scast b AND 0x01)
      in if 0 \<le> sint b then Inr (Inr (val', bs)) else Inr (Inl TooManyBytes))"

fun decode_slow :: "8 word list \<Rightarrow> nat \<Rightarrow> 64 word \<Rightarrow> DecodeVarintError + 64 word \<times> 8 word list" where
  "decode_slow [] shift val = Inl TooFewBytes"
| "decode_slow (b # bs) shift val =
     (if sint b < 0
      then decode_slow bs (shift + 7) (val OR push_bit shift (ucast (b AND 0x7f)))
      else Inr (val OR push_bit shift (scast b), bs))"

definition tryDecodeVarint :: "8 word list \<Rightarrow> (DecodeVarintError + 64 word \<times> 8 word list) res" where
  "tryDecodeVarint data =
     (if kMaxVarintLength64 \<le> length data
      then decode_fast [0, 7, 14, 21, 28, 35, 42, 49, 56] data 0
      else Inr (decode_slow data 0 0))"

definition decodeVarint :: "8 word list \<Rightarrow> (64 word \<times> 8 word list) res" where
  "decodeVarint data =
     bindE (tryDecodeVarint data) (\<lambda>expected.
       case expected of Inl e \<Rightarrow> Inl Invalid_argument | Inr r \<Rightarrow> Inr r)"

end
