(* ===== verification/Varint_Correct.thy ===== *)
theory Varint_Correct
  imports Varint
begin

text \<open>
  Correctness of the variable-length integers.  The reference is the base-128 expansion of natural
  numbers (\<open>base128\<close>, \<open>value128\<close>): both decoder paths compute the value of the groups up to the first
  byte with a clear top bit, on every input, and decode what the encoder writes.
\<close>

section \<open>Base 128\<close>

fun base128 :: "nat \<Rightarrow> nat list" where
  "base128 n = (if n < 128 then [n] else (n mod 128 + 128) # base128 (n div 128))"

declare base128.simps [simp del]

primrec value128 :: "8 word list \<Rightarrow> nat" where
  "value128 [] = 0"
| "value128 (b # bs) = unat b mod 128 + 128 * value128 bs"

definition continues :: "8 word \<Rightarrow> bool" where
  "continues b \<longleftrightarrow> 128 \<le> unat b"

lemma unat_less_exp: "unat (w :: 'a::len word) < 2 ^ LENGTH('a)"
  by (rule unsigned_less)

lemma unat_less_256: "unat (b :: 8 word) < 256"
  using unsigned_less[of b] by simp

lemma sint_continues: "sint (b :: 8 word) < 0 \<longleftrightarrow> continues b"
  using uint_lt2p[of b] by (simp add: sint_unat continues_def)

lemma unat_and_mask: "unat (w AND mask n :: 'a::len word) = unat w mod 2 ^ n"
proof -
  have "w AND mask n = take_bit n w" by (rule take_bit_eq_mask[symmetric])
  moreover have "unat (take_bit n w) = unat w mod 2 ^ n"
    by (subst unsigned_take_bit_eq) (rule take_bit_eq_mod)
  ultimately show ?thesis by (rule ssubst)
qed

lemma unat_low7: "unat (b AND 0x7f :: 8 word) = unat b mod 128"
  using unat_and_mask[of b 7] by (simp add: mask_eq_exp_minus_1)

lemma ucast_low7: "(ucast (b AND 0x7f :: 8 word) :: 64 word) = of_nat (unat b mod 128)"
  by (simp flip: unat_low7)

lemma scast_and_mask: "k \<le> 8 \<Longrightarrow> (scast (b :: 8 word) AND mask k :: 64 word) = of_nat (unat b mod 2 ^ k)"
proof -
  assume "k \<le> 8"
  then have "(scast b AND mask k :: 64 word) = ucast (b AND mask k)"
    by (intro bit_eqI) (auto simp: bit_and_iff bit_mask_iff bit_ucast_iff bit_signed_iff)
  also have "\<dots> = of_nat (unat b mod 2 ^ k)" by (metis of_nat_unat unat_and_mask)
  finally show ?thesis .
qed

lemma scast_low7: "(scast (b :: 8 word) AND 0x7f :: 64 word) = of_nat (unat b mod 128)"
  using scast_and_mask[of 7 b] by (simp add: mask_eq_exp_minus_1)

lemma scast_low1: "(scast (b :: 8 word) AND 0x01 :: 64 word) = of_nat (unat b mod 2)"
  using scast_and_mask[of 1 b] by (simp add: mask_eq_exp_minus_1)

lemma scast_last: "\<not> continues b \<Longrightarrow> (scast (b :: 8 word) :: 64 word) = of_nat (unat b mod 128)"
proof -
  assume "\<not> continues b"
  then have "sint b = int (unat b)" "unat b mod 128 = unat b" by (simp_all add: sint_unat continues_def)
  then show ?thesis by (metis scast_eq of_int_of_nat_eq)
qed

lemma or_push_add:
  fixes val :: "'a::len word"
  assumes "unat val < 2 ^ s"
  shows "val OR push_bit s (of_nat x) = of_nat (unat val + 2 ^ s * x)"
proof -
  have "\<not> bit val n" if "s \<le> n" for n
  proof
    assume "bit val n"
    then have "2 ^ n \<le> unat val" by (intro bit_exp_le) (simp add: bit_unat)
    moreover have "(2::nat) ^ s \<le> 2 ^ n" using that by (intro power_increasing) auto
    ultimately show False using assms by linarith
  qed
  then have "val AND push_bit s (of_nat x) = 0"
    by (intro bit_eqI) (auto simp: bit_and_iff bit_push_bit_iff)
  then have "val OR push_bit s (of_nat x) = val + push_bit s (of_nat x)"
    by (rule disjunctive_add_eq_or[symmetric])
  also have "\<dots> = of_nat (unat val + 2 ^ s * x)" by (simp add: push_bit_eq_mult mult.commute)
  finally show ?thesis .
qed

lemma unat_add_group:
  fixes val :: "64 word"
  assumes "unat val < 2 ^ s" "x < 128" "s + 7 \<le> 64"
  shows "unat (of_nat (unat val + 2 ^ s * x) :: 64 word) = unat val + 2 ^ s * x"
    and "unat val + 2 ^ s * x < 2 ^ (s + 7)"
proof -
  have "2 ^ s * x \<le> 2 ^ s * (127::nat)" using assms(2) by (intro mult_left_mono) auto
  moreover have "(2::nat) ^ (s + 7) = 2 ^ s * 127 + 2 ^ s" by (simp add: power_add)
  ultimately show l: "unat val + 2 ^ s * x < 2 ^ (s + 7)" using assms(1) by linarith
  also have "\<dots> \<le> (2::nat) ^ 64" using assms(3) by (intro power_increasing) auto
  finally show "unat (of_nat (unat val + 2 ^ s * x) :: 64 word) = unat val + 2 ^ s * x"
    by (simp only: unat_of_nat) simp
qed

section \<open>Decoding\<close>

abbreviation groups :: "8 word list \<Rightarrow> nat" where
  "groups bs \<equiv> length (takeWhile continues bs)"

lemma decode_slow_value:
  "unat val < 2 ^ s \<Longrightarrow> s + 7 * groups bs < 64 \<Longrightarrow>
   decode_slow bs s val =
     (if groups bs < length bs
      then Inr (of_nat (unat val + 2 ^ s * value128 (take (groups bs + 1) bs)), drop (groups bs + 1) bs)
      else Inl TooFewBytes)"
proof (induction bs arbitrary: s val)
  case (Cons b bs)
  show ?case
  proof (cases "continues b")
    case True
    let ?v = "of_nat (unat val + 2 ^ s * (unat b mod 128)) :: 64 word"
    have g: "groups (b # bs) = Suc (groups bs)" and s: "s + 7 \<le> 64" "s + 7 + 7 * groups bs < 64"
      using Cons.prems(2) True by simp_all
    note u = unat_add_group[OF Cons.prems(1) _ s(1), of "unat b mod 128"]
    have "decode_slow (b # bs) s val = decode_slow bs (s + 7) ?v"
      using True or_push_add[OF Cons.prems(1)] by (simp add: sint_continues ucast_low7)
    also have "\<dots> = (if groups bs < length bs
        then Inr (of_nat (unat ?v + 2 ^ (s + 7) * value128 (take (groups bs + 1) bs)), drop (groups bs + 1) bs)
        else Inl TooFewBytes)"
      using u s(2) by (intro Cons.IH) simp_all
    finally show ?thesis using u g by (simp add: algebra_simps power_add)
  next
    case False
    then show ?thesis
      using or_push_add[OF Cons.prems(1)] by (simp add: sint_continues scast_last)
  qed
qed simp

lemma tenth_group:
  fixes val :: "64 word"
  assumes "unat val < 2 ^ 63"
  shows "val OR push_bit 63 (of_nat (x mod 2)) = of_nat (unat val + 2 ^ 63 * (x mod 128))"
proof -
  have "x mod 128 = 2 * (x mod 128 div 2) + x mod 2" by (metis mult_div_mod_eq mod_mod_cancel dvd_triv_left numeral_Bit0_eq_double)
  then have "unat val + 2 ^ 63 * (x mod 128) = unat val + 2 ^ 63 * (x mod 2) + 2 ^ 64 * (x mod 128 div 2)"
    by (simp add: algebra_simps)
  then have "(of_nat (unat val + 2 ^ 63 * (x mod 128)) :: 64 word) =
      of_nat (unat val + 2 ^ 63 * (x mod 2)) + of_nat (2 ^ 64 * (x mod 128 div 2))"
    by (metis of_nat_add)
  moreover have "(of_nat (2 ^ 64) :: 64 word) = 0" by (simp only: word_of_nat_eq_0_iff) simp
  then have "(of_nat (2 ^ 64 * (x mod 128 div 2)) :: 64 word) = 0" by (simp only: of_nat_mult mult_zero_left)
  ultimately show ?thesis using or_push_add[OF assms, of "x mod 2"] by simp
qed

lemma decode_fast_value:
  assumes "unat val < 2 ^ (7 * i)" "i \<le> 9" "10 - i \<le> length bs"
  shows "decode_fast (map (\<lambda>j. 7 * j) [i..<9]) bs val =
     (if groups bs < 10 - i
      then Inr (Inr (of_nat (unat val + 2 ^ (7 * i) * value128 (take (groups bs + 1) bs)), drop (groups bs + 1) bs))
      else Inr (Inl TooManyBytes))"
  using assms
proof (induction "9 - i" arbitrary: i bs val)
  case 0
  then obtain b bs' where bs: "bs = b # bs'" by (cases bs) auto
  have i: "i = 9" using 0 by simp
  then have "unat val < 2 ^ 63" using 0(2) by simp
  from tenth_group[OF this, of "unat b"] show ?case
    by (cases "continues b") (simp_all add: bs i scast_low1 Let_def not_less[symmetric] sint_continues del: not_less)
next
  case (Suc d)
  then obtain b bs' where bs: "bs = b # bs'" by (cases bs) auto
  let ?v = "of_nat (unat val + 2 ^ (7 * i) * (unat b mod 128)) :: 64 word"
  have i: "i < 9" "d = 9 - Suc i" using Suc(2) by simp_all
  have "7 * i + 7 \<le> 64" using i by simp
  note u = unat_add_group[OF Suc.prems(1) _ this, of "unat b mod 128"]
  have m: "map (\<lambda>j. 7 * j) [i..<9] = 7 * i # map (\<lambda>j. 7 * j) [Suc i..<9]" using i by (simp add: upt_rec)
  have step: "decode_fast (map (\<lambda>j. 7 * j) [i..<9]) bs val =
      (if continues b then decode_fast (map (\<lambda>j. 7 * j) [Suc i..<9]) bs' ?v else Inr (Inr (?v, bs')))"
    unfolding m bs using or_push_add[OF Suc.prems(1)]
    by (simp add: scast_low7 Let_def not_less[symmetric] sint_continues del: not_less)
  show ?case
  proof (cases "continues b")
    case True
    have IH: "decode_fast (map (\<lambda>j. 7 * j) [Suc i..<9]) bs' ?v =
      (if groups bs' < 10 - Suc i
       then Inr (Inr (of_nat (unat ?v + 2 ^ (7 * Suc i) * value128 (take (groups bs' + 1) bs')), drop (groups bs' + 1) bs'))
       else Inr (Inl TooManyBytes))"
      using u i Suc.prems(3) bs by (intro Suc.hyps(1)) (simp_all add: algebra_simps)
    have g: "groups bs = Suc (groups bs')" using True bs by simp
    then have "unat ?v + 2 ^ (7 * Suc i) * value128 (take (groups bs' + 1) bs') =
        unat val + 2 ^ (7 * i) * value128 (take (groups bs + 1) bs)"
      using u(1) bs by (simp add: power_add algebra_simps)
    then show ?thesis unfolding step IH using True g i bs by auto
  next
    case False
    then show ?thesis using step i bs by simp
  qed
qed

definition varint_spec :: "8 word list \<Rightarrow> DecodeVarintError + 64 word \<times> 8 word list" where
  "varint_spec data =
     (if groups data < length data \<and> groups data < 10
      then Inr (of_nat (value128 (take (groups data + 1) data)), drop (groups data + 1) data)
      else Inl (if 10 \<le> length data then TooManyBytes else TooFewBytes))"

lemma tryDecodeVarint_spec: "tryDecodeVarint data = Inr (varint_spec data)"
proof (cases "10 \<le> length data")
  case True
  have "[0, 7, 14, 21, 28, 35, 42, 49, 56] = map (\<lambda>j. 7 * j) [0..<9::nat]" by (simp add: upt_rec)
  then show ?thesis
    using True decode_fast_value[of 0 0 data] by (auto simp: tryDecodeVarint_def kMaxVarintLength64_def varint_spec_def)
next
  case False
  have "groups data \<le> length data" by (rule length_takeWhile_le)
  then show ?thesis
    using False decode_slow_value[of 0 0 data] by (simp add: tryDecodeVarint_def kMaxVarintLength64_def varint_spec_def)
qed

section \<open>Encoding\<close>

lemma unat_7f: "unat (val AND 0x7f :: 64 word) = unat val mod 128"
  using unat_and_mask[of val 7] by (simp add: mask_eq_exp_minus_1)

lemma encode_byte: "(0x80 OR ucast (val AND 0x7f :: 64 word) :: 8 word) = of_nat (unat val mod 128 + 128)"
proof -
  have "(ucast (val AND 0x7f :: 64 word) :: 8 word) = of_nat (unat val mod 128)" by (simp flip: unat_7f)
  moreover have "unat (of_nat (unat val mod 128) :: 8 word) = unat val mod 128" by (simp add: unat_of_nat)
  ultimately show ?thesis
    using or_push_add[of "of_nat (unat val mod 128) :: 8 word" 7 1] by (simp add: or.commute add.commute)
qed

lemma base128_small: "n < 128 \<Longrightarrow> base128 n = [n]"
  by (simp add: base128.simps)

lemma base128_large: "\<not> n < 128 \<Longrightarrow> base128 n = (n mod 128 + 128) # base128 (n div 128)"
  by (subst base128.simps) simp

definition varint_bytes :: "nat \<Rightarrow> 8 word list" where
  "varint_bytes n = map of_nat (base128 n)"

lemma varint_bytes_small: "n < 128 \<Longrightarrow> varint_bytes n = [of_nat n]"
  by (simp add: varint_bytes_def base128_small)

lemma varint_bytes_large:
  "\<not> n < 128 \<Longrightarrow> varint_bytes n = of_nat (n mod 128 + 128) # varint_bytes (n div 128)"
  by (simp add: varint_bytes_def base128_large)

lemma encodeVarint_loop_bytes:
  "p + length (varint_bytes (unat val)) \<le> length buf \<Longrightarrow>
   encodeVarint_loop val buf p =
     Inr (p + length (varint_bytes (unat val)),
          take p buf @ varint_bytes (unat val) @ drop (p + length (varint_bytes (unat val))) buf)"
proof (induction val buf p rule: encodeVarint_loop.induct)
  case (1 val buf p)
  show ?case
  proof (cases "128 \<le> val")
    case True
    then have large: "\<not> unat val < 128" by (simp add: word_le_nat_alt)
    let ?b = "of_nat (unat val mod 128 + 128) :: 8 word" and ?r = "varint_bytes (unat val div 128)"
    have e: "varint_bytes (unat val) = ?b # ?r" by (rule varint_bytes_large[OF large])
    have p: "p < length buf" using 1(2) e by simp
    have "encodeVarint_loop val buf p = encodeVarint_loop (drop_bit 7 val) (buf[p := ?b]) (p + 1)"
      using True p by (subst encodeVarint_loop.simps) (simp add: encode_byte)
    also have "\<dots> = Inr (p + 1 + length ?r, take (p + 1) (buf[p := ?b]) @ ?r @ drop (p + 1 + length ?r) (buf[p := ?b]))"
      using 1(1)[OF True, of "buf[p := ?b]"] p 1(2) e by (simp add: wr_eq_Inr encode_byte unat_drop_bit_7)
    also have "take (p + 1) (buf[p := ?b]) = take p buf @ [?b]" using p by (simp add: take_Suc_conv_app_nth)
    finally show ?thesis using e by simp
  next
    case False
    then have small: "unat val < 128" by (simp add: word_le_nat_alt)
    then have e: "varint_bytes (unat val) = [ucast val]" by (simp add: varint_bytes_small)
    then have p: "p < length buf" using 1(2) by simp
    then show ?thesis using False e
      by (subst encodeVarint_loop.simps) (simp add: upd_conv_take_nth_drop)
  qed
qed

lemma base128_length: "n < 128 ^ k \<Longrightarrow> 0 < k \<Longrightarrow> length (base128 n) \<le> k"
proof (induction k arbitrary: n)
  case (Suc k)
  show ?case
  proof (cases "n < 128")
    case True
    then show ?thesis by (simp add: base128_small)
  next
    case False
    have "0 < k" using False Suc.prems(1) by (cases k) auto
    moreover have "n div 128 < 128 ^ k" using Suc.prems(1) by (simp add: less_mult_imp_div_less mult.commute)
    ultimately show ?thesis using Suc.IH[of "n div 128"] False by (simp add: base128_large)
  qed
qed simp

lemma unat_continuation [simp]: "unat (of_nat (n mod 128 + 128) :: 8 word) = n mod 128 + 128"
proof -
  have "n mod 128 + 128 < 256" by (simp add: less_imp_le_nat)
  then show ?thesis by (simp only: unat_of_nat) simp
qed

lemma varint_bytes_value:
  "value128 (varint_bytes n) = n" "groups (varint_bytes n @ rest) + 1 = length (varint_bytes n)"
proof (induction n rule: base128.induct)
  case (1 n)
  { case 1
    show ?case using "1.IH"(1)
      by (cases "n < 128") (simp_all add: varint_bytes_small varint_bytes_large unat_of_nat del: of_nat_add) }
  { case 2
    show ?case using "1.IH"(2)
      by (cases "n < 128") (simp_all add: varint_bytes_small varint_bytes_large unat_of_nat continues_def del: of_nat_add) }
qed

lemma varint_roundtrip:
  "varint_spec (varint_bytes (unat val) @ rest) = Inr (val, rest)"
proof -
  let ?bs = "varint_bytes (unat val)"
  have g: "groups (?bs @ rest) + 1 = length ?bs" by (rule varint_bytes_value)
  have "unat val < 128 ^ 10" using unat_less_exp[of val] by simp
  then have "length ?bs \<le> 10" using base128_length[of "unat val" 10] by (simp add: varint_bytes_def)
  then show ?thesis using g varint_bytes_value(1)[of "unat val"] by (simp add: varint_spec_def)
qed

lemma varintSize_loop_length: "varintSize_loop val s + 1 = s + length (base128 (unat val))"
proof (induction val s rule: varintSize_loop.induct)
  case (1 val s)
  show ?case
  proof (cases "128 \<le> val")
    case True
    then have "\<not> unat val < 128" by (simp add: word_le_nat_alt)
    then show ?thesis using 1[OF True] True
      by (subst varintSize_loop.simps) (simp add: base128_large unat_drop_bit_7)
  next
    case False
    then have "unat val < 128" by (simp add: word_le_nat_alt)
    then show ?thesis using False by (subst varintSize_loop.simps) (simp add: base128_small)
  qed
qed

lemma base128_length_log: "2 ^ h \<le> n \<Longrightarrow> n < 2 ^ Suc h \<Longrightarrow> length (base128 n) = (h + 7) div 7"
proof (induction n arbitrary: h rule: base128.induct)
  case (1 n)
  show ?case
  proof (cases "n < 128")
    case True
    then have "(2::nat) ^ h < 2 ^ 7" using "1.prems"(1) by simp
    then have "h < 7" by (rule power_less_imp_less_exp[rotated]) simp
    then show ?thesis using True by (simp add: base128_small)
  next
    case False
    then have "(2::nat) ^ 7 < 2 ^ Suc h" using "1.prems"(2) by simp
    then have "7 < Suc h" by (rule power_less_imp_less_exp[rotated]) simp
    then obtain g where g: "h = g + 7" by (metis less_Suc_eq_le le_add_diff_inverse2)
    have "2 ^ g * 128 \<le> n" "n < 2 ^ Suc g * 128" using "1.prems" unfolding g by (simp_all add: power_add)
    then have "2 ^ g \<le> n div 128" "n div 128 < 2 ^ Suc g"
      by (simp_all add: less_eq_div_iff_mult_less_eq div_less_iff_less_mult)
    then show ?thesis using "1.IH"[OF False] False g by (simp add: base128_large)
  qed
qed

lemma is_highest_unique: "is_highest v k \<Longrightarrow> is_highest v h \<Longrightarrow> k = h"
  unfolding is_highest_def by (metis linorder_neqE_nat)

lemma clz_or_1:
  fixes val :: "64 word"
  shows "\<exists>k. 64 - builtin_clz (val OR 1) = k + 1 \<and> (if val = 0 then k = 0 else is_highest val k)"
proof -
  have one: "bit (val OR 1) j \<longleftrightarrow> bit val j \<or> j = 0" for j by (auto simp: bit_or_iff bit_1_iff)
  then have "val OR 1 \<noteq> 0" by (metis bit_0_eq bot_apply bot_bool_def)
  then obtain k where k: "builtin_clz (val OR 1) = LENGTH(64) - 1 - k" "is_highest (val OR 1) k"
    using builtin_clz_highest by blast
  have "k < LENGTH(64)" using bit_in_range[of "val OR 1" k] k(2) by (simp add: is_highest_def)
  then have "64 - builtin_clz (val OR 1) = k + 1" using k(1) by simp
  moreover have "k = 0" if "val = 0" using k(2) one that by (simp add: is_highest_def)
  moreover have "is_highest val k" if nz: "val \<noteq> 0"
  proof -
    obtain h where h: "is_highest val h" using builtin_clz_highest[OF nz] by blast
    then have "is_highest (val OR 1) h" using one by (auto simp: is_highest_def)
    then show ?thesis using is_highest_unique[OF k(2)] h by blast
  qed
  ultimately show ?thesis by auto
qed

lemma encodeVarintSize_length: "encodeVarintSize amd64 val = length (base128 (unat val))"
proof (cases amd64)
  case True
  obtain k where k: "64 - builtin_clz (val OR 1) = k + 1" "if val = 0 then k = 0 else is_highest val k"
    using clz_or_1 by blast
  then have sz: "encodeVarintSize amd64 val = (k + 7) div 7" using True by (simp add: encodeVarintSize_def)
  show ?thesis
  proof (cases "val = 0")
    case True
    then show ?thesis using sz k(2) by (simp add: base128_small)
  next
    case False
    then show ?thesis using sz k(2) base128_length_log is_highest_bounds[of val k] by simp
  qed
next
  case False
  then show ?thesis using varintSize_loop_length[of val 1] by (simp add: encodeVarintSize_def)
qed

section \<open>Zig-zag\<close>

lemma bit_zigzag: "n < 64 \<Longrightarrow> bit (encodeZigZag val) n \<longleftrightarrow> ((0 < n \<and> bit val (n - 1)) \<noteq> bit val 63)"
  unfolding encodeZigZag_def bit_xor_iff bit_push_bit_iff bit_signed_drop_bit_iff by (cases n) auto

lemma bit_minus_and_1: "n < 64 \<Longrightarrow> bit (- (val AND 1) :: 64 word) n \<longleftrightarrow> bit val 0"
proof -
  assume "n < 64"
  have "val AND 1 = of_bool (bit val 0)" by (intro bit_eqI) (auto simp: bit_and_iff bit_1_iff bit_of_bool_iff intro: gr0I)
  then show ?thesis using \<open>n < 64\<close> by (cases "bit val 0") simp_all
qed

lemma bit_unzigzag:
  "n < 64 \<Longrightarrow> bit (decodeZigZag val) n \<longleftrightarrow> ((n < 63 \<and> bit val (n + 1)) \<noteq> bit val 0)"
  by (auto simp: decodeZigZag_def bit_xor_iff bit_drop_bit_eq bit_minus_and_1 dest: bit_in_range)

lemma zigzag_roundtrip: "decodeZigZag (encodeZigZag val) = val" "encodeZigZag (decodeZigZag val) = val"
proof -
  show "decodeZigZag (encodeZigZag val) = val"
  proof (rule bit_eqI)
    fix n assume "possible_bit TYPE(64 word) n"
    then show "bit (decodeZigZag (encodeZigZag val)) n \<longleftrightarrow> bit val n"
      by (cases "n = 63") (auto simp: bit_unzigzag bit_zigzag)
  qed
  show "encodeZigZag (decodeZigZag val) = val"
  proof (rule bit_eqI)
    fix n assume "possible_bit TYPE(64 word) n"
    then show "bit (encodeZigZag (decodeZigZag val)) n \<longleftrightarrow> bit val n"
      by (cases n) (auto simp: bit_unzigzag bit_zigzag)
  qed
qed

lemma bit_63_sint: "bit (val :: 64 word) 63 \<longleftrightarrow> sint val < 0"
  using bit_last_iff[of val] by simp

lemma bit_sign_fill: "n < 64 \<Longrightarrow> bit (signed_drop_bit 63 val :: 64 word) n \<longleftrightarrow> sint val < 0"
  by (cases n) (auto simp: bit_signed_drop_bit_iff bit_63_sint)

lemma zigzag_value:
  "uint (encodeZigZag val) = (if 0 \<le> sint val then 2 * sint val else - 2 * sint val - 1)"
proof -
  have v: "val = of_int (sint val)" by simp
  have r: "- (2 ^ 63) \<le> sint val" "sint val < 2 ^ 63" using sint_ge[of val] sint_lt[of val] by simp_all
  have u: "uint (of_int z :: 64 word) = z" if "0 \<le> z" "z < 2 ^ 64" for z :: int
    using that by (simp add: uint_word_of_int_eq take_bit_int_eq_self)
  show ?thesis
  proof (cases "0 \<le> sint val")
    case True
    then have "signed_drop_bit 63 val = 0"
      by (intro bit_eqI) (simp add: bit_sign_fill)
    then have "encodeZigZag val = of_int (2 * sint val)" by (simp add: encodeZigZag_def)
    then show ?thesis using True r u[of "2 * sint val"] by simp
  next
    case False
    then have "signed_drop_bit 63 val = - 1"
      by (intro bit_eqI) (simp add: bit_sign_fill)
    then have "encodeZigZag val = NOT (2 * val)" by (simp add: encodeZigZag_def)
    then have "encodeZigZag val = of_int (- 2 * sint val - 1)" by (simp add: not_eq_complement)
    then show ?thesis using False r u[of "- 2 * sint val - 1"] by simp
  qed
qed

section \<open>The codec\<close>

definition encodeVarintBytes :: "64 word \<Rightarrow> 8 word list" where
  "encodeVarintBytes val =
     (case encodeVarint val (replicate kMaxVarintLength64 0) of Inr (n, buf) \<Rightarrow> take n buf | Inl e \<Rightarrow> [])"

definition decodeVarintRest :: "8 word list \<Rightarrow> DecodeVarintError + 64 word \<times> 8 word list" where
  "decodeVarintRest data = (case tryDecodeVarint data of Inr r \<Rightarrow> r | Inl e \<Rightarrow> Inl TooFewBytes)"

lemma varint_bytes_length: "length (varint_bytes (unat (val :: 64 word))) \<le> 10"
proof -
  have "unat val < 128 ^ 10" using unat_less_exp[of val] by simp
  then show ?thesis using base128_length[of "unat val" 10] by (simp add: varint_bytes_def)
qed

lemma encodeVarint_bytes:
  "length (varint_bytes (unat val)) \<le> length buf \<Longrightarrow>
   encodeVarint val buf =
     Inr (length (varint_bytes (unat val)), varint_bytes (unat val) @ drop (length (varint_bytes (unat val))) buf)"
  using encodeVarint_loop_bytes[of 0 val buf] by (simp add: encodeVarint_def)

lemma encodeVarintBytes_eq: "encodeVarintBytes val = varint_bytes (unat val)"
  using encodeVarint_bytes[of val "replicate kMaxVarintLength64 0"] varint_bytes_length[of val]
  by (simp add: encodeVarintBytes_def kMaxVarintLength64_def)

interpretation varint: codec "\<lambda>_. True" encodeVarintBytes decodeVarintRest
  by unfold_locales
     (simp add: encodeVarintBytes_eq decodeVarintRest_def tryDecodeVarint_spec varint_roundtrip)

section \<open>Properties\<close>

text \<open>
  C22. Round trip of the base-128 encoding: every 64-bit value is written in at most ten bytes (at most five
  below \<open>2 ^ 32\<close>), \<^verbatim>\<open>encodeVarint\<close> changes nothing else in the buffer and returns their number, both
  versions of \<^verbatim>\<open>encodeVarintSize\<close> predict it, and \<^verbatim>\<open>decodeVarint\<close> on the bytes followed by anything returns
  the value and consumes exactly them.
\<close>

theorem varint_encode_decode:
  assumes "encodeVarintSize amd64 val \<le> length buf"
  shows "\<exists>bs. encodeVarint val buf = Inr (length bs, bs @ drop (length bs) buf)
    \<and> length bs = encodeVarintSize amd64 val \<and> 0 < length bs \<and> length bs \<le> kMaxVarintLength64
    \<and> (unat val < 2 ^ 32 \<longrightarrow> length bs \<le> kMaxVarintLength32)
    \<and> decodeVarint (bs @ rest) = Inr (val, rest)"
proof -
  let ?bs = "varint_bytes (unat val)"
  have l: "length ?bs = encodeVarintSize amd64 val" by (simp add: varint_bytes_def encodeVarintSize_length)
  have "length (base128 (unat val)) \<le> 5" if "unat val < 2 ^ 32"
    using that base128_length[of "unat val" 5] by simp
  then have "unat val < 2 ^ 32 \<longrightarrow> length ?bs \<le> kMaxVarintLength32"
    by (simp add: varint_bytes_def kMaxVarintLength32_def)
  moreover have "0 < length ?bs" by (simp add: varint_bytes_def base128.simps[of "unat val"])
  moreover have "decodeVarint (?bs @ rest) = Inr (val, rest)"
    by (simp add: decodeVarint_def tryDecodeVarint_spec varint_roundtrip)
  ultimately show ?thesis
    using assms l encodeVarint_bytes[of val buf] varint_bytes_length[of val]
    by (intro exI[of _ ?bs]) (simp add: kMaxVarintLength64_def)
qed

theorem varint_encode_decode_witness:
  "\<exists>bs. encodeVarint 300 [0, 0, 0, 7] = Inr (length bs, bs @ drop (length bs) [0, 0, 0, 7])
     \<and> decodeVarint (bs @ [9]) = Inr (300, [9])"
proof -
  have "encodeVarintSize False 300 = 2" by (simp add: encodeVarintSize_length base128_large base128_small)
  then have "encodeVarintSize False 300 \<le> length [0, 0, 0, 7 :: 8 word]" by simp
  from varint_encode_decode[OF this, of "[9]"] show ?thesis by blast
qed

text \<open>
  C38. Decoding arbitrary input: on every byte sequence \<^verbatim>\<open>tryDecodeVarint\<close> is defined (the unrolled path for ten
  and more bytes never reads past the range), takes the bytes up to the first one with a clear top
  bit, and returns their base-128 value modulo \<open>2 ^ 64\<close> and the remaining input, provided there is such
  a byte among the first ten; otherwise it reports too many bytes if at least ten were available and
  too few if not, and \<^verbatim>\<open>decodeVarint\<close> throws \<^verbatim>\<open>std::invalid_argument\<close>.
\<close>

theorem varint_decode_total:
  shows "tryDecodeVarint data =
     (let k = length (takeWhile (\<lambda>b. 128 \<le> unat b) data) in
      if k < length data \<and> k < 10
      then Inr (Inr (of_nat (value128 (take (k + 1) data)), drop (k + 1) data))
      else Inr (Inl (if 10 \<le> length data then TooManyBytes else TooFewBytes)))
    \<and> decodeVarint data =
     (case tryDecodeVarint data of Inr (Inr r) \<Rightarrow> Inr r | _ \<Rightarrow> Inl Invalid_argument)"
proof -
  have "continues = (\<lambda>b. 128 \<le> unat b)" by (intro ext) (simp add: continues_def)
  then show ?thesis
    by (simp add: decodeVarint_def tryDecodeVarint_spec varint_spec_def Let_def)
qed

text \<open>
  Streams: any list of values written one after the other with \<^verbatim>\<open>encodeVarint\<close> is read back, in order and
  with exactly the input after it left over, by as many calls of \<^verbatim>\<open>decodeVarint\<close>; no encoding is a
  prefix of another.
\<close>

theorem varint_stream:
  shows "decode_n decodeVarintRest (length vals) (encode_all encodeVarintBytes vals @ rest) = Inr (vals, rest)
    \<and> (encodeVarintBytes v @ r = encodeVarintBytes w @ s \<longrightarrow> v = w \<and> r = s)"
  using varint.stream_roundtrip[of vals rest] varint.enc_prefix_free[of v _ w] by blast

text \<open>
  Zig-zag: the two maps are inverse bijections of the 64-bit values, and non-negative values go to the
  even numbers \<open>2 x\<close> and negative ones to the odd numbers \<open>- 2 x - 1\<close>, so that values of small
  magnitude get short encodings.
\<close>

lemma zigzag_correct:
  shows "decodeZigZag (encodeZigZag val) = val \<and> encodeZigZag (decodeZigZag val) = val
    \<and> uint (encodeZigZag val) = (if 0 \<le> sint val then 2 * sint val else - 2 * sint val - 1)"
  using zigzag_roundtrip zigzag_value by simp

end
