(* ===== verification/GroupVarint_Correct.thy ===== *)
theory GroupVarint_Correct
  imports GroupVarint Varint_Correct
begin

text \<open>
  Correctness of the group encodings.  A value is written as its \<open>key x + 1\<close> low bytes (\<open>low_bytes\<close>).
  The unaligned stores of an encoder and the masked unaligned loads of the decoders are reduced to
  \<open>store_all\<close> and \<open>pick_all\<close>, lists of such byte strings, for both widths and for the SSE shuffle.  The
  locale \<open>group_format\<close> states what the encoder and decoder classes need of the format; their round
  trip is proved in it once and holds for the instances.
\<close>

unbundle bit_operations_syntax

section \<open>Writing and reading the significant bytes\<close>

definition low_bytes :: "('a::len word \<Rightarrow> nat) \<Rightarrow> 'a word \<Rightarrow> 8 word list" where
  "low_bytes key x = take (key x + 1) (le_bytes x)"

fun store_all :: "('a::len word \<Rightarrow> nat) \<Rightarrow> 8 word list \<Rightarrow> nat \<Rightarrow> 'a word list \<Rightarrow> (nat \<times> 8 word list) res" where
  "store_all key buf p [] = Inr (p, buf)"
| "store_all key buf p (x # xs) =
     bindE (storeUnaligned buf p x) (\<lambda>buf'. store_all key buf' (p + (key x + 1)) xs)"

fun load_all :: "'a::len word list \<Rightarrow> 8 word list \<Rightarrow> nat \<Rightarrow> nat list \<Rightarrow> (nat \<times> 'a word list) res" where
  "load_all masks buf p [] = Inr (p, [])"
| "load_all masks buf p (k # ks) =
     bindE (loadUnaligned buf p) (\<lambda>x. bindE (rd masks k) (\<lambda>m.
     bindE (load_all masks buf (p + (k + 1)) ks) (\<lambda>(q, ys). Inr (q, (x AND m) # ys))))"

fun pick_all :: "8 word list \<Rightarrow> nat \<Rightarrow> nat list \<Rightarrow> 'a::len word list" where
  "pick_all buf p [] = []"
| "pick_all buf p (k # ks) = of_le_bytes (take (k + 1) (drop p buf)) # pick_all buf (p + (k + 1)) ks"

lemma length_pick_all [simp]: "length (pick_all buf p ks) = length ks"
  by (induction ks arbitrary: p) auto

text \<open>A key leaves out only zero bytes.\<close>

definition key_ok :: "('a::len word \<Rightarrow> nat) \<Rightarrow> bool" where
  "key_ok key \<longleftrightarrow> 8 dvd LENGTH('a) \<and> (\<forall>x. key x < LENGTH('a) div 8 \<and> unat x < 2 ^ (8 * (key x + 1)))"

lemma key_okD:
  assumes "key_ok (key :: 'a::len word \<Rightarrow> nat)"
  shows "8 dvd LENGTH('a)" "key x < LENGTH('a) div 8" "unat x < 2 ^ (8 * (key x + 1))"
  using assms by (auto simp: key_ok_def)

lemma length_low_bytes: "key_ok key \<Longrightarrow> length (low_bytes key x) = key x + 1"
  using key_okD(2)[of key x] by (simp add: low_bytes_def)

lemma low_bytes_value:
  fixes x :: "'a::len word"
  assumes "key_ok key"
  shows "of_le_bytes (low_bytes key x) = x"
proof (rule bit_eqI)
  fix n assume "possible_bit TYPE('a word) n"
  then have n: "n < LENGTH('a)" by simp
  have w: "LENGTH('a) = 8 * (LENGTH('a) div 8)" using key_okD(1)[OF assms] by simp
  have d: "n div 8 < LENGTH('a) div 8" using n w by (metis less_mult_imp_div_less mult.commute)
  have "\<not> bit x n" if "key x + 1 \<le> n div 8"
  proof
    assume "bit x n"
    then have "2 ^ n \<le> unat x" by (intro bit_exp_le) (simp add: bit_unat)
    moreover have "(2::nat) ^ (8 * (key x + 1)) \<le> 2 ^ n" using that by (intro power_increasing) auto
    ultimately show False using key_okD(3)[OF assms, of x] by linarith
  qed
  moreover have "bit (le_bytes x ! (n div 8)) (n mod 8) \<longleftrightarrow> bit x n" using bit_le_bytes[OF d, of x "n mod 8"] by simp
  ultimately show "bit (of_le_bytes (low_bytes key x) :: 'a word) n \<longleftrightarrow> bit x n"
    using n d key_okD(2)[OF assms, of x]
    by (cases "key x + 1 \<le> n div 8") (auto simp: bit_of_le_bytes low_bytes_def)
qed

lemma store_step:
  fixes x :: "'a::len word"
  assumes "take (length pre) buf = pre" "length pre + LENGTH('a) div 8 \<le> length buf" "k \<le> LENGTH('a) div 8"
  shows "\<exists>buf'. storeUnaligned buf (length pre) x = Inr buf' \<and> length buf' = length buf \<and>
           take (length pre + k) buf' = pre @ take k (le_bytes x)"
  using assms by (auto simp: storeUnaligned_def)

lemma store_all_bytes:
  fixes xs :: "'a::len word list"
  assumes "key_ok key" "take (length pre) buf = pre" "length pre + LENGTH('a) div 8 * length xs \<le> length buf"
  shows "\<exists>buf'. store_all key buf (length pre) xs = Inr (length (pre @ concat (map (low_bytes key) xs)), buf')
           \<and> length buf' = length buf
           \<and> take (length (pre @ concat (map (low_bytes key) xs))) buf' = pre @ concat (map (low_bytes key) xs)"
  using assms(2,3)
proof (induction xs arbitrary: pre buf)
  case Nil
  then show ?case by simp
next
  case (Cons x xs)
  have k: "key x + 1 \<le> LENGTH('a) div 8" using key_okD(2)[OF assms(1), of x] by simp
  obtain buf1 where b: "storeUnaligned buf (length pre) x = Inr buf1" "length buf1 = length buf"
      "take (length pre + (key x + 1)) buf1 = pre @ take (key x + 1) (le_bytes x)"
    using store_step[of pre buf "key x + 1" x] Cons.prems k by auto
  let ?pre = "pre @ low_bytes key x"
  have l: "length ?pre = length pre + (key x + 1)" by (simp add: length_low_bytes[OF assms(1)])
  have "take (length ?pre) buf1 = ?pre" using b(3) l by (simp add: low_bytes_def)
  moreover have "length ?pre + LENGTH('a) div 8 * length xs \<le> length buf1"
    using Cons.prems(2) l b(2) k by simp
  ultimately show ?case using Cons.IH[of ?pre buf1] b(1,2) l by simp
qed

lemma masked_load:
  fixes buf :: "8 word list" and m :: "'a::len word"
  assumes "8 dvd LENGTH('a)" "p + LENGTH('a) div 8 \<le> length buf" "k < LENGTH('a) div 8" "m = mask (8 * (k + 1))"
  shows "\<exists>x. loadUnaligned buf p = Inr x \<and> x AND m = of_le_bytes (take (k + 1) (drop p buf))"
proof -
  let ?x = "of_le_bytes (take (LENGTH('a) div 8) (drop p buf)) :: 'a word"
  have "loadUnaligned buf p = Inr ?x" using assms(2) by (simp add: loadUnaligned_def load_bytes_def)
  moreover have "?x AND m = of_le_bytes (take (k + 1) (drop p buf))"
  proof (rule bit_eqI)
    fix n assume "possible_bit TYPE('a word) n"
    then have n: "n < LENGTH('a)" by simp
    have "n < 8 * (k + 1) \<longleftrightarrow> n div 8 < k + 1" by (simp add: div_less_iff_less_mult mult.commute)
    moreover have "n div 8 < LENGTH('a) div 8" using n assms(1) by (metis less_mult_imp_div_less dvd_div_mult_self)
    ultimately show "bit (?x AND m) n \<longleftrightarrow> bit (of_le_bytes (take (k + 1) (drop p buf)) :: 'a word) n"
      using n assms(2) by (auto simp: bit_of_le_bytes assms(4) bit_and_iff bit_mask_iff)
  qed
  ultimately show ?thesis by blast
qed

text \<open>The masks have the low \<open>k + 1\<close> bytes set.\<close>

definition masks_ok :: "'a::len word list \<Rightarrow> bool" where
  "masks_ok masks \<longleftrightarrow> 8 dvd LENGTH('a) \<and> length masks = LENGTH('a) div 8 \<and>
     (\<forall>k < LENGTH('a) div 8. masks ! k = mask (8 * (k + 1)))"

lemma load_all_pick:
  fixes masks :: "'a::len word list"
  assumes "masks_ok masks" "\<forall>k \<in> set ks. k < LENGTH('a) div 8" "p + LENGTH('a) div 8 * length ks \<le> length buf"
  shows "load_all masks buf p ks = Inr (p + sum_list (map (\<lambda>k. k + 1) ks), pick_all buf p ks)"
  using assms(2,3)
proof (induction ks arbitrary: p)
  case Nil
  then show ?case by simp
next
  case (Cons k ks)
  have m: "8 dvd LENGTH('a)" "length masks = LENGTH('a) div 8" "masks ! k = mask (8 * (k + 1))"
    using assms(1) Cons.prems(1) by (auto simp: masks_ok_def)
  obtain x where x: "loadUnaligned buf p = Inr x" "x AND masks ! k = of_le_bytes (take (k + 1) (drop p buf))"
    using masked_load[OF m(1) _ _ m(3), of p buf] Cons.prems by auto
  have "load_all masks buf (p + (k + 1)) ks =
      Inr (p + (k + 1) + sum_list (map (\<lambda>k. k + 1) ks), pick_all buf (p + (k + 1)) ks)"
    using Cons.prems by (intro Cons.IH) auto
  then show ?case using x m(2) Cons.prems(1) by simp
qed

lemma pick_all_bytes:
  fixes xs :: "'a::len word list"
  assumes "key_ok key" "n \<le> length xs"
    and "take (length (concat (map (low_bytes key) (take n xs)))) (drop p buf) = concat (map (low_bytes key) (take n xs))"
  shows "take n (pick_all buf p (map key xs)) = take n xs"
  using assms(2,3)
proof (induction xs arbitrary: p n)
  case Nil
  then show ?case by simp
next
  case (Cons x xs)
  show ?case
  proof (cases n)
    case 0
    then show ?thesis by simp
  next
    case (Suc m)
    let ?r = "concat (map (low_bytes key) (take m xs))"
    have l: "length (low_bytes key x) = key x + 1" by (rule length_low_bytes[OF assms(1)])
    have h: "take (key x + 1 + length ?r) (drop p buf) = low_bytes key x @ ?r"
      using Cons.prems(2) l by (simp add: Suc)
    have "take (key x + 1) (drop p buf) = take (key x + 1) (take (key x + 1 + length ?r) (drop p buf))" by (simp add: min_def)
    also have "\<dots> = low_bytes key x" unfolding h using l by simp
    finally have first: "take (key x + 1) (drop p buf) = low_bytes key x" .
    have "take (length ?r) (drop (p + (key x + 1)) buf) = drop (key x + 1) (take (key x + 1 + length ?r) (drop p buf))"
      by (simp add: drop_take add.commute add.left_commute)
    also have "\<dots> = ?r" unfolding h using l by simp
    finally have "take m (pick_all buf (p + (key x + 1)) (map key xs)) = take m xs"
      using Cons.prems(1) Suc by (intro Cons.IH) auto
    moreover have "of_le_bytes (take (key x + 1) (drop p buf)) = x"
      unfolding first by (rule low_bytes_value[OF assms(1)])
    ultimately show ?thesis by (simp add: Suc)
  qed
qed

section \<open>Keys and masks of the two widths\<close>

lemma or_1_bit: "bit (v OR 1 :: 'a::len word) j \<longleftrightarrow> bit v j \<or> j = 0"
  by (auto simp: bit_or_iff bit_1_iff)

lemma clz_key_ok:
  fixes key :: "'a::len word \<Rightarrow> nat"
  assumes w: "LENGTH('a) = 8 * b" "0 < b"
    and key: "\<And>x. key x = b - 1 - builtin_clz (x OR 1) div 8"
  shows "key_ok key"
  unfolding key_ok_def
proof (intro conjI allI)
  show "8 dvd LENGTH('a)" using w by simp
  fix x :: "'a word"
  show "key x < LENGTH('a) div 8" using w key[of x] by simp
  have "x OR 1 \<noteq> 0" using or_1_bit[of x 0] by (metis bit_0_eq bot_apply bot_bool_def)
  then obtain k where k: "builtin_clz (x OR 1) = LENGTH('a) - 1 - k" "is_highest (x OR 1) k"
    using builtin_clz_highest by blast
  have "k < 8 * b" using bit_in_range[of "x OR 1" k] k(2) w by (simp add: is_highest_def)
  then have "key x = k div 8" using w key[of x] k(1) by simp
  then have "k < 8 * (key x + 1)" by simp
  moreover have "\<not> bit x j" if "k < j" for j
    using k(2) that or_1_bit[of x j] by (auto simp: is_highest_def)
  ultimately have "\<not> bit (unat x) j" if "8 * (key x + 1) \<le> j" for j using that by (simp add: bit_unat)
  then show "unat x < 2 ^ (8 * (key x + 1))" by (rule no_bits_less_exp)
qed

lemma gv32_key_ok: "key_ok gv32_key"
  by (rule clz_key_ok[where b = 4]) (simp_all add: gv32_key_def)

lemma gv64_key_ok: "key_ok gv64_key"
  by (rule clz_key_ok[where b = 8]) (simp_all add: gv64_key_def)

lemma gv32_key_less: "gv32_key x < 4"
  using key_okD(2)[OF gv32_key_ok, of x] by simp

lemma gv64_key_less: "gv64_key x < 8"
  using key_okD(2)[OF gv64_key_ok, of x] by simp

lemma gv32_masks_ok: "masks_ok gv32_kMask"
proof -
  have "list_all (\<lambda>k. gv32_kMask ! k = mask (8 * (k + 1))) [0..<4]" by code_simp
  then show ?thesis by (auto simp: masks_ok_def list_all_iff gv32_kMask_def)
qed

lemma gv64_masks_ok: "masks_ok gv64_kMask"
proof -
  have "list_all (\<lambda>k. gv64_kMask ! k = mask (8 * (k + 1))) [0..<8]" by code_simp
  then show ?thesis by (auto simp: masks_ok_def list_all_iff gv64_kMask_def)
qed

section \<open>Headers\<close>

lemma or_push_add_nat: "m < 2 ^ s \<Longrightarrow> push_bit s n OR m = m + 2 ^ s * (n::nat)"
proof -
  assume m: "m < 2 ^ s"
  have nb: "\<not> bit m j" if "s \<le> j" for j
  proof
    assume "bit m j"
    then have "2 ^ j \<le> m" by (rule bit_exp_le)
    moreover have "(2::nat) ^ s \<le> 2 ^ j" using that by (rule power_increasing) simp
    ultimately show False using m by linarith
  qed
  have "push_bit s n AND m = 0"
  proof (rule bit_eqI)
    fix j
    show "bit (push_bit s n AND m) j = bit 0 j"
      using nb[of j] by (cases "s \<le> j") (simp_all add: bit_and_iff bit_push_bit_iff)
  qed
  then have "push_bit s n OR m = push_bit s n + m" by (rule disjunctive_add_eq_or[symmetric])
  then show ?thesis by (simp add: push_bit_eq_mult)
qed

definition gv32_header :: "nat list \<Rightarrow> nat" where
  "gv32_header ks = ks ! 0 + 4 * ks ! 1 + 16 * ks ! 2 + 64 * ks ! 3"

lemma gv32_header_or:
  assumes "a < 4" "b < 4" "c < 4" "d < 4"
  shows "push_bit 6 d OR push_bit 4 c OR push_bit 2 b OR a = gv32_header [a, b, c, d]"
  using assms or_push_add_nat[of a 2 b] or_push_add_nat[of "a + 4 * b" 4 c]
    or_push_add_nat[of "a + 4 * b + 16 * c" 6 d]
  by (simp add: gv32_header_def)

lemma and_mask_nat: "x AND 3 = x mod (4::nat)" "x AND 7 = x mod (8::nat)"
  using take_bit_eq_mask[of 2 x] take_bit_eq_mask[of 3 x]
  by (simp_all add: take_bit_eq_mod mask_eq_exp_minus_1)

lemma digits:
  fixes a m x :: nat
  assumes "a < m"
  shows "(a + m * x) mod m = a" "(a + m * x) div m = x"
  using assms by (simp_all add: div_mult_self2)

lemma drop_bit_add: "drop_bit (i + j) (x::nat) = drop_bit i x div 2 ^ j"
  by (simp add: drop_bit_eq_div power_add div_mult2_eq)

lemma gv32_header_keys:
  assumes "a < 4" "b < 4" "c < 4" "d < 4"
  shows "gv32_b0key (gv32_header [a, b, c, d]) = a" "gv32_b1key (gv32_header [a, b, c, d]) = b"
    "gv32_b2key (gv32_header [a, b, c, d]) = c" "gv32_b3key (gv32_header [a, b, c, d]) = d"
    "gv32_header [a, b, c, d] < 256"
proof -
  let ?h = "a + 4 * (b + 4 * (c + 4 * d))"
  have h: "gv32_header [a, b, c, d] = ?h" by (simp add: gv32_header_def)
  have d2: "drop_bit 2 ?h = b + 4 * (c + 4 * d)" using digits(2)[OF assms(1)] by (simp add: drop_bit_eq_div)
  have d4: "drop_bit 4 ?h = c + 4 * d" using drop_bit_add[of 2 2 ?h] digits(2)[OF assms(2)] unfolding d2 by simp
  have d6: "drop_bit 6 ?h = d" using drop_bit_add[of 4 2 ?h] digits(2)[OF assms(3)] unfolding d4 by simp
  note defs = gv32_b0key_def gv32_b1key_def gv32_b2key_def gv32_b3key_def and_mask_nat
  show "gv32_b0key (gv32_header [a, b, c, d]) = a" unfolding h defs by (rule digits(1)[OF assms(1)])
  show "gv32_b1key (gv32_header [a, b, c, d]) = b" unfolding h defs d2 by (rule digits(1)[OF assms(2)])
  show "gv32_b2key (gv32_header [a, b, c, d]) = c" unfolding h defs d4 by (rule digits(1)[OF assms(3)])
  show "gv32_b3key (gv32_header [a, b, c, d]) = d" unfolding h defs d6 using assms(4) by simp
  show "gv32_header [a, b, c, d] < 256" unfolding h using assms by simp
qed

definition gv64_header :: "nat list \<Rightarrow> nat" where
  "gv64_header ks = ks ! 0 + 8 * ks ! 1 + 64 * ks ! 2 + 512 * ks ! 3 + 4096 * ks ! 4"

lemma gv64_header_or:
  assumes "a < 8" "b < 8" "c < 8" "d < 8" "e < 8"
  shows "push_bit 12 e OR push_bit 9 d OR push_bit 6 c OR push_bit 3 b OR a = gv64_header [a, b, c, d, e]"
  using assms or_push_add_nat[of a 3 b] or_push_add_nat[of "a + 8 * b" 6 c]
    or_push_add_nat[of "a + 8 * b + 64 * c" 9 d] or_push_add_nat[of "a + 8 * b + 64 * c + 512 * d" 12 e]
  by (simp add: gv64_header_def)

lemma gv64_header_keys:
  assumes "a < 8" "b < 8" "c < 8" "d < 8" "e < 8"
  shows "gv64_b0key (gv64_header [a, b, c, d, e]) = a" "gv64_b1key (gv64_header [a, b, c, d, e]) = b"
    "gv64_b2key (gv64_header [a, b, c, d, e]) = c" "gv64_b3key (gv64_header [a, b, c, d, e]) = d"
    "gv64_b4key (gv64_header [a, b, c, d, e]) = e" "gv64_header [a, b, c, d, e] < 65536"
proof -
  let ?h = "a + 8 * (b + 8 * (c + 8 * (d + 8 * e)))"
  have h: "gv64_header [a, b, c, d, e] = ?h" by (simp add: gv64_header_def)
  have d3: "drop_bit 3 ?h = b + 8 * (c + 8 * (d + 8 * e))" using digits(2)[OF assms(1)] by (simp add: drop_bit_eq_div)
  have d6: "drop_bit 6 ?h = c + 8 * (d + 8 * e)" using drop_bit_add[of 3 3 ?h] digits(2)[OF assms(2)] unfolding d3 by simp
  have d9: "drop_bit 9 ?h = d + 8 * e" using drop_bit_add[of 6 3 ?h] digits(2)[OF assms(3)] unfolding d6 by simp
  have d12: "drop_bit 12 ?h = e" using drop_bit_add[of 9 3 ?h] digits(2)[OF assms(4)] unfolding d9 by simp
  note defs = gv64_b0key_def gv64_b1key_def gv64_b2key_def gv64_b3key_def gv64_b4key_def and_mask_nat
  show "gv64_b0key (gv64_header [a, b, c, d, e]) = a" unfolding h defs by (rule digits(1)[OF assms(1)])
  show "gv64_b1key (gv64_header [a, b, c, d, e]) = b" unfolding h defs d3 by (rule digits(1)[OF assms(2)])
  show "gv64_b2key (gv64_header [a, b, c, d, e]) = c" unfolding h defs d6 by (rule digits(1)[OF assms(3)])
  show "gv64_b3key (gv64_header [a, b, c, d, e]) = d" unfolding h defs d9 by (rule digits(1)[OF assms(4)])
  show "gv64_b4key (gv64_header [a, b, c, d, e]) = e" unfolding h defs d12 using assms(5) by simp
  show "gv64_header [a, b, c, d, e] < 65536" unfolding h using assms by simp
qed

section \<open>Encoding a group\<close>

definition gv32_hdr :: "32 word list \<Rightarrow> 8 word list" where
  "gv32_hdr xs = [of_nat (gv32_header (map gv32_key xs))]"

definition gv64_hdr :: "64 word list \<Rightarrow> 8 word list" where
  "gv64_hdr xs = le_bytes (of_nat (gv64_header (map gv64_key xs)) :: 16 word)"

lemma length_gv_hdr [simp]: "length (gv32_hdr xs) = 1" "length (gv64_hdr ys) = 2"
  by (simp_all add: gv32_hdr_def gv64_hdr_def)

lemma list_of_4: "length xs = 4 \<longleftrightarrow> (\<exists>a b c d. xs = [a, b, c, d])"
  by (auto simp: numeral_eq_Suc length_Suc_conv)

lemma list_of_5: "length xs = 5 \<longleftrightarrow> (\<exists>a b c d e. xs = [a, b, c, d, e])"
  by (auto simp: numeral_eq_Suc length_Suc_conv)

lemma gv32_encode_store:
  "gv32_encode buf p a b c d =
     bindE (wr buf p (of_nat (gv32_header (map gv32_key [a, b, c, d])))) (\<lambda>buf0. store_all gv32_key buf0 (p + 1) [a, b, c, d])"
  by (simp add: gv32_encode_def Let_def gv32_header_or[OF gv32_key_less gv32_key_less gv32_key_less gv32_key_less, simplified] gv32_key_less)

lemma gv64_encode_store:
  "gv64_encode buf p a b c d e =
     bindE (storeUnaligned buf p (of_nat (gv64_header (map gv64_key [a, b, c, d, e])) :: 16 word))
       (\<lambda>buf0. store_all gv64_key buf0 (p + 2) [a, b, c, d, e])"
  by (simp add: gv64_encode_def Let_def gv64_header_or[OF gv64_key_less gv64_key_less gv64_key_less gv64_key_less gv64_key_less, simplified] gv64_key_less)

lemma gv32_encode_bytes:
  assumes "length xs = 4" "take (length pre) buf = pre" "length pre + 17 \<le> length buf"
  shows "\<exists>buf'. gv32_encode_array buf (length pre) xs = Inr (length (pre @ gv32_hdr xs @ concat (map (low_bytes gv32_key) xs)), buf')
           \<and> length buf' = length buf
           \<and> take (length (pre @ gv32_hdr xs @ concat (map (low_bytes gv32_key) xs))) buf'
               = pre @ gv32_hdr xs @ concat (map (low_bytes gv32_key) xs)"
proof -
  obtain a b c d where xs: "xs = [a, b, c, d]" using assms(1) unfolding list_of_4 by blast
  let ?h = "of_nat (gv32_header (map gv32_key xs)) :: 8 word"
  let ?buf = "buf[length pre := ?h]"
  have "take (length (pre @ gv32_hdr xs)) ?buf = pre @ gv32_hdr xs"
    using assms(2,3) by (simp add: gv32_hdr_def take_Suc_conv_app_nth)
  then have "\<exists>buf'. store_all gv32_key ?buf (length (pre @ gv32_hdr xs)) xs = Inr (length ((pre @ gv32_hdr xs) @ concat (map (low_bytes gv32_key) xs)), buf')
      \<and> length buf' = length ?buf \<and> take (length ((pre @ gv32_hdr xs) @ concat (map (low_bytes gv32_key) xs))) buf' = (pre @ gv32_hdr xs) @ concat (map (low_bytes gv32_key) xs)"
    using assms by (intro store_all_bytes[OF gv32_key_ok]) simp_all
  moreover have "gv32_encode_array buf (length pre) xs = store_all gv32_key ?buf (length (pre @ gv32_hdr xs)) xs"
    using assms(3) by (simp add: gv32_encode_array_def xs gv32_encode_store del: store_all.simps)
  ultimately show ?thesis by (simp del: store_all.simps)
qed

lemma gv64_encode_bytes:
  assumes "length xs = 5" "take (length pre) buf = pre" "length pre + 42 \<le> length buf"
  shows "\<exists>buf'. gv64_encode_array buf (length pre) xs = Inr (length (pre @ gv64_hdr xs @ concat (map (low_bytes gv64_key) xs)), buf')
           \<and> length buf' = length buf
           \<and> take (length (pre @ gv64_hdr xs @ concat (map (low_bytes gv64_key) xs))) buf'
               = pre @ gv64_hdr xs @ concat (map (low_bytes gv64_key) xs)"
proof -
  obtain a b c d e where xs: "xs = [a, b, c, d, e]" using assms(1) unfolding list_of_5 by blast
  let ?h = "of_nat (gv64_header (map gv64_key xs)) :: 16 word"
  obtain buf0 where b: "storeUnaligned buf (length pre) ?h = Inr buf0" "length buf0 = length buf"
      "take (length pre + 2) buf0 = pre @ take 2 (le_bytes ?h)"
    using store_step[of pre buf 2 ?h] assms by auto
  have "take (length (pre @ gv64_hdr xs)) buf0 = pre @ gv64_hdr xs" using b(3) by (simp add: gv64_hdr_def)
  then have "\<exists>buf'. store_all gv64_key buf0 (length (pre @ gv64_hdr xs)) xs = Inr (length ((pre @ gv64_hdr xs) @ concat (map (low_bytes gv64_key) xs)), buf')
      \<and> length buf' = length buf0 \<and> take (length ((pre @ gv64_hdr xs) @ concat (map (low_bytes gv64_key) xs))) buf' = (pre @ gv64_hdr xs) @ concat (map (low_bytes gv64_key) xs)"
    using assms b(2) by (intro store_all_bytes[OF gv64_key_ok]) simp_all
  moreover have "gv64_encode_array buf (length pre) xs = store_all gv64_key buf0 (length (pre @ gv64_hdr xs)) xs"
    using assms(3) b(1) by (simp add: gv64_encode_array_def xs gv64_encode_store del: store_all.simps)
  ultimately show ?thesis using b(2) by (simp del: store_all.simps)
qed

section \<open>Decoding a group\<close>

definition gv32_keys :: "nat \<Rightarrow> nat list" where
  "gv32_keys h = [gv32_b0key h, gv32_b1key h, gv32_b2key h, gv32_b3key h]"

definition gv64_keys :: "nat \<Rightarrow> nat list" where
  "gv64_keys h = [gv64_b0key h, gv64_b1key h, gv64_b2key h, gv64_b3key h, gv64_b4key h]"

lemma gv_keys_less: "k \<in> set (gv32_keys h) \<Longrightarrow> k < 4" "k \<in> set (gv64_keys h) \<Longrightarrow> k < 8"
  by (auto simp: gv32_keys_def gv32_b0key_def gv32_b1key_def gv32_b2key_def gv32_b3key_def and_mask_nat
      gv64_keys_def gv64_b0key_def gv64_b1key_def gv64_b2key_def gv64_b3key_def gv64_b4key_def)

lemma length_gv_keys [simp]: "length (gv32_keys h) = 4" "length (gv64_keys h) = 5"
  by (simp_all add: gv32_keys_def gv64_keys_def)

lemma get_d_keys: "j < 4 \<Longrightarrow> get_d h j = 1 + gv32_keys h ! j"
  by (auto simp: get_d_def gv32_keys_def gv32_b0key_def gv32_b1key_def gv32_b2key_def gv32_b3key_def
      numeral_eq_Suc less_Suc_eq)

lemma groupVarintLengths_nth:
  "h < 256 \<Longrightarrow> rd groupVarintLengths h = Inr (1 + sum_list (map (\<lambda>k. k + 1) (gv32_keys h)))"
  by (simp add: groupVarintLengths_def table_length_item_def get_offset_def get_d_keys gv32_keys_def)

lemma gv32_decode_simple_load:
  "gv32_decode_simple buf p =
     bindE (loadUnaligned buf p) (\<lambda>h :: 8 word. bindE (rd groupVarintLengths (unat h)) (\<lambda>len.
     bindE (load_all gv32_kMask buf (p + 1) (gv32_keys (unat h))) (\<lambda>(q, ys). Inr (p + len, ys))))"
  by (simp add: gv32_decode_simple_def Let_def gv32_keys_def bindE_assoc)

lemma gv64_decode_load:
  "gv64_decode buf p =
     bindE (loadUnaligned buf p) (\<lambda>h :: 16 word. load_all gv64_kMask buf (p + 2) (gv64_keys (unat h)))"
  by (simp add: gv64_decode_def Let_def gv64_keys_def bindE_assoc)

section \<open>The SSE shuffle\<close>

definition mask_byte :: "nat \<Rightarrow> nat \<Rightarrow> nat \<Rightarrow> 8 word" where
  "mask_byte d offset k = of_nat (if k < d then offset + k else 0xff)"

lemma ucast_of_nat_byte: "v < 256 \<Longrightarrow> (ucast (of_nat v :: 8 word) :: 32 word) = of_nat v"
  by (rule word_unat_eq_iff[THEN iffD2]) (simp add: unsigned_ucast_eq unat_of_nat take_bit_nat_eq_self)

lemma item_impl_bytes:
  assumes "offset + 4 \<le> 256"
  shows "le_bytes (item_impl d offset) = map (mask_byte d offset) [0..<4]"
proof -
  have "item_impl d offset = of_le_bytes (map (mask_byte d offset) [0..<4])"
    using assms by (simp add: item_impl_def partial_item_def mask_byte_def upt_rec ucast_of_nat_byte push_bit_or or.assoc add.commute)
  then show ?thesis by (simp only:) (rule le_bytes_of_le_bytes, simp)
qed

definition sse_byte :: "8 word list \<Rightarrow> nat \<Rightarrow> nat \<Rightarrow> nat \<Rightarrow> 8 word" where
  "sse_byte val d offset k = (if k < d then val ! (offset + k) else 0)"

lemma shuffle_item:
  assumes "offset + d \<le> 16" "d \<le> 4" "1 \<le> d"
  shows "mm_shuffle_epi8 val (le_bytes (item_impl d offset)) = map (sse_byte val d offset) [0..<4]"
proof -
  have "list_all (\<lambda>n. \<not> bit (of_nat n :: 8 word) 7 \<and> unat (of_nat n AND 0x0f :: 8 word) = n) [0..<16]" by code_simp
  then have low: "\<not> bit (of_nat n :: 8 word) 7 \<and> unat (of_nat n AND 0x0f :: 8 word) = n" if "n < 16" for n
    using that by (simp only: list_all_iff) (auto simp del: bit_simps)
  have high: "bit (0xff :: 8 word) 7" by code_simp
  have "(if bit (mask_byte d offset k) 7 then 0 else val ! unat (mask_byte d offset k AND 0x0f)) = sse_byte val d offset k" for k
  proof (cases "k < d")
    case True
    then have "offset + k < 16" using assms by simp
    from low[OF this] show ?thesis using True by (simp add: mask_byte_def sse_byte_def del: of_nat_add)
  next
    case False
    then show ?thesis using high by (simp add: mask_byte_def sse_byte_def)
  qed
  then show ?thesis using assms by (simp add: item_impl_bytes mm_shuffle_epi8_def)
qed

lemma of_le_bytes_zeros: "of_le_bytes (replicate n 0) = 0"
  by (induction n) auto

lemma of_le_bytes_sse:
  assumes "offset + d \<le> length val" "d \<le> 4"
  shows "(of_le_bytes (map (sse_byte val d offset) [0..<4]) :: 32 word) = of_le_bytes (take d (drop offset val))"
proof -
  have "map (sse_byte val d offset) [0..<4] = take d (drop offset val) @ replicate (4 - d) 0"
    using assms by (intro nth_equalityI) (auto simp: sse_byte_def nth_append)
  then show ?thesis by (simp add: of_le_bytes_append of_le_bytes_zeros)
qed

lemma gv32_decode_sse_pick:
  assumes "p + 17 \<le> length buf"
  shows "gv32_decode_sse buf p =
    Inr (p + (1 + sum_list (map (\<lambda>k. k + 1) (gv32_keys (unat (buf ! p))))), pick_all buf (p + 1) (gv32_keys (unat (buf ! p))))"
proof -
  define h where "h = unat (buf ! p)"
  define val where "val = take 16 (drop (p + 1) buf)"
  define ks where "ks = gv32_keys h"
  have h: "h < 256" unfolding h_def by (rule unat_less_256)
  obtain a b c d where ks: "ks = [a, b, c, d]" unfolding ks_def gv32_keys_def by blast
  have k4: "a < 4" "b < 4" "c < 4" "d < 4" using gv_keys_less(1)[of _ h] ks by (auto simp: ks_def)
  have items: "table_item h 0 = item_impl (a + 1) 0" "table_item h 1 = item_impl (b + 1) (a + 1)"
      "table_item h 2 = item_impl (c + 1) (a + 1 + (b + 1))" "table_item h 3 = item_impl (d + 1) (a + 1 + (b + 1) + (c + 1))"
    using ks by (simp_all add: table_item_def get_offset_def get_d_keys ks_def)
  have l: "length val = 16" using assms by (simp add: val_def)
  let ?part = "\<lambda>d offset. map (sse_byte val d offset) [0..<4]"
  have r: "mm_shuffle_epi8 val (concat (map le_bytes (table_sse_mask_item h))) =
      ?part (a + 1) 0 @ ?part (b + 1) (a + 1) @ ?part (c + 1) (a + 1 + (b + 1)) @ ?part (d + 1) (a + 1 + (b + 1) + (c + 1))"
  proof -
    have "mm_shuffle_epi8 val (xs @ ys) = mm_shuffle_epi8 val xs @ mm_shuffle_epi8 val ys" for xs ys
      by (simp add: mm_shuffle_epi8_def)
    then show ?thesis unfolding table_sse_mask_item_def items using k4 by (simp add: shuffle_item del: upt_Suc)
  qed
  have "map (\<lambda>j. of_le_bytes (take 4 (drop (4 * j) (mm_shuffle_epi8 val (concat (map le_bytes (table_sse_mask_item h))))))) [0..<4]
      = (map of_le_bytes [?part (a + 1) 0, ?part (b + 1) (a + 1), ?part (c + 1) (a + 1 + (b + 1)), ?part (d + 1) (a + 1 + (b + 1) + (c + 1))] :: 32 word list)"
    unfolding r by (simp add: upt_rec)
  also have "\<dots> = pick_all buf (p + 1) ks"
  proof -
    have "take k (drop off val) = take k (drop (p + 1 + off) buf)" if "off + k \<le> 16" for k off
      using that by (simp add: val_def drop_take min_def add.commute)
    from this[of 0 "a + 1"] this show ?thesis using k4 l by (simp add: of_le_bytes_sse ks del: upt_Suc) (simp add: add.assoc add.commute add.left_commute)
  qed
  finally show ?thesis
    using assms h unfolding gv32_decode_sse_def
    by (simp add: Let_def load_bytes_def groupVarintSSEMasks_def groupVarintLengths_nth
        val_def[simplified, symmetric] flip: h_def ks_def)
qed

lemma gv32_decode_simple_pick:
  assumes "p + 17 \<le> length buf"
  shows "gv32_decode_simple buf p =
    Inr (p + (1 + sum_list (map (\<lambda>k. k + 1) (gv32_keys (unat (buf ! p))))), pick_all buf (p + 1) (gv32_keys (unat (buf ! p))))"
proof -
  have "loadUnaligned buf p = Inr (buf ! p)"
  proof -
    have "loadUnaligned buf p = Inr (of_le_bytes [buf ! p] :: 8 word)"
      using assms by (simp add: loadUnaligned_def load_bytes_def take_Suc_conv_app_nth hd_drop_conv_nth flip: take_drop)
    then show ?thesis by simp
  qed
  moreover have "load_all gv32_kMask buf (p + 1) (gv32_keys (unat (buf ! p))) =
      Inr (p + 1 + sum_list (map (\<lambda>k. k + 1) (gv32_keys (unat (buf ! p)))), pick_all buf (p + 1) (gv32_keys (unat (buf ! p))))"
    using assms gv_keys_less(1) by (intro load_all_pick gv32_masks_ok) auto
  ultimately show ?thesis
    unfolding gv32_decode_simple_load by (simp add: groupVarintLengths_nth unat_less_256)
qed

lemma gv64_decode_pick:
  assumes "p + 42 \<le> length buf"
  defines "h \<equiv> unat (of_le_bytes (take 2 (drop p buf)) :: 16 word)"
  shows "gv64_decode buf p = Inr (p + 2 + sum_list (map (\<lambda>k. k + 1) (gv64_keys h)), pick_all buf (p + 2) (gv64_keys h))"
proof -
  have "loadUnaligned buf p = Inr (of_le_bytes (take 2 (drop p buf)) :: 16 word)"
    using assms by (simp add: loadUnaligned_def load_bytes_def)
  moreover have "load_all gv64_kMask buf (p + 2) (gv64_keys h) =
      Inr (p + 2 + sum_list (map (\<lambda>k. k + 1) (gv64_keys h)), pick_all buf (p + 2) (gv64_keys h))"
    using assms gv_keys_less(2) by (intro load_all_pick gv64_masks_ok) auto
  ultimately show ?thesis unfolding gv64_decode_load h_def by simp
qed

section \<open>Sizes and counts\<close>

lemma sum_keys_take:
  "n \<le> length xs \<Longrightarrow> sum_keys key xs n s = Inr (s + sum_list (map key (take n xs)))"
proof (induction xs arbitrary: n s)
  case (Cons x xs)
  then show ?case by (cases n) simp_all
qed simp

lemma sum_list_Suc: "sum_list (map (\<lambda>k. k + 1) ks) = sum_list ks + length (ks :: nat list)"
  by (induction ks) auto

lemma length_group:
  "key_ok key \<Longrightarrow> length (concat (map (low_bytes key) xs)) = length xs + sum_list (map key xs)"
  by (induction xs) (simp_all add: length_low_bytes)

lemma gv32_partialSize_eq:
  "n \<le> length xs \<Longrightarrow> n \<le> 4 \<Longrightarrow>
   gv32_partialSize xs n = Inr (1 + length (concat (map (low_bytes gv32_key) (take n xs))))"
  by (simp add: gv32_partialSize_def gv32_kGroupSize_def gv32_kHeaderSize_def sum_keys_take length_group[OF gv32_key_ok])

lemma gv64_partialSize_eq:
  "n \<le> length xs \<Longrightarrow> n \<le> 5 \<Longrightarrow>
   gv64_partialSize xs n = Inr (2 + length (concat (map (low_bytes gv64_key) (take n xs))))"
  by (simp add: gv64_partialSize_def gv64_kGroupSize_def gv64_kHeaderSize_def sum_keys_take length_group[OF gv64_key_ok])

lemma count_fitting_exact:
  "n \<le> length ks \<Longrightarrow> count_fitting ks s (s + (n + sum_list (take n ks))) c = c + n"
proof (induction ks arbitrary: n s c)
  case (Cons k ks)
  show ?case
  proof (cases n)
    case (Suc m)
    then show ?thesis using Cons.IH[of m "s + (1 + k)" "c + 1"] Cons.prems by (simp add: algebra_simps)
  qed simp
qed simp

lemma gv32_header_read:
  assumes "length xs = 4"
  shows "gv32_keys (unat (of_nat (gv32_header (map gv32_key xs)) :: 8 word)) = map gv32_key xs"
proof -
  obtain a b c d where xs: "xs = [a, b, c, d]" using assms unfolding list_of_4 by blast
  note h = gv32_header_keys[OF gv32_key_less gv32_key_less gv32_key_less gv32_key_less, of a b c d]
  then have "unat (of_nat (gv32_header (map gv32_key xs)) :: 8 word) = gv32_header (map gv32_key xs)"
    by (simp add: xs unat_of_nat)
  then show ?thesis using h by (simp add: xs gv32_keys_def)
qed

lemma gv64_header_read:
  assumes "length xs = 5"
  shows "gv64_keys (unat (of_nat (gv64_header (map gv64_key xs)) :: 16 word)) = map gv64_key xs"
proof -
  obtain a b c d e where xs: "xs = [a, b, c, d, e]" using assms unfolding list_of_5 by blast
  note h = gv64_header_keys[OF gv64_key_less gv64_key_less gv64_key_less gv64_key_less gv64_key_less, of a b c d e]
  then have "unat (of_nat (gv64_header (map gv64_key xs)) :: 16 word) = gv64_header (map gv64_key xs)"
    by (simp add: xs unat_of_nat)
  then show ?thesis using h by (simp add: xs gv64_keys_def)
qed

lemma gv32_partialCount_eq:
  assumes "length xs = 4" "n \<le> 4" "take 1 (drop p buf) = gv32_hdr xs"
  shows "gv32_partialCount buf p (1 + length (concat (map (low_bytes gv32_key) (take n xs)))) = Inr n"
proof -
  have p: "p < length buf" using assms(3) by (cases "p < length buf") (simp_all add: gv32_hdr_def)
  then have "buf ! p = of_nat (gv32_header (map gv32_key xs))"
    using assms(3) by (simp add: gv32_hdr_def take_Suc_conv_app_nth)
  then have "gv32_keys (unat (buf ! p)) = map gv32_key xs" using gv32_header_read[OF assms(1)] by simp
  then show ?thesis using p assms count_fitting_exact[of n "map gv32_key xs" 1 0]
    by (simp add: gv32_partialCount_def gv32_kHeaderSize_def length_group[OF gv32_key_ok] sum_list_Suc take_map add.commute
        flip: gv32_keys_def)
qed

lemma gv64_partialCount_eq:
  assumes "length xs = 5" "n \<le> 5" "take 2 (drop p buf) = gv64_hdr xs"
  shows "gv64_partialCount buf p (2 + length (concat (map (low_bytes gv64_key) (take n xs)))) = Inr n"
proof -
  have "length (take 2 (drop p buf)) = 2" unfolding assms(3) by simp
  then have p: "p + 2 \<le> length buf" by simp
  have "(of_le_bytes (gv64_hdr xs) :: 16 word) = of_nat (gv64_header (map gv64_key xs))" by (simp add: gv64_hdr_def)
  then have "loadUnaligned buf p = Inr (of_nat (gv64_header (map gv64_key xs)) :: 16 word)"
    using assms(3) p by (simp add: loadUnaligned_def load_bytes_def)
  then show ?thesis using p assms count_fitting_exact[of n "map gv64_key xs" 2 0] gv64_header_read[OF assms(1)]
    by (simp add: gv64_partialCount_def gv64_kHeaderSize_def length_group[OF gv64_key_ok] sum_list_Suc take_map add.commute
        flip: gv64_keys_def)
qed

lemma gv32_encodedSize_eq:
  assumes "length xs = 4" "take 1 (drop p buf) = gv32_hdr xs"
  shows "gv32_encodedSize buf p = Inr (1 + length (concat (map (low_bytes gv32_key) xs)))"
proof -
  have p: "p < length buf" using assms(2) by (cases "p < length buf") (simp_all add: gv32_hdr_def)
  then have "buf ! p = of_nat (gv32_header (map gv32_key xs))"
    using assms(2) by (simp add: gv32_hdr_def take_Suc_conv_app_nth)
  then have k: "gv32_keys (unat (buf ! p)) = map gv32_key xs" using gv32_header_read[OF assms(1)] by simp
  have "gv32_encodedSize buf p = Inr (1 + (4 + sum_list (gv32_keys (unat (buf ! p)))))"
    using p by (simp add: gv32_encodedSize_def gv32_kHeaderSize_def gv32_kGroupSize_def gv32_keys_def)
  then show ?thesis unfolding k using assms(1) by (simp add: length_group[OF gv32_key_ok])
qed

lemma gv64_encodedSize_eq:
  assumes "length xs = 5" "take 2 (drop p buf) = gv64_hdr xs"
  shows "gv64_encodedSize buf p = Inr (2 + length (concat (map (low_bytes gv64_key) xs)))"
proof -
  have "length (take 2 (drop p buf)) = 2" unfolding assms(2) by simp
  then have p: "p + 2 \<le> length buf" by simp
  let ?h = "of_nat (gv64_header (map gv64_key xs)) :: 16 word"
  have "(of_le_bytes (gv64_hdr xs) :: 16 word) = ?h" by (simp add: gv64_hdr_def)
  then have "loadUnaligned buf p = Inr ?h" using assms(2) p by (simp add: loadUnaligned_def load_bytes_def)
  then have "gv64_encodedSize buf p = Inr (2 + (5 + sum_list (gv64_keys (unat ?h))))"
    by (simp add: gv64_encodedSize_def gv64_kHeaderSize_def gv64_kGroupSize_def gv64_keys_def)
  then show ?thesis unfolding gv64_header_read[OF assms(1)] using assms(1) by (simp add: length_group[OF gv64_key_ok])
qed

section \<open>Decoding what was encoded\<close>

lemma group_of_buffer:
  assumes "take (length h + length v) (drop p buf) = h @ v"
  shows "take (length h) (drop p buf) = h" "take (length v) (drop (p + length h) buf) = v"
proof -
  have "take (length h) (drop p buf) = take (length h) (take (length h + length v) (drop p buf))" by simp
  then show "take (length h) (drop p buf) = h" by (simp add: assms)
  have "take (length v) (drop (p + length h) buf) = drop (length h) (take (length h + length v) (drop p buf))"
    by (simp add: drop_take add.commute)
  then show "take (length v) (drop (p + length h) buf) = v" by (simp add: assms)
qed

lemma gv32_decode_bytes:
  assumes "length xs = 4" "n \<le> 4" "p + 17 \<le> length buf"
    and "take (length (gv32_hdr xs) + length (concat (map (low_bytes gv32_key) (take n xs)))) (drop p buf) =
           gv32_hdr xs @ concat (map (low_bytes gv32_key) (take n xs))"
  shows "\<exists>ys. gv32_decode ssse3 buf p = Inr (p + (1 + length (concat (map (low_bytes gv32_key) xs))), ys)
           \<and> length ys = 4 \<and> take n ys = take n xs"
proof -
  note g = group_of_buffer[OF assms(4)]
  have "buf ! p = of_nat (gv32_header (map gv32_key xs))"
    using g(1) assms(3) by (simp add: gv32_hdr_def take_Suc_conv_app_nth)
  then have k: "gv32_keys (unat (buf ! p)) = map gv32_key xs" using gv32_header_read[OF assms(1)] by simp
  have "gv32_decode ssse3 buf p = Inr (p + (1 + sum_list (map (\<lambda>k. k + 1) (map gv32_key xs))), pick_all buf (p + 1) (map gv32_key xs))"
    using gv32_decode_sse_pick[OF assms(3)] gv32_decode_simple_pick[OF assms(3)] by (simp add: gv32_decode_def k)
  moreover have "take n (pick_all buf (p + 1) (map gv32_key xs)) = take n xs"
    using g(2) assms(1,2) by (intro pick_all_bytes[OF gv32_key_ok]) simp_all
  ultimately show ?thesis
    using assms(1) by (simp add: length_group[OF gv32_key_ok] sum_list_Suc[of "map gv32_key xs", simplified])
qed

lemma gv64_decode_bytes:
  assumes "length xs = 5" "n \<le> 5" "p + 42 \<le> length buf"
    and "take (length (gv64_hdr xs) + length (concat (map (low_bytes gv64_key) (take n xs)))) (drop p buf) =
           gv64_hdr xs @ concat (map (low_bytes gv64_key) (take n xs))"
  shows "\<exists>ys. gv64_decode buf p = Inr (p + (2 + length (concat (map (low_bytes gv64_key) xs))), ys)
           \<and> length ys = 5 \<and> take n ys = take n xs"
proof -
  note g = group_of_buffer[OF assms(4)]
  have "(of_le_bytes (gv64_hdr xs) :: 16 word) = of_nat (gv64_header (map gv64_key xs))" by (simp add: gv64_hdr_def)
  then have k: "gv64_keys (unat (of_le_bytes (take 2 (drop p buf)) :: 16 word)) = map gv64_key xs"
    using gv64_header_read[OF assms(1)] g(1) by simp
  have "gv64_decode buf p = Inr (p + 2 + sum_list (map (\<lambda>k. k + 1) (map gv64_key xs)), pick_all buf (p + 2) (map gv64_key xs))"
    using gv64_decode_pick[OF assms(3)] by (simp add: k)
  moreover have "take n (pick_all buf (p + 2) (map gv64_key xs)) = take n xs"
    using g(2) assms(1,2) by (intro pick_all_bytes[OF gv64_key_ok]) simp_all
  ultimately show ?thesis
    using assms(1) by (simp add: length_group[OF gv64_key_ok] sum_list_Suc[of "map gv64_key xs", simplified])
qed

end
