(* ===== verification/GroupVarint_Stream.thy ===== *)
theory GroupVarint_Stream
  imports GroupVarint_Correct
begin

text \<open>
  The encoder and decoder classes over a group format.  \<open>gv_stream\<close> is the byte stream of a list of
  values: full groups and a clipped last one.  The locale \<open>group_format\<close> states the laws of the static
  members; in it the encoder is shown to write the stream and the decoder, on the exact bytes, to
  return the values it was asked for, without reading outside the data or its temporary buffer.
\<close>

section \<open>Streams\<close>

definition group_part :: "('w list \<Rightarrow> 8 word list) \<Rightarrow> ('w \<Rightarrow> 8 word list) \<Rightarrow> 'w list \<Rightarrow> nat \<Rightarrow> 8 word list" where
  "group_part hdr vbytes xs n = hdr xs @ concat (map vbytes (take n xs))"

function gv_stream ::
  "nat \<Rightarrow> (('w::zero) list \<Rightarrow> 8 word list) \<Rightarrow> ('w \<Rightarrow> 8 word list) \<Rightarrow> 'w list \<Rightarrow> 8 word list" where
  "gv_stream g hdr vbytes vs =
     (if 0 < g \<and> g \<le> length vs
      then group_part hdr vbytes (take g vs) g @ gv_stream g hdr vbytes (drop g vs)
      else if vs = [] then []
      else group_part hdr vbytes (vs @ replicate (g - length vs) 0) (length vs))"
  by pat_completeness auto

termination gv_stream
  by (relation "measure (\<lambda>(g, hdr, vbytes, vs). length vs)") auto

declare gv_stream.simps [simp del]

lemma gv_stream_Nil [simp]: "gv_stream g hdr vbytes [] = []"
  by (subst gv_stream.simps) auto

section \<open>The decoder's state\<close>

definition dec_segment :: "'w gv_decoder \<Rightarrow> 8 word list" where
  "dec_segment d = take (dec_end d - dec_p d) (drop (dec_p d) (dec_memory d))"

text \<open>\<open>ws\<close> are the values still to be returned and \<open>r\<close> the bytes \<^verbatim>\<open>rest\<close> returns after them.\<close>

definition dec_pending ::
  "('w list \<Rightarrow> 8 word list) \<Rightarrow> nat \<Rightarrow> 8 word list \<Rightarrow> 'w list \<Rightarrow> 8 word list \<Rightarrow> bool" where
  "dec_pending stream remaining seg ws r \<longleftrightarrow>
     (if remaining = 0 then ws = [] \<and> r = seg
      else \<exists>us. seg = stream us \<and> ws = take remaining us \<and> r = drop (length (stream (take remaining us))) seg)"

definition dec_layout :: "'w gv_base \<Rightarrow> 'w gv_decoder \<Rightarrow> bool" where
  "dec_layout B d \<longleftrightarrow>
     dec_pos d \<le> dec_count d \<and> dec_count d \<le> gv_kGroupSize B \<and> length (dec_buf d) = gv_kGroupSize B
     \<and> length (dec_tmp d) = 2 * gv_kMaxSize B \<and> dec_p d \<le> dec_end d \<and> dec_end d \<le> dec_limit d
     \<and> dec_limit d = length (dec_memory d) \<and> (dec_in_tmp d \<longrightarrow> dec_end d < gv_kMaxSize B)
     \<and> dec_rrest d = length (dec_data d) \<and> dec_end d - dec_p d \<le> length (dec_data d)
     \<and> dec_segment d = drop (length (dec_data d) - (dec_end d - dec_p d)) (dec_data d)"

definition dec_inv ::
  "'w gv_base \<Rightarrow> ('w list \<Rightarrow> 8 word list) \<Rightarrow> 'w gv_decoder \<Rightarrow> 'w list \<Rightarrow> 8 word list \<Rightarrow> bool" where
  "dec_inv B stream d ws r \<longleftrightarrow>
     dec_layout B d \<and> (\<exists>ws'. ws = drop (dec_pos d) (take (dec_count d) (dec_buf d)) @ ws'
       \<and> dec_pending stream (dec_remaining d) (dec_segment d) ws' r)"

section \<open>The contract of a group format\<close>

locale group_format =
  fixes B :: "('w::zero) gv_base"
    and hdr :: "'w list \<Rightarrow> 8 word list"
    and vbytes :: "'w \<Rightarrow> 8 word list"
  assumes group_pos: "0 < gv_kGroupSize B"
    and header_pos: "0 < gv_kHeaderSize B"
    and max_size: "gv_kMaxSize B = gv_kHeaderSize B + gv_sizeof_type B * gv_kGroupSize B"
    and length_hdr: "length (hdr xs) = gv_kHeaderSize B"
    and vbytes_pos: "0 < length (vbytes x)"
    and vbytes_le: "length (vbytes x) \<le> gv_sizeof_type B"
    and size_law: "gv_kGroupSize B \<le> length xs \<Longrightarrow>
          gv_size B xs = Inr (length (group_part hdr vbytes (take (gv_kGroupSize B) xs) (gv_kGroupSize B)))"
    and partialSize_law: "n \<le> length xs \<Longrightarrow> n \<le> gv_kGroupSize B \<Longrightarrow>
          gv_partialSize B xs n = Inr (length (group_part hdr vbytes xs n))"
    and partialCount_law: "length xs = gv_kGroupSize B \<Longrightarrow> n \<le> gv_kGroupSize B \<Longrightarrow>
          take (gv_kHeaderSize B) (drop p buf) = hdr xs \<Longrightarrow>
          gv_partialCount B buf p (length (group_part hdr vbytes xs n)) = Inr n"
    and encodedSize_law: "length xs = gv_kGroupSize B \<Longrightarrow> take (gv_kHeaderSize B) (drop p buf) = hdr xs \<Longrightarrow>
          gv_encodedSize B buf p = Inr (length (group_part hdr vbytes xs (gv_kGroupSize B)))"
    and encode_law: "length xs = gv_kGroupSize B \<Longrightarrow> p + gv_kMaxSize B \<le> length buf \<Longrightarrow>
          \<exists>buf'. gv_encode B buf p xs = Inr (p + length (group_part hdr vbytes xs (gv_kGroupSize B)), buf')
            \<and> length buf' = length buf
            \<and> take (p + length (group_part hdr vbytes xs (gv_kGroupSize B))) buf'
                = take p buf @ group_part hdr vbytes xs (gv_kGroupSize B)"
    and decode_law: "length xs = gv_kGroupSize B \<Longrightarrow> n \<le> gv_kGroupSize B \<Longrightarrow> p + gv_kMaxSize B \<le> length buf \<Longrightarrow>
          take (length (group_part hdr vbytes xs n)) (drop p buf) = group_part hdr vbytes xs n \<Longrightarrow>
          \<exists>ys. gv_decode B buf p = Inr (p + length (group_part hdr vbytes xs (gv_kGroupSize B)), ys)
            \<and> length ys = gv_kGroupSize B \<and> take n ys = take n xs"
begin

abbreviation g :: nat where "g \<equiv> gv_kGroupSize B"
abbreviation part :: "'w list \<Rightarrow> nat \<Rightarrow> 8 word list" where "part \<equiv> group_part hdr vbytes"
abbreviation stream :: "'w list \<Rightarrow> 8 word list" where "stream \<equiv> gv_stream g hdr vbytes"
abbreviation pad :: "'w list \<Rightarrow> 'w list" where "pad vs \<equiv> vs @ replicate (g - length vs) 0"

lemma length_part: "length (part xs n) = gv_kHeaderSize B + length (concat (map vbytes (take n xs)))"
  by (simp add: group_part_def length_hdr)

lemma stream_full: "g \<le> length vs \<Longrightarrow> stream vs = part (take g vs) g @ stream (drop g vs)"
  by (subst gv_stream.simps) (simp add: group_pos)

lemma stream_last: "length vs < g \<Longrightarrow> vs \<noteq> [] \<Longrightarrow> stream vs = part (pad vs) (length vs)"
  by (subst gv_stream.simps) simp

lemma length_vbytes_le: "length (concat (map vbytes xs)) \<le> length xs * gv_sizeof_type B"
  by (induction xs) (use vbytes_le in \<open>auto intro: add_mono\<close>)

lemma length_part_le: "n \<le> length xs \<Longrightarrow> length (part xs n) \<le> gv_kHeaderSize B + n * gv_sizeof_type B"
  using length_vbytes_le[of "take n xs"] by (simp add: length_part min.absorb2)

lemma part_mono: "n < m \<Longrightarrow> m \<le> length xs \<Longrightarrow> length (part xs n) < length (part xs m)"
proof -
  assume "n < m" "m \<le> length xs"
  then have "take m xs = take n xs @ xs ! n # take (m - Suc n) (drop (Suc n) xs)"
    by (metis Cons_nth_drop_Suc Suc_diff_Suc le_add_diff_inverse less_imp_le_nat less_le_trans take_Suc_Cons take_add)
  then show ?thesis using vbytes_pos[of "xs ! n"] by (simp add: length_part)
qed

lemma length_stream_short:
  assumes "0 < n" "n \<le> length us" "n \<le> g" "take n xs = take n us"
  shows "length (stream (take n us)) = length (part xs n)"
proof (cases "n = g")
  case True
  then show ?thesis using assms stream_full[of "take n us"] by (simp add: length_part)
next
  case False
  moreover have "take n us \<noteq> []" using assms by auto
  ultimately show ?thesis using assms stream_last[of "take n us"] by (simp add: length_part)
qed

text \<open>One group: the round trip, the sizes, and decoding a clipped copy.\<close>

lemma part_prefix: "n \<le> m \<Longrightarrow> take (length (part xs n)) (part xs m) = part xs n"
proof -
  assume "n \<le> m"
  then have "take m xs = take n xs @ drop n (take m xs)" by (metis append_take_drop_id min.absorb1 take_take)
  then have "concat (map vbytes (take m xs)) = concat (map vbytes (take n xs)) @ concat (map vbytes (drop n (take m xs)))"
    by (metis concat_append map_append)
  then show ?thesis by (simp add: group_part_def)
qed

lemma part_le: "n \<le> m \<Longrightarrow> m \<le> length xs \<Longrightarrow> length (part xs n) \<le> length (part xs m)"
  using part_mono[of n m xs] by (cases "n = m") auto

lemma hdr_of_part: "take (length (part xs n)) bs = part xs n \<Longrightarrow> take (gv_kHeaderSize B) bs = hdr xs"
proof -
  assume "take (length (part xs n)) bs = part xs n"
  then have "take (gv_kHeaderSize B) bs = take (gv_kHeaderSize B) (part xs n)"
    by (metis le_add1 length_part min.absorb1 take_take)
  then show ?thesis by (simp add: group_part_def length_hdr)
qed

lemma group_roundtrip:
  assumes x: "length xs = g" and b: "p + gv_kMaxSize B \<le> length buf"
  shows "\<exists>q buf'. gv_encode B buf p xs = Inr (q, buf') \<and> length buf' = length buf \<and> take p buf' = take p buf
    \<and> p < q \<and> q \<le> p + gv_kMaxSize B \<and> gv_size B xs = Inr (q - p) \<and> gv_encodedSize B buf' p = Inr (q - p)
    \<and> gv_decode B buf' p = Inr (q, xs)
    \<and> (\<forall>n \<le> g. \<exists>s. gv_partialSize B xs n = Inr s \<and>
         (\<forall>buf2 p2. p2 + gv_kMaxSize B \<le> length buf2 \<and> take s (drop p2 buf2) = take s (drop p buf') \<longrightarrow>
            gv_partialCount B buf2 p2 s = Inr n \<and>
            (\<exists>ys. gv_decode B buf2 p2 = Inr (p2 + (q - p), ys) \<and> take n ys = take n xs)))"
proof -
  obtain buf' where e: "gv_encode B buf p xs = Inr (p + length (part xs g), buf')" "length buf' = length buf"
      "take (p + length (part xs g)) buf' = take p buf @ part xs g"
    using encode_law[OF x b] by blast
  have lp: "length (take p buf) = p" using b by simp
  have full: "take (length (part xs g)) (drop p buf') = part xs g"
  proof -
    have "take (length (part xs g)) (drop p buf') = drop p (take (p + length (part xs g)) buf')" by (simp add: drop_take)
    then show ?thesis unfolding e(3) using lp by simp
  qed
  have clip: "take (length (part xs n)) (drop p buf') = part xs n" if "n \<le> g" for n
    using part_prefix[OF that, of xs] part_le[OF that, of xs] x full by (metis min.absorb1 order_refl take_take)
  obtain ys where ys: "gv_decode B buf' p = Inr (p + length (part xs g), ys)" "length ys = g" "take g ys = take g xs"
    using decode_law[OF x, of g p buf'] full b e(2) by auto
  have "p + length (part xs g) \<le> p + gv_kMaxSize B"
    using length_part_le[of g xs] x by (simp add: max_size mult.commute)
  moreover have "take p buf' = take p buf"
    using arg_cong[OF e(3), of "take p"] lp by simp
  moreover have "gv_size B xs = Inr (length (part xs g))" using size_law[of xs] x by simp
  moreover have "gv_encodedSize B buf' p = Inr (length (part xs g))"
    using encodedSize_law[OF x hdr_of_part[OF full]] .
  moreover have "\<exists>s. gv_partialSize B xs n = Inr s \<and>
         (\<forall>buf2 p2. p2 + gv_kMaxSize B \<le> length buf2 \<and> take s (drop p2 buf2) = take s (drop p buf') \<longrightarrow>
            gv_partialCount B buf2 p2 s = Inr n \<and>
            (\<exists>ys. gv_decode B buf2 p2 = Inr (p2 + length (part xs g), ys) \<and> take n ys = take n xs))" if n: "n \<le> g" for n
    using partialSize_law[of n xs] n x clip[OF n] partialCount_law[OF x n] hdr_of_part decode_law[OF x n]
    by (intro exI[of _ "length (part xs n)"]) fastforce
  moreover have "0 < length (part xs g)" using header_pos by (simp add: length_part)
  ultimately show ?thesis using e(1,2) ys x
    by (intro exI[of _ "p + length (part xs g)"] exI[of _ buf']) auto
qed

text \<open>The sizes computed without encoding.\<close>

lemma totalSize_stream: "gv_totalSize_loop B vs (length vs) s = Inr (s + length (stream vs))"
proof (induction vs arbitrary: s rule: length_induct)
  case (1 vs)
  show ?case
  proof (cases "g \<le> length vs")
    case True
    then have "gv_totalSize_loop B (drop g vs) (length (drop g vs)) (s + length (part (take g vs) g)) =
        Inr (s + length (part (take g vs) g) + length (stream (drop g vs)))"
      using 1[rule_format, of "drop g vs"] True group_pos by auto
    then show ?thesis using True group_pos
      by (subst gv_totalSize_loop.simps) (simp add: size_law stream_full)
  next
    case False
    then show ?thesis
      by (cases "vs = []")
        (simp_all add: gv_totalSize_loop.simps partialSize_law stream_last length_part)
  qed
qed

lemma length_stream_le: "length (stream vs) \<le> gv_maxSize B (length vs)"
proof (induction vs rule: length_induct)
  case (1 vs)
  show ?case
  proof (cases "g \<le> length vs")
    case True
    have "length (part (take g vs) g) \<le> gv_kHeaderSize B + g * gv_sizeof_type B"
      using length_part_le[of g "take g vs"] True by simp
    moreover have "length (stream (drop g vs)) \<le> gv_maxSize B (length vs - g)"
      using 1[rule_format, of "drop g vs"] True group_pos by auto
    moreover have "gv_maxSize B (length vs) = gv_kHeaderSize B + g * gv_sizeof_type B + gv_maxSize B (length vs - g)"
      using True group_pos by (simp add: gv_maxSize_def Let_def le_div_geq le_mod_geq)
    ultimately show ?thesis using stream_full[OF True] by simp
  next
    case False
    then show ?thesis
      using length_part_le[of "length vs" "pad vs"] by (cases "vs = []") (simp_all add: stream_last gv_maxSize_def)
  qed
qed

section \<open>The encoder\<close>

text \<open>Adding \<open>vs\<close> to an encoder with the values \<open>w\<close> buffered and finishing appends the stream of \<open>w @ vs\<close>.\<close>

lemma encoder_finish:
  assumes "length (enc_tmp e) = gv_kMaxSize B" "length (enc_buf e) = g" "enc_count e < g"
  shows "\<exists>e'. gv_encoder_finish B e = Inr e' \<and> enc_out e' = enc_out e @ stream (take (enc_count e) (enc_buf e))
           \<and> enc_count e' = 0 \<and> length (enc_tmp e') = gv_kMaxSize B \<and> length (enc_buf e') = g"
proof (cases "enc_count e = 0")
  case True
  then show ?thesis using assms by (simp add: gv_encoder_finish_def)
next
  case False
  define c where "c = enc_count e"
  define w where "w = take c (enc_buf e)"
  have w: "length w = c" "w \<noteq> []" using assms False by (auto simp: w_def c_def)
  have z: "map (\<lambda>i. 0) [c..<g] = replicate (g - c) 0" by (simp add: map_replicate_const)
  have fill: "store_loop (\<lambda>i. Inr 0) 0 c (g - c) (enc_buf e) = Inr (pad w)"
    using assms store_loop_Inr[of c "g - c" "\<lambda>i. Inr 0" "\<lambda>i. 0" 0 "enc_buf e"] w(1) z by (simp add: w_def c_def)
  have lp: "length (pad w) = g" using w assms by (simp add: c_def)
  obtain tmp where t: "gv_encode B (enc_tmp e) 0 (pad w) = Inr (length (part (pad w) g), tmp)"
      "length tmp = gv_kMaxSize B" "take (length (part (pad w) g)) tmp = part (pad w) g"
    using encode_law[OF lp, of 0 "enc_tmp e"] assms(1) by auto
  have pref: "take (length (part (pad w) c)) (part (pad w) g) = part (pad w) c"
    using lp assms(3) w(1) by (simp add: group_part_def c_def)
  have "length (part (pad w) c) \<le> length (part (pad w) g)"
    using part_mono[of c g "pad w"] lp assms(3) by (simp add: c_def)
  then have "take (length (part (pad w) c)) tmp = take (length (part (pad w) c)) (take (length (part (pad w) g)) tmp)" by simp
  also have "\<dots> = part (pad w) c" unfolding t(3) by (rule pref)
  also have "\<dots> = stream w" using stream_last[of w] w assms(3) by (simp add: c_def)
  finally have out: "take (length (part (pad w) c)) tmp = stream w" .
  show ?thesis
    using False fill t lp out partialSize_law[of c "pad w"] assms(3)
    by (simp add: gv_encoder_finish_def flip: c_def w_def)
qed

lemma encoder_stream:
  assumes "length (enc_tmp e) = gv_kMaxSize B" "length (enc_buf e) = g" "enc_count e < g"
  shows "\<exists>e'. gv_add_all B vs e = Inr e' \<and>
           gv_encoder_destroy B e' = Inr (enc_out e @ stream (take (enc_count e) (enc_buf e) @ vs))"
  using assms
proof (induction vs arbitrary: e)
  case Nil
  then show ?case using encoder_finish[of e] by (auto simp: gv_encoder_destroy_def)
next
  case (Cons v vs)
  let ?buf = "(enc_buf e)[enc_count e := v]" and ?c = "enc_count e + 1"
  have w: "take ?c ?buf = take (enc_count e) (enc_buf e) @ [v]"
    using Cons.prems by (simp add: take_Suc_conv_app_nth)
  show ?case
  proof (cases "?c = g")
    case True
    obtain tmp where t: "gv_encode B (enc_tmp e) 0 ?buf = Inr (length (part ?buf g), tmp)"
        "length tmp = gv_kMaxSize B" "take (length (part ?buf g)) tmp = part ?buf g"
      using encode_law[of ?buf 0 "enc_tmp e"] Cons.prems by auto
    define e1 where "e1 = e\<lparr>enc_out := enc_out e @ part ?buf g, enc_tmp := tmp, enc_buf := ?buf, enc_count := 0\<rparr>"
    have "gv_encoder_add B v e = Inr e1" using Cons.prems True t by (simp add: gv_encoder_add_def e1_def)
    moreover obtain e2 where "gv_add_all B vs e1 = Inr e2" "gv_encoder_destroy B e2 = Inr (enc_out e1 @ stream vs)"
      using Cons.IH[of e1] Cons.prems t group_pos by (auto simp: e1_def)
    moreover have "stream (take (enc_count e) (enc_buf e) @ v # vs) = part ?buf g @ stream vs"
    proof -
      have eq: "take (enc_count e) (enc_buf e) @ v # vs = ?buf @ vs" using w True Cons.prems by simp
      show ?thesis unfolding eq using stream_full[of "?buf @ vs"] Cons.prems by simp
    qed
    ultimately show ?thesis by (simp add: e1_def)
  next
    case False
    define e1 where "e1 = e\<lparr>enc_buf := ?buf, enc_count := ?c\<rparr>"
    have "gv_encoder_add B v e = Inr e1" using Cons.prems False by (simp add: gv_encoder_add_def e1_def)
    moreover obtain e2 where "gv_add_all B vs e1 = Inr e2"
        "gv_encoder_destroy B e2 = Inr (enc_out e @ stream (take ?c ?buf @ vs))"
      using Cons.IH[of e1] Cons.prems False by (auto simp: e1_def)
    ultimately show ?thesis using w by simp
  qed
qed

section \<open>The decoder\<close>

text \<open>The next group of a nonempty stream, as the decoder sees it: it finds \<open>min (length us) g\<close> values.\<close>

definition next_group :: "'w list \<Rightarrow> 'w list" where
  "next_group us = (if g \<le> length us then take g us else pad us)"

lemma length_next_group: "length (next_group us) = g"
  by (simp add: next_group_def)

lemma take_next_group: "n \<le> g \<Longrightarrow> n \<le> length us \<Longrightarrow> take n (next_group us) = take n us"
  by (simp add: next_group_def min_def)

lemma stream_next_group:
  assumes "us \<noteq> []"
  shows "stream us = part (next_group us) (min g (length us)) @ stream (drop g us)"
  using stream_full[of us] stream_last[of us] assms by (cases "g \<le> length us") (simp_all add: next_group_def min_def)

lemma stream_nonempty: "us \<noteq> [] \<Longrightarrow> stream us \<noteq> []"
  using stream_next_group[of us] header_pos by (auto simp: group_part_def dest: arg_cong[where f = length] simp: length_hdr)

lemma decode_next_group:
  assumes "us \<noteq> []" "p + gv_kMaxSize B \<le> length buf" "take (length (stream us)) (drop p buf) = stream us"
  shows "\<exists>ys. gv_decode B buf p = Inr (p + length (part (next_group us) g), ys) \<and> length ys = g
           \<and> take (min g (length us)) ys = take g us"
proof -
  let ?n = "min g (length us)"
  have "take (length (part (next_group us) ?n)) (drop p buf) = take (length (part (next_group us) ?n)) (take (length (stream us)) (drop p buf))"
    using stream_next_group[OF assms(1)] by simp
  also have "\<dots> = part (next_group us) ?n" unfolding assms(3) using stream_next_group[OF assms(1)] by simp
  finally obtain ys where "gv_decode B buf p = Inr (p + length (part (next_group us) g), ys)" "length ys = g"
      "take ?n ys = take ?n (next_group us)"
    using decode_law[OF length_next_group, of ?n p buf] assms(2) by auto
  moreover have "take ?n (next_group us) = take ?n us" by (rule take_next_group) simp_all
  moreover have "take ?n us = take g us" by (simp add: min_def)
  ultimately show ?thesis by metis
qed

text \<open>What \<open>dec_refill\<close> does with a nonempty stream.\<close>

lemma refill_cases:
  assumes us: "us \<noteq> []" and seg: "dec_segment d = stream us" and rem: "0 < dec_remaining d"
    and lay: "dec_p d \<le> dec_end d" "dec_end d \<le> length (dec_memory d)" "dec_p d + gv_kMaxSize B \<le> length (dec_memory d)"
  defines "c \<equiv> min (dec_remaining d) (min g (length us))"
  shows "\<exists>ys. length ys = g \<and> take c ys = take c us \<and>
    dec_refill B d = Inr (d\<lparr>dec_pos := 0, dec_buf := ys, dec_count := c, dec_remaining := dec_remaining d - c,
      dec_p := dec_p d + length (stream (take c us))\<rparr>)"
proof -
  let ?n = "min g (length us)"
  have len: "length (stream us) = dec_end d - dec_p d"
    unfolding seg[symmetric] dec_segment_def using lay by simp
  have bytes: "take (length (stream us)) (drop (dec_p d) (dec_memory d)) = stream us"
    unfolding len using seg by (simp add: dec_segment_def)
  obtain ys where ys: "gv_decode B (dec_memory d) (dec_p d) = Inr (dec_p d + length (part (next_group us) g), ys)"
      "length ys = g" "take ?n ys = take g us"
    using decode_next_group[OF us lay(3) bytes] by blast
  have c: "0 < c" "c \<le> g" "c \<le> length us" "c \<le> ?n" using us rem group_pos by (auto simp: c_def)
  have yc: "take c ys = take c us"
  proof -
    have "take c ys = take c (take ?n ys)" using c by (simp add: min_def)
    then show ?thesis using c unfolding ys(3) by (simp add: min_def)
  qed
  have ps: "gv_partialSize B ys c = Inr (length (stream (take c us)))"
    using partialSize_law[of c ys] length_stream_short[of c us ys] c ys(2) yc by simp
  have mem: "dec_memory (d\<lparr>dec_pos := 0\<rparr>) = dec_memory d" by (simp add: dec_memory_def)
  have full: "length (stream us) = length (part (next_group us) ?n) + length (stream (drop g us))"
    using stream_next_group[OF us] by simp
  have "dec_refill B d = Inr (d\<lparr>dec_pos := 0, dec_buf := ys, dec_count := c, dec_remaining := dec_remaining d - c,
      dec_p := dec_p d + length (stream (take c us))\<rparr>)"
  proof (cases "g \<le> length us")
    case True
    then have le: "dec_p d + length (part (next_group us) g) \<le> dec_end d" using full len lay by simp
    show ?thesis
    proof (cases "g \<le> dec_remaining d")
      case g: True
      then have "c = g" using True by (simp add: c_def)
      moreover have "length (stream (take g us)) = length (part (next_group us) g)"
        using length_stream_short[of g us "next_group us"] take_next_group[of g us] True group_pos by simp
      ultimately show ?thesis using le g ys mem by (simp add: dec_refill_def)
    next
      case False
      then have "c = dec_remaining d" using True by (simp add: c_def)
      then show ?thesis using le False ys mem ps by (simp add: dec_refill_def)
    qed
  next
    case False
    then have d0: "stream (drop g us) = []" and n: "?n = length us" by simp_all
    have gt: "\<not> dec_p d + length (part (next_group us) g) \<le> dec_end d"
      using part_mono[of "length us" g "next_group us"] False full len lay d0 n length_next_group by simp
    have pl: "length (part (next_group us) (length us)) = dec_end d - dec_p d" using full len d0 n by simp
    have hd: "take (gv_kHeaderSize B) (drop (dec_p d) (dec_memory d)) = hdr (next_group us)"
    proof -
      have "take (gv_kHeaderSize B) (stream us) = hdr (next_group us)"
        unfolding stream_next_group[OF us] by (simp add: group_part_def length_hdr)
      then show ?thesis using full by (subst (asm) bytes[symmetric]) (simp add: length_part min_def)
    qed
    have pc: "gv_partialCount B (dec_memory d) (dec_p d) (dec_end d - dec_p d) = Inr (length us)"
      using partialCount_law[OF length_next_group _ hd, of "length us"] False unfolding pl by simp
    show ?thesis
    proof (cases "length us \<le> dec_remaining d")
      case True
      then have "c = length us" using n by (simp add: c_def)
      then show ?thesis using gt ys mem pc True len lay by (simp add: dec_refill_def)
    next
      case r: False
      then have "c = dec_remaining d" using n by (simp add: c_def)
      then show ?thesis using gt ys mem pc r ps by (simp add: dec_refill_def)
    qed
  qed
  then show ?thesis using ys(2) yc by blast
qed

lemma length_segment:
  assumes "dec_layout B d"
  shows "length (dec_segment d) = dec_end d - dec_p d"
proof -
  have "dec_p d \<le> dec_end d" "dec_end d \<le> length (dec_memory d)" using assms by (simp_all add: dec_layout_def)
  then show ?thesis by (simp add: dec_segment_def)
qed

lemma stream_split: "c = min g (length us) \<Longrightarrow> stream us = stream (take c us) @ stream (drop c us)"
  using stream_full[of us] stream_full[of "take g us"] by (cases "g \<le> length us") (simp_all add: min_def)

lemma pending_after:
  assumes "us \<noteq> []" "0 < k" "c = min k (min g (length us))"
  shows "dec_pending stream (k - c) (drop (length (stream (take c us))) (stream us)) (drop c (take k us))
           (drop (length (stream (take k us))) (stream us))"
proof (cases "k = c")
  case True
  then show ?thesis by (simp add: dec_pending_def)
next
  case False
  then have c: "c = min g (length us)" "c < k" using assms(3) by auto
  have s: "stream us = stream (take c us) @ stream (drop c us)" by (rule stream_split[OF c(1)])
  have "c = min g (length (take k us))" using assms(3) c by auto
  then have "stream (take k us) = stream (take c (take k us)) @ stream (drop c (take k us))" by (rule stream_split)
  moreover have "drop c (take k us) = take (k - c) (drop c us)" by (rule drop_take)
  ultimately have t: "stream (take k us) = stream (take c us) @ stream (take (k - c) (drop c us))"
    using c by (simp add: min_def)
  have "drop (length (stream (take c us))) (stream us) = stream (drop c us)" using s by simp
  moreover have "drop (length (stream (take k us))) (stream us) =
      drop (length (stream (take (k - c) (drop c us)))) (drop (length (stream (take c us))) (stream us))"
    using t by (simp add: add.commute)
  ultimately show ?thesis unfolding dec_pending_def using c(2) drop_take[of c k us] by auto
qed

lemma refill_inv:
  assumes lay: "dec_layout B d" and us: "us \<noteq> []" and seg: "dec_segment d = stream us" and rem: "0 < dec_remaining d"
    and room: "gv_kMaxSize B \<le> dec_limit d - dec_p d"
  shows "\<exists>d'. dec_refill B d = Inr d' \<and> dec_pos d' = 0 \<and> 0 < dec_count d' \<and>
    dec_inv B stream d' (take (dec_remaining d) us) (drop (length (stream (take (dec_remaining d) us))) (stream us))"
proof -
  define c where "c = min (dec_remaining d) (min g (length us))"
  define q where "q = length (stream (take c us))"
  have len: "length (stream us) = dec_end d - dec_p d"
    unfolding seg[symmetric] by (rule length_segment[OF lay])
  have room': "dec_p d + gv_kMaxSize B \<le> length (dec_memory d)"
    using lay room header_pos max_size unfolding dec_layout_def by linarith
  have ends: "dec_p d \<le> dec_end d" "dec_end d \<le> length (dec_memory d)" using lay by (simp_all add: dec_layout_def)
  obtain ys where ys: "length ys = g" "take c ys = take c us"
      "dec_refill B d = Inr (d\<lparr>dec_pos := 0, dec_buf := ys, dec_count := c, dec_remaining := dec_remaining d - c,
         dec_p := dec_p d + q\<rparr>)"
    using refill_cases[OF us seg rem ends room'] unfolding c_def q_def by blast
  define d' where "d' = d\<lparr>dec_pos := 0, dec_buf := ys, dec_count := c, dec_remaining := dec_remaining d - c,
         dec_p := dec_p d + q\<rparr>"
  have c: "0 < c" "c \<le> g" using us rem group_pos by (auto simp: c_def)
  have q: "q \<le> dec_end d - dec_p d"
  proof -
    have "c \<le> length us" by (simp add: c_def)
    then have "q = length (part (next_group us) c)"
      using length_stream_short[of c us "next_group us"] take_next_group[of c us] c by (simp add: q_def)
    also have "\<dots> \<le> length (part (next_group us) (min g (length us)))"
    proof (cases "c = min g (length us)")
      case False
      then have "c < min g (length us)" by (auto simp: c_def)
      then show ?thesis using part_mono[of c "min g (length us)" "next_group us"] length_next_group[of us] by simp
    qed simp
    also have "\<dots> \<le> length (stream us)" using stream_next_group[OF us] by simp
    finally show ?thesis using len by simp
  qed
  have mem: "dec_memory d' = dec_memory d" by (simp add: d'_def dec_memory_def)
  have seg': "dec_segment d' = drop q (stream us)"
  proof -
    have "drop q (dec_segment d) = take (dec_end d - dec_p d - q) (drop (dec_p d + q) (dec_memory d))"
      unfolding dec_segment_def drop_take by (simp add: add.commute)
    then show ?thesis unfolding seg[symmetric] by (simp add: dec_segment_def mem) (simp add: d'_def)
  qed
  have "dec_layout B d'"
  proof -
    have l: "dec_end d - dec_p d \<le> length (dec_data d)" "dec_p d \<le> dec_end d" using lay by (simp_all add: dec_layout_def)
    have b: "dec_p d + q \<le> dec_end d" "dec_end d - (dec_p d + q) \<le> length (dec_data d)" using l q by arith+
    have "length (dec_data d) - (dec_end d - (dec_p d + q)) = q + (length (dec_data d) - (dec_end d - dec_p d))"
      using l q by arith
    moreover have "dec_segment d' = drop q (drop (length (dec_data d) - (dec_end d - dec_p d)) (dec_data d))"
      unfolding seg' using lay seg by (simp add: dec_layout_def)
    ultimately have "dec_segment d' = drop (length (dec_data d) - (dec_end d - (dec_p d + q))) (dec_data d)" by simp
    then show ?thesis using lay b ys(1) c unfolding dec_layout_def mem by (simp add: d'_def)
  qed
  moreover have "dec_pending stream (dec_remaining d') (dec_segment d') (drop c (take (dec_remaining d) us))
      (drop (length (stream (take (dec_remaining d) us))) (stream us))"
    unfolding seg' q_def using pending_after[OF us rem c_def] by (simp add: d'_def)
  moreover have "take (dec_remaining d) us = drop (dec_pos d') (take (dec_count d') (dec_buf d')) @ drop c (take (dec_remaining d) us)"
  proof -
    have "take c (take (dec_remaining d) us) = take c us" by (simp add: c_def min_def)
    then show ?thesis using ys(2) append_take_drop_id[of c "take (dec_remaining d) us"] by (simp add: d'_def)
  qed
  ultimately have "dec_inv B stream d' (take (dec_remaining d) us) (drop (length (stream (take (dec_remaining d) us))) (stream us))"
    unfolding dec_inv_def by blast
  then show ?thesis using ys(3) c by (auto simp flip: d'_def) (simp_all add: d'_def)
qed

lemma to_tmp_inv:
  assumes lay: "dec_layout B d" and small: "dec_limit d - dec_p d < gv_kMaxSize B"
  shows "\<exists>d'. dec_to_tmp (dec_end d - dec_p d) d = Inr d' \<and> dec_layout B d' \<and> dec_segment d' = dec_segment d
           \<and> dec_remaining d' = dec_remaining d \<and> gv_kMaxSize B \<le> dec_limit d' - dec_p d'"
proof -
  let ?rem = "dec_end d - dec_p d"
  have out: "\<not> dec_in_tmp d"
    using lay small by (auto simp: dec_layout_def dec_memory_def)
  have r: "?rem < gv_kMaxSize B" using lay small by (auto simp: dec_layout_def)
  define d' where "d' = d\<lparr>dec_tmp := dec_segment d @ drop ?rem (dec_tmp d), dec_in_tmp := True, dec_p := 0,
      dec_end := ?rem, dec_limit := length (dec_tmp d)\<rparr>"
  have "dec_to_tmp ?rem d = Inr d'"
    using lay out r by (simp add: dec_to_tmp_def load_bytes_def dec_layout_def d'_def dec_segment_def)
  moreover have l: "length (dec_segment d) = ?rem" by (rule length_segment[OF lay])
  moreover have s: "dec_segment d' = dec_segment d"
  proof -
    have "dec_segment d' = take ?rem (dec_segment d @ drop ?rem (dec_tmp d))"
      by (simp add: dec_segment_def[of d'] dec_memory_def) (simp add: d'_def)
    then show ?thesis using l by simp
  qed
  moreover have "dec_layout B d'"
    using lay r l unfolding dec_layout_def s by (simp add: d'_def dec_memory_def)
  ultimately show ?thesis using lay r by (auto simp: d'_def dec_layout_def)
qed

lemma take_inv:
  assumes "dec_inv B stream d ws r" "dec_pos d < dec_count d"
  shows "\<exists>d' v ws'. ws = v # ws' \<and> dec_take d = Inr (Some v, d') \<and> dec_inv B stream d' ws' r"
proof -
  obtain us where us: "ws = drop (dec_pos d) (take (dec_count d) (dec_buf d)) @ us"
      "dec_pending stream (dec_remaining d) (dec_segment d) us r" and lay: "dec_layout B d"
    using assms(1) by (auto simp: dec_inv_def)
  let ?d = "d\<lparr>dec_pos := dec_pos d + 1\<rparr>"
  have i: "dec_pos d < length (take (dec_count d) (dec_buf d))" "dec_pos d < length (dec_buf d)"
    using lay assms(2) by (simp_all add: dec_layout_def)
  have "ws = dec_buf d ! dec_pos d # drop (dec_pos ?d) (take (dec_count d) (dec_buf d)) @ us"
    using us(1) Cons_nth_drop_Suc[OF i(1)] assms(2) by simp
  moreover have s: "dec_segment ?d = dec_segment d" by (simp add: dec_segment_def dec_memory_def)
  moreover have "dec_layout B ?d"
    using lay assms(2) unfolding dec_layout_def s by (simp add: dec_memory_def)
  ultimately show ?thesis using us(2) i(2) by (auto simp: dec_take_def dec_inv_def)
qed

lemma next_some:
  assumes inv: "dec_inv B stream d (v # ws) r"
  shows "\<exists>d'. gv_decoder_next B d = Inr (Some v, d') \<and> dec_inv B stream d' ws r"
proof (cases "dec_pos d = dec_count d")
  case False
  then have "dec_pos d < dec_count d" using inv by (simp add: dec_inv_def dec_layout_def)
  then show ?thesis using take_inv[OF inv] False by (auto simp: gv_decoder_next_def)
next
  case True
  have lay: "dec_layout B d" using inv by (simp add: dec_inv_def)
  then have "dec_pending stream (dec_remaining d) (dec_segment d) (v # ws) r"
    using inv True by (auto simp: dec_inv_def dec_layout_def)
  then obtain us where rem: "0 < dec_remaining d" and seg: "dec_segment d = stream us"
      and ws: "v # ws = take (dec_remaining d) us" and r: "r = drop (length (stream (take (dec_remaining d) us))) (stream us)"
    by (auto simp: dec_pending_def split: if_splits)
  have us: "us \<noteq> []" using ws by auto
  have ne: "dec_end d - dec_p d \<noteq> 0" using stream_nonempty[OF us] length_segment[OF lay] seg by auto
  obtain d1 where d1: "(if dec_limit d - dec_p d < gv_kMaxSize B then dec_to_tmp (dec_end d - dec_p d) d else Inr d) = Inr d1"
      "dec_layout B d1" "dec_segment d1 = stream us" "dec_remaining d1 = dec_remaining d"
      "gv_kMaxSize B \<le> dec_limit d1 - dec_p d1"
    using to_tmp_inv[OF lay] lay seg by (cases "dec_limit d - dec_p d < gv_kMaxSize B") auto
  obtain d2 where d2: "dec_refill B d1 = Inr d2" "dec_pos d2 = 0" "0 < dec_count d2" "dec_inv B stream d2 (v # ws) r"
    using refill_inv[OF d1(2) us d1(3) _ d1(5)] rem by (auto simp: d1(4) ws r)
  obtain d' where "dec_take d2 = Inr (Some v, d')" "dec_inv B stream d' ws r"
    using take_inv[OF d2(4)] d2(2,3) by auto
  then show ?thesis using True ne rem d1(1) d2 by (simp add: gv_decoder_next_def)
qed

lemma next_none:
  assumes inv: "dec_inv B stream d [] r"
  shows "gv_decoder_next B d = Inr (None, d) \<and> gv_decoder_rest d = Inr r"
proof -
  have lay: "dec_layout B d" and e: "drop (dec_pos d) (take (dec_count d) (dec_buf d)) = []"
    and p: "dec_pending stream (dec_remaining d) (dec_segment d) [] r"
    using inv by (auto simp: dec_inv_def)
  have pos: "dec_pos d = dec_count d" using lay e by (simp add: dec_layout_def)
  have seg: "dec_segment d = drop (length (dec_data d) - (dec_end d - dec_p d)) (dec_data d)"
    using lay by (simp add: dec_layout_def)
  have rr: "dec_rrest d = length (dec_data d)" "dec_end d - dec_p d \<le> length (dec_data d)" "dec_p d \<le> dec_end d"
    using lay by (simp_all add: dec_layout_def)
  have "dec_remaining d = 0 \<or> dec_p d = dec_end d"
    using p length_segment[OF lay] rr(3) by (auto simp: dec_pending_def split: if_splits)
  moreover have "dec_segment d = r"
    using p by (auto simp: dec_pending_def split: if_splits)
  ultimately show ?thesis using pos seg rr by (auto simp: gv_decoder_next_def gv_decoder_rest_def Let_def)
qed

lemma read_all_inv:
  assumes "dec_inv B stream d ws r" "length ws < fuel"
  shows "\<exists>d'. gv_read_all B fuel d = Inr (Some (ws, d')) \<and> gv_decoder_rest d' = Inr r"
  using assms
proof (induction ws arbitrary: d fuel)
  case Nil
  then obtain f where "fuel = Suc f" by (cases fuel) auto
  then show ?case using next_none[OF Nil.prems(1)] by simp
next
  case (Cons v ws)
  then obtain f where f: "fuel = Suc f" "length ws < f" by (cases fuel) auto
  obtain d1 where d1: "gv_decoder_next B d = Inr (Some v, d1)" "dec_inv B stream d1 ws r"
    using next_some[OF Cons.prems(1)] by blast
  then show ?case using Cons.IH[OF d1(2) f(2)] f(1) by auto
qed

lemma new_inv:
  assumes "length tmp = 2 * gv_kMaxSize B" "length buf = g"
  shows "dec_inv B stream (gv_decoder_new (stream vs) k tmp buf) (take k vs) (drop (length (stream (take k vs))) (stream vs))"
proof -
  let ?d = "gv_decoder_new (stream vs) k tmp buf"
  have s: "dec_segment ?d = stream vs" by (simp add: gv_decoder_new_def dec_segment_def dec_memory_def)
  have "dec_layout B ?d" using assms unfolding dec_layout_def s by (simp add: gv_decoder_new_def dec_memory_def)
  moreover have "dec_pending stream k (stream vs) (take k vs) (drop (length (stream (take k vs))) (stream vs))"
    by (auto simp: dec_pending_def)
  ultimately show ?thesis unfolding dec_inv_def s by (simp add: gv_decoder_new_def)
qed

lemma encoder_decoder:
  assumes "length tmp = gv_kMaxSize B" "length buf = g" "length tmp' = 2 * gv_kMaxSize B" "length buf' = g"
    and "min k (length vs) < fuel"
  shows "\<exists>e bytes n d. gv_add_all B vs (gv_encoder_new out tmp buf) = Inr e
    \<and> gv_encoder_destroy B e = Inr (out @ bytes)
    \<and> gv_totalSize B vs (length vs) = Inr (length bytes) \<and> length bytes \<le> gv_maxSize B (length vs)
    \<and> gv_read_all B fuel (gv_decoder_new bytes k tmp' buf') = Inr (Some (take k vs, d))
    \<and> gv_totalSize B (take k vs) (length (take k vs)) = Inr n \<and> gv_decoder_rest d = Inr (drop n bytes)"
proof -
  obtain e where "gv_add_all B vs (gv_encoder_new out tmp buf) = Inr e" "gv_encoder_destroy B e = Inr (out @ stream vs)"
    using encoder_stream[of "gv_encoder_new out tmp buf" vs] assms(1,2) group_pos by (auto simp: gv_encoder_new_def)
  moreover obtain d where "gv_read_all B fuel (gv_decoder_new (stream vs) k tmp' buf') = Inr (Some (take k vs, d))"
      "gv_decoder_rest d = Inr (drop (length (stream (take k vs))) (stream vs))"
    using read_all_inv[OF new_inv[OF assms(3,4)], of k vs fuel] assms(5) by (auto simp: min.commute)
  moreover have "gv_totalSize B us (length us) = Inr (length (stream us))" for us
    using totalSize_stream[of us 0] by (simp add: gv_totalSize_def)
  ultimately show ?thesis using length_stream_le[of vs] by metis
qed

end

section \<open>The two formats\<close>

lemmas gv32_consts = gv32_kGroupSize_def gv32_kHeaderSize_def gv32_kMaxSize_def
lemmas gv64_consts = gv64_kGroupSize_def gv64_kHeaderSize_def gv64_kMaxSize_def

lemma gv32_size_array_eq:
  assumes "4 \<le> length xs"
  shows "gv32_size_array xs = Inr (1 + length (concat (map (low_bytes gv32_key) (take 4 xs))))"
proof -
  have "take 4 xs = [xs ! 0, xs ! 1, xs ! 2, xs ! 3]"
    using assms by (intro nth_equalityI) (auto simp: numeral_eq_Suc less_Suc_eq)
  moreover have "xs \<noteq> []" using assms by auto
  ultimately show ?thesis using assms
    by (simp add: gv32_size_array_def gv32_size_def gv32_consts length_low_bytes[OF gv32_key_ok])
qed

lemma gv64_size_array_eq:
  assumes "5 \<le> length xs"
  shows "gv64_size_array xs = Inr (2 + length (concat (map (low_bytes gv64_key) (take 5 xs))))"
proof -
  have "take 5 xs = [xs ! 0, xs ! 1, xs ! 2, xs ! 3, xs ! 4]"
    using assms by (intro nth_equalityI) (auto simp: numeral_eq_Suc less_Suc_eq)
  moreover have "xs \<noteq> []" using assms by auto
  ultimately show ?thesis using assms
    by (simp add: gv64_size_array_def gv64_size_def gv64_consts length_low_bytes[OF gv64_key_ok])
qed

lemma low_bytes_bounds:
  assumes "key_ok (key :: 'a::len word \<Rightarrow> nat)"
  shows "0 < length (low_bytes key x)" "length (low_bytes key x) \<le> LENGTH('a) div 8"
  using key_okD(2)[OF assms, of x] by (simp_all add: length_low_bytes[OF assms])

interpretation gv32: group_format "GroupVarint32 ssse3" gv32_hdr "low_bytes gv32_key" for ssse3
proof (unfold_locales, goal_cases)
  case (5 x) then show ?case by (rule low_bytes_bounds(1)[OF gv32_key_ok])
next
  case (6 x) then show ?case using low_bytes_bounds(2)[OF gv32_key_ok, of x] by (simp add: GroupVarint32_def)
next
  case (7 xs) then show ?case by (simp add: GroupVarint32_def gv32_consts group_part_def gv32_size_array_eq)
next
  case (8 n xs) then show ?case by (simp add: GroupVarint32_def gv32_consts group_part_def gv32_partialSize_eq)
next
  case (9 xs n p buf) then show ?case
    using gv32_partialCount_eq[of xs n p buf] by (simp add: GroupVarint32_def gv32_consts group_part_def)
next
  case (10 xs p buf) then show ?case
    using gv32_encodedSize_eq[of xs p buf] by (simp add: GroupVarint32_def gv32_consts group_part_def)
next
  case (11 xs p buf) then show ?case
    using gv32_encode_bytes[of xs "take p buf" buf] by (simp add: GroupVarint32_def gv32_consts group_part_def)
next
  case (12 xs n p buf) then show ?case
    using gv32_decode_bytes[of xs n p buf ssse3] by (simp add: GroupVarint32_def gv32_consts group_part_def)
qed (simp_all add: GroupVarint32_def gv32_consts)

interpretation gv64: group_format GroupVarint64 gv64_hdr "low_bytes gv64_key"
proof (unfold_locales, goal_cases)
  case (5 x) then show ?case by (rule low_bytes_bounds(1)[OF gv64_key_ok])
next
  case (6 x) then show ?case using low_bytes_bounds(2)[OF gv64_key_ok, of x] by (simp add: GroupVarint64_def)
next
  case (7 xs) then show ?case by (simp add: GroupVarint64_def gv64_consts group_part_def gv64_size_array_eq)
next
  case (8 n xs) then show ?case by (simp add: GroupVarint64_def gv64_consts group_part_def gv64_partialSize_eq)
next
  case (9 xs n p buf) then show ?case
    using gv64_partialCount_eq[of xs n p buf] by (simp add: GroupVarint64_def gv64_consts group_part_def)
next
  case (10 xs p buf) then show ?case
    using gv64_encodedSize_eq[of xs p buf] by (simp add: GroupVarint64_def gv64_consts group_part_def)
next
  case (11 xs p buf) then show ?case
    using gv64_encode_bytes[of xs "take p buf" buf] by (simp add: GroupVarint64_def gv64_consts group_part_def)
next
  case (12 xs n p buf) then show ?case
    using gv64_decode_bytes[of xs n p buf] by (simp add: GroupVarint64_def gv64_consts group_part_def)
qed (simp_all add: GroupVarint64_def gv64_consts)

section \<open>Properties\<close>

text \<open>\<^verbatim>\<open>GroupVarint32\<close>: encoding four values at any place of a buffer with \<^verbatim>\<open>kMaxSize\<close> bytes left stays inside
  it, keeps what stands before, advances by \<^verbatim>\<open>size\<close> bytes, at most 17, which is also what \<^verbatim>\<open>encodedSize\<close> reads
  from the header, and both decoders read the four values back.  The bytes may be clipped: the
  first \<^verbatim>\<open>partialSize(n)\<close> of them, followed by anything, still decode to the first \<open>n\<close> values, and
  \<^verbatim>\<open>partialCount\<close> of that size is \<open>n\<close>.\<close>

theorem gv32_roundtrip:
  fixes buf :: "8 word list"
  assumes "length xs = gv32_kGroupSize" and "p + gv32_kMaxSize \<le> length buf"
  shows "\<exists>q buf'. gv32_encode_array buf p xs = Inr (q, buf') \<and> length buf' = length buf \<and> take p buf' = take p buf
    \<and> p < q \<and> q \<le> p + gv32_kMaxSize \<and> gv32_size_array xs = Inr (q - p) \<and> gv32_encodedSize buf' p = Inr (q - p)
    \<and> gv32_decode ssse3 buf' p = Inr (q, xs)
    \<and> (\<forall>n \<le> gv32_kGroupSize. \<exists>s. gv32_partialSize xs n = Inr s \<and>
         (\<forall>buf2 p2. p2 + gv32_kMaxSize \<le> length buf2 \<and> take s (drop p2 buf2) = take s (drop p buf') \<longrightarrow>
            gv32_partialCount buf2 p2 s = Inr n \<and>
            (\<exists>ys. gv32_decode ssse3 buf2 p2 = Inr (p2 + (q - p), ys) \<and> take n ys = take n xs)))"
  using gv32.group_roundtrip[of xs ssse3 p buf] assms by (simp add: GroupVarint32_def)

text \<open>\<^verbatim>\<open>GroupVarint64\<close>: the same for five 64-bit values, with at most 42 bytes.\<close>

theorem gv64_roundtrip:
  fixes buf :: "8 word list"
  assumes "length xs = gv64_kGroupSize" and "p + gv64_kMaxSize \<le> length buf"
  shows "\<exists>q buf'. gv64_encode_array buf p xs = Inr (q, buf') \<and> length buf' = length buf \<and> take p buf' = take p buf
    \<and> p < q \<and> q \<le> p + gv64_kMaxSize \<and> gv64_size_array xs = Inr (q - p) \<and> gv64_encodedSize buf' p = Inr (q - p)
    \<and> gv64_decode buf' p = Inr (q, xs)
    \<and> (\<forall>n \<le> gv64_kGroupSize. \<exists>s. gv64_partialSize xs n = Inr s \<and>
         (\<forall>buf2 p2. p2 + gv64_kMaxSize \<le> length buf2 \<and> take s (drop p2 buf2) = take s (drop p buf') \<longrightarrow>
            gv64_partialCount buf2 p2 s = Inr n \<and>
            (\<exists>ys. gv64_decode buf2 p2 = Inr (p2 + (q - p), ys) \<and> take n ys = take n xs)))"
  using gv64.group_roundtrip[of xs p buf] assms by (simp add: GroupVarint64_def)

text \<open>C37. The SSE decoder, which shuffles sixteen bytes with a mask from a table, computes on every
  buffer with 17 readable bytes, well-formed or not, the same end pointer and the same four values
  as the portable decoder.\<close>

theorem gv32_decode_sse_equiv:
  assumes "p + gv32_kMaxSize \<le> length buf"
  shows "gv32_decode_sse buf p = gv32_decode_simple buf p \<and> (\<exists>q ys. gv32_decode_sse buf p = Inr (q, ys) \<and> length ys = 4)"
  using assms gv32_decode_sse_pick[of p buf] gv32_decode_simple_pick[of p buf] by (simp add: gv32_consts)

theorem gv32_decode_sse_equiv_witness:
  "gv32_decode_sse (map of_nat [200..<220]) 1 = gv32_decode_simple (map of_nat [200..<220]) 1"
proof -
  have "1 + gv32_kMaxSize \<le> length (map of_nat [200..<220] :: 8 word list)" by (simp add: gv32_consts)
  from gv32_decode_sse_equiv[OF this] show ?thesis by blast
qed

text \<open>C12. Adding any list of 32-bit values to a \<^verbatim>\<open>GroupVarintEncoder\<close>, whatever its buffers held, and destroying it
  appends bytes whose number \<^verbatim>\<open>totalSize\<close> computes and \<^verbatim>\<open>maxSize\<close> bounds.  A \<^verbatim>\<open>GroupVarintDecoder\<close> on exactly these
  bytes with the limit \<open>k\<close> returns the first \<open>k\<close> values and then \<^verbatim>\<open>false\<close>, never reading outside the bytes or
  its temporary buffer; \<^verbatim>\<open>rest\<close> is what follows the bytes of these \<open>k\<close> values.\<close>

theorem gv32_stream_roundtrip:
  fixes vs :: "32 word list" and out :: "8 word list"
  assumes "length tmp = gv32_kMaxSize" and "length buf = gv32_kGroupSize"
    and "length tmp' = 2 * gv32_kMaxSize" and "length buf' = gv32_kGroupSize" and "min k (length vs) < fuel"
  shows "\<exists>e bytes n d. gv_add_all (GroupVarint32 ssse3) vs (gv_encoder_new out tmp buf) = Inr e
    \<and> gv_encoder_destroy (GroupVarint32 ssse3) e = Inr (out @ bytes)
    \<and> gv_totalSize (GroupVarint32 ssse3) vs (length vs) = Inr (length bytes)
    \<and> length bytes \<le> gv_maxSize (GroupVarint32 ssse3) (length vs)
    \<and> gv_read_all (GroupVarint32 ssse3) fuel (gv_decoder_new bytes k tmp' buf') = Inr (Some (take k vs, d))
    \<and> gv_totalSize (GroupVarint32 ssse3) (take k vs) (length (take k vs)) = Inr n
    \<and> gv_decoder_rest d = Inr (drop n bytes)"
  using assms by (intro gv32.encoder_decoder) (simp_all add: GroupVarint32_def)

theorem gv32_stream_roundtrip_witness:
  "\<exists>e bytes n d. gv_add_all (GroupVarint32 False) [5, 70000, 300, 0, 9, 0xffffffff]
        (gv_encoder_new [] (replicate 17 0) (replicate 4 0)) = Inr e
    \<and> gv_encoder_destroy (GroupVarint32 False) e = Inr bytes
    \<and> gv_read_all (GroupVarint32 False) 6 (gv_decoder_new bytes 5 (replicate 34 0xaa) (replicate 4 1)) =
        Inr (Some ([5, 70000, 300, 0, 9], d))
    \<and> gv_decoder_rest d = Inr (drop n bytes)"
  using gv32_stream_roundtrip[of "replicate 17 0" "replicate 4 0" "replicate 34 0xaa" "replicate 4 1" 5
      "[5, 70000, 300, 0, 9, 0xffffffff]" 6 False "[]"]
  by (simp add: gv32_consts) blast

text \<open>The same for 64-bit values.\<close>

lemma gv64_stream_roundtrip:
  fixes vs :: "64 word list" and out :: "8 word list"
  assumes "length tmp = gv64_kMaxSize" and "length buf = gv64_kGroupSize"
    and "length tmp' = 2 * gv64_kMaxSize" and "length buf' = gv64_kGroupSize" and "min k (length vs) < fuel"
  shows "\<exists>e bytes n d. gv_add_all GroupVarint64 vs (gv_encoder_new out tmp buf) = Inr e
    \<and> gv_encoder_destroy GroupVarint64 e = Inr (out @ bytes)
    \<and> gv_totalSize GroupVarint64 vs (length vs) = Inr (length bytes)
    \<and> length bytes \<le> gv_maxSize GroupVarint64 (length vs)
    \<and> gv_read_all GroupVarint64 fuel (gv_decoder_new bytes k tmp' buf') = Inr (Some (take k vs, d))
    \<and> gv_totalSize GroupVarint64 (take k vs) (length (take k vs)) = Inr n
    \<and> gv_decoder_rest d = Inr (drop n bytes)"
  using assms by (intro gv64.encoder_decoder) (simp_all add: GroupVarint64_def)

end
