(* ===== verification/RWSpinLock.thy ===== *)
theory RWSpinLock
  imports Prelude
begin

text \<open>
  \<^verbatim>\<open>folly/synchronization/RWSpinLock.h\<close>, class \<^verbatim>\<open>RWSpinLock\<close>: a lock for readers, one upgradable reader and one writer in a 32-bit word.

  \<^item> \<^verbatim>\<open>bits_\<close> is a 32-bit word; every access to it is one atomic operation, and \<^verbatim>\<open>fetch_add\<close> wraps around.
  \<^item> An operation that accesses the word once is a function on the word.  The operations with several accesses or a loop are programs of a
    thread: a value of \<open>rw_pc\<close> says where it is between two accesses, and which lock it holds.
  \<^item> A thread calls the operations the lock is made for: it unlocks what it holds, and changes the kind of lock it holds.
\<close>

unbundle bit_operations_syntax

section \<open>Atomic operations\<close>

definition READER :: "32 word" where
  "READER = 4"

definition UPGRADED :: "32 word" where
  "UPGRADED = 2"

definition WRITER :: "32 word" where
  "WRITER = 1"

definition rw_new :: "32 word" where
  "rw_new = 0"

text \<open>\<^verbatim>\<open>compare_exchange_strong\<close>: whether it succeeded, and the word afterwards.\<close>

definition compare_exchange :: "32 word \<Rightarrow> 32 word \<Rightarrow> 32 word \<Rightarrow> bool \<times> 32 word" where
  "compare_exchange expect desired b = (if b = expect then (True, desired) else (False, b))"

definition try_lock :: "32 word \<Rightarrow> bool \<times> 32 word" where
  "try_lock b = compare_exchange 0 WRITER b"

definition rw_unlock :: "32 word \<Rightarrow> 32 word" where
  "rw_unlock b = b AND NOT (WRITER OR UPGRADED)"

definition unlock_shared :: "32 word \<Rightarrow> 32 word" where
  "unlock_shared b = b + (- READER)"

definition unlock_upgrade :: "32 word \<Rightarrow> 32 word" where
  "unlock_upgrade b = b + (- UPGRADED)"

definition unlock_upgrade_and_lock_shared :: "32 word \<Rightarrow> 32 word" where
  "unlock_upgrade_and_lock_shared b = b + (READER - UPGRADED)"

definition try_unlock_upgrade_and_lock :: "32 word \<Rightarrow> bool \<times> 32 word" where
  "try_unlock_upgrade_and_lock b = compare_exchange UPGRADED WRITER b"

definition try_lock_upgrade :: "32 word \<Rightarrow> bool \<times> 32 word" where
  "try_lock_upgrade b = (b AND (UPGRADED OR WRITER) = 0, b OR UPGRADED)"

text \<open>The first access of \<^verbatim>\<open>try_lock_shared\<close>, with the test of the value it replaced, and the one that takes it back.\<close>

definition try_shared_add :: "32 word \<Rightarrow> bool \<times> 32 word" where
  "try_shared_add b = (b AND (WRITER OR UPGRADED) = 0, b + READER)"

definition try_shared_undo :: "32 word \<Rightarrow> 32 word" where
  "try_shared_undo b = b + (- READER)"

text \<open>The two accesses of \<^verbatim>\<open>unlock_and_lock_shared\<close> and of \<^verbatim>\<open>unlock_and_lock_upgrade\<close>; the second access of the former is \<^verbatim>\<open>unlock\<close>.\<close>

definition downgrade_add :: "32 word \<Rightarrow> 32 word" where
  "downgrade_add b = b + READER"

definition downgrade_or :: "32 word \<Rightarrow> 32 word" where
  "downgrade_or b = b OR UPGRADED"

definition downgrade_sub :: "32 word \<Rightarrow> 32 word" where
  "downgrade_sub b = b + (- WRITER)"

section \<open>Threads\<close>

text \<open>
  A thread is outside of the lock, in a loop of \<^verbatim>\<open>lock\<close>, \<^verbatim>\<open>lock_shared\<close> or \<^verbatim>\<open>lock_upgrade\<close>, about to take back a failed \<^verbatim>\<open>try_lock_shared\<close> (of a
  loop, or of a single call), holding one of the locks, in the loop of \<^verbatim>\<open>unlock_upgrade_and_lock\<close>, or between the two accesses of a downgrade.
\<close>

datatype rw_pc =
    Idle
  | In_lock
  | In_lock_shared
  | In_lock_upgrade
  | Undo_shared bool
  | Reading
  | Upgraded
  | Writing
  | In_upgrade_to_write
  | Write_to_read
  | Write_to_upgrade

datatype rw_call =
    C_lock | C_try_lock | C_unlock
  | C_lock_shared | C_try_lock_shared | C_unlock_shared | C_unlock_and_lock_shared
  | C_lock_upgrade | C_try_lock_upgrade | C_unlock_upgrade
  | C_unlock_upgrade_and_lock | C_try_unlock_upgrade_and_lock | C_unlock_upgrade_and_lock_shared | C_unlock_and_lock_upgrade

text \<open>The next access of a call that has begun.\<close>

fun rw_go :: "rw_pc \<Rightarrow> 32 word \<Rightarrow> (rw_pc \<times> 32 word) option" where
  "rw_go In_lock b = Some (case try_lock b of (ok, b') \<Rightarrow> (if ok then Writing else In_lock, b'))"
| "rw_go In_lock_shared b = Some (case try_shared_add b of (ok, b') \<Rightarrow> (if ok then Reading else Undo_shared True, b'))"
| "rw_go (Undo_shared loop) b = Some (if loop then In_lock_shared else Idle, try_shared_undo b)"
| "rw_go In_lock_upgrade b = Some (case try_lock_upgrade b of (ok, b') \<Rightarrow> (if ok then Upgraded else In_lock_upgrade, b'))"
| "rw_go In_upgrade_to_write b = Some (case try_unlock_upgrade_and_lock b of (ok, b') \<Rightarrow> (if ok then Writing else In_upgrade_to_write, b'))"
| "rw_go Write_to_read b = Some (Reading, rw_unlock b)"
| "rw_go Write_to_upgrade b = Some (Upgraded, downgrade_sub b)"
| "rw_go _ b = None"

text \<open>The beginning of a call, with its access when it has only one, and the state of the threads that may make it.\<close>

fun rw_caller :: "rw_call \<Rightarrow> rw_pc" where
  "rw_caller C_unlock = Writing"
| "rw_caller C_unlock_and_lock_shared = Writing"
| "rw_caller C_unlock_and_lock_upgrade = Writing"
| "rw_caller C_unlock_shared = Reading"
| "rw_caller C_unlock_upgrade = Upgraded"
| "rw_caller C_unlock_upgrade_and_lock = Upgraded"
| "rw_caller C_try_unlock_upgrade_and_lock = Upgraded"
| "rw_caller C_unlock_upgrade_and_lock_shared = Upgraded"
| "rw_caller _ = Idle"

fun rw_begin :: "rw_call \<Rightarrow> 32 word \<Rightarrow> rw_pc \<times> 32 word" where
  "rw_begin C_lock b = (In_lock, b)"
| "rw_begin C_try_lock b = (case try_lock b of (ok, b') \<Rightarrow> (if ok then Writing else Idle, b'))"
| "rw_begin C_unlock b = (Idle, rw_unlock b)"
| "rw_begin C_lock_shared b = (In_lock_shared, b)"
| "rw_begin C_try_lock_shared b = (case try_shared_add b of (ok, b') \<Rightarrow> (if ok then Reading else Undo_shared False, b'))"
| "rw_begin C_unlock_shared b = (Idle, unlock_shared b)"
| "rw_begin C_unlock_and_lock_shared b = (Write_to_read, downgrade_add b)"
| "rw_begin C_lock_upgrade b = (In_lock_upgrade, b)"
| "rw_begin C_try_lock_upgrade b = (case try_lock_upgrade b of (ok, b') \<Rightarrow> (if ok then Upgraded else Idle, b'))"
| "rw_begin C_unlock_upgrade b = (Idle, unlock_upgrade b)"
| "rw_begin C_unlock_upgrade_and_lock b = (In_upgrade_to_write, b)"
| "rw_begin C_try_unlock_upgrade_and_lock b = (case try_unlock_upgrade_and_lock b of (ok, b') \<Rightarrow> (if ok then Writing else Upgraded, b'))"
| "rw_begin C_unlock_upgrade_and_lock_shared b = (Reading, unlock_upgrade_and_lock_shared b)"
| "rw_begin C_unlock_and_lock_upgrade b = (Write_to_upgrade, downgrade_or b)"

datatype rw_action = Call rw_call | Go

fun rw_act :: "rw_action \<Rightarrow> rw_pc \<Rightarrow> 32 word \<Rightarrow> (rw_pc \<times> 32 word) option" where
  "rw_act (Call c) p b = (if p = rw_caller c then Some (rw_begin c b) else None)"
| "rw_act Go p b = rw_go p b"

section \<open>The system\<close>

record rw_system =
  rw_bits :: "32 word"
  rw_pcs :: "nat \<Rightarrow> rw_pc"

definition rw_init :: rw_system where
  "rw_init = \<lparr>rw_bits = rw_new, rw_pcs = (\<lambda>_. Idle)\<rparr>"

text \<open>One action of one of \<open>n\<close> threads.\<close>

definition rw_run :: "nat \<Rightarrow> nat \<times> rw_action \<Rightarrow> rw_system \<Rightarrow> rw_system option" where
  "rw_run n = (\<lambda>(t, a) s.
     if t < n
     then case rw_act a (rw_pcs s t) (rw_bits s) of None \<Rightarrow> None | Some (p, b) \<Rightarrow> Some \<lparr>rw_bits = b, rw_pcs = (rw_pcs s)(t := p)\<rparr>
     else None)"

inductive rw_steps :: "nat \<Rightarrow> rw_system \<Rightarrow> (nat \<times> rw_action) list \<Rightarrow> rw_system \<Rightarrow> bool" for n where
  rw_none: "rw_steps n s [] s"
| rw_more: "rw_run n x s = Some s' \<Longrightarrow> rw_steps n s' xs s'' \<Longrightarrow> rw_steps n s (x # xs) s''"

inductive_cases rw_steps_ConsE: "rw_steps n s (x # xs) s''"
inductive_simps rw_steps_Nil: "rw_steps n s [] s''"

end
