(* ===== verification/Interleaving.thy ===== *)
theory Interleaving
  imports Prelude
begin

text \<open>
  Runs of a system of threads: \<open>run x s\<close> is the state after the action \<open>x\<close>, which names the thread, and \<open>steps s xs s'\<close> says that the sequence of actions \<open>xs\<close>
  leads from \<open>s\<close> to \<open>s'\<close>.  The locks of \<^verbatim>\<open>RWSpinLock\<close> and \<^verbatim>\<open>RWTicketSpinLock\<close> are systems of this kind.
\<close>

locale interleaving =
  fixes run :: "'x \<Rightarrow> 's \<Rightarrow> 's option"
    and steps :: "'s \<Rightarrow> 'x list \<Rightarrow> 's \<Rightarrow> bool"
  assumes steps_Nil: "steps s [] s' \<longleftrightarrow> s' = s"
    and steps_Cons: "steps s (x # xs) s'' \<longleftrightarrow> (\<exists>s'. run x s = Some s' \<and> steps s' xs s'')"
begin

lemma append: "steps s (xs @ ys) s'' \<longleftrightarrow> (\<exists>s'. steps s xs s' \<and> steps s' ys s'')"
  by (induction xs arbitrary: s) (auto simp: steps_Nil steps_Cons)

lemma trans: "steps s xs s' \<Longrightarrow> steps s' ys s'' \<Longrightarrow> steps s (xs @ ys) s''"
  by (auto simp: append)

lemma one: "run x s = Some s' \<Longrightarrow> steps s [x] s'"
  by (simp add: steps_Nil steps_Cons)

text \<open>An invariant that may count the actions.\<close>

lemma counted_invariant:
  assumes "steps s xs s'" "P m s" "m + length xs \<le> k"
    and "\<And>x s s' m. run x s = Some s' \<Longrightarrow> P m s \<Longrightarrow> m < k \<Longrightarrow> P (Suc m) s'"
  shows "P (m + length xs) s'"
  using assms(1-3)
proof (induction xs arbitrary: s m)
  case (Cons x xs)
  then obtain s1 where s1: "run x s = Some s1" "steps s1 xs s'" by (auto simp: steps_Cons)
  have "P (Suc m) s1" using assms(4)[OF s1(1)] Cons.prems by simp
  then show ?case using Cons.IH[OF s1(2), of "Suc m"] Cons.prems(3) by simp
qed (simp add: steps_Nil)

lemma invariant:
  assumes "steps s xs s'" "P s" "\<And>x s s'. run x s = Some s' \<Longrightarrow> P s \<Longrightarrow> P s'"
  shows "P s'"
  using counted_invariant[of s xs s' "\<lambda>_. P" 0 "length xs"] assms by simp

end

end
