(* ===== verification/Word_Fields.thy ===== *)
theory Word_Fields
  imports Prelude
begin

text \<open>
  A group of bits of a word, cut out with a mask, as the quotient and remainder of its number; used for the fields of floating-point
  numbers, for UTF-8 and for the bits of a lock.
\<close>

unbundle bit_operations_syntax

section \<open>Fields of a word\<close>

lemma field_drop: "drop_bit k (w AND push_bit k (mask n)) = take_bit n (drop_bit k w)" for w :: "'a::len word"
  by (rule bit_eqI) (auto simp: bit_simps dest: bit_imp_le_length)

lemma unat_drop: "unat (drop_bit k w) = unat w div 2 ^ k" for w :: "'a::len word"
proof -
  have "unat w < 2 ^ LENGTH('a)" by (rule unsigned_less)
  then show ?thesis
    by (simp only: unsigned_drop_bit_eq take_bit_eq_mod[where 'a = nat] drop_bit_eq_div[where 'a = nat] mod_less)
qed

lemma field_unat: "unat (take_bit n (drop_bit k w)) = unat w div 2 ^ k mod 2 ^ n" for w :: "'a::len word"
  by (simp only: unsigned_take_bit_eq take_bit_eq_mod[where 'a = nat] unat_drop)

lemma field_push: "w AND push_bit k (mask n) = push_bit k (take_bit n (drop_bit k w))" for w :: "'a::len word"
  by (rule bit_eqI) (auto simp: bit_simps)

lemma push_eq_iff:
  "push_bit k (take_bit n x) = push_bit k (take_bit n y) \<longleftrightarrow> take_bit n x = take_bit n y" if "k + n \<le> LENGTH('a)" for x y :: "'a::len word"
proof
  assume h: "push_bit k (take_bit n x) = push_bit k (take_bit n y)"
  show "take_bit n x = take_bit n y"
  proof (rule bit_eqI)
    fix i
    have "bit (push_bit k (take_bit n x)) (k + i) = bit (push_bit k (take_bit n y)) (k + i)" using h by simp
    then show "bit (take_bit n x) i = bit (take_bit n y) i" using that by (auto simp: bit_simps)
  qed
qed simp

lemma field_zero_iff:
  "w AND push_bit k (mask n) = 0 \<longleftrightarrow> unat w div 2 ^ k mod 2 ^ n = 0" if "k + n \<le> LENGTH('a)" for w :: "'a::len word"
  using push_eq_iff[OF that, of "drop_bit k w" 0] field_unat[of n k w] unat_eq_zero[of "take_bit n (drop_bit k w)"]
  by (simp add: field_push)

lemma unat_mask_word: "unat (mask n :: 'a::len word) = mask (min LENGTH('a) n)"
proof -
  have "unat (take_bit n (- 1 :: 'a word)) = take_bit n (mask LENGTH('a))"
    by (simp only: unsigned_take_bit_eq unsigned_minus_1_eq_mask)
  moreover have "take_bit n (mask LENGTH('a)) = (mask (min LENGTH('a) n) :: nat)" by (rule bit_eqI) (auto simp: bit_simps)
  ultimately show ?thesis by simp
qed

lemma field_full_iff:
  "w AND push_bit k (mask n) = push_bit k (mask n) \<longleftrightarrow> unat w div 2 ^ k mod 2 ^ n = 2 ^ n - 1" if "k + n \<le> LENGTH('a)" for w :: "'a::len word"
proof -
  have m: "mask n = take_bit n (mask n :: 'a word)" by simp
  have "w AND push_bit k (mask n) = push_bit k (mask n) \<longleftrightarrow> take_bit n (drop_bit k w) = (mask n :: 'a word)"
    unfolding field_push using push_eq_iff[OF that, of "drop_bit k w" "mask n"] by simp
  also have "\<dots> \<longleftrightarrow> unat (take_bit n (drop_bit k w)) = unat (mask n :: 'a word)" by (simp only: word_unat_eq_iff)
  also have "unat (mask n :: 'a word) = 2 ^ n - 1" using that by (simp add: unat_mask_word) (simp add: mask_eq_exp_minus_1)
  finally show ?thesis by (simp only: field_unat)
qed

lemma unat_low: "unat (w AND mask k) = unat w mod 2 ^ k" for w :: "'a::len word"
  by (simp only: take_bit_eq_mask[symmetric] unsigned_take_bit_eq take_bit_eq_mod[where 'a = nat])

lemma unat_field:
  fixes w :: "'a::len word"
  assumes "k + n \<le> LENGTH('a)"
  shows "unat (w AND push_bit k (mask n)) = unat w div 2 ^ k mod 2 ^ n * 2 ^ k"
proof -
  have "unat w div 2 ^ k mod 2 ^ n * 2 ^ k < 2 ^ n * 2 ^ k" by simp
  also have "\<dots> \<le> 2 ^ LENGTH('a)" using assms by (simp flip: power_add)
  finally have lt: "unat w div 2 ^ k mod 2 ^ n * 2 ^ k < 2 ^ LENGTH('a)" .
  have "unat (w AND push_bit k (mask n)) = take_bit LENGTH('a) (push_bit k (unat (take_bit n (drop_bit k w))))"
    unfolding field_push by (simp only: unsigned_push_bit_eq)
  also have "\<dots> = unat w div 2 ^ k mod 2 ^ n * 2 ^ k" unfolding field_unat using lt by (simp add: push_bit_eq_mult take_bit_eq_mod)
  finally show ?thesis .
qed

lemma or_below:
  fixes c d :: "'a::len word"
  assumes "unat c < 2 ^ k" "unat d * 2 ^ k + unat c < 2 ^ LENGTH('a)"
  shows "unat (push_bit k d OR c) = unat d * 2 ^ k + unat c"
proof -
  have c: "take_bit k c = c" using assms(1) by (metis mod_less take_bit_eq_mod unsigned_take_bit_eq word_unat_eq_iff)
  have "push_bit k d AND take_bit k c = 0" by (rule bit_eqI) (auto simp: bit_simps)
  then have "push_bit k d OR c = push_bit k d + c" unfolding c by (rule disjunctive_add_eq_or[symmetric])
  moreover have "unat (push_bit k d) = unat d * 2 ^ k" using assms(2) by (simp only: unsigned_push_bit_eq take_bit_eq_mod[where 'a = nat] push_bit_eq_mult[where 'a = nat] mod_less)
  ultimately show ?thesis using assms(2) by (metis unat_add_lem)
qed

end
