(* ===== verification/RWSpinLock_Correct.thy ===== *)
theory RWSpinLock_Correct
  imports RWSpinLock Interleaving Word_Fields
begin

text \<open>
  Correctness of the lock, for any number of threads below \<open>2 ^ 30\<close> and any interleaving of their accesses: what the word counts, which locks
  exclude each other, and that no thread waits for a lock that can no longer become free.
\<close>

unbundle bit_operations_syntax

section \<open>The word\<close>

definition rw_word :: "nat \<Rightarrow> bool \<Rightarrow> bool \<Rightarrow> nat" where
  "rw_word k u w = 4 * k + 2 * of_bool u + of_bool w"

lemma rw_word_inject: "rw_word k u w = rw_word k' u' w' \<longleftrightarrow> k = k' \<and> u = u' \<and> w = w'"
  by (auto simp: rw_word_def of_bool_def) (presburger+)?

lemma rw_bits_ops:
  fixes b :: "32 word"
  assumes b: "unat b = rw_word k u w" "k + 1 < 2 ^ 30"
  shows "b = 0 \<longleftrightarrow> k = 0 \<and> \<not> u \<and> \<not> w" "b = UPGRADED \<longleftrightarrow> k = 0 \<and> u \<and> \<not> w"
    "b AND (WRITER OR UPGRADED) = 0 \<longleftrightarrow> \<not> u \<and> \<not> w"
    "unat (b AND NOT (WRITER OR UPGRADED)) = rw_word k False False"
    "unat (b OR UPGRADED) = rw_word k True w"
    "unat (b + READER) = rw_word (k + 1) u w"
    "0 < k \<Longrightarrow> unat (b + (- READER)) = rw_word (k - 1) u w"
    "u \<Longrightarrow> unat (b + (- UPGRADED)) = rw_word k False w"
    "u \<Longrightarrow> unat (b + (READER - UPGRADED)) = rw_word (k + 1) False w"
    "w \<Longrightarrow> unat (b + (- WRITER)) = rw_word k u False"
proof -
  have lt: "rw_word k u w < 2 ^ 32 - 4" using b(2) by (auto simp: rw_word_def of_bool_def)
  show "b = 0 \<longleftrightarrow> k = 0 \<and> \<not> u \<and> \<not> w" using b(1) by (auto simp: word_unat_eq_iff rw_word_def of_bool_def split: if_splits)
  show "b = UPGRADED \<longleftrightarrow> k = 0 \<and> u \<and> \<not> w" using b(1) by (auto simp: word_unat_eq_iff UPGRADED_def rw_word_def of_bool_def split: if_splits)
  have m: "WRITER OR UPGRADED = mask 2" by (simp add: WRITER_def UPGRADED_def mask_eq_exp_minus_1)
  have low: "unat (b AND mask 2) = 2 * of_bool u + of_bool w" unfolding unat_low b(1) by (auto simp: rw_word_def of_bool_def)
  show "b AND (WRITER OR UPGRADED) = 0 \<longleftrightarrow> \<not> u \<and> \<not> w" unfolding m using low unat_eq_zero[of "b AND mask 2"] by (auto simp: of_bool_def split: if_splits)
  have "unat (b AND NOT (mask 2)) = unat b - unat (b AND mask 2)"
  proof -
    have "(b AND mask 2) AND (b AND NOT (mask 2)) = 0" by (rule bit_eqI) (auto simp: bit_simps)
    from disjunctive_add_eq_or[OF this] have s: "(b AND mask 2) + (b AND NOT (mask 2)) = b" by (simp add: bit_eq_iff bit_simps) blast
    then have "b AND NOT (mask 2) = b - (b AND mask 2)" by (metis add_diff_cancel_left')
    moreover have "b AND mask 2 \<le> b" unfolding word_le_nat_alt unat_low by simp
    ultimately show ?thesis by (simp add: unat_sub)
  qed
  then show "unat (b AND NOT (WRITER OR UPGRADED)) = rw_word k False False" unfolding m low b(1) by (simp add: rw_word_def)
  have ub: "unat b < 2 ^ 32 - 4" using lt b(1) by simp
  have up: "unat (b AND UPGRADED) = 2 * of_bool u"
  proof -
    have "UPGRADED = push_bit 1 (mask 1)" by (simp add: UPGRADED_def push_bit_eq_mult)
    then have "unat (b AND UPGRADED) = rw_word k u w div 2 mod 2 * 2" using unat_field[of 1 1 b] b(1) by simp
    also have "\<dots> = 2 * of_bool u" by (auto simp: rw_word_def of_bool_def)
    finally show ?thesis .
  qed
  have "(b AND UPGRADED) + (b OR UPGRADED) = b + UPGRADED" by (rule word_plus_and_or)
  then have "b OR UPGRADED = b + UPGRADED - (b AND UPGRADED)" by (metis add_diff_cancel_left')
  moreover have "unat (b + UPGRADED) = unat b + 2" using ub by (subst unat_add_lem[THEN iffD1]) (simp_all add: UPGRADED_def)
  moreover have "b AND UPGRADED \<le> b + UPGRADED" unfolding word_le_nat_alt calculation(2) up by simp
  ultimately have "unat (b OR UPGRADED) = unat b + 2 - 2 * of_bool u" using up by (simp add: unat_sub)
  then show "unat (b OR UPGRADED) = rw_word k True w" unfolding b(1) by (auto simp: rw_word_def of_bool_def)
  show "unat (b + READER) = rw_word (k + 1) u w" using ub b(1) by (subst unat_add_lem[THEN iffD1]) (simp_all add: READER_def rw_word_def)
  show "unat (b + (- READER)) = rw_word (k - 1) u w" if "0 < k"
  proof -
    have "READER \<le> b" using that b(1) by (auto simp: word_le_nat_alt READER_def rw_word_def)
    then have "unat (b - READER) = unat b - 4" by (simp add: unat_sub READER_def)
    then show ?thesis using that b(1) by (cases k) (simp_all add: rw_word_def)
  qed
  show "unat (b + (- UPGRADED)) = rw_word k False w" if u
  proof -
    have "UPGRADED \<le> b" using that b(1) by (auto simp: word_le_nat_alt UPGRADED_def rw_word_def)
    then have "unat (b - UPGRADED) = unat b - 2" by (simp add: unat_sub UPGRADED_def)
    then show ?thesis using that b(1) by (simp add: rw_word_def)
  qed
  show "unat (b + (READER - UPGRADED)) = rw_word (k + 1) False w" if u
    using ub b(1) that by (subst unat_add_lem[THEN iffD1]) (simp_all add: READER_def UPGRADED_def rw_word_def)
  show "unat (b + (- WRITER)) = rw_word k u False" if w
  proof -
    have "WRITER \<le> b" using that b(1) by (auto simp: word_le_nat_alt WRITER_def rw_word_def)
    then have "unat (b - WRITER) = unat b - 1" by (simp add: unat_sub WRITER_def)
    then show ?thesis using that b(1) by (simp add: rw_word_def)
  qed
qed

text \<open>Each operation on a word of \<open>k\<close> readers, an upgrade bit and a write bit.\<close>

lemma rw_operations:
  assumes "unat b = rw_word k u w" "k + 1 < 2 ^ 30"
  shows "try_lock b = (if k = 0 \<and> \<not> u \<and> \<not> w then (True, WRITER) else (False, b))"
    "try_unlock_upgrade_and_lock b = (if k = 0 \<and> u \<and> \<not> w then (True, WRITER) else (False, b))"
    "fst (try_lock_upgrade b) \<longleftrightarrow> \<not> u \<and> \<not> w" "unat (snd (try_lock_upgrade b)) = rw_word k True w"
    "fst (try_shared_add b) \<longleftrightarrow> \<not> u \<and> \<not> w" "unat (snd (try_shared_add b)) = rw_word (k + 1) u w"
    "unat (rw_unlock b) = rw_word k False False"
    "unat (downgrade_or b) = rw_word k True w"
    "unat (downgrade_add b) = rw_word (k + 1) u w"
    "0 < k \<Longrightarrow> unat (unlock_shared b) = rw_word (k - 1) u w"
    "0 < k \<Longrightarrow> unat (try_shared_undo b) = rw_word (k - 1) u w"
    "u \<Longrightarrow> unat (unlock_upgrade b) = rw_word k False w"
    "u \<Longrightarrow> unat (unlock_upgrade_and_lock_shared b) = rw_word (k + 1) False w"
    "w \<Longrightarrow> unat (downgrade_sub b) = rw_word k u False"
  using rw_bits_ops[OF assms]
  by (simp_all only: try_lock_def compare_exchange_def rw_unlock_def unlock_shared_def unlock_upgrade_def unlock_upgrade_and_lock_shared_def
    try_unlock_upgrade_and_lock_def try_lock_upgrade_def try_shared_add_def try_shared_undo_def downgrade_add_def downgrade_or_def downgrade_sub_def
    fst_conv snd_conv or.commute[of UPGRADED])

lemma unat_WRITER: "unat WRITER = rw_word 0 False True"
  by (simp add: WRITER_def rw_word_def)

section \<open>What the word counts\<close>

fun counted :: "rw_pc \<Rightarrow> bool" where
  "counted Reading = True"
| "counted (Undo_shared loop) = True"
| "counted Write_to_read = True"
| "counted _ = False"

text \<open>Which locks a thread holds; in a downgrade it holds both.\<close>

fun holds_shared :: "rw_pc \<Rightarrow> bool" where
  "holds_shared Reading = True"
| "holds_shared Write_to_read = True"
| "holds_shared _ = False"

fun holds_upgrade :: "rw_pc \<Rightarrow> bool" where
  "holds_upgrade Upgraded = True"
| "holds_upgrade In_upgrade_to_write = True"
| "holds_upgrade Write_to_upgrade = True"
| "holds_upgrade _ = False"

fun holds_write :: "rw_pc \<Rightarrow> bool" where
  "holds_write Writing = True"
| "holds_write Write_to_read = True"
| "holds_write Write_to_upgrade = True"
| "holds_write _ = False"

text \<open>The invariant, seen from one thread: \<open>k\<close> other threads are counted, others hold the shared, the upgrade or the write lock.\<close>

definition seen_from :: "rw_pc \<Rightarrow> nat \<Rightarrow> bool \<Rightarrow> bool \<Rightarrow> bool \<Rightarrow> 32 word \<Rightarrow> bool" where
  "seen_from p k sh up wl b \<longleftrightarrow>
     (\<exists>u. unat b = rw_word (k + of_bool (counted p)) u (wl \<or> holds_write p)
       \<and> (up \<or> holds_upgrade p \<longrightarrow> u) \<and> (u \<longrightarrow> up \<or> holds_upgrade p \<or> wl \<or> holds_write p))
     \<and> (wl \<longrightarrow> \<not> holds_shared p \<and> \<not> holds_upgrade p \<and> \<not> holds_write p)
     \<and> (holds_write p \<longrightarrow> \<not> sh \<and> \<not> up \<and> \<not> wl) \<and> (holds_upgrade p \<longrightarrow> \<not> up)"

lemma act_cases:
  assumes "rw_act a p b = Some (p', b')"
  obtains (call) c where "p = rw_caller c" "(p', b') = rw_begin c b" | (go) "rw_go p b = Some (p', b')"
  using assms by (cases a) (auto split: if_splits)

lemma act_keeps:
  assumes step: "rw_act a p b = Some (p', b')" and inv: "seen_from p k sh up wl b" and k: "k + 2 < 2 ^ 30" and sh: "sh \<longrightarrow> 0 < k"
  shows "seen_from p' k sh up wl b'"
proof -
  obtain u K W where u: "unat b = rw_word K u W" "K = k + of_bool (counted p)" "W \<longleftrightarrow> wl \<or> holds_write p"
      "up \<or> holds_upgrade p \<longrightarrow> u" "u \<longrightarrow> up \<or> holds_upgrade p \<or> wl \<or> holds_write p"
    using inv by (auto simp: seen_from_def)
  have ex: "wl \<longrightarrow> \<not> holds_shared p \<and> \<not> holds_upgrade p \<and> \<not> holds_write p" "holds_write p \<longrightarrow> \<not> sh \<and> \<not> up \<and> \<not> wl" "holds_upgrade p \<longrightarrow> \<not> up"
    using inv unfolding seen_from_def by blast+
  have "K + 1 < 2 ^ 30" using k u(2) by (auto simp: of_bool_def)
  note o = rw_operations[OF u(1) this]
  from step show ?thesis
  proof (cases rule: act_cases)
    case (call c)
    then have p: "p = rw_caller c" "p' = fst (rw_begin c b)" "b' = snd (rw_begin c b)" by (simp_all add: prod_eq_iff)
    show ?thesis using ex u(2-5) sh unfolding seen_from_def p(2,3) p(1)
      by (cases c; auto simp: case_prod_unfold o unat_WRITER u(1) rw_word_inject)
  next
    case go
    then have p: "rw_go p b \<noteq> None" "p' = fst (the (rw_go p b))" "b' = snd (the (rw_go p b))" by simp_all
    show ?thesis using ex u(2-5) sh p(1) unfolding seen_from_def p(2,3)
      by (cases p; auto simp: case_prod_unfold o unat_WRITER u(1) rw_word_inject split: if_splits)
  qed
qed

section \<open>The invariant of the system\<close>

text \<open>The write lock excludes every other lock, and the upgrade lock another upgrade lock.\<close>

definition excl :: "rw_pc \<Rightarrow> rw_pc \<Rightarrow> bool" where
  "excl p q \<longleftrightarrow> (holds_write p \<longrightarrow> \<not> holds_shared q \<and> \<not> holds_upgrade q \<and> \<not> holds_write q) \<and> (holds_upgrade p \<longrightarrow> \<not> holds_upgrade q)"

definition rw_inv :: "nat \<Rightarrow> rw_system \<Rightarrow> bool" where
  "rw_inv n s \<longleftrightarrow>
     (\<exists>u. unat (rw_bits s) = rw_word (card {t. t < n \<and> counted (rw_pcs s t)}) u (\<exists>t<n. holds_write (rw_pcs s t))
       \<and> ((\<exists>t<n. holds_upgrade (rw_pcs s t)) \<longrightarrow> u) \<and> (u \<longrightarrow> (\<exists>t<n. holds_upgrade (rw_pcs s t) \<or> holds_write (rw_pcs s t))))
     \<and> (\<forall>t<n. \<forall>t'<n. t \<noteq> t' \<longrightarrow> excl (rw_pcs s t) (rw_pcs s t'))"

abbreviation other :: "nat \<Rightarrow> nat \<Rightarrow> nat \<Rightarrow> bool" where
  "other n t t' \<equiv> t' < n \<and> t' \<noteq> t"

definition others_ok :: "nat \<Rightarrow> nat \<Rightarrow> (nat \<Rightarrow> rw_pc) \<Rightarrow> bool" where
  "others_ok n t pc \<longleftrightarrow> (\<forall>t1 t2. other n t t1 \<and> other n t t2 \<and> t1 \<noteq> t2 \<longrightarrow> excl (pc t1) (pc t2))"

lemma count_split:
  assumes "t < n"
  shows "card {t'. t' < n \<and> P t'} = card {t'. other n t t' \<and> P t'} + of_bool (P t)"
proof -
  have "{t'. t' < n \<and> P t'} = {t'. other n t t' \<and> P t'} \<union> (if P t then {t} else {})" using assms by auto
  then show ?thesis by (simp add: card_insert_if)
qed

lemma ex_split: "t < n \<Longrightarrow> (\<exists>t'<n. P t') \<longleftrightarrow> (\<exists>t'. other n t t' \<and> P t') \<or> P t"
  by auto

lemma pairs_split:
  "t < n \<Longrightarrow> (\<forall>t1<n. \<forall>t2<n. t1 \<noteq> t2 \<longrightarrow> Q t1 t2) \<longleftrightarrow>
    (\<forall>t1 t2. other n t t1 \<and> other n t t2 \<and> t1 \<noteq> t2 \<longrightarrow> Q t1 t2) \<and> (\<forall>t'. other n t t' \<longrightarrow> Q t t' \<and> Q t' t)"
  by blast

lemma inv_split:
  assumes "t < n"
  shows "rw_inv n s \<longleftrightarrow> others_ok n t (rw_pcs s) \<and>
    seen_from (rw_pcs s t) (card {t'. other n t t' \<and> counted (rw_pcs s t')}) (\<exists>t'. other n t t' \<and> holds_shared (rw_pcs s t'))
      (\<exists>t'. other n t t' \<and> holds_upgrade (rw_pcs s t')) (\<exists>t'. other n t t' \<and> holds_write (rw_pcs s t')) (rw_bits s)"
proof -
  have eo: "(\<exists>t'<n. holds_upgrade (rw_pcs s t') \<or> holds_write (rw_pcs s t')) \<longleftrightarrow>
      (\<exists>t'. other n t t' \<and> holds_upgrade (rw_pcs s t')) \<or> holds_upgrade (rw_pcs s t) \<or> (\<exists>t'. other n t t' \<and> holds_write (rw_pcs s t')) \<or> holds_write (rw_pcs s t)"
    using assms by auto
  have pr: "(\<forall>t1<n. \<forall>t2<n. t1 \<noteq> t2 \<longrightarrow> excl (rw_pcs s t1) (rw_pcs s t2)) \<longleftrightarrow>
      others_ok n t (rw_pcs s) \<and> (\<forall>t'. other n t t' \<longrightarrow> excl (rw_pcs s t) (rw_pcs s t') \<and> excl (rw_pcs s t') (rw_pcs s t))"
    unfolding others_ok_def by (rule pairs_split[OF assms])
  have ex: "(\<forall>t'. other n t t' \<longrightarrow> excl (rw_pcs s t) (rw_pcs s t') \<and> excl (rw_pcs s t') (rw_pcs s t)) \<longleftrightarrow>
      ((\<exists>t'. other n t t' \<and> holds_write (rw_pcs s t')) \<longrightarrow> \<not> holds_shared (rw_pcs s t) \<and> \<not> holds_upgrade (rw_pcs s t) \<and> \<not> holds_write (rw_pcs s t))
     \<and> (holds_write (rw_pcs s t) \<longrightarrow> \<not> (\<exists>t'. other n t t' \<and> holds_shared (rw_pcs s t')) \<and> \<not> (\<exists>t'. other n t t' \<and> holds_upgrade (rw_pcs s t')) \<and> \<not> (\<exists>t'. other n t t' \<and> holds_write (rw_pcs s t')))
     \<and> (holds_upgrade (rw_pcs s t) \<longrightarrow> \<not> (\<exists>t'. other n t t' \<and> holds_upgrade (rw_pcs s t')))"
    unfolding excl_def by blast
  show ?thesis unfolding rw_inv_def seen_from_def pr ex eo ex_split[OF assms] count_split[OF assms] by (simp only: conj_ac disj_ac)
qed

lemma shared_counted: "holds_shared p \<Longrightarrow> counted p"
  by (cases p) simp_all

lemma rw_run_inv:
  assumes "rw_run n (t, a) s = Some s'" "rw_inv n s" "n + 1 < 2 ^ 30"
  shows "rw_inv n s'"
proof -
  obtain p b where t: "t < n" and act: "rw_act a (rw_pcs s t) (rw_bits s) = Some (p, b)" and s': "s' = \<lparr>rw_bits = b, rw_pcs = (rw_pcs s)(t := p)\<rparr>"
    using assms(1) by (auto simp: rw_run_def split: if_splits option.splits)
  define k where "k = card {t'. other n t t' \<and> counted (rw_pcs s t')}"
  have same: "other n t t' \<and> P (rw_pcs s' t') \<longleftrightarrow> other n t t' \<and> P (rw_pcs s t')" for P t' by (auto simp: s')
  have "{t'. other n t t'} = {..<n} - {t}" by auto
  then have "k \<le> n - 1" using t card_mono[of "{..<n} - {t}" "{t'. other n t t' \<and> counted (rw_pcs s t')}"] unfolding k_def by auto
  then have k: "k + 2 < 2 ^ 30" using assms(3) t by simp
  have sh: "(\<exists>t'. other n t t' \<and> holds_shared (rw_pcs s t')) \<longrightarrow> 0 < k"
    unfolding k_def by (auto simp: card_gt_0_iff dest: shared_counted)
  have o: "others_ok n t (rw_pcs s')" using assms(2) unfolding inv_split[OF t] others_ok_def by (auto simp: s')
  show ?thesis using act_keeps[OF act _ k sh] assms(2) o unfolding inv_split[OF t] same k_def by (simp add: s')
qed

lemma rw_init_inv: "rw_inv n rw_init"
  unfolding rw_inv_def by (intro conjI exI[of _ False]) (simp_all add: rw_init_def rw_new_def rw_word_def excl_def)

interpretation rw: interleaving "rw_run n" "rw_steps n" for n
  by unfold_locales (auto simp: rw_steps_Nil intro: rw_more elim: rw_steps_ConsE)

lemma rw_steps_inv:
  assumes "rw_steps n s xs s'" "rw_inv n s" "n + 1 < 2 ^ 30"
  shows "rw_inv n s'"
  by (rule rw.invariant[where P = "rw_inv n", OF assms(1,2)]) (use rw_run_inv assms(3) in \<open>auto simp: split_paired_all\<close>)

section \<open>Every waiting thread can still get its lock\<close>

lemma rw_steps_one:
  assumes "t < n" "rw_act a (rw_pcs s t) (rw_bits s) = Some (p, b)"
  shows "rw_steps n s [(t, a)] \<lparr>rw_bits = b, rw_pcs = (rw_pcs s)(t := p)\<rparr>"
  by (rule rw.one) (simp add: assms rw_run_def)

text \<open>A thread that holds no lock and is not counted.\<close>

definition quiet :: "rw_pc \<Rightarrow> bool" where
  "quiet p \<longleftrightarrow> \<not> counted p \<and> \<not> holds_upgrade p \<and> \<not> holds_write p"

text \<open>What a thread does to release what it holds; in the loop of an upgrade it has to wait.\<close>

fun release :: "rw_pc \<Rightarrow> rw_action list" where
  "release Reading = [Call C_unlock_shared]"
| "release Upgraded = [Call C_unlock_upgrade]"
| "release Writing = [Call C_unlock]"
| "release (Undo_shared loop) = [Go]"
| "release Write_to_read = [Go, Call C_unlock_shared]"
| "release Write_to_upgrade = [Go, Call C_unlock_upgrade]"
| "release _ = []"

lemma release_steps:
  assumes "t < n"
  shows "\<exists>s'. rw_steps n s (map (Pair t) (release (rw_pcs s t))) s' \<and> (\<forall>t'. t' \<noteq> t \<longrightarrow> rw_pcs s' t' = rw_pcs s t')
    \<and> (quiet (rw_pcs s' t) \<or> rw_pcs s' t = In_upgrade_to_write)"
  using assms by (cases "rw_pcs s t") (auto simp: quiet_def rw_run_def split: if_splits intro!: exI rw_steps.intros)

lemma release_others:
  assumes "m \<le> n"
  shows "\<exists>xs s'. rw_steps n s xs s' \<and> rw_pcs s' t = rw_pcs s t \<and> (\<forall>x \<in> set xs. fst x \<noteq> t)
    \<and> (\<forall>t'<m. t' \<noteq> t \<longrightarrow> quiet (rw_pcs s' t') \<or> rw_pcs s' t' = In_upgrade_to_write)"
  using assms
proof (induction m)
  case 0
  show ?case by (intro exI[of _ "[]"] exI[of _ s]) (simp add: rw_none)
next
  case (Suc m)
  then obtain xs s' where 1: "rw_steps n s xs s'" "rw_pcs s' t = rw_pcs s t" "\<forall>x \<in> set xs. fst x \<noteq> t"
      "\<forall>t'<m. t' \<noteq> t \<longrightarrow> quiet (rw_pcs s' t') \<or> rw_pcs s' t' = In_upgrade_to_write" by auto
  show ?case
  proof (cases "m = t")
    case True
    then show ?thesis using 1 by (intro exI[of _ xs] exI[of _ s']) (auto simp: less_Suc_eq)
  next
    case False
    obtain s2 where "rw_steps n s' (map (Pair m) (release (rw_pcs s' m))) s2" "\<forall>t'. t' \<noteq> m \<longrightarrow> rw_pcs s2 t' = rw_pcs s' t'"
        "quiet (rw_pcs s2 m) \<or> rw_pcs s2 m = In_upgrade_to_write"
      using release_steps[of m n s'] Suc.prems by auto
    then show ?thesis using 1 False rw.trans[OF 1(1)]
      by (intro exI[of _ "xs @ map (Pair m) (release (rw_pcs s' m))"] exI[of _ s2]) (auto simp: less_Suc_eq)
  qed
qed

lemma quiet_word:
  assumes inv: "rw_inv n s" and t: "t < n" and quiet: "\<forall>t'<n. t' \<noteq> t \<longrightarrow> quiet (rw_pcs s t')" "\<not> counted (rw_pcs s t)" "\<not> holds_write (rw_pcs s t)"
  shows "unat (rw_bits s) = rw_word 0 (holds_upgrade (rw_pcs s t)) False"
proof -
  have "{t'. t' < n \<and> counted (rw_pcs s t')} = {}" "\<not> (\<exists>t'<n. holds_write (rw_pcs s t'))" "(\<exists>t'<n. holds_upgrade (rw_pcs s t')) \<longleftrightarrow> holds_upgrade (rw_pcs s t)"
    using quiet t unfolding quiet_def by blast+
  note none = this
  obtain u where u: "unat (rw_bits s) = rw_word (card {t'. t' < n \<and> counted (rw_pcs s t')}) u (\<exists>t'<n. holds_write (rw_pcs s t'))"
      "(\<exists>t'<n. holds_upgrade (rw_pcs s t')) \<longrightarrow> u" "u \<longrightarrow> (\<exists>t'<n. holds_upgrade (rw_pcs s t') \<or> holds_write (rw_pcs s t'))"
    using inv unfolding rw_inv_def by blast
  have "u = holds_upgrade (rw_pcs s t)" using u(2,3) none(2,3) by blast
  then show ?thesis using u(1) unfolding none(1) using none(2) by simp
qed

lemma others_quiet:
  assumes inv: "rw_inv n s" and n: "n + 1 < 2 ^ 30" and t: "t < n" "\<not> counted (rw_pcs s t)" "\<not> holds_write (rw_pcs s t)"
  shows "\<exists>xs s'. rw_steps n s xs s' \<and> rw_pcs s' t = rw_pcs s t \<and> (\<forall>x \<in> set xs. fst x \<noteq> t) \<and> (\<forall>t'<n. t' \<noteq> t \<longrightarrow> quiet (rw_pcs s' t'))"
proof -
  obtain xs s1 where 1: "rw_steps n s xs s1" "rw_pcs s1 t = rw_pcs s t" "\<forall>x \<in> set xs. fst x \<noteq> t"
      "\<forall>t'<n. t' \<noteq> t \<longrightarrow> quiet (rw_pcs s1 t') \<or> rw_pcs s1 t' = In_upgrade_to_write"
    using release_others[of n n s t] by blast
  show ?thesis
  proof (cases "\<exists>t'<n. t' \<noteq> t \<and> rw_pcs s1 t' = In_upgrade_to_write")
    case False
    then show ?thesis using 1 by blast
  next
    case True
    then obtain u where u: "u < n" "u \<noteq> t" "rw_pcs s1 u = In_upgrade_to_write" by blast
    have inv1: "rw_inv n s1" by (rule rw_steps_inv[OF 1(1) inv n])
    have excl: "\<forall>t1<n. \<forall>t2<n. t1 \<noteq> t2 \<longrightarrow> excl (rw_pcs s1 t1) (rw_pcs s1 t2)" using inv1 by (simp add: rw_inv_def)
    have q: "\<forall>t'<n. t' \<noteq> t \<longrightarrow> t' \<noteq> u \<longrightarrow> quiet (rw_pcs s1 t')" "\<not> holds_upgrade (rw_pcs s1 t)"
      using 1(4) excl u t(1) unfolding excl_def by (metis holds_upgrade.simps(2))+
    have "quiet (rw_pcs s1 t)" using q(2) t(2,3) 1(2) by (simp add: quiet_def)
    then have w: "unat (rw_bits s1) = rw_word 0 True False" using quiet_word[OF inv1 u(1)] q(1) u(3) by (auto simp: quiet_def)
    define s2 where "s2 = \<lparr>rw_bits = WRITER, rw_pcs = (rw_pcs s1)(u := Writing)\<rparr>"
    have "try_unlock_upgrade_and_lock (rw_bits s1) = (True, WRITER)" using rw_operations(2)[OF w] by simp
    then have "rw_steps n s1 [(u, Go)] s2" unfolding s2_def by (intro rw_steps_one[OF u(1)]) (simp add: u(3))
    moreover have "rw_steps n s2 [(u, Call C_unlock)] \<lparr>rw_bits = rw_unlock WRITER, rw_pcs = (rw_pcs s2)(u := Idle)\<rparr>"
      by (rule rw_steps_one[OF u(1)]) (simp add: s2_def)
    ultimately have "rw_steps n s (xs @ [(u, Go)] @ [(u, Call C_unlock)]) \<lparr>rw_bits = rw_unlock WRITER, rw_pcs = (rw_pcs s2)(u := Idle)\<rparr>"
      by (intro rw.trans[OF 1(1)] rw.trans)
    then show ?thesis using 1(2,3) u(2) q(1)
      by (intro exI[of _ "xs @ [(u, Go)] @ [(u, Call C_unlock)]"] exI[of _ "\<lparr>rw_bits = rw_unlock WRITER, rw_pcs = (rw_pcs s2)(u := Idle)\<rparr>"])
        (auto simp: s2_def quiet_def)
  qed
qed

section \<open>Results\<close>

text \<open>
  C8. Mutual exclusion: in every state that any interleaving of the accesses of \<open>n\<close> threads reaches, \<open>n + 1 < 2 ^ 30\<close>, a thread that holds the write lock
  excludes every other holder, there is at most one holder of the upgrade lock, and the word is \<open>4\<close> times the number of threads that read or are
  about to take back a failed attempt, plus \<^verbatim>\<open>WRITER\<close> exactly when there is a writer, plus possibly \<^verbatim>\<open>UPGRADED\<close>: surely when there is a holder of the
  upgrade lock, and not when there is neither holder nor writer.
\<close>

theorem rw_mutual_exclusion:
  assumes "rw_steps n rw_init xs s" "n + 1 < 2 ^ 30"
  shows "(\<forall>t<n. \<forall>t'<n. t \<noteq> t' \<longrightarrow>
       (holds_write (rw_pcs s t) \<longrightarrow> \<not> holds_shared (rw_pcs s t') \<and> \<not> holds_upgrade (rw_pcs s t') \<and> \<not> holds_write (rw_pcs s t'))
       \<and> (holds_upgrade (rw_pcs s t) \<longrightarrow> \<not> holds_upgrade (rw_pcs s t')))
    \<and> (\<exists>u. unat (rw_bits s) = 4 * card {t. t < n \<and> counted (rw_pcs s t)} + 2 * of_bool u + of_bool (\<exists>t<n. holds_write (rw_pcs s t))
       \<and> ((\<exists>t<n. holds_upgrade (rw_pcs s t)) \<longrightarrow> u) \<and> (u \<longrightarrow> (\<exists>t<n. holds_upgrade (rw_pcs s t) \<or> holds_write (rw_pcs s t))))"
  using rw_steps_inv[OF assms(1) rw_init_inv assms(2)] unfolding rw_inv_def excl_def rw_word_def by blast

theorem rw_mutual_exclusion_witness:
  "\<exists>s. rw_steps 2 rw_init [(0, Call C_try_lock), (1, Call C_lock_shared), (1, Go)] s \<and> rw_pcs s 0 = Writing \<and> \<not> holds_shared (rw_pcs s 1) \<and> unat (rw_bits s) = 5"
proof -
  let ?s = "\<lparr>rw_bits = WRITER + READER, rw_pcs = (\<lambda>_. Idle)(0 := Writing, 1 := Undo_shared True)\<rparr>"
  have s: "rw_steps 2 rw_init [(0, Call C_try_lock), (1, Call C_lock_shared), (1, Go)] ?s"
    by (rule rw_more, simp add: rw_run_def rw_init_def rw_new_def try_lock_def compare_exchange_def try_shared_add_def WRITER_def UPGRADED_def READER_def)+
      (auto simp: WRITER_def READER_def intro: rw_none)
  have "\<not> holds_shared (rw_pcs ?s 1)" using rw_mutual_exclusion[OF s] by simp
  then show ?thesis using s by (intro exI[of _ ?s]) (simp add: WRITER_def READER_def)
qed

text \<open>
  C9. No deadlock: in every such state a thread that waits for the write, shared or upgrade lock, or to turn its upgrade lock into the write lock, gets
  it at its next attempt, once the other threads have completed the calls they are in and released their locks; they can do so
  without it moving.
\<close>

theorem rw_waiting_thread_served:
  assumes "rw_steps n rw_init xs s" "n + 1 < 2 ^ 30" "t < n"
    and "(rw_pcs s t, p) \<in> {(In_lock, Writing), (In_lock_shared, Reading), (In_lock_upgrade, Upgraded), (In_upgrade_to_write, Writing)}"
  shows "\<exists>ys s'. rw_steps n s ys s' \<and> rw_pcs s' t = p \<and> filter (\<lambda>x. fst x = t) ys = [(t, Go)]"
proof -
  have inv: "rw_inv n s" by (rule rw_steps_inv[OF assms(1) rw_init_inv assms(2)])
  have wait: "\<not> counted (rw_pcs s t)" "\<not> holds_write (rw_pcs s t)" using assms(4) by auto
  obtain ys s1 where s1: "rw_steps n s ys s1" "rw_pcs s1 t = rw_pcs s t" "\<forall>x \<in> set ys. fst x \<noteq> t" "\<forall>t'<n. t' \<noteq> t \<longrightarrow> quiet (rw_pcs s1 t')"
    using others_quiet[OF inv assms(2,3) wait] by blast
  have "unat (rw_bits s1) = rw_word 0 (holds_upgrade (rw_pcs s1 t)) False"
    by (rule quiet_word[OF rw_steps_inv[OF s1(1) inv assms(2)] assms(3) s1(4)]) (simp_all add: s1(2) wait)
  note o = rw_operations[OF this]
  have "\<exists>b. rw_act Go (rw_pcs s1 t) (rw_bits s1) = Some (p, b)" using assms(4) o(1,2,3,5) s1(2) by (auto simp: case_prod_unfold)
  then obtain b where "rw_act Go (rw_pcs s1 t) (rw_bits s1) = Some (p, b)" by blast
  from rw.trans[OF s1(1) rw_steps_one[OF assms(3) this]] show ?thesis
    using s1(3) by (intro exI[of _ "ys @ [(t, Go)]"] exI) (auto simp: filter_empty_conv)
qed

theorem rw_waiting_thread_served_witness:
  "\<exists>s. rw_steps 2 rw_init [(0, Call C_try_lock), (1, Call C_lock)] s \<and> rw_pcs s 0 = Writing \<and> (\<exists>ys s'. rw_steps 2 s ys s' \<and> rw_pcs s' 1 = Writing)"
proof -
  let ?s = "\<lparr>rw_bits = WRITER, rw_pcs = (\<lambda>_. Idle)(0 := Writing, 1 := In_lock)\<rparr>"
  have s: "rw_steps 2 rw_init [(0, Call C_try_lock), (1, Call C_lock)] ?s"
    by (rule rw_more, simp add: rw_run_def rw_init_def rw_new_def try_lock_def compare_exchange_def)+ (auto intro: rw_none)
  have "\<exists>ys s'. rw_steps 2 ?s ys s' \<and> rw_pcs s' 1 = Writing" using rw_waiting_thread_served[OF s, of 1 Writing] by auto
  then show ?thesis using s by (intro exI[of _ ?s]) simp
qed

end
