(* ===== verification/RWSpinLock_Holders.thy ===== *)
theory RWSpinLock_Holders
  imports RWSpinLock
begin

text \<open>
  The classes \<^verbatim>\<open>ReadHolder\<close>, \<^verbatim>\<open>UpgradedHolder\<close> and \<^verbatim>\<open>WriteHolder\<close> of \<^verbatim>\<open>RWSpinLock\<close>, and \<^verbatim>\<open>ReadHolder\<close> and \<^verbatim>\<open>WriteHolder\<close> of \<^verbatim>\<open>RWTicketSpinLockT\<close>, which release
  in the destructor what the constructor took.  The functions of the two locks have the same names, and the calls are named by them.

  \<^item> A holder is its member \<^verbatim>\<open>lock_\<close>: a lock, given by a number, or null.  A method returns the new value of the member, that of its argument when it
    changes it, and the calls it makes on locks.
  \<^item> A program that uses holders is a sequence of constructions, method calls and destructions of numbered objects of the three classes.
\<close>

section \<open>The methods\<close>

type_synonym lock_ptr = "nat option"
type_synonym lock_calls = "(nat \<times> rw_call) list"

text \<open>\<^verbatim>\<open>if (lock_) lock_->call();\<close>\<close>

definition if_lock :: "lock_ptr \<Rightarrow> rw_call \<Rightarrow> lock_calls" where
  "if_lock p c = (case p of None \<Rightarrow> [] | Some l \<Rightarrow> [(l, c)])"

definition ReadHolder_ptr :: "lock_ptr \<Rightarrow> lock_ptr \<times> lock_calls" where
  "ReadHolder_ptr p = (p, if_lock p C_lock_shared)"

definition ReadHolder_ref :: "nat \<Rightarrow> lock_ptr \<times> lock_calls" where
  "ReadHolder_ref l = (Some l, [(l, C_lock_shared)])"

definition ReadHolder_move :: "lock_ptr \<Rightarrow> lock_ptr \<times> lock_ptr \<times> lock_calls" where
  "ReadHolder_move other_p = (other_p, None, [])"

definition ReadHolder_of_upgraded :: "lock_ptr \<Rightarrow> lock_ptr \<times> lock_ptr \<times> lock_calls" where
  "ReadHolder_of_upgraded upgraded = (upgraded, None, if_lock upgraded C_unlock_upgrade_and_lock_shared)"

definition ReadHolder_of_writer :: "lock_ptr \<Rightarrow> lock_ptr \<times> lock_ptr \<times> lock_calls" where
  "ReadHolder_of_writer writer = (writer, None, if_lock writer C_unlock_and_lock_shared)"

definition ReadHolder_assign :: "lock_ptr \<Rightarrow> lock_ptr \<Rightarrow> lock_ptr \<times> lock_ptr" where
  "ReadHolder_assign this other_p = (other_p, this)"

definition ReadHolder_destroy :: "lock_ptr \<Rightarrow> lock_calls" where
  "ReadHolder_destroy this = if_lock this C_unlock_shared"

definition ReadHolder_reset :: "lock_ptr \<Rightarrow> lock_ptr \<Rightarrow> lock_ptr \<times> lock_calls" where
  "ReadHolder_reset this p = (if p = this then (this, []) else (p, if_lock this C_unlock_shared @ if_lock p C_lock_shared))"

definition ReadHolder_swap :: "lock_ptr \<Rightarrow> lock_ptr \<Rightarrow> lock_ptr \<times> lock_ptr" where
  "ReadHolder_swap this other_p = (other_p, this)"

definition UpgradedHolder_ptr :: "lock_ptr \<Rightarrow> lock_ptr \<times> lock_calls" where
  "UpgradedHolder_ptr p = (p, if_lock p C_lock_upgrade)"

definition UpgradedHolder_ref :: "nat \<Rightarrow> lock_ptr \<times> lock_calls" where
  "UpgradedHolder_ref l = (Some l, [(l, C_lock_upgrade)])"

definition UpgradedHolder_of_writer :: "lock_ptr \<Rightarrow> lock_ptr \<times> lock_ptr \<times> lock_calls" where
  "UpgradedHolder_of_writer writer = (writer, None, if_lock writer C_unlock_and_lock_upgrade)"

definition UpgradedHolder_move :: "lock_ptr \<Rightarrow> lock_ptr \<times> lock_ptr \<times> lock_calls" where
  "UpgradedHolder_move other_p = (other_p, None, [])"

definition UpgradedHolder_assign :: "lock_ptr \<Rightarrow> lock_ptr \<Rightarrow> lock_ptr \<times> lock_ptr" where
  "UpgradedHolder_assign this other_p = (other_p, this)"

definition UpgradedHolder_destroy :: "lock_ptr \<Rightarrow> lock_calls" where
  "UpgradedHolder_destroy this = if_lock this C_unlock_upgrade"

definition UpgradedHolder_reset :: "lock_ptr \<Rightarrow> lock_ptr \<Rightarrow> lock_ptr \<times> lock_calls" where
  "UpgradedHolder_reset this p = (if p = this then (this, []) else (p, if_lock this C_unlock_upgrade @ if_lock p C_lock_upgrade))"

definition UpgradedHolder_swap :: "lock_ptr \<Rightarrow> lock_ptr \<Rightarrow> lock_ptr \<times> lock_ptr" where
  "UpgradedHolder_swap this other_p = (other_p, this)"

definition WriteHolder_ptr :: "lock_ptr \<Rightarrow> lock_ptr \<times> lock_calls" where
  "WriteHolder_ptr p = (p, if_lock p C_lock)"

definition WriteHolder_ref :: "nat \<Rightarrow> lock_ptr \<times> lock_calls" where
  "WriteHolder_ref l = (Some l, [(l, C_lock)])"

definition WriteHolder_of_upgraded :: "lock_ptr \<Rightarrow> lock_ptr \<times> lock_ptr \<times> lock_calls" where
  "WriteHolder_of_upgraded upgraded = (upgraded, None, if_lock upgraded C_unlock_upgrade_and_lock)"

definition WriteHolder_move :: "lock_ptr \<Rightarrow> lock_ptr \<times> lock_ptr \<times> lock_calls" where
  "WriteHolder_move other_p = (other_p, None, [])"

definition WriteHolder_assign :: "lock_ptr \<Rightarrow> lock_ptr \<Rightarrow> lock_ptr \<times> lock_ptr" where
  "WriteHolder_assign this other_p = (other_p, this)"

definition WriteHolder_destroy :: "lock_ptr \<Rightarrow> lock_calls" where
  "WriteHolder_destroy this = if_lock this C_unlock"

definition WriteHolder_reset :: "lock_ptr \<Rightarrow> lock_ptr \<Rightarrow> lock_ptr \<times> lock_calls" where
  "WriteHolder_reset this p = (if p = this then (this, []) else (p, if_lock this C_unlock @ if_lock p C_lock))"

definition WriteHolder_swap :: "lock_ptr \<Rightarrow> lock_ptr \<Rightarrow> lock_ptr \<times> lock_ptr" where
  "WriteHolder_swap this other_p = (other_p, this)"

text \<open>The holders of the ticket lock, which cannot be moved or assigned.\<close>

definition TicketReadHolder_ptr :: "lock_ptr \<Rightarrow> lock_ptr \<times> lock_calls" where
  "TicketReadHolder_ptr p = (p, if_lock p C_lock_shared)"

definition TicketReadHolder_ref :: "nat \<Rightarrow> lock_ptr \<times> lock_calls" where
  "TicketReadHolder_ref l = (Some l, if_lock (Some l) C_lock_shared)"

definition TicketReadHolder_of_writer :: "lock_ptr \<Rightarrow> lock_ptr \<times> lock_ptr \<times> lock_calls" where
  "TicketReadHolder_of_writer writer = (let (this, writer') = (writer, None) in (this, writer', if_lock this C_unlock_and_lock_shared))"

definition TicketReadHolder_destroy :: "lock_ptr \<Rightarrow> lock_calls" where
  "TicketReadHolder_destroy this = if_lock this C_unlock_shared"

definition TicketReadHolder_reset :: "lock_ptr \<Rightarrow> lock_ptr \<Rightarrow> lock_ptr \<times> lock_calls" where
  "TicketReadHolder_reset this p = (p, if_lock this C_unlock_shared @ if_lock p C_lock_shared)"

definition TicketReadHolder_swap :: "lock_ptr \<Rightarrow> lock_ptr \<Rightarrow> lock_ptr \<times> lock_ptr" where
  "TicketReadHolder_swap this other_p = (other_p, this)"

definition TicketWriteHolder_ptr :: "lock_ptr \<Rightarrow> lock_ptr \<times> lock_calls" where
  "TicketWriteHolder_ptr p = (p, if_lock p C_lock)"

definition TicketWriteHolder_ref :: "nat \<Rightarrow> lock_ptr \<times> lock_calls" where
  "TicketWriteHolder_ref l = (Some l, if_lock (Some l) C_lock)"

definition TicketWriteHolder_destroy :: "lock_ptr \<Rightarrow> lock_calls" where
  "TicketWriteHolder_destroy this = if_lock this C_unlock"

definition TicketWriteHolder_reset :: "lock_ptr \<Rightarrow> lock_ptr \<Rightarrow> lock_ptr \<times> lock_calls" where
  "TicketWriteHolder_reset this p = (if p = this then (this, []) else (p, if_lock this C_unlock @ if_lock p C_lock))"

definition TicketWriteHolder_swap :: "lock_ptr \<Rightarrow> lock_ptr \<Rightarrow> lock_ptr \<times> lock_ptr" where
  "TicketWriteHolder_swap this other_p = (other_p, this)"

section \<open>Programs\<close>

datatype holder_class = ReadHolder | UpgradedHolder | WriteHolder

type_synonym holders = "holder_class \<times> nat \<Rightarrow> lock_ptr option"

text \<open>
  \<open>H_ptr\<close> and \<open>H_ref\<close> construct an object from a pointer and from a reference to a lock, \<open>H_from\<close> from an object given up: of the same class it is the move
  constructor, of another class a conversion.
\<close>

datatype holder_op =
    H_ptr holder_class nat lock_ptr
  | H_ref holder_class nat nat
  | H_from holder_class nat holder_class nat
  | H_assign holder_class nat nat
  | H_swap holder_class nat nat
  | H_reset holder_class nat lock_ptr
  | H_destroy holder_class nat

text \<open>The method of a class, when it has it; the first argument chooses the ticket lock.\<close>

fun holder_from :: "bool \<Rightarrow> holder_class \<Rightarrow> holder_class \<Rightarrow> (lock_ptr \<Rightarrow> lock_ptr \<times> lock_ptr \<times> lock_calls) option" where
  "holder_from False ReadHolder ReadHolder = Some ReadHolder_move"
| "holder_from False ReadHolder UpgradedHolder = Some ReadHolder_of_upgraded"
| "holder_from False ReadHolder WriteHolder = Some ReadHolder_of_writer"
| "holder_from False UpgradedHolder UpgradedHolder = Some UpgradedHolder_move"
| "holder_from False UpgradedHolder WriteHolder = Some UpgradedHolder_of_writer"
| "holder_from False WriteHolder UpgradedHolder = Some WriteHolder_of_upgraded"
| "holder_from False WriteHolder WriteHolder = Some WriteHolder_move"
| "holder_from True ReadHolder WriteHolder = Some TicketReadHolder_of_writer"
| "holder_from _ _ _ = None"

fun holder_ptr where
  "holder_ptr False ReadHolder = Some ReadHolder_ptr"
| "holder_ptr False UpgradedHolder = Some UpgradedHolder_ptr"
| "holder_ptr False WriteHolder = Some WriteHolder_ptr"
| "holder_ptr True ReadHolder = Some TicketReadHolder_ptr"
| "holder_ptr True WriteHolder = Some TicketWriteHolder_ptr"
| "holder_ptr True UpgradedHolder = None"

fun holder_ref where
  "holder_ref False ReadHolder = Some ReadHolder_ref"
| "holder_ref False UpgradedHolder = Some UpgradedHolder_ref"
| "holder_ref False WriteHolder = Some WriteHolder_ref"
| "holder_ref True ReadHolder = Some TicketReadHolder_ref"
| "holder_ref True WriteHolder = Some TicketWriteHolder_ref"
| "holder_ref True UpgradedHolder = None"

fun holder_assign where
  "holder_assign False ReadHolder = Some ReadHolder_assign"
| "holder_assign False UpgradedHolder = Some UpgradedHolder_assign"
| "holder_assign False WriteHolder = Some WriteHolder_assign"
| "holder_assign True _ = None"

fun holder_swap where
  "holder_swap False ReadHolder = Some ReadHolder_swap"
| "holder_swap False UpgradedHolder = Some UpgradedHolder_swap"
| "holder_swap False WriteHolder = Some WriteHolder_swap"
| "holder_swap True ReadHolder = Some TicketReadHolder_swap"
| "holder_swap True WriteHolder = Some TicketWriteHolder_swap"
| "holder_swap True UpgradedHolder = None"

fun holder_reset where
  "holder_reset False ReadHolder = Some ReadHolder_reset"
| "holder_reset False UpgradedHolder = Some UpgradedHolder_reset"
| "holder_reset False WriteHolder = Some WriteHolder_reset"
| "holder_reset True ReadHolder = Some TicketReadHolder_reset"
| "holder_reset True WriteHolder = Some TicketWriteHolder_reset"
| "holder_reset True UpgradedHolder = None"

fun holder_destroy where
  "holder_destroy False ReadHolder = Some ReadHolder_destroy"
| "holder_destroy False UpgradedHolder = Some UpgradedHolder_destroy"
| "holder_destroy False WriteHolder = Some WriteHolder_destroy"
| "holder_destroy True ReadHolder = Some TicketReadHolder_destroy"
| "holder_destroy True WriteHolder = Some TicketWriteHolder_destroy"
| "holder_destroy True UpgradedHolder = None"

text \<open>One step of a program; it constructs only objects that do not exist, and uses only objects that do.\<close>

fun holder_step :: "bool \<Rightarrow> holder_op \<Rightarrow> holders \<Rightarrow> (holders \<times> lock_calls) option" where
  "holder_step ticket (H_ptr k i p) h =
     (case (h (k, i), holder_ptr ticket k) of
        (None, Some f) \<Rightarrow> Some (case f p of (this, cs) \<Rightarrow> (h((k, i) \<mapsto> this), cs))
      | _ \<Rightarrow> None)"
| "holder_step ticket (H_ref k i l) h =
     (case (h (k, i), holder_ref ticket k) of
        (None, Some f) \<Rightarrow> Some (case f l of (this, cs) \<Rightarrow> (h((k, i) \<mapsto> this), cs))
      | _ \<Rightarrow> None)"
| "holder_step ticket (H_from k i k' j) h =
     (case (h (k, i), h (k', j), holder_from ticket k k') of
        (None, Some p, Some f) \<Rightarrow> Some (case f p of (this, other_p, cs) \<Rightarrow> (h((k, i) \<mapsto> this, (k', j) \<mapsto> other_p), cs))
      | _ \<Rightarrow> None)"
| "holder_step ticket (H_assign k i j) h =
     (case (h (k, i), h (k, j), holder_assign ticket k) of
        (Some this, Some p, Some f) \<Rightarrow> Some (case f this p of (this', p') \<Rightarrow> (h((k, i) \<mapsto> this', (k, j) \<mapsto> p'), []))
      | _ \<Rightarrow> None)"
| "holder_step ticket (H_swap k i j) h =
     (case (h (k, i), h (k, j), holder_swap ticket k) of
        (Some this, Some p, Some f) \<Rightarrow> Some (case f this p of (this', p') \<Rightarrow> (h((k, i) \<mapsto> this', (k, j) \<mapsto> p'), []))
      | _ \<Rightarrow> None)"
| "holder_step ticket (H_reset k i p) h =
     (case (h (k, i), holder_reset ticket k) of
        (Some this, Some f) \<Rightarrow> Some (case f this p of (this', cs) \<Rightarrow> (h((k, i) \<mapsto> this'), cs))
      | _ \<Rightarrow> None)"
| "holder_step ticket (H_destroy k i) h =
     (case (h (k, i), holder_destroy ticket k) of
        (Some this, Some f) \<Rightarrow> Some (h((k, i) := None), f this)
      | _ \<Rightarrow> None)"

fun holder_run :: "bool \<Rightarrow> holder_op list \<Rightarrow> holders \<Rightarrow> (holders \<times> lock_calls) option" where
  "holder_run ticket [] h = Some (h, [])"
| "holder_run ticket (x # xs) h =
     Option.bind (holder_step ticket x h) (\<lambda>(h', cs). Option.bind (holder_run ticket xs h') (\<lambda>(h'', ds). Some (h'', cs @ ds)))"

section \<open>What the calls own\<close>

text \<open>The kind of lock a call gives up, and the kind it takes.\<close>

fun gives_up :: "rw_call \<Rightarrow> holder_class option" where
  "gives_up C_unlock = Some WriteHolder"
| "gives_up C_unlock_and_lock_shared = Some WriteHolder"
| "gives_up C_unlock_and_lock_upgrade = Some WriteHolder"
| "gives_up C_unlock_shared = Some ReadHolder"
| "gives_up C_unlock_upgrade = Some UpgradedHolder"
| "gives_up C_unlock_upgrade_and_lock = Some UpgradedHolder"
| "gives_up C_unlock_upgrade_and_lock_shared = Some UpgradedHolder"
| "gives_up _ = None"

fun takes :: "rw_call \<Rightarrow> holder_class option" where
  "takes C_lock = Some WriteHolder"
| "takes C_unlock_upgrade_and_lock = Some WriteHolder"
| "takes C_lock_shared = Some ReadHolder"
| "takes C_unlock_and_lock_shared = Some ReadHolder"
| "takes C_unlock_upgrade_and_lock_shared = Some ReadHolder"
| "takes C_lock_upgrade = Some UpgradedHolder"
| "takes C_unlock_and_lock_upgrade = Some UpgradedHolder"
| "takes _ = None"

text \<open>An account of the locks owned, by kind and lock, over a sequence of calls; \<open>None\<close> when a call gives up what is not owned.\<close>

type_synonym owned = "holder_class \<Rightarrow> nat \<Rightarrow> nat"

definition credit :: "holder_class \<Rightarrow> nat \<Rightarrow> owned \<Rightarrow> owned" where
  "credit k l n = (\<lambda>k' l'. n k' l' + of_bool (k' = k \<and> l' = l))"

definition account_step :: "nat \<times> rw_call \<Rightarrow> owned \<Rightarrow> owned option" where
  "account_step = (\<lambda>(l, c) n.
     let m = (case gives_up c of
               None \<Rightarrow> Some n
             | Some k \<Rightarrow> if n k l = 0 then None else Some (\<lambda>k' l'. if k' = k \<and> l' = l then n k l - 1 else n k' l'))
     in case takes c of None \<Rightarrow> m | Some k \<Rightarrow> map_option (credit k l) m)"

fun account :: "lock_calls \<Rightarrow> owned \<Rightarrow> owned option" where
  "account [] n = Some n"
| "account (x # xs) n = Option.bind (account_step x n) (account xs)"

definition held :: "holders \<Rightarrow> owned" where
  "held h = (\<lambda>k l. card {i. h (k, i) = Some (Some l)})"

lemma account_append: "account (xs @ ys) n = Option.bind (account xs n) (account ys)"
  by (induction xs arbitrary: n) (simp_all split: bind_split)


section \<open>Programs release what they take\<close>

definition own :: "holder_class option \<Rightarrow> lock_ptr \<Rightarrow> owned \<Rightarrow> owned" where
  "own k p n = (case (k, p) of (Some k, Some l) \<Rightarrow> credit k l n | _ \<Rightarrow> n)"

lemma own_simps [simp]: "own None p n = n" "own c None n = n" "own (Some k) (Some l) n = credit k l n"
  by (simp_all add: own_def split: option.splits)

lemma own_commute: "own k p (own k' q n) = own k' q (own k p n)"
  by (cases k; cases k'; cases p; cases q) (auto simp: credit_def fun_eq_iff)

lemma account_if_lock: "account (if_lock p c) (own (gives_up c) p n) = Some (own (takes c) p n)"
proof (cases p)
  case (Some l)
  have "(\<lambda>k' l'. if k' = k \<and> l' = l then credit k l n k l - 1 else credit k l n k' l') = n" "credit k l n k l \<noteq> 0" for k
    by (auto simp: credit_def fun_eq_iff)
  then show ?thesis using Some by (cases "gives_up c"; cases "takes c") (simp_all add: if_lock_def account_step_def)
qed (simp add: if_lock_def)

lemmas account_calls =
  account_if_lock[of _ C_lock, simplified] account_if_lock[of _ C_unlock, simplified]
  account_if_lock[of _ C_lock_shared, simplified] account_if_lock[of _ C_unlock_shared, simplified]
  account_if_lock[of _ C_lock_upgrade, simplified] account_if_lock[of _ C_unlock_upgrade, simplified]
  account_if_lock[of _ C_unlock_and_lock_shared, simplified] account_if_lock[of _ C_unlock_and_lock_upgrade, simplified]
  account_if_lock[of _ C_unlock_upgrade_and_lock, simplified] account_if_lock[of _ C_unlock_upgrade_and_lock_shared, simplified]

lemma ptr_calls: "holder_ptr ticket k = Some f \<Longrightarrow> f p = (this, cs) \<Longrightarrow> this = p \<and> account cs n = Some (own (Some k) p n)"
  by (cases ticket; cases k) (auto simp: ReadHolder_ptr_def UpgradedHolder_ptr_def WriteHolder_ptr_def TicketReadHolder_ptr_def TicketWriteHolder_ptr_def account_calls)

lemma ref_calls: "holder_ref ticket k = Some f \<Longrightarrow> f l = (this, cs) \<Longrightarrow> this = Some l \<and> account cs n = Some (own (Some k) (Some l) n)"
  by (cases ticket; cases k) (auto simp: ReadHolder_ref_def UpgradedHolder_ref_def WriteHolder_ref_def TicketReadHolder_ref_def TicketWriteHolder_ref_def
    if_lock_def account_step_def)

lemma from_calls:
  "holder_from ticket k k' = Some f \<Longrightarrow> f p = (this, other_p, cs) \<Longrightarrow> this = p \<and> other_p = None \<and> account cs (own (Some k') p n) = Some (own (Some k) p n)"
  by (cases ticket; cases k; cases k') (auto simp: ReadHolder_move_def ReadHolder_of_upgraded_def ReadHolder_of_writer_def UpgradedHolder_move_def
    UpgradedHolder_of_writer_def WriteHolder_move_def WriteHolder_of_upgraded_def TicketReadHolder_of_writer_def account_calls)

lemma destroy_calls: "holder_destroy ticket k = Some f \<Longrightarrow> account (f p) (own (Some k) p n) = Some n"
  by (cases ticket; cases k) (auto simp: ReadHolder_destroy_def UpgradedHolder_destroy_def WriteHolder_destroy_def TicketReadHolder_destroy_def
    TicketWriteHolder_destroy_def account_calls)

lemma reset_calls:
  "holder_reset ticket k = Some f \<Longrightarrow> f this p = (q, cs) \<Longrightarrow> q = p \<and> account cs (own (Some k) this n) = Some (own (Some k) p n)"
  by (cases ticket; cases k) (auto simp: ReadHolder_reset_def UpgradedHolder_reset_def WriteHolder_reset_def TicketReadHolder_reset_def
    TicketWriteHolder_reset_def account_append account_calls split: if_splits)

lemma assign_exchange: "holder_assign ticket k = Some f \<Longrightarrow> f this p = (p, this)"
  by (cases ticket; cases k) (auto simp: ReadHolder_assign_def UpgradedHolder_assign_def WriteHolder_assign_def)

lemma swap_exchange: "holder_swap ticket k = Some f \<Longrightarrow> f this p = (p, this)"
  by (cases ticket; cases k) (auto simp: ReadHolder_swap_def UpgradedHolder_swap_def WriteHolder_swap_def TicketReadHolder_swap_def TicketWriteHolder_swap_def)

lemma held_set:
  assumes "finite (dom h)" "h (k, i) = None"
  shows "held (h((k, i) \<mapsto> p)) = own (Some k) p (held h)"
proof -
  have fin: "finite {j. h (k', j) = Some (Some l)}" for k' l
    by (rule finite_subset[OF _ finite_imageI[OF assms(1), of snd]]) force
  have "{j. (h((k, i) \<mapsto> p)) (k', j) = Some (Some l)} = {j. h (k', j) = Some (Some l)} \<union> (if k' = k \<and> p = Some l then {i} else {})" for k' l
    using assms(2) by auto
  then show ?thesis using assms(2) fin by (cases p) (auto simp: held_def credit_def fun_eq_iff)
qed

lemma held_get:
  assumes "finite (dom h)" "h (k, i) = Some p"
  shows "held h = own (Some k) p (held (h((k, i) := None)))"
  using held_set[of "h((k, i) := None)" k i p] assms by (simp add: fun_upd_idem)

lemma held_exchange:
  assumes fin: "finite (dom h)" and h: "h (k, i) = Some p" "h (k, j) = Some q"
  shows "held (h((k, i) \<mapsto> q, (k, j) \<mapsto> p)) = held h"
proof (cases "i = j")
  case True
  then show ?thesis using h by (simp add: fun_upd_idem)
next
  case False
  let ?g = "h((k, i) := None, (k, j) := None)"
  have g: "finite (dom ?g)" "finite (dom (h((k, i) := None)))" "finite (dom (?g((k, i) \<mapsto> q)))" using fin by simp_all
  have "held h = own (Some k) p (own (Some k) q (held ?g))"
    using held_get[OF fin h(1)] held_get[OF g(2), of k j q] h(2) False by simp
  moreover have "held (?g((k, i) \<mapsto> q, (k, j) \<mapsto> p)) = own (Some k) p (own (Some k) q (held ?g))"
    using held_set[OF g(3), of k j p] held_set[OF g(1), of k i q] False by simp
  moreover have "?g((k, i) \<mapsto> q, (k, j) \<mapsto> p) = h((k, i) \<mapsto> q, (k, j) \<mapsto> p)" using False by (simp add: fun_upd_twist)
  ultimately show ?thesis by simp
qed

lemma held_move:
  assumes fin: "finite (dom h)" and h: "h (k, i) = None" "h (k', j) = Some p"
  shows "held (h((k, i) \<mapsto> p, (k', j) \<mapsto> None)) = own (Some k) p (held (h((k', j) := None)))"
proof -
  let ?g = "h((k', j) := None)"
  have ne: "(k, i) \<noteq> (k', j)" using h by auto
  have g: "finite (dom ?g)" "finite (dom (?g((k, i) \<mapsto> p)))" using fin by simp_all
  have "h((k, i) \<mapsto> p, (k', j) \<mapsto> None) = ?g((k, i) \<mapsto> p, (k', j) \<mapsto> None)" using ne by (auto simp: fun_upd_twist)
  then show ?thesis using held_set[OF g(2), of k' j None] held_set[OF g(1), of k i p] h(1) ne by auto
qed

lemma holder_step_account:
  assumes step: "holder_step ticket x h = Some (h', cs)" and fin: "finite (dom h)"
  shows "account cs (held h) = Some (held h') \<and> finite (dom h')"
proof (cases x)
  case (H_ptr k i p)
  then obtain f this where s: "h (k, i) = None" "holder_ptr ticket k = Some f" "f p = (this, cs)" "h' = h((k, i) \<mapsto> this)"
    using step by (auto split: option.splits prod.splits)
  show ?thesis using held_set[OF fin s(1)] ptr_calls[OF s(2,3)] fin s(4) by simp
next
  case (H_ref k i l)
  then obtain f this where s: "h (k, i) = None" "holder_ref ticket k = Some f" "f l = (this, cs)" "h' = h((k, i) \<mapsto> this)"
    using step by (auto split: option.splits prod.splits)
  show ?thesis using held_set[OF fin s(1)] ref_calls[OF s(2,3)] fin s(4) by simp
next
  case (H_from k i k' j)
  then obtain p f this q where s: "h (k, i) = None" "h (k', j) = Some p" "holder_from ticket k k' = Some f" "f p = (this, q, cs)" "h' = h((k, i) \<mapsto> this, (k', j) \<mapsto> q)"
    using step by (auto split: option.splits prod.splits)
  then show ?thesis using held_move[OF fin s(1,2)] held_get[OF fin s(2)] from_calls[OF s(3,4)] fin by simp
next
  case (H_assign k i j)
  then obtain this p where "h (k, i) = Some this" "h (k, j) = Some p" "h' = h((k, i) \<mapsto> p, (k, j) \<mapsto> this)" "cs = []"
    using step by (auto simp: assign_exchange split: option.splits)
  then show ?thesis using fin held_exchange[OF fin] by simp
next
  case (H_swap k i j)
  then obtain this p where "h (k, i) = Some this" "h (k, j) = Some p" "h' = h((k, i) \<mapsto> p, (k, j) \<mapsto> this)" "cs = []"
    using step by (auto simp: swap_exchange split: option.splits)
  then show ?thesis using fin held_exchange[OF fin] by simp
next
  case (H_reset k i p)
  then obtain this q f where s: "h (k, i) = Some this" "holder_reset ticket k = Some f" "f this p = (q, cs)" "h' = h((k, i) \<mapsto> q)"
    using step by (auto split: option.splits prod.splits)
  have "held h' = own (Some k) q (held (h((k, i) := None)))" using held_set[of "h((k, i) := None)" k i q] fin s(4) by simp
  then show ?thesis using held_get[OF fin s(1)] reset_calls[OF s(2,3)] fin s(4) by simp
next
  case (H_destroy k i)
  then obtain this f where s: "h (k, i) = Some this" "holder_destroy ticket k = Some f" "h' = h((k, i) := None)" "cs = f this" using step by (auto split: option.splits)
  then show ?thesis using held_get[OF fin s(1)] destroy_calls[OF s(2)] fin by simp
qed

lemma holder_run_account:
  assumes "holder_run ticket xs h = Some (h', cs)" "finite (dom h)"
  shows "account cs (held h) = Some (held h')"
  using assms
proof (induction xs arbitrary: h cs)
  case (Cons x xs)
  then obtain h1 cs1 cs2 where s: "holder_step ticket x h = Some (h1, cs1)" "holder_run ticket xs h1 = Some (h', cs2)" "cs = cs1 @ cs2"
    by (auto simp: bind_eq_Some_conv)
  note a = holder_step_account[OF s(1) Cons.prems(2)]
  show ?case using a Cons.IH[OF s(2)] by (simp add: s(3) account_append)
qed simp

text \<open>
  C26. Any program over holders of either lock, with constructions from locks and from other holders, assignments, swaps, resets and destructions: every
  call it makes gives up only a lock of a kind it owns at that time, and what it owns at the end is exactly what the holders that still exist
  hold; when all have been destroyed or emptied, it owns nothing.
\<close>

theorem holders_release_what_they_take:
  assumes "holder_run ticket xs (\<lambda>_. None) = Some (h, cs)"
  shows "account cs (\<lambda>k l. 0) = Some (held h) \<and> ((\<forall>x l. h x \<noteq> Some (Some l)) \<longrightarrow> account cs (\<lambda>k l. 0) = Some (\<lambda>k l. 0))"
proof -
  have "held (\<lambda>_. None) = (\<lambda>k l. 0)" by (simp add: held_def)
  then show ?thesis using holder_run_account[OF assms] by (simp add: held_def)
qed

theorem holders_release_what_they_take_witness:
  "\<exists>h cs. holder_run False [H_ref UpgradedHolder 0 7, H_from WriteHolder 0 UpgradedHolder 0, H_from ReadHolder 0 WriteHolder 0, H_reset ReadHolder 0 (Some 8)] (\<lambda>_. None) = Some (h, cs)
    \<and> map snd cs = [C_lock_upgrade, C_unlock_upgrade_and_lock, C_unlock_and_lock_shared, C_unlock_shared, C_lock_shared] \<and> account cs (\<lambda>k l. 0) = Some (held h)"
proof -
  obtain h cs where r: "holder_run False [H_ref UpgradedHolder 0 7, H_from WriteHolder 0 UpgradedHolder 0, H_from ReadHolder 0 WriteHolder 0, H_reset ReadHolder 0 (Some 8)] (\<lambda>_. None) = Some (h, cs)"
      "map snd cs = [C_lock_upgrade, C_unlock_upgrade_and_lock, C_unlock_and_lock_shared, C_unlock_shared, C_lock_shared]"
    by (simp add: UpgradedHolder_ref_def WriteHolder_of_upgraded_def ReadHolder_of_writer_def ReadHolder_reset_def if_lock_def)
  show ?thesis by (intro exI conjI) (rule r(1), rule r(2), rule conjunct1[OF holders_release_what_they_take[OF r(1)]])
qed

end
