(* ===== verification/RWTicketSpinLock.thy ===== *)
theory RWTicketSpinLock
  imports Prelude
begin

text \<open>
  \<^verbatim>\<open>folly/synchronization/RWSpinLock.h\<close>, class \<^verbatim>\<open>RWTicketSpinLockT\<close>: a lock for readers and one writer with tickets.

  \<^item> The union \<^verbatim>\<open>RWTicket\<close> is the record of its three quarters; the fourth is never changed and stays 0, so that comparing the whole integer is
    comparing the three quarters.  The width \<open>'q\<close> of a quarter is 8 or 16.
  \<^item> An access to the ticket, or to one part of it, is atomic; a thread is described by where it is between two accesses, with the values it has
    loaded.  \<^verbatim>\<open>unlock\<close> loads the ticket and stores half of it in two accesses.
  \<^item> \<open>sse\<close> chooses the build with \<^verbatim>\<open>RW_SPINLOCK_USE_SSE_INSTRUCTIONS_\<close>, \<open>favor\<close> is \<^verbatim>\<open>kFavorWriter\<close>.
\<close>

section \<open>The ticket\<close>

record 'w ticket =
  tk_write :: 'w
  tk_read :: 'w
  tk_users :: 'w

definition ticket_new :: "'q::len word ticket" where
  "ticket_new = \<lparr>tk_write = 0, tk_read = 0, tk_users = 0\<rparr>"

text \<open>\<^verbatim>\<open>_mm_add_epi8\<close> or \<^verbatim>\<open>_mm_add_epi16\<close>, on the quarters: each wraps around on its own.\<close>

definition addParallel :: "'q::len word ticket \<Rightarrow> 'q word ticket \<Rightarrow> 'q word ticket" where
  "addParallel a d = \<lparr>tk_write = tk_write a + tk_write d, tk_read = tk_read a + tk_read d, tk_users = tk_users a + tk_users d\<rparr>"

text \<open>\<^verbatim>\<open>__sync_bool_compare_and_swap\<close> on the whole ticket.\<close>

definition ticket_cas :: "'q::len word ticket \<Rightarrow> 'q word ticket \<Rightarrow> 'q word ticket \<Rightarrow> bool \<times> 'q word ticket" where
  "ticket_cas old new tk = (if tk = old then (True, new) else (False, tk))"

text \<open>\<^verbatim>\<open>try_lock\<close>: the test of the loaded ticket, and the swap.\<close>

definition try_lock_test :: "'q::len word ticket \<Rightarrow> bool" where
  "try_lock_test t \<longleftrightarrow> tk_users t = tk_write t"

definition try_lock_swap :: "'q::len word ticket \<Rightarrow> 'q word ticket \<Rightarrow> bool \<times> 'q word ticket" where
  "try_lock_swap old tk = ticket_cas old (old\<lparr>tk_users := tk_users old + 1\<rparr>) tk"

text \<open>\<^verbatim>\<open>writeLockAggressive\<close>: taking a number, and the test of the loop.\<close>

definition take_number :: "'q::len word ticket \<Rightarrow> 'q word \<times> 'q word ticket" where
  "take_number tk = (tk_users tk, tk\<lparr>tk_users := tk_users tk + 1\<rparr>)"

definition number_called :: "'q::len word \<Rightarrow> 'q word ticket \<Rightarrow> bool" where
  "number_called val tk \<longleftrightarrow> val = tk_write tk"

definition tk_unlock_and_lock_shared :: "'q::len word ticket \<Rightarrow> 'q word ticket" where
  "tk_unlock_and_lock_shared tk = tk\<lparr>tk_read := tk_read tk + 1\<rparr>"

text \<open>\<^verbatim>\<open>unlock\<close>: the new ticket computed from the loaded one, and the store of its half \<^verbatim>\<open>readWrite\<close>.\<close>

definition unlock_compute :: "bool \<Rightarrow> 'q::len word ticket \<Rightarrow> 'q word ticket" where
  "unlock_compute sse t =
     (if sse then addParallel t \<lparr>tk_write = 1, tk_read = 1, tk_users = 0\<rparr>
      else t\<lparr>tk_read := tk_read t + 1, tk_write := tk_write t + 1\<rparr>)"

definition unlock_store :: "'q::len word ticket \<Rightarrow> 'q word ticket \<Rightarrow> 'q word ticket" where
  "unlock_store t tk = tk\<lparr>tk_write := tk_write t, tk_read := tk_read t\<rparr>"

text \<open>\<^verbatim>\<open>try_lock_shared\<close>: the expected and the new ticket computed from the loaded one, and the swap.\<close>

definition shared_compute :: "bool \<Rightarrow> 'q::len word ticket \<Rightarrow> 'q word ticket \<times> 'q word ticket" where
  "shared_compute sse t =
     (let old = t\<lparr>tk_users := tk_read t\<rparr> in
      (old, if sse then addParallel old \<lparr>tk_write = 0, tk_read = 1, tk_users = 1\<rparr>
            else t\<lparr>tk_read := tk_read t + 1, tk_users := tk_users t + 1\<rparr>))"

definition tk_unlock_shared :: "'q::len word ticket \<Rightarrow> 'q word ticket" where
  "tk_unlock_shared tk = tk\<lparr>tk_write := tk_write tk + 1\<rparr>"

section \<open>Threads\<close>

text \<open>
  \<open>T_try\<close> and \<open>T_try_shared\<close> are \<^verbatim>\<open>try_lock\<close> and \<^verbatim>\<open>try_lock_shared\<close> before the load, \<open>T_swap\<close> and \<open>T_swap_shared\<close> before the swap; the flag says whether it is
  in the loop of \<^verbatim>\<open>writeLockNice\<close> or \<^verbatim>\<open>lock_shared\<close>.  \<open>T_waiting\<close> is the loop of \<^verbatim>\<open>writeLockAggressive\<close>, and \<open>T_unlocking\<close> is \<^verbatim>\<open>unlock\<close> before the store.
\<close>

datatype 'w tk_pc =
    T_idle
  | T_try bool
  | T_swap bool "'w ticket"
  | T_aggressive
  | T_waiting "'w"
  | T_writing
  | T_unlocking "'w ticket"
  | T_try_shared bool
  | T_swap_shared bool "'w ticket" "'w ticket"
  | T_reading

datatype tk_call =
    TC_lock | TC_try_lock | TC_writeLockAggressive | TC_writeLockNice | TC_unlock
  | TC_lock_shared | TC_try_lock_shared | TC_unlock_shared | TC_unlock_and_lock_shared

text \<open>The next access of a call that has begun.\<close>

fun tk_go :: "bool \<Rightarrow> 'q::len word tk_pc \<Rightarrow> 'q word ticket \<Rightarrow> ('q word tk_pc \<times> 'q word ticket) option" where
  "tk_go sse (T_try loop) tk = Some (if try_lock_test tk then T_swap loop tk else if loop then T_try True else T_idle, tk)"
| "tk_go sse (T_swap loop old) tk =
     Some (case try_lock_swap old tk of (ok, tk') \<Rightarrow> (if ok then T_writing else if loop then T_try True else T_idle, tk'))"
| "tk_go sse T_aggressive tk = Some (case take_number tk of (val, tk') \<Rightarrow> (T_waiting val, tk'))"
| "tk_go sse (T_waiting val) tk = Some (if number_called val tk then T_writing else T_waiting val, tk)"
| "tk_go sse (T_unlocking t) tk = Some (T_idle, unlock_store t tk)"
| "tk_go sse (T_try_shared loop) tk = Some (case shared_compute sse tk of (old, new) \<Rightarrow> (T_swap_shared loop old new, tk))"
| "tk_go sse (T_swap_shared loop old new) tk =
     Some (case ticket_cas old new tk of (ok, tk') \<Rightarrow> (if ok then T_reading else if loop then T_try_shared True else T_idle, tk'))"
| "tk_go sse _ tk = None"

text \<open>The beginning of a call, with its access when it begins with one, and the state of the threads that may make it.\<close>

fun tk_caller :: "tk_call \<Rightarrow> 'q::len word tk_pc" where
  "tk_caller TC_unlock = T_writing"
| "tk_caller TC_unlock_and_lock_shared = T_writing"
| "tk_caller TC_unlock_shared = T_reading"
| "tk_caller _ = T_idle"

fun tk_begin :: "bool \<Rightarrow> bool \<Rightarrow> tk_call \<Rightarrow> 'q::len word ticket \<Rightarrow> 'q word tk_pc \<times> 'q word ticket" where
  "tk_begin sse favor TC_lock tk = (if favor then T_aggressive else T_try True, tk)"
| "tk_begin sse favor TC_try_lock tk = (T_try False, tk)"
| "tk_begin sse favor TC_writeLockAggressive tk = (T_aggressive, tk)"
| "tk_begin sse favor TC_writeLockNice tk = (T_try True, tk)"
| "tk_begin sse favor TC_unlock tk = (T_unlocking (unlock_compute sse tk), tk)"
| "tk_begin sse favor TC_lock_shared tk = (T_try_shared True, tk)"
| "tk_begin sse favor TC_try_lock_shared tk = (T_try_shared False, tk)"
| "tk_begin sse favor TC_unlock_shared tk = (T_idle, tk_unlock_shared tk)"
| "tk_begin sse favor TC_unlock_and_lock_shared tk = (T_reading, tk_unlock_and_lock_shared tk)"

datatype tk_action = T_call tk_call | T_go

fun tk_act :: "bool \<Rightarrow> bool \<Rightarrow> tk_action \<Rightarrow> 'q::len word tk_pc \<Rightarrow> 'q word ticket \<Rightarrow> ('q word tk_pc \<times> 'q word ticket) option" where
  "tk_act sse favor (T_call c) p tk = (if p = tk_caller c then Some (tk_begin sse favor c tk) else None)"
| "tk_act sse favor T_go p tk = tk_go sse p tk"

section \<open>The system\<close>

record 'w tk_system =
  tk_ticket :: "'w ticket"
  tk_pcs :: "nat \<Rightarrow> 'w tk_pc"

definition tk_init :: "'q::len word tk_system" where
  "tk_init = \<lparr>tk_ticket = ticket_new, tk_pcs = (\<lambda>_. T_idle)\<rparr>"

definition tk_run :: "bool \<Rightarrow> bool \<Rightarrow> nat \<Rightarrow> nat \<times> tk_action \<Rightarrow> 'q::len word tk_system \<Rightarrow> 'q word tk_system option" where
  "tk_run sse favor n = (\<lambda>(t, a) s.
     if t < n
     then case tk_act sse favor a (tk_pcs s t) (tk_ticket s) of None \<Rightarrow> None | Some (p, tk) \<Rightarrow> Some \<lparr>tk_ticket = tk, tk_pcs = (tk_pcs s)(t := p)\<rparr>
     else None)"

inductive tk_steps :: "bool \<Rightarrow> bool \<Rightarrow> nat \<Rightarrow> 'q::len word tk_system \<Rightarrow> (nat \<times> tk_action) list \<Rightarrow> 'q word tk_system \<Rightarrow> bool" for sse favor n where
  tk_none: "tk_steps sse favor n s [] s"
| tk_more: "tk_run sse favor n x s = Some s' \<Longrightarrow> tk_steps sse favor n s' xs s'' \<Longrightarrow> tk_steps sse favor n s (x # xs) s''"

inductive_cases tk_steps_ConsE: "tk_steps sse favor n s (x # xs) s''"
inductive_simps tk_steps_Nil: "tk_steps sse favor n s [] s''"

end
