(* ===== verification/RWTicketSpinLock_Correct.thy ===== *)
theory RWTicketSpinLock_Correct
  imports RWTicketSpinLock Interleaving
begin

text \<open>
  Correctness of the ticket lock for fewer than \<open>2 ^ q\<close> threads, \<open>q\<close> the number of bits of a quarter, and any interleaving: the line of writers, which
  locks exclude each other, and who is served next.
\<close>

section \<open>The line\<close>

fun in_line :: "'w tk_pc \<Rightarrow> bool" where
  "in_line (T_waiting v) = True"
| "in_line T_writing = True"
| "in_line (T_unlocking t) = True"
| "in_line _ = False"

fun tk_holds_write :: "'w tk_pc \<Rightarrow> bool" where
  "tk_holds_write T_writing = True"
| "tk_holds_write (T_unlocking t) = True"
| "tk_holds_write _ = False"

definition readers :: "nat \<Rightarrow> (nat \<Rightarrow> 'w tk_pc) \<Rightarrow> nat" where
  "readers n pc = card {t. t < n \<and> pc t = T_reading}"

text \<open>The state of the thread at place \<open>i\<close> of the line, beside \<open>r\<close> readers.\<close>

fun line_ok :: "'q::len word ticket \<Rightarrow> nat \<Rightarrow> nat \<Rightarrow> 'q word tk_pc \<Rightarrow> bool" where
  "line_ok tk r i (T_waiting v) \<longleftrightarrow> v = tk_read tk + of_nat i"
| "line_ok tk r i T_writing \<longleftrightarrow> i = 0 \<and> r = 0"
| "line_ok tk r i (T_unlocking t) \<longleftrightarrow> i = 0 \<and> r = 0 \<and> tk_write t = tk_write tk + 1 \<and> tk_read t = tk_read tk + 1"
| "line_ok tk r i _ \<longleftrightarrow> False"

definition tk_core :: "nat \<Rightarrow> 'q::len word ticket \<Rightarrow> (nat \<Rightarrow> 'q word tk_pc) \<Rightarrow> nat list \<Rightarrow> bool" where
  "tk_core n tk pc ws \<longleftrightarrow> distinct ws \<and> set ws = {t. t < n \<and> in_line (pc t)}
     \<and> tk_read tk = tk_write tk + of_nat (readers n pc) \<and> tk_users tk = tk_read tk + of_nat (length ws)
     \<and> (\<forall>i < length ws. line_ok tk (readers n pc) i (pc (ws ! i)))"

lemma readers_upd:
  assumes "t < n"
  shows "readers n (pc(t := p)) = readers n pc + of_bool (p = T_reading) - of_bool (pc t = T_reading)"
proof -
  have "{t'. t' < n \<and> (pc(t := p)) t' = T_reading} = (if p = T_reading then insert t {t'. t' < n \<and> pc t' = T_reading} else {t'. t' < n \<and> pc t' = T_reading} - {t})"
    using assms by auto
  then show ?thesis using assms by (auto simp: readers_def card_insert_if card_Diff_singleton_if)
qed

lemma readers_pos: "t < n \<Longrightarrow> pc t = T_reading \<Longrightarrow> 0 < readers n pc"
  by (auto simp: readers_def card_gt_0_iff)

lemma core_size:
  assumes "tk_core n tk pc ws"
  shows "readers n pc + length ws \<le> n"
proof -
  have "length ws = card {t. t < n \<and> in_line (pc t)}" using assms by (metis tk_core_def distinct_card)
  moreover have "{t. t < n \<and> pc t = T_reading} \<inter> {t. t < n \<and> in_line (pc t)} = {}" by auto
  ultimately have "readers n pc + length ws = card ({t. t < n \<and> pc t = T_reading} \<union> {t. t < n \<and> in_line (pc t)})"
    by (simp add: readers_def card_Un_disjoint)
  also have "\<dots> \<le> card {..<n}" by (rule card_mono) auto
  finally show ?thesis by simp
qed

lemma of_nat_small: "of_nat k = (0 :: 'q::len word) \<longleftrightarrow> k = 0" if "k < 2 ^ LENGTH('q)"
  using that by (auto simp: word_of_nat_eq_0_iff dest: dvd_imp_le)

lemma core_free:
  fixes tk :: "'q::len word ticket"
  assumes core: "tk_core n tk pc ws" and n: "n < 2 ^ LENGTH('q)"
  shows "tk_users tk = tk_write tk \<longleftrightarrow> readers n pc = 0 \<and> ws = []" "tk_users tk = tk_read tk \<longleftrightarrow> ws = []"
    "t = ws ! i \<Longrightarrow> i < length ws \<Longrightarrow> pc t = T_waiting v \<Longrightarrow> v = tk_write tk \<longleftrightarrow> readers n pc = 0 \<and> i = 0"
proof -
  have e: "tk_read tk = tk_write tk + of_nat (readers n pc)" "tk_users tk = tk_read tk + of_nat (length ws)"
    using core by (simp_all add: tk_core_def)
  have s: "readers n pc + length ws < 2 ^ LENGTH('q)" using core_size[OF core] n by simp
  have "tk_users tk = tk_write tk \<longleftrightarrow> of_nat (readers n pc + length ws) = (0 :: 'q word)" using e by (simp add: add.assoc)
  then show "tk_users tk = tk_write tk \<longleftrightarrow> readers n pc = 0 \<and> ws = []" using of_nat_small[OF s] by simp
  have "tk_users tk = tk_read tk \<longleftrightarrow> of_nat (length ws) = (0 :: 'q word)" using e by simp
  then show "tk_users tk = tk_read tk \<longleftrightarrow> ws = []" using of_nat_small[of "length ws", where 'q = 'q] s by simp
  assume i: "t = ws ! i" "i < length ws" "pc t = T_waiting v"
  then have "line_ok tk (readers n pc) i (T_waiting v)" using core unfolding tk_core_def by metis
  then have "v = tk_write tk \<longleftrightarrow> of_nat (readers n pc + i) = (0 :: 'q word)" using e(1) by (simp add: add.assoc)
  then show "v = tk_write tk \<longleftrightarrow> readers n pc = 0 \<and> i = 0" using of_nat_small[of "readers n pc + i", where 'q = 'q] s i(2) by simp
qed

section \<open>Effects of an access\<close>

lemma core_stay:
  assumes core: "tk_core n tk pc ws" and t: "t < n" and p: "in_line p = in_line (pc t)" "p = T_reading \<longleftrightarrow> pc t = T_reading"
    and ok: "\<And>i. i < length ws \<Longrightarrow> ws ! i = t \<Longrightarrow> line_ok tk (readers n pc) i p"
  shows "tk_core n tk (pc(t := p)) ws"
proof -
  have r: "readers n (pc(t := p)) = readers n pc" using p(2) readers_upd[OF t, of pc p] by simp
  have "{t'. t' < n \<and> in_line ((pc(t := p)) t')} = {t'. t' < n \<and> in_line (pc t')}" using p(1) by auto
  moreover have "line_ok tk (readers n pc) i ((pc(t := p)) (ws ! i))" if "i < length ws" for i
    using core ok that by (auto simp: tk_core_def)
  ultimately show ?thesis using core unfolding tk_core_def r by simp
qed

lemma core_outside:
  assumes core: "tk_core n tk pc ws" and t: "t < n" "\<not> in_line (pc t)" "pc t \<noteq> T_reading" "\<not> in_line p" "p \<noteq> T_reading"
  shows "tk_core n tk (pc(t := p)) ws"
proof (rule core_stay[OF core t(1)])
  show "line_ok tk (readers n pc) i p" if "i < length ws" "ws ! i = t" for i
    using that core t(2) nth_mem[of i ws] by (auto simp: tk_core_def)
qed (use t in auto)

lemma line_ok_users: "line_ok (tk\<lparr>tk_users := u\<rparr>) r i p = line_ok tk r i p"
  by (cases p) simp_all

lemma core_join:
  assumes core: "tk_core n tk pc ws" and t: "t < n" and p: "\<not> in_line (pc t)" "pc t \<noteq> T_reading" "in_line p" "line_ok tk (readers n pc) (length ws) p"
  shows "tk_core n (tk\<lparr>tk_users := tk_users tk + 1\<rparr>) (pc(t := p)) (ws @ [t])"
proof -
  have r: "readers n (pc(t := p)) = readers n pc" using p readers_upd[OF t, of pc p] by auto
  have notin: "t \<notin> set ws" using core p(1) by (auto simp: tk_core_def)
  have "{t'. t' < n \<and> in_line ((pc(t := p)) t')} = insert t {t'. t' < n \<and> in_line (pc t')}" using p(3) t by auto
  moreover have "line_ok tk (readers n pc) i ((pc(t := p)) ((ws @ [t]) ! i))" if "i < length (ws @ [t])" for i
    using core p(4) that notin by (auto simp: tk_core_def nth_append less_Suc_eq nth_mem)
  ultimately show ?thesis using core notin unfolding tk_core_def r by (simp add: line_ok_users)
qed

lemma core_head:
  assumes core: "tk_core n tk pc ws" and t: "t < n" "tk_holds_write (pc t)"
  obtains ws' where "ws = t # ws'" "readers n pc = 0" "tk_read tk = tk_write tk" "\<forall>i < length ws'. pc (ws' ! i) = T_waiting (tk_read tk + 1 + of_nat i)"
proof -
  have "t \<in> set ws" using core t by (cases "pc t") (auto simp: tk_core_def)
  then obtain i where i: "i < length ws" "ws ! i = t" by (auto simp: in_set_conv_nth)
  have "line_ok tk (readers n pc) i (pc t)" using core i unfolding tk_core_def by metis
  then have "i = 0" and r: "readers n pc = 0" using t(2) by (cases "pc t"; simp)+
  then obtain ws' where ws: "ws = t # ws'" using i by (cases ws) auto
  have "pc (ws' ! j) = T_waiting (tk_read tk + 1 + of_nat j)" if "j < length ws'" for j
  proof -
    have "line_ok tk (readers n pc) (Suc j) (pc (ws' ! j))" using core that unfolding tk_core_def ws by auto
    then show ?thesis by (cases "pc (ws' ! j)") (simp_all add: ac_simps)
  qed
  then show ?thesis using that ws r core by (auto simp: tk_core_def)
qed

lemma core_leave:
  assumes core: "tk_core n tk pc ws" and t: "t < n" "tk_holds_write (pc t)" and p: "\<not> in_line p"
    and tk': "tk_users tk' = tk_users tk" "tk_read tk' = tk_read tk + 1" "tk_write tk' = (if p = T_reading then tk_write tk else tk_write tk + 1)"
  shows "tk_core n tk' (pc(t := p)) (tl ws)"
proof -
  obtain ws' where ws: "ws = t # ws'" "readers n pc = 0" "tk_read tk = tk_write tk" "\<forall>i < length ws'. pc (ws' ! i) = T_waiting (tk_read tk + 1 + of_nat i)"
    by (rule core_head[OF core t])
  have r: "readers n (pc(t := p)) = of_bool (p = T_reading)" using readers_upd[OF t(1), of pc p] ws(2) t(2) by auto
  have d: "distinct ws" "set ws = {t. t < n \<and> in_line (pc t)}" using core by (simp_all add: tk_core_def)
  have "{t'. t' < n \<and> in_line ((pc(t := p)) t')} = set ws - {t}" using d p by auto
  moreover have "line_ok tk' (readers n (pc(t := p))) i ((pc(t := p)) (ws' ! i))" if "i < length ws'" for i
    using ws(4) d(1) that tk'(2) unfolding ws(1) by (auto simp: nth_mem)
  moreover have "tk_users tk = tk_read tk + of_nat (length ws)" using core by (simp add: tk_core_def)
  ultimately show ?thesis using d(1) unfolding tk_core_def r by (simp add: tk' ws(1,3))
qed

lemma core_enter:
  assumes core: "tk_core n tk pc []" and t: "t < n" "\<not> in_line (pc t)" "pc t \<noteq> T_reading"
  shows "tk_core n (tk\<lparr>tk_read := tk_read tk + 1, tk_users := tk_users tk + 1\<rparr>) (pc(t := T_reading)) []"
proof -
  have "readers n (pc(t := T_reading)) = readers n pc + 1" using readers_upd[OF t(1), of pc T_reading] t(3) by simp
  then show ?thesis using core by (auto simp: tk_core_def)
qed

lemma core_exit:
  assumes core: "tk_core n tk pc ws" and t: "t < n" "pc t = T_reading" and p: "\<not> in_line p" "p \<noteq> T_reading"
  shows "tk_core n (tk\<lparr>tk_write := tk_write tk + 1\<rparr>) (pc(t := p)) ws"
proof -
  have pos: "0 < readers n pc" by (rule readers_pos[of t n pc, OF t])
  then obtain r where r: "readers n pc = Suc r" by (cases "readers n pc") auto
  have r': "readers n (pc(t := p)) = r" using readers_upd[OF t(1), of pc p] t(2) p(2) r by simp
  have notin: "t \<notin> set ws" using core t by (auto simp: tk_core_def)
  have "{t'. t' < n \<and> in_line ((pc(t := p)) t')} = {t'. t' < n \<and> in_line (pc t')}" using t p by auto
  moreover have "line_ok (tk\<lparr>tk_write := tk_write tk + 1\<rparr>) r i ((pc(t := p)) (ws ! i))" if "i < length ws" for i
  proof -
    have "ws ! i \<noteq> t" using notin that nth_mem by metis
    moreover have "line_ok tk (Suc r) i (pc (ws ! i))" using core that r by (simp add: tk_core_def)
    ultimately show ?thesis by (cases "pc (ws ! i)") simp_all
  qed
  ultimately show ?thesis using core r unfolding tk_core_def r' by simp
qed

section \<open>The invariant of the system\<close>

definition bump :: "'q::len word ticket \<Rightarrow> 'q word ticket" where
  "bump old = old\<lparr>tk_read := tk_read old + 1, tk_users := tk_users old + 1\<rparr>"

text \<open>
  What a thread has computed for its swap.  Without SSE the number of users is not computed from the expected ticket; when the two differ, the swap must
  not succeed.
\<close>

fun pending_ok :: "bool \<Rightarrow> 'q::len word ticket \<Rightarrow> 'q word tk_pc \<Rightarrow> bool" where
  "pending_ok sse tk (T_swap loop old) \<longleftrightarrow> tk_users old = tk_write old"
| "pending_ok sse tk (T_swap_shared loop old new) \<longleftrightarrow>
     tk_users old = tk_read old \<and> (new = bump old \<or> \<not> sse \<and> unat (tk_read old) < unat (tk_users tk))"
| "pending_ok sse tk _ \<longleftrightarrow> True"

definition tk_inv :: "bool \<Rightarrow> nat \<Rightarrow> nat \<Rightarrow> 'q::len word tk_system \<Rightarrow> bool" where
  "tk_inv sse n m s \<longleftrightarrow>
     (\<exists>ws. tk_core n (tk_ticket s) (tk_pcs s) ws \<and> (sse \<or> unat (tk_users (tk_ticket s)) \<le> m \<and> length ws \<le> unat (tk_users (tk_ticket s))))
     \<and> (\<forall>t<n. pending_ok sse (tk_ticket s) (tk_pcs s t))"

lemma shared_pending:
  assumes core: "tk_core n tk pc ws" "sse \<or> length ws \<le> unat (tk_users tk)" and c: "shared_compute sse tk = (old, new)"
  shows "pending_ok sse tk (T_swap_shared loop old new)"
proof (cases "sse \<or> tk_users tk = tk_read tk")
  case True
  then show ?thesis using c by (auto simp: shared_compute_def addParallel_def bump_def Let_def)
next
  case False
  have e: "tk_users tk = tk_read tk + of_nat (length ws)" using core(1) by (simp add: tk_core_def)
  then have l: "0 < length ws" using False by (cases ws) auto
  have lu: "length ws \<le> unat (tk_users tk)" using core(2) False by simp
  have "length ws < 2 ^ LENGTH('a)" by (rule le_less_trans[OF lu unsigned_less])
  then have le: "(of_nat (length ws) :: 'a word) \<le> tk_users tk" "unat (of_nat (length ws) :: 'a word) = length ws"
    using lu by (simp_all add: word_le_nat_alt unat_of_nat take_bit_eq_mod)
  have "tk_read tk = tk_users tk - of_nat (length ws)" using e by simp
  then have "unat (tk_read tk) = unat (tk_users tk) - length ws" using le by (simp only: unat_sub)
  then have "unat (tk_read tk) < unat (tk_users tk)" using l lu by linarith
  then show ?thesis using c False by (auto simp: shared_compute_def Let_def)
qed

definition effect_ok :: "bool \<Rightarrow> nat \<Rightarrow> 'q::len word ticket \<Rightarrow> nat list \<Rightarrow> (nat \<Rightarrow> 'q word tk_pc) \<Rightarrow> nat \<Rightarrow> 'q word tk_pc \<Rightarrow> 'q word ticket \<Rightarrow> bool" where
  "effect_ok sse n tk ws pc t p tk' \<longleftrightarrow> pending_ok sse tk' p \<and> (\<exists>ws'. tk_core n tk' (pc(t := p)) ws' \<and>
     (tk_users tk' = tk_users tk \<and> length ws' \<le> length ws \<or> tk_users tk' = tk_users tk + 1 \<and> length ws' \<le> length ws + 1))"

lemma effect_same: "tk_core n tk (pc(t := p)) ws \<Longrightarrow> pending_ok sse tk p \<Longrightarrow> effect_ok sse n tk ws pc t p tk"
  by (auto simp: effect_ok_def)

lemma call_keeps:
  fixes tk :: "'q::len word ticket"
  assumes core: "tk_core n tk pc ws" and t: "t < n" "pc t = tk_caller c" and b: "tk_begin sse favor c tk = (p, tk')"
  shows "effect_ok sse n tk ws pc t p tk'"
proof -
  consider (outside) "pc t = T_idle" "\<not> in_line p" "p \<noteq> T_reading" "tk' = tk" "pending_ok sse tk p"
    | (unlock) "c = TC_unlock" | (unlock_shared) "c = TC_unlock_shared" | (downgrade) "c = TC_unlock_and_lock_shared"
    using t(2) b by (cases c) auto
  then show ?thesis
  proof cases
    case outside
    then show ?thesis using core_outside[OF core t(1)] by (auto intro: effect_same)
  next
    case unlock
    then have p: "p = T_unlocking (unlock_compute sse tk)" "tk' = tk" "pc t = T_writing" using t(2) b by auto
    have "line_ok tk (readers n pc) i p" if "i < length ws" "ws ! i = t" for i
    proof -
      have "line_ok tk (readers n pc) i T_writing" using core that p(3) unfolding tk_core_def by metis
      then show ?thesis by (simp add: p(1) unlock_compute_def addParallel_def)
    qed
    then show ?thesis using core_stay[OF core t(1), of p] p by (auto intro: effect_same)
  next
    case unlock_shared
    then show ?thesis using core_exit[OF core t(1), of T_idle] t(2) b by (auto simp: effect_ok_def tk_unlock_shared_def)
  next
    case downgrade
    then show ?thesis using core_leave[OF core t(1), of T_reading tk'] t(2) b
      by (auto simp: effect_ok_def tk_unlock_and_lock_shared_def intro!: exI[of _ "tl ws"])
  qed
qed

lemma go_keeps:
  fixes tk :: "'q::len word ticket"
  assumes core: "tk_core n tk pc ws" and n: "n < 2 ^ LENGTH('q)" and t: "t < n" and go: "tk_go sse (pc t) tk = Some (p, tk')"
    and pend: "pending_ok sse tk (pc t)" and l: "sse \<or> length ws \<le> unat (tk_users tk)"
  shows "effect_ok sse n tk ws pc t p tk'"
proof -
  consider (outside) "\<not> in_line (pc t)" "pc t \<noteq> T_reading" "\<not> in_line p" "p \<noteq> T_reading" "tk' = tk" "pending_ok sse tk p"
    | (swap) loop where "pc t = T_swap loop tk" "p = T_writing" "tk' = tk\<lparr>tk_users := tk_users tk + 1\<rparr>"
    | (number) "pc t = T_aggressive" "p = T_waiting (tk_users tk)" "tk' = tk\<lparr>tk_users := tk_users tk + 1\<rparr>"
    | (wait) v where "pc t = T_waiting v" "p = T_waiting v" "tk' = tk"
    | (called) "pc t = T_waiting (tk_write tk)" "p = T_writing" "tk' = tk"
    | (unlock) q where "pc t = T_unlocking q" "p = T_idle" "tk' = unlock_store q tk"
    | (enter) loop where "pc t = T_swap_shared loop tk tk'" "p = T_reading"
  proof (cases "pc t")
    case (T_try loop)
    show ?thesis by (rule outside) (use go in \<open>auto simp: T_try try_lock_test_def split: if_splits\<close>)
  next
    case (T_swap loop old)
    then show ?thesis using go outside swap by (auto simp: try_lock_swap_def ticket_cas_def split: if_splits)
  next
    case (T_try_shared loop)
    then show ?thesis using go outside shared_pending[OF core l] by (auto split: prod.splits)
  next
    case (T_swap_shared loop old new)
    then show ?thesis using go outside enter by (auto simp: ticket_cas_def split: if_splits)
  next
    case T_aggressive
    show ?thesis by (rule number) (use go in \<open>auto simp: T_aggressive take_number_def\<close>)
  next
    case (T_waiting v)
    show ?thesis
    proof (cases "v = tk_write tk")
      case True
      show ?thesis by (rule called) (use go True in \<open>auto simp: T_waiting number_called_def\<close>)
    next
      case False
      show ?thesis by (rule wait[of v]) (use go False in \<open>auto simp: T_waiting number_called_def\<close>)
    qed
  next
    case (T_unlocking q)
    show ?thesis by (rule unlock[of q]) (use go in \<open>auto simp: T_unlocking\<close>)
  qed (use go in simp_all)
  then show ?thesis
  proof cases
    case outside
    then show ?thesis using core_outside[OF core t] by (auto intro: effect_same)
  next
    case swap
    then have "readers n pc = 0" "ws = []" using pend core_free(1)[OF core n] by simp_all
    then show ?thesis using core_join[OF core t, of T_writing] swap by (auto simp: effect_ok_def)
  next
    case number
    have "tk_users tk = tk_read tk + of_nat (length ws)" using core by (simp add: tk_core_def)
    then show ?thesis using core_join[OF core t, of p] number by (auto simp: effect_ok_def)
  next
    case (wait v)
    then show ?thesis using core by (auto intro: effect_same simp: fun_upd_idem)
  next
    case called
    have "line_ok tk (readers n pc) i T_writing" if "i < length ws" "ws ! i = t" for i
      using core_free(3)[OF core n that(2)[symmetric] that(1) called(1)] by simp
    then show ?thesis using core_stay[OF core t, of p] called by (auto intro: effect_same)
  next
    case (unlock q)
    then have "t \<in> set ws" using core t by (simp add: tk_core_def)
    then obtain i where i: "i < length ws" "ws ! i = t" by (auto simp: in_set_conv_nth)
    then have "line_ok tk (readers n pc) i (T_unlocking q)" using core unlock(1) unfolding tk_core_def by metis
    then show ?thesis using core_leave[OF core t, of T_idle tk'] unlock
      by (auto simp: effect_ok_def unlock_store_def intro!: exI[of _ "tl ws"])
  next
    case (enter loop)
    then have u: "tk_users tk = tk_read tk" and b: "tk' = bump tk" using pend by auto
    have "ws = []" using core_free(2)[OF core n] u by simp
    then show ?thesis using core_enter[of n tk pc t] core t enter b by (auto simp: effect_ok_def bump_def)
  qed
qed

lemma tk_run_inv:
  fixes s :: "'q::len word tk_system"
  assumes run: "tk_run sse favor n (t, a) s = Some s'" and inv: "tk_inv sse n m s" and n: "n < 2 ^ LENGTH('q)" and m: "sse \<or> m + 1 < 2 ^ LENGTH('q)"
  shows "tk_inv sse n (m + 1) s'"
proof -
  obtain p tk' where t: "t < n" and act: "tk_act sse favor a (tk_pcs s t) (tk_ticket s) = Some (p, tk')" and s': "s' = \<lparr>tk_ticket = tk', tk_pcs = (tk_pcs s)(t := p)\<rparr>"
    using run by (auto simp: tk_run_def split: if_splits option.splits)
  obtain ws where core: "tk_core n (tk_ticket s) (tk_pcs s) ws" and l: "sse \<or> unat (tk_users (tk_ticket s)) \<le> m \<and> length ws \<le> unat (tk_users (tk_ticket s))"
    and pend: "\<forall>t<n. pending_ok sse (tk_ticket s) (tk_pcs s t)" using inv by (auto simp: tk_inv_def)
  have "effect_ok sse n (tk_ticket s) ws (tk_pcs s) t p tk'"
  proof (cases a)
    case (T_call c)
    then show ?thesis using act by (intro call_keeps[OF core t, of c sse favor]) (auto split: if_splits)
  next
    case T_go
    then show ?thesis using act l pend t by (intro go_keeps[OF core n t]) auto
  qed
  then obtain ws' where w: "pending_ok sse tk' p" "tk_core n tk' ((tk_pcs s)(t := p)) ws'"
      "tk_users tk' = tk_users (tk_ticket s) \<and> length ws' \<le> length ws \<or> tk_users tk' = tk_users (tk_ticket s) + 1 \<and> length ws' \<le> length ws + 1"
    by (auto simp: effect_ok_def)
  have up: "sse \<or> unat (tk_users (tk_ticket s)) \<le> unat (tk_users tk') \<and> unat (tk_users tk') \<le> m + 1 \<and> length ws' \<le> unat (tk_users tk')"
  proof (cases sse)
    case False
    then have u: "unat (tk_users (tk_ticket s)) \<le> m" "length ws \<le> unat (tk_users (tk_ticket s))" "m + 1 < 2 ^ LENGTH('q)" using l m by auto
    then have "unat (tk_users (tk_ticket s) + 1) = unat (tk_users (tk_ticket s)) + 1" by (simp add: unat_word_ariths)
    then show ?thesis using w(3) u by auto
  qed simp
  have "pending_ok sse tk' (tk_pcs s t')" if "t' < n" for t'
    using pend that up by (cases "tk_pcs s t'") (auto intro: less_le_trans)
  then show ?thesis using w(1,2) up unfolding tk_inv_def by (auto simp: s')
qed

lemma tk_init_inv: "tk_inv sse n m (tk_init :: 'q::len word tk_system)"
  unfolding tk_inv_def by (intro conjI exI[of _ "[]"]) (auto simp: tk_init_def ticket_new_def tk_core_def readers_def)

interpretation tk: interleaving "tk_run sse favor n" "tk_steps sse favor n" for sse favor n
  by unfold_locales (auto simp: tk_steps_Nil intro: tk_more elim: tk_steps_ConsE)

lemma tk_steps_inv:
  fixes s :: "'q::len word tk_system"
  assumes "tk_steps sse favor n s xs s'" "tk_inv sse n m s" "n < 2 ^ LENGTH('q)" "sse \<or> m + length xs < 2 ^ LENGTH('q)"
  shows "tk_inv sse n (m + length xs) s'"
proof (rule tk.counted_invariant[where P = "tk_inv sse n", OF assms(1,2) order.refl])
  show "tk_inv sse n (Suc m') s2" if "tk_run sse favor n x s1 = Some s2" "tk_inv sse n m' s1" "m' < m + length xs" for x m' and s1 s2 :: "'q word tk_system"
    using tk_run_inv[of sse favor n "fst x" "snd x" s1 s2 m'] that assms(3,4) by auto
qed

lemma tk_excludes:
  assumes "tk_core n tk pc ws" "t < n" "tk_holds_write (pc t)"
  shows "\<forall>t'<n. t' \<noteq> t \<longrightarrow> pc t' \<noteq> T_reading \<and> \<not> tk_holds_write (pc t')"
proof -
  obtain ws' where ws: "ws = t # ws'" "readers n pc = 0" "\<forall>i < length ws'. \<exists>v. pc (ws' ! i) = T_waiting v" using core_head[OF assms] by metis
  have "\<not> tk_holds_write (pc t')" if ne: "t' < n" "t' \<noteq> t" for t'
  proof
    assume h: "tk_holds_write (pc t')"
    then have "in_line (pc t')" by (cases "pc t'") auto
    then have "t' \<in> set ws" using assms(1) ne by (auto simp: tk_core_def)
    then obtain i where "i < length ws'" "ws' ! i = t'" using ne ws(1) by (auto simp: in_set_conv_nth)
    then show False using ws(3) h by fastforce
  qed
  then show ?thesis using ws(2) readers_pos[of _ n pc] by fastforce
qed

section \<open>Waiting in line\<close>




section \<open>Every waiting thread can still get its lock\<close>

lemma tk_steps_one:
  assumes "t < n" "tk_act sse favor a (tk_pcs s t) (tk_ticket s) = Some (p, tk)"
  shows "tk_steps sse favor n s [(t, a)] \<lparr>tk_ticket = tk, tk_pcs = (tk_pcs s)(t := p)\<rparr>"
  by (rule tk.one) (simp add: assms tk_run_def)

text \<open>The actions with which the first in line, or a reader, leaves.\<close>

fun leave :: "'w tk_pc \<Rightarrow> tk_action list" where
  "leave T_reading = [T_call TC_unlock_shared]"
| "leave T_writing = [T_call TC_unlock, T_go]"
| "leave (T_unlocking q) = [T_go]"
| "leave (T_waiting v) = [T_go, T_call TC_unlock, T_go]"
| "leave _ = []"

lemma leave_steps:
  assumes "t < n" "tk_pcs s t = T_reading \<or> tk_holds_write (tk_pcs s t) \<or> tk_pcs s t = T_waiting (tk_write (tk_ticket s))"
  shows "\<exists>s'. tk_steps sse favor n s (map (Pair t) (leave (tk_pcs s t))) s' \<and> tk_pcs s' = (tk_pcs s)(t := T_idle)"
  using assms by (cases "tk_pcs s t") (auto simp: tk_run_def number_called_def intro!: exI tk_steps.intros)

definition busy :: "nat \<Rightarrow> (nat \<Rightarrow> 'w tk_pc) \<Rightarrow> nat" where
  "busy n pc = card {t. t < n \<and> (pc t = T_reading \<or> in_line (pc t))}"

lemma busy_leave:
  assumes "t < n" "pc t = T_reading \<or> in_line (pc t)"
  shows "busy n (pc(t := T_idle)) < busy n pc"
  unfolding busy_def by (rule psubset_card_mono) (use assms in auto)

lemma line_drained:
  fixes s :: "'q::len word tk_system"
  assumes inv: "tk_inv True n m s" and n: "n < 2 ^ LENGTH('q)" and t: "t < n" "tk_pcs s t \<noteq> T_reading" "\<not> tk_holds_write (tk_pcs s t)"
  shows "\<exists>xs s' ws. tk_steps True favor n s xs s' \<and> tk_pcs s' t = tk_pcs s t \<and> (\<forall>x \<in> set xs. fst x \<noteq> t)
    \<and> tk_core n (tk_ticket s') (tk_pcs s') ws \<and> readers n (tk_pcs s') = 0 \<and> (ws = [] \<or> hd ws = t)"
  using assms
proof (induction "busy n (tk_pcs s)" arbitrary: s m rule: less_induct)
  case less
  obtain ws where core: "tk_core n (tk_ticket s) (tk_pcs s) ws" using less.prems(1) by (auto simp: tk_inv_def)
  show ?case
  proof (cases "readers n (tk_pcs s) = 0 \<and> (ws = [] \<or> hd ws = t)")
    case True
    then show ?thesis using core by (intro exI[of _ "[]"] exI[of _ s] exI[of _ ws]) (simp add: tk_none)
  next
    case False
    have "\<exists>h. h < n \<and> h \<noteq> t \<and> (tk_pcs s h = T_reading \<or> tk_holds_write (tk_pcs s h) \<or> tk_pcs s h = T_waiting (tk_write (tk_ticket s)))"
    proof (cases "readers n (tk_pcs s) = 0")
      case True
      then have h: "ws \<noteq> []" "hd ws \<noteq> t" using False by auto
      have "line_ok (tk_ticket s) 0 0 (tk_pcs s (hd ws))" using core h(1) True by (auto simp: tk_core_def hd_conv_nth)
      moreover have "tk_read (tk_ticket s) = tk_write (tk_ticket s)" using core True by (simp add: tk_core_def)
      moreover have "hd ws < n" using core hd_in_set[OF h(1)] by (auto simp: tk_core_def)
      ultimately show ?thesis using h(2) by (intro exI[of _ "hd ws"]) (cases "tk_pcs s (hd ws)"; simp)
    next
      case False
      then have "{t. t < n \<and> tk_pcs s t = T_reading} \<noteq> {}" unfolding readers_def by (metis card.empty)
      then show ?thesis using less.prems(4) by blast
    qed
    then obtain h where h: "h < n" "h \<noteq> t" "tk_pcs s h = T_reading \<or> tk_holds_write (tk_pcs s h) \<or> tk_pcs s h = T_waiting (tk_write (tk_ticket s))" by blast
    obtain s1 where s1: "tk_steps True favor n s (map (Pair h) (leave (tk_pcs s h))) s1" "tk_pcs s1 = (tk_pcs s)(h := T_idle)"
      using leave_steps[OF h(1,3)] by blast
    have "tk_pcs s h = T_reading \<or> in_line (tk_pcs s h)" using h(3) by (cases "tk_pcs s h") auto
    then have b: "busy n (tk_pcs s1) < busy n (tk_pcs s)" unfolding s1(2) by (rule busy_leave[OF h(1)])
    have same: "tk_pcs s1 t = tk_pcs s t" using s1(2) h(2) by simp
    obtain xs s' ws' where r: "tk_steps True favor n s1 xs s'" "tk_pcs s' t = tk_pcs s1 t" "\<forall>x \<in> set xs. fst x \<noteq> t"
        "tk_core n (tk_ticket s') (tk_pcs s') ws'" "readers n (tk_pcs s') = 0" "ws' = [] \<or> hd ws' = t"
      using less.hyps[OF b tk_steps_inv[OF s1(1) less.prems(1) n] n] t(1) less.prems(4,5) same by auto
    show ?thesis using r(2-6) same h(2) tk.trans[OF s1(1) r(1)]
      by (intro exI[of _ "map (Pair h) (leave (tk_pcs s h)) @ xs"] exI[of _ s'] exI[of _ ws']) auto
  qed
qed

text \<open>The lock that a thread in one of the loops waits for.\<close>

fun tk_wants :: "'w tk_pc \<Rightarrow> 'w tk_pc option" where
  "tk_wants (T_try loop) = (if loop then Some T_writing else None)"
| "tk_wants (T_swap loop old) = (if loop then Some T_writing else None)"
| "tk_wants T_aggressive = Some T_writing"
| "tk_wants (T_waiting v) = Some T_writing"
| "tk_wants (T_try_shared loop) = (if loop then Some T_reading else None)"
| "tk_wants (T_swap_shared loop old new) = (if loop then Some T_reading else None)"
| "tk_wants _ = None"

lemma tk_wants_outside: "tk_wants p = Some q \<Longrightarrow> p \<noteq> T_reading \<and> \<not> tk_holds_write p"
  by (cases p) auto

text \<open>When the line is empty, or the thread is first, it gets the lock by itself.\<close>

lemma served_alone:
  fixes s :: "'q::len word tk_system"
  assumes core: "tk_core n (tk_ticket s) (tk_pcs s) ws" "readers n (tk_pcs s) = 0" "ws = [] \<or> hd ws = t" and t: "t < n"
    and w: "tk_wants (tk_pcs s t) = Some q"
  shows "\<exists>xs s'. tk_steps True favor n s xs s' \<and> tk_pcs s' t = q \<and> (\<forall>x \<in> set xs. x = (t, T_go))"
proof -
  let ?tk = "tk_ticket s"
  have e: "tk_read ?tk = tk_write ?tk" "tk_users ?tk = tk_read ?tk + of_nat (length ws)" using core by (simp_all add: tk_core_def)
  have out: "tk_users ?tk = tk_write ?tk" if "\<not> in_line (tk_pcs s t)"
  proof -
    have "t \<notin> set ws" using core(1) that by (auto simp: tk_core_def)
    then have "ws = []" using core(3) by (cases ws) auto
    then show ?thesis using e by simp
  qed
  have steps: "tk_steps True favor n s (replicate k (t, T_go)) s' \<Longrightarrow> tk_pcs s' t = q \<Longrightarrow> ?thesis" for k s'
    by (intro exI[of _ "replicate k (t, T_go)"] exI[of _ s']) auto
  note go = tk_run_def numeral_2_eq_2 numeral_3_eq_3 t
  note defs = try_lock_test_def try_lock_swap_def ticket_cas_def take_number_def number_called_def shared_compute_def addParallel_def Let_def
  show ?thesis
  proof (cases "tk_pcs s t")
    case (T_waiting v)
    then have "t \<in> set ws" using core(1) t by (simp add: tk_core_def)
    then have "ws \<noteq> []" "ws ! 0 = t" using core(3) by (cases ws; auto)+
    then have "line_ok ?tk 0 0 (T_waiting v)" using core(1,2) T_waiting unfolding tk_core_def by (metis length_greater_0_conv)
    then show ?thesis using w T_waiting e(1) by (intro steps[of 1]) (auto simp: go defs intro!: tk_steps.intros)
  next
    case T_aggressive
    then show ?thesis using w out by (intro steps[of 2]) (auto simp: go defs intro!: tk_steps.intros)
  next
    case (T_try loop)
    then show ?thesis using w out by (intro steps[of 2]) (auto simp: go defs split: if_splits intro!: tk_steps.intros)
  next
    case (T_try_shared loop)
    then show ?thesis using w out e(1) by (intro steps[of 2]) (auto simp: go defs split: if_splits intro!: tk_steps.intros)
  next
    case (T_swap loop old)
    show ?thesis
    proof (cases "?tk = old")
      case True
      then show ?thesis using w T_swap by (intro steps[of 1]) (auto simp: go defs split: if_splits intro!: tk_steps.intros)
    next
      case False
      then show ?thesis using w T_swap out by (intro steps[of 3]) (auto simp: go defs split: if_splits intro!: tk_steps.intros)
    qed
  next
    case (T_swap_shared loop old new)
    show ?thesis
    proof (cases "?tk = old")
      case True
      then show ?thesis using w T_swap_shared by (intro steps[of 1]) (auto simp: go defs split: if_splits intro!: tk_steps.intros)
    next
      case False
      then show ?thesis using w T_swap_shared out e(1) by (intro steps[of 3]) (auto simp: go defs split: if_splits intro!: tk_steps.intros)
    qed
  qed (use w in auto)
qed

section \<open>A lost lock\<close>

text \<open>A thread that locks and unlocks once moves the three quarters on by one.\<close>

definition tk_cycle :: "(nat \<times> tk_action) list" where
  "tk_cycle = [(0, T_call TC_try_lock), (0, T_go), (0, T_go), (0, T_call TC_unlock), (0, T_go)]"

abbreviation level :: "'q::len word \<Rightarrow> (nat \<Rightarrow> 'q word tk_pc) \<Rightarrow> 'q word tk_system" where
  "level k pc \<equiv> \<lparr>tk_ticket = \<lparr>tk_write = k, tk_read = k, tk_users = k\<rparr>, tk_pcs = pc\<rparr>"

lemmas tk_access_defs = try_lock_test_def try_lock_swap_def ticket_cas_def take_number_def number_called_def shared_compute_def addParallel_def
  unlock_compute_def unlock_store_def tk_unlock_shared_def tk_unlock_and_lock_shared_def Let_def

lemma tk_cycle_steps:
  assumes "pc 0 = T_idle" "0 < n"
  shows "tk_steps sse favor n (level k pc) tk_cycle (level (k + 1) pc)"
  unfolding tk_cycle_def
  by (rule tk_more, use assms in \<open>simp add: tk_run_def tk_access_defs\<close>)+ (use assms in \<open>auto simp: tk_run_def tk_access_defs fun_upd_idem intro: tk_none\<close>)

lemma tk_cycles:
  assumes "pc 0 = T_idle" "0 < n"
  shows "\<exists>xs. tk_steps sse favor n (level k pc) xs (level (k + of_nat j) pc)"
proof (induction j)
  case 0
  show ?case by (intro exI[of _ "[]"]) (simp add: tk_none)
next
  case (Suc j)
  then obtain xs where xs: "tk_steps sse favor n (level k pc) xs (level (k + of_nat j) pc)" by blast
  have "tk_steps sse favor n (level (k + of_nat j) pc) tk_cycle (level (k + of_nat (Suc j)) pc)"
    using tk_cycle_steps[of pc n sse favor "k + of_nat j"] assms by (simp add: ac_simps)
  then show ?case using tk.trans[OF xs] by blast
qed

text \<open>
  A reader loads the ticket while a writer holds the lock, and goes on when the numbers have come around: the swap succeeds, and counts one user too many.
\<close>

lemma lost_run:
  "\<exists>xs. tk_steps False favor 2 (tk_init :: 'q::len word tk_system) xs \<lparr>tk_ticket = \<lparr>tk_write = 1, tk_read = 1, tk_users = 2\<rparr>, tk_pcs = (\<lambda>_. T_idle)\<rparr>"
proof -
  let ?zero = "\<lparr>tk_write = 0, tk_read = 0, tk_users = 0\<rparr> :: 'q word ticket"
  let ?pc = "(\<lambda>_. T_idle)(1 := T_swap_shared False ?zero \<lparr>tk_write = 0, tk_read = 1, tk_users = 2\<rparr>) :: nat \<Rightarrow> 'q word tk_pc"
  have 1: "tk_steps False favor 2 (tk_init :: 'q word tk_system)
      [(0, T_call TC_try_lock), (0, T_go), (0, T_go), (1, T_call TC_try_lock_shared), (1, T_go), (0, T_call TC_unlock), (0, T_go)] (level 1 ?pc)"
    by (rule tk_more, simp add: tk_run_def tk_access_defs tk_init_def ticket_new_def)+ (auto simp: fun_upd_twist fun_upd_idem intro: tk_none)
  obtain xs where 2: "tk_steps False favor 2 (level 1 ?pc) xs (level (1 + of_nat (2 ^ LENGTH('q) - 1)) ?pc)" using tk_cycles[of ?pc 2 False favor 1 "2 ^ LENGTH('q) - 1"] by auto
  have z: "1 + of_nat (2 ^ LENGTH('q) - 1) = (0 :: 'q word)"
  proof -
    have "(of_nat (1 + (2 ^ LENGTH('q) - 1)) :: 'q word) = 0" by (simp add: word_of_nat_eq_0_iff del: of_nat_add)
    then show ?thesis by simp
  qed
  have 3: "tk_steps False favor 2 (level 0 ?pc) [(1, T_go), (1, T_call TC_unlock_shared)]
      \<lparr>tk_ticket = \<lparr>tk_write = 1, tk_read = 1, tk_users = 2\<rparr>, tk_pcs = (\<lambda>_. T_idle)\<rparr>"
    by (rule tk_more, simp add: tk_run_def tk_access_defs)+ (auto simp: fun_upd_idem intro: tk_none)
  show ?thesis using tk.trans[OF tk.trans[OF 1 2[unfolded z]] 3] by blast
qed

text \<open>From then on nobody gets the lock.\<close>

fun stuck_pc :: "'q::len word tk_pc \<Rightarrow> bool" where
  "stuck_pc (T_waiting v) \<longleftrightarrow> v \<noteq> 1"
| "stuck_pc (T_swap_shared loop old new) \<longleftrightarrow> tk_users old = tk_read old"
| "stuck_pc (T_swap loop old) \<longleftrightarrow> False"
| "stuck_pc T_writing \<longleftrightarrow> False"
| "stuck_pc (T_unlocking q) \<longleftrightarrow> False"
| "stuck_pc T_reading \<longleftrightarrow> False"
| "stuck_pc _ \<longleftrightarrow> True"

definition tk_stuck :: "'q::len word tk_system \<Rightarrow> bool" where
  "tk_stuck s \<longleftrightarrow> tk_write (tk_ticket s) = 1 \<and> tk_read (tk_ticket s) = 1
     \<and> tk_users (tk_ticket s) = 2 + of_nat (card {t. t < 2 \<and> in_line (tk_pcs s t)}) \<and> (\<forall>t<2. stuck_pc (tk_pcs s t))"

lemma stuck_act:
  fixes tk :: "'q::len word ticket"
  assumes act: "tk_act sse favor a p tk = Some (p', tk')" and p: "stuck_pc p"
    and tk: "tk_write tk = 1" "tk_read tk = 1" "tk_users tk \<noteq> 1"
  shows "stuck_pc p' \<and> (tk' = tk \<and> in_line p' = in_line p \<or> p = T_aggressive \<and> in_line p' \<and> tk' = tk\<lparr>tk_users := tk_users tk + 1\<rparr>)"
proof (cases a)
  case (T_call c)
  then show ?thesis using act p by (cases c) (auto split: if_splits)
next
  case T_go
  then have go: "tk_go sse p tk = Some (p', tk')" using act by simp
  show ?thesis using go p tk by (cases p) (auto simp: tk_access_defs split: if_splits)
qed

lemma stuck_run:
  fixes s :: "'q::len word tk_system"
  assumes run: "tk_run sse favor 2 (t, a) s = Some s'" and s: "tk_stuck s" and q: "3 \<le> LENGTH('q)"
  shows "tk_stuck s'"
proof -
  obtain p tk' where t: "t < 2" and act: "tk_act sse favor a (tk_pcs s t) (tk_ticket s) = Some (p, tk')" and s': "s' = \<lparr>tk_ticket = tk', tk_pcs = (tk_pcs s)(t := p)\<rparr>"
    using run by (auto simp: tk_run_def split: if_splits option.splits)
  let ?L = "{t. t < 2 \<and> in_line (tk_pcs s t)}"
  have "card ?L \<le> card {..<2::nat}" by (rule card_mono) auto
  then have small: "1 + card ?L < 2 ^ LENGTH('q)" using power_increasing[OF q, of "2::nat"] by simp
  have u: "tk_users (tk_ticket s) = 2 + of_nat (card ?L)" and f: "tk_write (tk_ticket s) = 1" "tk_read (tk_ticket s) = 1" and pcs: "\<forall>t<2. stuck_pc (tk_pcs s t)"
    using s by (simp_all add: tk_stuck_def)
  have "tk_users (tk_ticket s) - 1 = of_nat (1 + card ?L)" unfolding u by simp
  then have "tk_users (tk_ticket s) \<noteq> 1" using of_nat_small[OF small] by auto
  from stuck_act[OF act _ f this] pcs t have ok: "stuck_pc p"
      "tk' = tk_ticket s \<and> in_line p = in_line (tk_pcs s t) \<or> tk_pcs s t = T_aggressive \<and> in_line p \<and> tk' = (tk_ticket s)\<lparr>tk_users := tk_users (tk_ticket s) + 1\<rparr>"
    by auto
  from ok(2) show ?thesis
  proof
    assume e: "tk' = tk_ticket s \<and> in_line p = in_line (tk_pcs s t)"
    then have "{t'. t' < 2 \<and> in_line (((tk_pcs s)(t := p)) t')} = ?L" by auto
    then show ?thesis using e u f pcs ok(1) unfolding tk_stuck_def s' by simp
  next
    assume e: "tk_pcs s t = T_aggressive \<and> in_line p \<and> tk' = (tk_ticket s)\<lparr>tk_users := tk_users (tk_ticket s) + 1\<rparr>"
    then have "{t'. t' < 2 \<and> in_line (((tk_pcs s)(t := p)) t')} = insert t ?L" "t \<notin> ?L" using t by auto
    then show ?thesis using e u f pcs ok(1) unfolding tk_stuck_def s' by (simp add: ac_simps)
  qed
qed

lemma stuck_steps:
  fixes s :: "'q::len word tk_system"
  assumes "tk_steps sse favor 2 s xs s'" "tk_stuck s" "3 \<le> LENGTH('q)"
  shows "tk_stuck s'"
  by (rule tk.invariant[where P = tk_stuck, OF assms(1,2)]) (use stuck_run assms(3) in \<open>auto simp: split_paired_all\<close>)

text \<open>A run of two threads on the 32-bit lock: one writes, the other waits.\<close>

lemma tk_sample:
  "tk_steps sse True 2 (tk_init :: 8 word tk_system) [(0, T_call TC_lock), (0, T_go), (0, T_go), (1, T_call TC_lock), (1, T_go)]
     \<lparr>tk_ticket = \<lparr>tk_write = 0, tk_read = 0, tk_users = 2\<rparr>, tk_pcs = (\<lambda>_. T_idle)(0 := T_writing, 1 := T_waiting 1)\<rparr>"
  by (rule tk_more, simp add: tk_run_def tk_access_defs tk_init_def ticket_new_def)+ (auto intro: tk_none)

section \<open>Results\<close>

text \<open>
  C10. Mutual exclusion of the ticket lock: in every state that any interleaving of \<open>n < 2 ^ q\<close> threads reaches, \<open>q\<close> the number of bits of a quarter, with SSE or
  in a run of fewer than \<open>2 ^ q\<close> accesses, a thread that holds the write lock excludes every other holder, and modulo \<open>2 ^ q\<close> the difference of \<^verbatim>\<open>read\<close> and \<^verbatim>\<open>write\<close> is
  the number of readers, that of \<^verbatim>\<open>users\<close> and \<^verbatim>\<open>read\<close> the number of threads that write or wait in line.
\<close>

theorem tk_mutual_exclusion:
  fixes s :: "'q::len word tk_system"
  assumes "tk_steps sse favor n tk_init xs s" "n < 2 ^ LENGTH('q)" "sse \<or> length xs < 2 ^ LENGTH('q)"
  shows "(\<forall>t<n. tk_holds_write (tk_pcs s t) \<longrightarrow> (\<forall>t'<n. t' \<noteq> t \<longrightarrow> tk_pcs s t' \<noteq> T_reading \<and> \<not> tk_holds_write (tk_pcs s t')))
    \<and> tk_read (tk_ticket s) - tk_write (tk_ticket s) = of_nat (card {t. t < n \<and> tk_pcs s t = T_reading})
    \<and> tk_users (tk_ticket s) - tk_read (tk_ticket s) = of_nat (card {t. t < n \<and> in_line (tk_pcs s t)})"
proof -
  obtain ws where core: "tk_core n (tk_ticket s) (tk_pcs s) ws" using tk_steps_inv[OF assms(1) tk_init_inv[of _ _ 0] assms(2)] assms(3) by (auto simp: tk_inv_def)
  have "card {t. t < n \<and> in_line (tk_pcs s t)} = length ws" using core by (metis tk_core_def distinct_card)
  moreover have "tk_read (tk_ticket s) - tk_write (tk_ticket s) = of_nat (card {t. t < n \<and> tk_pcs s t = T_reading})"
      "tk_users (tk_ticket s) - tk_read (tk_ticket s) = of_nat (length ws)" using core by (simp_all add: tk_core_def readers_def)
  ultimately show ?thesis using tk_excludes[OF core] by simp
qed

theorem tk_mutual_exclusion_witness:
  "\<exists>s :: 8 word tk_system. tk_steps False True 2 tk_init [(0, T_call TC_lock), (0, T_go), (0, T_go), (1, T_call TC_lock), (1, T_go)] s
    \<and> tk_holds_write (tk_pcs s 0) \<and> tk_pcs s 1 \<noteq> T_reading \<and> \<not> tk_holds_write (tk_pcs s 1)"
proof -
  let ?s = "\<lparr>tk_ticket = \<lparr>tk_write = 0, tk_read = 0, tk_users = 2\<rparr>, tk_pcs = (\<lambda>_. T_idle)(0 := T_writing, 1 := T_waiting 1)\<rparr> :: 8 word tk_system"
  have "tk_holds_write (tk_pcs ?s 0) \<longrightarrow> (\<forall>t'<2. t' \<noteq> 0 \<longrightarrow> tk_pcs ?s t' \<noteq> T_reading \<and> \<not> tk_holds_write (tk_pcs ?s t'))"
    using tk_mutual_exclusion[OF tk_sample] by simp
  then show ?thesis using tk_sample by (intro exI[of _ ?s]) simp
qed



text \<open>
  C25. No deadlock, with SSE: in every state that any interleaving of \<open>n < 2 ^ q\<close> threads reaches, a thread that waits for the write or the shared lock gets it by
  going on with its loop, once the other threads have released their locks, those before it in line included; they can do so without it moving.
\<close>

theorem tk_waiting_thread_served:
  fixes s :: "'q::len word tk_system"
  assumes "tk_steps True favor n tk_init xs s" "n < 2 ^ LENGTH('q)" "t < n" "tk_wants (tk_pcs s t) = Some p"
  shows "\<exists>ys s'. tk_steps True favor n s ys s' \<and> tk_pcs s' t = p \<and> (\<forall>x \<in> set ys. fst x = t \<longrightarrow> snd x = T_go)"
proof -
  have inv: "tk_inv True n (0 + length xs) s" by (rule tk_steps_inv[OF assms(1) tk_init_inv assms(2)]) simp
  note out = tk_wants_outside[OF assms(4)]
  obtain ys s1 ws where s1: "tk_steps True favor n s ys s1" "tk_pcs s1 t = tk_pcs s t" "\<forall>x \<in> set ys. fst x \<noteq> t"
      "tk_core n (tk_ticket s1) (tk_pcs s1) ws" "readers n (tk_pcs s1) = 0" "ws = [] \<or> hd ws = t"
    using line_drained[OF inv assms(2,3)] out by blast
  obtain zs s2 where s2: "tk_steps True favor n s1 zs s2" "tk_pcs s2 t = p" "\<forall>x \<in> set zs. x = (t, T_go)"
    using served_alone[OF s1(4-6) assms(3)] s1(2) assms(4) by metis
  show ?thesis using tk.trans[OF s1(1) s2(1)] s2(2,3) s1(3) by (intro exI[of _ "ys @ zs"] exI[of _ s2]) auto
qed

theorem tk_waiting_thread_served_witness:
  "\<exists>s :: 8 word tk_system. tk_steps True True 2 tk_init [(0, T_call TC_lock), (0, T_go), (0, T_go), (1, T_call TC_lock), (1, T_go)] s
    \<and> tk_pcs s 0 = T_writing \<and> (\<exists>ys s'. tk_steps True True 2 s ys s' \<and> tk_pcs s' 1 = T_writing)"
proof -
  let ?s = "\<lparr>tk_ticket = \<lparr>tk_write = 0, tk_read = 0, tk_users = 2\<rparr>, tk_pcs = (\<lambda>_. T_idle)(0 := T_writing, 1 := T_waiting 1)\<rparr> :: 8 word tk_system"
  have "\<exists>ys s'. tk_steps True True 2 ?s ys s' \<and> tk_pcs s' 1 = T_writing" using tk_waiting_thread_served[OF tk_sample, where t = 1 and p = T_writing] by auto
  then show ?thesis using tk_sample by (intro exI[of _ ?s]) simp
qed

text \<open>
  C35. Without SSE, \<^verbatim>\<open>try_lock_shared\<close> can break the lock: it computes the new number of users from the loaded ticket and not from the expected one, so that a reader that
  loads the ticket while another thread writes, and swaps when the numbers have come around, counts a user who is not there.  Two threads suffice: there
  is a run after which both are outside of the lock, and in no continuation does either of them get the shared or the write lock.
\<close>

theorem tk_lock_lost:
  assumes "3 \<le> LENGTH('q::len)"
  shows "\<exists>xs (s :: 'q word tk_system). tk_steps False favor 2 tk_init xs s \<and> (\<forall>t. tk_pcs s t = T_idle)
    \<and> (\<forall>ys s' t. tk_steps False favor 2 s ys s' \<longrightarrow> t < 2 \<longrightarrow> tk_pcs s' t \<noteq> T_reading \<and> tk_pcs s' t \<noteq> T_writing)"
proof -
  let ?s = "\<lparr>tk_ticket = \<lparr>tk_write = 1, tk_read = 1, tk_users = 2\<rparr>, tk_pcs = (\<lambda>_. T_idle)\<rparr> :: 'q word tk_system"
  obtain xs where xs: "tk_steps False favor 2 tk_init xs ?s" using lost_run by blast
  have st: "tk_stuck ?s" by (simp add: tk_stuck_def)
  have "tk_pcs s' t \<noteq> T_reading \<and> tk_pcs s' t \<noteq> T_writing" if "tk_steps False favor 2 ?s ys s'" "t < 2" for ys s' t
  proof -
    have "stuck_pc (tk_pcs s' t)" using stuck_steps[OF that(1) st assms] that(2) by (simp add: tk_stuck_def)
    then show ?thesis by auto
  qed
  then show ?thesis using xs by (intro exI[of _ xs] exI[of _ ?s]) simp
qed

theorem tk_lock_lost_witness:
  "\<exists>xs (s :: 8 word tk_system). tk_steps False False 2 tk_init xs s \<and> (\<forall>t. tk_pcs s t = T_idle)
    \<and> (\<forall>ys s' t. tk_steps False False 2 s ys s' \<longrightarrow> t < 2 \<longrightarrow> tk_pcs s' t \<noteq> T_reading \<and> tk_pcs s' t \<noteq> T_writing)"
  by (rule tk_lock_lost) simp

end
