(* ===== verification/Unicode.thy ===== *)
theory Unicode
  imports Prelude
begin

text \<open>
  \<^verbatim>\<open>folly/Unicode.cpp\<close>: one code point to UTF-8 and back.

  \<^item> A \<^verbatim>\<open>char\<close> is a byte, a \<^verbatim>\<open>char32_t\<close> a 32-bit word; the range from \<^verbatim>\<open>p\<close> to \<^verbatim>\<open>e\<close> is the list of its bytes.
  \<^item> The decoder returns the code point and how far it moved \<^verbatim>\<open>p\<close>; a \<^verbatim>\<open>std::runtime_error\<close> is a value of \<open>utf8_error\<close> with the numbers
    of its message.
\<close>

unbundle bit_operations_syntax

definition codePointToUtf8 :: "32 word \<Rightarrow> 8 word list" where
  "codePointToUtf8 cp =
     (if cp \<le> 0x7f then [ucast cp]
      else if cp \<le> 0x7FF then [ucast (0xC0 OR drop_bit 6 cp), ucast (0x80 OR (0x3f AND cp))]
      else if cp \<le> 0xFFFF then
        [0xE0 OR ucast (drop_bit 12 cp), 0x80 OR ucast (0x3f AND drop_bit 6 cp), ucast (0x80 OR (0x3f AND cp))]
      else if cp \<le> 0x10FFFF then
        [ucast (0xF0 OR drop_bit 18 cp), ucast (0x80 OR (0x3f AND drop_bit 12 cp)),
         ucast (0x80 OR (0x3f AND drop_bit 6 cp)), ucast (0x80 OR (0x3f AND cp))]
      else [])"

datatype utf8_error =
    Empty_string
  | Bad_lead "32 word"
  | Bad_continuation nat "8 word"
  | Overlong nat "32 word"
  | Surrogate nat "32 word"
  | Maxed_out

type_synonym decoded = "utf8_error + 32 word \<times> nat"

text \<open>An error: the replacement character for one byte, or the exception.\<close>

definition utf8_fail :: "bool \<Rightarrow> utf8_error \<Rightarrow> decoded" where
  "utf8_fail skipOnError err = (if skipOnError then Inr (0xFFFD, 1) else Inl err)"

definition bitMask :: "32 word list" where
  "bitMask = [2 ^ 7 - 1, 2 ^ 11 - 1, 2 ^ 16 - 1, 2 ^ 21 - 1]"

text \<open>The loop: the second argument is the number of iterations that are left, so that \<open>i\<close> ends at 4.\<close>

fun utf8_loop :: "bool \<Rightarrow> nat \<Rightarrow> nat \<Rightarrow> 8 word list \<Rightarrow> 32 word \<Rightarrow> 8 word \<Rightarrow> decoded" where
  "utf8_loop skipOnError 0 i s d lead = utf8_fail skipOnError Maxed_out"
| "utf8_loop skipOnError (Suc n) i s d lead =
     (if i < length s
      then let tmp = s ! i in
           if tmp AND 0xC0 \<noteq> 0x80 then utf8_fail skipOnError (Bad_continuation i tmp)
           else let d = push_bit 6 d OR ucast (tmp AND 0x3F);
                    lead = push_bit 1 lead
                in if lead AND 0x80 = 0
                   then let d = d AND bitMask ! i in
                        if d AND NOT (bitMask ! (i - 1)) = 0 then utf8_fail skipOnError (Overlong i d)
                        else if i = 2 \<and> (d \<ge> 0xD800 \<and> d \<le> 0xDFFF \<or> d > 0x10FFFF) then utf8_fail skipOnError (Surrogate i d)
                        else Inr (d, i + 1)
                   else utf8_loop skipOnError n (i + 1) s d lead
      else utf8_fail skipOnError Maxed_out)"

definition utf8ToCodePoint :: "8 word list \<Rightarrow> bool \<Rightarrow> decoded" where
  "utf8ToCodePoint s skipOnError =
     (if s = [] then utf8_fail skipOnError Empty_string
      else let lead = s ! 0 in
           if lead AND 0x80 = 0 then Inr (ucast lead, 1)
           else let d = ucast lead in
                if lead AND 0xC0 \<noteq> 0xC0 then utf8_fail skipOnError (Bad_lead d)
                else utf8_loop skipOnError 3 1 s d (push_bit 1 lead))"

end
