(* ===== verification/Unicode_Correct.thy ===== *)
theory Unicode_Correct
  imports Unicode Word_Fields
begin

text \<open>
  Correctness of the UTF-8 coder, against the encoding written with quotients and remainders: what is decoded, what is refused, the
  round trip, and the code points beyond Unicode that are let through.
\<close>

unbundle bit_operations_syntax

section \<open>Bits as arithmetic\<close>

lemma byte_less: "unat b < 256" for b :: "8 word"
  using unsigned_less[of b] by simp

lemma byte_tests:
  fixes b :: "8 word"
  shows "b AND 0x80 = 0 \<longleftrightarrow> unat b < 128" "b AND 0xC0 = 0xC0 \<longleftrightarrow> 192 \<le> unat b" "b AND 0xC0 = 0x80 \<longleftrightarrow> 128 \<le> unat b \<and> unat b < 192"
    "unat (b AND 0x3F) = unat b mod 64"
proof -
  have m: "(0x80 :: 8 word) = push_bit 7 (mask 1)" "(0xC0 :: 8 word) = push_bit 6 (mask 2)" "(0x3F :: 8 word) = mask 6"
    by (simp_all add: mask_eq_exp_minus_1 push_bit_eq_mult)
  have b: "unat b < 256" by (rule byte_less)
  have "b AND 0x80 = 0 \<longleftrightarrow> unat b div 128 mod 2 = 0" unfolding m using field_zero_iff[of 7 1 b] by simp
  moreover have "unat b div 128 < 2" using b by (simp add: div_less_iff_less_mult)
  ultimately show "b AND 0x80 = 0 \<longleftrightarrow> unat b < 128" by (simp add: div_eq_0_iff)
  have q: "unat b div 64 < 4" using b by (simp add: div_less_iff_less_mult)
  have u: "unat (b AND 0xC0) = unat b div 64 * 64" unfolding m using unat_field[of 6 2 b] q by simp
  have "b AND 0xC0 = 0xC0 \<longleftrightarrow> unat b div 64 * 64 = 192" "b AND 0xC0 = 0x80 \<longleftrightarrow> unat b div 64 * 64 = 128"
    unfolding u[symmetric] by (simp_all add: word_unat_eq_iff)
  then show "b AND 0xC0 = 0xC0 \<longleftrightarrow> 192 \<le> unat b" "b AND 0xC0 = 0x80 \<longleftrightarrow> 128 \<le> unat b \<and> unat b < 192" using b by auto
  show "unat (b AND 0x3F) = unat b mod 64" unfolding m using unat_low[of b 6] by simp
qed

lemma unat_widen: "unat (ucast b :: 32 word) = unat b" for b :: "8 word"
  by (simp add: unsigned_ucast_eq take_bit_eq_mod less_trans[OF byte_less])

lemma shifted_lead: "unat (push_bit i b) = unat b * 2 ^ i mod 256" for b :: "8 word"
  by (simp only: unsigned_push_bit_eq take_bit_eq_mod[where 'a = nat] push_bit_eq_mult[where 'a = nat]) simp

lemma next_group:
  fixes d :: "32 word" and b :: "8 word"
  assumes "unat d < 2 ^ 26"
  shows "unat (push_bit 6 d OR ucast (b AND 0x3F)) = unat d * 64 + unat b mod 64"
  using or_below[of "ucast (b AND 0x3F) :: 32 word" 6 d] assms by (simp add: unat_widen byte_tests(4))

lemma bitMask_spec: "bitMask = [mask 7, mask 11, mask 16, mask 21]"
  by (simp add: bitMask_def mask_eq_exp_minus_1)

lemma upper_bits_zero: "d AND NOT (mask n) = 0 \<longleftrightarrow> unat d < 2 ^ n" for d :: "32 word"
proof -
  have "take_bit n d AND (d AND NOT (mask n)) = 0" by (rule bit_eqI) (auto simp: bit_simps)
  from disjunctive_add_eq_or[OF this] have "take_bit n d + (d AND NOT (mask n)) = take_bit n d OR (d AND NOT (mask n))" .
  also have "\<dots> = d" by (rule bit_eqI) (auto simp: bit_simps dest: bit_imp_le_length)
  finally have "d AND NOT (mask n) = 0 \<longleftrightarrow> take_bit n d = d" by (metis add.right_neutral add_left_cancel)
  also have "\<dots> \<longleftrightarrow> unat d mod 2 ^ n = unat d" by (simp only: word_unat_eq_iff unsigned_take_bit_eq take_bit_eq_mod[where 'a = nat])
  also have "\<dots> \<longleftrightarrow> unat d < 2 ^ n" by (metis mod_less mod_less_divisor zero_less_numeral zero_less_power)
  finally show ?thesis .
qed

lemma mod_split: "x < m \<Longrightarrow> n = m * k + x \<Longrightarrow> n mod m = x" for x m n k :: nat
  by simp

section \<open>What is decoded\<close>

abbreviation cont :: "8 word \<Rightarrow> bool" where
  "cont b \<equiv> 128 \<le> unat b \<and> unat b < 192"

lemma cont_group: "unat b = 128 + g \<Longrightarrow> g < 64 \<Longrightarrow> cont b \<and> unat b mod 64 = g"
  using mod_split[of g 64 "unat b" 2] by simp

lemma masked:
  fixes w :: "32 word"
  assumes "unat w = 2 ^ k * q + v" "v < 2 ^ k"
  shows "w AND mask k = word_of_nat v" "unat (w AND mask k) = v"
proof -
  show u: "unat (w AND mask k) = v" unfolding unat_low by (rule mod_split[OF assms(2,1)])
  have "word_of_nat (unat (w AND mask k)) = w AND mask k" by simp
  then show "w AND mask k = word_of_nat v" unfolding u by simp
qed

lemma lead_shifts:
  fixes a :: "8 word"
  shows "unat a = 192 + g \<Longrightarrow> g < 32 \<Longrightarrow> push_bit 2 a AND 0x80 = 0"
    "unat a = 224 + g \<Longrightarrow> g < 32 \<Longrightarrow> push_bit 2 a AND 0x80 \<noteq> 0" "unat a = 224 + g \<Longrightarrow> g < 16 \<Longrightarrow> push_bit 3 a AND 0x80 = 0"
    "unat a = 240 + g \<Longrightarrow> g < 16 \<Longrightarrow> push_bit 3 a AND 0x80 \<noteq> 0" "unat a = 240 + g \<Longrightarrow> g < 8 \<Longrightarrow> push_bit 4 a AND 0x80 = 0"
    "unat a = 248 + g \<Longrightarrow> g < 8 \<Longrightarrow> push_bit 4 a AND 0x80 \<noteq> 0"
  unfolding byte_tests(1) shifted_lead
  using mod_split[of "4 * g" 256 "(192 + g) * 4" 3] mod_split[of "128 + 4 * g" 256 "(224 + g) * 4" 3] mod_split[of "8 * g" 256 "(224 + g) * 8" 7]
    mod_split[of "128 + 8 * g" 256 "(240 + g) * 8" 7] mod_split[of "16 * g" 256 "(240 + g) * 16" 15] mod_split[of "128 + 16 * g" 256 "(248 + g) * 16" 15]
  by auto

text \<open>One more group of six bits, and the checks behind the last one.\<close>

definition grp :: "32 word \<Rightarrow> 8 word \<Rightarrow> 32 word" where
  "grp d b = push_bit 6 d OR ucast (b AND 0x3F)"

definition finish :: "bool \<Rightarrow> nat \<Rightarrow> 32 word \<Rightarrow> decoded" where
  "finish skip i d =
     (if unat d < 2 ^ [7, 11, 16, 21] ! (i - 1) then utf8_fail skip (Overlong i d)
      else if i = 2 \<and> 0xD800 \<le> unat d \<and> unat d \<le> 0xDFFF then utf8_fail skip (Surrogate i d)
      else Inr (d, i + 1))"

lemma grp_value: "unat d < 2 ^ 26 \<Longrightarrow> unat b = 128 + g \<Longrightarrow> g < 64 \<Longrightarrow> unat (grp d b) = unat d * 64 + g"
  using next_group[of d b] cont_group[of b g] by (simp add: grp_def)

lemma loop_step:
  assumes i: "i \<in> {1, 2, 3}" "i < length s"
  shows "utf8_loop skip (Suc n) i s d (push_bit i a) =
     (if \<not> cont (s ! i) then utf8_fail skip (Bad_continuation i (s ! i))
      else if push_bit (Suc i) a AND 0x80 = 0 then finish skip i (grp d (s ! i) AND mask ([7, 11, 16, 21] ! i))
      else utf8_loop skip n (Suc i) s (grp d (s ! i)) (push_bit (Suc i) a))"
proof -
  have m: "bitMask ! i = mask ([7, 11, 16, 21] ! i)" "bitMask ! (i - 1) = mask ([7, 11, 16, 21] ! (i - 1))" using i(1) by (auto simp: bitMask_spec)
  have top: "i = 2 \<Longrightarrow> unat (grp d (s ! i) AND mask ([7, 11, 16, 21] ! i)) < 2 ^ 16" unfolding unat_low by simp
  have le: "(x \<ge> 0xD800 \<and> x \<le> 0xDFFF \<or> x > 0x10FFFF) \<longleftrightarrow> 0xD800 \<le> unat x \<and> unat x \<le> 0xDFFF" if "unat x < 2 ^ 16" for x :: "32 word"
    using that by (auto simp: word_le_nat_alt word_less_nat_alt)
  have sh: "push_bit 1 (push_bit i a) = push_bit (Suc i) a" by simp
  have f: "finish skip i x = (if x AND NOT (bitMask ! (i - 1)) = 0 then utf8_fail skip (Overlong i x)
      else if i = 2 \<and> (x \<ge> 0xD800 \<and> x \<le> 0xDFFF \<or> x > 0x10FFFF) then utf8_fail skip (Surrogate i x) else Inr (x, i + 1))"
    if "i = 2 \<Longrightarrow> unat x < 2 ^ 16" for x
    unfolding finish_def m upper_bits_zero using le[of x] that by (cases "i = 2") auto
  show ?thesis using i(2) f[OF top] unfolding utf8_loop.simps Let_def grp_def[symmetric] sh m(1) byte_tests(3)
    by (simp only: if_True Suc_eq_plus1 not_not if_not_P split: if_splits)
qed

lemma loop_end: "length s \<le> i \<Longrightarrow> utf8_loop skip n i s d l = utf8_fail skip Maxed_out"
  by (cases n) simp_all

lemma decode_lead: "192 \<le> unat a \<Longrightarrow> utf8ToCodePoint (a # r) skip = utf8_loop skip (Suc (Suc (Suc 0))) 1 (a # r) (ucast a) (push_bit 1 a)"
  unfolding utf8ToCodePoint_def Let_def byte_tests(1,2) by (simp only: numeral_3_eq_3) simp

lemma decode_two:
  assumes "unat a = 192 + g0" "g0 < 32" "unat b = 128 + g1" "g1 < 64"
  shows "utf8ToCodePoint (a # b # r) skip = finish skip 1 (word_of_nat (g0 * 64 + g1))"
proof -
  have "unat (grp (ucast a) b) = 2 ^ 11 * 6 + (g0 * 64 + g1)" using grp_value[of "ucast a" b g1] assms by (simp add: unat_widen)
  note m = masked(1)[OF this]
  have "192 \<le> unat a" using assms(1) by simp
  then have "utf8ToCodePoint (a # b # r) skip = utf8_loop skip (Suc (Suc (Suc 0))) 1 (a # b # r) (ucast a) (push_bit 1 a)" by (rule decode_lead)
  also have "\<dots> = finish skip 1 (grp (ucast a) b AND mask 11)"
    using loop_step[of 1 "a # b # r" skip "Suc (Suc 0)" "ucast a" a] cont_group[OF assms(3,4)] lead_shifts(1)[OF assms(1,2)] by (simp add: numeral_2_eq_2 del: utf8_loop.simps)
  finally show ?thesis using m assms(2,4) by simp
qed

lemma decode_three:
  assumes "unat a = 224 + g0" "g0 < 16" "unat b = 128 + g1" "g1 < 64" "unat c = 128 + g2" "g2 < 64"
  shows "utf8ToCodePoint (a # b # c # r) skip = finish skip 2 (word_of_nat (g0 * 4096 + g1 * 64 + g2))"
proof -
  have v1: "unat (grp (ucast a) b) = (224 + g0) * 64 + g1" using grp_value[of "ucast a" b g1] assms by (simp add: unat_widen)
  have "unat (grp (grp (ucast a) b) c) = 2 ^ 16 * 14 + (g0 * 4096 + g1 * 64 + g2)" using grp_value[of "grp (ucast a) b" c g2] assms v1 by simp
  note m = masked(1)[OF this]
  have "192 \<le> unat a" using assms(1) by simp
  then have "utf8ToCodePoint (a # b # c # r) skip = utf8_loop skip (Suc (Suc (Suc 0))) 1 (a # b # c # r) (ucast a) (push_bit 1 a)" by (rule decode_lead)
  also have "\<dots> = utf8_loop skip (Suc (Suc 0)) 2 (a # b # c # r) (grp (ucast a) b) (push_bit 2 a)"
    using loop_step[of 1 "a # b # c # r" skip "Suc (Suc 0)" "ucast a" a] cont_group[OF assms(3,4)] lead_shifts(2)[OF assms(1)] assms(2) by (simp add: numeral_2_eq_2 del: utf8_loop.simps)
  also have "\<dots> = finish skip 2 (grp (grp (ucast a) b) c AND mask 16)"
    using loop_step[of 2 "a # b # c # r" skip "Suc 0" "grp (ucast a) b" a] cont_group[OF assms(5,6)] lead_shifts(3)[OF assms(1,2)] by (simp del: utf8_loop.simps)
  finally show ?thesis using m assms(2,4,6) by simp
qed

lemma decode_four:
  assumes "unat a = 240 + g0" "g0 < 8" "unat b = 128 + g1" "g1 < 64" "unat c = 128 + g2" "g2 < 64" "unat e = 128 + g3" "g3 < 64"
  shows "utf8ToCodePoint (a # b # c # e # r) skip = finish skip 3 (word_of_nat (g0 * 262144 + g1 * 4096 + g2 * 64 + g3))"
proof -
  let ?s = "a # b # c # e # r"
  have v1: "unat (grp (ucast a) b) = (240 + g0) * 64 + g1" using grp_value[of "ucast a" b g1] assms by (simp add: unat_widen)
  have v2: "unat (grp (grp (ucast a) b) c) = (240 + g0) * 4096 + g1 * 64 + g2" using grp_value[of "grp (ucast a) b" c g2] assms v1 by simp
  have "unat (grp (grp (grp (ucast a) b) c) e) = 2 ^ 21 * 30 + (g0 * 262144 + g1 * 4096 + g2 * 64 + g3)" using grp_value[of "grp (grp (ucast a) b) c" e g3] assms v2 by simp
  note m = masked(1)[OF this]
  have "192 \<le> unat a" using assms(1) by simp
  then have "utf8ToCodePoint ?s skip = utf8_loop skip (Suc (Suc (Suc 0))) 1 ?s (ucast a) (push_bit 1 a)" by (rule decode_lead)
  also have "\<dots> = utf8_loop skip (Suc (Suc 0)) 2 ?s (grp (ucast a) b) (push_bit 2 a)"
    using loop_step[of 1 ?s skip "Suc (Suc 0)" "ucast a" a] cont_group[OF assms(3,4)] lead_shifts(2)[of a "16 + g0"] assms(1,2) by (simp add: numeral_2_eq_2 del: utf8_loop.simps)
  also have "\<dots> = utf8_loop skip (Suc 0) 3 ?s (grp (grp (ucast a) b) c) (push_bit 3 a)"
    using loop_step[of 2 ?s skip "Suc 0" "grp (ucast a) b" a] cont_group[OF assms(5,6)] lead_shifts(4)[OF assms(1)] assms(2) by (simp del: utf8_loop.simps)
  also have "\<dots> = finish skip 3 (grp (grp (grp (ucast a) b) c) e AND mask 21)"
    using loop_step[of 3 ?s skip 0 "grp (grp (ucast a) b) c" a] cont_group[OF assms(7,8)] lead_shifts(5)[OF assms(1,2)] by (simp del: utf8_loop.simps)
  finally show ?thesis using m assms(2,4,6,8) by simp
qed

section \<open>The encoding\<close>

text \<open>The bytes of a number below \<open>2 ^ 21\<close>, in the shortest of the four forms.\<close>

definition utf8_bytes :: "nat \<Rightarrow> nat list" where
  "utf8_bytes n =
     (if n < 0x80 then [n]
      else if n < 0x800 then [192 + n div 64, 128 + n mod 64]
      else if n < 0x10000 then [224 + n div 4096, 128 + n div 64 mod 64, 128 + n mod 64]
      else [240 + n div 262144, 128 + n div 4096 mod 64, 128 + n div 64 mod 64, 128 + n mod 64])"

definition surrogate :: "nat \<Rightarrow> bool" where
  "surrogate n \<longleftrightarrow> 0xD800 \<le> n \<and> n \<le> 0xDFFF"

lemma digits64:
  fixes g0 g1 g2 g3 :: nat
  assumes "g1 < 64" "g2 < 64" "g3 < 64"
  shows "(g0 * 64 + g1) div 64 = g0" "(g0 * 64 + g1) mod 64 = g1"
    "(g0 * 4096 + g1 * 64 + g2) div 4096 = g0" "(g0 * 4096 + g1 * 64 + g2) div 64 mod 64 = g1" "(g0 * 4096 + g1 * 64 + g2) mod 64 = g2"
    "(g0 * 262144 + g1 * 4096 + g2 * 64 + g3) div 262144 = g0" "(g0 * 262144 + g1 * 4096 + g2 * 64 + g3) div 4096 mod 64 = g1"
    "(g0 * 262144 + g1 * 4096 + g2 * 64 + g3) div 64 mod 64 = g2" "(g0 * 262144 + g1 * 4096 + g2 * 64 + g3) mod 64 = g3"
proof -
  have q: "(x * 64 + y) div 64 = x" "(x * 64 + y) mod 64 = y" if "y < 64" for x y :: nat using that by simp_all
  have e: "g0 * 4096 + g1 * 64 + g2 = (g0 * 64 + g1) * 64 + g2" "g0 * 262144 + g1 * 4096 + g2 * 64 + g3 = ((g0 * 64 + g1) * 64 + g2) * 64 + g3" by simp_all
  have d: "n div 4096 = n div 64 div 64" "n div 262144 = n div 64 div 64 div 64" for n :: nat by (simp_all flip: div_mult2_eq)
  show "(g0 * 64 + g1) div 64 = g0" "(g0 * 64 + g1) mod 64 = g1"
    "(g0 * 4096 + g1 * 64 + g2) div 4096 = g0" "(g0 * 4096 + g1 * 64 + g2) div 64 mod 64 = g1" "(g0 * 4096 + g1 * 64 + g2) mod 64 = g2"
    "(g0 * 262144 + g1 * 4096 + g2 * 64 + g3) div 262144 = g0" "(g0 * 262144 + g1 * 4096 + g2 * 64 + g3) div 4096 mod 64 = g1"
    "(g0 * 262144 + g1 * 4096 + g2 * 64 + g3) div 64 mod 64 = g2" "(g0 * 262144 + g1 * 4096 + g2 * 64 + g3) mod 64 = g3"
    unfolding e d using assms by (simp_all only: q)
qed

lemma unat_word32: "n < 2 ^ 32 \<Longrightarrow> unat (word_of_nat n :: 32 word) = n"
  by (simp add: unat_of_nat take_bit_eq_mod)

lemma finish_Inr: "finish False i w = Inr (d, n) \<longleftrightarrow> d = w \<and> n = i + 1 \<and> 2 ^ [7, 11, 16, 21] ! (i - 1) \<le> unat w \<and> (i = 2 \<longrightarrow> \<not> surrogate (unat w))"
  by (auto simp: finish_def utf8_fail_def surrogate_def)

lemma loop_Inr:
  assumes "utf8_loop False (Suc n) i s d (push_bit i a) = Inr x" "i \<in> {1, 2, 3}"
  shows "i < length s" "cont (s ! i)" "push_bit (Suc i) a AND 0x80 \<noteq> 0 \<Longrightarrow> utf8_loop False n (Suc i) s (grp d (s ! i)) (push_bit (Suc i) a) = Inr x"
proof -
  show l: "i < length s" using assms(1) loop_end[of s i] by (cases "i < length s") (auto simp: utf8_fail_def simp del: utf8_loop.simps)
  note st = loop_step[OF assms(2) l, of False n d a]
  show "cont (s ! i)" using assms(1) unfolding st by (auto simp: utf8_fail_def split: if_splits)
  then show "push_bit (Suc i) a AND 0x80 \<noteq> 0 \<Longrightarrow> utf8_loop False n (Suc i) s (grp d (s ! i)) (push_bit (Suc i) a) = Inr x"
    using assms(1) unfolding st by (simp del: utf8_loop.simps)
qed

lemma cont_obtain: assumes "cont b" obtains g where "unat b = 128 + g" "g < 64"
  using assms that[of "unat b - 128"] by auto

lemma decode_sound:
  assumes "utf8ToCodePoint s False = Inr (cp, n)"
  shows "unat cp < 2 ^ 21 \<and> \<not> surrogate (unat cp) \<and> n = length (utf8_bytes (unat cp)) \<and> map unat (take n s) = utf8_bytes (unat cp)"
proof -
  obtain a r where s: "s = a # r" using assms by (cases s) (auto simp: utf8ToCodePoint_def utf8_fail_def)
  consider (one) "unat a < 128" | (bad) "128 \<le> unat a" "unat a < 192" | (lead) "192 \<le> unat a" by linarith
  then show ?thesis
  proof cases
    case one
    then show ?thesis using assms by (auto simp: s utf8ToCodePoint_def byte_tests unat_widen utf8_bytes_def surrogate_def)
  next
    case bad
    then show ?thesis using assms by (simp add: s utf8ToCodePoint_def byte_tests utf8_fail_def Let_def)
  next
    case lead
    note l1 = loop_Inr[OF assms[unfolded s decode_lead[OF lead]]]
    obtain b r1 where r: "r = b # r1" using l1(1) by (cases r) auto
    have "cont b" using l1(2) by (simp add: r)
    then obtain g1 where g1: "unat b = 128 + g1" "g1 < 64" by (rule cont_obtain)
    show ?thesis
    proof (cases "unat a < 224")
      case True
      define g0 where "g0 = unat a - 192"
      have g0: "unat a = 192 + g0" "g0 < 32" using lead True by (simp_all add: g0_def)
      have f: "finish False 1 (word_of_nat (g0 * 64 + g1)) = Inr (cp, n)" using assms decode_two[OF g0 g1, of r1 False] by (simp add: s r)
      have "unat (word_of_nat (g0 * 64 + g1) :: 32 word) = g0 * 64 + g1" using g0(2) g1(2) by (intro unat_word32) simp
      then have v: "unat cp = g0 * 64 + g1" "128 \<le> unat cp" "n = 2" using f unfolding finish_Inr by auto
      have lt: "unat cp < 0x800" using v(1) g0(2) g1(2) by simp
      note dg = digits64(1,2)[OF g1(2) g1(2) g1(2), of g0, folded v(1)]
      have "utf8_bytes (unat cp) = [192 + g0, 128 + g1]" unfolding utf8_bytes_def dg using v(2) lt by simp
      then show ?thesis using g0(1) g1(1) v(3) lt by (simp add: s r surrogate_def)
    next
      case False
      have "push_bit (Suc 1) a AND 0x80 \<noteq> 0" using lead_shifts(2)[of a "unat a - 224"] False byte_less[of a] by (simp add: numeral_2_eq_2)
      from l1(3)[OF _ this] have "utf8_loop False (Suc (Suc 0)) 2 s (grp (ucast a) b) (push_bit 2 a) = Inr (cp, n)" by (simp add: s r numeral_2_eq_2 del: utf8_loop.simps)
      note l2 = loop_Inr[OF this]
      obtain c r2 where r1: "r1 = c # r2" using l2(1) by (cases r1) (auto simp: s r)
      have "cont c" using l2(2) by (simp add: s r r1)
      then obtain g2 where g2: "unat c = 128 + g2" "g2 < 64" by (rule cont_obtain)
      show ?thesis
      proof (cases "unat a < 240")
        case True
        define g0 where "g0 = unat a - 224"
        have g0: "unat a = 224 + g0" "g0 < 16" using False True by (simp_all add: g0_def)
        have f: "finish False 2 (word_of_nat (g0 * 4096 + g1 * 64 + g2)) = Inr (cp, n)" using assms decode_three[OF g0 g1 g2, of r2 False] by (simp add: s r r1)
        have "unat (word_of_nat (g0 * 4096 + g1 * 64 + g2) :: 32 word) = g0 * 4096 + g1 * 64 + g2" using g0(2) g1(2) g2(2) by (intro unat_word32) simp
        then have v: "unat cp = g0 * 4096 + g1 * 64 + g2" "2048 \<le> unat cp" "n = 3" "\<not> surrogate (unat cp)" using f unfolding finish_Inr by auto
        have lt: "unat cp < 0x10000" using v(1) g0(2) g1(2) g2(2) by simp
        note dg = digits64(3-5)[OF g1(2) g2(2) g2(2), of g0, folded v(1)]
        have "utf8_bytes (unat cp) = [224 + g0, 128 + g1, 128 + g2]" unfolding utf8_bytes_def dg using v(2) lt by simp
        then show ?thesis using g0(1) g1(1) g2(1) v(3,4) lt by (simp add: s r r1)
      next
        case False
        have "push_bit (Suc 2) a AND 0x80 \<noteq> 0" using lead_shifts(4)[of a "unat a - 240"] False byte_less[of a] by simp
        from l2(3)[OF _ this] have "utf8_loop False (Suc 0) 3 s (grp (grp (ucast a) b) c) (push_bit 3 a) = Inr (cp, n)" by (simp add: s r r1 del: utf8_loop.simps)
        note l3 = loop_Inr[OF this]
        obtain e r3 where r2: "r2 = e # r3" using l3(1) by (cases r2) (auto simp: s r r1)
        have "cont e" using l3(2) by (simp add: s r r1 r2)
        then obtain g3 where g3: "unat e = 128 + g3" "g3 < 64" by (rule cont_obtain)
        have a8: "unat a < 248"
        proof (rule ccontr)
          assume "\<not> unat a < 248"
          then have "push_bit (Suc 3) a AND 0x80 \<noteq> 0" using lead_shifts(6)[of a "unat a - 248"] byte_less[of a] by simp
          from l3(3)[OF _ this] show False by (simp add: utf8_fail_def)
        qed
        define g0 where "g0 = unat a - 240"
        have g0: "unat a = 240 + g0" "g0 < 8" using False a8 by (simp_all add: g0_def)
        have f: "finish False 3 (word_of_nat (g0 * 262144 + g1 * 4096 + g2 * 64 + g3)) = Inr (cp, n)" using assms decode_four[OF g0 g1 g2 g3, of r3 False] by (simp add: s r r1 r2)
        have "unat (word_of_nat (g0 * 262144 + g1 * 4096 + g2 * 64 + g3) :: 32 word) = g0 * 262144 + g1 * 4096 + g2 * 64 + g3"
          using g0(2) g1(2) g2(2) g3(2) by (intro unat_word32) simp
        then have v: "unat cp = g0 * 262144 + g1 * 4096 + g2 * 64 + g3" "65536 \<le> unat cp" "n = 4" using f unfolding finish_Inr by auto
        note dg = digits64(6-9)[OF g1(2) g2(2) g3(2), of g0, folded v(1)]
        have "utf8_bytes (unat cp) = [240 + g0, 128 + g1, 128 + g2, 128 + g3]" unfolding utf8_bytes_def dg using v(2) by simp
        moreover have "unat cp < 2 ^ 21" using v(1) g0(2) g1(2) g2(2) g3(2) by simp
        moreover have "\<not> surrogate (unat cp)" using v(2) by (simp add: surrogate_def)
        ultimately show ?thesis using g0(1) g1(1) g2(1) g3(1) v(3) by (simp add: s r r1 r2)
      qed
    qed
  qed
qed

lemma decode_complete:
  assumes cp: "m < 2 ^ 21" "\<not> surrogate m" and s: "map unat s = utf8_bytes m"
  shows "utf8ToCodePoint (s @ r) skip = Inr (word_of_nat m, length s)"
proof -
  have u: "unat (word_of_nat m :: 32 word) = m" using cp(1) by (intro unat_word32) simp
  have fin: "finish skip i (word_of_nat m) = Inr (word_of_nat m, Suc i)" if "2 ^ [7, 11, 16, 21] ! (i - 1) \<le> m" for i
    using that cp(2) by (auto simp: finish_def u surrogate_def)
  have split: "m = m div 64 * 64 + m mod 64" "m div 64 = m div 4096 * 64 + m div 64 mod 64" "m div 4096 = m div 262144 * 64 + m div 4096 mod 64"
    using div_mult2_eq[of m 64 64] div_mult2_eq[of m 4096 64] by simp_all
  consider "m < 0x80" | "0x80 \<le> m" "m < 0x800" | "0x800 \<le> m" "m < 0x10000" | "0x10000 \<le> m" by linarith
  then show ?thesis
  proof cases
    case 1
    then obtain a where s: "s = [a]" and a: "unat a = m" using s by (cases s) (auto simp: utf8_bytes_def)
    have "(ucast a :: 32 word) = word_of_nat m" by (simp add: word_unat_eq_iff unat_widen a u)
    then show ?thesis using 1 a by (simp add: s utf8ToCodePoint_def byte_tests Let_def)
  next
    case 2
    then obtain a b where s: "s = [a, b]" and ab: "unat a = 192 + m div 64" "unat b = 128 + m mod 64" using s
      by (cases s; cases "tl s") (auto simp: utf8_bytes_def)
    have "m div 64 < 32" using 2 by (simp add: div_less_iff_less_mult)
    from decode_two[OF ab(1) this ab(2)] show ?thesis using fin[of 1] 2 split(1) by (simp add: s)
  next
    case 3
    then obtain a b c where s: "s = [a, b, c]" and abc: "unat a = 224 + m div 4096" "unat b = 128 + m div 64 mod 64" "unat c = 128 + m mod 64" using s
      by (cases s; cases "tl s"; cases "tl (tl s)") (auto simp: utf8_bytes_def)
    have "m div 4096 < 16" using 3 by (simp add: div_less_iff_less_mult)
    moreover have "m div 4096 * 4096 + m div 64 mod 64 * 64 + m mod 64 = m" using split by linarith
    ultimately show ?thesis using decode_three[OF abc(1) _ abc(2) _ abc(3), of r skip] fin[of 2] 3 by (simp add: s)
  next
    case 4
    then obtain a b c e where s: "s = [a, b, c, e]" and abc: "unat a = 240 + m div 262144" "unat b = 128 + m div 4096 mod 64" "unat c = 128 + m div 64 mod 64" "unat e = 128 + m mod 64" using s
      by (cases s; cases "tl s"; cases "tl (tl s)"; cases "tl (tl (tl s))") (auto simp: utf8_bytes_def)
    have "m div 262144 < 8" using cp(1) by (simp add: div_less_iff_less_mult)
    moreover have "m div 262144 * 262144 + m div 4096 mod 64 * 4096 + m div 64 mod 64 * 64 + m mod 64 = m" using split by linarith
    ultimately show ?thesis using decode_four[OF abc(1) _ abc(2) _ abc(3) _ abc(4), of r skip] fin[of 3] 4 by (simp add: s)
  qed
qed

section \<open>The encoder\<close>

lemma unat_narrow: "unat (ucast w :: 8 word) = unat w mod 256" for w :: "32 word"
  by (simp add: unsigned_ucast_eq take_bit_eq_mod)

lemma low_group: "unat (0x3F AND w) = unat w mod 64" for w :: "32 word"
proof -
  have "(0x3F :: 32 word) = mask 6" by (simp add: mask_eq_exp_minus_1)
  then show ?thesis using unat_low[of w 6] by (simp add: and.commute)
qed

lemma prefixes:
  fixes w :: "32 word"
  shows "unat (ucast (0x80 OR (0x3F AND w)) :: 8 word) = 128 + unat w mod 64"
    "unat w < 32 \<Longrightarrow> unat (ucast (0xC0 OR w) :: 8 word) = 192 + unat w"
    "unat w < 16 \<Longrightarrow> unat (0xE0 OR ucast w :: 8 word) = 224 + unat w"
    "unat (0x80 OR ucast (0x3F AND w) :: 8 word) = 128 + unat w mod 64"
    "unat w < 8 \<Longrightarrow> unat (ucast (0xF0 OR w) :: 8 word) = 240 + unat w"
proof -
  have p: "(0x80 :: 32 word) = push_bit 6 2" "(0xC0 :: 32 word) = push_bit 6 3" "(0xE0 :: 8 word) = push_bit 5 7" "(0x80 :: 8 word) = push_bit 6 2" "(0xF0 :: 32 word) = push_bit 4 15"
    by (simp_all add: push_bit_eq_mult)
  have m: "unat w mod 64 < 64" by simp
  show "unat (ucast (0x80 OR (0x3F AND w)) :: 8 word) = 128 + unat w mod 64"
    unfolding unat_narrow p(1) using or_below[of "0x3F AND w" 6 2] m by (simp add: low_group)
  show "unat (ucast (0xC0 OR w) :: 8 word) = 192 + unat w" if "unat w < 32" unfolding unat_narrow p(2) using or_below[of w 6 3] that by simp
  show "unat (0xE0 OR ucast w :: 8 word) = 224 + unat w" if "unat w < 16"
    unfolding p(3) using or_below[of "ucast w :: 8 word" 5 7] that by (simp add: unat_narrow)
  show "unat (0x80 OR ucast (0x3F AND w) :: 8 word) = 128 + unat w mod 64"
    unfolding p(4) using or_below[of "ucast (0x3F AND w) :: 8 word" 6 2] m by (simp add: unat_narrow low_group)
  show "unat (ucast (0xF0 OR w) :: 8 word) = 240 + unat w" if "unat w < 8" unfolding unat_narrow p(5) using or_below[of w 4 15] that by simp
qed

lemma encode_bytes:
  assumes "unat cp \<le> 0x10FFFF"
  shows "map unat (codePointToUtf8 cp) = utf8_bytes (unat cp)"
proof -
  have le: "cp \<le> 0x7F \<longleftrightarrow> unat cp < 0x80" "cp \<le> 0x7FF \<longleftrightarrow> unat cp < 0x800" "cp \<le> 0xFFFF \<longleftrightarrow> unat cp < 0x10000" "cp \<le> 0x10FFFF"
    using assms by (auto simp: word_le_nat_alt)
  have d: "unat cp < 0x800 \<Longrightarrow> unat (drop_bit 6 cp) < 32" "unat cp < 0x10000 \<Longrightarrow> unat (drop_bit 12 cp) < 16" "unat (drop_bit 18 cp) < 8"
    unfolding unat_drop using assms by (simp_all add: div_less_iff_less_mult)
  have one: "unat cp < 0x80 \<Longrightarrow> unat (ucast cp :: 8 word) = unat cp" unfolding unat_narrow by simp
  show ?thesis unfolding codePointToUtf8_def utf8_bytes_def le(1-3) using le(4) d one
    by (simp add: prefixes) (simp add: unat_drop)
qed

text \<open>Skipping changes errors only.\<close>

definition skipped :: "decoded \<Rightarrow> decoded" where
  "skipped r = (case r of Inl err \<Rightarrow> Inr (0xFFFD, 1) | Inr r \<Rightarrow> Inr r)"

lemma skipped_rules: "utf8_fail True err = skipped (utf8_fail False err)" "Inr r = skipped (Inr r)"
  "(c \<Longrightarrow> x = skipped x') \<Longrightarrow> (\<not> c \<Longrightarrow> y = skipped y') \<Longrightarrow> (if c then x else y) = skipped (if c then x' else y')"
  by (simp_all add: skipped_def utf8_fail_def)

lemma skipped_loop: "utf8_loop True k i s d a = skipped (utf8_loop False k i s d a)"
proof (induction k arbitrary: i d a)
  case 0
  show ?case unfolding utf8_loop.simps by (rule skipped_rules)
next
  case (Suc k)
  show ?case unfolding utf8_loop.simps Let_def by (intro skipped_rules Suc.IH)
qed

lemma skipped_decode: "utf8ToCodePoint s True = skipped (utf8ToCodePoint s False)"
  unfolding utf8ToCodePoint_def Let_def by (intro skipped_rules skipped_loop)

section \<open>Results\<close>

text \<open>
  C23. \<^verbatim>\<open>utf8ToCodePoint\<close> with \<^verbatim>\<open>skipOnError\<close> unset, on any bytes: it returns a code point and a length exactly when the bytes begin with the shortest
  encoding of that code point, which is below \<open>2 ^ 21\<close> and no surrogate; otherwise it throws.  With \<^verbatim>\<open>skipOnError\<close> it gives the same result
  there, and U+FFFD for one byte otherwise.
\<close>

theorem utf8_decode_exact:
  "(utf8ToCodePoint s False = Inr (cp, n) \<longleftrightarrow>
     unat cp < 2 ^ 21 \<and> \<not> surrogate (unat cp) \<and> n = length (utf8_bytes (unat cp)) \<and> map unat (take n s) = utf8_bytes (unat cp))
   \<and> utf8ToCodePoint s True = (case utf8ToCodePoint s False of Inl err \<Rightarrow> Inr (0xFFFD, 1) | Inr r \<Rightarrow> Inr r)"
proof
  show "utf8ToCodePoint s False = Inr (cp, n) \<longleftrightarrow>
     unat cp < 2 ^ 21 \<and> \<not> surrogate (unat cp) \<and> n = length (utf8_bytes (unat cp)) \<and> map unat (take n s) = utf8_bytes (unat cp)" (is "?l \<longleftrightarrow> ?r")
  proof
    assume r: ?r
    then have "length (take n s) = n" by (metis length_map)
    moreover have "word_of_nat (unat cp) = cp" by simp
    ultimately show ?l using decode_complete[of "unat cp" "take n s" "drop n s" False] r unfolding append_take_drop_id by metis
  qed (rule decode_sound)
  show "utf8ToCodePoint s True = (case utf8ToCodePoint s False of Inl err \<Rightarrow> Inr (0xFFFD, 1) | Inr r \<Rightarrow> Inr r)"
    by (rule skipped_decode[unfolded skipped_def])
qed

text \<open>
  C24. Round trip: \<^verbatim>\<open>codePointToUtf8\<close> of a code point that is at most U+10FFFF and no surrogate has one to four bytes, and \<^verbatim>\<open>utf8ToCodePoint\<close> reads the
  code point back from them, whatever follows, and moves its pointer behind them.
\<close>

theorem utf8_roundtrip:
  assumes "unat cp \<le> 0x10FFFF" "\<not> surrogate (unat cp)"
  shows "utf8ToCodePoint (codePointToUtf8 cp @ r) skip = Inr (cp, length (codePointToUtf8 cp)) \<and> length (codePointToUtf8 cp) \<in> {1, 2, 3, 4}"
proof -
  have "length (codePointToUtf8 cp) \<in> {1, 2, 3, 4}" using assms(1) by (auto simp: codePointToUtf8_def word_le_nat_alt)
  moreover have "unat cp < 2 ^ 21" using assms(1) by simp
  ultimately show ?thesis using decode_complete[OF _ assms(2) encode_bytes[OF assms(1)], of r skip] by simp
qed

theorem utf8_roundtrip_witness:
  "utf8ToCodePoint (codePointToUtf8 0x20AC @ [0x41]) False = Inr (0x20AC, length (codePointToUtf8 0x20AC))"
proof -
  have "unat (0x20AC :: 32 word) \<le> 0x10FFFF" "\<not> surrogate (unat (0x20AC :: 32 word))" by (simp_all add: surrogate_def)
  from utf8_roundtrip[OF this, of "[0x41]" False] show ?thesis by blast
qed

text \<open>
  C34. The check of the upper end is misplaced: it is made only for three bytes, where it cannot fail.  Every number from U+110000 to \<open>0x1FFFFF\<close>,
  which \<^verbatim>\<open>codePointToUtf8\<close> refuses with an empty string, is accepted by \<^verbatim>\<open>utf8ToCodePoint\<close> in its four-byte form.
\<close>

theorem utf8_beyond_unicode:
  assumes "0x10FFFF < unat cp" "unat cp < 2 ^ 21"
  shows "codePointToUtf8 cp = [] \<and> utf8ToCodePoint (map word_of_nat (utf8_bytes (unat cp)) @ r) skip = Inr (cp, 4)"
proof
  show "codePointToUtf8 cp = []" using assms(1) by (simp add: codePointToUtf8_def word_le_nat_alt)
  have b: "\<forall>x \<in> set (utf8_bytes (unat cp)). x < 256" using assms by (auto simp: utf8_bytes_def div_less_iff_less_mult)
  have "unat (word_of_nat x :: 8 word) = x" if "x < 256" for x using that by (simp add: unat_of_nat take_bit_eq_mod)
  then have "map unat (map word_of_nat (utf8_bytes (unat cp)) :: 8 word list) = utf8_bytes (unat cp)" using b by (simp add: map_idI)
  moreover have "length (utf8_bytes (unat cp)) = 4" "\<not> surrogate (unat cp)" using assms(1) by (simp_all add: utf8_bytes_def surrogate_def)
  ultimately show "utf8ToCodePoint (map word_of_nat (utf8_bytes (unat cp)) @ r) skip = Inr (cp, 4)"
    using decode_complete[OF assms(2), of "map word_of_nat (utf8_bytes (unat cp))" r skip] by simp
qed

theorem utf8_beyond_unicode_witness:
  "utf8ToCodePoint [0xF4, 0x90, 0x80, 0x80] False = Inr (0x110000, 4)"
proof -
  have "0x10FFFF < unat (0x110000 :: 32 word)" "unat (0x110000 :: 32 word) < 2 ^ 21" by simp_all
  from utf8_beyond_unicode[OF this, of "[]" False] show ?thesis by (simp add: utf8_bytes_def)
qed

end
