(* ===== verification/Bignum.thy ===== *)
theory Bignum
  imports Prelude
begin

text \<open>
  \<^verbatim>\<open>double-conversion/bignum.h\<close> and \<^verbatim>\<open>bignum.cc\<close>: the fixed-capacity big numbers behind the conversions
  between doubles and decimal strings.

  \<^item> A \<^verbatim>\<open>Chunk\<close> (\<^verbatim>\<open>uint32_t\<close>) and a \<^verbatim>\<open>DoubleChunk\<close> (\<^verbatim>\<open>uint64_t\<close>) are natural numbers; every operation that can
    wrap around is reduced by \<open>chunk\<close> (modulo \<open>2 ^ 32\<close>) or \<open>dchunk\<close> (modulo \<open>2 ^ 64\<close>).  Lengths, indices and
    exponents, of type \<^verbatim>\<open>int\<close> in the code, never become negative and are natural numbers; where an exponent grows, in \<^verbatim>\<open>ShiftLeft\<close> and
    \<^verbatim>\<open>Square\<close>, overflow of \<^verbatim>\<open>int\<close> is an error.
  \<^item> \<^verbatim>\<open>ASSERT\<close> and \<^verbatim>\<open>UNREACHABLE\<close> end the program (\<open>Terminate\<close>), as in a build with assertions; \<open>vec_rd\<close> and \<open>vec_wr\<close>
    are \<^verbatim>\<open>operator[]\<close> of the class \<^verbatim>\<open>Vector\<close> (\<^verbatim>\<open>utils.h\<close>), which asserts that the index is in range.
\<close>

unbundle bit_operations_syntax

section \<open>Numbers and state\<close>

definition kMaxSignificantBits :: nat where
  "kMaxSignificantBits = 3584"

definition kChunkSize :: nat where
  "kChunkSize = 32"

definition kDoubleChunkSize :: nat where
  "kDoubleChunkSize = 64"

definition kBigitSize :: nat where
  "kBigitSize = 28"

definition kBigitMask :: nat where
  "kBigitMask = push_bit kBigitSize 1 - 1"

definition kBigitCapacity :: nat where
  "kBigitCapacity = kMaxSignificantBits div kBigitSize"

definition chunk :: "nat \<Rightarrow> nat" where
  "chunk x = x mod 2 ^ kChunkSize"

definition dchunk :: "nat \<Rightarrow> nat" where
  "dchunk x = x mod 2 ^ kDoubleChunkSize"

text \<open>\<^verbatim>\<open>a - b\<close> on chunks.\<close>

definition chunk_sub :: "nat \<Rightarrow> nat \<Rightarrow> nat" where
  "chunk_sub a b = chunk (a + (2 ^ kChunkSize - chunk b))"

record bignum =
  bn_bigits :: "nat list"
  bn_used_digits :: nat
  bn_exponent :: nat

definition ASSERT :: "bool \<Rightarrow> unit res" where
  "ASSERT c = (if c then Inr () else Inl Terminate)"

definition vec_rd :: "'a list \<Rightarrow> nat \<Rightarrow> 'a res" where
  "vec_rd v i = bindE (ASSERT (i < length v)) (\<lambda>_. Inr (v ! i))"

definition vec_wr :: "'a list \<Rightarrow> nat \<Rightarrow> 'a \<Rightarrow> 'a list res" where
  "vec_wr v i x = bindE (ASSERT (i < length v)) (\<lambda>_. Inr (v[i := x]))"

lemma vec_rd_in [simp]: "i < length v \<Longrightarrow> vec_rd v i = Inr (v ! i)"
  by (simp add: vec_rd_def ASSERT_def)

lemma vec_wr_in [simp]: "i < length v \<Longrightarrow> vec_wr v i x = Inr (v[i := x])"
  by (simp add: vec_wr_def ASSERT_def)

lemma vec_wr_eq_Inr: "vec_wr v i x = Inr w \<longleftrightarrow> i < length v \<and> w = v[i := x]"
  by (auto simp: vec_wr_def ASSERT_def)

text \<open>\<^verbatim>\<open>for (i = first; i < first + n; ++i) v[off + i] = src(i)\<close>\<close>

fun vec_store_loop :: "(nat \<Rightarrow> 'a res) \<Rightarrow> nat \<Rightarrow> nat \<Rightarrow> nat \<Rightarrow> 'a list \<Rightarrow> 'a list res" where
  "vec_store_loop src off i 0 v = Inr v"
| "vec_store_loop src off i (Suc n) v =
     bindE (src i) (\<lambda>x. bindE (vec_wr v (off + i) x) (\<lambda>v'. vec_store_loop src off (Suc i) n v'))"

lemma vec_store_loop_eq: "off + i + n \<le> length v \<Longrightarrow> vec_store_loop src off i n v = store_loop src off i n v"
  by (induction n arbitrary: i v) (auto intro!: bindE_cong)

definition EnsureCapacity :: "nat \<Rightarrow> unit res" where
  "EnsureCapacity sz = (if sz > kBigitCapacity then Inl Terminate else Inr ())"

definition BigitLength :: "bignum \<Rightarrow> nat" where
  "BigitLength b = bn_used_digits b + bn_exponent b"

definition bn_new :: bignum where
  "bn_new = \<lparr>bn_bigits = replicate kBigitCapacity 0, bn_used_digits = 0, bn_exponent = 0\<rparr>"

section \<open>Clamp, Zero, Align\<close>

fun clamp_loop :: "nat list \<Rightarrow> nat \<Rightarrow> nat res" where
  "clamp_loop d 0 = Inr 0"
| "clamp_loop d (Suc n) = bindE (vec_rd d n) (\<lambda>x. if x = 0 then clamp_loop d n else Inr (Suc n))"

definition Clamp :: "bignum \<Rightarrow> bignum res" where
  "Clamp b =
     bindE (clamp_loop (bn_bigits b) (bn_used_digits b)) (\<lambda>n.
     Inr (b\<lparr>bn_used_digits := n, bn_exponent := (if n = 0 then 0 else bn_exponent b)\<rparr>))"

definition IsClamped :: "bignum \<Rightarrow> bool res" where
  "IsClamped b =
     (if bn_used_digits b = 0 then Inr True
      else bindE (vec_rd (bn_bigits b) (bn_used_digits b - 1)) (\<lambda>x. Inr (x \<noteq> 0)))"

definition ASSERT_IsClamped :: "bignum \<Rightarrow> unit res" where
  "ASSERT_IsClamped b = bindE (IsClamped b) ASSERT"

definition Zero :: "bignum \<Rightarrow> bignum res" where
  "Zero b =
     bindE (vec_store_loop (\<lambda>i. Inr 0) 0 0 (bn_used_digits b) (bn_bigits b)) (\<lambda>d.
     Inr \<lparr>bn_bigits = d, bn_used_digits = 0, bn_exponent = 0\<rparr>)"

text \<open>The first loop of \<^verbatim>\<open>Align\<close>, from the index \<open>n - 1\<close> down to 0.\<close>

fun move_up_loop :: "nat \<Rightarrow> nat list \<Rightarrow> nat \<Rightarrow> nat list res" where
  "move_up_loop zero_digits d 0 = Inr d"
| "move_up_loop zero_digits d (Suc i) =
     bindE (vec_rd d i) (\<lambda>x. bindE (vec_wr d (i + zero_digits) x) (\<lambda>d'. move_up_loop zero_digits d' i))"

definition Align :: "bignum \<Rightarrow> bignum \<Rightarrow> bignum res" where
  "Align b other =
     (if bn_exponent b > bn_exponent other
      then let zero_digits = bn_exponent b - bn_exponent other in
           bindE (EnsureCapacity (bn_used_digits b + zero_digits)) (\<lambda>_.
           bindE (move_up_loop zero_digits (bn_bigits b) (bn_used_digits b)) (\<lambda>d.
           bindE (vec_store_loop (\<lambda>i. Inr 0) 0 0 zero_digits d) (\<lambda>d'.
           Inr (b\<lparr>bn_bigits := d', bn_used_digits := bn_used_digits b + zero_digits,
                  bn_exponent := bn_exponent b - zero_digits\<rparr>))))
      else Inr b)"

section \<open>Assignment\<close>

definition AssignUInt16 :: "nat \<Rightarrow> bignum \<Rightarrow> bignum res" where
  "AssignUInt16 v b =
     bindE (ASSERT (kBigitSize \<ge> 16)) (\<lambda>_.
     bindE (Zero b) (\<lambda>b0.
     if v = 0 then Inr b0
     else bindE (EnsureCapacity 1) (\<lambda>_.
          bindE (vec_wr (bn_bigits b0) 0 v) (\<lambda>d.
          Inr (b0\<lparr>bn_bigits := d, bn_used_digits := 1\<rparr>)))))"

fun assign_loop :: "nat list \<Rightarrow> nat \<Rightarrow> nat \<Rightarrow> nat \<Rightarrow> nat list res" where
  "assign_loop d i 0 v = Inr d"
| "assign_loop d i (Suc n) v =
     bindE (vec_wr d i (v AND kBigitMask)) (\<lambda>d'. assign_loop d' (i + 1) n (drop_bit kBigitSize v))"

definition AssignUInt64 :: "nat \<Rightarrow> bignum \<Rightarrow> bignum res" where
  "AssignUInt64 v b =
     bindE (Zero b) (\<lambda>b0.
     if v = 0 then Inr b0
     else let needed_bigits = 64 div kBigitSize + 1 in
          bindE (EnsureCapacity needed_bigits) (\<lambda>_.
          bindE (assign_loop (bn_bigits b0) 0 needed_bigits v) (\<lambda>d.
          Clamp (b0\<lparr>bn_bigits := d, bn_used_digits := needed_bigits\<rparr>))))"

definition AssignBignum :: "bignum \<Rightarrow> bignum \<Rightarrow> bignum res" where
  "AssignBignum other b =
     bindE (vec_store_loop (vec_rd (bn_bigits other)) 0 0 (bn_used_digits other) (bn_bigits b)) (\<lambda>d.
     bindE (vec_store_loop (\<lambda>i. Inr 0) 0 (bn_used_digits other) (bn_used_digits b - bn_used_digits other) d) (\<lambda>d'.
     Inr \<lparr>bn_bigits = d', bn_used_digits = bn_used_digits other, bn_exponent = bn_exponent other\<rparr>))"

section \<open>Addition and subtraction\<close>

fun add_loop :: "nat list \<Rightarrow> nat \<Rightarrow> nat \<Rightarrow> nat list \<Rightarrow> nat \<Rightarrow> nat \<Rightarrow> (nat list \<times> nat \<times> nat) res" where
  "add_loop other i 0 d bigit_pos carry = Inr (d, bigit_pos, carry)"
| "add_loop other i (Suc n) d bigit_pos carry =
     bindE (vec_rd d bigit_pos) (\<lambda>x. bindE (vec_rd other i) (\<lambda>y.
     let s = chunk (x + y + carry) in
     bindE (vec_wr d bigit_pos (s AND kBigitMask)) (\<lambda>d'.
     add_loop other (i + 1) n d' (bigit_pos + 1) (drop_bit kBigitSize s))))"

function add_carry_loop :: "nat list \<Rightarrow> nat \<Rightarrow> nat \<Rightarrow> (nat list \<times> nat) res" where
  "add_carry_loop d bigit_pos carry =
     (if carry \<noteq> 0
      then bindE (vec_rd d bigit_pos) (\<lambda>x.
           let s = chunk (x + carry) in
           bindE (vec_wr d bigit_pos (s AND kBigitMask)) (\<lambda>d'.
           add_carry_loop d' (bigit_pos + 1) (drop_bit kBigitSize s)))
      else Inr (d, bigit_pos))"
  by pat_completeness auto
termination
  by (relation "measure (\<lambda>(d, bigit_pos, carry). length d - bigit_pos)") (auto simp: vec_wr_eq_Inr)

declare add_carry_loop.simps [simp del]

definition AddBignum :: "bignum \<Rightarrow> bignum \<Rightarrow> bignum res" where
  "AddBignum other b0 =
     bindE (ASSERT_IsClamped b0) (\<lambda>_.
     bindE (ASSERT_IsClamped other) (\<lambda>_.
     bindE (Align b0 other) (\<lambda>b.
     bindE (EnsureCapacity (1 + max (BigitLength b) (BigitLength other) - bn_exponent b)) (\<lambda>_.
     bindE (ASSERT (bn_exponent other \<ge> bn_exponent b)) (\<lambda>_.
     bindE (add_loop (bn_bigits other) 0 (bn_used_digits other) (bn_bigits b)
              (bn_exponent other - bn_exponent b) 0) (\<lambda>(d, bigit_pos, carry).
     bindE (add_carry_loop d bigit_pos carry) (\<lambda>(d', bigit_pos').
     let b' = b\<lparr>bn_bigits := d', bn_used_digits := max bigit_pos' (bn_used_digits b)\<rparr> in
     bindE (ASSERT_IsClamped b') (\<lambda>_. Inr b'))))))))"

definition AddUInt64 :: "nat \<Rightarrow> bignum \<Rightarrow> bignum res" where
  "AddUInt64 operand b =
     (if operand = 0 then Inr b
      else bindE (AssignUInt64 operand bn_new) (\<lambda>other. AddBignum other b))"

section \<open>Comparison\<close>

definition BigitAt :: "bignum \<Rightarrow> nat \<Rightarrow> nat res" where
  "BigitAt b i =
     (if i \<ge> BigitLength b then Inr 0
      else if i < bn_exponent b then Inr 0
      else vec_rd (bn_bigits b) (i - bn_exponent b))"

text \<open>The loop compares the bigits \<open>lo + n - 1\<close> down to \<open>lo\<close>.\<close>

fun compare_loop :: "bignum \<Rightarrow> bignum \<Rightarrow> nat \<Rightarrow> nat \<Rightarrow> int res" where
  "compare_loop a b lo 0 = Inr 0"
| "compare_loop a b lo (Suc n) =
     bindE (BigitAt a (lo + n)) (\<lambda>bigit_a. bindE (BigitAt b (lo + n)) (\<lambda>bigit_b.
     if bigit_a < bigit_b then Inr (- 1)
     else if bigit_a > bigit_b then Inr 1
     else compare_loop a b lo n))"

definition bn_Compare :: "bignum \<Rightarrow> bignum \<Rightarrow> int res" where
  "bn_Compare a b =
     bindE (ASSERT_IsClamped a) (\<lambda>_.
     bindE (ASSERT_IsClamped b) (\<lambda>_.
     if BigitLength a < BigitLength b then Inr (- 1)
     else if BigitLength a > BigitLength b then Inr 1
     else let lo = min (bn_exponent a) (bn_exponent b) in compare_loop a b lo (BigitLength a - lo)))"

definition bn_Equal :: "bignum \<Rightarrow> bignum \<Rightarrow> bool res" where
  "bn_Equal a b = bindE (bn_Compare a b) (\<lambda>r. Inr (r = 0))"

definition bn_LessEqual :: "bignum \<Rightarrow> bignum \<Rightarrow> bool res" where
  "bn_LessEqual a b = bindE (bn_Compare a b) (\<lambda>r. Inr (r \<le> 0))"

definition bn_Less :: "bignum \<Rightarrow> bignum \<Rightarrow> bool res" where
  "bn_Less a b = bindE (bn_Compare a b) (\<lambda>r. Inr (r < 0))"

fun plus_compare_loop :: "bignum \<Rightarrow> bignum \<Rightarrow> bignum \<Rightarrow> nat \<Rightarrow> nat \<Rightarrow> nat \<Rightarrow> int res" where
  "plus_compare_loop a b c lo 0 borrow = Inr (if borrow = 0 then 0 else - 1)"
| "plus_compare_loop a b c lo (Suc n) borrow =
     bindE (BigitAt a (lo + n)) (\<lambda>chunk_a. bindE (BigitAt b (lo + n)) (\<lambda>chunk_b. bindE (BigitAt c (lo + n)) (\<lambda>chunk_c.
     let s = chunk (chunk_a + chunk_b) in
     if s > chunk (chunk_c + borrow) then Inr 1
     else let borrow' = chunk_sub (chunk (chunk_c + borrow)) s in
          if borrow' > 1 then Inr (- 1)
          else plus_compare_loop a b c lo n (chunk (push_bit kBigitSize borrow')))))"

definition plus_compare_body :: "bignum \<Rightarrow> bignum \<Rightarrow> bignum \<Rightarrow> int res" where
  "plus_compare_body a b c =
     (if BigitLength a + 1 < BigitLength c then Inr (- 1)
      else if BigitLength a > BigitLength c then Inr 1
      else if bn_exponent a \<ge> BigitLength b \<and> BigitLength a < BigitLength c then Inr (- 1)
      else let lo = min (min (bn_exponent a) (bn_exponent b)) (bn_exponent c) in
           plus_compare_loop a b c lo (BigitLength c - lo) 0)"

text \<open>The recursive call with the arguments exchanged runs the body, since then the first is the longer.\<close>

definition bn_PlusCompare :: "bignum \<Rightarrow> bignum \<Rightarrow> bignum \<Rightarrow> int res" where
  "bn_PlusCompare a b c =
     bindE (ASSERT_IsClamped a) (\<lambda>_.
     bindE (ASSERT_IsClamped b) (\<lambda>_.
     bindE (ASSERT_IsClamped c) (\<lambda>_.
     if BigitLength a < BigitLength b then plus_compare_body b a c else plus_compare_body a b c)))"

definition bn_PlusEqual :: "bignum \<Rightarrow> bignum \<Rightarrow> bignum \<Rightarrow> bool res" where
  "bn_PlusEqual a b c = bindE (bn_PlusCompare a b c) (\<lambda>r. Inr (r = 0))"

definition bn_PlusLessEqual :: "bignum \<Rightarrow> bignum \<Rightarrow> bignum \<Rightarrow> bool res" where
  "bn_PlusLessEqual a b c = bindE (bn_PlusCompare a b c) (\<lambda>r. Inr (r \<le> 0))"

definition bn_PlusLess :: "bignum \<Rightarrow> bignum \<Rightarrow> bignum \<Rightarrow> bool res" where
  "bn_PlusLess a b c = bindE (bn_PlusCompare a b c) (\<lambda>r. Inr (r < 0))"

fun sub_loop :: "nat list \<Rightarrow> nat \<Rightarrow> nat \<Rightarrow> nat list \<Rightarrow> nat \<Rightarrow> nat \<Rightarrow> (nat list \<times> nat) res" where
  "sub_loop other i 0 d offset borrow = Inr (d, borrow)"
| "sub_loop other i (Suc n) d offset borrow =
     bindE (ASSERT (borrow = 0 \<or> borrow = 1)) (\<lambda>_.
     bindE (vec_rd d (i + offset)) (\<lambda>x. bindE (vec_rd other i) (\<lambda>y.
     let difference = chunk_sub (chunk_sub x y) borrow in
     bindE (vec_wr d (i + offset) (difference AND kBigitMask)) (\<lambda>d'.
     sub_loop other (i + 1) n d' offset (drop_bit (kChunkSize - 1) difference)))))"

function sub_borrow_loop :: "nat list \<Rightarrow> nat \<Rightarrow> nat \<Rightarrow> nat list res" where
  "sub_borrow_loop d p borrow =
     (if borrow \<noteq> 0
      then bindE (vec_rd d p) (\<lambda>x.
           let difference = chunk_sub x borrow in
           bindE (vec_wr d p (difference AND kBigitMask)) (\<lambda>d'.
           sub_borrow_loop d' (p + 1) (drop_bit (kChunkSize - 1) difference)))
      else Inr d)"
  by pat_completeness auto
termination
  by (relation "measure (\<lambda>(d, p, borrow). length d - p)") (auto simp: vec_wr_eq_Inr)

declare sub_borrow_loop.simps [simp del]

definition SubtractBignum :: "bignum \<Rightarrow> bignum \<Rightarrow> bignum res" where
  "SubtractBignum other b0 =
     bindE (ASSERT_IsClamped b0) (\<lambda>_.
     bindE (ASSERT_IsClamped other) (\<lambda>_.
     bindE (bindE (bn_LessEqual other b0) ASSERT) (\<lambda>_.
     bindE (Align b0 other) (\<lambda>b.
     let offset = bn_exponent other - bn_exponent b in
     bindE (sub_loop (bn_bigits other) 0 (bn_used_digits other) (bn_bigits b) offset 0) (\<lambda>(d, borrow).
     bindE (sub_borrow_loop d (bn_used_digits other + offset) borrow) (\<lambda>d'.
     Clamp (b\<lparr>bn_bigits := d'\<rparr>)))))))"

section \<open>Shifting and multiplication\<close>

fun shift_loop :: "nat \<Rightarrow> nat \<Rightarrow> nat \<Rightarrow> nat list \<Rightarrow> nat \<Rightarrow> (nat list \<times> nat) res" where
  "shift_loop shift_amount i 0 d carry = Inr (d, carry)"
| "shift_loop shift_amount i (Suc n) d carry =
     bindE (vec_rd d i) (\<lambda>x.
     let new_carry = drop_bit (kBigitSize - shift_amount) x in
     bindE (vec_wr d i (chunk (chunk (push_bit shift_amount x) + carry) AND kBigitMask)) (\<lambda>d'.
     shift_loop shift_amount (i + 1) n d' new_carry))"

definition BigitsShiftLeft :: "nat \<Rightarrow> bignum \<Rightarrow> bignum res" where
  "BigitsShiftLeft shift_amount b =
     bindE (ASSERT (shift_amount < kBigitSize)) (\<lambda>_.
     bindE (shift_loop shift_amount 0 (bn_used_digits b) (bn_bigits b) 0) (\<lambda>(d, carry).
     if carry \<noteq> 0
     then bindE (vec_wr d (bn_used_digits b) carry) (\<lambda>d'.
          Inr (b\<lparr>bn_bigits := d', bn_used_digits := bn_used_digits b + 1\<rparr>))
     else Inr (b\<lparr>bn_bigits := d\<rparr>)))"

definition ShiftLeft :: "nat \<Rightarrow> bignum \<Rightarrow> bignum res" where
  "ShiftLeft shift_amount b =
     (if bn_used_digits b = 0 then Inr b
      else bindE (int_res (int (bn_exponent b) + int (shift_amount div kBigitSize))) (\<lambda>ex.
           let b1 = b\<lparr>bn_exponent := nat ex\<rparr>;
               local_shift = shift_amount mod kBigitSize in
           bindE (EnsureCapacity (bn_used_digits b1 + 1)) (\<lambda>_. BigitsShiftLeft local_shift b1)))"

fun mul32_loop :: "nat \<Rightarrow> nat \<Rightarrow> nat \<Rightarrow> nat list \<Rightarrow> nat \<Rightarrow> (nat list \<times> nat) res" where
  "mul32_loop factor i 0 d carry = Inr (d, carry)"
| "mul32_loop factor i (Suc n) d carry =
     bindE (vec_rd d i) (\<lambda>x.
     let product = dchunk (dchunk (factor * x) + carry) in
     bindE (vec_wr d i (chunk (product AND kBigitMask))) (\<lambda>d'.
     mul32_loop factor (i + 1) n d' (drop_bit kBigitSize product)))"

text \<open>The loop that appends the carry, shared by the two multiplications.\<close>

function mul_carry_loop :: "nat list \<Rightarrow> nat \<Rightarrow> nat \<Rightarrow> (nat list \<times> nat) res" where
  "mul_carry_loop d used_digits carry =
     (if carry \<noteq> 0
      then bindE (EnsureCapacity (used_digits + 1)) (\<lambda>_.
           bindE (vec_wr d used_digits (carry AND kBigitMask)) (\<lambda>d'.
           mul_carry_loop d' (used_digits + 1) (drop_bit kBigitSize carry)))
      else Inr (d, used_digits))"
  by pat_completeness auto
termination
  by (relation "measure (\<lambda>(d, used_digits, carry). length d - used_digits)") (auto simp: vec_wr_eq_Inr)

declare mul_carry_loop.simps [simp del]

definition MultiplyByUInt32 :: "nat \<Rightarrow> bignum \<Rightarrow> bignum res" where
  "MultiplyByUInt32 factor b =
     (if factor = 1 then Inr b
      else if factor = 0 then Zero b
      else if bn_used_digits b = 0 then Inr b
      else bindE (ASSERT (kDoubleChunkSize \<ge> kBigitSize + 32 + 1)) (\<lambda>_.
           bindE (mul32_loop factor 0 (bn_used_digits b) (bn_bigits b) 0) (\<lambda>(d, carry).
           bindE (mul_carry_loop d (bn_used_digits b) carry) (\<lambda>(d', used_digits).
           Inr (b\<lparr>bn_bigits := d', bn_used_digits := used_digits\<rparr>)))))"

fun mul64_loop :: "nat \<Rightarrow> nat \<Rightarrow> nat \<Rightarrow> nat \<Rightarrow> nat list \<Rightarrow> nat \<Rightarrow> (nat list \<times> nat) res" where
  "mul64_loop low high i 0 d carry = Inr (d, carry)"
| "mul64_loop low high i (Suc n) d carry =
     bindE (vec_rd d i) (\<lambda>x.
     let product_low = dchunk (low * x);
         product_high = dchunk (high * x);
         tmp = dchunk ((carry AND kBigitMask) + product_low) in
     bindE (vec_wr d i (tmp AND kBigitMask)) (\<lambda>d'.
     mul64_loop low high (i + 1) n d'
       (dchunk (dchunk (drop_bit kBigitSize carry + drop_bit kBigitSize tmp)
          + dchunk (push_bit (32 - kBigitSize) product_high)))))"

definition MultiplyByUInt64 :: "nat \<Rightarrow> bignum \<Rightarrow> bignum res" where
  "MultiplyByUInt64 factor b =
     (if factor = 1 then Inr b
      else if factor = 0 then Zero b
      else bindE (ASSERT (kBigitSize < 32)) (\<lambda>_.
           bindE (mul64_loop (factor AND 0xFFFFFFFF) (drop_bit 32 factor) 0 (bn_used_digits b) (bn_bigits b) 0)
             (\<lambda>(d, carry).
           bindE (mul_carry_loop d (bn_used_digits b) carry) (\<lambda>(d', used_digits).
           Inr (b\<lparr>bn_bigits := d', bn_used_digits := used_digits\<rparr>)))))"

definition Times10 :: "bignum \<Rightarrow> bignum res" where
  "Times10 b = MultiplyByUInt32 10 b"

definition kFive27 :: nat where
  "kFive27 = 0x6765c793fa10079d"

definition kFive13 :: nat where
  "kFive13 = 1220703125"

definition kFive1_to_12 :: "nat list" where
  "kFive1_to_12 = [5, 25, 125, 625, 3125, 15625, 78125, 390625, 1953125, 9765625, 48828125, 244140625]"

fun five27_loop :: "nat \<Rightarrow> bignum \<Rightarrow> (nat \<times> bignum) res" where
  "five27_loop remaining_exponent b =
     (if remaining_exponent \<ge> 27
      then bindE (MultiplyByUInt64 kFive27 b) (five27_loop (remaining_exponent - 27))
      else Inr (remaining_exponent, b))"

fun five13_loop :: "nat \<Rightarrow> bignum \<Rightarrow> (nat \<times> bignum) res" where
  "five13_loop remaining_exponent b =
     (if remaining_exponent \<ge> 13
      then bindE (MultiplyByUInt32 kFive13 b) (five13_loop (remaining_exponent - 13))
      else Inr (remaining_exponent, b))"

declare five27_loop.simps [simp del] five13_loop.simps [simp del]

definition MultiplyByPowerOfTen :: "nat \<Rightarrow> bignum \<Rightarrow> bignum res" where
  "MultiplyByPowerOfTen exponent b =
     (if exponent = 0 then Inr b
      else if bn_used_digits b = 0 then Inr b
      else bindE (five27_loop exponent b) (\<lambda>(r1, b1).
           bindE (five13_loop r1 b1) (\<lambda>(r2, b2).
           bindE (if r2 > 0 then bindE (rd kFive1_to_12 (r2 - 1)) (\<lambda>f. MultiplyByUInt32 f b2) else Inr b2)
             (ShiftLeft exponent))))"

section \<open>Squares and powers\<close>

fun copy_up_loop :: "nat \<Rightarrow> nat \<Rightarrow> nat \<Rightarrow> nat list \<Rightarrow> nat list res" where
  "copy_up_loop copy_offset i 0 d = Inr d"
| "copy_up_loop copy_offset i (Suc n) d =
     bindE (vec_rd d i) (\<lambda>x. bindE (vec_wr d (copy_offset + i) x) (\<lambda>d'. copy_up_loop copy_offset (i + 1) n d'))"

text \<open>The inner loops add the products of a column to the accumulator.\<close>

definition add_product :: "nat list \<Rightarrow> nat \<Rightarrow> nat \<Rightarrow> nat \<Rightarrow> nat \<Rightarrow> nat res" where
  "add_product d copy_offset bigit_index1 bigit_index2 accumulator =
     bindE (vec_rd d (copy_offset + bigit_index1)) (\<lambda>chunk1.
     bindE (vec_rd d (copy_offset + bigit_index2)) (\<lambda>chunk2.
     Inr (dchunk (accumulator + dchunk (chunk1 * chunk2)))))"

fun square_inner1 :: "nat list \<Rightarrow> nat \<Rightarrow> nat \<Rightarrow> nat \<Rightarrow> nat \<Rightarrow> nat res" where
  "square_inner1 d copy_offset 0 bigit_index2 accumulator = add_product d copy_offset 0 bigit_index2 accumulator"
| "square_inner1 d copy_offset (Suc bigit_index1) bigit_index2 accumulator =
     bindE (add_product d copy_offset (Suc bigit_index1) bigit_index2 accumulator)
       (square_inner1 d copy_offset bigit_index1 (bigit_index2 + 1))"

function square_inner2 :: "nat list \<Rightarrow> nat \<Rightarrow> nat \<Rightarrow> nat \<Rightarrow> nat \<Rightarrow> nat \<Rightarrow> nat res" where
  "square_inner2 d copy_offset used_digits bigit_index1 bigit_index2 accumulator =
     (if bigit_index2 < used_digits
      then bindE (add_product d copy_offset bigit_index1 bigit_index2 accumulator)
             (square_inner2 d copy_offset used_digits (bigit_index1 - 1) (bigit_index2 + 1))
      else Inr accumulator)"
  by pat_completeness auto
termination
  by (relation "measure (\<lambda>(d, copy_offset, used_digits, i1, i2, acc). used_digits - i2)") auto

declare square_inner2.simps [simp del]

fun square_loop1 :: "nat \<Rightarrow> nat \<Rightarrow> nat \<Rightarrow> nat list \<Rightarrow> nat \<Rightarrow> (nat list \<times> nat) res" where
  "square_loop1 copy_offset i 0 d accumulator = Inr (d, accumulator)"
| "square_loop1 copy_offset i (Suc n) d accumulator =
     bindE (square_inner1 d copy_offset i 0 accumulator) (\<lambda>acc.
     bindE (vec_wr d i (chunk acc AND kBigitMask)) (\<lambda>d'.
     square_loop1 copy_offset (i + 1) n d' (drop_bit kBigitSize acc)))"

fun square_loop2 :: "nat \<Rightarrow> nat \<Rightarrow> nat \<Rightarrow> nat \<Rightarrow> nat list \<Rightarrow> nat \<Rightarrow> (nat list \<times> nat) res" where
  "square_loop2 copy_offset used_digits i 0 d accumulator = Inr (d, accumulator)"
| "square_loop2 copy_offset used_digits i (Suc n) d accumulator =
     bindE (square_inner2 d copy_offset used_digits (used_digits - 1) (i - (used_digits - 1)) accumulator) (\<lambda>acc.
     bindE (vec_wr d i (chunk acc AND kBigitMask)) (\<lambda>d'.
     square_loop2 copy_offset used_digits (i + 1) n d' (drop_bit kBigitSize acc)))"

definition Square :: "bignum \<Rightarrow> bignum res" where
  "Square b =
     bindE (ASSERT_IsClamped b) (\<lambda>_.
     let n = bn_used_digits b; product_length = 2 * n in
     bindE (EnsureCapacity product_length) (\<lambda>_.
     if push_bit (2 * (kChunkSize - kBigitSize)) 1 \<le> n then Inl Terminate
     else
       bindE (copy_up_loop n 0 n (bn_bigits b)) (\<lambda>d0.
       bindE (square_loop1 n 0 n d0 0) (\<lambda>(d1, acc1).
       bindE (square_loop2 n n n (product_length - n) d1 acc1) (\<lambda>(d2, acc2).
       bindE (ASSERT (acc2 = 0)) (\<lambda>_.
       bindE (int_res (int (bn_exponent b) * 2)) (\<lambda>ex.
       Clamp \<lparr>bn_bigits = d2, bn_used_digits = product_length, bn_exponent = nat ex\<rparr>)))))))"

text \<open>
  \<^verbatim>\<open>final_size\<close> is a product of two values of type \<^verbatim>\<open>int\<close>: an overflow is undefined.  Behind the check of the
  capacity the exponent is below 3600, and neither the mask nor the final shift can overflow.
\<close>

text \<open>The loop that strips the factors two of the base, which is not 0.\<close>

function strip_loop :: "nat \<Rightarrow> nat \<Rightarrow> nat \<times> nat" where
  "strip_loop base shifts =
     (if base \<noteq> 0 \<and> base AND 1 = 0 then strip_loop (drop_bit 1 base) (shifts + 1) else (base, shifts))"
  by pat_completeness auto
termination
  by (relation "measure fst") (auto simp: drop_bit_Suc)

function bit_size_loop :: "nat \<Rightarrow> nat \<Rightarrow> nat" where
  "bit_size_loop tmp_base bit_size =
     (if tmp_base \<noteq> 0 then bit_size_loop (drop_bit 1 tmp_base) (bit_size + 1) else bit_size)"
  by pat_completeness auto
termination
  by (relation "measure fst") (auto simp: drop_bit_Suc)

function mask_loop :: "nat \<Rightarrow> nat \<Rightarrow> nat" where
  "mask_loop power_exponent m =
     (if 0 < m \<and> power_exponent \<ge> m then mask_loop power_exponent (push_bit 1 m) else m)"
  by pat_completeness auto
termination
  by (relation "measure (\<lambda>(power_exponent, m). Suc power_exponent - m)") auto

function pow_small_loop :: "nat \<Rightarrow> nat \<Rightarrow> nat \<Rightarrow> nat \<Rightarrow> nat \<Rightarrow> bool \<Rightarrow> nat \<times> nat \<times> bool" where
  "pow_small_loop base bit_size power_exponent m this_value delayed =
     (if m \<noteq> 0 \<and> this_value \<le> 0xFFFFFFFF
      then let v = dchunk (this_value * this_value) in
           if power_exponent AND m \<noteq> 0
           then let base_bits_mask = (2 ^ 64 - 1) XOR (push_bit (64 - bit_size) 1 - 1) in
                if v AND base_bits_mask = 0
                then pow_small_loop base bit_size power_exponent (drop_bit 1 m) (dchunk (v * base)) delayed
                else pow_small_loop base bit_size power_exponent (drop_bit 1 m) v True
           else pow_small_loop base bit_size power_exponent (drop_bit 1 m) v delayed
      else (m, this_value, delayed))"
  by pat_completeness auto
termination
  by (relation "measure (\<lambda>(base, bit_size, power_exponent, m, v, delayed). m)") (auto simp: drop_bit_Suc)

function pow_big_loop :: "nat \<Rightarrow> nat \<Rightarrow> nat \<Rightarrow> bignum \<Rightarrow> bignum res" where
  "pow_big_loop base power_exponent m b =
     (if m \<noteq> 0
      then bindE (Square b) (\<lambda>b1.
           bindE (if power_exponent AND m \<noteq> 0 then MultiplyByUInt32 base b1 else Inr b1) (\<lambda>b2.
           pow_big_loop base power_exponent (drop_bit 1 m) b2))
      else Inr b)"
  by pat_completeness auto
termination
  by (relation "measure (\<lambda>(base, power_exponent, m, b). m)") (auto simp: drop_bit_Suc)

declare strip_loop.simps [simp del] bit_size_loop.simps [simp del] mask_loop.simps [simp del]
  pow_small_loop.simps [simp del] pow_big_loop.simps [simp del]

definition AssignPowerUInt16 :: "nat \<Rightarrow> nat \<Rightarrow> bignum \<Rightarrow> bignum res" where
  "AssignPowerUInt16 base0 power_exponent b =
     bindE (ASSERT (base0 \<noteq> 0)) (\<lambda>_.
     if power_exponent = 0 then AssignUInt16 1 b
     else
       bindE (Zero b) (\<lambda>b0.
       let (base, shifts) = strip_loop base0 0;
           bit_size = bit_size_loop base 0;
           final_size = bit_size * power_exponent in
       bindE (if final_size < 2 ^ 31 then Inr () else Inl Undefined) (\<lambda>_.
       bindE (EnsureCapacity (final_size div kBigitSize + 2)) (\<lambda>_.
       let m = drop_bit 2 (mask_loop power_exponent 1);
           (m', this_value, delayed) = pow_small_loop base bit_size power_exponent m base False in
       bindE (AssignUInt64 this_value b0) (\<lambda>b1.
       bindE (if delayed then MultiplyByUInt32 base b1 else Inr b1) (\<lambda>b2.
       bindE (pow_big_loop base power_exponent m' b2)
         (ShiftLeft (shifts * power_exponent))))))))"

section \<open>Division\<close>

fun subtract_repeat :: "nat \<Rightarrow> bignum \<Rightarrow> bignum \<Rightarrow> bignum res" where
  "subtract_repeat 0 other b = Inr b"
| "subtract_repeat (Suc n) other b = bindE (SubtractBignum other b) (subtract_repeat n other)"

fun subtract_times_loop :: "nat \<Rightarrow> nat list \<Rightarrow> nat \<Rightarrow> nat \<Rightarrow> nat list \<Rightarrow> nat \<Rightarrow> nat \<Rightarrow> (nat list \<times> nat) res" where
  "subtract_times_loop factor other i 0 d exponent_diff borrow = Inr (d, borrow)"
| "subtract_times_loop factor other i (Suc n) d exponent_diff borrow =
     bindE (vec_rd other i) (\<lambda>y. bindE (vec_rd d (i + exponent_diff)) (\<lambda>x.
     let product = dchunk (factor * y);
         remove = dchunk (borrow + product);
         difference = chunk_sub x (remove AND kBigitMask) in
     bindE (vec_wr d (i + exponent_diff) (difference AND kBigitMask)) (\<lambda>d'.
     subtract_times_loop factor other (i + 1) n d' exponent_diff
       (chunk (drop_bit (kChunkSize - 1) difference + drop_bit kBigitSize remove)))))"

text \<open>The second loop of \<^verbatim>\<open>SubtractTimes\<close>; the flag says that the function returned inside the loop.\<close>

fun times_borrow_loop :: "nat \<Rightarrow> nat \<Rightarrow> nat list \<Rightarrow> nat \<Rightarrow> (nat list \<times> bool) res" where
  "times_borrow_loop i 0 d borrow = Inr (d, False)"
| "times_borrow_loop i (Suc n) d borrow =
     (if borrow = 0 then Inr (d, True)
      else bindE (vec_rd d i) (\<lambda>x.
           let difference = chunk_sub x borrow in
           bindE (vec_wr d i (difference AND kBigitMask)) (\<lambda>d'.
           times_borrow_loop (i + 1) n d' (drop_bit (kChunkSize - 1) difference))))"

definition SubtractTimes :: "bignum \<Rightarrow> nat \<Rightarrow> bignum \<Rightarrow> bignum res" where
  "SubtractTimes other factor b =
     bindE (ASSERT (bn_exponent b \<le> bn_exponent other)) (\<lambda>_.
     if factor < 3 then subtract_repeat factor other b
     else let exponent_diff = bn_exponent other - bn_exponent b in
          bindE (subtract_times_loop factor (bn_bigits other) 0 (bn_used_digits other) (bn_bigits b) exponent_diff 0)
            (\<lambda>(d, borrow).
          bindE (times_borrow_loop (bn_used_digits other + exponent_diff)
                  (bn_used_digits b - (bn_used_digits other + exponent_diff)) d borrow) (\<lambda>(d', returned).
          if returned then Inr (b\<lparr>bn_bigits := d'\<rparr>) else Clamp (b\<lparr>bn_bigits := d'\<rparr>))))"

definition uint16 :: "nat \<Rightarrow> nat" where
  "uint16 x = x mod 2 ^ 16"

text \<open>\<^verbatim>\<open>bigits_[used_digits_ - 1]\<close>\<close>

definition TopBigit :: "bignum \<Rightarrow> nat res" where
  "TopBigit b = (if bn_used_digits b = 0 then Inl Undefined else vec_rd (bn_bigits b) (bn_used_digits b - 1))"

text \<open>One iteration of the first loop of \<^verbatim>\<open>DivideModuloIntBignum\<close>.\<close>

definition divide_longer_step :: "bignum \<Rightarrow> nat \<times> bignum \<Rightarrow> (nat \<times> bignum) res" where
  "divide_longer_step other = (\<lambda>(result, b).
     bindE (TopBigit other) (\<lambda>y.
     bindE (ASSERT (y \<ge> push_bit kBigitSize 1 div 16)) (\<lambda>_.
     bindE (TopBigit b) (\<lambda>x.
     bindE (ASSERT (x < 0x10000)) (\<lambda>_.
     bindE (SubtractTimes other x b) (\<lambda>b'. Inr (uint16 (result + uint16 x), b')))))))"

text \<open>The part of \<^verbatim>\<open>DivideModuloIntBignum\<close> behind the first loop; \<open>n\<close> bounds the iterations of its loop.\<close>

definition divide_equal_lengths :: "nat \<Rightarrow> bignum \<Rightarrow> nat \<times> bignum \<Rightarrow> (nat \<times> bignum) res option" where
  "divide_equal_lengths n other = (\<lambda>(result, b).
     bindO (Some (ASSERT (BigitLength b = BigitLength other))) (\<lambda>_.
     bindO (Some (TopBigit b)) (\<lambda>this_bigit.
     bindO (Some (TopBigit other)) (\<lambda>other_bigit.
     if bn_used_digits other = 1
     then let quotient = this_bigit div other_bigit in
          Some (bindE (vec_wr (bn_bigits b) (bn_used_digits b - 1) (chunk_sub this_bigit (chunk (other_bigit * quotient)))) (\<lambda>d.
                bindE (ASSERT (quotient < 0x10000)) (\<lambda>_.
                bindE (Clamp (b\<lparr>bn_bigits := d\<rparr>)) (\<lambda>b'. Inr (uint16 (result + uint16 quotient), b')))))
     else let division_estimate = this_bigit div chunk (other_bigit + 1) in
          bindO (Some (ASSERT (division_estimate < 0x10000))) (\<lambda>_.
          bindO (Some (SubtractTimes other division_estimate b)) (\<lambda>b1.
          let result1 = uint16 (result + uint16 division_estimate) in
          if chunk (other_bigit * (division_estimate + 1)) > this_bigit then Some (Inr (result1, b1))
          else res_while n (\<lambda>(result, b). bn_LessEqual other b)
                 (\<lambda>(result, b). bindE (SubtractBignum other b) (\<lambda>b'. Inr (uint16 (result + 1), b')))
                 (result1, b1)))))))"

definition DivideModuloIntBignum :: "nat \<Rightarrow> bignum \<Rightarrow> bignum \<Rightarrow> (nat \<times> bignum) res option" where
  "DivideModuloIntBignum n other b =
     bindO (Some (ASSERT_IsClamped b)) (\<lambda>_.
     bindO (Some (ASSERT_IsClamped other)) (\<lambda>_.
     bindO (Some (ASSERT (bn_used_digits other > 0))) (\<lambda>_.
     if BigitLength b < BigitLength other then Some (Inr (0, b))
     else bindO (Some (Align b other)) (\<lambda>b1.
          bindO (res_while n (\<lambda>(result, b). Inr (BigitLength b > BigitLength other)) (divide_longer_step other) (0, b1))
            (divide_equal_lengths n other)))))"

section \<open>Strings\<close>

text \<open>A character is its code.  Codes above 127, negative values of \<^verbatim>\<open>char\<close>, fail the same assertions.\<close>

fun read_loop :: "nat list \<Rightarrow> nat \<Rightarrow> nat \<Rightarrow> nat \<Rightarrow> nat res" where
  "read_loop buffer i 0 result = Inr result"
| "read_loop buffer i (Suc n) result =
     bindE (vec_rd buffer i) (\<lambda>c.
     bindE (ASSERT (48 \<le> c \<and> c - 48 \<le> 9)) (\<lambda>_.
     read_loop buffer (i + 1) n (dchunk (dchunk (result * 10) + (c - 48)))))"

definition ReadUInt64 :: "nat list \<Rightarrow> nat \<Rightarrow> nat \<Rightarrow> nat res" where
  "ReadUInt64 buffer first digits_to_read = read_loop buffer first digits_to_read 0"

definition kMaxUint64DecimalDigits :: nat where
  "kMaxUint64DecimalDigits = 19"

fun decimal_loop :: "nat list \<Rightarrow> nat \<Rightarrow> nat \<Rightarrow> bignum \<Rightarrow> (nat \<times> nat \<times> bignum) res" where
  "decimal_loop v len pos b =
     (if len \<ge> kMaxUint64DecimalDigits \<and> 0 < kMaxUint64DecimalDigits
      then bindE (ReadUInt64 v pos kMaxUint64DecimalDigits) (\<lambda>digits.
           bindE (MultiplyByPowerOfTen kMaxUint64DecimalDigits b) (\<lambda>b1.
           bindE (AddUInt64 digits b1) (\<lambda>b2.
           decimal_loop v (len - kMaxUint64DecimalDigits) (pos + kMaxUint64DecimalDigits) b2)))
      else Inr (len, pos, b))"

declare decimal_loop.simps [simp del]

definition AssignDecimalString :: "nat list \<Rightarrow> bignum \<Rightarrow> bignum res" where
  "AssignDecimalString v b =
     bindE (Zero b) (\<lambda>b0.
     bindE (decimal_loop v (length v) 0 b0) (\<lambda>(len, pos, b1).
     bindE (ReadUInt64 v pos len) (\<lambda>digits.
     bindE (MultiplyByPowerOfTen len b1) (\<lambda>b2.
     bindE (AddUInt64 digits b2) Clamp))))"

definition HexCharValue :: "nat \<Rightarrow> nat res" where
  "HexCharValue c =
     (if 48 \<le> c \<and> c \<le> 57 then Inr (c - 48)
      else if 97 \<le> c \<and> c \<le> 102 then Inr (10 + c - 97)
      else bindE (ASSERT (65 \<le> c \<and> c \<le> 70)) (\<lambda>_. Inr (10 + c - 65)))"

text \<open>
  The index \<^verbatim>\<open>string_index\<close> runs down to \<open>- 1\<close>: \<open>p\<close> is the index plus 1.  The loop reads the bigit from the
  position \<open>j\<close> on, \<open>n\<close> characters.
\<close>

fun hex_bigit_loop :: "nat list \<Rightarrow> nat \<Rightarrow> nat \<Rightarrow> nat \<Rightarrow> nat \<Rightarrow> (nat \<times> nat) res" where
  "hex_bigit_loop v j 0 p current_bigit = Inr (p, current_bigit)"
| "hex_bigit_loop v j (Suc n) p current_bigit =
     bindE (ASSERT (0 < p)) (\<lambda>_.
     bindE (vec_rd v (p - 1)) (\<lambda>c.
     bindE (HexCharValue c) (\<lambda>x.
     hex_bigit_loop v (j + 1) n (p - 1) (chunk (current_bigit + push_bit (j * 4) x)))))"

fun hex_bigits_loop :: "nat list \<Rightarrow> nat \<Rightarrow> nat \<Rightarrow> nat list \<Rightarrow> nat \<Rightarrow> (nat list \<times> nat) res" where
  "hex_bigits_loop v i 0 d p = Inr (d, p)"
| "hex_bigits_loop v i (Suc n) d p =
     bindE (hex_bigit_loop v 0 (kBigitSize div 4) p 0) (\<lambda>(p', current_bigit).
     bindE (vec_wr d i current_bigit) (\<lambda>d'.
     hex_bigits_loop v (i + 1) n d' p'))"

fun hex_top_loop :: "nat list \<Rightarrow> nat \<Rightarrow> nat \<Rightarrow> nat \<Rightarrow> nat res" where
  "hex_top_loop v j 0 most_significant_bigit = Inr most_significant_bigit"
| "hex_top_loop v j (Suc n) most_significant_bigit =
     bindE (vec_rd v j) (\<lambda>c.
     bindE (HexCharValue c) (\<lambda>x.
     hex_top_loop v (j + 1) n (chunk (chunk (push_bit 4 most_significant_bigit) + x))))"

definition AssignHexString :: "nat list \<Rightarrow> bignum \<Rightarrow> bignum res" where
  "AssignHexString v b =
     bindE (Zero b) (\<lambda>b0.
     let needed_bigits = length v * 4 div kBigitSize + 1 in
     bindE (EnsureCapacity needed_bigits) (\<lambda>_.
     bindE (hex_bigits_loop v 0 (needed_bigits - 1) (bn_bigits b0) (length v)) (\<lambda>(d, p).
     bindE (hex_top_loop v 0 p 0) (\<lambda>most_significant_bigit.
     if most_significant_bigit \<noteq> 0
     then bindE (vec_wr d (needed_bigits - 1) most_significant_bigit) (\<lambda>d'.
          Clamp (b0\<lparr>bn_bigits := d', bn_used_digits := needed_bigits - 1 + 1\<rparr>))
     else Clamp (b0\<lparr>bn_bigits := d, bn_used_digits := needed_bigits - 1\<rparr>)))))"

function hex_size_loop :: "nat \<Rightarrow> nat \<Rightarrow> nat" where
  "hex_size_loop number result = (if number \<noteq> 0 then hex_size_loop (drop_bit 4 number) (result + 1) else result)"
  by pat_completeness auto
termination
  by (relation "measure fst") (auto simp: drop_bit_eq_div)

definition SizeInHexChars :: "nat \<Rightarrow> nat res" where
  "SizeInHexChars number = bindE (ASSERT (number > 0)) (\<lambda>_. Inr (hex_size_loop number 0))"

definition HexCharOfValue :: "nat \<Rightarrow> nat res" where
  "HexCharOfValue v =
     bindE (ASSERT (v \<le> 16)) (\<lambda>_. if v < 10 then Inr (v + 48) else Inr (v - 10 + 65))"

text \<open>
  \<open>put p c\<close> is \<^verbatim>\<open>buffer[string_index--] = c\<close>, with \<open>p\<close> the index plus 1.  The buffer is a plain array: a store
  outside it is undefined.
\<close>

definition put :: "nat \<times> nat list \<Rightarrow> nat \<Rightarrow> (nat \<times> nat list) res" where
  "put = (\<lambda>(p, buffer) c. if p = 0 then Inl Undefined else bindE (wr buffer (p - 1) c) (\<lambda>buffer'. Inr (p - 1, buffer')))"

fun zeros_loop :: "nat \<Rightarrow> nat \<times> nat list \<Rightarrow> (nat \<times> nat list) res" where
  "zeros_loop 0 s = Inr s"
| "zeros_loop (Suc n) s = bindE (put s 48) (zeros_loop n)"

fun exponent_loop :: "nat \<Rightarrow> nat \<times> nat list \<Rightarrow> (nat \<times> nat list) res" where
  "exponent_loop 0 s = Inr s"
| "exponent_loop (Suc n) s = bindE (zeros_loop (kBigitSize div 4) s) (exponent_loop n)"

fun hex_chars_loop :: "nat \<Rightarrow> nat \<Rightarrow> nat \<times> nat list \<Rightarrow> (nat \<times> nat list) res" where
  "hex_chars_loop 0 current_bigit s = Inr s"
| "hex_chars_loop (Suc n) current_bigit s =
     bindE (HexCharOfValue (current_bigit AND 0xF)) (\<lambda>c.
     bindE (put s c) (hex_chars_loop n (drop_bit 4 current_bigit)))"

fun hex_print_loop :: "nat list \<Rightarrow> nat \<Rightarrow> nat \<Rightarrow> nat \<times> nat list \<Rightarrow> (nat \<times> nat list) res" where
  "hex_print_loop d i 0 s = Inr s"
| "hex_print_loop d i (Suc n) s =
     bindE (vec_rd d i) (\<lambda>current_bigit.
     bindE (hex_chars_loop (kBigitSize div 4) current_bigit s) (hex_print_loop d (i + 1) n))"

function hex_last_loop :: "nat \<Rightarrow> nat \<times> nat list \<Rightarrow> (nat \<times> nat list) res" where
  "hex_last_loop most_significant_bigit s =
     (if most_significant_bigit \<noteq> 0
      then bindE (HexCharOfValue (most_significant_bigit AND 0xF)) (\<lambda>c.
           bindE (put s c) (hex_last_loop (drop_bit 4 most_significant_bigit)))
      else Inr s)"
  by pat_completeness auto
termination
  by (relation "measure fst") (auto simp: drop_bit_eq_div)

declare hex_size_loop.simps [simp del] hex_last_loop.simps [simp del]

text \<open>The result: whether the number was printed, and the buffer.\<close>

definition ToHexString :: "bignum \<Rightarrow> nat list \<Rightarrow> nat \<Rightarrow> (bool \<times> nat list) res" where
  "ToHexString b buffer buffer_size =
     bindE (ASSERT_IsClamped b) (\<lambda>_.
     bindE (ASSERT (kBigitSize mod 4 = 0)) (\<lambda>_.
     if bn_used_digits b = 0
     then (if buffer_size < 2 then Inr (False, buffer)
           else bindE (wr buffer 0 48) (\<lambda>buf. bindE (wr buf 1 0) (\<lambda>buf'. Inr (True, buf'))))
     else bindE (TopBigit b) (\<lambda>top.
          bindE (SizeInHexChars top) (\<lambda>chars.
          let needed_chars = (BigitLength b - 1) * (kBigitSize div 4) + chars + 1 in
          if needed_chars > buffer_size then Inr (False, buffer)
          else bindE (put (needed_chars, buffer) 0) (\<lambda>s0.
               bindE (exponent_loop (bn_exponent b) s0) (\<lambda>s1.
               bindE (hex_print_loop (bn_bigits b) 0 (bn_used_digits b - 1) s1) (\<lambda>s2.
               bindE (hex_last_loop top s2) (\<lambda>(p, buf). Inr (True, buf)))))))))"

end
