(* ===== verification/Bignum_Correct.thy ===== *)
theory Bignum_Correct
  imports Bignum
begin

text \<open>
  The arithmetic of \<^verbatim>\<open>Bignum\<close> computes on natural numbers.  \<open>bval\<close> is the number an array of bigits represents
  in base \<open>radix\<close> and \<open>bn_value\<close> the value of a bignum, with its exponent.  The invariant \<open>bn_inv\<close> says that
  \<^verbatim>\<open>used_digits_\<close> is the number of digits of that number; every loop is specified by an equation between
  the numbers before and after it.
\<close>

unbundle bit_operations_syntax

section \<open>Radix\<close>

definition radix :: nat where
  "radix = 2 ^ kBigitSize"

lemma radix_pos [simp]: "0 < radix" "radix \<noteq> 0" "Suc 0 < radix" "1 < radix"
  by (simp_all add: radix_def kBigitSize_def)

lemma radix_val: "radix = 268435456"
  by (simp add: radix_def kBigitSize_def)

lemma chunk_size: "(2::nat) ^ kChunkSize = 16 * radix"
  by (simp add: radix_def kBigitSize_def kChunkSize_def)

lemma dchunk_size: "(2::nat) ^ kDoubleChunkSize = 256 * radix * radix"
  by (simp add: radix_def kBigitSize_def kDoubleChunkSize_def)

lemma chunk_id: "x < 16 * radix \<Longrightarrow> chunk x = x"
  by (simp add: chunk_def chunk_size)

lemma dchunk_id: "x < 256 * radix * radix \<Longrightarrow> dchunk x = x"
  by (simp add: dchunk_def dchunk_size)

lemma and_kBigitMask: "x AND kBigitMask = x mod radix"
proof -
  have "kBigitMask = mask kBigitSize" by (simp add: kBigitMask_def mask_eq_exp_minus_1 push_bit_eq_mult)
  then have "x AND kBigitMask = take_bit kBigitSize x" by (simp add: take_bit_eq_mask)
  then show ?thesis by (simp add: radix_def take_bit_eq_mod)
qed

lemma drop_kBigitSize: "drop_bit kBigitSize x = x div radix"
  by (simp add: radix_def drop_bit_eq_div)

lemma push_kBigitSize: "push_bit kBigitSize x = x * radix"
  by (simp add: radix_def push_bit_eq_mult)

lemmas radix_ops = and_kBigitMask drop_kBigitSize push_kBigitSize

lemma bigit_split: "x mod radix + radix * (x div radix) = x"
  by simp

lemma bigit_split_scaled: "(x mod radix) * r + (x div radix) * (radix * r) = x * r"
proof -
  have "(x mod radix + radix * (x div radix)) * r = x * r" by (simp only: bigit_split)
  then show ?thesis unfolding distrib_right by (simp only: ac_simps)
qed

lemma capacity: "kBigitCapacity = 128"
  by (simp add: kBigitCapacity_def kMaxSignificantBits_def kBigitSize_def)

section \<open>Values of arrays\<close>

primrec bval :: "nat list \<Rightarrow> nat" where
  "bval [] = 0"
| "bval (x # xs) = x + radix * bval xs"

definition bigits_ok :: "nat list \<Rightarrow> bool" where
  "bigits_ok d \<longleftrightarrow> (\<forall>x \<in> set d. x < radix)"

lemma bigits_ok_nth: "bigits_ok d \<Longrightarrow> i < length d \<Longrightarrow> d ! i < radix"
  by (simp add: bigits_ok_def)

lemma bigits_ok_update: "bigits_ok d \<Longrightarrow> x < radix \<Longrightarrow> bigits_ok (d[i := x])"
  by (auto simp: bigits_ok_def dest: set_update_subset_insert[THEN subsetD])

lemma bigits_ok_append [simp]: "bigits_ok (xs @ ys) \<longleftrightarrow> bigits_ok xs \<and> bigits_ok ys"
  by (auto simp: bigits_ok_def)

lemma bigits_ok_sub: "bigits_ok d \<Longrightarrow> bigits_ok (take n d)" "bigits_ok d \<Longrightarrow> bigits_ok (drop n d)"
  by (auto simp: bigits_ok_def dest: in_set_takeD in_set_dropD)

lemma bigits_ok_zeros [simp]: "bigits_ok (replicate n 0)"
  by (auto simp: bigits_ok_def)

lemma bval_append: "bval (xs @ ys) = bval xs + radix ^ length xs * bval ys"
  by (induction xs) (simp_all add: algebra_simps)

lemma bval_split: "bval d = bval (take n d) + radix ^ length (take n d) * bval (drop n d)"
  using bval_append[of "take n d" "drop n d"] unfolding append_take_drop_id .

lemma bval_zeros [simp]: "bval (replicate n 0) = 0"
  by (induction n) auto

lemma bval_less: "bigits_ok d \<Longrightarrow> bval d < radix ^ length d"
proof (induction d)
  case (Cons x d)
  then have "x < radix" "bval d + 1 \<le> radix ^ length d" by (auto simp: bigits_ok_def)
  then have "x + radix * bval d < radix * (bval d + 1)" by (simp add: algebra_simps)
  also have "\<dots> \<le> radix * radix ^ length d" using \<open>bval d + 1 \<le> _\<close> by (rule mult_le_mono2)
  finally show ?case by simp
qed simp

lemma bval_update:
  "i < length d \<Longrightarrow> bval (d[i := x]) + d ! i * radix ^ i = bval d + x * radix ^ i"
proof (induction d arbitrary: i)
  case (Cons y d)
  show ?case
  proof (cases i)
    case (Suc j)
    have "bval ((y # d)[i := x]) + (y # d) ! i * radix ^ i = y + radix * (bval (d[j := x]) + d ! j * radix ^ j)"
      by (simp add: Suc algebra_simps)
    also have "\<dots> = y + radix * (bval d + x * radix ^ j)" using Cons Suc by simp
    finally show ?thesis by (simp add: Suc algebra_simps)
  qed simp
qed simp

lemma bval_nth_le: "i < length d \<Longrightarrow> d ! i * radix ^ i \<le> bval d"
  using bval_update[of i d 0] by simp

lemma bval_below_iff:
  assumes "bigits_ok d"
  shows "bval d < radix ^ n \<longleftrightarrow> (\<forall>i. n \<le> i \<longrightarrow> i < length d \<longrightarrow> d ! i = 0)"
proof
  assume l: "bval d < radix ^ n"
  show "\<forall>i. n \<le> i \<longrightarrow> i < length d \<longrightarrow> d ! i = 0"
  proof (intro allI impI, rule ccontr)
    fix i assume i: "n \<le> i" "i < length d" "d ! i \<noteq> 0"
    have "radix ^ n \<le> radix ^ i" using i(1) by (simp add: power_increasing)
    also have "\<dots> \<le> d ! i * radix ^ i" using i(3) by simp
    also have "\<dots> \<le> bval d" by (rule bval_nth_le[OF i(2)])
    finally show False using l by simp
  qed
next
  assume z: "\<forall>i. n \<le> i \<longrightarrow> i < length d \<longrightarrow> d ! i = 0"
  have "drop n d = replicate (length d - n) 0" using z by (intro nth_equalityI) auto
  then have "bval d = bval (take n d)" using bval_split[of d n] by simp
  also have "\<dots> < radix ^ length (take n d)" by (intro bval_less bigits_ok_sub assms)
  also have "\<dots> \<le> radix ^ n" by (simp add: power_increasing)
  finally show "bval d < radix ^ n" .
qed

lemma bval_take: "bigits_ok d \<Longrightarrow> bval d < radix ^ n \<Longrightarrow> bval (take n d) = bval d"
proof -
  assume ok: "bigits_ok d" "bval d < radix ^ n"
  then have "\<forall>i. n \<le> i \<longrightarrow> i < length d \<longrightarrow> d ! i = 0" by (simp add: bval_below_iff)
  then have "drop n d = replicate (length d - n) 0" by (intro nth_equalityI) auto
  then show ?thesis using bval_split[of d n] by simp
qed

section \<open>The invariant\<close>

definition bn_inv :: "bignum \<Rightarrow> bool" where
  "bn_inv b \<longleftrightarrow> length (bn_bigits b) = kBigitCapacity \<and> bigits_ok (bn_bigits b)
     \<and> bval (bn_bigits b) < radix ^ bn_used_digits b
     \<and> (bn_used_digits b = 0 \<or> radix ^ (bn_used_digits b - 1) \<le> bval (bn_bigits b))
     \<and> (bn_used_digits b = 0 \<longrightarrow> bn_exponent b = 0)"

definition bn_value :: "bignum \<Rightarrow> nat" where
  "bn_value b = bval (bn_bigits b) * radix ^ bn_exponent b"

lemma bn_new_inv [simp]: "bn_inv bn_new" "bn_value bn_new = 0"
  by (simp_all add: bn_inv_def bn_new_def bn_value_def capacity)

lemma power_less_radix: "radix ^ m < radix ^ n \<longleftrightarrow> m < n"
  by (rule power_strict_increasing_iff) simp

lemma power_le_radix: "m \<le> n \<Longrightarrow> radix ^ m \<le> radix ^ n"
  by (rule power_increasing) (simp_all add: Suc_leI)

lemma used_le_capacity:
  assumes "bn_inv b"
  shows "bn_used_digits b \<le> kBigitCapacity"
proof (rule ccontr)
  assume n: "\<not> ?thesis"
  then have "radix ^ kBigitCapacity \<le> radix ^ (bn_used_digits b - 1)" by (intro power_le_radix) simp
  moreover have "bn_used_digits b = 0 \<or> radix ^ (bn_used_digits b - 1) \<le> bval (bn_bigits b)"
    using assms by (simp add: bn_inv_def)
  moreover have "bval (bn_bigits b) < radix ^ kBigitCapacity"
    using bval_less[of "bn_bigits b"] assms by (simp add: bn_inv_def)
  ultimately show False using n by linarith
qed

lemma top_bigit:
  assumes "bn_inv b" "bn_used_digits b \<noteq> 0"
  shows "bn_bigits b ! (bn_used_digits b - 1) \<noteq> 0"
proof
  let ?n = "bn_used_digits b - 1"
  assume z: "bn_bigits b ! ?n = 0"
  have ok: "bigits_ok (bn_bigits b)" "bval (bn_bigits b) < radix ^ bn_used_digits b" using assms by (auto simp: bn_inv_def)
  have "bn_bigits b ! i = 0" if "?n \<le> i" "i < length (bn_bigits b)" for i
    using that z ok bval_below_iff[OF ok(1), of "bn_used_digits b"] assms(2)
    by (cases "i = ?n") auto
  then have "bval (bn_bigits b) < radix ^ ?n" by (simp add: bval_below_iff[OF ok(1)])
  then show False using assms by (auto simp: bn_inv_def)
qed

lemma IsClamped_inv: "bn_inv b \<Longrightarrow> ASSERT_IsClamped b = Inr ()"
  using top_bigit[of b] used_le_capacity[of b]
  by (cases "bn_used_digits b = 0") (auto simp: ASSERT_IsClamped_def IsClamped_def ASSERT_def bn_inv_def)

lemma value_zero_iff: "bn_inv b \<Longrightarrow> bn_value b = 0 \<longleftrightarrow> bn_used_digits b = 0"
  by (auto simp: bn_inv_def bn_value_def)

text \<open>The value determines the bigit length.\<close>

lemma bn_value_bounds:
  assumes "bn_inv b"
  shows "bn_value b < radix ^ BigitLength b"
    and "bn_used_digits b \<noteq> 0 \<Longrightarrow> radix ^ (BigitLength b - 1) \<le> bn_value b"
proof -
  have "bval (bn_bigits b) < radix ^ bn_used_digits b" using assms by (simp add: bn_inv_def)
  then show "bn_value b < radix ^ BigitLength b"
    by (simp add: bn_value_def BigitLength_def power_add)
  assume "bn_used_digits b \<noteq> 0"
  then have "radix ^ (bn_used_digits b - 1) * radix ^ bn_exponent b \<le> bn_value b"
    using assms by (simp add: bn_inv_def bn_value_def)
  then show "radix ^ (BigitLength b - 1) \<le> bn_value b"
    using \<open>bn_used_digits b \<noteq> 0\<close> by (simp add: BigitLength_def flip: power_add)
qed

section \<open>Clamp, Zero and Align\<close>

lemma clamp_loop_spec:
  assumes "bigits_ok d" "n \<le> length d" "bval d < radix ^ n"
  shows "\<exists>m. clamp_loop d n = Inr m \<and> m \<le> n \<and> bval d < radix ^ m \<and> (m = 0 \<or> radix ^ (m - 1) \<le> bval d)"
  using assms(2,3)
proof (induction n)
  case (Suc n)
  show ?case
  proof (cases "d ! n = 0")
    case True
    have "d ! i = 0" if "n \<le> i" "i < length d" for i
      using that True Suc.prems(2) bval_below_iff[OF assms(1), of "Suc n"] by (cases "i = n") auto
    then have "bval d < radix ^ n" by (simp add: bval_below_iff[OF assms(1)])
    then show ?thesis using Suc True by fastforce
  next
    case False
    then have "radix ^ n \<le> d ! n * radix ^ n" by simp
    also have "\<dots> \<le> bval d" using Suc.prems by (intro bval_nth_le) simp
    finally show ?thesis using Suc.prems False by simp
  qed
qed simp

lemma Clamp_spec:
  assumes "length (bn_bigits b) = kBigitCapacity" "bigits_ok (bn_bigits b)"
    "bval (bn_bigits b) < radix ^ bn_used_digits b" "bn_used_digits b \<le> kBigitCapacity"
  shows "\<exists>b'. Clamp b = Inr b' \<and> bn_inv b' \<and> bn_value b' = bn_value b"
proof -
  obtain m where "clamp_loop (bn_bigits b) (bn_used_digits b) = Inr m" "bval (bn_bigits b) < radix ^ m"
      "m = 0 \<or> radix ^ (m - 1) \<le> bval (bn_bigits b)"
    using clamp_loop_spec[of "bn_bigits b" "bn_used_digits b"] assms by auto
  then show ?thesis using assms by (auto simp: Clamp_def bn_inv_def bn_value_def)
qed

lemma zero_fill: "n \<le> length d \<Longrightarrow> vec_store_loop (\<lambda>i. Inr 0) 0 0 n d = Inr (replicate n 0 @ drop n d)"
  using store_loop_Inr[of 0 n "\<lambda>i. Inr 0" "\<lambda>i. 0" 0 d] by (simp add: map_replicate_const vec_store_loop_eq)

lemma drop_used:
  assumes "bn_inv b"
  shows "drop (bn_used_digits b) (bn_bigits b) = replicate (kBigitCapacity - bn_used_digits b) 0"
proof (intro nth_equalityI)
  fix i assume "i < length (drop (bn_used_digits b) (bn_bigits b))"
  then show "drop (bn_used_digits b) (bn_bigits b) ! i = replicate (kBigitCapacity - bn_used_digits b) 0 ! i"
    using assms bval_below_iff[of "bn_bigits b" "bn_used_digits b"] by (auto simp: bn_inv_def)
qed (use assms in \<open>simp add: bn_inv_def\<close>)

lemma Zero_spec: "bn_inv b \<Longrightarrow> Zero b = Inr bn_new"
proof -
  assume b: "bn_inv b"
  have u: "bn_used_digits b \<le> length (bn_bigits b)" using used_le_capacity[OF b] b by (simp add: bn_inv_def)
  show ?thesis using zero_fill[OF u] drop_used[OF b] used_le_capacity[OF b]
    by (simp add: Zero_def bn_new_def flip: replicate_add)
qed

lemma move_up_loop_spec:
  assumes "n + z \<le> length d"
  shows "\<exists>d'. move_up_loop z d n = Inr d' \<and> length d' = length d \<and> drop z d' = take n d @ drop (n + z) d"
  using assms
proof (induction n arbitrary: d)
  case 0
  then show ?case by simp
next
  case (Suc n)
  let ?d = "d[n + z := d ! n]"
  obtain d' where d': "move_up_loop z ?d n = Inr d'" "length d' = length d" "drop z d' = take n ?d @ drop (n + z) ?d"
    using Suc.IH[of ?d] Suc.prems by auto
  have "drop (n + z) ?d = d ! n # drop (Suc n + z) d"
    using Suc.prems by (simp add: drop_update_swap Cons_nth_drop_Suc[symmetric])
  then have "drop z d' = take (Suc n) d @ drop (Suc n + z) d"
    using d'(3) Suc.prems by (cases z) (auto simp: take_Suc_conv_app_nth)
  then show ?case using d'(1,2) Suc.prems by simp
qed

lemma Align_spec:
  assumes b: "bn_inv b" and fits: "bn_used_digits b + (bn_exponent b - bn_exponent other) \<le> kBigitCapacity"
  shows "\<exists>b'. Align b other = Inr b' \<and> bn_inv b' \<and> bn_value b' = bn_value b \<and> bn_exponent b' \<le> bn_exponent other
    \<and> bn_exponent b' = min (bn_exponent b) (bn_exponent other) \<and> BigitLength b' = BigitLength b"
proof (cases "bn_exponent b > bn_exponent other")
  case False
  then show ?thesis using b by (simp add: Align_def)
next
  case True
  define z where "z = bn_exponent b - bn_exponent other"
  let ?d = "bn_bigits b" and ?n = "bn_used_digits b"
  have l: "length ?d = kBigitCapacity" "bigits_ok ?d" using b by (auto simp: bn_inv_def)
  have n0: "?n \<noteq> 0" using b True by (auto simp: bn_inv_def)
  obtain d1 where d1: "move_up_loop z ?d ?n = Inr d1" "length d1 = kBigitCapacity" "drop z d1 = take ?n ?d @ drop (?n + z) ?d"
    using move_up_loop_spec[of ?n z ?d] fits l by (auto simp: z_def)
  define d2 where "d2 = replicate z 0 @ take ?n ?d @ drop (?n + z) ?d"
  have z2: "vec_store_loop (\<lambda>i. Inr 0) 0 0 z d1 = Inr d2"
    using zero_fill[of z d1] d1 fits by (simp add: d2_def z_def)
  define b' where "b' = b\<lparr>bn_bigits := d2, bn_used_digits := ?n + z, bn_exponent := bn_exponent b - z\<rparr>"
  have "drop (?n + z) ?d = replicate (kBigitCapacity - ?n - z) 0"
  proof -
    have "drop (?n + z) ?d = drop z (drop ?n ?d)" by (simp add: add.commute)
    then show ?thesis unfolding drop_used[OF b] by simp
  qed
  moreover have "bval (take ?n ?d) = bval ?d" using b by (intro bval_take) (auto simp: bn_inv_def)
  ultimately have v: "bval d2 = radix ^ z * bval ?d"
    by (simp add: d2_def bval_append)
  have len: "length d2 = kBigitCapacity" using fits l by (simp add: d2_def z_def)
  have ok: "bigits_ok d2" using l(2) by (simp add: d2_def bigits_ok_sub)
  have "bval d2 < radix ^ (?n + z)" using b by (simp add: v power_add bn_inv_def mult.commute)
  moreover have "radix ^ (?n + z - 1) \<le> bval d2"
  proof -
    have "radix ^ (?n + z - 1) = radix ^ z * radix ^ (?n - 1)" using n0 by (simp flip: power_add add: add.commute)
    also have "\<dots> \<le> bval d2" unfolding v using b n0 by (intro mult_le_mono2) (auto simp: bn_inv_def)
    finally show ?thesis .
  qed
  ultimately have "bn_inv b'" using len ok n0 by (simp add: bn_inv_def b'_def)
  moreover have "bn_value b' = bn_value b"
  proof -
    have "radix ^ bn_exponent b = radix ^ z * radix ^ (bn_exponent b - z)" using True by (simp add: z_def flip: power_add)
    then show ?thesis by (simp add: bn_value_def b'_def v)
  qed
  moreover have "Align b other = Inr b'"
    using True fits d1(1) z2 unfolding Align_def by (simp add: Let_def EnsureCapacity_def b'_def flip: z_def)
  ultimately show ?thesis using True by (auto simp: b'_def z_def BigitLength_def)
qed

section \<open>Assignment\<close>

lemma AssignUInt16_spec:
  assumes "bn_inv b" "v < 2 ^ 16"
  shows "\<exists>b'. AssignUInt16 v b = Inr b' \<and> bn_inv b' \<and> bn_value b' = v \<and> bn_exponent b' = 0 \<and> bn_used_digits b' \<le> 1"
proof (cases "v = 0")
  case True
  then show ?thesis using bn_new_inv
    by (simp add: AssignUInt16_def ASSERT_def kBigitSize_def Zero_spec[OF assms(1)]) (simp add: bn_new_def)
next
  case False
  define d where "d = v # replicate 127 0"
  have d: "(replicate kBigitCapacity 0)[0 := v] = d" by (simp add: d_def capacity numeral_eq_Suc)
  have "v < radix" using assms(2) by (simp add: radix_val)
  moreover have "bval d = v" by (simp add: d_def)
  ultimately have "bn_inv \<lparr>bn_bigits = d, bn_used_digits = 1, bn_exponent = 0\<rparr>"
    using False by (simp add: bn_inv_def capacity d_def) (auto simp: bigits_ok_def)
  then show ?thesis using False d \<open>bval d = v\<close>
    by (simp add: AssignUInt16_def ASSERT_def kBigitSize_def Zero_spec[OF assms(1)] EnsureCapacity_def capacity
        bn_new_def bn_value_def)
qed

lemma assign_loop_spec:
  assumes "i + n \<le> length d" "bigits_ok d" "\<forall>j. i \<le> j \<longrightarrow> j < length d \<longrightarrow> d ! j = 0" "v < radix ^ n"
  shows "\<exists>d'. assign_loop d i n v = Inr d' \<and> length d' = length d \<and> bigits_ok d' \<and> bval d' = bval d + v * radix ^ i"
  using assms
proof (induction n arbitrary: d i v)
  case 0
  then show ?case by simp
next
  case (Suc n)
  let ?d = "d[i := v mod radix]"
  have "v div radix < radix ^ n" using Suc.prems(4) by (simp add: div_less_iff_less_mult mult.commute)
  then obtain d' where d': "assign_loop ?d (i + 1) n (v div radix) = Inr d'" "length d' = length d" "bigits_ok d'"
      "bval d' = bval ?d + (v div radix) * radix ^ (i + 1)"
    using Suc.IH[of "i + 1" ?d "v div radix"] Suc.prems by (auto simp: bigits_ok_update)
  have "bval ?d = bval d + v mod radix * radix ^ i" using bval_update[of i d "v mod radix"] Suc.prems by simp
  then have "bval d' = bval d + v * radix ^ i"
    using d'(4) bigit_split_scaled[of v "radix ^ i"] by simp
  then show ?case using d' Suc.prems by (simp add: radix_ops)
qed

lemma AssignUInt64_spec:
  assumes "bn_inv b" "v < 2 ^ 64"
  shows "\<exists>b'. AssignUInt64 v b = Inr b' \<and> bn_inv b' \<and> bn_value b' = v \<and> bn_exponent b' = 0"
proof (cases "v = 0")
  case True
  then show ?thesis by (simp add: AssignUInt64_def Zero_spec[OF assms(1)]) (simp add: bn_new_def)
next
  case False
  have n: "64 div kBigitSize + 1 = 3" by (simp add: kBigitSize_def)
  have "v < radix ^ 3" using assms(2) by (simp add: radix_val)
  then obtain d where d: "assign_loop (bn_bigits bn_new) 0 3 v = Inr d" "length d = kBigitCapacity" "bigits_ok d" "bval d = v"
    using assign_loop_spec[of 0 3 "bn_bigits bn_new" v] by (auto simp: bn_new_def capacity)
  define b1 where "b1 = bn_new\<lparr>bn_bigits := d, bn_used_digits := 3\<rparr>"
  obtain b' where b': "Clamp b1 = Inr b'" "bn_inv b'" "bn_value b' = bn_value b1"
    using Clamp_spec[of b1] d \<open>v < radix ^ 3\<close> by (auto simp: b1_def capacity)
  have "bn_exponent b' = 0" using b'(1) by (auto simp: Clamp_def b1_def bn_new_def)
  moreover have "AssignUInt64 v b = Inr b'"
    using False d(1) b'(1) by (simp add: AssignUInt64_def Zero_spec[OF assms(1)] n[simplified] EnsureCapacity_def capacity b1_def)
  ultimately show ?thesis using b' d(4) by (simp add: b1_def bn_value_def bn_new_def)
qed

lemma AssignBignum_spec:
  assumes "bn_inv b" "bn_inv other"
  shows "AssignBignum other b = Inr other"
proof -
  let ?n = "bn_used_digits other" and ?m = "bn_used_digits b" and ?d = "bn_bigits b" and ?e = "bn_bigits other"
  have l: "length ?d = kBigitCapacity" "length ?e = kBigitCapacity" using assms by (auto simp: bn_inv_def)
  have u: "?n \<le> kBigitCapacity" "?m \<le> kBigitCapacity" using assms used_le_capacity by auto
  let ?d1 = "take ?n ?e @ drop ?n ?d"
  have "vec_store_loop (vec_rd ?e) 0 0 ?n ?d = Inr ?d1"
    using store_loop_Inr[of 0 ?n "vec_rd ?e" "\<lambda>i. ?e ! i" 0 ?d] l u map_nth_take[of ?n ?e] by (simp add: vec_store_loop_eq)
  moreover have "vec_store_loop (\<lambda>i. Inr 0) 0 ?n (?m - ?n) ?d1 = Inr ?e"
  proof -
    have "vec_store_loop (\<lambda>i. Inr 0) 0 ?n (?m - ?n) ?d1 =
        Inr (take ?n ?d1 @ map (\<lambda>i. 0) [?n..<?n + (?m - ?n)] @ drop (?n + (?m - ?n)) ?d1)"
      using store_loop_Inr[of ?n "?m - ?n" "\<lambda>i. Inr 0" "\<lambda>i. 0" 0 ?d1] l u by (simp add: vec_store_loop_eq)
    moreover have "map (\<lambda>i. 0) [?n..<?n + (?m - ?n)] = replicate (?m - ?n) (0 :: nat)" by (simp add: map_replicate_const)
    moreover have "drop (?n + (?m - ?n)) ?d1 = replicate (kBigitCapacity - ?n - (?m - ?n)) 0"
    proof -
      have "drop (?n + (?m - ?n)) ?d1 = drop (?n + (?m - ?n)) ?d" using l u by (simp add: add.commute)
      also have "\<dots> = drop (?n - ?m) (drop ?m ?d)" by (cases "?n \<le> ?m") (simp_all add: add.commute)
      finally show ?thesis unfolding drop_used[OF assms(1)] by simp
    qed
    moreover have "take ?n ?e @ replicate (?m - ?n) 0 @ replicate (kBigitCapacity - ?n - (?m - ?n)) 0 = ?e"
      using append_take_drop_id[of ?n ?e] u unfolding drop_used[OF assms(2)] by (simp flip: replicate_add)
    ultimately show ?thesis using l u by simp
  qed
  ultimately show ?thesis by (simp add: AssignBignum_def)
qed

section \<open>Addition\<close>

text \<open>Replacing the bigit \<open>i\<close> by the low part of a sum and carrying the high part.\<close>

lemma bval_carry:
  assumes "i < length d" "d ! i + y = s"
  shows "bval (d[i := s mod radix]) + (s div radix) * radix ^ Suc i = bval d + y * radix ^ i"
proof -
  have "bval (d[i := s mod radix]) + (s div radix) * radix ^ Suc i + d ! i * radix ^ i
      = bval d + ((s mod radix) * radix ^ i + (s div radix) * (radix * radix ^ i))"
    using bval_update[OF assms(1), of "s mod radix"] by simp
  also have "\<dots> = bval d + (d ! i + y) * radix ^ i" unfolding bigit_split_scaled assms(2) ..
  finally show ?thesis by (simp add: distrib_right)
qed

lemma bval_take_Suc:
  "i < length xs \<Longrightarrow> bval (take (Suc n) (drop i xs)) = xs ! i + radix * bval (take n (drop (Suc i) xs))"
  by (simp add: Cons_nth_drop_Suc[symmetric])

lemma add_loop_spec:
  assumes "bigits_ok d" "bigits_ok other" "i + n \<le> length other" "pos + n \<le> length d" "carry \<le> 1"
  shows "\<exists>d' c. add_loop other i n d pos carry = Inr (d', pos + n, c) \<and> length d' = length d \<and> bigits_ok d' \<and> c \<le> 1
    \<and> (\<forall>j. pos + n \<le> j \<longrightarrow> d' ! j = d ! j)
    \<and> bval d' + c * radix ^ (pos + n) = bval d + (bval (take n (drop i other)) + carry) * radix ^ pos"
  using assms
proof (induction n arbitrary: i d pos carry)
  case 0
  then show ?case by (simp add: algebra_simps)
next
  case (Suc n)
  let ?s = "d ! pos + other ! i + carry"
  let ?d = "d[pos := ?s mod radix]"
  have b: "d ! pos < radix" "other ! i < radix" using Suc.prems by (auto intro: bigits_ok_nth)
  then have lt: "?s < 2 * radix" using Suc.prems(5) by simp
  then have ch: "chunk ?s = ?s" by (intro chunk_id) simp
  have c1: "?s div radix \<le> 1" using lt by (simp add: div_less_iff_less_mult flip: less_Suc_eq_le)
  obtain d' c where d': "add_loop other (i + 1) n ?d (pos + 1) (?s div radix) = Inr (d', pos + 1 + n, c)"
      "length d' = length d" "bigits_ok d'" "c \<le> 1" "\<forall>j. pos + 1 + n \<le> j \<longrightarrow> d' ! j = ?d ! j"
      "bval d' + c * radix ^ (pos + 1 + n) = bval ?d + (bval (take n (drop (i + 1) other)) + ?s div radix) * radix ^ (pos + 1)"
    using Suc.IH[of ?d "i + 1" "pos + 1" "?s div radix"] Suc.prems c1 by (auto simp: bigits_ok_update)
  have "bval ?d + (?s div radix) * radix ^ Suc pos = bval d + (other ! i + carry) * radix ^ pos"
    using Suc.prems by (intro bval_carry) auto
  moreover have "bval (take (Suc n) (drop i other)) = other ! i + radix * bval (take n (drop (i + 1) other))"
    using bval_take_Suc[of i other n] Suc.prems by simp
  ultimately have "bval d' + c * radix ^ (pos + Suc n) =
      bval d + (bval (take (Suc n) (drop i other)) + carry) * radix ^ pos"
    using d'(6) by (simp add: algebra_simps)
  then show ?case using d' Suc.prems ch by (auto simp: radix_ops)
qed

lemma bval_power_le_length: "radix ^ p \<le> bval d \<Longrightarrow> bigits_ok d \<Longrightarrow> p < length d"
  using bval_less[of d] power_less_radix[of p "length d"] by linarith

lemma add_carry_loop_spec:
  assumes "bigits_ok d" "carry \<le> 1" "bval d + carry * radix ^ pos < radix ^ length d"
  shows "\<exists>d' p. add_carry_loop d pos carry = Inr (d', p) \<and> length d' = length d \<and> bigits_ok d' \<and> pos \<le> p
    \<and> (\<forall>j. p \<le> j \<longrightarrow> d' ! j = d ! j) \<and> bval d' = bval d + carry * radix ^ pos
    \<and> (pos < p \<longrightarrow> radix ^ (p - 1) \<le> bval d')"
  using assms
proof (induction "length d - pos" arbitrary: d pos carry rule: less_induct)
  case less
  show ?case
  proof (cases "carry = 0")
    case True
    then show ?thesis using less.prems by (simp add: add_carry_loop.simps)
  next
    case False
    then have c: "carry = 1" using less.prems by simp
    then have "bval d + radix ^ pos < radix ^ length d" using less.prems(3) by simp
    then have "radix ^ pos < radix ^ length d" by linarith
    then have p: "pos < length d" by (simp only: power_less_radix)
    let ?s = "d ! pos + 1"
    let ?d = "d[pos := ?s mod radix]"
    have b: "d ! pos < radix" using less.prems p by (auto intro: bigits_ok_nth)
    have ch: "chunk ?s = ?s" using b by (intro chunk_id) simp
    have c1: "?s div radix \<le> 1" using b by (simp add: div_less_iff_less_mult flip: less_Suc_eq_le)
    have v: "bval ?d + (?s div radix) * radix ^ Suc pos = bval d + 1 * radix ^ pos" using p by (intro bval_carry) auto
    obtain d' q where d': "add_carry_loop ?d (pos + 1) (?s div radix) = Inr (d', q)" "length d' = length d" "bigits_ok d'"
        "pos + 1 \<le> q" "\<forall>j. q \<le> j \<longrightarrow> d' ! j = ?d ! j" "bval d' = bval ?d + (?s div radix) * radix ^ (pos + 1)"
        "pos + 1 < q \<longrightarrow> radix ^ (q - 1) \<le> bval d'"
    proof -
      have "length ?d - (pos + 1) < length d - pos" using p by simp
      moreover have "bigits_ok ?d" using less.prems(1) by (simp add: bigits_ok_update)
      moreover have "bval ?d + (?s div radix) * radix ^ (pos + 1) < radix ^ length ?d" using v less.prems(3) c by simp
      ultimately have "\<exists>d' q. add_carry_loop ?d (pos + 1) (?s div radix) = Inr (d', q) \<and> length d' = length ?d \<and> bigits_ok d' \<and> pos + 1 \<le> q
        \<and> (\<forall>j. q \<le> j \<longrightarrow> d' ! j = ?d ! j) \<and> bval d' = bval ?d + (?s div radix) * radix ^ (pos + 1)
        \<and> (pos + 1 < q \<longrightarrow> radix ^ (q - 1) \<le> bval d')"
        using c1 less.hyps[of ?d "pos + 1" "?s div radix"] by blast
      then show thesis using that by (metis length_list_update)
    qed
    have "bval d' = bval d + radix ^ pos" using d'(6) v by simp
    moreover from this have "radix ^ (q - 1) \<le> bval d'" using d'(4,7) by (cases "pos + 1 = q") auto
    ultimately show ?thesis using d' p c ch
      by (subst add_carry_loop.simps) (auto simp: radix_ops)
  qed
qed

lemma inv_of_bounds:
  assumes "length d = kBigitCapacity" "bigits_ok d" "\<forall>j. n \<le> j \<longrightarrow> j < length d \<longrightarrow> d ! j = 0"
    "n = 0 \<or> radix ^ (n - 1) \<le> bval d" "n = 0 \<longrightarrow> bn_exponent b = 0"
  shows "bn_inv (b\<lparr>bn_bigits := d, bn_used_digits := n\<rparr>)"
  using assms bval_below_iff[OF assms(2), of n] by (simp add: bn_inv_def)

definition add_fits :: "bignum \<Rightarrow> bignum \<Rightarrow> bool" where
  "add_fits b other \<longleftrightarrow>
     1 + max (BigitLength b) (BigitLength other) - min (bn_exponent b) (bn_exponent other) \<le> kBigitCapacity"

lemma sum_below:
  assumes "x < radix ^ n" "y < radix ^ m" "1 + max n (off + m) \<le> l"
  shows "x + y * radix ^ off < radix ^ l"
proof -
  let ?k = "max n (off + m)"
  have "x < radix ^ ?k" by (rule less_le_trans[OF assms(1) power_le_radix]) simp
  moreover have "y * radix ^ off < radix ^ ?k"
  proof -
    have "y * radix ^ off < radix ^ (m + off)" using assms(2) by (simp add: power_add)
    also have "\<dots> \<le> radix ^ ?k" by (rule power_le_radix) simp
    finally show ?thesis .
  qed
  ultimately have "x + y * radix ^ off < 2 * radix ^ ?k" by simp
  also have "\<dots> \<le> radix * radix ^ ?k" by (rule mult_le_mono1) (simp add: radix_val)
  also have "\<dots> \<le> radix ^ l" using power_le_radix[of "Suc ?k" l] assms(3) by simp
  finally show ?thesis .
qed

text \<open>The two loops of \<^verbatim>\<open>AddBignum\<close> on arrays with \<open>n\<close> and \<open>m\<close> digits.\<close>

lemma add_arrays:
  assumes d: "bigits_ok d" "bval d < radix ^ n" "n = 0 \<or> radix ^ (n - 1) \<le> bval d"
    and e: "bigits_ok e" "bval e < radix ^ m" "m = 0 \<or> radix ^ (m - 1) \<le> bval e" "m = 0 \<longrightarrow> off = 0"
    and cap: "1 + max n (off + m) \<le> length d" "m \<le> length e"
  shows "\<exists>d1 c d2 p. add_loop e 0 m d off 0 = Inr (d1, off + m, c) \<and> add_carry_loop d1 (off + m) c = Inr (d2, p)
    \<and> length d2 = length d \<and> bigits_ok d2 \<and> bval d2 = bval d + bval e * radix ^ off
    \<and> (\<forall>j. max p n \<le> j \<longrightarrow> j < length d2 \<longrightarrow> d2 ! j = 0) \<and> (max p n = 0 \<or> radix ^ (max p n - 1) \<le> bval d2)"
proof -
  have te: "bval (take m e) = bval e" by (rule bval_take[OF e(1,2)])
  have om: "off + m \<le> length d" "0 + m \<le> length e" using cap by (auto simp: max_def split: if_splits)
  obtain d1 c where d1: "add_loop e 0 m d off 0 = Inr (d1, off + m, c)" "length d1 = length d" "bigits_ok d1" "c \<le> 1"
      "\<forall>j. off + m \<le> j \<longrightarrow> d1 ! j = d ! j" "bval d1 + c * radix ^ (off + m) = bval d + bval e * radix ^ off"
    using add_loop_spec[OF d(1) e(1) om(2) om(1), of 0] te by auto
  obtain d2 p where d2: "add_carry_loop d1 (off + m) c = Inr (d2, p)" "length d2 = length d" "bigits_ok d2" "off + m \<le> p"
      "\<forall>j. p \<le> j \<longrightarrow> d2 ! j = d1 ! j" "bval d2 = bval d + bval e * radix ^ off"
      "off + m < p \<longrightarrow> radix ^ (p - 1) \<le> bval d2"
    using add_carry_loop_spec[OF d1(3,4), of "off + m"] d1(2,6) sum_below[OF d(2) e(2) cap(1)] by auto
  have zeros: "\<forall>j. max p n \<le> j \<longrightarrow> j < length d2 \<longrightarrow> d2 ! j = 0"
    using d2(2,4,5) d1(5) d(2) bval_below_iff[OF d(1), of n] by auto
  have "max p n = 0 \<or> radix ^ (max p n - 1) \<le> bval d2"
  proof (cases "p \<le> n \<or> off + m < p")
    case True
    then show ?thesis using d(3) d2(6,7) by (auto simp: max_def)
  next
    case False
    then have p: "p = off + m" and m: "m \<noteq> 0" and np: "n < p" using d2(4) e(4) by auto
    have "radix ^ (p - 1) = radix ^ (m - 1) * radix ^ off" using m p by (simp add: add.commute flip: power_add)
    also have "\<dots> \<le> bval e * radix ^ off" using e(3) m by simp
    finally have "radix ^ (p - 1) \<le> bval d2" using d2(6) by linarith
    then show ?thesis using np by (simp add: max_def)
  qed
  then show ?thesis using d1(1) d2 zeros by blast
qed

lemma AddBignum_spec:
  assumes b0: "bn_inv b0" and other: "bn_inv other" and fits: "add_fits b0 other"
  shows "\<exists>b'. AddBignum other b0 = Inr b' \<and> bn_inv b' \<and> bn_value b' = bn_value b0 + bn_value other"
proof -
  have "bn_used_digits b0 + (bn_exponent b0 - bn_exponent other) \<le> kBigitCapacity"
    using fits used_le_capacity[OF b0] by (auto simp: add_fits_def BigitLength_def min_def split: if_splits)
  then obtain b where b: "Align b0 other = Inr b" "bn_inv b" "bn_value b = bn_value b0"
      "bn_exponent b = min (bn_exponent b0) (bn_exponent other)" "BigitLength b = BigitLength b0"
    using Align_spec[OF b0] by blast
  define off where "off = bn_exponent other - bn_exponent b"
  have le: "bn_exponent b \<le> bn_exponent other" using b(4) by simp
  have cap: "1 + max (bn_used_digits b) (off + bn_used_digits other) \<le> length (bn_bigits b)"
    using fits b(2,4,5) le by (auto simp: add_fits_def BigitLength_def off_def bn_inv_def)
  have m: "bn_used_digits other \<le> length (bn_bigits other)"
    using used_le_capacity[OF other] other by (simp add: bn_inv_def)
  obtain d1 c d2 p where d: "add_loop (bn_bigits other) 0 (bn_used_digits other) (bn_bigits b) off 0 = Inr (d1, off + bn_used_digits other, c)"
      "add_carry_loop d1 (off + bn_used_digits other) c = Inr (d2, p)" "length d2 = length (bn_bigits b)" "bigits_ok d2"
      "bval d2 = bval (bn_bigits b) + bval (bn_bigits other) * radix ^ off"
      "\<forall>j. max p (bn_used_digits b) \<le> j \<longrightarrow> j < length d2 \<longrightarrow> d2 ! j = 0"
      "max p (bn_used_digits b) = 0 \<or> radix ^ (max p (bn_used_digits b) - 1) \<le> bval d2"
    using add_arrays[OF _ _ _ _ _ _ _ cap m] b(2) other by (auto simp: bn_inv_def off_def)
  define b' where "b' = b\<lparr>bn_bigits := d2, bn_used_digits := max p (bn_used_digits b)\<rparr>"
  have inv: "bn_inv b'"
    unfolding b'_def by (rule inv_of_bounds[OF _ d(4,6,7)]) (use b(2) d(3) in \<open>auto simp: bn_inv_def\<close>)
  have "radix ^ bn_exponent other = radix ^ off * radix ^ bn_exponent b" using le by (simp add: off_def flip: power_add)
  then have v: "bn_value b' = bn_value b0 + bn_value other"
    unfolding b(3)[symmetric] using d(5) by (simp add: bn_value_def b'_def algebra_simps)
  have "1 + max (BigitLength b) (BigitLength other) - bn_exponent b \<le> kBigitCapacity"
    using fits b(4,5) by (simp add: add_fits_def)
  then have "AddBignum other b0 = bindE (ASSERT_IsClamped b') (\<lambda>_. Inr b')"
    using b(1) d(1,2) le
    by (simp add: AddBignum_def IsClamped_inv[OF b0] IsClamped_inv[OF other] EnsureCapacity_def ASSERT_def
        off_def b'_def Let_def)
  then show ?thesis using IsClamped_inv[OF inv] inv v by simp
qed

section \<open>Comparison\<close>

definition bigit :: "nat \<Rightarrow> nat \<Rightarrow> nat" where
  "bigit x i = x div radix ^ i mod radix"

definition cmp :: "nat \<Rightarrow> nat \<Rightarrow> int" where
  "cmp x y = (if x < y then - 1 else if x > y then 1 else 0)"

lemma bval_bigit:
  assumes "bigits_ok d" "i < length d"
  shows "bigit (bval d) i = d ! i"
proof -
  have "drop i d = d ! i # drop (Suc i) d" using assms(2) by (simp add: Cons_nth_drop_Suc)
  then have "bval d = bval (take i d) + radix ^ i * (d ! i + radix * bval (drop (Suc i) d))"
    using bval_split[of d i] assms(2) by simp
  moreover have "bval (take i d) < radix ^ i"
    using bval_less[OF bigits_ok_sub(1)[OF assms(1)], of i] assms(2) by simp
  ultimately have "bval d div radix ^ i = d ! i + radix * bval (drop (Suc i) d)" by simp
  then show ?thesis using bigits_ok_nth[OF assms] by (simp add: bigit_def)
qed

lemma BigitAt_spec:
  assumes "bn_inv b"
  shows "BigitAt b i = Inr (bigit (bn_value b) i)"
proof -
  have ok: "bigits_ok (bn_bigits b)" "length (bn_bigits b) = kBigitCapacity" using assms by (auto simp: bn_inv_def)
  consider "i \<ge> BigitLength b" | "i < bn_exponent b" | "bn_exponent b \<le> i" "i < BigitLength b" by linarith
  then show ?thesis
  proof cases
    case 1
    have "bn_value b < radix ^ i" by (rule less_le_trans[OF bn_value_bounds(1)[OF assms] power_le_radix[OF 1]])
    then show ?thesis using 1 by (simp add: BigitAt_def bigit_def)
  next
    case 2
    then have "radix ^ bn_exponent b = radix ^ i * (radix * radix ^ (bn_exponent b - Suc i))"
      by (simp flip: power_add power_Suc)
    then have "bn_value b = radix ^ i * (radix * (bval (bn_bigits b) * radix ^ (bn_exponent b - Suc i)))"
      by (simp add: bn_value_def)
    then show ?thesis using 2 by (simp add: BigitAt_def bigit_def)
  next
    case 3
    then have "radix ^ i = radix ^ bn_exponent b * radix ^ (i - bn_exponent b)" by (simp flip: power_add)
    then have "bigit (bn_value b) i = bigit (bval (bn_bigits b)) (i - bn_exponent b)"
      by (simp add: bigit_def bn_value_def div_mult2_eq)
    moreover have "i - bn_exponent b < length (bn_bigits b)"
      using 3 used_le_capacity[OF assms] ok(2) by (simp add: BigitLength_def)
    ultimately show ?thesis using 3 bval_bigit[OF ok(1)] by (simp add: BigitAt_def)
  qed
qed

lemma part_Suc: "x div radix ^ lo mod radix ^ Suc n = bigit x (lo + n) * radix ^ n + x div radix ^ lo mod radix ^ n"
proof -
  have "x div radix ^ lo mod (radix ^ n * radix) = radix ^ n * (x div radix ^ lo div radix ^ n mod radix) + x div radix ^ lo mod radix ^ n"
    by (rule mod_mult2_eq)
  then show ?thesis by (simp add: bigit_def div_mult2_eq power_add mult.commute)
qed

lemma lex_less:
  fixes a b x y m :: nat
  assumes "x < m" "y < m" "a < b"
  shows "a * m + x < b * m + y"
proof -
  have "a * m + x < Suc a * m" using assms(1) by simp
  also have "\<dots> \<le> b * m" using assms(3) by (intro mult_le_mono1) simp
  finally show ?thesis by simp
qed

lemma cmp_lex:
  assumes "x < m" "y < m"
  shows "cmp (a * m + x) (b * m + y) = (if a < b then - 1 else if b < a then 1 else cmp x y)"
proof (cases a b rule: linorder_cases)
  case less
  then show ?thesis using lex_less[OF assms less] by (simp add: cmp_def)
next
  case greater
  have "b * m + y < a * m + x" by (rule lex_less[OF assms(2,1) greater])
  then show ?thesis using greater by (simp add: cmp_def)
qed (simp add: cmp_def)

lemma compare_loop_spec:
  assumes "bn_inv a" "bn_inv b"
  shows "compare_loop a b lo n = Inr (cmp (bn_value a div radix ^ lo mod radix ^ n) (bn_value b div radix ^ lo mod radix ^ n))"
proof (induction n)
  case 0
  then show ?case by (simp add: cmp_def)
next
  case (Suc n)
  then show ?case unfolding part_Suc
    by (simp add: BigitAt_spec[OF assms(1)] BigitAt_spec[OF assms(2)] cmp_lex)
qed

lemma value_multiple: "lo \<le> bn_exponent b \<Longrightarrow> bn_value b = bn_value b div radix ^ lo * radix ^ lo"
proof -
  assume "lo \<le> bn_exponent b"
  then have "radix ^ bn_exponent b = radix ^ (bn_exponent b - lo) * radix ^ lo" by (simp flip: power_add)
  then show ?thesis by (simp add: bn_value_def)
qed

lemma cmp_mult: "0 < m \<Longrightarrow> cmp (x * m) (y * m) = cmp x y"
  by (simp add: cmp_def)

lemma part_id: "x < radix ^ l \<Longrightarrow> lo \<le> l \<Longrightarrow> x div radix ^ lo mod radix ^ (l - lo) = x div radix ^ lo"
  by (simp add: div_less_iff_less_mult flip: power_add)

lemma longer_greater:
  assumes "bn_inv a" "bn_inv b" "BigitLength a < BigitLength b"
  shows "bn_value a < bn_value b"
proof -
  have "bn_used_digits b \<noteq> 0" using assms by (auto simp: bn_inv_def BigitLength_def)
  have "bn_value a < radix ^ BigitLength a" by (rule bn_value_bounds(1)[OF assms(1)])
  also have "\<dots> \<le> radix ^ (BigitLength b - 1)" using assms(3) by (intro power_le_radix) simp
  also have "\<dots> \<le> bn_value b" by (rule bn_value_bounds(2)[OF assms(2) \<open>bn_used_digits b \<noteq> 0\<close>])
  finally show ?thesis .
qed

lemma Compare_spec:
  assumes "bn_inv a" "bn_inv b"
  shows "bn_Compare a b = Inr (cmp (bn_value a) (bn_value b))"
proof (cases "BigitLength a = BigitLength b")
  case False
  then show ?thesis
    using longer_greater[OF assms] longer_greater[OF assms(2,1)]
    by (auto simp: bn_Compare_def IsClamped_inv[OF assms(1)] IsClamped_inv[OF assms(2)] cmp_def neq_iff)
next
  case True
  define lo where "lo = min (bn_exponent a) (bn_exponent b)"
  have lo: "lo \<le> bn_exponent a" "lo \<le> bn_exponent b" "lo \<le> BigitLength a" by (auto simp: lo_def BigitLength_def)
  have "bn_Compare a b = compare_loop a b lo (BigitLength a - lo)"
    using True by (simp add: bn_Compare_def IsClamped_inv[OF assms(1)] IsClamped_inv[OF assms(2)] lo_def Let_def)
  also have "\<dots> = Inr (cmp (bn_value a div radix ^ lo) (bn_value b div radix ^ lo))"
    using compare_loop_spec[OF assms] part_id[OF bn_value_bounds(1)[OF assms(1)] lo(3)]
      part_id[OF bn_value_bounds(1)[OF assms(2)], of lo] lo True by simp
  also have "\<dots> = Inr (cmp (bn_value a) (bn_value b))"
    using value_multiple[OF lo(1)] value_multiple[OF lo(2)] cmp_mult[of "radix ^ lo"] by (metis radix_pos(1) zero_less_power)
  finally show ?thesis .
qed

section \<open>Subtraction\<close>

definition top_bit :: "nat \<Rightarrow> nat" where
  "top_bit x = x div (8 * radix)"

lemma drop_top_bit: "drop_bit (kChunkSize - Suc 0) x = top_bit x"
  by (simp add: kChunkSize_def drop_bit_eq_div radix_val top_bit_def)

lemma top_bit_cases: "x < 2 * radix \<Longrightarrow> top_bit x = 0" "14 * radix \<le> x \<Longrightarrow> x < 16 * radix \<Longrightarrow> top_bit x = 1"
proof -
  show "x < 2 * radix \<Longrightarrow> top_bit x = 0" unfolding top_bit_def by simp
  assume "14 * radix \<le> x" "x < 16 * radix"
  then show "top_bit x = 1" unfolding top_bit_def by (intro div_nat_eqI) simp_all
qed

text \<open>The difference of bigits: its low part and its top bit.\<close>

lemma chunk_sub_less: "b < 16 * radix \<Longrightarrow> b \<le> a \<Longrightarrow> a < 16 * radix \<Longrightarrow> chunk_sub a b = a - b"
proof -
  assume h: "b < 16 * radix" "b \<le> a" "a < 16 * radix"
  have "chunk_sub a b = (a + (16 * radix - b)) mod (16 * radix)"
    using h by (simp add: chunk_sub_def chunk_id chunk_size) (simp add: chunk_def chunk_size)
  also have "a + (16 * radix - b) = (a - b) + 16 * radix" using h by simp
  also have "\<dots> mod (16 * radix) = (a - b) mod (16 * radix)" by (rule mod_add_self2)
  also have "\<dots> = a - b" using h by (intro mod_less) simp
  finally show ?thesis .
qed

lemma chunk_sub_wrap: "b < 16 * radix \<Longrightarrow> a < b \<Longrightarrow> chunk_sub a b = 16 * radix + a - b"
  by (simp add: chunk_sub_def chunk_id chunk_size)

lemma mod_radix_wrap: "y \<le> x + radix \<Longrightarrow> (16 * radix + x - y) mod radix = (x + radix - y) mod radix"
proof -
  assume "y \<le> x + radix"
  then have "16 * radix + x - y = (x + radix - y) + radix * 15" by simp
  then show ?thesis by (simp only: mod_mult_self2)
qed

lemma sub_digit:
  assumes "x < radix" "y \<le> radix" "diff = (if y \<le> x then x - y else 16 * radix + x - y)"
  shows "top_bit diff \<le> 1 \<and> diff mod radix + y = x + top_bit diff * radix"
proof (cases "y \<le> x")
  case True
  then show ?thesis using assms by (simp add: top_bit_cases)
next
  case False
  then have d: "diff = 16 * radix + x - y" using assms by simp
  then have "14 * radix \<le> diff" "diff < 16 * radix" using assms False by simp_all
  then have "top_bit diff = 1" by (rule top_bit_cases(2))
  moreover have "diff mod radix = x + radix - y" unfolding d using assms False by (subst mod_radix_wrap) simp_all
  ultimately show ?thesis using assms False by simp
qed

lemma chunk_sub_two:
  assumes "x < radix" "y < radix" "b \<le> 1"
  shows "chunk_sub (chunk_sub x y) b = (if y + b \<le> x then x - (y + b) else 16 * radix + x - (y + b))"
proof (cases "y \<le> x")
  case True
  then have "chunk_sub x y = x - y" using assms by (intro chunk_sub_less) auto
  moreover have "b \<le> x - y \<longleftrightarrow> y + b \<le> x" using True by auto
  moreover have "y + b \<le> x \<Longrightarrow> chunk_sub (x - y) b = x - (y + b)" using assms True by (subst chunk_sub_less) auto
  moreover have "\<not> y + b \<le> x \<Longrightarrow> chunk_sub (x - y) b = 16 * radix + x - (y + b)" using assms True by (subst chunk_sub_wrap) auto
  ultimately show ?thesis by simp
next
  case False
  then have "chunk_sub x y = 16 * radix + x - y" using assms by (intro chunk_sub_wrap) auto
  then show ?thesis using assms False by (subst chunk_sub_less) auto
qed

lemma bval_borrow:
  assumes "i < length d" "x + y = d ! i + c * radix"
  shows "bval (d[i := x]) + y * radix ^ i = bval d + c * radix ^ Suc i"
proof -
  have "bval (d[i := x]) + y * radix ^ i + d ! i * radix ^ i = bval d + (x + y) * radix ^ i"
    using bval_update[OF assms(1), of x] by (simp add: algebra_simps)
  then show ?thesis unfolding assms(2) by (simp add: algebra_simps)
qed

lemma sub_loop_spec:
  assumes "bigits_ok d" "bigits_ok other" "i + n \<le> length other" "i + n + off \<le> length d" "borrow \<le> 1"
  shows "\<exists>d' c. sub_loop other i n d off borrow = Inr (d', c) \<and> length d' = length d \<and> bigits_ok d' \<and> c \<le> 1
    \<and> bval d' + (bval (take n (drop i other)) + borrow) * radix ^ (i + off) = bval d + c * radix ^ (i + n + off)"
  using assms
proof (induction n arbitrary: i d borrow)
  case 0
  then show ?case by (simp add: algebra_simps)
next
  case (Suc n)
  let ?x = "d ! (i + off)" and ?y = "other ! i"
  define diff where "diff = chunk_sub (chunk_sub ?x ?y) borrow"
  define c1 where "c1 = top_bit diff"
  have b: "?x < radix" "?y < radix" using Suc.prems by (auto intro: bigits_ok_nth)
  have s: "c1 \<le> 1" "diff mod radix + (?y + borrow) = ?x + c1 * radix"
    using sub_digit[of ?x "?y + borrow" diff] chunk_sub_two[OF b Suc.prems(5)] b Suc.prems(5) by (simp_all add: diff_def c1_def)
  let ?d = "d[i + off := diff mod radix]"
  obtain d' c where d': "sub_loop other (i + 1) n ?d off c1 = Inr (d', c)" "length d' = length d" "bigits_ok d'" "c \<le> 1"
      "bval d' + (bval (take n (drop (i + 1) other)) + c1) * radix ^ (i + 1 + off) = bval ?d + c * radix ^ (i + 1 + n + off)"
    using Suc.IH[of ?d "i + 1" c1] Suc.prems s(1) by (auto simp: bigits_ok_update)
  have "bval ?d + (?y + borrow) * radix ^ (i + off) = bval d + c1 * radix ^ Suc (i + off)"
    using Suc.prems s(2) by (intro bval_borrow) auto
  moreover have "bval (take (Suc n) (drop i other)) = ?y + radix * bval (take n (drop (i + 1) other))"
    using bval_take_Suc[of i other n] Suc.prems by simp
  ultimately have "bval d' + (bval (take (Suc n) (drop i other)) + borrow) * radix ^ (i + off) = bval d + c * radix ^ (i + Suc n + off)"
    using d'(5) by (simp add: algebra_simps)
  moreover have "ASSERT (borrow = 0 \<or> borrow = 1) = Inr ()" using Suc.prems(5) by (auto simp: ASSERT_def)
  ultimately show ?case using d' Suc.prems by (simp add: radix_ops drop_top_bit Let_def flip: diff_def c1_def)
qed

lemma sub_borrow_loop_spec:
  assumes "bigits_ok d" "borrow \<le> 1" "borrow * radix ^ p \<le> bval d"
  shows "\<exists>d'. sub_borrow_loop d p borrow = Inr d' \<and> length d' = length d \<and> bigits_ok d' \<and> bval d' + borrow * radix ^ p = bval d"
  using assms
proof (induction "length d - p" arbitrary: d p borrow rule: less_induct)
  case less
  show ?case
  proof (cases "borrow = 0")
    case True
    then show ?thesis using less.prems by (simp add: sub_borrow_loop.simps)
  next
    case False
    then have c: "borrow = 1" using less.prems by simp
    then have p: "p < length d" using less.prems bval_power_le_length by simp
    define diff where "diff = chunk_sub (d ! p) 1"
    define c1 where "c1 = top_bit diff"
    have b: "d ! p < radix" using less.prems p by (auto intro: bigits_ok_nth)
    have "diff = (if 1 \<le> d ! p then d ! p - 1 else 16 * radix + d ! p - 1)"
      unfolding diff_def using b chunk_sub_less[of 1 "d ! p"] chunk_sub_wrap[of 1 "d ! p"]
      by (cases "1 \<le> d ! p") (simp_all add: radix_val)
    then have s: "c1 \<le> 1" "diff mod radix + 1 = d ! p + c1 * radix"
      using sub_digit[of "d ! p" 1 diff] b by (simp_all add: c1_def)
    let ?d = "d[p := diff mod radix]"
    have v: "bval ?d + 1 * radix ^ p = bval d + c1 * radix ^ Suc p" using p s(2) by (intro bval_borrow) auto
    have "c1 * radix ^ (p + 1) \<le> bval ?d" using v less.prems(3) c by simp
    moreover have "length ?d - (p + 1) < length d - p" using p by simp
    moreover have "bigits_ok ?d" using less.prems(1) by (simp add: bigits_ok_update)
    ultimately have "\<exists>d'. sub_borrow_loop ?d (p + 1) c1 = Inr d' \<and> length d' = length ?d \<and> bigits_ok d' \<and> bval d' + c1 * radix ^ (p + 1) = bval ?d"
      using less.hyps[of ?d "p + 1" c1] s(1) by blast
    then obtain d' where d': "sub_borrow_loop ?d (p + 1) c1 = Inr d'" "length d' = length d" "bigits_ok d'"
        "bval d' + c1 * radix ^ (p + 1) = bval ?d" by auto
    have "sub_borrow_loop d p borrow = Inr d'"
      using d'(1) p c by (subst sub_borrow_loop.simps) (simp add: radix_ops drop_top_bit Let_def diff_def c1_def)
    moreover have "bval d' + borrow * radix ^ p = bval d" using d'(4) v c by simp
    ultimately show ?thesis using d' by blast
  qed
qed

definition align_fits :: "bignum \<Rightarrow> bignum \<Rightarrow> bool" where
  "align_fits b other \<longleftrightarrow> BigitLength b - min (bn_exponent b) (bn_exponent other) \<le> kBigitCapacity"

lemma align_fits_iff: "bn_inv b \<Longrightarrow> align_fits b other \<longleftrightarrow> bn_used_digits b + (bn_exponent b - bn_exponent other) \<le> kBigitCapacity"
  using used_le_capacity[of b] by (auto simp: align_fits_def BigitLength_def min_def)

text \<open>The subtraction in place, after \<^verbatim>\<open>Align\<close>.\<close>

lemma sub_arrays:
  assumes d: "bigits_ok d" and e: "bigits_ok e" "bval e < radix ^ m" "m \<le> length e"
    and cap: "m + off \<le> length d" and le: "bval e * radix ^ off \<le> bval d"
  shows "\<exists>d1 c d2. sub_loop e 0 m d off 0 = Inr (d1, c) \<and> sub_borrow_loop d1 (m + off) c = Inr d2
    \<and> length d2 = length d \<and> bigits_ok d2 \<and> bval d2 = bval d - bval e * radix ^ off"
proof -
  have te: "bval (take m e) = bval e" by (rule bval_take[OF e(1,2)])
  obtain d1 c where d1: "sub_loop e 0 m d off 0 = Inr (d1, c)" "length d1 = length d" "bigits_ok d1" "c \<le> 1"
      "bval d1 + bval e * radix ^ off = bval d + c * radix ^ (m + off)"
    using sub_loop_spec[OF d e(1), of 0 m off 0] e(3) cap te by auto
  have "c * radix ^ (m + off) \<le> bval d1" using d1(5) le by linarith
  then obtain d2 where d2: "sub_borrow_loop d1 (m + off) c = Inr d2" "length d2 = length d1" "bigits_ok d2"
      "bval d2 + c * radix ^ (m + off) = bval d1"
    using sub_borrow_loop_spec[OF d1(3,4)] by blast
  have "bval d2 = bval d - bval e * radix ^ off" using d1(5) d2(4) by linarith
  then show ?thesis using d1(1,2) d2(1,2,3) by auto
qed

lemma aligned_le:
  assumes "bn_exponent b \<le> bn_exponent other" "bn_value other \<le> bn_value b"
  shows "bval (bn_bigits other) * radix ^ (bn_exponent other - bn_exponent b) \<le> bval (bn_bigits b)"
    and "bn_value other = bval (bn_bigits other) * radix ^ (bn_exponent other - bn_exponent b) * radix ^ bn_exponent b"
proof -
  show v: "bn_value other = bval (bn_bigits other) * radix ^ (bn_exponent other - bn_exponent b) * radix ^ bn_exponent b"
    using assms(1) by (simp add: bn_value_def mult.assoc flip: power_add)
  then show "bval (bn_bigits other) * radix ^ (bn_exponent other - bn_exponent b) \<le> bval (bn_bigits b)"
    using assms(2) unfolding bn_value_def[of b] by (metis mult_le_cancel2 radix_pos(1) zero_less_power)
qed

lemma aligned_length:
  assumes "bn_inv b" "bn_inv other" "bn_exponent b \<le> bn_exponent other" "bn_value other \<le> bn_value b"
  shows "bn_used_digits other + (bn_exponent other - bn_exponent b) \<le> bn_used_digits b"
proof -
  have "\<not> BigitLength b < BigitLength other" using longer_greater[OF assms(1,2)] assms(4) by auto
  then show ?thesis using assms(3) by (simp add: BigitLength_def)
qed

lemma SubtractBignum_spec:
  assumes b0: "bn_inv b0" and other: "bn_inv other" and fits: "align_fits b0 other" and le: "bn_value other \<le> bn_value b0"
  shows "\<exists>b'. SubtractBignum other b0 = Inr b' \<and> bn_inv b' \<and> bn_value b' = bn_value b0 - bn_value other"
proof -
  obtain b where b: "Align b0 other = Inr b" "bn_inv b" "bn_value b = bn_value b0" "bn_exponent b \<le> bn_exponent other"
    using Align_spec[OF b0] fits unfolding align_fits_iff[OF b0] by blast
  define off where "off = bn_exponent other - bn_exponent b"
  have inv: "length (bn_bigits b) = kBigitCapacity" "bigits_ok (bn_bigits b)" "bigits_ok (bn_bigits other)"
      "bval (bn_bigits other) < radix ^ bn_used_digits other" "bn_used_digits other \<le> length (bn_bigits other)"
    using b(2) other used_le_capacity[OF other] by (auto simp: bn_inv_def)
  have u: "bn_used_digits b \<le> kBigitCapacity" by (rule used_le_capacity[OF b(2)])
  note al = aligned_le[OF b(4)] aligned_length[OF b(2) other b(4)]
  have al1: "bval (bn_bigits other) * radix ^ off \<le> bval (bn_bigits b)" and al3: "bn_used_digits other + off \<le> bn_used_digits b"
    and al2: "bn_value other = bval (bn_bigits other) * radix ^ off * radix ^ bn_exponent b"
    using al le b(3) unfolding off_def by auto
  obtain d1 c d2 where d: "sub_loop (bn_bigits other) 0 (bn_used_digits other) (bn_bigits b) off 0 = Inr (d1, c)"
      "sub_borrow_loop d1 (bn_used_digits other + off) c = Inr d2" "length d2 = kBigitCapacity" "bigits_ok d2"
      "bval d2 = bval (bn_bigits b) - bval (bn_bigits other) * radix ^ off"
    using sub_arrays[OF inv(2-5), of off] al1 al3 u inv(1) by auto
  have "bval d2 < radix ^ bn_used_digits b" using d(5) b(2) by (simp add: bn_inv_def less_imp_diff_less)
  then obtain b' where b': "Clamp (b\<lparr>bn_bigits := d2\<rparr>) = Inr b'" "bn_inv b'" "bn_value b' = bn_value (b\<lparr>bn_bigits := d2\<rparr>)"
    using Clamp_spec[of "b\<lparr>bn_bigits := d2\<rparr>"] d u by auto
  have "bn_value b' = bn_value b0 - bn_value other"
    unfolding b'(3) b(3)[symmetric] al2 using d(5) by (simp add: bn_value_def diff_mult_distrib)
  moreover have "bn_LessEqual other b0 = Inr True"
    using le by (simp add: bn_LessEqual_def Compare_spec[OF other b0] cmp_def)
  then have "SubtractBignum other b0 = Inr b'"
    using b(1) d(1,2) b'(1)
    by (simp add: SubtractBignum_def IsClamped_inv[OF b0] IsClamped_inv[OF other] ASSERT_def off_def)
  ultimately show ?thesis using b'(2) by blast
qed

section \<open>Comparison of a sum\<close>

definition part :: "nat \<Rightarrow> nat \<Rightarrow> nat \<Rightarrow> nat" where
  "part lo n x = x div radix ^ lo mod radix ^ n"

lemma part_less: "part lo n x < radix ^ n"
  by (simp add: part_def)

lemma plus_compare_digit:
  fixes a b c w s u r x y z :: nat
  assumes "x < r" "y < r" "z < r" "s = a + b" "u = c + w"
  shows "s > u \<Longrightarrow> cmp ((a * r + x) + (b * r + y)) (u * r + z) = 1"
    and "u > s + 1 \<Longrightarrow> cmp ((a * r + x) + (b * r + y)) (u * r + z) = - 1"
    and "s \<le> u \<Longrightarrow> cmp ((a * r + x) + (b * r + y)) (u * r + z) = cmp (x + y) (z + (u - s) * r)"
proof -
  have l: "(a * r + x) + (b * r + y) = s * r + (x + y)" using assms(4) by (simp add: distrib_right)
  show "cmp ((a * r + x) + (b * r + y)) (u * r + z) = 1" if "s > u"
  proof -
    have "Suc u * r \<le> s * r" using that by (intro mult_le_mono1) simp
    then show ?thesis unfolding l using assms(3) by (simp add: cmp_def)
  qed
  show "cmp ((a * r + x) + (b * r + y)) (u * r + z) = - 1" if "u > s + 1"
  proof -
    have "(s + 2) * r \<le> u * r" using that by (intro mult_le_mono1) simp
    then show ?thesis unfolding l using assms(1,2) by (simp add: cmp_def)
  qed
  show "cmp ((a * r + x) + (b * r + y)) (u * r + z) = cmp (x + y) (z + (u - s) * r)" if "s \<le> u"
  proof -
    have "u * r = s * r + (u - s) * r" using that by (simp flip: distrib_right)
    then show ?thesis unfolding l by (simp add: cmp_def)
  qed
qed

lemma bigit_less: "bigit x i < radix"
  by (simp add: bigit_def)

lemma plus_compare_loop_spec:
  assumes "bn_inv a" "bn_inv b" "bn_inv c" "w \<le> 1"
  shows "plus_compare_loop a b c lo n (w * radix) =
    Inr (cmp (part lo n (bn_value a) + part lo n (bn_value b)) (part lo n (bn_value c) + w * radix ^ n))"
  using assms(4)
proof (induction n arbitrary: w)
  case 0
  then show ?case by (cases w) (auto simp: part_def cmp_def)
next
  case (Suc n)
  let ?a = "bigit (bn_value a) (lo + n)" and ?b = "bigit (bn_value b) (lo + n)" and ?c = "bigit (bn_value c) (lo + n)"
  define s u where "s = ?a + ?b" and "u = ?c + w * radix"
  have lt: "?a < radix" "?b < radix" "?c < radix" by (simp_all add: bigit_less)
  have w: "w * radix \<le> radix" using Suc.prems by (cases w) auto
  have sz: "s < 16 * radix" "u < 16 * radix" using lt w unfolding s_def u_def by linarith+
  have r: "part lo (Suc n) (bn_value c) + w * radix ^ Suc n = u * radix ^ n + part lo n (bn_value c)"
    by (simp add: part_def part_Suc u_def distrib_right del: power_Suc) (simp add: ac_simps)
  have l: "part lo (Suc n) x = bigit x (lo + n) * radix ^ n + part lo n x" for x by (simp add: part_def part_Suc del: power_Suc)
  have step: "plus_compare_loop a b c lo (Suc n) (w * radix) =
      (if s > u then Inr 1 else if chunk_sub u s > 1 then Inr (- 1)
       else plus_compare_loop a b c lo n (chunk (chunk_sub u s * radix)))"
    using chunk_id[OF sz(1)] chunk_id[OF sz(2)] unfolding s_def u_def
    by (simp add: BigitAt_spec[OF assms(1)] BigitAt_spec[OF assms(2)] BigitAt_spec[OF assms(3)] push_kBigitSize Let_def)
  note digit = plus_compare_digit[OF part_less[of lo n "bn_value a"] part_less[of lo n "bn_value b"] part_less[of lo n "bn_value c"] s_def u_def]
  show ?case
  proof (cases "s > u")
    case True
    then show ?thesis using digit(1) unfolding step r unfolding l by simp
  next
    case False
    have cs: "chunk_sub u s = u - s" using False sz by (intro chunk_sub_less) auto
    show ?thesis
    proof (cases "u - s > 1")
      case True
      then show ?thesis using False digit(2) unfolding step r cs unfolding l by simp
    next
      case one: False
      then have "(u - s) * radix \<le> 1 * radix" by (intro mult_le_mono1) simp
      then have "chunk ((u - s) * radix) = (u - s) * radix" by (intro chunk_id) simp
      then show ?thesis using False one digit(3) Suc.IH[of "u - s"] unfolding step r cs unfolding l by simp
    qed
  qed
qed

lemma sum_parts:
  assumes "bn_inv a" "bn_inv b" "bn_inv c" "BigitLength b \<le> BigitLength a" "BigitLength a \<le> BigitLength c"
    "lo \<le> bn_exponent a" "lo \<le> bn_exponent b" "lo \<le> bn_exponent c"
  shows "plus_compare_loop a b c lo (BigitLength c - lo) 0 = Inr (cmp (bn_value a + bn_value b) (bn_value c))"
proof -
  have lo: "lo \<le> BigitLength c" using assms(8) by (simp add: BigitLength_def)
  have id: "part lo (BigitLength c - lo) (bn_value x) = bn_value x div radix ^ lo" if "bn_inv x" "BigitLength x \<le> BigitLength c" for x
    using part_id[OF less_le_trans[OF bn_value_bounds(1)[OF that(1)] power_le_radix[OF that(2)]] lo] by (simp add: part_def)
  have "plus_compare_loop a b c lo (BigitLength c - lo) 0
      = Inr (cmp (bn_value a div radix ^ lo + bn_value b div radix ^ lo) (bn_value c div radix ^ lo))"
    using plus_compare_loop_spec[OF assms(1-3), of 0 lo] id assms(1-5) by simp
  also have "\<dots> = Inr (cmp ((bn_value a div radix ^ lo + bn_value b div radix ^ lo) * radix ^ lo) (bn_value c div radix ^ lo * radix ^ lo))"
    by (simp only: cmp_mult radix_pos zero_less_power)
  also have "\<dots> = Inr (cmp (bn_value a + bn_value b) (bn_value c))"
    using value_multiple[OF assms(6)] value_multiple[OF assms(7)] value_multiple[OF assms(8)] by (simp add: distrib_right)
  finally show ?thesis .
qed

lemma sum_disjoint:
  assumes "bn_inv a" "bn_inv b" "BigitLength b \<le> bn_exponent a"
  shows "bn_value a + bn_value b < radix ^ BigitLength a"
proof -
  have "bn_value b < radix ^ bn_exponent a" by (rule less_le_trans[OF bn_value_bounds(1)[OF assms(2)] power_le_radix[OF assms(3)]])
  then have "bn_value a + bn_value b < Suc (bval (bn_bigits a)) * radix ^ bn_exponent a" by (simp add: bn_value_def)
  also have "\<dots> \<le> radix ^ bn_used_digits a * radix ^ bn_exponent a"
    using assms(1) by (intro mult_le_mono1) (simp add: bn_inv_def)
  finally show ?thesis by (simp add: BigitLength_def power_add)
qed

lemma plus_compare_body_spec:
  assumes a: "bn_inv a" and b: "bn_inv b" and c: "bn_inv c" and len: "BigitLength b \<le> BigitLength a"
  shows "plus_compare_body a b c = Inr (cmp (bn_value a + bn_value b) (bn_value c))"
proof -
  have below: "bn_value a + bn_value b < bn_value c"
    if "bn_value a + bn_value b < radix ^ l" "l < BigitLength c" for l
  proof -
    have "bn_used_digits c \<noteq> 0" using that(2) c by (auto simp: bn_inv_def BigitLength_def)
    then have "radix ^ (BigitLength c - 1) \<le> bn_value c" by (rule bn_value_bounds(2)[OF c])
    moreover have "radix ^ l \<le> radix ^ (BigitLength c - 1)" using that(2) by (intro power_le_radix) simp
    ultimately show ?thesis using that(1) by linarith
  qed
  have "bn_value b < radix ^ BigitLength a" by (rule less_le_trans[OF bn_value_bounds(1)[OF b] power_le_radix[OF len]])
  then have "bn_value a + bn_value b < 2 * radix ^ BigitLength a" using bn_value_bounds(1)[OF a] by simp
  also have "\<dots> \<le> radix * radix ^ BigitLength a" by (intro mult_le_mono1) (simp add: radix_val)
  finally have two: "bn_value a + bn_value b < radix ^ (BigitLength a + 1)" by simp
  consider "BigitLength a + 1 < BigitLength c" | "BigitLength a > BigitLength c"
    | "bn_exponent a \<ge> BigitLength b" "BigitLength a < BigitLength c" "\<not> BigitLength a + 1 < BigitLength c"
    | "\<not> BigitLength a + 1 < BigitLength c" "BigitLength a \<le> BigitLength c" "\<not> (bn_exponent a \<ge> BigitLength b \<and> BigitLength a < BigitLength c)"
    by linarith
  then show ?thesis
  proof cases
    case 1
    then show ?thesis using below[OF two] by (simp add: plus_compare_body_def cmp_def)
  next
    case 2
    then show ?thesis using longer_greater[OF c a] by (simp add: plus_compare_body_def cmp_def)
  next
    case 3
    then show ?thesis using below[OF sum_disjoint[OF a b]] by (simp add: plus_compare_body_def cmp_def)
  next
    case 4
    define lo where "lo = min (min (bn_exponent a) (bn_exponent b)) (bn_exponent c)"
    have "plus_compare_body a b c = plus_compare_loop a b c lo (BigitLength c - lo) 0"
      using 4 by (auto simp: plus_compare_body_def lo_def Let_def)
    then show ?thesis using sum_parts[OF a b c len 4(2), of lo] by (simp add: lo_def)
  qed
qed

lemma PlusCompare_spec:
  assumes "bn_inv a" "bn_inv b" "bn_inv c"
  shows "bn_PlusCompare a b c = Inr (cmp (bn_value a + bn_value b) (bn_value c))"
  using plus_compare_body_spec[of a b c] plus_compare_body_spec[of b a c] assms
  by (simp add: bn_PlusCompare_def IsClamped_inv add.commute)

end
