(* ===== verification/Bignum_Mult.thy ===== *)
theory Bignum_Mult
  imports Bignum_Correct
begin

text \<open>
  Shifting and multiplication of bignums by machine words and by powers of ten.  The multiplications
  abort exactly when the product does not fit in the 128 bigits; the 64-bit accumulators never overflow.
\<close>

unbundle bit_operations_syntax

section \<open>Shifting\<close>

lemma shift_digit:
  assumes "x < radix" "c < 2 ^ s" "s < kBigitSize"
  shows "chunk (chunk (push_bit s x) + c) AND kBigitMask = (x * 2 ^ s + c) mod radix"
    and "drop_bit (kBigitSize - s) x = (x * 2 ^ s + c) div radix"
    and "(x * 2 ^ s + c) div radix < 2 ^ s"
proof -
  have s: "radix = 2 ^ s * 2 ^ (kBigitSize - s)" using assms(3) by (simp add: radix_def flip: power_add)
  have "chunk (chunk (push_bit s x) + c) mod radix = (x * 2 ^ s + c) mod radix"
  proof -
    have "radix dvd 16 * radix" by simp
    then have "(chunk y) mod radix = y mod radix" for y unfolding chunk_def chunk_size by (rule mod_mod_cancel)
    then show ?thesis by (metis mod_add_left_eq push_bit_eq_mult)
  qed
  then show "chunk (chunk (push_bit s x) + c) AND kBigitMask = (x * 2 ^ s + c) mod radix" by (simp add: radix_ops)
  have "(x * 2 ^ s + c) div radix = (x * 2 ^ s + c) div 2 ^ s div 2 ^ (kBigitSize - s)" unfolding s by (rule div_mult2_eq)
  also have "(x * 2 ^ s + c) div 2 ^ s = x" using assms(2) by simp
  finally show d: "drop_bit (kBigitSize - s) x = (x * 2 ^ s + c) div radix" by (simp add: drop_bit_eq_div)
  have "x div 2 ^ (kBigitSize - s) < 2 ^ s" using assms(1) unfolding s by (simp add: div_less_iff_less_mult)
  then show "(x * 2 ^ s + c) div radix < 2 ^ s" using d by (simp add: drop_bit_eq_div)
qed

text \<open>A loop that multiplies the bigits from \<open>i\<close> on: the value before and after.\<close>

definition scaled_from :: "nat \<Rightarrow> nat list \<Rightarrow> nat \<Rightarrow> nat \<Rightarrow> nat \<Rightarrow> nat list \<Rightarrow> nat \<Rightarrow> bool" where
  "scaled_from f d i n c d' c' \<longleftrightarrow> length d' = length d \<and> bigits_ok d' \<and> (\<forall>j. i + n \<le> j \<longrightarrow> d' ! j = d ! j)
     \<and> bval d' + c' * radix ^ (i + n) + bval (take n (drop i d)) * radix ^ i
         = bval d + (f * bval (take n (drop i d)) + c) * radix ^ i"

lemma scaled_from_0: "bigits_ok d \<Longrightarrow> scaled_from f d i 0 c d c"
  by (simp add: scaled_from_def)

lemma scaled_from_Suc:
  assumes "i < length d" "s = f * d ! i + c"
    and "scaled_from f (d[i := s mod radix]) (i + 1) n (s div radix) d' c'"
  shows "scaled_from f d i (Suc n) c d' c'"
proof -
  let ?d = "d[i := s mod radix]" and ?t = "bval (take n (drop (Suc i) d))"
  have h: "length d' = length ?d" "bigits_ok d'" "\<forall>j. i + 1 + n \<le> j \<longrightarrow> d' ! j = ?d ! j"
      "bval d' + c' * radix ^ (i + 1 + n) + ?t * radix ^ (i + 1) = bval ?d + (f * ?t + s div radix) * radix ^ (i + 1)"
    using assms(3) unfolding scaled_from_def by simp_all
  have t: "bval (take (Suc n) (drop i d)) = d ! i + radix * ?t" using bval_take_Suc[OF assms(1)] by simp
  have u: "bval ?d + d ! i * radix ^ i = bval d + s mod radix * radix ^ i" by (rule bval_update[OF assms(1)])
  have "s mod radix * radix ^ i + s div radix * (radix * radix ^ i) = (f * d ! i + c) * radix ^ i"
    unfolding bigit_split_scaled assms(2) ..
  then have "bval d' + c' * radix ^ (i + Suc n) + (d ! i + radix * ?t) * radix ^ i
      = bval d + (f * (d ! i + radix * ?t) + c) * radix ^ i"
    using h(4) u by (simp add: algebra_simps)
  then show ?thesis unfolding scaled_from_def t using h by auto
qed

lemma shift_loop_spec:
  assumes "s < kBigitSize" "bigits_ok d" "i + n \<le> length d" "c < 2 ^ s"
  shows "\<exists>d' c'. shift_loop s i n d c = Inr (d', c') \<and> c' < 2 ^ s \<and> scaled_from (2 ^ s) d i n c d' c'"
  using assms(2-)
proof (induction n arbitrary: i d c)
  case 0
  then show ?case by (simp add: scaled_from_0)
next
  case (Suc n)
  let ?s = "2 ^ s * d ! i + c"
  have x: "d ! i < radix" using Suc.prems by (auto intro: bigits_ok_nth)
  note sd = shift_digit[OF x Suc.prems(3) assms(1), unfolded mult.commute[of "d ! i"]]
  obtain d' c' where "shift_loop s (i + 1) n (d[i := ?s mod radix]) (?s div radix) = Inr (d', c')" "c' < 2 ^ s"
      "scaled_from (2 ^ s) (d[i := ?s mod radix]) (i + 1) n (?s div radix) d' c'"
    using Suc.IH[of "d[i := ?s mod radix]" "i + 1" "?s div radix"] Suc.prems sd(3) by (auto simp: bigits_ok_update)
  then show ?case using scaled_from_Suc[of i d ?s "2 ^ s" c n d' c'] Suc.prems sd(1,2) by simp
qed

text \<open>A whole multiplication: the loop over the used bigits gives the product minus the carry.\<close>

lemma scaled_all:
  assumes "bigits_ok d" "bval d < radix ^ n" "scaled_from f d 0 n 0 d' c"
  shows "bval d' + c * radix ^ n = f * bval d" "length d' = length d" "bigits_ok d'" "bval d' < radix ^ n"
    "\<forall>j. n \<le> j \<longrightarrow> j < length d \<longrightarrow> d' ! j = 0"
proof -
  have t: "bval (take n d) = bval d" by (rule bval_take[OF assms(1,2)])
  show "bval d' + c * radix ^ n = f * bval d" "length d' = length d" "bigits_ok d'"
    using assms(3) t by (simp_all add: scaled_from_def)
  show z: "\<forall>j. n \<le> j \<longrightarrow> j < length d \<longrightarrow> d' ! j = 0"
    using assms bval_below_iff[OF assms(1), of n] by (auto simp: scaled_from_def)
  then show "bval d' < radix ^ n" using assms(3) by (simp add: scaled_from_def bval_below_iff)
qed

lemma ShiftLeft_spec:
  assumes b: "bn_inv b" and fits: "bn_used_digits b < kBigitCapacity" and ex: "bn_used_digits b = 0 \<or> bn_exponent b + s div kBigitSize < 2 ^ 31"
  shows "\<exists>b'. ShiftLeft s b = Inr b' \<and> bn_inv b' \<and> bn_value b' = bn_value b * 2 ^ s"
proof (cases "bn_used_digits b = 0")
  case True
  then show ?thesis using b value_zero_iff[OF b] by (simp add: ShiftLeft_def)
next
  case False
  let ?n = "bn_used_digits b" and ?d = "bn_bigits b" and ?l = "s mod kBigitSize"
  have l: "?l < kBigitSize" by (simp add: kBigitSize_def)
  have inv: "length ?d = kBigitCapacity" "bigits_ok ?d" "bval ?d < radix ^ ?n" "radix ^ (?n - 1) \<le> bval ?d"
    using b False by (auto simp: bn_inv_def)
  obtain d1 c where d1: "shift_loop ?l 0 ?n ?d 0 = Inr (d1, c)" "c < 2 ^ ?l" "scaled_from (2 ^ ?l) ?d 0 ?n 0 d1 c"
    using shift_loop_spec[OF l inv(2), of 0 ?n 0] inv(1) fits by auto
  note sc = scaled_all[OF inv(2,3) d1(3)]
  have ge: "radix ^ (?n - 1) \<le> 2 ^ ?l * bval ?d" using inv(4) by (metis le_trans mult_le_mono1 mult_1 one_le_numeral one_le_power)
  have r: "2 ^ s = (2::nat) ^ ?l * radix ^ (s div kBigitSize)"
    unfolding radix_def by (simp flip: power_mult power_add)
  define e where "e = bn_exponent b + s div kBigitSize"
  define b' where "b' = (if c \<noteq> 0 then b\<lparr>bn_exponent := e, bn_bigits := d1[?n := c], bn_used_digits := ?n + 1\<rparr>
      else b\<lparr>bn_exponent := e, bn_bigits := d1\<rparr>)"
  have c: "c < radix" using d1(2) l by (metis less_le_trans less_imp_le power_increasing one_le_numeral radix_def)
  have v: "bval (bn_bigits b') = 2 ^ ?l * bval ?d"
    using sc(1,2,5) fits inv(1) bval_update[of ?n d1 c] by (cases "c = 0") (simp_all add: b'_def)
  have "bn_inv b'"
  proof (cases "c = 0")
    case True
    then show ?thesis using sc inv(1) ge False by (simp add: b'_def bn_inv_def)
  next
    case c0: False
    have "radix ^ ?n \<le> c * radix ^ ?n" using c0 by simp
    also have "\<dots> \<le> bval (bn_bigits b')" using v sc(1) by simp
    finally have "radix ^ ?n \<le> bval (bn_bigits b')" .
    moreover have "bigits_ok (d1[?n := c])" using sc(3) c by (rule bigits_ok_update)
    moreover have "bval (d1[?n := c]) < radix ^ (?n + 1)"
      using \<open>bigits_ok (d1[?n := c])\<close> sc(2,5) by (subst bval_below_iff) auto
    ultimately show ?thesis using c0 sc(2) inv(1) by (simp add: b'_def bn_inv_def)
  qed
  moreover have "bn_value b' = bn_value b * 2 ^ s"
    using v r by (simp add: bn_value_def b'_def e_def power_add)
  moreover have "int_res (int (bn_exponent b) + int (s div kBigitSize)) = Inr (int e)" "nat (int e) = e"
    using ex False by (simp_all add: int_res_def e_def)
  then have "ShiftLeft s b = Inr b'"
    using False fits d1(1) l sc(2) inv(1)
    by (simp add: ShiftLeft_def Let_def EnsureCapacity_def BigitsShiftLeft_def ASSERT_def b'_def)
  ultimately show ?thesis by blast
qed

section \<open>Appending the carry\<close>

lemma mul_carry_loop_spec:
  assumes "length d = kBigitCapacity" "bigits_ok d" "bval d < radix ^ u" "u \<le> kBigitCapacity"
    "v = bval d + c * radix ^ u"
  shows "if v < radix ^ kBigitCapacity
    then \<exists>d' u'. mul_carry_loop d u c = Inr (d', u') \<and> length d' = kBigitCapacity \<and> bigits_ok d' \<and> bval d' = v
           \<and> v < radix ^ u' \<and> u \<le> u' \<and> (u < u' \<longrightarrow> radix ^ (u' - 1) \<le> v)
    else mul_carry_loop d u c = Inl Terminate"
  using assms
proof (induction "kBigitCapacity - u" arbitrary: d u c v rule: less_induct)
  case less
  show ?case
  proof (cases "c = 0")
    case True
    then have "v < radix ^ u" "v < radix ^ kBigitCapacity" "mul_carry_loop d u c = Inr (d, u)"
      using less.prems bval_less[of d] by (simp_all add: mul_carry_loop.simps)
    then show ?thesis using less.prems True by simp
  next
    case c0: False
    have ge: "radix ^ u \<le> v" using c0 less.prems(5) by (simp add: trans_le_add2)
    show ?thesis
    proof (cases "u = kBigitCapacity")
      case True
      then have "mul_carry_loop d u c = Inl Terminate"
        using c0 by (subst mul_carry_loop.simps) (simp add: EnsureCapacity_def)
      then show ?thesis using ge True by simp
    next
      case False
      let ?d = "d[u := c mod radix]"
      have u: "u < kBigitCapacity" using False less.prems(4) by simp
      have z: "d ! j = 0" if "u \<le> j" "j < kBigitCapacity" for j
        using that less.prems(1,3) bval_below_iff[OF less.prems(2)] by simp
      have ok: "bigits_ok ?d" using less.prems(2) by (simp add: bigits_ok_update)
      have v: "bval ?d + (c div radix) * radix ^ (u + 1) = v"
        using bval_carry[of u d c c] z u less.prems(1,5) by simp
      have below: "bval ?d < radix ^ (u + 1)"
        using z less.prems(1) by (subst bval_below_iff[OF ok]) auto
      have step: "mul_carry_loop d u c = mul_carry_loop ?d (u + 1) (c div radix)"
        using c0 u less.prems(1) by (subst mul_carry_loop.simps) (simp add: EnsureCapacity_def radix_ops)
      have "if v < radix ^ kBigitCapacity
        then \<exists>d' u'. mul_carry_loop ?d (u + 1) (c div radix) = Inr (d', u') \<and> length d' = kBigitCapacity \<and> bigits_ok d' \<and> bval d' = v
               \<and> v < radix ^ u' \<and> u + 1 \<le> u' \<and> (u + 1 < u' \<longrightarrow> radix ^ (u' - 1) \<le> v)
        else mul_carry_loop ?d (u + 1) (c div radix) = Inl Terminate"
      proof (rule less.hyps)
        show "kBigitCapacity - (u + 1) < kBigitCapacity - u" using u by simp
      qed (use u less.prems(1) ok below v in simp_all)
      then show ?thesis unfolding step using ge by (auto split: if_splits)
    qed
  qed
qed

section \<open>Multiplication by a machine word\<close>

lemma mul32_loop_spec:
  assumes "f < 2 ^ 32" "bigits_ok d" "i + n \<le> length d" "c < 2 ^ 32"
  shows "\<exists>d' c'. mul32_loop f i n d c = Inr (d', c') \<and> c' < 2 ^ 32 \<and> scaled_from f d i n c d' c'"
  using assms(2-)
proof (induction n arbitrary: i d c)
  case 0
  then show ?case by (simp add: scaled_from_0)
next
  case (Suc n)
  let ?s = "f * d ! i + c"
  have x: "d ! i < radix" using Suc.prems by (auto intro: bigits_ok_nth)
  have "f * d ! i + c < 2 ^ 32 * radix"
  proof -
    have "f * d ! i \<le> (2 ^ 32 - 1) * (radix - 1)" using assms(1) x by (intro mult_le_mono) auto
    then show ?thesis using Suc.prems(3) by (simp add: radix_val)
  qed
  then have s: "?s < 256 * radix * radix" "?s div radix < 2 ^ 32"
    by (simp_all add: radix_val div_less_iff_less_mult)
  have f: "dchunk (f * d ! i) = f * d ! i" "dchunk ?s = ?s" using s(1) by (auto intro!: dchunk_id)
  have m: "chunk (?s mod radix) = ?s mod radix" by (rule chunk_id) (simp add: less_trans[OF mod_less_divisor])
  obtain d' c' where "mul32_loop f (i + 1) n (d[i := ?s mod radix]) (?s div radix) = Inr (d', c')" "c' < 2 ^ 32"
      "scaled_from f (d[i := ?s mod radix]) (i + 1) n (?s div radix) d' c'"
    using Suc.IH[of "d[i := ?s mod radix]" "i + 1" "?s div radix"] Suc.prems s(2) by (auto simp: bigits_ok_update)
  then show ?case using scaled_from_Suc[of i d ?s f c n d' c'] Suc.prems f m by (simp add: radix_ops)
qed

text \<open>The 64-bit version splits the factor; the accumulated carry just fits in 64 bits.\<close>

lemma mul64_step:
  assumes "low < 2 ^ 32" "high < 2 ^ 32" "x < radix" "c < 2 ^ 64"
  defines "tmp \<equiv> c mod radix + low * x" and "s \<equiv> (low + 2 ^ 32 * high) * x + c"
  shows "tmp < 256 * radix * radix" "high * x < 256 * radix * radix" "low * x < 256 * radix * radix"
    "16 * (high * x) < 256 * radix * radix"
    "c div radix + tmp div radix + 16 * (high * x) = s div radix" "tmp mod radix = s mod radix" "s div radix < 2 ^ 64"
proof -
  have b: "low * x \<le> (2 ^ 32 - 1) * (radix - 1)" "high * x \<le> (2 ^ 32 - 1) * (radix - 1)" using assms(1-3) by (auto intro!: mult_le_mono)
  have cm: "c mod radix < radix" by simp
  show "tmp < 256 * radix * radix" "high * x < 256 * radix * radix" "low * x < 256 * radix * radix"
      "16 * (high * x) < 256 * radix * radix"
    using b cm unfolding tmp_def by (simp_all add: radix_val)
  have "(2::nat) ^ 32 = radix * 16" by (simp add: radix_val)
  then have "s = low * x + radix * (16 * (high * x)) + c" unfolding s_def by (simp add: algebra_simps)
  also have "\<dots> = tmp + radix * (16 * (high * x) + c div radix)"
    unfolding tmp_def using mod_mult_div_eq[of c radix] by (simp add: algebra_simps)
  finally have s: "s = tmp + radix * (16 * (high * x) + c div radix)" .
  then show "tmp mod radix = s mod radix" by simp
  show e: "c div radix + tmp div radix + 16 * (high * x) = s div radix" unfolding s by simp
  have "c div radix \<le> 2 ^ 36 - 1" using assms(4) by (simp add: radix_val div_less_iff_less_mult flip: less_Suc_eq_le)
  moreover have "tmp div radix \<le> 2 ^ 32 - 16"
  proof -
    have "tmp \<le> 2 ^ 32 * (radix - 1)" using b(1) cm unfolding tmp_def by (simp add: radix_val)
    then show ?thesis by (simp add: radix_val div_less_iff_less_mult flip: less_Suc_eq_le)
  qed
  ultimately show "s div radix < 2 ^ 64" unfolding e[symmetric] using b(2) by (simp add: radix_val)
qed

lemma mul64_loop_spec:
  assumes "low < 2 ^ 32" "high < 2 ^ 32" "f = low + 2 ^ 32 * high" "bigits_ok d" "i + n \<le> length d" "c < 2 ^ 64"
  shows "\<exists>d' c'. mul64_loop low high i n d c = Inr (d', c') \<and> scaled_from f d i n c d' c'"
  using assms(4-)
proof (induction n arbitrary: i d c)
  case 0
  then show ?case by (simp add: scaled_from_0)
next
  case (Suc n)
  let ?s = "f * d ! i + c" and ?tmp = "c mod radix + low * d ! i"
  have x: "d ! i < radix" using Suc.prems by (auto intro: bigits_ok_nth)
  note st = mul64_step[OF assms(1,2) x Suc.prems(3), folded assms(3)]
  have "(2::nat) ^ 64 = 256 * radix * radix" by (simp add: radix_val)
  then have c: "dchunk (?s div radix) = ?s div radix"
    and c2: "dchunk (c div radix + ?tmp div radix) = c div radix + ?tmp div radix"
    using st(5,7) by (auto intro!: dchunk_id)
  have ch: "dchunk (dchunk (c div radix + ?tmp div radix) + dchunk (push_bit (32 - kBigitSize) (dchunk (high * d ! i)))) = ?s div radix"
    using st(2,4,5) c unfolding c2 by (simp add: dchunk_id push_bit_eq_mult kBigitSize_def mult.commute)
  obtain d' c' where "mul64_loop low high (i + 1) n (d[i := ?s mod radix]) (?s div radix) = Inr (d', c')"
      "scaled_from f (d[i := ?s mod radix]) (i + 1) n (?s div radix) d' c'"
    using Suc.IH[of "d[i := ?s mod radix]" "i + 1" "?s div radix"] Suc.prems st(7) by (auto simp: bigits_ok_update)
  then show ?case using scaled_from_Suc[of i d ?s f c n d' c'] Suc.prems ch st(1,3,6)
    by (simp add: radix_ops dchunk_id Let_def)
qed

text \<open>The common end of the two multiplications.\<close>

lemma mul_finish:
  assumes b: "bn_inv b" and f: "0 < f" and sc: "scaled_from f (bn_bigits b) 0 (bn_used_digits b) 0 d c"
  shows "if f * bval (bn_bigits b) < radix ^ kBigitCapacity
    then \<exists>d' u. mul_carry_loop d (bn_used_digits b) c = Inr (d', u) \<and> bn_inv (b\<lparr>bn_bigits := d', bn_used_digits := u\<rparr>)
           \<and> bval d' = f * bval (bn_bigits b) \<and> bn_used_digits b \<le> u
    else mul_carry_loop d (bn_used_digits b) c = Inl Terminate"
proof -
  let ?n = "bn_used_digits b" and ?v = "f * bval (bn_bigits b)"
  have inv: "length (bn_bigits b) = kBigitCapacity" "bigits_ok (bn_bigits b)" "bval (bn_bigits b) < radix ^ ?n"
      "?n = 0 \<or> radix ^ (?n - 1) \<le> bval (bn_bigits b)" "?n = 0 \<longrightarrow> bn_exponent b = 0"
    using b by (auto simp: bn_inv_def)
  note sa = scaled_all[OF inv(2,3) sc]
  have ge: "bval (bn_bigits b) \<le> ?v" using f by simp
  have z: "?n = 0 \<Longrightarrow> ?v = 0" using inv(3) by simp
  have main: "if ?v < radix ^ kBigitCapacity
    then \<exists>d' u. mul_carry_loop d ?n c = Inr (d', u) \<and> length d' = kBigitCapacity \<and> bigits_ok d' \<and> bval d' = ?v
           \<and> ?v < radix ^ u \<and> ?n \<le> u \<and> (?n < u \<longrightarrow> radix ^ (u - 1) \<le> ?v)
    else mul_carry_loop d ?n c = Inl Terminate"
    using sa inv(1) used_le_capacity[OF b] by (intro mul_carry_loop_spec) simp_all
  show ?thesis
  proof (cases "?v < radix ^ kBigitCapacity")
    case False
    then show ?thesis using main by simp
  next
    case True
    then obtain d' u where d': "mul_carry_loop d ?n c = Inr (d', u)" "length d' = kBigitCapacity" "bigits_ok d'" "bval d' = ?v"
        "?v < radix ^ u" "?n \<le> u" "?n < u \<longrightarrow> radix ^ (u - 1) \<le> ?v"
      using main by auto
    have "u = 0 \<or> radix ^ (u - 1) \<le> ?v" using d'(6,7) inv(4) le_trans[OF _ ge] by (cases "?n = u") auto
    then have "bn_inv (b\<lparr>bn_bigits := d', bn_used_digits := u\<rparr>)" using d' inv(5) by (simp add: bn_inv_def)
    then show ?thesis using True d' by auto
  qed
qed

definition product_fits :: "nat \<Rightarrow> bignum \<Rightarrow> bool" where
  "product_fits f b \<longleftrightarrow> f * bval (bn_bigits b) < radix ^ kBigitCapacity"

lemma inv_fits: "bn_inv b \<Longrightarrow> bval (bn_bigits b) < radix ^ kBigitCapacity"
  using bval_less[of "bn_bigits b"] by (simp add: bn_inv_def)

lemma MultiplyByUInt32_spec:
  assumes b: "bn_inv b" and f: "f < 2 ^ 32"
  shows "if product_fits f b
    then \<exists>b'. MultiplyByUInt32 f b = Inr b' \<and> bn_inv b' \<and> bval (bn_bigits b') = f * bval (bn_bigits b)
           \<and> (0 < f \<longrightarrow> bn_exponent b' = bn_exponent b)
    else MultiplyByUInt32 f b = Inl Terminate"
proof -
  consider "f = 1" | "f = 0" | "f \<noteq> 0" "f \<noteq> 1" "bn_used_digits b = 0" | "f \<noteq> 0" "f \<noteq> 1" "bn_used_digits b \<noteq> 0" by blast
  then show ?thesis
  proof cases
    case 1
    then show ?thesis using b inv_fits[OF b] by (simp add: MultiplyByUInt32_def product_fits_def)
  next
    case 2
    then show ?thesis using bn_new_inv by (simp add: MultiplyByUInt32_def product_fits_def Zero_spec[OF b] bn_value_def)
  next
    case 3
    then show ?thesis using b by (simp add: MultiplyByUInt32_def product_fits_def bn_inv_def)
  next
    case 4
    obtain d c where d: "mul32_loop f 0 (bn_used_digits b) (bn_bigits b) 0 = Inr (d, c)"
        "scaled_from f (bn_bigits b) 0 (bn_used_digits b) 0 d c"
      using mul32_loop_spec[OF f, of "bn_bigits b" 0 "bn_used_digits b" 0] b used_le_capacity[OF b] by (auto simp: bn_inv_def)
    have "MultiplyByUInt32 f b = bindE (mul_carry_loop d (bn_used_digits b) c) (\<lambda>(d', u). Inr (b\<lparr>bn_bigits := d', bn_used_digits := u\<rparr>))"
      using 4 d(1) by (simp add: MultiplyByUInt32_def ASSERT_def kDoubleChunkSize_def kBigitSize_def)
    then show ?thesis using mul_finish[OF b _ d(2)] 4 by (auto simp: product_fits_def split: if_splits)
  qed
qed

lemma MultiplyByUInt64_spec:
  assumes b: "bn_inv b" and f: "f < 2 ^ 64"
  shows "if product_fits f b
    then \<exists>b'. MultiplyByUInt64 f b = Inr b' \<and> bn_inv b' \<and> bval (bn_bigits b') = f * bval (bn_bigits b)
           \<and> (0 < f \<longrightarrow> bn_exponent b' = bn_exponent b)
    else MultiplyByUInt64 f b = Inl Terminate"
proof -
  consider "f = 1" | "f = 0" | "f \<noteq> 0" "f \<noteq> 1" by blast
  then show ?thesis
  proof cases
    case 1
    then show ?thesis using b inv_fits[OF b] by (simp add: MultiplyByUInt64_def product_fits_def)
  next
    case 2
    then show ?thesis using bn_new_inv by (simp add: MultiplyByUInt64_def product_fits_def Zero_spec[OF b] bn_value_def)
  next
    case 3
    have "f AND 0xFFFFFFFF = f mod 2 ^ 32" using take_bit_eq_mask[of 32 f] by (simp add: take_bit_eq_mod mask_eq_exp_minus_1)
    moreover have "drop_bit 32 f = f div 2 ^ 32" by (simp add: drop_bit_eq_div)
    ultimately have fs: "f AND 0xFFFFFFFF < 2 ^ 32" "drop_bit 32 f < 2 ^ 32" "f = (f AND 0xFFFFFFFF) + 2 ^ 32 * drop_bit 32 f"
      using f by (simp_all add: div_less_iff_less_mult)
    obtain d c where d: "mul64_loop (f AND 0xFFFFFFFF) (drop_bit 32 f) 0 (bn_used_digits b) (bn_bigits b) 0 = Inr (d, c)"
        "scaled_from f (bn_bigits b) 0 (bn_used_digits b) 0 d c"
      using mul64_loop_spec[OF fs, of "bn_bigits b" 0 "bn_used_digits b" 0] b used_le_capacity[OF b] by (auto simp: bn_inv_def)
    have "MultiplyByUInt64 f b = bindE (mul_carry_loop d (bn_used_digits b) c) (\<lambda>(d', u). Inr (b\<lparr>bn_bigits := d', bn_used_digits := u\<rparr>))"
      using 3 d(1) by (simp add: MultiplyByUInt64_def ASSERT_def kBigitSize_def)
    then show ?thesis using mul_finish[OF b _ d(2)] 3 by (auto simp: product_fits_def split: if_splits)
  qed
qed

lemma MultiplyByUInt32_pos:
  assumes "bn_inv b" "f < 2 ^ 32" "0 < f"
  shows "if product_fits f b
    then \<exists>b'. MultiplyByUInt32 f b = Inr b' \<and> bn_inv b' \<and> bval (bn_bigits b') = f * bval (bn_bigits b) \<and> bn_exponent b' = bn_exponent b
    else MultiplyByUInt32 f b = Inl Terminate"
  using MultiplyByUInt32_spec[OF assms(1,2)] assms(3) by auto

lemma MultiplyByUInt64_pos:
  assumes "bn_inv b" "f < 2 ^ 64" "0 < f"
  shows "if product_fits f b
    then \<exists>b'. MultiplyByUInt64 f b = Inr b' \<and> bn_inv b' \<and> bval (bn_bigits b') = f * bval (bn_bigits b) \<and> bn_exponent b' = bn_exponent b
    else MultiplyByUInt64 f b = Inl Terminate"
  using MultiplyByUInt64_spec[OF assms(1,2)] assms(3) by auto

section \<open>Powers of ten\<close>

lemma five_powers: "kFive27 = 5 ^ 27" "kFive13 = 5 ^ 13" "k < 12 \<Longrightarrow> kFive1_to_12 ! k = 5 ^ Suc k" "length kFive1_to_12 = 12"
proof -
  have "list_all (\<lambda>k. kFive1_to_12 ! k = 5 ^ Suc k) [0..<12]" by (simp add: kFive1_to_12_def upt_rec)
  then show "k < 12 \<Longrightarrow> kFive1_to_12 ! k = 5 ^ Suc k" by (simp only: list_all_iff set_upt atLeastLessThan_iff) simp
qed (simp_all add: kFive27_def kFive13_def kFive1_to_12_def)

lemma product_fits_mono: "\<not> product_fits f b \<Longrightarrow> f \<le> g \<Longrightarrow> \<not> product_fits g b"
  unfolding product_fits_def by (meson le_less_trans mult_le_mono1)

text \<open>A loop that multiplies by \<open>5 ^ k\<close> while the remaining exponent is at least \<open>k\<close>.\<close>

lemma five_loop:
  assumes mul: "\<And>b. bn_inv b \<Longrightarrow>
      if product_fits (5 ^ k) b
      then \<exists>b'. mul b = Inr b' \<and> bn_inv b' \<and> bval (bn_bigits b') = 5 ^ k * bval (bn_bigits b) \<and> bn_exponent b' = bn_exponent b
      else mul b = Inl Terminate"
    and loop: "\<And>r b. loop r b = (if r \<ge> k then bindE (mul b) (loop (r - k)) else Inr (r, b))"
    and "0 < k" "bn_inv b"
  shows "if product_fits (5 ^ (r - r mod k)) b
    then \<exists>b'. loop r b = Inr (r mod k, b') \<and> bn_inv b' \<and> bval (bn_bigits b') = 5 ^ (r - r mod k) * bval (bn_bigits b)
           \<and> bn_exponent b' = bn_exponent b
    else loop r b = Inl Terminate"
  using assms(4)
proof (induction r arbitrary: b rule: less_induct)
  case (less r)
  show ?case
  proof (cases "k \<le> r")
    case False
    then show ?thesis using less.prems inv_fits[OF less.prems] by (simp add: loop[of r b] product_fits_def)
  next
    case True
    have m: "r mod k = (r - k) mod k" using True by (simp add: le_mod_geq)
    have "(r - k) mod k \<le> r - k" by (rule mod_less_eq_dividend)
    then have e: "r - r mod k = k + (r - k - (r - k) mod k)" unfolding m using True by arith
    show ?thesis
    proof (cases "product_fits (5 ^ k) b")
      case False
      have "(5::nat) ^ k \<le> 5 ^ (r - r mod k)" unfolding e by (rule power_increasing) simp_all
      with False have "\<not> product_fits (5 ^ (r - r mod k)) b" by (rule product_fits_mono)
      moreover have "loop r b = Inl Terminate" using mul[OF less.prems] False True by (simp add: loop[of r b])
      ultimately show ?thesis by simp
    next
      case fits: True
      then obtain b1 where b1: "mul b = Inr b1" "bn_inv b1" "bval (bn_bigits b1) = 5 ^ k * bval (bn_bigits b)" "bn_exponent b1 = bn_exponent b"
        using mul[OF less.prems] by auto
      have eq: "5 ^ (r - k - (r - k) mod k) * bval (bn_bigits b1) = 5 ^ (r - r mod k) * bval (bn_bigits b)"
        unfolding e power_add b1(3) by simp
      have "loop r b = loop (r - k) b1" using b1(1) True by (simp add: loop[of r b])
      then show ?thesis using less.IH[of "r - k" b1] b1(2,4) True assms(3) unfolding product_fits_def eq m by (auto split: if_splits)
    qed
  qed
qed

lemma five27_loop_spec:
  "bn_inv b \<Longrightarrow> if product_fits (5 ^ (r - r mod 27)) b
    then \<exists>b'. five27_loop r b = Inr (r mod 27, b') \<and> bn_inv b' \<and> bval (bn_bigits b') = 5 ^ (r - r mod 27) * bval (bn_bigits b)
           \<and> bn_exponent b' = bn_exponent b
    else five27_loop r b = Inl Terminate"
proof (rule five_loop)
  fix b assume "bn_inv b"
  then show "if product_fits (5 ^ 27) b
      then \<exists>b'. MultiplyByUInt64 kFive27 b = Inr b' \<and> bn_inv b' \<and> bval (bn_bigits b') = 5 ^ 27 * bval (bn_bigits b) \<and> bn_exponent b' = bn_exponent b
      else MultiplyByUInt64 kFive27 b = Inl Terminate"
    unfolding five_powers by (rule MultiplyByUInt64_pos) simp_all
qed (simp_all add: five27_loop.simps)

lemma five13_loop_spec:
  "bn_inv b \<Longrightarrow> if product_fits (5 ^ (r - r mod 13)) b
    then \<exists>b'. five13_loop r b = Inr (r mod 13, b') \<and> bn_inv b' \<and> bval (bn_bigits b') = 5 ^ (r - r mod 13) * bval (bn_bigits b)
           \<and> bn_exponent b' = bn_exponent b
    else five13_loop r b = Inl Terminate"
proof (rule five_loop)
  fix b assume "bn_inv b"
  then show "if product_fits (5 ^ 13) b
      then \<exists>b'. MultiplyByUInt32 kFive13 b = Inr b' \<and> bn_inv b' \<and> bval (bn_bigits b') = 5 ^ 13 * bval (bn_bigits b) \<and> bn_exponent b' = bn_exponent b
      else MultiplyByUInt32 kFive13 b = Inl Terminate"
    unfolding five_powers by (rule MultiplyByUInt32_pos) simp_all
qed (simp_all add: five13_loop.simps)

text \<open>All factors five together.\<close>

definition mul_fives :: "nat \<Rightarrow> bignum \<Rightarrow> bignum res" where
  "mul_fives e b =
     bindE (five27_loop e b) (\<lambda>(r1, b1). bindE (five13_loop r1 b1) (\<lambda>(r2, b2).
       if r2 > 0 then bindE (rd kFive1_to_12 (r2 - 1)) (\<lambda>f. MultiplyByUInt32 f b2) else Inr b2))"

lemma last_fives:
  assumes "bn_inv b" "r < 13"
  shows "if product_fits (5 ^ r) b
    then \<exists>b'. (if r > 0 then bindE (rd kFive1_to_12 (r - 1)) (\<lambda>f. MultiplyByUInt32 f b) else Inr b) = Inr b' \<and> bn_inv b'
           \<and> bval (bn_bigits b') = 5 ^ r * bval (bn_bigits b) \<and> bn_exponent b' = bn_exponent b
    else (if r > 0 then bindE (rd kFive1_to_12 (r - 1)) (\<lambda>f. MultiplyByUInt32 f b) else Inr b) = Inl Terminate"
proof (cases "r = 0")
  case True
  then show ?thesis using assms(1) inv_fits[OF assms(1)] by (simp add: product_fits_def)
next
  case False
  then have "rd kFive1_to_12 (r - 1) = Inr (5 ^ r)" using five_powers(3)[of "r - 1"] five_powers(4) assms(2) by simp
  moreover have "(5::nat) ^ r < 2 ^ 32"
    using power_increasing[of r 12 "5::nat"] assms(2) by (simp add: le_less_trans[of _ "244140625"])
  ultimately show ?thesis using MultiplyByUInt32_pos[OF assms(1), of "5 ^ r"] False by simp
qed

lemma mul_fives_spec:
  assumes b: "bn_inv b"
  shows "if product_fits (5 ^ e) b
    then \<exists>b'. mul_fives e b = Inr b' \<and> bn_inv b' \<and> bval (bn_bigits b') = 5 ^ e * bval (bn_bigits b) \<and> bn_exponent b' = bn_exponent b
    else mul_fives e b = Inl Terminate"
proof (cases "product_fits (5 ^ (e - e mod 27)) b")
  case False
  then have "mul_fives e b = Inl Terminate" using five27_loop_spec[OF b, of e] by (simp add: mul_fives_def)
  moreover have "\<not> product_fits (5 ^ e) b" using False by (rule product_fits_mono) (simp add: power_increasing)
  ultimately show ?thesis by simp
next
  case True
  define r where "r = e mod 27"
  obtain b1 where b1: "five27_loop e b = Inr (r, b1)" "bn_inv b1" "bval (bn_bigits b1) = 5 ^ (e - r) * bval (bn_bigits b)" "bn_exponent b1 = bn_exponent b"
    using five27_loop_spec[OF b, of e] True by (auto simp: r_def)
  have re: "r \<le> e" by (simp add: r_def)
  have f1: "product_fits (5 ^ k) b1 \<longleftrightarrow> product_fits (5 ^ (k + (e - r))) b" for k
    unfolding product_fits_def b1(3) by (simp add: power_add mult.assoc)
  show ?thesis
  proof (cases "product_fits (5 ^ (r - r mod 13)) b1")
    case False
    then have "mul_fives e b = Inl Terminate" using five13_loop_spec[OF b1(2), of r] b1(1) by (simp add: mul_fives_def)
    moreover have "\<not> product_fits (5 ^ (r + (e - r))) b"
      using False unfolding f1 by (rule product_fits_mono) (simp add: power_increasing)
    ultimately show ?thesis using re by simp
  next
    case True
    define q where "q = r mod 13"
    obtain b2 where b2: "five13_loop r b1 = Inr (q, b2)" "bn_inv b2" "bval (bn_bigits b2) = 5 ^ (r - q) * bval (bn_bigits b1)" "bn_exponent b2 = bn_exponent b"
      using five13_loop_spec[OF b1(2), of r] True b1(4) by (auto simp: q_def)
    have qr: "q \<le> r" "q < 13" by (auto simp: q_def)
    have e: "5 ^ q * bval (bn_bigits b2) = 5 ^ e * bval (bn_bigits b)"
      unfolding b2(3) b1(3) using qr(1) re by (simp flip: power_add mult.assoc)
    have "mul_fives e b = (if q > 0 then bindE (rd kFive1_to_12 (q - 1)) (\<lambda>f. MultiplyByUInt32 f b2) else Inr b2)"
      using b1(1) b2(1) by (simp add: mul_fives_def)
    then show ?thesis using last_fives[OF b2(2) qr(2)] unfolding product_fits_def e b2(4) by simp
  qed
qed

lemma MultiplyByPowerOfTen_spec:
  assumes b: "bn_inv b" and ex: "bn_used_digits b = 0 \<or> bn_exponent b + e div kBigitSize < 2 ^ 31"
  shows "if e = 0 \<or> bn_used_digits b = 0 \<or> 5 ^ e * bval (bn_bigits b) < radix ^ (kBigitCapacity - 1)
    then \<exists>b'. MultiplyByPowerOfTen e b = Inr b' \<and> bn_inv b' \<and> bn_value b' = bn_value b * 10 ^ e
    else MultiplyByPowerOfTen e b = Inl Terminate"
proof (cases "e = 0 \<or> bn_used_digits b = 0")
  case True
  then show ?thesis using b value_zero_iff[OF b] by (auto simp: MultiplyByPowerOfTen_def)
next
  case False
  then have m: "MultiplyByPowerOfTen e b = bindE (mul_fives e b) (ShiftLeft e)"
    unfolding MultiplyByPowerOfTen_def mul_fives_def by (simp add: bindE_assoc case_prod_unfold)
  have pos: "0 < bval (bn_bigits b)" using b False value_zero_iff[OF b] by (simp add: bn_value_def)
  show ?thesis
  proof (cases "product_fits (5 ^ e) b")
    case f: False
    have "radix ^ (kBigitCapacity - 1) \<le> radix ^ kBigitCapacity" by (rule power_le_radix) simp
    moreover have "radix ^ kBigitCapacity \<le> 5 ^ e * bval (bn_bigits b)" using f by (simp add: product_fits_def)
    ultimately have "\<not> 5 ^ e * bval (bn_bigits b) < radix ^ (kBigitCapacity - 1)" by linarith
    then show ?thesis using f mul_fives_spec[OF b, of e] m False by simp
  next
    case True
    then obtain b1 where b1: "mul_fives e b = Inr b1" "bn_inv b1" "bval (bn_bigits b1) = 5 ^ e * bval (bn_bigits b)" "bn_exponent b1 = bn_exponent b"
      using mul_fives_spec[OF b, of e] by auto
    have n0: "bn_used_digits b1 \<noteq> 0" using b1(2,3) pos value_zero_iff[OF b1(2)] by (simp add: bn_value_def)
    have iff: "5 ^ e * bval (bn_bigits b) < radix ^ (kBigitCapacity - 1) \<longleftrightarrow> bn_used_digits b1 < kBigitCapacity"
    proof
      assume "5 ^ e * bval (bn_bigits b) < radix ^ (kBigitCapacity - 1)"
      moreover have "radix ^ (bn_used_digits b1 - 1) \<le> bval (bn_bigits b1)" using b1(2) n0 by (simp add: bn_inv_def)
      ultimately have "radix ^ (bn_used_digits b1 - 1) < radix ^ (kBigitCapacity - 1)" using b1(3) by linarith
      then show "bn_used_digits b1 < kBigitCapacity" by (simp add: power_less_radix)
    next
      assume "bn_used_digits b1 < kBigitCapacity"
      then have "radix ^ bn_used_digits b1 \<le> radix ^ (kBigitCapacity - 1)" by (intro power_le_radix) simp
      moreover have "bval (bn_bigits b1) < radix ^ bn_used_digits b1" using b1(2) by (simp add: bn_inv_def)
      ultimately show "5 ^ e * bval (bn_bigits b) < radix ^ (kBigitCapacity - 1)" using b1(3) by linarith
    qed
    have v: "bn_value b1 * 2 ^ e = bn_value b * 10 ^ e"
      unfolding bn_value_def b1(3,4) by (simp flip: power_mult_distrib add: mult.commute mult.left_commute)
    have ex1: "bn_exponent b1 + e div kBigitSize < 2 ^ 31" using ex False b1(4) by simp
    show ?thesis
    proof (cases "bn_used_digits b1 < kBigitCapacity")
      case True
      then show ?thesis using ShiftLeft_spec[OF b1(2) True, of e] ex1 b1(1) m iff v by auto
    next
      case c: False
      then have "ShiftLeft e b1 = Inl Terminate"
        using n0 ex1 by (simp add: ShiftLeft_def EnsureCapacity_def int_res_def)
      then show ?thesis using b1(1) m iff c False by simp
    qed
  qed
qed

end
