(* ===== verification/Bignum_Power.thy ===== *)
theory Bignum_Power
  imports Complex_Main Bignum_Mult Bits_Correct
begin

text \<open>
  Squares and powers of bignums.  The column sums of the Comba multiplication are the coefficients of a
  product of polynomials; the in-place computation reads each copied bigit before it is overwritten and
  its 64-bit accumulator never overflows.
\<close>

unbundle bit_operations_syntax

section \<open>Columns\<close>

definition coeff :: "nat list \<Rightarrow> nat \<Rightarrow> nat" where
  "coeff a j = (if j < length a then a ! j else 0)"

definition column :: "nat list \<Rightarrow> nat \<Rightarrow> nat" where
  "column a i = (\<Sum>k\<le>i. coeff a k * coeff a (i - k))"

lemma bval_sum: "bval a = (\<Sum>j<length a. a ! j * radix ^ j)"
proof (induction a)
  case (Cons x a)
  have "(\<Sum>j<length (x # a). (x # a) ! j * radix ^ j) = x + (\<Sum>j<length a. a ! j * radix ^ Suc j)"
    by (simp add: sum.lessThan_Suc_shift del: sum.lessThan_Suc)
  then show ?case using Cons by (simp add: sum_distrib_left ac_simps)
qed simp

lemma square_columns: "bval a * bval a = (\<Sum>i<2 * length a. column a i * radix ^ i)"
proof (cases "a = []")
  case False
  then obtain m where m: "length a = Suc m" by (cases a) auto
  have "bval a = (\<Sum>j\<le>m. coeff a j * radix ^ j)"
    unfolding bval_sum m by (intro sum.cong) (auto simp: coeff_def m)
  then have "bval a * bval a = (\<Sum>i\<le>m + m. column a i * radix ^ i)"
    unfolding column_def by (simp only:) (rule polynomial_product_nat, auto simp: coeff_def m)
  also have "\<dots> = (\<Sum>i<2 * length a. column a i * radix ^ i)"
  proof (rule sum.mono_neutral_left)
    show "\<forall>i\<in>{..<2 * length a} - {..m + m}. column a i * radix ^ i = 0"
      by (auto simp: column_def coeff_def m intro!: sum.neutral)
  qed (auto simp: m)
  finally show ?thesis .
qed simp

lemma column_low: "i < length a \<Longrightarrow> column a i = (\<Sum>k\<le>i. a ! (i - k) * a ! k)"
  unfolding column_def by (intro sum.cong) (auto simp: coeff_def)

lemma column_high:
  assumes "length a \<le> i" "a \<noteq> []"
  shows "column a i = (\<Sum>k=i - (length a - 1)..<length a. a ! (i - k) * a ! k)"
proof -
  have "(\<Sum>k=i - (length a - 1)..<length a. a ! (i - k) * a ! k) = (\<Sum>k=i - (length a - 1)..<length a. coeff a k * coeff a (i - k))"
    using assms by (intro sum.cong) (auto simp: coeff_def)
  also have "\<dots> = column a i"
    unfolding column_def using assms by (intro sum.mono_neutral_left) (auto simp: coeff_def)
  finally show ?thesis ..
qed

section \<open>The inner loops\<close>

lemma add_product_spec:
  assumes "bigits_ok d" "off + i1 < length d" "off + i2 < length d" "acc + radix * radix \<le> 256 * radix * radix"
  shows "add_product d off i1 i2 acc = Inr (acc + d ! (off + i1) * d ! (off + i2))"
    and "d ! (off + i1) * d ! (off + i2) < radix * radix"
proof -
  have "d ! (off + i1) < radix" "d ! (off + i2) < radix" using assms by (auto intro: bigits_ok_nth)
  then show l: "d ! (off + i1) * d ! (off + i2) < radix * radix" by (intro mult_strict_mono) auto
  then have "d ! (off + i1) * d ! (off + i2) < 256 * radix * radix" "acc + d ! (off + i1) * d ! (off + i2) < 256 * radix * radix"
    using assms(4) by linarith+
  then show "add_product d off i1 i2 acc = Inr (acc + d ! (off + i1) * d ! (off + i2))"
    using assms(2,3) by (simp add: add_product_def dchunk_id)
qed

lemma square_inner1_spec:
  assumes "bigits_ok d" "off + i1 < length d" "off + i1 + i2 < length d" "acc + Suc i1 * (radix * radix) \<le> 256 * radix * radix"
  shows "square_inner1 d off i1 i2 acc = Inr (acc + (\<Sum>k\<le>i1. d ! (off + (i1 - k)) * d ! (off + (i2 + k))))"
  using assms
proof (induction i1 arbitrary: i2 acc)
  case 0
  then show ?case using add_product_spec[of d off 0 i2 acc] by simp
next
  case (Suc i1)
  let ?p = "d ! (off + Suc i1) * d ! (off + i2)"
  have ap: "add_product d off (Suc i1) i2 acc = Inr (acc + ?p)" "?p < radix * radix"
    using add_product_spec[of d off "Suc i1" i2 acc] Suc.prems by auto
  have "square_inner1 d off i1 (i2 + 1) (acc + ?p) = Inr (acc + ?p + (\<Sum>k\<le>i1. d ! (off + (i1 - k)) * d ! (off + (i2 + 1 + k))))"
    using Suc.prems ap(2) by (intro Suc.IH) auto
  moreover have "(\<Sum>k\<le>Suc i1. d ! (off + (Suc i1 - k)) * d ! (off + (i2 + k))) =
      ?p + (\<Sum>k\<le>i1. d ! (off + (i1 - k)) * d ! (off + (i2 + 1 + k)))"
    by (subst sum.atMost_Suc_shift) simp
  ultimately show ?case using ap(1) by simp
qed

lemma square_inner2_spec:
  assumes "bigits_ok d" "off + n \<le> length d" "i1 < n" "i1 + i2 = i" "n \<le> i" "acc + (n - i2) * (radix * radix) \<le> 256 * radix * radix"
  shows "square_inner2 d off n i1 i2 acc = Inr (acc + (\<Sum>k=i2..<n. d ! (off + (i - k)) * d ! (off + k)))"
  using assms(3-)
proof (induction "n - i2" arbitrary: i1 i2 acc)
  case 0
  then show ?case by (simp add: square_inner2.simps)
next
  case (Suc m)
  then have lt: "i2 < n" by simp
  let ?p = "d ! (off + i1) * d ! (off + i2)"
  have r: "(n - i2) * (radix * radix) = radix * radix + (n - (i2 + 1)) * (radix * radix)"
    using lt by (metis Suc_diff_Suc Suc_eq_plus1 mult_Suc)
  have ap: "add_product d off i1 i2 acc = Inr (acc + ?p)" "?p < radix * radix"
    using add_product_spec[of d off i1 i2 acc] Suc.prems assms(1,2) lt r by auto
  have i1: "0 < i1" using Suc.prems lt by simp
  have "square_inner2 d off n (i1 - 1) (i2 + 1) (acc + ?p) = Inr (acc + ?p + (\<Sum>k=i2 + 1..<n. d ! (off + (i - k)) * d ! (off + k)))"
    using Suc.prems Suc.hyps(2) ap(2) r i1 by (intro Suc.hyps(1)) auto
  moreover have "(\<Sum>k=i2..<n. d ! (off + (i - k)) * d ! (off + k)) = ?p + (\<Sum>k=i2 + 1..<n. d ! (off + (i - k)) * d ! (off + k))"
    using lt Suc.prems(2) by (subst sum.atLeast_Suc_lessThan) auto
  ultimately show ?case using ap(1) lt by (subst square_inner2.simps) simp
qed

section \<open>The outer loops\<close>

text \<open>The state before column \<open>i\<close>: the columns below are written, the copies from \<open>i - n\<close> on are intact.\<close>

definition square_state :: "nat list \<Rightarrow> nat \<Rightarrow> nat list \<Rightarrow> nat \<Rightarrow> bool" where
  "square_state a i d acc \<longleftrightarrow> length d = kBigitCapacity \<and> bigits_ok d
     \<and> (\<forall>j < length a. i \<le> length a + j \<longrightarrow> d ! (length a + j) = a ! j)
     \<and> (\<forall>j. 2 * length a \<le> j \<longrightarrow> j < kBigitCapacity \<longrightarrow> d ! j = 0)
     \<and> bval (take i d) + acc * radix ^ i = (\<Sum>k<i. column a k * radix ^ k)
     \<and> acc \<le> 128 * radix"

lemma square_state_step:
  assumes "square_state a i d acc" "i < 2 * length a" "2 * length a \<le> kBigitCapacity"
    "column a i \<le> 64 * (radix * radix)"
  defines "acc1 \<equiv> acc + column a i"
  shows "square_state a (i + 1) (d[i := chunk acc1 AND kBigitMask]) (drop_bit kBigitSize acc1)"
proof -
  have h: "length d = kBigitCapacity" "bigits_ok d" "bval (take i d) + acc * radix ^ i = (\<Sum>k<i. column a k * radix ^ k)"
    using assms(1) by (auto simp: square_state_def)
  have i: "i < length d" using assms(2,3) h(1) by simp
  have c: "chunk acc1 AND kBigitMask = acc1 mod radix"
  proof -
    have "radix dvd 16 * radix" by simp
    then show ?thesis unfolding and_kBigitMask chunk_def chunk_size by (rule mod_mod_cancel)
  qed
  let ?d = "d[i := acc1 mod radix]"
  have "bval (take (Suc i) ?d) = bval (take i d) + acc1 mod radix * radix ^ i"
    using i by (simp add: take_Suc_conv_app_nth bval_append)
  then have "bval (take (Suc i) ?d) + acc1 div radix * (radix * radix ^ i) = bval (take i d) + acc1 * radix ^ i"
    using bigit_split_scaled[of acc1 "radix ^ i"] by simp
  also have "\<dots> = (\<Sum>k<Suc i. column a k * radix ^ k)" using h(3) by (simp add: acc1_def distrib_right)
  finally have v: "bval (take (Suc i) ?d) + acc1 div radix * (radix * radix ^ i) = (\<Sum>k<Suc i. column a k * radix ^ k)" .
  have "acc1 \<le> 128 * radix + 64 * (radix * radix)" using assms(1,4) by (simp add: acc1_def square_state_def add_mono)
  also have "\<dots> \<le> 128 * radix * radix" by (simp add: radix_val)
  finally have "acc1 div radix \<le> 128 * radix" by (metis div_le_mono div_mult_self_is_m radix_pos(1))
  moreover have "bigits_ok ?d" using h(2) by (simp add: bigits_ok_update)
  moreover have "\<forall>j < length a. Suc i \<le> length a + j \<longrightarrow> ?d ! (length a + j) = a ! j"
    using assms(1) by (auto simp: square_state_def nth_list_update)
  moreover have "\<forall>j. 2 * length a \<le> j \<longrightarrow> j < kBigitCapacity \<longrightarrow> ?d ! j = 0"
    using assms(1,2) by (auto simp: square_state_def nth_list_update)
  ultimately show ?thesis using h(1) v unfolding c drop_kBigitSize by (simp add: square_state_def)
qed

lemma column_bound: "bigits_ok a \<Longrightarrow> length a \<le> 64 \<Longrightarrow> column a i \<le> 64 * (radix * radix)"
proof -
  assume a: "bigits_ok a" "length a \<le> 64"
  have c: "coeff a k \<le> radix" for k using a(1) by (auto simp: coeff_def bigits_ok_def less_imp_le)
  have "column a i = (\<Sum>k\<in>{..i} \<inter> {..<length a}. coeff a k * coeff a (i - k))"
    unfolding column_def by (rule sum.mono_neutral_right) (auto simp: coeff_def)
  also have "\<dots> \<le> (\<Sum>k\<in>{..i} \<inter> {..<length a}. radix * radix)" using c by (intro sum_mono mult_le_mono) auto
  also have "\<dots> = card ({..i} \<inter> {..<length a}) * (radix * radix)" by simp
  also have "card ({..i} \<inter> {..<length a}) \<le> 64" using a(2) card_mono[of "{..<length a}" "{..i} \<inter> {..<length a}"] by simp
  finally show ?thesis by simp
qed

lemma square_loop1_spec:
  assumes a: "bigits_ok a" "length a \<le> 64"
  shows "square_state a i d acc \<Longrightarrow> i + n \<le> length a \<Longrightarrow>
    \<exists>d' acc'. square_loop1 (length a) i n d acc = Inr (d', acc') \<and> square_state a (i + n) d' acc'"
proof (induction n arbitrary: i d acc)
  case (Suc n)
  let ?l = "length a"
  have i: "i < ?l" using Suc.prems by simp
  have st: "length d = kBigitCapacity" "bigits_ok d" "\<forall>j < ?l. d ! (?l + j) = a ! j" "acc \<le> 128 * radix"
    using Suc.prems(1) i by (auto simp: square_state_def)
  have "acc + Suc i * (radix * radix) \<le> 256 * radix * radix"
  proof -
    have "Suc i * (radix * radix) \<le> 64 * (radix * radix)" using i a(2) by (intro mult_le_mono1) simp
    then show ?thesis using st(4) by (simp add: radix_val)
  qed
  then have "square_inner1 d ?l i 0 acc = Inr (acc + (\<Sum>k\<le>i. d ! (?l + (i - k)) * d ! (?l + (0 + k))))"
    using st(1,2) i a(2) by (intro square_inner1_spec) (auto simp: capacity)
  also have "(\<Sum>k\<le>i. d ! (?l + (i - k)) * d ! (?l + (0 + k))) = column a i"
    unfolding column_low[OF i]
  proof (intro sum.cong refl)
    fix k assume "k \<in> {..i}"
    then show "d ! (?l + (i - k)) * d ! (?l + (0 + k)) = a ! (i - k) * a ! k"
      using st(3)[rule_format, of "i - k"] st(3)[rule_format, of k] i by simp
  qed
  finally have inner: "square_inner1 d ?l i 0 acc = Inr (acc + column a i)" .
  have "square_state a (i + 1) (d[i := chunk (acc + column a i) AND kBigitMask]) (drop_bit kBigitSize (acc + column a i))"
    using Suc.prems(1) i a by (intro square_state_step column_bound) (auto simp: capacity)
  from Suc.IH[OF this] Suc.prems(2) inner st(1) i a(2) show ?case by (auto simp: capacity)
qed simp

lemma square_loop2_spec:
  assumes a: "bigits_ok a" "length a \<le> 64" "a \<noteq> []"
  shows "square_state a i d acc \<Longrightarrow> length a \<le> i \<Longrightarrow> i + n \<le> 2 * length a \<Longrightarrow>
    \<exists>d' acc'. square_loop2 (length a) (length a) i n d acc = Inr (d', acc') \<and> square_state a (i + n) d' acc'"
proof (induction n arbitrary: i d acc)
  case (Suc n)
  let ?l = "length a"
  define i2 where "i2 = i - (?l - 1)"
  have i: "?l \<le> i" "i < 2 * ?l" "?l - 1 < ?l" "?l - 1 + i2 = i" "0 < i2" using Suc.prems a(3) by (auto simp: i2_def Suc_leI)
  have st: "length d = kBigitCapacity" "bigits_ok d" "\<forall>j < ?l. i \<le> ?l + j \<longrightarrow> d ! (?l + j) = a ! j" "acc \<le> 128 * radix"
    using Suc.prems(1) by (auto simp: square_state_def)
  have "acc + (?l - i2) * (radix * radix) \<le> 256 * radix * radix"
  proof -
    have "(?l - i2) * (radix * radix) \<le> 64 * (radix * radix)" using a(2) by (intro mult_le_mono1) simp
    then show ?thesis using st(4) by (simp add: radix_val)
  qed
  then have "square_inner2 d ?l ?l (?l - 1) i2 acc = Inr (acc + (\<Sum>k=i2..<?l. d ! (?l + (i - k)) * d ! (?l + k)))"
    using st(1,2) i a(2) by (intro square_inner2_spec) (auto simp: capacity)
  also have "(\<Sum>k=i2..<?l. d ! (?l + (i - k)) * d ! (?l + k)) = column a i"
    unfolding column_high[OF i(1) a(3)] i2_def[symmetric]
  proof (intro sum.cong refl)
    fix k assume k: "k \<in> {i2..<?l}"
    then have "i - k < ?l" "i \<le> ?l + (i - k)" "i \<le> ?l + k" using i by auto
    then show "d ! (?l + (i - k)) * d ! (?l + k) = a ! (i - k) * a ! k" using st(3) k by auto
  qed
  finally have inner: "square_inner2 d ?l ?l (?l - 1) i2 acc = Inr (acc + column a i)" .
  have "square_state a (i + 1) (d[i := chunk (acc + column a i) AND kBigitMask]) (drop_bit kBigitSize (acc + column a i))"
    using Suc.prems(1) i a by (intro square_state_step column_bound) (auto simp: capacity)
  from Suc.IH[OF this] Suc.prems(2,3) inner st(1) i(1,2) a(2) show ?case by (auto simp: capacity i2_def)
qed simp

lemma copy_up_loop_spec:
  assumes "off + (i + n) \<le> length d" "i + n \<le> off"
  shows "\<exists>d'. copy_up_loop off i n d = Inr d' \<and> length d' = length d
    \<and> (\<forall>j. d' ! j = (if off + i \<le> j \<and> j < off + i + n then d ! (j - off) else d ! j))"
  using assms
proof (induction n arbitrary: i d)
  case (Suc n)
  let ?d = "d[off + i := d ! i]"
  obtain d' where d': "copy_up_loop off (i + 1) n ?d = Inr d'" "length d' = length d"
      "\<forall>j. d' ! j = (if off + (i + 1) \<le> j \<and> j < off + (i + 1) + n then ?d ! (j - off) else ?d ! j)"
    using Suc.IH[of "i + 1" ?d] Suc.prems by auto
  have "d' ! j = (if off + i \<le> j \<and> j < off + i + Suc n then d ! (j - off) else d ! j)" for j
    using d'(3) Suc.prems by (auto simp: nth_list_update)
  then show ?case using d'(1,2) Suc.prems by auto
qed simp

lemma square_start:
  assumes "length d = kBigitCapacity" "bigits_ok d" "bval d < radix ^ n" "2 * n \<le> kBigitCapacity"
  shows "\<exists>d'. copy_up_loop n 0 n d = Inr d' \<and> square_state (take n d) 0 d' 0"
proof -
  obtain d' where d': "copy_up_loop n 0 n d = Inr d'" "length d' = length d"
      "\<forall>j. d' ! j = (if n + 0 \<le> j \<and> j < n + 0 + n then d ! (j - n) else d ! j)"
    using copy_up_loop_spec[of n 0 n d] assms by auto
  have z: "d ! j = 0" if "n \<le> j" "j < kBigitCapacity" for j
    using that assms(1,3) bval_below_iff[OF assms(2), of n] by simp
  have "d' ! j < radix" if "j < length d'" for j
    using that d'(2) d'(3)[rule_format, of j] bigits_ok_nth[OF assms(2)] by simp
  then have "bigits_ok d'" by (auto simp: bigits_ok_def in_set_conv_nth)
  then have "square_state (take n d) 0 d' 0"
    using d' assms z by (auto simp: square_state_def)
  then show ?thesis using d'(1) by blast
qed

lemma Square_spec:
  assumes b: "bn_inv b" and fits: "2 * bn_used_digits b \<le> kBigitCapacity" and ex: "2 * bn_exponent b < 2 ^ 31"
  shows "\<exists>b'. Square b = Inr b' \<and> bn_inv b' \<and> bn_value b' = bn_value b * bn_value b
    \<and> (bn_exponent b = 0 \<longrightarrow> bn_exponent b' = 0)"
proof -
  let ?n = "bn_used_digits b" and ?d = "bn_bigits b"
  define a where "a = take ?n ?d"
  have inv: "length ?d = kBigitCapacity" "bigits_ok ?d" "bval ?d < radix ^ ?n" using b by (auto simp: bn_inv_def)
  have a: "bigits_ok a" "length a = ?n" "bval a = bval ?d" "length a \<le> 64"
    using inv fits by (auto simp: a_def bigits_ok_sub bval_take capacity)
  obtain d0 where d0: "copy_up_loop ?n 0 ?n ?d = Inr d0" "square_state a 0 d0 0"
    using square_start[OF inv fits] by (auto simp: a_def)
  obtain d1 acc1 where d1: "square_loop1 ?n 0 ?n d0 0 = Inr (d1, acc1)" "square_state a ?n d1 acc1"
    using square_loop1_spec[OF a(1,4) d0(2), of ?n] a(2) by auto
  obtain d2 acc2 where d2: "square_loop2 ?n ?n ?n (2 * ?n - ?n) d1 acc1 = Inr (d2, acc2)" "square_state a (2 * ?n) d2 acc2"
  proof (cases "?n = 0")
    case True
    then show thesis using that[of d1 acc1] d1(2) by simp
  next
    case False
    then have "a \<noteq> []" using a(2) by auto
    then show thesis using square_loop2_spec[OF a(1,4) _ d1(2), of ?n] a(2) that by (auto simp: mult_2)
  qed
  have st: "length d2 = kBigitCapacity" "bigits_ok d2" "\<forall>j. 2 * ?n \<le> j \<longrightarrow> j < length d2 \<longrightarrow> d2 ! j = 0"
      "bval (take (2 * ?n) d2) + acc2 * radix ^ (2 * ?n) = bval ?d * bval ?d"
    using d2(2) square_columns[of a] a(2,3) by (simp_all add: square_state_def)
  have below: "bval d2 < radix ^ (2 * ?n)" using bval_below_iff[OF st(2)] st(3) by simp
  have "bval ?d * bval ?d < radix ^ ?n * radix ^ ?n" using inv(3) by (intro mult_strict_mono) auto
  then have "bval ?d * bval ?d < radix ^ (2 * ?n)" by (simp add: mult_2 power_add)
  then have "acc2 * radix ^ (2 * ?n) < radix ^ (2 * ?n)" using st(4) by linarith
  then have acc: "acc2 = 0" by (cases acc2) auto
  have v: "bval d2 = bval ?d * bval ?d" using st(4) acc bval_take[OF st(2) below] by simp
  define b1 where "b1 = \<lparr>bn_bigits = d2, bn_used_digits = 2 * ?n, bn_exponent = bn_exponent b * 2\<rparr>"
  obtain b' where b': "Clamp b1 = Inr b'" "bn_inv b'" "bn_value b' = bn_value b1"
    using Clamp_spec[of b1] st(1,2) below fits by (auto simp: b1_def)
  have "bn_exponent b = 0 \<longrightarrow> bn_exponent b' = 0" using b'(1) by (auto simp: Clamp_def b1_def)
  moreover have "bn_value b' = bn_value b * bn_value b"
    using b'(3) v by (simp add: b1_def bn_value_def mult_2_right power_add ac_simps)
  moreover have "int_res (int (bn_exponent b) * 2) = Inr (int (bn_exponent b * 2))" "nat (int (bn_exponent b) * 2) = bn_exponent b * 2"
    using ex by (simp_all add: int_res_def nat_mult_distrib)
  then have "Square b = Inr b'"
    using d0(1) d1(1) d2(1) acc b'(1) fits
    by (simp add: Square_def IsClamped_inv[OF b] EnsureCapacity_def Let_def ASSERT_def kChunkSize_def kBigitSize_def capacity b1_def)
  ultimately show ?thesis using b'(2) by (intro exI[of _ b'] conjI)
qed

lemma Square_aborts: "bn_inv b \<Longrightarrow> \<not> 2 * bn_used_digits b \<le> kBigitCapacity \<Longrightarrow> Square b = Inl Terminate"
  using IsClamped_inv[of b] by (simp add: Square_def EnsureCapacity_def Let_def)

section \<open>Powers\<close>

lemma strip_loop_spec:
  "base \<noteq> 0 \<Longrightarrow> \<exists>k. snd (strip_loop base s) = s + k \<and> fst (strip_loop base s) * 2 ^ k = base \<and> fst (strip_loop base s) \<noteq> 0"
proof (induction base s rule: strip_loop.induct)
  case (1 base s)
  show ?case
  proof (cases "base AND 1 = 0")
    case False
    then show ?thesis using 1 by (simp add: strip_loop.simps)
  next
    case True
    then have "even base" by (simp add: and_one_eq even_iff_mod_2_eq_zero)
    then have ev: "base div 2 * 2 = base" by simp
    then have "base div 2 \<noteq> 0" using 1(2) by (cases "base div 2") auto
    moreover have "drop_bit 1 base = base div 2" by (simp add: drop_bit_eq_div)
    ultimately obtain k where "snd (strip_loop (drop_bit 1 base) (s + 1)) = s + 1 + k"
        "fst (strip_loop (drop_bit 1 base) (s + 1)) * 2 ^ k = base div 2" "fst (strip_loop (drop_bit 1 base) (s + 1)) \<noteq> 0"
      using 1 True by auto
    then show ?thesis using 1(2) True ev by (subst (1 2 3) strip_loop.simps) (auto intro!: exI[of _ "Suc k"])
  qed
qed

lemma bit_size_loop_spec:
  "\<exists>k. bit_size_loop t n = n + k \<and> t < 2 ^ k \<and> (t \<noteq> 0 \<longrightarrow> 0 < k \<and> 2 ^ (k - 1) \<le> t)"
proof (induction t n rule: bit_size_loop.induct)
  case (1 t n)
  show ?case
  proof (cases "t = 0")
    case True
    then show ?thesis by (simp add: bit_size_loop.simps)
  next
    case False
    have d: "drop_bit 1 t = t div 2" by (simp add: drop_bit_eq_div)
    obtain k where k: "bit_size_loop (t div 2) (n + 1) = n + 1 + k" "t div 2 < 2 ^ k" "t div 2 \<noteq> 0 \<longrightarrow> 0 < k \<and> 2 ^ (k - 1) \<le> t div 2"
      using 1 False unfolding d by auto
    have "t < 2 ^ Suc k" using k(2) by simp
    moreover have "2 ^ k \<le> t"
    proof (cases "t div 2 = 0")
      case True
      then have "k = 0" using k(1) False by (simp add: bit_size_loop.simps)
      then show ?thesis using False by simp
    next
      case nz: False
      then have "2 * 2 ^ (k - 1) \<le> 2 * (t div 2)" "0 < k" using k(3) by simp_all
      then have "2 ^ k \<le> 2 * (t div 2)" by (cases k) auto
      then show ?thesis by linarith
    qed
    ultimately show ?thesis using False k(1) d by (subst bit_size_loop.simps) (auto intro!: exI[of _ "Suc k"])
  qed
qed

lemma mask_loop_spec:
  "2 ^ j \<le> p \<or> j = 0 \<or> 2 ^ (j - 1) \<le> p \<Longrightarrow> 0 < p \<Longrightarrow>
   \<exists>k. mask_loop p (2 ^ j) = 2 ^ Suc k \<and> p < 2 ^ Suc k \<and> 2 ^ k \<le> p \<or> j = 0 \<and> p < 2 ^ j"
proof (induction "p - 2 ^ j" arbitrary: j rule: less_induct)
  case less
  show ?case
  proof (cases "2 ^ j \<le> p")
    case False
    then show ?thesis using less.prems
      by (cases j) (auto simp: mask_loop.simps not_le)
  next
    case True
    have "mask_loop p (2 ^ j) = mask_loop p (2 ^ Suc j)"
      using True by (subst mask_loop.simps) (simp add: push_bit_eq_mult mult.commute)
    moreover have "\<exists>k. mask_loop p (2 ^ Suc j) = 2 ^ Suc k \<and> p < 2 ^ Suc k \<and> 2 ^ k \<le> p"
    proof (cases "2 ^ Suc j \<le> p")
      case t: True
      have "(2::nat) ^ j < 2 ^ Suc j" by simp
      then have "p - 2 ^ Suc j < p - 2 ^ j" using t by linarith
      from less.hyps[OF this] show ?thesis using t less.prems(2) by auto
    next
      case False
      then have "mask_loop p (2 ^ Suc j) = 2 ^ Suc j" by (subst mask_loop.simps) simp
      then show ?thesis using False True by auto
    qed
    ultimately show ?thesis by auto
  qed
qed

lemma mask_start: "0 < p \<Longrightarrow> \<exists>k. mask_loop p 1 = 2 ^ Suc k \<and> p < 2 ^ Suc k \<and> 2 ^ k \<le> p"
  using mask_loop_spec[of 0 p] by auto

lemma high_bits_zero:
  fixes v :: nat
  assumes "v < 2 ^ 64" "k \<le> 64"
  shows "v AND ((2 ^ 64 - 1) XOR (push_bit k 1 - 1)) = 0 \<longleftrightarrow> v < 2 ^ k"
proof -
  have m: "push_bit k (1::nat) - 1 = mask k" "(2::nat) ^ 64 - 1 = mask 64"
    by (simp_all add: push_bit_eq_mult mask_eq_exp_minus_1)
  have "v < 2 ^ k \<longleftrightarrow> take_bit k v = v" by (simp add: take_bit_nat_eq_self_iff)
  also have "\<dots> \<longleftrightarrow> (\<forall>n. bit v n \<longrightarrow> n < k)"
    by (auto simp: bit_eq_iff bit_take_bit_iff)
  also have "\<dots> \<longleftrightarrow> v AND (mask 64 XOR mask k) = 0"
  proof -
    have "bit v n \<Longrightarrow> n < 64" for n
      using assms(1) take_bit_nat_eq_self_iff[of 64 v] by (metis bit_take_bit_iff)
    then show ?thesis using assms(2) by (auto simp: bit_eq_iff bit_and_iff bit_xor_iff bit_mask_iff)
  qed
  finally show ?thesis unfolding m by simp
qed

lemma exponent_bit: "(p::nat) AND 2 ^ i \<noteq> 0 \<longleftrightarrow> odd (p div 2 ^ i)"
  by (simp add: and_exp_eq_0_iff_not_bit bit_iff_odd)

lemma exponent_step: "(p::nat) div 2 ^ i = 2 * (p div 2 ^ Suc i) + of_bool (p AND 2 ^ i \<noteq> 0)"
proof -
  have "p div 2 ^ Suc i = p div 2 ^ i div 2" unfolding power_Suc2 by (rule div_mult2_eq)
  then show ?thesis unfolding exponent_bit by (auto elim!: oddE)
qed

text \<open>
  With \<open>i\<close> bits of the exponent to go the mask is \<open>2 ^ i div 2\<close> and the value, together with the delayed
  factor, is \<open>base ^ (p div 2 ^ i)\<close>.
\<close>

definition pow_state :: "nat \<Rightarrow> nat \<Rightarrow> nat \<Rightarrow> nat \<Rightarrow> bool \<Rightarrow> bool" where
  "pow_state base p i v delayed \<longleftrightarrow> v < 2 ^ 64 \<and> v * (if delayed then base else 1) = base ^ (p div 2 ^ i)
     \<and> (delayed \<longrightarrow> 0xFFFFFFFF < v)"

lemma mask_steps: "drop_bit 1 ((2::nat) ^ i) = 2 ^ i div 2" "(2::nat) ^ Suc i div 2 = 2 ^ i"
  by (simp_all add: drop_bit_eq_div)

lemma pow_small_step:
  assumes "base < 2 ^ bs" "bs \<le> 16" "pow_state base p (Suc i) v delayed" "v \<le> 0xFFFFFFFF"
  shows "pow_small_loop base bs p (2 ^ Suc i div 2) v delayed =
      (if p AND 2 ^ i = 0 then pow_small_loop base bs p (2 ^ i div 2) (v * v) False
       else if v * v < 2 ^ (64 - bs) then pow_small_loop base bs p (2 ^ i div 2) (v * v * base) False
       else pow_small_loop base bs p (2 ^ i div 2) (v * v) True)"
    and "p AND 2 ^ i = 0 \<Longrightarrow> pow_state base p i (v * v) False"
    and "p AND 2 ^ i \<noteq> 0 \<Longrightarrow> v * v < 2 ^ (64 - bs) \<Longrightarrow> pow_state base p i (v * v * base) False"
    and "p AND 2 ^ i \<noteq> 0 \<Longrightarrow> \<not> v * v < 2 ^ (64 - bs) \<Longrightarrow> pow_state base p i (v * v) True"
proof -
  have d: "\<not> delayed" and v: "v = base ^ (p div 2 ^ Suc i)" using assms(3,4) by (auto simp: pow_state_def)
  have vv: "v * v < 2 ^ 64"
    using mult_le_mono[OF assms(4) assms(4)] by simp
  have pw: "v * v * base ^ of_bool (p AND 2 ^ i \<noteq> 0) = base ^ (p div 2 ^ i)"
    unfolding v exponent_step[of p i] by (simp only: power_add mult_2)
  have small: "v * v * base < 2 ^ 64" if "v * v < 2 ^ (64 - bs)"
  proof -
    have "v * v * base < 2 ^ (64 - bs) * 2 ^ bs" using that assms(1) by (intro mult_strict_mono) auto
    also have "\<dots> = 2 ^ 64" using assms(2) by (simp flip: power_add)
    finally show ?thesis .
  qed
  have id: "dchunk x = x" if "x < 2 ^ 64" for x using that by (simp add: dchunk_def kDoubleChunkSize_def)
  show "p AND 2 ^ i = 0 \<Longrightarrow> pow_state base p i (v * v) False"
    "p AND 2 ^ i \<noteq> 0 \<Longrightarrow> v * v < 2 ^ (64 - bs) \<Longrightarrow> pow_state base p i (v * v * base) False"
    using vv pw small by (simp_all add: pow_state_def)
  have "(2::nat) ^ 48 \<le> 2 ^ (64 - bs)" using assms(2) by (intro power_increasing) auto
  then show "p AND 2 ^ i \<noteq> 0 \<Longrightarrow> \<not> v * v < 2 ^ (64 - bs) \<Longrightarrow> pow_state base p i (v * v) True"
    using vv pw by (simp add: pow_state_def)
  have h: "(v * v) AND ((2 ^ 64 - 1) XOR (push_bit (64 - bs) 1 - 1)) = 0 \<longleftrightarrow> v * v < 2 ^ (64 - bs)"
    using high_bits_zero[OF vv, of "64 - bs"] by simp
  show "pow_small_loop base bs p (2 ^ Suc i div 2) v delayed =
      (if p AND 2 ^ i = 0 then pow_small_loop base bs p (2 ^ i div 2) (v * v) False
       else if v * v < 2 ^ (64 - bs) then pow_small_loop base bs p (2 ^ i div 2) (v * v * base) False
       else pow_small_loop base bs p (2 ^ i div 2) (v * v) True)"
    unfolding mask_steps(2)
    by (subst pow_small_loop.simps)
      (use assms(4) d h small id[OF vv] id in \<open>simp add: mask_steps(1) Let_def del: One_nat_def\<close>)
qed

lemma pow_small_loop_spec:
  assumes "base < 2 ^ bs" "bs \<le> 16" "pow_state base p i v delayed"
  shows "\<exists>i' v' delayed'. pow_small_loop base bs p (2 ^ i div 2) v delayed = (2 ^ i' div 2, v', delayed')
    \<and> pow_state base p i' v' delayed' \<and> i' \<le> i"
  using assms(3)
proof (induction i arbitrary: v delayed)
  case 0
  then show ?case by (subst pow_small_loop.simps) (auto intro!: exI[of _ 0])
next
  case (Suc i)
  show ?case
  proof (cases "v \<le> 0xFFFFFFFF")
    case False
    then have "pow_small_loop base bs p (2 ^ Suc i div 2) v delayed = (2 ^ Suc i div 2, v, delayed)"
      by (subst pow_small_loop.simps) simp
    then show ?thesis using Suc.prems by blast
  next
    case True
    note step = pow_small_step[OF assms(1,2) Suc.prems True]
    have ih: "\<exists>i' v' delayed'. pow_small_loop base bs p (2 ^ i div 2) u dl = (2 ^ i' div 2, v', delayed')
        \<and> pow_state base p i' v' delayed' \<and> i' \<le> Suc i" if "pow_state base p i u dl" for u dl
      using Suc.IH[OF that] le_SucI by blast
    show ?thesis unfolding step(1) using step(2-4) ih by (auto split: if_split)
  qed
qed

text \<open>The bound that the capacity check of \<open>AssignPowerUInt16\<close> gives.\<close>

lemma power_bits_below: "base < 2 ^ bs \<Longrightarrow> base ^ q \<le> (2::nat) ^ (bs * q)"
  by (simp add: power_mult power_mono)

lemma power_bigits_bound:
  assumes "base < 2 ^ bs" "q \<le> p" "bs * p div 28 + 2 \<le> kBigitCapacity"
  shows "base ^ q < radix ^ (kBigitCapacity - 1)"
proof -
  let ?F = "bs * p"
  have "base ^ q \<le> 2 ^ (bs * q)" using power_bits_below assms(1) by blast
  also have "\<dots> \<le> 2 ^ ?F" using assms(2) by (intro power_increasing) auto
  also have "\<dots> < 2 ^ (28 * (?F div 28 + 1))" by (intro power_strict_increasing) auto
  also have "\<dots> = radix ^ (?F div 28 + 1)" unfolding power_mult radix_def kBigitSize_def ..
  also have "\<dots> \<le> radix ^ (kBigitCapacity - 1)" using assms(3) by (intro power_increasing) (auto simp: Suc_leI)
  finally show ?thesis .
qed

lemma power_square_fits:
  assumes "bn_inv b" "bn_exponent b = 0" "bn_value b = base ^ q" "0 < q" "2 * q \<le> p"
    "base < 2 ^ bs" "bs * p div 28 + 2 \<le> kBigitCapacity"
  shows "2 * bn_used_digits b \<le> kBigitCapacity"
proof (cases "bn_used_digits b = 0")
  case False
  let ?u = "bn_used_digits b"
  have "radix ^ (?u - 1) \<le> base ^ q" using False assms(1-3) by (auto simp: bn_inv_def bn_value_def)
  also have "\<dots> < (2 ^ bs) ^ q" using assms(4,6) by (intro power_strict_mono) auto
  finally have "(2::nat) ^ (28 * (?u - 1)) < 2 ^ (bs * q)"
    by (simp add: radix_def kBigitSize_def power_mult)
  then have "28 * (?u - 1) < bs * q" by (rule power_less_imp_less_exp[rotated]) simp
  moreover have "bs * (2 * q) \<le> bs * p" using assms(5) by (intro mult_le_mono) auto
  ultimately show ?thesis using assms(7) by linarith
qed (simp add: capacity)

lemma pow_big_step:
  assumes "bn_inv b" "bn_exponent b = 0" "bn_value b = base ^ (p div 2 ^ Suc i)" "0 < p div 2 ^ Suc i"
    "0 < base" "base < 2 ^ bs" "bs \<le> 16" "bs * p div 28 + 2 \<le> kBigitCapacity"
  obtains b1 b2 where "Square b = Inr b1"
    "(if p AND 2 ^ i \<noteq> 0 then MultiplyByUInt32 base b1 else Inr b1) = Inr b2"
    "bn_inv b2" "bn_exponent b2 = 0" "bn_value b2 = base ^ (p div 2 ^ i)"
proof -
  let ?q = "p div 2 ^ Suc i"
  have q: "p div 2 ^ i = 2 * ?q + of_bool (p AND 2 ^ i \<noteq> 0)" by (rule exponent_step)
  have "p div 2 ^ i \<le> p" by (rule div_le_dividend)
  then have le: "2 * ?q \<le> p" using q by linarith
  obtain b1 where b1: "Square b = Inr b1" "bn_inv b1" "bn_value b1 = base ^ (2 * ?q)" "bn_exponent b1 = 0"
    using Square_spec[OF assms(1) power_square_fits[OF assms(1-4) le assms(6,8)]] assms(2,3)
    by (auto simp: mult_2 power_add)
  show thesis
  proof (cases "p AND 2 ^ i = 0")
    case True
    then show ?thesis using that[of b1 b1] b1 q by simp
  next
    case False
    have v: "base * bval (bn_bigits b1) = base ^ (p div 2 ^ i)" using b1(3,4) q False by (simp add: bn_value_def)
    have "base ^ (p div 2 ^ i) < radix ^ (kBigitCapacity - 1)"
      using power_bigits_bound[OF assms(6) _ assms(8)] \<open>p div 2 ^ i \<le> p\<close> by blast
    also have "\<dots> \<le> radix ^ kBigitCapacity" by (intro power_le_radix) simp
    finally have "product_fits base b1" by (simp add: product_fits_def v)
    moreover have "(2::nat) ^ bs \<le> 2 ^ 32" using assms(7) by (intro power_increasing) auto
    then have "base < 2 ^ 32" using assms(6) by linarith
    ultimately obtain b2 where "MultiplyByUInt32 base b1 = Inr b2" "bn_inv b2"
        "bval (bn_bigits b2) = base * bval (bn_bigits b1)" "bn_exponent b2 = bn_exponent b1"
      using MultiplyByUInt32_pos[OF b1(2) _ assms(5)] by auto
    then show ?thesis using that[of b1 b2] b1(1,4) v False by (simp add: bn_value_def)
  qed
qed

lemma pow_big_loop_spec:
  assumes "0 < base" "base < 2 ^ bs" "bs \<le> 16" "bs * p div 28 + 2 \<le> kBigitCapacity"
    "bn_inv b" "bn_exponent b = 0" "bn_value b = base ^ (p div 2 ^ i)" "0 < p div 2 ^ i"
  shows "\<exists>b'. pow_big_loop base p (2 ^ i div 2) b = Inr b' \<and> bn_inv b' \<and> bn_exponent b' = 0 \<and> bn_value b' = base ^ p"
  using assms(5-8)
proof (induction i arbitrary: b)
  case 0
  then show ?case by (subst pow_big_loop.simps) simp
next
  case (Suc i)
  obtain b1 b2 where st: "Square b = Inr b1" "(if p AND 2 ^ i \<noteq> 0 then MultiplyByUInt32 base b1 else Inr b1) = Inr b2"
    "bn_inv b2" "bn_exponent b2 = 0" "bn_value b2 = base ^ (p div 2 ^ i)"
    using pow_big_step[OF Suc.prems assms(1-4)] by metis
  have "pow_big_loop base p (2 ^ Suc i div 2) b = pow_big_loop base p (2 ^ i div 2) b2"
    unfolding mask_steps(2) by (subst pow_big_loop.simps) (use st(1,2) in \<open>simp add: mask_steps(1) del: One_nat_def\<close>)
  moreover have "0 < p div 2 ^ i" using exponent_step[of p i] Suc.prems(4) by linarith
  ultimately show ?case using Suc.IH[OF st(3-5)] by simp
qed

lemma delayed_spec:
  assumes "bn_inv b" "0 < base" "base < 2 ^ 16" "pow_state base p i v delayed"
  shows "\<exists>b1 b2. AssignUInt64 v b = Inr b1 \<and> (if delayed then MultiplyByUInt32 base b1 else Inr b1) = Inr b2
    \<and> bn_inv b2 \<and> bn_exponent b2 = 0 \<and> bn_value b2 = base ^ (p div 2 ^ i)"
proof -
  have v: "v < 2 ^ 64" "v * (if delayed then base else 1) = base ^ (p div 2 ^ i)" using assms(4) by (auto simp: pow_state_def)
  obtain b1 where b1: "AssignUInt64 v b = Inr b1" "bn_inv b1" "bn_value b1 = v" "bn_exponent b1 = 0"
    using AssignUInt64_spec[OF assms(1) v(1)] by blast
  show ?thesis
  proof (cases delayed)
    case False
    then show ?thesis using b1 v by auto
  next
    case True
    have w: "bval (bn_bigits b1) = v" using b1(3,4) by (simp add: bn_value_def)
    have "base * v < 2 ^ 16 * 2 ^ 64" using assms(3) v(1) by (intro mult_strict_mono) auto
    also have "\<dots> \<le> radix ^ 3" by (simp add: radix_val)
    also have "\<dots> \<le> radix ^ kBigitCapacity" by (intro power_le_radix) (simp add: capacity)
    finally have "product_fits base b1" by (simp add: product_fits_def w)
    moreover have "base < 2 ^ 32" using assms(3) by simp
    ultimately obtain b2 where "MultiplyByUInt32 base b1 = Inr b2" "bn_inv b2"
        "bval (bn_bigits b2) = base * v" "bn_exponent b2 = 0"
      using MultiplyByUInt32_pos[OF b1(2) _ assms(2)] b1(4) w by auto
    then show ?thesis using b1 v True by (auto simp: bn_value_def mult.commute)
  qed
qed

lemma power_parts:
  assumes "0 < base0" "base0 < 2 ^ 16"
  obtains base k bs where "strip_loop base0 0 = (base, k)" "base * 2 ^ k = base0" "0 < base" "base < 2 ^ 16"
    "bit_size_loop base 0 = bs" "base < 2 ^ bs" "0 < bs" "bs \<le> 16" "2 ^ (bs - 1) \<le> base"
proof -
  obtain base k where st: "strip_loop base0 0 = (base, k)" "base * 2 ^ k = base0" "0 < base"
    using strip_loop_spec[of base0 0] assms(1) by (cases "strip_loop base0 0") auto
  have "base * 1 \<le> base * 2 ^ k" by (intro mult_le_mono) auto
  then have lt: "base < 2 ^ 16" using st(2) assms(2) by simp
  obtain bs where bs: "bit_size_loop base 0 = bs" "base < 2 ^ bs" "0 < bs" "2 ^ (bs - 1) \<le> base"
    using bit_size_loop_spec[of base 0] st(3) by auto
  have "(2::nat) ^ (bs - 1) < 2 ^ 16" using bs(4) lt by linarith
  then have "bs - 1 < 16" by (rule power_less_imp_less_exp[rotated]) simp
  then show thesis using that[OF st(1-3) lt bs(1-3) _ bs(4)] by simp
qed

text \<open>The number of bits that \<^verbatim>\<open>AssignPowerUInt16\<close> reserves: those of the odd part of the base, for each factor.\<close>

definition power_bits :: "nat \<Rightarrow> nat \<Rightarrow> nat" where
  "power_bits base p = bit_size_loop (fst (strip_loop base 0)) 0 * p"

lemma drop_mask: "drop_bit 2 ((2::nat) ^ Suc k) = 2 ^ k div 2"
proof -
  have "drop_bit 2 ((2::nat) ^ Suc k) = 2 ^ Suc k div (2 * 2)" by (simp add: drop_bit_eq_div)
  also have "\<dots> = 2 ^ Suc k div 2 div 2" by (rule div_mult2_eq)
  finally show ?thesis by simp
qed

lemma used_below:
  assumes "bn_inv b" "bval (bn_bigits b) < radix ^ (kBigitCapacity - 1)"
  shows "bn_used_digits b < kBigitCapacity"
proof (rule ccontr)
  assume "\<not> ?thesis"
  then have le: "kBigitCapacity - 1 \<le> bn_used_digits b - 1" and "bn_used_digits b \<noteq> 0" by (auto simp: capacity)
  then have "radix ^ (bn_used_digits b - 1) \<le> bval (bn_bigits b)" using assms(1) by (auto simp: bn_inv_def)
  then show False using assms(2) power_le_radix[OF le] by linarith
qed

lemma AssignPowerUInt16_spec:
  assumes b: "bn_inv b" and base0: "0 < base0" "base0 < 2 ^ 16" and bits: "power_bits base0 p < 2 ^ 31"
  shows "if p = 0 \<or> power_bits base0 p div kBigitSize + 2 \<le> kBigitCapacity
    then \<exists>b'. AssignPowerUInt16 base0 p b = Inr b' \<and> bn_inv b' \<and> bn_value b' = base0 ^ p
    else AssignPowerUInt16 base0 p b = Inl Terminate"
proof (cases "p = 0")
  case True
  then show ?thesis using AssignUInt16_spec[OF b, of 1] base0(1)
    by (auto simp: AssignPowerUInt16_def ASSERT_def)
next
  case False
  obtain base k bs where pt: "strip_loop base0 0 = (base, k)" "base * 2 ^ k = base0" "0 < base" "base < 2 ^ 16"
    "bit_size_loop base 0 = bs" "base < 2 ^ bs" "0 < bs" "bs \<le> 16" "2 ^ (bs - 1) \<le> base"
    using power_parts[OF base0] by blast
  obtain i where i: "mask_loop p 1 = 2 ^ Suc i" "p < 2 ^ Suc i" "2 ^ i \<le> p" using mask_start[of p] False by auto
  have one: "p div 2 ^ i = 1" using i(2,3) by (intro div_nat_eqI) auto
  have pb: "power_bits base0 p = bs * p" using pt by (simp add: power_bits_def)
  have st: "pow_state base p i base False" using pt(4) one by (simp add: pow_state_def)
  obtain i' v delayed where lp: "pow_small_loop base bs p (2 ^ i div 2) base False = (2 ^ i' div 2, v, delayed)"
      "pow_state base p i' v delayed" "i' \<le> i"
    using pow_small_loop_spec[OF pt(6,8) st] by blast
  obtain b1 b2 where b2: "AssignUInt64 v bn_new = Inr b1" "(if delayed then MultiplyByUInt32 base b1 else Inr b1) = Inr b2"
      "bn_inv b2" "bn_exponent b2 = 0" "bn_value b2 = base ^ (p div 2 ^ i')"
    using delayed_spec[OF bn_new_inv(1) pt(3,4) lp(2)] by blast
  have run: "AssignPowerUInt16 base0 p b =
      (if bs * p div kBigitSize + 2 \<le> kBigitCapacity
       then bindE (pow_big_loop base p (2 ^ i' div 2) b2) (ShiftLeft (k * p)) else Inl Terminate)"
    using base0(1) False Zero_spec[OF b] pt(1,5) bits pb lp(1) b2(1,2)
    by (simp add: AssignPowerUInt16_def ASSERT_def EnsureCapacity_def i(1) drop_mask del: One_nat_def power_Suc)
  show ?thesis
  proof (cases "bs * p div kBigitSize + 2 \<le> kBigitCapacity")
    case no: False
    then show ?thesis using run pb False by simp
  next
    case fits: True
    then have fits': "bs * p div 28 + 2 \<le> kBigitCapacity" by (simp add: kBigitSize_def)
    have "p div 2 ^ i \<le> p div 2 ^ i'" using lp(3) by (intro div_le_mono2) (auto intro: power_increasing)
    then have "0 < p div 2 ^ i'" using one by simp
    then obtain b3 where b3: "pow_big_loop base p (2 ^ i' div 2) b2 = Inr b3" "bn_inv b3" "bn_exponent b3 = 0" "bn_value b3 = base ^ p"
      using pow_big_loop_spec[OF pt(3,6,8) fits' b2(3-5)] by blast
    have "bval (bn_bigits b3) < radix ^ (kBigitCapacity - 1)"
      using power_bigits_bound[OF pt(6) order_refl fits'] b3(3,4) by (simp add: bn_value_def)
    then have "bn_used_digits b3 < kBigitCapacity" by (rule used_below[OF b3(2)])
    moreover have "k * p div kBigitSize < 2 ^ 31"
    proof -
      have "2 ^ k * 1 \<le> base * 2 ^ k" using pt(3) by simp
      then have "(2::nat) ^ k < 2 ^ 16" using pt(2) base0(2) by linarith
      then have "k < 16" by (rule power_less_imp_less_exp[rotated]) simp
      moreover have "bs * p div 28 \<le> 126" using fits' by (simp add: capacity)
      then have "bs * p \<le> 3600" by linarith
      moreover have "1 * p \<le> bs * p" using pt(7) by (intro mult_le_mono1) simp
      ultimately have "k < 16" "p \<le> 3600" by linarith+
      then have "k * p \<le> 16 * 3600" by (intro mult_le_mono) simp_all
      then show ?thesis by (simp add: kBigitSize_def)
    qed
    ultimately obtain b' where "ShiftLeft (k * p) b3 = Inr b'" "bn_inv b'" "bn_value b' = base ^ p * 2 ^ (k * p)"
      using ShiftLeft_spec[OF b3(2), of "k * p"] b3(3,4) by auto
    moreover have "base ^ p * 2 ^ (k * p) = base0 ^ p" using pt(2) by (simp add: power_mult flip: power_mult_distrib)
    ultimately show ?thesis using run fits pb b3(1) by simp
  qed
qed

end
