(* ===== verification/Bignum_Division.thy ===== *)
theory Bignum_Division
  imports Bignum_Correct
begin

text \<open>
  Division of bignums: \<^verbatim>\<open>SubtractTimes\<close> subtracts a multiple in place, and \<^verbatim>\<open>DivideModuloIntBignum\<close> leaves the
  remainder and returns the quotient.  The quotient is below \<open>2 ^ 16\<close>, every iteration of a loop takes at least one
  multiple of the divisor away, hence \<open>2 ^ 16\<close> iterations are enough.
\<close>

unbundle bit_operations_syntax

section \<open>Subtraction of a multiple\<close>

lemma Clamp_exponent: "Clamp b = Inr b' \<Longrightarrow> bn_exponent b' \<le> bn_exponent b"
  by (auto simp: Clamp_def)

lemma SubtractBignum_aligned:
  assumes "bn_inv b" "bn_inv other" "bn_exponent b \<le> bn_exponent other" "bn_value other \<le> bn_value b"
  shows "\<exists>b'. SubtractBignum other b = Inr b' \<and> bn_inv b' \<and> bn_value b' = bn_value b - bn_value other
    \<and> bn_exponent b' \<le> bn_exponent b"
proof -
  have "align_fits b other" using assms(1,3) used_le_capacity by (simp add: align_fits_iff)
  then obtain b' where b': "SubtractBignum other b = Inr b'" "bn_inv b'" "bn_value b' = bn_value b - bn_value other"
    using SubtractBignum_spec[OF assms(1,2) _ assms(4)] by blast
  have "bn_exponent b' \<le> bn_exponent b"
    using b'(1) assms(3) by (auto simp: SubtractBignum_def Align_def Let_def dest!: Clamp_exponent)
  then show ?thesis using b' by blast
qed

lemma subtract_repeat_spec:
  assumes "bn_inv other" "bn_inv b" "bn_exponent b \<le> bn_exponent other" "n * bn_value other \<le> bn_value b"
  shows "\<exists>b'. subtract_repeat n other b = Inr b' \<and> bn_inv b' \<and> bn_value b' = bn_value b - n * bn_value other
    \<and> bn_exponent b' \<le> bn_exponent b"
  using assms(2-4)
proof (induction n arbitrary: b)
  case (Suc n)
  obtain b1 where b1: "SubtractBignum other b = Inr b1" "bn_inv b1" "bn_value b1 = bn_value b - bn_value other"
      "bn_exponent b1 \<le> bn_exponent b"
    using SubtractBignum_aligned[OF Suc.prems(1) assms(1) Suc.prems(2)] Suc.prems(3) by auto
  have "n * bn_value other \<le> bn_value b1" using Suc.prems(3) b1(3) by simp
  then show ?case using Suc.IH[OF b1(2)] b1 Suc.prems(2) by auto
qed simp

lemma chunk_sub_digit:
  assumes "x < radix" "y \<le> radix" "diff = chunk_sub x y"
  shows "top_bit diff \<le> 1" "diff mod radix + y = x + top_bit diff * radix"
proof -
  have "diff = (if y \<le> x then x - y else 16 * radix + x - y)"
    using assms chunk_sub_less[of y x] chunk_sub_wrap[of y x] by (simp add: radix_val)
  from sub_digit[OF assms(1,2) this] show "top_bit diff \<le> 1" "diff mod radix + y = x + top_bit diff * radix" by auto
qed

text \<open>The borrow stays at most one above the factor, so that neither 64-bit value wraps around.\<close>

lemma times_digit:
  assumes "factor < radix" "x < radix" "y < radix" "borrow \<le> factor + 1"
  defines "remove \<equiv> borrow + factor * y"
  defines "diff \<equiv> chunk_sub x (remove mod radix)"
  shows "dchunk (borrow + dchunk (factor * y)) = remove" "top_bit diff + remove div radix \<le> factor + 1"
    "diff mod radix + remove = x + (top_bit diff + remove div radix) * radix"
proof -
  have "factor * y \<le> factor * (radix - 1)" using assms(3) by (intro mult_le_mono) auto
  moreover have "factor * 1 \<le> factor * radix" by (intro mult_le_mono) (auto simp: Suc_leI)
  ultimately have rm: "remove \<le> factor * radix + 1" using assms(4) unfolding remove_def diff_mult_distrib2 by linarith
  have "factor * radix < radix * radix" using assms(1) by simp
  then have "remove < 256 * radix * radix" "factor * y < 256 * radix * radix" using rm by (auto simp: remove_def radix_val)
  then show "dchunk (borrow + dchunk (factor * y)) = remove" by (simp add: dchunk_id remove_def)
  have "remove < (factor + 1) * radix" using rm by (simp add: distrib_right radix_val)
  then have "remove div radix \<le> factor" using less_mult_imp_div_less[of remove "factor + 1" radix] by simp
  moreover have d: "top_bit diff \<le> 1" "diff mod radix + remove mod radix = x + top_bit diff * radix"
    using chunk_sub_digit[OF assms(2), of "remove mod radix" diff] by (simp_all add: diff_def)
  ultimately show "top_bit diff + remove div radix \<le> factor + 1" by simp
  show "diff mod radix + remove = x + (top_bit diff + remove div radix) * radix"
    using d(2) bigit_split[of remove] unfolding distrib_right by (simp only: mult.commute[of radix])
qed

lemma subtract_times_loop_spec:
  assumes "factor < radix" "bigits_ok d" "bigits_ok other" "i + n \<le> length other" "i + n + off \<le> length d" "borrow \<le> factor + 1"
  shows "\<exists>d' c. subtract_times_loop factor other i n d off borrow = Inr (d', c) \<and> length d' = length d \<and> bigits_ok d'
    \<and> c \<le> factor + 1 \<and> (\<forall>j. i + n + off \<le> j \<longrightarrow> d' ! j = d ! j)
    \<and> bval d' + (factor * bval (take n (drop i other)) + borrow) * radix ^ (i + off) = bval d + c * radix ^ (i + n + off)"
  using assms(2-6)
proof (induction n arbitrary: i d borrow)
  case 0
  then show ?case by simp
next
  case (Suc n)
  let ?x = "d ! (i + off)" and ?y = "other ! i"
  define remove where "remove = borrow + factor * ?y"
  define diff where "diff = chunk_sub ?x (remove mod radix)"
  define c1 where "c1 = top_bit diff + remove div radix"
  have b: "?x < radix" "?y < radix" using Suc.prems by (auto intro: bigits_ok_nth)
  note dg = times_digit[OF assms(1) b Suc.prems(5), folded remove_def, folded diff_def, folded c1_def]
  have c1: "chunk c1 = c1" using dg(2) assms(1) by (intro chunk_id) simp
  let ?d = "d[i + off := diff mod radix]"
  obtain d' c where d': "subtract_times_loop factor other (i + 1) n ?d off c1 = Inr (d', c)" "length d' = length d" "bigits_ok d'"
      "c \<le> factor + 1" "\<forall>j. i + 1 + n + off \<le> j \<longrightarrow> d' ! j = ?d ! j"
      "bval d' + (factor * bval (take n (drop (i + 1) other)) + c1) * radix ^ (i + 1 + off) = bval ?d + c * radix ^ (i + 1 + n + off)"
    using Suc.IH[of ?d "i + 1" c1] Suc.prems dg(2) by (auto simp: bigits_ok_update)
  have "bval ?d + remove * radix ^ (i + off) = bval d + c1 * radix ^ Suc (i + off)"
    using Suc.prems dg(3) by (intro bval_borrow) auto
  moreover have "bval (take (Suc n) (drop i other)) = ?y + radix * bval (take n (drop (i + 1) other))"
    using bval_take_Suc[of i other n] Suc.prems by simp
  ultimately have "bval d' + (factor * bval (take (Suc n) (drop i other)) + borrow) * radix ^ (i + off) = bval d + c * radix ^ (i + Suc n + off)"
    using d'(6) by (simp add: algebra_simps remove_def)
  moreover have "\<forall>j. i + Suc n + off \<le> j \<longrightarrow> d' ! j = d ! j" using d'(5) by auto
  moreover have "subtract_times_loop factor other i (Suc n) d off borrow = Inr (d', c)"
    using d'(1) Suc.prems(3,4) dg(1) c1 by (simp add: radix_ops drop_top_bit Let_def flip: diff_def c1_def)
  ultimately show ?case using d'(2-4) by blast
qed

lemma times_borrow_loop_spec:
  assumes "bigits_ok d" "i + n \<le> length d" "borrow \<le> radix" "borrow * radix ^ i \<le> bval d" "bval d < radix ^ (i + n)"
  shows "\<exists>d' returned. times_borrow_loop i n d borrow = Inr (d', returned) \<and> length d' = length d \<and> bigits_ok d'
    \<and> bval d' + borrow * radix ^ i = bval d \<and> (returned \<longrightarrow> 0 < n \<and> d' ! (i + n - 1) = d ! (i + n - 1))"
  using assms
proof (induction n arbitrary: i d borrow)
  case 0
  then have "borrow * radix ^ i < radix ^ i" by (simp add: le_less_trans)
  then have "borrow = 0" by (cases borrow) auto
  then show ?case using 0 by (auto intro!: exI[of _ False])
next
  case (Suc n)
  show ?case
  proof (cases "borrow = 0")
    case True
    then show ?thesis using Suc.prems by (auto intro!: exI[of _ True])
  next
    case False
    define diff where "diff = chunk_sub (d ! i) borrow"
    have x: "d ! i < radix" using Suc.prems by (auto intro: bigits_ok_nth)
    note dg = chunk_sub_digit[OF x Suc.prems(3) diff_def]
    let ?d = "d[i := diff mod radix]"
    have v: "bval ?d + borrow * radix ^ i = bval d + top_bit diff * radix ^ Suc i"
      using Suc.prems dg(2) by (intro bval_borrow) auto
    have z: "bval ?d < radix ^ (i + 1 + n)"
      using Suc.prems bval_below_iff[of d "i + Suc n"] bval_below_iff[of ?d "i + 1 + n"] by (auto simp: bigits_ok_update)
    have "top_bit diff * radix ^ (i + 1) \<le> bval ?d" using v Suc.prems(4) by simp
    moreover have "top_bit diff \<le> radix" using dg(1) by (simp add: radix_val)
    ultimately obtain d' ret where d': "times_borrow_loop (i + 1) n ?d (top_bit diff) = Inr (d', ret)" "length d' = length d"
        "bigits_ok d'" "bval d' + top_bit diff * radix ^ (i + 1) = bval ?d" "ret \<longrightarrow> 0 < n \<and> d' ! (i + 1 + n - 1) = ?d ! (i + 1 + n - 1)"
      using Suc.IH[of ?d "i + 1" "top_bit diff"] Suc.prems z by (auto simp: bigits_ok_update)
    have "bval d' + borrow * radix ^ i = bval d" using d'(4) v by simp
    moreover have "ret \<longrightarrow> d' ! (i + Suc n - 1) = d ! (i + Suc n - 1)" using d'(5) by auto
    moreover have "times_borrow_loop i (Suc n) d borrow = Inr (d', ret)"
      using False d'(1) Suc.prems(2) by (simp add: radix_ops drop_top_bit Let_def flip: diff_def)
    ultimately show ?thesis using d'(2,3) by auto
  qed
qed

lemma SubtractTimes_spec:
  assumes b: "bn_inv b" and other: "bn_inv other" and ex: "bn_exponent b \<le> bn_exponent other"
    and le: "factor * bn_value other \<le> bn_value b" and f: "factor < radix - 1"
  shows "\<exists>b'. SubtractTimes other factor b = Inr b' \<and> bn_inv b' \<and> bn_value b' = bn_value b - factor * bn_value other
    \<and> bn_exponent b' \<le> bn_exponent b"
proof (cases "factor < 3")
  case True
  then show ?thesis using subtract_repeat_spec[OF other b ex le] ex by (simp add: SubtractTimes_def ASSERT_def)
next
  case False
  let ?m = "bn_used_digits other" and ?u = "bn_used_digits b" and ?d = "bn_bigits b" and ?e = "bn_bigits other"
  define off where "off = bn_exponent other - bn_exponent b"
  have inv: "length ?d = kBigitCapacity" "bigits_ok ?d" "bval ?d < radix ^ ?u" "bigits_ok ?e" "bval ?e < radix ^ ?m" "?m \<le> length ?e"
    using b other used_le_capacity[OF other] by (auto simp: bn_inv_def)
  have u: "?u \<le> kBigitCapacity" by (rule used_le_capacity[OF b])
  have f': "factor < radix" "factor + 1 \<le> radix" using f by linarith+
  have "1 * bn_value other \<le> factor * bn_value other" using False by (intro mult_le_mono1) simp
  then have le1: "bn_value other \<le> bn_value b" using le by linarith
  have len: "?m + off \<le> ?u" using aligned_length[OF b other ex le1] by (simp add: off_def)
  have vo: "bn_value other = bval ?e * radix ^ off * radix ^ bn_exponent b" using aligned_le(2)[OF ex le1] by (simp add: off_def)
  have "factor * (bval ?e * radix ^ off) * radix ^ bn_exponent b \<le> bval ?d * radix ^ bn_exponent b"
    using le unfolding vo bn_value_def[of b] by (simp add: mult.assoc)
  then have le2: "factor * (bval ?e * radix ^ off) \<le> bval ?d" by simp
  obtain d1 c where d1: "subtract_times_loop factor ?e 0 ?m ?d off 0 = Inr (d1, c)" "length d1 = kBigitCapacity" "bigits_ok d1"
      "c \<le> factor + 1" "\<forall>j. ?m + off \<le> j \<longrightarrow> d1 ! j = ?d ! j"
      "bval d1 + factor * (bval ?e * radix ^ off) = bval ?d + c * radix ^ (?m + off)"
    using subtract_times_loop_spec[of factor ?d ?e 0 ?m off 0] f'(1) inv len u bval_take[OF inv(4,5)] by (auto simp: mult.assoc)
  have d1z: "bval d1 < radix ^ ?u"
    using d1(1-3,5) inv(1-3) len bval_below_iff[OF inv(2), of ?u] bval_below_iff[OF d1(3), of ?u] by auto
  have "c * radix ^ (?m + off) \<le> bval d1" using d1(6) le2 by linarith
  then obtain d2 ret where d2: "times_borrow_loop (?m + off) (?u - (?m + off)) d1 c = Inr (d2, ret)" "length d2 = kBigitCapacity"
      "bigits_ok d2" "bval d2 + c * radix ^ (?m + off) = bval d1" "ret \<longrightarrow> ?m + off < ?u \<and> d2 ! (?u - 1) = d1 ! (?u - 1)"
    using times_borrow_loop_spec[of d1 "?m + off" "?u - (?m + off)" c] d1(2-4) d1z len u f'(2) by auto
  have v2: "bval d2 = bval ?d - factor * (bval ?e * radix ^ off)" using d1(6) d2(4) by linarith
  then have lt: "bval d2 < radix ^ ?u" using inv(3) by simp
  let ?b = "b\<lparr>bn_bigits := d2\<rparr>"
  have val: "bn_value ?b = bn_value b - factor * bn_value other"
    unfolding vo by (simp add: bn_value_def v2 diff_mult_distrib mult.assoc)
  obtain b1 where b1: "Clamp ?b = Inr b1" "bn_inv b1" "bn_value b1 = bn_value ?b"
    using Clamp_spec[of ?b] d2(2,3) lt u by auto
  have run: "SubtractTimes other factor b = (if ret then Inr ?b else Inr b1)"
    using False ex d1(1) d2(1) b1(1) by (simp add: SubtractTimes_def ASSERT_def Let_def flip: off_def)
  show ?thesis
  proof (cases ret)
    case False
    then show ?thesis using run b1 val Clamp_exponent[OF b1(1)] by simp
  next
    case True
    then have top: "d2 ! (?u - 1) = ?d ! (?u - 1)" "?u \<noteq> 0" using d2(5) d1(5) by auto
    have "1 * radix ^ (?u - 1) \<le> d2 ! (?u - 1) * radix ^ (?u - 1)"
      using top top_bigit[OF b] by (intro mult_le_mono1) simp
    also have "\<dots> \<le> bval d2" using top(2) u d2(2) by (intro bval_nth_le) simp
    finally have "bn_inv ?b" using d2(2,3) lt top(2) by (simp add: bn_inv_def)
    then show ?thesis using run True val by simp
  qed
qed

section \<open>Quotient and remainder\<close>

lemma TopBigit_spec:
  assumes "bn_inv b" "bn_used_digits b \<noteq> 0"
  shows "TopBigit b = Inr (bn_value b div radix ^ (BigitLength b - 1))"
    and "0 < bn_value b div radix ^ (BigitLength b - 1)" "bn_value b div radix ^ (BigitLength b - 1) < radix"
proof -
  let ?L = "BigitLength b"
  have L: "?L \<noteq> 0" "\<not> ?L - 1 \<ge> ?L" "?L - 1 \<ge> bn_exponent b" "?L - 1 - bn_exponent b = bn_used_digits b - 1" using assms(2) by (auto simp: BigitLength_def)
  have "radix ^ ?L = radix * radix ^ (?L - 1)" using L(1) by (simp flip: power_Suc)
  then show lt: "bn_value b div radix ^ (?L - 1) < radix"
    using bn_value_bounds(1)[OF assms(1)] by (simp add: div_less_iff_less_mult)
  show "0 < bn_value b div radix ^ (?L - 1)"
    using bn_value_bounds(2)[OF assms] by (simp add: div_greater_zero_iff)
  have "TopBigit b = BigitAt b (?L - 1)" using L assms(2) by (simp add: TopBigit_def BigitAt_def)
  then show "TopBigit b = Inr (bn_value b div radix ^ (?L - 1))"
    using BigitAt_spec[OF assms(1)] lt by (simp add: bigit_def)
qed

lemma top_bounds: "(v div r) * r \<le> v" "0 < r \<Longrightarrow> v < (v div r + 1) * r" for v r :: nat
  using dividend_less_div_times[of r v] by (simp_all add: div_times_less_eq_dividend)

text \<open>The quotient found so far and the number that is left.\<close>

definition div_inv :: "bignum \<Rightarrow> nat \<Rightarrow> nat \<times> bignum \<Rightarrow> bool" where
  "div_inv other v = (\<lambda>(result, b). bn_inv b \<and> bn_exponent b \<le> bn_exponent other \<and> result * bn_value other + bn_value b = v)"

lemma uint16_add: "x + y < 2 ^ 16 \<Longrightarrow> uint16 (x + uint16 y) = x + y"
  by (simp add: uint16_def)

lemma div_inv_quotient:
  assumes "div_inv other v (result, b)" "k * bn_value other \<le> bn_value b" "0 < bn_value other"
  shows "result + k \<le> v div bn_value other"
proof -
  have "(result + k) * bn_value other \<le> v" using assms(1,2) by (auto simp: div_inv_def distrib_right)
  then show ?thesis using assms(3) by (simp add: less_eq_div_iff_mult_less_eq)
qed

lemma div_inv_done:
  assumes "div_inv other v (result, b)" "bn_value b < bn_value other"
  shows "result = v div bn_value other \<and> bn_inv b \<and> bn_value b = v mod bn_value other"
  using assms by (auto simp: div_inv_def)

text \<open>Taking away \<open>k\<close> multiples of the divisor.\<close>

lemma div_inv_times:
  assumes "div_inv other v (result, b)" "bn_inv other" "k * bn_value other \<le> bn_value b" "0 < bn_value other" "v div bn_value other < 2 ^ 16"
  shows "\<exists>b'. SubtractTimes other k b = Inr b' \<and> div_inv other v (uint16 (result + uint16 k), b')
    \<and> uint16 (result + uint16 k) = result + k \<and> bn_value b' = bn_value b - k * bn_value other"
proof -
  have q: "result + k < 2 ^ 16" using div_inv_quotient[OF assms(1,3,4)] assms(5) by linarith
  then have "k < radix - 1" by (simp add: radix_val)
  then show ?thesis
    using SubtractTimes_spec[OF _ assms(2) _ assms(3)] assms(1,3) uint16_add[OF q]
    by (fastforce simp: div_inv_def distrib_right)
qed

lemma used_of_value: "bn_inv b \<Longrightarrow> 0 < bn_value b \<Longrightarrow> bn_used_digits b \<noteq> 0"
  by (auto simp: value_zero_iff[symmetric])

text \<open>What is left is not far below the power of the radix above the divisor.\<close>

lemma subtract_top: "y \<le> R \<Longrightarrow> 0 < t \<Longrightarrow> R + t * y \<le> t * R + y" for y R t :: nat
proof -
  assume h: "y \<le> R" "0 < t"
  then obtain k where "t = Suc k" by (cases t) auto
  then show ?thesis using mult_le_mono2[OF h(1), of k] by simp
qed

lemma divide_longer_step_spec:
  assumes "div_inv other v (result, b)" and other: "bn_inv other" "0 < bn_value other" and q: "v div bn_value other < 2 ^ 16"
    and top: "radix div 16 \<le> bn_value other div radix ^ (BigitLength other - 1)"
    and longer: "BigitLength other < BigitLength b"
  shows "\<exists>s'. divide_longer_step other (result, b) = Inr s' \<and> div_inv other v s'
    \<and> v div bn_value other - fst s' < v div bn_value other - result \<and> radix ^ BigitLength other \<le> bn_value (snd s') + bn_value other"
proof -
  have b: "bn_inv b" using assms(1) by (simp add: div_inv_def)
  have u: "bn_used_digits other \<noteq> 0" "bn_used_digits b \<noteq> 0"
    using used_of_value[OF other] longer b by (auto simp: bn_inv_def BigitLength_def)
  define t where "t = bn_value b div radix ^ (BigitLength b - 1)"
  note tb = TopBigit_spec[OF b u(2), folded t_def]
  have "BigitLength other \<le> BigitLength b - 1" using longer by simp
  then have R: "radix ^ BigitLength other \<le> radix ^ (BigitLength b - 1)" by (rule power_le_radix)
  then have small: "bn_value other \<le> radix ^ (BigitLength b - 1)" using bn_value_bounds(1)[OF other(1)] by linarith
  have "t * bn_value other \<le> t * radix ^ (BigitLength b - 1)" using small by (rule mult_le_mono2)
  also have "\<dots> \<le> bn_value b" unfolding t_def by (rule top_bounds(1))
  finally have le: "t * bn_value other \<le> bn_value b" .
  obtain b' where b': "SubtractTimes other t b = Inr b'" "div_inv other v (uint16 (result + uint16 t), b')"
      "uint16 (result + uint16 t) = result + t" "bn_value b' = bn_value b - t * bn_value other"
    using div_inv_times[OF assms(1) other(1) le other(2) q] by blast
  have left: "radix ^ BigitLength other \<le> bn_value b' + bn_value other"
    using subtract_top[OF small tb(2)] top_bounds(1)[of "bn_value b" "radix ^ (BigitLength b - 1)", folded t_def] R unfolding b'(4) by linarith
  have Q: "result + t \<le> v div bn_value other" by (rule div_inv_quotient[OF assms(1) le other(2)])
  have "divide_longer_step other (result, b) = Inr (uint16 (result + uint16 t), b')"
    using TopBigit_spec(1)[OF other(1) u(1)] tb(1) b'(1) top Q q
    by (simp add: divide_longer_step_def ASSERT_def flip: radix_def)
  then show ?thesis using b' Q tb(2) left by (intro exI[of _ "(uint16 (result + uint16 t), b')"]) auto
qed

lemma divide_longer_spec:
  assumes "div_inv other v (0, b)" and other: "bn_inv other" "0 < bn_value other" and q: "v div bn_value other < 2 ^ 16"
    and top: "BigitLength other < BigitLength b \<Longrightarrow> radix div 16 \<le> bn_value other div radix ^ (BigitLength other - 1)"
    and n: "2 ^ 16 \<le> n"
  shows "\<exists>s. res_while n (\<lambda>(result, b). Inr (BigitLength b > BigitLength other)) (divide_longer_step other) (0, b) = Some (Inr s)
    \<and> div_inv other v s \<and> \<not> BigitLength (snd s) > BigitLength other
    \<and> (BigitLength other < BigitLength b \<longrightarrow> radix ^ BigitLength other \<le> bn_value (snd s) + bn_value other)"
proof (cases "BigitLength other < BigitLength b")
  case False
  obtain n' where "n = Suc n'" using n by (cases n) auto
  then show ?thesis using False assms(1) by simp
next
  case True
  have "\<exists>s. res_while n (\<lambda>(result, b). Inr (BigitLength b > BigitLength other)) (divide_longer_step other) (0, b) = Some (Inr s)
    \<and> (div_inv other v s \<and> (s = (0, b) \<or> radix ^ BigitLength other \<le> bn_value (snd s) + bn_value other))
    \<and> \<not> (case s of (result, b) \<Rightarrow> BigitLength b > BigitLength other)"
    using divide_longer_step_spec[OF _ other q top[OF True]] assms(1) q n
    by (intro res_while_rule[where m = "\<lambda>s. v div bn_value other - fst s"]) fastforce+
  then show ?thesis using True by (auto simp: case_prod_beta)
qed

section \<open>Numbers of the same length\<close>

lemma short_divisor:
  fixes t y l p :: nat
  assumes "l < p"
  shows "(t * p + l) div (y * p) = t div y" "(t * p + l) mod (y * p) = (t mod y) * p + l"
  using assms div_mult2_eq[of "t * p + l" p y] mod_mult2_eq[of "t * p + l" p y] by (simp_all add: mult.commute)

lemma subtract_loop_spec:
  assumes "div_inv other v (result, b)" and other: "bn_inv other" "0 < bn_value other" and q: "v div bn_value other < 2 ^ 16" and n: "2 ^ 16 \<le> n"
  shows "\<exists>b'. res_while n (\<lambda>(result, b). bn_LessEqual other b)
      (\<lambda>(result, b). bindE (SubtractBignum other b) (\<lambda>b'. Inr (uint16 (result + 1), b'))) (result, b)
      = Some (Inr (v div bn_value other, b')) \<and> bn_inv b' \<and> bn_value b' = v mod bn_value other"
proof -
  let ?body = "\<lambda>(result, b). bindE (SubtractBignum other b) (\<lambda>b'. Inr (uint16 (result + 1), b'))"
  have step: "\<exists>s'. ?body s = Inr s' \<and> div_inv other v s' \<and> v div bn_value other - fst s' < v div bn_value other - fst s"
    if "div_inv other v s" "bn_value other \<le> bn_value (snd s)" for s
  proof -
    obtain r c where s: "s = (r, c)" by (cases s)
    have Q: "r + 1 \<le> v div bn_value other" using that s other(2) div_inv_quotient[of other v r c 1] by simp
    have "subtract_repeat 1 other c = SubtractBignum other c" by (cases "SubtractBignum other c") simp_all
    then have "SubtractTimes other 1 c = SubtractBignum other c" using that s by (simp add: SubtractTimes_def ASSERT_def div_inv_def)
    moreover have "uint16 1 = 1" by (simp add: uint16_def)
    ultimately show ?thesis using div_inv_times[of other v r c 1] that s other q Q by fastforce
  qed
  have "\<exists>s'. res_while n (\<lambda>(result, b). bn_LessEqual other b) ?body (result, b) = Some (Inr s') \<and> div_inv other v s'
      \<and> \<not> bn_value other \<le> bn_value (snd s')"
  proof (rule res_while_rule[where m = "\<lambda>s. v div bn_value other - fst s"])
    show "(case s of (result, b) \<Rightarrow> bn_LessEqual other b) = Inr (bn_value other \<le> bn_value (snd s))" if "div_inv other v s" for s
      using that Compare_spec[OF other(1)] by (auto simp: div_inv_def bn_LessEqual_def cmp_def)
  qed (use step assms(1) q n in auto)
  then show ?thesis using div_inv_done by fastforce
qed

text \<open>The shortcut for a divisor with one bigit.\<close>

lemma divide_short_spec:
  assumes "div_inv other v (result, b)" and other: "bn_inv other" "bn_used_digits other = 1"
    and q: "v div bn_value other < 2 ^ 16" and len: "BigitLength b = BigitLength other"
  shows "\<exists>b'. divide_equal_lengths n other (result, b) = Some (Inr (v div bn_value other, b')) \<and> bn_inv b'
    \<and> bn_value b' = v mod bn_value other"
proof -
  let ?u = "bn_used_digits b - 1" and ?d = "bn_bigits b" and ?y = "bval (bn_bigits other)"
  define e p where "e = bn_exponent b" and "p = radix ^ ?u"
  have b: "bn_inv b" "bn_exponent b \<le> bn_exponent other" "v = result * bn_value other + bn_value b"
    using assms(1) by (auto simp: div_inv_def)
  have u: "bn_used_digits b \<noteq> 0" "bn_exponent other = ?u + e" "BigitLength b - 1 = ?u + e" "BigitLength other - 1 = ?u + e"
    using len other(2) b(1,2) by (auto simp: BigitLength_def e_def bn_inv_def)
  have inv: "length ?d = kBigitCapacity" "bigits_ok ?d" "bval ?d < radix ^ bn_used_digits b" using b(1) by (auto simp: bn_inv_def)
  have ul: "?u < length ?d" "bn_used_digits b \<le> kBigitCapacity" using used_le_capacity[OF b(1)] u(1) inv(1) by simp_all
  have P: "radix ^ (?u + e) = p * radix ^ e" "0 < p" by (simp_all add: p_def power_add)
  have vo: "bn_value other = ?y * p * radix ^ e" using u(2) P(1) by (simp add: bn_value_def)
  define t l where "t = bval ?d div p" and "l = bval ?d mod p"
  have vb: "bn_value b = (t * p + l) * radix ^ e" "l < p" using P(2) by (simp_all add: bn_value_def t_def l_def e_def)
  have tb: "TopBigit b = Inr t" "t < radix"
    using TopBigit_spec(1,3)[OF b(1) u(1)] unfolding u(3) P(1) by (simp_all add: bn_value_def t_def e_def)
  have ty: "TopBigit other = Inr ?y" "0 < ?y"
    using TopBigit_spec(1,2)[OF other(1)] other(2) unfolding u(4) P(1) vo by (simp_all add: mult.assoc P(2))
  have q1: "bn_value b div bn_value other = t div ?y" "bn_value b mod bn_value other = ((t mod ?y) * p + l) * radix ^ e"
    unfolding vb(1) vo using short_divisor[OF vb(2), of t ?y] by (simp_all add: mult_mod_left)
  have "0 < bn_value other" using vo ty(2) P(2) by simp
  then have Q: "v div bn_value other = result + t div ?y" "v mod bn_value other = ((t mod ?y) * p + l) * radix ^ e"
    unfolding b(3) using q1 by simp_all
  have "?d ! ?u = t" using tb(1) u(1) ul(1) by (simp add: TopBigit_def)
  then have d': "bval (?d[?u := t mod ?y]) = (t mod ?y) * p + l"
    using bval_update[OF ul(1), of "t mod ?y"] div_mult_mod_eq[of "bval ?d" p] by (simp add: p_def t_def l_def)
  have "?y * (t div ?y) \<le> t" by simp
  then have lt: "?y * (t div ?y) < 16 * radix" using tb(2) by linarith
  then have "chunk (?y * (t div ?y)) = ?y * (t div ?y)" "chunk_sub t (?y * (t div ?y)) = t mod ?y"
    using tb(2) chunk_sub_less[of "?y * (t div ?y)" t] by (simp_all only: chunk_id minus_mult_div_eq_mod) simp
  then have w: "vec_wr ?d ?u (chunk_sub t (chunk (?y * (t div ?y)))) = Inr (?d[?u := t mod ?y])" using ul(1) by simp
  let ?b = "b\<lparr>bn_bigits := ?d[?u := t mod ?y]\<rparr>"
  have "bigits_ok (?d[?u := t mod ?y])" using inv(2) tb(2) by (intro bigits_ok_update) (auto intro: le_less_trans[OF mod_less_eq_dividend])
  moreover have "(t mod ?y) * p + l \<le> bval ?d"
    using div_mult_mod_eq[of "bval ?d" p] mult_le_mono1[OF mod_less_eq_dividend[of t ?y], of p] unfolding t_def l_def by linarith
  then have "bval (?d[?u := t mod ?y]) < radix ^ bn_used_digits b" using d' inv(3) by simp
  ultimately obtain b' where b': "Clamp ?b = Inr b'" "bn_inv b'" "bn_value b' = bn_value ?b"
    using Clamp_spec[of ?b] inv(1) ul(2) by auto
  have "uint16 (result + uint16 (t div ?y)) = result + t div ?y" using q Q(1) by (intro uint16_add) simp
  then have "divide_equal_lengths n other (result, b) = Some (Inr (v div bn_value other, b'))"
    using len tb(1) ty(1) other(2) w b'(1) q Q(1) by (simp add: divide_equal_lengths_def ASSERT_def Let_def)
  then show ?thesis using b'(2,3) d' Q(2) by (simp add: bn_value_def e_def)
qed

lemma divide_long_spec:
  assumes inv: "div_inv other v (result, b)" and other: "bn_inv other" "0 < bn_value other" "bn_used_digits other \<noteq> 1"
    and q: "v div bn_value other < 2 ^ 16" and len: "BigitLength b = BigitLength other" and n: "2 ^ 16 \<le> n"
  shows "\<exists>b'. divide_equal_lengths n other (result, b) = Some (Inr (v div bn_value other, b')) \<and> bn_inv b'
    \<and> bn_value b' = v mod bn_value other"
proof -
  define p where "p = radix ^ (BigitLength other - 1)"
  define t y where "t = bn_value b div p" and "y = bn_value other div p"
  define k where "k = t div (y + 1)"
  have b: "bn_inv b" using inv by (simp add: div_inv_def)
  have u: "bn_used_digits other \<noteq> 0" "bn_used_digits b \<noteq> 0"
    using used_of_value[OF other(1,2)] len b by (auto simp: bn_inv_def BigitLength_def)
  have tb: "TopBigit b = Inr t" "t < radix" and ty: "TopBigit other = Inr y" "y < radix"
    using TopBigit_spec[OF b u(2)] TopBigit_spec[OF other(1) u(1)] len by (auto simp: t_def y_def p_def)
  have p: "0 < p" by (simp add: p_def)
  have "k * bn_value other \<le> k * ((y + 1) * p)" using top_bounds(2)[OF p, of "bn_value other"] by (intro mult_le_mono2) (simp add: y_def)
  also have "\<dots> = k * (y + 1) * p" by (simp only: mult.assoc)
  also have "\<dots> \<le> t * p" unfolding k_def by (intro mult_le_mono1 div_times_less_eq_dividend)
  also have "\<dots> \<le> bn_value b" unfolding t_def by (rule top_bounds(1))
  finally have le: "k * bn_value other \<le> bn_value b" .
  obtain b1 where b1: "SubtractTimes other k b = Inr b1" "div_inv other v (uint16 (result + uint16 k), b1)"
      "bn_value b1 = bn_value b - k * bn_value other" "uint16 (result + uint16 k) = result + k"
    using div_inv_times[OF inv other(1) le other(2) q] by blast
  have kq: "k < 65536" using div_inv_quotient[OF inv le other(2)] q by simp
  have "y * k \<le> t" using div_times_less_eq_dividend[of t "y + 1"] unfolding k_def[symmetric] by (simp add: mult.commute)
  then have ch: "chunk (y * (k + 1)) = y * (k + 1)" "chunk (y + 1) = y + 1" using tb(2) ty(2) by (auto intro!: chunk_id)
  have run: "divide_equal_lengths n other (result, b) =
      (if y * (k + 1) > t then Some (Inr (uint16 (result + uint16 k), b1))
       else res_while n (\<lambda>(result, b). bn_LessEqual other b)
              (\<lambda>(result, b). bindE (SubtractBignum other b) (\<lambda>b'. Inr (uint16 (result + 1), b'))) (uint16 (result + uint16 k), b1))"
    using len tb(1) ty(1) other(3) b1(1) kq ch unfolding k_def by (simp add: divide_equal_lengths_def ASSERT_def Let_def del: mult_Suc_right)
  show ?thesis
  proof (cases "y * (k + 1) > t")
    case False
    then show ?thesis using run subtract_loop_spec[OF b1(2) other(1,2) q n] by simp
  next
    case True
    have "bn_value b < (t + 1) * p" unfolding t_def by (rule top_bounds(2)[OF p])
    also have "\<dots> \<le> y * (k + 1) * p" using True by (intro mult_le_mono1) simp
    also have "\<dots> = (k + 1) * (y * p)" by (simp only: ac_simps)
    also have "\<dots> \<le> (k + 1) * bn_value other" unfolding y_def by (intro mult_le_mono2 top_bounds(1))
    finally have "bn_value b1 < bn_value other" using b1(3) le unfolding distrib_right by linarith
    then show ?thesis using run True div_inv_done[OF b1(2)] by auto
  qed
qed

section \<open>The whole function\<close>

text \<open>
  The assertion \<^verbatim>\<open>BigitLength() == other.BigitLength()\<close> behind the first loop fails when the loop leaves a number
  that is shorter than the divisor.
\<close>

lemma same_length_remainder:
  assumes "div_inv other v (r, c)" "bn_inv other" "0 < bn_value other" and len: "BigitLength c = BigitLength other"
    and R: "radix ^ BigitLength other \<le> v mod bn_value other + bn_value other"
  shows "radix ^ (BigitLength other - 1) \<le> v mod bn_value other"
proof -
  have c: "bn_inv c" "r * bn_value other + bn_value c = v" using assms(1) by (auto simp: div_inv_def)
  have u: "bn_used_digits c \<noteq> 0" using used_of_value[OF assms(2,3)] len c(1) by (auto simp: bn_inv_def BigitLength_def)
  have m: "v mod bn_value other = bn_value c mod bn_value other" using c(2) by auto
  have "bn_value c < v mod bn_value other + bn_value other" using bn_value_bounds(1)[OF c(1)] R len by simp
  then have "bn_value c div bn_value other * bn_value other < bn_value other"
    using div_mult_mod_eq[of "bn_value c" "bn_value other"] unfolding m by linarith
  then have "bn_value c div bn_value other = 0" by simp
  then have "bn_value c = v mod bn_value other" using div_mult_mod_eq[of "bn_value c" "bn_value other"] m by simp
  then show ?thesis using bn_value_bounds(2)[OF c(1) u] len by simp
qed

text \<open>The two assertions in front of the first subtraction.\<close>

lemma divide_align_aborts:
  assumes "bn_inv b" "bn_inv other" "0 < bn_value other" "BigitLength other \<le> BigitLength b" "\<not> align_fits b other"
  shows "DivideModuloIntBignum n other b = Some (Inl Terminate)"
proof -
  have "kBigitCapacity < bn_used_digits b + (bn_exponent b - bn_exponent other)" "bn_exponent other < bn_exponent b"
    using assms(5) used_le_capacity[OF assms(1)] unfolding align_fits_iff[OF assms(1)] by linarith+
  then have "Align b other = Inl Terminate" unfolding Align_def EnsureCapacity_def Let_def by simp
  then show ?thesis using assms(1,2,4) used_of_value[OF assms(2,3)] by (simp add: DivideModuloIntBignum_def IsClamped_inv ASSERT_def)
qed

lemma divide_top_aborts:
  assumes b: "bn_inv b" and other: "bn_inv other" "0 < bn_value other" and fits: "align_fits b other" and len: "BigitLength other < BigitLength b"
    and top: "bn_value other div radix ^ (BigitLength other - 1) < radix div 16" and n: "2 ^ 16 \<le> n"
  shows "DivideModuloIntBignum n other b = Some (Inl Terminate)"
proof -
  have u: "bn_used_digits other \<noteq> 0" by (rule used_of_value[OF other])
  obtain b1 where b1: "Align b other = Inr b1" "BigitLength b1 = BigitLength b"
    using Align_spec[OF b] fits unfolding align_fits_iff[OF b] by blast
  have "divide_longer_step other (0, b1) = Inl Terminate"
    using TopBigit_spec(1)[OF other(1) u] top by (simp add: divide_longer_step_def ASSERT_def flip: radix_def)
  moreover obtain n' where "n = Suc n'" using n by (cases n) auto
  ultimately show ?thesis using b other(1) u len b1 by (simp add: DivideModuloIntBignum_def IsClamped_inv ASSERT_def)
qed

lemma DivideModuloIntBignum_spec:
  assumes b: "bn_inv b" and other: "bn_inv other" "0 < bn_value other" and fits: "BigitLength other \<le> BigitLength b \<Longrightarrow> align_fits b other"
    and q: "bn_value b div bn_value other < 2 ^ 16"
    and top: "BigitLength other < BigitLength b \<Longrightarrow> radix div 16 \<le> bn_value other div radix ^ (BigitLength other - 1)"
    and n: "2 ^ 16 \<le> n"
  defines "good \<equiv> \<lambda>r. \<exists>b'. r = Some (Inr (bn_value b div bn_value other, b')) \<and> bn_inv b' \<and> bn_value b' = bn_value b mod bn_value other"
  shows "if BigitLength other < BigitLength b \<and> bn_value b mod bn_value other < radix ^ (BigitLength other - 1)
        \<and> radix ^ BigitLength other \<le> bn_value b mod bn_value other + bn_value other
      then DivideModuloIntBignum n other b = Some (Inl Terminate) else good (DivideModuloIntBignum n other b)"
proof -
  have u: "0 < bn_used_digits other" using used_of_value[OF other] by simp
  show ?thesis
  proof (cases "BigitLength b < BigitLength other")
    case True
    then show ?thesis using longer_greater[OF b other(1)] b u
      by (simp add: good_def DivideModuloIntBignum_def IsClamped_inv other(1) ASSERT_def)
  next
    case False
    obtain b1 where b1: "Align b other = Inr b1" "bn_inv b1" "bn_value b1 = bn_value b" "bn_exponent b1 \<le> bn_exponent other"
        "BigitLength b1 = BigitLength b"
      using Align_spec[OF b] fits False unfolding not_less align_fits_iff[OF b] by blast
    let ?v = "bn_value b"
    have "div_inv other ?v (0, b1)" using b1 by (simp add: div_inv_def)
    then obtain r c where s: "res_while n (\<lambda>(result, b). Inr (BigitLength b > BigitLength other)) (divide_longer_step other) (0, b1) = Some (Inr (r, c))"
        "div_inv other ?v (r, c)" "\<not> BigitLength c > BigitLength other"
        "BigitLength other < BigitLength b \<longrightarrow> radix ^ BigitLength other \<le> bn_value c + bn_value other"
      using divide_longer_spec[OF _ other q _ n, of b1] top b1(5) by fastforce
    have run: "DivideModuloIntBignum n other b = divide_equal_lengths n other (r, c)"
      using False b other(1) u b1(1) s(1) by (simp add: DivideModuloIntBignum_def IsClamped_inv ASSERT_def)
    show ?thesis
    proof (cases "BigitLength c = BigitLength other")
      case True
      have "good (DivideModuloIntBignum n other b)"
        unfolding run good_def using divide_short_spec[OF s(2) other(1) _ q True] divide_long_spec[OF s(2) other _ q True n] by blast
      moreover have "\<not> (BigitLength other < BigitLength b \<and> ?v mod bn_value other < radix ^ (BigitLength other - 1)
          \<and> radix ^ BigitLength other \<le> ?v mod bn_value other + bn_value other)"
        using same_length_remainder[OF s(2) other True] by auto
      ultimately show ?thesis by presburger
    next
      case short: False
      then have "DivideModuloIntBignum n other b = Some (Inl Terminate)" by (simp add: run divide_equal_lengths_def ASSERT_def)
      moreover have c: "bn_inv c" "BigitLength c < BigitLength other" using s(2,3) short by (auto simp: div_inv_def)
      then have "bn_value c < radix ^ (BigitLength other - 1)"
        using bn_value_bounds(1)[OF c(1)] power_le_radix[of "BigitLength c" "BigitLength other - 1"] by linarith
      then have md: "?v mod bn_value other < radix ^ (BigitLength other - 1)" "bn_value c = ?v mod bn_value other"
        using div_inv_done[OF s(2) longer_greater[OF c(1) other(1) c(2)]] by simp_all
      moreover obtain n' where "n = Suc n'" using n by (cases n) auto
      then have "BigitLength other < BigitLength b" using s(1) short b1(5) False by (auto split: if_splits)
      ultimately show ?thesis using md s(4) by simp
    qed
  qed
qed

text \<open>
  The assertion on the lengths cannot fail for a divisor whose leading bigit is not all ones, and a quotient below 10 needs no more
  of the divisor when it is shorter than the dividend.
\<close>

lemma divide_digit:
  assumes b: "bn_inv b" and other: "bn_inv other" "0 < bn_value other" and fits: "align_fits b other"
    and q: "bn_value b < 10 * bn_value other" and ones: "bn_value other \<le> (radix - 1) * radix ^ (BigitLength other - 1)"
    and n: "2 ^ 16 \<le> n"
  shows "\<exists>b'. DivideModuloIntBignum n other b = Some (Inr (bn_value b div bn_value other, b')) \<and> bn_inv b'
    \<and> bn_value b' = bn_value b mod bn_value other"
proof -
  let ?L = "BigitLength other"
  have "0 < ?L" using used_of_value[OF other] by (simp add: BigitLength_def)
  then have R: "radix ^ ?L = radix * radix ^ (?L - 1)" by (cases ?L) simp_all
  have "bn_value b div bn_value other < 10" using q by (simp add: less_mult_imp_div_less)
  then have q16: "bn_value b div bn_value other < 2 ^ 16" by simp
  have top: "radix div 16 \<le> bn_value other div radix ^ (?L - 1)" if "?L < BigitLength b"
  proof -
    have "bn_used_digits b \<noteq> 0" using that b by (auto simp: bn_inv_def BigitLength_def)
    then have "radix ^ (BigitLength b - 1) \<le> bn_value b" by (rule bn_value_bounds(2)[OF b])
    moreover have "radix ^ ?L \<le> radix ^ (BigitLength b - 1)" using that by (intro power_le_radix) simp
    ultimately have "radix * radix ^ (?L - 1) < 10 * bn_value other" using q R by simp
    moreover have "radix * radix ^ (?L - 1) = 16 * ((radix div 16) * radix ^ (?L - 1))" by (simp add: radix_val)
    ultimately have "(radix div 16) * radix ^ (?L - 1) \<le> bn_value other" by linarith
    then show ?thesis by (simp add: less_eq_div_iff_mult_less_eq)
  qed
  have "\<not> (bn_value b mod bn_value other < radix ^ (?L - 1) \<and> radix ^ ?L \<le> bn_value b mod bn_value other + bn_value other)"
  proof -
    have "(radix - 1) * radix ^ (?L - 1) + radix ^ (?L - 1) = radix * radix ^ (?L - 1)" by (simp add: radix_val)
    then show ?thesis using ones unfolding R by linarith
  qed
  then show ?thesis using DivideModuloIntBignum_spec[OF b other fits q16 top n] by (auto split: if_splits)
qed

end
