(* ===== verification/Bignum_Strings.thy ===== *)
theory Bignum_Strings
  imports Bignum_Mult Bignum_Division
begin

text \<open>
  Bignums as decimal and hexadecimal strings: \<^verbatim>\<open>AssignDecimalString\<close> and \<^verbatim>\<open>AssignHexString\<close> read the number that the
  digits denote, and \<^verbatim>\<open>ToHexString\<close> prints the digits of the value without leading zeros.
\<close>

unbundle bit_operations_syntax

section \<open>Positional notation\<close>

definition horner :: "nat \<Rightarrow> nat list \<Rightarrow> nat" where
  "horner base ds = foldl (\<lambda>a d. a * base + d) 0 ds"

lemma horner_snoc [simp]: "horner base (ds @ [d]) = horner base ds * base + d" "horner base [] = 0"
  by (simp_all add: horner_def)

lemma horner_append: "horner base (xs @ ys) = horner base xs * base ^ length ys + horner base ys"
  by (induction ys rule: rev_induct) (simp_all add: horner_def algebra_simps)

lemma horner_Cons: "horner base (x # ys) = x * base ^ length ys + horner base ys"
  using horner_append[of base "[x]" ys] by (simp add: horner_def)

lemma horner_less: "\<forall>d \<in> set ds. d < base \<Longrightarrow> horner base ds < base ^ length ds"
proof (induction ds rule: rev_induct)
  case (snoc d ds)
  then have "Suc (horner base ds) \<le> base ^ length ds" "d < base" by auto
  from mult_le_mono1[OF this(1), of base] this(2) show ?case by (simp add: mult.commute)
qed simp

definition is_dec :: "nat \<Rightarrow> bool" where
  "is_dec c \<longleftrightarrow> 48 \<le> c \<and> c \<le> 57"

definition dec_value :: "nat list \<Rightarrow> nat" where
  "dec_value cs = horner 10 (map (\<lambda>c. c - 48) cs)"

lemma dec_value_append: "dec_value (xs @ ys) = dec_value xs * 10 ^ length ys + dec_value ys"
  by (simp add: dec_value_def horner_append)

lemma dec_value_less: "\<forall>c \<in> set cs. is_dec c \<Longrightarrow> dec_value cs < 10 ^ length cs"
  using horner_less[of "map (\<lambda>c. c - 48) cs" 10] by (force simp: dec_value_def is_dec_def)

section \<open>Decimal strings\<close>

lemma read_loop_spec:
  assumes "\<forall>c \<in> set v. is_dec c" "i + n \<le> length v" "(r + 1) * 10 ^ n \<le> 10 ^ 19"
  shows "read_loop v i n r = Inr (r * 10 ^ n + dec_value (take n (drop i v)))"
  using assms(2,3)
proof (induction n arbitrary: i r)
  case 0
  then show ?case by (simp add: dec_value_def)
next
  case (Suc n)
  let ?c = "v ! i"
  have "is_dec ?c" using assms(1) Suc.prems(1) nth_mem[of i v] by simp
  then have c: "48 \<le> ?c" "?c - 48 \<le> 9" by (auto simp: is_dec_def)
  define x where "x = ?c - 48"
  let ?r = "r * 10 + x"
  have "?r + 1 \<le> (r + 1) * 10" using c(2) by (simp add: x_def)
  then have "(?r + 1) * 10 ^ n \<le> (r + 1) * 10 * 10 ^ n" by (rule mult_le_mono1)
  also have "\<dots> = (r + 1) * 10 ^ Suc n" by (simp only: power_Suc mult.assoc)
  finally have b: "(?r + 1) * 10 ^ n \<le> 10 ^ 19" using Suc.prems(2) by linarith
  have "(?r + 1) * 1 \<le> (?r + 1) * 10 ^ n" by (intro mult_le_mono2) simp
  then have "?r + 1 \<le> 10 ^ 19" using b unfolding mult_1_right by (rule le_trans)
  then have "?r < 2 ^ kDoubleChunkSize" by (simp add: kDoubleChunkSize_def)
  then have "dchunk (dchunk (r * 10) + x) = ?r" by (simp add: dchunk_def mod_less)
  moreover have "take (Suc n) (drop i v) = ?c # take n (drop (i + 1) v)"
    using Suc.prems(1) by (simp add: Cons_nth_drop_Suc[symmetric])
  moreover have "length (take n (drop (i + 1) v)) = n" using Suc.prems(1) by simp
  ultimately show ?case using Suc.IH[of "i + 1" ?r] Suc.prems(1) b c
    by (simp add: ASSERT_def dec_value_def horner_Cons algebra_simps flip: x_def)
qed

lemma ReadUInt64_spec:
  assumes "\<forall>c \<in> set v. is_dec c" "i + n \<le> length v" "n \<le> 19"
  shows "ReadUInt64 v i n = Inr (dec_value (take n (drop i v)))"
proof -
  have "(10::nat) ^ n \<le> 10 ^ 19" using assms(3) by (intro power_increasing) auto
  then show ?thesis using read_loop_spec[OF assms(1,2), of 0] by (simp add: ReadUInt64_def)
qed

lemma length_of_value:
  assumes "bn_inv b" "bn_value b < radix ^ n"
  shows "BigitLength b \<le> n"
proof (cases "bn_used_digits b = 0")
  case True
  then show ?thesis using assms(1) by (simp add: bn_inv_def BigitLength_def)
next
  case False
  then have "radix ^ (BigitLength b - 1) < radix ^ n" using bn_value_bounds(2)[OF assms(1)] assms(2) by (blast intro: le_less_trans)
  then show ?thesis unfolding power_less_radix by simp
qed

lemma small_exponent:
  assumes "bn_inv b" "bn_value b < radix ^ (kBigitCapacity - 1)"
  shows "bn_exponent b < 128"
  using length_of_value[OF assms] by (simp add: BigitLength_def capacity)

lemma AddUInt64_spec:
  assumes "bn_inv b" "x < 2 ^ 64" "bn_value b < radix ^ (kBigitCapacity - 1)"
  shows "\<exists>b'. AddUInt64 x b = Inr b' \<and> bn_inv b' \<and> bn_value b' = bn_value b + x"
proof (cases "x = 0")
  case True
  then show ?thesis using assms(1) by (simp add: AddUInt64_def)
next
  case False
  obtain c where c: "AssignUInt64 x bn_new = Inr c" "bn_inv c" "bn_value c = x" using AssignUInt64_spec[OF bn_new_inv(1) assms(2)] by blast
  have "x < radix ^ 3" using assms(2) by (simp add: radix_val)
  then have "BigitLength c \<le> 3" "BigitLength b \<le> kBigitCapacity - 1"
    using length_of_value[OF c(2), of 3] c(3) length_of_value[OF assms(1,3)] by simp_all
  then have "add_fits b c" by (simp add: add_fits_def capacity)
  then show ?thesis using AddBignum_spec[OF assms(1) c(2)] c False by (simp add: AddUInt64_def)
qed

text \<open>Appending \<open>k\<close> digits.\<close>

lemma append_digits:
  assumes b: "bn_inv b" and v: "(bn_value b + 1) * 10 ^ k \<le> radix ^ (kBigitCapacity - 1)" and x: "x < 10 ^ k" "k \<le> 19"
  shows "\<exists>b1 b'. MultiplyByPowerOfTen k b = Inr b1 \<and> AddUInt64 x b1 = Inr b' \<and> bn_inv b' \<and> bn_value b' = bn_value b * 10 ^ k + x"
proof -
  have lt: "bn_value b * 10 ^ k < radix ^ (kBigitCapacity - 1)" using v x(1) by simp
  have "bn_value b * 1 \<le> bn_value b * 10 ^ k" by (intro mult_le_mono) simp_all
  then have "bn_value b < radix ^ (kBigitCapacity - 1)" using lt by linarith
  then have "bn_exponent b < 128" by (rule small_exponent[OF b])
  then have ex: "bn_exponent b + k div kBigitSize < 2 ^ 31" using x(2) by (simp add: kBigitSize_def)
  have "5 ^ k * bval (bn_bigits b) \<le> 10 ^ k * bn_value b"
    by (intro mult_le_mono power_mono) (simp_all add: bn_value_def Suc_leI)
  then have "5 ^ k * bval (bn_bigits b) < radix ^ (kBigitCapacity - 1)" using lt by (simp add: mult.commute)
  then obtain b1 where b1: "MultiplyByPowerOfTen k b = Inr b1" "bn_inv b1" "bn_value b1 = bn_value b * 10 ^ k"
    using MultiplyByPowerOfTen_spec[OF b, of k] ex by auto
  have "(10::nat) ^ k \<le> 10 ^ 19" using x(2) by (intro power_increasing) auto
  then have "x < 2 ^ 64" using x(1) by simp
  then show ?thesis using AddUInt64_spec[OF b1(2)] b1 lt by auto
qed

definition dec_fits :: "nat list \<Rightarrow> bool" where
  "dec_fits v \<longleftrightarrow> 10 ^ length v \<le> radix ^ (kBigitCapacity - 1)"

lemma append_part:
  assumes v: "\<forall>c \<in> set v. is_dec c" "dec_fits v" and b: "bn_inv b" "bn_value b = dec_value (take pos v)" and k: "pos + k \<le> length v" "k \<le> 19"
  shows "\<exists>x b1 b'. ReadUInt64 v pos k = Inr x \<and> MultiplyByPowerOfTen k b = Inr b1 \<and> AddUInt64 x b1 = Inr b' \<and> bn_inv b'
    \<and> bn_value b' = dec_value (take (pos + k) v)"
proof -
  let ?x = "dec_value (take k (drop pos v))"
  have dec: "\<forall>c \<in> set (take k (drop pos v)). is_dec c" "\<forall>c \<in> set (take pos v). is_dec c"
    using v(1) by (auto dest: in_set_takeD in_set_dropD)
  have x: "?x < 10 ^ k" using dec_value_less[OF dec(1)] k(1) by simp
  have "bn_value b < 10 ^ pos" using dec_value_less[OF dec(2)] b(2) k(1) by simp
  then have "(bn_value b + 1) * 10 ^ k \<le> 10 ^ pos * 10 ^ k" by (intro mult_le_mono1) simp
  also have "\<dots> \<le> 10 ^ length v" unfolding power_add[symmetric] using k(1) by (intro power_increasing) auto
  finally have "(bn_value b + 1) * 10 ^ k \<le> radix ^ (kBigitCapacity - 1)" using v(2) unfolding dec_fits_def by linarith
  then have "\<exists>b1 b'. MultiplyByPowerOfTen k b = Inr b1 \<and> AddUInt64 ?x b1 = Inr b' \<and> bn_inv b' \<and> bn_value b' = bn_value b * 10 ^ k + ?x"
    using append_digits[OF b(1) _ x k(2)] by blast
  moreover have "dec_value (take (pos + k) v) = bn_value b * 10 ^ k + ?x"
    using k(1) by (simp add: take_add dec_value_append b(2))
  ultimately show ?thesis using ReadUInt64_spec[OF v(1) k] by auto
qed

lemma decimal_loop_spec:
  assumes v: "\<forall>c \<in> set v. is_dec c" "dec_fits v" and b: "bn_inv b" "bn_value b = dec_value (take pos v)" "pos + len = length v"
  shows "\<exists>len' pos' b'. decimal_loop v len pos b = Inr (len', pos', b') \<and> len' < 19 \<and> pos' + len' = length v
    \<and> bn_inv b' \<and> bn_value b' = dec_value (take pos' v)"
  using b
proof (induction len arbitrary: pos b rule: less_induct)
  case (less len)
  show ?case
  proof (cases "19 \<le> len")
    case False
    then show ?thesis using less.prems by (subst decimal_loop.simps) (simp add: kMaxUint64DecimalDigits_def)
  next
    case True
    obtain x b1 b' where st: "ReadUInt64 v pos 19 = Inr x" "MultiplyByPowerOfTen 19 b = Inr b1" "AddUInt64 x b1 = Inr b'"
        "bn_inv b'" "bn_value b' = dec_value (take (pos + 19) v)"
      using append_part[OF v less.prems(1,2), of 19] less.prems(3) True by auto
    have "decimal_loop v len pos b = decimal_loop v (len - 19) (pos + 19) b'"
      using True st(1-3) by (subst decimal_loop.simps) (simp add: kMaxUint64DecimalDigits_def)
    then show ?thesis using less.IH[of "len - 19" b' "pos + 19"] True st(4,5) less.prems(3) by simp
  qed
qed

lemma Clamp_inv: "bn_inv b \<Longrightarrow> \<exists>b'. Clamp b = Inr b' \<and> bn_inv b' \<and> bn_value b' = bn_value b"
  using Clamp_spec[of b] used_le_capacity[of b] by (auto simp: bn_inv_def)

lemma AssignDecimalString_spec:
  assumes "bn_inv b" "\<forall>c \<in> set v. is_dec c" "dec_fits v"
  shows "\<exists>b'. AssignDecimalString v b = Inr b' \<and> bn_inv b' \<and> bn_value b' = dec_value v"
proof -
  obtain len pos b1 where b1: "decimal_loop v (length v) 0 bn_new = Inr (len, pos, b1)" "len < 19" "pos + len = length v"
      "bn_inv b1" "bn_value b1 = dec_value (take pos v)"
    using decimal_loop_spec[OF assms(2,3), of bn_new 0 "length v"] by (auto simp: dec_value_def)
  obtain x b2 b3 where b3: "ReadUInt64 v pos len = Inr x" "MultiplyByPowerOfTen len b1 = Inr b2" "AddUInt64 x b2 = Inr b3"
      "bn_inv b3" "bn_value b3 = dec_value (take (pos + len) v)"
    using append_part[OF assms(2,3) b1(4,5), of len] b1(2,3) by auto
  then show ?thesis using Clamp_inv[OF b3(4)] Zero_spec[OF assms(1)] b1(1,3) by (simp add: AssignDecimalString_def)
qed

section \<open>Reading hexadecimal strings\<close>

definition is_hex :: "nat \<Rightarrow> bool" where
  "is_hex c \<longleftrightarrow> 48 \<le> c \<and> c \<le> 57 \<or> 97 \<le> c \<and> c \<le> 102 \<or> 65 \<le> c \<and> c \<le> 70"

definition hex_digit :: "nat \<Rightarrow> nat" where
  "hex_digit c = (if c \<le> 57 then c - 48 else if 97 \<le> c then c - 87 else c - 55)"

definition hex_value :: "nat list \<Rightarrow> nat" where
  "hex_value cs = horner 16 (map hex_digit cs)"

lemma hex_digit_less: "is_hex c \<Longrightarrow> hex_digit c < 16"
  by (auto simp: is_hex_def hex_digit_def)

lemma HexCharValue_spec: "HexCharValue c = (if is_hex c then Inr (hex_digit c) else Inl Terminate)"
  by (auto simp: HexCharValue_def is_hex_def hex_digit_def ASSERT_def)

lemma hex_value_append: "hex_value (xs @ ys) = hex_value xs * 16 ^ length ys + hex_value ys"
  by (simp add: hex_value_def horner_append)

lemma hex_value_simps [simp]: "hex_value [] = 0" "hex_value [c] = hex_digit c"
  by (simp_all add: hex_value_def horner_def)

lemma hex_value_less: "\<forall>c \<in> set cs. is_hex c \<Longrightarrow> hex_value cs < 16 ^ length cs"
  using horner_less[of "map hex_digit cs" 16] by (simp add: hex_value_def hex_digit_less)

lemma radix_hex: "radix = 16 ^ 7"
  by (simp add: radix_val)

text \<open>The characters between two positions.\<close>

definition segment :: "nat \<Rightarrow> nat \<Rightarrow> 'a list \<Rightarrow> 'a list" where
  "segment i n v = take n (drop i v)"

lemma segment_simps: "segment i 0 v = []" "i + n \<le> length v \<Longrightarrow> length (segment i n v) = n" "segment 0 n v = take n v"
  by (simp_all add: segment_def)

lemma segment_add: "i + m + n \<le> length v \<Longrightarrow> segment i (m + n) v = segment i m v @ segment (i + m) n v"
  by (simp add: segment_def take_add add.commute)

lemma segment_snoc: "i + n < length v \<Longrightarrow> segment i (Suc n) v = segment i n v @ [v ! (i + n)]"
  using segment_add[of i n 1 v] by (simp add: segment_def take_Suc_conv_app_nth)

lemma segment_Cons: "i < length v \<Longrightarrow> segment i (Suc n) v = v ! i # segment (i + 1) n v"
  by (simp add: segment_def Cons_nth_drop_Suc[symmetric])

lemma hex_bigit_loop_spec:
  assumes v: "\<forall>c \<in> set v. is_hex c" and "n \<le> p" "p \<le> length v" "cur < 16 ^ j" "j + n \<le> 7"
  shows "hex_bigit_loop v j n p cur = Inr (p - n, cur + hex_value (segment (p - n) n v) * 16 ^ j)"
  using assms(2-5)
proof (induction n arbitrary: j p cur)
  case 0
  then show ?case by (simp add: segment_simps)
next
  case (Suc n)
  let ?x = "hex_digit (v ! (p - 1))"
  have hex: "is_hex (v ! (p - 1))" using v Suc.prems(1,2) nth_mem[of "p - 1" v] by simp
  have "(?x + 1) * 16 ^ j \<le> 16 * 16 ^ j" using hex_digit_less[OF hex] by (intro mult_le_mono1) simp
  then have lt: "cur + ?x * 16 ^ j < 16 ^ Suc j" using Suc.prems(3) unfolding distrib_right power_Suc by linarith
  have "(16::nat) ^ Suc j \<le> 16 ^ 7" using Suc.prems(4) by (intro power_increasing) auto
  then have ch: "chunk (cur + push_bit (j * 4) ?x) = cur + ?x * 16 ^ j"
    using lt by (subst chunk_id) (simp_all add: push_bit_eq_mult power_mult mult.commute[of j] radix_hex)
  have "p - Suc n + n = p - 1" "p - 1 < length v" using Suc.prems by simp_all
  then have "hex_value (segment (p - Suc n) (Suc n) v) = hex_value (segment (p - Suc n) n v) * 16 + ?x"
    using segment_snoc[of "p - Suc n" n v] by (simp add: hex_value_append)
  moreover have "hex_bigit_loop v (j + 1) n (p - 1) (cur + ?x * 16 ^ j)
      = Inr (p - Suc n, cur + ?x * 16 ^ j + hex_value (segment (p - Suc n) n v) * 16 ^ (j + 1))"
    using Suc.IH[of "p - 1" "cur + ?x * 16 ^ j" "j + 1"] Suc.prems lt by simp
  ultimately show ?case using Suc.prems(1,2) hex ch by (simp add: ASSERT_def HexCharValue_spec algebra_simps)
qed

lemma hex_bigits_loop_spec:
  assumes v: "\<forall>c \<in> set v. is_hex c" and "7 * n \<le> p" "p \<le> length v" "i + n \<le> length d" "bigits_ok d" "\<forall>j. i \<le> j \<longrightarrow> j < length d \<longrightarrow> d ! j = 0"
  shows "\<exists>d'. hex_bigits_loop v i n d p = Inr (d', p - 7 * n) \<and> length d' = length d \<and> bigits_ok d'
    \<and> (\<forall>j. i + n \<le> j \<longrightarrow> j < length d \<longrightarrow> d' ! j = 0) \<and> bval d' = bval d + hex_value (segment (p - 7 * n) (7 * n) v) * radix ^ i"
  using assms(2-6)
proof (induction n arbitrary: i p d)
  case 0
  then show ?case by (simp add: segment_simps)
next
  case (Suc n)
  let ?x = "hex_value (segment (p - 7) 7 v)"
  have len: "length (segment (p - 7) 7 v) = 7" using Suc.prems by (intro segment_simps) simp
  have hex: "\<forall>c \<in> set (segment (p - 7) 7 v). is_hex c" using v by (auto simp: segment_def dest!: in_set_takeD in_set_dropD)
  have x: "?x < radix" using hex_value_less[OF hex] len by (simp add: radix_hex)
  have "hex_bigit_loop v 0 7 p 0 = Inr (p - 7, ?x)" using hex_bigit_loop_spec[OF v, of 7 p 0 0] Suc.prems by simp
  then have st: "hex_bigits_loop v i (Suc n) d p = hex_bigits_loop v (i + 1) n (d[i := ?x]) (p - 7)"
    using Suc.prems(3) by (simp add: kBigitSize_def)
  have d: "bval (d[i := ?x]) = bval d + ?x * radix ^ i" using bval_update[of i d ?x] Suc.prems(3,5) by simp
  have p: "p - 7 - 7 * n = p - 7 * Suc n" "p - 7 * Suc n + 7 * n = p - 7" "p - 7 \<le> length v" using Suc.prems(1,2) by simp_all
  obtain d' where d': "hex_bigits_loop v (i + 1) n (d[i := ?x]) (p - 7) = Inr (d', p - 7 * Suc n)" "length d' = length d" "bigits_ok d'"
      "\<forall>j. i + 1 + n \<le> j \<longrightarrow> j < length d \<longrightarrow> d' ! j = 0"
      "bval d' = bval (d[i := ?x]) + hex_value (segment (p - 7 * Suc n) (7 * n) v) * radix ^ (i + 1)"
    using Suc.IH[of "p - 7" "i + 1" "d[i := ?x]"] Suc.prems p x by (auto simp: bigits_ok_update nth_list_update)
  have "segment (p - 7 * Suc n) (7 * n + 7) v = segment (p - 7 * Suc n) (7 * n) v @ segment (p - 7) 7 v"
    using segment_add[of "p - 7 * Suc n" "7 * n" 7 v] Suc.prems(1,2) by (simp only: p(2)) simp
  then have "hex_value (segment (p - 7 * Suc n) (7 * Suc n) v) = hex_value (segment (p - 7 * Suc n) (7 * n) v) * radix + ?x"
    using len by (simp add: hex_value_append radix_hex add.commute)
  then have "bval d' = bval d + hex_value (segment (p - 7 * Suc n) (7 * Suc n) v) * radix ^ i"
    using d'(5) d by (simp add: algebra_simps)
  then show ?case unfolding st using d'(1-4) by (intro exI[of _ d'] conjI) simp_all
qed

lemma hex_top_loop_spec:
  assumes v: "\<forall>c \<in> set v. is_hex c" and "j + n \<le> length v" "(m + 1) * 16 ^ n \<le> radix"
  shows "hex_top_loop v j n m = Inr (m * 16 ^ n + hex_value (segment j n v))"
  using assms(2,3)
proof (induction n arbitrary: j m)
  case 0
  then show ?case by (simp add: segment_simps)
next
  case (Suc n)
  let ?x = "hex_digit (v ! j)"
  have hex: "is_hex (v ! j)" using v Suc.prems(1) nth_mem[of j v] by simp
  let ?m = "m * 16 + ?x"
  have "?m + 1 \<le> (m + 1) * 16" using hex_digit_less[OF hex] by simp
  then have "(?m + 1) * 16 ^ n \<le> (m + 1) * 16 * 16 ^ n" by (rule mult_le_mono1)
  also have "\<dots> = (m + 1) * 16 ^ Suc n" by (simp only: power_Suc mult.assoc)
  finally have b: "(?m + 1) * 16 ^ n \<le> radix" using Suc.prems(2) by linarith
  have "(?m + 1) * 1 \<le> (?m + 1) * 16 ^ n" by (intro mult_le_mono2) simp
  then have "?m + 1 \<le> radix" using b unfolding mult_1_right by (rule le_trans)
  then have "?m < radix" by simp
  then have "chunk (chunk (push_bit 4 m) + ?x) = ?m" by (simp add: push_bit_eq_mult chunk_id)
  moreover have "length (segment (j + 1) n v) = n" using Suc.prems(1) by (intro segment_simps) simp
  ultimately show ?case using Suc.IH[of "j + 1" ?m] Suc.prems(1) b hex hex_value_append[of "[v ! j]" "segment (j + 1) n v"]
    by (simp add: HexCharValue_spec segment_Cons algebra_simps)
qed

lemma AssignHexString_spec:
  assumes b: "bn_inv b" and v: "\<forall>c \<in> set v. is_hex c"
  shows "if length v div 7 < kBigitCapacity
    then \<exists>b'. AssignHexString v b = Inr b' \<and> bn_inv b' \<and> bn_value b' = hex_value v
    else AssignHexString v b = Inl Terminate"
proof -
  define k where "k = length v div 7"
  have k: "length v * 4 div kBigitSize = k" by (simp add: k_def kBigitSize_def)
  show ?thesis
  proof (cases "k < kBigitCapacity")
    case False
    then show ?thesis using Zero_spec[OF b] k by (simp add: AssignHexString_def EnsureCapacity_def k_def)
  next
    case True
    have kl: "7 * k \<le> length v" "length v - 7 * k < 7" unfolding k_def by linarith+
    let ?r = "length v - 7 * k"
    have new: "bn_bigits bn_new = replicate kBigitCapacity 0" "bn_exponent bn_new = 0" by (simp_all add: bn_new_def)
    have "\<exists>d'. hex_bigits_loop v 0 k (replicate kBigitCapacity 0) (length v) = Inr (d', ?r) \<and> length d' = kBigitCapacity \<and> bigits_ok d'
        \<and> (\<forall>j. k \<le> j \<longrightarrow> j < kBigitCapacity \<longrightarrow> d' ! j = 0) \<and> bval d' = hex_value (segment ?r (7 * k) v)"
      using hex_bigits_loop_spec[OF v kl(1) order_refl, of 0 "replicate kBigitCapacity 0"] True by simp
    then obtain d where d: "hex_bigits_loop v 0 k (replicate kBigitCapacity 0) (length v) = Inr (d, ?r)" "length d = kBigitCapacity" "bigits_ok d"
        "\<forall>j. k \<le> j \<longrightarrow> j < kBigitCapacity \<longrightarrow> d ! j = 0" "bval d = hex_value (segment ?r (7 * k) v)" by blast
    let ?t = "hex_value (take ?r v)"
    have "(16::nat) ^ ?r \<le> 16 ^ 7" using kl(2) by (intro power_increasing) auto
    then have tpb: "hex_top_loop v 0 ?r 0 = Inr ?t" using hex_top_loop_spec[OF v, of 0 ?r 0] by (simp add: radix_hex segment_simps)
    have "\<forall>c \<in> set (take ?r v). is_hex c" using v by (auto dest: in_set_takeD)
    then have t: "?t < radix" using hex_value_less[of "take ?r v"] \<open>16 ^ ?r \<le> 16 ^ 7\<close> by (simp add: radix_hex)
    have "v = take ?r v @ segment ?r (7 * k) v" using kl(1) by (simp add: segment_def)
    moreover have "length (segment ?r (7 * k) v) = 7 * k" using kl(1) by (intro segment_simps) simp
    ultimately have val: "hex_value v = ?t * radix ^ k + bval d"
      using hex_value_append[of "take ?r v" "segment ?r (7 * k) v"] d(5) unfolding radix_hex power_mult[symmetric] by simp
    define b1 where "b1 = (if ?t \<noteq> 0 then bn_new\<lparr>bn_bigits := d[k := ?t], bn_used_digits := k + 1\<rparr>
        else bn_new\<lparr>bn_bigits := d, bn_used_digits := k\<rparr>)"
    have run: "AssignHexString v b = Clamp b1"
      using Zero_spec[OF b] True d(1,2) tpb k new by (simp add: AssignHexString_def EnsureCapacity_def b1_def)
    have z: "bval d < radix ^ k" using bval_below_iff[OF d(3)] d(2,4) by simp
    have "bval (d[k := ?t]) = hex_value v" using bval_update[of k d ?t] d(2,4) True val by simp
    moreover have "bval (d[k := ?t]) < radix ^ (k + 1)"
      using bval_below_iff[OF bigits_ok_update[OF d(3) t, of k], of "k + 1"] d(2,4) by simp
    ultimately have "length (bn_bigits b1) = kBigitCapacity" "bigits_ok (bn_bigits b1)" "bn_used_digits b1 \<le> kBigitCapacity"
        "bval (bn_bigits b1) < radix ^ bn_used_digits b1" "bn_value b1 = hex_value v"
      using d True t z val new by (auto simp: b1_def bigits_ok_update bn_value_def)
    then show ?thesis using Clamp_spec[of b1] True run by (auto simp: k_def)
  qed
qed

section \<open>Printing\<close>

definition hex_char :: "nat \<Rightarrow> nat" where
  "hex_char x = (if x < 10 then x + 48 else x + 55)"

text \<open>The last \<open>n\<close> hexadecimal digits of a number, and all its digits.\<close>

fun hex_fixed :: "nat \<Rightarrow> nat \<Rightarrow> nat list" where
  "hex_fixed 0 x = []"
| "hex_fixed (Suc n) x = hex_fixed n (x div 16) @ [hex_char (x mod 16)]"

fun hex_string :: "nat \<Rightarrow> nat list" where
  "hex_string x = (if x = 0 then [] else hex_string (x div 16) @ [hex_char (x mod 16)])"

declare hex_string.simps [simp del]

lemma hex_string_0 [simp]: "hex_string 0 = []"
  by (simp add: hex_string.simps)

lemma length_hex_fixed [simp]: "length (hex_fixed n x) = n"
  by (induction n arbitrary: x) auto

lemma hex_fixed_add: "hex_fixed (m + n) x = hex_fixed m (x div 16 ^ n) @ hex_fixed n x"
proof (induction n arbitrary: x)
  case (Suc n)
  then show ?case by (simp add: div_mult2_eq)
qed simp

lemma hex_fixed_mod: "hex_fixed n (x mod 16 ^ n) = hex_fixed n x"
proof (induction n arbitrary: x)
  case (Suc n)
  have "x mod (16 * 16 ^ n) = 16 * (x div 16 mod 16 ^ n) + x mod 16" by (rule mod_mult2_eq)
  then have "x mod 16 ^ Suc n div 16 = x div 16 mod 16 ^ n" "x mod 16 ^ Suc n mod 16 = x mod 16" by simp_all
  then show ?case using Suc by simp
qed simp

lemma hex_fixed_0: "hex_fixed n 0 = replicate n 48"
  by (induction n) (simp_all add: hex_char_def replicate_append_same)

lemma hex_string_add: "y \<noteq> 0 \<Longrightarrow> z < 16 ^ n \<Longrightarrow> hex_string (y * 16 ^ n + z) = hex_string y @ hex_fixed n z"
proof (induction n arbitrary: z)
  case (Suc n)
  let ?x = "y * 16 ^ Suc n + z"
  have "?x = (y * 16 ^ n) * 16 + z" by simp
  then have "?x div 16 = y * 16 ^ n + z div 16" "?x mod 16 = z mod 16" by (simp_all only: div_mult_self3 mod_mult_self3)
  moreover have "z div 16 < 16 ^ n" using Suc.prems(2) by (simp add: div_less_iff_less_mult)
  moreover have "?x \<noteq> 0" using Suc.prems(1) by simp
  ultimately show ?case using Suc.IH[OF Suc.prems(1)] by (subst hex_string.simps) simp
qed simp

lemma hex_digit_char: "x < 16 \<Longrightarrow> hex_digit (hex_char x) = x \<and> is_hex (hex_char x)"
  by (auto simp: hex_digit_def hex_char_def is_hex_def)

lemma hex_value_string: "hex_value (hex_string x) = x \<and> (\<forall>c \<in> set (hex_string x). is_hex c)"
proof (induction x rule: hex_string.induct)
  case (1 x)
  show ?case
  proof (cases "x = 0")
    case False
    then show ?thesis using 1 hex_digit_char[of "x mod 16"]
      by (subst (1 2) hex_string.simps) (auto simp: hex_value_append)
  qed simp
qed

subsection \<open>Writing downwards\<close>

definition splice_at :: "nat \<Rightarrow> 'a list \<Rightarrow> 'a list \<Rightarrow> 'a list" where
  "splice_at q cs buf = take q buf @ cs @ drop (q + length cs) buf"

lemma splice_at_length [simp]: "q + length cs \<le> length buf \<Longrightarrow> length (splice_at q cs buf) = length buf"
  by (simp add: splice_at_def)

lemma splice_at_splice:
  "q + length cs + length ds \<le> length buf \<Longrightarrow> splice_at q cs (splice_at (q + length cs) ds buf) = splice_at q (cs @ ds) buf"
  by (simp add: splice_at_def add.assoc)

text \<open>\<open>writes f cs\<close>: the computation puts the text \<open>cs\<close> before the current position.\<close>

definition writes :: "(nat \<times> nat list \<Rightarrow> (nat \<times> nat list) res) \<Rightarrow> nat list \<Rightarrow> bool" where
  "writes f cs \<longleftrightarrow> (\<forall>q buf. q + length cs \<le> length buf \<longrightarrow> f (q + length cs, buf) = Inr (q, splice_at q cs buf))"

lemma writesD: "writes f cs \<Longrightarrow> q + length cs \<le> length buf \<Longrightarrow> f (q + length cs, buf) = Inr (q, splice_at q cs buf)"
  by (simp add: writes_def)

lemma writes_Inr: "writes Inr []"
  by (simp add: writes_def splice_at_def)

lemma writes_bind:
  assumes "writes f ds" "writes g cs"
  shows "writes (\<lambda>s. bindE (f s) g) (cs @ ds)"
  unfolding writes_def
proof (intro allI impI)
  fix q and buf :: "nat list"
  assume le: "q + length (cs @ ds) \<le> length buf"
  have "f ((q + length cs) + length ds, buf) = Inr (q + length cs, splice_at (q + length cs) ds buf)"
    using le by (intro writesD[OF assms(1)]) simp
  moreover have "g (q + length cs, splice_at (q + length cs) ds buf) = Inr (q, splice_at q cs (splice_at (q + length cs) ds buf))"
    using le by (intro writesD[OF assms(2)]) simp
  ultimately show "bindE (f (q + length (cs @ ds), buf)) g = Inr (q, splice_at q (cs @ ds) buf)"
    using le by (simp add: splice_at_splice add.assoc)
qed

lemma writes_put: "writes (\<lambda>s. put s c) [c]"
  by (auto simp: writes_def put_def splice_at_def upd_conv_take_nth_drop)

lemma HexCharOfValue_spec: "x < 16 \<Longrightarrow> HexCharOfValue x = Inr (hex_char x)"
  by (simp add: HexCharOfValue_def ASSERT_def hex_char_def)

lemma hex_low: "x AND 0xF = x mod 16" "drop_bit 4 x = x div 16" for x :: nat
  using take_bit_eq_mask[of 4 x] by (simp_all add: take_bit_eq_mod drop_bit_eq_div mask_eq_exp_minus_1)

lemma zeros_loop_writes: "writes (zeros_loop n) (replicate n 48)"
proof (induction n)
  case (Suc n)
  have "writes (\<lambda>s. bindE (put s 48) (zeros_loop n)) (replicate n 48 @ [48])" by (rule writes_bind[OF writes_put Suc])
  then show ?case by (simp add: replicate_append_same)
qed (simp add: writes_Inr)

lemma exponent_loop_writes: "writes (exponent_loop n) (replicate (7 * n) 48)"
proof (induction n)
  case (Suc n)
  have "writes (\<lambda>s. bindE (zeros_loop 7 s) (exponent_loop n)) (replicate (7 * n) 48 @ replicate 7 48)"
    by (rule writes_bind[OF zeros_loop_writes Suc])
  then show ?case by (simp add: kBigitSize_def add.commute flip: replicate_add)
qed (simp add: writes_Inr)

lemma hex_chars_loop_writes: "writes (hex_chars_loop n x) (hex_fixed n x)"
proof (induction n arbitrary: x)
  case (Suc n)
  have "writes (\<lambda>s. bindE (put s (hex_char (x mod 16))) (hex_chars_loop n (x div 16))) (hex_fixed n (x div 16) @ [hex_char (x mod 16)])"
    by (rule writes_bind[OF writes_put Suc])
  then show ?case by (simp add: hex_low HexCharOfValue_spec)
qed (simp add: writes_def splice_at_def)

lemma hex_print_loop_writes:
  "i + n \<le> length d \<Longrightarrow> bigits_ok d \<Longrightarrow> writes (hex_print_loop d i n) (hex_fixed (7 * n) (bval (take n (drop i d))))"
proof (induction n arbitrary: i)
  case (Suc n)
  have w: "writes (\<lambda>s. bindE (hex_chars_loop 7 (d ! i) s) (hex_print_loop d (i + 1) n))
      (hex_fixed (7 * n) (bval (take n (drop (i + 1) d))) @ hex_fixed 7 (d ! i))"
    using Suc.prems by (intro writes_bind[OF hex_chars_loop_writes Suc.IH]) simp_all
  have v: "bval (take (Suc n) (drop i d)) = d ! i + radix * bval (take n (drop (i + 1) d))"
    using bval_take_Suc[of i d n] Suc.prems(1) by simp
  have x: "d ! i < 16 ^ 7" using bigits_ok_nth[OF Suc.prems(2), of i] Suc.prems(1) by (simp add: radix_hex)
  have "hex_fixed (7 * n + 7) (d ! i + 16 ^ 7 * bval (take n (drop (i + 1) d))) =
      hex_fixed (7 * n) (bval (take n (drop (i + 1) d))) @ hex_fixed 7 (d ! i)"
    unfolding hex_fixed_add using x hex_fixed_mod[of 7 "d ! i + 16 ^ 7 * bval (take n (drop (i + 1) d))"] by simp
  then show ?case using w v Suc.prems(1) by (simp add: kBigitSize_def radix_hex add.commute)
qed (simp add: writes_def splice_at_def)

lemma hex_last_loop_writes: "writes (hex_last_loop x) (hex_string x)"
proof (induction x rule: hex_string.induct)
  case (1 x)
  show ?case
  proof (cases "x = 0")
    case True
    then have "hex_last_loop x = Inr" by (simp add: fun_eq_iff hex_last_loop.simps)
    then show ?thesis using True writes_Inr by simp
  next
    case False
    have "writes (\<lambda>s. bindE (put s (hex_char (x mod 16))) (hex_last_loop (x div 16))) (hex_string (x div 16) @ [hex_char (x mod 16)])"
      by (rule writes_bind[OF writes_put 1[OF False]])
    moreover have "hex_last_loop x = (\<lambda>s. bindE (put s (hex_char (x mod 16))) (hex_last_loop (x div 16)))"
      using False by (simp add: fun_eq_iff hex_last_loop.simps[of x] hex_low HexCharOfValue_spec)
    ultimately show ?thesis using False by (simp add: hex_string.simps[of x])
  qed
qed

lemma hex_size_loop_spec: "hex_size_loop x r = r + length (hex_string x)"
proof (induction x r rule: hex_size_loop.induct)
  case (1 x r)
  show ?case
  proof (cases "x = 0")
    case False
    then show ?thesis using 1 by (subst hex_size_loop.simps, subst hex_string.simps) (simp add: hex_low)
  qed (simp add: hex_size_loop.simps)
qed

text \<open>The text of a value.\<close>

definition hex_text :: "nat \<Rightarrow> nat list" where
  "hex_text x = (if x = 0 then [48] else hex_string x)"

lemma hex_text_value: "hex_value (hex_text x) = x" "\<forall>c \<in> set (hex_text x). is_hex c"
  using hex_value_string[of x] by (auto simp: hex_text_def hex_digit_def is_hex_def)

lemma value_text:
  assumes b: "bn_inv b" and u: "bn_used_digits b \<noteq> 0"
  defines "tpb \<equiv> bn_value b div radix ^ (BigitLength b - 1)" and "k \<equiv> bn_used_digits b - 1"
  shows "hex_string (bn_value b) = hex_string tpb @ hex_fixed (7 * k) (bval (take k (bn_bigits b))) @ replicate (7 * bn_exponent b) 48"
proof -
  let ?d = "bn_bigits b" and ?e = "bn_exponent b" and ?p = "radix ^ k"
  have d: "bigits_ok ?d" "k < length ?d" "bval ?d < radix ^ bn_used_digits b"
    using b u used_le_capacity[OF b] by (auto simp: bn_inv_def k_def)
  have L: "BigitLength b - 1 = k + ?e" using u by (simp add: BigitLength_def k_def)
  have low: "bval (take k ?d) < ?p" using bval_less[OF bigits_ok_sub(1)[OF d(1), of k]] d(2) by simp
  have sp: "bval ?d = bval (take k ?d) + ?p * bval (drop k ?d)" using bval_split[of ?d k] d(2) by simp
  have "tpb = bval ?d * radix ^ ?e div (?p * radix ^ ?e)" unfolding tpb_def L bn_value_def by (simp add: power_add)
  also have "\<dots> = bval ?d div ?p" by simp
  finally have tpb: "tpb = bval (drop k ?d)" using sp low by simp
  have v: "bn_value b = (tpb * 16 ^ (7 * k) + bval (take k ?d)) * 16 ^ (7 * ?e) + 0"
    unfolding bn_value_def sp tpb radix_hex power_mult[symmetric] by (simp add: algebra_simps)
  have t0: "tpb \<noteq> 0" using TopBigit_spec(2)[OF b u] by (simp add: tpb_def)
  have low': "bval (take k ?d) < 16 ^ (7 * k)" using low unfolding radix_hex power_mult[symmetric] .
  have "hex_string (bn_value b) = hex_string (tpb * 16 ^ (7 * k) + bval (take k ?d)) @ hex_fixed (7 * ?e) 0"
    unfolding v using t0 by (intro hex_string_add) simp_all
  also have "hex_string (tpb * 16 ^ (7 * k) + bval (take k ?d)) = hex_string tpb @ hex_fixed (7 * k) (bval (take k ?d))"
    using t0 low' by (intro hex_string_add)
  finally show ?thesis by (simp add: hex_fixed_0)
qed

lemma hex_string_length: "x < 16 ^ n \<Longrightarrow> length (hex_string x) \<le> n"
proof (induction n arbitrary: x)
  case (Suc n)
  then have "x div 16 < 16 ^ n" by (simp add: div_less_iff_less_mult mult.commute)
  then show ?case using Suc.IH by (subst hex_string.simps) simp
qed simp

lemma hex_text_length: "bn_inv b \<Longrightarrow> length (hex_text (bn_value b)) \<le> max 1 (7 * BigitLength b)"
  using hex_string_length[of "bn_value b" "7 * BigitLength b"] bn_value_bounds(1)[of b]
  unfolding radix_hex power_mult[symmetric] by (auto simp: hex_text_def)

lemma ToHexString_spec:
  assumes b: "bn_inv b" and len: "buffer_size \<le> length buffer"
  defines "cs \<equiv> hex_text (bn_value b)"
  shows "ToHexString b buffer buffer_size =
    (if length cs + 1 \<le> buffer_size then Inr (True, cs @ [0] @ drop (length cs + 1) buffer) else Inr (False, buffer))"
proof (cases "bn_used_digits b = 0")
  case True
  then have cs: "cs = [48]" using value_zero_iff[OF b] by (simp add: cs_def hex_text_def)
  show ?thesis
  proof (cases "buffer_size < 2")
    case False
    then obtain x y zs where "buffer = x # y # zs" using len by (cases buffer; cases "tl buffer") auto
    then show ?thesis using False True cs IsClamped_inv[OF b] by (simp add: ToHexString_def ASSERT_def kBigitSize_def)
  qed (use True cs IsClamped_inv[OF b] in \<open>simp add: ToHexString_def ASSERT_def kBigitSize_def\<close>)
next
  case False
  let ?k = "bn_used_digits b - 1" and ?d = "bn_bigits b"
  define tpb where "tpb = bn_value b div radix ^ (BigitLength b - 1)"
  define low where "low = hex_fixed (7 * ?k) (bval (take ?k ?d))"
  note tb = TopBigit_spec[OF b False, folded tpb_def]
  have cs: "cs = hex_string tpb @ low @ replicate (7 * bn_exponent b) 48"
    using value_text[OF b False] value_zero_iff[OF b] False by (simp add: cs_def hex_text_def tpb_def low_def)
  have d: "bigits_ok ?d" "?k \<le> length ?d" using b used_le_capacity[OF b] by (auto simp: bn_inv_def)
  have wp: "writes (hex_print_loop ?d 0 ?k) low" using hex_print_loop_writes[of 0 ?k ?d] d by (simp add: low_def)
  let ?f = "\<lambda>s. bindE (put s 0) (\<lambda>s0. bindE (exponent_loop (bn_exponent b) s0) (\<lambda>s1.
      bindE (hex_print_loop ?d 0 ?k s1) (hex_last_loop tpb)))"
  have w: "writes ?f (((hex_string tpb @ low) @ replicate (7 * bn_exponent b) 48) @ [0])"
    by (rule writes_bind[OF writes_put writes_bind[OF exponent_loop_writes writes_bind[OF wp hex_last_loop_writes]]])
  have chars: "SizeInHexChars tpb = Inr (length (hex_string tpb))" using tb(2) by (simp add: SizeInHexChars_def ASSERT_def hex_size_loop_spec)
  have n: "(BigitLength b - 1) * (kBigitSize div 4) + length (hex_string tpb) + 1 = length cs + 1"
    using False by (simp add: cs low_def BigitLength_def kBigitSize_def distrib_right)
  have run: "ToHexString b buffer buffer_size = (if length cs + 1 > buffer_size then Inr (False, buffer)
      else bindE (?f (length cs + 1, buffer)) (\<lambda>(p, buf). Inr (True, buf)))"
    using False IsClamped_inv[OF b] tb(1) chars n
    by (simp add: ToHexString_def ASSERT_def kBigitSize_def Let_def bindE_assoc)
  have fw: "?f (length cs + 1, buffer) = Inr (0, splice_at 0 (cs @ [0]) buffer)" if "length cs + 1 \<le> buffer_size"
    using writesD[OF w, of 0 buffer] that len by (simp add: cs)
  show ?thesis
  proof (cases "length cs + 1 \<le> buffer_size")
    case True
    then show ?thesis unfolding run fw[OF True] by (simp add: splice_at_def)
  qed (simp add: run)
qed

end
