(* ===== verification/Bignum_Machine.thy ===== *)
theory Bignum_Machine
  imports Bignum_Power Bignum_Strings
begin

text \<open>
  The class \<^verbatim>\<open>Bignum\<close> as a calculator: a sequence of calls refines the arithmetic on natural numbers.  The
  specification \<open>calc_step\<close> says when a call is within the capacity of the class; \<open>calculator\<close> is the contract
  between one call and a sequence of calls.
\<close>

section \<open>Sequences of calls\<close>

fun run_ops :: "('op \<Rightarrow> 's \<Rightarrow> 's res) \<Rightarrow> 'op list \<Rightarrow> 's \<Rightarrow> 's res" where
  "run_ops step [] s = Inr s"
| "run_ops step (x # xs) s = bindE (step x s) (run_ops step xs)"

fun run_spec :: "('op \<Rightarrow> 'v \<Rightarrow> 'v option) \<Rightarrow> 'op list \<Rightarrow> 'v \<Rightarrow> 'v option" where
  "run_spec spec [] v = Some v"
| "run_spec spec (x # xs) v = (case spec x v of None \<Rightarrow> None | Some v' \<Rightarrow> run_spec spec xs v')"

locale calculator =
  fixes good :: "'s \<Rightarrow> bool" and val :: "'s \<Rightarrow> 'v" and step :: "'op \<Rightarrow> 's \<Rightarrow> 's res" and spec :: "'op \<Rightarrow> 'v \<Rightarrow> 'v option"
  assumes step_refines: "good s \<Longrightarrow> spec x (val s) = Some v \<Longrightarrow> \<exists>s'. step x s = Inr s' \<and> good s' \<and> val s' = v"
begin

lemma run_refines:
  "good s \<Longrightarrow> run_spec spec xs (val s) = Some v \<Longrightarrow> \<exists>s'. run_ops step xs s = Inr s' \<and> good s' \<and> val s' = v"
proof (induction xs arbitrary: s)
  case (Cons x xs)
  then obtain w where "spec x (val s) = Some w" "run_spec spec xs w = Some v" by (auto split: option.splits)
  moreover from this(1) obtain s1 where "step x s = Inr s1" "good s1" "val s1 = w" using step_refines[OF Cons.prems(1)] by blast
  ultimately show ?case using Cons.IH[of s1] by auto
qed simp

end

section \<open>The calls of the class\<close>

datatype bn_op =
    Op_AssignUInt16 nat
  | Op_AssignUInt64 nat
  | Op_AssignBignum bignum
  | Op_AssignDecimalString "nat list"
  | Op_AssignHexString "nat list"
  | Op_AssignPowerUInt16 nat nat
  | Op_AddUInt64 nat
  | Op_AddBignum bignum
  | Op_SubtractBignum bignum
  | Op_Square
  | Op_ShiftLeft nat
  | Op_MultiplyByUInt32 nat
  | Op_MultiplyByUInt64 nat
  | Op_MultiplyByPowerOfTen nat
  | Op_Times10

fun bn_step :: "bn_op \<Rightarrow> bignum \<Rightarrow> bignum res" where
  "bn_step (Op_AssignUInt16 v) b = AssignUInt16 v b"
| "bn_step (Op_AssignUInt64 v) b = AssignUInt64 v b"
| "bn_step (Op_AssignBignum c) b = AssignBignum c b"
| "bn_step (Op_AssignDecimalString v) b = AssignDecimalString v b"
| "bn_step (Op_AssignHexString v) b = AssignHexString v b"
| "bn_step (Op_AssignPowerUInt16 base p) b = AssignPowerUInt16 base p b"
| "bn_step (Op_AddUInt64 x) b = AddUInt64 x b"
| "bn_step (Op_AddBignum c) b = AddBignum c b"
| "bn_step (Op_SubtractBignum c) b = SubtractBignum c b"
| "bn_step Op_Square b = Square b"
| "bn_step (Op_ShiftLeft s) b = ShiftLeft s b"
| "bn_step (Op_MultiplyByUInt32 f) b = MultiplyByUInt32 f b"
| "bn_step (Op_MultiplyByUInt64 f) b = MultiplyByUInt64 f b"
| "bn_step (Op_MultiplyByPowerOfTen e) b = MultiplyByPowerOfTen e b"
| "bn_step Op_Times10 b = Times10 b"

text \<open>Numbers with a bigit to spare, the operands of the calls, and the arithmetic.\<close>

definition limit :: nat where
  "limit = radix ^ (kBigitCapacity - 1)"

definition below :: "bool \<Rightarrow> nat \<Rightarrow> nat option" where
  "below c x = (if c \<and> x < limit then Some x else None)"

definition bn_small :: "bignum \<Rightarrow> bool" where
  "bn_small b \<longleftrightarrow> bn_inv b \<and> bn_value b < limit"

fun calc_step :: "bn_op \<Rightarrow> nat \<Rightarrow> nat option" where
  "calc_step (Op_AssignUInt16 v) x = below (v < 2 ^ 16) v"
| "calc_step (Op_AssignUInt64 v) x = below (v < 2 ^ 64) v"
| "calc_step (Op_AssignBignum c) x = below (bn_small c) (bn_value c)"
| "calc_step (Op_AssignDecimalString v) x = below (list_all is_dec v \<and> 10 ^ length v \<le> limit) (dec_value v)"
| "calc_step (Op_AssignHexString v) x = below (list_all is_hex v \<and> length v div 7 < kBigitCapacity) (hex_value v)"
| "calc_step (Op_AssignPowerUInt16 base p) x =
     below (0 < base \<and> base < 2 ^ 16 \<and> power_bits base p div kBigitSize + 2 \<le> kBigitCapacity) (base ^ p)"
| "calc_step (Op_AddUInt64 y) x = below (y < 2 ^ 64) (x + y)"
| "calc_step (Op_AddBignum c) x = below (bn_small c) (x + bn_value c)"
| "calc_step (Op_SubtractBignum c) x = below (bn_small c \<and> bn_value c \<le> x) (x - bn_value c)"
| "calc_step Op_Square x = below True (x * x)"
| "calc_step (Op_ShiftLeft s) x = below True (x * 2 ^ s)"
| "calc_step (Op_MultiplyByUInt32 f) x = below (f < 2 ^ 32) (x * f)"
| "calc_step (Op_MultiplyByUInt64 f) x = below (f < 2 ^ 64) (x * f)"
| "calc_step (Op_MultiplyByPowerOfTen e) x = below True (x * 10 ^ e)"
| "calc_step Op_Times10 x = below True (x * 10)"

lemma below_Some: "below c x = Some v \<longleftrightarrow> c \<and> x < limit \<and> v = x"
  by (auto simp: below_def)

lemma small_length: "bn_small b \<Longrightarrow> BigitLength b \<le> kBigitCapacity - 1"
  unfolding bn_small_def limit_def by (blast intro: length_of_value)

lemma small_add_fits: "bn_small b \<Longrightarrow> bn_small c \<Longrightarrow> add_fits b c"
  using small_length[of b] small_length[of c] by (simp add: add_fits_def capacity)

lemma small_align_fits: "bn_small b \<Longrightarrow> align_fits b c"
  using small_length[of b] by (simp add: align_fits_def capacity)

lemma bval_le_value: "bval (bn_bigits b) \<le> bn_value b"
  by (simp add: bn_value_def Suc_leI)

lemma limit_le: "limit \<le> radix ^ kBigitCapacity"
  unfolding limit_def by (intro power_le_radix) simp

lemma product_small_fits: "bn_value b * f < limit \<Longrightarrow> product_fits f b"
  using mult_le_mono1[OF bval_le_value[of b], of f] limit_le unfolding product_fits_def mult.commute[of f] by linarith

lemma square_small_fits:
  assumes "bn_inv b" "bn_value b * bn_value b < limit"
  shows "2 * bn_used_digits b \<le> kBigitCapacity"
proof (cases "bn_used_digits b = 0")
  case False
  then have le: "radix ^ (bn_used_digits b - 1) \<le> bn_value b"
    using assms(1) bval_le_value[of b] by (auto simp: bn_inv_def)
  have "radix ^ (2 * (bn_used_digits b - 1)) < radix ^ (kBigitCapacity - 1)"
    using mult_le_mono[OF le le] assms(2) unfolding limit_def mult_2 power_add by linarith
  then have "2 * (bn_used_digits b - 1) < kBigitCapacity - 1" unfolding power_less_radix .
  then show ?thesis by (simp add: capacity)
qed (simp add: capacity)

lemma multiply_small:
  assumes "bn_inv b" "bn_value b * f < limit"
    and "if product_fits f b
      then \<exists>b'. r = Inr b' \<and> bn_inv b' \<and> bval (bn_bigits b') = f * bval (bn_bigits b) \<and> (0 < f \<longrightarrow> bn_exponent b' = bn_exponent b)
      else r = Inl Terminate"
  shows "\<exists>b'. r = Inr b' \<and> bn_inv b' \<and> bn_value b' = bn_value b * f"
proof -
  obtain b' where "r = Inr b'" "bn_inv b'" "bval (bn_bigits b') = f * bval (bn_bigits b)" "0 < f \<longrightarrow> bn_exponent b' = bn_exponent b"
    using assms(3) product_small_fits[OF assms(2)] by auto
  then show ?thesis by (cases "f = 0") (auto simp: bn_value_def)
qed

lemma step_assign:
  assumes "bn_inv b"
  shows "v < 2 ^ 16 \<Longrightarrow> \<exists>b'. AssignUInt16 v b = Inr b' \<and> bn_inv b' \<and> bn_value b' = v"
    and "v < 2 ^ 64 \<Longrightarrow> \<exists>b'. AssignUInt64 v b = Inr b' \<and> bn_inv b' \<and> bn_value b' = v"
  using AssignUInt16_spec[OF assms] AssignUInt64_spec[OF assms] by blast+

lemma step_power:
  assumes "bn_inv b" "0 < base" "base < 2 ^ 16" "power_bits base p div kBigitSize + 2 \<le> kBigitCapacity"
  shows "\<exists>b'. AssignPowerUInt16 base p b = Inr b' \<and> bn_inv b' \<and> bn_value b' = base ^ p"
proof -
  have "power_bits base p < 2 ^ 31" using assms(4) by (simp add: kBigitSize_def capacity)
  then show ?thesis using AssignPowerUInt16_spec[OF assms(1-3)] assms(4) by simp
qed

text \<open>The exponents of numbers below the limit stay far from overflow of \<^verbatim>\<open>int\<close>.\<close>

lemma small_factor:
  assumes "bn_inv b" "bn_used_digits b \<noteq> 0" "bn_value b * 2 ^ s \<le> x" "x < limit"
  shows "bn_exponent b + s div kBigitSize < 2 ^ 31" "2 * bn_exponent b < 2 ^ 31"
proof -
  have v: "0 < bn_value b" using value_zero_iff[OF assms(1)] assms(2) by simp
  have "bn_value b * 1 \<le> bn_value b * 2 ^ s" by (intro mult_le_mono) simp_all
  then have "bn_value b < radix ^ (kBigitCapacity - 1)" using assms(3,4) unfolding limit_def by linarith
  then have e: "bn_exponent b < 128" by (rule small_exponent[OF assms(1)])
  have "1 * 2 ^ s \<le> bn_value b * 2 ^ s" using v by (intro mult_le_mono1) simp
  then have "2 ^ s < limit" using assms(3,4) by linarith
  then have "(2::nat) ^ s < 2 ^ (28 * 127)" unfolding limit_def radix_def kBigitSize_def capacity power_mult by simp
  then have "s < 28 * 127" by (rule power_less_imp_less_exp[rotated]) simp
  then show "bn_exponent b + s div kBigitSize < 2 ^ 31" "2 * bn_exponent b < 2 ^ 31" using e by (simp_all add: kBigitSize_def)
qed

lemma step_power_of_ten:
  assumes "bn_inv b" "bn_value b * 10 ^ e < limit"
  shows "\<exists>b'. MultiplyByPowerOfTen e b = Inr b' \<and> bn_inv b' \<and> bn_value b' = bn_value b * 10 ^ e"
proof -
  have "5 ^ e * bval (bn_bigits b) \<le> 10 ^ e * bn_value b" by (intro mult_le_mono power_mono bval_le_value) simp_all
  then have "5 ^ e * bval (bn_bigits b) < radix ^ (kBigitCapacity - 1)" using assms(2) by (simp add: limit_def mult.commute)
  moreover have "bn_value b * 2 ^ e \<le> bn_value b * 10 ^ e" by (intro mult_le_mono power_mono) simp_all
  then have "bn_used_digits b = 0 \<or> bn_exponent b + e div kBigitSize < 2 ^ 31" using small_factor(1)[OF assms(1) _ _ assms(2)] by blast
  ultimately show ?thesis using MultiplyByPowerOfTen_spec[OF assms(1), of e] by simp
qed

lemma bn_step_refines:
  assumes b: "bn_small b" and spec: "calc_step x (bn_value b) = Some v"
  shows "\<exists>b'. bn_step x b = Inr b' \<and> bn_small b' \<and> bn_value b' = v"
proof -
  have inv: "bn_inv b" "bn_value b < limit" using b by (auto simp: bn_small_def)
  have lim: "limit = radix ^ (kBigitCapacity - 1)" by (rule limit_def)
  have v: "v < limit" using spec by (cases x) (auto simp: below_Some)
  have "\<exists>b'. bn_step x b = Inr b' \<and> bn_inv b' \<and> bn_value b' = v"
  proof (cases x)
    case (Op_AssignUInt16 n)
    then show ?thesis using spec step_assign(1)[OF inv(1)] by (simp add: below_Some)
  next
    case (Op_AssignUInt64 n)
    then show ?thesis using spec step_assign(2)[OF inv(1)] by (simp add: below_Some)
  next
    case (Op_AssignBignum c)
    then show ?thesis using spec AssignBignum_spec[OF inv(1)] by (simp add: below_Some bn_small_def)
  next
    case (Op_AssignDecimalString cs)
    then show ?thesis using spec AssignDecimalString_spec[OF inv(1), of cs] by (simp add: below_Some list_all_iff dec_fits_def lim)
  next
    case (Op_AssignHexString cs)
    then show ?thesis using spec AssignHexString_spec[OF inv(1), of cs] by (simp add: below_Some list_all_iff)
  next
    case (Op_AssignPowerUInt16 base p)
    then show ?thesis using spec step_power[OF inv(1), of base p] by (simp add: below_Some)
  next
    case (Op_AddUInt64 n)
    then show ?thesis using spec AddUInt64_spec[OF inv(1), of n] inv(2) by (simp add: below_Some lim)
  next
    case (Op_AddBignum c)
    then show ?thesis using spec AddBignum_spec[OF inv(1)] small_add_fits[OF b] by (simp add: below_Some bn_small_def)
  next
    case (Op_SubtractBignum c)
    then show ?thesis using spec SubtractBignum_spec[OF inv(1)] small_align_fits[OF b] by (simp add: below_Some bn_small_def)
  next
    case Op_Square
    have "2 * bn_exponent b < 2 ^ 31" using small_exponent[OF inv(1)] inv(2) by (simp add: lim)
    then show ?thesis using Op_Square spec Square_spec[OF inv(1) square_small_fits[OF inv(1)]] by (auto simp: below_Some)
  next
    case (Op_ShiftLeft s)
    then have "bn_used_digits b = 0 \<or> bn_exponent b + s div kBigitSize < 2 ^ 31" using spec small_factor(1)[OF inv(1), of s v] by (auto simp: below_Some)
    then show ?thesis using Op_ShiftLeft spec ShiftLeft_spec[OF inv(1), of s] small_length[OF b] by (auto simp: below_Some BigitLength_def capacity)
  next
    case (Op_MultiplyByUInt32 f)
    then show ?thesis using spec multiply_small[OF inv(1) _ MultiplyByUInt32_spec[OF inv(1), of f]] by (simp add: below_Some)
  next
    case (Op_MultiplyByUInt64 f)
    then show ?thesis using spec multiply_small[OF inv(1) _ MultiplyByUInt64_spec[OF inv(1), of f]] by (simp add: below_Some)
  next
    case (Op_MultiplyByPowerOfTen e)
    then show ?thesis using spec step_power_of_ten[OF inv(1), of e] by (simp add: below_Some)
  next
    case Op_Times10
    then show ?thesis using spec multiply_small[OF inv(1) _ MultiplyByUInt32_spec[OF inv(1), of 10]] by (simp add: below_Some Times10_def)
  qed
  then show ?thesis using v by (auto simp: bn_small_def)
qed

interpretation bn: calculator bn_small bn_value bn_step calc_step
  by unfold_locales (rule bn_step_refines)

section \<open>Properties\<close>

text \<open>
  C13. Any sequence of assignments (from integers, bignums, decimal and hexadecimal strings, powers), additions,
  subtractions, squares, shifts and multiplications on a new \<^verbatim>\<open>Bignum\<close> computes the natural number that the
  operations mean, without an abort, as long as \<open>calc_step\<close> is defined: every value and every operand of type \<^verbatim>\<open>Bignum\<close>
  is below \<open>2 ^ 3556\<close>, one bigit under the capacity; integer operands are of their types and no number is subtracted
  from a smaller one; a decimal string consists of digits and is so short that \<open>10 ^ length\<close> is at most \<open>2 ^ 3556\<close>; a
  hexadecimal string consists of digits and has less than \<open>7 * 128\<close>; and for a power the base is a positive 16-bit
  integer and the bits that \<^verbatim>\<open>AssignPowerUInt16\<close> reserves, which are the bits of the odd part of the base times the
  exponent and may be more than the power has, leave two of the 128 bigits free (\<^verbatim>\<open>bignum.cc:436\<close>).
\<close>

theorem bn_run_refines:
  assumes "run_spec calc_step xs 0 = Some v"
  shows "\<exists>b. run_ops bn_step xs bn_new = Inr b \<and> bn_inv b \<and> bn_value b = v"
proof -
  have "bn_small bn_new" by (simp add: bn_small_def limit_def)
  then show ?thesis using bn.run_refines[of bn_new xs v] assms by (auto simp: bn_small_def)
qed

theorem bn_run_refines_witness:
  "\<exists>b. run_ops bn_step [Op_AssignDecimalString [49, 50], Op_MultiplyByPowerOfTen 3, Op_AddUInt64 45, Op_Square] bn_new = Inr b
     \<and> bn_inv b \<and> bn_value b = 145082025"
proof (rule bn_run_refines)
  have "(145082025::nat) < radix ^ 2" by (simp add: radix_val)
  also have "\<dots> \<le> limit" unfolding limit_def by (intro power_le_radix) (simp add: capacity)
  finally have "145082025 < limit" .
  then show "run_spec calc_step [Op_AssignDecimalString [49, 50], Op_MultiplyByPowerOfTen 3, Op_AddUInt64 45, Op_Square] 0 = Some 145082025"
    by (simp add: below_def is_dec_def dec_value_def horner_def)
qed

text \<open>
  C21. Multiplication by a 32-bit or 64-bit factor or by a power of ten and squaring, when the exponents they compute are
  of type \<^verbatim>\<open>int\<close>, either give exactly the product or abort.  \<^verbatim>\<open>MultiplyByUInt32\<close> and \<^verbatim>\<open>MultiplyByUInt64\<close> abort exactly
  when the product of the factor and the significant bigits needs more than 128 bigits; \<^verbatim>\<open>MultiplyByPowerOfTen\<close>, on a
  number and an exponent that are not 0, exactly when the product of \<open>5 ^ e\<close> and the significant bigits needs more than
  127, because its last step, the shift, reserves one bigit; \<^verbatim>\<open>Square\<close> exactly when twice the number of significant
  bigits is more than 128.  In particular no carry of \<^verbatim>\<open>MultiplyByUInt64\<close> is lost to overflow of the 64-bit arithmetic.
\<close>

theorem bn_multiply_exact:
  assumes "bn_inv b" "f < 2 ^ 32" "g < 2 ^ 64" "bn_exponent b + e div kBigitSize < 2 ^ 31" "2 * bn_exponent b < 2 ^ 31"
  shows "(if f * bval (bn_bigits b) < radix ^ kBigitCapacity
      then \<exists>b'. MultiplyByUInt32 f b = Inr b' \<and> bn_inv b' \<and> bn_value b' = f * bn_value b else MultiplyByUInt32 f b = Inl Terminate)
    \<and> (if g * bval (bn_bigits b) < radix ^ kBigitCapacity
      then \<exists>b'. MultiplyByUInt64 g b = Inr b' \<and> bn_inv b' \<and> bn_value b' = g * bn_value b else MultiplyByUInt64 g b = Inl Terminate)
    \<and> (if e = 0 \<or> bn_used_digits b = 0 \<or> 5 ^ e * bval (bn_bigits b) < radix ^ (kBigitCapacity - 1)
      then \<exists>b'. MultiplyByPowerOfTen e b = Inr b' \<and> bn_inv b' \<and> bn_value b' = bn_value b * 10 ^ e
      else MultiplyByPowerOfTen e b = Inl Terminate)
    \<and> (if 2 * bn_used_digits b \<le> kBigitCapacity
      then \<exists>b'. Square b = Inr b' \<and> bn_inv b' \<and> bn_value b' = bn_value b * bn_value b else Square b = Inl Terminate)"
proof (intro conjI)
  have scale: "bn_value b' = k * bn_value b"
    if "bval (bn_bigits b') = k * bval (bn_bigits b)" "0 < k \<longrightarrow> bn_exponent b' = bn_exponent b" for b' k
    using that by (cases "k = 0") (auto simp: bn_value_def)
  show "if f * bval (bn_bigits b) < radix ^ kBigitCapacity
      then \<exists>b'. MultiplyByUInt32 f b = Inr b' \<and> bn_inv b' \<and> bn_value b' = f * bn_value b else MultiplyByUInt32 f b = Inl Terminate"
    using MultiplyByUInt32_spec[OF assms(1,2)] scale unfolding product_fits_def by (auto split: if_splits)
  show "if g * bval (bn_bigits b) < radix ^ kBigitCapacity
      then \<exists>b'. MultiplyByUInt64 g b = Inr b' \<and> bn_inv b' \<and> bn_value b' = g * bn_value b else MultiplyByUInt64 g b = Inl Terminate"
    using MultiplyByUInt64_spec[OF assms(1,3)] scale unfolding product_fits_def by (auto split: if_splits)
  show "if e = 0 \<or> bn_used_digits b = 0 \<or> 5 ^ e * bval (bn_bigits b) < radix ^ (kBigitCapacity - 1)
      then \<exists>b'. MultiplyByPowerOfTen e b = Inr b' \<and> bn_inv b' \<and> bn_value b' = bn_value b * 10 ^ e
      else MultiplyByPowerOfTen e b = Inl Terminate"
    using MultiplyByPowerOfTen_spec[OF assms(1)] assms(4) by blast
  show "if 2 * bn_used_digits b \<le> kBigitCapacity
      then \<exists>b'. Square b = Inr b' \<and> bn_inv b' \<and> bn_value b' = bn_value b * bn_value b else Square b = Inl Terminate"
    using Square_spec[OF assms(1) _ assms(5)] Square_aborts[OF assms(1)] by auto
qed

text \<open>A full bignum, whose 128 bigits are all ones.\<close>

definition bn_full :: bignum where
  "bn_full = \<lparr>bn_bigits = replicate kBigitCapacity (radix - 1), bn_used_digits = kBigitCapacity, bn_exponent = 0\<rparr>"

lemma bval_full: "bval (replicate n (radix - 1)) + 1 = radix ^ n"
proof (induction n)
  case (Suc n)
  have "bval (replicate (Suc n) (radix - 1)) + 1 = radix * (bval (replicate n (radix - 1)) + 1)" by (simp add: algebra_simps)
  then show ?case unfolding Suc power_Suc .
qed simp

lemma bn_full_inv: "bn_inv bn_full" "bval (bn_bigits bn_full) + 1 = radix ^ kBigitCapacity"
proof -
  show v: "bval (bn_bigits bn_full) + 1 = radix ^ kBigitCapacity" by (simp only: bn_full_def bignum.select_convs bval_full)
  have "radix ^ (kBigitCapacity - 1) < radix ^ kBigitCapacity" unfolding power_less_radix by (simp add: capacity)
  then have "radix ^ (kBigitCapacity - 1) \<le> bval (bn_bigits bn_full)" using v by linarith
  moreover have "bigits_ok (bn_bigits bn_full)" by (simp add: bigits_ok_def bn_full_def)
  ultimately show "bn_inv bn_full" using v by (simp add: bn_inv_def bn_full_def)
qed

theorem bn_multiply_exact_witness:
  "MultiplyByUInt32 2 bn_full = Inl Terminate \<and> MultiplyByUInt64 2 bn_full = Inl Terminate
   \<and> MultiplyByPowerOfTen 1 bn_full = Inl Terminate \<and> Square bn_full = Inl Terminate"
proof -
  let ?B = "bval (bn_bigits bn_full)"
  have u: "bn_used_digits bn_full = kBigitCapacity" by (simp add: bn_full_def)
  have "radix ^ (kBigitCapacity - 1) < radix ^ kBigitCapacity" "1 < radix ^ kBigitCapacity"
    using power_less_radix[of "kBigitCapacity - 1" kBigitCapacity] power_less_radix[of 0 kBigitCapacity] by (simp_all add: capacity)
  then have n: "\<not> 2 * ?B < radix ^ kBigitCapacity" "\<not> 5 * ?B < radix ^ (kBigitCapacity - 1)"
    using bn_full_inv(2) by linarith+
  have "bn_exponent bn_full = 0" by (simp add: bn_full_def)
  then show ?thesis
    using bn_multiply_exact[OF bn_full_inv(1), of 2 2 1] n u by (simp add: capacity kBigitSize_def)
qed

text \<open>
  \<^verbatim>\<open>Compare\<close> and \<^verbatim>\<open>PlusCompare\<close>, with the six predicates derived from them, decide the order of the numbers and of
  a sum and a number; \<^verbatim>\<open>PlusCompare\<close> does not build the sum.
\<close>

lemma bn_compare_correct:
  assumes "bn_inv a" "bn_inv b" "bn_inv c"
  shows "bn_Compare a b = Inr (if bn_value a < bn_value b then - 1 else if bn_value a > bn_value b then 1 else 0)
    \<and> bn_Equal a b = Inr (bn_value a = bn_value b) \<and> bn_LessEqual a b = Inr (bn_value a \<le> bn_value b)
    \<and> bn_Less a b = Inr (bn_value a < bn_value b)
    \<and> bn_PlusCompare a b c = Inr (if bn_value a + bn_value b < bn_value c then - 1
        else if bn_value a + bn_value b > bn_value c then 1 else 0)
    \<and> bn_PlusEqual a b c = Inr (bn_value a + bn_value b = bn_value c)
    \<and> bn_PlusLessEqual a b c = Inr (bn_value a + bn_value b \<le> bn_value c)
    \<and> bn_PlusLess a b c = Inr (bn_value a + bn_value b < bn_value c)"
  using Compare_spec[OF assms(1,2)] PlusCompare_spec[OF assms]
  by (simp add: bn_Equal_def bn_LessEqual_def bn_Less_def bn_PlusEqual_def bn_PlusLessEqual_def bn_PlusLess_def cmp_def)

definition bn_digit :: "nat \<Rightarrow> nat \<Rightarrow> bignum" where
  "bn_digit x e = \<lparr>bn_bigits = x # replicate (kBigitCapacity - 1) 0, bn_used_digits = 1, bn_exponent = e\<rparr>"

lemma bn_digit: "0 < x \<Longrightarrow> x < radix \<Longrightarrow> bn_inv (bn_digit x e) \<and> bn_value (bn_digit x e) = x * radix ^ e"
  by (simp add: bn_inv_def bn_digit_def bn_value_def bigits_ok_def capacity)

text \<open>
  C20. \<^verbatim>\<open>DivideModuloIntBignum\<close> on clamped bignums with bigit lengths of type \<^verbatim>\<open>int\<close>, a divisor that is not 0 and a
  quotient below \<open>2 ^ 16\<close> terminates within \<open>2 ^ 16\<close> iterations of each loop.  It aborts exactly in three cases: the
  dividend has at least as many bigits as the divisor and its bigits, aligned to the exponent of the divisor, need more
  than 128; the dividend has more bigits than the divisor and the leading bigit of the divisor is below \<open>2 ^ 24\<close>
  (\<^verbatim>\<open>bignum.cc:507\<close>); the dividend has more bigits than the divisor, the remainder has fewer, and remainder and divisor
  together have more, which stops at the assertion that both numbers have the same length (\<^verbatim>\<open>bignum.cc:515\<close>).  In all
  other cases it returns the quotient and leaves the remainder.
\<close>

theorem bn_divide_correct:
  assumes "bn_inv b" "bn_inv other" "0 < bn_value other" "bn_value b div bn_value other < 2 ^ 16"
    and "BigitLength b < 2 ^ 31" "BigitLength other < 2 ^ 31" "2 ^ 16 \<le> n"
  shows "if BigitLength other \<le> BigitLength b \<and> kBigitCapacity < bn_used_digits b + (bn_exponent b - bn_exponent other)
        \<or> BigitLength other < BigitLength b \<and> bn_value other div radix ^ (BigitLength other - 1) < radix div 16
        \<or> BigitLength other < BigitLength b \<and> bn_value b mod bn_value other < radix ^ (BigitLength other - 1)
          \<and> radix ^ BigitLength other \<le> bn_value b mod bn_value other + bn_value other
      then DivideModuloIntBignum n other b = Some (Inl Terminate)
      else \<exists>b'. DivideModuloIntBignum n other b = Some (Inr (bn_value b div bn_value other, b')) \<and> bn_inv b'
        \<and> bn_value b' = bn_value b mod bn_value other"
proof (cases "BigitLength other \<le> BigitLength b \<and> \<not> align_fits b other")
  case True
  then show ?thesis using divide_align_aborts[OF assms(1-3)] align_fits_iff[OF assms(1)] by (simp add: not_le)
next
  case False
  note fits = align_fits_iff[OF assms(1), of other]
  show ?thesis
  proof (cases "BigitLength other < BigitLength b \<and> bn_value other div radix ^ (BigitLength other - 1) < radix div 16")
    case True
    then show ?thesis using divide_top_aborts[OF assms(1-3) _ _ _ assms(7)] False by simp
  next
    case top: False
    then have "\<not> (BigitLength other \<le> BigitLength b \<and> kBigitCapacity < bn_used_digits b + (bn_exponent b - bn_exponent other))"
      using False fits by (simp add: not_le)
    moreover have "BigitLength other < BigitLength b \<Longrightarrow> radix div 16 \<le> bn_value other div radix ^ (BigitLength other - 1)"
      "BigitLength other \<le> BigitLength b \<Longrightarrow> align_fits b other" using top False by auto
    ultimately show ?thesis using DivideModuloIntBignum_spec[OF assms(1-3) _ assms(4) _ assms(7)] top by presburger
  qed
qed

text \<open>A dividend of three bigits and a divisor of two: the first loop takes 5 multiples away, the division of the leading bigits 8.\<close>

theorem bn_divide_correct_witness:
  "\<exists>b'. DivideModuloIntBignum 65536 (bn_digit (3 * 2 ^ 25) 1) (bn_digit 5 2) = Some (Inr (13, b')) \<and> bn_value b' = 2 ^ 25 * radix"
proof -
  let ?b = "bn_digit 5 2" and ?d = "bn_digit (3 * 2 ^ 25) 1"
  have d: "bn_inv ?d" "bn_value ?d = 3 * 2 ^ 25 * radix" "bn_inv ?b" "bn_value ?b = 5 * radix ^ 2"
    using bn_digit[of "3 * 2 ^ 25" 1] bn_digit[of 5 2] by (simp_all add: radix_val)
  have l: "BigitLength ?d = 2" "BigitLength ?b = 3" "bn_used_digits ?b = 1" "bn_exponent ?b = 2" "bn_exponent ?d = 1"
    by (simp_all add: bn_digit_def BigitLength_def)
  have v: "bn_value ?b div bn_value ?d = 13" "bn_value ?b mod bn_value ?d = 2 ^ 25 * radix" unfolding d(2,4) by (simp_all add: radix_val)
  show ?thesis
    using bn_divide_correct[OF d(3,1), of 65536] d(2) l v by (auto simp: radix_val capacity)
qed

lemma close_divisor:
  fixes r w d :: nat
  assumes "1 < d" "w * d - w < r" "r < w * d"
  shows "(w * d) div r = 1" "w * d - r < w" "d - 1 \<le> r div w" "w * d < 2 * r"
proof -
  have "w * 2 \<le> w * d" using assms(1) by (intro mult_le_mono2) simp
  then show two: "w * d < 2 * r" using assms(2) by linarith
  then show "(w * d) div r = 1" using assms(3) by (intro div_nat_eqI) auto
  show "w * d - r < w" using assms(2,3) by linarith
  have "0 < w" using assms(3) by (cases w) auto
  moreover have "(d - 1) * w = w * d - w" by (metis diff_mult_distrib mult.commute mult_1)
  then have "(d - 1) * w \<le> r" using assms(2) by linarith
  ultimately show "d - 1 \<le> r div w" by (simp add: less_eq_div_iff_mult_less_eq)
qed

text \<open>The first loop takes one multiple away and leaves a number shorter than the divisor.\<close>

lemma divide_close_step:
  assumes "div_inv other v (0, b1)" and other: "bn_inv other" "0 < bn_value other" and v: "v div bn_value other = 1" "v < 2 * bn_value other"
    and top: "radix div 16 \<le> bn_value other div radix ^ (BigitLength other - 1)" and len: "BigitLength other < BigitLength b1"
  shows "\<exists>c. divide_longer_step other (0, b1) = Inr (1, c) \<and> bn_inv c \<and> bn_value c = v - bn_value other"
proof -
  obtain r c where rc: "divide_longer_step other (0, b1) = Inr (r, c)" "div_inv other v (r, c)" "0 < r"
    using divide_longer_step_spec[OF assms(1) other _ top len] v(1) by auto
  have "r = 1"
  proof (rule ccontr)
    assume "r \<noteq> 1"
    then have "2 * bn_value other \<le> r * bn_value other" using rc(3) by (intro mult_le_mono1) simp
    moreover have "r * bn_value other + bn_value c = v" using rc(2) by (simp add: div_inv_def)
    ultimately show False using v(2) by linarith
  qed
  then show ?thesis using rc by (auto simp: div_inv_def)
qed

text \<open>
  C32. The assertion of \<^verbatim>\<open>DivideModuloIntBignum\<close> on the lengths can fail although the quotient is 1: the dividend is
  \<open>radix ^ m\<close> and the divisor, of at least two bigits, lies within \<open>radix ^ (m - 1)\<close> under it.
\<close>

theorem bn_divide_assertion_fails:
  assumes b: "bn_inv b" "bn_value b = radix ^ m" and other: "bn_inv other" "BigitLength other = m" "2 \<le> m"
    and "radix ^ m - radix ^ (m - 1) < bn_value other" "align_fits b other" "2 ^ 16 \<le> n"
  shows "bn_value b div bn_value other = 1 \<and> DivideModuloIntBignum n other b = Some (Inl Terminate)"
proof -
  let ?w = "radix ^ (m - 1)"
  have R: "radix ^ m = ?w * radix" using other(3) by (cases m) auto
  have lt: "bn_value other < radix ^ m" using bn_value_bounds(1)[OF other(1)] other(2) by simp
  note cl = close_divisor[OF radix_pos(4) assms(6)[unfolded R] lt[unfolded R], folded R]
  have pos: "0 < bn_value other" using assms(6) by simp
  have "radix div 16 \<le> radix - 1" by (simp add: radix_val)
  then have top: "radix div 16 \<le> bn_value other div radix ^ (BigitLength other - 1)" using cl(3) other(2) by simp
  have "radix ^ m < radix ^ BigitLength b" using bn_value_bounds(1)[OF b(1)] b(2) by simp
  then have len: "m < BigitLength b" unfolding power_less_radix .
  obtain b1 where b1: "Align b other = Inr b1" "bn_inv b1" "bn_value b1 = bn_value b" "bn_exponent b1 \<le> bn_exponent other" "BigitLength b1 = BigitLength b"
    using Align_spec[OF b(1)] assms(7) unfolding align_fits_iff[OF b(1)] by blast
  have "div_inv other (radix ^ m) (0, b1)" using b1 b(2) by (simp add: div_inv_def)
  then obtain c where c: "divide_longer_step other (0, b1) = Inr (1, c)" "bn_inv c" "bn_value c = radix ^ m - bn_value other"
    using divide_close_step[OF _ other(1) pos cl(1,4) top, of b1] len b1(5) other(2) by auto
  have short: "BigitLength c < BigitLength other" using length_of_value[OF c(2), of "m - 1"] c(3) cl(2) other(2,3) by auto
  obtain k where n: "n = Suc (Suc k)" using assms(8) by (cases n; cases "n - 1") auto
  have "res_while n (\<lambda>(result, b). Inr (BigitLength b > BigitLength other)) (divide_longer_step other) (0, b1) = Some (Inr (1, c))"
    using c(1) short len b1(5) other(2) by (simp add: n)
  moreover have "divide_equal_lengths n other (1, c) = Some (Inl Terminate)" using short by (simp add: divide_equal_lengths_def ASSERT_def)
  ultimately have "DivideModuloIntBignum n other b = Some (Inl Terminate)"
    using len other(2) b1(1) used_of_value[OF other(1) pos]
    by (simp add: DivideModuloIntBignum_def IsClamped_inv[OF b(1)] IsClamped_inv[OF other(1)] ASSERT_def)
  then show ?thesis using cl(1) b(2) by simp
qed

definition bn_two_nines :: bignum where
  "bn_two_nines = \<lparr>bn_bigits = (radix - 1) # (radix - 1) # replicate (kBigitCapacity - 2) 0, bn_used_digits = 2, bn_exponent = 0\<rparr>"

lemma bn_two_nines: "bn_inv bn_two_nines" "bn_value bn_two_nines = radix ^ 2 - 1" "BigitLength bn_two_nines = 2"
  by (simp_all add: bn_inv_def bn_two_nines_def bn_value_def BigitLength_def bigits_ok_def capacity radix_val)

theorem bn_divide_assertion_fails_witness:
  "bn_value (bn_digit 1 2) div bn_value bn_two_nines = 1
   \<and> DivideModuloIntBignum 65536 bn_two_nines (bn_digit 1 2) = Some (Inl Terminate)"
proof -
  have "align_fits (bn_digit 1 2) bn_two_nines" by (simp add: align_fits_def BigitLength_def bn_digit_def bn_two_nines_def capacity)
  then show ?thesis
    using bn_divide_assertion_fails[of "bn_digit 1 2" 2 bn_two_nines 65536] bn_digit[of 1 2] bn_two_nines by (simp add: radix_val)
qed

text \<open>
  \<^verbatim>\<open>AssignPowerUInt16\<close> computes \<open>base ^ p\<close>, in 64-bit arithmetic as long as it can and with squares and delayed
  multiplications behind that, or aborts exactly when the reserved size, the bits of the odd part of the base times
  the exponent, exceeds the capacity less two bigits.
\<close>

lemma bn_power_exact:
  assumes "bn_inv b" "0 < base" "base < 2 ^ 16" "bit_size_loop (fst (strip_loop base 0)) 0 * p < 2 ^ 31"
  shows "if p = 0 \<or> bit_size_loop (fst (strip_loop base 0)) 0 * p div kBigitSize + 2 \<le> kBigitCapacity
    then \<exists>b'. AssignPowerUInt16 base p b = Inr b' \<and> bn_inv b' \<and> bn_value b' = base ^ p
    else AssignPowerUInt16 base p b = Inl Terminate"
  using AssignPowerUInt16_spec[OF assms(1-3)] assms(4) unfolding power_bits_def by blast

text \<open>
  \<^verbatim>\<open>ToHexString\<close> into a buffer of \<open>7 * BigitLength + 2\<close> characters or more succeeds, and \<^verbatim>\<open>AssignHexString\<close> of the
  text up to the null character gives the same number, for numbers below the full length.
\<close>

lemma bn_hex_roundtrip:
  assumes "bn_inv b" "BigitLength b < kBigitCapacity" "bn_inv c" "7 * BigitLength b + 2 \<le> buffer_size" "buffer_size \<le> length buffer"
  shows "\<exists>buf b'. ToHexString b buffer buffer_size = Inr (True, buf)
    \<and> AssignHexString (takeWhile (\<lambda>x. x \<noteq> 0) buf) c = Inr b' \<and> bn_inv b' \<and> bn_value b' = bn_value b \<and> bn_Equal b' b = Inr True"
proof -
  let ?cs = "hex_text (bn_value b)"
  have len: "length ?cs \<le> max 1 (7 * BigitLength b)" by (rule hex_text_length[OF assms(1)])
  have "max 1 (7 * BigitLength b) \<le> 7 * BigitLength b + 1" by simp
  then have fits: "length ?cs + 1 \<le> buffer_size" using assms(4) len by linarith
  have "\<forall>x \<in> set ?cs. x \<noteq> 0" using hex_text_value(2)[of "bn_value b"] by (force simp: is_hex_def)
  then have tw: "takeWhile (\<lambda>x. x \<noteq> 0) (?cs @ [0] @ drop (length ?cs + 1) buffer) = ?cs" by (simp add: takeWhile_append2)
  have "length ?cs div 7 < kBigitCapacity"
    using len assms(2) by (cases "BigitLength b = 0") (auto simp: capacity)
  then obtain b' where b': "AssignHexString ?cs c = Inr b'" "bn_inv b'" "bn_value b' = bn_value b"
    using AssignHexString_spec[OF assms(3) hex_text_value(2)[of "bn_value b"]] hex_text_value(1)[of "bn_value b"] by auto
  have "bn_Equal b' b = Inr True" using Compare_spec[OF b'(2) assms(1)] b'(3) by (simp add: bn_Equal_def cmp_def)
  then show ?thesis using ToHexString_spec[OF assms(1,5)] fits tw b' by auto
qed

end
