(* ===== verification/Ieee.thy ===== *)
theory Ieee
  imports Bignum "HOL-Library.While_Combinator" Complex_Main
begin

text \<open>
  \<^verbatim>\<open>double-conversion/ieee.h\<close>, \<^verbatim>\<open>diy-fp.h\<close> and \<^verbatim>\<open>diy-fp.cc\<close>: the bit fields of doubles and floats, the neighbours of a double,
  its boundaries, and the floating-point numbers with a 64-bit significand used by the conversions.

  \<^item> A \<^verbatim>\<open>double\<close> is its bit pattern, a \<open>64 word\<close>, and a \<^verbatim>\<open>float\<close> a \<open>32 word\<close>: \<^verbatim>\<open>BitCast\<close> is the identity.
    \<open>dbl_value\<close> and \<open>flt_value\<close> read a finite pattern as a real number.
  \<^item> \<^verbatim>\<open>DiyFp\<close> is a record of a \<open>64 word\<close> and an integer; exponents stay far inside the range of \<^verbatim>\<open>int\<close>.
  \<^item> A loop that runs until a bit of the significand is set does not end on the significand 0: it is a \<open>while_option\<close>, and not
    returning is \<open>None\<close>.  The loops that always end are total functions.
\<close>

unbundle bit_operations_syntax

section \<open>DiyFp\<close>

record DiyFp =
  diy_f :: "64 word"
  diy_e :: int

definition DiyFp_kSignificandSize :: int where
  "DiyFp_kSignificandSize = 64"

definition DiyFp_Subtract :: "DiyFp \<Rightarrow> DiyFp \<Rightarrow> DiyFp res" where
  "DiyFp_Subtract this other =
     bindE (ASSERT (diy_e this = diy_e other)) (\<lambda>_.
     bindE (ASSERT (diy_f this \<ge> diy_f other)) (\<lambda>_.
     Inr (this\<lparr>diy_f := diy_f this - diy_f other\<rparr>)))"

definition DiyFp_Minus :: "DiyFp \<Rightarrow> DiyFp \<Rightarrow> DiyFp res" where
  "DiyFp_Minus a b = DiyFp_Subtract a b"

definition DiyFp_Multiply :: "DiyFp \<Rightarrow> DiyFp \<Rightarrow> DiyFp" where
  "DiyFp_Multiply this other =
     (let kM32 = 0xFFFFFFFF;
          a = drop_bit 32 (diy_f this);
          b = diy_f this AND kM32;
          c = drop_bit 32 (diy_f other);
          d = diy_f other AND kM32;
          ac = a * c;
          bc = b * c;
          ad = a * d;
          bd = b * d;
          tmp = drop_bit 32 bd + (ad AND kM32) + (bc AND kM32);
          tmp' = tmp + push_bit 31 1;
          result_f = ac + drop_bit 32 ad + drop_bit 32 bc + drop_bit 32 tmp'
      in \<lparr>diy_f = result_f, diy_e = diy_e this + (diy_e other + 64)\<rparr>)"

definition DiyFp_Times :: "DiyFp \<Rightarrow> DiyFp \<Rightarrow> DiyFp" where
  "DiyFp_Times a b = DiyFp_Multiply a b"

text \<open>\<^verbatim>\<open>while ((f & mask) == 0) { f <<= n; e -= n; }\<close>\<close>

definition shift_until :: "64 word \<Rightarrow> nat \<Rightarrow> 64 word \<times> int \<Rightarrow> (64 word \<times> int) option" where
  "shift_until msk n = while_option (\<lambda>(f, e). f AND msk = 0) (\<lambda>(f, e). (push_bit n f, e - int n))"

definition kUint64MSB :: "64 word" where
  "kUint64MSB = 0x8000000000000000"

definition k10MSBits :: "64 word" where
  "k10MSBits = 0xFFC0000000000000"

definition DiyFp_Normalize :: "DiyFp \<Rightarrow> DiyFp res option" where
  "DiyFp_Normalize this =
     bindO (Some (ASSERT (diy_f this \<noteq> 0))) (\<lambda>_.
     case shift_until k10MSBits 10 (diy_f this, diy_e this) of
       None \<Rightarrow> None
     | Some s \<Rightarrow> (case shift_until kUint64MSB 1 s of
           None \<Rightarrow> None
         | Some (f, e) \<Rightarrow> Some (Inr \<lparr>diy_f = f, diy_e = e\<rparr>)))"

section \<open>Double\<close>

definition Double_kSignMask :: "64 word" where
  "Double_kSignMask = 0x8000000000000000"

definition Double_kExponentMask :: "64 word" where
  "Double_kExponentMask = 0x7FF0000000000000"

definition Double_kSignificandMask :: "64 word" where
  "Double_kSignificandMask = 0x000FFFFFFFFFFFFF"

definition Double_kHiddenBit :: "64 word" where
  "Double_kHiddenBit = 0x0010000000000000"

definition Double_kPhysicalSignificandSize :: nat where
  "Double_kPhysicalSignificandSize = 52"

definition Double_kSignificandSize :: nat where
  "Double_kSignificandSize = 53"

definition Double_kExponentBias :: int where
  "Double_kExponentBias = 0x3FF + int Double_kPhysicalSignificandSize"

definition Double_kDenormalExponent :: int where
  "Double_kDenormalExponent = - Double_kExponentBias + 1"

definition Double_kMaxExponent :: int where
  "Double_kMaxExponent = 0x7FF - Double_kExponentBias"

definition Double_kInfinity :: "64 word" where
  "Double_kInfinity = 0x7FF0000000000000"

definition Double_kNaN :: "64 word" where
  "Double_kNaN = 0x7FF8000000000000"

definition Double_IsDenormal :: "64 word \<Rightarrow> bool" where
  "Double_IsDenormal d64 \<longleftrightarrow> d64 AND Double_kExponentMask = 0"

definition Double_IsSpecial :: "64 word \<Rightarrow> bool" where
  "Double_IsSpecial d64 \<longleftrightarrow> d64 AND Double_kExponentMask = Double_kExponentMask"

definition Double_IsNan :: "64 word \<Rightarrow> bool" where
  "Double_IsNan d64 \<longleftrightarrow> d64 AND Double_kExponentMask = Double_kExponentMask \<and> d64 AND Double_kSignificandMask \<noteq> 0"

definition Double_IsInfinite :: "64 word \<Rightarrow> bool" where
  "Double_IsInfinite d64 \<longleftrightarrow> d64 AND Double_kExponentMask = Double_kExponentMask \<and> d64 AND Double_kSignificandMask = 0"

definition Double_Sign :: "64 word \<Rightarrow> int" where
  "Double_Sign d64 = (if d64 AND Double_kSignMask = 0 then 1 else - 1)"

definition Double_Exponent :: "64 word \<Rightarrow> int" where
  "Double_Exponent d64 =
     (if Double_IsDenormal d64 then Double_kDenormalExponent
      else let biased_e = int (unat (drop_bit Double_kPhysicalSignificandSize (d64 AND Double_kExponentMask)))
           in biased_e - Double_kExponentBias)"

definition Double_Significand :: "64 word \<Rightarrow> 64 word" where
  "Double_Significand d64 =
     (let significand = d64 AND Double_kSignificandMask in
      if \<not> Double_IsDenormal d64 then significand + Double_kHiddenBit else significand)"

text \<open>The comparison \<^verbatim>\<open>d > 0.0\<close>: false for zeros, NaNs and negative numbers.\<close>

definition dbl_positive :: "64 word \<Rightarrow> bool" where
  "dbl_positive d64 \<longleftrightarrow> Double_Sign d64 > 0 \<and> \<not> Double_IsNan d64 \<and> d64 \<noteq> 0"

definition Double_AsDiyFp :: "64 word \<Rightarrow> DiyFp res" where
  "Double_AsDiyFp d64 =
     bindE (ASSERT (Double_Sign d64 > 0)) (\<lambda>_.
     bindE (ASSERT (\<not> Double_IsSpecial d64)) (\<lambda>_.
     Inr \<lparr>diy_f = Double_Significand d64, diy_e = Double_Exponent d64\<rparr>))"

definition Double_AsNormalizedDiyFp :: "64 word \<Rightarrow> DiyFp res option" where
  "Double_AsNormalizedDiyFp d64 =
     bindO (Some (ASSERT (dbl_positive d64))) (\<lambda>_.
     case shift_until Double_kHiddenBit 1 (Double_Significand d64, Double_Exponent d64) of
       None \<Rightarrow> None
     | Some (f, e) \<Rightarrow>
         let n = nat DiyFp_kSignificandSize - Double_kSignificandSize
         in Some (Inr \<lparr>diy_f = push_bit n f, diy_e = e - int n\<rparr>))"

definition Double_NextDouble :: "64 word \<Rightarrow> 64 word" where
  "Double_NextDouble d64 =
     (if d64 = Double_kInfinity then Double_kInfinity
      else if Double_Sign d64 < 0 \<and> Double_Significand d64 = 0 then 0
      else if Double_Sign d64 < 0 then d64 - 1
      else d64 + 1)"

definition Double_PreviousDouble :: "64 word \<Rightarrow> 64 word" where
  "Double_PreviousDouble d64 =
     (if d64 = Double_kInfinity OR Double_kSignMask then Double_kInfinity OR Double_kSignMask
      else if Double_Sign d64 < 0 then d64 + 1
      else if Double_Significand d64 = 0 then Double_kSignMask
      else d64 - 1)"

definition Double_UpperBoundary :: "64 word \<Rightarrow> DiyFp res" where
  "Double_UpperBoundary d64 =
     bindE (ASSERT (Double_Sign d64 > 0)) (\<lambda>_.
     Inr \<lparr>diy_f = Double_Significand d64 * 2 + 1, diy_e = Double_Exponent d64 - 1\<rparr>)"

definition Double_LowerBoundaryIsCloser :: "64 word \<Rightarrow> bool" where
  "Double_LowerBoundaryIsCloser d64 \<longleftrightarrow>
     d64 AND Double_kSignificandMask = 0 \<and> Double_Exponent d64 \<noteq> Double_kDenormalExponent"

text \<open>The body of \<^verbatim>\<open>NormalizedBoundaries\<close>, the same for both formats: the boundaries \<open>m_minus\<close> and \<open>m_plus\<close> of \<open>v\<close>.\<close>

definition normalized_boundaries :: "DiyFp \<Rightarrow> bool \<Rightarrow> (DiyFp \<times> DiyFp) res option" where
  "normalized_boundaries v closer =
     bindO (DiyFp_Normalize \<lparr>diy_f = push_bit 1 (diy_f v) + 1, diy_e = diy_e v - 1\<rparr>) (\<lambda>m_plus.
     let m_minus = (if closer then \<lparr>diy_f = push_bit 2 (diy_f v) - 1, diy_e = diy_e v - 2\<rparr>
                    else \<lparr>diy_f = push_bit 1 (diy_f v) - 1, diy_e = diy_e v - 1\<rparr>)
     in Some (Inr (\<lparr>diy_f = push_bit (nat (diy_e m_minus - diy_e m_plus)) (diy_f m_minus), diy_e = diy_e m_plus\<rparr>, m_plus)))"

definition Double_NormalizedBoundaries :: "64 word \<Rightarrow> (DiyFp \<times> DiyFp) res option" where
  "Double_NormalizedBoundaries d64 =
     bindO (Some (ASSERT (dbl_positive d64))) (\<lambda>_.
     bindO (Some (Double_AsDiyFp d64)) (\<lambda>v.
     normalized_boundaries v (Double_LowerBoundaryIsCloser d64)))"

definition SignificandSizeForOrderOfMagnitude :: "int \<Rightarrow> int" where
  "SignificandSizeForOrderOfMagnitude order =
     (if order \<ge> Double_kDenormalExponent + int Double_kSignificandSize then int Double_kSignificandSize
      else if order \<le> Double_kDenormalExponent then 0
      else order - Double_kDenormalExponent)"

text \<open>The two loops of \<^verbatim>\<open>DiyFpToUint64\<close>.\<close>

function shrink_loop :: "64 word \<Rightarrow> int \<Rightarrow> 64 word \<times> int" where
  "shrink_loop significand ex =
     (if significand > Double_kHiddenBit + Double_kSignificandMask
      then shrink_loop (drop_bit 1 significand) (ex + 1) else (significand, ex))"
  by auto

termination
proof (relation "measure (\<lambda>(f, e). unat f)", goal_cases)
  case (2 f e)
  then have "f \<noteq> 0" by auto
  then have "0 < unat f" by (simp add: unat_gt_0)
  then show ?case by (simp add: unat_div drop_bit_Suc)
qed simp

function grow_loop :: "64 word \<Rightarrow> int \<Rightarrow> 64 word \<times> int" where
  "grow_loop significand ex =
     (if ex > Double_kDenormalExponent \<and> significand AND Double_kHiddenBit = 0
      then grow_loop (push_bit 1 significand) (ex - 1) else (significand, ex))"
  by auto
termination by (relation "measure (\<lambda>(f, e). nat (e - Double_kDenormalExponent))") auto

declare shrink_loop.simps [simp del] grow_loop.simps [simp del]

definition DiyFpToUint64 :: "DiyFp \<Rightarrow> 64 word" where
  "DiyFpToUint64 diy_fp =
     (let (significand, ex) = shrink_loop (diy_f diy_fp) (diy_e diy_fp) in
      if ex \<ge> Double_kMaxExponent then Double_kInfinity
      else if ex < Double_kDenormalExponent then 0
      else let (significand', ex') = grow_loop significand ex;
               biased_exponent =
                 (if ex' = Double_kDenormalExponent \<and> significand' AND Double_kHiddenBit = 0 then 0
                  else word_of_int (ex' + Double_kExponentBias))
           in (significand' AND Double_kSignificandMask) OR push_bit Double_kPhysicalSignificandSize biased_exponent)"

section \<open>Single\<close>

definition Single_kSignMask :: "32 word" where
  "Single_kSignMask = 0x80000000"

definition Single_kExponentMask :: "32 word" where
  "Single_kExponentMask = 0x7F800000"

definition Single_kSignificandMask :: "32 word" where
  "Single_kSignificandMask = 0x007FFFFF"

definition Single_kHiddenBit :: "32 word" where
  "Single_kHiddenBit = 0x00800000"

definition Single_kPhysicalSignificandSize :: nat where
  "Single_kPhysicalSignificandSize = 23"

definition Single_kSignificandSize :: nat where
  "Single_kSignificandSize = 24"

definition Single_kExponentBias :: int where
  "Single_kExponentBias = 0x7F + int Single_kPhysicalSignificandSize"

definition Single_kDenormalExponent :: int where
  "Single_kDenormalExponent = - Single_kExponentBias + 1"

definition Single_kInfinity :: "32 word" where
  "Single_kInfinity = 0x7F800000"

definition Single_kNaN :: "32 word" where
  "Single_kNaN = 0x7FC00000"

definition Single_IsDenormal :: "32 word \<Rightarrow> bool" where
  "Single_IsDenormal d32 \<longleftrightarrow> d32 AND Single_kExponentMask = 0"

definition Single_IsSpecial :: "32 word \<Rightarrow> bool" where
  "Single_IsSpecial d32 \<longleftrightarrow> d32 AND Single_kExponentMask = Single_kExponentMask"

definition Single_IsNan :: "32 word \<Rightarrow> bool" where
  "Single_IsNan d32 \<longleftrightarrow> d32 AND Single_kExponentMask = Single_kExponentMask \<and> d32 AND Single_kSignificandMask \<noteq> 0"

definition Single_IsInfinite :: "32 word \<Rightarrow> bool" where
  "Single_IsInfinite d32 \<longleftrightarrow> d32 AND Single_kExponentMask = Single_kExponentMask \<and> d32 AND Single_kSignificandMask = 0"

definition Single_Sign :: "32 word \<Rightarrow> int" where
  "Single_Sign d32 = (if d32 AND Single_kSignMask = 0 then 1 else - 1)"

definition Single_Exponent :: "32 word \<Rightarrow> int" where
  "Single_Exponent d32 =
     (if Single_IsDenormal d32 then Single_kDenormalExponent
      else let biased_e = int (unat (drop_bit Single_kPhysicalSignificandSize (d32 AND Single_kExponentMask)))
           in biased_e - Single_kExponentBias)"

definition Single_Significand :: "32 word \<Rightarrow> 32 word" where
  "Single_Significand d32 =
     (let significand = d32 AND Single_kSignificandMask in
      if \<not> Single_IsDenormal d32 then significand + Single_kHiddenBit else significand)"

definition flt_positive :: "32 word \<Rightarrow> bool" where
  "flt_positive d32 \<longleftrightarrow> Single_Sign d32 > 0 \<and> \<not> Single_IsNan d32 \<and> d32 \<noteq> 0"

definition Single_AsDiyFp :: "32 word \<Rightarrow> DiyFp res" where
  "Single_AsDiyFp d32 =
     bindE (ASSERT (Single_Sign d32 > 0)) (\<lambda>_.
     bindE (ASSERT (\<not> Single_IsSpecial d32)) (\<lambda>_.
     Inr \<lparr>diy_f = ucast (Single_Significand d32), diy_e = Single_Exponent d32\<rparr>))"

definition Single_UpperBoundary :: "32 word \<Rightarrow> DiyFp res" where
  "Single_UpperBoundary d32 =
     bindE (ASSERT (Single_Sign d32 > 0)) (\<lambda>_.
     Inr \<lparr>diy_f = ucast (Single_Significand d32 * 2 + 1), diy_e = Single_Exponent d32 - 1\<rparr>)"

definition Single_LowerBoundaryIsCloser :: "32 word \<Rightarrow> bool" where
  "Single_LowerBoundaryIsCloser d32 \<longleftrightarrow>
     d32 AND Single_kSignificandMask = 0 \<and> Single_Exponent d32 \<noteq> Single_kDenormalExponent"

definition Single_NormalizedBoundaries :: "32 word \<Rightarrow> (DiyFp \<times> DiyFp) res option" where
  "Single_NormalizedBoundaries d32 =
     bindO (Some (ASSERT (flt_positive d32))) (\<lambda>_.
     bindO (Some (Single_AsDiyFp d32)) (\<lambda>v.
     normalized_boundaries v (Single_LowerBoundaryIsCloser d32)))"

section \<open>Values\<close>

text \<open>The real number of a finite pattern, and of a \<^verbatim>\<open>DiyFp\<close>.\<close>

definition dbl_value :: "64 word \<Rightarrow> real" where
  "dbl_value d64 = of_int (Double_Sign d64) * real (unat (Double_Significand d64)) * 2 powi Double_Exponent d64"

definition flt_value :: "32 word \<Rightarrow> real" where
  "flt_value d32 = of_int (Single_Sign d32) * real (unat (Single_Significand d32)) * 2 powi Single_Exponent d32"

definition diy_value :: "DiyFp \<Rightarrow> real" where
  "diy_value x = real (unat (diy_f x)) * 2 powi diy_e x"

end
