(* ===== verification/Ieee_Correct.thy ===== *)
theory Ieee_Correct
  imports Ieee Word_Fields
begin

text \<open>
  The bit fields as arithmetic, the value of a double, its neighbours and boundaries, and the operations on \<open>DiyFp\<close>.
\<close>

unbundle bit_operations_syntax

section \<open>Masks\<close>

lemma double_masks:
  "Double_kSignificandMask = mask 52" "Double_kExponentMask = push_bit 52 (mask 11)" "Double_kSignMask = push_bit 63 (mask 1)"
  "Double_kHiddenBit = push_bit 52 1" "Double_kInfinity = push_bit 52 (mask 11)"
  by (simp_all add: Double_kSignificandMask_def Double_kExponentMask_def Double_kSignMask_def Double_kHiddenBit_def Double_kInfinity_def
      mask_eq_exp_minus_1 push_bit_eq_mult)

lemma single_masks:
  "Single_kSignificandMask = mask 23" "Single_kExponentMask = push_bit 23 (mask 8)" "Single_kSignMask = push_bit 31 (mask 1)"
  "Single_kHiddenBit = push_bit 23 1" "Single_kInfinity = push_bit 23 (mask 8)"
  by (simp_all add: Single_kSignificandMask_def Single_kExponentMask_def Single_kSignMask_def Single_kHiddenBit_def Single_kInfinity_def
      mask_eq_exp_minus_1 push_bit_eq_mult)

section \<open>The fields of a double\<close>

abbreviation dbl_mant :: "64 word \<Rightarrow> nat" where
  "dbl_mant d \<equiv> unat d mod 2 ^ 52"

abbreviation dbl_exp :: "64 word \<Rightarrow> nat" where
  "dbl_exp d \<equiv> unat d div 2 ^ 52 mod 2 ^ 11"

lemma Double_fields:
  "Double_IsDenormal d \<longleftrightarrow> dbl_exp d = 0"
  "Double_IsSpecial d \<longleftrightarrow> dbl_exp d = 2047"
  "Double_Sign d = (if unat d < 2 ^ 63 then 1 else - 1)"
  "unat (Double_Significand d) = dbl_mant d + (if dbl_exp d = 0 then 0 else 2 ^ 52)"
  "Double_Exponent d = (if dbl_exp d = 0 then - 1074 else int (dbl_exp d) - 1075)"
proof -
  have e: "unat (drop_bit 52 (d AND push_bit 52 (mask 11))) = dbl_exp d" by (simp only: field_drop field_unat)
  show den: "Double_IsDenormal d \<longleftrightarrow> dbl_exp d = 0"
    unfolding Double_IsDenormal_def double_masks by (rule field_zero_iff) simp
  show "Double_IsSpecial d \<longleftrightarrow> dbl_exp d = 2047"
    unfolding Double_IsSpecial_def double_masks using field_full_iff[of 52 11 d] by simp
  have "unat d < 2 ^ 64" using unsigned_less[of d] by simp
  then have "unat d div 2 ^ 63 mod 2 ^ 1 = 0 \<longleftrightarrow> unat d < 2 ^ 63" by auto
  then show "Double_Sign d = (if unat d < 2 ^ 63 then 1 else - 1)"
    unfolding Double_Sign_def double_masks using field_zero_iff[of 63 1 d] by simp
  show "Double_Exponent d = (if dbl_exp d = 0 then - 1074 else int (dbl_exp d) - 1075)"
    unfolding Double_Exponent_def den using e
    by (simp add: double_masks Double_kDenormalExponent_def Double_kExponentBias_def Double_kPhysicalSignificandSize_def)
  have low: "unat (d AND mask 52) = dbl_mant d" by (rule unat_low)
  have "unat ((d AND mask 52) + push_bit 52 1) = dbl_mant d + 2 ^ 52"
    using low by (subst unat_add_lem[THEN iffD1]) (simp_all add: push_bit_eq_mult)
  then show "unat (Double_Significand d) = dbl_mant d + (if dbl_exp d = 0 then 0 else 2 ^ 52)"
    unfolding Double_Significand_def den Let_def double_masks using low by simp
qed


lemma dbl_split:
  assumes "unat d < 2 ^ 63"
  shows "unat d = dbl_exp d * 2 ^ 52 + dbl_mant d" "dbl_exp d < 2048" "dbl_mant d < 2 ^ 52" "dbl_exp d = unat d div 2 ^ 52"
proof -
  have "unat d div 2 ^ 52 < 2 ^ 11" using assms by (simp add: less_mult_imp_div_less)
  then have e: "dbl_exp d = unat d div 2 ^ 52" by simp
  then show "unat d = dbl_exp d * 2 ^ 52 + dbl_mant d" unfolding e by (simp only: div_mult_mod_eq)
  show "dbl_exp d = unat d div 2 ^ 52" by (rule e)
qed simp_all

lemma digit_less_iff: "m < p \<Longrightarrow> e * p + m < k * p \<longleftrightarrow> e < k" for m p e k :: nat
  by (metis add_less_cancel_left div_less div_mult_self3 less_nat_zero_code mult.commute add.commute mult_0 add_cancel_right_left div_less_iff_less_mult gr_zeroI)

text \<open>A finite, positive double.\<close>

definition dbl_finite_pos :: "64 word \<Rightarrow> bool" where
  "dbl_finite_pos d \<longleftrightarrow> 0 < unat d \<and> unat d < 2047 * 2 ^ 52"

lemma dbl_finite_pos_iff: "dbl_finite_pos d \<longleftrightarrow> dbl_positive d \<and> \<not> Double_IsSpecial d"
proof (cases "unat d < 2 ^ 63")
  case True
  note s = dbl_split[OF this]
  have "unat d < 2047 * 2 ^ 52 \<longleftrightarrow> dbl_exp d < 2047" by (subst s(1)) (rule digit_less_iff[OF s(3)])
  then have "unat d < 2047 * 2 ^ 52 \<longleftrightarrow> dbl_exp d \<noteq> 2047" using s(2) by linarith
  moreover have "Double_IsNan d \<Longrightarrow> Double_IsSpecial d" by (simp add: Double_IsNan_def Double_IsSpecial_def)
  ultimately show ?thesis using True unat_gt_0[of d] unfolding dbl_finite_pos_def dbl_positive_def Double_fields(2,3) by auto
qed (auto simp: dbl_finite_pos_def dbl_positive_def Double_fields)


section \<open>Neighbours and boundaries\<close>

lemma powi_pos [simp]: "0 < (2::real) powi e"
  by (simp add: zero_less_power_int)

lemma powi_succ: "(2::real) powi (e + 1) = 2 * 2 powi e" "(2::real) powi e = 2 * 2 powi (e - 1)"
  by (simp_all add: power_int_add power_int_diff)

abbreviation sgnf :: "64 word \<Rightarrow> nat" where
  "sgnf d \<equiv> unat (Double_Significand d)"

lemma dbl_value_nonneg: "unat d < 2 ^ 63 \<Longrightarrow> dbl_value d = real (sgnf d) * 2 powi Double_Exponent d"
  by (simp add: dbl_value_def Double_fields(3))

lemma dbl_parts:
  assumes "dbl_finite_pos d"
  shows "unat d < 2 ^ 63" "0 < sgnf d" "sgnf d < 2 ^ 53" "- 1074 \<le> Double_Exponent d" "Double_Exponent d \<le> 971"
    "- 1074 < Double_Exponent d \<Longrightarrow> 2 ^ 52 \<le> sgnf d" "Double_Sign d = 1"
proof -
  show u: "unat d < 2 ^ 63" using assms by (simp add: dbl_finite_pos_def)
  note s = dbl_split[OF u]
  have "dbl_exp d < 2047" using assms s(3) by (subst (asm) dbl_finite_pos_def, subst (asm) (2) s(1)) (simp only: digit_less_iff)
  then show "Double_Exponent d \<le> 971" "- 1074 \<le> Double_Exponent d" by (auto simp: Double_fields(5))
  show "- 1074 < Double_Exponent d \<Longrightarrow> 2 ^ 52 \<le> sgnf d" by (auto simp: Double_fields(4,5) split: if_splits)
  show "sgnf d < 2 ^ 53" using s(3) by (auto simp: Double_fields(4))
  have "dbl_exp d = 0 \<Longrightarrow> dbl_mant d = unat d" using s(1) by simp
  then show "0 < sgnf d" using assms by (auto simp: Double_fields(4) dbl_finite_pos_def)
  show "Double_Sign d = 1" using u by (simp add: Double_fields(3))
qed

lemma unat_Suc: "unat d < 2 ^ 64 - 1 \<Longrightarrow> unat (d + 1) = unat d + 1" for d :: "64 word"
  by (subst unat_add_lem[THEN iffD1]) simp_all

text \<open>The fields of the next pattern.\<close>

lemma succ_fields:
  assumes "unat d < 2047 * 2 ^ 52"
  shows "dbl_mant d + 1 < 2 ^ 52 \<Longrightarrow> dbl_exp (d + 1) = dbl_exp d \<and> dbl_mant (d + 1) = dbl_mant d + 1"
    and "dbl_mant d + 1 = 2 ^ 52 \<Longrightarrow> dbl_exp (d + 1) = dbl_exp d + 1 \<and> dbl_mant (d + 1) = 0"
proof -
  have u: "unat d < 2 ^ 63" "unat (d + 1) = unat d + 1" "unat (d + 1) < 2 ^ 63" using assms by (simp_all add: unat_Suc)
  note s = dbl_split[OF u(1)]
  have q: "unat (d + 1) = dbl_exp d * 2 ^ 52 + (dbl_mant d + 1)" using s(1) u(2) by linarith
  show "dbl_exp (d + 1) = dbl_exp d \<and> dbl_mant (d + 1) = dbl_mant d + 1" if "dbl_mant d + 1 < 2 ^ 52"
    using that by (simp only: dbl_split(4)[OF u(3)], simp only: q) simp
  show "dbl_exp (d + 1) = dbl_exp d + 1 \<and> dbl_mant (d + 1) = 0" if "dbl_mant d + 1 = 2 ^ 52"
    by (simp only: dbl_split(4)[OF u(3)], simp only: q that) simp
qed

lemma value_succ:
  assumes "unat d < 2047 * 2 ^ 52"
  shows "dbl_value (d + 1) = (real (sgnf d) + 1) * 2 powi Double_Exponent d"
proof -
  have u: "unat d < 2 ^ 63" "unat (d + 1) < 2 ^ 63" using assms by (simp_all add: unat_Suc)
  have "dbl_mant d < 2 ^ 52" by simp
  then consider "dbl_mant d + 1 < 2 ^ 52" | "dbl_mant d + 1 = 2 ^ 52" by linarith
  then show ?thesis
  proof cases
    case 1
    note f = succ_fields(1)[OF assms 1]
    show ?thesis unfolding dbl_value_nonneg[OF u(2)] Double_fields(4,5) using f by simp
  next
    case 2
    note f = succ_fields(2)[OF assms 2]
    have "real (dbl_mant d) + 1 = 2 ^ 52" using 2 by (metis of_nat_1 of_nat_add of_nat_numeral of_nat_power)
    then show ?thesis unfolding dbl_value_nonneg[OF u(2)] Double_fields(4,5) using f powi_succ(1)[of "int (dbl_exp d) - 1075"]
      by (auto simp: algebra_simps)
  qed
qed


lemma value_next: "unat d < 2047 * 2 ^ 52 \<Longrightarrow> dbl_value (d + 1) = dbl_value d + 2 powi Double_Exponent d"
  using dbl_value_nonneg[of d] by (simp add: value_succ distrib_right)

lemma value_less_succ: "unat d < 2047 * 2 ^ 52 \<Longrightarrow> dbl_value d < dbl_value (d + 1)"
  by (simp add: value_next)

lemma value_strict_mono:
  assumes "unat a < unat b" "unat b \<le> 2047 * 2 ^ 52"
  shows "dbl_value a < dbl_value b"
  using assms
proof (induction "unat b - unat a" arbitrary: a)
  case (Suc n)
  have a: "unat a < 2047 * 2 ^ 52" using Suc.prems by linarith
  then have u: "unat (a + 1) = unat a + 1" by (simp add: unat_Suc)
  show ?case
  proof (cases "unat a + 1 = unat b")
    case True
    then have "b = a + 1" using u by (simp add: word_unat_eq_iff)
    then show ?thesis using value_less_succ[OF a] by simp
  next
    case False
    then show ?thesis using Suc.hyps(1)[of "a + 1"] Suc.hyps(2) Suc.prems u value_less_succ[OF a] by linarith
  qed
qed simp

lemma value_mono: "unat a \<le> unat b \<Longrightarrow> unat b \<le> 2047 * 2 ^ 52 \<Longrightarrow> dbl_value a \<le> dbl_value b"
  using value_strict_mono[of a b] word_unat_eq_iff[of a b] by fastforce

lemma value_less_iff:
  "unat a \<le> 2047 * 2 ^ 52 \<Longrightarrow> unat b \<le> 2047 * 2 ^ 52 \<Longrightarrow> dbl_value a < dbl_value b \<longleftrightarrow> unat a < unat b"
  using value_strict_mono[of a b] value_mono[of b a] by linarith

lemma NextDouble_finite: "unat d < 2047 * 2 ^ 52 \<Longrightarrow> Double_NextDouble d = d + 1"
  by (auto simp: Double_NextDouble_def Double_fields(3) Double_kInfinity_def)

lemma PreviousDouble_finite: "dbl_finite_pos d \<Longrightarrow> Double_PreviousDouble d = d - 1"
  using dbl_parts[of d]
  by (auto simp: Double_PreviousDouble_def Double_kInfinity_def Double_kSignMask_def dbl_finite_pos_def)

lemma unat_pred:
  assumes "dbl_finite_pos d"
  shows "unat (d - 1) = unat d - 1" "d - 1 + 1 = d" "unat (d - 1) < 2047 * 2 ^ 52"
proof -
  show "unat (d - 1) = unat d - 1" using assms by (auto simp: dbl_finite_pos_def unat_sub_if')
  then show "unat (d - 1) < 2047 * 2 ^ 52" using assms unfolding dbl_finite_pos_def by linarith
qed simp

text \<open>The distance to the double below.\<close>

lemma LowerBoundaryIsCloser_iff: "Double_LowerBoundaryIsCloser d \<longleftrightarrow> dbl_mant d = 0 \<and> Double_Exponent d \<noteq> - 1074"
  using unat_low[of d 52] unat_eq_zero[of "d AND mask 52"]
  by (simp add: Double_LowerBoundaryIsCloser_def double_masks Double_kDenormalExponent_def Double_kExponentBias_def
      Double_kPhysicalSignificandSize_def)

lemma closer_significand: "Double_LowerBoundaryIsCloser d \<Longrightarrow> sgnf d = 2 ^ 52"
  unfolding LowerBoundaryIsCloser_iff Double_fields(4,5) by (cases "dbl_exp d = 0") (simp_all only: if_True if_False add_0 not_True_eq_False not_False_eq_True simp_thms)

lemma pred_exponent:
  assumes "dbl_finite_pos d"
  shows "Double_Exponent (d - 1) = (if Double_LowerBoundaryIsCloser d then Double_Exponent d - 1 else Double_Exponent d)"
proof -
  note p = unat_pred(3,2)[OF assms]
  have "dbl_mant (d - 1) < 2 ^ 52" by simp
  consider "dbl_mant (d - 1) + 1 < 2 ^ 52" | "dbl_mant (d - 1) + 1 = 2 ^ 52" using \<open>dbl_mant (d - 1) < 2 ^ 52\<close> by linarith
  then show ?thesis
  proof cases
    case 1
    then show ?thesis using succ_fields(1)[OF p(1) 1] unfolding LowerBoundaryIsCloser_iff Double_fields(5) p(2) by simp
  next
    case 2
    then show ?thesis using succ_fields(2)[OF p(1) 2] unfolding LowerBoundaryIsCloser_iff Double_fields(5) p(2) by auto
  qed
qed

lemma value_pred:
  assumes "dbl_finite_pos d"
  shows "dbl_value (d - 1) = dbl_value d - 2 powi Double_Exponent (d - 1)"
  using value_next[OF unat_pred(3)[OF assms]] unat_pred(2)[OF assms] by simp

text \<open>The boundaries of a double: the midpoints between it and its neighbours.\<close>

definition dbl_upper :: "64 word \<Rightarrow> real" where
  "dbl_upper d = (dbl_value d + dbl_value (Double_NextDouble d)) / 2"

definition dbl_lower :: "64 word \<Rightarrow> real" where
  "dbl_lower d = (dbl_value (Double_PreviousDouble d) + dbl_value d) / 2"

lemma dbl_upper_eq: "dbl_finite_pos d \<Longrightarrow> dbl_upper d = dbl_value d + 2 powi (Double_Exponent d - 1)"
  using powi_succ(2)[of "Double_Exponent d"]
  by (simp add: dbl_upper_def NextDouble_finite dbl_finite_pos_def value_next)

lemma dbl_lower_eq:
  assumes "dbl_finite_pos d"
  shows "dbl_lower d = dbl_value d - 2 powi (Double_Exponent d - (if Double_LowerBoundaryIsCloser d then 2 else 1))"
proof -
  have "dbl_lower d = dbl_value d - 2 powi Double_Exponent (d - 1) / 2"
    using value_pred[OF assms] by (simp add: dbl_lower_def PreviousDouble_finite[OF assms] field_simps)
  then have "dbl_lower d = dbl_value d - 2 powi (Double_Exponent (d - 1) - 1)" using powi_succ(2)[of "Double_Exponent (d - 1)"] by linarith
  then show ?thesis by (cases "Double_LowerBoundaryIsCloser d") (simp_all add: pred_exponent[OF assms])
qed

text \<open>
  \<open>rounds_to x d\<close>: the double nearest to \<open>x\<close> is \<open>d\<close>, a tie going to the even pattern; the pattern of infinity counts as \<open>2 ^ 1024\<close>,
  so that the numbers rounded to it are those at or above \<open>(2 - 2 ^ -53) * 2 ^ 1023\<close>, as in IEEE 754.
\<close>

definition rounds_to :: "real \<Rightarrow> 64 word \<Rightarrow> bool" where
  "rounds_to x d \<longleftrightarrow> unat d \<le> 2047 * 2 ^ 52 \<and>
     (\<forall>d'. unat d' \<le> 2047 * 2 ^ 52 \<and> d' \<noteq> d \<longrightarrow>
        \<bar>x - dbl_value d\<bar> < \<bar>x - dbl_value d'\<bar> \<or> \<bar>x - dbl_value d\<bar> = \<bar>x - dbl_value d'\<bar> \<and> even (unat d))"

lemma even_significand: "even (sgnf d) \<longleftrightarrow> even (unat d)"
proof -
  have "even (dbl_mant d) \<longleftrightarrow> even (unat d)" by (rule dvd_mod_iff) simp
  then show ?thesis by (simp add: Double_fields(4))
qed

lemma between_midpoints:
  fixes a b c lo up x :: real
  assumes "2 * lo = a + b" "2 * up = b + c" "a < b" "b < c" "lo \<le> x" "x \<le> up"
  shows "c \<le> y \<or> y \<le> a \<Longrightarrow> \<bar>x - b\<bar> \<le> \<bar>x - y\<bar>"
    and "c \<le> y \<or> y \<le> a \<Longrightarrow> lo < x \<Longrightarrow> x < up \<Longrightarrow> \<bar>x - b\<bar> < \<bar>x - y\<bar>"
  using assms by (auto simp: abs_if)

lemma rounds_to_interval:
  assumes d: "dbl_finite_pos d"
    and x: "if even (sgnf d) then dbl_lower d \<le> x \<and> x \<le> dbl_upper d else dbl_lower d < x \<and> x < dbl_upper d"
  shows "rounds_to x d"
proof -
  have u: "unat d < 2047 * 2 ^ 52" "0 < unat d" using d by (auto simp: dbl_finite_pos_def)
  have n: "unat (d + 1) = unat d + 1" "unat (d - 1) = unat d - 1" using u(1) unat_pred[OF d] by (simp_all add: unat_Suc)
  have up: "2 * dbl_upper d = dbl_value d + dbl_value (d + 1)" using u by (simp add: dbl_upper_def NextDouble_finite)
  have lo: "2 * dbl_lower d = dbl_value (d - 1) + dbl_value d" by (simp add: dbl_lower_def PreviousDouble_finite[OF d])
  have st: "dbl_value (d - 1) < dbl_value d" "dbl_value d < dbl_value (d + 1)"
    using value_strict_mono[of d "d + 1"] value_strict_mono[of "d - 1" d] n u by linarith+
  have le: "dbl_lower d \<le> x" "x \<le> dbl_upper d" using x by (auto split: if_splits)
  have "\<bar>x - dbl_value d\<bar> < \<bar>x - dbl_value d'\<bar> \<or> \<bar>x - dbl_value d\<bar> = \<bar>x - dbl_value d'\<bar> \<and> even (unat d)"
    if d': "unat d' \<le> 2047 * 2 ^ 52" "d' \<noteq> d" for d'
  proof -
    have "unat d \<noteq> unat d'" using d'(2) by (simp add: word_unat_eq_iff)
    then have "dbl_value (d + 1) \<le> dbl_value d' \<or> dbl_value d' \<le> dbl_value (d - 1)"
      using value_mono[of "d + 1" d'] value_mono[of d' "d - 1"] d'(1) n u by linarith
    note b = between_midpoints[OF lo up st le this]
    show ?thesis using b x by (cases "even (unat d)") (auto simp: even_significand order_le_less)
  qed
  then show ?thesis using u by (simp add: rounds_to_def)
qed


section \<open>Normalization\<close>

lemma unat_shift: "unat w * 2 ^ n < 2 ^ 64 \<Longrightarrow> unat (push_bit n w) = unat w * 2 ^ n" for w :: "64 word"
  by (simp only: unsigned_push_bit_eq push_bit_eq_mult[where 'a = nat] take_bit_eq_mod[where 'a = nat]) simp

lemma shift_until_spec:
  assumes "\<And>w. unat w < 2 ^ b \<Longrightarrow> w AND msk = 0 \<longleftrightarrow> unat w < 2 ^ t" "t + n = b" "b \<le> 64" "0 < n"
    and "0 < unat w" "unat w < 2 ^ b"
  shows "\<exists>k w'. shift_until msk n (w, e) = Some (w', e - int k) \<and> unat w' = unat w * 2 ^ k \<and> 2 ^ t \<le> unat w' \<and> unat w' < 2 ^ b"
  using assms(5,6)
proof (induction "2 ^ b - unat w" arbitrary: w e rule: less_induct)
  case less
  show ?case
  proof (cases "unat w < 2 ^ t")
    case False
    then have "shift_until msk n (w, e) = Some (w, e)"
      unfolding shift_until_def using assms(1)[OF less.prems(2)] by (subst while_option_unfold) simp
    then show ?thesis using False less.prems by (intro exI[of _ 0] exI[of _ w]) simp
  next
    case True
    have b: "(2::nat) ^ b \<le> 2 ^ 64" using assms(3) by (intro power_increasing) simp_all
    have lt: "unat w * 2 ^ n < 2 ^ b" using True by (simp add: assms(2)[symmetric] power_add)
    then have s: "unat (push_bit n w) = unat w * 2 ^ n" using b by (intro unat_shift) linarith
    have "(1::nat) < 2 ^ n" using assms(4) one_less_power[of "2::nat" n] by simp
    then have "unat w < unat (push_bit n w)" using s less.prems(1) by simp
    then have "2 ^ b - unat (push_bit n w) < 2 ^ b - unat w" using less.prems lt s by linarith
    then obtain k w' where k: "shift_until msk n (push_bit n w, e - int n) = Some (w', e - int n - int k)"
        "unat w' = unat (push_bit n w) * 2 ^ k" "2 ^ t \<le> unat w'" "unat w' < 2 ^ b"
      using less.hyps[of "push_bit n w" "e - int n"] s lt less.prems(1) by auto
    have "shift_until msk n (w, e) = shift_until msk n (push_bit n w, e - int n)"
      unfolding shift_until_def using assms(1)[OF less.prems(2)] True by (subst while_option_unfold) simp
    then show ?thesis using k s by (intro exI[of _ "n + k"] exI[of _ w']) (simp add: power_add)
  qed
qed

lemma hidden_bit_test: "unat w < 2 ^ 53 \<Longrightarrow> w AND Double_kHiddenBit = 0 \<longleftrightarrow> unat w < 2 ^ 52"
proof -
  assume "unat w < 2 ^ 53"
  then have "unat w div 2 ^ 52 < 2" by (simp add: less_mult_imp_div_less)
  then have "unat w div 2 ^ 52 mod 2 ^ 1 = 0 \<longleftrightarrow> unat w < 2 ^ 52" by auto
  moreover have "push_bit 52 (mask 1) = Double_kHiddenBit" by (simp add: double_masks)
  ultimately show ?thesis using field_zero_iff[of 52 1 w] by simp
qed

lemma msb_test: "w AND kUint64MSB = 0 \<longleftrightarrow> unat w < 2 ^ 63"
  using Double_fields(3)[of w] by (simp add: Double_Sign_def kUint64MSB_def Double_kSignMask_def split: if_splits)

lemma ten_msb_test: "w AND k10MSBits = 0 \<longleftrightarrow> unat w < 2 ^ 54"
proof -
  have "unat w < 2 ^ 64" using unsigned_less[of w] by simp
  then have "unat w div 2 ^ 54 < 2 ^ 10" by (simp add: less_mult_imp_div_less)
  then have "unat w div 2 ^ 54 mod 2 ^ 10 = 0 \<longleftrightarrow> unat w < 2 ^ 54" by auto
  moreover have "push_bit 54 (mask 10) = k10MSBits" by (simp add: k10MSBits_def mask_eq_exp_minus_1 push_bit_eq_mult)
  ultimately show ?thesis using field_zero_iff[of 54 10 w] by simp
qed

lemma hidden_shift:
  assumes "0 < unat w" "unat w < 2 ^ 53"
  shows "\<exists>k w'. shift_until Double_kHiddenBit 1 (w, e) = Some (w', e - int k) \<and> unat w' = unat w * 2 ^ k
    \<and> 2 ^ 52 \<le> unat w' \<and> unat w' < 2 ^ 53"
  using shift_until_spec[of 53 Double_kHiddenBit 52 1 w e] hidden_bit_test assms by simp

lemma DiyFp_Normalize_spec:
  assumes "diy_f x \<noteq> 0"
  shows "\<exists>k f. DiyFp_Normalize x = Some (Inr \<lparr>diy_f = f, diy_e = diy_e x - int k\<rparr>) \<and> unat f = unat (diy_f x) * 2 ^ k \<and> 2 ^ 63 \<le> unat f"
proof -
  have u: "0 < unat (diy_f x)" "unat (diy_f x) < 2 ^ 64" using assms unsigned_less[of "diy_f x"] by (simp_all add: unat_gt_0)
  obtain k w where k: "shift_until k10MSBits 10 (diy_f x, diy_e x) = Some (w, diy_e x - int k)" "unat w = unat (diy_f x) * 2 ^ k" "2 ^ 54 \<le> unat w"
    using shift_until_spec[of 64 k10MSBits 54 10 "diy_f x" "diy_e x"] ten_msb_test u by auto
  have w: "0 < unat w" "unat w < 2 ^ 64" using k(3) unsigned_less[of w] by simp_all
  obtain m f where m: "shift_until kUint64MSB 1 (w, diy_e x - int k) = Some (f, diy_e x - int k - int m)" "unat f = unat w * 2 ^ m" "2 ^ 63 \<le> unat f"
    using shift_until_spec[of 64 kUint64MSB 63 1 w "diy_e x - int k"] msb_test w by auto
  show ?thesis using assms k m by (intro exI[of _ "k + m"] exI[of _ f]) (simp add: DiyFp_Normalize_def ASSERT_def power_add)
qed

lemma powi_shift: "real (a * 2 ^ k) * 2 powi (e - int k) = real a * 2 powi e"
  by (simp add: power_int_diff)


lemma DiyFp_Normalize_value:
  assumes "diy_f x \<noteq> 0"
  shows "\<exists>y. DiyFp_Normalize x = Some (Inr y) \<and> diy_value y = diy_value x \<and> 2 ^ 63 \<le> unat (diy_f y)"
proof -
  obtain k f where f: "DiyFp_Normalize x = Some (Inr \<lparr>diy_f = f, diy_e = diy_e x - int k\<rparr>)" "unat f = unat (diy_f x) * 2 ^ k" "2 ^ 63 \<le> unat f"
    using DiyFp_Normalize_spec[OF assms] by blast
  have "diy_value \<lparr>diy_f = f, diy_e = diy_e x - int k\<rparr> = diy_value x"
    unfolding diy_value_def DiyFp.simps f(2) by (rule powi_shift)
  then show ?thesis using f by auto
qed

section \<open>Multiplication\<close>

text \<open>The four partial products, with the rounding bit added at position 31 of the middle ones: half of the weight of the result's last bit.\<close>

lemma mul64_split:
  fixes a b c d :: nat
  assumes "a < 2 ^ 32" "b < 2 ^ 32" "c < 2 ^ 32" "d < 2 ^ 32"
  shows "((a * 2 ^ 32 + b) * (c * 2 ^ 32 + d) + 2 ^ 63) div 2 ^ 64
    = a * c + a * d div 2 ^ 32 + b * c div 2 ^ 32 + (b * d div 2 ^ 32 + a * d mod 2 ^ 32 + b * c mod 2 ^ 32 + 2 ^ 31) div 2 ^ 32"
proof -
  define p q r s m where "p = a * c" and "q = a * d" and "r = b * c" and "s = b * d" and "m = (2::nat) ^ 32"
  have "(a * m + b) * (c * m + d) = p * (m * m) + (q + r) * m + s" by (simp add: p_def q_def r_def s_def algebra_simps)
  also have "\<dots> = (p + q div m + r div m) * (m * m) + (q mod m + r mod m + s div m) * m + s mod m"
  proof -
    have "(q + r) * m + s = ((q div m * m + q mod m) + (r div m * m + r mod m)) * m + (s div m * m + s mod m)" by (simp only: div_mult_mod_eq)
    also have "\<dots> = (q div m + r div m) * (m * m) + (q mod m + r mod m + s div m) * m + s mod m" by (simp only: distrib_right mult.assoc add.assoc add.left_commute add.commute)
    finally show ?thesis by (simp only: distrib_right add.assoc)
  qed
  finally have e: "(a * m + b) * (c * m + d) + 2 ^ 31 * m
      = (p + q div m + r div m) * (m * m) + ((q mod m + r mod m + s div m + 2 ^ 31) * m + s mod m)"
    by (simp add: algebra_simps)
  have m0: "0 < m" by (simp add: m_def)
  have "((q mod m + r mod m + s div m + 2 ^ 31) * m + s mod m) div (m * m) = (q mod m + r mod m + s div m + 2 ^ 31) div m"
    using m0 by (simp add: div_mult2_eq)
  moreover have "((a * m + b) * (c * m + d) + 2 ^ 31 * m) div (m * m)
      = p + q div m + r div m + ((q mod m + r mod m + s div m + 2 ^ 31) * m + s mod m) div (m * m)"
    unfolding e by (rule div_mult_self3) (simp add: m_def)
  moreover have "(2::nat) ^ 63 = 2 ^ 31 * m" "(2::nat) ^ 64 = m * m" by (simp_all add: m_def)
  ultimately have "((a * m + b) * (c * m + d) + 2 ^ 63) div 2 ^ 64
      = p + q div m + r div m + (q mod m + r mod m + s div m + 2 ^ 31) div m" by simp
  moreover have "q mod m + r mod m + s div m + 2 ^ 31 = s div m + q mod m + r mod m + 2 ^ 31" by simp
  ultimately show ?thesis unfolding p_def q_def r_def s_def m_def by (simp only:)
qed

lemma unat_lt64: "unat w < 2 ^ 64" for w :: "64 word"
  using unsigned_less[of w, where ?'a = nat] by simp

lemma unat_add_small: "unat a + unat b < 2 ^ 64 \<Longrightarrow> unat (a + b) = unat a + unat b" for a b :: "64 word"
  by (subst unat_add_lem[THEN iffD1]) simp_all

lemma unat_mult_small: "unat a * unat b < 2 ^ 64 \<Longrightarrow> unat (a * b) = unat a * unat b" for a b :: "64 word"
  by (subst unat_mult_lem[THEN iffD1]) simp_all

lemma DiyFp_Multiply_f:
  "unat (diy_f (DiyFp_Multiply x y)) = (unat (diy_f x) * unat (diy_f y) + 2 ^ 63) div 2 ^ 64"
proof -
  define a b c d where "a = drop_bit 32 (diy_f x)" and "b = diy_f x AND mask 32" and "c = drop_bit 32 (diy_f y)" and "d = diy_f y AND mask 32"
  have lt64: "unat w < 2 ^ 64" for w :: "64 word" using unat_lt64[of w] .
  then have bound: "unat w div 2 ^ 32 < 2 ^ 32" for w :: "64 word" by (intro less_mult_imp_div_less) (simp add: lt64[simplified])
  have ub: "unat a < 2 ^ 32" "unat b < 2 ^ 32" "unat c < 2 ^ 32" "unat d < 2 ^ 32"
    unfolding a_def b_def c_def d_def unat_drop unat_low using bound by simp_all
  have split: "unat (diy_f x) = unat a * 2 ^ 32 + unat b" "unat (diy_f y) = unat c * 2 ^ 32 + unat d"
    unfolding a_def b_def c_def d_def unat_drop unat_low by (simp_all only: div_mult_mod_eq)
  have prod: "unat (v * w) = unat v * unat w" "unat v * unat w \<le> (2 ^ 32 - 1) * (2 ^ 32 - 1)"
    if "unat v < 2 ^ 32" "unat w < 2 ^ 32" for v w :: "64 word"
  proof -
    show le: "unat v * unat w \<le> (2 ^ 32 - 1) * (2 ^ 32 - 1)" using that by (intro mult_le_mono) linarith+
    show "unat (v * w) = unat v * unat w" using le by (intro unat_mult_small) simp
  qed
  note p = prod[OF ub(1,3)] prod[OF ub(2,3)] prod[OF ub(1,4)] prod[OF ub(2,4)]
  define t where "t = drop_bit 32 (b * d) + (a * d AND mask 32) + (b * c AND mask 32) + push_bit 31 1"
  have "unat (b * d) div 2 ^ 32 < 2 ^ 32" by (rule bound)
  have t: "unat t = unat b * unat d div 2 ^ 32 + unat a * unat d mod 2 ^ 32 + unat b * unat c mod 2 ^ 32 + 2 ^ 31"
  proof -
    have parts: "unat (drop_bit 32 (b * d)) = unat b * unat d div 2 ^ 32" "unat (a * d AND mask 32) = unat a * unat d mod 2 ^ 32"
      "unat (b * c AND mask 32) = unat b * unat c mod 2 ^ 32" "unat (push_bit 31 1 :: 64 word) = 2 ^ 31"
      unfolding unat_drop unat_low p by (simp_all add: push_bit_eq_mult)
    have "unat b * unat d div 2 ^ 32 < 2 ^ 32" using bound[of "b * d"] unfolding p .
    moreover have "unat a * unat d mod 2 ^ 32 < 2 ^ 32" "unat b * unat c mod 2 ^ 32 < 2 ^ 32" by simp_all
    ultimately show ?thesis unfolding t_def by (subst unat_add_small unat_add_small unat_add_small | simp add: parts)+
  qed
  let ?r = "a * c + drop_bit 32 (a * d) + drop_bit 32 (b * c) + drop_bit 32 t"
  have parts: "unat (a * c) = unat a * unat c" "unat (drop_bit 32 (a * d)) = unat a * unat d div 2 ^ 32"
      "unat (drop_bit 32 (b * c)) = unat b * unat c div 2 ^ 32" "unat (drop_bit 32 t) = unat t div 2 ^ 32"
    unfolding unat_drop p by simp_all
  define r where "r = (unat (diy_f x) * unat (diy_f y) + 2 ^ 63) div 2 ^ 64"
  have sum: "unat a * unat c + unat a * unat d div 2 ^ 32 + unat b * unat c div 2 ^ 32 + unat t div 2 ^ 32 = r"
    using mul64_split[OF ub] unfolding r_def split t by (simp only: ac_simps)
  have "unat (diy_f x) * unat (diy_f y) \<le> (2 ^ 64 - 1) * (2 ^ 64 - 1)"
    using lt64[of "diy_f x"] lt64[of "diy_f y"] by (intro mult_le_mono) linarith+
  then have "unat (diy_f x) * unat (diy_f y) + 2 ^ 63 < 2 ^ 64 * 2 ^ 64" by simp
  then have "r < 2 ^ 64" unfolding r_def by (rule less_mult_imp_div_less)
  then have "unat ?r = r" using sum by (subst unat_add_small unat_add_small unat_add_small | simp add: parts)+
  moreover have "diy_f (DiyFp_Multiply x y) = ?r"
    by (simp add: DiyFp_Multiply_def a_def b_def c_def d_def t_def mask_eq_exp_minus_1 Let_def)
  ultimately show ?thesis by (simp add: r_def)
qed


section \<open>Back to the bit pattern\<close>

lemma low_or_high: "(w AND mask k) OR push_bit k c = (w AND mask k) + push_bit k c" for w c :: "'a::len word"
  by (rule disjunctive_add_eq_or[symmetric]) (rule bit_eqI, auto simp: bit_simps)

lemma unat_AsDiyFp: "dbl_finite_pos d \<Longrightarrow> Double_AsDiyFp d = Inr \<lparr>diy_f = Double_Significand d, diy_e = Double_Exponent d\<rparr>"
  using dbl_finite_pos_iff[of d] by (simp add: Double_AsDiyFp_def ASSERT_def dbl_positive_def)

lemma DiyFpToUint64_significand:
  assumes "dbl_finite_pos d"
  shows "DiyFpToUint64 \<lparr>diy_f = Double_Significand d, diy_e = Double_Exponent d\<rparr> = d"
proof -
  note p = dbl_parts[OF assms]
  note s = dbl_split[OF p(1)]
  let ?f = "Double_Significand d" and ?e = "Double_Exponent d"
  have "\<not> ?f > Double_kHiddenBit + Double_kSignificandMask" using p(3)
    by (simp add: word_less_nat_alt Double_kHiddenBit_def Double_kSignificandMask_def)
  then have sh: "shrink_loop ?f ?e = (?f, ?e)" by (subst shrink_loop.simps) simp
  have hid: "?f AND Double_kHiddenBit = 0 \<longleftrightarrow> sgnf d < 2 ^ 52" by (rule hidden_bit_test[OF p(3)])
  have den: "Double_kDenormalExponent = - 1074" "Double_kMaxExponent = 972" "Double_kExponentBias = 1075"
    by (simp_all add: Double_kDenormalExponent_def Double_kMaxExponent_def Double_kExponentBias_def Double_kPhysicalSignificandSize_def)
  have "\<not> (?e > Double_kDenormalExponent \<and> ?f AND Double_kHiddenBit = 0)" using p(6) hid den by linarith
  then have gr: "grow_loop ?f ?e = (?f, ?e)" by (subst grow_loop.simps) auto
  define be :: "64 word" where "be = (if ?e = Double_kDenormalExponent \<and> ?f AND Double_kHiddenBit = 0 then 0 else word_of_int (?e + Double_kExponentBias))"
  have r: "DiyFpToUint64 \<lparr>diy_f = ?f, diy_e = ?e\<rparr> = (?f AND mask 52) OR push_bit 52 be"
    using p(4,5) by (simp add: DiyFpToUint64_def sh gr den be_def double_masks Double_kPhysicalSignificandSize_def)
  have be: "unat be = dbl_exp d"
  proof (cases "dbl_exp d = 0")
    case True
    then have "sgnf d < 2 ^ 52" using s(3) by (simp add: Double_fields(4))
    then show ?thesis using True hid by (simp add: be_def den Double_fields(5))
  next
    case False
    then have "\<not> sgnf d < 2 ^ 52" by (simp add: Double_fields(4))
    then have "be = word_of_int (?e + 1075)" using hid by (simp add: be_def den)
    moreover have "?e + 1075 = int (dbl_exp d)" using False by (simp add: Double_fields(5))
    ultimately have "be = word_of_nat (dbl_exp d)" by simp
    moreover have "unat (word_of_nat (dbl_exp d) :: 64 word) = dbl_exp d" using s(2) by (simp add: unat_of_nat)
    ultimately show ?thesis by simp
  qed
  have low: "unat (?f AND mask 52) = dbl_mant d" unfolding unat_low Double_fields(4) by simp
  have hi: "unat (push_bit 52 be) = dbl_exp d * 2 ^ 52" unfolding be[symmetric] by (rule unat_shift) (use s(2) be in simp)
  have "dbl_mant d + dbl_exp d * 2 ^ 52 = unat d" using s(1) by (simp only: add.commute)
  then have "unat ((?f AND mask 52) + push_bit 52 be) = unat d"
    using unat_lt64[of d] unat_add_small[of "?f AND mask 52" "push_bit 52 be"] unfolding low hi by simp
  then show ?thesis unfolding r low_or_high by (simp add: word_unat_eq_iff)
qed


section \<open>Properties\<close>

lemma unat_double_succ: "unat w < 2 ^ 53 \<Longrightarrow> unat (push_bit 1 w + 1) = 2 * unat w + 1" for w :: "64 word"
proof -
  assume w: "unat w < 2 ^ 53"
  then have "unat (push_bit 1 w) = 2 * unat w" using unat_shift[of w 1] by simp
  then show ?thesis using w unat_add_small[of "push_bit 1 w" 1] by simp
qed

lemma unat_shift_pred: "0 < unat w \<Longrightarrow> unat w < 2 ^ 53 \<Longrightarrow> n \<le> 2 \<Longrightarrow> unat (push_bit n w - 1) = unat w * 2 ^ n - 1" for w :: "64 word"
proof -
  assume w: "0 < unat w" "unat w < 2 ^ 53" "n \<le> 2"
  have "(2::nat) ^ n \<le> 4" using w(3) power_increasing[of n 2 "2::nat"] by simp
  then have "unat w * 2 ^ n \<le> unat w * 4" by (rule mult_le_mono2)
  also have "unat w * 4 < 2 ^ 64" using w(2) by simp
  finally have "unat (push_bit n w) = unat w * 2 ^ n" by (rule unat_shift)
  then show ?thesis using w(1) unat_minus_one[of "push_bit n w"] by (metis bot_nat_0.extremum_strict mult_eq_0_iff power_not_zero unat_0 zero_neq_numeral)
qed

lemma normalized_boundaries_spec:
  assumes f: "0 < unat f" "unat f < 2 ^ 53" and j: "j = (if closer then 2 else 1)"
  shows "\<exists>m_minus m_plus. normalized_boundaries \<lparr>diy_f = f, diy_e = e\<rparr> closer = Some (Inr (m_minus, m_plus))
    \<and> diy_e m_minus = diy_e m_plus \<and> 2 ^ 63 \<le> unat (diy_f m_plus)
    \<and> diy_value m_plus = real (unat f) * 2 powi e + 2 powi (e - 1)
    \<and> diy_value m_minus = real (unat f) * 2 powi e - 2 powi (e - int j)"
proof -
  let ?p = "\<lparr>diy_f = push_bit 1 f + 1, diy_e = e - 1\<rparr>"
  have up: "unat (push_bit 1 f + 1) = 2 * unat f + 1" by (rule unat_double_succ[OF f(2)])
  then have "diy_f ?p \<noteq> 0" by (metis DiyFp.select_convs(1) add_is_0 one_neq_zero unat_0)
  then obtain k g where g: "DiyFp_Normalize ?p = Some (Inr \<lparr>diy_f = g, diy_e = e - 1 - int k\<rparr>)" "unat g = (2 * unat f + 1) * 2 ^ k" "2 ^ 63 \<le> unat g"
    using DiyFp_Normalize_spec[of ?p] up by auto
  define h where "h = push_bit j f - 1"
  have h: "unat h = unat f * 2 ^ j - 1" unfolding h_def using unat_shift_pred[OF f] j by simp
  have k: "j \<le> Suc k"
  proof (rule ccontr)
    assume "\<not> j \<le> Suc k"
    then have "k = 0" using j by (simp split: if_splits)
    then have "2 ^ 63 \<le> 2 * unat f + 1" using g(2,3) by simp
    then show False using f(2) by simp
  qed
  let ?s = "Suc k - j"
  have "unat h * 2 ^ ?s \<le> (unat f * 2 ^ j) * 2 ^ ?s" unfolding h by (intro mult_le_mono1) simp
  also have "\<dots> = unat f * 2 ^ Suc k" using k unfolding mult.assoc power_add[symmetric] by simp
  also have "\<dots> \<le> unat g" unfolding g(2) by (simp add: algebra_simps)
  finally have s: "unat (push_bit ?s h) = unat h * 2 ^ ?s" using unat_lt64[of g] by (intro unat_shift) linarith
  have m: "normalized_boundaries \<lparr>diy_f = f, diy_e = e\<rparr> closer
      = Some (Inr (\<lparr>diy_f = push_bit ?s h, diy_e = e - 1 - int k\<rparr>, \<lparr>diy_f = g, diy_e = e - 1 - int k\<rparr>))"
  proof -
    have "nat (e - int j - (e - 1 - int k)) = ?s" using k by simp
    then show ?thesis using g(1) j by (cases closer) (simp_all add: normalized_boundaries_def Let_def h_def)
  qed
  have "diy_value \<lparr>diy_f = g, diy_e = e - 1 - int k\<rparr> = real (2 * unat f + 1) * 2 powi (e - 1)"
    unfolding diy_value_def DiyFp.simps g(2) by (rule powi_shift)
  then have vp: "diy_value \<lparr>diy_f = g, diy_e = e - 1 - int k\<rparr> = real (unat f) * 2 powi e + 2 powi (e - 1)"
    using powi_succ(2)[of e] by (simp add: algebra_simps)
  have "e - 1 - int k = e - int j - int ?s" using k by simp
  then have "diy_value \<lparr>diy_f = push_bit ?s h, diy_e = e - 1 - int k\<rparr> = real (unat h) * 2 powi (e - int j)"
    unfolding diy_value_def DiyFp.simps s by (simp only: powi_shift)
  also have "real (unat h) = real (unat f) * 2 ^ j - 1" using f(1) unfolding h by (simp add: of_nat_diff Suc_leI)
  also have "(real (unat f) * 2 ^ j - 1) * 2 powi (e - int j) = real (unat f) * 2 powi e - 2 powi (e - int j)"
    by (simp add: left_diff_distrib power_int_diff diff_divide_distrib)
  finally show ?thesis using m vp g(3) by (intro exI conjI) (rule m, simp_all)
qed

text \<open>
  C17. For every finite positive double \<open>d\<close>, \<^verbatim>\<open>Double::PreviousDouble\<close> and \<^verbatim>\<open>Double::NextDouble\<close> are its neighbours: no finite double lies
  between, and the step to infinity counts as \<open>2 ^ 1024\<close>.  \<^verbatim>\<open>Double::NormalizedBoundaries\<close> returns without a failed assertion, with
  equal exponents and a normalized \<^verbatim>\<open>m_plus\<close>, the midpoints between \<open>d\<close> and its neighbours, which \<^verbatim>\<open>UpperBoundary\<close> gives too; and
  every number between the two midpoints, the midpoints themselves for an even significand, rounds to \<open>d\<close>.
\<close>

theorem ieee_boundaries_correct:
  assumes "dbl_positive d" "\<not> Double_IsSpecial d"
  shows "dbl_value (Double_PreviousDouble d) < dbl_value d \<and> dbl_value d < dbl_value (Double_NextDouble d)
    \<and> (\<forall>d'. unat d' \<le> 2047 * 2 ^ 52 \<longrightarrow>
         dbl_value d' \<le> dbl_value (Double_PreviousDouble d) \<or> d' = d \<or> dbl_value (Double_NextDouble d) \<le> dbl_value d')
    \<and> (\<exists>m_minus m_plus ub. Double_NormalizedBoundaries d = Some (Inr (m_minus, m_plus)) \<and> Double_UpperBoundary d = Inr ub
         \<and> diy_e m_minus = diy_e m_plus \<and> 2 ^ 63 \<le> unat (diy_f m_plus)
         \<and> diy_value m_plus = (dbl_value d + dbl_value (Double_NextDouble d)) / 2 \<and> diy_value ub = diy_value m_plus
         \<and> diy_value m_minus = (dbl_value (Double_PreviousDouble d) + dbl_value d) / 2
         \<and> (\<forall>x. (if even (unat (Double_Significand d)) then diy_value m_minus \<le> x \<and> x \<le> diy_value m_plus
                 else diy_value m_minus < x \<and> x < diy_value m_plus) \<longrightarrow> rounds_to x d))"
proof -
  have d: "dbl_finite_pos d" using assms by (simp add: dbl_finite_pos_iff)
  note p = dbl_parts[OF d]
  have u: "unat d < 2047 * 2 ^ 52" "0 < unat d" using d by (auto simp: dbl_finite_pos_def)
  have n: "unat (d + 1) = unat d + 1" "unat (d - 1) = unat d - 1" using u(1) unat_pred[OF d] by (simp_all add: unat_Suc)
  have nb: "Double_NextDouble d = d + 1" "Double_PreviousDouble d = d - 1" using NextDouble_finite[OF u(1)] PreviousDouble_finite[OF d] by auto
  have st: "dbl_value (d - 1) < dbl_value d" "dbl_value d < dbl_value (d + 1)"
    using value_strict_mono[of d "d + 1"] value_strict_mono[of "d - 1" d] n u by linarith+
  have gap: "dbl_value d' \<le> dbl_value (d - 1) \<or> d' = d \<or> dbl_value (d + 1) \<le> dbl_value d'" if "unat d' \<le> 2047 * 2 ^ 52" for d'
    using value_mono[of "d + 1" d'] value_mono[of d' "d - 1"] that n u word_unat_eq_iff[of d' d]
    by (cases "unat d' = unat d") linarith+
  obtain mm mp where m: "normalized_boundaries \<lparr>diy_f = Double_Significand d, diy_e = Double_Exponent d\<rparr> (Double_LowerBoundaryIsCloser d) = Some (Inr (mm, mp))"
      "diy_e mm = diy_e mp" "2 ^ 63 \<le> unat (diy_f mp)" "diy_value mp = dbl_upper d" "diy_value mm = dbl_lower d"
    using normalized_boundaries_spec[OF p(2,3) refl, of "Double_Exponent d" "Double_LowerBoundaryIsCloser d"]
      dbl_upper_eq[OF d] dbl_lower_eq[OF d] dbl_value_nonneg[OF p(1)] by auto
  have nbs: "Double_NormalizedBoundaries d = Some (Inr (mm, mp))"
    using assms m(1) unat_AsDiyFp[OF d] by (simp add: Double_NormalizedBoundaries_def ASSERT_def)
  define ub where "ub = \<lparr>diy_f = Double_Significand d * 2 + 1, diy_e = Double_Exponent d - 1\<rparr>"
  have "unat (Double_Significand d * 2 + 1) = 2 * sgnf d + 1"
    using unat_double_succ[OF p(3)] by (simp add: push_bit_eq_mult)
  then have vb: "diy_value ub = dbl_upper d"
    using dbl_upper_eq[OF d] dbl_value_nonneg[OF p(1)] powi_succ(2)[of "Double_Exponent d"]
    unfolding diy_value_def ub_def DiyFp.simps by (simp add: algebra_simps)
  have "rounds_to x d" if "if even (sgnf d) then dbl_lower d \<le> x \<and> x \<le> dbl_upper d else dbl_lower d < x \<and> x < dbl_upper d" for x
    by (rule rounds_to_interval[OF d that])
  moreover have "Double_UpperBoundary d = Inr ub" using p(7) by (simp add: Double_UpperBoundary_def ub_def ASSERT_def)
  moreover have "dbl_upper d = (dbl_value d + dbl_value (d + 1)) / 2" "dbl_lower d = (dbl_value (d - 1) + dbl_value d) / 2"
    by (simp_all add: dbl_upper_def dbl_lower_def nb)
  ultimately show ?thesis unfolding nb using st gap nbs m vb by (intro conjI exI[of _ mm] exI[of _ mp] exI[of _ ub]) simp_all
qed

theorem ieee_boundaries_correct_witness:
  "\<exists>m_minus m_plus. Double_NormalizedBoundaries 0x3FF0000000000000 = Some (Inr (m_minus, m_plus))
    \<and> diy_value m_plus = (dbl_value 0x3FF0000000000000 + dbl_value (Double_NextDouble 0x3FF0000000000000)) / 2"
proof -
  have "dbl_positive 0x3FF0000000000000" "\<not> Double_IsSpecial 0x3FF0000000000000" by code_simp+
  from ieee_boundaries_correct[OF this] show ?thesis by blast
qed

text \<open>
  C18. \<^verbatim>\<open>DiyFp::Multiply\<close>, on any two numbers, gives the product of the significands rounded to its upper 64 bits, halves rounded up, with
  no wrap-around in the four partial products and their sum; \<^verbatim>\<open>DiyFp::Normalize\<close> ends on every non-zero significand and keeps the
  value; and rebuilding a double from its own significand and exponent with \<^verbatim>\<open>Double(DiyFp)\<close> gives the same double back.
\<close>

theorem diy_fp_correct:
  "unat (diy_f (DiyFp_Times x y)) = (unat (diy_f x) * unat (diy_f y) + 2 ^ 63) div 2 ^ 64
   \<and> diy_e (DiyFp_Times x y) = diy_e x + diy_e y + 64
   \<and> (if diy_f x = 0 then DiyFp_Normalize x = Some (Inl Terminate)
      else \<exists>z. DiyFp_Normalize x = Some (Inr z) \<and> diy_value z = diy_value x \<and> 2 ^ 63 \<le> unat (diy_f z))
   \<and> (if dbl_positive d \<and> \<not> Double_IsSpecial d
      then \<exists>v. Double_AsDiyFp d = Inr v \<and> diy_value v = dbl_value d \<and> DiyFpToUint64 v = d else True)"
proof -
  have "diy_e (DiyFp_Multiply x y) = diy_e x + diy_e y + 64" by (simp add: DiyFp_Multiply_def Let_def)
  moreover have "DiyFp_Normalize x = Some (Inl Terminate)" if "diy_f x = 0" using that by (simp add: DiyFp_Normalize_def ASSERT_def)
  moreover have "\<exists>v. Double_AsDiyFp d = Inr v \<and> diy_value v = dbl_value d \<and> DiyFpToUint64 v = d" if "dbl_finite_pos d"
    using unat_AsDiyFp[OF that] DiyFpToUint64_significand[OF that] dbl_value_nonneg[OF dbl_parts(1)[OF that]] by (simp add: diy_value_def)
  ultimately show ?thesis
    using DiyFp_Multiply_f[of x y] DiyFp_Normalize_value[of x] by (simp add: DiyFp_Times_def dbl_finite_pos_iff)
qed

end
