(* ===== verification/BignumDtoa.thy ===== *)
theory BignumDtoa
  imports Ieee
begin

text \<open>
  \<^verbatim>\<open>double-conversion/bignum-dtoa.cc\<close>: the digits of a double by exact arithmetic on bignums.

  \<^item> The bignums \<^verbatim>\<open>numerator\<close>, \<^verbatim>\<open>denominator\<close>, \<^verbatim>\<open>delta_minus\<close> and \<^verbatim>\<open>delta_plus\<close> that the functions pass by pointer are a record,
    \<open>scaled\<close>.  In \<^verbatim>\<open>GenerateShortestDigits\<close> the pointer \<^verbatim>\<open>delta_plus\<close> may be redirected to \<^verbatim>\<open>delta_minus\<close>: the flag \<open>same\<close> is
    \<^verbatim>\<open>delta_minus == delta_plus\<close>.
  \<^item> A \<^verbatim>\<open>Vector<char>\<close> is the list of its character codes; \<open>bvec_rd\<close> and \<open>bvec_wr\<close> are its \<^verbatim>\<open>operator[]\<close> with an \<^verbatim>\<open>int\<close> index.
  \<^item> The parameter \<open>n\<close> bounds the iterations of every loop without a counter; \<open>None\<close> says that the bound was reached.
  \<^item> The arithmetic of \<^verbatim>\<open>EstimatePower\<close> on doubles is that of IEEE 754: each operation gives the exact result rounded to 53 bits, ties to
    even.  A double is there an integer times a power of two; its values stay far inside the range of normal doubles.
\<close>

unbundle bit_operations_syntax

section \<open>Arithmetic on doubles\<close>

function nbits :: "nat \<Rightarrow> nat" where
  "nbits m = (if m = 0 then 0 else Suc (nbits (m div 2)))"
  by auto
termination by (relation "measure id") auto

declare nbits.simps [simp del]

text \<open>\<open>m / 2 ^ s\<close> rounded to an integer, ties to even.\<close>

definition rne :: "nat \<Rightarrow> nat \<Rightarrow> nat" where
  "rne m s = (let q = m div 2 ^ s; r = m mod 2 ^ s
              in if 2 * r > 2 ^ s \<or> 2 * r = 2 ^ s \<and> odd q then q + 1 else q)"

text \<open>\<open>(m, e)\<close> is the number \<open>m * 2 ^ e\<close>.\<close>

definition round53 :: "int \<times> int \<Rightarrow> int \<times> int" where
  "round53 = (\<lambda>(m, e). let s = nbits (nat \<bar>m\<bar>) - 53 in (sgn m * int (rne (nat \<bar>m\<bar>) s), e + int s))"

definition dbl_mult :: "int \<times> int \<Rightarrow> int \<times> int \<Rightarrow> int \<times> int" where
  "dbl_mult = (\<lambda>(m1, e1) (m2, e2). round53 (m1 * m2, e1 + e2))"

definition dbl_minus :: "int \<times> int \<Rightarrow> int \<times> int \<Rightarrow> int \<times> int" where
  "dbl_minus = (\<lambda>(m1, e1) (m2, e2).
     let e = min e1 e2 in round53 (m1 * 2 ^ nat (e1 - e) - m2 * 2 ^ nat (e2 - e), e))"

text \<open>\<^verbatim>\<open>static_cast<int>(ceil(x))\<close>\<close>

definition dbl_ceil :: "int \<times> int \<Rightarrow> int" where
  "dbl_ceil = (\<lambda>(m, e). if e \<ge> 0 then m * 2 ^ nat e else - (- m div 2 ^ nat (- e)))"

text \<open>The conversions between the formats, \<^verbatim>\<open>static_cast<float>\<close> of a double and back, and \<^verbatim>\<open>==\<close> on doubles.\<close>

definition float_of_double :: "64 word \<Rightarrow> 32 word" where
  "float_of_double d =
     (let sgn_bit = (if Double_Sign d < 0 then Single_kSignMask else 0);
          f = unat (Double_Significand d);
          e = Double_Exponent d;
          q = max (- 149) (e + int (nbits f) - 24);
          g = (if q \<le> e then f * 2 ^ nat (e - q) else rne f (nat (q - e)));
          bits = (if g < 2 ^ 23 then int g else (q + 150) * 2 ^ 23 + (int g - 2 ^ 23))
      in sgn_bit OR
         (if Double_IsNan d then Single_kNaN
          else if Double_IsInfinite d \<or> bits \<ge> 255 * 2 ^ 23 then Single_kInfinity
          else word_of_int bits))"

definition double_of_float :: "32 word \<Rightarrow> 64 word" where
  "double_of_float s =
     (let sgn_bit = (if Single_Sign s < 0 then Double_kSignMask else 0);
          g = unat (Single_Significand s);
          k = 53 - nbits g
      in sgn_bit OR
         (if Single_IsNan s then Double_kNaN
          else if Single_IsInfinite s then Double_kInfinity
          else if g = 0 then 0
          else word_of_int ((Single_Exponent s - int k + 1075) * 2 ^ 52 + (int (g * 2 ^ k) - 2 ^ 52))))"

definition dbl_eq :: "64 word \<Rightarrow> 64 word \<Rightarrow> bool" where
  "dbl_eq a b \<longleftrightarrow> \<not> Double_IsNan a \<and> \<not> Double_IsNan b \<and>
     (a = b \<or> a AND NOT Double_kSignMask = 0 \<and> b AND NOT Double_kSignMask = 0)"

section \<open>Start values\<close>

datatype BignumDtoaMode =
    BIGNUM_DTOA_SHORTEST
  | BIGNUM_DTOA_SHORTEST_SINGLE
  | BIGNUM_DTOA_FIXED
  | BIGNUM_DTOA_PRECISION

definition NormalizedExponent :: "64 word \<Rightarrow> int \<Rightarrow> int res option" where
  "NormalizedExponent significand ex =
     bindO (Some (ASSERT (significand \<noteq> 0))) (\<lambda>_.
     case shift_until Double_kHiddenBit 1 (significand, ex) of
       None \<Rightarrow> None
     | Some (f, e) \<Rightarrow> Some (Inr e))"

text \<open>The doubles nearest to \<open>0.30102999566398114\<close> and \<open>1e-10\<close>.\<close>

definition k1Log10 :: "int \<times> int" where
  "k1Log10 = (5422874305198590, - 54)"

definition k1em10 :: "int \<times> int" where
  "k1em10 = (7737125245533627, - 86)"

definition EstimatePower :: "int \<Rightarrow> int" where
  "EstimatePower ex =
     (let kSignificandSize = int Double_kSignificandSize
      in dbl_ceil (dbl_minus (dbl_mult (ex + kSignificandSize - 1, 0) k1Log10) k1em10))"

record scaled =
  sc_num :: bignum
  sc_den :: bignum
  sc_minus :: bignum
  sc_plus :: bignum

definition InitialScaledStartValuesPositiveExponent :: "64 word \<Rightarrow> int \<Rightarrow> int \<Rightarrow> bool \<Rightarrow> scaled \<Rightarrow> scaled res" where
  "InitialScaledStartValuesPositiveExponent significand ex estimated_power need_boundary_deltas s =
     bindE (ASSERT (estimated_power \<ge> 0)) (\<lambda>_.
     bindE (AssignUInt64 (unat significand) (sc_num s)) (\<lambda>num.
     bindE (ShiftLeft (nat ex) num) (\<lambda>num.
     bindE (AssignPowerUInt16 10 (nat estimated_power) (sc_den s)) (\<lambda>den.
     if need_boundary_deltas
     then bindE (ShiftLeft 1 den) (\<lambda>den.
          bindE (ShiftLeft 1 num) (\<lambda>num.
          bindE (AssignUInt16 1 (sc_plus s)) (\<lambda>plus.
          bindE (ShiftLeft (nat ex) plus) (\<lambda>plus.
          bindE (AssignUInt16 1 (sc_minus s)) (\<lambda>minus.
          bindE (ShiftLeft (nat ex) minus) (\<lambda>minus.
          Inr \<lparr>sc_num = num, sc_den = den, sc_minus = minus, sc_plus = plus\<rparr>))))))
     else Inr (s\<lparr>sc_num := num, sc_den := den\<rparr>)))))"

definition InitialScaledStartValuesNegativeExponentPositivePower :: "64 word \<Rightarrow> int \<Rightarrow> int \<Rightarrow> bool \<Rightarrow> scaled \<Rightarrow> scaled res" where
  "InitialScaledStartValuesNegativeExponentPositivePower significand ex estimated_power need_boundary_deltas s =
     bindE (AssignUInt64 (unat significand) (sc_num s)) (\<lambda>num.
     bindE (AssignPowerUInt16 10 (nat estimated_power) (sc_den s)) (\<lambda>den.
     bindE (ShiftLeft (nat (- ex)) den) (\<lambda>den.
     if need_boundary_deltas
     then bindE (ShiftLeft 1 den) (\<lambda>den.
          bindE (ShiftLeft 1 num) (\<lambda>num.
          bindE (AssignUInt16 1 (sc_plus s)) (\<lambda>plus.
          bindE (AssignUInt16 1 (sc_minus s)) (\<lambda>minus.
          Inr \<lparr>sc_num = num, sc_den = den, sc_minus = minus, sc_plus = plus\<rparr>))))
     else Inr (s\<lparr>sc_num := num, sc_den := den\<rparr>))))"

definition InitialScaledStartValuesNegativeExponentNegativePower :: "64 word \<Rightarrow> int \<Rightarrow> int \<Rightarrow> bool \<Rightarrow> scaled \<Rightarrow> scaled res" where
  "InitialScaledStartValuesNegativeExponentNegativePower significand ex estimated_power need_boundary_deltas s =
     bindE (AssignPowerUInt16 10 (nat (- estimated_power)) (sc_num s)) (\<lambda>power_ten.
     bindE (if need_boundary_deltas
            then bindE (AssignBignum power_ten (sc_plus s)) (\<lambda>plus.
                 bindE (AssignBignum power_ten (sc_minus s)) (\<lambda>minus. Inr (minus, plus)))
            else Inr (sc_minus s, sc_plus s)) (\<lambda>(minus, plus).
     bindE (MultiplyByUInt64 (unat significand) power_ten) (\<lambda>num.
     bindE (AssignUInt16 1 (sc_den s)) (\<lambda>den.
     bindE (ShiftLeft (nat (- ex)) den) (\<lambda>den.
     if need_boundary_deltas
     then bindE (ShiftLeft 1 num) (\<lambda>num.
          bindE (ShiftLeft 1 den) (\<lambda>den.
          Inr \<lparr>sc_num = num, sc_den = den, sc_minus = minus, sc_plus = plus\<rparr>))
     else Inr \<lparr>sc_num = num, sc_den = den, sc_minus = minus, sc_plus = plus\<rparr>)))))"

definition InitialScaledStartValues :: "64 word \<Rightarrow> int \<Rightarrow> bool \<Rightarrow> int \<Rightarrow> bool \<Rightarrow> scaled \<Rightarrow> scaled res" where
  "InitialScaledStartValues significand ex lower_boundary_is_closer estimated_power need_boundary_deltas s =
     bindE (if ex \<ge> 0
            then InitialScaledStartValuesPositiveExponent significand ex estimated_power need_boundary_deltas s
            else if estimated_power \<ge> 0
            then InitialScaledStartValuesNegativeExponentPositivePower significand ex estimated_power need_boundary_deltas s
            else InitialScaledStartValuesNegativeExponentNegativePower significand ex estimated_power need_boundary_deltas s) (\<lambda>s.
     if need_boundary_deltas \<and> lower_boundary_is_closer
     then bindE (ShiftLeft 1 (sc_den s)) (\<lambda>den.
          bindE (ShiftLeft 1 (sc_num s)) (\<lambda>num.
          bindE (ShiftLeft 1 (sc_plus s)) (\<lambda>plus.
          Inr (s\<lparr>sc_num := num, sc_den := den, sc_plus := plus\<rparr>))))
     else Inr s)"

text \<open>\<^verbatim>\<open>is_even ? a + b >= c : a + b > c\<close>\<close>

definition in_room_plus :: "bool \<Rightarrow> bignum \<Rightarrow> bignum \<Rightarrow> bignum \<Rightarrow> bool res" where
  "in_room_plus is_even a b c = bindE (bn_PlusCompare a b c) (\<lambda>r. Inr (if is_even then r \<ge> 0 else r > 0))"

definition FixupMultiply10 :: "int \<Rightarrow> bool \<Rightarrow> scaled \<Rightarrow> (int \<times> scaled) res" where
  "FixupMultiply10 estimated_power is_even s =
     bindE (in_room_plus is_even (sc_num s) (sc_plus s) (sc_den s)) (\<lambda>in_range.
     if in_range then Inr (estimated_power + 1, s)
     else bindE (Times10 (sc_num s)) (\<lambda>num.
          bindE (bn_Equal (sc_minus s) (sc_plus s)) (\<lambda>equal.
          if equal
          then bindE (Times10 (sc_minus s)) (\<lambda>minus.
               bindE (AssignBignum minus (sc_plus s)) (\<lambda>plus.
               Inr (estimated_power, s\<lparr>sc_num := num, sc_minus := minus, sc_plus := plus\<rparr>)))
          else bindE (Times10 (sc_minus s)) (\<lambda>minus.
               bindE (Times10 (sc_plus s)) (\<lambda>plus.
               Inr (estimated_power, s\<lparr>sc_num := num, sc_minus := minus, sc_plus := plus\<rparr>))))))"

section \<open>Digit generation\<close>

definition bvec_rd :: "nat list \<Rightarrow> int \<Rightarrow> nat res" where
  "bvec_rd v i = bindE (ASSERT (0 \<le> i)) (\<lambda>_. vec_rd v (nat i))"

definition bvec_wr :: "nat list \<Rightarrow> int \<Rightarrow> nat \<Rightarrow> nat list res" where
  "bvec_wr v i x = bindE (ASSERT (0 \<le> i)) (\<lambda>_. vec_wr v (nat i) x)"

text \<open>\<^verbatim>\<open>ASSERT(buffer[(*length) - 1] != '9'); buffer[(*length) - 1]++;\<close>\<close>

definition round_up_last :: "nat list \<Rightarrow> nat \<Rightarrow> (nat list \<times> nat) res" where
  "round_up_last buffer len =
     bindE (bvec_rd buffer (int len - 1)) (\<lambda>c.
     bindE (ASSERT (c \<noteq> 57)) (\<lambda>_.
     bindE (bvec_wr buffer (int len - 1) (c + 1)) (\<lambda>buffer. Inr (buffer, len))))"

fun shortest_loop :: "nat \<Rightarrow> nat \<Rightarrow> bool \<Rightarrow> bool \<Rightarrow> scaled \<Rightarrow> nat list \<Rightarrow> nat \<Rightarrow> (nat list \<times> nat) res option" where
  "shortest_loop 0 n same is_even s buffer len = None"
| "shortest_loop (Suc k) n same is_even s buffer len =
     bindO (DivideModuloIntBignum n (sc_den s) (sc_num s)) (\<lambda>(digit, num).
     bindO (Some (ASSERT (digit \<le> 9))) (\<lambda>_.
     bindO (Some (vec_wr buffer len (digit + 48))) (\<lambda>buffer.
     let len = len + 1;
         minus = sc_minus s;
         plus = (if same then minus else sc_plus s)
     in bindO (Some (if is_even then bn_LessEqual num minus else bn_Less num minus)) (\<lambda>in_delta_room_minus.
        bindO (Some (in_room_plus is_even num plus (sc_den s))) (\<lambda>in_delta_room_plus.
        if \<not> in_delta_room_minus \<and> \<not> in_delta_room_plus
        then bindO (Some (Times10 num)) (\<lambda>num.
             bindO (Some (Times10 minus)) (\<lambda>minus.
             bindO (Some (if same then Inr (sc_plus s) else Times10 (sc_plus s))) (\<lambda>plus.
             shortest_loop k n same is_even (s\<lparr>sc_num := num, sc_minus := minus, sc_plus := plus\<rparr>) buffer len)))
        else if in_delta_room_minus \<and> in_delta_room_plus
        then bindO (Some (bn_PlusCompare num num (sc_den s))) (\<lambda>cmp_half.
             if cmp_half < 0 then Some (Inr (buffer, len))
             else if cmp_half > 0 then Some (round_up_last buffer len)
             else Some (bindE (bvec_rd buffer (int len - 1)) (\<lambda>c.
                  if (c - 48) mod 2 = 0 then Inr (buffer, len) else round_up_last buffer len)))
        else if in_delta_room_minus then Some (Inr (buffer, len))
        else Some (round_up_last buffer len))))))"

definition GenerateShortestDigits :: "nat \<Rightarrow> bool \<Rightarrow> scaled \<Rightarrow> nat list \<Rightarrow> (nat list \<times> nat) res option" where
  "GenerateShortestDigits n is_even s buffer =
     bindO (Some (bn_Equal (sc_minus s) (sc_plus s))) (\<lambda>same. shortest_loop n n same is_even s buffer 0)"

fun counted_loop :: "nat \<Rightarrow> nat \<Rightarrow> nat \<Rightarrow> bignum \<Rightarrow> bignum \<Rightarrow> nat list \<Rightarrow> (bignum \<times> nat list) res option" where
  "counted_loop n i 0 den num buffer = Some (Inr (num, buffer))"
| "counted_loop n i (Suc k) den num buffer =
     bindO (DivideModuloIntBignum n den num) (\<lambda>(digit, num).
     bindO (Some (ASSERT (digit \<le> 9))) (\<lambda>_.
     bindO (Some (vec_wr buffer i (digit + 48))) (\<lambda>buffer.
     bindO (Some (Times10 num)) (\<lambda>num.
     counted_loop n (i + 1) k den num buffer))))"

fun carry_loop :: "nat list \<Rightarrow> nat \<Rightarrow> nat list res" where
  "carry_loop buffer 0 = Inr buffer"
| "carry_loop buffer (Suc i) =
     bindE (vec_rd buffer (Suc i)) (\<lambda>c.
     if c \<noteq> 48 + 10 then Inr buffer
     else bindE (vec_wr buffer (Suc i) 48) (\<lambda>buffer.
          bindE (vec_rd buffer i) (\<lambda>c.
          bindE (vec_wr buffer i (c + 1)) (\<lambda>buffer. carry_loop buffer i))))"

definition GenerateCountedDigits :: "nat \<Rightarrow> int \<Rightarrow> int \<Rightarrow> scaled \<Rightarrow> nat list \<Rightarrow> (nat list \<times> int \<times> int) res option" where
  "GenerateCountedDigits n count decimal_point s buffer =
     bindO (Some (ASSERT (count \<ge> 0))) (\<lambda>_.
     bindO (counted_loop n 0 (nat (count - 1)) (sc_den s) (sc_num s) buffer) (\<lambda>(num, buffer).
     bindO (DivideModuloIntBignum n (sc_den s) num) (\<lambda>(digit, num).
     Some (
     bindE (bn_PlusCompare num num (sc_den s)) (\<lambda>c.
     let digit = (if c \<ge> 0 then uint16 (digit + 1) else digit) in
     bindE (ASSERT (digit \<le> 10)) (\<lambda>_.
     bindE (bvec_wr buffer (count - 1) (digit + 48)) (\<lambda>buffer.
     bindE (carry_loop buffer (nat (count - 1))) (\<lambda>buffer.
     bindE (vec_rd buffer 0) (\<lambda>first.
     if first = 48 + 10
     then bindE (vec_wr buffer 0 49) (\<lambda>buffer. Inr (buffer, count, decimal_point + 1))
     else Inr (buffer, count, decimal_point))))))))))"

definition BignumToFixed :: "nat \<Rightarrow> int \<Rightarrow> int \<Rightarrow> scaled \<Rightarrow> nat list \<Rightarrow> (nat list \<times> int \<times> int) res option" where
  "BignumToFixed n requested_digits decimal_point s buffer =
     (if - decimal_point > requested_digits then Some (Inr (buffer, 0, - requested_digits))
      else if - decimal_point = requested_digits
      then Some (
           bindE (ASSERT (decimal_point = - requested_digits)) (\<lambda>_.
           bindE (Times10 (sc_den s)) (\<lambda>den.
           bindE (bn_PlusCompare (sc_num s) (sc_num s) den) (\<lambda>c.
           if c \<ge> 0
           then bindE (vec_wr buffer 0 49) (\<lambda>buffer. Inr (buffer, 1, decimal_point + 1))
           else Inr (buffer, 0, decimal_point)))))
      else GenerateCountedDigits n (decimal_point + requested_digits) decimal_point s buffer)"

text \<open>The bignums \<^verbatim>\<open>BignumDtoa\<close> declares.\<close>

definition scaled_new :: scaled where
  "scaled_new = \<lparr>sc_num = bn_new, sc_den = bn_new, sc_minus = bn_new, sc_plus = bn_new\<rparr>"

text \<open>The significand, the exponent and \<^verbatim>\<open>lower_boundary_is_closer\<close> at the start of \<^verbatim>\<open>BignumDtoa\<close>.\<close>

definition dtoa_input :: "BignumDtoaMode \<Rightarrow> 64 word \<Rightarrow> (64 word \<times> int \<times> bool) res" where
  "dtoa_input mode v =
     (if mode = BIGNUM_DTOA_SHORTEST_SINGLE
      then let f = float_of_double v in
           bindE (ASSERT (dbl_eq (double_of_float f) v)) (\<lambda>_.
           Inr (ucast (Single_Significand f), Single_Exponent f, Single_LowerBoundaryIsCloser f))
      else Inr (Double_Significand v, Double_Exponent v, Double_LowerBoundaryIsCloser v))"

definition BignumDtoa :: "nat \<Rightarrow> 64 word \<Rightarrow> BignumDtoaMode \<Rightarrow> int \<Rightarrow> nat list \<Rightarrow> (nat list \<times> int \<times> int) res option" where
  "BignumDtoa n v mode requested_digits buffer =
     bindO (Some (ASSERT (dbl_positive v))) (\<lambda>_.
     bindO (Some (ASSERT (\<not> Double_IsSpecial v))) (\<lambda>_.
     bindO (Some (dtoa_input mode v)) (\<lambda>(significand, ex, lower_boundary_is_closer).
     let need_boundary_deltas = (mode = BIGNUM_DTOA_SHORTEST \<or> mode = BIGNUM_DTOA_SHORTEST_SINGLE);
         is_even = (significand AND 1 = 0)
     in bindO (NormalizedExponent significand ex) (\<lambda>normalized_exponent.
        let estimated_power = EstimatePower normalized_exponent in
        if mode = BIGNUM_DTOA_FIXED \<and> - estimated_power - 1 > requested_digits
        then Some (bindE (vec_wr buffer 0 0) (\<lambda>buffer. Inr (buffer, 0, - requested_digits)))
        else
        bindO (Some (ASSERT (kMaxSignificantBits \<ge> 324 * 4))) (\<lambda>_.
        bindO (Some (InitialScaledStartValues significand ex lower_boundary_is_closer estimated_power need_boundary_deltas scaled_new)) (\<lambda>s.
        bindO (Some (FixupMultiply10 estimated_power is_even s)) (\<lambda>(decimal_point, s).
        bindO (if need_boundary_deltas
               then bindO (GenerateShortestDigits n is_even s buffer) (\<lambda>(buffer, len). Some (Inr (buffer, int len, decimal_point)))
               else if mode = BIGNUM_DTOA_FIXED
               then BignumToFixed n requested_digits decimal_point s buffer
               else GenerateCountedDigits n requested_digits decimal_point s buffer) (\<lambda>(buffer, len, decimal_point).
        Some (bindE (bvec_wr buffer len 0) (\<lambda>buffer. Inr (buffer, len, decimal_point)))))))))))"

end
