(* ===== verification/BignumDtoa_Estimate.thy ===== *)
theory BignumDtoa_Estimate
  imports BignumDtoa
begin

text \<open>
  \<^verbatim>\<open>EstimatePower\<close>: the rounding error of its three operations on doubles, and the bounds on its result.  That
  \<open>log 10 2\<close> lies between the convergents \<open>643 / 2136\<close> and \<open>146 / 485\<close> is all that is needed of the logarithm.
\<close>

section \<open>Rounding to 53 bits\<close>

lemma nbits_0: "nbits 0 = 0"
  by (subst nbits.simps) simp

lemma nbits_bounds: "0 < m \<Longrightarrow> 2 ^ (nbits m - 1) \<le> m \<and> m < 2 ^ nbits m \<and> 0 < nbits m"
proof (induction m rule: nbits.induct)
  case (1 m)
  show ?case
  proof (cases "m div 2 = 0")
    case True
    then have "m = 1" using 1 by simp
    then show ?thesis by (subst (1 2 3) nbits.simps) (simp add: nbits_0)
  next
    case False
    then have ih: "2 ^ (nbits (m div 2) - 1) \<le> m div 2" "m div 2 < 2 ^ nbits (m div 2)" "0 < nbits (m div 2)" using 1 by auto
    have n: "nbits m = Suc (nbits (m div 2))" using 1 by (subst nbits.simps) simp
    have "(2::nat) ^ nbits (m div 2) = 2 * 2 ^ (nbits (m div 2) - 1)" using ih(3) by (simp flip: power_Suc)
    then show ?thesis using ih unfolding n by (simp, linarith)
  qed
qed

lemma rne_error: "\<bar>real (rne m s) * 2 ^ s - real m\<bar> \<le> 2 ^ s / 2"
proof -
  define q r where "q = m div 2 ^ s" and "r = m mod 2 ^ s"
  have "q * 2 ^ s + r = m" unfolding q_def r_def by (rule div_mult_mod_eq)
  then have m: "real m = real q * 2 ^ s + real r" by (metis of_nat_add of_nat_mult of_nat_numeral of_nat_power)
  have r: "real r < 2 ^ s" by (metis mod_less_divisor of_nat_less_iff of_nat_numeral of_nat_power pos2 r_def zero_less_power)
  show ?thesis
  proof (cases "2 * r > 2 ^ s \<or> 2 * r = 2 ^ s \<and> odd q")
    case True
    then have "real (2 ^ s) \<le> real (2 * r)" by (intro of_nat_mono) linarith
    moreover have "rne m s = q + 1" using True by (simp add: rne_def q_def r_def Let_def)
    ultimately show ?thesis using m r by (simp add: algebra_simps)
  next
    case False
    then have "real (2 * r) \<le> real (2 ^ s)" by (intro of_nat_mono) linarith
    moreover have "rne m s = q" using False by (auto simp: rne_def q_def r_def Let_def)
    ultimately show ?thesis using m by simp
  qed
qed

definition pval :: "int \<times> int \<Rightarrow> real" where
  "pval = (\<lambda>(m, e). of_int m * 2 powi e)"

lemma rne_0: "rne m 0 = m"
  by (simp add: rne_def)

lemma round53_error: "\<bar>pval (round53 (m, e)) - pval (m, e)\<bar> \<le> \<bar>pval (m, e)\<bar> / 2 ^ 53"
proof -
  define a s where "a = nat \<bar>m\<bar>" and "s = nbits a - 53"
  define g :: real where "g = of_int (sgn m)"
  have m: "of_int m = g * real a" and g: "\<bar>g\<bar> * real a = \<bar>of_int m\<bar>" by (simp_all add: a_def g_def sgn_if)
  have p: "(2::real) powi (e + int s) = 2 ^ s * 2 powi e" by (simp add: power_int_add)
  have "pval (round53 (m, e)) = g * real (rne a s) * (2 ^ s * 2 powi e)"
    unfolding pval_def round53_def Let_def prod.case a_def[symmetric] s_def[symmetric] p g_def by simp
  moreover have "pval (m, e) = g * real a * 2 powi e" unfolding pval_def prod.case m by (rule refl)
  ultimately have v: "pval (round53 (m, e)) - pval (m, e) = g * (real (rne a s) * 2 ^ s - real a) * 2 powi e"
    by (simp add: left_diff_distrib right_diff_distrib)
  have "\<bar>real (rne a s) * 2 ^ s - real a\<bar> \<le> real a / 2 ^ 53"
  proof (cases "s = 0")
    case False
    then have a: "0 < a" by (cases "a = 0") (simp_all add: s_def nbits_0)
    have "2 ^ (s + 52) \<le> a" using nbits_bounds[OF a] False by (simp add: s_def)
    then have "real (2 ^ (s + 52)) \<le> real a" by (rule of_nat_mono)
    then show ?thesis using rne_error[of a s] by (simp add: power_add)
  qed (simp add: rne_0)
  then have "\<bar>g\<bar> * \<bar>real (rne a s) * 2 ^ s - real a\<bar> \<le> \<bar>g\<bar> * (real a / 2 ^ 53)" by (rule mult_left_mono) simp
  then have "\<bar>g * (real (rne a s) * 2 ^ s - real a)\<bar> \<le> \<bar>of_int m\<bar> / 2 ^ 53" unfolding g[symmetric] abs_mult by simp
  then have "\<bar>g * (real (rne a s) * 2 ^ s - real a)\<bar> * 2 powi e \<le> \<bar>of_int m\<bar> / 2 ^ 53 * 2 powi e"
    by (rule mult_right_mono) simp
  moreover have "\<bar>pval (round53 (m, e)) - pval (m, e)\<bar> = \<bar>g * (real (rne a s) * 2 ^ s - real a)\<bar> * 2 powi e"
    unfolding v by (simp add: abs_mult)
  moreover have "\<bar>pval (m, e)\<bar> / 2 ^ 53 = \<bar>of_int m\<bar> / 2 ^ 53 * 2 powi e" by (simp add: pval_def abs_mult)
  ultimately show ?thesis by (simp only:)
qed

lemma pval_mult: "\<bar>pval (dbl_mult x y) - pval x * pval y\<bar> \<le> \<bar>pval x * pval y\<bar> / 2 ^ 53"
proof -
  obtain m1 e1 m2 e2 where xy: "x = (m1, e1)" "y = (m2, e2)" by (cases x, cases y)
  have "pval x * pval y = pval (m1 * m2, e1 + e2)" by (simp add: xy pval_def power_int_add)
  then show ?thesis using round53_error[of "m1 * m2" "e1 + e2"] by (simp add: xy dbl_mult_def)
qed

lemma powi_split: "e' \<le> e \<Longrightarrow> (2::real) ^ nat (e - e') * 2 powi e' = 2 powi e"
  by (simp add: power_int_diff flip: power_int_of_nat)

lemma pval_minus: "\<bar>pval (dbl_minus x y) - (pval x - pval y)\<bar> \<le> \<bar>pval x - pval y\<bar> / 2 ^ 53"
proof -
  obtain m1 e1 m2 e2 where xy: "x = (m1, e1)" "y = (m2, e2)" by (cases x, cases y)
  define e where "e = min e1 e2"
  have "pval (m1 * 2 ^ nat (e1 - e) - m2 * 2 ^ nat (e2 - e), e) = pval x - pval y"
    using powi_split[of e e1] powi_split[of e e2] by (simp add: xy pval_def e_def left_diff_distrib mult.assoc)
  then show ?thesis using round53_error[of "m1 * 2 ^ nat (e1 - e) - m2 * 2 ^ nat (e2 - e)" e]
    by (simp add: xy dbl_minus_def e_def Let_def)
qed

lemma dbl_ceil_eq: "dbl_ceil x = \<lceil>pval x\<rceil>"
proof -
  obtain m e where x: "x = (m, e)" by (cases x)
  show ?thesis
  proof (cases "0 \<le> e")
    case True
    then have "pval x = of_int (m * 2 ^ nat e)" by (simp add: x pval_def power_int_def)
    then show ?thesis using True by (simp only: x dbl_ceil_def ceiling_of_int prod.case if_True)
  next
    case False
    define k where "k = nat (- e)"
    have "e = - int k" using False by (simp add: k_def)
    then have "pval x = - (of_int (- m) / of_int (2 ^ k))" by (simp add: x pval_def power_int_minus divide_inverse)
    then have "\<lceil>pval x\<rceil> = - (- m div 2 ^ k)" by (simp only: ceiling_minus floor_divide_of_int_eq)
    then show ?thesis using False by (simp add: x dbl_ceil_def k_def)
  qed
qed


section \<open>The estimate\<close>

lemma pow10_le_pow2: "2136 * k \<le> 643 * n \<Longrightarrow> (10::nat) ^ k \<le> 2 ^ n"
proof -
  assume h: "2136 * k \<le> 643 * n"
  have "((10::nat) ^ k) ^ 643 = (10 ^ 643) ^ k" by (simp only: power_mult[symmetric] mult.commute)
  also have "\<dots> \<le> (2 ^ 2136) ^ k" by (intro power_mono) simp_all
  also have "\<dots> = 2 ^ (2136 * k)" by (simp only: power_mult)
  also have "\<dots> \<le> 2 ^ (643 * n)" using h by (intro power_increasing) simp_all
  also have "\<dots> = (2 ^ n) ^ 643" by (simp only: power_mult[symmetric] mult.commute)
  finally have "((10::nat) ^ k) ^ Suc 642 \<le> (2 ^ n) ^ Suc 642" by (simp only: Suc_eq_plus1 numeral_plus_one) simp
  then show ?thesis by (rule power_le_imp_le_base) simp
qed

lemma pow2_le_pow10: "146 * m \<le> 485 * k \<Longrightarrow> (2::nat) ^ m \<le> 10 ^ k"
proof -
  assume h: "146 * m \<le> 485 * k"
  have "((2::nat) ^ m) ^ 485 = (2 ^ 485) ^ m" by (simp only: power_mult[symmetric] mult.commute)
  also have "\<dots> \<le> (10 ^ 146) ^ m" by (intro power_mono) simp_all
  also have "\<dots> = 10 ^ (146 * m)" by (simp only: power_mult)
  also have "\<dots> \<le> 10 ^ (485 * k)" using h by (intro power_increasing) simp_all
  also have "\<dots> = (10 ^ k) ^ 485" by (simp only: power_mult[symmetric] mult.commute)
  finally have "((2::nat) ^ m) ^ Suc 484 \<le> (10 ^ k) ^ Suc 484" by (simp only: Suc_eq_plus1 numeral_plus_one) simp
  then show ?thesis by (rule power_le_imp_le_base) simp
qed


lemma estimate_error:
  assumes "\<bar>n\<bar> \<le> 1100"
  defines "x \<equiv> dbl_minus (dbl_mult (n, 0) k1Log10) k1em10"
  shows "\<bar>pval x - (of_int n * pval k1Log10 - pval k1em10)\<bar> \<le> 1 / 10 ^ 12"
proof -
  define u w c where "u = pval (dbl_mult (n, 0) k1Log10)" and "w = of_int n * pval k1Log10" and "c = pval k1em10"
  have K: "0 < pval k1Log10" "pval k1Log10 < 1 / 2" and c: "0 < c" "c < 1"
    by (simp_all add: c_def pval_def k1Log10_def k1em10_def power_int_minus)
  have "\<bar>w\<bar> \<le> 1100 * (1 / 2)" unfolding w_def abs_mult using assms(1) K by (intro mult_mono) simp_all
  then have w: "\<bar>w\<bar> \<le> 550" by simp
  have "pval (n, 0) * pval k1Log10 = w" unfolding w_def by (simp add: pval_def)
  then have "\<bar>u - w\<bar> \<le> \<bar>w\<bar> / 2 ^ 53" using pval_mult[of "(n, 0)" k1Log10] by (simp only: u_def)
  then have e1: "\<bar>u - w\<bar> \<le> 550 / 2 ^ 53" using w by simp
  then have "\<bar>u - w\<bar> \<le> 1" by simp
  then have "\<bar>u - c\<bar> \<le> 552" using w c by linarith
  moreover have "\<bar>pval x - (u - c)\<bar> \<le> \<bar>u - c\<bar> / 2 ^ 53" unfolding x_def u_def c_def by (rule pval_minus)
  ultimately have "\<bar>pval x - (u - c)\<bar> \<le> 552 / 2 ^ 53" by simp
  moreover have "(550::real) / 2 ^ 53 + 552 / 2 ^ 53 \<le> 1 / 10 ^ 12" by simp
  ultimately show ?thesis using e1 unfolding w_def[symmetric] c_def[symmetric] by linarith
qed

lemma log_constants:
  "(2136::real) * pval k1Log10 < 643 + 1 / 12500" "(643::real) < 2136 * pval k1Log10"
  "(146::real) - 1 / 2000 < 485 * pval k1Log10" "(485::real) * pval k1Log10 < 146"
  "9 / 10 ^ 11 < pval k1em10" "pval k1em10 < 11 / 10 ^ 11"
  by (simp_all add: pval_def k1Log10_def k1em10_def power_int_minus)


text \<open>The estimate against multiples of the two convergents.\<close>

lemma estimate_lines:
  assumes "- 1100 \<le> n" "n \<le> 1100"
  defines "k \<equiv> dbl_ceil (dbl_minus (dbl_mult (n, 0) k1Log10) k1em10)"
  shows "0 \<le> n \<Longrightarrow> 2136 * (k - 1) \<le> 643 * n" "n < 0 \<Longrightarrow> 485 * (k - 1) \<le> 146 * n"
    and "0 \<le> n \<Longrightarrow> 292 * n \<le> 485 * (2 * k + 1)" "n < 0 \<Longrightarrow> 1286 * n \<le> 2136 * (2 * k + 1)"
proof -
  define x K where "x = pval (dbl_minus (dbl_mult (n, 0) k1Log10) k1em10)" and "K = pval k1Log10"
  define w where "w = real_of_int n * K"
  note c = log_constants[folded K_def]
  have k: "k = \<lceil>x\<rceil>" unfolding k_def x_def by (rule dbl_ceil_eq)
  then have kx: "of_int k - 1 < x" "x \<le> of_int k" by linarith+
  have "\<bar>x - (of_int n * K - pval k1em10)\<bar> \<le> 1 / 10 ^ 12" using estimate_error[of n] assms(1,2) by (simp add: x_def K_def)
  then have x: "x < of_int n * K" "of_int n * K - 1 / 1000000000 < x" using c(5,6) by (auto simp: abs_if split: if_splits)
  have n: "- 1100 \<le> real_of_int n" "real_of_int n \<le> 1100" using assms(1,2) by linarith+
  have int_less: "a < b" if "real_of_int a < real_of_int b" for a b using that by (simp only: of_int_less_iff)
  have int_le: "a \<le> b" if "real_of_int a \<le> real_of_int b" for a b using that by (simp only: of_int_le_iff)
  have w: "of_int k - 1 < w" "w - 1 / 1000000000 < of_int k" using kx x unfolding w_def[symmetric] by linarith+
  have sc: "real_of_int n * (2136 * K) = 2136 * w" "real_of_int n * (485 * K) = 485 * w" by (simp_all add: w_def)
  show "2136 * (k - 1) \<le> 643 * n" if "0 \<le> n"
  proof -
    have "real_of_int n * (2136 * K) \<le> real_of_int n * (643 + 1 / 12500)" using that c(1) by (intro mult_left_mono) simp_all
    then have "2136 * (of_int k - 1) < 643 * real_of_int n + 1" using w n unfolding sc by (simp add: distrib_left)
    then show ?thesis using int_less[of "2136 * (k - 1)" "643 * n + 1"] by simp
  qed
  show "485 * (k - 1) \<le> 146 * n" if "n < 0"
  proof -
    have "real_of_int n * (485 * K) \<le> real_of_int n * (146 - 1 / 2000)" using that c(3) by (intro mult_left_mono_neg) simp_all
    then have "485 * (of_int k - 1) < 146 * real_of_int n + 1" using w n unfolding sc by (simp add: right_diff_distrib)
    then show ?thesis using int_less[of "485 * (k - 1)" "146 * n + 1"] by simp
  qed
  show "292 * n \<le> 485 * (2 * k + 1)" if "0 \<le> n"
  proof -
    have "real_of_int n * (146 - 1 / 2000) \<le> real_of_int n * (485 * K)" using that c(3) by (intro mult_left_mono) simp_all
    then have "292 * real_of_int n \<le> 485 * (2 * of_int k + 1)" using w n unfolding sc by (simp add: right_diff_distrib)
    then show ?thesis using int_le[of "292 * n" "485 * (2 * k + 1)"] by simp
  qed
  show "1286 * n \<le> 2136 * (2 * k + 1)" if "n < 0"
  proof -
    have "real_of_int n * (643 + 1 / 12500) \<le> real_of_int n * (2136 * K)" using that c(1) by (intro mult_left_mono_neg) simp_all
    then have "1286 * real_of_int n \<le> 2136 * (2 * of_int k + 1)" using w n unfolding sc by (simp add: distrib_left)
    then show ?thesis using int_le[of "1286 * n" "2136 * (2 * k + 1)"] by simp
  qed
qed

lemma EstimatePower_eq: "EstimatePower e = dbl_ceil (dbl_minus (dbl_mult (e + 52, 0) k1Log10) k1em10)"
  by (simp add: EstimatePower_def Double_kSignificandSize_def add.commute)


lemma powi_nat: "0 \<le> i \<Longrightarrow> x powi i = x ^ nat i" "i < 0 \<Longrightarrow> x powi i = inverse (x ^ nat (- i))" for x :: real
  by (simp_all add: power_int_def power_inverse)

lemma of_nat_power_le: "(a::nat) ^ i \<le> b ^ j \<Longrightarrow> (of_nat a :: real) ^ i \<le> of_nat b ^ j"
  by (metis of_nat_le_iff of_nat_power)

text \<open>
  The result is the decimal magnitude of every number in \<open>[2 ^ n, 2 ^ (n + 1))\<close>, \<open>n\<close> being the exponent of the leading bit, or one below.
\<close>

lemma EstimatePower_bounds:
  assumes "- 1100 \<le> e + 52" "e + 52 \<le> 1100"
  shows "(10::real) powi (EstimatePower e - 1) \<le> 2 powi (e + 52)" "(2::real) powi (2 * (e + 52)) \<le> 10 powi (2 * EstimatePower e + 1)"
    "- 335 \<le> EstimatePower e" "EstimatePower e \<le> 333"
proof -
  define n k where "n = e + 52" and "k = EstimatePower e"
  note l = estimate_lines[OF assms, folded EstimatePower_eq, folded n_def k_def]
  have n: "- 1100 \<le> n" "n \<le> 1100" using assms by (simp_all add: n_def)
  have "- 335 \<le> k \<and> k \<le> 333"
  proof (cases "0 \<le> n")
    case True
    then show ?thesis using l(1)[OF True] l(3)[OF True] n by simp
  next
    case False
    then have "n < 0" by simp
    then show ?thesis using l(2)[OF \<open>n < 0\<close>] l(4)[OF \<open>n < 0\<close>] n by simp
  qed
  then show "- 335 \<le> EstimatePower e" "EstimatePower e \<le> 333" by (simp_all add: k_def)
  show "(10::real) powi (EstimatePower e - 1) \<le> 2 powi (e + 52)" unfolding n_def[symmetric] k_def[symmetric]
  proof (cases "0 \<le> n")
    case True
    show "(10::real) powi (k - 1) \<le> 2 powi n"
    proof (cases "0 \<le> k - 1")
      case k: True
      have "2136 * nat (k - 1) \<le> 643 * nat n" using l(1)[OF True] k by simp
      then show ?thesis using of_nat_power_le[OF pow10_le_pow2] True k by (simp add: powi_nat)
    next
      case k: False
      have "(10::real) powi (k - 1) \<le> 1" using k by (simp add: powi_nat inverse_le_1_iff)
      also have "1 \<le> (2::real) powi n" using True by (simp add: powi_nat)
      finally show ?thesis .
    qed
  next
    case False
    then have "146 * nat (- n) \<le> 485 * nat (1 - k)" "k - 1 < 0" using l(2) by simp_all
    then show "(10::real) powi (k - 1) \<le> 2 powi n"
      using of_nat_power_le[OF pow2_le_pow10] False by (simp add: powi_nat le_imp_inverse_le)
  qed
  show "(2::real) powi (2 * (e + 52)) \<le> 10 powi (2 * EstimatePower e + 1)" unfolding n_def[symmetric] k_def[symmetric]
  proof (cases "0 \<le> n")
    case True
    then have "146 * nat (2 * n) \<le> 485 * nat (2 * k + 1)" "0 \<le> 2 * k + 1" using l(3)[OF True] by simp_all
    then show "(2::real) powi (2 * n) \<le> 10 powi (2 * k + 1)"
      using of_nat_power_le[OF pow2_le_pow10] True by (simp add: powi_nat)
  next
    case False
    show "(2::real) powi (2 * n) \<le> 10 powi (2 * k + 1)"
    proof (cases "0 \<le> 2 * k + 1")
      case k: True
      have "(2::real) powi (2 * n) \<le> 1" using False by (simp add: powi_nat inverse_le_1_iff)
      also have "1 \<le> (10::real) powi (2 * k + 1)" using k by (simp add: powi_nat)
      finally show ?thesis .
    next
      case k: False
      then have "2136 * nat (- (2 * k + 1)) \<le> 643 * nat (- (2 * n))" using l(4) False by simp
      then show ?thesis using of_nat_power_le[OF pow10_le_pow2] k False by (simp add: powi_nat le_imp_inverse_le)
    qed
  qed
qed

end
