(* ===== verification/Ieee_Single.thy ===== *)
theory Ieee_Single
  imports Ieee_Correct BignumDtoa_Estimate
begin

text \<open>
  Rounding to the nearest number of a binary format, for doubles and floats alike, and the floats of \<^verbatim>\<open>ieee.h\<close>: their fields, their
  neighbours, the boundaries that \<^verbatim>\<open>Single::NormalizedBoundaries\<close> computes, and the conversion of a float to a double and back.
\<close>

unbundle bit_operations_syntax

section \<open>Nearest numbers of a binary format\<close>

text \<open>A number between the boundaries, which count for an even significand.\<close>

definition between :: "bool \<Rightarrow> real \<Rightarrow> real \<Rightarrow> real \<Rightarrow> bool" where
  "between is_even lo up y \<longleftrightarrow> (if is_even then lo \<le> y \<and> y \<le> up else lo < y \<and> y < up)"

text \<open>The pattern below \<open>t\<close>, or \<open>t\<close>, whose number is nearest to \<open>x\<close>; a tie goes to the even pattern.\<close>

definition nearest_in :: "(nat \<Rightarrow> real) \<Rightarrow> nat \<Rightarrow> real \<Rightarrow> nat \<Rightarrow> bool" where
  "nearest_in val t x n \<longleftrightarrow> n \<le> t \<and> (\<forall>m \<le> t. m \<noteq> n \<longrightarrow> \<bar>x - val n\<bar> < \<bar>x - val m\<bar> \<or> \<bar>x - val n\<bar> = \<bar>x - val m\<bar> \<and> even n)"

lemma nearer_midpoint:
  fixes a b c lo up x :: real
  assumes "2 * lo = a + b" "2 * up = b + c" "a < b" "b < c"
  shows "\<bar>x - b\<bar> < \<bar>x - a\<bar> \<longleftrightarrow> lo < x" "\<bar>x - b\<bar> = \<bar>x - a\<bar> \<longleftrightarrow> lo = x"
    "\<bar>x - b\<bar> < \<bar>x - c\<bar> \<longleftrightarrow> x < up" "\<bar>x - b\<bar> = \<bar>x - c\<bar> \<longleftrightarrow> x = up"
  using assms by linarith+

text \<open>A format: the number of each pattern, in increasing order up to the pattern of infinity.\<close>

locale binary_format =
  fixes val :: "nat \<Rightarrow> real" and inf_pat :: nat
  assumes step: "n < inf_pat \<Longrightarrow> val n < val (Suc n)"
begin

lemma val_mono: "m < n \<Longrightarrow> n \<le> inf_pat \<Longrightarrow> val m < val n"
proof (induction n)
  case (Suc n)
  then show ?case using step[of n] by (cases "m = n") auto
qed simp

lemma nearest_iff:
  assumes n: "0 < n" "n < inf_pat" and lo: "2 * lo = val (n - 1) + val n" and up: "2 * up = val n + val (Suc n)"
  shows "nearest_in val inf_pat x n \<longleftrightarrow> between (even n) lo up x"
proof -
  have st: "val (n - 1) < val n" "val n < val (Suc n)" using step[of "n - 1"] step[of n] n by simp_all
  note mid = nearer_midpoint[OF lo up st]
  show ?thesis
  proof
    assume "nearest_in val inf_pat x n"
    then have r: "\<bar>x - val n\<bar> < \<bar>x - val m\<bar> \<or> \<bar>x - val n\<bar> = \<bar>x - val m\<bar> \<and> even n" if "m \<le> inf_pat" "m \<noteq> n" for m
      using that by (auto simp: nearest_in_def)
    from r[of "n - 1"] r[of "Suc n"] n have "lo < x \<or> lo = x \<and> even n" "x < up \<or> x = up \<and> even n" unfolding mid by linarith+
    then show "between (even n) lo up x" unfolding between_def by auto
  next
    assume b: "between (even n) lo up x"
    then have le: "lo \<le> x" "x \<le> up" by (auto simp: between_def split: if_splits)
    have "\<bar>x - val n\<bar> < \<bar>x - val m\<bar> \<or> \<bar>x - val n\<bar> = \<bar>x - val m\<bar> \<and> even n" if m: "m \<le> inf_pat" "m \<noteq> n" for m
    proof -
      consider "m = n - 1" | "m < n - 1" | "m = Suc n" | "Suc n < m" using m(2) n by linarith
      then show ?thesis
      proof cases
        case 1
        then show ?thesis using b unfolding 1 mid between_def by (auto split: if_splits)
      next
        case 2
        then show ?thesis using val_mono[of m "n - 1"] n lo le st by linarith
      next
        case 3
        then show ?thesis using b unfolding 3 mid between_def by (auto split: if_splits)
      next
        case 4
        then show ?thesis using val_mono[of "Suc n" m] m n up le st by linarith
      qed
    qed
    then show "nearest_in val inf_pat x n" using n by (auto simp: nearest_in_def)
  qed
qed

end

section \<open>Doubles\<close>

lemma unat_of_small: "n < 2 ^ 64 \<Longrightarrow> unat (word_of_nat n :: 64 word) = n"
  by (simp add: unat_of_nat take_bit_eq_mod)

lemma succ_pattern: "(word_of_nat (Suc n) :: 'a::len word) = word_of_nat n + 1"
  by simp

interpretation dbl_format: binary_format "\<lambda>n. dbl_value (word_of_nat n)" "2047 * 2 ^ 52"
  by unfold_locales (simp only: succ_pattern, rule value_less_succ, simp add: unat_of_small)

lemma rounds_to_nearest: "rounds_to x d \<longleftrightarrow> nearest_in (\<lambda>n. dbl_value (word_of_nat n)) (2047 * 2 ^ 52) x (unat d)"
proof -
  have w: "(word_of_nat (unat d') :: 64 word) = d'" for d' :: "64 word" by simp
  have all: "(\<forall>d'. unat d' \<le> 2047 * 2 ^ 52 \<and> d' \<noteq> d \<longrightarrow> P (dbl_value d')) \<longleftrightarrow> (\<forall>m \<le> 2047 * 2 ^ 52. m \<noteq> unat d \<longrightarrow> P (dbl_value (word_of_nat m)))" for P
  proof (intro iffI allI impI)
    fix m :: nat
    assume a: "\<forall>d'. unat d' \<le> 2047 * 2 ^ 52 \<and> d' \<noteq> d \<longrightarrow> P (dbl_value d')" and m: "m \<le> 2047 * 2 ^ 52" "m \<noteq> unat d"
    have "unat (word_of_nat m :: 64 word) = m" using m(1) by (intro unat_of_small) simp
    moreover from this have "(word_of_nat m :: 64 word) \<noteq> d" using m(2) by metis
    ultimately show "P (dbl_value (word_of_nat m))" using a[rule_format, of "word_of_nat m"] m by simp
  next
    fix d' :: "64 word"
    assume "\<forall>m \<le> 2047 * 2 ^ 52. m \<noteq> unat d \<longrightarrow> P (dbl_value (word_of_nat m))" and d': "unat d' \<le> 2047 * 2 ^ 52 \<and> d' \<noteq> d"
    then show "P (dbl_value d')" by (metis w word_unat_eq_iff)
  qed
  show ?thesis unfolding rounds_to_def nearest_in_def w
    by (simp only: all[of "\<lambda>y. \<bar>x - dbl_value d\<bar> < \<bar>x - y\<bar> \<or> \<bar>x - dbl_value d\<bar> = \<bar>x - y\<bar> \<and> even (unat d)"])
qed

text \<open>The numbers that round to a double are those between its boundaries.\<close>

lemma rounds_to_between:
  assumes d: "dbl_finite_pos d"
  shows "rounds_to x d \<longleftrightarrow> between (even (sgnf d)) (dbl_lower d) (dbl_upper d) x"
  unfolding rounds_to_nearest even_significand
proof (rule dbl_format.nearest_iff)
  show u: "0 < unat d" "unat d < 2047 * 2 ^ 52" using d by (auto simp: dbl_finite_pos_def)
  have "word_of_nat (unat d - 1) = d - 1" unfolding unat_pred(1)[OF d, symmetric] by simp
  then show "2 * dbl_lower d = dbl_value (word_of_nat (unat d - 1)) + dbl_value (word_of_nat (unat d))"
    by (simp add: dbl_lower_def PreviousDouble_finite[OF d])
  show "2 * dbl_upper d = dbl_value (word_of_nat (unat d)) + dbl_value (word_of_nat (Suc (unat d)))"
    using u(2) by (simp add: dbl_upper_def NextDouble_finite add.commute)
qed


section \<open>The fields of a float\<close>

abbreviation flt_mant :: "32 word \<Rightarrow> nat" where
  "flt_mant s \<equiv> unat s mod 2 ^ 23"

abbreviation flt_exp :: "32 word \<Rightarrow> nat" where
  "flt_exp s \<equiv> unat s div 2 ^ 23 mod 2 ^ 8"

abbreviation sgnf32 :: "32 word \<Rightarrow> nat" where
  "sgnf32 s \<equiv> unat (Single_Significand s)"

lemma Single_fields:
  "Single_IsDenormal s \<longleftrightarrow> flt_exp s = 0"
  "Single_IsSpecial s \<longleftrightarrow> flt_exp s = 255"
  "Single_Sign s = (if unat s < 2 ^ 31 then 1 else - 1)"
  "sgnf32 s = flt_mant s + (if flt_exp s = 0 then 0 else 2 ^ 23)"
  "Single_Exponent s = (if flt_exp s = 0 then - 149 else int (flt_exp s) - 150)"
  "Single_LowerBoundaryIsCloser s \<longleftrightarrow> flt_mant s = 0 \<and> Single_Exponent s \<noteq> - 149"
proof -
  have e: "unat (drop_bit 23 (s AND push_bit 23 (mask 8))) = flt_exp s" by (simp only: field_drop field_unat)
  show den: "Single_IsDenormal s \<longleftrightarrow> flt_exp s = 0"
    unfolding Single_IsDenormal_def single_masks by (rule field_zero_iff) simp
  show "Single_IsSpecial s \<longleftrightarrow> flt_exp s = 255"
    unfolding Single_IsSpecial_def single_masks using field_full_iff[of 23 8 s] by simp
  have "unat s < 2 ^ 32" using unsigned_less[of s] by simp
  then have "unat s div 2 ^ 31 mod 2 ^ 1 = 0 \<longleftrightarrow> unat s < 2 ^ 31" by auto
  then show "Single_Sign s = (if unat s < 2 ^ 31 then 1 else - 1)"
    unfolding Single_Sign_def single_masks using field_zero_iff[of 31 1 s] by simp
  show "Single_Exponent s = (if flt_exp s = 0 then - 149 else int (flt_exp s) - 150)"
    unfolding Single_Exponent_def den using e
    by (simp add: single_masks Single_kDenormalExponent_def Single_kExponentBias_def Single_kPhysicalSignificandSize_def)
  have low: "unat (s AND mask 23) = flt_mant s" by (rule unat_low)
  have "unat ((s AND mask 23) + push_bit 23 1) = flt_mant s + 2 ^ 23"
    using low by (subst unat_add_lem[THEN iffD1]) (simp_all add: push_bit_eq_mult)
  then show "sgnf32 s = flt_mant s + (if flt_exp s = 0 then 0 else 2 ^ 23)"
    unfolding Single_Significand_def den Let_def single_masks using low by simp
  show "Single_LowerBoundaryIsCloser s \<longleftrightarrow> flt_mant s = 0 \<and> Single_Exponent s \<noteq> - 149"
    using unat_low[of s 23] unat_eq_zero[of "s AND mask 23"]
    by (simp add: Single_LowerBoundaryIsCloser_def single_masks Single_kDenormalExponent_def Single_kExponentBias_def
        Single_kPhysicalSignificandSize_def)
qed

text \<open>A finite, positive float.\<close>

definition flt_finite_pos :: "32 word \<Rightarrow> bool" where
  "flt_finite_pos s \<longleftrightarrow> 0 < unat s \<and> unat s < 255 * 2 ^ 23"

lemma flt_split:
  assumes "unat s < 2 ^ 31"
  shows "unat s = flt_exp s * 2 ^ 23 + flt_mant s" "flt_exp s \<le> 255" "flt_exp s = unat s div 2 ^ 23"
proof -
  show e: "flt_exp s = unat s div 2 ^ 23" using assms by (intro mod_less) (simp add: less_mult_imp_div_less)
  show "unat s = flt_exp s * 2 ^ 23 + flt_mant s" unfolding e by (simp only: div_mult_mod_eq)
  have "flt_exp s < 2 ^ 8" by simp
  then show "flt_exp s \<le> 255" by simp
qed

lemma flt_finite_pos_iff: "flt_finite_pos s \<longleftrightarrow> flt_positive s \<and> \<not> Single_IsSpecial s"
proof (cases "unat s < 2 ^ 31")
  case True
  note sp = flt_split[OF this]
  have "unat s < 255 * 2 ^ 23 \<longleftrightarrow> flt_exp s < 255" by (subst sp(1)) (rule digit_less_iff, simp)
  then have "unat s < 255 * 2 ^ 23 \<longleftrightarrow> flt_exp s \<noteq> 255" using sp(2) by linarith
  moreover have "Single_IsNan s \<Longrightarrow> Single_IsSpecial s" by (simp add: Single_IsNan_def Single_IsSpecial_def)
  ultimately show ?thesis using True unat_gt_0[of s] unfolding flt_finite_pos_def flt_positive_def Single_fields(2,3) by auto
qed (auto simp: flt_finite_pos_def flt_positive_def Single_fields)

lemma flt_value_nonneg: "unat s < 2 ^ 31 \<Longrightarrow> flt_value s = real (sgnf32 s) * 2 powi Single_Exponent s"
  by (simp add: flt_value_def Single_fields(3))

lemma flt_parts:
  assumes "flt_finite_pos s"
  shows "unat s < 2 ^ 31" "0 < sgnf32 s" "sgnf32 s < 2 ^ 24" "- 149 \<le> Single_Exponent s" "Single_Exponent s \<le> 104"
    "- 149 < Single_Exponent s \<Longrightarrow> 2 ^ 23 \<le> sgnf32 s" "Single_Sign s = 1" "flt_exp s < 255"
proof -
  show u: "unat s < 2 ^ 31" using assms by (simp add: flt_finite_pos_def)
  note sp = flt_split[OF u]
  have m: "flt_mant s < 2 ^ 23" by simp
  show e: "flt_exp s < 255" using assms m by (subst (asm) flt_finite_pos_def, subst (asm) (2) sp(1)) (simp only: digit_less_iff)
  then show "Single_Exponent s \<le> 104" "- 149 \<le> Single_Exponent s" by (auto simp: Single_fields(5))
  show "- 149 < Single_Exponent s \<Longrightarrow> 2 ^ 23 \<le> sgnf32 s" by (auto simp: Single_fields(4,5) split: if_splits)
  show "sgnf32 s < 2 ^ 24" using m by (auto simp: Single_fields(4))
  have "flt_exp s = 0 \<Longrightarrow> flt_mant s = unat s" using sp(1) by simp
  then show "0 < sgnf32 s" using assms by (auto simp: Single_fields(4) flt_finite_pos_def)
  show "Single_Sign s = 1" using u by (simp add: Single_fields(3))
qed

section \<open>Neighbours and boundaries of a float\<close>

lemma flt_unat_Suc: "unat s < 255 * 2 ^ 23 \<Longrightarrow> unat (s + 1) = unat s + 1" for s :: "32 word"
  by (subst unat_add_lem[THEN iffD1]) simp_all

lemma flt_succ_fields:
  assumes "unat s < 255 * 2 ^ 23"
  shows "flt_mant s + 1 < 2 ^ 23 \<Longrightarrow> flt_exp (s + 1) = flt_exp s \<and> flt_mant (s + 1) = flt_mant s + 1"
    and "flt_mant s + 1 = 2 ^ 23 \<Longrightarrow> flt_exp (s + 1) = flt_exp s + 1 \<and> flt_mant (s + 1) = 0"
proof -
  have u: "unat s < 2 ^ 31" "unat (s + 1) = unat s + 1" "unat (s + 1) < 2 ^ 31" using assms by (simp_all add: flt_unat_Suc)
  have q: "unat (s + 1) = flt_exp s * 2 ^ 23 + (flt_mant s + 1)" using flt_split(1)[OF u(1)] u(2) by linarith
  show "flt_exp (s + 1) = flt_exp s \<and> flt_mant (s + 1) = flt_mant s + 1" if "flt_mant s + 1 < 2 ^ 23"
    using that by (simp only: flt_split(3)[OF u(3)], simp only: q) simp
  show "flt_exp (s + 1) = flt_exp s + 1 \<and> flt_mant (s + 1) = 0" if "flt_mant s + 1 = 2 ^ 23"
    by (simp only: flt_split(3)[OF u(3)], simp only: q that) simp
qed

lemma flt_value_next:
  assumes "unat s < 255 * 2 ^ 23"
  shows "flt_value (s + 1) = flt_value s + 2 powi Single_Exponent s"
proof -
  have u: "unat s < 2 ^ 31" "unat (s + 1) < 2 ^ 31" using assms by (simp_all add: flt_unat_Suc)
  have "flt_mant s < 2 ^ 23" by simp
  then consider "flt_mant s + 1 < 2 ^ 23" | "flt_mant s + 1 = 2 ^ 23" by linarith
  then have "flt_value (s + 1) = (real (sgnf32 s) + 1) * 2 powi Single_Exponent s"
  proof cases
    case 1
    show ?thesis unfolding flt_value_nonneg[OF u(2)] Single_fields(4,5) using flt_succ_fields(1)[OF assms 1] by simp
  next
    case 2
    have "real (flt_mant s) + 1 = 2 ^ 23" using 2 by (metis of_nat_1 of_nat_add of_nat_numeral of_nat_power)
    then show ?thesis unfolding flt_value_nonneg[OF u(2)] Single_fields(4,5)
      using flt_succ_fields(2)[OF assms 2] powi_succ(1)[of "int (flt_exp s) - 150"] by (auto simp: algebra_simps)
  qed
  then show ?thesis by (simp add: flt_value_nonneg[OF u(1)] distrib_right)
qed

lemma flt_pred:
  assumes "flt_finite_pos s"
  shows "unat (s - 1) = unat s - 1" "unat (s - 1) < 255 * 2 ^ 23"
    "Single_Exponent (s - 1) = (if Single_LowerBoundaryIsCloser s then Single_Exponent s - 1 else Single_Exponent s)"
proof -
  show u: "unat (s - 1) = unat s - 1" using assms by (auto simp: flt_finite_pos_def unat_sub_if')
  then show p: "unat (s - 1) < 255 * 2 ^ 23" using assms unfolding flt_finite_pos_def by linarith
  have b: "s - 1 + 1 = s" by simp
  have "flt_mant (s - 1) < 2 ^ 23" by simp
  then consider "flt_mant (s - 1) + 1 < 2 ^ 23" | "flt_mant (s - 1) + 1 = 2 ^ 23" by linarith
  then show "Single_Exponent (s - 1) = (if Single_LowerBoundaryIsCloser s then Single_Exponent s - 1 else Single_Exponent s)"
  proof cases
    case 1
    then show ?thesis using flt_succ_fields(1)[OF p 1] unfolding Single_fields(5,6) b by simp
  next
    case 2
    then show ?thesis using flt_succ_fields(2)[OF p 2] unfolding Single_fields(5,6) b by auto
  qed
qed

lemma unat32_of_small: "n < 2 ^ 32 \<Longrightarrow> unat (word_of_nat n :: 32 word) = n"
  by (simp add: unat_of_nat take_bit_eq_mod)

interpretation flt_format: binary_format "\<lambda>n. flt_value (word_of_nat n)" "255 * 2 ^ 23"
  by unfold_locales (simp add: add.commute[of 1] flt_value_next unat32_of_small)

text \<open>The float nearest to \<open>x\<close> is \<open>s\<close>, a tie going to the even pattern.\<close>

definition flt_rounds_to :: "real \<Rightarrow> 32 word \<Rightarrow> bool" where
  "flt_rounds_to x s \<longleftrightarrow> unat s \<le> 255 * 2 ^ 23 \<and>
     (\<forall>s'. unat s' \<le> 255 * 2 ^ 23 \<and> s' \<noteq> s \<longrightarrow>
        \<bar>x - flt_value s\<bar> < \<bar>x - flt_value s'\<bar> \<or> \<bar>x - flt_value s\<bar> = \<bar>x - flt_value s'\<bar> \<and> even (unat s))"

lemma flt_rounds_to_nearest: "flt_rounds_to x s \<longleftrightarrow> nearest_in (\<lambda>n. flt_value (word_of_nat n)) (255 * 2 ^ 23) x (unat s)"
proof -
  have w: "(word_of_nat (unat s') :: 32 word) = s'" for s' :: "32 word" by simp
  have all: "(\<forall>s'. unat s' \<le> 255 * 2 ^ 23 \<and> s' \<noteq> s \<longrightarrow> P (flt_value s')) \<longleftrightarrow> (\<forall>m \<le> 255 * 2 ^ 23. m \<noteq> unat s \<longrightarrow> P (flt_value (word_of_nat m)))" for P
  proof (intro iffI allI impI)
    fix m :: nat
    assume a: "\<forall>s'. unat s' \<le> 255 * 2 ^ 23 \<and> s' \<noteq> s \<longrightarrow> P (flt_value s')" and m: "m \<le> 255 * 2 ^ 23" "m \<noteq> unat s"
    have "unat (word_of_nat m :: 32 word) = m" using m(1) by (intro unat32_of_small) simp
    moreover from this have "(word_of_nat m :: 32 word) \<noteq> s" using m(2) by metis
    ultimately show "P (flt_value (word_of_nat m))" using a[rule_format, of "word_of_nat m"] m by simp
  next
    fix s' :: "32 word"
    assume "\<forall>m \<le> 255 * 2 ^ 23. m \<noteq> unat s \<longrightarrow> P (flt_value (word_of_nat m))" and s': "unat s' \<le> 255 * 2 ^ 23 \<and> s' \<noteq> s"
    then show "P (flt_value s')" by (metis w word_unat_eq_iff)
  qed
  show ?thesis unfolding flt_rounds_to_def nearest_in_def w
    by (simp only: all[of "\<lambda>y. \<bar>x - flt_value s\<bar> < \<bar>x - y\<bar> \<or> \<bar>x - flt_value s\<bar> = \<bar>x - y\<bar> \<and> even (unat s)"])
qed

lemma flt_even: "even (sgnf32 s) \<longleftrightarrow> even (unat s)"
proof -
  have "even (flt_mant s) \<longleftrightarrow> even (unat s)" by (rule dvd_mod_iff) simp
  then show ?thesis by (simp add: Single_fields(4))
qed

lemma flt_closer_significand: "Single_LowerBoundaryIsCloser s \<Longrightarrow> sgnf32 s = 2 ^ 23"
  unfolding Single_fields(4-6) by (cases "flt_exp s = 0") (simp_all only: if_True if_False add_0 not_True_eq_False not_False_eq_True simp_thms)

lemma flt_rounds_to_between:
  assumes s: "flt_finite_pos s"
  shows "flt_rounds_to x s \<longleftrightarrow> between (even (sgnf32 s)) (flt_value s - 2 powi (Single_Exponent s - (if Single_LowerBoundaryIsCloser s then 2 else 1)))
    (flt_value s + 2 powi (Single_Exponent s - 1)) x"
  unfolding flt_rounds_to_nearest flt_even
proof (rule flt_format.nearest_iff)
  show u: "0 < unat s" "unat s < 255 * 2 ^ 23" using s by (auto simp: flt_finite_pos_def)
  have w: "word_of_nat (unat s - 1) = s - 1" unfolding flt_pred(1)[OF s, symmetric] by simp
  have "flt_value s = flt_value (s - 1) + 2 powi Single_Exponent (s - 1)" using flt_value_next[OF flt_pred(2)[OF s]] by simp
  moreover have "(2::real) powi (Single_Exponent s - 1) = 2 * 2 powi (Single_Exponent s - 2)" using powi_succ(2)[of "Single_Exponent s - 1"] by simp
  ultimately show "2 * (flt_value s - 2 powi (Single_Exponent s - (if Single_LowerBoundaryIsCloser s then 2 else 1)))
    = flt_value (word_of_nat (unat s - 1)) + flt_value (word_of_nat (unat s))"
    using powi_succ(2)[of "Single_Exponent s"] unfolding w flt_pred(3)[OF s] by (simp split: if_splits)
  show "2 * (flt_value s + 2 powi (Single_Exponent s - 1)) = flt_value (word_of_nat (unat s)) + flt_value (word_of_nat (Suc (unat s)))"
    using powi_succ(2)[of "Single_Exponent s"] flt_value_next[OF u(2)] by (simp add: add.commute)
qed

section \<open>A float as a double\<close>

lemma nbits_shift: "0 < g \<Longrightarrow> nbits (g * 2 ^ k) = nbits g + k"
proof (induction k)
  case (Suc k)
  then show ?case by (subst nbits.simps) simp
qed simp

lemma nbits_le: "g < 2 ^ k \<Longrightarrow> nbits g \<le> k"
proof (cases "g = 0")
  case False
  assume "g < 2 ^ k"
  then have "(2::nat) ^ (nbits g - 1) < 2 ^ k" using nbits_bounds[of g] False by linarith
  then show ?thesis using power_less_imp_less_exp[of "2::nat" "nbits g - 1" k] by simp
qed (simp add: nbits_0)

lemma nbits_ge: "2 ^ k \<le> g \<Longrightarrow> Suc k \<le> nbits g"
proof -
  assume k: "2 ^ k \<le> g"
  then have "0 < g" by (cases g) auto
  then have "(2::nat) ^ k < 2 ^ nbits g" using nbits_bounds[of g] k by linarith
  then show ?thesis using power_less_imp_less_exp[of "2::nat" k "nbits g"] by simp
qed

lemma double_of_float_fields:
  assumes s: "flt_finite_pos s"
  defines "g \<equiv> sgnf32 s" and "k \<equiv> 53 - nbits (sgnf32 s)"
  shows "29 \<le> k" "dbl_finite_pos (double_of_float s)" "sgnf (double_of_float s) = g * 2 ^ k"
    "Double_Exponent (double_of_float s) = Single_Exponent s - int k" "nbits (g * 2 ^ k) = 53"
proof -
  note p = flt_parts[OF s]
  have nb: "nbits g \<le> 24" unfolding g_def by (rule nbits_le[OF p(3)])
  then show k: "29 \<le> k" by (simp add: k_def g_def)
  have g0: "0 < g" "nbits g + k = 53" using p(2) nb by (simp_all add: g_def k_def)
  show n53: "nbits (g * 2 ^ k) = 53" using nbits_shift[OF g0(1), of k] g0(2) by simp
  have F: "2 ^ 52 \<le> g * 2 ^ k" "g * 2 ^ k < 2 ^ 53" using nbits_bounds[of "g * 2 ^ k"] g0(1) unfolding n53 by simp_all
  define E where "E = nat (Single_Exponent s - int k + 1075)"
  define M where "M = g * 2 ^ k - 2 ^ 52"
  have E: "int E = Single_Exponent s - int k + 1075" "0 < E" "E < 2047" using p(4,5) k by (auto simp: E_def k_def)
  have M: "M < 2 ^ 52" "g * 2 ^ k = M + 2 ^ 52" using F by (simp_all add: M_def)
  have nan: "\<not> Single_IsNan s" "\<not> Single_IsInfinite s" "\<not> Single_Sign s < 0" "g \<noteq> 0"
    using flt_finite_pos_iff[of s] s g0(1) p(7) by (auto simp: Single_IsNan_def Single_IsInfinite_def Single_IsSpecial_def)
  have "int (g * 2 ^ k) - 2 ^ 52 = int M" using M(2) by simp
  then have "(Single_Exponent s - int k + 1075) * 2 ^ 52 + (int (g * 2 ^ k) - 2 ^ 52) = int (E * 2 ^ 52 + M)" using E(1) by simp
  then have "double_of_float s = word_of_nat (E * 2 ^ 52 + M)"
    using nan unfolding double_of_float_def Let_def k_def[symmetric] unfolding g_def[symmetric] by (simp only: if_False or.left_neutral of_int_of_nat_eq)
  moreover have "E * 2 ^ 52 + M < 2047 * 2 ^ 52" using digit_less_iff[OF M(1), of E 2047] E(3) by simp
  moreover from this have "unat (word_of_nat (E * 2 ^ 52 + M) :: 64 word) = E * 2 ^ 52 + M" by (intro unat_of_small) simp
  ultimately have u: "unat (double_of_float s) = E * 2 ^ 52 + M" "unat (double_of_float s) < 2047 * 2 ^ 52" by (simp_all only:)
  show "dbl_finite_pos (double_of_float s)" using u E(2) by (simp add: dbl_finite_pos_def)
  have f: "dbl_exp (double_of_float s) = E" "dbl_mant (double_of_float s) = M" unfolding u(1) using E(3) M(1) by simp_all
  show "sgnf (double_of_float s) = g * 2 ^ k" "Double_Exponent (double_of_float s) = Single_Exponent s - int k"
    unfolding Double_fields(4,5) f using E M(2) by simp_all
qed


lemma double_of_float_value:
  assumes "flt_finite_pos s"
  shows "dbl_value (double_of_float s) = flt_value s"
proof -
  note f = double_of_float_fields[OF assms]
  show ?thesis unfolding dbl_value_nonneg[OF dbl_parts(1)[OF f(2)]] f(3,4) flt_value_nonneg[OF flt_parts(1)[OF assms]] by (rule powi_shift)
qed

lemma rne_exact: "rne (g * 2 ^ k) k = g"
  by (simp add: rne_def)

text \<open>The conversion to double and back gives the float.\<close>

lemma float_of_double_of_float:
  assumes "flt_finite_pos s"
  shows "float_of_double (double_of_float s) = s"
proof -
  note f = double_of_float_fields[OF assms] and p = flt_parts[OF assms]
  define d where "d = double_of_float s"
  define g where "g = sgnf32 s"
  define k where "k = 53 - nbits (sgnf32 s)"
  note f = f[folded d_def k_def, folded g_def]
  have fin: "\<not> Double_IsNan d" "\<not> Double_IsInfinite d" "\<not> Double_Sign d < 0"
    using f(2) dbl_parts(7)[OF f(2)] dbl_finite_pos_iff[of d] by (auto simp: Double_IsNan_def Double_IsInfinite_def Double_IsSpecial_def)
  have "Single_Exponent s = -149 \<or> nbits g = 24" using p(3,4,6) nbits_le[of g 24] nbits_ge[of 23 g] unfolding g_def by linarith
  moreover have "nbits g \<le> 24" using p(3) nbits_le[of g 24] by (simp add: g_def)
  ultimately have q: "max (- 149) (Single_Exponent s - int k + int 53 - 24) = Single_Exponent s" using p(4) by (auto simp: k_def g_def)
  have k: "\<not> Single_Exponent s \<le> Single_Exponent s - int k" "nat (Single_Exponent s - (Single_Exponent s - int k)) = k" using f(1) by simp_all
  define bits where "bits = (if g < 2 ^ 23 then int g else (Single_Exponent s + 150) * 2 ^ 23 + (int g - 2 ^ 23))"
  have b: "bits = int (unat s)"
  proof (cases "flt_exp s = 0")
    case True
    then have "g = flt_mant s" "unat s = flt_mant s" using flt_split(1)[OF p(1)] by (simp_all add: g_def Single_fields(4))
    moreover have "flt_mant s < 2 ^ 23" by simp
    ultimately show ?thesis unfolding bits_def by (simp only: if_True)
  next
    case False
    then have "g = flt_mant s + 2 ^ 23" "Single_Exponent s + 150 = int (flt_exp s)" by (simp_all add: g_def Single_fields(4,5))
    then have "bits = int (flt_exp s * 2 ^ 23 + flt_mant s)" unfolding bits_def by simp
    then show ?thesis using flt_split(1)[OF p(1)] by (simp only:)
  qed
  have "unat s < 255 * 2 ^ 23" using assms by (simp add: flt_finite_pos_def)
  then have "int (unat s) < int (255 * 2 ^ 23)" by (simp only: of_nat_less_iff)
  then have "\<not> bits \<ge> 255 * 2 ^ 23" unfolding b by (simp only: not_le of_nat_mult of_nat_numeral of_nat_power)
  then have "float_of_double d = word_of_int bits"
    unfolding float_of_double_def Let_def f(3-5) q k rne_exact bits_def[symmetric] using fin
    by (simp only: k if_False rne_exact bits_def[symmetric] or.left_neutral simp_thms not_False_eq_True)
  then show ?thesis unfolding b d_def by simp
qed

lemma dbl_eq_refl: "dbl_finite_pos d \<Longrightarrow> dbl_eq d d"
  using dbl_finite_pos_iff[of d] by (auto simp: dbl_eq_def dbl_positive_def)

end
