(* ===== verification/BignumDtoa_Start.thy ===== *)
theory BignumDtoa_Start
  imports BignumDtoa_Estimate Ieee_Correct Bignum_Machine Bignum_Division
begin

text \<open>
  The start values of the digit generation: \<open>rep b v\<close> says that a bignum is well formed and holds \<open>v\<close>.  Denominators are powers of five
  times powers of two; the check that none of the powers used has 28 leading one bits is what keeps the assertion of the division on
  equal lengths from failing.
\<close>

section \<open>Denominators\<close>

definition rep :: "bignum \<Rightarrow> nat \<Rightarrow> bool" where
  "rep b v \<longleftrightarrow> bn_inv b \<and> bn_value b = v"

text \<open>\<open>five_bits p w\<close>: \<open>w\<close> is the power of two above \<open>p\<close>, and the leading 28 bits of \<open>p\<close> are not all ones.\<close>

definition five_bits :: "nat \<Rightarrow> nat \<Rightarrow> bool" where
  "five_bits p w \<longleftrightarrow> p < w \<and> w \<le> 2 * p \<and> 268435456 * p \<le> 268435455 * w"

fun five_ok :: "nat list \<Rightarrow> nat \<Rightarrow> nat \<Rightarrow> bool" where
  "five_ok [] p w \<longleftrightarrow> five_bits p w"
| "five_ok (c # cs) p w \<longleftrightarrow> five_bits p w \<and> five_ok cs (5 * p) (c * w)"

definition five_steps :: "nat list" where
  "five_steps = [
      4, 4, 4, 8, 4, 4, 8, 4, 4, 8, 4, 4, 8, 4, 4, 8, 4, 4, 8, 4, 4, 8, 4, 4, 8, 4, 4, 8, 4, 4, 4, 8, 4, 4,
      8, 4, 4, 8, 4, 4, 8, 4, 4, 8, 4, 4, 8, 4, 4, 8, 4, 4, 8, 4, 4, 8, 4, 4, 4, 8, 4, 4, 8, 4, 4, 8, 4, 4,
      8, 4, 4, 8, 4, 4, 8, 4, 4, 8, 4, 4, 8, 4, 4, 8, 4, 4, 8, 4, 4, 4, 8, 4, 4, 8, 4, 4, 8, 4, 4, 8, 4, 4,
      8, 4, 4, 8, 4, 4, 8, 4, 4, 8, 4, 4, 8, 4, 4, 4, 8, 4, 4, 8, 4, 4, 8, 4, 4, 8, 4, 4, 8, 4, 4, 8, 4, 4,
      8, 4, 4, 8, 4, 4, 8, 4, 4, 8, 4, 4, 4, 8, 4, 4, 8, 4, 4, 8, 4, 4, 8, 4, 4, 8, 4, 4, 8, 4, 4, 8, 4, 4,
      8, 4, 4, 8, 4, 4, 4, 8, 4, 4, 8, 4, 4, 8, 4, 4, 8, 4, 4, 8, 4, 4, 8, 4, 4, 8, 4, 4, 8, 4, 4, 8, 4, 4,
      4, 8, 4, 4, 8, 4, 4, 8, 4, 4, 8, 4, 4, 8, 4, 4, 8, 4, 4, 8, 4, 4, 8, 4, 4, 8, 4, 4, 8, 4, 4, 4, 8, 4,
      4, 8, 4, 4, 8, 4, 4, 8, 4, 4, 8, 4, 4, 8, 4, 4, 8, 4, 4, 8, 4, 4, 8, 4, 4, 4, 8, 4, 4, 8, 4, 4, 8, 4,
      4, 8, 4, 4, 8, 4, 4, 8, 4, 4, 8, 4, 4, 8, 4, 4, 8, 4, 4, 8, 4, 4, 4, 8, 4, 4, 8, 4, 4, 8, 4, 4, 8, 4,
      4, 8, 4, 4, 8, 4, 4, 8, 4, 4, 8, 4, 4, 8, 4, 4, 4, 8, 4, 4, 8, 4, 4, 8, 4, 4, 8, 4, 4, 8, 4, 4, 8, 4]"

lemma five_steps_ok: "five_ok five_steps 1 2"
  by (simp add: five_steps_def five_bits_def)

lemma five_steps_facts: "length five_steps = 340" "set five_steps = {4, 8}"
  by (simp_all add: five_steps_def) auto

lemma five_ok_all:
  assumes "five_ok cs p (2 ^ b)" "set cs \<subseteq> {4, 8}" "j \<le> length cs"
  shows "\<exists>b'. five_bits (5 ^ j * p) (2 ^ b')"
  using assms
proof (induction cs arbitrary: p b j)
  case (Cons c cs)
  show ?case
  proof (cases j)
    case 0
    then show ?thesis using Cons.prems by auto
  next
    case (Suc i)
    have "c = 4 \<or> c = 8" using Cons.prems(2) by simp
    then have "c * 2 ^ b = 2 ^ (b + 2) \<or> c * 2 ^ b = 2 ^ (b + 3)" by (auto simp: power_add)
    then obtain b2 where "c * 2 ^ b = (2::nat) ^ b2" by blast
    then have "\<exists>b'. five_bits (5 ^ i * (5 * p)) (2 ^ b')" using Cons.IH[of "5 * p" b2 i] Cons.prems Suc by simp
    then show ?thesis by (simp add: Suc mult.assoc mult.left_commute)
  qed
qed auto

lemma five_power_bits: "j \<le> 340 \<Longrightarrow> \<exists>b. five_bits (5 ^ j) (2 ^ b)"
  using five_ok_all[of five_steps 1 1 j] five_steps_ok five_steps_facts by simp

definition nice :: "nat \<Rightarrow> bool" where
  "nice v \<longleftrightarrow> (\<exists>j m. j \<le> 340 \<and> v = 5 ^ j * 2 ^ m)"

lemma nice_pos: "nice v \<Longrightarrow> 0 < v"
  by (auto simp: nice_def)

lemma nice_double: "nice v \<Longrightarrow> nice (v * 2 ^ k)"
  unfolding nice_def by (metis mult.assoc power_add)

lemma nice_power_ten: "k \<le> 340 \<Longrightarrow> nice (10 ^ k)"
proof -
  assume k: "k \<le> 340"
  have "(10::nat) ^ k = 5 ^ k * 2 ^ k" by (simp flip: power_mult_distrib)
  then show ?thesis using k unfolding nice_def by blast
qed

lemma nice_one: "nice 1"
  using nice_power_ten[of 0] by simp

lemma nice_not_ones:
  assumes "rep d v" "nice v"
  shows "v \<le> (radix - 1) * radix ^ (BigitLength d - 1)"
proof -
  obtain j m where v: "j \<le> 340" "v = 5 ^ j * 2 ^ m" using assms(2) by (auto simp: nice_def)
  obtain b where b: "five_bits (5 ^ j) (2 ^ b)" using five_power_bits[OF v(1)] by blast
  have d: "bn_inv d" "bn_value d = v" "0 < v" using assms nice_pos by (auto simp: rep_def)
  let ?L = "BigitLength d"
  have "0 < ?L" using used_of_value[of d] d by (simp add: BigitLength_def)
  then have R: "radix ^ ?L = radix * radix ^ (?L - 1)" by (cases ?L) simp_all
  have "2 ^ b * 2 ^ m \<le> 2 * v" using b v by (simp add: five_bits_def)
  also have "\<dots> < 2 * radix ^ ?L" using bn_value_bounds(1)[OF d(1)] d(2) by simp
  finally have "(2::nat) ^ (b + m) < 2 ^ Suc (28 * ?L)" unfolding radix_def kBigitSize_def power_mult[symmetric] by (simp add: power_add)
  then have "b + m \<le> 28 * ?L" using power_less_imp_less_exp[of "2::nat" "b + m" "Suc (28 * ?L)"] by simp
  then have le: "(2::nat) ^ (b + m) \<le> radix ^ ?L" unfolding radix_def kBigitSize_def power_mult[symmetric] by (intro power_increasing) simp_all
  have "268435456 * 5 ^ j * 2 ^ m \<le> 268435455 * 2 ^ b * (2::nat) ^ m" using b unfolding five_bits_def by (intro mult_le_mono1) simp
  then have "radix * v \<le> (radix - 1) * 2 ^ (b + m)" by (simp add: v(2) radix_val power_add mult.assoc)
  also have "\<dots> \<le> (radix - 1) * (radix * radix ^ (?L - 1))" using le unfolding R by (rule mult_le_mono2)
  finally have "radix * v \<le> radix * ((radix - 1) * radix ^ (?L - 1))" by (simp only: mult.left_commute)
  then show ?thesis by simp
qed


section \<open>Bignums that hold a number\<close>

lemma rep_new [simp]: "rep bn_new 0"
  by (simp add: rep_def)

lemma rep_used: "rep b v \<Longrightarrow> v < limit \<Longrightarrow> bn_used_digits b < kBigitCapacity"
  using small_length[of b] by (simp add: rep_def bn_small_def BigitLength_def capacity)

lemma rep_assign64: "rep b u \<Longrightarrow> v < 2 ^ 64 \<Longrightarrow> \<exists>b'. AssignUInt64 v b = Inr b' \<and> rep b' v"
  using AssignUInt64_spec[of b v] unfolding rep_def by blast

lemma rep_assign_one: "rep b u \<Longrightarrow> \<exists>b'. AssignUInt16 1 b = Inr b' \<and> rep b' 1"
  using AssignUInt16_spec[of b 1] unfolding rep_def by auto

lemma rep_shift:
  assumes "rep b v" "v < limit" "s < 2 ^ 16"
  shows "\<exists>b'. ShiftLeft s b = Inr b' \<and> rep b' (v * 2 ^ s)"
proof -
  have b: "bn_inv b" "bn_value b = v" using assms(1) by (auto simp: rep_def)
  have "bn_exponent b < 128" using small_exponent[OF b(1)] assms(2) b(2) by (simp add: limit_def)
  then have "bn_exponent b + s div kBigitSize < 2 ^ 31" using assms(3) by (simp add: kBigitSize_def)
  then show ?thesis using ShiftLeft_spec[OF b(1) rep_used[OF assms(1,2)], of s] b(2) unfolding rep_def by auto
qed

lemma rep_copy: "rep b u \<Longrightarrow> rep c v \<Longrightarrow> AssignBignum c b = Inr c"
  using AssignBignum_spec[of b c] unfolding rep_def by blast

lemma rep_mul64:
  assumes "rep b v" "f < 2 ^ 64" "v * f < limit"
  shows "\<exists>b'. MultiplyByUInt64 f b = Inr b' \<and> rep b' (v * f)"
  using multiply_small[OF _ _ MultiplyByUInt64_spec[of b f]] assms unfolding rep_def by blast

lemma rep_times10:
  assumes "rep b v" "v * 10 < limit"
  shows "\<exists>b'. Times10 b = Inr b' \<and> rep b' (v * 10)"
  using multiply_small[OF _ _ MultiplyByUInt32_spec[of b 10]] assms unfolding rep_def Times10_def by simp

lemma rep_power_ten:
  assumes "rep b u" "k \<le> 340"
  shows "\<exists>b'. AssignPowerUInt16 10 k b = Inr b' \<and> rep b' (10 ^ k)"
proof -
  have "power_bits 10 k = 3 * k" by (simp add: power_bits_def strip_loop.simps bit_size_loop.simps)
  then have "power_bits 10 k div kBigitSize + 2 \<le> kBigitCapacity" using assms(2) by (simp add: kBigitSize_def capacity)
  then show ?thesis using step_power[of b 10 k] assms(1) unfolding rep_def by auto
qed

lemma rep_cmp:
  assumes "rep a x" "rep b y"
  shows "bn_Equal a b = Inr (x = y)" "bn_LessEqual a b = Inr (x \<le> y)" "bn_Less a b = Inr (x < y)"
  using assms by (auto simp: rep_def bn_Equal_def bn_LessEqual_def bn_Less_def Compare_spec cmp_def)

lemma rep_plus_cmp:
  assumes "rep a x" "rep b y" "rep c z"
  shows "bn_PlusCompare a b c = Inr (cmp (x + y) z)"
  using assms by (simp add: rep_def PlusCompare_spec)

lemma rep_room:
  assumes "rep a x" "rep b y" "rep c z"
  shows "in_room_plus is_even a b c = Inr (if is_even then z \<le> x + y else z < x + y)"
  unfolding in_room_plus_def rep_plus_cmp[OF assms] by (auto simp: cmp_def)

lemma rep_divide:
  assumes "rep b v" "rep d w" "nice w" "v < 10 * w" "v < limit" "2 ^ 16 \<le> n"
  shows "\<exists>b'. DivideModuloIntBignum n d b = Some (Inr (v div w, b')) \<and> rep b' (v mod w)"
proof -
  have r: "bn_inv b" "bn_value b = v" "bn_inv d" "bn_value d = w" using assms(1,2) by (auto simp: rep_def)
  have "align_fits b d" using small_align_fits[of b d] assms(5) r by (simp add: bn_small_def)
  then show ?thesis
    using divide_digit[OF r(1,3) _ _ _ _ assms(6)] nice_not_ones[OF assms(2,3)] nice_pos[OF assms(3)] assms(4) r unfolding rep_def by simp
qed

lemma limit_power: "limit = 2 ^ 3556"
proof -
  have "kBigitCapacity - 1 = 127" by (simp add: capacity)
  then show ?thesis unfolding limit_def radix_def kBigitSize_def by (simp only: power_mult[symmetric]) simp
qed


section \<open>The start values\<close>

definition reps :: "scaled \<Rightarrow> nat \<Rightarrow> nat \<Rightarrow> nat \<Rightarrow> nat \<Rightarrow> bool" where
  "reps s num den lo up \<longleftrightarrow> rep (sc_num s) num \<and> rep (sc_den s) den \<and> rep (sc_minus s) lo \<and> rep (sc_plus s) up"

lemma reps_new: "reps scaled_new 0 0 0 0"
  by (simp add: reps_def scaled_new_def)

lemma small_power: "a \<le> 2 ^ i \<Longrightarrow> i < 3556 \<Longrightarrow> a < limit" for a :: nat
proof -
  assume "a \<le> 2 ^ i" "i < 3556"
  moreover have "(2::nat) ^ i < 2 ^ 3556" using calculation(2) by (intro power_strict_increasing) simp_all
  ultimately show ?thesis unfolding limit_power by linarith
qed

lemma prod_power: "a \<le> 2 ^ i \<Longrightarrow> b \<le> 2 ^ j \<Longrightarrow> a * b \<le> (2::nat) ^ (i + j)"
  unfolding power_add by (rule mult_le_mono)

lemma ten_power: "(10::nat) ^ k \<le> 2 ^ (4 * k)"
proof -
  have "(10::nat) ^ k \<le> 16 ^ k" by (intro power_mono) simp_all
  also have "\<dots> = 2 ^ (4 * k)" by (simp add: power_mult)
  finally show ?thesis .
qed

lemma start_positive:
  assumes s: "reps s x y z w" and f: "unat f \<le> 2 ^ 53" and e: "0 \<le> e" "e \<le> 1100" and k: "0 \<le> k" "k \<le> 340"
  shows "\<exists>s'. InitialScaledStartValuesPositiveExponent f e k need s = Inr s' \<and>
    (if need then reps s' (unat f * 2 ^ nat e * 2) (10 ^ nat k * 2) (2 ^ nat e) (2 ^ nat e)
     else reps s' (unat f * 2 ^ nat e) (10 ^ nat k) z w)"
proof -
  have r: "rep (sc_num s) x" "rep (sc_den s) y" "rep (sc_minus s) z" "rep (sc_plus s) w" using s by (auto simp: reps_def)
  have fl: "unat f < limit" by (rule small_power[OF f]) simp
  have fe: "unat f * 2 ^ nat e < limit" by (rule small_power[OF prod_power[OF f order_refl]]) (use e in simp)
  have kl: "10 ^ nat k < limit" by (rule small_power[OF ten_power]) (use k in simp)
  have one: "1 < limit" using small_power[of 1 0] by simp
  have sh: "nat e < 2 ^ 16" using e by simp
  obtain n1 where n1: "AssignUInt64 (unat f) (sc_num s) = Inr n1" "rep n1 (unat f)" using rep_assign64[OF r(1) unat_lt64] by blast
  obtain n2 where n2: "ShiftLeft (nat e) n1 = Inr n2" "rep n2 (unat f * 2 ^ nat e)" using rep_shift[OF n1(2) fl sh] by blast
  obtain d1 where d1: "AssignPowerUInt16 10 (nat k) (sc_den s) = Inr d1" "rep d1 (10 ^ nat k)" using rep_power_ten[OF r(2), of "nat k"] k by (metis nat_le_iff of_nat_numeral)
  obtain d2 where d2: "ShiftLeft 1 d1 = Inr d2" "rep d2 (10 ^ nat k * 2)" using rep_shift[OF d1(2) kl, of 1] by auto
  obtain n3 where n3: "ShiftLeft 1 n2 = Inr n3" "rep n3 (unat f * 2 ^ nat e * 2)" using rep_shift[OF n2(2) fe, of 1] by auto
  obtain p1 where p1: "AssignUInt16 1 (sc_plus s) = Inr p1" "rep p1 1" using rep_assign_one[OF r(4)] by blast
  obtain p2 where p2: "ShiftLeft (nat e) p1 = Inr p2" "rep p2 (2 ^ nat e)" using rep_shift[OF p1(2) one sh] by auto
  obtain m1 where m1: "AssignUInt16 1 (sc_minus s) = Inr m1" "rep m1 1" using rep_assign_one[OF r(3)] by blast
  obtain m2 where m2: "ShiftLeft (nat e) m1 = Inr m2" "rep m2 (2 ^ nat e)" using rep_shift[OF m1(2) one sh] by auto
  show ?thesis using n1 n2 n3 d1 d2 p1 p2 m1 m2 k r
    by (cases need) (simp_all add: InitialScaledStartValuesPositiveExponent_def ASSERT_def reps_def)
qed

lemma start_negative_positive:
  assumes s: "reps s x y z w" and f: "unat f \<le> 2 ^ 53" and e: "- 1100 \<le> e" "e < 0" and k: "0 \<le> k" "k \<le> 340"
  shows "\<exists>s'. InitialScaledStartValuesNegativeExponentPositivePower f e k need s = Inr s' \<and>
    (if need then reps s' (unat f * 2) (10 ^ nat k * 2 ^ nat (- e) * 2) 1 1
     else reps s' (unat f) (10 ^ nat k * 2 ^ nat (- e)) z w)"
proof -
  have r: "rep (sc_num s) x" "rep (sc_den s) y" "rep (sc_minus s) z" "rep (sc_plus s) w" using s by (auto simp: reps_def)
  have fl: "unat f < limit" by (rule small_power[OF f]) simp
  have kl: "10 ^ nat k < limit" by (rule small_power[OF ten_power]) (use k in simp)
  have ke: "10 ^ nat k * 2 ^ nat (- e) < limit" by (rule small_power[OF prod_power[OF ten_power order_refl]]) (use e k in simp)
  have sh: "nat (- e) < 2 ^ 16" using e by simp
  obtain n1 where n1: "AssignUInt64 (unat f) (sc_num s) = Inr n1" "rep n1 (unat f)" using rep_assign64[OF r(1) unat_lt64] by blast
  obtain d1 where d1: "AssignPowerUInt16 10 (nat k) (sc_den s) = Inr d1" "rep d1 (10 ^ nat k)" using rep_power_ten[OF r(2), of "nat k"] k by (metis nat_le_iff of_nat_numeral)
  obtain d2 where d2: "ShiftLeft (nat (- e)) d1 = Inr d2" "rep d2 (10 ^ nat k * 2 ^ nat (- e))" using rep_shift[OF d1(2) kl sh] by blast
  obtain d3 where d3: "ShiftLeft 1 d2 = Inr d3" "rep d3 (10 ^ nat k * 2 ^ nat (- e) * 2)" using rep_shift[OF d2(2) ke, of 1] by auto
  obtain n2 where n2: "ShiftLeft 1 n1 = Inr n2" "rep n2 (unat f * 2)" using rep_shift[OF n1(2) fl, of 1] by auto
  obtain p1 where p1: "AssignUInt16 1 (sc_plus s) = Inr p1" "rep p1 1" using rep_assign_one[OF r(4)] by blast
  obtain m1 where m1: "AssignUInt16 1 (sc_minus s) = Inr m1" "rep m1 1" using rep_assign_one[OF r(3)] by blast
  show ?thesis using n1 n2 d1 d2 d3 p1 m1 r
    by (cases need) (simp_all add: InitialScaledStartValuesNegativeExponentPositivePower_def reps_def)
qed

lemma start_negative_negative:
  assumes s: "reps s x y z w" and f: "unat f \<le> 2 ^ 53" and e: "- 1100 \<le> e" "e < 0" and k: "- 340 \<le> k" "k < 0"
  shows "\<exists>s'. InitialScaledStartValuesNegativeExponentNegativePower f e k need s = Inr s' \<and>
    (if need then reps s' (10 ^ nat (- k) * unat f * 2) (2 ^ nat (- e) * 2) (10 ^ nat (- k)) (10 ^ nat (- k))
     else reps s' (10 ^ nat (- k) * unat f) (2 ^ nat (- e)) z w)"
proof -
  have r: "rep (sc_num s) x" "rep (sc_den s) y" "rep (sc_minus s) z" "rep (sc_plus s) w" using s by (auto simp: reps_def)
  have kf: "10 ^ nat (- k) * unat f < limit" by (rule small_power[OF prod_power[OF ten_power f]]) (use k in simp)
  have ee: "2 ^ nat (- e) < limit" by (rule small_power[OF order_refl]) (use e in simp)
  have one: "1 < limit" using small_power[of 1 0] by simp
  have sh: "nat (- e) < 2 ^ 16" using e by simp
  obtain n1 where n1: "AssignPowerUInt16 10 (nat (- k)) (sc_num s) = Inr n1" "rep n1 (10 ^ nat (- k))"
    using rep_power_ten[OF r(1), of "nat (- k)"] k by (metis nat_le_iff of_nat_numeral minus_le_iff)
  have c: "AssignBignum n1 (sc_plus s) = Inr n1" "AssignBignum n1 (sc_minus s) = Inr n1" using rep_copy r(3,4) n1(2) by auto
  obtain n2 where n2: "MultiplyByUInt64 (unat f) n1 = Inr n2" "rep n2 (10 ^ nat (- k) * unat f)" using rep_mul64[OF n1(2) unat_lt64 kf] by blast
  obtain d1 where d1: "AssignUInt16 1 (sc_den s) = Inr d1" "rep d1 1" using rep_assign_one[OF r(2)] by blast
  obtain d2 where d2: "ShiftLeft (nat (- e)) d1 = Inr d2" "rep d2 (2 ^ nat (- e))" using rep_shift[OF d1(2) one sh] by auto
  obtain n3 where n3: "ShiftLeft 1 n2 = Inr n3" "rep n3 (10 ^ nat (- k) * unat f * 2)" using rep_shift[OF n2(2) kf, of 1] by auto
  obtain d3 where d3: "ShiftLeft 1 d2 = Inr d3" "rep d3 (2 ^ nat (- e) * 2)" using rep_shift[OF d2(2) ee, of 1] by auto
  show ?thesis using n1 n2 n3 d1 d2 d3 c r
    by (cases need) (simp_all add: InitialScaledStartValuesNegativeExponentNegativePower_def reps_def)
qed


definition dtoa_bound :: nat where
  "dtoa_bound = 2 ^ 2450"

lemma dtoa_bound_limit: "v < 2000 * dtoa_bound \<Longrightarrow> v < limit"
proof -
  assume "v < 2000 * dtoa_bound"
  also have "\<dots> \<le> 2 ^ 11 * 2 ^ 2450" unfolding dtoa_bound_def by (intro mult_le_mono1) simp
  also have "\<dots> = 2 ^ 2461" by (simp only: power_add[symmetric]) simp
  finally show ?thesis by (intro small_power[of v 2461]) linarith+
qed

lemma below_dtoa_bound: "a \<le> 2 ^ i \<Longrightarrow> i \<le> 2449 \<Longrightarrow> a * (if c then 2 else 1) \<le> dtoa_bound" for a :: nat
proof -
  assume "a \<le> 2 ^ i" "i \<le> 2449"
  then have "a \<le> 2 ^ 2449" by (meson order_trans power_increasing one_le_numeral)
  then have "a * (if c then 2 else 1) \<le> 2 ^ 2449 * 2" by (intro mult_le_mono) simp_all
  also have "\<dots> = dtoa_bound" unfolding dtoa_bound_def by (simp only: power_Suc2[symmetric]) simp
  finally show ?thesis .
qed

text \<open>The fractions \<open>num / den\<close>, \<open>minus / den\<close> and \<open>plus / den\<close> scaled by the power of ten: the number and its distances to the boundaries.\<close>

definition start_ok :: "nat \<Rightarrow> int \<Rightarrow> bool \<Rightarrow> int \<Rightarrow> bool \<Rightarrow> scaled \<Rightarrow> bool" where
  "start_ok f e closer k need s \<longleftrightarrow> (\<exists>num den lo up. reps s num den lo up \<and> nice den \<and> den \<le> 2 * dtoa_bound \<and> num \<le> 2 * dtoa_bound \<and> lo \<le> 2 * dtoa_bound \<and> up \<le> 2 * dtoa_bound
     \<and> real num * 10 powi k = real den * (real f * 2 powi e)
     \<and> (if need then real up * 10 powi k = real den * 2 powi (e - 1)
          \<and> real lo * 10 powi k = real den * 2 powi (e - (if closer then 2 else 1))
        else lo = 0 \<and> up = 0))"

lemma start_branches:
  assumes f: "unat f \<le> 2 ^ 53" and e: "- 1100 \<le> e" "e \<le> 1100" and k: "- 335 \<le> k" "k \<le> 335" "0 \<le> e \<Longrightarrow> 0 \<le> k"
  shows "\<exists>s num den lo up.
     (if e \<ge> 0 then InitialScaledStartValuesPositiveExponent f e k need scaled_new
      else if k \<ge> 0 then InitialScaledStartValuesNegativeExponentPositivePower f e k need scaled_new
      else InitialScaledStartValuesNegativeExponentNegativePower f e k need scaled_new) = Inr s
     \<and> reps s num den lo up \<and> nice den \<and> den \<le> dtoa_bound \<and> num \<le> dtoa_bound \<and> lo \<le> dtoa_bound \<and> up \<le> dtoa_bound
     \<and> real num * 10 powi k = real den * (real (unat f) * 2 powi e)
     \<and> (if need then real up * 10 powi k = real den * 2 powi (e - 1) \<and> lo = up else lo = 0 \<and> up = 0)"
proof -
  define g :: nat where "g = (if need then 2 else 1)"
  have F: "unat f \<le> 2 ^ 53" by (rule f)
  consider i j where "e = int i" "k = int j" "i \<le> 1100" "j \<le> 335"
    | i j where "e = - int i" "k = int j" "0 < i" "i \<le> 1100" "j \<le> 335"
    | i j where "e = - int i" "k = - int j" "0 < i" "0 < j" "i \<le> 1100" "j \<le> 335"
  proof (cases "0 \<le> e"; cases "0 \<le> k")
    assume "0 \<le> e" "0 \<le> k"
    then show thesis using that(1)[of "nat e" "nat k"] e k by simp
  next
    assume "\<not> 0 \<le> e" "0 \<le> k"
    then show thesis using that(2)[of "nat (- e)" "nat k"] e k by simp
  next
    assume "\<not> 0 \<le> e" "\<not> 0 \<le> k"
    then show thesis using that(3)[of "nat (- e)" "nat (- k)"] e k by simp
  qed (use k in simp)
  then show ?thesis
  proof cases
    case 1
    obtain s where s: "InitialScaledStartValuesPositiveExponent f e k need scaled_new = Inr s"
        "reps s (unat f * 2 ^ i * g) (10 ^ j * g) (if need then 2 ^ i else 0) (if need then 2 ^ i else 0)"
      using start_positive[OF reps_new f, of e k need] 1 by (auto simp: g_def split: if_splits)
    have "nice (10 ^ j * g)" using nice_double[OF nice_power_ten[of j], of "if need then 1 else 0"] 1 by (simp add: g_def split: if_splits)
    moreover have "unat f * 2 ^ i * g \<le> dtoa_bound" unfolding g_def by (rule below_dtoa_bound[OF prod_power[OF F order_refl]]) (use 1 in simp)
    moreover have "10 ^ j * g \<le> dtoa_bound" unfolding g_def by (rule below_dtoa_bound[OF ten_power]) (use 1 in simp)
    moreover have "(if need then 2 ^ i else 0) \<le> dtoa_bound" using below_dtoa_bound[of "2 ^ i" i False] 1 by auto
    moreover have "real (unat f * 2 ^ i * g) * 10 powi k = real (10 ^ j * g) * (real (unat f) * 2 powi e)" using 1 by simp
    moreover have "2 ^ i * 10 powi k = 2 * 10 ^ j * (2::real) powi (e - 1)" using 1 powi_succ(2)[of e] by simp
    ultimately show ?thesis using s 1(1) by (intro exI[of _ s] exI[of _ "unat f * 2 ^ i * g"] exI[of _ "10 ^ j * g"] exI[of _ "if need then 2 ^ i else 0"] conjI)
      (simp_all add: g_def)
  next
    case 2
    have neg: "\<not> 0 \<le> e" "0 \<le> k" using 2 by simp_all
    obtain s where s: "InitialScaledStartValuesNegativeExponentPositivePower f e k need scaled_new = Inr s"
        "reps s (unat f * g) (10 ^ j * 2 ^ i * g) (if need then 1 else 0) (if need then 1 else 0)"
      using start_negative_positive[OF reps_new f, of e k need] 2 by (auto simp: g_def split: if_splits)
    have "nice (10 ^ j * 2 ^ i * g)"
      using nice_double[OF nice_double[OF nice_power_ten[of j], of i], of "if need then 1 else 0"] 2 by (simp add: g_def split: if_splits)
    moreover have "unat f * g \<le> dtoa_bound" unfolding g_def by (rule below_dtoa_bound[OF F]) simp
    moreover have "10 ^ j * 2 ^ i * g \<le> dtoa_bound" unfolding g_def by (rule below_dtoa_bound[OF prod_power[OF ten_power order_refl]]) (use 2 in simp)
    moreover have "(if need then 1 else 0) \<le> dtoa_bound" using below_dtoa_bound[of 1 0 False] by auto
    moreover have p: "2 ^ i * (2::real) powi e = 1" using 2 by (simp add: power_int_minus)
    moreover have "real (unat f * g) * 10 powi k = real (10 ^ j * 2 ^ i * g) * (real (unat f) * 2 powi e)" using 2 p by (simp add: power_int_minus)
    moreover have "10 powi k = 2 * 10 ^ j * 2 ^ i * (2::real) powi (e - 1)" using 2(2) p powi_succ(2)[of e] by simp
    ultimately show ?thesis using s neg by (intro exI[of _ s] exI[of _ "unat f * g"] exI[of _ "10 ^ j * 2 ^ i * g"] exI[of _ "if need then 1 else 0"] conjI)
      (simp_all add: g_def)
  next
    case 3
    have neg: "\<not> 0 \<le> e" "\<not> 0 \<le> k" using 3 by simp_all
    obtain s where s: "InitialScaledStartValuesNegativeExponentNegativePower f e k need scaled_new = Inr s"
        "reps s (10 ^ j * unat f * g) (2 ^ i * g) (if need then 10 ^ j else 0) (if need then 10 ^ j else 0)"
      using start_negative_negative[OF reps_new f, of e k need] 3 by (auto simp: g_def split: if_splits)
    have "nice (2 ^ i * g)"
      using nice_double[OF nice_double[OF nice_one, of i], of "if need then 1 else 0"] by (simp add: g_def split: if_splits)
    moreover have "10 ^ j * unat f * g \<le> dtoa_bound" unfolding g_def by (rule below_dtoa_bound[OF prod_power[OF ten_power F]]) (use 3 in simp)
    moreover have "2 ^ i * g \<le> dtoa_bound" unfolding g_def by (rule below_dtoa_bound[OF order_refl]) (use 3 in simp)
    moreover have "(if need then 10 ^ j else 0) \<le> dtoa_bound" using below_dtoa_bound[OF ten_power[of j], of False] 3 by auto
    moreover have p: "2 ^ i * (2::real) powi e = 1" "10 ^ j * (10::real) powi k = 1" using 3 by (simp_all add: power_int_minus)
    moreover have "real (10 ^ j * unat f * g) * 10 powi k = real (2 ^ i * g) * (real (unat f) * 2 powi e)"
      using 3 by (simp add: power_int_minus)
    moreover have "10 ^ j * 10 powi k = 2 * 2 ^ i * (2::real) powi (e - 1)" using p powi_succ(2)[of e] by simp
    ultimately show ?thesis using s neg by (intro exI[of _ s] exI[of _ "10 ^ j * unat f * g"] exI[of _ "2 ^ i * g"] exI[of _ "if need then 10 ^ j else 0"] conjI)
      (simp_all add: g_def)
  qed
qed


lemma InitialScaledStartValues_spec:
  assumes "unat f \<le> 2 ^ 53" "- 1100 \<le> e" "e \<le> 1100" "- 335 \<le> k" "k \<le> 335" "0 \<le> e \<Longrightarrow> 0 \<le> k"
  shows "\<exists>s. InitialScaledStartValues f e closer k need scaled_new = Inr s \<and> start_ok (unat f) e closer k need s"
proof -
  obtain s num den lo up where s:
     "(if e \<ge> 0 then InitialScaledStartValuesPositiveExponent f e k need scaled_new
      else if k \<ge> 0 then InitialScaledStartValuesNegativeExponentPositivePower f e k need scaled_new
      else InitialScaledStartValuesNegativeExponentNegativePower f e k need scaled_new) = Inr s"
     and r: "reps s num den lo up" "nice den" "den \<le> dtoa_bound" "num \<le> dtoa_bound" "lo \<le> dtoa_bound" "up \<le> dtoa_bound"
     "real num * 10 powi k = real den * (real (unat f) * 2 powi e)"
     "if need then real up * 10 powi k = real den * 2 powi (e - 1) \<and> lo = up else lo = 0 \<and> up = 0"
    using start_branches[OF assms, of need] by blast
  show ?thesis
  proof (cases "need \<and> closer")
    case False
    have "InitialScaledStartValues f e closer k need scaled_new = Inr s"
      unfolding InitialScaledStartValues_def s using False by auto
    moreover have "start_ok (unat f) e closer k need s"
      unfolding start_ok_def using r False by (intro exI[of _ num] exI[of _ den] exI[of _ lo] exI[of _ up]) auto
    ultimately show ?thesis by blast
  next
    case True
    have rr: "rep (sc_num s) num" "rep (sc_den s) den" "rep (sc_minus s) lo" "rep (sc_plus s) up" using r(1) by (auto simp: reps_def)
    have b: "0 < dtoa_bound" by (simp add: dtoa_bound_def)
    have lim: "num < limit" "den < limit" "up < limit" using r(3-6) b by (auto intro!: dtoa_bound_limit)
    obtain d2 where d2: "ShiftLeft 1 (sc_den s) = Inr d2" "rep d2 (den * 2)" using rep_shift[OF rr(2) lim(2), of 1] by auto
    obtain n2 where n2: "ShiftLeft 1 (sc_num s) = Inr n2" "rep n2 (num * 2)" using rep_shift[OF rr(1) lim(1), of 1] by auto
    obtain p2 where p2: "ShiftLeft 1 (sc_plus s) = Inr p2" "rep p2 (up * 2)" using rep_shift[OF rr(4) lim(3), of 1] by auto
    define s2 where "s2 = s\<lparr>sc_num := n2, sc_den := d2, sc_plus := p2\<rparr>"
    have "InitialScaledStartValues f e closer k need scaled_new = Inr s2"
      unfolding InitialScaledStartValues_def s using True d2 n2 p2 by (simp add: s2_def)
    moreover have "reps s2 (num * 2) (den * 2) lo (up * 2)" using d2 n2 p2 rr by (simp add: reps_def s2_def)
    moreover have "nice (den * 2)" using nice_double[OF r(2), of 1] by simp
    moreover have "real (num * 2) * 10 powi k = real (den * 2) * (real (unat f) * 2 powi e)"
      "real (up * 2) * 10 powi k = real (den * 2) * 2 powi (e - 1)" "real lo * 10 powi k = real (den * 2) * 2 powi (e - 2)"
      using r(7,8) True powi_succ(2)[of "e - 1"] by simp_all
    ultimately show ?thesis using True r(3-6) unfolding start_ok_def
      by (intro exI[of _ s2] conjI exI[of _ "num * 2"] exI[of _ "den * 2"] exI[of _ lo] exI[of _ "up * 2"]) simp_all
  qed
qed

section \<open>The first digit\<close>

text \<open>\<open>room\<close> is the comparison of \<^verbatim>\<open>in_delta_room_plus\<close> and \<^verbatim>\<open>in_range\<close>: inclusive for an even significand.\<close>

definition room :: "bool \<Rightarrow> nat \<Rightarrow> nat \<Rightarrow> bool" where
  "room is_even a b \<longleftrightarrow> (if is_even then b \<le> a else b < a)"

definition first_ok :: "bool \<Rightarrow> nat \<Rightarrow> int \<Rightarrow> bool \<Rightarrow> bool \<Rightarrow> int \<Rightarrow> nat \<Rightarrow> nat \<Rightarrow> nat \<Rightarrow> nat \<Rightarrow> bool" where
  "first_ok is_even f e closer need p num den lo up \<longleftrightarrow>
     nice den \<and> den \<le> 2 * dtoa_bound \<and> num < 10 * den
     \<and> real num * 10 powi (p - 1) = real den * (real f * 2 powi e)
     \<and> (if need then room is_even (num + up) den \<and> \<not> room is_even (num + up) (10 * den)
          \<and> real up * 10 powi (p - 1) = real den * 2 powi (e - 1)
          \<and> real lo * 10 powi (p - 1) = real den * 2 powi (e - (if closer then 2 else 1))
        else den \<le> num \<and> lo = 0 \<and> up = 0)"


lemma cross_less:
  fixes a b :: nat and x y w :: real
  assumes "real a * w = real b * x" "0 < w" "0 < b"
  shows "x < y * w \<Longrightarrow> real a < real b * y" "y * w \<le> x \<Longrightarrow> real b * y \<le> real a"
proof -
  assume "x < y * w"
  then have "real b * x < real b * (y * w)" using assms(3) by simp
  then have "real a * w < (real b * y) * w" using assms(1) by (simp only: mult.assoc)
  then show "real a < real b * y" using assms(2) by simp
next
  assume "y * w \<le> x"
  then have "real b * (y * w) \<le> real b * x" by (rule mult_left_mono) simp
  then have "(real b * y) * w \<le> real a * w" using assms(1) by (simp only: mult.assoc)
  then show "real b * y \<le> real a" using assms(2) by simp
qed

lemma powi10_pos [simp]: "0 < (10::real) powi k"
  by (simp add: zero_less_power_int)

lemma powi10_succ: "(10::real) powi k = 10 * 10 powi (k - 1)"
  by (simp add: power_int_diff)

lemma powi_double: "x \<noteq> 0 \<Longrightarrow> x powi (2 * i) = x powi i * x powi i" for x :: real
  by (metis mult_2 power_int_add)

lemma FixupMultiply10_spec:
  assumes st: "start_ok f e closer k need s"
    and n: "2 powi n \<le> real f * 2 powi e" "real f * 2 powi e + 2 powi (e - 1) < 2 powi (n + 1)"
    and k: "(10::real) powi (k - 1) \<le> 2 powi n" "(2::real) powi (2 * n) \<le> 10 powi (2 * k + 1)"
    and exact: "\<not> need \<Longrightarrow> \<not> is_even \<Longrightarrow> real f * 2 powi e \<noteq> 10 powi k"
  shows "\<exists>p s' num den lo up. FixupMultiply10 k is_even s = Inr (p, s') \<and> reps s' num den lo up
    \<and> first_ok is_even f e closer need p num den lo up \<and> (p = k \<or> p = k + 1)"
proof -
  obtain num den lo up where r: "reps s num den lo up" "nice den"
      "den \<le> 2 * dtoa_bound" "num \<le> 2 * dtoa_bound" "lo \<le> 2 * dtoa_bound" "up \<le> 2 * dtoa_bound"
     "real num * 10 powi k = real den * (real f * 2 powi e)"
     and deltas: "if need then real up * 10 powi k = real den * 2 powi (e - 1)
          \<and> real lo * 10 powi k = real den * 2 powi (e - (if closer then 2 else 1))
        else lo = 0 \<and> up = 0"
    using st unfolding start_ok_def by blast
  have rr: "rep (sc_num s) num" "rep (sc_den s) den" "rep (sc_minus s) lo" "rep (sc_plus s) up" using r(1) by (auto simp: reps_def)
  have d: "0 < den" by (rule nice_pos[OF r(2)])
  have lt10: "(2::real) powi (n + 1) < 10 * 10 powi k"
  proof -
    have "((2::real) powi (n + 1))\<^sup>2 = 4 * 2 powi (2 * n)" by (simp add: powi_succ(1) power2_eq_square powi_double)
    also have "\<dots> \<le> 4 * 10 powi (2 * k + 1)" using k(2) by simp
    also have "\<dots> < (10 * 10 powi k)\<^sup>2" by (simp add: power2_eq_square power_int_add powi_double)
    finally show ?thesis by (rule power2_less_imp_less) simp
  qed
  have up_eq: "real (num + up) * 10 powi k = real den * (real f * 2 powi e + (if need then 2 powi (e - 1) else 0))"
    using r(7) deltas by (auto simp: distrib_left distrib_right)
  have "real f * 2 powi e + (if need then 2 powi (e - 1) else 0) \<le> real f * 2 powi e + 2 powi (e - 1)" by simp
  then have top: "num + up < 10 * den"
    using cross_less(1)[OF up_eq _ d, of 10] n(2) lt10 by simp
  have "(1 / 10) * (10::real) powi k \<le> 2 powi n" using k(1) powi10_succ[of k] by simp
  then have bot: "den \<le> 10 * num" using cross_less(2)[OF r(7) _ d, of "1 / 10"] n(1) by simp
  have up0: "need \<Longrightarrow> 0 < up" using deltas d by (cases up) auto
  have rm: "in_room_plus is_even (sc_num s) (sc_plus s) (sc_den s) = Inr (room is_even (num + up) den)"
    using rep_room[OF rr(1,4,2)] by (simp add: room_def)
  show ?thesis
  proof (cases "room is_even (num + up) den")
    case True
    have "first_ok is_even f e closer need (k + 1) num den lo up"
      unfolding first_ok_def using r deltas top True by (auto simp: room_def split: if_splits)
    then show ?thesis using r(1) rm True by (intro exI conjI) (simp add: FixupMultiply10_def, rule r(1), assumption, simp)
  next
    case False
    have lim: "num * 10 < limit" "lo * 10 < limit" "up * 10 < limit" using r(4-6) dtoa_bound_limit by (simp_all add: dtoa_bound_def)
    obtain n2 where n2: "Times10 (sc_num s) = Inr n2" "rep n2 (num * 10)" using rep_times10[OF rr(1) lim(1)] by blast
    obtain l2 where l2: "Times10 (sc_minus s) = Inr l2" "rep l2 (lo * 10)" using rep_times10[OF rr(3) lim(2)] by blast
    obtain u2 where u2: "Times10 (sc_plus s) = Inr u2" "rep u2 (up * 10)" using rep_times10[OF rr(4) lim(3)] by blast
    have eq: "bn_Equal (sc_minus s) (sc_plus s) = Inr (lo = up)" by (rule rep_cmp[OF rr(3,4)])
    have cp: "AssignBignum l2 (sc_plus s) = Inr l2" by (rule rep_copy[OF rr(4) l2(2)])
    have "\<exists>s'. FixupMultiply10 k is_even s = Inr (k, s') \<and> reps s' (num * 10) den (lo * 10) (up * 10)"
      using False n2 l2 u2 eq cp rr(2) by (cases "lo = up") (auto simp: FixupMultiply10_def rm reps_def)
    moreover have "first_ok is_even f e closer need k (num * 10) den (lo * 10) (up * 10)"
    proof -
      have "real (num * 10) * 10 powi (k - 1) = real den * (real f * 2 powi e)" using r(7) powi10_succ[of k] by simp
      moreover have "num * 10 < 10 * den"
      proof -
        have "num \<noteq> den" if "\<not> need" "\<not> is_even" using exact[OF that] r(7) d by auto
        then show ?thesis using False up0 deltas by (cases need; cases is_even) (auto simp: room_def)
      qed
      moreover have "if need then room is_even (num * 10 + up * 10) den \<and> \<not> room is_even (num * 10 + up * 10) (10 * den)
          \<and> real (up * 10) * 10 powi (k - 1) = real den * 2 powi (e - 1)
          \<and> real (lo * 10) * 10 powi (k - 1) = real den * 2 powi (e - (if closer then 2 else 1))
        else den \<le> num * 10 \<and> lo * 10 = 0 \<and> up * 10 = 0"
        using False bot up0 deltas powi10_succ[of k] by (cases need; cases is_even) (auto simp: room_def)
      ultimately show ?thesis unfolding first_ok_def using r(2,3) by blast
    qed
    ultimately show ?thesis by blast
  qed
qed

end
