(* ===== verification/BignumDtoa_Digits.thy ===== *)
theory BignumDtoa_Digits
  imports BignumDtoa_Start
begin

text \<open>
  The digits of \<open>N / D\<close> as natural numbers: \<open>quot N D i\<close> and \<open>rest N D i\<close> after \<open>i\<close> digits behind the point.  The loops of the code write
  the digits of \<open>quot\<close> into the buffer; the carry loop keeps the number the buffer holds.
\<close>

section \<open>Long division\<close>

definition quot :: "nat \<Rightarrow> nat \<Rightarrow> nat \<Rightarrow> nat" where
  "quot N D i = N * 10 ^ i div D"

definition rest :: "nat \<Rightarrow> nat \<Rightarrow> nat \<Rightarrow> nat" where
  "rest N D i = N * 10 ^ i mod D"

definition num_at :: "nat \<Rightarrow> nat \<Rightarrow> nat \<Rightarrow> nat" where
  "num_at N D i = (case i of 0 \<Rightarrow> N | Suc j \<Rightarrow> 10 * rest N D j)"

definition dig :: "nat \<Rightarrow> nat \<Rightarrow> nat \<Rightarrow> nat" where
  "dig N D i = num_at N D i div D"

lemma quot_rest: "quot N D i * D + rest N D i = N * 10 ^ i"
  by (simp add: quot_def rest_def)

lemma rest_less: "0 < D \<Longrightarrow> rest N D i < D"
  by (simp add: rest_def)

lemma quot_Suc: "0 < D \<Longrightarrow> quot N D (Suc i) = 10 * quot N D i + 10 * rest N D i div D"
proof -
  assume D: "0 < D"
  have "N * 10 ^ Suc i = 10 * (quot N D i * D + rest N D i)" by (simp add: quot_rest)
  also have "\<dots> = (10 * quot N D i) * D + 10 * rest N D i" by (simp only: distrib_left mult.assoc)
  finally have e: "N * 10 ^ Suc i = (10 * quot N D i) * D + 10 * rest N D i" .
  show ?thesis unfolding quot_def[of N D "Suc i"] e using D by simp
qed

lemma rest_Suc: "rest N D (Suc i) = 10 * rest N D i mod D"
proof -
  have "10 * rest N D i mod D = 10 * (N * 10 ^ i) mod D" by (simp add: rest_def mod_mult_right_eq)
  then show ?thesis by (simp add: rest_def mult.left_commute)
qed

lemma num_at_mod: "num_at N D i mod D = rest N D i"
  by (cases i) (simp_all add: num_at_def rest_Suc, simp add: rest_def)

lemma num_at_less: "N < 10 * D \<Longrightarrow> num_at N D i < 10 * D"
  using rest_less[of D N] by (cases i) (auto simp: num_at_def)

lemma dig_less: "N < 10 * D \<Longrightarrow> dig N D i < 10"
  using num_at_less[of N D i] by (simp add: dig_def less_mult_imp_div_less)

lemma quot_dig: "0 < D \<Longrightarrow> quot N D (Suc i) = 10 * quot N D i + dig N D (Suc i)"
  by (simp add: quot_Suc dig_def num_at_def)

lemma quot_0: "quot N D 0 = dig N D 0"
  by (simp add: quot_def dig_def num_at_def)

definition digits :: "nat \<Rightarrow> nat \<Rightarrow> nat \<Rightarrow> nat list" where
  "digits N D k = map (\<lambda>j. dig N D j + 48) [0..<k]"

lemma digits_Suc: "digits N D (Suc k) = digits N D k @ [dig N D k + 48]"
  by (simp add: digits_def)

lemma length_digits [simp]: "length (digits N D k) = k"
  by (simp add: digits_def)

lemma digits_dec: "N < 10 * D \<Longrightarrow> \<forall>c \<in> set (digits N D k). is_dec c"
  using dig_less[of N D] by (auto simp: digits_def is_dec_def less_Suc_eq_le[symmetric] numeral_eq_Suc)

lemma dec_value_single: "dec_value [c] = c - 48"
  by (simp add: dec_value_def horner_def)

lemma dec_value_snoc: "dec_value (cs @ [c]) = dec_value cs * 10 + (c - 48)"
  by (simp add: dec_value_append dec_value_single)

lemma dec_value_digits: "0 < D \<Longrightarrow> dec_value (digits N D (Suc k)) = quot N D k"
proof (induction k)
  case 0
  then show ?case by (simp add: digits_def dec_value_single quot_0)
next
  case (Suc k)
  then show ?case unfolding digits_Suc[of N D "Suc k"] dec_value_snoc by (simp add: quot_dig)
qed

section \<open>The buffer\<close>

lemma dec_value_update:
  assumes "i < length cs" "48 \<le> a" "48 \<le> cs ! i"
  shows "dec_value (cs[i := a]) + (cs ! i - 48) * 10 ^ (length cs - 1 - i) = dec_value cs + (a - 48) * 10 ^ (length cs - 1 - i)"
proof -
  have c: "cs = take i cs @ [cs ! i] @ drop (Suc i) cs" using assms(1) by (simp add: id_take_nth_drop)
  have u: "cs[i := a] = take i cs @ [a] @ drop (Suc i) cs" using assms(1) by (simp add: upd_conv_take_nth_drop)
  let ?m = "length cs - 1 - i"
  have l: "length (drop (Suc i) cs) = ?m" by simp
  have "dec_value cs = (dec_value (take i cs) * 10 + (cs ! i - 48)) * 10 ^ ?m + dec_value (drop (Suc i) cs)"
    by (subst c, simp only: append_assoc[symmetric] dec_value_append[of "take i cs @ _"] dec_value_append[of "take i cs"] l) (simp add: dec_value_single)
  moreover have "dec_value (cs[i := a]) = (dec_value (take i cs) * 10 + (a - 48)) * 10 ^ ?m + dec_value (drop (Suc i) cs)"
    by (subst u, simp only: append_assoc[symmetric] dec_value_append[of "take i cs @ _"] dec_value_append[of "take i cs"] l) (simp add: dec_value_single)
  ultimately show ?thesis by (simp add: distrib_right)
qed

lemma carry_loop_spec:
  assumes "i < length cs" "\<forall>j < length cs. j \<noteq> i \<longrightarrow> is_dec (cs ! j)" "48 \<le> cs ! i" "cs ! i \<le> 58"
  shows "\<exists>cs'. carry_loop (cs @ z) i = Inr (cs' @ z) \<and> length cs' = length cs \<and> dec_value cs' = dec_value cs
    \<and> (\<forall>j < length cs. 0 < j \<longrightarrow> is_dec (cs' ! j)) \<and> 48 \<le> cs' ! 0 \<and> cs' ! 0 \<le> 58"
  using assms
proof (induction i arbitrary: cs)
  case 0
  then show ?case by auto
next
  case (Suc i)
  show ?case
  proof (cases "cs ! Suc i = 58")
    case False
    then have dec: "is_dec (cs ! j)" if "j < length cs" for j using Suc.prems that by (cases "j = Suc i") (auto simp: is_dec_def)
    have "carry_loop (cs @ z) (Suc i) = Inr (cs @ z)" using Suc.prems(1) False by (simp add: nth_append)
    moreover have "is_dec (cs ! 0)" by (rule dec) (use Suc.prems(1) in linarith)
    ultimately show ?thesis using dec by (intro exI[of _ cs]) (simp add: is_dec_def del: carry_loop.simps)
  next
    case True
    define cs1 where "cs1 = (cs[Suc i := 48])[i := cs ! i + 1]"
    have i: "is_dec (cs ! i)" using Suc.prems by simp
    have l: "length cs1 = length cs" by (simp add: cs1_def)
    let ?m = "length cs - 1 - Suc i"
    have e: "length cs - 1 - i = Suc ?m" using Suc.prems(1) by simp
    have "dec_value (cs[Suc i := 48]) + 10 * 10 ^ ?m = dec_value cs"
      using dec_value_update[OF Suc.prems(1), of 48] True by simp
    moreover have "dec_value cs1 + (cs ! i - 48) * 10 ^ Suc ?m = dec_value (cs[Suc i := 48]) + (cs ! i + 1 - 48) * 10 ^ Suc ?m"
      using dec_value_update[of i "cs[Suc i := 48]" "cs ! i + 1", unfolded length_list_update e] Suc.prems(1) i unfolding cs1_def by (simp add: is_dec_def)
    moreover have "(cs ! i + 1 - 48) * 10 ^ Suc ?m = (cs ! i - 48) * 10 ^ Suc ?m + 10 * 10 ^ ?m"
    proof -
      have "cs ! i + 1 - 48 = Suc (cs ! i - 48)" using i by (auto simp: is_dec_def)
      then show ?thesis by simp
    qed
    ultimately have v: "dec_value cs1 = dec_value cs" by linarith
    have "carry_loop (cs @ z) (Suc i) = carry_loop (cs1 @ z) i"
      using Suc.prems(1) True by (simp add: nth_append list_update_append cs1_def)
    moreover have "\<forall>j < length cs1. j \<noteq> i \<longrightarrow> is_dec (cs1 ! j)" using Suc.prems(1,2) by (auto simp: cs1_def nth_list_update is_dec_def)
    moreover have "48 \<le> cs1 ! i" "cs1 ! i \<le> 58" using Suc.prems(1) i by (simp_all add: cs1_def is_dec_def)
    ultimately show ?thesis using Suc.IH[of cs1] Suc.prems(1) l v by auto
  qed
qed


section \<open>A given number of digits\<close>

lemma counted_loop_spec:
  assumes "rep den D" "nice D" "N < 10 * D" "10 * D < limit" "2 ^ 16 \<le> n"
    and "rep num (num_at N D i)" "length v = k"
  shows "\<exists>num'. counted_loop n i k den num (digits N D i @ v @ w) = Some (Inr (num', digits N D (i + k) @ w)) \<and> rep num' (num_at N D (i + k))"
  using assms(6,7)
proof (induction k arbitrary: i num v)
  case (Suc k)
  obtain x v' where v: "v = x # v'" "length v' = k" using Suc.prems(2) by (cases v) auto
  have lt: "num_at N D i < 10 * D" "dig N D i < 10" using num_at_less[OF assms(3)] dig_less[OF assms(3)] by auto
  obtain r where r: "DivideModuloIntBignum n den num = Some (Inr (dig N D i, r))" "rep r (rest N D i)"
    using rep_divide[OF Suc.prems(1) assms(1,2) lt(1) _ assms(5)] lt(1) assms(4) unfolding dig_def num_at_mod by fastforce
  have "rest N D i * 10 < limit" using rest_less[OF nice_pos[OF assms(2)], of N i] assms(4) by linarith
  then obtain t where t: "Times10 r = Inr t" "rep t (num_at N D (Suc i))" using rep_times10[OF r(2)] by (auto simp: num_at_def mult.commute)
  have "(digits N D i @ v @ w)[i := dig N D i + 48] = digits N D (Suc i) @ v' @ w"
    by (simp add: v list_update_append digits_Suc)
  then have "counted_loop n i (Suc k) den num (digits N D i @ v @ w) = counted_loop n (Suc i) k den t (digits N D (Suc i) @ v' @ w)"
    using r(1) t(1) lt(2) by (simp add: ASSERT_def v)
  then show ?case using Suc.IH[OF t(2) v(2)] by simp
qed simp

text \<open>\<open>half_up N D\<close> is \<open>N / D\<close> rounded to an integer, halves up.\<close>

definition half_up :: "nat \<Rightarrow> nat \<Rightarrow> nat" where
  "half_up N D = (2 * N + D) div (2 * D)"

lemma half_up_rest:
  assumes "0 < D" "r < D"
  shows "half_up (V * D + r) D = (if D \<le> 2 * r then V + 1 else V)"
proof -
  have e: "2 * (V * D + r) + D = V * (2 * D) + (2 * r + D)" by simp
  have "half_up (V * D + r) D = V + (2 * r + D) div (2 * D)" unfolding half_up_def e using assms(1) by (intro div_mult_self3) simp
  moreover have "(2 * r + D) div (2 * D) = (if D \<le> 2 * r then 1 else 0)"
    using assms by (auto intro!: div_nat_eqI)
  ultimately show ?thesis by simp
qed

lemma half_up_real: "0 < D \<Longrightarrow> int (half_up N D) = \<lfloor>real N / real D + 1 / 2\<rfloor>"
proof -
  assume D: "0 < D"
  have "real N / real D + 1 / 2 = real_of_int (int (2 * N + D)) / real_of_int (int (2 * D))" using D by (simp add: field_simps)
  then show ?thesis unfolding half_up_def by (simp only: floor_divide_of_int_eq zdiv_int)
qed


lemma quot_bounds:
  assumes "0 < D" "N < 10 * D"
  shows "quot N D k < 10 ^ Suc k" "D \<le> N \<Longrightarrow> 10 ^ k \<le> quot N D k"
proof -
  have "N * 10 ^ k < (10 * D) * 10 ^ k" using assms(2) by simp
  then show "quot N D k < 10 ^ Suc k" unfolding quot_def by (intro less_mult_imp_div_less) (simp add: ac_simps)
  show "10 ^ k \<le> quot N D k" if "D \<le> N"
    unfolding quot_def using assms(1) mult_le_mono1[OF that, of "10 ^ k"] by (simp add: less_eq_div_iff_mult_less_eq mult.commute)
qed

lemma GenerateCountedDigits_spec:
  assumes s: "reps s N D lo up" and D: "nice D" "N < 10 * D" "D \<le> N" "10 * D < limit" and n: "2 ^ 16 \<le> n"
    and c: "1 \<le> c" "nat c \<le> length buffer"
  defines "V \<equiv> half_up (N * 10 ^ (nat c - 1)) D"
  shows "\<exists>cs p'. GenerateCountedDigits n c p s buffer = Some (Inr (cs @ drop (nat c) buffer, c, p')) \<and> length cs = nat c
    \<and> (\<forall>x \<in> set cs. is_dec x) \<and> cs ! 0 \<noteq> 48
    \<and> (if V = 10 ^ nat c then p' = p + 1 \<and> dec_value cs = 10 ^ (nat c - 1) else p' = p \<and> dec_value cs = V)"
proof -
  have D0: "0 < D" by (rule nice_pos[OF D(1)])
  have r: "rep (sc_num s) N" "rep (sc_den s) D" using s by (auto simp: reps_def)
  define C where "C = nat c - 1"
  have C: "nat c = Suc C" "nat (c - 1) = C" "c = int C + 1" using c(1) by (simp_all add: C_def nat_diff_distrib)
  have b: "buffer = digits N D 0 @ take C buffer @ drop C buffer" by (simp add: digits_def)
  obtain z where z: "drop C buffer = z # drop (Suc C) buffer" using c(2) C(1) by (metis Cons_nth_drop_Suc Suc_le_eq)
  have "num_at N D 0 = N" by (simp add: num_at_def)
  then obtain num where num: "counted_loop n 0 C (sc_den s) (sc_num s) buffer = Some (Inr (num, digits N D C @ drop C buffer))" "rep num (num_at N D C)"
    using counted_loop_spec[OF r(2) D(1,2,4) n, of "sc_num s" 0 "take C buffer" C "drop C buffer"] r(1) b c(2) C(1) by auto
  have lt: "num_at N D C < 10 * D" "dig N D C < 10" using num_at_less[OF D(2)] dig_less[OF D(2)] by auto
  then obtain q where q: "DivideModuloIntBignum n (sc_den s) num = Some (Inr (dig N D C, q))" "rep q (rest N D C)"
    using rep_divide[OF num(2) r(2) D(1) lt(1) _ n] lt(1) D(4) unfolding dig_def num_at_mod by fastforce
  have cmp: "bn_PlusCompare q q (sc_den s) = Inr (cmp (rest N D C + rest N D C) D)" by (rule rep_plus_cmp[OF q(2,2) r(2)])
  define h :: nat where "h = (if D \<le> 2 * rest N D C then 1 else 0)"
  have h: "cmp (rest N D C + rest N D C) D \<ge> 0 \<longleftrightarrow> D \<le> 2 * rest N D C" by (auto simp: cmp_def)
  define last where "last = dig N D C + h"
  have last: "(if D \<le> 2 * rest N D C then uint16 (dig N D C + 1) else dig N D C) = last" using lt(2) by (simp add: last_def h_def uint16_def)
  have V: "V = quot N D C + h"
  proof -
    have "V = half_up (quot N D C * D + rest N D C) D" unfolding V_def quot_rest C_def ..
    then show ?thesis using half_up_rest[OF D0 rest_less[OF D0]] by (simp add: h_def)
  qed
  define cs where "cs = digits N D C @ [last + 48]"
  have cs_len: "length cs = Suc C" by (simp add: cs_def)
  have "dec_value cs = dec_value (digits N D (Suc C)) + h" unfolding cs_def digits_Suc dec_value_snoc by (simp add: last_def)
  then have cs_val: "dec_value cs = V" using V dec_value_digits[OF D0] by simp
  have wrt: "bvec_wr (digits N D C @ drop C buffer) (c - 1) (last + 48) = Inr (cs @ drop (Suc C) buffer)"
    using C c(2) by (simp add: bvec_wr_def ASSERT_def z list_update_append cs_def)
  have dec: "\<forall>x \<in> set (digits N D C). is_dec x" by (rule digits_dec[OF D(2)])
  have others: "is_dec (cs ! j)" if "j < length cs" "j \<noteq> C" for j
    using dec that by (auto simp: cs_def nth_append)
  have "h \<le> 1" by (simp add: h_def)
  then have pos: "48 \<le> cs ! C" "cs ! C \<le> 58" using lt(2) by (simp_all add: cs_def nth_append last_def)
  obtain cs' where cs': "carry_loop (cs @ drop (Suc C) buffer) C = Inr (cs' @ drop (Suc C) buffer)" "length cs' = Suc C"
      "dec_value cs' = V" "\<forall>j < Suc C. 0 < j \<longrightarrow> is_dec (cs' ! j)" "48 \<le> cs' ! 0" "cs' ! 0 \<le> 58"
    using carry_loop_spec[of C cs "drop (Suc C) buffer"] others pos cs_len cs_val by auto
  obtain y ys where y: "cs' = y # ys" using cs'(2) by (cases cs') auto
  have ys: "length ys = C" using cs'(2) y by simp
  have "is_dec (ys ! j)" if "j < C" for j using cs'(4)[rule_format, of "Suc j"] that y by simp
  then have ys: "length ys = C" "\<forall>x \<in> set ys. is_dec x" using ys by (auto simp: in_set_conv_nth)
  have yv: "V = (y - 48) * 10 ^ C + dec_value ys" using cs'(3) y ys(1) dec_value_append[of "[y]" ys] by (simp add: dec_value_single)
  have Vb: "10 ^ C \<le> V" "V \<le> 10 ^ Suc C" using quot_bounds[OF D0 D(2), of C] D(3) V \<open>h \<le> 1\<close> by auto
  have run: "GenerateCountedDigits n c p s buffer =
      Some (if y = 58 then Inr ((49 # ys) @ drop (Suc C) buffer, c, p + 1) else Inr ((y # ys) @ drop (Suc C) buffer, c, p))"
    using c(1) num(1) q(1) cmp wrt cs'(1) y lt(2) last \<open>h \<le> 1\<close>
    by (simp add: GenerateCountedDigits_def ASSERT_def C(2) h last_def Let_def)
  show ?thesis
  proof (cases "y = 58")
    case True
    then have "dec_value ys = 0" "V = 10 ^ Suc C" using yv Vb by auto
    moreover have "dec_value (49 # ys) = 10 ^ C + dec_value ys" using dec_value_append[of "[49]" ys] ys(1) by (simp add: dec_value_single)
    ultimately show ?thesis using run True ys C(1)
      by (intro exI[of _ "49 # ys"] exI[of _ "p + 1"]) (simp add: is_dec_def)
  next
    case False
    then have "dec_value ys < 10 ^ C" "y - 48 < 10" using dec_value_less[OF ys(2)] ys(1) cs'(5,6) y by auto
    then have "V < 10 ^ Suc C" using yv by (auto simp: digit_less_iff)
    moreover have "y \<noteq> 48"
    proof
      assume "y = 48"
      then show False using yv Vb(1) \<open>dec_value ys < 10 ^ C\<close> by simp
    qed
    ultimately show ?thesis using run False ys cs'(3,5,6) y C(1)
      by (intro exI[of _ "y # ys"] exI[of _ p]) (simp add: is_dec_def)
  qed
qed


section \<open>The shortest digits\<close>

text \<open>
  The loop stops at the first \<open>i\<close> where the digits so far, or the digits with the last one raised, lie between the boundaries
  \<open>(N - A) / D\<close> and \<open>(N + U) / D\<close>.
\<close>

definition stops :: "bool \<Rightarrow> nat \<Rightarrow> nat \<Rightarrow> nat \<Rightarrow> nat \<Rightarrow> nat \<Rightarrow> bool" where
  "stops is_even N D A U i \<longleftrightarrow> room is_even (A * 10 ^ i) (rest N D i) \<or> room is_even (rest N D i + U * 10 ^ i) D"

definition raise :: "bool \<Rightarrow> nat \<Rightarrow> nat \<Rightarrow> nat \<Rightarrow> nat \<Rightarrow> nat \<Rightarrow> bool" where
  "raise is_even N D A U i \<longleftrightarrow>
     (if room is_even (A * 10 ^ i) (rest N D i) \<and> room is_even (rest N D i + U * 10 ^ i) D
      then 2 * rest N D i > D \<or> 2 * rest N D i = D \<and> odd (dig N D i)
      else \<not> room is_even (A * 10 ^ i) (rest N D i))"

lemma room_add: "room ev (a + c) (b + c) \<longleftrightarrow> room ev a b"
  by (simp add: room_def)

lemma room_mult: "0 < c \<Longrightarrow> room ev (a * c) (b * c) \<longleftrightarrow> room ev a b"
  by (simp add: room_def)

lemma room_plus: "room ev (rest N D i + U * 10 ^ i) D \<longleftrightarrow> room ev ((N + U) * 10 ^ i) ((quot N D i + 1) * D)"
proof -
  have "(N + U) * 10 ^ i = (rest N D i + U * 10 ^ i) + quot N D i * D" using quot_rest[of N D i] by (simp add: distrib_right)
  moreover have "(quot N D i + 1) * D = D + quot N D i * D" by simp
  ultimately show ?thesis by (simp only: room_add)
qed

text \<open>A digit 9 is never raised: the loop would have stopped one digit earlier.\<close>

lemma raised_not_nine:
  assumes D: "0 < D" and top: "\<not> room ev (N + U) (10 * D)" and run: "\<And>j. j < i \<Longrightarrow> \<not> stops ev N D A U j"
    and r: "raise ev N D A U i" "stops ev N D A U i"
  shows "dig N D i \<noteq> 9"
proof
  assume nine: "dig N D i = 9"
  have "room ev (rest N D i + U * 10 ^ i) D" using r by (auto simp: raise_def stops_def split: if_splits)
  then have *: "room ev ((N + U) * 10 ^ i) ((quot N D i + 1) * D)" by (simp add: room_plus)
  show False
  proof (cases i)
    case 0
    then show False using * top nine by (simp add: quot_0)
  next
    case (Suc j)
    have "(quot N D i + 1) * D = ((quot N D j + 1) * D) * 10" using quot_dig[OF D, of N j] nine Suc by (simp add: algebra_simps)
    moreover have "(N + U) * 10 ^ i = ((N + U) * 10 ^ j) * 10" by (simp add: Suc)
    ultimately have "room ev ((N + U) * 10 ^ j) ((quot N D j + 1) * D)" using * room_mult[of 10] by (simp only:)
    then show False using run[of j] Suc by (simp add: stops_def room_plus)
  qed
qed

lemma shortest_loop_spec:
  assumes den: "rep (sc_den s) D" "nice D" and N: "N < 10 * D" "10 * D < limit" and n: "2 ^ 16 \<le> n"
    and top: "\<not> room ev (N + U) (10 * D)" and same: "same \<Longrightarrow> A = U"
    and run: "\<And>j. j < m \<Longrightarrow> \<not> stops ev N D A U j" and stop: "stops ev N D A U m"
    and i: "i \<le> m" "m - i < k" "m - i < length v"
    and st: "rep (sc_num s) (num_at N D i)" "rep (sc_minus s) (A * 10 ^ i)" "\<not> same \<Longrightarrow> rep (sc_plus s) (U * 10 ^ i)"
  shows "shortest_loop k n same ev s (digits N D i @ v) i =
    Some (Inr (digits N D m @ (dig N D m + 48 + (if raise ev N D A U m then 1 else 0)) # drop (Suc (m - i)) v, Suc m))"
  using i st den(1)
proof (induction k arbitrary: i s v)
  case (Suc k)
  have D0: "0 < D" by (rule nice_pos[OF den(2)])
  obtain x v' where v: "v = x # v'" using Suc.prems(3) by (cases v) auto
  have lt: "num_at N D i < 10 * D" "dig N D i < 10" using num_at_less[OF N(1)] dig_less[OF N(1)] by auto
  obtain r where r: "DivideModuloIntBignum n (sc_den s) (sc_num s) = Some (Inr (dig N D i, r))" "rep r (rest N D i)"
    using rep_divide[OF Suc.prems(4,7) den(2) lt(1) _ n] lt(1) N(2) unfolding dig_def num_at_mod by fastforce
  define plus' where "plus' = (if same then sc_minus s else sc_plus s)"
  have plus': "rep plus' (U * 10 ^ i)" using Suc.prems(5,6) same by (auto simp: plus'_def)
  define im ip where "im = room ev (A * 10 ^ i) (rest N D i)" and "ip = room ev (rest N D i + U * 10 ^ i) D"
  have c1: "(if ev then bn_LessEqual r (sc_minus s) else bn_Less r (sc_minus s)) = Inr im"
    using rep_cmp[OF r(2) Suc.prems(5)] by (simp add: im_def room_def)
  have c2: "in_room_plus ev r plus' (sc_den s) = Inr ip"
    using rep_room[OF r(2) plus' Suc.prems(7)] by (simp add: ip_def room_def)
  have c3: "bn_PlusCompare r r (sc_den s) = Inr (cmp (rest N D i + rest N D i) D)" by (rule rep_plus_cmp[OF r(2,2) Suc.prems(7)])
  have w: "vec_wr (digits N D i @ v) i (dig N D i + 48) = Inr (digits N D (Suc i) @ v')"
    by (simp add: v list_update_append digits_Suc)
  show ?case
  proof (cases "i = m")
    case False
    then have lt_m: "i < m" using Suc.prems(1) by simp
    then have no: "\<not> im" "\<not> ip" using run[OF lt_m] by (auto simp: stops_def im_def ip_def)
    have rD: "rest N D i < D" by (rule rest_less[OF D0])
    have b: "A * 10 ^ i \<le> rest N D i" "U * 10 ^ i \<le> D" using no by (auto simp: im_def ip_def room_def split: if_splits)
    obtain n2 where n2: "Times10 r = Inr n2" "rep n2 (num_at N D (Suc i))"
      using rep_times10[OF r(2)] rD N(2) by (auto simp: num_at_def mult.commute)
    obtain m2 where m2: "Times10 (sc_minus s) = Inr m2" "rep m2 (A * 10 ^ Suc i)"
      using rep_times10[OF Suc.prems(5)] b rD N(2) by (auto simp: ac_simps)
    obtain p2 where p2: "(if same then Inr (sc_plus s) else Times10 (sc_plus s)) = Inr p2" "\<not> same \<Longrightarrow> rep p2 (U * 10 ^ Suc i)"
    proof (cases same)
      case ns: False
      obtain p2 where "Times10 (sc_plus s) = Inr p2" "rep p2 (U * 10 ^ i * 10)"
        using rep_times10[OF Suc.prems(6)[OF ns]] b N(2) by auto
      then show ?thesis using that[of p2] ns by (simp add: ac_simps)
    qed simp
    let ?s' = "s\<lparr>sc_num := n2, sc_minus := m2, sc_plus := p2\<rparr>"
    have step: "shortest_loop (Suc k) n same ev s (digits N D i @ v) i = shortest_loop k n same ev ?s' (digits N D (Suc i) @ v') (Suc i)"
      using r(1) lt(2) w c1 c2 no n2(1) m2(1) p2(1) by (simp add: ASSERT_def Let_def plus'_def)
    have "Suc i \<le> m" "m - Suc i < k" "m - Suc i < length v'" using Suc.prems(2,3) lt_m v by auto
    from Suc.IH[OF this, of ?s'] have "shortest_loop k n same ev ?s' (digits N D (Suc i) @ v') (Suc i) =
      Some (Inr (digits N D m @ (dig N D m + 48 + (if raise ev N D A U m then 1 else 0)) # drop (Suc (m - Suc i)) v', Suc m))"
      using n2 m2 p2 Suc.prems(7) by simp
    moreover have "drop (Suc (m - Suc i)) v' = drop (Suc (m - i)) v" using lt_m v by (simp add: Suc_diff_Suc)
    ultimately show ?thesis unfolding step by (simp only:)
  next
    case True
    have ii: "im \<or> ip" using stop True by (auto simp: stops_def im_def ip_def)
    have ra: "raise ev N D A U m \<longleftrightarrow> (if im \<and> ip then 2 * rest N D i > D \<or> 2 * rest N D i = D \<and> odd (dig N D i) else \<not> im)"
      using True by (simp add: raise_def im_def ip_def)
    have nine: "raise ev N D A U m \<Longrightarrow> dig N D i \<noteq> 9" using raised_not_nine[OF D0 top run _ stop] True by simp
    have up: "round_up_last (digits N D (Suc i) @ v') (Suc i) = Inr (digits N D i @ (dig N D i + 49) # v', Suc i)" if "dig N D i \<noteq> 9"
      using that by (simp add: round_up_last_def bvec_rd_def bvec_wr_def ASSERT_def digits_Suc nth_append list_update_append)
    have rd: "bvec_rd (digits N D (Suc i) @ v') (int (Suc i) - 1) = Inr (dig N D i + 48)"
      by (simp add: bvec_rd_def ASSERT_def digits_Suc nth_append)
    show ?thesis
    proof (cases "raise ev N D A U m")
      case up_case: True
      show ?thesis using r(1) lt(2) w c1 c2 c3 ii up[OF nine[OF up_case]] rd up_case[unfolded ra] True up_case
        by (cases im; cases ip) (auto simp: ASSERT_def Let_def plus'_def[symmetric] cmp_def v split: if_splits)
    next
      case False
      show ?thesis using r(1) lt(2) w c1 c2 c3 ii rd False[unfolded ra] True False
        by (cases im; cases ip) (auto simp: ASSERT_def Let_def plus'_def[symmetric] cmp_def v digits_Suc split: if_splits)
    qed
  qed
qed simp


text \<open>\<open>inside W i\<close>: the decimal \<open>W / 10 ^ i\<close> lies between the boundaries.\<close>

definition inside :: "bool \<Rightarrow> nat \<Rightarrow> nat \<Rightarrow> nat \<Rightarrow> nat \<Rightarrow> nat \<Rightarrow> nat \<Rightarrow> bool" where
  "inside is_even N D A U W i \<longleftrightarrow> room is_even (W * D + A * 10 ^ i) (N * 10 ^ i) \<and> room is_even ((N + U) * 10 ^ i) (W * D)"

lemma room_mono: "room ev a b \<Longrightarrow> a \<le> a' \<Longrightarrow> b' \<le> b \<Longrightarrow> room ev a' b'"
  by (auto simp: room_def split: if_splits)

lemma room_less: "b < a \<Longrightarrow> room ev a b"
  by (simp add: room_def)

lemma inside_quot:
  assumes "0 < D" "0 < U"
  shows "inside ev N D A U (quot N D i) i \<longleftrightarrow> room ev (A * 10 ^ i) (rest N D i)"
proof -
  have "room ev (quot N D i * D + A * 10 ^ i) (N * 10 ^ i) \<longleftrightarrow> room ev (A * 10 ^ i) (rest N D i)"
    using room_add[of ev "A * 10 ^ i" "quot N D i * D" "rest N D i"] quot_rest[of N D i] by (simp add: add.commute)
  moreover have "quot N D i * D < (N + U) * 10 ^ i" using quot_rest[of N D i] assms(2) by (simp add: distrib_right add.commute flip: quot_rest[of N D i])
  ultimately show ?thesis unfolding inside_def using room_less by blast
qed

lemma inside_quot_Suc:
  assumes "0 < D"
  shows "inside ev N D A U (quot N D i + 1) i \<longleftrightarrow> room ev (rest N D i + U * 10 ^ i) D"
proof -
  have "N * 10 ^ i < (quot N D i + 1) * D" using quot_rest[of N D i] rest_less[OF assms, of N i] by (simp flip: quot_rest[of N D i])
  then have "room ev ((quot N D i + 1) * D + A * 10 ^ i) (N * 10 ^ i)" by (intro room_less) simp
  then show ?thesis unfolding inside_def room_plus by blast
qed

lemma inside_stops:
  assumes "0 < D" "0 < U" "inside ev N D A U W i"
  shows "stops ev N D A U i" "W \<le> quot N D i \<Longrightarrow> inside ev N D A U (quot N D i) i" "quot N D i < W \<Longrightarrow> inside ev N D A U (quot N D i + 1) i"
proof -
  show q: "inside ev N D A U (quot N D i) i" if "W \<le> quot N D i"
  proof -
    have "W * D \<le> quot N D i * D" using that by simp
    then have "room ev (quot N D i * D + A * 10 ^ i) (N * 10 ^ i)" using assms(3) unfolding inside_def by (auto intro: room_mono)
    then show ?thesis using inside_quot[OF assms(1,2)] room_add[of ev "A * 10 ^ i" "quot N D i * D" "rest N D i"] quot_rest[of N D i]
      by (simp add: add.commute)
  qed
  show q1: "inside ev N D A U (quot N D i + 1) i" if "quot N D i < W"
  proof -
    have "(quot N D i + 1) * D \<le> W * D" using that by (intro mult_le_mono1) simp
    then have "room ev ((N + U) * 10 ^ i) ((quot N D i + 1) * D)" using assms(3) unfolding inside_def by (auto intro: room_mono)
    then show ?thesis unfolding inside_quot_Suc[OF assms(1)] room_plus .
  qed
  show "stops ev N D A U i"
    using q q1 inside_quot[OF assms(1,2)] inside_quot_Suc[OF assms(1)] unfolding stops_def by (cases "W \<le> quot N D i") auto
qed

text \<open>The number the loop ends with.\<close>

definition shortest :: "bool \<Rightarrow> nat \<Rightarrow> nat \<Rightarrow> nat \<Rightarrow> nat \<Rightarrow> nat \<Rightarrow> nat" where
  "shortest is_even N D A U m = quot N D m + (if raise is_even N D A U m then 1 else 0)"

lemma shortest_inside:
  assumes "0 < D" "0 < U" "stops ev N D A U m"
  shows "inside ev N D A U (shortest ev N D A U m) m"
  using assms(3) inside_quot[OF assms(1,2)] inside_quot_Suc[OF assms(1)]
  by (auto simp: shortest_def raise_def stops_def split: if_splits)

lemma shortest_closest:
  assumes "0 < D" "0 < U" "stops ev N D A U m" "inside ev N D A U W m"
  shows "\<bar>int (shortest ev N D A U m * D) - int (N * 10 ^ m)\<bar> \<le> \<bar>int (W * D) - int (N * 10 ^ m)\<bar>"
proof -
  let ?q = "quot N D m" and ?r = "rest N D m"
  have e: "int (N * 10 ^ m) = int ?q * int D + int ?r" using quot_rest[of N D m] by (metis of_nat_add of_nat_mult)
  have rD: "?r < D" by (rule rest_less[OF assms(1)])
  have s: "int (shortest ev N D A U m * D) - int (N * 10 ^ m) = (if raise ev N D A U m then int D else 0) - int ?r"
    by (simp only: e) (simp add: shortest_def distrib_right)
  show ?thesis
  proof (cases "W \<le> ?q")
    case True
    then have "int W * int D \<le> int ?q * int D" by (simp flip: of_nat_mult)
    then have far: "int ?r \<le> \<bar>int (W * D) - int (N * 10 ^ m)\<bar>" unfolding e by simp
    have "room ev (A * 10 ^ m) ?r" using inside_stops(2)[OF assms(1,2,4) True] inside_quot[OF assms(1,2)] by blast
    then have "raise ev N D A U m \<Longrightarrow> D \<le> 2 * ?r" by (auto simp: raise_def split: if_splits)
    then show ?thesis unfolding s using far rD by (cases "raise ev N D A U m") auto
  next
    case False
    then have "(int ?q + 1) * int D \<le> int W * int D" by (intro mult_right_mono) simp_all
    then have far: "int D - int ?r \<le> \<bar>int (W * D) - int (N * 10 ^ m)\<bar>" unfolding e by (simp add: distrib_right)
    have "room ev (?r + U * 10 ^ m) D" using inside_stops(3)[OF assms(1,2,4)] False inside_quot_Suc[OF assms(1)] by simp
    then have "\<not> raise ev N D A U m \<Longrightarrow> 2 * ?r \<le> D" by (auto simp: raise_def split: if_splits)
    then show ?thesis unfolding s using far rD by (cases "raise ev N D A U m") auto
  qed
qed

lemma stops_at_0:
  assumes "0 < D" "room ev (N + U) D" "\<not> stops ev N D A U 0"
  shows "D \<le> N" "D + A \<le> N"
proof -
  have r: "\<not> room ev A (N mod D)" "\<not> room ev (N mod D + U) D" using assms(3) by (auto simp: stops_def rest_def)
  show "D \<le> N"
  proof (rule ccontr)
    assume "\<not> D \<le> N"
    then show False using r(2) assms(2) by simp
  qed
  then have "1 \<le> N div D" using assms(1) by (simp add: Suc_leI div_greater_zero_iff)
  then have "D \<le> N div D * D" by simp
  moreover have "A \<le> N mod D" using r(1) by (auto simp: room_def split: if_splits)
  ultimately show "D + A \<le> N" using div_mult_mod_eq[of N D] by linarith
qed

lemma stops_bound:
  assumes "0 < D" "D \<le> N + U" "\<not> stops ev N D A U i"
  shows "(A + U) * 10 ^ i \<le> N + U"
proof -
  have "A * 10 ^ i \<le> rest N D i" "rest N D i + U * 10 ^ i \<le> D" using assms(3) by (auto simp: stops_def room_def split: if_splits)
  then show ?thesis using assms(2) by (simp add: distrib_right)
qed


lemma GenerateShortestDigits_spec:
  assumes s: "reps s N D A U" and D: "nice D" "N < 10 * D" "10 * D < limit" and n: "2 ^ 16 \<le> n"
    and top: "\<not> room ev (N + U) (10 * D)"
    and run: "\<And>j. j < m \<Longrightarrow> \<not> stops ev N D A U j" and stop: "stops ev N D A U m" and m: "m < n" "m < length buffer"
  shows "\<exists>cs. GenerateShortestDigits n ev s buffer = Some (Inr (cs @ drop (Suc m) buffer, Suc m)) \<and> length cs = Suc m
    \<and> (\<forall>c \<in> set cs. is_dec c) \<and> dec_value cs = shortest ev N D A U m"
proof -
  have D0: "0 < D" by (rule nice_pos[OF D(1)])
  have r: "rep (sc_num s) N" "rep (sc_den s) D" "rep (sc_minus s) A" "rep (sc_plus s) U" using s by (auto simp: reps_def)
  define cs where "cs = digits N D m @ [dig N D m + 48 + (if raise ev N D A U m then 1 else 0)]"
  have "shortest_loop n n (A = U) ev s (digits N D 0 @ buffer) 0 =
    Some (Inr (digits N D m @ (dig N D m + 48 + (if raise ev N D A U m then 1 else 0)) # drop (Suc (m - 0)) buffer, Suc m))"
    by (rule shortest_loop_spec[OF r(2) D n top _ run stop]) (use r m in \<open>simp_all add: num_at_def\<close>)
  then have "GenerateShortestDigits n ev s buffer = Some (Inr (cs @ drop (Suc m) buffer, Suc m))"
    using rep_cmp(1)[OF r(3,4)] by (simp add: GenerateShortestDigits_def digits_def cs_def)
  moreover have "dec_value cs = shortest ev N D A U m"
    using dec_value_digits[OF D0, of N m] unfolding cs_def digits_Suc dec_value_snoc by (simp add: shortest_def)
  moreover have "\<forall>c \<in> set cs. is_dec c"
  proof -
    have "raise ev N D A U m \<Longrightarrow> dig N D m \<noteq> 9" using raised_not_nine[OF D0 top run _ stop] by simp
    then have "is_dec (dig N D m + 48 + (if raise ev N D A U m then 1 else 0))"
      using dig_less[OF D(2), of m] by (auto simp: is_dec_def)
    then show ?thesis using digits_dec[OF D(2), of m] by (auto simp: cs_def)
  qed
  ultimately show ?thesis by (intro exI[of _ cs]) (simp add: cs_def)
qed

end
