(* ===== verification/BignumDtoa_Correct.thy ===== *)
theory BignumDtoa_Correct
  imports Ieee_Single BignumDtoa_Digits
begin

text \<open>
  \<^verbatim>\<open>BignumDtoa\<close> on every finite positive number, in its four modes.
\<close>

unbundle bit_operations_syntax

section \<open>From the number to the first digit\<close>

lemma NormalizedExponent_spec:
  assumes "0 < unat f" "unat f < 2 ^ 53" "- 1074 \<le> e" "e \<le> 971"
  shows "\<exists>x. NormalizedExponent f e = Some (Inr x) \<and> - 1074 \<le> x + 52 \<and> x + 52 \<le> 1023 \<and> (0 \<le> e \<longrightarrow> 0 \<le> x + 52)
    \<and> 2 powi (x + 52) \<le> real (unat f) * 2 powi e \<and> real (unat f) * 2 powi e + 2 powi (e - 1) < 2 powi (x + 52 + 1)"
proof -
  obtain k w where w: "shift_until Double_kHiddenBit 1 (f, e) = Some (w, e - int k)" "unat w = unat f * 2 ^ k" "2 ^ 52 \<le> unat w" "unat w < 2 ^ 53"
    using hidden_shift[OF assms(1,2)] by blast
  define x where "x = e - int k"
  have f0: "f \<noteq> 0" using assms(1) by auto
  have ne: "NormalizedExponent f e = Some (Inr x)" using w(1) f0 by (simp add: NormalizedExponent_def ASSERT_def x_def)
  have "1 * 2 ^ k \<le> unat f * 2 ^ k" using assms(1) by (intro mult_le_mono1) simp
  then have "(2::nat) ^ k < 2 ^ 53" using w(2,4) by linarith
  then have k: "k \<le> 52" using power_less_imp_less_exp[of "2::nat" k 53] by simp
  have v: "real (unat f) * 2 powi e = real (unat w) * 2 powi x" unfolding w(2) x_def by (rule powi_shift[symmetric])
  have p: "(2::real) powi (x + 52) = 2 ^ 52 * 2 powi x" "(2::real) powi (x + 52 + 1) = 2 ^ 53 * 2 powi x" by (simp_all add: power_int_add)
  have "(2::real) ^ 52 \<le> real (unat w)" using w(3) by (metis of_nat_le_iff of_nat_numeral of_nat_power)
  then have lo: "2 powi (x + 52) \<le> real (unat f) * 2 powi e" unfolding v p by (rule mult_right_mono) simp
  have "(unat f + 1) * 2 ^ k \<le> 2 ^ 53"
  proof -
    have s: "(2::nat) ^ 53 = 2 ^ (53 - k) * 2 ^ k" using k by (simp flip: power_add)
    have "unat f * 2 ^ k < 2 ^ (53 - k) * 2 ^ k" using w(2,4) by (metis s)
    then have "unat f < 2 ^ (53 - k)" by simp
    then have "(unat f + 1) * 2 ^ k \<le> 2 ^ (53 - k) * 2 ^ k" by (intro mult_le_mono1) simp
    then show ?thesis by (simp only: s)
  qed
  then have "real ((unat f + 1) * 2 ^ k) \<le> 2 ^ 53" by (metis of_nat_le_iff of_nat_numeral of_nat_power)
  then have up: "(real (unat f) + 1) * 2 ^ k \<le> 2 ^ 53" by (simp add: distrib_right)
  have "2 powi (e - 1) < (2::real) powi e" using powi_succ(2)[of e] powi_pos[of "e - 1"] by linarith
  then have "real (unat f) * 2 powi e + 2 powi (e - 1) < (real (unat f) + 1) * 2 powi e" by (simp add: distrib_right)
  also have "\<dots> = ((real (unat f) + 1) * 2 ^ k) * 2 powi x" by (simp add: x_def power_int_diff)
  also have "\<dots> \<le> 2 ^ 53 * 2 powi x" using up by (rule mult_right_mono) simp
  finally have hi: "real (unat f) * 2 powi e + 2 powi (e - 1) < 2 powi (x + 52 + 1)" unfolding p .
  show ?thesis using ne lo hi k assms(3,4) by (intro exI[of _ x]) (simp add: x_def)
qed

lemma odd_part_unique: "odd a \<Longrightarrow> odd b \<Longrightarrow> a * 2 ^ i = b * 2 ^ j \<Longrightarrow> i = j \<and> a = b" for a b :: nat
proof (induction i arbitrary: j)
  case 0
  then show ?case by (cases j) auto
next
  case (Suc i)
  then show ?case by (cases j) (auto simp: ac_simps)
qed

lemma five_not_dvd: "\<not> (5::nat) dvd 2 ^ i"
proof (induction i)
  case (Suc i)
  have "\<not> 5 dvd x \<Longrightarrow> \<not> 5 dvd 2 * x" for x :: nat by presburger
  then show ?case using Suc by simp
qed simp

text \<open>An odd significand does not give a power of ten.\<close>

lemma odd_not_power_of_ten:
  assumes f: "odd f" "f < 2 ^ 53" "0 \<le> e \<Longrightarrow> 2 ^ 52 \<le> f"
  shows "real f * 2 powi e \<noteq> 10 powi k"
proof
  assume eq: "real f * 2 powi e = 10 powi k"
  consider i j where "e = int i" "k = int j" | i j where "e = - int i" "k = int j" "0 < i"
    | i j where "e = int i" "k = - int j" "0 < j" | i j where "e = - int i" "k = - int j" "0 < j" "0 < i"
  proof (cases "0 \<le> e"; cases "0 \<le> k")
    assume "0 \<le> e" "0 \<le> k"
    then show thesis using that(1)[of "nat e" "nat k"] by simp
  next
    assume "\<not> 0 \<le> e" "0 \<le> k"
    then show thesis using that(2)[of "nat (- e)" "nat k"] by simp
  next
    assume "0 \<le> e" "\<not> 0 \<le> k"
    then show thesis using that(3)[of "nat e" "nat (- k)"] by simp
  next
    assume "\<not> 0 \<le> e" "\<not> 0 \<le> k"
    then show thesis using that(4)[of "nat (- e)" "nat (- k)"] by simp
  qed
  then show False
  proof cases
    case 1
    then have "real (f * 2 ^ i) = real (10 ^ j)" using eq by simp
    then have n: "f * 2 ^ i = 10 ^ j" by (simp only: of_nat_eq_iff)
    have "(10::nat) ^ j = 5 ^ j * 2 ^ j" by (simp flip: power_mult_distrib)
    then have n2: "f * 2 ^ i = 5 ^ j * 2 ^ j" using n by simp
    have "i = j \<and> f = 5 ^ j" using odd_part_unique[OF f(1) _ n2] by simp
    then have "2 ^ 52 \<le> (5::nat) ^ j" "(5::nat) ^ j < 2 ^ 53" using f 1 by auto
    moreover have "j \<le> 22 \<Longrightarrow> (5::nat) ^ j \<le> 5 ^ 22" "23 \<le> j \<Longrightarrow> (5::nat) ^ 23 \<le> 5 ^ j" by (rule power_increasing; simp)+
    ultimately show False by (cases "j \<le> 22") simp_all
  next
    case 2
    then have "real f = real (10 ^ j * 2 ^ i)" using eq by (simp add: power_int_minus field_simps)
    then have "f = 10 ^ j * 2 ^ i" by (simp only: of_nat_eq_iff)
    then show False using f(1) 2 by simp
  next
    case 3
    then have "real (f * 2 ^ i * 10 ^ j) = real 1" using eq by (simp add: power_int_minus field_simps)
    then have "f * 2 ^ i * 10 ^ j = 1" by (simp only: of_nat_eq_iff)
    then show False using 3(3) by (simp add: power_eq_if split: if_splits)
  next
    case 4
    then have "real (f * 10 ^ j) = real (2 ^ i)" using eq by (simp add: power_int_minus field_simps)
    then have n: "f * 10 ^ j = 2 ^ i" by (simp only: of_nat_eq_iff)
    obtain l where "j = Suc l" using 4(3) by (cases j) auto
    then have "2 ^ i = 5 * (2 * (f * 10 ^ l))" using n by simp
    then show False using five_not_dvd[of i] by (metis dvd_triv_left)
  qed
qed


lemma magnitude_upper: "(2::real) powi (2 * n) \<le> 10 powi (2 * k + 1) \<Longrightarrow> (2::real) powi (n + 1) < 10 powi (k + 1)"
proof -
  assume h: "(2::real) powi (2 * n) \<le> 10 powi (2 * k + 1)"
  have "((2::real) powi (n + 1))\<^sup>2 = 4 * 2 powi (2 * n)" by (simp add: powi_succ(1) power2_eq_square powi_double)
  also have "\<dots> \<le> 4 * 10 powi (2 * k + 1)" using h by simp
  also have "\<dots> < (10 powi (k + 1))\<^sup>2" by (simp add: power2_eq_square power_int_add powi_double)
  finally show ?thesis by (rule power2_less_imp_less) simp
qed

lemma dtoa_start:
  assumes f: "0 < unat f" "unat f < 2 ^ 53" and e: "- 1074 \<le> e" "e \<le> 971"
    and exact: "\<And>k. \<not> need \<Longrightarrow> \<not> ev \<Longrightarrow> real (unat f) * 2 powi e \<noteq> 10 powi k"
  shows "\<exists>x s0 p s N D A U. NormalizedExponent f e = Some (Inr x)
    \<and> InitialScaledStartValues f e closer (EstimatePower x) need scaled_new = Inr s0
    \<and> FixupMultiply10 (EstimatePower x) ev s0 = Inr (p, s) \<and> reps s N D A U
    \<and> first_ok ev (unat f) e closer need p N D A U \<and> 10 * D < limit
    \<and> real (unat f) * 2 powi e < 10 powi (EstimatePower x + 1) \<and> (p = EstimatePower x \<or> p = EstimatePower x + 1)"
proof -
  obtain x where x: "NormalizedExponent f e = Some (Inr x)" "- 1074 \<le> x + 52" "x + 52 \<le> 1023" "0 \<le> e \<Longrightarrow> 0 \<le> x + 52"
      "2 powi (x + 52) \<le> real (unat f) * 2 powi e" "real (unat f) * 2 powi e + 2 powi (e - 1) < 2 powi (x + 52 + 1)"
    using NormalizedExponent_spec[OF f e] by blast
  define k where "k = EstimatePower x"
  have k: "(10::real) powi (k - 1) \<le> 2 powi (x + 52)" "(2::real) powi (2 * (x + 52)) \<le> 10 powi (2 * k + 1)" "- 335 \<le> k" "k \<le> 333"
    unfolding k_def by (rule EstimatePower_bounds; use x(2,3) in simp)+
  have k0: "0 \<le> k" if "0 \<le> e"
  proof (rule ccontr)
    assume "\<not> 0 \<le> k"
    then have "(10::real) powi (2 * k + 1) < 1" by (simp add: powi_nat one_less_power inverse_less_1_iff)
    moreover have "1 \<le> (2::real) powi (2 * (x + 52))" using x(4)[OF that] by (simp add: powi_nat)
    ultimately show False using k(2) by linarith
  qed
  obtain s0 where s0: "InitialScaledStartValues f e closer k need scaled_new = Inr s0" "start_ok (unat f) e closer k need s0"
    using InitialScaledStartValues_spec[of f e k closer need] f e k k0 by fastforce
  obtain p s N D A U where fx: "FixupMultiply10 k ev s0 = Inr (p, s)" "reps s N D A U" "first_ok ev (unat f) e closer need p N D A U" "p = k \<or> p = k + 1"
    using FixupMultiply10_spec[OF s0(2) x(5,6) k(1,2) exact] by blast
  have "D \<le> 2 * dtoa_bound" using fx(3) by (simp add: first_ok_def)
  moreover have "0 < dtoa_bound" by (simp add: dtoa_bound_def)
  ultimately have lim: "10 * D < limit" by (intro dtoa_bound_limit) linarith
  have "real (unat f) * 2 powi e < 10 powi (k + 1)"
    using magnitude_upper[OF k(2)] x(6) powi_pos[of "e - 1"] by linarith
  then show ?thesis using x(1) s0(1) fx lim unfolding k_def by blast
qed

lemma even_test: "f AND 1 = 0 \<longleftrightarrow> even (unat f)" for f :: "64 word"
  using unat_low[of f 1] unat_eq_zero[of "f AND 1"] by (simp add: even_iff_mod_2_eq_zero)

lemma first_value:
  assumes "first_ok ev f e closer need p N D A U"
  shows "0 < D" "nice D" "N < 10 * D" "real f * 2 powi e = real N / real D * 10 powi (p - 1)"
proof -
  show "0 < D" "nice D" "N < 10 * D" using assms nice_pos by (auto simp: first_ok_def)
  then show "real f * 2 powi e = real N / real D * 10 powi (p - 1)" using assms by (simp add: first_ok_def field_simps)
qed


text \<open>The same on a double.\<close>

lemma double_start:
  assumes "dbl_finite_pos d"
  shows "\<exists>x s0 p s N D A U. NormalizedExponent (Double_Significand d) (Double_Exponent d) = Some (Inr x)
    \<and> InitialScaledStartValues (Double_Significand d) (Double_Exponent d) (Double_LowerBoundaryIsCloser d) (EstimatePower x) need scaled_new = Inr s0
    \<and> FixupMultiply10 (EstimatePower x) (even (sgnf d)) s0 = Inr (p, s) \<and> reps s N D A U
    \<and> first_ok (even (sgnf d)) (sgnf d) (Double_Exponent d) (Double_LowerBoundaryIsCloser d) need p N D A U \<and> 10 * D < limit
    \<and> dbl_value d < 10 powi (EstimatePower x + 1) \<and> (p = EstimatePower x \<or> p = EstimatePower x + 1)"
proof -
  note parts = dbl_parts[OF assms]
  have "odd (sgnf d) \<Longrightarrow> real (sgnf d) * 2 powi Double_Exponent d \<noteq> 10 powi k" for k
    by (rule odd_not_power_of_ten[OF _ parts(3)]) (use parts(6) in auto)
  then show ?thesis
    using dtoa_start[OF parts(2-5), of need "even (sgnf d)" "Double_LowerBoundaryIsCloser d"] dbl_value_nonneg[OF parts(1)] by auto
qed

section \<open>Rounded digits\<close>

lemma half_up_value:
  assumes "0 < D" "v = real N / real D * 10 powi (p - 1)"
  shows "int (half_up (N * 10 ^ j) D) = \<lfloor>v / 10 powi (p - (int j + 1)) + 1 / 2\<rfloor>"
proof -
  have "(10::real) powi (p - 1) = 10 ^ j * 10 powi (p - (int j + 1))"
  proof -
    have "p - 1 = int j + (p - (int j + 1))" by simp
    then have "(10::real) powi (p - 1) = 10 powi (int j + (p - (int j + 1)))" by (simp only:)
    also have "\<dots> = 10 powi (int j) * 10 powi (p - (int j + 1))" by (rule power_int_add) simp
    finally show ?thesis by simp
  qed
  then have "v / 10 powi (p - (int j + 1)) = real (N * 10 ^ j) / real D" by (simp add: assms(2))
  then show ?thesis using half_up_real[OF assms(1), of "N * 10 ^ j"] by simp
qed

lemma floor_carry:
  fixes y :: real
  assumes "\<lfloor>y + 1 / 2\<rfloor> = 10 * m"
  shows "\<lfloor>y / 10 + 1 / 2\<rfloor> = m"
proof -
  have "10 * of_int m \<le> y + 1 / 2" "y + 1 / 2 < 10 * of_int m + 1" using assms by linarith+
  then show ?thesis by linarith
qed

lemma bvec_end: "length cs < length b \<Longrightarrow> bvec_wr (cs @ drop (length cs) b) (int (length cs)) 0 = Inr (cs @ 0 # drop (Suc (length cs)) b)"
  by (simp add: bvec_wr_def ASSERT_def list_update_append Cons_nth_drop_Suc[symmetric])

text \<open>
  C14. \<^verbatim>\<open>BignumDtoa\<close> in the mode \<^verbatim>\<open>PRECISION\<close>, on every finite positive double and every positive number of requested digits that fits the
  buffer: it returns with no failed assertion and no write outside the buffer, the buffer holds that many decimal digits, the first
  not \<open>0\<close>, and a terminating 0, and the digits are the double divided by the unit of the last digit, rounded to the nearest integer with
  halves rounded up.
\<close>

theorem dtoa_precision_correct:
  assumes d: "dbl_positive d" "\<not> Double_IsSpecial d" and r: "1 \<le> r" "nat r < length buffer" and n: "2 ^ 16 \<le> n"
  shows "\<exists>cs p. BignumDtoa n d BIGNUM_DTOA_PRECISION r buffer = Some (Inr (cs @ 0 # drop (Suc (nat r)) buffer, r, p))
    \<and> length cs = nat r \<and> (\<forall>c \<in> set cs. is_dec c) \<and> cs ! 0 \<noteq> 48
    \<and> int (dec_value cs) = \<lfloor>dbl_value d / 10 powi (p - r) + 1 / 2\<rfloor>"
proof -
  have fp: "dbl_finite_pos d" using d by (simp add: dbl_finite_pos_iff)
  let ?f = "Double_Significand d" and ?e = "Double_Exponent d" and ?v = "dbl_value d"
  let ?ev = "even (sgnf d)"
  have v: "?v = real (sgnf d) * 2 powi ?e" by (rule dbl_value_nonneg[OF dbl_parts(1)[OF fp]])
  obtain x s0 p s N D A U where st: "NormalizedExponent ?f ?e = Some (Inr x)"
      "InitialScaledStartValues ?f ?e (Double_LowerBoundaryIsCloser d) (EstimatePower x) False scaled_new = Inr s0"
      "FixupMultiply10 (EstimatePower x) ?ev s0 = Inr (p, s)" "reps s N D A U"
      "first_ok ?ev (sgnf d) ?e (Double_LowerBoundaryIsCloser d) False p N D A U" "10 * D < limit"
    using double_start[OF fp, of False] by blast
  note D = first_value[OF st(5), folded v]
  have "D \<le> N" using st(5) by (simp add: first_ok_def)
  define C where "C = nat r - 1"
  have C: "nat r = Suc C" "r = int C + 1" using r(1) by (simp_all add: C_def)
  define V where "V = half_up (N * 10 ^ C) D"
  obtain cs p' where g: "GenerateCountedDigits n r p s buffer = Some (Inr (cs @ drop (nat r) buffer, r, p'))" "length cs = nat r"
      "\<forall>c \<in> set cs. is_dec c" "cs ! 0 \<noteq> 48"
      "if V = 10 ^ nat r then p' = p + 1 \<and> dec_value cs = 10 ^ (nat r - 1) else p' = p \<and> dec_value cs = V"
    using GenerateCountedDigits_spec[OF st(4) D(2,3) \<open>D \<le> N\<close> st(6) n r(1), of buffer p] r(2) unfolding V_def C_def by auto
  have fl: "int V = \<lfloor>?v / 10 powi (p - r) + 1 / 2\<rfloor>" unfolding V_def C(2) by (rule half_up_value[OF D(1,4)])
  have "int (dec_value cs) = \<lfloor>?v / 10 powi (p' - r) + 1 / 2\<rfloor>"
  proof (cases "V = 10 ^ nat r")
    case True
    then have c: "p' = p + 1" "dec_value cs = 10 ^ C" using g(5) C by auto
    have "?v / 10 powi (p + 1 - r) = ?v / 10 powi (p - r) / 10" using powi10_succ[of "p + 1 - r"] by (simp add: algebra_simps)
    moreover have "\<lfloor>?v / 10 powi (p - r) + 1 / 2\<rfloor> = 10 * int (10 ^ C)" using fl True C by simp
    ultimately show ?thesis unfolding c by (simp only: floor_carry)
  qed (use g(5) fl in simp)
  moreover have "BignumDtoa n d BIGNUM_DTOA_PRECISION r buffer = Some (Inr (cs @ 0 # drop (Suc (nat r)) buffer, r, p'))"
    using d st(1-3) g(1,2) bvec_end[of cs buffer] r
    by (simp add: BignumDtoa_def ASSERT_def dtoa_input_def even_test kMaxSignificantBits_def Let_def)
  ultimately show ?thesis using g(2-4) by blast
qed

theorem dtoa_precision_correct_witness:
  "\<exists>cs p. BignumDtoa (2 ^ 16) 0x3FD5555555555555 BIGNUM_DTOA_PRECISION 3 (replicate 5 0) = Some (Inr (cs @ [0, 0], 3, p))
    \<and> int (dec_value cs) = \<lfloor>dbl_value 0x3FD5555555555555 / 10 powi (p - 3) + 1 / 2\<rfloor>"
proof -
  have "dbl_positive 0x3FD5555555555555" "\<not> Double_IsSpecial 0x3FD5555555555555" by code_simp+
  moreover have "(1::int) \<le> 3" "nat 3 < length (replicate 5 (0::nat))" "drop (Suc (nat 3)) (replicate 5 (0::nat)) = [0]" by (simp_all add: numeral_eq_Suc)
  ultimately show ?thesis using dtoa_precision_correct[where d = "0x3FD5555555555555" and r = 3 and buffer = "replicate 5 0" and n = "2 ^ 16"] by auto
qed


lemma vec_wr_0: "b \<noteq> [] \<Longrightarrow> vec_wr b 0 x = Inr (x # drop 1 b)"
  by (cases b) auto

lemma small_rounds_to_zero:
  fixes v :: real
  assumes "0 \<le> v" "v < 10 powi q" "q + r < 0"
  shows "\<lfloor>v * 10 powi r + 1 / 2\<rfloor> = 0"
proof -
  have "v * 10 powi r < 10 powi q * 10 powi r" using assms(2) by simp
  also have "\<dots> = 10 powi (q + r)" by (simp add: power_int_add)
  also have "\<dots> \<le> 10 powi (- 1)" by (rule power_int_increasing) (use assms(3) in simp_all)
  finally have "v * 10 powi r < 1 / 10" by simp
  moreover have "0 \<le> v * 10 powi r" using assms(1) by simp
  ultimately show ?thesis by linarith
qed

lemma BignumToFixed_spec:
  assumes s: "reps s N D A U" and D: "nice D" "N < 10 * D" "D \<le> N" "10 * D < limit" and n: "2 ^ 16 \<le> n"
    and v: "v = real N / real D * 10 powi (p - 1)" and len: "p + r \<le> int (length buffer)" "1 \<le> length buffer"
  shows "\<exists>cs p'. BignumToFixed n r p s buffer = Some (Inr (cs @ drop (length cs) buffer, int (length cs), p'))
    \<and> (\<forall>c \<in> set cs. is_dec c) \<and> length cs \<le> max 1 (nat (p + r))
    \<and> (if \<lfloor>v * 10 powi r + 1 / 2\<rfloor> = 0 then cs = [] else cs \<noteq> [] \<and> hd cs \<noteq> 48)
    \<and> real (dec_value cs) * 10 powi (p' - int (length cs)) = of_int \<lfloor>v * 10 powi r + 1 / 2\<rfloor> * 10 powi (- r)"
proof -
  have D0: "0 < D" by (rule nice_pos[OF D(1)])
  have rr: "rep (sc_num s) N" "rep (sc_den s) D" using s by (auto simp: reps_def)
  have vpos: "0 \<le> v" using v by simp
  consider "- p > r" | "- p = r" | "1 \<le> p + r" by linarith
  then show ?thesis
  proof cases
    case 1
    have "real N / real D < 10" using D(2) D0 by (simp add: divide_less_eq)
    then have "v < 10 powi p" unfolding v powi10_succ[of p] by (rule mult_strict_right_mono) simp
    then have "\<lfloor>v * 10 powi r + 1 / 2\<rfloor> = 0" using small_rounds_to_zero[OF vpos] 1 by simp
    moreover have "dec_value [] = 0" by (simp add: dec_value_def horner_def)
    ultimately show ?thesis using 1 by (intro exI[of _ "[]"] exI[of _ "- r"]) (simp add: BignumToFixed_def)
  next
    case 2
    obtain d2 where d2: "Times10 (sc_den s) = Inr d2" "rep d2 (D * 10)" using rep_times10[OF rr(2)] D(4) by (auto simp: mult.commute)
    have c: "bn_PlusCompare (sc_num s) (sc_num s) d2 = Inr (cmp (N + N) (D * 10))" by (rule rep_plus_cmp[OF rr(1,1) d2(2)])
    have "r = - p" using 2 by simp
    then have "v * 10 powi r = real N / (10 * real D)" unfolding v by (simp add: power_int_minus power_int_diff field_simps)
    then have fl: "\<lfloor>v * 10 powi r + 1 / 2\<rfloor> = int (half_up N (10 * D))" using half_up_real[of "10 * D" N] D0 by simp
    have hu: "half_up N (10 * D) = (if 10 * D \<le> 2 * N then 1 else 0)" using half_up_rest[of "10 * D" N 0] D0 D(2) by simp
    show ?thesis
    proof (cases "10 * D \<le> 2 * N")
      case True
      have "vec_wr buffer 0 49 = Inr (49 # drop 1 buffer)" by (rule vec_wr_0) (use len(2) in auto)
      then have "BignumToFixed n r p s buffer = Some (Inr ([49] @ drop 1 buffer, 1, p + 1))"
        using 2 d2(1) c True len(2) by (simp add: BignumToFixed_def ASSERT_def cmp_def)
      then show ?thesis using fl hu True 2[symmetric] by (intro exI[of _ "[49]"] exI[of _ "p + 1"]) (simp add: is_dec_def dec_value_single)
    next
      case False
      have "BignumToFixed n r p s buffer = Some (Inr (buffer, 0, p))"
        using 2 d2(1) c False by (simp add: BignumToFixed_def ASSERT_def cmp_def)
      moreover have "dec_value [] = 0" by (simp add: dec_value_def horner_def)
      ultimately show ?thesis using fl hu False 2 by (intro exI[of _ "[]"] exI[of _ p]) simp
    qed
  next
    case 3
    define C where "C = nat (p + r) - 1"
    have C: "nat (p + r) = Suc C" "p + r = int C + 1" using 3 by (simp_all add: C_def)
    define V where "V = half_up (N * 10 ^ C) D"
    obtain cs p' where g: "GenerateCountedDigits n (p + r) p s buffer = Some (Inr (cs @ drop (Suc C) buffer, p + r, p'))" "length cs = Suc C"
        "\<forall>c \<in> set cs. is_dec c" "if V = 10 ^ Suc C then p' = p + 1 \<and> dec_value cs = 10 ^ C else p' = p \<and> dec_value cs = V" "cs ! 0 \<noteq> 48"
      using GenerateCountedDigits_spec[OF s D n 3, of buffer p] len(1) C unfolding V_def by auto
    have e: "p - (int C + 1) = - r" using C(2) by simp
    have "v / 10 powi (- r) = v * 10 powi r" by (simp add: power_int_minus divide_inverse)
    then have fl: "int V = \<lfloor>v * 10 powi r + 1 / 2\<rfloor>" using half_up_value[OF D0 v, of C] unfolding V_def e by simp
    have "BignumToFixed n r p s buffer = Some (Inr (cs @ drop (length cs) buffer, int (length cs), p'))"
      using 3 g(1,2) C by (simp add: BignumToFixed_def)
    moreover have "real (dec_value cs) * 10 powi (p' - int (length cs)) = of_int \<lfloor>v * 10 powi r + 1 / 2\<rfloor> * 10 powi (- r)"
    proof (cases "V = 10 ^ Suc C")
      case True
      then have "p' - int (length cs) = - r + 1" "dec_value cs = 10 ^ C" using g(2,4) C(2) by auto
      then show ?thesis using True powi10_succ[of "1 - r"] unfolding fl[symmetric] by simp
    next
      case False
      then have "p' - int (length cs) = - r" "dec_value cs = V" using g(2,4) C(2) by auto
      then show ?thesis unfolding fl[symmetric] by simp
    qed
    moreover have ne: "cs \<noteq> []" using g(2) by auto
    moreover have "hd cs \<noteq> 48" using g(5) ne by (simp add: hd_conv_nth)
    moreover have "D * 1 \<le> N * 10 ^ C" using D(3) by (intro mult_le_mono) simp_all
    then have "0 < V" unfolding V_def half_up_def using D0 by (simp add: div_greater_zero_iff)
    then have "\<lfloor>v * 10 powi r + 1 / 2\<rfloor> \<noteq> 0" using fl by linarith
    ultimately show ?thesis using g(2,3) C by (intro exI[of _ cs] exI[of _ p']) simp
  qed
qed


lemma dbl_value_ge_0: "dbl_finite_pos d \<Longrightarrow> 0 \<le> dbl_value d"
  unfolding dbl_value_nonneg[OF dbl_parts(1)] by (intro mult_nonneg_nonneg of_nat_0_le_iff) simp

lemma decimal_point_bound:
  assumes "dbl_finite_pos d" "D \<le> N" "0 < D" "dbl_value d = real N / real D * 10 powi (p - 1)"
  shows "p \<le> 309"
proof (rule ccontr)
  assume "\<not> p \<le> 309"
  then have "(10::real) powi 309 \<le> 10 powi (p - 1)" by (intro power_int_increasing) simp_all
  also have "\<dots> \<le> real N / real D * 10 powi (p - 1)" using assms(2,3) by (simp add: le_divide_eq)
  also have "\<dots> < 2 ^ 1024"
  proof -
    note parts = dbl_parts[OF assms(1)]
    have f: "real (sgnf d) < 2 ^ 53" using parts(3) by (metis of_nat_less_iff of_nat_numeral of_nat_power)
    have e: "(2::real) powi Double_Exponent d \<le> 2 powi 971" by (rule power_int_increasing[OF parts(5)]) simp
    have "real (sgnf d) * 2 powi Double_Exponent d < 2 ^ 53 * 2 powi 971"
      by (rule mult_less_le_imp_less[OF f e of_nat_0_le_iff]) simp
    also have "\<dots> = 2 ^ 1024" by simp
    finally have "real (sgnf d) * 2 powi Double_Exponent d < 2 ^ 1024" .
    then show ?thesis by (simp only: assms(4)[symmetric] dbl_value_nonneg[OF parts(1)])
  qed
  finally show False by simp
qed

text \<open>
  C15. \<^verbatim>\<open>BignumDtoa\<close> in the mode \<^verbatim>\<open>FIXED\<close>, on every finite positive double \<open>d\<close> and every number \<open>r\<close> of digits behind the point, in a buffer
  with room for 309 digits more: it returns with no failed assertion and no write outside the buffer, the buffer holds decimal digits
  and a terminating 0, and the digits with the decimal point denote \<open>d\<close> rounded to a multiple of \<open>10 ^ -r\<close>, halves rounded up.  There
  are no digits at all exactly when that multiple is 0, and the first digit is never \<open>0\<close>.  The example of the header comment
  (\<^verbatim>\<open>bignum-dtoa.h:67\<close>: 0.15 with two digits gives \<open>2\<close>) is not what the code does: it gives the digits \<open>15\<close>, as this says.
\<close>

theorem dtoa_fixed_correct:
  assumes d: "dbl_positive d" "\<not> Double_IsSpecial d" and r: "309 + r < int (length buffer)" "2 \<le> length buffer" and n: "2 ^ 16 \<le> n"
  shows "\<exists>cs p. BignumDtoa n d BIGNUM_DTOA_FIXED r buffer = Some (Inr (cs @ 0 # drop (Suc (length cs)) buffer, int (length cs), p))
    \<and> (\<forall>c \<in> set cs. is_dec c)
    \<and> (if \<lfloor>dbl_value d * 10 powi r + 1 / 2\<rfloor> = 0 then cs = [] else cs \<noteq> [] \<and> hd cs \<noteq> 48)
    \<and> real (dec_value cs) * 10 powi (p - int (length cs)) = of_int \<lfloor>dbl_value d * 10 powi r + 1 / 2\<rfloor> * 10 powi (- r)"
proof -
  have fp: "dbl_finite_pos d" using d by (simp add: dbl_finite_pos_iff)
  let ?f = "Double_Significand d" and ?e = "Double_Exponent d" and ?v = "dbl_value d"
  let ?ev = "even (sgnf d)"
  have v: "?v = real (sgnf d) * 2 powi ?e" by (rule dbl_value_nonneg[OF dbl_parts(1)[OF fp]])
  obtain x s0 p s N D A U where st: "NormalizedExponent ?f ?e = Some (Inr x)"
      "InitialScaledStartValues ?f ?e (Double_LowerBoundaryIsCloser d) (EstimatePower x) False scaled_new = Inr s0"
      "FixupMultiply10 (EstimatePower x) ?ev s0 = Inr (p, s)" "reps s N D A U"
      "first_ok ?ev (sgnf d) ?e (Double_LowerBoundaryIsCloser d) False p N D A U" "10 * D < limit" "?v < 10 powi (EstimatePower x + 1)"
    using double_start[OF fp, of False] by blast
  show ?thesis
  proof (cases "- EstimatePower x - 1 > r")
    case True
    have "\<lfloor>?v * 10 powi r + 1 / 2\<rfloor> = 0" using small_rounds_to_zero[OF dbl_value_ge_0[OF fp] st(7), of r] True by simp
    moreover have "dec_value [] = 0" by (simp add: dec_value_def horner_def)
    moreover have "vec_wr buffer 0 0 = Inr (0 # drop 1 buffer)" by (rule vec_wr_0) (use r(2) in auto)
    then have "BignumDtoa n d BIGNUM_DTOA_FIXED r buffer = Some (Inr (0 # drop 1 buffer, 0, - r))"
      using d st(1) True by (simp add: BignumDtoa_def ASSERT_def dtoa_input_def Let_def)
    ultimately show ?thesis by (intro exI[of _ "[]"] exI[of _ "- r"]) simp
  next
    case False
    note D = first_value[OF st(5), folded v]
    have DN: "D \<le> N" using st(5) by (simp add: first_ok_def)
    have "p \<le> 309" by (rule decimal_point_bound[OF fp DN D(1,4)])
    then have len: "p + r \<le> int (length buffer)" "1 \<le> length buffer" using r by auto
    obtain cs p' where g: "BignumToFixed n r p s buffer = Some (Inr (cs @ drop (length cs) buffer, int (length cs), p'))"
        "\<forall>c \<in> set cs. is_dec c" "length cs \<le> max 1 (nat (p + r))"
        "if \<lfloor>?v * 10 powi r + 1 / 2\<rfloor> = 0 then cs = [] else cs \<noteq> [] \<and> hd cs \<noteq> 48" "real (dec_value cs) * 10 powi (p' - int (length cs)) = of_int \<lfloor>?v * 10 powi r + 1 / 2\<rfloor> * 10 powi (- r)"
      using BignumToFixed_spec[OF st(4) D(2,3) DN st(6) n D(4) len] by blast
    have "length cs < length buffer" using g(3) r \<open>p \<le> 309\<close> by linarith
    then have "BignumDtoa n d BIGNUM_DTOA_FIXED r buffer = Some (Inr (cs @ 0 # drop (Suc (length cs)) buffer, int (length cs), p'))"
      using d st(1-3) g(1) bvec_end[of cs buffer] False
      by (simp add: BignumDtoa_def ASSERT_def dtoa_input_def even_test kMaxSignificantBits_def Let_def)
    then show ?thesis using g by blast
  qed
qed

theorem dtoa_fixed_correct_witness:
  "\<exists>cs p. BignumDtoa (2 ^ 16) 0x3FD5555555555555 BIGNUM_DTOA_FIXED 2 (replicate 400 0)
      = Some (Inr (cs @ 0 # drop (Suc (length cs)) (replicate 400 0), int (length cs), p))
    \<and> real (dec_value cs) * 10 powi (p - int (length cs)) = of_int \<lfloor>dbl_value 0x3FD5555555555555 * 10 powi 2 + 1 / 2\<rfloor> * 10 powi (- 2)"
proof -
  have "dbl_positive 0x3FD5555555555555" "\<not> Double_IsSpecial 0x3FD5555555555555" by code_simp+
  moreover have "309 + (2::int) < int (length (replicate 400 (0::nat)))" "2 \<le> length (replicate 400 (0::nat))" by simp_all
  ultimately show ?thesis using dtoa_fixed_correct[where d = "0x3FD5555555555555" and r = 2 and buffer = "replicate 400 0" and n = "2 ^ 16"] by blast
qed


section \<open>Shortest digits\<close>

lemma scale_le:
  fixes T D P :: real
  assumes "0 < T" "0 < D" "0 < P"
  shows "N * P / D - A * P / D \<le> W * P / T \<longleftrightarrow> N * T \<le> W * D + A * T" "N * P / D - A * P / D < W * P / T \<longleftrightarrow> N * T < W * D + A * T"
    "W * P / T \<le> N * P / D + U * P / D \<longleftrightarrow> W * D \<le> (N + U) * T" "W * P / T < N * P / D + U * P / D \<longleftrightarrow> W * D < (N + U) * T"
proof -
  have l: "N * P / D - A * P / D = (N - A) * T * (P / (D * T))" "N * P / D + U * P / D = (N + U) * T * (P / (D * T))" "W * P / T = W * D * (P / (D * T))"
    using assms by (simp_all add: field_simps)
  have p: "0 < P / (D * T)" using assms by simp
  show "N * P / D - A * P / D \<le> W * P / T \<longleftrightarrow> N * T \<le> W * D + A * T" "N * P / D - A * P / D < W * P / T \<longleftrightarrow> N * T < W * D + A * T"
    "W * P / T \<le> N * P / D + U * P / D \<longleftrightarrow> W * D \<le> (N + U) * T" "W * P / T < N * P / D + U * P / D \<longleftrightarrow> W * D < (N + U) * T"
    unfolding l mult_le_cancel_right_pos[OF p] mult_less_cancel_right_pos[OF p] by (auto simp: left_diff_distrib)
qed

lemma powi_back: "(10::real) powi (q - int i) = 10 powi q / 10 ^ i"
  by (simp add: power_int_diff)

lemma real_nat_le: "real a * real b \<le> real c * real d + real e * real f \<longleftrightarrow> a * b \<le> c * d + e * f"
  "real a * real b < real c * real d + real e * real f \<longleftrightarrow> a * b < c * d + e * f"
  "real a * real b \<le> (real c + real d) * real e \<longleftrightarrow> a * b \<le> (c + d) * e"
  "real a * real b < (real c + real d) * real e \<longleftrightarrow> a * b < (c + d) * e"
  by (simp_all flip: of_nat_mult of_nat_add)

lemma inside_real:
  assumes "0 < D" "0 < P" "v = real N * P / real D" "dl = real A * P / real D" "du = real U * P / real D"
  shows "inside ev N D A U W i \<longleftrightarrow> between ev (v - dl) (v + du) (real W * P / 10 ^ i)"
proof -
  have t: "(10::real) ^ i = real (10 ^ i)" by simp
  have pos: "0 < real (10 ^ i)" "0 < real D" using assms(1) by simp_all
  note sc = scale_le[OF pos assms(2), unfolded real_nat_le]
  show ?thesis unfolding inside_def between_def room_def assms(3-5) t sc real_nat_le by (cases ev) (simp_all only: if_True if_False)
qed

lemma first_deltas:
  assumes "first_ok ev f e closer True p N D A U"
  defines "P \<equiv> 10 powi (p - 1)"
  shows "real f * 2 powi e = real N * P / real D" "2 powi (e - 1) = real U * P / real D"
    "2 powi (e - (if closer then 2 else 1)) = real A * P / real D"
    "N = 2 * f * U" "if closer then U = 2 * A else U = A" "0 < U" "0 < A"
proof -
  have D: "0 < real D" using first_value(1)[OF assms(1)] by simp
  have P: "0 < P" by (simp add: P_def)
  have e: "real N * P = real D * (real f * 2 powi e)" "real U * P = real D * 2 powi (e - 1)"
      "real A * P = real D * 2 powi (e - (if closer then 2 else 1))" using assms(1) by (simp_all add: first_ok_def P_def)
  then show "real f * 2 powi e = real N * P / real D" "2 powi (e - 1) = real U * P / real D"
    "2 powi (e - (if closer then 2 else 1)) = real A * P / real D" using D by simp_all
  have "real N * P = real (2 * f * U) * P" using e(1,2) powi_succ(2)[of e] by (simp add: mult.assoc mult.left_commute)
  then have "real N = real (2 * f * U)" using P by simp
  then show "N = 2 * f * U" by (simp only: of_nat_eq_iff)
  show "if closer then U = 2 * A else U = A"
  proof (cases closer)
    case True
    then have "real U * P = real (2 * A) * P" using e(2,3) powi_succ(2)[of "e - 1"] by simp
    then have "real U = real (2 * A)" using P by simp
    then show ?thesis using True by (simp only: of_nat_eq_iff if_True)
  next
    case False
    then have "real U * P = real A * P" using e(2,3) by simp
    then show ?thesis using False P by simp
  qed
  have "0 < real U * P" "0 < real A * P" unfolding e using D by simp_all
  then show "0 < U" "0 < A" using P by (simp_all add: zero_less_mult_iff)
qed


lemma stops_early:
  assumes fo: "first_ok ev f e closer True p N D A U" and f: "f < 2 ^ B" "2 \<le> B" "closer \<Longrightarrow> f = 2 ^ (B - 1)" and L: "2 ^ B \<le> (10::nat) ^ L"
  shows "stops ev N D A U L"
proof (rule ccontr)
  assume "\<not> stops ev N D A U L"
  moreover have "D \<le> N + U" using fo by (auto simp: first_ok_def room_def split: if_splits)
  ultimately have b: "(A + U) * 10 ^ L \<le> N + U" using stops_bound first_value(1)[OF fo] by blast
  note fd = first_deltas[OF fo]
  show False
  proof (cases closer)
    case False
    then have "U * (2 * 10 ^ L) \<le> U * (2 * f + 1)" using b fd(4,5) by (simp add: algebra_simps)
    then have "2 * 10 ^ L \<le> 2 * f + 1" using fd(6) by (simp only: nat_mult_le_cancel1)
    then show False using f(1) L by linarith
  next
    case True
    then have U: "U = 2 * A" using fd(5) by simp
    have "A * (3 * 10 ^ L) \<le> A * (4 * f + 2)" using b fd(4) unfolding U by (simp add: algebra_simps)
    then have "3 * 10 ^ L \<le> 4 * f + 2" using fd(7) by (simp only: nat_mult_le_cancel1)
    moreover have "4 * f = 2 * 2 ^ B" using f(2) f(3)[OF True] by (cases B) auto
    moreover have "(2::nat) ^ 2 \<le> 2 ^ B" by (rule power_increasing[OF f(2)]) simp
    ultimately show False using L by simp
  qed
qed

lemma dtoa_shortest_core:
  assumes fo: "first_ok ev f e closer True p N D A U" and s: "reps s N D A U" and lim: "10 * D < limit" and n: "2 ^ 16 \<le> n"
    and f: "f < 2 ^ B" "2 \<le> B" "closer \<Longrightarrow> f = 2 ^ (B - 1)" "2 ^ B \<le> (10::nat) ^ L" "0 < f" and L: "L < n" "L < length buffer"
  defines "v \<equiv> real f * 2 powi e" and "lo \<equiv> real f * 2 powi e - 2 powi (e - (if closer then 2 else 1))" and "up \<equiv> real f * 2 powi e + 2 powi (e - 1)"
  shows "\<exists>cs. GenerateShortestDigits n ev s buffer = Some (Inr (cs @ drop (length cs) buffer, length cs))
    \<and> 1 \<le> length cs \<and> length cs \<le> Suc L \<and> (\<forall>c \<in> set cs. is_dec c) \<and> 10 ^ (length cs - 1) \<le> dec_value cs
    \<and> between ev lo up (real (dec_value cs) * 10 powi (p - int (length cs)))
    \<and> (\<forall>W q. between ev lo up (real W * 10 powi q) \<longrightarrow> 10 ^ (length cs - 1) \<le> W)
    \<and> (\<forall>W. between ev lo up (real W * 10 powi (p - int (length cs))) \<longrightarrow>
         \<bar>real (dec_value cs) * 10 powi (p - int (length cs)) - v\<bar> \<le> \<bar>real W * 10 powi (p - int (length cs)) - v\<bar>)"
proof -
  note D = first_value[OF fo] and fd = first_deltas[OF fo]
  define P :: real where "P = 10 powi (p - 1)"
  have P: "0 < P" by (simp add: P_def)
  define m where "m = (LEAST i. stops ev N D A U i)"
  have sL: "stops ev N D A U L" by (rule stops_early[OF fo f(1-4)])
  have stop: "stops ev N D A U m" unfolding m_def using sL by (rule LeastI)
  have mL: "m \<le> L" unfolding m_def using sL by (rule Least_le)
  have run: "\<not> stops ev N D A U j" if "j < m" for j using that not_less_Least unfolding m_def by blast
  have rm: "room ev (N + U) D" "\<not> room ev (N + U) (10 * D)" using fo by (auto simp: first_ok_def)
  obtain cs where cs: "GenerateShortestDigits n ev s buffer = Some (Inr (cs @ drop (Suc m) buffer, Suc m))" "length cs = Suc m"
      "\<forall>c \<in> set cs. is_dec c" "dec_value cs = shortest ev N D A U m"
    using GenerateShortestDigits_spec[OF s D(2,3) lim n rm(2) run stop, of buffer] mL L by auto
  have ins: "inside ev N D A U W i \<longleftrightarrow> between ev lo up (real W * P / 10 ^ i)" for W i
    unfolding lo_def up_def by (rule inside_real[OF D(1) P]) (use fd(1-3) in \<open>simp_all add: P_def\<close>)
  have unit: "(10::real) powi (p - int (Suc m)) = P / 10 ^ m" using powi_back[of "p - 1" m] by (simp add: P_def algebra_simps)
  have yes: "between ev lo up (real (dec_value cs) * 10 powi (p - int (Suc m)))"
    using shortest_inside[OF D(1) fd(6) stop] unfolding ins cs(4) unit by simp
  have long: "10 ^ m \<le> W" if W: "between ev lo up (real W * 10 powi q)" for W q
  proof (rule ccontr)
    assume "\<not> 10 ^ m \<le> W"
    then have Wm: "W < 10 ^ m" by simp
    show False
    proof (cases m)
      case 0
      then have "W = 0" using Wm by simp
      then have "lo \<le> 0" using W by (auto simp: between_def split: if_splits)
      moreover have "2 powi (e - (if closer then 2 else 1)) < real f * 2 powi e"
      proof -
        have "A < N" using fd(4,5,6,7) f(5) by (cases closer; cases f) auto
        then show ?thesis unfolding fd(1,3) using P D(1) by (simp add: P_def[symmetric] divide_strict_right_mono)
      qed
      ultimately show False by (simp add: lo_def)
    next
      case (Suc j)
      have "\<not> stops ev N D A U 0" by (rule run) (simp add: Suc)
      then have "D + A \<le> N" using stops_at_0[OF D(1) rm(1)] by blast
      then have "real D + real A \<le> real N" by (simp flip: of_nat_add)
      then have "P \<le> lo" unfolding lo_def fd(1,3) P_def[symmetric] using D(1) P by (simp add: field_simps) (metis distrib_left mult.commute mult_le_cancel_left_pos)
      then have PW: "P \<le> real W * 10 powi q" using W by (auto simp: between_def split: if_splits)
      have "real W < 10 ^ m" using Wm by (metis of_nat_less_iff of_nat_numeral of_nat_power)
      then have "real W * 10 powi q < 10 ^ m * 10 powi q" by simp
      also have "\<dots> = 10 powi (int m + q)" by (simp add: power_int_add)
      finally have "(10::real) powi (p - 1) < 10 powi (int m + q)" using PW by (simp add: P_def)
      then have "p - 1 < int m + q" by (metis linorder_not_less one_le_numeral power_int_increasing)
      then have "0 \<le> q - (p - 1 - int j)" using Suc by simp
      then obtain t where "q - (p - 1 - int j) = int t" using zero_le_imp_eq_int by blast
      then have q: "q = (p - 1 - int j) + int t" by simp
      have "(10::real) powi q = P / 10 ^ j * 10 ^ t" unfolding q by (subst power_int_add) (simp_all add: P_def powi_back)
      then have "real W * 10 powi q = real (W * 10 ^ t) * P / 10 ^ j" by simp
      then have "inside ev N D A U (W * 10 ^ t) j" using W unfolding ins by simp
      then show False using inside_stops(1)[OF D(1) fd(6)] run[of j] Suc by blast
    qed
  qed
  have V10: "10 ^ m \<le> dec_value cs" by (rule long[OF yes])
  have near: "\<bar>real (dec_value cs) * 10 powi (p - int (Suc m)) - v\<bar> \<le> \<bar>real W * 10 powi (p - int (Suc m)) - v\<bar>"
    if W: "between ev lo up (real W * 10 powi (p - int (Suc m)))" for W
  proof -
    have "inside ev N D A U W m" using W unfolding ins unit by simp
    from shortest_closest[OF D(1) fd(6) stop this, folded cs(4)]
    have "real_of_int \<bar>int (dec_value cs * D) - int (N * 10 ^ m)\<bar> \<le> real_of_int \<bar>int (W * D) - int (N * 10 ^ m)\<bar>" by (simp only: of_int_le_iff)
    then have c: "\<bar>real (dec_value cs) * real D - real N * 10 ^ m\<bar> \<le> \<bar>real W * real D - real N * 10 ^ m\<bar>" by simp
    have k: "real X * (P / 10 ^ m) - v = (real X * real D - real N * 10 ^ m) * (P / (10 ^ m * real D))" for X
      unfolding v_def fd(1) P_def[symmetric] using D(1) by (simp add: field_simps)
    show ?thesis unfolding unit k abs_mult using c by (rule mult_right_mono) simp
  qed
  show ?thesis using cs mL yes long V10 near by (intro exI[of _ cs]) simp
qed


lemma BignumDtoa_shortest:
  assumes d: "dbl_positive d" "\<not> Double_IsSpecial d" and b: "17 < length buffer" and n: "2 ^ 16 \<le> n"
  shows "\<exists>cs p. BignumDtoa n d BIGNUM_DTOA_SHORTEST r buffer = Some (Inr (cs @ 0 # drop (Suc (length cs)) buffer, int (length cs), p))
    \<and> 1 \<le> length cs \<and> length cs \<le> 17 \<and> (\<forall>c \<in> set cs. is_dec c) \<and> 10 ^ (length cs - 1) \<le> dec_value cs
    \<and> rounds_to (real (dec_value cs) * 10 powi (p - int (length cs))) d
    \<and> (\<forall>W q. rounds_to (real W * 10 powi q) d \<longrightarrow> 10 ^ (length cs - 1) \<le> W)
    \<and> (\<forall>W. rounds_to (real W * 10 powi (p - int (length cs))) d \<longrightarrow>
         \<bar>real (dec_value cs) * 10 powi (p - int (length cs)) - dbl_value d\<bar> \<le> \<bar>real W * 10 powi (p - int (length cs)) - dbl_value d\<bar>)"
proof -
  have fp: "dbl_finite_pos d" using d by (simp add: dbl_finite_pos_iff)
  let ?f = "Double_Significand d" and ?e = "Double_Exponent d" and ?c = "Double_LowerBoundaryIsCloser d"
  let ?ev = "even (sgnf d)"
  note parts = dbl_parts[OF fp]
  have v: "dbl_value d = real (sgnf d) * 2 powi ?e" by (rule dbl_value_nonneg[OF parts(1)])
  note lo = dbl_lower_eq[OF fp, unfolded v] and up = dbl_upper_eq[OF fp, unfolded v]
  obtain x s0 p s N D A U where st: "NormalizedExponent ?f ?e = Some (Inr x)"
      "InitialScaledStartValues ?f ?e ?c (EstimatePower x) True scaled_new = Inr s0"
      "FixupMultiply10 (EstimatePower x) ?ev s0 = Inr (p, s)" "reps s N D A U"
      "first_ok ?ev (sgnf d) ?e ?c True p N D A U" "10 * D < limit"
    using double_start[OF fp, of True] by blast
  have B: "(2::nat) \<le> 53" "?c \<Longrightarrow> sgnf d = 2 ^ (53 - 1)" "2 ^ 53 \<le> (10::nat) ^ 16" "16 < n" "16 < length buffer"
    using closer_significand[of d] b n by simp_all
  obtain cs where cs: "GenerateShortestDigits n ?ev s buffer = Some (Inr (cs @ drop (length cs) buffer, length cs))"
      "1 \<le> length cs" "length cs \<le> Suc 16" "\<forall>c \<in> set cs. is_dec c" "10 ^ (length cs - 1) \<le> dec_value cs"
      "rounds_to (real (dec_value cs) * 10 powi (p - int (length cs))) d"
      "\<forall>W q. rounds_to (real W * 10 powi q) d \<longrightarrow> 10 ^ (length cs - 1) \<le> W"
      "\<forall>W. rounds_to (real W * 10 powi (p - int (length cs))) d \<longrightarrow>
         \<bar>real (dec_value cs) * 10 powi (p - int (length cs)) - dbl_value d\<bar> \<le> \<bar>real W * 10 powi (p - int (length cs)) - dbl_value d\<bar>"
    using dtoa_shortest_core[OF st(5,4,6) n parts(3) B(1-3) parts(2) B(4,5), folded lo up v] rounds_to_between[OF fp] by auto
  have "BignumDtoa n d BIGNUM_DTOA_SHORTEST r buffer = Some (Inr (cs @ 0 # drop (Suc (length cs)) buffer, int (length cs), p))"
    using d st(1-3) cs(1,3) b bvec_end[of cs buffer]
    by (simp add: BignumDtoa_def ASSERT_def dtoa_input_def even_test kMaxSignificantBits_def Let_def)
  then show ?thesis using cs by (intro exI[of _ cs] exI[of _ p]) simp
qed

text \<open>
  C2. \<^verbatim>\<open>BignumDtoa\<close> in the mode \<^verbatim>\<open>SHORTEST\<close>, on every finite positive double \<open>d\<close> and every buffer of more than 17 characters: it returns with no
  failed assertion and no write outside the buffer.  The buffer holds at most 17 decimal digits, the first not \<open>0\<close>, and a terminating 0;
  the digits with the decimal point denote a number that reads back as \<open>d\<close>; no number with fewer digits, at any exponent, reads back as
  \<open>d\<close>; and of those with as many digits at the same exponent that do, none is nearer to \<open>d\<close>.
\<close>

theorem dtoa_shortest_correct:
  assumes d: "dbl_positive d" "\<not> Double_IsSpecial d" and b: "17 < length buffer" and n: "2 ^ 16 \<le> n"
  shows "\<exists>cs p. BignumDtoa n d BIGNUM_DTOA_SHORTEST r buffer = Some (Inr (cs @ 0 # drop (Suc (length cs)) buffer, int (length cs), p))
    \<and> 1 \<le> length cs \<and> length cs \<le> 17 \<and> (\<forall>c \<in> set cs. is_dec c) \<and> 10 ^ (length cs - 1) \<le> dec_value cs
    \<and> rounds_to (real (dec_value cs) * 10 powi (p - int (length cs))) d
    \<and> (\<forall>W q. rounds_to (real W * 10 powi q) d \<longrightarrow> 10 ^ (length cs - 1) \<le> W)
    \<and> (\<forall>W. rounds_to (real W * 10 powi (p - int (length cs))) d \<longrightarrow>
         \<bar>real (dec_value cs) * 10 powi (p - int (length cs)) - dbl_value d\<bar> \<le> \<bar>real W * 10 powi (p - int (length cs)) - dbl_value d\<bar>)"
  by (rule BignumDtoa_shortest[OF assms])

theorem dtoa_shortest_correct_witness:
  "\<exists>cs p. BignumDtoa (2 ^ 16) 0x3FD5555555555555 BIGNUM_DTOA_SHORTEST 0 (replicate 18 0)
      = Some (Inr (cs @ 0 # drop (Suc (length cs)) (replicate 18 0), int (length cs), p))
    \<and> length cs \<le> 17 \<and> rounds_to (real (dec_value cs) * 10 powi (p - int (length cs))) 0x3FD5555555555555"
proof -
  have "dbl_positive 0x3FD5555555555555" "\<not> Double_IsSpecial 0x3FD5555555555555" by code_simp+
  moreover have "17 < length (replicate 18 (0::nat))" by simp
  ultimately show ?thesis using dtoa_shortest_correct[where d = "0x3FD5555555555555" and r = 0 and buffer = "replicate 18 0" and n = "2 ^ 16"] by blast
qed


lemma unat_widened: "unat (ucast w :: 64 word) = unat w" for w :: "32 word"
  by (simp add: unsigned_ucast_eq take_bit_eq_mod less_trans[OF unsigned_less])

lemma single_start:
  assumes "flt_finite_pos s"
  shows "\<exists>x s0 p t N D A U. NormalizedExponent (ucast (Single_Significand s)) (Single_Exponent s) = Some (Inr x)
    \<and> InitialScaledStartValues (ucast (Single_Significand s)) (Single_Exponent s) (Single_LowerBoundaryIsCloser s) (EstimatePower x) True scaled_new = Inr s0
    \<and> FixupMultiply10 (EstimatePower x) (even (sgnf32 s)) s0 = Inr (p, t) \<and> reps t N D A U
    \<and> first_ok (even (sgnf32 s)) (sgnf32 s) (Single_Exponent s) (Single_LowerBoundaryIsCloser s) True p N D A U \<and> 10 * D < limit"
proof -
  note p = flt_parts[OF assms]
  define f :: "64 word" where "f = ucast (Single_Significand s)"
  have u: "unat f = sgnf32 s" by (simp only: f_def unat_widened)
  have "0 < unat f" "unat f < 2 ^ 53" "- 1074 \<le> Single_Exponent s" "Single_Exponent s \<le> 971" unfolding u using p(2-5) by simp_all
  from dtoa_start[OF this, of True "even (sgnf32 s)" "Single_LowerBoundaryIsCloser s"] show ?thesis unfolding u unfolding f_def by blast
qed

text \<open>
  C16. \<^verbatim>\<open>BignumDtoa\<close> in the mode \<^verbatim>\<open>SHORTEST_SINGLE\<close>, on the double of every finite positive float \<open>s\<close> and every buffer of more than 9 characters:
  the conversion back to float is exact, so that the assertion holds; the buffer holds at most 9 decimal digits, the first not \<open>0\<close>, and a
  terminating 0; the digits with the decimal point denote a number that reads back as the float \<open>s\<close>; no number with fewer digits, at
  any exponent, does; and of those with as many digits at the same exponent, none is nearer to \<open>s\<close>.
\<close>

theorem dtoa_shortest_single_correct:
  assumes s: "flt_positive s" "\<not> Single_IsSpecial s" and b: "9 < length buffer" and n: "2 ^ 16 \<le> n"
  shows "float_of_double (double_of_float s) = s \<and> dbl_value (double_of_float s) = flt_value s \<and>
    (\<exists>cs p. BignumDtoa n (double_of_float s) BIGNUM_DTOA_SHORTEST_SINGLE r buffer = Some (Inr (cs @ 0 # drop (Suc (length cs)) buffer, int (length cs), p))
    \<and> 1 \<le> length cs \<and> length cs \<le> 9 \<and> (\<forall>c \<in> set cs. is_dec c) \<and> 10 ^ (length cs - 1) \<le> dec_value cs
    \<and> flt_rounds_to (real (dec_value cs) * 10 powi (p - int (length cs))) s
    \<and> (\<forall>W q. flt_rounds_to (real W * 10 powi q) s \<longrightarrow> 10 ^ (length cs - 1) \<le> W)
    \<and> (\<forall>W. flt_rounds_to (real W * 10 powi (p - int (length cs))) s \<longrightarrow>
         \<bar>real (dec_value cs) * 10 powi (p - int (length cs)) - flt_value s\<bar> \<le> \<bar>real W * 10 powi (p - int (length cs)) - flt_value s\<bar>))"
proof -
  have fp: "flt_finite_pos s" using s by (simp add: flt_finite_pos_iff)
  let ?f = "ucast (Single_Significand s) :: 64 word" and ?e = "Single_Exponent s" and ?c = "Single_LowerBoundaryIsCloser s"
  let ?ev = "even (sgnf32 s)" and ?d = "double_of_float s"
  note parts = flt_parts[OF fp] and df = double_of_float_fields(2)[OF fp] and bk = float_of_double_of_float[OF fp]
  have v: "flt_value s = real (sgnf32 s) * 2 powi ?e" by (rule flt_value_nonneg[OF parts(1)])
  obtain x s0 p t N D A U where st: "NormalizedExponent ?f ?e = Some (Inr x)"
      "InitialScaledStartValues ?f ?e ?c (EstimatePower x) True scaled_new = Inr s0"
      "FixupMultiply10 (EstimatePower x) ?ev s0 = Inr (p, t)" "reps t N D A U"
      "first_ok ?ev (sgnf32 s) ?e ?c True p N D A U" "10 * D < limit"
    using single_start[OF fp] by blast
  have B: "(2::nat) \<le> 24" "?c \<Longrightarrow> sgnf32 s = 2 ^ (24 - 1)" "2 ^ 24 \<le> (10::nat) ^ 8" "8 < n" "8 < length buffer"
    using flt_closer_significand[of s] b n by simp_all
  obtain cs where cs: "GenerateShortestDigits n ?ev t buffer = Some (Inr (cs @ drop (length cs) buffer, length cs))"
      "1 \<le> length cs" "length cs \<le> Suc 8" "\<forall>c \<in> set cs. is_dec c" "10 ^ (length cs - 1) \<le> dec_value cs"
      "flt_rounds_to (real (dec_value cs) * 10 powi (p - int (length cs))) s"
      "\<forall>W q. flt_rounds_to (real W * 10 powi q) s \<longrightarrow> 10 ^ (length cs - 1) \<le> W"
      "\<forall>W. flt_rounds_to (real W * 10 powi (p - int (length cs))) s \<longrightarrow>
         \<bar>real (dec_value cs) * 10 powi (p - int (length cs)) - flt_value s\<bar> \<le> \<bar>real W * 10 powi (p - int (length cs)) - flt_value s\<bar>"
    using dtoa_shortest_core[OF st(5,4,6) n parts(3) B(1-3) parts(2) B(4,5), folded v] flt_rounds_to_between[OF fp] by auto
  have "BignumDtoa n ?d BIGNUM_DTOA_SHORTEST_SINGLE r buffer = Some (Inr (cs @ 0 # drop (Suc (length cs)) buffer, int (length cs), p))"
    using st(1-3) cs(1,3) b bvec_end[of cs buffer] df dbl_eq_refl[OF df]
    by (simp add: BignumDtoa_def ASSERT_def dtoa_input_def bk even_test unat_widened kMaxSignificantBits_def Let_def dbl_finite_pos_iff)
  then show ?thesis using cs bk double_of_float_value[OF fp] by (intro conjI exI[of _ cs] exI[of _ p]) simp_all
qed

theorem dtoa_shortest_single_correct_witness:
  "\<exists>cs p. BignumDtoa (2 ^ 16) (double_of_float 0x3DCCCCCD) BIGNUM_DTOA_SHORTEST_SINGLE 0 (replicate 10 0)
      = Some (Inr (cs @ 0 # drop (Suc (length cs)) (replicate 10 0), int (length cs), p))
    \<and> length cs \<le> 9 \<and> flt_rounds_to (real (dec_value cs) * 10 powi (p - int (length cs))) 0x3DCCCCCD"
proof -
  have "flt_positive 0x3DCCCCCD" "\<not> Single_IsSpecial 0x3DCCCCCD" by code_simp+
  moreover have "9 < length (replicate 10 (0::nat))" by simp
  ultimately show ?thesis using dtoa_shortest_single_correct[where s = "0x3DCCCCCD" and r = 0 and buffer = "replicate 10 0" and n = "2 ^ 16"] by blast
qed

end
