(* ===== verification/Strtod.thy ===== *)
theory Strtod
  imports BignumDtoa
begin

text \<open>
  \<^verbatim>\<open>double-conversion/strtod.cc\<close> and \<^verbatim>\<open>cached-powers.cc\<close>: reading decimal digits as a double or a float.

  \<^item> A \<^verbatim>\<open>Vector<const char>\<close> is the list of its character codes; a \<^verbatim>\<open>double\<close> or \<^verbatim>\<open>float\<close> is its bit pattern.
  \<^item> The arithmetic on doubles is that of IEEE 754: the exact result rounded to the nearest double, ties to even.  Only finite,
    non-negative operands occur.
  \<^item> The build option \<^verbatim>\<open>DOUBLE_CONVERSION_CORRECT_DOUBLE_OPERATIONS\<close> is the parameter \<open>correct_ops\<close>.
  \<^item> Decimal exponents are of type \<^verbatim>\<open>int\<close>: where the code adds a length to an exponent or negates it, overflow is an error.
  \<^item> The loops of \<^verbatim>\<open>DiyFp::Normalize\<close> may run forever, hence the results of type \<^typ>\<open>'a option\<close>.
\<close>

unbundle bit_operations_syntax

section \<open>Arithmetic on doubles\<close>

text \<open>The double nearest to \<open>n / d\<close>.\<close>

definition round_ratio :: "nat \<Rightarrow> nat \<Rightarrow> 64 word" where
  "round_ratio n d =
     (if n = 0 then 0
      else let k = int (nbits n) - int (nbits d);
               order = (if d * 2 ^ nat k \<le> n * 2 ^ nat (- k) then k else k - 1);
               q = max (- 1074) (order - 52);
               num = n * 2 ^ nat (- q);
               den = d * 2 ^ nat q;
               r = num mod den;
               g = (if 2 * r > den \<or> 2 * r = den \<and> odd (num div den) then num div den + 1 else num div den);
               bits = (q + 1074) * 2 ^ 52 + int g
           in if bits \<ge> 2047 * 2 ^ 52 then Double_kInfinity else word_of_int bits)"

definition double_of_uint64 :: "64 word \<Rightarrow> 64 word" where
  "double_of_uint64 w = round_ratio (unat w) 1"

definition dbl_times :: "64 word \<Rightarrow> 64 word \<Rightarrow> 64 word" where
  "dbl_times a b =
     (let f = unat (Double_Significand a) * unat (Double_Significand b); e = Double_Exponent a + Double_Exponent b
      in round_ratio (f * 2 ^ nat e) (2 ^ nat (- e)))"

definition dbl_divide :: "64 word \<Rightarrow> 64 word \<Rightarrow> 64 word" where
  "dbl_divide a b =
     (let e = Double_Exponent a - Double_Exponent b
      in round_ratio (unat (Double_Significand a) * 2 ^ nat e) (unat (Double_Significand b) * 2 ^ nat (- e)))"

section \<open>Cached powers of ten\<close>

text \<open>The entries have the significand, the binary and the decimal exponent.\<close>

definition kCachedPowers :: "(64 word \<times> int \<times> int) list" where
  "kCachedPowers = [
     (0xFA8FD5A0081C0288, - 1220, - 348), (0xBAAEE17FA23EBF76, - 1193, - 340), (0x8B16FB203055AC76, - 1166, - 332),
     (0xCF42894A5DCE35EA, - 1140, - 324), (0x9A6BB0AA55653B2D, - 1113, - 316), (0xE61ACF033D1A45DF, - 1087, - 308),
     (0xAB70FE17C79AC6CA, - 1060, - 300), (0xFF77B1FCBEBCDC4F, - 1034, - 292), (0xBE5691EF416BD60C, - 1007, - 284),
     (0x8DD01FAD907FFC3C, - 980, - 276), (0xD3515C2831559A83, - 954, - 268), (0x9D71AC8FADA6C9B5, - 927, - 260),
     (0xEA9C227723EE8BCB, - 901, - 252), (0xAECC49914078536D, - 874, - 244), (0x823C12795DB6CE57, - 847, - 236),
     (0xC21094364DFB5637, - 821, - 228), (0x9096EA6F3848984F, - 794, - 220), (0xD77485CB25823AC7, - 768, - 212),
     (0xA086CFCD97BF97F4, - 741, - 204), (0xEF340A98172AACE5, - 715, - 196), (0xB23867FB2A35B28E, - 688, - 188),
     (0x84C8D4DFD2C63F3B, - 661, - 180), (0xC5DD44271AD3CDBA, - 635, - 172), (0x936B9FCEBB25C996, - 608, - 164),
     (0xDBAC6C247D62A584, - 582, - 156), (0xA3AB66580D5FDAF6, - 555, - 148), (0xF3E2F893DEC3F126, - 529, - 140),
     (0xB5B5ADA8AAFF80B8, - 502, - 132), (0x87625F056C7C4A8B, - 475, - 124), (0xC9BCFF6034C13053, - 449, - 116),
     (0x964E858C91BA2655, - 422, - 108), (0xDFF9772470297EBD, - 396, - 100), (0xA6DFBD9FB8E5B88F, - 369, - 92),
     (0xF8A95FCF88747D94, - 343, - 84), (0xB94470938FA89BCF, - 316, - 76), (0x8A08F0F8BF0F156B, - 289, - 68),
     (0xCDB02555653131B6, - 263, - 60), (0x993FE2C6D07B7FAC, - 236, - 52), (0xE45C10C42A2B3B06, - 210, - 44),
     (0xAA242499697392D3, - 183, - 36), (0xFD87B5F28300CA0E, - 157, - 28), (0xBCE5086492111AEB, - 130, - 20),
     (0x8CBCCC096F5088CC, - 103, - 12), (0xD1B71758E219652C, - 77, - 4), (0x9C40000000000000, - 50, 4),
     (0xE8D4A51000000000, - 24, 12), (0xAD78EBC5AC620000, 3, 20), (0x813F3978F8940984, 30, 28), (0xC097CE7BC90715B3, 56, 36),
     (0x8F7E32CE7BEA5C70, 83, 44), (0xD5D238A4ABE98068, 109, 52), (0x9F4F2726179A2245, 136, 60),
     (0xED63A231D4C4FB27, 162, 68), (0xB0DE65388CC8ADA8, 189, 76), (0x83C7088E1AAB65DB, 216, 84),
     (0xC45D1DF942711D9A, 242, 92), (0x924D692CA61BE758, 269, 100), (0xDA01EE641A708DEA, 295, 108),
     (0xA26DA3999AEF774A, 322, 116), (0xF209787BB47D6B85, 348, 124), (0xB454E4A179DD1877, 375, 132),
     (0x865B86925B9BC5C2, 402, 140), (0xC83553C5C8965D3D, 428, 148), (0x952AB45CFA97A0B3, 455, 156),
     (0xDE469FBD99A05FE3, 481, 164), (0xA59BC234DB398C25, 508, 172), (0xF6C69A72A3989F5C, 534, 180),
     (0xB7DCBF5354E9BECE, 561, 188), (0x88FCF317F22241E2, 588, 196), (0xCC20CE9BD35C78A5, 614, 204),
     (0x98165AF37B2153DF, 641, 212), (0xE2A0B5DC971F303A, 667, 220), (0xA8D9D1535CE3B396, 694, 228),
     (0xFB9B7CD9A4A7443C, 720, 236), (0xBB764C4CA7A44410, 747, 244), (0x8BAB8EEFB6409C1A, 774, 252),
     (0xD01FEF10A657842C, 800, 260), (0x9B10A4E5E9913129, 827, 268), (0xE7109BFBA19C0C9D, 853, 276),
     (0xAC2820D9623BF429, 880, 284), (0x80444B5E7AA7CF85, 907, 292), (0xBF21E44003ACDD2D, 933, 300),
     (0x8E679C2F5E44FF8F, 960, 308), (0xD433179D9C8CB841, 986, 316), (0x9E19DB92B4E31BA9, 1013, 324),
     (0xEB96BF6EBADF77D9, 1039, 332), (0xAF87023B9BF0EE6B, 1066, 340)]"

definition kCachedPowersOffset :: int where
  "kCachedPowersOffset = 348"

definition kDecimalExponentDistance :: int where
  "kDecimalExponentDistance = 8"

definition kMinDecimalExponent :: int where
  "kMinDecimalExponent = - 348"

definition kMaxDecimalExponent :: int where
  "kMaxDecimalExponent = 340"

definition kD_1_LOG2_10 :: "int \<times> int" where
  "kD_1_LOG2_10 = k1Log10"

text \<open>The table is a plain array: an index outside it is undefined behaviour.\<close>

definition cached_power_at :: "int \<Rightarrow> (64 word \<times> int \<times> int) res" where
  "cached_power_at i = (if i < 0 then Inl Undefined else rd kCachedPowers (nat i))"

text \<open>The division of C++ truncates.\<close>

definition cdiv :: "int \<Rightarrow> int \<Rightarrow> int" where
  "cdiv a b = sgn a * sgn b * (\<bar>a\<bar> div \<bar>b\<bar>)"

definition GetCachedPowerForBinaryExponentRange :: "int \<Rightarrow> int \<Rightarrow> (DiyFp \<times> int) res" where
  "GetCachedPowerForBinaryExponentRange min_exponent max_exponent =
     (let kQ = DiyFp_kSignificandSize;
          k = dbl_ceil (dbl_mult (min_exponent + kQ - 1, 0) kD_1_LOG2_10);
          index = cdiv (kCachedPowersOffset + k - 1) kDecimalExponentDistance + 1
      in bindE (ASSERT (0 \<le> index \<and> index < int (length kCachedPowers))) (\<lambda>_.
         bindE (cached_power_at index) (\<lambda>(significand, binary_exponent, decimal_exponent).
         bindE (ASSERT (min_exponent \<le> binary_exponent)) (\<lambda>_.
         bindE (ASSERT (binary_exponent \<le> max_exponent)) (\<lambda>_.
         Inr (\<lparr>diy_f = significand, diy_e = binary_exponent\<rparr>, decimal_exponent))))))"

definition GetCachedPowerForDecimalExponent :: "int \<Rightarrow> (DiyFp \<times> int) res" where
  "GetCachedPowerForDecimalExponent requested_exponent =
     bindE (ASSERT (kMinDecimalExponent \<le> requested_exponent)) (\<lambda>_.
     bindE (ASSERT (requested_exponent < kMaxDecimalExponent + kDecimalExponentDistance)) (\<lambda>_.
     let index = cdiv (requested_exponent + kCachedPowersOffset) kDecimalExponentDistance in
     bindE (cached_power_at index) (\<lambda>(significand, binary_exponent, decimal_exponent).
     bindE (ASSERT (decimal_exponent \<le> requested_exponent)) (\<lambda>_.
     bindE (ASSERT (requested_exponent < decimal_exponent + kDecimalExponentDistance)) (\<lambda>_.
     Inr (\<lparr>diy_f = significand, diy_e = binary_exponent\<rparr>, decimal_exponent))))))"

section \<open>Trimming\<close>

definition kMaxExactDoubleIntegerDecimalDigits :: nat where
  "kMaxExactDoubleIntegerDecimalDigits = 15"

definition strtod_kMaxUint64DecimalDigits :: int where
  "strtod_kMaxUint64DecimalDigits = 19"

definition kMaxDecimalPower :: int where
  "kMaxDecimalPower = 309"

definition kMinDecimalPower :: int where
  "kMinDecimalPower = - 324"

definition kMaxUint64 :: "64 word" where
  "kMaxUint64 = 0xFFFFFFFFFFFFFFFF"

definition exact_powers_of_ten :: "64 word list" where
  "exact_powers_of_ten = map (\<lambda>k. round_ratio (10 ^ k) 1) [0..<23]"

definition kExactPowersOfTenSize :: int where
  "kExactPowersOfTenSize = int (length exact_powers_of_ten)"

definition kMaxSignificantDecimalDigits :: nat where
  "kMaxSignificantDecimalDigits = 780"

definition SubVector :: "nat \<Rightarrow> nat \<Rightarrow> nat list \<Rightarrow> nat list res" where
  "SubVector from to v =
     bindE (ASSERT (to \<le> length v)) (\<lambda>_.
     bindE (ASSERT (from < to)) (\<lambda>_.
     Inr (take (to - from) (drop from v))))"

fun trim_leading_loop :: "nat list \<Rightarrow> nat \<Rightarrow> nat \<Rightarrow> nat list res" where
  "trim_leading_loop buffer i 0 = Inr []"
| "trim_leading_loop buffer i (Suc n) =
     bindE (vec_rd buffer i) (\<lambda>c.
     if c \<noteq> 48 then SubVector i (length buffer) buffer else trim_leading_loop buffer (i + 1) n)"

definition TrimLeadingZeros :: "nat list \<Rightarrow> nat list res" where
  "TrimLeadingZeros buffer = trim_leading_loop buffer 0 (length buffer)"

text \<open>The argument is the index plus one, so that the loop ends behind the index 0.\<close>

fun trim_trailing_loop :: "nat list \<Rightarrow> nat \<Rightarrow> nat list res" where
  "trim_trailing_loop buffer 0 = Inr []"
| "trim_trailing_loop buffer (Suc i) =
     bindE (vec_rd buffer i) (\<lambda>c.
     if c \<noteq> 48 then SubVector 0 (i + 1) buffer else trim_trailing_loop buffer i)"

definition TrimTrailingZeros :: "nat list \<Rightarrow> nat list res" where
  "TrimTrailingZeros buffer = trim_trailing_loop buffer (length buffer)"

definition CutToMaxSignificantDigits :: "nat list \<Rightarrow> int \<Rightarrow> nat list \<Rightarrow> (nat list \<times> int) res" where
  "CutToMaxSignificantDigits buffer ex significant_buffer =
     bindE (store_loop (vec_rd buffer) 0 0 (kMaxSignificantDecimalDigits - 1) significant_buffer) (\<lambda>significant_buffer.
     bindE (vec_rd buffer (length buffer - 1)) (\<lambda>c.
     bindE (ASSERT (c \<noteq> 48)) (\<lambda>_.
     bindE (wr significant_buffer (kMaxSignificantDecimalDigits - 1) 49) (\<lambda>significant_buffer.
     bindE (int_res (ex + (int (length buffer) - int kMaxSignificantDecimalDigits))) (\<lambda>significant_exponent.
     Inr (significant_buffer, significant_exponent))))))"

definition TrimAndCut :: "nat list \<Rightarrow> int \<Rightarrow> nat list \<Rightarrow> nat \<Rightarrow> (nat list \<times> int) res" where
  "TrimAndCut buffer ex buffer_copy_space space_size =
     bindE (TrimLeadingZeros buffer) (\<lambda>left_trimmed.
     bindE (TrimTrailingZeros left_trimmed) (\<lambda>right_trimmed.
     bindE (int_res (ex + (int (length left_trimmed) - int (length right_trimmed)))) (\<lambda>ex.
     if length right_trimmed > kMaxSignificantDecimalDigits
     then bindE (ASSERT (space_size \<ge> kMaxSignificantDecimalDigits)) (\<lambda>_.
          bindE (CutToMaxSignificantDigits right_trimmed ex buffer_copy_space) (\<lambda>(buffer_copy_space, updated_exponent).
          Inr (take kMaxSignificantDecimalDigits buffer_copy_space, updated_exponent)))
     else Inr (right_trimmed, ex))))"

section \<open>Guesses\<close>

function read_uint64_loop :: "nat list \<Rightarrow> nat \<Rightarrow> 64 word \<Rightarrow> (64 word \<times> nat) res" where
  "read_uint64_loop buffer i result =
     (if i < length buffer \<and> result \<le> kMaxUint64 div 10 - 1
      then bindE (vec_rd buffer i) (\<lambda>c.
           let digit = int c - 48 in
           bindE (ASSERT (0 \<le> digit \<and> digit \<le> 9)) (\<lambda>_.
           read_uint64_loop buffer (i + 1) (10 * result + word_of_int digit)))
      else Inr (result, i))"
  by auto
termination by (relation "measure (\<lambda>(buffer, i, result). length buffer - i)") auto

declare read_uint64_loop.simps [simp del]

definition ReadUint64 :: "nat list \<Rightarrow> (64 word \<times> nat) res" where
  "ReadUint64 buffer = read_uint64_loop buffer 0 0"

definition ReadDiyFp :: "nat list \<Rightarrow> (DiyFp \<times> int) res" where
  "ReadDiyFp buffer =
     bindE (ReadUint64 buffer) (\<lambda>(significand, read_digits).
     if length buffer = read_digits then Inr (\<lparr>diy_f = significand, diy_e = 0\<rparr>, 0)
     else bindE (vec_rd buffer read_digits) (\<lambda>c.
          let significand = (if c \<ge> 53 then significand + 1 else significand)
          in Inr (\<lparr>diy_f = significand, diy_e = 0\<rparr>, int (length buffer) - int read_digits)))"

definition exact_power_at :: "int \<Rightarrow> 64 word res" where
  "exact_power_at i = (if i < 0 then Inl Undefined else rd exact_powers_of_ten (nat i))"

text \<open>\<open>None\<close> for \<^verbatim>\<open>return false\<close>, which leaves the result unassigned.\<close>

definition DoubleStrtod :: "bool \<Rightarrow> nat list \<Rightarrow> int \<Rightarrow> 64 word option res" where
  "DoubleStrtod correct_ops trimmed ex =
     (if \<not> correct_ops then Inr None
      else if length trimmed \<le> kMaxExactDoubleIntegerDecimalDigits
      then bindE (if ex < 0 then bindE (int_res (- ex)) (\<lambda>m. Inr (m < kExactPowersOfTenSize)) else Inr False) (\<lambda>divide.
           if divide
           then bindE (ReadUint64 trimmed) (\<lambda>(w, read_digits).
                bindE (ASSERT (read_digits = length trimmed)) (\<lambda>_.
                bindE (exact_power_at (- ex)) (\<lambda>p.
                Inr (Some (dbl_divide (double_of_uint64 w) p)))))
           else if 0 \<le> ex \<and> ex < kExactPowersOfTenSize
           then bindE (ReadUint64 trimmed) (\<lambda>(w, read_digits).
                bindE (ASSERT (read_digits = length trimmed)) (\<lambda>_.
                bindE (exact_power_at ex) (\<lambda>p.
                Inr (Some (dbl_times (double_of_uint64 w) p)))))
           else let remaining_digits = int kMaxExactDoubleIntegerDecimalDigits - int (length trimmed) in
                if 0 \<le> ex \<and> ex - remaining_digits < kExactPowersOfTenSize
                then bindE (ReadUint64 trimmed) (\<lambda>(w, read_digits).
                     bindE (ASSERT (read_digits = length trimmed)) (\<lambda>_.
                     bindE (exact_power_at remaining_digits) (\<lambda>p.
                     bindE (exact_power_at (ex - remaining_digits)) (\<lambda>p'.
                     Inr (Some (dbl_times (dbl_times (double_of_uint64 w) p) p'))))))
                else Inr None)
      else Inr None)"

definition AdjustmentPowerOfTen :: "int \<Rightarrow> DiyFp res" where
  "AdjustmentPowerOfTen ex =
     bindE (ASSERT (0 < ex)) (\<lambda>_.
     bindE (ASSERT (ex < kDecimalExponentDistance)) (\<lambda>_.
     bindE (ASSERT (kDecimalExponentDistance = 8)) (\<lambda>_.
     if ex = 1 then Inr \<lparr>diy_f = 0xA000000000000000, diy_e = - 60\<rparr>
     else if ex = 2 then Inr \<lparr>diy_f = 0xC800000000000000, diy_e = - 57\<rparr>
     else if ex = 3 then Inr \<lparr>diy_f = 0xFA00000000000000, diy_e = - 54\<rparr>
     else if ex = 4 then Inr \<lparr>diy_f = 0x9C40000000000000, diy_e = - 50\<rparr>
     else if ex = 5 then Inr \<lparr>diy_f = 0xC350000000000000, diy_e = - 47\<rparr>
     else if ex = 6 then Inr \<lparr>diy_f = 0xF424000000000000, diy_e = - 44\<rparr>
     else if ex = 7 then Inr \<lparr>diy_f = 0x9896800000000000, diy_e = - 40\<rparr>
     else Inl Terminate)))"

definition kDenominatorLog :: int where
  "kDenominatorLog = 3"

definition kDenominator :: "64 word" where
  "kDenominator = 8"

text \<open>The three parts of \<^verbatim>\<open>DiyFpStrtod\<close>: the product with a small power of ten.\<close>

definition diyfp_adjust :: "nat list \<Rightarrow> int \<Rightarrow> int \<Rightarrow> DiyFp \<Rightarrow> 64 word \<Rightarrow> (DiyFp \<times> 64 word) res" where
  "diyfp_adjust buffer ex cached_decimal_exponent input error =
     (if cached_decimal_exponent \<noteq> ex
      then let adjustment_exponent = ex - cached_decimal_exponent in
           bindE (AdjustmentPowerOfTen adjustment_exponent) (\<lambda>adjustment_power.
           let input = DiyFp_Multiply input adjustment_power in
           if strtod_kMaxUint64DecimalDigits - int (length buffer) \<ge> adjustment_exponent
           then bindE (ASSERT (DiyFp_kSignificandSize = 64)) (\<lambda>_. Inr (input, error))
           else Inr (input, error + kDenominator div 2))
      else Inr (input, error))"

text \<open>The normalized product of the digits with the cached power of ten, and its error in eighths of a unit.\<close>

definition diyfp_product :: "nat list \<Rightarrow> int \<Rightarrow> DiyFp \<Rightarrow> 64 word \<Rightarrow> (DiyFp \<times> 64 word) res option" where
  "diyfp_product buffer ex input error =
     bindO (Some (GetCachedPowerForDecimalExponent ex)) (\<lambda>(cached_power, cached_decimal_exponent).
     bindO (Some (diyfp_adjust buffer ex cached_decimal_exponent input error)) (\<lambda>(input, error).
     let input = DiyFp_Multiply input cached_power;
         error_b = kDenominator div 2;
         error_ab = (if error = 0 then 0 else 1);
         fixed_error = kDenominator div 2;
         error = error + (error_b + error_ab + fixed_error);
         old_e = diy_e input
     in bindO (DiyFp_Normalize input) (\<lambda>input.
        Some (Inr (input, push_bit (nat (old_e - diy_e input)) error)))))"

text \<open>Rounding to the significand of a double.\<close>

definition diyfp_round :: "DiyFp \<Rightarrow> 64 word \<Rightarrow> (bool \<times> 64 word) res" where
  "diyfp_round input error =
     (let order_of_magnitude = DiyFp_kSignificandSize + diy_e input;
          effective_significand_size = SignificandSizeForOrderOfMagnitude order_of_magnitude;
          precision_digits_count = DiyFp_kSignificandSize - effective_significand_size;
          (input, error, precision_digits_count) =
            (if precision_digits_count + kDenominatorLog \<ge> DiyFp_kSignificandSize
             then let shift_amount = precision_digits_count + kDenominatorLog - DiyFp_kSignificandSize + 1
                  in (\<lparr>diy_f = drop_bit (nat shift_amount) (diy_f input), diy_e = diy_e input + shift_amount\<rparr>,
                      drop_bit (nat shift_amount) error + 1 + kDenominator,
                      precision_digits_count - shift_amount)
             else (input, error, precision_digits_count))
      in bindE (ASSERT (DiyFp_kSignificandSize = 64)) (\<lambda>_.
         bindE (ASSERT (precision_digits_count < 64)) (\<lambda>_.
         let one64 = 1;
             precision_bits_mask = push_bit (nat precision_digits_count) one64 - 1;
             precision_bits = (diy_f input AND precision_bits_mask) * kDenominator;
             half_way = push_bit (nat (precision_digits_count - 1)) one64 * kDenominator;
             rounded_f = drop_bit (nat precision_digits_count) (diy_f input);
             rounded_f = (if precision_bits \<ge> half_way + error then rounded_f + 1 else rounded_f);
             result = DiyFpToUint64 \<lparr>diy_f = rounded_f, diy_e = diy_e input + precision_digits_count\<rparr>
         in if half_way - error < precision_bits \<and> precision_bits < half_way + error then Inr (False, result) else Inr (True, result))))"

definition DiyFpStrtod :: "nat list \<Rightarrow> int \<Rightarrow> (bool \<times> 64 word) res option" where
  "DiyFpStrtod buffer ex =
     bindO (Some (ReadDiyFp buffer)) (\<lambda>(input, remaining_decimals).
     bindO (Some (int_res (ex + remaining_decimals))) (\<lambda>ex.
     let error = (if remaining_decimals = 0 then 0 else kDenominator div 2);
         old_e = diy_e input
     in bindO (DiyFp_Normalize input) (\<lambda>input.
        let error = push_bit (nat (old_e - diy_e input)) error in
        bindO (Some (ASSERT (ex \<le> kMaxDecimalExponent))) (\<lambda>_.
        if ex < kMinDecimalExponent then Some (Inr (True, 0))
        else bindO (diyfp_product buffer ex input error) (\<lambda>(input, error).
             Some (diyfp_round input error))))))"

section \<open>Comparison and result\<close>

definition CompareBufferWithDiyFp :: "nat list \<Rightarrow> int \<Rightarrow> DiyFp \<Rightarrow> int res" where
  "CompareBufferWithDiyFp buffer ex diy_fp =
     bindE (int_res (int (length buffer) + ex)) (\<lambda>point.
     bindE (ASSERT (point \<le> kMaxDecimalPower + 1)) (\<lambda>_.
     bindE (ASSERT (point > kMinDecimalPower)) (\<lambda>_.
     bindE (ASSERT (length buffer \<le> kMaxSignificantDecimalDigits)) (\<lambda>_.
     bindE (ASSERT (cdiv ((kMaxDecimalPower + 1) * 333) 100 < int kMaxSignificantBits)) (\<lambda>_.
     bindE (AssignDecimalString buffer bn_new) (\<lambda>buffer_bignum.
     bindE (AssignUInt64 (unat (diy_f diy_fp)) bn_new) (\<lambda>diy_fp_bignum.
     bindE (if ex \<ge> 0
            then bindE (MultiplyByPowerOfTen (nat ex) buffer_bignum) (\<lambda>buffer_bignum. Inr (buffer_bignum, diy_fp_bignum))
            else bindE (MultiplyByPowerOfTen (nat (- ex)) diy_fp_bignum) (\<lambda>diy_fp_bignum. Inr (buffer_bignum, diy_fp_bignum)))
       (\<lambda>(buffer_bignum, diy_fp_bignum).
     bindE (if diy_e diy_fp > 0
            then bindE (ShiftLeft (nat (diy_e diy_fp)) diy_fp_bignum) (\<lambda>diy_fp_bignum. Inr (buffer_bignum, diy_fp_bignum))
            else bindE (ShiftLeft (nat (- diy_e diy_fp)) buffer_bignum) (\<lambda>buffer_bignum. Inr (buffer_bignum, diy_fp_bignum)))
       (\<lambda>(buffer_bignum, diy_fp_bignum).
     bn_Compare buffer_bignum diy_fp_bignum)))))))))"

definition ComputeGuess :: "bool \<Rightarrow> nat list \<Rightarrow> int \<Rightarrow> (bool \<times> 64 word) res option" where
  "ComputeGuess correct_ops trimmed ex =
     (if length trimmed = 0 then Some (Inr (True, 0))
      else
        bindO (Some (int_res (ex + int (length trimmed)))) (\<lambda>point.
        bindO (Some (int_res (point - 1))) (\<lambda>order.
        if order \<ge> kMaxDecimalPower then Some (Inr (True, Double_kInfinity))
        else if point \<le> kMinDecimalPower then Some (Inr (True, 0))
        else bindO (Some (DoubleStrtod correct_ops trimmed ex)) (\<lambda>r. case r of
             Some guess \<Rightarrow> Some (Inr (True, guess))
           | None \<Rightarrow> bindO (DiyFpStrtod trimmed ex) (\<lambda>(correct, guess).
               if correct then Some (Inr (True, guess))
               else if dbl_eq guess Double_kInfinity then Some (Inr (True, guess))
               else Some (Inr (False, guess)))))))"

definition Strtod :: "bool \<Rightarrow> nat list \<Rightarrow> int \<Rightarrow> 64 word res option" where
  "Strtod correct_ops buffer ex =
     bindO (Some (TrimAndCut buffer ex (replicate kMaxSignificantDecimalDigits 0) kMaxSignificantDecimalDigits)) (\<lambda>(trimmed, ex).
     bindO (ComputeGuess correct_ops trimmed ex) (\<lambda>(is_correct, guess).
     if is_correct then Some (Inr guess)
     else Some (
          bindE (Double_UpperBoundary guess) (\<lambda>upper_boundary.
          bindE (CompareBufferWithDiyFp trimmed ex upper_boundary) (\<lambda>comparison.
          if comparison < 0 then Inr guess
          else if comparison > 0 then Inr (Double_NextDouble guess)
          else if Double_Significand guess AND 1 = 0 then Inr guess
          else Inr (Double_NextDouble guess))))))"

end
