(* ===== verification/Strtod_Round.thy ===== *)
theory Strtod_Round
  imports Strtod Ieee_Single
begin

text \<open>
  Rounding to the nearest double, computed from an integer significand: when a significand at a given exponent is the right one, what
  \<^verbatim>\<open>DiyFpToUint64\<close> makes of it, and that the operations on doubles round correctly.
\<close>

unbundle bit_operations_syntax

section \<open>Patterns from significand and exponent\<close>

context binary_format
begin

lemma nearest_sides:
  assumes n: "n \<le> inf_pat"
    and lo: "0 < n \<Longrightarrow> val (n - 1) + val n < 2 * x \<or> val (n - 1) + val n = 2 * x \<and> even n"
    and up: "n < inf_pat \<Longrightarrow> 2 * x < val n + val (Suc n) \<or> 2 * x = val n + val (Suc n) \<and> even n"
  shows "nearest_in val inf_pat x n"
proof -
  have "\<bar>x - val n\<bar> < \<bar>x - val m\<bar> \<or> \<bar>x - val n\<bar> = \<bar>x - val m\<bar> \<and> even n" if m: "m \<le> inf_pat" "m \<noteq> n" for m
  proof (cases "m < n")
    case True
    then have sides: "val (n - 1) + val n < 2 * x \<or> val (n - 1) + val n = 2 * x \<and> even n" using lo by simp
    have st: "val (n - 1) < val n" using step[of "n - 1"] True n by simp
    show ?thesis
    proof (cases "m = n - 1")
      case True
      then show ?thesis using sides st by auto
    next
      case False
      then have "val m < val (n - 1)" using val_mono[of m "n - 1"] \<open>m < n\<close> n by simp
      then show ?thesis using sides st by auto
    qed
  next
    case False
    then have lt: "n < m" "n < inf_pat" using m by auto
    note sides = up[OF lt(2)] and st = step[OF lt(2)]
    show ?thesis
    proof (cases "m = Suc n")
      case True
      then show ?thesis using sides st by auto
    next
      case False
      then have "val (Suc n) < val m" using val_mono[of "Suc n" m] lt m by simp
      then show ?thesis using sides st by auto
    qed
  qed
  then show ?thesis using n by (auto simp: nearest_in_def)
qed

end

text \<open>The pattern of \<open>g * 2 ^ q\<close>, for \<open>g\<close> with 53 bits, or fewer at the least exponent.\<close>

definition pat :: "int \<Rightarrow> nat \<Rightarrow> nat" where
  "pat q g = nat (q + 1074) * 2 ^ 52 + g"

definition pat_ok :: "int \<Rightarrow> nat \<Rightarrow> bool" where
  "pat_ok q g \<longleftrightarrow> - 1074 \<le> q \<and> q \<le> 972 \<and> g < 2 ^ 53 \<and> (- 1074 < q \<longrightarrow> 2 ^ 52 \<le> g)"

lemma pat_next: "- 1074 \<le> q \<Longrightarrow> pat q (2 ^ 53) = pat (q + 1) (2 ^ 52)"
  by (simp add: pat_def nat_add_distrib[of "q + 1074" 1, simplified])

lemma pat_even: "even (pat q g) \<longleftrightarrow> even g"
  by (simp add: pat_def)

lemma pat_fields:
  assumes "pat_ok q g"
  defines "d \<equiv> word_of_nat (pat q g) :: 64 word"
  shows "unat d = pat q g" "unat d < 2 ^ 63" "sgnf d = g" "Double_Exponent d = q" "dbl_value d = real g * 2 powi q"
proof -
  have q: "- 1074 \<le> q" "q \<le> 972" "g < 2 ^ 53" "- 1074 < q \<Longrightarrow> 2 ^ 52 \<le> g" using assms by (auto simp: pat_ok_def)
  have "nat (q + 1074) \<le> 2046" using q by simp
  then have "pat q g < 2046 * 2 ^ 52 + 2 ^ 53" unfolding pat_def using q(3) by (intro add_le_less_mono mult_le_mono1)
  then have b: "pat q g < 2 ^ 63" by simp
  show u: "unat d = pat q g" unfolding d_def by (rule unat_of_small) (use b in simp)
  show u63: "unat d < 2 ^ 63" using b u by simp
  note s = dbl_split[OF u63]
  show f: "sgnf d = g" "Double_Exponent d = q"
  proof -
    have "dbl_exp d = (if g < 2 ^ 52 then 0 else nat (q + 1075)) \<and> dbl_mant d = (if g < 2 ^ 52 then g else g - 2 ^ 52)"
    proof (cases "g < 2 ^ 52")
      case True
      then have "pat q g = g" using q by (cases "q = - 1074") (auto simp: pat_def)
      then show ?thesis using True u s(4) by simp
    next
      case False
      have "nat (q + 1075) = nat (q + 1074) + 1" using q(1) by simp
      then have p: "pat q g = nat (q + 1075) * 2 ^ 52 + (g - 2 ^ 52)" using False by (simp add: pat_def)
      have "g - 2 ^ 52 < 2 ^ 52" using q(3) by simp
      then have "pat q g div 2 ^ 52 = nat (q + 1075)" "pat q g mod 2 ^ 52 = g - 2 ^ 52" unfolding p by simp_all
      then show ?thesis using False u s(4) by simp
    qed
    moreover have "q = - 1074" if "g < 2 ^ 52" using q that by linarith
    ultimately show "sgnf d = g" "Double_Exponent d = q" unfolding Double_fields(4,5) using q(1) by auto
  qed
  show "dbl_value d = real g * 2 powi q" unfolding dbl_value_nonneg[OF u63] f ..
qed

lemma pat_top: "pat_ok q g \<Longrightarrow> q \<le> 971 \<Longrightarrow> pat q g < 2047 * 2 ^ 52"
proof -
  assume "pat_ok q g" "q \<le> 971"
  then have "nat (q + 1074) \<le> 2045" "g < 2 ^ 53" by (auto simp: pat_ok_def)
  then have "pat q g < 2045 * 2 ^ 52 + 2 ^ 53" unfolding pat_def by (intro add_le_less_mono mult_le_mono1)
  then show ?thesis by simp
qed

lemma pat_value_next:
  assumes "pat_ok q g" "q \<le> 971"
  shows "dbl_value (word_of_nat (Suc (pat q g))) = (real g + 1) * 2 powi q"
proof -
  note f = pat_fields[OF assms(1)]
  have "unat (word_of_nat (pat q g) :: 64 word) < 2047 * 2 ^ 52" using f(1) pat_top[OF assms] by simp
  then have "dbl_value (word_of_nat (pat q g) + 1) = real g * 2 powi q + 2 powi q" using value_next f(4,5) by metis
  then show ?thesis by (simp add: add.commute distrib_right)
qed

text \<open>Infinity, for rounding, is \<open>2 ^ 1024\<close>.\<close>

lemma inf_pat: "pat 972 (2 ^ 52) = 2047 * 2 ^ 52" "word_of_nat (2047 * 2 ^ 52) = Double_kInfinity"
  by (simp_all add: pat_def Double_kInfinity_def)

section \<open>The right significand\<close>

text \<open>A significand nearest to \<open>x / 2 ^ q\<close>, and near enough where the numbers below are twice as dense, gives the nearest double.\<close>

lemma round_at:
  assumes q: "- 1074 \<le> q" "q \<le> 971" and g: "g \<le> 2 ^ 53" "- 1074 < q \<Longrightarrow> 2 ^ 52 \<le> g"
    and lo: "0 < g \<Longrightarrow> real g - 1 / 2 < z \<or> real g - 1 / 2 = z \<and> even g"
    and closer: "- 1074 < q \<Longrightarrow> g = 2 ^ 52 \<Longrightarrow> real g - 1 / 4 < z"
    and up: "z < real g + 1 / 2 \<or> z = real g + 1 / 2 \<and> even g"
  shows "rounds_to (z * 2 powi q) (word_of_nat (pat q g))"
proof -
  let ?v = "\<lambda>n. dbl_value (word_of_nat n)"
  define n where "n = pat q g"
  have scale: "(a * 2 powi q < b * 2 powi q) = (a < b)" "(a * 2 powi q = b * 2 powi q) = (a = b)" for a b :: real by simp_all
  have b: "n \<le> 2047 * 2 ^ 52" "?v n = real g * 2 powi q" "unat (word_of_nat n :: 64 word) = n"
  proof -
    have "n \<le> 2047 * 2 ^ 52 \<and> ?v n = real g * 2 powi q \<and> unat (word_of_nat n :: 64 word) = n"
    proof (cases "g < 2 ^ 53")
      case True
      then have ok: "pat_ok q g" using q g by (simp add: pat_ok_def)
      show ?thesis using pat_fields(1,5)[OF ok] pat_top[OF ok q(2)] by (simp add: n_def)
    next
      case False
      then have gg: "g = 2 ^ 53" using g by simp
      have ok: "pat_ok (q + 1) (2 ^ 52)" using q by (simp add: pat_ok_def)
      have "nat (q + 1 + 1074) * 2 ^ 52 \<le> 2046 * 2 ^ 52" using q by (intro mult_le_mono1) simp
      then show ?thesis using pat_fields(1,5)[OF ok] powi_succ(1)[of q] unfolding n_def gg pat_next[OF q(1)] by (simp add: pat_def)
    qed
    then show "n \<le> 2047 * 2 ^ 52" "?v n = real g * 2 powi q" "unat (word_of_nat n :: 64 word) = n" by auto
  qed
  have down: "?v (n - 1) = (if - 1074 < q \<and> g = 2 ^ 52 then (real g - 1 / 2) * 2 powi q else (real g - 1) * 2 powi q)" if "0 < n"
  proof (cases "- 1074 < q \<and> g = 2 ^ 52")
    case True
    have "n = pat (q - 1) (2 ^ 53)" using pat_next[of "q - 1"] True by (simp add: n_def)
    then have n1: "n - 1 = pat (q - 1) (2 ^ 53 - 1)" by (simp add: pat_def)
    have "pat_ok (q - 1) (2 ^ 53 - 1)" using True q by (simp add: pat_ok_def)
    then show ?thesis using True pat_fields(5)[of "q - 1" "2 ^ 53 - 1"] powi_succ(2)[of q] unfolding n1 by simp
  next
    case False
    have g0: "0 < g" using that g(2) q(1) by (cases "q = - 1074"; cases "g = 0") (auto simp: n_def pat_def)
    then have n1: "n - 1 = pat q (g - 1)" by (simp add: n_def pat_def)
    have "pat_ok q (g - 1)" using False q g g0 by (auto simp: pat_ok_def)
    then show ?thesis using False pat_fields(5)[of q "g - 1"] g0 unfolding n1 by (simp add: of_nat_diff)
  qed
  have above: "?v (Suc n) \<ge> (real g + 1) * 2 powi q" if "n < 2047 * 2 ^ 52"
  proof (cases "g < 2 ^ 53")
    case True
    then have "pat_ok q g" using q g by (simp add: pat_ok_def)
    then show ?thesis using pat_value_next[OF _ q(2)] by (simp add: n_def)
  next
    case False
    then have gg: "g = 2 ^ 53" using g by simp
    have "q \<noteq> 971" using that unfolding n_def gg pat_next[OF q(1)] by (auto simp: pat_def)
    then have "pat_ok (q + 1) (2 ^ 52)" "q + 1 \<le> 971" using q by (simp_all add: pat_ok_def)
    then show ?thesis using pat_value_next[of "q + 1" "2 ^ 52"] powi_succ(1)[of q] unfolding n_def gg pat_next[OF q(1)] by simp
  qed
  have "nearest_in ?v (2047 * 2 ^ 52) (z * 2 powi q) n"
  proof (rule dbl_format.nearest_sides[OF b(1)])
    assume n0: "0 < n"
    show "?v (n - 1) + ?v n < 2 * (z * 2 powi q) \<or> ?v (n - 1) + ?v n = 2 * (z * 2 powi q) \<and> even n"
    proof (cases "- 1074 < q \<and> g = 2 ^ 52")
      case True
      then have "(2 * real g - 1 / 2) * 2 powi q < (2 * z) * 2 powi q" using closer by (subst scale(1)) simp
      then show ?thesis unfolding down[OF n0] b(2) using True by (simp add: algebra_simps)
    next
      case False
      have g0: "0 < g" using n0 g(2) q(1) by (cases "q = - 1074"; cases "g = 0") (auto simp: n_def pat_def)
      have "(2 * real g - 1) * 2 powi q < (2 * z) * 2 powi q \<or> (2 * real g - 1) * 2 powi q = (2 * z) * 2 powi q \<and> even n"
        using lo[OF g0] unfolding scale n_def pat_even by linarith
      then show ?thesis unfolding down[OF n0] b(2) if_not_P[OF False] by (simp add: algebra_simps)
    qed
  next
    assume n1: "n < 2047 * 2 ^ 52"
    have "(2 * z) * 2 powi q < (2 * real g + 1) * 2 powi q \<or> (2 * z) * 2 powi q = (2 * real g + 1) * 2 powi q \<and> even n"
      using up unfolding scale n_def pat_even by linarith
    then show "2 * (z * 2 powi q) < ?v n + ?v (Suc n) \<or> 2 * (z * 2 powi q) = ?v n + ?v (Suc n) \<and> even n"
      using above[OF n1] unfolding b(2) by (simp add: algebra_simps) linarith
  qed
  then show ?thesis unfolding rounds_to_nearest n_def[symmetric] b(3) .
qed

text \<open>At or above the largest boundary the nearest number is infinity.\<close>

lemma round_infinite:
  assumes "(2 ^ 53 - 1 / 2) * 2 powi 971 \<le> x"
  shows "rounds_to x Double_kInfinity"
proof -
  let ?v = "\<lambda>n. dbl_value (word_of_nat n)"
  have "nearest_in ?v (2047 * 2 ^ 52) x (2047 * 2 ^ 52)"
  proof (rule dbl_format.nearest_sides[OF order_refl])
    have ok: "pat_ok 971 (2 ^ 53 - 1)" "pat_ok 972 (2 ^ 52)" by (simp_all add: pat_ok_def)
    have n1: "2047 * 2 ^ 52 - 1 = pat 971 (2 ^ 53 - 1)" by (simp add: pat_def)
    have "?v (2047 * 2 ^ 52 - 1) = (2 ^ 53 - 1) * 2 powi 971" unfolding n1 using pat_fields(5)[OF ok(1)] by simp
    moreover have "?v (2047 * 2 ^ 52) = 2 ^ 53 * 2 powi 971" using pat_fields(5)[OF ok(2)] unfolding inf_pat(1) by simp
    ultimately show "?v (2047 * 2 ^ 52 - 1) + ?v (2047 * 2 ^ 52) < 2 * x \<or> ?v (2047 * 2 ^ 52 - 1) + ?v (2047 * 2 ^ 52) = 2 * x \<and> even (2047 * 2 ^ 52 :: nat)"
      using assms by (simp add: algebra_simps) linarith
  qed simp
  moreover have "unat Double_kInfinity = 2047 * 2 ^ 52" by (simp add: Double_kInfinity_def)
  ultimately show ?thesis unfolding rounds_to_nearest by (simp only:)
qed

section \<open>The rounded quotient\<close>

lemma round_half_even:
  fixes num den :: nat
  assumes "0 < den"
  defines "g \<equiv> (if 2 * (num mod den) > den \<or> 2 * (num mod den) = den \<and> odd (num div den) then num div den + 1 else num div den)"
  shows "real g - 1 / 2 < real num / real den \<or> real g - 1 / 2 = real num / real den \<and> even g"
    "real num / real den < real g + 1 / 2 \<or> real num / real den = real g + 1 / 2 \<and> even g"
proof -
  define m r where "m = num div den" and "r = num mod den"
  have "num = m * den + r" by (simp add: m_def r_def)
  then have z: "real num / real den = real m + real r / real den" using assms(1) by (simp add: add_divide_distrib)
  have r: "r < den" using assms(1) by (simp add: r_def)
  define t where "t = real r / real den"
  have half: "t < 1 / 2 \<longleftrightarrow> 2 * r < den" "t = 1 / 2 \<longleftrightarrow> 2 * r = den" "t < 1" "0 \<le> t"
    using assms(1) r by (auto simp: t_def field_simps)
  have gg: "g = (if 2 * r > den \<or> 2 * r = den \<and> odd m then m + 1 else m)" by (simp add: g_def m_def r_def)
  consider "2 * r < den" | "2 * r = den" "even m" | "2 * r = den" "odd m" | "2 * r > den" by linarith
  then have "(real g - 1 / 2 < real m + t \<or> real g - 1 / 2 = real m + t \<and> even g) \<and> (real m + t < real g + 1 / 2 \<or> real m + t = real g + 1 / 2 \<and> even g)"
  proof cases
    case 1
    then have "g = m" "t < 1 / 2" using half(1) by (simp_all add: gg)
    then show ?thesis using half(4) by linarith
  next
    case 2
    then have "g = m" "t = 1 / 2" using half(2) by (simp_all add: gg)
    then show ?thesis using 2 by simp
  next
    case 3
    then have "g = m + 1" "t = 1 / 2" using half(2) by (simp_all add: gg)
    then show ?thesis using 3 by simp
  next
    case 4
    then have "g = m + 1" "\<not> t < 1 / 2" "t \<noteq> 1 / 2" using half(1,2) by (auto simp: gg)
    then show ?thesis using half(3) by (simp del: of_nat_Suc add: of_nat_add)
  qed
  then show "real g - 1 / 2 < real num / real den \<or> real g - 1 / 2 = real num / real den \<and> even g"
    "real num / real den < real g + 1 / 2 \<or> real num / real den = real g + 1 / 2 \<and> even g" unfolding z t_def[symmetric] by simp_all
qed

lemma powi_nat2: "(2::real) powi e = 2 ^ nat e / 2 ^ nat (- e)"
  by (cases "0 \<le> e") (auto simp: power_int_def power_one_over)

lemma nbits_real: "0 < m \<Longrightarrow> 2 powi (int (nbits m) - 1) \<le> real m" "real m < 2 powi int (nbits m)"
proof -
  show "real m < 2 powi int (nbits m)"
  proof (cases "m = 0")
    case False
    then have "m < 2 ^ nbits m" using nbits_bounds[of m] by simp
    then have "real m < real (2 ^ nbits m)" by (simp only: of_nat_less_iff)
    then show ?thesis by simp
  qed simp
  assume "0 < m"
  then have b: "2 ^ (nbits m - 1) \<le> m" "0 < nbits m" using nbits_bounds[of m] by auto
  from b(1) have "real (2 ^ (nbits m - 1)) \<le> real m" by (simp only: of_nat_le_iff)
  moreover have "int (nbits m) - 1 = int (nbits m - 1)" using b(2) by simp
  ultimately show "2 powi (int (nbits m) - 1) \<le> real m" by (simp only: power_int_of_nat of_nat_power of_nat_numeral)
qed

lemma ratio_order:
  assumes "0 < n" "0 < d"
  defines "k \<equiv> int (nbits n) - int (nbits d)"
  defines "order \<equiv> if d * 2 ^ nat k \<le> n * 2 ^ nat (- k) then k else k - 1"
  shows "2 powi order \<le> real n / real d" "real n / real d < 2 powi (order + 1)"
proof -
  have d0: "0 < real d" using assms by simp
  have t: "d * 2 ^ nat k \<le> n * 2 ^ nat (- k) \<longleftrightarrow> 2 powi k \<le> real n / real d"
  proof -
    have "d * 2 ^ nat k \<le> n * 2 ^ nat (- k) \<longleftrightarrow> real (d * 2 ^ nat k) \<le> real (n * 2 ^ nat (- k))" by (simp only: of_nat_le_iff)
    also have "\<dots> \<longleftrightarrow> 2 powi k \<le> real n / real d" using d0 by (simp add: powi_nat2[of k] field_simps)
    finally show ?thesis .
  qed
  have lo: "2 powi (k - 1) \<le> real n / real d"
  proof -
    have "2 powi (k - 1) * real d \<le> 2 powi (k - 1) * 2 powi int (nbits d)" using nbits_real(2)[of d] by (intro mult_left_mono) simp_all
    also have "\<dots> = 2 powi (k - 1 + int (nbits d))" by (rule power_int_add[symmetric]) simp
    also have "\<dots> = 2 powi (int (nbits n) - 1)" by (simp add: k_def)
    also have "\<dots> \<le> real n" by (rule nbits_real(1)[OF assms(1)])
    finally show ?thesis using d0 by (simp add: le_divide_eq)
  qed
  have up: "real n / real d < 2 powi (k + 1)"
  proof -
    have "real n < 2 powi int (nbits n)" by (rule nbits_real(2))
    also have "\<dots> = 2 powi ((k + 1) + (int (nbits d) - 1))" by (simp add: k_def)
    also have "\<dots> = 2 powi (k + 1) * (2::real) powi (int (nbits d) - 1)" by (rule power_int_add) simp
    also have "\<dots> \<le> 2 powi (k + 1) * real d" using nbits_real(1)[OF assms(2)] by (intro mult_left_mono) simp_all
    finally show ?thesis using d0 by (simp add: divide_less_eq)
  qed
  show "2 powi order \<le> real n / real d" "real n / real d < 2 powi (order + 1)"
    unfolding order_def using lo up t by auto
qed

lemma round_ratio_correct:
  assumes "0 < n" "0 < d"
  shows "rounds_to (real n / real d) (round_ratio n d)"
proof -
  define k where "k = int (nbits n) - int (nbits d)"
  define order where "order = (if d * 2 ^ nat k \<le> n * 2 ^ nat (- k) then k else k - 1)"
  define q where "q = max (- 1074) (order - 52)"
  define num den where "num = n * 2 ^ nat (- q)" and "den = d * 2 ^ nat q"
  define g where "g = (if 2 * (num mod den) > den \<or> 2 * (num mod den) = den \<and> odd (num div den) then num div den + 1 else num div den)"
  define bits where "bits = (q + 1074) * 2 ^ 52 + int g"
  have rr: "round_ratio n d = (if bits \<ge> 2047 * 2 ^ 52 then Double_kInfinity else word_of_int bits)"
    using assms unfolding round_ratio_def Let_def k_def[symmetric] order_def[symmetric] q_def[symmetric] num_def[symmetric] den_def[symmetric] g_def[symmetric] bits_def[symmetric] by simp
  note o = ratio_order[OF assms, folded k_def, folded order_def]
  have den0: "0 < den" using assms by (simp add: den_def)
  define z where "z = real num / real den"
  have x: "real n / real d = z * 2 powi q" using assms by (simp add: z_def num_def den_def powi_nat2[of q])
  note h = round_half_even[OF den0, of num, folded g_def, folded z_def]
  have q1: "- 1074 \<le> q" by (simp add: q_def)
  have z53: "z < 2 ^ 53"
  proof -
    have "z * 2 powi q < 2 powi (order + 1)" using o(2) x by simp
    also have "\<dots> \<le> 2 powi (53 + q)" by (rule power_int_increasing) (simp_all add: q_def)
    also have "\<dots> = 2 ^ 53 * 2 powi q" by (simp add: power_int_add)
    finally show ?thesis by simp
  qed
  have z52: "2 ^ 52 \<le> z" if "- 1074 < q"
  proof -
    have "order = 52 + q" using that by (simp add: q_def)
    then have "2 ^ 52 * 2 powi q \<le> z * 2 powi q" using o(1) x by (simp add: power_int_add)
    then show ?thesis by simp
  qed
  have g53: "g \<le> 2 ^ 53"
  proof (rule ccontr)
    assume "\<not> g \<le> 2 ^ 53"
    then have "real (2 ^ 53 + 1) \<le> real g" by (simp only: of_nat_le_iff)
    then show False using h(1) z53 by simp
  qed
  have g52: "2 ^ 52 \<le> g" if "- 1074 < q"
  proof (rule ccontr)
    assume "\<not> 2 ^ 52 \<le> g"
    then have "real (g + 1) \<le> real (2 ^ 52)" by (simp only: of_nat_le_iff)
    then show False using h(2) z52[OF that] by simp
  qed
  show ?thesis
  proof (cases "q \<le> 971")
    case True
    have p: "bits = int (pat q g)" using q1 by (simp add: bits_def pat_def)
    have "round_ratio n d = word_of_nat (pat q g)"
    proof (cases "bits \<ge> 2047 * 2 ^ 52")
      case True
      have "nat (q + 1074) * 2 ^ 52 \<le> 2045 * 2 ^ 52" using \<open>q \<le> 971\<close> by (intro mult_le_mono1) simp
      then have "pat q g \<le> 2047 * 2 ^ 52" using g53 by (simp add: pat_def)
      moreover have "int (2047 * 2 ^ 52) \<le> int (pat q g)" using True unfolding p by simp
      then have "2047 * 2 ^ 52 \<le> pat q g" by (simp only: of_nat_le_iff)
      ultimately have "pat q g = 2047 * 2 ^ 52" by simp
      then show ?thesis using True inf_pat(2) unfolding rr by (simp only: if_True)
    qed (simp add: rr p)
    moreover have "real g - 1 / 4 < z" if "- 1074 < q" "g = 2 ^ 52" using z52[OF that(1)] that(2) by simp
    ultimately show ?thesis unfolding x using round_at[OF q1 True g53 g52 h(1) _ h(2)] by simp
  next
    case False
    then have q0: "- 1074 < q" by simp
    have "2046 * 2 ^ 52 \<le> (q + 1074) * 2 ^ 52" using False by (intro mult_right_mono) simp_all
    moreover have "int (2 ^ 52) \<le> int g" using g52[OF q0] by (simp only: of_nat_le_iff)
    ultimately have "2047 * 2 ^ 52 \<le> bits" unfolding bits_def by simp
    then have "round_ratio n d = Double_kInfinity" by (simp add: rr)
    moreover have "(2 ^ 53 - 1 / 2) * 2 powi 971 \<le> real n / real d"
    proof -
      have "(2 ^ 53 - 1 / 2) * (2::real) powi 971 \<le> 2 ^ 52 * 2 powi 972" by simp
      also have "\<dots> \<le> z * 2 powi q" using z52[OF q0] False by (intro mult_mono power_int_increasing) simp_all
      finally show ?thesis unfolding x .
    qed
    ultimately show ?thesis using round_infinite by simp
  qed
qed

section \<open>Exact results\<close>

lemma rounds_to_exact:
  assumes "rounds_to (dbl_value d') d" "unat d' \<le> 2047 * 2 ^ 52"
  shows "d = d'"
proof (rule ccontr)
  assume "d \<noteq> d'"
  then have ne: "unat d' \<noteq> unat d" by (metis word_unat_eq_iff)
  then have "dbl_value d = dbl_value d'" using assms \<open>d \<noteq> d'\<close> by (auto simp: rounds_to_def)
  moreover have "unat d \<le> 2047 * 2 ^ 52" using assms(1) by (simp add: rounds_to_def)
  ultimately show False using value_less_iff[of d d'] value_less_iff[of d' d] assms(2) ne by linarith
qed

lemma representable:
  assumes "0 < m" "m < 2 ^ 53" "- 1000 \<le> e" "e \<le> 900"
  shows "\<exists>d. dbl_finite_pos d \<and> dbl_value d = real m * 2 powi e"
proof -
  define k where "k = 53 - nbits m"
  have nb: "nbits m \<le> 53" by (rule nbits_le[OF assms(2)])
  have "nbits (m * 2 ^ k) = 53" using nbits_shift[OF assms(1), of k] nb by (simp add: k_def)
  then have "2 ^ 52 \<le> m * 2 ^ k" "m * 2 ^ k < 2 ^ 53" using nbits_bounds[of "m * 2 ^ k"] assms(1) by simp_all
  moreover have "k \<le> 53" by (simp add: k_def)
  ultimately have ok: "pat_ok (e - int k) (m * 2 ^ k)" using assms(3,4) by (simp add: pat_ok_def)
  let ?d = "word_of_nat (pat (e - int k) (m * 2 ^ k)) :: 64 word"
  have "dbl_value ?d = real m * 2 powi e" unfolding pat_fields(5)[OF ok] by (rule powi_shift)
  moreover have "dbl_finite_pos ?d"
    unfolding dbl_finite_pos_def pat_fields(1)[OF ok] using pat_top[OF ok] assms(1,4) by (simp add: pat_def)
  ultimately show ?thesis by blast
qed

lemma round_ratio_exact:
  assumes "0 < n" "0 < d" "real n / real d = real m * 2 powi e" "0 < m" "m < 2 ^ 53" "- 1000 \<le> e" "e \<le> 900"
  shows "dbl_finite_pos (round_ratio n d)" "dbl_value (round_ratio n d) = real n / real d"
proof -
  obtain c where c: "dbl_finite_pos c" "dbl_value c = real n / real d" using representable[OF assms(4-7)] assms(3) by auto
  have "unat c \<le> 2047 * 2 ^ 52" using c(1) by (simp add: dbl_finite_pos_def)
  then have "round_ratio n d = c" using rounds_to_exact[of c] round_ratio_correct[OF assms(1,2)] c(2) by simp
  then show "dbl_finite_pos (round_ratio n d)" "dbl_value (round_ratio n d) = real n / real d" using c by auto
qed

lemma double_of_uint64_exact:
  assumes "0 < unat w" "unat w < 2 ^ 53"
  shows "dbl_finite_pos (double_of_uint64 w)" "dbl_value (double_of_uint64 w) = real (unat w)"
  using round_ratio_exact[of "unat w" 1 "unat w" 0] assms unfolding double_of_uint64_def by simp_all

lemma ratio_scale: "real (f * 2 ^ nat e) / real (g * 2 ^ nat (- e)) = real f / real g * 2 powi e"
  by (simp add: powi_nat2[of e])

lemma dbl_times_correct:
  assumes "dbl_finite_pos a" "dbl_finite_pos b"
  shows "rounds_to (dbl_value a * dbl_value b) (dbl_times a b)"
proof -
  note a = dbl_parts[OF assms(1)] and b = dbl_parts[OF assms(2)]
  define e where "e = Double_Exponent a + Double_Exponent b"
  have "rounds_to (real (sgnf a * sgnf b * 2 ^ nat e) / real (1 * 2 ^ nat (- e))) (round_ratio (sgnf a * sgnf b * 2 ^ nat e) (1 * 2 ^ nat (- e)))"
    using a(2) b(2) by (intro round_ratio_correct) simp_all
  moreover have "real (sgnf a * sgnf b) / real 1 * 2 powi e = dbl_value a * dbl_value b"
    unfolding dbl_value_nonneg[OF a(1)] dbl_value_nonneg[OF b(1)] e_def by (simp add: power_int_add)
  ultimately show ?thesis unfolding dbl_times_def Let_def e_def[symmetric] ratio_scale by simp
qed

lemma dbl_divide_correct:
  assumes "dbl_finite_pos a" "dbl_finite_pos b"
  shows "rounds_to (dbl_value a / dbl_value b) (dbl_divide a b)"
proof -
  note a = dbl_parts[OF assms(1)] and b = dbl_parts[OF assms(2)]
  define e where "e = Double_Exponent a - Double_Exponent b"
  have "rounds_to (real (sgnf a * 2 ^ nat e) / real (sgnf b * 2 ^ nat (- e))) (round_ratio (sgnf a * 2 ^ nat e) (sgnf b * 2 ^ nat (- e)))"
    using a(2) b(2) by (intro round_ratio_correct) simp_all
  moreover have "real (sgnf a) / real (sgnf b) * 2 powi e = dbl_value a / dbl_value b"
    unfolding dbl_value_nonneg[OF a(1)] dbl_value_nonneg[OF b(1)] e_def by (simp add: power_int_diff)
  ultimately show ?thesis unfolding dbl_divide_def Let_def e_def[symmetric] ratio_scale by simp
qed

lemma exact_power:
  assumes "i \<le> 22"
  shows "exact_power_at (int i) = Inr (round_ratio (10 ^ i) 1)" "dbl_finite_pos (round_ratio (10 ^ i) 1)" "dbl_value (round_ratio (10 ^ i) 1) = 10 ^ i"
proof -
  show "exact_power_at (int i) = Inr (round_ratio (10 ^ i) 1)" using assms by (simp add: exact_power_at_def exact_powers_of_ten_def rd_def nth_append del: upt_Suc)
  have "(5::nat) ^ i \<le> 5 ^ 22" by (rule power_increasing) (use assms in simp_all)
  then have five: "(5::nat) ^ i < 2 ^ 53" by simp
  have "real (10 ^ i) / real 1 = real (5 ^ i) * 2 powi int i" by (simp flip: power_mult_distrib)
  then show "dbl_finite_pos (round_ratio (10 ^ i) 1)" "dbl_value (round_ratio (10 ^ i) 1) = 10 ^ i"
    using round_ratio_exact[of "10 ^ i" 1 "5 ^ i" "int i"] five assms by simp_all
qed

section \<open>From a DiyFp to a double\<close>

lemma kConstants: "Double_kDenormalExponent = - 1074" "Double_kMaxExponent = 972" "Double_kExponentBias = 1075" "Double_kSignificandSize = 53"
  by (simp_all add: Double_kDenormalExponent_def Double_kMaxExponent_def Double_kExponentBias_def Double_kPhysicalSignificandSize_def Double_kSignificandSize_def)

lemma shrink_small: "unat f < 2 ^ 53 \<Longrightarrow> shrink_loop f e = (f, e)"
  by (subst shrink_loop.simps) (simp add: word_less_nat_alt Double_kHiddenBit_def Double_kSignificandMask_def)

lemma shrink_once:
  assumes "unat f = 2 ^ 53"
  shows "shrink_loop f e = (2 ^ 52, e + 1)"
proof -
  have f: "f = 2 ^ 53" using assms by (simp add: word_unat_eq_iff)
  have "f > Double_kHiddenBit + Double_kSignificandMask" unfolding f by (simp add: word_less_nat_alt Double_kHiddenBit_def Double_kSignificandMask_def)
  moreover have "drop_bit 1 f = 2 ^ 52" unfolding f by (simp add: drop_bit_eq_div)
  ultimately show ?thesis using shrink_small[of "2 ^ 52" "e + 1"] by (subst shrink_loop.simps) simp
qed

lemma DiyFpToUint64_pat_ok:
  assumes ok: "pat_ok q (unat f)" "q \<le> 971"
  shows "DiyFpToUint64 \<lparr>diy_f = f, diy_e = q\<rparr> = word_of_nat (pat q (unat f))"
proof -
  let ?d = "word_of_nat (pat q (unat f)) :: 64 word"
  note d = pat_fields[OF ok(1)]
  show ?thesis
  proof (cases "pat q (unat f) = 0")
    case True
    then have "unat f = 0" "q = - 1074" using ok by (auto simp: pat_def pat_ok_def)
    moreover from this have "f = 0" by (simp add: word_unat_eq_iff)
    ultimately show ?thesis
      by (simp add: DiyFpToUint64_def shrink_small kConstants pat_def) (subst grow_loop.simps, simp add: kConstants)
  next
    case False
    then have "dbl_finite_pos ?d" using pat_top[OF ok] d(1) by (simp add: dbl_finite_pos_def)
    moreover have "Double_Significand ?d = f" using d(3) by (simp add: word_unat_eq_iff)
    ultimately show ?thesis using DiyFpToUint64_significand[of ?d] d(4) by simp
  qed
qed

lemma DiyFpToUint64_pat:
  assumes q: "- 1074 \<le> q" and f: "unat f \<le> 2 ^ 53" "- 1074 < q \<Longrightarrow> 2 ^ 52 \<le> unat f"
  shows "DiyFpToUint64 \<lparr>diy_f = f, diy_e = q\<rparr> = (if q \<le> 971 then word_of_nat (pat q (unat f)) else Double_kInfinity)"
proof (cases "unat f < 2 ^ 53")
  case True
  show ?thesis
  proof (cases "q \<le> 971")
    case False
    then show ?thesis using shrink_small[OF True] by (simp add: DiyFpToUint64_def kConstants)
  next
    case ql: True
    then have "pat_ok q (unat f)" using True q f by (simp add: pat_ok_def)
    then show ?thesis using ql DiyFpToUint64_pat_ok by simp
  qed
next
  case False
  then have f53: "unat f = 2 ^ 53" using f by simp
  show ?thesis
  proof (cases "q \<le> 970")
    case True
    have u: "unat (2 ^ 52 :: 64 word) = 2 ^ 52" by simp
    have "DiyFpToUint64 \<lparr>diy_f = f, diy_e = q\<rparr> = DiyFpToUint64 \<lparr>diy_f = 2 ^ 52, diy_e = q + 1\<rparr>"
      using shrink_once[OF f53, of q] shrink_small[of "2 ^ 52" "q + 1"] by (simp add: DiyFpToUint64_def)
    also have "\<dots> = word_of_nat (pat (q + 1) (2 ^ 52))" using DiyFpToUint64_pat_ok[of "q + 1" "2 ^ 52"] True q by (simp add: pat_ok_def)
    finally show ?thesis using True pat_next[OF q] by (simp add: f53)
  next
    case False
    then have "DiyFpToUint64 \<lparr>diy_f = f, diy_e = q\<rparr> = Double_kInfinity" using shrink_once[OF f53, of q] by (simp add: DiyFpToUint64_def kConstants)
    moreover have "pat 971 (2 ^ 53) = 2047 * 2 ^ 52" by (simp add: pat_def)
    ultimately show ?thesis using False inf_pat(2) by (cases "q = 971") (simp_all add: f53)
  qed
qed

lemma DiyFpToUint64_tiny: "unat f \<le> 1 \<Longrightarrow> q < - 1074 \<Longrightarrow> DiyFpToUint64 \<lparr>diy_f = f, diy_e = q\<rparr> = 0"
  by (simp add: DiyFpToUint64_def shrink_small kConstants)

end
