(* ===== verification/Strtod_Powers.thy ===== *)
theory Strtod_Powers
  imports Strtod_Round
begin

text \<open>
  The table of \<^verbatim>\<open>cached-powers.cc\<close>: every significand is within half a unit of the power of ten it stands for.  The check walks
  through the table from \<open>10 ^ 4\<close>, which is exact, in both directions, and keeps the power of ten with 128 bits.
\<close>

unbundle bit_operations_syntax

section \<open>The table\<close>

fun up_ok :: "nat \<Rightarrow> int \<Rightarrow> int \<Rightarrow> int \<Rightarrow> (64 word \<times> int \<times> int) list \<Rightarrow> bool" where
  "up_ok i a b d [] = True"
| "up_ok i a b d ((s, b', d') # xs) =
     (let a' = a * 100000000 div 2 ^ nat (b' - b)
      in d' = d + 8 \<and> 26 \<le> b' - b \<and> \<bar>uint s * 2 ^ 64 - a'\<bar> + 2 ^ (i + 1) < 2 ^ 63 \<and> up_ok (i + 1) a' b' d' xs)"

fun down_ok :: "nat \<Rightarrow> int \<Rightarrow> int \<Rightarrow> int \<Rightarrow> (64 word \<times> int \<times> int) list \<Rightarrow> bool" where
  "down_ok i a b d [] = True"
| "down_ok i a b d ((s, b', d') # xs) =
     (let a' = a * 2 ^ nat (b - b') div 100000000
      in d' = d - 8 \<and> 0 \<le> b - b' \<and> b - b' \<le> 27 \<and> \<bar>uint s * 2 ^ 64 - a'\<bar> + 2 ^ (i + 1) < 2 ^ 63 \<and> down_ok (i + 1) a' b' d' xs)"

lemma table_checks:
  "up_ok 1 (0x9C40000000000000 * 2 ^ 64) (- 50) 4 (drop 45 kCachedPowers)"
  "down_ok 1 (0x9C40000000000000 * 2 ^ 64) (- 50) 4 (rev (take 44 kCachedPowers))"
  "list_all (\<lambda>(s, b, d). 2 ^ 63 \<le> uint s) kCachedPowers"
  by code_simp+


definition near_power :: "64 word \<Rightarrow> int \<Rightarrow> int \<Rightarrow> bool" where
  "near_power s b d \<longleftrightarrow> \<bar>real (unat s) - 10 powi d / 2 powi b\<bar> < 1 / 2"

lemma powi10_nat: "(10::real) powi e = 10 ^ nat e / 10 ^ nat (- e)"
  by (cases "0 \<le> e") (auto simp: power_int_def power_one_over)

text \<open>One step of the walk: the quotient is rounded down, and the error at most doubles.\<close>

lemma walk_step:
  fixes A :: real
  assumes a: "of_int a \<le> A" "A \<le> of_int a + 2 ^ i" and i: "1 \<le> i" and pq: "0 < p" "0 < q" "2 * p \<le> 3 * q"
  shows "of_int (a * p div q) \<le> A * of_int p / of_int q" "A * of_int p / of_int q \<le> of_int (a * p div q) + 2 ^ (i + 1)"
proof -
  define Q where "Q = a * p div q"
  have "q * Q \<le> a * p" "a * p < q * Q + q"
    using pq minus_mod_eq_mult_div[of "a * p" q] pos_mod_bound[of q "a * p"] pos_mod_sign[of q "a * p"] unfolding Q_def by linarith+
  then have "real_of_int (q * Q) \<le> real_of_int (a * p)" "real_of_int (a * p) \<le> real_of_int (q * Q + q)" by (simp_all only: of_int_le_iff)
  then have r: "of_int q * of_int Q \<le> (of_int (a * p) :: real)" "(of_int (a * p) :: real) \<le> of_int q * of_int Q + of_int q" by simp_all
  have q0: "(0::real) < of_int q" and p0: "(0::real) < of_int p" using pq by simp_all
  have "of_int a * of_int p \<le> A * (of_int p :: real)" using a(1) p0 by (intro mult_right_mono) simp_all
  then have "of_int q * of_int Q \<le> A * (of_int p :: real)" using r(1) by simp
  then show "of_int (a * p div q) \<le> A * of_int p / of_int q" using q0 unfolding Q_def[symmetric] by (simp add: le_divide_eq mult.commute)
  have "A * of_int p \<le> (of_int a + 2 ^ i) * (of_int p :: real)" using a(2) p0 by (intro mult_right_mono) simp_all
  also have "\<dots> \<le> of_int q * of_int Q + of_int q + 2 ^ i * of_int p" using r(2) by (simp add: distrib_right)
  also have "2 ^ i * of_int p \<le> 2 ^ i * (3 / 2 * (of_int q :: real))" using pq(3) by (intro mult_left_mono) simp_all
  finally have "A * of_int p \<le> of_int q * (of_int Q + 1 + 3 / 2 * 2 ^ i)" by (simp add: algebra_simps)
  also have "\<dots> \<le> of_int q * (of_int Q + 2 ^ (i + 1))"
  proof -
    have "(2::real) ^ 1 \<le> 2 ^ i" by (rule power_increasing[OF i]) simp
    then have "of_int Q + 1 + 3 / 2 * 2 ^ i \<le> (of_int Q + 2 ^ (i + 1) :: real)" by simp
    then show ?thesis using q0 by (intro mult_left_mono) simp_all
  qed
  finally show "A * of_int p / of_int q \<le> of_int (a * p div q) + 2 ^ (i + 1)" using q0 unfolding Q_def[symmetric] by (simp add: divide_le_eq mult.commute)
qed


lemma near_from_wide:
  fixes A :: real
  assumes a: "of_int a \<le> A" "A \<le> of_int a + 2 ^ i" "\<bar>uint s * 2 ^ 64 - a\<bar> + 2 ^ i < 2 ^ 63" "A = 10 powi d * 2 powi (64 - b)"
  shows "near_power s b d"
proof -
  have "real_of_int (\<bar>uint s * 2 ^ 64 - a\<bar> + 2 ^ i) < real_of_int (2 ^ 63)" using a(3) by (simp only: of_int_less_iff)
  then have "\<bar>real (unat s) * 2 ^ 64 - of_int a\<bar> + 2 ^ i < 2 ^ 63" by simp
  then have "\<bar>real (unat s) * 2 ^ 64 - A\<bar> < 2 ^ 63" using a(1,2) by linarith
  moreover have "A = 10 powi d / 2 powi b * 2 ^ 64" unfolding a(4) by (simp add: power_int_diff)
  ultimately have "\<bar>(real (unat s) - 10 powi d / 2 powi b) * 2 ^ 64\<bar> < 2 ^ 63" by (simp only: left_diff_distrib)
  then show ?thesis unfolding near_power_def abs_mult by simp
qed

lemma up_ok_near:
  fixes A :: real
  assumes "up_ok i a b d xs" "of_int a \<le> A" "A \<le> of_int a + 2 ^ i" "1 \<le> i" "A = 10 powi d * 2 powi (64 - b)"
  shows "\<forall>(s, b', d') \<in> set xs. near_power s b' d'"
  using assms
proof (induction i a b d xs arbitrary: A rule: up_ok.induct)
  case (2 i a b d s b' d' xs)
  define a' where "a' = a * 100000000 div 2 ^ nat (b' - b)"
  have h: "d' = d + 8" "26 \<le> b' - b" "\<bar>uint s * 2 ^ 64 - a'\<bar> + 2 ^ (i + 1) < 2 ^ 63" "up_ok (i + 1) a' b' d' xs"
    using 2(2) unfolding a'_def by (auto simp: Let_def)
  have "(2::int) ^ 26 \<le> 2 ^ nat (b' - b)" using h(2) by (intro power_increasing) simp_all
  note st = walk_step[OF 2(3,4,5), of 100000000 "2 ^ nat (b' - b)", folded a'_def]
  define A' where "A' = A * of_int 100000000 / of_int (2 ^ nat (b' - b))"
  have w: "of_int a' \<le> A'" "A' \<le> of_int a' + 2 ^ (i + 1)" using st \<open>2 ^ 26 \<le> _\<close> by (simp_all add: A'_def)
  have A': "A' = 10 powi d' * 2 powi (64 - b')"
  proof -
    have "(10::real) powi d' = 10 powi d * 10 ^ 8" unfolding h(1) by (simp add: power_int_add)
    moreover have "(2::real) powi (64 - b) = 2 powi (64 - b') * 2 ^ nat (b' - b)" using powi_split[of "64 - b'" "64 - b"] h(2) by (simp add: mult.commute)
    ultimately show ?thesis unfolding A'_def 2(6) by simp
  qed
  have "near_power s b' d'" by (rule near_from_wide[OF w h(3) A'])
  moreover have "\<forall>(s, b', d') \<in> set xs. near_power s b' d'" using 2(1)[OF a'_def h(4) w _ A'] by simp
  ultimately show ?case by auto
qed simp

lemma down_ok_near:
  fixes A :: real
  assumes "down_ok i a b d xs" "of_int a \<le> A" "A \<le> of_int a + 2 ^ i" "1 \<le> i" "A = 10 powi d * 2 powi (64 - b)"
  shows "\<forall>(s, b', d') \<in> set xs. near_power s b' d'"
  using assms
proof (induction i a b d xs arbitrary: A rule: down_ok.induct)
  case (2 i a b d s b' d' xs)
  define a' where "a' = a * 2 ^ nat (b - b') div 100000000"
  have h: "d' = d - 8" "b - b' \<le> 27" "0 \<le> b - b'" "\<bar>uint s * 2 ^ 64 - a'\<bar> + 2 ^ (i + 1) < 2 ^ 63" "down_ok (i + 1) a' b' d' xs"
    using 2(2) unfolding a'_def by (auto simp: Let_def)
  have "(2::int) ^ nat (b - b') \<le> 2 ^ 27" using h(2) by (intro power_increasing) simp_all
  note st = walk_step[OF 2(3,4,5), of "2 ^ nat (b - b')" 100000000, folded a'_def]
  define A' where "A' = A * of_int (2 ^ nat (b - b')) / of_int 100000000"
  have w: "of_int a' \<le> A'" "A' \<le> of_int a' + 2 ^ (i + 1)" using st \<open>_ \<le> 2 ^ 27\<close> by (simp_all add: A'_def)
  have A': "A' = 10 powi d' * 2 powi (64 - b')"
  proof -
    have "(10::real) powi d = 10 powi d' * 10 ^ 8"
    proof -
      have "d = d' + 8" using h(1) by simp
      then show ?thesis by (simp add: power_int_add)
    qed
    moreover have "(2::real) powi (64 - b') = 2 powi (64 - b) * 2 ^ nat (b - b')" using powi_split[of "64 - b" "64 - b'"] h(3) by (simp add: mult.commute)
    ultimately show ?thesis unfolding A'_def 2(6) by simp
  qed
  have "near_power s b' d'" by (rule near_from_wide[OF w h(4) A'])
  moreover have "\<forall>(s, b', d') \<in> set xs. near_power s b' d'" using 2(1)[OF a'_def h(5) w _ A'] by simp
  ultimately show ?case by auto
qed simp


section \<open>Access to the table\<close>

lemma table_length: "length kCachedPowers = 87" "kCachedPowers ! 44 = (0x9C40000000000000, - 50, 4)"
  by (simp_all add: kCachedPowers_def)

lemma table_exponents: "map (\<lambda>(s, b, d). d) kCachedPowers = map (\<lambda>i. 8 * int i - 348) [0..<87]"
  by (simp add: kCachedPowers_def upt_rec)

lemma table_near: "(s, b, d) \<in> set kCachedPowers \<Longrightarrow> near_power s b d"
proof -
  assume m: "(s, b, d) \<in> set kCachedPowers"
  have wide: "real_of_int (0x9C40000000000000 * 2 ^ 64) = 10 powi 4 * 2 powi (64 - (- 50))" by simp
  have start: "real_of_int (0x9C40000000000000 * 2 ^ 64) \<le> 10 powi 4 * 2 powi (64 - (- 50))"
      "10 powi 4 * 2 powi (64 - (- 50)) \<le> real_of_int (0x9C40000000000000 * 2 ^ 64) + 2 ^ 1" unfolding wide by simp_all
  have "kCachedPowers = take 44 kCachedPowers @ kCachedPowers ! 44 # drop 45 kCachedPowers"
    using id_take_nth_drop[of 44 kCachedPowers] table_length(1) by simp
  then have "(s, b, d) \<in> set (take 44 kCachedPowers) \<or> (s, b, d) = kCachedPowers ! 44 \<or> (s, b, d) \<in> set (drop 45 kCachedPowers)"
    using m by (metis Un_iff set_append set_ConsD)
  then show ?thesis
  proof (elim disjE)
    assume "(s, b, d) \<in> set (take 44 kCachedPowers)"
    then show ?thesis using down_ok_near[OF table_checks(2) start order_refl refl] by auto
  next
    assume "(s, b, d) = kCachedPowers ! 44"
    then show ?thesis by (simp add: table_length near_power_def)
  next
    assume "(s, b, d) \<in> set (drop 45 kCachedPowers)"
    then show ?thesis using up_ok_near[OF table_checks(1) start order_refl refl] by auto
  qed
qed

lemma table_entry:
  assumes "0 \<le> i" "i < 87"
  shows "\<exists>s b. cached_power_at i = Inr (s, b, 8 * i - 348) \<and> near_power s b (8 * i - 348) \<and> 2 ^ 63 \<le> unat s \<and> (s, b, 8 * i - 348) \<in> set kCachedPowers"
proof -
  define j where "j = nat i"
  have j: "j < 87" "i = int j" using assms by (simp_all add: j_def)
  obtain s b d where e: "kCachedPowers ! j = (s, b, d)" by (cases "kCachedPowers ! j")
  have "(\<lambda>(s, b, d). d) (kCachedPowers ! j) = 8 * int j - 348"
    using arg_cong[OF table_exponents, of "\<lambda>l. l ! j"] j(1) table_length(1) by simp
  then have d: "d = 8 * i - 348" using e j(2) by simp
  have m: "(s, b, d) \<in> set kCachedPowers" using nth_mem[of j kCachedPowers] e j(1) table_length(1) by simp
  then have "2 ^ 63 \<le> uint s" using table_checks(3) by (auto simp: list_all_iff)
  then have "int (2 ^ 63) \<le> int (unat s)" by simp
  then have "2 ^ 63 \<le> unat s" by (simp only: of_nat_le_iff)
  then show ?thesis using table_near[OF m] m e d j table_length(1) by (simp add: cached_power_at_def)
qed

lemma GetCachedPowerForDecimalExponent_spec:
  assumes "- 348 \<le> E" "E < 348"
  shows "\<exists>s b d. GetCachedPowerForDecimalExponent E = Inr (\<lparr>diy_f = s, diy_e = b\<rparr>, d) \<and> d \<le> E \<and> E < d + 8
    \<and> 2 ^ 63 \<le> unat s \<and> near_power s b d"
proof -
  define i where "i = (E + 348) div 8"
  have i: "0 \<le> i" "i < 87" "8 * i - 348 \<le> E" "E < 8 * i - 348 + 8" using assms by (auto simp: i_def)
  obtain s b where e: "cached_power_at i = Inr (s, b, 8 * i - 348)" "near_power s b (8 * i - 348)" "2 ^ 63 \<le> unat s" using table_entry[OF i(1,2)] by blast
  have "cdiv (E + kCachedPowersOffset) kDecimalExponentDistance = i"
    using assms by (cases "E = - 348") (auto simp: cdiv_def kCachedPowersOffset_def kDecimalExponentDistance_def i_def)
  then have "GetCachedPowerForDecimalExponent E = Inr (\<lparr>diy_f = s, diy_e = b\<rparr>, 8 * i - 348)"
    using assms e(1) i by (simp add: GetCachedPowerForDecimalExponent_def kMinDecimalExponent_def kMaxDecimalExponent_def
        kDecimalExponentDistance_def ASSERT_def Let_def)
  then show ?thesis using e i by blast
qed

lemma AdjustmentPowerOfTen_spec:
  assumes "0 < a" "a < 8"
  shows "\<exists>p j. AdjustmentPowerOfTen a = Inr \<lparr>diy_f = p, diy_e = - int j\<rparr> \<and> 2 ^ 63 \<le> unat p \<and> unat p = 10 ^ nat a * 2 ^ j"
proof -
  have t: "AdjustmentPowerOfTen 1 = Inr \<lparr>diy_f = 0xA000000000000000, diy_e = - int 60\<rparr>" "AdjustmentPowerOfTen 2 = Inr \<lparr>diy_f = 0xC800000000000000, diy_e = - int 57\<rparr>"
    "AdjustmentPowerOfTen 3 = Inr \<lparr>diy_f = 0xFA00000000000000, diy_e = - int 54\<rparr>" "AdjustmentPowerOfTen 4 = Inr \<lparr>diy_f = 0x9C40000000000000, diy_e = - int 50\<rparr>"
    "AdjustmentPowerOfTen 5 = Inr \<lparr>diy_f = 0xC350000000000000, diy_e = - int 47\<rparr>" "AdjustmentPowerOfTen 6 = Inr \<lparr>diy_f = 0xF424000000000000, diy_e = - int 44\<rparr>"
    "AdjustmentPowerOfTen 7 = Inr \<lparr>diy_f = 0x9896800000000000, diy_e = - int 40\<rparr>"
    by (simp_all add: AdjustmentPowerOfTen_def ASSERT_def kDecimalExponentDistance_def)
  have g: ?thesis if "AdjustmentPowerOfTen a = Inr \<lparr>diy_f = p, diy_e = - int j\<rparr>" "2 ^ 63 \<le> unat p" "unat p = 10 ^ nat a * 2 ^ j" for p j
    using that by blast
  consider "a = 1" | "a = 2" | "a = 3" | "a = 4" | "a = 5" | "a = 6" | "a = 7" using assms by linarith
  then show ?thesis
  proof cases
    case 1
    show ?thesis by (rule g) (unfold 1, rule t(1), simp_all)
  next
    case 2
    show ?thesis by (rule g) (unfold 2, rule t(2), simp_all)
  next
    case 3
    show ?thesis by (rule g) (unfold 3, rule t(3), simp_all)
  next
    case 4
    show ?thesis by (rule g) (unfold 4, rule t(4), simp_all)
  next
    case 5
    show ?thesis by (rule g) (unfold 5, rule t(5), simp_all)
  next
    case 6
    show ?thesis by (rule g) (unfold 6, rule t(6), simp_all)
  next
    case 7
    show ?thesis by (rule g) (unfold 7, rule t(7), simp_all)
  qed
qed


text \<open>The binary and the decimal exponents of the table differ by the factor that \<^verbatim>\<open>kD_1_LOG2_10\<close> approximates.\<close>

lemma table_slope:
  "list_all (\<lambda>(s, b, d). d * 2 ^ 54 + 2 ^ 20 < (b + 64) * 5422874305198590 \<and> (b + 34) * 5422874305198590 + 8 * 2 ^ 54 + 2 ^ 20 \<le> d * 2 ^ 54) kCachedPowers"
  by code_simp

lemma scaled_exponent:
  assumes "- 1100 \<le> n" "n \<le> 1100"
  defines "x \<equiv> pval (dbl_mult (n, 0) kD_1_LOG2_10)"
  shows "\<bar>x * 2 ^ 54 - of_int n * 5422874305198590\<bar> < 2 ^ 20"
proof -
  define y :: real where "y = of_int n * 5422874305198590"
  have xy: "pval (n, 0) * pval kD_1_LOG2_10 = y / 2 ^ 54" by (simp add: pval_def kD_1_LOG2_10_def k1Log10_def y_def power_int_def power_one_over)
  have "\<bar>real_of_int n\<bar> \<le> 1100" using assms(1,2) by linarith
  then have "\<bar>y\<bar> \<le> 1100 * 5422874305198590" unfolding y_def abs_mult by (intro mult_mono) simp_all
  moreover have "\<bar>x - y / 2 ^ 54\<bar> \<le> \<bar>y / 2 ^ 54\<bar> / 2 ^ 53" using pval_mult[of "(n, 0)" kD_1_LOG2_10] unfolding xy x_def .
  then have "\<bar>x * 2 ^ 54 - y\<bar> \<le> \<bar>y\<bar> / 2 ^ 53" by (simp add: abs_le_iff field_simps)
  ultimately show ?thesis unfolding y_def[symmetric] by simp
qed

lemma GetCachedPowerForBinaryExponentRange_spec:
  assumes m: "- 1100 \<le> lo" "lo \<le> 1030" "lo + 28 \<le> hi"
  shows "\<exists>s b d. GetCachedPowerForBinaryExponentRange lo hi = Inr (\<lparr>diy_f = s, diy_e = b\<rparr>, d) \<and> lo \<le> b \<and> b \<le> hi \<and> 2 ^ 63 \<le> unat s \<and> near_power s b d"
proof -
  define n where "n = lo + 64 - 1"
  have n: "- 1100 \<le> n" "n \<le> 1100" "lo = n - 63" using m by (auto simp: n_def)
  define x where "x = pval (dbl_mult (n, 0) kD_1_LOG2_10)"
  define k where "k = dbl_ceil (dbl_mult (n, 0) kD_1_LOG2_10)"
  define i where "i = (347 + k) div 8 + 1"
  have x: "x * 2 ^ 54 - of_int n * 5422874305198590 < 2 ^ 20" "of_int n * 5422874305198590 - x * 2 ^ 54 < 2 ^ 20"
    using scaled_exponent[OF n(1,2)] unfolding x_def by linarith+
  have "k = \<lceil>x\<rceil>" by (simp add: k_def dbl_ceil_eq x_def)
  then have k: "x \<le> of_int k" "of_int k < x + 1" by linarith+
  have nr: "- 1037 \<le> real_of_int n" "real_of_int n \<le> 1093" using m by (simp_all add: n_def)
  have "- 340 < real_of_int k" "real_of_int k < 340" using x k nr by simp_all
  then have kb: "- 340 < k" "k < 340" by linarith+
  have i: "0 \<le> i" "i < 87" "k \<le> 8 * i - 348" "8 * i - 348 \<le> k + 7"
    using kb unfolding i_def by presburger+
  obtain s b where e: "cached_power_at i = Inr (s, b, 8 * i - 348)" "near_power s b (8 * i - 348)" "2 ^ 63 \<le> unat s" "(s, b, 8 * i - 348) \<in> set kCachedPowers"
    using table_entry[OF i(1,2)] by blast
  define d where "d = 8 * i - 348"
  have "d * 2 ^ 54 + 2 ^ 20 < (b + 64) * 5422874305198590" "(b + 34) * 5422874305198590 + 8 * 2 ^ 54 + 2 ^ 20 \<le> d * 2 ^ 54"
    using table_slope e(4) unfolding d_def list_all_iff by auto
  then have "real_of_int (d * 2 ^ 54 + 2 ^ 20) < real_of_int ((b + 64) * 5422874305198590)"
      "real_of_int ((b + 34) * 5422874305198590 + 8 * 2 ^ 54 + 2 ^ 20) \<le> real_of_int (d * 2 ^ 54)" by (simp_all only: of_int_less_iff of_int_le_iff)
  then have sl: "real_of_int d * 2 ^ 54 + 2 ^ 20 < (real_of_int b + 64) * 5422874305198590" "(real_of_int b + 34) * 5422874305198590 + 8 * 2 ^ 54 + 2 ^ 20 \<le> real_of_int d * 2 ^ 54"
    by simp_all
  have dk: "real_of_int k \<le> real_of_int d" "real_of_int d \<le> real_of_int k + 7" using i(3,4) by (simp_all add: d_def)
  have xd: "x * 2 ^ 54 \<le> real_of_int d * 2 ^ 54" "real_of_int d * 2 ^ 54 < (x + 8) * 2 ^ 54" using dk k by simp_all
  have "real_of_int n * 5422874305198590 < (real_of_int b + 64) * 5422874305198590" using order.strict_trans[OF _ sl(1)] x(2) xd(1) by simp
  then have lo: "lo \<le> b" using n(3) by simp
  have "(real_of_int b + 34) * 5422874305198590 < real_of_int n * 5422874305198590" using order.strict_trans1[OF sl(2) xd(2)] x(1) by (simp add: distrib_right)
  then have hi: "b \<le> hi" using n(3) m(3) by simp
  have "cdiv (kCachedPowersOffset + k - 1) kDecimalExponentDistance + 1 = i"
    using kb by (simp add: cdiv_def kCachedPowersOffset_def kDecimalExponentDistance_def i_def add.commute)
  then have "GetCachedPowerForBinaryExponentRange lo hi = Inr (\<lparr>diy_f = s, diy_e = b\<rparr>, d)"
    using e(1) i lo hi table_length(1) unfolding GetCachedPowerForBinaryExponentRange_def DiyFp_kSignificandSize_def n_def[symmetric] k_def[symmetric] Let_def
    by (simp add: ASSERT_def d_def)
  then show ?thesis using e lo hi unfolding d_def by blast
qed

text \<open>
  C19. Cached powers of ten: for every decimal exponent the algorithms ask for, \<^verbatim>\<open>GetCachedPowerForDecimalExponent\<close> finds an entry at most 7 below
  it, and for every range of at least 29 binary exponents that starts between -1100 and 1030, \<^verbatim>\<open>GetCachedPowerForBinaryExponentRange\<close> finds an
  entry in the range; no assertion fails, the significand has its top bit set, and it differs from the power of ten by less than half a
  unit.
\<close>

theorem cached_powers_correct:
  "(- 348 \<le> E \<and> E < 348 \<longrightarrow>
     (\<exists>s b d. GetCachedPowerForDecimalExponent E = Inr (\<lparr>diy_f = s, diy_e = b\<rparr>, d) \<and> d \<le> E \<and> E < d + 8
        \<and> 2 ^ 63 \<le> unat s \<and> \<bar>real (unat s) - 10 powi d / 2 powi b\<bar> < 1 / 2))
   \<and> (- 1100 \<le> lo \<and> lo \<le> 1030 \<and> lo + 28 \<le> hi \<longrightarrow>
     (\<exists>s b d. GetCachedPowerForBinaryExponentRange lo hi = Inr (\<lparr>diy_f = s, diy_e = b\<rparr>, d) \<and> lo \<le> b \<and> b \<le> hi
        \<and> 2 ^ 63 \<le> unat s \<and> \<bar>real (unat s) - 10 powi d / 2 powi b\<bar> < 1 / 2))"
  using GetCachedPowerForDecimalExponent_spec[of E] GetCachedPowerForBinaryExponentRange_spec[of lo hi] unfolding near_power_def by blast

theorem cached_powers_correct_witness:
  "(\<exists>s b d. GetCachedPowerForDecimalExponent (- 323) = Inr (\<lparr>diy_f = s, diy_e = b\<rparr>, d) \<and> \<bar>real (unat s) - 10 powi d / 2 powi b\<bar> < 1 / 2)
   \<and> (\<exists>s b d. GetCachedPowerForBinaryExponentRange 0 28 = Inr (\<lparr>diy_f = s, diy_e = b\<rparr>, d) \<and> 0 \<le> b \<and> b \<le> 28)"
proof -
  have "- 348 \<le> (- 323 :: int) \<and> (- 323 :: int) < 348" "- 1100 \<le> (0 :: int) \<and> (0 :: int) \<le> 1030 \<and> 0 + 28 \<le> (28 :: int)" by simp_all
  then show ?thesis using cached_powers_correct[of "- 323" 0 28] by blast
qed

end
