(* ===== verification/Strtod_Guess.thy ===== *)
theory Strtod_Guess
  imports Strtod_Powers Bignum_Strings
begin

text \<open>
  The guesses of \<^verbatim>\<open>strtod.cc\<close>: the digits that are read, the error of the product with a cached power of ten, and when the
  rounded product is the nearest double or the one below it.
\<close>

unbundle bit_operations_syntax

section \<open>Reading digits\<close>

lemma read_uint64_loop_spec:
  assumes "\<forall>c \<in> set v. is_dec c" "i \<le> length v" "unat r = dec_value (take i v)" "unat r \<le> 18446744073709551609"
  shows "\<exists>r' i'. read_uint64_loop v i r = Inr (r', i') \<and> i \<le> i' \<and> i' \<le> length v \<and> unat r' = dec_value (take i' v) \<and> unat r' \<le> 18446744073709551609
    \<and> (i' = length v \<or> 1844674407370955161 \<le> unat r') \<and> (i < i' \<longrightarrow> dec_value (take (i' - 1) v) \<le> 1844674407370955160)"
  using assms(2-4)
proof (induction "length v - i" arbitrary: i r)
  case 0
  then show ?case by (subst read_uint64_loop.simps) auto
next
  case (Suc n)
  have le: "r \<le> kMaxUint64 div 10 - 1 \<longleftrightarrow> unat r \<le> 1844674407370955160" by (simp add: kMaxUint64_def word_le_nat_alt)
  show ?case
  proof (cases "unat r \<le> 1844674407370955160")
    case False
    then show ?thesis using Suc le by (subst read_uint64_loop.simps) auto
  next
    case True
    have i: "i < length v" using Suc by simp
    define c where "c = v ! i"
    have c: "48 \<le> c" "c \<le> 57" using assms(1) i by (auto simp: c_def is_dec_def)
    define r2 where "r2 = 10 * r + word_of_int (int c - 48)"
    have "int c - 48 = int (c - 48)" using c by simp
    then have w: "(word_of_int (int c - 48) :: 64 word) = word_of_nat (c - 48)" by (metis of_int_of_nat_eq)
    have u1: "unat (word_of_nat (c - 48) :: 64 word) = c - 48" by (rule unat_of_small) (use c in simp)
    have u2: "unat (10 * r) = 10 * unat r" using unat_mult_small[of 10 r] True by simp
    have u: "unat r2 = 10 * unat r + (c - 48)" unfolding r2_def w using unat_add_small[of "10 * r" "word_of_nat (c - 48)"] u1 u2 True c by simp
    have "take (Suc i) v = take i v @ [c]" using i by (simp add: c_def take_Suc_conv_app_nth)
    then have v2: "unat r2 = dec_value (take (Suc i) v)" using u Suc.prems(2) by (simp add: dec_value_append) (simp add: dec_value_def horner_def)
    have b2: "unat r2 \<le> 18446744073709551609" using u True c by simp
    have st: "read_uint64_loop v i r = read_uint64_loop v (Suc i) r2"
      using i True le c by (subst read_uint64_loop.simps) (simp add: ASSERT_def r2_def c_def[symmetric])
    obtain r' i' where IH: "read_uint64_loop v (Suc i) r2 = Inr (r', i')" "Suc i \<le> i'" "i' \<le> length v" "unat r' = dec_value (take i' v)" "unat r' \<le> 18446744073709551609"
        "i' = length v \<or> 1844674407370955161 \<le> unat r'" "Suc i < i' \<longrightarrow> dec_value (take (i' - 1) v) \<le> 1844674407370955160"
      using Suc.hyps(1)[OF _ _ v2 b2] Suc.hyps(2) i by fastforce
    have "dec_value (take (i' - 1) v) \<le> 1844674407370955160"
    proof (cases "Suc i < i'")
      case False
      then have "i' - 1 = i" using IH(2) by simp
      then show ?thesis using True Suc.prems(2) by simp
    qed (use IH in simp)
    then show ?thesis using IH st by auto
  qed
qed

text \<open>A number without leading zeros.\<close>

definition trimmed :: "nat list \<Rightarrow> bool" where
  "trimmed v \<longleftrightarrow> v \<noteq> [] \<and> (\<forall>c \<in> set v. is_dec c) \<and> hd v \<noteq> 48"

lemma trimmed_lower:
  assumes "trimmed v" "0 < i" "i \<le> length v"
  shows "10 ^ (i - 1) \<le> dec_value (take i v)"
proof -
  obtain c w where v: "v = c # w" using assms(1) by (cases v) (auto simp: trimmed_def)
  obtain j where j: "i = Suc j" using assms(2) by (cases i) auto
  have "1 \<le> c - 48" using assms(1) by (auto simp: trimmed_def v is_dec_def)
  then have "1 * 10 ^ j \<le> (c - 48) * 10 ^ j" by (rule mult_le_mono1)
  then have "10 ^ j \<le> (c - 48) * 10 ^ j + dec_value (take j w)" by linarith
  moreover have "min (length w) j = j" using assms(3) by (simp add: v j)
  ultimately show ?thesis by (simp add: v j dec_value_def horner_Cons)
qed

lemma ReadUint64_spec:
  assumes "trimmed v"
  shows "\<exists>r i. ReadUint64 v = Inr (r, i) \<and> 0 < i \<and> i \<le> 20 \<and> i \<le> length v \<and> unat r = dec_value (take i v) \<and> unat r \<le> 18446744073709551609
    \<and> (i = length v \<or> 1844674407370955161 \<le> unat r)"
proof -
  have dec: "\<forall>c \<in> set v. is_dec c" "v \<noteq> []" using assms by (auto simp: trimmed_def)
  obtain r i where ri: "read_uint64_loop v 0 0 = Inr (r, i)" "i \<le> length v" "unat r = dec_value (take i v)" "unat r \<le> 18446744073709551609"
      "i = length v \<or> 1844674407370955161 \<le> unat r" "0 < i \<longrightarrow> dec_value (take (i - 1) v) \<le> 1844674407370955160"
    using read_uint64_loop_spec[OF dec(1), of 0 0] by (auto simp: dec_value_def)
  have i0: "0 < i" using ri(3,5) dec(2) by (cases i) (auto simp: dec_value_def)
  have "i \<le> 20"
  proof (rule ccontr)
    assume "\<not> i \<le> 20"
    then have "(10::nat) ^ 19 \<le> 10 ^ (i - 1 - 1)" by (intro power_increasing) auto
    also have "\<dots> \<le> dec_value (take (i - 1) v)" using \<open>\<not> i \<le> 20\<close> ri(2) by (intro trimmed_lower[OF assms]) auto
    finally show False using ri(6) i0 by simp
  qed
  then show ?thesis using ri i0 by (simp add: ReadUint64_def)
qed

text \<open>The digits that are read, rounded half up at the last of them.\<close>

lemma ReadDiyFp_spec:
  assumes v: "trimmed v"
  shows "\<exists>s R. ReadDiyFp v = Inr (\<lparr>diy_f = s, diy_e = 0\<rparr>, int R) \<and> 0 < unat s \<and> R < length v \<and> length v \<le> R + 20
    \<and> (R = 0 \<longrightarrow> unat s = dec_value v) \<and> (0 < R \<longrightarrow> 1844674407370955161 \<le> unat s)
    \<and> real (dec_value v) / 10 ^ R - 1 / 2 < real (unat s) \<and> real (unat s) \<le> real (dec_value v) / 10 ^ R + 1 / 2"
proof -
  obtain r i where ri: "ReadUint64 v = Inr (r, i)" "0 < i" "i \<le> 20" "i \<le> length v" "unat r = dec_value (take i v)" "unat r \<le> 18446744073709551609"
      "i = length v \<or> 1844674407370955161 \<le> unat r" using ReadUint64_spec[OF v] by blast
  have r0: "0 < unat r" using trimmed_lower[OF v ri(2,4)] ri(5) by (metis less_le_trans zero_less_numeral zero_less_power)
  define R where "R = length v - i"
  show ?thesis
  proof (cases "i = length v")
    case True
    then have "unat r = dec_value v" using ri(5) by simp
    then show ?thesis using ri r0 True by (intro exI[of _ r] exI[of _ 0]) (simp add: ReadDiyFp_def)
  next
    case False
    then have il: "i < length v" using ri(4) by simp
    define c where "c = v ! i"
    define w where "w = drop (Suc i) v"
    have c: "48 \<le> c" "c \<le> 57" using v il by (auto simp: c_def is_dec_def trimmed_def)
    have dw: "dec_value w < 10 ^ length w" using v set_drop_subset[of "Suc i" v] by (intro dec_value_less) (auto simp: w_def trimmed_def)
    have "v = take i v @ c # w" using id_take_nth_drop[OF il] by (simp add: c_def w_def)
    then have dv: "dec_value v = unat r * 10 ^ R + ((c - 48) * 10 ^ length w + dec_value w)"
      using ri(5) il by (metis (no_types, lifting) R_def append_take_drop_id Cons_nth_drop_Suc c_def w_def dec_value_append length_drop dec_value_def horner_Cons list.simps(9) length_map)
    have R: "R = Suc (length w)" using il by (simp add: R_def w_def)
    define t where "t = real ((c - 48) * 10 ^ length w + dec_value w) / 10 ^ R"
    have y: "real (dec_value v) / 10 ^ R = real (unat r) + t" by (simp add: dv t_def add_divide_distrib)
    have t: "0 \<le> t" "t < 1" "c \<ge> 53 \<Longrightarrow> 1 / 2 \<le> t" "\<not> c \<ge> 53 \<Longrightarrow> t < 1 / 2"
    proof -
      define P :: real where "P = 10 ^ length w"
      have P: "0 < P" "(10::real) ^ R = 10 * P" by (simp_all add: P_def R)
      have dwr: "real (dec_value w) < P" using dw by (metis P_def of_nat_less_iff of_nat_numeral of_nat_power)
      have tt: "t = (real (c - 48) * P + real (dec_value w)) / (10 * P)" by (simp add: t_def P P_def)
      show "0 \<le> t" unfolding tt using P(1) by (intro divide_nonneg_nonneg add_nonneg_nonneg mult_nonneg_nonneg) simp_all
      have "real (c - 48) \<le> 9" using c by simp
      then have "real (c - 48) * P \<le> 9 * P" using P(1) by (intro mult_right_mono) simp_all
      then have "real (c - 48) * P + real (dec_value w) < 10 * P" using dwr by linarith
      then show "t < 1" using P(1) by (simp add: tt)
      show "1 / 2 \<le> t" if "c \<ge> 53"
      proof -
        have "5 \<le> real (c - 48)" using that by simp
        then have "5 * P \<le> real (c - 48) * P" using P(1) by (intro mult_right_mono) simp_all
        then have "5 * P \<le> real (c - 48) * P + real (dec_value w)" by linarith
        then show ?thesis using P(1) by (simp add: tt le_divide_eq)
      qed
      show "t < 1 / 2" if "\<not> c \<ge> 53"
      proof -
        have "real (c - 48) \<le> 4" using that by simp
        then have "real (c - 48) * P \<le> 4 * P" using P(1) by (intro mult_right_mono) simp_all
        then have "real (c - 48) * P + real (dec_value w) < 5 * P" using dwr by linarith
        then show ?thesis using P(1) by (simp add: tt divide_less_eq)
      qed
    qed
    define s where "s = (if c \<ge> 53 then r + 1 else r)"
    have s: "unat s = (if c \<ge> 53 then unat r + 1 else unat r)" using unat_Suc[of r] ri(6) by (simp add: s_def)
    have "ReadDiyFp v = Inr (\<lparr>diy_f = s, diy_e = 0\<rparr>, int R)"
      using ri(1) False il by (simp add: ReadDiyFp_def c_def[symmetric] s_def R_def Let_def)
    moreover have "real (unat r) + t - 1 / 2 < real (unat s)" "real (unat s) \<le> real (unat r) + t + 1 / 2"
      using t unfolding s by (cases "c \<ge> 53"; simp only: if_True if_False of_nat_add of_nat_1; linarith)+
    moreover have "1844674407370955161 \<le> unat s" using ri(7) False s by simp
    moreover have "R < length v" "length v \<le> R + 20" using ri il by (simp_all add: R_def)
    moreover have "0 < R" "0 < unat s" using R s r0 by simp_all
    ultimately show ?thesis unfolding y[symmetric] by (intro exI[of _ s] exI[of _ R]) blast
  qed
qed

section \<open>The product with a power of ten\<close>

lemma round_div64: "\<bar>real ((a + 2 ^ 63) div 2 ^ 64) - real a / 2 ^ 64\<bar> \<le> 1 / 2"
proof -
  define q where "q = (a + 2 ^ 63) div 2 ^ 64"
  have "q * 2 ^ 64 \<le> a + 2 ^ 63" "a + 2 ^ 63 < q * 2 ^ 64 + 2 ^ 64" unfolding q_def
    using div_mult_mod_eq[of "a + 2 ^ 63" "2 ^ 64"] mod_less_divisor[of "2 ^ 64" "a + 2 ^ 63", OF zero_less_power[OF zero_less_numeral]] by linarith+
  then have "real (q * 2 ^ 64) \<le> real (a + 2 ^ 63)" "real (a + 2 ^ 63) < real (q * 2 ^ 64 + 2 ^ 64)" by (simp_all only: of_nat_le_iff of_nat_less_iff)
  then show ?thesis unfolding q_def[symmetric] by (simp add: abs_le_iff field_simps)
qed

lemma product_error:
  fixes Y P :: real
  assumes "\<bar>real f - Y\<bar> \<le> c" "\<bar>real p - P\<bar> \<le> h" "real p \<le> 2 ^ 64" "0 \<le> Y" "0 \<le> c"
  shows "\<bar>real ((f * p + 2 ^ 63) div 2 ^ 64) - Y * P / 2 ^ 64\<bar> \<le> 1 / 2 + c + Y * \<bar>real p - P\<bar> / 2 ^ 64"
proof -
  have "real (f * p) - Y * P = (real f - Y) * real p + Y * (real p - P)" by (simp add: algebra_simps)
  then have "\<bar>real (f * p) - Y * P\<bar> \<le> \<bar>real f - Y\<bar> * real p + Y * \<bar>real p - P\<bar>"
    using abs_triangle_ineq[of "(real f - Y) * real p" "Y * (real p - P)"] assms(4) by (simp add: abs_mult)
  also have "\<dots> \<le> c * 2 ^ 64 + Y * \<bar>real p - P\<bar>" using assms(1,3,5) by (intro add_right_mono mult_mono) simp_all
  finally have "\<bar>real (f * p) - Y * P\<bar> / 2 ^ 64 \<le> c + Y * \<bar>real p - P\<bar> / 2 ^ 64" by (simp add: divide_le_eq distrib_right)
  moreover have "\<bar>real (f * p) / 2 ^ 64 - Y * P / 2 ^ 64\<bar> = \<bar>real (f * p) - Y * P\<bar> / 2 ^ 64" by (simp flip: diff_divide_distrib)
  moreover have "\<bar>u - w\<bar> \<le> \<bar>u - v\<bar> + \<bar>v - w\<bar>" for u v w :: real by linarith
  note this[of "real ((f * p + 2 ^ 63) div 2 ^ 64)" "Y * P / 2 ^ 64" "real (f * p) / 2 ^ 64"]
  ultimately show ?thesis using round_div64[of "f * p"] by linarith
qed

text \<open>A product of few digits with a small power of ten loses no bits.\<close>

lemma exact_adjustment:
  fixes f p D k j a :: nat
  assumes f: "f = D * 2 ^ k" "2 ^ 63 \<le> f" and p: "p = 10 ^ a * 2 ^ j" "2 ^ 63 \<le> p" and D: "D < 10 ^ (19 - a)" "0 < a" "a \<le> 19"
  shows "real ((f * p + 2 ^ 63) div 2 ^ 64) = real (f * p) / 2 ^ 64"
proof -
  define n where "n = D * 10 ^ a"
  have "n < 10 ^ (19 - a) * 10 ^ a" unfolding n_def using D(1) by simp
  also have "\<dots> = 10 ^ 19" using D(3) by (simp flip: power_add)
  finally have n: "n < 2 ^ 64" by simp
  have fp: "f * p = n * 2 ^ (k + j)" by (simp add: f p n_def power_add)
  have "2 ^ 63 * 2 ^ 63 \<le> f * p" using f(2) p(2) by (rule mult_le_mono)
  then have "(2::nat) ^ 126 \<le> n * 2 ^ (k + j)" unfolding fp by simp
  also have "\<dots> < 2 ^ 64 * 2 ^ (k + j)" using n by (intro mult_strict_right_mono) simp_all
  also have "\<dots> = 2 ^ (64 + (k + j))" by (simp only: power_add)
  finally have "(2::nat) ^ 126 < 2 ^ (64 + (k + j))" .
  then have kj: "126 < 64 + (k + j)" by (rule power_less_imp_less_exp[rotated]) simp
  obtain a' where a': "a = Suc a'" using D(2) by (cases a) auto
  have "f * p = (D * 5 * 10 ^ a') * 2 ^ (k + j + 1)" by (simp add: fp n_def a')
  also have "(2::nat) ^ (k + j + 1) = 2 ^ (k + j + 1 - 64) * 2 ^ 64" using kj by (subst power_add[symmetric]) simp
  finally have "f * p = (D * 5 * 10 ^ a' * 2 ^ (k + j + 1 - 64)) * 2 ^ 64" by (simp only: mult.assoc)
  then obtain m where m: "f * p = m * 2 ^ 64" by blast
  have "(m * 2 ^ 64 + 2 ^ 63) div 2 ^ 64 = m" by simp
  then show ?thesis unfolding m by simp
qed


text \<open>The optional product with \<open>10 ^ 1\<close> to \<open>10 ^ 7\<close>.\<close>

lemma adjust_spec:
  fixes Y :: real
  assumes f1: "2 ^ 63 \<le> unat f1" and err: "unat err \<le> 32" "\<bar>real (unat f1) - Y\<bar> \<le> real (unat err) / 8" and Y: "0 < Y"
    and small: "length buffer \<le> 19 \<Longrightarrow> unat err = 0 \<and> (\<exists>D k. unat f1 = D * 2 ^ k \<and> D < 10 ^ length buffer)"
    and d: "d \<le> E" "E < d + 8"
  shows "\<exists>f2 e2 er2 Y2. diyfp_adjust buffer E d \<lparr>diy_f = f1, diy_e = e1\<rparr> err = Inr (\<lparr>diy_f = f2, diy_e = e2\<rparr>, er2) \<and> 2 ^ 62 \<le> unat f2 \<and> unat er2 \<le> 36
    \<and> \<bar>real (unat f2) - Y2\<bar> \<le> real (unat er2) / 8 \<and> 0 < Y2 \<and> Y2 * 2 powi e2 * 10 powi d = Y * 2 powi e1 * 10 powi E"
proof (cases "d = E")
  case True
  have "2 ^ 62 \<le> unat f1" using f1 by simp
  then show ?thesis using True err Y by (intro exI[of _ f1] exI[of _ e1] exI[of _ err] exI[of _ Y]) (simp add: diyfp_adjust_def)
next
  case False
  define a where "a = nat (E - d)"
  have a: "E - d = int a" "0 < a" "a < 8" using False d by (auto simp: a_def)
  obtain p j where p: "AdjustmentPowerOfTen (E - d) = Inr \<lparr>diy_f = p, diy_e = - int j\<rparr>" "2 ^ 63 \<le> unat p" "unat p = 10 ^ a * 2 ^ j"
    using AdjustmentPowerOfTen_spec[of "E - d"] a by auto
  define in2 where "in2 = DiyFp_Multiply \<lparr>diy_f = f1, diy_e = e1\<rparr> \<lparr>diy_f = p, diy_e = - int j\<rparr>"
  define Y2 where "Y2 = Y * real (unat p) / 2 ^ 64"
  have f2: "unat (diy_f in2) = (unat f1 * unat p + 2 ^ 63) div 2 ^ 64" by (simp add: in2_def DiyFp_Multiply_f)
  have e2: "diy_e in2 = e1 - int j + 64" by (simp add: in2_def DiyFp_Multiply_def Let_def)
  have "2 ^ 63 * 2 ^ 63 \<le> unat f1 * unat p" using f1 p(2) by (rule mult_le_mono)
  then have "(2 ^ 62 * 2 ^ 64) div 2 ^ 64 \<le> (unat f1 * unat p + 2 ^ 63) div 2 ^ 64" by (intro div_le_mono) simp
  then have big: "2 ^ 62 \<le> unat (diy_f in2)" unfolding f2 by simp
  have p64: "real (unat p) \<le> 2 ^ 64" using unat_lt64[of p] by (metis of_nat_le_iff of_nat_numeral of_nat_power less_imp_le)
  have val: "Y2 * 2 powi diy_e in2 * 10 powi d = Y * 2 powi e1 * 10 powi E"
  proof -
    have "(2::real) powi diy_e in2 = 2 powi e1 * 2 ^ 64 / 2 ^ j" unfolding e2 by (simp add: power_int_add power_int_diff)
    moreover have "E = d + int a" using a(1) by simp
    then have "(10::real) powi E = 10 powi d * 10 ^ a" by (simp add: power_int_add)
    ultimately show ?thesis unfolding Y2_def p(3) by simp
  qed
  have "0 < unat p" using p(2) by (cases "unat p") simp_all
  then have Y2: "0 < Y2" using Y unfolding Y2_def by (intro divide_pos_pos mult_pos_pos) (simp_all only: of_nat_0_less_iff zero_less_power zero_less_numeral)
  have bound: "\<bar>real (unat (diy_f in2)) - Y2\<bar> \<le> 1 / 2 + real (unat err) / 8"
    using product_error[OF err(2) _ p64 less_imp_le[OF Y] divide_nonneg_nonneg[OF of_nat_0_le_iff], of "real (unat p)" 0] unfolding f2 Y2_def by simp
  have exact: "\<bar>real (unat (diy_f in2)) - Y2\<bar> \<le> 0" if few: "int a \<le> 19 - int (length buffer)" and "unat err = 0"
  proof -
    obtain D k where D: "unat f1 = D * 2 ^ k" "D < 10 ^ length buffer" using small few by auto
    have "10 ^ length buffer \<le> (10::nat) ^ (19 - a)" using few by (intro power_increasing) simp_all
    then have "D < 10 ^ (19 - a)" using D(2) by linarith
    then have "real (unat (diy_f in2)) = real (unat f1 * unat p) / 2 ^ 64"
      unfolding f2 using a by (intro exact_adjustment[OF D(1) f1 p(3,2)]) simp_all
    moreover have "real (unat f1) = Y" using err(2) that(2) by simp
    ultimately show ?thesis by (simp add: Y2_def)
  qed
  have in2: "in2 = \<lparr>diy_f = diy_f in2, diy_e = diy_e in2\<rparr>" by simp
  show ?thesis
  proof (cases "int a \<le> 19 - int (length buffer)")
    case True
    then have e0: "unat err = 0" using small by simp
    have "diyfp_adjust buffer E d \<lparr>diy_f = f1, diy_e = e1\<rparr> err = Inr (in2, err)" using False True p(1)
      by (simp add: diyfp_adjust_def Let_def strtod_kMaxUint64DecimalDigits_def ASSERT_def DiyFp_kSignificandSize_def a(1) in2_def[symmetric])
    then show ?thesis using big exact[OF True e0] e0 Y2 val in2
      by (intro exI[of _ "diy_f in2"] exI[of _ "diy_e in2"] exI[of _ err] exI[of _ Y2]) simp
  next
    case many: False
    have "diyfp_adjust buffer E d \<lparr>diy_f = f1, diy_e = e1\<rparr> err = Inr (in2, err + kDenominator div 2)" using False many p(1)
      by (simp add: diyfp_adjust_def Let_def strtod_kMaxUint64DecimalDigits_def a(1) in2_def[symmetric])
    moreover have "unat (err + kDenominator div 2) = unat err + 4" using unat_add_small[of err 4] err(1) by (simp add: kDenominator_def)
    ultimately show ?thesis using big bound err(1) Y2 val in2
      by (intro exI[of _ "diy_f in2"] exI[of _ "diy_e in2"] exI[of _ "err + kDenominator div 2"] exI[of _ Y2]) (simp add: add_divide_distrib add.commute)
  qed
qed


lemma diyfp_product_spec:
  fixes Y :: real
  assumes f1: "2 ^ 63 \<le> unat f1" and err: "unat err \<le> 32" "\<bar>real (unat f1) - Y\<bar> \<le> real (unat err) / 8" and Y: "0 < Y"
    and small: "length buffer \<le> 19 \<Longrightarrow> unat err = 0 \<and> (\<exists>D k. unat f1 = D * 2 ^ k \<and> D < 10 ^ length buffer)"
    and E: "- 348 \<le> E" "E < 348" and x: "x = Y * 2 powi e1 * 10 powi E"
  shows "\<exists>f e er. diyfp_product buffer E \<lparr>diy_f = f1, diy_e = e1\<rparr> err = Some (Inr (\<lparr>diy_f = f, diy_e = e\<rparr>, er))
    \<and> 2 ^ 63 \<le> unat f \<and> unat er \<le> 180 \<and> \<bar>real (unat f) - x / 2 powi e\<bar> < real (unat er) / 8"
proof -
  obtain s b d where c: "GetCachedPowerForDecimalExponent E = Inr (\<lparr>diy_f = s, diy_e = b\<rparr>, d)" "d \<le> E" "E < d + 8" "2 ^ 63 \<le> unat s" "near_power s b d"
    using GetCachedPowerForDecimalExponent_spec[OF E] by blast
  obtain f2 e2 er2 Y2 where a: "diyfp_adjust buffer E d \<lparr>diy_f = f1, diy_e = e1\<rparr> err = Inr (\<lparr>diy_f = f2, diy_e = e2\<rparr>, er2)" "2 ^ 62 \<le> unat f2" "unat er2 \<le> 36"
      "\<bar>real (unat f2) - Y2\<bar> \<le> real (unat er2) / 8" "0 < Y2" "Y2 * 2 powi e2 * 10 powi d = Y * 2 powi e1 * 10 powi E"
    using adjust_spec[OF f1 err Y small c(2,3)] by blast
  define P :: real where "P = 10 powi d / 2 powi b"
  define in3 where "in3 = DiyFp_Multiply \<lparr>diy_f = f2, diy_e = e2\<rparr> \<lparr>diy_f = s, diy_e = b\<rparr>"
  define er3 where "er3 = er2 + (kDenominator div 2 + (if er2 = 0 then 0 else 1) + kDenominator div 2)"
  define c2 where "c2 = unat er2"
  have c36: "c2 \<le> 36" using a(3) by (simp add: c2_def)
  have er3: "unat er3 = c2 + 8 + (if c2 = 0 then 0 else 1)"
    using unat_add_small[of er2 8] unat_add_small[of er2 9] a(3) by (auto simp: er3_def c2_def kDenominator_def unat_eq_zero)
  have f3: "unat (diy_f in3) = (unat f2 * unat s + 2 ^ 63) div 2 ^ 64" by (simp add: in3_def DiyFp_Multiply_f)
  have e3: "diy_e in3 = e2 + b + 64" by (simp add: in3_def DiyFp_Multiply_def Let_def)
  have "2 ^ 62 * 2 ^ 63 \<le> unat f2 * unat s" using a(2) c(4) by (rule mult_le_mono)
  then have "(2 ^ 61 * 2 ^ 64) div 2 ^ 64 \<le> (unat f2 * unat s + 2 ^ 63) div 2 ^ 64" by (intro div_le_mono) simp
  then have big: "2 ^ 61 \<le> unat (diy_f in3)" unfolding f3 by simp
  have w64: "real (unat w) < 2 ^ 64" for w :: "64 word" using unat_lt64[of w] by (metis of_nat_less_iff of_nat_numeral of_nat_power)
  have xe: "x / 2 powi diy_e in3 = Y2 * P / 2 ^ 64" unfolding x a(6)[symmetric] e3 P_def by (simp add: power_int_add)
  define D where "D = \<bar>real (unat s) - P\<bar>"
  have D: "D < 1 / 2" "0 \<le> D" using c(5) by (simp_all add: D_def P_def near_power_def)
  have pe: "\<bar>real (unat (diy_f in3)) - x / 2 powi diy_e in3\<bar> \<le> 1 / 2 + real c2 / 8 + Y2 * D / 2 ^ 64"
    unfolding f3 xe D_def using product_error[OF a(4) _ less_imp_le[OF w64], of s P D] D a(5) by (simp only: c2_def D_def)
  have Y2: "Y2 \<le> 2 ^ 64 + real c2 / 8" using a(4) w64[of f2] unfolding c2_def by linarith
  have "Y2 * D < Y2 * (1 / 2)" using D(1) a(5) by (rule mult_strict_left_mono)
  also have "\<dots> \<le> 2 ^ 63 + real c2 / 16" using Y2 by simp
  finally have "Y2 * D / 2 ^ 64 < (2 ^ 63 + real c2 / 16) / 2 ^ 64" by (intro divide_strict_right_mono) simp_all
  also have "\<dots> \<le> 1 / 2 + (if c2 = 0 then 0 else 1 / 8)" using c36 by (cases "c2 = 0") (simp_all add: field_simps)
  finally have s3: "\<bar>real (unat (diy_f in3)) - x / 2 powi diy_e in3\<bar> < real (unat er3) / 8" using pe unfolding er3 by (simp split: if_splits)
  have "diy_f in3 \<noteq> 0" using big by auto
  then obtain k g where g: "DiyFp_Normalize in3 = Some (Inr \<lparr>diy_f = g, diy_e = diy_e in3 - int k\<rparr>)" "unat g = unat (diy_f in3) * 2 ^ k" "2 ^ 63 \<le> unat g"
    using DiyFp_Normalize_spec by blast
  have "2 ^ 61 * 2 ^ k \<le> unat g" unfolding g(2) using big by (rule mult_le_mono1)
  then have "(2::nat) ^ (61 + k) < 2 ^ 64" using unat_lt64[of g] unfolding power_add by linarith
  then have k: "k \<le> 2" using power_less_imp_less_exp[of "2::nat" "61 + k" 64] by simp
  have "(2::nat) ^ k \<le> 2 ^ 2" by (rule power_increasing[OF k]) simp
  then have "unat er3 * 2 ^ k \<le> 45 * 4" using er3 a(3) unfolding c2_def by (intro mult_le_mono) auto
  moreover from this have er: "unat (push_bit k er3) = unat er3 * 2 ^ k" by (intro unat_shift) simp
  ultimately have e180: "unat (push_bit k er3) \<le> 180" by simp
  have "\<bar>real (unat g) - x / 2 powi (diy_e in3 - int k)\<bar> < real (unat (push_bit k er3)) / 8"
  proof -
    have "x / 2 powi (diy_e in3 - int k) = x / 2 powi diy_e in3 * 2 ^ k" by (simp add: power_int_diff)
    then have "real (unat g) - x / 2 powi (diy_e in3 - int k) = (real (unat (diy_f in3)) - x / 2 powi diy_e in3) * 2 ^ k"
      unfolding g(2) by (simp only: of_nat_mult of_nat_power of_nat_numeral left_diff_distrib)
    moreover have "\<bar>real (unat (diy_f in3)) - x / 2 powi diy_e in3\<bar> * 2 ^ k < real (unat er3) / 8 * 2 ^ k" using s3 by (intro mult_strict_right_mono) simp_all
    ultimately show ?thesis unfolding er by (simp only: abs_mult power_abs abs_numeral of_nat_mult of_nat_power of_nat_numeral times_divide_eq_left)
  qed
  moreover have "diyfp_product buffer E \<lparr>diy_f = f1, diy_e = e1\<rparr> err = Some (Inr (\<lparr>diy_f = g, diy_e = diy_e in3 - int k\<rparr>, push_bit k er3))"
    using c(1) a(1) g(1) unfolding diyfp_product_def by (simp add: in3_def[symmetric] er3_def Let_def)
  ultimately show ?thesis using g(3) e180 by blast
qed

section \<open>Rounding the product\<close>

text \<open>The boundary above a double, and what a guess needs for the comparison with it to give the nearest double.\<close>

definition upper_bound :: "64 word \<Rightarrow> real" where
  "upper_bound g = (real (sgnf g) + 1 / 2) * 2 powi Double_Exponent g"

definition good_guess :: "real \<Rightarrow> 64 word \<Rightarrow> bool" where
  "good_guess x g \<longleftrightarrow> unat g < 2047 * 2 ^ 52 \<and> real (sgnf g) * 2 powi Double_Exponent g \<le> x \<and> (x < upper_bound g \<longrightarrow> rounds_to x g) \<and> (upper_bound g < x \<longrightarrow> rounds_to x (g + 1))
     \<and> (x = upper_bound g \<longrightarrow> rounds_to x (if even (unat g) then g else g + 1))"

lemma round_zero: "0 \<le> x \<Longrightarrow> x \<le> 2 powi - 1075 \<Longrightarrow> rounds_to x 0"
proof -
  assume x: "0 \<le> x" "x \<le> 2 powi - 1075"
  have "x * 2 ^ 1074 \<le> 2 powi - 1075 * 2 ^ 1074" using x(2) by (intro mult_right_mono) simp_all
  also have "\<dots> = 1 / 2" by (simp add: power_int_def power_one_over)
  finally have "rounds_to (x * 2 ^ 1074 * 2 powi - 1074) (word_of_nat (pat (- 1074) 0))" using x(1) by (intro round_at) auto
  moreover have "x * 2 ^ 1074 * 2 powi - 1074 = x" by (simp add: power_int_def power_one_over)
  ultimately show ?thesis by (simp add: pat_def)
qed

text \<open>The last bits of a significand with its error, against the half.\<close>

lemma cut_cases:
  fixes f p er :: nat and y z :: real
  assumes p: "11 \<le> p" and er: "er \<le> 180" and y: "\<bar>real f - y\<bar> < real er / 8"
  defines "N \<equiv> f div 2 ^ p" and "r \<equiv> f mod 2 ^ p" and "z \<equiv> y / 2 ^ p"
  shows "8 * 2 ^ (p - 1) + er \<le> 8 * r \<Longrightarrow> real N + 1 / 2 < z \<and> z < real N + 5 / 4"
    "8 * r + er \<le> 8 * 2 ^ (p - 1) \<Longrightarrow> real N - 1 / 4 < z \<and> z < real N + 1 / 2"
    "\<not> 8 * 2 ^ (p - 1) + er \<le> 8 * r \<Longrightarrow> \<not> 8 * r + er \<le> 8 * 2 ^ (p - 1) \<Longrightarrow> real N + 1 / 4 < z \<and> z < real N + 3 / 4"
proof -
  define P :: nat where "P = 2 ^ (p - 1)"
  have "p = Suc (p - 1)" using p by simp
  then have P2: "(2::nat) ^ p = 2 * P" unfolding P_def by (metis power_Suc)
  have "(2::nat) ^ 10 \<le> P" unfolding P_def using p by (intro power_increasing) simp_all
  then have P: "1024 \<le> P" by simp
  then have P0: "0 < 2 * real P" by simp
  have f: "real f = real N * (2 * real P) + real r"
  proof -
    have "f = N * 2 ^ p + r" unfolding N_def r_def by (rule div_mult_mod_eq[symmetric])
    then have "real f = real (N * (2 * P) + r)" unfolding P2 by simp
    then show ?thesis by simp
  qed
  have r: "r < 2 * P" unfolding r_def P2[symmetric] by simp
  have z: "z = y / (2 * real P)" unfolding z_def using P2 by (metis of_nat_mult of_nat_numeral of_nat_power)
  have scale: "a < z \<longleftrightarrow> a * (2 * real P) < y" "z < a \<longleftrightarrow> y < a * (2 * real P)" for a unfolding z using P0 by (simp_all add: less_divide_eq divide_less_eq)
  have dist: "(real N + a) * (2 * real P) = real N * (2 * real P) + 2 * a * real P" for a by (simp add: algebra_simps)
  note d = dist[of "1 / 2"] dist[of "5 / 4"] dist[of "- 1 / 4"] dist[of "1 / 4"] dist[of "3 / 4"]
  define K where "K = real N * (2 * real P)"
  have y': "8 * (K + real r - y) < real er \<and> 8 * (y - (K + real r)) < real er" using y unfolding f K_def[symmetric] abs_less_iff by auto
  have er': "real er \<le> 180" and P': "1024 \<le> real P" and r': "real r < 2 * real P" "0 \<le> real r" using er P r by simp_all
  { assume "8 * 2 ^ (p - 1) + er \<le> 8 * r"
    then have "real (8 * P + er) \<le> real (8 * r)" unfolding P_def of_nat_le_iff .
    then show "real N + 1 / 2 < z \<and> z < real N + 5 / 4" unfolding scale d of_nat_add of_nat_mult of_nat_numeral K_def[symmetric] using y' er' P' r' by simp }
  { assume "8 * r + er \<le> 8 * 2 ^ (p - 1)"
    then have "real (8 * r + er) \<le> real (8 * P)" unfolding P_def of_nat_le_iff .
    then show "real N - 1 / 4 < z \<and> z < real N + 1 / 2" unfolding scale using d y' er' P' r' unfolding K_def[symmetric] by simp }
  { assume "\<not> 8 * 2 ^ (p - 1) + er \<le> 8 * r" "\<not> 8 * r + er \<le> 8 * 2 ^ (p - 1)"
    then have "\<not> real (8 * P + er) \<le> real (8 * r)" "\<not> real (8 * r + er) \<le> real (8 * P)" unfolding P_def of_nat_le_iff .
    then show "real N + 1 / 4 < z \<and> z < real N + 3 / 4" unfolding scale using d y' er' P' r' unfolding K_def[symmetric] by simp }
qed

text \<open>The bits to drop, and the shift that leaves room for the error.\<close>

definition dropped_bits :: "int \<Rightarrow> nat" where
  "dropped_bits e = nat (64 - SignificandSizeForOrderOfMagnitude (64 + e))"

lemma dropped_bits_cases:
  "11 \<le> dropped_bits e" "dropped_bits e \<le> 64" "int (dropped_bits e) = 64 - SignificandSizeForOrderOfMagnitude (64 + e)"
  "dropped_bits e = 11 \<and> - 1074 \<le> e + 11 \<or> e + int (dropped_bits e) = - 1074 \<or> dropped_bits e = 64 \<and> 64 + e < - 1074"
  unfolding dropped_bits_def SignificandSizeForOrderOfMagnitude_def kConstants by auto

definition leave_room :: "int \<Rightarrow> DiyFp \<Rightarrow> 64 word \<Rightarrow> DiyFp \<times> 64 word \<times> int" where
  "leave_room pdc input error =
     (if pdc + kDenominatorLog \<ge> DiyFp_kSignificandSize
      then let shift_amount = pdc + kDenominatorLog - DiyFp_kSignificandSize + 1
           in (\<lparr>diy_f = drop_bit (nat shift_amount) (diy_f input), diy_e = diy_e input + shift_amount\<rparr>,
               drop_bit (nat shift_amount) error + 1 + kDenominator, pdc - shift_amount)
      else (input, error, pdc))"

lemma abs_error_cut:
  fixes a b c n t :: real
  assumes "a - 1 < n" "n \<le> a" "c - 1 < b" "b \<le> c" "a - t < c / 8" "t - a < c / 8"
  shows "\<bar>n - t\<bar> < (b + 9) / 8"
  using assms unfolding abs_less_iff by auto

lemma leave_room_spec:
  assumes p: "11 \<le> p" "p \<le> 64" and er: "unat er \<le> 180" and y: "\<bar>real (unat f) - x / 2 powi e\<bar> < real (unat er) / 8"
  shows "\<exists>f' e' er' p'. leave_room (int p) \<lparr>diy_f = f, diy_e = e\<rparr> er = (\<lparr>diy_f = f', diy_e = e'\<rparr>, er', int p') \<and> 11 \<le> p' \<and> p' \<le> 60 \<and> unat er' \<le> 180
    \<and> \<bar>real (unat f') - x / 2 powi e'\<bar> < real (unat er') / 8 \<and> e' + int p' = e + int p \<and> unat f' div 2 ^ p' = unat f div 2 ^ p"
proof (cases "p \<le> 60")
  case True
  then show ?thesis using assms by (intro exI[of _ f] exI[of _ e] exI[of _ er] exI[of _ p]) (simp add: leave_room_def kDenominatorLog_def DiyFp_kSignificandSize_def)
next
  case False
  define h where "h = p - 60"
  have h: "p = 60 + h" "0 < h" using False by (simp_all add: h_def)
  define f' er' where "f' = drop_bit h f" and "er' = drop_bit h er + 1 + kDenominator"
  have uf: "unat f' = unat f div 2 ^ h" by (simp add: f'_def unat_drop)
  have "unat er div 2 ^ h \<le> unat er div 2 ^ 1" using h(2) by (intro div_le_mono2 power_increasing) simp_all
  then have small: "unat er div 2 ^ h \<le> 90" using er by simp
  have "unat (drop_bit h er + 9) = unat er div 2 ^ h + 9" using unat_add_small[of "drop_bit h er" 9] small by (simp add: unat_drop)
  moreover have "er' = drop_bit h er + 9" by (simp add: er'_def kDenominator_def)
  ultimately have uer: "unat er' = unat er div 2 ^ h + 9" by (simp only:)
  define P :: real where "P = 2 ^ h"
  have P: "0 < P" "x / 2 powi (e + int h) = x / 2 powi e / P" by (simp_all add: P_def power_int_add)
  have cut: "real n / P - 1 < real (n div 2 ^ h)" "real (n div 2 ^ h) \<le> real n / P" for n :: nat
  proof -
    have "real n = real (n div 2 ^ h * 2 ^ h + n mod 2 ^ h)" by (simp only: div_mult_mod_eq)
    then have n: "real n = real (n div 2 ^ h) * P + real (n mod 2 ^ h)" by (simp add: P_def)
    have "real (n mod 2 ^ h) < real (2 ^ h)" by (simp only: of_nat_less_iff) simp
    then have "real n < (real (n div 2 ^ h) + 1) * P" "real (n div 2 ^ h) * P \<le> real n" unfolding n P_def by (simp_all add: distrib_right)
    then have "real n / P < real (n div 2 ^ h) + 1" "real (n div 2 ^ h) \<le> real n / P" using P(1) by (simp_all add: divide_less_eq le_divide_eq)
    then show "real n / P - 1 < real (n div 2 ^ h)" "real (n div 2 ^ h) \<le> real n / P" by linarith+
  qed
  have y': "real (unat f) / P - x / 2 powi e / P < real (unat er) / P / 8" "x / 2 powi e / P - real (unat f) / P < real (unat er) / P / 8"
    using divide_strict_right_mono[of "real (unat f) - x / 2 powi e" "real (unat er) / 8" P] divide_strict_right_mono[of "x / 2 powi e - real (unat f)" "real (unat er) / 8" P] y P(1)
    unfolding diff_divide_distrib by (simp_all only: abs_less_iff minus_diff_eq divide_divide_eq_left mult.commute[of 8])
  have "\<bar>real (unat f div 2 ^ h) - x / 2 powi e / P\<bar> < (real (unat er div 2 ^ h) + 9) / 8"
    using abs_error_cut cut[of "unat f"] cut[of "unat er"] y' by metis
  then have "\<bar>real (unat f') - x / 2 powi (e + int h)\<bar> < real (unat er') / 8" unfolding P(2) uf uer by simp
  moreover have "unat f' div 2 ^ 60 = unat f div 2 ^ p" unfolding uf h(1) by (simp only: div_mult2_eq power_add mult.commute)
  moreover have "int p + 3 - 64 + 1 = int h" using h by simp
  then have "leave_room (int p) \<lparr>diy_f = f, diy_e = e\<rparr> er = (\<lparr>diy_f = f', diy_e = e + int h\<rparr>, er', int 60)"
    using False h by (simp add: leave_room_def kDenominatorLog_def DiyFp_kSignificandSize_def Let_def f'_def er'_def)
  ultimately show ?thesis using small uer h by (intro exI[of _ f'] exI[of _ "e + int h"] exI[of _ er'] exI[of _ 60]) simp
qed

text \<open>The words of the last part.\<close>

lemma round_words:
  fixes f er :: "64 word"
  assumes p: "11 \<le> p" "p \<le> 60" and er: "unat er \<le> 180"
  defines "r \<equiv> unat f mod 2 ^ p"
  defines "bits \<equiv> (f AND (push_bit p 1 - 1)) * kDenominator" and "half \<equiv> push_bit (p - 1) 1 * kDenominator"
  shows "half + er \<le> bits \<longleftrightarrow> 8 * 2 ^ (p - 1) + unat er \<le> 8 * r" "half - er < bits \<longleftrightarrow> \<not> 8 * r + unat er \<le> 8 * 2 ^ (p - 1)"
    "bits < half + er \<longleftrightarrow> \<not> 8 * 2 ^ (p - 1) + unat er \<le> 8 * r"
proof -
  define P :: nat where "P = 2 ^ (p - 1)"
  have "p = Suc (p - 1)" using p by simp
  then have P2: "(2::nat) ^ p = 2 * P" unfolding P_def by (metis power_Suc)
  have "(2::nat) ^ 10 \<le> P" "P \<le> 2 ^ 59" unfolding P_def using p by (intro power_increasing; simp)+
  then have P: "1024 \<le> P" "P \<le> 576460752303423488" by simp_all
  have r: "r < 2 * P" unfolding r_def P2[symmetric] by simp
  have "unat (f AND (push_bit p 1 - 1)) = r" unfolding r_def using unat_low[of f p] by (simp add: mask_eq_exp_minus_1 push_bit_eq_mult)
  then have b: "unat bits = 8 * r" unfolding bits_def using unat_mult_small[of "f AND (push_bit p 1 - 1)" kDenominator] r P by (simp add: kDenominator_def)
  have "unat (push_bit (p - 1) 1 :: 64 word) = P" unfolding P_def using unat_shift[of "1 :: 64 word" "p - 1"] P(2) by (simp add: P_def)
  then have h: "unat half = 8 * P" unfolding half_def using unat_mult_small[of "push_bit (p - 1) 1" kDenominator] P by (simp add: kDenominator_def)
  have a: "unat (half + er) = 8 * P + unat er" using unat_add_small[of half er] h P er by simp
  have "er \<le> half" using h P er by (simp add: word_le_nat_alt)
  then have s: "unat (half - er) = 8 * P - unat er" using h by (simp add: unat_sub)
  show "half + er \<le> bits \<longleftrightarrow> 8 * 2 ^ (p - 1) + unat er \<le> 8 * r" "half - er < bits \<longleftrightarrow> \<not> 8 * r + unat er \<le> 8 * 2 ^ (p - 1)"
    "bits < half + er \<longleftrightarrow> \<not> 8 * 2 ^ (p - 1) + unat er \<le> 8 * r"
    unfolding word_le_nat_alt word_less_nat_alt a b s P_def[symmetric] using P er by auto
qed

lemma diyfp_round_alt:
  "diyfp_round \<lparr>diy_f = f, diy_e = e\<rparr> er =
     (let (input, error, pdc) = leave_room (int (dropped_bits e)) \<lparr>diy_f = f, diy_e = e\<rparr> er
      in bindE (ASSERT (pdc < 64)) (\<lambda>_.
         let bits = (diy_f input AND (push_bit (nat pdc) 1 - 1)) * kDenominator;
             half = push_bit (nat (pdc - 1)) 1 * kDenominator;
             g = drop_bit (nat pdc) (diy_f input);
             result = DiyFpToUint64 \<lparr>diy_f = if half + error \<le> bits then g + 1 else g, diy_e = diy_e input + pdc\<rparr>
         in Inr (\<not> (half - error < bits \<and> bits < half + error), result)))"
  unfolding diyfp_round_def leave_room_def dropped_bits_cases(3) Let_def by (simp add: DiyFp_kSignificandSize_def ASSERT_def Let_def)

text \<open>What the three cases give: the significand below, the one above, or a guess to compare with the boundary.\<close>

lemma beyond_range:
  assumes "971 < q" "2 ^ 52 \<le> N" "real N - 1 / 4 < z"
  shows "rounds_to (z * 2 powi q) Double_kInfinity"
proof (rule round_infinite)
  have "real (2 ^ 52) \<le> real N" using assms(2) by (simp only: of_nat_le_iff)
  then have z: "2 ^ 52 - 1 / 4 \<le> z" using assms(3) by simp
  have "(2 ^ 53 - 1 / 2) * (2::real) powi 971 = (2 ^ 52 - 1 / 4) * 2 powi 972" by simp
  also have "\<dots> \<le> z * 2 powi q" using z assms(1) by (intro mult_mono power_int_increasing) simp_all
  finally show "(2 ^ 53 - 1 / 2) * 2 powi 971 \<le> z * 2 powi q" .
qed

lemma round_below:
  assumes q: "- 1074 \<le> q" "q \<le> 971" and N: "N < 2 ^ 53" "- 1074 < q \<Longrightarrow> 2 ^ 52 \<le> N" and z: "real N - 1 / 4 < z" "z < real N + 1 / 2 \<or> z = real N + 1 / 2 \<and> even N"
  shows "rounds_to (z * 2 powi q) (word_of_nat (pat q N))"
  using N(1) z by (intro round_at[OF q _ N(2)]) auto

lemma round_above:
  assumes q: "- 1074 \<le> q" "q \<le> 971" and N: "N < 2 ^ 53" "- 1074 < q \<Longrightarrow> 2 ^ 52 \<le> N" and z: "real N + 1 / 2 < z \<or> z = real N + 1 / 2 \<and> odd N" "z < real N + 5 / 4"
  shows "rounds_to (z * 2 powi q) (word_of_nat (pat q (N + 1)))"
proof (rule round_at[OF q])
  show "N + 1 \<le> 2 ^ 53" using N(1) by simp
  show "2 ^ 52 \<le> N + 1" if "- 1074 < q" using N(2)[OF that] by simp
  show "real (N + 1) - 1 / 4 < z" if "- 1074 < q" "N + 1 = 2 ^ 52" using N(2)[OF that(1)] that(2) by simp
qed (use z in auto)

lemma round_middle:
  assumes q: "- 1074 \<le> q" "q \<le> 971" and N: "N < 2 ^ 53" "- 1074 < q \<Longrightarrow> 2 ^ 52 \<le> N" and z: "real N + 1 / 4 < z" "z < real N + 3 / 4"
  shows "good_guess (z * 2 powi q) (word_of_nat (pat q N))"
proof -
  let ?d = "word_of_nat (pat q N) :: 64 word"
  have ok: "pat_ok q N" using q N by (simp add: pat_ok_def)
  note f = pat_fields[OF ok]
  have ub: "upper_bound ?d = (real N + 1 / 2) * 2 powi q" unfolding upper_bound_def f(3,4) ..
  have succ: "?d + 1 = word_of_nat (pat q (N + 1))" by (simp add: pat_def add.commute)
  have cmp: "z * 2 powi q < upper_bound ?d \<longleftrightarrow> z < real N + 1 / 2" "upper_bound ?d < z * 2 powi q \<longleftrightarrow> real N + 1 / 2 < z" "z * 2 powi q = upper_bound ?d \<longleftrightarrow> z = real N + 1 / 2"
    unfolding ub by simp_all
  have "real N * 2 powi q \<le> z * 2 powi q" using z(1) by (intro mult_right_mono) simp_all
  then show ?thesis unfolding good_guess_def cmp succ f(1,3,4) pat_even
    using round_below[OF q N, of z] round_above[OF q N, of z] z pat_top[OF ok q(2)] by auto
qed

lemma diyfp_round_spec:
  assumes f: "2 ^ 63 \<le> unat f" and er: "unat er \<le> 180" and y: "\<bar>real (unat f) - x / 2 powi e\<bar> < real (unat er) / 8"
    and tiny: "64 + e < - 1074 \<Longrightarrow> x \<le> 2 powi - 1075" and x: "0 < x"
  shows "\<exists>ok g. diyfp_round \<lparr>diy_f = f, diy_e = e\<rparr> er = Inr (ok, g) \<and> (if ok \<or> g = Double_kInfinity then rounds_to x g else good_guess x g)"
proof -
  define n where "n = dropped_bits e"
  define q where "q = e + int n"
  define N where "N = unat f div 2 ^ n"
  obtain f' e' er' p where l: "leave_room (int n) \<lparr>diy_f = f, diy_e = e\<rparr> er = (\<lparr>diy_f = f', diy_e = e'\<rparr>, er', int p)" "11 \<le> p" "p \<le> 60" "unat er' \<le> 180"
      "\<bar>real (unat f') - x / 2 powi e'\<bar> < real (unat er') / 8" "e' + int p = q" "unat f' div 2 ^ p = N"
    using leave_room_spec[OF _ _ er y, of n] dropped_bits_cases(1,2)[of e] unfolding n_def q_def N_def by blast
  define r where "r = unat f' mod 2 ^ p"
  define z where "z = x / 2 powi e' / 2 ^ p"
  have x': "x = z * 2 powi q" unfolding z_def l(6)[symmetric] by (simp add: power_int_add)
  define up mid where "up \<longleftrightarrow> 8 * 2 ^ (p - 1) + unat er' \<le> 8 * r" and "mid \<longleftrightarrow> \<not> 8 * r + unat er' \<le> 8 * 2 ^ (p - 1) \<and> \<not> up"
  note cc = cut_cases[OF l(2,4,5), unfolded l(7), folded r_def z_def]
  have g: "drop_bit p f' = word_of_nat N" 
  proof -
    have "word_of_nat (unat (drop_bit p f')) = drop_bit p f'" by simp
    then show ?thesis unfolding unat_drop l(7) by simp
  qed
  have n: "11 \<le> n" "n \<le> 64" using dropped_bits_cases(1,2)[of e] by (simp_all add: n_def)
  have "N \<le> unat f div 2 ^ 11" unfolding N_def using n by (intro div_le_mono2 power_increasing) simp_all
  also have "\<dots> < 2 ^ 53" using unat_lt64[of f] by (simp add: div_less_iff_less_mult)
  finally have N: "N < 2 ^ 53" .
  have run: "diyfp_round \<lparr>diy_f = f, diy_e = e\<rparr> er = Inr (\<not> mid, DiyFpToUint64 \<lparr>diy_f = word_of_nat (if up then N + 1 else N), diy_e = q\<rparr>)"
  proof -
    have "nat (int p - 1) = p - 1" using l(2) by simp
    then show ?thesis unfolding diyfp_round_alt n_def[symmetric] l(1) using l(2,3,6) round_words[OF l(2-4), of f']
      by (simp add: Let_def ASSERT_def g up_def mid_def r_def add.commute)
  qed
  have u: "unat (word_of_nat (if up then N + 1 else N) :: 64 word) = (if up then N + 1 else N)" by (rule unat_of_small) (use N in simp)
  consider "64 + e < - 1074" "n = 64" "q < - 1074" | "- 1074 \<le> q" "- 1074 < q \<Longrightarrow> n = 11"
    using dropped_bits_cases(4)[of e] unfolding q_def n_def by linarith
  then show ?thesis
  proof cases
    case 1
    have "N = 0" unfolding N_def 1 using unat_lt64[of f] by simp
    then have g0: "DiyFpToUint64 \<lparr>diy_f = word_of_nat (if up then N + 1 else N), diy_e = q\<rparr> = 0" using u 1(3) by (intro DiyFpToUint64_tiny) auto
    have le: "x \<le> 2 powi - 1075" by (rule tiny[OF 1(1)])
    have r0: "rounds_to x 0" using x le by (intro round_zero) simp_all
    have "pat_ok (- 1074) 0" by (simp add: pat_ok_def)
    from pat_fields(3,4)[OF this] have zero: "sgnf 0 = 0" "Double_Exponent 0 = - 1074" by (simp_all add: pat_def)
    then have "upper_bound 0 = 1 / 2 * 2 powi - 1074" unfolding upper_bound_def by simp
    also have "\<dots> = 2 powi - 1075" by (simp add: power_int_def power_one_over)
    finally have "good_guess x 0" using r0 le x zero by (auto simp: good_guess_def)
    then show ?thesis using r0 run g0 by auto
  next
    case 2
    have N52: "2 ^ 52 \<le> N" if "- 1074 < q"
    proof -
      have "2 ^ 63 div 2 ^ 11 \<le> N" unfolding N_def 2(2)[OF that] using f by (rule div_le_mono)
      then show ?thesis by simp
    qed
    have bounds: "(if up then N + 1 else N) \<le> 2 ^ 53" "- 1074 < q \<Longrightarrow> 2 ^ 52 \<le> (if up then N + 1 else N)" using N N52 by auto
    have res: "DiyFpToUint64 \<lparr>diy_f = word_of_nat (if up then N + 1 else N), diy_e = q\<rparr>
        = (if q \<le> 971 then word_of_nat (pat q (if up then N + 1 else N)) else Double_kInfinity)"
      using DiyFpToUint64_pat[OF 2(1), of "word_of_nat (if up then N + 1 else N)"] bounds unfolding u by blast
    have near: "real N - 1 / 4 < z" using cc unfolding up_def[symmetric] mid_def by linarith
    show ?thesis
    proof (cases "q \<le> 971")
      case False
      then have "rounds_to x Double_kInfinity" unfolding x' using N52 near by (intro beyond_range) simp_all
      then show ?thesis using run res False by auto
    next
      case True
      note ra = round_above[OF 2(1) True N N52, of z] and rb = round_below[OF 2(1) True N N52, of z] and rm = round_middle[OF 2(1) True N N52, of z]
      have "if \<not> mid then rounds_to x (word_of_nat (pat q (if up then N + 1 else N))) else good_guess x (word_of_nat (pat q N))"
        using ra rb rm cc unfolding up_def[symmetric] x' by (auto simp: mid_def)
      moreover have "word_of_nat (pat q N) \<noteq> Double_kInfinity"
      proof -
        have ok: "pat_ok q N" using 2(1) True N N52 by (simp add: pat_ok_def)
        have "unat (word_of_nat (pat q N) :: 64 word) < 2047 * 2 ^ 52" unfolding pat_fields(1)[OF ok] by (rule pat_top[OF ok True])
        moreover have "unat Double_kInfinity = 2047 * 2 ^ 52" by (simp add: Double_kInfinity_def)
        ultimately show ?thesis by auto
      qed
      ultimately show ?thesis using run res True by (auto simp: mid_def split: if_splits)
    qed
  qed
qed

end
