(* ===== verification/Strtod_Diy.thy ===== *)
theory Strtod_Diy
  imports Strtod_Guess
begin

text \<open>
  \<^verbatim>\<open>DiyFpStrtod\<close> of \<^verbatim>\<open>strtod.cc\<close>: its result is the nearest double, or a guess that the comparison with the boundary above it decides.
\<close>

unbundle bit_operations_syntax

section \<open>The least half\<close>

text \<open>Just above \<open>2 ^ -1075\<close>, half the least positive double, the product must not fall below \<open>2 ^ -1075\<close>.\<close>

lemma tiny_bounds:
  "(2470328229206232720 + 7 / 8 :: real) < 10 ^ 342 / 2 ^ 1075" "10 ^ 342 / 2 ^ 1075 * (1 + 1 / 2 ^ 59) < (2470328229206232725 + 1 / 4 :: real)"
  by (simp_all add: field_simps)

lemma tiny_product:
  assumes f1: "unat f1 = 4 * s" "2470328229206232721 \<le> s"
    and prod: "diyfp_product buffer (- 342) \<lparr>diy_f = f1, diy_e = - 2\<rparr> err = Some (Inr (\<lparr>diy_f = f, diy_e = e\<rparr>, er))"
  shows "e = - 1138"
proof -
  define c p :: "64 word" where "c = 0xFA8FD5A0081C0288" and "p = 0xF424000000000000"
  have uc: "unat c = 0xFA8FD5A0081C0288" "unat p = 0xF424000000000000" by (simp_all add: c_def p_def)
  have cached: "GetCachedPowerForDecimalExponent (- 342) = Inr (\<lparr>diy_f = c, diy_e = - 1220\<rparr>, - 348)" unfolding c_def by code_simp
  have adj: "AdjustmentPowerOfTen 6 = Inr \<lparr>diy_f = p, diy_e = - 44\<rparr>" by (simp add: AdjustmentPowerOfTen_def ASSERT_def kDecimalExponentDistance_def p_def)
  define in2 where "in2 = DiyFp_Multiply \<lparr>diy_f = f1, diy_e = - 2\<rparr> \<lparr>diy_f = p, diy_e = - 44\<rparr>"
  obtain er2 where a: "diyfp_adjust buffer (- 342) (- 348) \<lparr>diy_f = f1, diy_e = - 2\<rparr> err = Inr (in2, er2)"
    using adj by (cases "6 \<le> strtod_kMaxUint64DecimalDigits - int (length buffer)") (simp_all add: diyfp_adjust_def in2_def ASSERT_def DiyFp_kSignificandSize_def)
  define in3 where "in3 = DiyFp_Multiply in2 \<lparr>diy_f = c, diy_e = - 1220\<rparr>"
  have e3: "diy_e in3 = - 1138" by (simp add: in3_def in2_def DiyFp_Multiply_def Let_def)
  have "(4 * 2470328229206232721 * unat p + 2 ^ 63) div 2 ^ 64 \<le> (4 * s * unat p + 2 ^ 63) div 2 ^ 64"
    using f1(2) by (intro div_le_mono add_right_mono mult_le_mono) simp_all
  then have f2: "9423554341149264225 \<le> unat (diy_f in2)" unfolding in2_def DiyFp_Multiply_f by (simp add: f1(1) uc)
  have "(9423554341149264225 * unat c + 2 ^ 63) div 2 ^ 64 \<le> (unat (diy_f in2) * unat c + 2 ^ 63) div 2 ^ 64"
    using f2 by (intro div_le_mono add_right_mono mult_le_mono) simp_all
  then have f3: "2 ^ 63 \<le> unat (diy_f in3)" unfolding in3_def DiyFp_Multiply_f by (simp add: uc)
  then have "diy_f in3 \<noteq> 0" by auto
  then obtain k g where g: "DiyFp_Normalize in3 = Some (Inr \<lparr>diy_f = g, diy_e = diy_e in3 - int k\<rparr>)" "unat g = unat (diy_f in3) * 2 ^ k"
    using DiyFp_Normalize_spec by blast
  have "k = 0"
  proof (rule ccontr)
    assume "k \<noteq> 0"
    then have "(2::nat) ^ 1 \<le> 2 ^ k" by (intro power_increasing) simp_all
    then have "2 ^ 63 * 2 \<le> unat g" unfolding g(2) using f3 by (intro mult_le_mono) simp_all
    then show False using unat_lt64[of g] by simp
  qed
  then show ?thesis using prod g e3 cached a unfolding diyfp_product_def by (simp add: in3_def[symmetric] Let_def)
qed

text \<open>A decimal just above \<open>2 ^ -1075\<close> is read as \<open>s * 10 ^ -342\<close>, with \<open>s\<close> at least \<open>2470328229206232721\<close>.\<close>

lemma powi_ten_le: "m \<le> n \<Longrightarrow> (10::real) powi m \<le> 10 powi n"
  by (rule power_int_increasing) simp_all

lemma tiny_digits:
  fixes x :: real and D R s :: nat and ex :: int
  assumes x: "x = real D * 10 powi ex" "2 powi - 1075 < x" "x < 2 powi - 1075 * (1 + 1 / 2 ^ 59)"
    and s: "R = 0 \<Longrightarrow> s = D" "0 < R \<Longrightarrow> 1844674407370955161 \<le> s" "s < 2 ^ 64"
    and near: "real D / 10 ^ R - 1 / 2 < real s" "real s \<le> real D / 10 ^ R + 1 / 2"
  shows "ex + int R = - 342" "2470328229206232721 \<le> s" "s < 2 ^ 62"
proof -
  define E where "E = ex + int R"
  define t where "t = real D / 10 ^ R"
  define a where "a = x * 10 ^ 342"
  define c :: real where "c = 10 ^ 342 / 2 ^ 1075"
  have half: "(2::real) powi - 1075 = 1 / 2 ^ 1075" by (simp only: power_int_minus power_int_numeral inverse_eq_divide)
  have c: "2 powi - 1075 * 10 ^ 342 = c" unfolding half c_def by (simp only: times_divide_eq_left mult_1)
  have a: "2470328229206232720 + 7 / 8 < a" "a < 2470328229206232725 + 1 / 4"
  proof -
    have "2 powi - 1075 * 10 ^ 342 < a" unfolding a_def using x(2) by (intro mult_strict_right_mono zero_less_power) simp_all
    then show "2470328229206232720 + 7 / 8 < a" using tiny_bounds(1) unfolding c c_def[symmetric] by linarith
    have "a < 2 powi - 1075 * (1 + 1 / 2 ^ 59) * 10 ^ 342" unfolding a_def using x(3) by (intro mult_strict_right_mono zero_less_power) simp_all
    also have "\<dots> = c * (1 + 1 / 2 ^ 59)" unfolding c[symmetric] by (simp only: mult.assoc mult.commute[of "10 ^ 342"])
    finally show "a < 2470328229206232725 + 1 / 4" using tiny_bounds(2) unfolding c_def[symmetric] by linarith
  qed
  have "x = t * 10 powi E" unfolding t_def E_def x(1) by (simp add: power_int_add)
  then have ta: "a = t * 10 powi (E + 342)" unfolding a_def using power_int_add[of "10::real" E 342, OF disjI1] by (simp only: mult.assoc power_int_numeral)
  have t0: "0 \<le> t" by (simp add: t_def)
  have s64: "real s < 18446744073709551616" using s(3) by simp
  have E: "E = - 342"
  proof (rule linorder_cases)
    assume "E < - 342"
    then have "(10::real) powi (E + 342) \<le> 10 powi - 1" by (intro powi_ten_le) simp
    then have "a \<le> t * 10 powi - 1" unfolding ta using t0 by (intro mult_left_mono)
    then have "10 * a \<le> t" by (simp add: power_int_def)
    then show ?thesis using a near(1) s64 unfolding t_def[symmetric] by linarith
  next
    assume up: "- 342 < E"
    then have "(10::real) powi 1 \<le> 10 powi (E + 342)" by (intro powi_ten_le) simp
    then have "t * 10 powi 1 \<le> a" unfolding ta using t0 by (intro mult_left_mono)
    then have le: "10 * t \<le> a" by simp
    show ?thesis
    proof (cases "R = 0")
      case False
      then have "real 1844674407370955161 \<le> real s" using s(2) by (simp only: of_nat_le_iff)
      then show ?thesis using le a near(2) unfolding t_def[symmetric] by simp
    next
      case True
      define m where "m = D * 10 ^ nat (E + 341)"
      define j where "j = nat (E + 341)"
      have "E + 342 = int (Suc j)" using up by (simp add: j_def)
      then have "10 powi (E + 342) = (10::real) ^ Suc j" by (simp only: power_int_of_nat)
      then have "a = real m * 10" unfolding ta m_def t_def True j_def[symmetric] by simp
      then have "real 247032822920623272 < real m" "real m < real 247032822920623273" using a by simp_all
      then have "247032822920623272 < m" "m < 247032822920623273" by (simp_all only: of_nat_less_iff)
      then show ?thesis by simp
    qed
  qed
  then show "ex + int R = - 342" by (simp add: E_def)
  have "a = t" unfolding ta E by simp
  then have "real 2470328229206232720 < real s" "real s < real (2 ^ 62)" using a near unfolding t_def[symmetric] by simp_all
  then have "2470328229206232720 < s" "s < 2 ^ 62" by (simp_all only: of_nat_less_iff)
  then show "2470328229206232721 \<le> s" "s < 2 ^ 62" by simp_all
qed

section \<open>The whole function\<close>

text \<open>The digits that are read, normalized, with their error in eighths.\<close>

lemma normalized_digits:
  assumes v: "trimmed v"
  shows "\<exists>s R k f1 err. ReadDiyFp v = Inr (\<lparr>diy_f = s, diy_e = 0\<rparr>, int R) \<and> R < length v \<and> length v \<le> R + 20
    \<and> (R = 0 \<longrightarrow> unat s = dec_value v) \<and> (0 < R \<longrightarrow> 1844674407370955161 \<le> unat s)
    \<and> real (dec_value v) / 10 ^ R - 1 / 2 < real (unat s) \<and> real (unat s) \<le> real (dec_value v) / 10 ^ R + 1 / 2
    \<and> DiyFp_Normalize \<lparr>diy_f = s, diy_e = 0\<rparr> = Some (Inr \<lparr>diy_f = f1, diy_e = - int k\<rparr>) \<and> unat f1 = unat s * 2 ^ k \<and> 2 ^ 63 \<le> unat f1
    \<and> push_bit k (if int R = 0 then 0 else kDenominator div 2) = err \<and> unat err \<le> 32
    \<and> \<bar>real (unat f1) - real (dec_value v) / 10 ^ R * 2 ^ k\<bar> \<le> real (unat err) / 8 \<and> 0 < dec_value v
    \<and> (length v \<le> 19 \<longrightarrow> unat err = 0 \<and> (\<exists>D k. unat f1 = D * 2 ^ k \<and> D < 10 ^ length v))"
proof -
  obtain s R where r: "ReadDiyFp v = Inr (\<lparr>diy_f = s, diy_e = 0\<rparr>, int R)" "0 < unat s" "R < length v" "length v \<le> R + 20"
      "R = 0 \<longrightarrow> unat s = dec_value v" "0 < R \<longrightarrow> 1844674407370955161 \<le> unat s"
      "real (dec_value v) / 10 ^ R - 1 / 2 < real (unat s)" "real (unat s) \<le> real (dec_value v) / 10 ^ R + 1 / 2"
    using ReadDiyFp_spec[OF v] by blast
  have "s \<noteq> 0" using r(2) by auto
  then obtain k f1 where n: "DiyFp_Normalize \<lparr>diy_f = s, diy_e = 0\<rparr> = Some (Inr \<lparr>diy_f = f1, diy_e = - int k\<rparr>)" "unat f1 = unat s * 2 ^ k" "2 ^ 63 \<le> unat f1"
    using DiyFp_Normalize_spec[of "\<lparr>diy_f = s, diy_e = 0\<rparr>"] by auto
  define err where "err = push_bit k (if int R = 0 then 0 else kDenominator div 2)"
  have dv: "0 < dec_value v" "dec_value v < 10 ^ length v"
  proof -
    have l: "0 < length v" "\<forall>c \<in> set v. is_dec c" using v by (auto simp: trimmed_def)
    show "0 < dec_value v" using trimmed_lower[OF v l(1)] by (metis less_le_trans order_refl take_all_iff zero_less_numeral zero_less_power)
    show "dec_value v < 10 ^ length v" using l(2) by (rule dec_value_less)
  qed
  have e: "unat err = (if R = 0 then 0 else 4 * 2 ^ k) \<and> unat err \<le> 32"
  proof (cases "R = 0")
    case False
    have "2 ^ 60 * 2 ^ k \<le> unat f1" unfolding n(2) using r(6) False by (intro mult_le_mono1) simp
    then have "(2::nat) ^ (60 + k) < 2 ^ 64" using unat_lt64[of f1] unfolding power_add by linarith
    then have k: "k \<le> 3" using power_less_imp_less_exp[of "2::nat" "60 + k" 64] by simp
    have p: "(2::nat) ^ k \<le> 2 ^ 3" by (rule power_increasing[OF k]) simp
    then have "unat err = 4 * 2 ^ k" using unat_shift[of "4 :: 64 word" k] False unfolding err_def by (simp add: kDenominator_def)
    then show ?thesis using False p by simp
  qed (simp add: err_def)
  have close: "\<bar>real (unat f1) - real (dec_value v) / 10 ^ R * 2 ^ k\<bar> \<le> real (unat err) / 8"
  proof (cases "R = 0")
    case True
    then show ?thesis using e r(5) n(2) by simp
  next
    case False
    have "\<bar>real (unat s) - real (dec_value v) / 10 ^ R\<bar> \<le> 1 / 2" unfolding abs_le_iff using r(7,8) by linarith
    then have "\<bar>real (unat s) - real (dec_value v) / 10 ^ R\<bar> * 2 ^ k \<le> 1 / 2 * 2 ^ k" by (intro mult_right_mono) simp_all
    moreover have "real (unat f1) = real (unat s) * 2 ^ k" unfolding n(2) by (simp only: of_nat_mult of_nat_power of_nat_numeral)
    moreover have "real (unat err) = 4 * 2 ^ k" using e False by (simp only: if_False of_nat_mult of_nat_power of_nat_numeral)
    ultimately show ?thesis by (simp only: left_diff_distrib[symmetric] abs_mult power_abs abs_numeral)
  qed
  have small: "unat err = 0 \<and> (\<exists>D k. unat f1 = D * 2 ^ k \<and> D < 10 ^ length v)" if l: "length v \<le> 19"
  proof -
    have "R = 0"
    proof (rule ccontr)
      assume R: "R \<noteq> 0"
      have "length v = R + (length v - R)" using r(3) by simp
      then have "dec_value v < 10 ^ R * 10 ^ (length v - R)" using dv(2) by (metis power_add)
      also have "\<dots> \<le> 10 ^ R * 10 ^ 18" using l R by (intro mult_left_mono power_increasing) simp_all
      finally have "real (dec_value v) < real (10 ^ R * 10 ^ 18)" by (simp only: of_nat_less_iff)
      then have "real (dec_value v) / 10 ^ R < 10 ^ 18" by (simp add: divide_less_eq mult.commute)
      moreover have "real 1844674407370955161 \<le> real (unat s)" using r(6) R by (simp only: of_nat_le_iff)
      ultimately show False using r(8) by simp
    qed
    then show ?thesis using e r(5) n(2) dv(2) by auto
  qed
  show ?thesis using r n e close dv(1) small unfolding err_def by blast
qed

theorem DiyFpStrtod_spec:
  assumes v: "trimmed v" and ex: "ex + int (length v) - 1 < 309" "- 324 < ex + int (length v)" and x: "x = real (dec_value v) * 10 powi ex"
  shows "\<exists>ok g. DiyFpStrtod v ex = Some (Inr (ok, g)) \<and> (if ok \<or> g = Double_kInfinity then rounds_to x g else good_guess x g)"
proof -
  obtain s R k f1 err where n: "ReadDiyFp v = Inr (\<lparr>diy_f = s, diy_e = 0\<rparr>, int R)" "R < length v" "length v \<le> R + 20"
      "R = 0 \<longrightarrow> unat s = dec_value v" "0 < R \<longrightarrow> 1844674407370955161 \<le> unat s"
      "real (dec_value v) / 10 ^ R - 1 / 2 < real (unat s)" "real (unat s) \<le> real (dec_value v) / 10 ^ R + 1 / 2"
      "DiyFp_Normalize \<lparr>diy_f = s, diy_e = 0\<rparr> = Some (Inr \<lparr>diy_f = f1, diy_e = - int k\<rparr>)" "unat f1 = unat s * 2 ^ k" "2 ^ 63 \<le> unat f1"
      "push_bit k (if int R = 0 then 0 else kDenominator div 2) = err" "unat err \<le> 32"
      "\<bar>real (unat f1) - real (dec_value v) / 10 ^ R * 2 ^ k\<bar> \<le> real (unat err) / 8" "0 < dec_value v"
      "length v \<le> 19 \<longrightarrow> unat err = 0 \<and> (\<exists>D k. unat f1 = D * 2 ^ k \<and> D < 10 ^ length v)"
    using normalized_digits[OF v] by blast
  define E where "E = ex + int R"
  have E: "- 348 \<le> E" "E < 348" "E \<le> 340" using ex n(2,3) by (simp_all add: E_def)
  define Y where "Y = real (dec_value v) / 10 ^ R * 2 ^ k"
  have Y0: "0 < Y" using n(14) by (simp add: Y_def)
  have xY: "x = Y * 2 powi - int k * 10 powi E" unfolding x Y_def E_def by (simp add: power_int_add power_int_minus)
  obtain f e er where p: "diyfp_product v E \<lparr>diy_f = f1, diy_e = - int k\<rparr> err = Some (Inr (\<lparr>diy_f = f, diy_e = e\<rparr>, er))"
      "2 ^ 63 \<le> unat f" "unat er \<le> 180" "\<bar>real (unat f) - x / 2 powi e\<bar> < real (unat er) / 8"
    using diyfp_product_spec[OF n(10,12) n(13)[folded Y_def] Y0 _ E(1,2) xY, of v] n(15) by blast
  have "x \<le> 2 powi - 1075" if low: "64 + e < - 1074"
  proof (rule ccontr)
    assume "\<not> x \<le> 2 powi - 1075"
    then have gt: "2 powi - 1075 < x" by simp
    have "real (unat f) \<le> 2 ^ 64" "real (unat er) \<le> 180"
      using unat_lt64[of f] p(3) by (metis less_imp_le of_nat_le_iff of_nat_numeral of_nat_power, metis of_nat_le_iff of_nat_numeral)
    then have "x / 2 powi e < 2 ^ 64 + 180 / 8" using p(4) unfolding abs_less_iff by linarith
    then have "x < (2 ^ 64 + 180 / 8) * 2 powi e" by (simp add: divide_less_eq)
    also have "\<dots> \<le> (2 ^ 64 + 180 / 8) * 2 powi - 1139" using low by (intro mult_left_mono power_int_increasing) simp_all
    also have "\<dots> \<le> (2 ^ 64 * (1 + 1 / 2 ^ 59)) * 2 powi - 1139" by (intro mult_right_mono) simp_all
    also have "\<dots> = 2 powi - 1075 * (1 + 1 / 2 ^ 59)" using power_int_add[of "2::real" 64 "- 1139"] by simp
    finally have lt: "x < 2 powi - 1075 * (1 + 1 / 2 ^ 59)" .
    have t: "ex + int R = - 342" "2470328229206232721 \<le> unat s" "unat s < 2 ^ 62"
      using tiny_digits[OF x gt lt, of R "unat s"] n(4-7) unat_lt64[of s] by auto
    have "2 ^ 61 * 2 ^ k \<le> unat s * 2 ^ k" using t(2) by (intro mult_le_mono1) simp
    then have "(2::nat) ^ (61 + k) < 2 ^ 64" using n(9) unat_lt64[of f1] unfolding power_add by linarith
    then have k2: "k \<le> 2" using power_less_imp_less_exp[of "2::nat" "61 + k" 64] by simp
    have "2 ^ 63 < 2 ^ 62 * (2::nat) ^ k" using mult_strict_right_mono[OF t(3) zero_less_power[of "2::nat" k]] n(9,10) by linarith
    then have "(2::nat) ^ 63 < 2 ^ (62 + k)" unfolding power_add .
    then have "63 < 62 + k" by (rule power_less_imp_less_exp[rotated]) simp
    then have "k = 2" using k2 by simp
    then have "e = - 1138" using tiny_product[of f1 "unat s" v err f e er] n(9) t(1,2) p(1) by (simp add: E_def mult.commute)
    then show False using low by simp
  qed
  moreover have "0 < x" using Y0 unfolding xY by simp
  ultimately obtain ok g where g: "diyfp_round \<lparr>diy_f = f, diy_e = e\<rparr> er = Inr (ok, g)" "if ok \<or> g = Double_kInfinity then rounds_to x g else good_guess x g"
    using diyfp_round_spec[OF p(2-4)] by blast
  have "DiyFpStrtod v ex = Some (Inr (ok, g))"
    using n(1,8,11) p(1) g(1) E unfolding DiyFpStrtod_def by (simp add: ASSERT_def int_res_def kMaxDecimalExponent_def kMinDecimalExponent_def E_def)
  then show ?thesis using g(2) by blast
qed

end
