(* ===== verification/Strtod_Exact.thy ===== *)
theory Strtod_Exact
  imports Strtod_Guess BignumDtoa_Start
begin

text \<open>
  The exact routines of \<^verbatim>\<open>strtod.cc\<close>: \<^verbatim>\<open>DoubleStrtod\<close>, which works on doubles that are exact, and \<^verbatim>\<open>CompareBufferWithDiyFp\<close>, which
  works on bignums.
\<close>

unbundle bit_operations_syntax

section \<open>With doubles\<close>

lemma ReadUint64_short:
  assumes v: "trimmed v" "length v \<le> 15"
  shows "\<exists>w. ReadUint64 v = Inr (w, length v) \<and> unat w = dec_value v \<and> 0 < unat w \<and> unat w < 10 ^ length v \<and> unat w < 2 ^ 53"
proof -
  obtain w i where r: "ReadUint64 v = Inr (w, i)" "0 < i" "i \<le> length v" "unat w = dec_value (take i v)" "i = length v \<or> 1844674407370955161 \<le> unat w"
    using ReadUint64_spec[OF v(1)] by blast
  have dec: "\<forall>c \<in> set (take i v). is_dec c" using v(1) set_take_subset[of i v] by (auto simp: trimmed_def)
  have lt: "unat w < 10 ^ i" using dec_value_less[OF dec] r(3,4) by (simp add: min_absorb2)
  have "(10::nat) ^ i \<le> 10 ^ 15" using r(3) v(2) by (intro power_increasing) simp_all
  then have "unat w < 10 ^ 15" using lt by linarith
  moreover from this have "i = length v" using r(5) by simp
  moreover have "0 < unat w" using trimmed_lower[OF v(1) r(2,3)] r(4) by (metis less_le_trans zero_less_numeral zero_less_power)
  ultimately show ?thesis using r lt by auto
qed

lemma rounds_to_integer:
  assumes "rounds_to (real m) d" "0 < m" "m < 2 ^ 53"
  shows "dbl_finite_pos d" "dbl_value d = real m"
proof -
  obtain c where c: "dbl_finite_pos c" "dbl_value c = real m" using representable[OF assms(2,3), of 0] by auto
  have "unat c \<le> 2047 * 2 ^ 52" using c(1) by (simp add: dbl_finite_pos_def)
  then have "d = c" using rounds_to_exact[of c] assms(1) c(2) by simp
  then show "dbl_finite_pos d" "dbl_value d = real m" using c by auto
qed

lemma power_size: "kExactPowersOfTenSize = 23"
  by (simp add: kExactPowersOfTenSize_def exact_powers_of_ten_def)

lemma DoubleStrtod_spec:
  assumes v: "trimmed v" and x: "x = real (dec_value v) * 10 powi ex" and ex: "- (2 ^ 31) < ex"
  shows "\<exists>r. DoubleStrtod correct_ops v ex = Inr r \<and> (\<forall>g. r = Some g \<longrightarrow> rounds_to x g)"
proof (cases "correct_ops \<and> length v \<le> 15 \<and> ((ex < 0 \<and> - ex < 23) \<or> (0 \<le> ex \<and> ex < 23) \<or> (0 \<le> ex \<and> ex - (15 - int (length v)) < 23))")
  case False
  then show ?thesis using ex by (auto simp: DoubleStrtod_def kMaxExactDoubleIntegerDecimalDigits_def power_size Let_def int_res_def)
next
  case True
  then have c: correct_ops and l: "length v \<le> 15" by auto
  obtain w where w: "ReadUint64 v = Inr (w, length v)" "unat w = dec_value v" "0 < unat w" "unat w < 10 ^ length v" "unat w < 2 ^ 53"
    using ReadUint64_short[OF v l] by blast
  note dw = double_of_uint64_exact[OF w(3,5)]
  consider (neg) "ex < 0" "- ex < 23" | (pos) "0 \<le> ex" "ex < 23" | (big) "0 \<le> ex" "\<not> ex < 23" "ex - (15 - int (length v)) < 23" using True by linarith
  then show ?thesis
  proof cases
    case neg
    define i where "i = nat (- ex)"
    have i: "- ex = int i" "i \<le> 22" "ex = - int i" using neg by (simp_all add: i_def)
    note p = exact_power[OF i(2)]
    have "rounds_to x (dbl_divide (double_of_uint64 w) (round_ratio (10 ^ i) 1))"
      using dbl_divide_correct[OF dw(1) p(2)] unfolding dw(2) p(3) w(2) x i(3) by (simp add: power_int_minus divide_inverse)
    then show ?thesis using c l neg w(1) p(1) by (simp add: DoubleStrtod_def int_res_def kMaxExactDoubleIntegerDecimalDigits_def power_size ASSERT_def i(1))
  next
    case pos
    define i where "i = nat ex"
    have i: "ex = int i" "i \<le> 22" using pos by (simp_all add: i_def)
    note p = exact_power[OF i(2)]
    have "rounds_to x (dbl_times (double_of_uint64 w) (round_ratio (10 ^ i) 1))"
      using dbl_times_correct[OF dw(1) p(2)] unfolding dw(2) p(3) w(2) x i(1) by simp
    then show ?thesis using c l pos w(1) p(1) by (simp add: DoubleStrtod_def kMaxExactDoubleIntegerDecimalDigits_def power_size ASSERT_def i(1))
  next
    case big
    define r j where "r = 15 - length v" and "j = nat (ex - int r)"
    have r: "15 - int (length v) = int r" "r \<le> 22" using l by (simp_all add: r_def)
    have j: "ex - int r = int j" "j \<le> 22" "ex = int r + int j" using big r by (simp_all add: j_def)
    note p = exact_power[OF r(2)] and p' = exact_power[OF j(2)]
    define m where "m = dec_value v * 10 ^ r"
    have "unat w * 10 ^ r < 10 ^ length v * 10 ^ r" using w(4) by simp
    also have "\<dots> = 10 ^ 15" using l by (simp add: r_def flip: power_add)
    finally have "m < 10 ^ 15" using w(2) by (simp add: m_def)
    then have m: "0 < m" "m < 2 ^ 53" using w(2,3) by (simp_all add: m_def)
    have rm: "rounds_to (real m) (dbl_times (double_of_uint64 w) (round_ratio (10 ^ r) 1))"
      using dbl_times_correct[OF dw(1) p(2)] unfolding dw(2) p(3) w(2) by (simp add: m_def)
    note e = rounds_to_integer[OF rm m]
    have "rounds_to x (dbl_times (dbl_times (double_of_uint64 w) (round_ratio (10 ^ r) 1)) (round_ratio (10 ^ j) 1))"
      using dbl_times_correct[OF e(1) p'(2)] unfolding e(2) p'(3) x j(3) m_def by (simp add: power_int_add mult.assoc)
    then show ?thesis using c l big w(1) p(1) p'(1) r(1) j(1)
      by (simp add: DoubleStrtod_def kMaxExactDoubleIntegerDecimalDigits_def power_size ASSERT_def Let_def)
  qed
qed

section \<open>With bignums\<close>

lemma limit_val: "limit = 2 ^ 3556"
proof -
  have "limit = 2 ^ (28 * 127)" unfolding limit_def radix_def kBigitSize_def capacity power_mult by simp
  moreover have "28 * 127 = (3556::nat)" by simp
  ultimately show ?thesis by (simp only:)
qed

lemma powers_below: "(10::nat) ^ 1000 < limit" "2 ^ 54 * (5::nat) ^ 1104 < limit"
proof -
  have "(10::nat) ^ 1000 = 10 ^ (3 * 333 + 1)" by (rule arg_cong[where f = "(^) 10"]) simp
  also have "\<dots> = (10 ^ 3) ^ 333 * 10 ^ 1" by (simp only: power_add power_mult)
  also have "\<dots> \<le> (2 ^ 10) ^ 333 * 2 ^ 4" by (intro mult_le_mono power_mono) simp_all
  also have "\<dots> = 2 ^ (10 * 333 + 4)" by (simp only: power_add power_mult)
  also have "\<dots> < limit" unfolding limit_val by (rule power_strict_increasing) simp_all
  finally show "(10::nat) ^ 1000 < limit" .
  have "(2::nat) ^ 54 * 5 ^ 1104 = 2 ^ 54 * 5 ^ (3 * 368)" by (rule arg_cong[where f = "\<lambda>n. 2 ^ 54 * 5 ^ n"]) simp
  also have "\<dots> = 2 ^ 54 * (5 ^ 3) ^ 368" by (simp only: power_mult)
  also have "\<dots> \<le> 2 ^ 54 * (2 ^ 7) ^ 368" by (intro mult_le_mono order_refl power_mono) simp_all
  also have "\<dots> = 2 ^ (54 + 7 * 368)" by (simp only: power_add power_mult)
  also have "\<dots> < limit" unfolding limit_val by (rule power_strict_increasing) simp_all
  finally show "(2::nat) ^ 54 * 5 ^ 1104 < limit" .
qed

lemma below_limit: "(x::nat) \<le> 10 ^ n \<Longrightarrow> n \<le> 1000 \<Longrightarrow> x < limit"
  using power_increasing[of n 1000 "10::nat"] powers_below(1) by linarith

lemma rep_times_power:
  assumes "rep b v" "v * 5 ^ e < limit" "e < 2 ^ 16"
  shows "\<exists>b'. MultiplyByPowerOfTen e b = Inr b' \<and> rep b' (v * 10 ^ e)"
proof -
  have "bval (bn_bigits b) \<le> v" using assms(1) bval_le_value[of b] by (simp add: rep_def)
  then have "5 ^ e * bval (bn_bigits b) \<le> 5 ^ e * v" by (rule mult_le_mono2)
  then have "5 ^ e * bval (bn_bigits b) < limit" using assms(2) unfolding mult.commute[of v] by (rule le_less_trans)
  moreover have "v * 1 \<le> v * 5 ^ e" by (intro mult_le_mono2) simp
  then have "v < radix ^ (kBigitCapacity - 1)" using assms(2) unfolding limit_def by linarith
  then have "bn_exponent b < 128" using small_exponent[of b] assms(1) by (simp add: rep_def)
  then have "bn_exponent b + e div kBigitSize < 2 ^ 31" using assms(3) by (simp add: kBigitSize_def)
  ultimately show ?thesis using MultiplyByPowerOfTen_spec[of b e] assms(1) unfolding limit_def by (simp add: rep_def)
qed

lemma CompareBufferWithDiyFp_spec:
  assumes v: "trimmed v" "length v \<le> 780" and ex: "ex + int (length v) \<le> 310" "- 324 < ex + int (length v)"
    and f: "unat f < 2 ^ 54" and e: "0 < e \<Longrightarrow> 0 < ex + int (length v)" and es: "\<bar>e\<bar> < 2 ^ 16" and x: "x = real (dec_value v) * 10 powi ex"
  shows "\<exists>c. CompareBufferWithDiyFp v ex \<lparr>diy_f = f, diy_e = e\<rparr> = Inr c \<and> (c < 0 \<longleftrightarrow> x < real (unat f) * 2 powi e) \<and> (c > 0 \<longleftrightarrow> real (unat f) * 2 powi e < x)"
proof -
  define D n where "D = dec_value v" and "n = length v"
  define a b where "a = D * 10 ^ nat ex" and "b = unat f * 10 ^ nat (- ex)"
  have dec: "\<forall>c \<in> set v. is_dec c" using v(1) by (simp add: trimmed_def)
  have D: "D < 10 ^ n" unfolding D_def n_def by (rule dec_value_less[OF dec])
  have n: "n \<le> 780" using v(2) by (simp add: n_def)
  have "10 ^ n < limit" using n by (intro below_limit[OF order_refl]) simp
  then have fits: "dec_fits v" by (simp add: dec_fits_def n_def limit_def)
  obtain b1 where b1: "AssignDecimalString v bn_new = Inr b1" "rep b1 D"
    using AssignDecimalString_spec[OF _ dec fits, of bn_new] rep_new unfolding rep_def D_def by blast
  obtain b2 where b2: "AssignUInt64 (unat f) bn_new = Inr b2" "rep b2 (unat f)" using rep_assign64[OF rep_new unat_lt64] by blast
  have a: "a < limit"
  proof -
    have "a < 10 ^ n * 10 ^ nat ex" unfolding a_def using D by simp
    then have "a < 10 ^ (n + nat ex)" by (simp only: power_add)
    then show ?thesis using ex(1) n by (intro below_limit[OF less_imp_le]) (auto simp: n_def)
  qed
  have scaled: "\<exists>b1' b2'. (if ex \<ge> 0 then bindE (MultiplyByPowerOfTen (nat ex) b1) (\<lambda>b1. Inr (b1, b2))
      else bindE (MultiplyByPowerOfTen (nat (- ex)) b2) (\<lambda>b2. Inr (b1, b2))) = Inr (b1', b2') \<and> rep b1' a \<and> rep b2' b"
  proof (cases "ex \<ge> 0")
    case True
    have "D * 5 ^ nat ex \<le> a" unfolding a_def by (intro mult_le_mono2 power_mono) simp_all
    then have "D * 5 ^ nat ex < limit" using a by (rule le_less_trans)
    moreover have "nat ex < 2 ^ 16" using ex(1) by simp
    ultimately obtain b1' where "MultiplyByPowerOfTen (nat ex) b1 = Inr b1'" "rep b1' a" using rep_times_power[OF b1(2)] unfolding a_def by blast
    then show ?thesis using True b2 by (simp add: b_def)
  next
    case False
    have small: "nat (- ex) \<le> 1104" using ex(2) n by (simp add: n_def)
    then have "(5::nat) ^ nat (- ex) \<le> 5 ^ 1104" by (rule power_increasing) simp
    with less_imp_le[OF f] have "unat f * 5 ^ nat (- ex) \<le> 2 ^ 54 * 5 ^ 1104" by (rule mult_le_mono)
    also note powers_below(2)
    finally obtain b2' where "MultiplyByPowerOfTen (nat (- ex)) b2 = Inr b2'" "rep b2' b" using rep_times_power[OF b2(2), of "nat (- ex)"] small unfolding b_def by auto
    then show ?thesis using False b1 by (simp add: a_def)
  qed
  obtain b3 b4 where b34: "(if ex \<ge> 0 then bindE (MultiplyByPowerOfTen (nat ex) b1) (\<lambda>b1. Inr (b1, b2))
      else bindE (MultiplyByPowerOfTen (nat (- ex)) b2) (\<lambda>b2. Inr (b1, b2))) = Inr (b3, b4)" "rep b3 a" "rep b4 b" using scaled by blast
  have "\<exists>b5 b6. (if e > 0 then bindE (ShiftLeft (nat e) b4) (\<lambda>b4. Inr (b3, b4)) else bindE (ShiftLeft (nat (- e)) b3) (\<lambda>b3. Inr (b3, b4))) = Inr (b5, b6)
    \<and> rep b5 (a * 2 ^ nat (- e)) \<and> rep b6 (b * 2 ^ nat e)"
  proof (cases "e > 0")
    case True
    have "unat f < 10 ^ 17" using f by simp
    then have "b < 10 ^ 17 * 10 ^ nat (- ex)" unfolding b_def by simp
    then have "b < 10 ^ (17 + nat (- ex))" by (simp only: power_add)
    then have "b < limit" using e[OF True] n by (intro below_limit[OF less_imp_le]) (auto simp: n_def)
    then show ?thesis using rep_shift[OF b34(3), of "nat e"] es True b34(2) by auto
  next
    case False
    then show ?thesis using rep_shift[OF b34(2) a, of "nat (- e)"] es b34(3) by auto
  qed
  then obtain b5 b6 where b56: "(if e > 0 then bindE (ShiftLeft (nat e) b4) (\<lambda>b4. Inr (b3, b4)) else bindE (ShiftLeft (nat (- e)) b3) (\<lambda>b3. Inr (b3, b4))) = Inr (b5, b6)"
    "rep b5 (a * 2 ^ nat (- e))" "rep b6 (b * 2 ^ nat e)" by blast
  have "CompareBufferWithDiyFp v ex \<lparr>diy_f = f, diy_e = e\<rparr> = bn_Compare b5 b6"
    unfolding CompareBufferWithDiyFp_def using ex v(2) b1(1) b2(1) b34(1) b56(1)
    by (simp add: ASSERT_def int_res_def kMaxDecimalPower_def kMinDecimalPower_def kMaxSignificantDecimalDigits_def kMaxSignificantBits_def cdiv_def split: if_splits)
  also have "\<dots> = Inr (cmp (a * 2 ^ nat (- e)) (b * 2 ^ nat e))" using b56(2,3) by (simp add: rep_def Compare_spec)
  finally have run: "CompareBufferWithDiyFp v ex \<lparr>diy_f = f, diy_e = e\<rparr> = Inr (cmp (a * 2 ^ nat (- e)) (b * 2 ^ nat e))" .
  define K :: real where "K = 10 ^ nat (- ex) * 2 ^ nat (- e)"
  have K: "0 < K" by (simp add: K_def)
  have "real (a * 2 ^ nat (- e)) = x * K" "real (b * 2 ^ nat e) = (real (unat f) * 2 powi e) * K"
    unfolding x a_def b_def K_def D_def[symmetric] powi_nat2[of e] by (cases "0 \<le> ex"; simp add: power_int_def power_one_over)+
  then have lt: "x < real (unat f) * 2 powi e \<longleftrightarrow> a * 2 ^ nat (- e) < b * 2 ^ nat e" "real (unat f) * 2 powi e < x \<longleftrightarrow> b * 2 ^ nat e < a * 2 ^ nat (- e)"
    using K by (metis mult_less_cancel_right_pos of_nat_less_iff)+
  show ?thesis unfolding run lt by (auto simp: cmp_def)
qed

end
