(* ===== verification/Strtod_Trim.thy ===== *)
theory Strtod_Trim
  imports Strtod_Guess
begin

text \<open>
  Trimming in \<^verbatim>\<open>strtod.cc\<close>: zeros at both ends do not matter, and behind 779 significant digits it only matters that something
  follows: no boundary between doubles has as many.
\<close>

section \<open>Zeros\<close>

lemma SubVector_Inr: "from < to \<Longrightarrow> to \<le> length v \<Longrightarrow> SubVector from to v = Inr (take (to - from) (drop from v))"
  by (simp add: SubVector_def ASSERT_def)

lemma trim_leading_loop_spec: "i + n = length v \<Longrightarrow> trim_leading_loop v i n = Inr (dropWhile ((=) 48) (drop i v))"
proof (induction v i n rule: trim_leading_loop.induct)
  case (2 v i n)
  then have i: "i < length v" by simp
  then have d: "drop i v = v ! i # drop (Suc i) v" by (simp add: Cons_nth_drop_Suc)
  show ?case
  proof (cases "v ! i = 48")
    case True
    then show ?thesis using 2 i by (simp add: d vec_rd_def ASSERT_def)
  next
    case False
    then show ?thesis using i by (simp add: vec_rd_def ASSERT_def SubVector_Inr) (simp add: d)
  qed
qed simp

lemma TrimLeadingZeros_spec: "TrimLeadingZeros v = Inr (dropWhile ((=) 48) v)"
  by (simp add: TrimLeadingZeros_def trim_leading_loop_spec)

lemma trim_trailing_loop_spec: "i \<le> length v \<Longrightarrow> trim_trailing_loop v i = Inr (rev (dropWhile ((=) 48) (rev (take i v))))"
proof (induction v i rule: trim_trailing_loop.induct)
  case (2 v i)
  then have i: "i < length v" by simp
  then have t: "take (Suc i) v = take i v @ [v ! i]" by (simp add: take_Suc_conv_app_nth)
  show ?case
  proof (cases "v ! i = 48")
    case True
    then show ?thesis using 2 i by (simp add: t vec_rd_def ASSERT_def)
  next
    case False
    then show ?thesis using i by (simp add: vec_rd_def ASSERT_def SubVector_Inr t)
  qed
qed simp

lemma TrimTrailingZeros_spec: "TrimTrailingZeros v = Inr (rev (dropWhile ((=) 48) (rev v)))"
  by (simp add: TrimTrailingZeros_def trim_trailing_loop_spec)

lemma dec_value_leading: "dec_value (dropWhile ((=) 48) v) = dec_value v"
  by (induction v) (auto simp: dec_value_def horner_Cons)

lemma dec_value_zeros: "\<forall>c \<in> set z. c = 48 \<Longrightarrow> dec_value z = 0"
  by (induction z) (auto simp: dec_value_def horner_def horner_Cons)

lemma dec_value_trailing:
  fixes v :: "nat list"
  defines "w \<equiv> rev (dropWhile ((=) 48) (rev v))"
  shows "dec_value v = dec_value w * 10 ^ (length v - length w)" "length w \<le> length v"
proof -
  define z where "z = rev (takeWhile ((=) 48) (rev v))"
  have "rev v = takeWhile ((=) 48) (rev v) @ dropWhile ((=) 48) (rev v)" by simp
  then have v: "v = w @ z" unfolding w_def z_def by (metis rev_append rev_rev_ident)
  have "dec_value z = 0" by (rule dec_value_zeros) (auto simp: z_def dest: set_takeWhileD)
  then show "dec_value v = dec_value w * 10 ^ (length v - length w)" "length w \<le> length v" by (simp_all add: v dec_value_append)
qed

text \<open>Both ends: either nothing is left, or a number that begins and ends with other digits than zero.\<close>

definition stripped :: "nat list \<Rightarrow> nat list" where
  "stripped v = rev (dropWhile ((=) 48) (rev (dropWhile ((=) 48) v)))"

lemma stripped_value:
  assumes "\<forall>c \<in> set v. is_dec c"
  shows "real (dec_value v) * 10 powi ex
    = real (dec_value (stripped v)) * 10 powi (ex + (int (length (dropWhile ((=) 48) v)) - int (length (stripped v))))"
proof -
  define l where "l = dropWhile ((=) 48) v"
  have s: "stripped v = rev (dropWhile ((=) 48) (rev l))" by (simp add: stripped_def l_def)
  note t = dec_value_trailing[of l, folded s]
  define k where "k = length l - length (stripped v)"
  have k: "int (length l) - int (length (stripped v)) = int k" using t(2) by (simp add: k_def)
  have "dec_value v = dec_value (stripped v) * 10 ^ k" using t(1) dec_value_leading[of v] by (simp add: l_def k_def)
  then show ?thesis unfolding l_def[symmetric] k by (simp add: power_int_add)
qed

lemma stripped_shape:
  assumes "\<forall>c \<in> set v. is_dec c" "stripped v \<noteq> []"
  shows "trimmed (stripped v)" "last (stripped v) \<noteq> 48"
proof -
  define l where "l = dropWhile ((=) 48) v"
  have s: "stripped v = rev (dropWhile ((=) 48) (rev l))" by (simp add: stripped_def l_def)
  have ne: "dropWhile ((=) 48) (rev l) \<noteq> []" using assms(2) s by auto
  then have "hd (dropWhile ((=) 48) (rev l)) \<noteq> 48" using hd_dropWhile by metis
  then show "last (stripped v) \<noteq> 48" using ne by (simp add: s last_rev)
  have sub: "set (stripped v) \<subseteq> set v" unfolding s l_def by (auto dest!: set_dropWhileD)
  have "rev l = takeWhile ((=) 48) (rev l) @ dropWhile ((=) 48) (rev l)" by simp
  then have "l = stripped v @ rev (takeWhile ((=) 48) (rev l))" unfolding s by (metis rev_append rev_rev_ident)
  then have "hd l = hd (stripped v)" "l \<noteq> []" using assms(2) by (metis hd_append2, auto)
  moreover from this have "hd l \<noteq> 48" unfolding l_def using hd_dropWhile by metis
  ultimately show "trimmed (stripped v)" using assms sub by (auto simp: trimmed_def)
qed

section \<open>Boundaries have few digits\<close>

lemma cut_numerals: "(2::nat) ^ 1024 \<le> 10 ^ 778" "2 ^ 54 * (5::nat) ^ 1075 \<le> 10 ^ 779"
proof -
  have "(2::nat) ^ 1024 \<le> 2 ^ (3 * 778)" by (rule power_increasing) simp_all
  also have "\<dots> = (2 ^ 3) ^ 778" by (rule power_mult)
  also have "\<dots> \<le> 10 ^ 778" by (rule power_mono) simp_all
  finally show "(2::nat) ^ 1024 \<le> 10 ^ 778" .
  have "(2::nat) ^ 54 * 5 ^ 1075 \<le> 2 ^ 54 * 5 ^ (779 + 3 * 99)" by (intro mult_le_mono2 power_increasing) simp_all
  also have "\<dots> = 2 ^ 54 * (5 ^ 779 * (5 ^ 3) ^ 99)" by (simp only: power_add power_mult)
  also have "\<dots> \<le> 2 ^ 54 * (5 ^ 779 * (2 ^ 7) ^ 99)" by (intro mult_le_mono order_refl power_mono) simp_all
  also have "\<dots> = 5 ^ 779 * 2 ^ (54 + 7 * 99)" by (simp only: power_add power_mult ac_simps)
  also have "\<dots> \<le> 5 ^ 779 * 2 ^ 779" by (intro mult_le_mono2 power_increasing) simp_all
  also have "\<dots> = (5 * 2) ^ 779" by (simp only: power_mult_distrib)
  also have "\<dots> = 10 ^ 779" by (rule arg_cong[where f = "\<lambda>b. b ^ 779"]) simp
  finally show "2 ^ 54 * (5::nat) ^ 1075 \<le> 10 ^ 779" .
qed

lemma between_integers: "\<not> (real A < real n \<and> real n < real A + 1)"
  by (metis linorder_not_less nat_less_real_le of_nat_less_iff)

text \<open>A number with 54 bits at an exponent from \<open>-1075\<close> is not strictly between two neighbours of 779 or more digits.\<close>

lemma midpoint_gap:
  assumes M: "M \<le> 2 ^ 54" and e: "- 1075 \<le> e" "e \<le> 970" and A: "10 ^ 778 \<le> A"
  shows "\<not> (real A * 10 powi s < real M * 2 powi e \<and> real M * 2 powi e < (real A + 1) * 10 powi s)"
proof (cases "0 \<le> - s \<and> - e \<le> - s")
  case True
  define k where "k = nat (- s)"
  have s: "s = - int k" using True by (simp add: k_def)
  define n where "n = M * 5 ^ k * 2 ^ nat (e + int k)"
  have "(10::real) ^ k = 5 ^ k * 2 ^ k" by (simp flip: power_mult_distrib)
  moreover have "(2::real) powi e * 2 ^ k = 2 ^ nat (e + int k)" using True s power_int_add[of "2::real" e "int k"] by (simp add: power_int_def)
  ultimately have n: "real M * 2 powi e * 10 ^ k = real n" by (simp add: n_def)
  have "real A * 10 powi s < real M * 2 powi e \<longleftrightarrow> real A < real n" "real M * 2 powi e < (real A + 1) * 10 powi s \<longleftrightarrow> real n < real A + 1"
    unfolding s n[symmetric] by (simp_all add: power_int_minus field_simps)
  then show ?thesis using between_integers by blast
next
  case False
  have M': "real M \<le> 2 ^ 54" using M by (metis of_nat_le_iff of_nat_numeral of_nat_power)
  have A': "(10::real) ^ 778 \<le> real A" using A by (metis of_nat_le_iff of_nat_numeral of_nat_power)
  have "real M * 2 powi e \<le> 10 ^ 778 * 10 powi s"
  proof (cases "0 < s")
    case True
    have "real M * 2 powi e \<le> 2 ^ 54 * 2 powi 970" using M' e by (intro mult_mono power_int_increasing) simp_all
    also have "\<dots> = 2 ^ 1024" using power_add[of "2::real" 54 970] by (simp only: power_int_numeral semiring_norm)
    also have "\<dots> \<le> 10 ^ 778" using cut_numerals(1) by (metis of_nat_le_iff of_nat_numeral of_nat_power)
    also have "\<dots> = 10 ^ 778 * 1" by (rule mult_1_right[symmetric])
    also have "\<dots> \<le> 10 ^ 778 * 10 powi s"
    proof (rule mult_left_mono[OF _ zero_le_power])
      show "1 \<le> (10::real) powi s" using power_int_increasing[of 0 s "10::real"] True by simp
    qed simp
    finally show ?thesis .
  next
    case s: False
    then have es: "e < s" "e < 0" using False by auto
    define k where "k = nat (- e)"
    have k: "e = - int k" "k \<le> 1075" using es e by (simp_all add: k_def)
    have five: "2 ^ 54 * (5::real) ^ k \<le> 10 ^ 779"
    proof -
      have "(5::nat) ^ k \<le> 5 ^ 1075" by (rule power_increasing[OF k(2)]) simp
      then have "2 ^ 54 * (5::nat) ^ k \<le> 10 ^ 779" using cut_numerals(2) mult_le_mono2[of "5 ^ k" "5 ^ 1075" "2 ^ 54"] by linarith
      then have "real (2 ^ 54 * 5 ^ k) \<le> real (10 ^ 779)" by (simp only: of_nat_le_iff)
      then show ?thesis by (simp only: of_nat_mult of_nat_power of_nat_numeral)
    qed
    have ten: "(10::real) ^ k = 5 ^ k * 2 ^ k" by (simp flip: power_mult_distrib)
    have "real M * 2 powi e \<le> 2 ^ 54 * 2 powi e" using M' by (intro mult_right_mono) simp_all
    also have "\<dots> = 2 ^ 54 * 5 ^ k * 10 powi e" unfolding k(1) power_int_minus power_int_of_nat ten by (simp add: field_simps)
    also have "\<dots> \<le> 10 ^ 779 * 10 powi e" by (rule mult_right_mono[OF five]) simp
    also have "\<dots> = 10 ^ 778 * 10 powi (e + 1)" 
    proof -
      have "(10::real) ^ (778 + 1) = 10 ^ 778 * 10 ^ 1" by (rule power_add)
      moreover have "778 + 1 = (779::nat)" by simp
      ultimately have T: "(10::real) ^ 779 = 10 ^ 778 * 10" by (simp only: power_one_right)
      have "(10::real) powi (e + 1) = 10 powi e * 10" by (simp add: power_int_add)
      moreover have "a * p = t * r" if "a = t * 10" "r = p * 10" for a p t r :: real using that by simp
      ultimately show ?thesis using T by blast
    qed
    also have "\<dots> \<le> 10 ^ 778 * 10 powi s"
    proof (rule mult_left_mono[OF _ zero_le_power])
      show "(10::real) powi (e + 1) \<le> 10 powi s" using es by (intro power_int_increasing) simp_all
    qed simp
    finally show ?thesis .
  qed
  also have "\<dots> \<le> real A * 10 powi s" by (rule mult_right_mono[OF A']) simp
  finally show ?thesis by (simp only: linorder_not_less[symmetric] simp_thms)
qed

section \<open>Numbers with the same rounding\<close>

context binary_format
begin

lemma nearest_gap:
  assumes near: "nearest_in val inf_pat y n" and y: "a < y" "y < b" and x: "a < x" "x < b"
    and gap: "\<And>m. m < inf_pat \<Longrightarrow> \<not> (2 * a < val m + val (Suc m) \<and> val m + val (Suc m) < 2 * b)"
  shows "nearest_in val inf_pat x n"
proof (rule nearest_sides)
  show n: "n \<le> inf_pat" using near by (simp add: nearest_in_def)
  have beats: "\<bar>y - val n\<bar> \<le> \<bar>y - val m\<bar>" if "m \<le> inf_pat" "m \<noteq> n" for m using near that unfolding nearest_in_def by force
  show "val (n - 1) + val n < 2 * x \<or> val (n - 1) + val n = 2 * x \<and> even n" if "0 < n"
  proof -
    have st: "val (n - 1) < val n" using step[of "n - 1"] that n by simp
    have "\<bar>y - val n\<bar> \<le> \<bar>y - val (n - 1)\<bar>" using that n by (intro beats) simp_all
    then have "val (n - 1) + val n \<le> 2 * y" using st by linarith
    moreover have "\<not> (2 * a < val (n - 1) + val n \<and> val (n - 1) + val n < 2 * b)" using gap[of "n - 1"] that n by simp
    ultimately show ?thesis using y x by linarith
  qed
  show "2 * x < val n + val (Suc n) \<or> 2 * x = val n + val (Suc n) \<and> even n" if "n < inf_pat"
  proof -
    have "2 * y \<le> val n + val (Suc n)" using beats[of "Suc n"] step[OF that] that by simp
    then show ?thesis using gap[OF that] y x by simp
  qed
qed

end

lemma double_midpoint:
  assumes "n < 2047 * 2 ^ 52"
  shows "\<exists>M e. dbl_value (word_of_nat n) + dbl_value (word_of_nat (Suc n)) = 2 * (real M * 2 powi e) \<and> M \<le> 2 ^ 54 \<and> - 1075 \<le> e \<and> e \<le> 970"
proof -
  define d where "d = (word_of_nat n :: 64 word)"
  have u: "unat d = n" unfolding d_def by (rule unat_of_small) (use assms in simp)
  have u63: "unat d < 2 ^ 63" "unat d < 2047 * 2 ^ 52" using u assms by simp_all
  note s = dbl_split[OF u63(1)]
  have "dbl_exp d < 2047" unfolding s(4) using u63(2) by (simp add: div_less_iff_less_mult)
  then have E: "- 1074 \<le> Double_Exponent d" "Double_Exponent d \<le> 971" by (auto simp: Double_fields(5))
  have "sgnf d < 2 ^ 53" using s(3) by (auto simp: Double_fields(4))
  then have M: "2 * sgnf d + 1 \<le> 2 ^ 54" by simp
  have "dbl_value d + dbl_value (d + 1) = 2 * (real (2 * sgnf d + 1) * 2 powi (Double_Exponent d - 1))"
    unfolding value_next[OF u63(2)] dbl_value_nonneg[OF u63(1)] powi_succ(2)[of "Double_Exponent d"] by (simp add: algebra_simps)
  then show ?thesis using M E unfolding d_def by (intro exI[of _ "2 * sgnf d + 1"] exI[of _ "Double_Exponent d - 1"]) (simp add: d_def add.commute)
qed

lemma same_rounding:
  assumes A: "10 ^ 778 \<le> A" and y: "rounds_to y d" "real A * 10 powi s < y" "y < (real A + 1) * 10 powi s" and x: "real A * 10 powi s < x" "x < (real A + 1) * 10 powi s"
  shows "rounds_to x d"
proof -
  have "nearest_in (\<lambda>n. dbl_value (word_of_nat n)) (2047 * 2 ^ 52) x (unat d)"
  proof (rule dbl_format.nearest_gap[OF y(1)[unfolded rounds_to_nearest] y(2,3) x])
    fix m :: nat
    assume "m < 2047 * 2 ^ 52"
    then obtain M e where M: "dbl_value (word_of_nat m) + dbl_value (word_of_nat (Suc m)) = 2 * (real M * 2 powi e)" "M \<le> 2 ^ 54" "- 1075 \<le> e" "e \<le> 970"
      using double_midpoint by blast
    show "\<not> (2 * (real A * 10 powi s) < dbl_value (word_of_nat m) + dbl_value (word_of_nat (Suc m))
      \<and> dbl_value (word_of_nat m) + dbl_value (word_of_nat (Suc m)) < 2 * ((real A + 1) * 10 powi s))"
      unfolding M(1) using midpoint_gap[OF M(2-4) A, of s] by (auto simp only: mult_less_cancel_left_pos zero_less_numeral)
  qed
  then show ?thesis unfolding rounds_to_nearest .
qed

section \<open>Cutting\<close>

lemma CutToMaxSignificantDigits_spec:
  assumes v: "780 < length v" "last v \<noteq> 48" and b: "length space = 780"
    and ex: "- (2 ^ 31) \<le> ex" "ex + int (length v) < 2 ^ 31"
  shows "CutToMaxSignificantDigits v ex space = Inr (take 779 v @ [49], ex + (int (length v) - 780))"
proof -
  have "store_loop (vec_rd v) 0 0 779 space = Inr (take 779 v @ drop 779 space)"
    using store_loop_Inr[of 0 779 "vec_rd v" "(!) v" 0 space] v(1) b by (simp add: vec_rd_def ASSERT_def map_nth_take)
  moreover have "(take 779 v @ drop 779 space)[779 := 49] = take 779 v @ [49]" using v(1) b
    by (simp add: list_update_append Cons_nth_drop_Suc[symmetric])
  moreover have "v ! (length v - 1) \<noteq> 48" using v by (metis last_conv_nth list.size(3) not_less_zero)
  moreover have "int_res (ex + (int (length v) - 780)) = Inr (ex + (int (length v) - 780))" using v(1) ex by (intro int_res_in) simp_all
  ultimately show ?thesis using v b unfolding CutToMaxSignificantDigits_def kMaxSignificantDecimalDigits_def
    by (simp add: vec_rd_def ASSERT_def wr_def)
qed

lemma dec_value_last: "\<forall>c \<in> set v. is_dec c \<Longrightarrow> v \<noteq> [] \<Longrightarrow> last v \<noteq> 48 \<Longrightarrow> 0 < dec_value v"
proof -
  assume v: "\<forall>c \<in> set v. is_dec c" "v \<noteq> []" "last v \<noteq> 48"
  have "is_dec (last v)" using v(1) last_in_set[OF v(2)] by (rule bspec)
  then have "48 < last v" using v(3) by (simp add: is_dec_def)
  then have "0 < dec_value [last v]" by (simp add: dec_value_def horner_def)
  then show ?thesis using dec_value_append[of "butlast v" "[last v]"] v(2) by simp
qed

lemma cut_rounding:
  assumes r: "trimmed r" "last r \<noteq> 48" "780 < length r" and w: "w = take 779 r @ [49]"
    and y: "rounds_to (real (dec_value w) * 10 powi (e + (int (length r) - 780))) d"
  shows "rounds_to (real (dec_value r) * 10 powi e) d"
proof -
  define A B k where "A = dec_value (take 779 r)" and "B = dec_value (drop 779 r)" and "k = length r - 779"
  define s where "s = e + int k"
  have dec: "\<forall>c \<in> set r. is_dec c" using r(1) by (simp add: trimmed_def)
  have sub: "\<forall>c \<in> set (drop 779 r). is_dec c" using dec set_drop_subset[of 779 r] by blast
  have A: "10 ^ 778 \<le> A" 
  proof -
    have "10 ^ (779 - 1) \<le> A" unfolding A_def by (rule trimmed_lower[OF r(1)]) (use r(3) in simp_all)
    moreover have "779 - 1 = (778::nat)" by simp
    ultimately show ?thesis by (simp only:)
  qed
  have "0 < B" unfolding B_def using r(2,3) by (intro dec_value_last[OF sub]) simp_all
  moreover have "B < 10 ^ k" unfolding B_def k_def using dec_value_less[OF sub] by simp
  ultimately have B: "0 < real B / 10 ^ k" "real B / 10 ^ k < 1" by (simp_all add: divide_less_eq)
  have "dec_value r = A * 10 ^ k + B" using dec_value_append[of "take 779 r" "drop 779 r"] r(3) by (simp add: A_def B_def k_def)
  then have x: "real (dec_value r) * 10 powi e = (real A + real B / 10 ^ k) * 10 powi s" by (simp add: s_def power_int_add field_simps)
  have wd: "dec_value w = A * 10 + 1" by (simp add: w dec_value_append A_def) (simp add: dec_value_def horner_def)
  have "e + (int (length r) - 780) = s - 1" using r(3) by (simp add: s_def k_def)
  then have y': "real (dec_value w) * 10 powi (e + (int (length r) - 780)) = (real A + 1 / 10) * 10 powi s" unfolding wd by (simp add: power_int_diff field_simps)
  have less: "(a * 10 powi s < b * 10 powi s) = (a < b)" for a b :: real by simp
  show ?thesis unfolding x
  proof (rule same_rounding[OF A y[unfolded y']])
    show "real A * 10 powi s < (real A + 1 / 10) * 10 powi s" "(real A + 1 / 10) * 10 powi s < (real A + 1) * 10 powi s"
      "real A * 10 powi s < (real A + real B / 10 ^ k) * 10 powi s" "(real A + real B / 10 ^ k) * 10 powi s < (real A + 1) * 10 powi s"
      unfolding less using B by simp_all
  qed
qed

lemma TrimAndCut_spec:
  assumes v: "\<forall>c \<in> set v. is_dec c" and ex: "- (2 ^ 31) \<le> ex" "ex + int (length v) < 2 ^ 31"
  shows "\<exists>w e. TrimAndCut v ex (replicate kMaxSignificantDecimalDigits 0) kMaxSignificantDecimalDigits = Inr (w, e)
    \<and> - (2 ^ 31) \<le> e \<and> e + int (length w) < 2 ^ 31
    \<and> (if w = [] then dec_value v = 0 else trimmed w \<and> length w \<le> 780 \<and> (\<forall>d. rounds_to (real (dec_value w) * 10 powi e) d \<longrightarrow> rounds_to (real (dec_value v) * 10 powi ex) d))"
proof -
  define r where "r = stripped v"
  define e1 where "e1 = ex + (int (length (dropWhile ((=) 48) v)) - int (length r))"
  note val = stripped_value[OF v, of ex, folded r_def, folded e1_def]
  note sh = stripped_shape[OF v, folded r_def]
  have len: "length r \<le> length (dropWhile ((=) 48) v)" "length (dropWhile ((=) 48) v) \<le> length v"
    using dec_value_trailing(2)[of "dropWhile ((=) 48) v"] length_dropWhile_le[of "(=) 48" v] by (simp_all add: r_def stripped_def)
  then have e1: "- (2 ^ 31) \<le> e1" "e1 + int (length r) < 2 ^ 31" using ex by (simp_all add: e1_def)
  then have i1: "int_res e1 = Inr e1" by (intro int_res_in) simp_all
  have run: "TrimAndCut v ex (replicate kMaxSignificantDecimalDigits 0) kMaxSignificantDecimalDigits
      = (if length r > 780 then bindE (CutToMaxSignificantDigits r e1 (replicate 780 0)) (\<lambda>(b, e). Inr (take 780 b, e)) else Inr (r, e1))"
    unfolding TrimAndCut_def TrimLeadingZeros_spec bindE_simps TrimTrailingZeros_spec Let_def stripped_def[symmetric] r_def[symmetric] e1_def[symmetric] i1
    by (simp add: kMaxSignificantDecimalDigits_def ASSERT_def)
  consider (empty) "r = []" | (whole) "r \<noteq> []" "length r \<le> 780" | (cut) "r \<noteq> []" "780 < length r" by linarith
  then show ?thesis
  proof cases
    case empty
    have "real (dec_value v) * 10 powi ex = 0" unfolding val by (simp add: empty dec_value_def)
    then show ?thesis using empty run e1 by simp
  next
    case whole
    then show ?thesis using run sh e1 by (simp add: val)
  next
    case cut
    note c = CutToMaxSignificantDigits_spec[OF cut(2) sh(2)[OF cut(1)] _ e1, of "replicate 780 0"]
    define w where "w = take 779 r @ [49]"
    have "trimmed w" using sh(1)[OF cut(1)] cut(1) set_take_subset[of 779 r] by (cases r) (auto simp: trimmed_def w_def is_dec_def)
    moreover have "length w = 780" using cut(2) by (simp add: w_def)
    moreover have "w \<noteq> []" by (simp add: w_def)
    ultimately show ?thesis using run c cut e1 cut_rounding[OF sh(1)[OF cut(1)] sh(2)[OF cut(1)] cut(2) w_def] unfolding val w_def[symmetric] by auto
  qed
qed

end
