(* ===== verification/Strtod_Correct.thy ===== *)
theory Strtod_Correct
  imports Strtod_Diy Strtod_Exact Strtod_Trim BignumDtoa_Correct
begin

text \<open>
  \<^verbatim>\<open>Strtod\<close> of \<^verbatim>\<open>strtod.cc\<close> returns the nearest double of every decimal number, and it reads back what \<^verbatim>\<open>BignumDtoa\<close> prints.
\<close>

unbundle bit_operations_syntax

section \<open>The range\<close>

lemma ten_309: "(2 ^ 53 - 1 / 2) * 2 powi 971 \<le> (10::real) ^ 309"
proof -
  have "(2 ^ 53 - 1 / 2) * (2::real) powi 971 \<le> 2 ^ 53 * 2 ^ 971" unfolding power_int_numeral by (rule mult_right_mono) simp_all
  also have "\<dots> = 2 ^ (53 + 971)" by (rule power_add[symmetric])
  also have "\<dots> = 2 ^ (4 * 256)" by (rule arg_cong[where f = "(^) 2"]) simp
  also have "\<dots> \<le> 10 ^ 309"
  proof -
    have "(2::nat) ^ (4 * 256) \<le> 10 ^ 309" by simp
    then have "real (2 ^ (4 * 256)) \<le> real (10 ^ 309)" by (simp only: of_nat_le_iff)
    then show ?thesis by (simp only: of_nat_power of_nat_numeral)
  qed
  finally show ?thesis .
qed

lemma ten_324: "(10::real) powi - 324 \<le> 2 powi - 1075"
proof -
  have "(2::nat) ^ 1075 \<le> 10 ^ 324" by simp
  then have "real (2 ^ 1075) \<le> real (10 ^ 324)" by (simp only: of_nat_le_iff)
  then have "(2::real) ^ 1075 \<le> 10 ^ 324" by (simp only: of_nat_power of_nat_numeral)
  then show ?thesis unfolding power_int_minus power_int_numeral by (rule le_imp_inverse_le) (rule zero_less_power, simp)
qed

lemma decimal_range:
  assumes "trimmed w"
  shows "10 powi (e + int (length w) - 1) \<le> real (dec_value w) * 10 powi e" "real (dec_value w) * 10 powi e < 10 powi (e + int (length w))"
proof -
  have l: "0 < length w" "\<forall>c \<in> set w. is_dec c" using assms by (auto simp: trimmed_def)
  have "10 ^ (length w - 1) \<le> dec_value w" using trimmed_lower[OF assms l(1)] by simp
  then have "real (10 ^ (length w - 1)) \<le> real (dec_value w)" by (simp only: of_nat_le_iff)
  then have "10 ^ (length w - 1) * 10 powi e \<le> real (dec_value w) * 10 powi e" by (intro mult_right_mono) simp_all
  moreover have "e + int (length w) - 1 = int (length w - 1) + e" using l(1) by linarith
  moreover have "(10::real) powi (int (length w - 1) + e) = 10 ^ (length w - 1) * 10 powi e" by (simp only: power_int_add power_int_of_nat zero_neq_numeral[symmetric] simp_thms)
  ultimately show "10 powi (e + int (length w) - 1) \<le> real (dec_value w) * 10 powi e" by (simp only:)
  have "dec_value w < 10 ^ length w" by (rule dec_value_less[OF l(2)])
  then have "real (dec_value w) < real (10 ^ length w)" by (simp only: of_nat_less_iff)
  then show "real (dec_value w) * 10 powi e < 10 powi (e + int (length w))" by (simp add: power_int_add)
qed

section \<open>The guess and its correction\<close>

lemma inf_not_nan: "unat g \<le> 2047 * 2 ^ 52 \<Longrightarrow> dbl_eq g Double_kInfinity \<longleftrightarrow> g = Double_kInfinity"
proof -
  assume g: "unat g \<le> 2047 * 2 ^ 52"
  have i: "\<not> Double_IsNan Double_kInfinity" "Double_kInfinity AND NOT Double_kSignMask \<noteq> 0" by code_simp+
  then show ?thesis by (auto simp: dbl_eq_def)
qed

lemma guess_range: "(if ok \<or> g = Double_kInfinity then rounds_to x g else good_guess x g) \<Longrightarrow> unat g \<le> 2047 * 2 ^ 52"
  by (auto simp: rounds_to_def good_guess_def split: if_splits)

lemma ComputeGuess_spec:
  fixes e :: int
  assumes w: "trimmed w" "length w \<le> 780" and bound: "- (2 ^ 31) \<le> e" "e + int (length w) < 2 ^ 31"
  defines "x \<equiv> real (dec_value w) * 10 powi e"
  shows "\<exists>ok g. ComputeGuess correct_ops w e = Some (Inr (ok, g))
    \<and> (if ok then rounds_to x g else good_guess x g \<and> - 324 < e + int (length w) \<and> e + int (length w) - 1 < 309)"
proof -
  have ne: "w \<noteq> []" using w(1) by (simp add: trimmed_def)
  then have i: "int_res (e + int (length w)) = Inr (e + int (length w))" "int_res (e + int (length w) - 1) = Inr (e + int (length w) - 1)"
    using bound by (cases w; simp add: int_res_def)+
  note range = decimal_range[OF w(1), of e, folded x_def]
  have x0: "0 \<le> x" by (simp add: x_def)
  consider (big) "309 \<le> e + int (length w) - 1" | (small) "\<not> 309 \<le> e + int (length w) - 1" "e + int (length w) \<le> - 324"
    | (mid) "e + int (length w) - 1 < 309" "- 324 < e + int (length w)" by linarith
  then show ?thesis
  proof cases
    case big
    have "(10::real) powi 309 \<le> 10 powi (e + int (length w) - 1)" using big by (intro power_int_increasing) simp_all
    then have "(10::real) ^ 309 \<le> x" using range(1) unfolding power_int_numeral by (rule order_trans)
    then have "rounds_to x Double_kInfinity" using ten_309 by (intro round_infinite) (rule order_trans)
    then show ?thesis using big ne i by (intro exI[of _ True] exI[of _ Double_kInfinity]) (simp add: ComputeGuess_def kMaxDecimalPower_def)
  next
    case small
    have "(10::real) powi (e + int (length w)) \<le> 10 powi - 324" using small(2) by (intro power_int_increasing) simp_all
    then have "x \<le> 2 powi - 1075" using range(2) ten_324 by linarith
    then have "rounds_to x 0" using x0 by (rule round_zero[rotated])
    then show ?thesis using small ne i by (intro exI[of _ True] exI[of _ 0]) (simp add: ComputeGuess_def kMaxDecimalPower_def kMinDecimalPower_def)
  next
    case mid
    obtain r where r: "DoubleStrtod correct_ops w e = Inr r" "\<forall>g. r = Some g \<longrightarrow> rounds_to x g" using DoubleStrtod_spec[OF w(1), of x e] mid(2) w(2) by (auto simp: x_def)
    obtain ok g where g: "DiyFpStrtod w e = Some (Inr (ok, g))" "if ok \<or> g = Double_kInfinity then rounds_to x g else good_guess x g"
      using DiyFpStrtod_spec[OF w(1) mid, of x] by (auto simp: x_def)
    note inf = inf_not_nan[OF guess_range[OF g(2)]]
    show ?thesis using mid ne i r g inf by (cases r) (auto simp: ComputeGuess_def kMaxDecimalPower_def kMinDecimalPower_def split: if_splits)
  qed
qed

lemma UpperBoundary_spec:
  assumes "unat g < 2047 * 2 ^ 52"
  shows "\<exists>f. Double_UpperBoundary g = Inr \<lparr>diy_f = f, diy_e = Double_Exponent g - 1\<rparr> \<and> unat f < 2 ^ 54 \<and> real (unat f) * 2 powi (Double_Exponent g - 1) = upper_bound g"
proof -
  have u63: "unat g < 2 ^ 63" using assms by simp
  have s53: "sgnf g < 2 ^ 53" using dbl_split(3)[OF u63] by (auto simp: Double_fields(4))
  define f where "f = Double_Significand g * 2 + 1"
  have f: "unat f = 2 * sgnf g + 1" using unat_double_succ[OF s53] by (simp add: push_bit_eq_mult f_def)
  have "real (unat f) = 2 * real (sgnf g) + 1" unfolding f by (simp only: of_nat_add of_nat_mult of_nat_numeral of_nat_1)
  then have "real (unat f) * 2 powi (Double_Exponent g - 1) = upper_bound g"
    using powi_succ(2)[of "Double_Exponent g"] unfolding upper_bound_def by (simp add: algebra_simps)
  moreover have "Double_UpperBoundary g = Inr \<lparr>diy_f = f, diy_e = Double_Exponent g - 1\<rparr>" using u63 by (simp add: Double_UpperBoundary_def Double_fields(3) ASSERT_def f_def)
  moreover have "unat f < 2 ^ 54" unfolding f using s53 by simp
  ultimately show ?thesis by blast
qed

text \<open>Only a number above 1 has a guess with a positive exponent.\<close>

lemma guess_exponent:
  assumes "trimmed w" "good_guess (real (dec_value w) * 10 powi e) g" "0 < Double_Exponent g - 1"
  shows "0 < e + int (length w)"
proof -
  have u: "unat g < 2047 * 2 ^ 52" "real (sgnf g) * 2 powi Double_Exponent g \<le> real (dec_value w) * 10 powi e" using assms(2) by (simp_all add: good_guess_def)
  have s: "2 ^ 52 \<le> sgnf g" using assms(3) by (auto simp: Double_fields(4,5) split: if_splits)
  then have "(1::real) \<le> real (sgnf g)" by (metis of_nat_1 of_nat_le_iff one_le_numeral one_le_power order_trans)
  moreover have "(1::real) \<le> 2 powi Double_Exponent g" using power_int_increasing[of 0 "Double_Exponent g" "2::real"] assms(3) by simp
  ultimately have "1 * 1 \<le> real (sgnf g) * 2 powi Double_Exponent g" by (intro mult_mono) simp_all
  then have "1 < (10::real) powi (e + int (length w))" using decimal_range(2)[OF assms(1), of e] u(2) by linarith
  then show ?thesis using power_int_increasing[of "e + int (length w)" 0 "10::real"] by (cases "e + int (length w) \<le> 0") simp_all
qed

lemma Strtod_trimmed:
  assumes w: "trimmed w" "length w \<le> 780" and t: "TrimAndCut buffer ex (replicate kMaxSignificantDecimalDigits 0) kMaxSignificantDecimalDigits = Inr (w, e)"
    and bound: "- (2 ^ 31) \<le> e" "e + int (length w) < 2 ^ 31"
  shows "\<exists>d. Strtod correct_ops buffer ex = Some (Inr d) \<and> rounds_to (real (dec_value w) * 10 powi e) d"
proof -
  define x where "x = real (dec_value w) * 10 powi e"
  obtain ok g where g: "ComputeGuess correct_ops w e = Some (Inr (ok, g))"
      "if ok then rounds_to x g else good_guess x g \<and> - 324 < e + int (length w) \<and> e + int (length w) - 1 < 309"
    using ComputeGuess_spec[OF w bound, of correct_ops] by (auto simp: x_def)
  show ?thesis
  proof (cases ok)
    case True
    then show ?thesis using g t by (simp add: Strtod_def x_def)
  next
    case False
    then have gg: "good_guess x g" "- 324 < e + int (length w)" "e + int (length w) \<le> 310" using g(2) by simp_all
    then have u: "unat g < 2047 * 2 ^ 52" by (simp add: good_guess_def)
    obtain f where f: "Double_UpperBoundary g = Inr \<lparr>diy_f = f, diy_e = Double_Exponent g - 1\<rparr>" "unat f < 2 ^ 54"
        "real (unat f) * 2 powi (Double_Exponent g - 1) = upper_bound g" using UpperBoundary_spec[OF u] by blast
    have "dbl_exp g < 2047" using u dbl_split(4)[of g] by (simp add: div_less_iff_less_mult)
    then have "- 1074 \<le> Double_Exponent g" "Double_Exponent g \<le> 971" by (auto simp: Double_fields(5))
    then have small_e: "\<bar>Double_Exponent g - 1\<bar> < 2 ^ 16" unfolding abs_less_iff by simp
    have pos: "0 < Double_Exponent g - 1 \<Longrightarrow> 0 < e + int (length w)" by (rule guess_exponent[OF w(1) gg(1)[unfolded x_def]])
    obtain c where c: "CompareBufferWithDiyFp w e \<lparr>diy_f = f, diy_e = Double_Exponent g - 1\<rparr> = Inr c" "c < 0 \<longleftrightarrow> x < upper_bound g" "c > 0 \<longleftrightarrow> upper_bound g < x"
      using CompareBufferWithDiyFp_spec[where e = "Double_Exponent g - 1", OF w gg(3,2) f(2) pos small_e x_def] unfolding f(3) by blast
    have ev: "Double_Significand g AND 1 = 0 \<longleftrightarrow> even (unat g)"
      unfolding even_test even_significand ..
    define d where "d = (if c < 0 then g else if c > 0 then g + 1 else if even (unat g) then g else g + 1)"
    have "Strtod correct_ops buffer ex = Some (Inr d)"
      using t g(1) False f(1) c(1) by (simp add: Strtod_def NextDouble_finite[OF u] ev d_def)
    moreover have "rounds_to x d" using gg(1) c(2,3) unfolding good_guess_def d_def by (cases x "upper_bound g" rule: linorder_cases) simp_all
    ultimately show ?thesis by (simp add: x_def)
  qed
qed

section \<open>The results\<close>

lemma Strtod_nearest:
  assumes "\<forall>c \<in> set buffer. is_dec c" "- (2 ^ 31) \<le> ex" "ex + int (length buffer) < 2 ^ 31"
  shows "\<exists>d. Strtod correct_ops buffer ex = Some (Inr d) \<and> rounds_to (real (dec_value buffer) * 10 powi ex) d"
proof -
  obtain w e where t: "TrimAndCut buffer ex (replicate kMaxSignificantDecimalDigits 0) kMaxSignificantDecimalDigits = Inr (w, e)"
      "- (2 ^ 31) \<le> e" "e + int (length w) < 2 ^ 31" "if w = [] then dec_value buffer = 0 else trimmed w \<and> length w \<le> 780
        \<and> (\<forall>d. rounds_to (real (dec_value w) * 10 powi e) d \<longrightarrow> rounds_to (real (dec_value buffer) * 10 powi ex) d)"
    using TrimAndCut_spec[OF assms] by blast
  show ?thesis
  proof (cases "w = []")
    case True
    then have "Strtod correct_ops buffer ex = Some (Inr 0)" using t(1) by (simp add: Strtod_def ComputeGuess_def)
    moreover have "rounds_to 0 0" by (rule round_zero) simp_all
    ultimately show ?thesis using t(4) True by simp
  next
    case False
    then show ?thesis using Strtod_trimmed[OF _ _ t(1-3)] t(4) by (metis (no_types))
  qed
qed

text \<open>
  C3. \<^verbatim>\<open>Strtod\<close>, on any list of decimal digits, with leading and trailing zeros and of any length, empty included, and any exponent of
  type \<^verbatim>\<open>int\<close> whose sum with the length is an \<^verbatim>\<open>int\<close> too, and with either setting of the build option for exact arithmetic on
  doubles: it returns, with no overflow of \<^verbatim>\<open>int\<close>, with no failed assertion and no access outside an array,
  the double nearest to the decimal number, a tie going to the even significand, 0 below half the least positive double and infinity from
  the upper boundary of the largest.
\<close>

theorem strtod_correct:
  assumes "\<forall>c \<in> set buffer. is_dec c" "- (2 ^ 31) \<le> ex" "ex + int (length buffer) < 2 ^ 31"
  shows "\<exists>d. Strtod correct_ops buffer ex = Some (Inr d) \<and> rounds_to (real (dec_value buffer) * 10 powi ex) d"
  by (rule Strtod_nearest[OF assms])

theorem strtod_correct_witness:
  "\<exists>d. Strtod True [49, 55, 57, 55, 54, 57] 303 = Some (Inr d) \<and> rounds_to (179769 * 10 powi 303) d"
proof -
  have "\<forall>c \<in> set [49, 55, 57, 55, 54, 57]. is_dec c" by (simp add: is_dec_def)
  moreover have "dec_value [49, 55, 57, 55, 54, 57] = 179769" by (simp add: dec_value_def horner_def)
  ultimately show ?thesis using strtod_correct[where buffer = "[49, 55, 57, 55, 54, 57]" and correct_ops = True and ex = 303] by simp
qed

lemma rounds_to_unique:
  assumes "rounds_to x c" "rounds_to x d" "0 \<le> x"
  shows "c = d"
proof (rule ccontr)
  assume "c \<noteq> d"
  then have n: "unat c \<noteq> unat d" by (simp add: word_unat_eq_iff)
  have le: "unat c \<le> 2047 * 2 ^ 52" "unat d \<le> 2047 * 2 ^ 52" using assms(1,2) by (simp_all add: rounds_to_def)
  have eq: "\<bar>x - dbl_value c\<bar> = \<bar>x - dbl_value d\<bar>" and ev: "even (unat c)" "even (unat d)"
    using assms(1,2) \<open>c \<noteq> d\<close> le unfolding rounds_to_def by (metis less_asym less_irrefl)+
  have False if "unat a < unat b" "even (unat a)" "even (unat b)" "unat b \<le> 2047 * 2 ^ 52" "\<bar>x - dbl_value a\<bar> = \<bar>x - dbl_value b\<bar>" "rounds_to x a" for a b
  proof -
    have a1: "unat (a + 1) = unat a + 1" using that(1,4) by (intro unat_Suc) simp
    then have lt: "unat (a + 1) < unat b" using that(1-3) by (metis Suc_eq_plus1 Suc_lessI even_Suc)
    have v: "dbl_value a < dbl_value (a + 1)" "dbl_value (a + 1) < dbl_value b"
      using value_strict_mono[of a "a + 1"] value_strict_mono[of "a + 1" b] a1 lt that(4) by linarith+
    have "a + 1 \<noteq> a" using a1 by auto
    moreover have "unat (a + 1) \<le> 2047 * 2 ^ 52" using lt that(4) by linarith
    ultimately have "\<bar>x - dbl_value a\<bar> < \<bar>x - dbl_value (a + 1)\<bar> \<or> \<bar>x - dbl_value a\<bar> = \<bar>x - dbl_value (a + 1)\<bar>" using that(6) unfolding rounds_to_def by blast
    then show False using v that(5) by linarith
  qed
  then show False using n le eq ev assms(1,2) by (metis linorder_neqE_nat)
qed

text \<open>The decimal point of a number that reads as a finite positive double is near.\<close>

lemma trimmed_of_value:
  assumes "\<forall>c \<in> set cs. is_dec c" "1 \<le> length cs" "10 ^ (length cs - 1) \<le> dec_value cs"
  shows "trimmed cs"
proof -
  obtain c cs' where c: "cs = c # cs'" using assms(2) by (cases cs) auto
  have "c \<noteq> 48"
  proof
    assume "c = 48"
    then have "dec_value cs = dec_value cs'" by (simp add: c dec_value_def horner_Cons)
    moreover have "dec_value cs' < 10 ^ length cs'" using assms(1) by (intro dec_value_less) (simp add: c)
    ultimately show False using assms(3) by (simp add: c)
  qed
  then show ?thesis using assms(1) by (simp add: trimmed_def c)
qed

lemma point_range:
  assumes w: "trimmed w" and r: "rounds_to (real (dec_value w) * 10 powi (p - int (length w))) d" and d: "dbl_positive d" "\<not> Double_IsSpecial d"
  shows "- 324 < p \<and> p < 310"
proof -
  let ?x = "real (dec_value w) * 10 powi (p - int (length w))"
  have x: "10 powi (p - 1) \<le> ?x" "?x < 10 powi p" using decimal_range[OF w, of "p - int (length w)"] by simp_all
  have x0: "0 \<le> ?x" by simp
  have "d \<noteq> 0" "d \<noteq> Double_kInfinity" using d by (auto simp: dbl_positive_def) code_simp+
  moreover have "d = Double_kInfinity" if "310 \<le> p"
  proof (rule rounds_to_unique[OF r _ x0])
    have "(10::real) powi 309 \<le> 10 powi (p - 1)" using that by (intro power_int_increasing) simp_all
    then have "(10::real) ^ 309 \<le> ?x" using x(1) unfolding power_int_numeral by (rule order_trans)
    then show "rounds_to ?x Double_kInfinity" using ten_309 by (intro round_infinite) (rule order_trans)
  qed
  moreover have "d = 0" if "p \<le> - 324"
  proof (rule rounds_to_unique[OF r _ x0])
    have "(10::real) powi p \<le> 10 powi - 324" using that by (intro power_int_increasing) simp_all
    then have "?x \<le> 2 powi - 1075" using x(2) ten_324 by linarith
    then show "rounds_to ?x 0" by (rule round_zero[OF x0])
  qed
  ultimately show ?thesis by force
qed

text \<open>
  C4. Reading back what is printed: on every finite positive double \<open>d\<close>, the digits and the decimal point that \<^verbatim>\<open>BignumDtoa\<close> writes in the mode
  \<^verbatim>\<open>SHORTEST\<close> are a number from which \<^verbatim>\<open>Strtod\<close> returns \<open>d\<close> itself.
\<close>

theorem dtoa_strtod_roundtrip:
  assumes d: "dbl_positive d" "\<not> Double_IsSpecial d" and b: "17 < length buffer" and n: "2 ^ 16 \<le> n"
  shows "\<exists>cs p. BignumDtoa n d BIGNUM_DTOA_SHORTEST r buffer = Some (Inr (cs @ 0 # drop (Suc (length cs)) buffer, int (length cs), p))
    \<and> Strtod correct_ops cs (p - int (length cs)) = Some (Inr d)"
proof -
  obtain cs p where cs: "BignumDtoa n d BIGNUM_DTOA_SHORTEST r buffer = Some (Inr (cs @ 0 # drop (Suc (length cs)) buffer, int (length cs), p))"
      "\<forall>c \<in> set cs. is_dec c" "rounds_to (real (dec_value cs) * 10 powi (p - int (length cs))) d"
      "1 \<le> length cs" "length cs \<le> 17" "10 ^ (length cs - 1) \<le> dec_value cs"
    using BignumDtoa_shortest[OF assms, of r] by blast
  have t: "trimmed cs" by (rule trimmed_of_value[OF cs(2,4,6)])
  have p: "- 324 < p" "p < 310" using point_range[OF t cs(3) d] by simp_all
  obtain d' where d': "Strtod correct_ops cs (p - int (length cs)) = Some (Inr d')" "rounds_to (real (dec_value cs) * 10 powi (p - int (length cs))) d'"
    using Strtod_nearest[OF cs(2), of "p - int (length cs)" correct_ops] p cs(5) by auto
  have "d' = d" by (rule rounds_to_unique[OF d'(2) cs(3)]) simp
  then show ?thesis using cs(1) d'(1) by blast
qed

theorem dtoa_strtod_roundtrip_witness:
  "\<exists>cs p. BignumDtoa (2 ^ 16) 0x3FD5555555555555 BIGNUM_DTOA_SHORTEST 0 (replicate 18 0)
      = Some (Inr (cs @ 0 # drop (Suc (length cs)) (replicate 18 0), int (length cs), p))
    \<and> Strtod False cs (p - int (length cs)) = Some (Inr 0x3FD5555555555555)"
proof -
  have "dbl_positive 0x3FD5555555555555" "\<not> Double_IsSpecial 0x3FD5555555555555" by code_simp+
  moreover have "17 < length (replicate 18 (0::nat))" by simp
  ultimately show ?thesis using dtoa_strtod_roundtrip[where d = "0x3FD5555555555555" and r = 0 and buffer = "replicate 18 0" and n = "2 ^ 16" and correct_ops = False] by blast
qed

end
