(* ===== verification/QuizApp.thy ===== *)
theory QuizApp
  imports Prelude
begin

text \<open>
  The application itself: \<^verbatim>\<open>src/QuizScreen.js\<close>, \<^verbatim>\<open>src/HomeScreen.js\<close> and the questions of \<^verbatim>\<open>src/assests/data.json\<close>.

  \<^item> A JavaScript string is the list of its UTF-16 code units; \<open>None\<close> stands for \<^verbatim>\<open>null\<close> or \<^verbatim>\<open>undefined\<close>.
  \<^item> A screen handles one event at a time, and the changes that a handler passes to \<^verbatim>\<open>setState\<close> are in effect at the
    next event.  \<^verbatim>\<open>RNFS.writeFile\<close> completes later: the scores handed to it wait in \<open>app_pending\<close> until an event
    \<open>Write_done\<close> says that a write succeeded or failed.
  \<^item> \<^verbatim>\<open>AsyncStorage\<close> is a parameter: \<open>setItem\<close> gives \<open>None\<close> when the promise is rejected, \<open>getItem\<close> gives \<open>Inl ()\<close>.
\<close>

section \<open>Strings and data\<close>

type_synonym js_string = "nat list"

definition js :: "string \<Rightarrow> js_string" where
  "js s = map of_char s"

definition customData_questions :: "(nat \<times> js_string) list" where
  "customData_questions =
    [(1, js ''Far-right protestors tried to storm the Parliament building in which country?''),
     (2, js ''Why did Shinzo Abe, prime minister of Japan, resign from office?''),
     (3, js ''What did two commercial jet pilots reported seeing in the busy airspace near Los Angeles International Airport?''),
     (4, js ''After more than seven decades of absence, jaguars are being reintroduced into the wetlands of which country?'')]"

definition customData_options :: "(nat \<times> (int \<times> js_string) list) list" where
  "customData_options =
    [(1, [(1, js ''Australia''), (2, js ''Britain''), (3, js ''France''), (4, js ''Germany'')]),
     (2, [(1, js ''An extramarital affair''), (2, js ''Fraud''), (3, js ''Illness''), (4, js ''Protests'')]),
     (3, [(1, js ''An attack drone''), (2, js ''A man with a jetpack''), (3, js ''A girl attached to a kite''), (4, js ''A U.F.O.'')]),
     (4, [(1, js ''Argentina''), (2, js ''Belize''), (3, js ''Colombia''), (4, js ''Mexico'')])]"

definition customData_answers :: "(nat \<times> js_string) list" where
  "customData_answers = [(1, js ''Germany''), (2, js ''Illness''), (3, js ''A man with a jetpack''), (4, js ''Argentina'')]"

definition totalQuestions :: nat where
  "totalQuestions = length customData_questions"

section \<open>QuizScreen\<close>

record quiz =
  currentQuestion :: nat
  selectedOption :: int
  answered :: bool
  correctCount :: nat
  questionCount :: nat
  lastQuestion :: bool

definition quiz_init :: quiz where
  "quiz_init = \<lparr>currentQuestion = 1, selectedOption = - 1, answered = False, correctCount = 0,
     questionCount = totalQuestions, lastQuestion = False\<rparr>"

datatype screen = HomeScreen | QuizScreen

record app =
  app_screen :: screen
  app_quiz :: quiz
  app_pending :: "nat list"
  app_file :: "nat option"
  app_alerts :: nat

definition app_init :: "nat option \<Rightarrow> app" where
  "app_init file = \<lparr>app_screen = QuizScreen, app_quiz = quiz_init, app_pending = [], app_file = file, app_alerts = 0\<rparr>"

definition Click :: "int \<Rightarrow> quiz \<Rightarrow> quiz" where
  "Click key q = q\<lparr>selectedOption := key, answered := True\<rparr>"

text \<open>\<^verbatim>\<open>customData[2][q] === customData[1][q][option]\<close>; \<open>None\<close> is the \<^verbatim>\<open>TypeError\<close> of a missing question.\<close>

definition is_right :: "nat \<Rightarrow> int \<Rightarrow> bool option" where
  "is_right q opt =
     (case map_of customData_options q of None \<Rightarrow> None
      | Some opts \<Rightarrow> Some (map_of customData_answers q = map_of opts opt))"

definition nextQuestion :: "app \<Rightarrow> app option" where
  "nextQuestion s =
     (let q = app_quiz s in
      case is_right (currentQuestion q) (selectedOption q) of None \<Rightarrow> None
      | Some right \<Rightarrow>
          let q1 = (if right then q\<lparr>correctCount := correctCount q + 1\<rparr> else q) in
          Some (if currentQuestion q1 = questionCount q1
                then s\<lparr>app_quiz := q1, app_pending := app_pending s @ [correctCount q1]\<rparr>
                else s\<lparr>app_quiz := q1\<lparr>currentQuestion := currentQuestion q1 + 1, answered := False, selectedOption := - 1\<rparr>\<rparr>))"

text \<open>What \<^verbatim>\<open>render\<close> changes in the state.\<close>

definition quiz_render :: "quiz \<Rightarrow> quiz" where
  "quiz_render q = (if currentQuestion q = questionCount q then q\<lparr>lastQuestion := True\<rparr> else q)"

text \<open>The end of \<^verbatim>\<open>writeFile\<close>, and the continuation of \<^verbatim>\<open>nextQuestion\<close> behind it.\<close>

definition write_done :: "nat \<Rightarrow> bool \<Rightarrow> app \<Rightarrow> app option" where
  "write_done i success s =
     (if i < length (app_pending s)
      then Some (s\<lparr>app_pending := take i (app_pending s) @ drop (Suc i) (app_pending s),
                   app_file := (if success then Some (app_pending s ! i) else app_file s),
                   app_alerts := (if success then app_alerts s else app_alerts s + 1),
                   app_screen := HomeScreen\<rparr>)
      else None)"

definition handleBackButton :: "app \<Rightarrow> app" where
  "handleBackButton s = s\<lparr>app_alerts := app_alerts s + 1\<rparr>"

datatype event =
    Press_option int
  | Press_next
  | Press_back
  | Write_done nat bool

text \<open>
  The four option buttons are always shown, the button next or submit only when an option is selected.  \<open>None\<close>: the
  event cannot happen, or the handler throws.
\<close>

fun app_step :: "event \<Rightarrow> app \<Rightarrow> app option" where
  "app_step (Press_option i) s =
     (if app_screen s = QuizScreen \<and> 1 \<le> i \<and> i < 5
      then Some (s\<lparr>app_quiz := Click i (quiz_render (app_quiz s))\<rparr>) else None)"
| "app_step Press_next s =
     (if app_screen s = QuizScreen \<and> answered (app_quiz s)
      then nextQuestion (s\<lparr>app_quiz := quiz_render (app_quiz s)\<rparr>) else None)"
| "app_step Press_back s = (if app_screen s = QuizScreen then Some (handleBackButton s) else None)"
| "app_step (Write_done i success) s = write_done i success s"

fun app_run :: "event list \<Rightarrow> app \<Rightarrow> app option" where
  "app_run [] s = Some s"
| "app_run (e # es) s = (case app_step e s of None \<Rightarrow> None | Some s' \<Rightarrow> app_run es s')"

lemma app_run_append: "app_run (xs @ ys) s = (case app_run xs s of None \<Rightarrow> None | Some s' \<Rightarrow> app_run ys s')"
  by (induction xs arbitrary: s) (auto split: option.splits)

lemma total: "totalQuestions = 4"
  by (simp add: totalQuestions_def customData_questions_def)

lemma is_right_defined: "1 \<le> q \<Longrightarrow> q \<le> totalQuestions \<Longrightarrow> \<exists>r. is_right q opt = Some r"
  by (auto simp: is_right_def customData_options_def total)

section \<open>HomeScreen\<close>

definition js_ws :: "nat \<Rightarrow> bool" where
  "js_ws c \<longleftrightarrow> c \<in> set [9, 10, 11, 12, 13, 32, 160, 5760, 8232, 8233, 8239, 8287, 12288, 65279] \<or> 8192 \<le> c \<and> c \<le> 8202"

definition js_trim :: "js_string \<Rightarrow> js_string" where
  "js_trim s = rev (dropWhile js_ws (rev (dropWhile js_ws s)))"

definition js_digit :: "nat \<Rightarrow> bool" where
  "js_digit c \<longleftrightarrow> 48 \<le> c \<and> c \<le> 57"

definition js_exponent :: "js_string \<Rightarrow> bool" where
  "js_exponent s =
     (case s of [] \<Rightarrow> True
      | c # r \<Rightarrow> (c = 101 \<or> c = 69) \<and>
          (let ds = (case r of [] \<Rightarrow> [] | d # r' \<Rightarrow> if d = 43 \<or> d = 45 then r' else r) in ds \<noteq> [] \<and> list_all js_digit ds))"

definition js_unsigned :: "js_string \<Rightarrow> bool" where
  "js_unsigned s \<longleftrightarrow> s = js ''Infinity'' \<or>
     (let ip = takeWhile js_digit s; r = dropWhile js_digit s in
      case r of [] \<Rightarrow> ip \<noteq> []
      | c # r' \<Rightarrow> if c = 46
          then (ip \<noteq> [] \<or> takeWhile js_digit r' \<noteq> []) \<and> js_exponent (dropWhile js_digit r')
          else ip \<noteq> [] \<and> js_exponent r)"

definition js_decimal :: "js_string \<Rightarrow> bool" where
  "js_decimal s = (case s of [] \<Rightarrow> False | c # r \<Rightarrow> js_unsigned (if c = 43 \<or> c = 45 then r else s))"

definition js_nondecimal :: "js_string \<Rightarrow> bool" where
  "js_nondecimal s =
     (case s of c # b # r \<Rightarrow> c = 48 \<and> r \<noteq> [] \<and>
         ((b = 120 \<or> b = 88) \<and> list_all (\<lambda>d. js_digit d \<or> 65 \<le> d \<and> d \<le> 70 \<or> 97 \<le> d \<and> d \<le> 102) r
          \<or> (b = 111 \<or> b = 79) \<and> list_all (\<lambda>d. 48 \<le> d \<and> d \<le> 55) r
          \<or> (b = 98 \<or> b = 66) \<and> list_all (\<lambda>d. d = 48 \<or> d = 49) r)
      | _ \<Rightarrow> False)"

text \<open>\<^verbatim>\<open>isNaN\<close> of a string: the conversion of strings to numbers of ECMAScript; the empty text converts to 0.\<close>

definition js_isNaN :: "js_string \<Rightarrow> bool" where
  "js_isNaN s = (let t = js_trim s in t \<noteq> [] \<and> \<not> js_decimal t \<and> \<not> js_nondecimal t)"

record home =
  firstName :: "js_string option"
  lastName :: "js_string option"
  nickName :: "js_string option"
  age :: "js_string option"
  score :: js_string
  firstNameError :: bool
  lastNameError :: bool
  nickNameError :: bool
  ageError :: bool
  scoreExists :: bool

definition home_init :: home where
  "home_init = \<lparr>firstName = Some [], lastName = Some [], nickName = Some [], age = Some [], score = [],
     firstNameError = False, lastNameError = False, nickNameError = False, ageError = False, scoreExists = False\<rparr>"

definition firstNameInput :: "js_string \<Rightarrow> home \<Rightarrow> home" where
  "firstNameInput v h = h\<lparr>firstName := Some v, firstNameError := False\<rparr>"

definition lastNameInput :: "js_string \<Rightarrow> home \<Rightarrow> home" where
  "lastNameInput v h = h\<lparr>lastName := Some v, lastNameError := False\<rparr>"

definition nickNameInput :: "js_string \<Rightarrow> home \<Rightarrow> home" where
  "nickNameInput v h = h\<lparr>nickName := Some v, nickNameError := False\<rparr>"

definition ageInput :: "js_string \<Rightarrow> home \<Rightarrow> home" where
  "ageInput v h = h\<lparr>age := Some v, ageError := False\<rparr>"

text \<open>\<^verbatim>\<open>checkFile\<close> and \<^verbatim>\<open>readFile\<close>: the text of the file, when it exists and can be read.\<close>

definition readFile :: "js_string option \<Rightarrow> home \<Rightarrow> home" where
  "readFile file h = (case file of None \<Rightarrow> h | Some t \<Rightarrow> h\<lparr>scoreExists := True, score := t\<rparr>)"

text \<open>\<open>None\<close>: the \<^verbatim>\<open>TypeError\<close> of reading a property of \<^verbatim>\<open>null\<close>.\<close>

definition validate :: "home \<Rightarrow> (bool \<times> home) option" where
  "validate h =
     (case (firstName h, lastName h, nickName h, age h) of
        (Some f, Some l, Some n, Some a) \<Rightarrow>
          let firstNameValidator = (js_trim f = []);
              lastNameValidator = (js_trim l = []);
              nickNameValidator = (js_trim n = []);
              ageValidator = (length a = 0 \<or> js_isNaN a) in
          Some (if firstNameValidator \<or> lastNameValidator \<or> nickNameValidator \<or> ageValidator
                then (False, h\<lparr>firstNameError := firstNameValidator, lastNameError := lastNameValidator,
                               nickNameError := nickNameValidator, ageError := ageValidator\<rparr>)
                else (True, h))
      | _ \<Rightarrow> None)"

text \<open>The items are stored one after the other; a rejected promise ends the sequence.\<close>

fun setItems :: "('st \<Rightarrow> js_string \<Rightarrow> js_string \<Rightarrow> 'st option) \<Rightarrow> (js_string \<times> js_string option) list \<Rightarrow> 'st \<Rightarrow> 'st \<times> bool" where
  "setItems setItem [] st = (st, True)"
| "setItems setItem ((k, v) # xs) st =
     (case v of None \<Rightarrow> (st, False)
      | Some t \<Rightarrow> (case setItem st k t of None \<Rightarrow> (st, False) | Some st' \<Rightarrow> setItems setItem xs st'))"

definition setData :: "('st \<Rightarrow> js_string \<Rightarrow> js_string \<Rightarrow> 'st option) \<Rightarrow> home \<Rightarrow> 'st \<Rightarrow> 'st \<times> bool" where
  "setData setItem h = setItems setItem [(js ''firstName'', firstName h), (js ''lastName'', lastName h),
     (js ''nickName'', nickName h), (js ''age'', age h)]"

definition getData :: "('st \<Rightarrow> js_string \<Rightarrow> unit + js_string option) \<Rightarrow> 'st \<Rightarrow> home \<Rightarrow> home" where
  "getData getItem st h =
     (case (getItem st (js ''firstName''), getItem st (js ''lastName''), getItem st (js ''nickName''), getItem st (js ''age'')) of
        (Inr f, Inr l, Inr n, Inr a) \<Rightarrow>
          if f \<noteq> None \<or> l \<noteq> None \<or> n \<noteq> None \<or> a \<noteq> None
          then h\<lparr>firstName := f, lastName := l, nickName := n, age := a\<rparr> else h
      | _ \<Rightarrow> h)"

definition openQuizScreen :: "('st \<Rightarrow> js_string \<Rightarrow> js_string \<Rightarrow> 'st option) \<Rightarrow> home \<Rightarrow> 'st \<Rightarrow> (screen \<times> home \<times> 'st) option" where
  "openQuizScreen setItem h st =
     (case validate h of None \<Rightarrow> None
      | Some (ok, h') \<Rightarrow> Some (if ok then (QuizScreen, h', fst (setData setItem h' st)) else (HomeScreen, h', st)))"

end
