(* ===== verification/QuizApp_Correct.thy ===== *)
theory QuizApp_Correct
  imports QuizApp
begin

text \<open>
  The score of a quiz, the effect of pressing submit more than once, and the form of the home screen.
\<close>

section \<open>One question\<close>

definition playing :: "nat \<Rightarrow> app \<Rightarrow> bool" where
  "playing k s \<longleftrightarrow> app_screen s = QuizScreen \<and> currentQuestion (app_quiz s) = k \<and> questionCount (app_quiz s) = totalQuestions
     \<and> 1 \<le> k \<and> k \<le> totalQuestions"

definition right_count :: "nat \<Rightarrow> int \<Rightarrow> nat" where
  "right_count k opt = of_bool (is_right k opt = Some True)"

lemma quiz_render_simps [simp]:
  "currentQuestion (quiz_render q) = currentQuestion q" "selectedOption (quiz_render q) = selectedOption q"
  "answered (quiz_render q) = answered q" "correctCount (quiz_render q) = correctCount q" "questionCount (quiz_render q) = questionCount q"
  by (simp_all add: quiz_render_def)

lemma press_option:
  assumes "playing k s" "1 \<le> i" "i < 5"
  shows "\<exists>s'. app_step (Press_option i) s = Some s' \<and> playing k s' \<and> selectedOption (app_quiz s') = i \<and> answered (app_quiz s')
    \<and> correctCount (app_quiz s') = correctCount (app_quiz s) \<and> app_pending s' = app_pending s \<and> app_file s' = app_file s"
  using assms by (simp add: playing_def Click_def)

lemma press_options:
  assumes "playing k s" "cs \<noteq> []" "\<forall>i \<in> set cs. 1 \<le> i \<and> i < 5"
  shows "\<exists>s'. app_run (map Press_option cs) s = Some s' \<and> playing k s' \<and> selectedOption (app_quiz s') = last cs \<and> answered (app_quiz s')
    \<and> correctCount (app_quiz s') = correctCount (app_quiz s) \<and> app_pending s' = app_pending s \<and> app_file s' = app_file s"
  using assms
proof (induction cs arbitrary: s)
  case (Cons c cs)
  obtain s1 where s1: "app_step (Press_option c) s = Some s1" "playing k s1" "selectedOption (app_quiz s1) = c" "answered (app_quiz s1)"
      "correctCount (app_quiz s1) = correctCount (app_quiz s)" "app_pending s1 = app_pending s" "app_file s1 = app_file s"
    using press_option[OF Cons.prems(1), of c] Cons.prems(3) by auto
  show ?case
  proof (cases "cs = []")
    case False
    then show ?thesis using Cons.IH[OF s1(2)] Cons.prems(3) s1 by (simp del: app_step.simps)
  qed (use s1 in \<open>simp del: app_step.simps\<close>)
qed simp

lemma press_next:
  assumes "playing k s" "answered (app_quiz s)"
  defines "c \<equiv> correctCount (app_quiz s) + right_count k (selectedOption (app_quiz s))"
  shows "\<exists>s'. app_step Press_next s = Some s' \<and> app_file s' = app_file s \<and> correctCount (app_quiz s') = c
    \<and> (if k = totalQuestions
       then playing k s' \<and> app_pending s' = app_pending s @ [c] \<and> answered (app_quiz s')
              \<and> selectedOption (app_quiz s') = selectedOption (app_quiz s)
       else playing (Suc k) s' \<and> app_pending s' = app_pending s)"
proof -
  obtain r where "is_right k (selectedOption (app_quiz s)) = Some r" using assms(1) is_right_defined by (auto simp: playing_def)
  then show ?thesis using assms by (auto simp: playing_def nextQuestion_def Let_def right_count_def)
qed

section \<open>The whole quiz\<close>

text \<open>The events of a user who tries the options \<open>cs\<close> on each question before going on.\<close>

definition answer_events :: "int list list \<Rightarrow> event list" where
  "answer_events css = concat (map (\<lambda>cs. map Press_option cs @ [Press_next]) css)"

fun rights :: "nat \<Rightarrow> int list list \<Rightarrow> nat" where
  "rights k [] = 0"
| "rights k (cs # css) = right_count k (last cs) + rights (Suc k) css"

lemma rights_filter: "rights k css = length (filter (\<lambda>i. is_right (k + i) (last (css ! i)) = Some True) [0..<length css])"
proof (induction css arbitrary: k)
  case (Cons cs css)
  have "[0..<length (cs # css)] = 0 # map Suc [0..<length css]" by (simp add: upt_conv_Cons map_Suc_upt del: upt_Suc)
  then show ?case using Cons.IH[of "Suc k"] by (simp add: right_count_def filter_map comp_def del: upt_Suc)
qed simp

lemma answer_block:
  assumes "playing k s" "cs \<noteq> []" "\<forall>i \<in> set cs. 1 \<le> i \<and> i < 5"
  defines "c \<equiv> correctCount (app_quiz s) + right_count k (last cs)"
  shows "\<exists>s'. app_run (map Press_option cs @ [Press_next]) s = Some s' \<and> app_file s' = app_file s \<and> correctCount (app_quiz s') = c
    \<and> (if k = totalQuestions
       then playing k s' \<and> app_pending s' = app_pending s @ [c] \<and> answered (app_quiz s') \<and> selectedOption (app_quiz s') = last cs
       else playing (Suc k) s' \<and> app_pending s' = app_pending s)"
proof -
  obtain s1 where s1: "app_run (map Press_option cs) s = Some s1" "playing k s1" "selectedOption (app_quiz s1) = last cs" "answered (app_quiz s1)"
      "correctCount (app_quiz s1) = correctCount (app_quiz s)" "app_pending s1 = app_pending s" "app_file s1 = app_file s"
    using press_options[OF assms(1-3)] by auto
  obtain s2 where s2: "app_step Press_next s1 = Some s2" "app_file s2 = app_file s1"
      "correctCount (app_quiz s2) = correctCount (app_quiz s1) + right_count k (selectedOption (app_quiz s1))"
      "if k = totalQuestions
       then playing k s2 \<and> app_pending s2 = app_pending s1 @ [correctCount (app_quiz s1) + right_count k (selectedOption (app_quiz s1))]
              \<and> answered (app_quiz s2) \<and> selectedOption (app_quiz s2) = selectedOption (app_quiz s1)
       else playing (Suc k) s2 \<and> app_pending s2 = app_pending s1"
    using press_next[OF s1(2,4)] by blast
  have "app_run (map Press_option cs @ [Press_next]) s = Some s2" by (simp only: app_run_append s1(1) option.case app_run.simps s2(1))
  then show ?thesis using s2(2-4) s1(3,5,6,7) by (intro exI[of _ s2]) (simp add: c_def split: if_splits)
qed

lemma answer_all:
  assumes "playing k s" "css \<noteq> []" "k + length css = Suc totalQuestions" "\<forall>cs \<in> set css. cs \<noteq> [] \<and> (\<forall>i \<in> set cs. 1 \<le> i \<and> i < 5)"
  shows "\<exists>s'. app_run (answer_events css) s = Some s' \<and> app_pending s' = app_pending s @ [correctCount (app_quiz s) + rights k css]
    \<and> playing totalQuestions s' \<and> answered (app_quiz s') \<and> selectedOption (app_quiz s') = last (last css)
    \<and> correctCount (app_quiz s') = correctCount (app_quiz s) + rights k css"
  using assms
proof (induction css arbitrary: k s)
  case (Cons cs css)
  obtain s1 where s1: "app_run (map Press_option cs @ [Press_next]) s = Some s1"
      "correctCount (app_quiz s1) = correctCount (app_quiz s) + right_count k (last cs)"
      "if k = totalQuestions
       then playing k s1 \<and> app_pending s1 = app_pending s @ [correctCount (app_quiz s) + right_count k (last cs)]
         \<and> answered (app_quiz s1) \<and> selectedOption (app_quiz s1) = last cs
       else playing (Suc k) s1 \<and> app_pending s1 = app_pending s"
    using answer_block[OF Cons.prems(1), of cs] Cons.prems(4) by auto
  have ev: "app_run (answer_events (cs # css)) s = app_run (answer_events css) s1"
    using s1(1) app_run_append[of "map Press_option cs @ [Press_next]" "answer_events css" s] by (simp add: answer_events_def)
  show ?case
  proof (cases "css = []")
    case True
    then show ?thesis using ev s1 Cons.prems(3) by (simp add: answer_events_def)
  next
    case False
    then have "k \<noteq> totalQuestions" using Cons.prems(3) by auto
    then have p: "playing (Suc k) s1" "app_pending s1 = app_pending s" using s1(3) by auto
    show ?thesis using False Cons.IH[OF p(1) False] Cons.prems(3,4) ev s1(2) p(2) by (auto simp: add.assoc)
  qed
qed simp

text \<open>
  C27. A user who selects options on each question in any order, changes the selection at will, and presses next once per
  question, ends with the number of questions whose last selection is the right answer in the score file, and on the
  home screen; no handler throws.
\<close>

theorem quiz_score_correct:
  assumes "length css = totalQuestions" "\<forall>cs \<in> set css. cs \<noteq> [] \<and> (\<forall>i \<in> set cs. 1 \<le> i \<and> i < 5)"
  shows "\<exists>s. app_run (answer_events css @ [Write_done 0 True]) (app_init file) = Some s \<and> app_screen s = HomeScreen
    \<and> app_file s = Some (length (filter (\<lambda>i. is_right (i + 1) (last (css ! i)) = Some True) [0..<totalQuestions]))
    \<and> app_pending s = []"
proof -
  have "playing 1 (app_init file)" by (simp add: playing_def app_init_def quiz_init_def total)
  moreover have "css \<noteq> []" using assms(1) by (auto simp: total)
  ultimately obtain s where "app_run (answer_events css) (app_init file) = Some s" "app_pending s = [rights 1 css]"
    using answer_all[of 1 "app_init file" css] assms by (auto simp: app_init_def quiz_init_def)
  then show ?thesis using rights_filter[of 1 css] assms(1) by (simp add: app_run_append write_done_def)
qed

theorem quiz_score_correct_witness:
  "\<exists>s. app_run (answer_events [[1, 4], [3], [2], [2]] @ [Write_done 0 True]) (app_init None) = Some s \<and> app_file s = Some 3"
proof -
  have "length (filter (\<lambda>i. is_right (i + 1) (last ([[1, 4], [3], [2], [2 :: int]] ! i)) = Some True) [0..<totalQuestions]) = 3"
    by (simp add: total upt_rec is_right_def customData_options_def customData_answers_def js_def)
  then show ?thesis using quiz_score_correct[of "[[1, 4], [3], [2], [2]]" None] by (auto simp: total)
qed

section \<open>Repeated submission\<close>

lemma submit_again:
  assumes "playing totalQuestions s" "answered (app_quiz s)" "b = right_count totalQuestions (selectedOption (app_quiz s))"
  shows "\<exists>s'. app_run (replicate n Press_next) s = Some s' \<and> app_file s' = app_file s
    \<and> app_pending s' = app_pending s @ map (\<lambda>i. correctCount (app_quiz s) + Suc i * b) [0..<n]"
  using assms
proof (induction n arbitrary: s)
  case (Suc n)
  obtain s1 where s1: "app_step Press_next s = Some s1" "app_file s1 = app_file s" "correctCount (app_quiz s1) = correctCount (app_quiz s) + b"
      "playing totalQuestions s1" "app_pending s1 = app_pending s @ [correctCount (app_quiz s) + b]" "answered (app_quiz s1)"
      "selectedOption (app_quiz s1) = selectedOption (app_quiz s)"
    using press_next[OF Suc.prems(1,2)] Suc.prems(3) by auto
  have "[0..<Suc n] = 0 # map Suc [0..<n]" by (simp add: upt_conv_Cons map_Suc_upt del: upt_Suc)
  then show ?case using Suc.IH[OF s1(4,6)] Suc.prems(3) s1 by (auto simp: comp_def add.assoc simp del: app_step.simps upt_Suc)
qed simp

lemma writes_done:
  "ps \<noteq> [] \<Longrightarrow> app_pending s = ps \<Longrightarrow>
   \<exists>s'. app_run (replicate (length ps) (Write_done 0 True)) s = Some s' \<and> app_file s' = Some (last ps) \<and> app_pending s' = []"
proof (induction ps arbitrary: s)
  case (Cons p ps)
  define s1 where "s1 = s\<lparr>app_pending := ps, app_file := Some p, app_screen := HomeScreen\<rparr>"
  have st: "app_step (Write_done 0 True) s = Some s1" using Cons.prems(2) by (simp add: write_done_def s1_def)
  show ?case
  proof (cases "ps = []")
    case False
    then show ?thesis using Cons.IH[of s1] st by (simp add: s1_def del: app_step.simps)
  qed (use st in \<open>simp add: s1_def del: app_step.simps\<close>)
qed simp

text \<open>
  C33. The button submit stays active while the score is being written: after any selections, pressing it \<open>r\<close> more times on
  the last question, with the writes completed in the order of the presses, stores the number of right answers plus \<open>r\<close> when the
  last answer is right, and just the number of right answers when it is wrong.  With four right answers the stored score is
  \<open>totalQuestions + r\<close>, more than there are questions.
\<close>

theorem quiz_submit_repeated:
  assumes "length css = totalQuestions" "\<forall>cs \<in> set css. cs \<noteq> [] \<and> (\<forall>i \<in> set cs. 1 \<le> i \<and> i < 5)"
  shows "\<exists>s. app_run (answer_events css @ replicate r Press_next @ replicate (Suc r) (Write_done 0 True)) (app_init file) = Some s
    \<and> app_file s = Some (length (filter (\<lambda>i. is_right (i + 1) (last (css ! i)) = Some True) [0..<totalQuestions])
        + (if is_right totalQuestions (last (last css)) = Some True then r else 0))"
proof -
  define b where "b = right_count totalQuestions (last (last css))"
  have "playing 1 (app_init file)" by (simp add: playing_def app_init_def quiz_init_def total)
  moreover have "css \<noteq> []" using assms(1) by (auto simp: total)
  ultimately obtain s where s: "app_run (answer_events css) (app_init file) = Some s" "app_pending s = [rights 1 css]" "playing totalQuestions s"
      "answered (app_quiz s)" "selectedOption (app_quiz s) = last (last css)" "correctCount (app_quiz s) = rights 1 css"
    using answer_all[of 1 "app_init file" css] assms by (auto simp: app_init_def quiz_init_def)
  define ps where "ps = rights 1 css # map (\<lambda>i. rights 1 css + Suc i * b) [0..<r]"
  obtain s1 where s1: "app_run (replicate r Press_next) s = Some s1" "app_pending s1 = ps"
    using submit_again[OF s(3,4), of b r] s(2,5,6) by (auto simp: b_def ps_def)
  have ps: "length ps = Suc r" "last ps = rights 1 css + r * b" "ps \<noteq> []" by (cases r; simp add: ps_def)+
  obtain s2 where "app_run (replicate (Suc r) (Write_done 0 True)) s1 = Some s2" "app_file s2 = Some (rights 1 css + r * b)"
    using writes_done[OF ps(3) s1(2)] ps(1,2) by auto
  then show ?thesis using s(1) s1(1) rights_filter[of 1 css] assms(1)
    by (auto simp: app_run_append b_def right_count_def simp del: app_run.simps replicate.simps)
qed

theorem quiz_submit_repeated_witness:
  "\<exists>s. app_run (answer_events [[4], [3], [2], [1]] @ replicate 5 Press_next @ replicate 6 (Write_done 0 True)) (app_init None) = Some s
    \<and> app_file s = Some (totalQuestions + 5)"
proof -
  have "length (filter (\<lambda>i. is_right (i + 1) (last ([[4], [3], [2], [1 :: int]] ! i)) = Some True) [0..<totalQuestions]) = 4"
    "is_right totalQuestions 1 = Some True"
    by (simp_all add: total upt_rec is_right_def customData_options_def customData_answers_def js_def)
  then show ?thesis using quiz_submit_repeated[of "[[4], [3], [2], [1]]" 5 None] by (auto simp: total)
qed

section \<open>The form\<close>

lemma storage_keys: "distinct [js ''firstName'', js ''lastName'', js ''nickName'', js ''age'']"
  by (simp add: js_def)

lemma js_trim_empty: "js_trim s = [] \<longleftrightarrow> (\<forall>c \<in> set s. js_ws c)"
proof (cases "\<forall>c \<in> set s. js_ws c")
  case True
  then have "js_trim s = []" by (auto simp: js_trim_def dest: set_dropWhileD)
  then show ?thesis using True by simp
next
  case False
  then have ne: "dropWhile js_ws s \<noteq> []" by simp
  then obtain c r where cr: "dropWhile js_ws s = c # r" by (cases "dropWhile js_ws s") auto
  then have "\<not> js_ws c" using hd_dropWhile[OF ne] by simp
  then have "js_trim s \<noteq> []" by (simp add: js_trim_def cr)
  then show ?thesis using False by simp
qed

lemma setItems_stored:
  assumes laws: "\<forall>st k v. \<exists>st'. setItem st k v = Some st' \<and> getItem st' k = Inr (Some v) \<and> (\<forall>k'. k' \<noteq> k \<longrightarrow> getItem st' k' = getItem st k')"
    and "distinct (map fst xs)"
  shows "\<exists>st'. setItems setItem (map (\<lambda>(k, v). (k, Some v)) xs) st = (st', True)
    \<and> (\<forall>k v. (k, v) \<in> set xs \<longrightarrow> getItem st' k = Inr (Some v)) \<and> (\<forall>k. k \<notin> fst ` set xs \<longrightarrow> getItem st' k = getItem st k)"
  using assms(2)
proof (induction xs arbitrary: st)
  case (Cons x xs)
  obtain k v where x: "x = (k, v)" by (cases x)
  obtain st1 where st1: "setItem st k v = Some st1" "getItem st1 k = Inr (Some v)" "\<And>k'. k' \<noteq> k \<Longrightarrow> getItem st1 k' = getItem st k'"
    using laws by blast
  obtain st2 where st2: "setItems setItem (map (\<lambda>(k, v). (k, Some v)) xs) st1 = (st2, True)"
      "\<And>k v. (k, v) \<in> set xs \<Longrightarrow> getItem st2 k = Inr (Some v)" "\<And>k. k \<notin> fst ` set xs \<Longrightarrow> getItem st2 k = getItem st1 k"
    using Cons.IH[of st1] Cons.prems by auto
  have "k \<notin> fst ` set xs" using Cons.prems x by simp
  then have "getItem st2 k = Inr (Some v)" using st2(3) st1(2) by simp
  then show ?case using st1(1,3) st2 x by auto
qed simp

text \<open>
  C28. The button of the home screen, with four texts in the fields: when the three names have a character other than
  white space and the age is not empty and converts to a number, it stores the four fields, opens the quiz, and a
  home screen opened later shows them again; otherwise it stores nothing, stays, and marks exactly the fields at
  fault.  The storage keeps what was stored under a key until that key is set again.
\<close>

theorem home_form_correct:
  assumes "firstName h = Some f" "lastName h = Some l" "nickName h = Some n" "age h = Some a"
    and setItem: "\<forall>st k v. \<exists>st'. setItem st k v = Some st' \<and> getItem st' k = Inr (Some v) \<and> (\<forall>k'. k' \<noteq> k \<longrightarrow> getItem st' k' = getItem st k')"
  shows "if (\<exists>c \<in> set f. \<not> js_ws c) \<and> (\<exists>c \<in> set l. \<not> js_ws c) \<and> (\<exists>c \<in> set n. \<not> js_ws c) \<and> a \<noteq> [] \<and> \<not> js_isNaN a
    then \<exists>st'. openQuizScreen setItem h st = Some (QuizScreen, h, st')
           \<and> getData getItem st' home_init = home_init\<lparr>firstName := Some f, lastName := Some l, nickName := Some n, age := Some a\<rparr>
    else \<exists>h'. openQuizScreen setItem h st = Some (HomeScreen, h', st)
           \<and> h' = h\<lparr>firstNameError := (\<forall>c \<in> set f. js_ws c), lastNameError := (\<forall>c \<in> set l. js_ws c),
                     nickNameError := (\<forall>c \<in> set n. js_ws c), ageError := (a = [] \<or> js_isNaN a)\<rparr>"
proof -
  let ?xs = "[(js ''firstName'', f), (js ''lastName'', l), (js ''nickName'', n), (js ''age'', a)]"
  have keys: "distinct (map fst ?xs)" using storage_keys by simp
  obtain st' where st': "setItems setItem (map (\<lambda>(k, v). (k, Some v)) ?xs) st = (st', True)"
      "\<forall>k v. (k, v) \<in> set ?xs \<longrightarrow> getItem st' k = Inr (Some v)"
    using setItems_stored[OF setItem keys] by blast
  have "setData setItem h st = (st', True)" using st'(1) assms(1-4) by (simp add: setData_def)
  moreover have "getData getItem st' home_init = home_init\<lparr>firstName := Some f, lastName := Some l, nickName := Some n, age := Some a\<rparr>"
    using st'(2) by (simp add: getData_def)
  ultimately show ?thesis
    using assms(1-4) by (simp add: openQuizScreen_def validate_def Let_def js_trim_empty)
qed

theorem home_form_correct_witness:
  "\<exists>st'. openQuizScreen (\<lambda>st k v. Some (st(k \<mapsto> v)))
       (home_init\<lparr>firstName := Some (js ''Ada''), lastName := Some (js ''L''), nickName := Some (js ''a''), age := Some (js '' 36 '')\<rparr>) (\<lambda>k. None)
     = Some (QuizScreen, home_init\<lparr>firstName := Some (js ''Ada''), lastName := Some (js ''L''), nickName := Some (js ''a''), age := Some (js '' 36 '')\<rparr>, st')
   \<and> age (getData (\<lambda>st k. Inr (st k)) st' home_init) = Some (js '' 36 '')"
proof -
  have law: "\<forall>st k v. \<exists>st'. Some (st(k \<mapsto> v)) = Some st' \<and> (Inr (st' k) :: unit + js_string option) = Inr (Some v)
      \<and> (\<forall>k'. k' \<noteq> k \<longrightarrow> (Inr (st' k') :: unit + js_string option) = Inr (st k'))" by simp
  have "\<not> js_isNaN (js '' 36 '')"
    by (simp add: js_isNaN_def js_trim_def js_def js_ws_def js_decimal_def js_unsigned_def js_digit_def Let_def)
  then show ?thesis
    using home_form_correct[of "home_init\<lparr>firstName := Some (js ''Ada''), lastName := Some (js ''L''), nickName := Some (js ''a''), age := Some (js '' 36 '')\<rparr>"
      "js ''Ada''" "js ''L''" "js ''a''" "js '' 36 ''" "\<lambda>st k v. Some (st(k \<mapsto> v))" "\<lambda>st k. Inr (st k)" "\<lambda>k. None", OF _ _ _ _ law]
    by (auto simp: js_def js_ws_def)
qed

end
