(* ===== verification/Spec2Isabelle.thy ===== *)
theory Spec2Isabelle
  imports FixedString_Machine FixedString_Queries SortedVector_Map ProducerConsumerQueue_Correct GroupVarint_Stream
    RWSpinLock_Correct RWSpinLock_Holders RWTicketSpinLock_Correct Unicode_Correct
    Bignum_Machine BignumDtoa_Correct Strtod_Correct QuizApp_Correct
begin

text \<open>
  \<^bold>\<open>Verification of the quiz application and of the libraries it bundles\<close>

  \<^bold>\<open>The program.\<close>  The repository is a React Native quiz: a home screen with a form and the last score
  (\<^verbatim>\<open>src/src/HomeScreen.js\<close>), a quiz screen (\<^verbatim>\<open>src/src/QuizScreen.js\<close>, questions in \<^verbatim>\<open>src/src/assests/data.json\<close>) and
  the navigation between them.  Its native part is under \<^verbatim>\<open>src/ios/Pods\<close>: the C++ libraries folly
  (\<^verbatim>\<open>Flipper-Folly/folly\<close>) and double-conversion, on which the React Native bridge and the Flipper client rest.  The
  components below are those with state, bounds and encodings of their own.  GroupVarint uses Bits; the conversions of
  doubles to digits and back use the bignums and the accessors of doubles; the others do not call each other.

  \<^bold>\<open>Conventions\<close> (\<^verbatim>\<open>Prelude\<close>).  C++ code runs in an error monad: \<open>Inl e\<close> is an exception, \<^verbatim>\<open>std::terminate\<close>, \<^verbatim>\<open>abort\<close> or a
  failed assertion (\<open>Terminate\<close>), or undefined behaviour (\<open>Undefined\<close>), in particular an access outside an array.
  Operations on an object take and return its record.  Loops are recursive functions; where the number of iterations
  depends on the values, \<open>res_while\<close> takes a bound, and the theorems say which bound suffices.  Integers are words, or
  natural numbers with the reduction modulo the width written out.

  \<^bold>\<open>Theories and sources\<close>

  \<^item> \<^verbatim>\<open>FixedString\<close>, \<^verbatim>\<open>FixedString_Detail\<close> (\<^verbatim>\<open>folly/FixedString.h\<close>): \<^verbatim>\<open>BasicFixedString<Char, N>\<close> as a record of its character
    array and size; constructors, mutators, searches, comparisons, concatenations, each overload a definition.
    \<^verbatim>\<open>FixedString_Correct\<close> has the invariant (null terminator, size within capacity) and one specification per
    operation; \<^verbatim>\<open>FixedString_Search\<close> the searches, over the locale \<open>search_family\<close> for the overloads that share an
    implementation; \<^verbatim>\<open>FixedString_Machine\<close> the refinement of character lists by sequences of calls, up to the first call of
    \<^verbatim>\<open>replace\<close> that omits its documented check, what such a call does, and what \<^verbatim>\<open>copy\<close> reports; \<^verbatim>\<open>FixedString_Queries\<close> the searches, comparisons and constructors against their documentation.
  \<^item> \<^verbatim>\<open>SortedVector\<close> (\<^verbatim>\<open>folly/sorted_vector_types.h\<close>): the set and the map over a vector, with the binary searches, hinted
    and bulk insertion.  \<^verbatim>\<open>SortedVector_Correct\<close> proves them for every strict weak order (locale \<open>strict_weak\<close>),
    \<^verbatim>\<open>SortedVector_Map\<close> adds the map (locale \<open>map_order\<close>), and the refinement of sets and partial maps by sequences of
    calls.
  \<^item> \<^verbatim>\<open>ProducerConsumerQueue\<close> (\<^verbatim>\<open>folly/ProducerConsumerQueue.h\<close>): the ring buffer, each operation, and \<^verbatim>\<open>write\<close> and \<^verbatim>\<open>read\<close> as
    atomic actions of two threads, an inductive step relation.  \<^verbatim>\<open>ProducerConsumerQueue_Correct\<close> has the sequential
    contract (locale \<open>bounded_fifo\<close>), the invariant of all interleavings, and the destructor.
  \<^item> \<^verbatim>\<open>RWSpinLock\<close>, \<^verbatim>\<open>RWSpinLock_Holders\<close>, \<^verbatim>\<open>RWTicketSpinLock\<close> (\<^verbatim>\<open>folly/synchronization/RWSpinLock.h\<close>): the two locks for readers and writers, as accesses of
    any number of threads to a word or a ticket, and the holder classes.  \<^verbatim>\<open>RWSpinLock_Correct\<close> and \<^verbatim>\<open>RWTicketSpinLock_Correct\<close> have the invariants of all
    interleavings, from which mutual exclusion follows, and that a waiting thread can always be served; for the ticket lock also that writers are
    served in line, and a run that breaks the lock in the build without SSE.  Both use the locale \<open>interleaving\<close> of \<^verbatim>\<open>Interleaving\<close>.
    \<^verbatim>\<open>RWSpinLock_Holders\<close> shows that holders release what they take.
  \<^item> \<^verbatim>\<open>Bits\<close> (\<^verbatim>\<open>folly/lang/Bits.h\<close>), \<^verbatim>\<open>Varint\<close> (\<^verbatim>\<open>folly/Varint.h\<close>) and \<^verbatim>\<open>GroupVarint\<close> (\<^verbatim>\<open>folly/GroupVarint.h\<close>, \<^verbatim>\<open>.cpp\<close>,
    \<^verbatim>\<open>detail/GroupVarintDetail.h\<close>): bit operations, the base-128 code and the group code over byte buffers with checked
    bounds, with their correctness in \<^verbatim>\<open>Bits_Correct\<close>, \<^verbatim>\<open>Varint_Correct\<close>, \<^verbatim>\<open>GroupVarint_Correct\<close> and
    \<^verbatim>\<open>GroupVarint_Stream\<close>: round trips of values, groups and streams, the errors of the decoder, and the equivalence
    of the table-driven decoder with the portable one.  The locales \<open>codec\<close> and \<open>group_format\<close> carry the streams.
  \<^item> \<^verbatim>\<open>Unicode\<close> (\<^verbatim>\<open>folly/Unicode.cpp\<close>): one code point to UTF-8 and back.  \<^verbatim>\<open>Unicode_Correct\<close> shows which bytes the decoder
    accepts, the round trip, and the numbers beyond Unicode that it accepts.  \<^verbatim>\<open>Word_Fields\<close> has the lemmas on fields of words that
    this theory shares with \<^verbatim>\<open>Ieee_Correct\<close>.
  \<^item> \<^verbatim>\<open>Bignum\<close> (\<^verbatim>\<open>double-conversion/bignum.cc\<close>, \<^verbatim>\<open>bignum.h\<close>): the numbers of up to 128 bigits of 28 bits with an
    exponent, every operation of the class in a build with assertions.  \<^verbatim>\<open>Bignum_Correct\<close> has the invariant, the value
    of a number, and assignment, addition, subtraction and comparison; \<^verbatim>\<open>Bignum_Mult\<close> shifts and products;
    \<^verbatim>\<open>Bignum_Power\<close> squares and powers; \<^verbatim>\<open>Bignum_Division\<close> quotient and remainder; \<^verbatim>\<open>Bignum_Strings\<close> reading and
    printing; \<^verbatim>\<open>Bignum_Machine\<close> the refinement of natural numbers by sequences of calls (locale \<open>calculator\<close>) and the
    properties.
  \<^item> \<^verbatim>\<open>Ieee\<close> (\<^verbatim>\<open>double-conversion/ieee.h\<close>, \<^verbatim>\<open>diy-fp.h\<close>, \<^verbatim>\<open>diy-fp.cc\<close>): \<^verbatim>\<open>Double\<close> and \<^verbatim>\<open>Single\<close> on the bit patterns, and \<^verbatim>\<open>DiyFp\<close>.
    \<^verbatim>\<open>Ieee_Correct\<close> relates the fields, neighbours and boundaries of a double to the real numbers that round to it, and has the
    multiplication and normalization of \<^verbatim>\<open>DiyFp\<close>; \<^verbatim>\<open>Ieee_Single\<close> has rounding to nearest for both formats (locale
    \<open>binary_format\<close>), the same facts on floats, and the conversion of a float to a double and back.
  \<^item> \<^verbatim>\<open>BignumDtoa\<close> (\<^verbatim>\<open>double-conversion/bignum-dtoa.cc\<close>): the digits of a double by exact arithmetic, in its four modes.
    \<^verbatim>\<open>BignumDtoa_Estimate\<close> bounds the estimated power of ten, computed in floating point; \<^verbatim>\<open>BignumDtoa_Start\<close> shows that the
    scaled bignums are exact and fit their capacity; \<^verbatim>\<open>BignumDtoa_Digits\<close> has the digit loops; \<^verbatim>\<open>BignumDtoa_Correct\<close> the
    properties: shortest digits that read back as the number, and rounded digits.
  \<^item> \<^verbatim>\<open>Strtod\<close> (\<^verbatim>\<open>double-conversion/strtod.cc\<close>, \<^verbatim>\<open>cached-powers.cc\<close>): decimal digits read as a double.  \<^verbatim>\<open>Strtod_Round\<close> has
    the double of a rounded significand and the arithmetic on doubles; \<^verbatim>\<open>Strtod_Powers\<close> the table of powers of ten and its
    lookups; \<^verbatim>\<open>Strtod_Guess\<close> the error of a product with them and what rounding it gives; \<^verbatim>\<open>Strtod_Diy\<close> the fast path
    built from these, with the numbers next to half the least double; \<^verbatim>\<open>Strtod_Exact\<close> the path on exact doubles and the
    comparison by bignums; \<^verbatim>\<open>Strtod_Trim\<close> trimming, and that 780 digits decide the rounding; \<^verbatim>\<open>Strtod_Correct\<close> that the
    result is the nearest double, and that the digits of \<^verbatim>\<open>BignumDtoa\<close> read back as the number they were printed from.
  \<^item> \<^verbatim>\<open>QuizApp\<close> and \<^verbatim>\<open>QuizApp_Correct\<close> (\<^verbatim>\<open>QuizScreen.js\<close>, \<^verbatim>\<open>HomeScreen.js\<close>, \<^verbatim>\<open>data.json\<close>): the two screens as state machines
    over the presses of their buttons and the completion of the file writes.

  \<^bold>\<open>Bounds.\<close>  The division of bignums takes a bound on the iterations of its loops; \<open>2 ^ 16\<close> suffices since each
  iteration takes at least one multiple of the divisor away and the quotient is below \<open>2 ^ 16\<close>.  The same bound serves the
  loop of shortest digits, which ends after 17 digits.  The destructor of the
  queue ends within as many steps as the queue has slots.  All other loops end by structure or by a measure.

  \<^bold>\<open>Assumptions.\<close>  The two threads of the queue see each other's stores in order (the code uses acquire and release), and the accesses
  to a lock are sequentially consistent.
  The objects in a container are values: copying and destroying them has no effect beyond the queue, where the slots
  record it.  An argument of an operation on bignums is another object than the receiver.  Overflow of \<^verbatim>\<open>int\<close> in the
  exponents of bignums and in the decimal exponents of \<^verbatim>\<open>Strtod\<close> is an error of the model (\<open>int_res\<close>); the bigit length of a bignum, the
  sum of used digits and exponent, is taken not to overflow.  The storage of the home screen is a parameter with the documented laws of
  \<^verbatim>\<open>AsyncStorage\<close>.  Arithmetic on doubles rounds to nearest, ties to even.

  \<^bold>\<open>Not modelled\<close>

  \<^item> The iterators, stream output and literals of fixed strings; allocators and growth policies of the sorted vectors;
    they do not change the contents.
  \<^item> The reading of floats, the fast printing paths and the formatting front end of double-conversion, folly's
    \<^verbatim>\<open>EvictingCacheMap\<close>, mutexes and concurrent containers: not yet; they are next, in this order.
  \<^item> Sockets, event loops, futures and the Flipper client, which are calls of the operating system and callbacks; the
    layout of the screens; generated Android code.
\<close>

end
